(* ===== verification/KPrelude.thy ===== *)
theory KPrelude
  imports Main "HOL-Library.Word"
begin

unbundle bit_operations_syntax

text \<open>
  Shared vocabulary of the CapazOS kernel development: machine integer types, the outcome of a
  kernel operation (a value, a \<open>panic\<close>, or a loop that never returns), NULL-terminated chains of
  pointers, and the generic facts about words, lists and chains that the component theories use.
\<close>

section \<open>Machine integers and pointers\<close>

type_synonym u8 = "8 word"
type_synonym u16 = "16 word"
type_synonym u32 = "32 word"
type_synonym u64 = "64 word"

text \<open>A pointer is a 64-bit virtual address; the null pointer is \<open>0\<close>.\<close>

type_synonym ptr = u64

abbreviation (input) NULL :: ptr where
  "NULL \<equiv> 0"

text \<open>The address of a local variable passed as an out-parameter: only its not being NULL matters.\<close>

abbreviation (input) LOCAL :: ptr where
  "LOCAL \<equiv> 1"

named_theorems ksimps \<open>unfolding rules of the kernel's straight-line helpers\<close>

section \<open>Outcomes\<close>

text \<open>
  \<open>Ret\<close> is a normal return, \<open>Panic\<close> is \<open>panic(msg)\<close> (the CPU is parked and never returns) and
  \<open>Hang\<close> is a loop of the source that does not end.
\<close>

datatype 'a outcome = Ret 'a | Panic string | Hang

primrec obind :: "'a outcome \<Rightarrow> ('a \<Rightarrow> 'b outcome) \<Rightarrow> 'b outcome" where
  "obind (Ret x) f = f x"
| "obind (Panic m) f = Panic m"
| "obind Hang f = Hang"

text \<open>The result of a loop defined as a partial function: \<open>None\<close> is non-termination.\<close>

primrec of_loop :: "'a option \<Rightarrow> 'a outcome" where
  "of_loop None = Hang"
| "of_loop (Some x) = Ret x"

text \<open>\<open>if (!c) panic(msg);\<close> followed by the rest of the function.\<close>

definition kassert :: "bool \<Rightarrow> string \<Rightarrow> 'a outcome \<Rightarrow> 'a outcome" where
  "kassert c msg k = (if c then k else Panic msg)"

lemma obind_Ret_iff: "obind m f = Ret y \<longleftrightarrow> (\<exists>x. m = Ret x \<and> f x = Ret y)"
  by (cases m) auto

lemma obind_cong [fundef_cong]:
  "m = m' \<Longrightarrow> (\<And>x. m' = Ret x \<Longrightarrow> f x = f' x) \<Longrightarrow> obind m f = obind m' f'"
  by (cases m') auto

lemma of_loop_Ret_iff [simp]: "of_loop r = Ret x \<longleftrightarrow> r = Some x"
  by (cases r) auto

lemma kassert_Ret_iff [simp]: "kassert c msg k = Ret x \<longleftrightarrow> c \<and> k = Ret x"
  by (simp add: kassert_def)

lemma kassert_True [simp]: "kassert True msg k = k"
  by (simp add: kassert_def)

lemma kassert_False [simp]: "kassert False msg k = Panic msg"
  by (simp add: kassert_def)

text \<open>Partial correctness of an outcome: what holds of the result when there is one.\<close>

definition on_Ret :: "('a \<Rightarrow> bool) \<Rightarrow> 'a outcome \<Rightarrow> bool" where
  "on_Ret P r = (case r of Ret x \<Rightarrow> P x | _ \<Rightarrow> True)"

lemma on_Ret_simps [simp]:
  "on_Ret P (Ret x) = P x" "on_Ret P (Panic m) = True" "on_Ret P Hang = True"
  "on_Ret P (kassert c msg k) = (c \<longrightarrow> on_Ret P k)"
  "on_Ret P (of_loop l) = (\<forall>x. l = Some x \<longrightarrow> P x)"
  by (auto simp: on_Ret_def kassert_def split: option.splits) (cases l; simp)+

lemma on_Ret_obind [simp]: "on_Ret P (obind m f) = on_Ret (\<lambda>x. on_Ret P (f x)) m"
  by (cases m) simp_all

lemma on_RetD: "on_Ret P r \<Longrightarrow> r = Ret x \<Longrightarrow> P x"
  by simp

lemma on_RetI: "(\<And>x. r = Ret x \<Longrightarrow> P x) \<Longrightarrow> on_Ret P r"
  by (cases r) simp_all

lemma on_Ret_mono: "on_Ret P r \<Longrightarrow> (\<And>x. P x \<Longrightarrow> Q x) \<Longrightarrow> on_Ret Q r"
  by (cases r) simp_all

section \<open>Words\<close>

lemma unat_less_two_power [simp]: "unat (w :: 'a::len word) < 2 ^ LENGTH('a)"
  by (rule unsigned_less)

lemma unat_add_no_wrap:
  fixes a b :: "'a::len word"
  assumes "unat a + unat b < 2 ^ LENGTH('a)"
  shows "unat (a + b) = unat a + unat b"
  using assms by (simp add: unat_word_ariths)

lemma unat_sub_no_wrap:
  fixes a b :: "'a::len word"
  assumes "b \<le> a"
  shows "unat (a - b) = unat a - unat b"
  using assms by (simp add: unat_sub)

lemma unat_Suc_no_wrap:
  fixes a :: "'a::len word"
  assumes "Suc (unat a) < 2 ^ LENGTH('a)"
  shows "unat (a + 1) = Suc (unat a)"
proof -
  have "unat (a + 1) = (unat a + unat (1 :: 'a word)) mod 2 ^ LENGTH('a)"
    by (rule unat_word_ariths)
  with assms show ?thesis by simp
qed

lemma unat_pred:
  fixes a :: "'a::len word"
  assumes "a \<noteq> 0"
  shows "unat (a - 1) = unat a - 1"
proof -
  have "1 \<le> a" using assms by (simp add: word_le_nat_alt unat_gt_0 Suc_leI)
  then show ?thesis by (simp add: unat_sub)
qed

lemma unat_ucast_32_64 [simp]: "unat (ucast (w :: u32) :: u64) = unat w"
  using unat_less_two_power [of w] by (simp add: unsigned_ucast_eq take_bit_nat_eq_self)

lemma word_inc_neq [simp]: "(a :: 'a::len word) + 1 \<noteq> a"
  by simp

section \<open>Lists\<close>

lemma nth_list_update_if:
  "i < length xs \<Longrightarrow> xs[i := v] ! j = (if i = j then v else xs ! j)"
  by simp

lemma take_Suc_update: "n < length xs \<Longrightarrow> take (Suc n) (xs[n := v]) = take n xs @ [v]"
  by (simp add: take_Suc_conv_app_nth)

lemma butlast_take_Suc: "n < length xs \<Longrightarrow> take (Suc n) xs = take n xs @ [xs ! n]"
  by (rule take_Suc_conv_app_nth)

section \<open>NULL-terminated chains\<close>

text \<open>
  \<open>chain nx p xs\<close>: following the link field \<open>nx\<close> from the pointer \<open>p\<close> visits the nodes \<open>xs\<close> and
  then reaches NULL. It is the representation predicate of every singly linked list of the kernel.
\<close>

fun chain :: "(ptr \<Rightarrow> ptr) \<Rightarrow> ptr \<Rightarrow> ptr list \<Rightarrow> bool" where
  "chain nx p [] \<longleftrightarrow> p = NULL"
| "chain nx p (a # as) \<longleftrightarrow> p = a \<and> a \<noteq> NULL \<and> chain nx (nx a) as"

lemma chain_NULL [simp]: "chain nx NULL xs \<longleftrightarrow> xs = []"
  by (cases xs) auto

lemma chain_neq_NULL: "p \<noteq> NULL \<Longrightarrow> chain nx p xs \<longleftrightarrow> (\<exists>ys. xs = p # ys \<and> chain nx (nx p) ys)"
  by (cases xs) auto

lemma chain_unique: "chain nx p xs \<Longrightarrow> chain nx p ys \<Longrightarrow> xs = ys"
proof (induction xs arbitrary: p ys)
  case Nil
  then show ?case by simp
next
  case (Cons a as)
  then show ?case by (cases ys) auto
qed

lemma chain_no_NULL: "chain nx p xs \<Longrightarrow> NULL \<notin> set xs"
  by (induction xs arbitrary: p) auto

lemma chain_drop: "chain nx p (xs @ a # ys) \<Longrightarrow> chain nx (nx a) ys"
  by (induction xs arbitrary: p) auto

lemma chain_distinct: "chain nx p xs \<Longrightarrow> distinct xs"
proof (induction xs arbitrary: p)
  case Nil
  then show ?case by simp
next
  case (Cons a as)
  from Cons.prems have c: "chain nx (nx a) as" by simp
  have "a \<notin> set as"
  proof
    assume "a \<in> set as"
    then obtain bs cs where as: "as = bs @ a # cs" by (meson split_list)
    with c have "chain nx (nx a) cs" using chain_drop by blast
    with c as have "bs @ a # cs = cs" using chain_unique by blast
    then have "length (bs @ a # cs) = length cs" by simp
    then show False by simp
  qed
  moreover have "distinct as" using c by (rule Cons.IH)
  ultimately show ?case by simp
qed

lemma chain_upd [simp]: "a \<notin> set xs \<Longrightarrow> chain (nx(a := v)) p xs = chain nx p xs"
  by (induction xs arbitrary: p) auto

lemma chain_cong: "(\<And>a. a \<in> set xs \<Longrightarrow> nx a = nx' a) \<Longrightarrow> chain nx p xs = chain nx' p xs"
  by (induction xs arbitrary: p) auto

lemma chain_snoc:
  assumes "chain nx p (xs @ [t])" and "a \<noteq> NULL" and "a \<notin> set (xs @ [t])"
  shows "chain (nx(t := a, a := NULL)) p (xs @ [t, a])"
proof -
  have "t \<notin> set xs" using chain_distinct [OF assms(1)] by simp
  with assms show ?thesis by (induction xs arbitrary: p) auto
qed

end
