(* ===== verification/Mem.thy ===== *)
theory Mem
  imports KPrelude
begin

unbundle bit_operations_syntax

text \<open>
  Byte memory and the freestanding memory and string routines of \<open>Kern/Kernel/mm/mem.c\<close> and
  \<open>Kern/Loader/loader.c\<close>. A memory maps every 64-bit address to a byte, so overlapping buffers alias
  as they do in the machine. The counters of the loops run over natural numbers, which is exact: a
  \<open>size_t\<close> counter that stays below a \<open>size_t\<close> bound does not wrap.
\<close>

type_synonym mem = "ptr \<Rightarrow> u8"

section \<open>Routines of the kernel\<close>

fun memset_loop :: "ptr \<Rightarrow> u8 \<Rightarrow> nat \<Rightarrow> nat \<Rightarrow> mem \<Rightarrow> mem" where
  "memset_loop p v i 0 m = m"
| "memset_loop p v i (Suc k) m = memset_loop p v (Suc i) k (m(p + of_nat i := v))"

definition memset :: "ptr \<Rightarrow> 32 word \<Rightarrow> u64 \<Rightarrow> mem \<Rightarrow> ptr \<times> mem" where
  "memset dst c n m = (dst, memset_loop dst (ucast c) 0 (unat n) m)"

fun copy_up :: "ptr \<Rightarrow> ptr \<Rightarrow> nat \<Rightarrow> nat \<Rightarrow> mem \<Rightarrow> mem" where
  "copy_up d s i 0 m = m"
| "copy_up d s i (Suc k) m = copy_up d s (Suc i) k (m(d + of_nat i := m (s + of_nat i)))"

fun copy_down :: "ptr \<Rightarrow> ptr \<Rightarrow> nat \<Rightarrow> mem \<Rightarrow> mem" where
  "copy_down d s 0 m = m"
| "copy_down d s (Suc i) m = copy_down d s i (m(d + of_nat i := m (s + of_nat i)))"

definition memcpy :: "ptr \<Rightarrow> ptr \<Rightarrow> u64 \<Rightarrow> mem \<Rightarrow> ptr \<times> mem" where
  "memcpy dst src n m = (dst, copy_up dst src 0 (unat n) m)"

definition memmove :: "ptr \<Rightarrow> ptr \<Rightarrow> u64 \<Rightarrow> mem \<Rightarrow> ptr \<times> mem" where
  "memmove dst src n m =
     (if dst = src \<or> n = 0 then (dst, m)
      else if dst < src then (dst, copy_up dst src 0 (unat n) m)
      else (dst, copy_down dst src (unat n) m))"

fun memcmp_loop :: "ptr \<Rightarrow> ptr \<Rightarrow> nat \<Rightarrow> nat \<Rightarrow> mem \<Rightarrow> int" where
  "memcmp_loop a b i 0 m = 0"
| "memcmp_loop a b i (Suc k) m =
     (if m (a + of_nat i) \<noteq> m (b + of_nat i) then uint (m (a + of_nat i)) - uint (m (b + of_nat i))
      else memcmp_loop a b (Suc i) k m)"

definition memcmp :: "ptr \<Rightarrow> ptr \<Rightarrow> u64 \<Rightarrow> mem \<Rightarrow> int" where
  "memcmp a b n m = memcmp_loop a b 0 (unat n) m"

text \<open>The scan for the terminator; in a memory without a zero byte it does not end.\<close>

partial_function (option) strlen_loop :: "ptr \<Rightarrow> u64 \<Rightarrow> mem \<Rightarrow> u64 option" where
  "strlen_loop s n m = (if m (s + n) \<noteq> 0 then strlen_loop s (n + 1) m else Some n)"

definition strlen :: "ptr \<Rightarrow> mem \<Rightarrow> u64 outcome" where
  "strlen s m = (if s = NULL then Ret 0 else of_loop (strlen_loop s 0 m))"

section \<open>Routines of the loader\<close>

fun loader_memcpy_loop :: "ptr \<Rightarrow> ptr \<Rightarrow> nat \<Rightarrow> mem \<Rightarrow> mem" where
  "loader_memcpy_loop d s 0 m = m"
| "loader_memcpy_loop d s (Suc n) m = loader_memcpy_loop (d + 1) (s + 1) n (m(d := m s))"

definition loader_memcpy :: "ptr \<Rightarrow> ptr \<Rightarrow> u64 \<Rightarrow> mem \<Rightarrow> ptr \<times> mem" where
  "loader_memcpy dst src n m = (dst, loader_memcpy_loop dst src (unat n) m)"

fun loader_memset_loop :: "ptr \<Rightarrow> u8 \<Rightarrow> nat \<Rightarrow> mem \<Rightarrow> mem" where
  "loader_memset_loop d c 0 m = m"
| "loader_memset_loop d c (Suc n) m = loader_memset_loop (d + 1) c n (m(d := c))"

definition loader_memset :: "ptr \<Rightarrow> 32 word \<Rightarrow> u64 \<Rightarrow> mem \<Rightarrow> ptr \<times> mem" where
  "loader_memset dst c n m = (dst, loader_memset_loop dst (ucast c) (unat n) m)"

section \<open>Address ranges\<close>

text \<open>\<open>span p n a\<close>: the address lies in the \<open>n\<close> bytes from \<open>p\<close>; offsets are taken modulo 2^64.\<close>

definition span :: "ptr \<Rightarrow> nat \<Rightarrow> ptr \<Rightarrow> bool" where
  "span p n a \<longleftrightarrow> unat (a - p) < n"

lemma span_add [simp]: "span p n (p + of_nat i) \<longleftrightarrow> i mod 2 ^ 64 < n"
  by (simp add: span_def unat_of_nat)

lemma span_0 [simp]: "\<not> span p 0 a"
  by (simp add: span_def)

lemma span_Suc: "n < 2 ^ 64 \<Longrightarrow> span p (Suc n) a \<longleftrightarrow> a = p + of_nat n \<or> span p n a"
proof -
  assume n: "n < 2 ^ 64"
  have "unat (a - p) = n \<longleftrightarrow> a = p + of_nat n"
  proof
    assume "unat (a - p) = n"
    then have "a - p = of_nat n" by auto
    then show "a = p + of_nat n" by (simp add: algebra_simps)
  next
    assume "a = p + of_nat n"
    then show "unat (a - p) = n" using n by (simp add: unat_of_nat)
  qed
  then show ?thesis by (auto simp: span_def less_Suc_eq)
qed

lemma span_iff_interval:
  assumes "unat p + n \<le> 2 ^ 64"
  shows "span p n a \<longleftrightarrow> unat p \<le> unat a \<and> unat a < unat p + n"
proof (cases "p \<le> a")
  case True
  then show ?thesis by (auto simp: span_def unat_sub word_le_nat_alt)
next
  case False
  then have lt: "unat a < unat p" by (simp add: word_le_nat_alt)
  have "unat (a - p) = 2 ^ 64 + unat a - unat p"
    using unat_sub_if' [of a p] lt by (simp add: word_le_nat_alt)
  then show ?thesis using assms lt by (auto simp: span_def)
qed

section \<open>Functional behaviour\<close>

lemma memset_loop_eq:
  "i + k \<le> 2 ^ 64 \<Longrightarrow> memset_loop p v i k m a = (if span p (i + k) a \<and> \<not> span p i a then v else m a)"
proof (induction k arbitrary: i m)
  case 0
  then show ?case by simp
next
  case (Suc k)
  then have "\<not> span p i (p + of_nat i)" by simp
  moreover have "span p (i + Suc k) (p + of_nat i)" using Suc.prems by simp
  ultimately show ?case using Suc span_Suc [of i p a] by auto
qed

lemma copy_up_eq:
  assumes "i + k \<le> 2 ^ 64"
    and sep: "\<And>x y. i \<le> x \<Longrightarrow> x < y \<Longrightarrow> y < i + k \<Longrightarrow> d + of_nat x \<noteq> s + of_nat y"
  shows "copy_up d s i k m a = (if span d (i + k) a \<and> \<not> span d i a then m (s + (a - d)) else m a)"
  using assms
proof (induction k arbitrary: i m)
  case 0
  then show ?case by simp
next
  case (Suc k)
  let ?m = "m(d + of_nat i := m (s + of_nat i))"
  have IH: "copy_up d s (Suc i) k ?m a
      = (if span d (Suc i + k) a \<and> \<not> span d (Suc i) a then ?m (s + (a - d)) else ?m a)"
    using Suc.prems by (intro Suc.IH) auto
  show ?case
  proof (cases "span d (Suc i + k) a \<and> \<not> span d (Suc i) a")
    case True
    then have j: "unat (a - d) < Suc i + k" "i < unat (a - d)" by (auto simp: span_def)
    have "s + (a - d) = s + of_nat (unat (a - d))" by simp
    then have "d + of_nat i \<noteq> s + (a - d)" using Suc.prems(2) [of i "unat (a - d)"] j by auto
    then show ?thesis using IH True j by (simp add: span_def)
  next
    case False
    have i: "i < 2 ^ 64" using Suc.prems(1) by simp
    show ?thesis using IH False span_Suc [OF i, of d a] Suc.prems(1) by auto
  qed
qed

lemma copy_down_eq:
  assumes "k \<le> 2 ^ 64"
    and sep: "\<And>x y. x < y \<Longrightarrow> y < k \<Longrightarrow> d + of_nat y \<noteq> s + of_nat x"
  shows "copy_down d s k m a = (if span d k a then m (s + (a - d)) else m a)"
  using assms
proof (induction k arbitrary: m)
  case 0
  then show ?case by simp
next
  case (Suc k)
  let ?m = "m(d + of_nat k := m (s + of_nat k))"
  have IH: "copy_down d s k ?m a = (if span d k a then ?m (s + (a - d)) else ?m a)"
    using Suc.prems by (intro Suc.IH) auto
  show ?case
  proof (cases "span d k a")
    case True
    then have j: "unat (a - d) < k" by (simp add: span_def)
    have "s + (a - d) = s + of_nat (unat (a - d))" by simp
    then have "d + of_nat k \<noteq> s + (a - d)" using Suc.prems(2) [of "unat (a - d)" k] j by auto
    then show ?thesis using IH True by (simp add: span_def)
  next
    case False
    have k: "k < 2 ^ 64" using Suc.prems(1) by simp
    show ?thesis using IH False span_Suc [OF k, of d a] by auto
  qed
qed

text \<open>Offsets into two ranges that do not wrap order like natural numbers.\<close>

lemma range_address_neq:
  assumes "unat (d :: ptr) + k \<le> 2 ^ 64" "unat s + k \<le> 2 ^ 64" "x < k" "y < k" "unat d + x \<noteq> unat s + y"
  shows "d + of_nat x \<noteq> s + of_nat y"
proof -
  have "unat (d + of_nat x) = unat d + x" "unat (s + of_nat y) = unat s + y"
    using assms by (simp_all add: unat_word_ariths unat_of_nat)
  then show ?thesis using assms(5) by metis
qed

definition mem_copied :: "mem \<Rightarrow> ptr \<Rightarrow> ptr \<Rightarrow> nat \<Rightarrow> mem" where
  "mem_copied m dst src n = (\<lambda>a. if span dst n a then m (src + (a - dst)) else m a)"

text \<open>
  C20: \<open>memmove\<close> is equivalent to reading the whole source before writing the destination, for buffers that
  overlap in any way.
\<close>

theorem memmove_copies:
  assumes "unat dst + unat n \<le> 2 ^ 64" and "unat src + unat n \<le> 2 ^ 64"
  shows "memmove dst src n m = (dst, mem_copied m dst src (unat n))"
proof -
  consider "dst = src \<or> n = 0" | "dst \<noteq> src" "n \<noteq> 0" "dst < src" | "dst \<noteq> src" "n \<noteq> 0" "src < dst"
    by fastforce
  then show ?thesis
  proof cases
    case 1
    then have "mem_copied m dst src (unat n) = m" by (auto simp: mem_copied_def)
    then show ?thesis using 1 by (simp add: memmove_def)
  next
    case 2
    have "d + of_nat x \<noteq> src + of_nat y" if "x < y" "y < unat n" "d = dst" for x y d
      using that 2(3) assms by (intro range_address_neq [of _ "unat n"]) (auto simp: word_less_nat_alt)
    then have "copy_up dst src 0 (unat n) m a = mem_copied m dst src (unat n) a" for a
      using assms(1) by (subst copy_up_eq) (auto simp: mem_copied_def)
    then show ?thesis using 2 by (auto simp: memmove_def)
  next
    case 3
    have "d + of_nat y \<noteq> src + of_nat x" if "x < y" "y < unat n" "d = dst" for x y d
      using that 3(3) assms by (intro range_address_neq [of _ "unat n"]) (auto simp: word_less_nat_alt)
    then have "copy_down dst src (unat n) m a = mem_copied m dst src (unat n) a" for a
      using assms(1) by (subst copy_down_eq) (auto simp: mem_copied_def)
    then show ?thesis using 3 by (auto simp: memmove_def)
  qed
qed

theorem memmove_copies_witness:
  "memmove 0x1002 0x1000 8 (\<lambda>a. ucast a) = (0x1002, mem_copied (\<lambda>a. ucast a) 0x1002 0x1000 8)"
  using memmove_copies [of "0x1002" 8 "0x1000"] by simp

lemma memcpy_copies:
  assumes "unat dst + unat n \<le> 2 ^ 64" "unat src + unat n \<le> 2 ^ 64"
    and "dst \<le> src \<or> unat src + unat n \<le> unat dst"
  shows "memcpy dst src n m = (dst, mem_copied m dst src (unat n))"
proof -
  have "dst + of_nat x \<noteq> src + of_nat y" if "x < y" "y < unat n" for x y
    using that assms by (intro range_address_neq [of _ "unat n"]) (auto simp: word_le_nat_alt)
  then have "copy_up dst src 0 (unat n) m a = mem_copied m dst src (unat n) a" for a
    using assms(1) by (subst copy_up_eq) (auto simp: mem_copied_def)
  then show ?thesis by (auto simp: memcpy_def)
qed

lemma memset_fills: "memset dst c n m = (dst, \<lambda>a. if span dst (unat n) a then ucast c else m a)"
proof -
  have "unat n \<le> 2 ^ 64" using unat_less_two_power [of n] by simp
  then show ?thesis by (auto simp: memset_def memset_loop_eq)
qed

lemma loader_memcpy_loop_eq: "loader_memcpy_loop (d + of_nat i) (s + of_nat i) k m = copy_up d s i k m"
proof (induction k arbitrary: i m)
  case 0
  then show ?case by simp
next
  case (Suc k)
  have "d + of_nat i + 1 = d + of_nat (Suc i)" "s + of_nat i + 1 = s + of_nat (Suc i)" by simp_all
  then show ?case using Suc.IH [of "Suc i"] by (simp add: algebra_simps fun_upd_def)
qed

lemma loader_memset_loop_eq: "loader_memset_loop (d + of_nat i) c k m = memset_loop d c i k m"
proof (induction k arbitrary: i m)
  case 0
  then show ?case by simp
next
  case (Suc k)
  have "d + of_nat i + 1 = d + of_nat (Suc i)" by simp
  then show ?case using Suc.IH [of "Suc i"] by (simp add: algebra_simps fun_upd_def)
qed

text \<open>The loader's copies of the routines behave as the kernel's.\<close>

lemma loader_memcpy_eq: "loader_memcpy = memcpy"
  using loader_memcpy_loop_eq [where i = 0] by (intro ext) (simp add: loader_memcpy_def memcpy_def)

lemma loader_memset_eq: "loader_memset = memset"
  using loader_memset_loop_eq [where i = 0] by (intro ext) (simp add: loader_memset_def memset_def)

text \<open>The bytes of a buffer, and comparison of buffers as comparison of byte lists.\<close>

definition bytes_at :: "mem \<Rightarrow> ptr \<Rightarrow> nat \<Rightarrow> u8 list" where
  "bytes_at m p n = map (\<lambda>i. m (p + of_nat i)) [0..<n]"

lemma memcmp_loop_0: "memcmp_loop a b i k m = 0 \<longleftrightarrow> (\<forall>j<k. m (a + of_nat (i + j)) = m (b + of_nat (i + j)))"
proof (induction k arbitrary: i)
  case 0
  then show ?case by simp
next
  case (Suc k)
  have "uint x \<noteq> uint y" if "x \<noteq> y" for x y :: u8 using that by (simp add: word_uint_eq_iff)
  then show ?case using Suc.IH [of "Suc i"] by (auto simp: less_Suc_eq_0_disj algebra_simps)
qed

lemma memcmp_0_iff: "memcmp a b n m = 0 \<longleftrightarrow> bytes_at m a (unat n) = bytes_at m b (unat n)"
  by (auto simp: memcmp_def memcmp_loop_0 bytes_at_def)

lemma strlen_loop_eq:
  assumes "m (s + of_nat (i + k)) = 0" "\<And>j. i \<le> j \<Longrightarrow> j < i + k \<Longrightarrow> m (s + of_nat j) \<noteq> 0"
  shows "strlen_loop s (of_nat i) m = Some (of_nat (i + k))"
  using assms
proof (induction k arbitrary: i)
  case 0
  then show ?case by (subst strlen_loop.simps) simp
next
  case (Suc k)
  have "strlen_loop s (of_nat (Suc i)) m = Some (of_nat (Suc i + k))" using Suc.prems by (intro Suc.IH) auto
  moreover have "m (s + of_nat i) \<noteq> 0" using Suc.prems(2) [of i] by simp
  ultimately show ?case by (subst strlen_loop.simps) (simp add: algebra_simps)
qed

lemma strlen_terminates:
  assumes "m (s + of_nat k) = 0" "\<And>j. j < k \<Longrightarrow> m (s + of_nat j) \<noteq> 0" "s \<noteq> NULL"
  shows "strlen s m = Ret (of_nat k)"
  using strlen_loop_eq [of m s 0 k] assms by (simp add: strlen_def)

end
