(* ===== verification/Irq.thy ===== *)
theory Irq
  imports KPrelude
begin

text \<open>
  Interrupt context bookkeeping (\<open>Kern/Kernel/irg/irq.c\<close>) and the execution-context contracts of
  \<open>Kern/Kernel/contracts.h\<close>. The CPU's interrupt mask is the DAIF register; the kernel only reads and
  writes its I bit (bit 7). \<open>irq_globals\<close> is the first layer of the kernel state; every later
  component extends this record with its own globals, so that an operation of a lower layer runs
  unchanged on the state of a higher one.
\<close>

section \<open>State\<close>

record irq_globals =
  s_irq_depth :: u32
  daif :: u64
  s_handlers :: "ptr list"
  s_ctx :: "ptr list"
  eoi_log :: "u32 list"

definition IRQ_MAX :: nat where
  "IRQ_MAX = 1024"

definition DAIF_I_BIT :: u64 where
  "DAIF_I_BIT = push_bit 7 1"

section \<open>Context depth\<close>

definition in_irq :: "'a irq_globals_scheme \<Rightarrow> bool" where
  "in_irq s = (s_irq_depth s \<noteq> 0)"

definition irq_enter :: "'a irq_globals_scheme \<Rightarrow> 'a irq_globals_scheme" where
  "irq_enter s = s\<lparr>s_irq_depth := s_irq_depth s + 1\<rparr>"

definition irq_exit :: "'a irq_globals_scheme \<Rightarrow> 'a irq_globals_scheme outcome" where
  "irq_exit s =
     (if s_irq_depth s = 0 then Panic ''irq: depth underflow''
      else Ret (s\<lparr>s_irq_depth := s_irq_depth s - 1\<rparr>))"

definition ASSERT_THREAD_CONTEXT :: "'a irq_globals_scheme \<Rightarrow> 'b outcome \<Rightarrow> 'b outcome" where
  "ASSERT_THREAD_CONTEXT s k = (if in_irq s then Panic ''ASSERT_THREAD_CONTEXT'' else k)"

definition ASSERT_IRQ_CONTEXT :: "'a irq_globals_scheme \<Rightarrow> 'b outcome \<Rightarrow> 'b outcome" where
  "ASSERT_IRQ_CONTEXT s k = (if \<not> in_irq s then Panic ''ASSERT_IRQ_CONTEXT'' else k)"

section \<open>Masking\<close>

text \<open>\<open>msr daifset, #2\<close> and \<open>msr daifclr, #2\<close> set and clear the I bit and nothing else.\<close>

definition irq_global_disable :: "'a irq_globals_scheme \<Rightarrow> 'a irq_globals_scheme" where
  "irq_global_disable s = s\<lparr>daif := daif s OR DAIF_I_BIT\<rparr>"

definition irq_global_enable :: "'a irq_globals_scheme \<Rightarrow> 'a irq_globals_scheme" where
  "irq_global_enable s = s\<lparr>daif := daif s AND NOT DAIF_I_BIT\<rparr>"

definition irq_save :: "'a irq_globals_scheme \<Rightarrow> u64 \<times> 'a irq_globals_scheme" where
  "irq_save s = (daif s, s\<lparr>daif := daif s OR DAIF_I_BIT\<rparr>)"

definition irq_restore :: "u64 \<Rightarrow> 'a irq_globals_scheme \<Rightarrow> 'a irq_globals_scheme" where
  "irq_restore prev_daif s =
     (if prev_daif AND DAIF_I_BIT \<noteq> 0 then s\<lparr>daif := daif s OR DAIF_I_BIT\<rparr>
      else s\<lparr>daif := daif s AND NOT DAIF_I_BIT\<rparr>)"

definition irq_irqs_disabled :: "'a irq_globals_scheme \<Rightarrow> bool" where
  "irq_irqs_disabled s = (daif s AND DAIF_I_BIT \<noteq> 0)"

section \<open>Registration and dispatch\<close>

definition irq_register ::
    "u32 \<Rightarrow> ptr \<Rightarrow> ptr \<Rightarrow> 'a irq_globals_scheme \<Rightarrow> bool \<times> 'a irq_globals_scheme" where
  "irq_register irq handler ctx s =
     (if IRQ_MAX \<le> unat irq then (False, s)
      else (True, s\<lparr>s_handlers := (s_handlers s)[unat irq := handler],
                    s_ctx := (s_ctx s)[unat irq := ctx]\<rparr>))"

definition gic_irqid :: "u32 \<Rightarrow> u32" where
  "gic_irqid iar = iar AND 0x3FF"

text \<open>
  \<open>hal_irq_acknowledge\<close> reads the interrupt controller: the value it returns is the argument \<open>iar\<close>.
  \<open>hal_irq_end\<close> is a write to the controller, recorded in \<open>eoi_log\<close>. The handler bodies are code
  reached through a function pointer: \<open>run\<close> says what the handler stored at an address does.
\<close>

definition hal_irq_end :: "u32 \<Rightarrow> 'a irq_globals_scheme \<Rightarrow> 'a irq_globals_scheme" where
  "hal_irq_end iar s = s\<lparr>eoi_log := eoi_log s @ [iar]\<rparr>"

definition irq_dispatch ::
    "(ptr \<Rightarrow> u32 \<Rightarrow> ptr \<Rightarrow> ptr \<Rightarrow> 'a irq_globals_scheme \<Rightarrow> 'a irq_globals_scheme outcome) \<Rightarrow> u32 \<Rightarrow> ptr \<Rightarrow>
     'a irq_globals_scheme \<Rightarrow> 'a irq_globals_scheme outcome" where
  "irq_dispatch run iar tf s0 =
     (let s = irq_enter s0; id = gic_irqid iar in
      if 1020 \<le> id then irq_exit (hal_irq_end iar s)
      else if IRQ_MAX \<le> unat id then irq_exit (hal_irq_end iar s)
      else let h = s_handlers s ! unat id in
        obind (if h \<noteq> NULL then run h id (s_ctx s ! unat id) tf s else Ret s)
          (\<lambda>s1. irq_exit (hal_irq_end iar s1)))"

section \<open>Facts\<close>

lemma ASSERT_THREAD_CONTEXT_Ret_iff [simp]:
  "ASSERT_THREAD_CONTEXT s k = Ret x \<longleftrightarrow> \<not> in_irq s \<and> k = Ret x"
  by (simp add: ASSERT_THREAD_CONTEXT_def)

lemma ASSERT_IRQ_CONTEXT_Ret_iff [simp]:
  "ASSERT_IRQ_CONTEXT s k = Ret x \<longleftrightarrow> in_irq s \<and> k = Ret x"
  by (simp add: ASSERT_IRQ_CONTEXT_def)

lemma on_Ret_thread [simp]: "on_Ret P (ASSERT_THREAD_CONTEXT s k) = (\<not> in_irq s \<longrightarrow> on_Ret P k)"
  by (simp add: ASSERT_THREAD_CONTEXT_def)

lemma ASSERT_THREAD_CONTEXT_thread [simp]: "\<not> in_irq s \<Longrightarrow> ASSERT_THREAD_CONTEXT s k = k"
  by (simp add: ASSERT_THREAD_CONTEXT_def)

lemma bit_DAIF_I_BIT: "bit DAIF_I_BIT n \<longleftrightarrow> n = 7"
  unfolding DAIF_I_BIT_def bit_push_bit_iff by (auto simp: bit_1_iff)

lemma and_DAIF_I_BIT_iff: "(w AND DAIF_I_BIT = 0) = (\<not> bit w 7)"
proof
  assume "w AND DAIF_I_BIT = 0"
  then have "\<not> bit (w AND DAIF_I_BIT) 7" by simp
  then show "\<not> bit w 7" by (simp add: bit_and_iff bit_DAIF_I_BIT)
next
  assume "\<not> bit w 7"
  then show "w AND DAIF_I_BIT = 0"
    by (intro bit_word_eqI) (auto simp: bit_and_iff bit_DAIF_I_BIT)
qed

lemma irq_restore_save:
  "daif (irq_restore (fst (irq_save s)) (snd (irq_save s))) = daif s"
  by (rule bit_word_eqI)
     (auto simp: irq_save_def irq_restore_def and_DAIF_I_BIT_iff bit_simps bit_DAIF_I_BIT)

lemma irq_save_disabled: "irq_irqs_disabled (snd (irq_save s))"
  by (simp add: irq_irqs_disabled_def irq_save_def and_DAIF_I_BIT_iff bit_or_iff bit_DAIF_I_BIT
      del: word_ao_absorbs)

end
