(* ===== verification/Kaddr.thy ===== *)
theory Kaddr
  imports KPrelude
begin

text \<open>
  Addresses: the memory map of the \<open>virt\<close> board (\<open>Kern/Board/virt/board_config.h\<close>,
  \<open>Kern/Arch/aarch64/arch_config.h\<close>, \<open>Kern/Platform/platform_config.h\<close>), the high-half direct map
  of \<open>Kern/Kernel/mm/pmm.h\<close>, and the 4 KiB alignment helpers that \<open>pmm.c\<close>, \<open>kheap.c\<close> and
  \<open>platform.c\<close> each define as static inline functions.
\<close>

section \<open>Configuration\<close>

definition CAPAZ_RAM_BASE :: u64 where
  "CAPAZ_RAM_BASE = 0x40000000"

definition CAPAZ_RAM_DIRECTMAP_SIZE :: u64 where
  "CAPAZ_RAM_DIRECTMAP_SIZE = 0x40000000"

definition CAPAZ_HH_BASE :: u64 where
  "CAPAZ_HH_BASE = 0xFFFF800000000000"

definition CAPAZ_HH_RAM_BASE :: u64 where
  "CAPAZ_HH_RAM_BASE = CAPAZ_HH_BASE + CAPAZ_RAM_BASE"

definition PAGE_SIZE :: u64 where
  "PAGE_SIZE = 0x1000"

lemmas kaddr_config =
  CAPAZ_RAM_BASE_def CAPAZ_RAM_DIRECTMAP_SIZE_def CAPAZ_HH_BASE_def CAPAZ_HH_RAM_BASE_def PAGE_SIZE_def

section \<open>Direct map and alignment\<close>

definition pmm_phys_to_virt :: "u64 \<Rightarrow> u64" where
  "pmm_phys_to_virt pa = CAPAZ_HH_RAM_BASE + (pa - CAPAZ_RAM_BASE)"

definition pmm_virt_to_phys :: "u64 \<Rightarrow> u64" where
  "pmm_virt_to_phys va =
     (if CAPAZ_HH_RAM_BASE \<le> va then (va - CAPAZ_HH_RAM_BASE) + CAPAZ_RAM_BASE else va)"

definition align_down_4k :: "u64 \<Rightarrow> u64" where
  "align_down_4k x = x AND NOT (PAGE_SIZE - 1)"

definition align_up_4k :: "u64 \<Rightarrow> u64" where
  "align_up_4k x = (x + (PAGE_SIZE - 1)) AND NOT (PAGE_SIZE - 1)"

section \<open>Facts\<close>

lemma unat_PAGE_SIZE [simp]: "unat PAGE_SIZE = 4096"
  by (simp add: PAGE_SIZE_def)

lemma unat_and_not_mask:
  fixes x :: "'a::len word"
  shows "unat (x AND NOT (mask n)) = unat x div 2 ^ n * 2 ^ n"
proof -
  have "x AND NOT (mask n) = push_bit n (drop_bit n x)"
    by (rule bit_word_eqI) (auto simp: bit_simps)
  moreover have "unat (push_bit n (drop_bit n x)) = unat x div 2 ^ n * 2 ^ n"
  proof -
    have "unat x div 2 ^ n * 2 ^ n < 2 ^ LENGTH('a)"
      by (rule le_less_trans [OF _ unat_less_two_power [of x]]) simp
    then show ?thesis
      unfolding unsigned_push_bit_eq unat_drop_bit_eq
      by (simp add: push_bit_eq_mult drop_bit_eq_div take_bit_nat_eq_self)
  qed
  ultimately show ?thesis by simp
qed

lemma page_mask: "PAGE_SIZE - 1 = mask 12"
  by (simp add: PAGE_SIZE_def mask_eq_exp_minus_1)

lemma unat_align_down_4k: "unat (align_down_4k x) = unat x div 4096 * 4096"
  unfolding align_down_4k_def page_mask unat_and_not_mask by simp

lemma unat_align_up_4k:
  assumes "unat x + 4095 < 2 ^ 64"
  shows "unat (align_up_4k x) = (unat x + 4095) div 4096 * 4096"
proof -
  have "unat (x + (PAGE_SIZE - 1)) = unat x + 4095"
    using assms by (simp add: PAGE_SIZE_def unat_word_ariths)
  then show ?thesis
    unfolding align_up_4k_def by (simp add: page_mask unat_and_not_mask)
qed

lemma align_down_4k_le: "align_down_4k x \<le> x"
  by (simp add: word_le_nat_alt unat_align_down_4k)

text \<open>An address is page aligned exactly when its low twelve bits are clear.\<close>

definition page_aligned :: "u64 \<Rightarrow> bool" where
  "page_aligned x \<longleftrightarrow> x AND (PAGE_SIZE - 1) = 0"

lemma page_aligned_iff: "page_aligned x \<longleftrightarrow> 4096 dvd unat x"
proof -
  have "unat (x AND mask 12) = unat x mod 4096"
    by (simp add: flip: take_bit_eq_mask) (simp add: take_bit_eq_mod unat_mod)
  then show ?thesis
    by (simp add: page_aligned_def page_mask dvd_eq_mod_eq_0 flip: unat_eq_zero)
qed

lemma page_aligned_align_down [simp]: "page_aligned (align_down_4k x)"
  by (simp add: page_aligned_iff unat_align_down_4k)

lemma align_down_4k_id: "page_aligned x \<Longrightarrow> align_down_4k x = x"
  by (simp add: page_aligned_iff unat_align_down_4k word_unat_eq_iff)

lemma virt_to_phys_phys_to_virt:
  assumes "CAPAZ_RAM_BASE \<le> pa" and "unat pa < 2 ^ 46"
  shows "pmm_virt_to_phys (pmm_phys_to_virt pa) = pa"
proof -
  have "unat (pa - CAPAZ_RAM_BASE) = unat pa - unat CAPAZ_RAM_BASE"
    using assms(1) by (rule unat_sub_no_wrap)
  then have "unat (pmm_phys_to_virt pa) = unat CAPAZ_HH_RAM_BASE + (unat pa - unat CAPAZ_RAM_BASE)"
    using assms by (simp add: pmm_phys_to_virt_def kaddr_config unat_word_ariths word_le_nat_alt)
  then have "CAPAZ_HH_RAM_BASE \<le> pmm_phys_to_virt pa"
    by (simp add: word_le_nat_alt)
  then show ?thesis
    by (simp add: pmm_virt_to_phys_def) (simp add: pmm_phys_to_virt_def)
qed

lemma unat_phys_to_virt:
  assumes "CAPAZ_RAM_BASE \<le> pa" and "unat pa < 0x80000000"
  shows "unat (pmm_phys_to_virt pa) = 0xFFFF800000000000 + unat pa"
  using assms by (simp add: pmm_phys_to_virt_def kaddr_config unat_word_ariths word_le_nat_alt)

end
