(* ===== verification/Pmm.thy ===== *)
theory Pmm
  imports Irq Kaddr
begin

text \<open>
  The bitmap physical memory manager (\<open>Kern/Kernel/mm/pmm.c\<close>): bit helpers, range marking, page
  allocation and release, pressure counters and statistics. The bitmap that lives in the metadata
  region is the byte list \<open>bitmap\<close>; page indices are natural numbers, which is exact because
  \<open>total_pages\<close> is a quotient of a 64-bit value by 4096 and every index stays below it.
  Boot-time construction (\<open>pmm_init\<close>) needs the platform's memory map and is a theory of its own.
\<close>

section \<open>State\<close>

record pmm_state =
  base_pa :: u64
  limit_pa :: u64
  total_pages :: u64
  free_pages :: u64
  bitmap_va :: ptr
  bitmap :: "u8 list"
  bitmap_bytes :: u64
  next_hint :: u64
  meta_base_pa :: u64
  meta_pages :: u64

record pmm_globals = irq_globals +
  g_pmm :: "pmm_state option"
  g_pmm_alloc_calls :: u64
  g_pmm_free_calls :: u64
  g_pmm_alloc_pages_calls :: u64
  g_pmm_alloc_contig_calls :: u64
  g_pmm_peak_used_pages :: u64
  g_pmm_low_free_pages :: u64

section \<open>Bitmap\<close>

definition bit_set :: "u8 list \<Rightarrow> nat \<Rightarrow> u8 list" where
  "bit_set bm idx = bm[drop_bit 3 idx := (bm ! drop_bit 3 idx) OR push_bit (idx AND 7) 1]"

definition bit_clear :: "u8 list \<Rightarrow> nat \<Rightarrow> u8 list" where
  "bit_clear bm idx = bm[drop_bit 3 idx := (bm ! drop_bit 3 idx) AND NOT (push_bit (idx AND 7) 1)]"

definition bit_test :: "u8 list \<Rightarrow> nat \<Rightarrow> bool" where
  "bit_test bm idx = (drop_bit (idx AND 7) (bm ! drop_bit 3 idx) AND 1 \<noteq> 0)"

definition bitmap_mark_all_reserved :: "pmm_state \<Rightarrow> pmm_state" where
  "bitmap_mark_all_reserved st =
     (if bitmap_va st = NULL then st
      else st\<lparr>bitmap := replicate (unat (bitmap_bytes st)) 0xFF, free_pages := 0\<rparr>)"

text \<open>The bodies of the two marking loops, over \<open>count\<close> pages from index \<open>i\<close>.\<close>

fun mark_free_loop :: "nat \<Rightarrow> nat \<Rightarrow> pmm_state \<Rightarrow> pmm_state" where
  "mark_free_loop i 0 st = st"
| "mark_free_loop i (Suc count) st =
     mark_free_loop (Suc i) count
       (if bit_test (bitmap st) i
        then st\<lparr>bitmap := bit_clear (bitmap st) i, free_pages := free_pages st + 1\<rparr> else st)"

fun mark_reserved_loop :: "nat \<Rightarrow> nat \<Rightarrow> pmm_state \<Rightarrow> pmm_state" where
  "mark_reserved_loop i 0 st = st"
| "mark_reserved_loop i (Suc count) st =
     mark_reserved_loop (Suc i) count
       (if \<not> bit_test (bitmap st) i
        then st\<lparr>bitmap := bit_set (bitmap st) i,
                free_pages := (if free_pages st \<noteq> 0 then free_pages st - 1 else free_pages st)\<rparr>
        else st)"

definition bitmap_mark_range_free :: "pmm_state \<Rightarrow> u64 \<Rightarrow> u64 \<Rightarrow> pmm_state" where
  "bitmap_mark_range_free st start_pa end_pa =
     (if bitmap_va st = NULL then st else
      let s = align_up_4k start_pa; e = align_down_4k end_pa in
      if e \<le> s then st else
      let s' = (if s < base_pa st then base_pa st else s);
          e' = (if limit_pa st < e then limit_pa st else e) in
      if e' \<le> s' then st else
      let first = (s' - base_pa st) div PAGE_SIZE; last = (e' - base_pa st) div PAGE_SIZE in
      mark_free_loop (unat first) (unat last - unat first) st)"

definition bitmap_mark_range_reserved :: "pmm_state \<Rightarrow> u64 \<Rightarrow> u64 \<Rightarrow> pmm_state" where
  "bitmap_mark_range_reserved st start_pa end_pa =
     (if bitmap_va st = NULL then st else
      let s = align_down_4k start_pa; e = align_up_4k end_pa in
      if e \<le> s then st else
      let s' = (if s < base_pa st then base_pa st else s);
          e' = (if limit_pa st < e then limit_pa st else e) in
      if e' \<le> s' then st else
      let first = (s' - base_pa st) div PAGE_SIZE; last = (e' - base_pa st) div PAGE_SIZE in
      mark_reserved_loop (unat first) (unat last - unat first) st)"

section \<open>Allocation and release\<close>

definition pmm_update_pressure :: "pmm_state \<Rightarrow> 'a pmm_globals_scheme \<Rightarrow> 'a pmm_globals_scheme" where
  "pmm_update_pressure st s =
     (let used = total_pages st - free_pages st;
          s1 = (if g_pmm_peak_used_pages s < used then s\<lparr>g_pmm_peak_used_pages := used\<rparr> else s) in
      if free_pages st < g_pmm_low_free_pages s1 then s1\<lparr>g_pmm_low_free_pages := free_pages st\<rparr>
      else s1)"

text \<open>The run check (\<open>for j < count: if bit_test break\<close>) and the commit loop.\<close>

fun check_run :: "u8 list \<Rightarrow> nat \<Rightarrow> nat \<Rightarrow> bool" where
  "check_run bm i 0 = True"
| "check_run bm i (Suc count) = (if bit_test bm i then False else check_run bm (Suc i) count)"

fun set_run :: "u8 list \<Rightarrow> nat \<Rightarrow> nat \<Rightarrow> u8 list" where
  "set_run bm i 0 = bm"
| "set_run bm i (Suc count) = set_run (bit_set bm i) (Suc i) count"

text \<open>\<open>for (i = i0; i + count <= i1; i++)\<close>: the first run of free bits, if any.\<close>

function find_run :: "u8 list \<Rightarrow> nat \<Rightarrow> nat \<Rightarrow> nat \<Rightarrow> nat option" where
  "find_run bm i i1 count =
     (if i + count \<le> i1
      then if check_run bm i count then Some i else find_run bm (Suc i) i1 count
      else None)"
  by pat_completeness auto
termination
  by (relation "measure (\<lambda>(bm, i, i1, count). Suc i1 - i)") auto

declare find_run.simps [simp del]

text \<open>Pass 0 scans from the hint to the end, pass 1 from the start up to the hint.\<close>

definition pmm_search :: "pmm_state \<Rightarrow> nat \<Rightarrow> nat option" where
  "pmm_search st count =
     (let n = unat (total_pages st);
          start = (if n \<le> unat (next_hint st) then 0 else unat (next_hint st)) in
      case (if n < count then None else find_run (bitmap st) start n count) of
        Some i \<Rightarrow> Some i
      | None \<Rightarrow> if start < count then None else find_run (bitmap st) 0 start count)"

definition pmm_alloc_pages ::
    "u32 \<Rightarrow> ptr \<Rightarrow> 'a pmm_globals_scheme \<Rightarrow> (u64 option \<times> 'a pmm_globals_scheme) outcome" where
  "pmm_alloc_pages count out_pa s0 =
     ASSERT_THREAD_CONTEXT s0
      (let s = s0\<lparr>g_pmm_alloc_pages_calls := g_pmm_alloc_pages_calls s0 + 1,
                  g_pmm_alloc_contig_calls :=
                    (if 1 < count then g_pmm_alloc_contig_calls s0 + 1
                     else g_pmm_alloc_contig_calls s0)\<rparr> in
       case g_pmm s of
         None \<Rightarrow> Ret (None, s)
       | Some st \<Rightarrow>
           if out_pa = NULL \<or> count = 0 then Ret (None, s)
           else if free_pages st < ucast count then Ret (None, s)
           else if total_pages st < ucast count then Ret (None, s)
           else
             (case pmm_search st (unat count) of
                None \<Rightarrow> Ret (None, s)
              | Some i \<Rightarrow>
                  let st1 = st\<lparr>bitmap := set_run (bitmap st) i (unat count),
                               free_pages := free_pages st - ucast count\<rparr>;
                      s1 = pmm_update_pressure st1 s;
                      st2 = st1\<lparr>next_hint := of_nat (i + unat count)\<rparr> in
                  Ret (Some (base_pa st2 + of_nat i * PAGE_SIZE), s1\<lparr>g_pmm := Some st2\<rparr>)))"

definition pmm_alloc_page ::
    "ptr \<Rightarrow> 'a pmm_globals_scheme \<Rightarrow> (u64 option \<times> 'a pmm_globals_scheme) outcome" where
  "pmm_alloc_page out_pa s = pmm_alloc_pages 1 out_pa s"

text \<open>
  \<open>pmm_alloc_page_va\<close> returns the virtual address of the page (NULL on failure) together with the
  physical address it stores through \<open>out_pa\<close> when that pointer is not NULL.
\<close>

definition pmm_alloc_page_va ::
    "'a pmm_globals_scheme \<Rightarrow> ((ptr \<times> u64) \<times> 'a pmm_globals_scheme) outcome" where
  "pmm_alloc_page_va s0 =
     ASSERT_THREAD_CONTEXT s0
      (let s = s0\<lparr>g_pmm_alloc_calls := g_pmm_alloc_calls s0 + 1\<rparr> in
       obind (pmm_alloc_page LOCAL s) (\<lambda>(r, s1).
         case r of None \<Rightarrow> Ret ((NULL, 0), s1)
         | Some pa \<Rightarrow> Ret ((pmm_phys_to_virt pa, pa), s1)))"

definition pmm_free_page :: "u64 \<Rightarrow> 'a pmm_globals_scheme \<Rightarrow> 'a pmm_globals_scheme outcome" where
  "pmm_free_page pa s0 =
     ASSERT_THREAD_CONTEXT s0
      (let s = s0\<lparr>g_pmm_free_calls := g_pmm_free_calls s0 + 1\<rparr> in
       case g_pmm s of
         None \<Rightarrow> Ret s
       | Some st \<Rightarrow>
           if pa < base_pa st \<or> limit_pa st \<le> pa then Ret s
           else if pa AND (PAGE_SIZE - 1) \<noteq> 0 then Ret s
           else let idx = (pa - base_pa st) div PAGE_SIZE in
             if total_pages st \<le> idx then Ret s
             else if meta_base_pa st \<le> pa \<and> pa < meta_base_pa st + meta_pages st * PAGE_SIZE then Ret s
             else if bit_test (bitmap st) (unat idx) then
               (let st1 = st\<lparr>bitmap := bit_clear (bitmap st) (unat idx),
                             free_pages := free_pages st + 1\<rparr>;
                    s1 = pmm_update_pressure st1 s;
                    st2 = (if idx < next_hint st1 then st1\<lparr>next_hint := idx\<rparr> else st1) in
                Ret (s1\<lparr>g_pmm := Some st2\<rparr>))
             else Ret s)"

section \<open>Statistics\<close>

record pmm_stats_ex =
  st_free_pages :: u64
  st_total_pages :: u64
  low_free_pages_seen :: u64
  peak_used_pages_seen :: u64
  alloc_pages_calls :: u64
  alloc_contig_calls :: u64
  free_page_calls :: u64

definition pmm_get_stats :: "'a pmm_globals_scheme \<Rightarrow> (u64 \<times> u64) option" where
  "pmm_get_stats s =
     (case g_pmm s of None \<Rightarrow> None | Some st \<Rightarrow> Some (free_pages st, total_pages st))"

definition pmm_get_stats_ex :: "'a pmm_globals_scheme \<Rightarrow> pmm_stats_ex option" where
  "pmm_get_stats_ex s =
     (case g_pmm s of None \<Rightarrow> None
      | Some st \<Rightarrow> Some
          \<lparr>st_free_pages = free_pages st,
           st_total_pages = total_pages st,
           low_free_pages_seen =
             (if g_pmm_low_free_pages s = -1 then free_pages st else g_pmm_low_free_pages s),
           peak_used_pages_seen = g_pmm_peak_used_pages s,
           alloc_pages_calls = g_pmm_alloc_pages_calls s,
           alloc_contig_calls = g_pmm_alloc_contig_calls s,
           free_page_calls = g_pmm_free_calls s\<rparr>)"

section \<open>Bitmap facts\<close>

lemma bitmap_byte_index: "drop_bit 3 (i::nat) = i div 8"
  by (simp add: drop_bit_eq_div)

lemma bitmap_bit_index: "(i::nat) AND 7 = i mod 8"
proof -
  have "i AND 7 = i AND mask 3" by (simp add: mask_eq_exp_minus_1)
  also have "\<dots> = i mod 8" by (simp only: take_bit_eq_mask [symmetric]) (simp add: take_bit_eq_mod)
  finally show ?thesis .
qed

lemma bit_test_iff: "bit_test bm i = bit (bm ! (i div 8)) (i mod 8)"
  by (simp add: bit_test_def bitmap_byte_index bitmap_bit_index bit_iff_odd_drop_bit
      and_one_eq odd_iff_mod_2_eq_one)

lemma length_bit_set [simp]: "length (bit_set bm i) = length bm"
  by (simp add: bit_set_def)

lemma length_bit_clear [simp]: "length (bit_clear bm i) = length bm"
  by (simp add: bit_clear_def)

lemma bit_byte_exp: "bit ((2::u8) ^ k) n \<longleftrightarrow> n = k \<and> k < 8"
  by (auto simp: bit_exp_iff)

lemma div_mod_8_eq: "i div 8 = j div 8 \<Longrightarrow> i mod 8 = j mod 8 \<Longrightarrow> i = (j::nat)"
  by (metis div_mult_mod_eq)

lemma bit_test_bit_set:
  assumes "i < 8 * length bm"
  shows "bit_test (bit_set bm i) j \<longleftrightarrow> i = j \<or> bit_test bm j"
proof -
  have "i div 8 < length bm" using assms by (simp add: less_mult_imp_div_less mult.commute)
  then show ?thesis
    by (auto simp: bit_test_iff bit_set_def bitmap_byte_index bitmap_bit_index nth_list_update
        bit_or_iff bit_byte_exp intro: div_mod_8_eq)
qed

lemma bit_test_bit_clear:
  assumes "i < 8 * length bm"
  shows "bit_test (bit_clear bm i) j \<longleftrightarrow> i \<noteq> j \<and> bit_test bm j"
proof -
  have "i div 8 < length bm" using assms by (simp add: less_mult_imp_div_less mult.commute)
  then show ?thesis
    by (auto simp: bit_test_iff bit_clear_def bitmap_byte_index bitmap_bit_index nth_list_update
        bit_and_iff bit_not_iff bit_byte_exp dest: div_mod_8_eq)
qed

lemma check_run_iff: "check_run bm i count \<longleftrightarrow> (\<forall>j\<in>{i..<i + count}. \<not> bit_test bm j)"
proof (induction count arbitrary: i)
  case 0
  then show ?case by simp
next
  case (Suc count)
  have "{i..<i + Suc count} = insert i {Suc i..<Suc i + count}" by auto
  with Suc show ?case by simp
qed

lemma length_set_run [simp]: "length (set_run bm i count) = length bm"
  by (induction count arbitrary: bm i) auto

lemma bit_test_set_run:
  assumes "i + count \<le> 8 * length bm"
  shows "bit_test (set_run bm i count) j \<longleftrightarrow> j \<in> {i..<i + count} \<or> bit_test bm j"
  using assms
proof (induction count arbitrary: bm i)
  case 0
  then show ?case by simp
next
  case (Suc count)
  then show ?case by (auto simp: bit_test_bit_set)
qed

lemma find_run_Some:
  "find_run bm i i1 count = Some k \<Longrightarrow> i \<le> k \<and> k + count \<le> i1 \<and> check_run bm k count"
proof (induction bm i i1 count rule: find_run.induct)
  case (1 bm i i1 count)
  then show ?case by (auto simp: find_run.simps [of bm i] split: if_splits)
qed

lemma find_run_None:
  assumes "find_run bm i i1 count = None" and "i \<le> k" and "k + count \<le> i1"
  shows "\<not> check_run bm k count"
  using assms
proof (induction bm i i1 count rule: find_run.induct)
  case (1 bm i i1 count)
  from "1.prems" have guard: "i + count \<le> i1" by simp
  with "1.prems"(1) have no: "\<not> check_run bm i count" and rest: "find_run bm (Suc i) i1 count = None"
    by (simp_all add: find_run.simps [of bm i] split: if_splits)
  show ?case
  proof (cases "k = i")
    case True
    with no show ?thesis by simp
  next
    case False
    with "1.prems" have "Suc i \<le> k" by simp
    with "1.IH" [OF guard no rest] "1.prems"(3) show ?thesis by simp
  qed
qed

section \<open>Well-formed managers\<close>

definition page_pa :: "pmm_state \<Rightarrow> nat \<Rightarrow> u64" where
  "page_pa st i = base_pa st + of_nat i * PAGE_SIZE"

definition free_idx :: "pmm_state \<Rightarrow> nat set" where
  "free_idx st = {i. i < unat (total_pages st) \<and> \<not> bit_test (bitmap st) i}"

definition in_meta :: "pmm_state \<Rightarrow> u64 \<Rightarrow> bool" where
  "in_meta st pa \<longleftrightarrow> meta_base_pa st \<le> pa \<and> pa < meta_base_pa st + meta_pages st * PAGE_SIZE"

definition pmm_window :: "pmm_state \<Rightarrow> bool" where
  "pmm_window st \<longleftrightarrow>
     CAPAZ_RAM_BASE \<le> base_pa st \<and> unat (limit_pa st) \<le> 0x80000000 \<and>
     page_aligned (base_pa st) \<and>
     unat (limit_pa st) = unat (base_pa st) + unat (total_pages st) * 4096 \<and>
     bitmap_va st \<noteq> NULL \<and> length (bitmap st) = unat (bitmap_bytes st) \<and>
     unat (total_pages st) \<le> 8 * length (bitmap st)"

definition pmm_wf :: "pmm_state \<Rightarrow> bool" where
  "pmm_wf st \<longleftrightarrow>
     pmm_window st \<and> unat (free_pages st) = card (free_idx st) \<and>
     unat (next_hint st) \<le> unat (total_pages st) \<and>
     (\<forall>i\<in>free_idx st. \<not> in_meta st (page_pa st i))"

definition pressure_ok :: "pmm_state \<Rightarrow> 'a pmm_globals_scheme \<Rightarrow> bool" where
  "pressure_ok st s \<longleftrightarrow>
     g_pmm_low_free_pages s \<le> free_pages st \<and>
     total_pages st - free_pages st \<le> g_pmm_peak_used_pages s"

definition pmm_ok :: "'a pmm_globals_scheme \<Rightarrow> bool" where
  "pmm_ok s = (case g_pmm s of None \<Rightarrow> False | Some st \<Rightarrow> pmm_wf st \<and> pressure_ok st s)"

text \<open>The page frames that are free, and those that \<open>pmm_free_page\<close> accepts.\<close>

definition free_pas :: "'a pmm_globals_scheme \<Rightarrow> u64 set" where
  "free_pas s = (case g_pmm s of None \<Rightarrow> {} | Some st \<Rightarrow> page_pa st ` free_idx st)"

definition managed_pas :: "'a pmm_globals_scheme \<Rightarrow> u64 set" where
  "managed_pas s =
     (case g_pmm s of None \<Rightarrow> {}
      | Some st \<Rightarrow> {page_pa st i | i. i < unat (total_pages st) \<and> \<not> in_meta st (page_pa st i)})"

definition page_run :: "u64 \<Rightarrow> nat \<Rightarrow> u64 set" where
  "page_run pa n = (\<lambda>k. pa + of_nat k * PAGE_SIZE) ` {..<n}"

lemma page_run_one [simp]: "page_run pa (Suc 0) = {pa}"
  by (auto simp: page_run_def)

lemma finite_free_idx [simp]: "finite (free_idx st)"
  by (rule finite_subset [of _ "{..<unat (total_pages st)}"]) (auto simp: free_idx_def)

lemma page_pa_add: "page_pa st (i + k) = page_pa st i + of_nat k * PAGE_SIZE"
  by (simp add: page_pa_def algebra_simps)

lemma page_run_page_pa: "page_run (page_pa st i) n = page_pa st ` {i..<i + n}"
proof -
  have "{i..<i + n} = (+) i ` {..<n}"
    by (metis add.commute add_0 image_add_atLeastLessThan lessThan_atLeast0)
  then show ?thesis by (simp add: page_run_def page_pa_add image_image)
qed

lemma unat_page_pa:
  assumes "pmm_window st" and "i \<le> unat (total_pages st)"
  shows "unat (page_pa st i) = unat (base_pa st) + i * 4096"
proof -
  let ?b = "unat (base_pa st)"
  have lim: "?b + i * 4096 \<le> 0x80000000"
    using assms by (auto simp: pmm_window_def intro: order_trans [rotated])
  then have "unat (of_nat i * PAGE_SIZE :: u64) = i * 4096"
    by (simp add: unat_word_ariths PAGE_SIZE_def unat_of_nat)
  with lim show ?thesis by (simp add: page_pa_def unat_word_ariths)
qed

lemma page_pa_inj:
  assumes "pmm_window st"
  shows "inj_on (page_pa st) {..unat (total_pages st)}"
proof (rule inj_onI)
  fix i j assume "i \<in> {..unat (total_pages st)}" "j \<in> {..unat (total_pages st)}"
    and "page_pa st i = page_pa st j"
  then have "unat (base_pa st) + i * 4096 = unat (base_pa st) + j * 4096"
    using unat_page_pa [OF assms] by (metis atMost_iff)
  then show "i = j" by simp
qed

lemma page_pa_aligned:
  assumes "pmm_window st" and "i \<le> unat (total_pages st)"
  shows "page_aligned (page_pa st i)"
  using assms by (auto simp: page_aligned_iff unat_page_pa pmm_window_def)

lemma pmm_search_Some:
  assumes "pmm_search st count = Some i"
  shows "i + count \<le> unat (total_pages st) \<and> check_run (bitmap st) i count"
  using assms by (fastforce simp: pmm_search_def Let_def split: if_splits option.splits dest: find_run_Some)

text \<open>A single free page is always found: the two passes together cover every index.\<close>

lemma pmm_search_one:
  assumes "i \<in> free_idx st"
  shows "pmm_search st 1 \<noteq> None"
proof
  let ?n = "unat (total_pages st)"
  let ?start = "if ?n \<le> unat (next_hint st) then 0 else unat (next_hint st)"
  assume none: "pmm_search st 1 = None"
  from assms have i: "i < ?n" and "check_run (bitmap st) i 1"
    by (auto simp: free_idx_def check_run_iff)
  from none i have "find_run (bitmap st) ?start ?n 1 = None"
    and "\<not> ?start < 1 \<Longrightarrow> find_run (bitmap st) 0 ?start 1 = None"
    by (auto simp: pmm_search_def Let_def split: if_splits option.splits)
  with i \<open>check_run (bitmap st) i 1\<close> show False
    using find_run_None [of "bitmap st" ?start ?n 1 i] find_run_None [of "bitmap st" 0 ?start 1 i]
    by (cases "?start \<le> i") auto
qed

section \<open>Contracts of the operations\<close>

lemma pmm_update_pressure_frame [simp]:
  "g_pmm (pmm_update_pressure st s) = g_pmm s"
  "s_irq_depth (pmm_update_pressure st s) = s_irq_depth s"
  "daif (pmm_update_pressure st s) = daif s"
  by (simp_all add: pmm_update_pressure_def Let_def)

lemma pressure_ok_update [simp]: "pressure_ok st (pmm_update_pressure st s)"
  by (auto simp: pressure_ok_def pmm_update_pressure_def Let_def)

lemma pressure_ok_cong:
  "free_pages st' = free_pages st \<Longrightarrow> total_pages st' = total_pages st \<Longrightarrow>
   g_pmm_low_free_pages s' = g_pmm_low_free_pages s \<Longrightarrow>
   g_pmm_peak_used_pages s' = g_pmm_peak_used_pages s \<Longrightarrow>
   pressure_ok st' s' = pressure_ok st s"
  by (simp add: pressure_ok_def)

definition pmm_commit :: "pmm_state \<Rightarrow> nat \<Rightarrow> nat \<Rightarrow> pmm_state" where
  "pmm_commit st i count =
     st\<lparr>bitmap := set_run (bitmap st) i count, free_pages := free_pages st - of_nat count,
        next_hint := of_nat (i + count)\<rparr>"

lemma pmm_commit_frame [simp]:
  "page_pa (pmm_commit st i count) = page_pa st"
  "in_meta (pmm_commit st i count) = in_meta st"
  "total_pages (pmm_commit st i count) = total_pages st"
  "pmm_window (pmm_commit st i count) = pmm_window st"
  by (auto simp: fun_eq_iff page_pa_def in_meta_def pmm_window_def pmm_commit_def)

lemma free_run_subset:
  assumes "check_run (bitmap st) i count" and "i + count \<le> unat (total_pages st)"
  shows "{i..<i + count} \<subseteq> free_idx st"
  using assms by (auto simp: free_idx_def check_run_iff)

lemma free_idx_commit:
  assumes "pmm_window st" and "i + count \<le> unat (total_pages st)"
  shows "free_idx (pmm_commit st i count) = free_idx st - {i..<i + count}"
proof -
  have "i + count \<le> 8 * length (bitmap st)"
    using assms by (auto simp: pmm_window_def)
  then show ?thesis by (auto simp: free_idx_def pmm_commit_def bit_test_set_run)
qed

lemma pmm_wf_commit:
  assumes wf: "pmm_wf st" and i: "i + count \<le> unat (total_pages st)"
    and run: "check_run (bitmap st) i count"
  shows "pmm_wf (pmm_commit st i count)"
proof -
  let ?st = "pmm_commit st i count"
  have win: "pmm_window st" and fp: "unat (free_pages st) = card (free_idx st)"
    and meta: "\<forall>i\<in>free_idx st. \<not> in_meta st (page_pa st i)"
    using wf by (auto simp: pmm_wf_def)
  have sub: "{i..<i + count} \<subseteq> free_idx st" using run i by (rule free_run_subset)
  have cnt: "count \<le> card (free_idx st)" using card_mono [OF finite_free_idx sub] by simp
  have fits: "i + count < 2 ^ 64" using i unat_less_two_power [of "total_pages st"] by simp
  have "unat (free_pages st - of_nat count) = card (free_idx st) - count"
    using fp cnt fits by (simp add: unat_sub unat_of_nat word_le_nat_alt)
  also have "\<dots> = card (free_idx ?st)"
    using sub by (simp add: free_idx_commit [OF win i] card_Diff_subset)
  finally have "unat (free_pages ?st) = card (free_idx ?st)"
    by (simp add: pmm_commit_def)
  moreover have "pmm_window ?st" using win by simp
  moreover have "\<forall>j\<in>free_idx ?st. \<not> in_meta ?st (page_pa ?st j)"
    using meta by (auto simp: free_idx_commit [OF win i])
  moreover have "unat (next_hint ?st) \<le> unat (total_pages ?st)"
    using i fits by (simp add: pmm_commit_def unat_of_nat del: of_nat_add)
  ultimately show ?thesis by (simp add: pmm_wf_def)
qed

lemma pmm_alloc_pages_SomeE:
  assumes "pmm_alloc_pages count out_pa s = Ret (Some pa, s')"
  obtains st i where "\<not> in_irq s" "g_pmm s = Some st" "0 < count" "out_pa \<noteq> NULL"
    "i + unat count \<le> unat (total_pages st)" "check_run (bitmap st) i (unat count)"
    "pa = page_pa st i" "g_pmm s' = Some (pmm_commit st i (unat count))"
    "pressure_ok (pmm_commit st i (unat count)) s'"
proof -
  from assms obtain st where irq: "\<not> in_irq s" and st: "g_pmm s = Some st"
    by (auto simp: pmm_alloc_pages_def Let_def split: option.splits)
  from assms st have guard: "0 < count" "out_pa \<noteq> NULL"
    by (auto simp: pmm_alloc_pages_def Let_def word_neq_0_conv split: if_splits)
  from assms st guard obtain i where search: "pmm_search st (unat count) = Some i"
    by (auto simp: pmm_alloc_pages_def Let_def split: if_splits option.splits)
  let ?st1 = "st\<lparr>bitmap := set_run (bitmap st) i (unat count),
                 free_pages := free_pages st - ucast count\<rparr>"
  have commit: "?st1\<lparr>next_hint := of_nat (i + unat count)\<rparr> = pmm_commit st i (unat count)"
    by (simp add: pmm_commit_def)
  from assms irq st guard search
  have res: "pa = page_pa st i" "g_pmm s' = Some (pmm_commit st i (unat count))"
    and pr: "pressure_ok ?st1 s'"
    by (auto simp: pmm_alloc_pages_def Let_def page_pa_def commit [symmetric] pressure_ok_def
        pmm_update_pressure_def split: if_splits)
  from pr have "pressure_ok (pmm_commit st i (unat count)) s'"
    by (simp add: pressure_ok_def pmm_commit_def)
  with irq st guard res pmm_search_Some [OF search] show thesis by (intro that) auto
qed

lemma pmm_ok_alloc_Some:
  assumes ok: "pmm_ok s" and alloc: "pmm_alloc_pages count out_pa s = Ret (Some pa, s')"
  shows "pmm_ok s'" and "page_run pa (unat count) \<subseteq> free_pas s"
    and "free_pas s' = free_pas s - page_run pa (unat count)" and "managed_pas s' = managed_pas s"
proof -
  from alloc obtain st i where st: "g_pmm s = Some st"
    and i: "i + unat count \<le> unat (total_pages st)" and run: "check_run (bitmap st) i (unat count)"
    and pa: "pa = page_pa st i" and st': "g_pmm s' = Some (pmm_commit st i (unat count))"
    and pr: "pressure_ok (pmm_commit st i (unat count)) s'"
    by (rule pmm_alloc_pages_SomeE)
  from ok st have wf: "pmm_wf st" by (simp add: pmm_ok_def)
  then have win: "pmm_window st" by (simp add: pmm_wf_def)
  have sub: "{i..<i + unat count} \<subseteq> free_idx st" using run i by (rule free_run_subset)
  show "pmm_ok s'" using st' pr pmm_wf_commit [OF wf i run] by (simp add: pmm_ok_def)
  show "page_run pa (unat count) \<subseteq> free_pas s"
    using sub st by (auto simp: pa page_run_page_pa free_pas_def)
  have "inj_on (page_pa st) (free_idx st \<union> {i..<i + unat count})"
    using i by (intro inj_on_subset [OF page_pa_inj [OF win]]) (auto simp: free_idx_def)
  then have "page_pa st ` (free_idx st - {i..<i + unat count}) =
      page_pa st ` free_idx st - page_pa st ` {i..<i + unat count}"
    by (rule inj_on_image_set_diff) auto
  then show "free_pas s' = free_pas s - page_run pa (unat count)"
    using st st' by (simp add: free_pas_def pa page_run_page_pa free_idx_commit [OF win i])
  show "managed_pas s' = managed_pas s"
    using st st' by (simp add: managed_pas_def)
qed

lemma pmm_ok_alloc_None:
  assumes "pmm_ok s" and "pmm_alloc_pages count out_pa s = Ret (None, s')"
  shows "pmm_ok s'" and "free_pas s' = free_pas s" and "managed_pas s' = managed_pas s"
  using assms
  by (auto simp: pmm_alloc_pages_def Let_def pmm_ok_def pressure_ok_def free_pas_def managed_pas_def
      split: option.splits if_splits)

text \<open>Allocation touches the manager's own globals only.\<close>

lemma pmm_update_pressure_more [simp]:
  "pmm_globals.more (pmm_update_pressure st s) = pmm_globals.more s"
  "s_irq_depth (pmm_update_pressure st s) = s_irq_depth s" "daif (pmm_update_pressure st s) = daif s"
  by (simp_all add: pmm_update_pressure_def Let_def)

lemma pmm_alloc_pages_frame:
  assumes "pmm_alloc_pages count out_pa s = Ret (r, s')"
  shows "pmm_globals.more s' = pmm_globals.more s" and "s_irq_depth s' = s_irq_depth s" and "daif s' = daif s"
  using assms by (auto simp: pmm_alloc_pages_def Let_def split: option.splits if_splits)

lemma pmm_alloc_pages_returns: "\<not> in_irq s \<Longrightarrow> \<exists>r s'. pmm_alloc_pages count out_pa s = Ret (r, s')"
  by (auto simp: pmm_alloc_pages_def Let_def split: option.splits)

definition pmm_release :: "pmm_state \<Rightarrow> nat \<Rightarrow> pmm_state" where
  "pmm_release st i =
     st\<lparr>bitmap := bit_clear (bitmap st) i, free_pages := free_pages st + 1,
        next_hint := (if i < unat (next_hint st) then of_nat i else next_hint st)\<rparr>"

lemma pmm_release_frame [simp]:
  "page_pa (pmm_release st i) = page_pa st"
  "in_meta (pmm_release st i) = in_meta st"
  "total_pages (pmm_release st i) = total_pages st"
  "pmm_window (pmm_release st i) = pmm_window st"
  "free_pages (pmm_release st i) = free_pages st + 1"
  "next_hint (pmm_release st i) = (if i < unat (next_hint st) then of_nat i else next_hint st)"
  by (auto simp: fun_eq_iff page_pa_def in_meta_def pmm_window_def pmm_release_def)

lemma free_idx_release:
  assumes "pmm_window st" and "i < unat (total_pages st)"
  shows "free_idx (pmm_release st i) = insert i (free_idx st)"
proof -
  have "i < 8 * length (bitmap st)" using assms by (auto simp: pmm_window_def)
  then show ?thesis using assms(2) by (auto simp: free_idx_def pmm_release_def bit_test_bit_clear)
qed

lemma pmm_wf_release:
  assumes wf: "pmm_wf st" and i: "i < unat (total_pages st)" and used: "bit_test (bitmap st) i"
    and meta: "\<not> in_meta st (page_pa st i)"
  shows "pmm_wf (pmm_release st i)"
proof -
  have win: "pmm_window st" using wf by (simp add: pmm_wf_def)
  have "i \<notin> free_idx st" using used by (simp add: free_idx_def)
  moreover have "free_idx st \<union> {i} \<subseteq> {..<unat (total_pages st)}" using i by (auto simp: free_idx_def)
  then have "card (free_idx st \<union> {i}) \<le> unat (total_pages st)"
    using card_mono [of "{..<unat (total_pages st)}"] by fastforce
  ultimately have "Suc (card (free_idx st)) < 2 ^ 64"
    using unat_less_two_power [of "total_pages st"] by simp
  then have "unat (free_pages st + 1) = card (insert i (free_idx st))"
    using wf \<open>i \<notin> free_idx st\<close> by (subst unat_Suc_no_wrap) (simp_all add: pmm_wf_def)
  moreover have "unat (of_nat i :: u64) = i"
    using i unat_less_two_power [of "total_pages st"] by (simp add: unat_of_nat)
  ultimately show ?thesis
    using wf meta i by (auto simp: pmm_wf_def free_idx_release [OF win i])
qed

lemma pmm_free_idx_bound:
  assumes "pmm_window st" and "base_pa st \<le> pa" and "pa < limit_pa st" and "page_aligned pa"
  shows "page_pa st (unat ((pa - base_pa st) div PAGE_SIZE)) = pa"
    and "unat ((pa - base_pa st) div PAGE_SIZE) < unat (total_pages st)"
proof -
  let ?b = "unat (base_pa st)" and ?p = "unat pa"
  let ?i = "unat ((pa - base_pa st) div PAGE_SIZE)"
  have i: "?i = (?p - ?b) div 4096"
    using assms(2) by (simp add: unat_div unat_sub)
  have le: "?b \<le> ?p" and lt: "?p < ?b + unat (total_pages st) * 4096"
    using assms by (auto simp: pmm_window_def word_le_nat_alt word_less_nat_alt)
  have dv: "4096 dvd ?p - ?b"
    using assms by (auto simp: pmm_window_def page_aligned_iff intro: dvd_diff_nat)
  show "?i < unat (total_pages st)" using i le lt by (simp add: div_less_iff_less_mult)
  then have "unat (page_pa st ?i) = ?b + ?i * 4096" using unat_page_pa [OF assms(1)] by simp
  also have "\<dots> = ?p" using i dv le by simp
  finally show "page_pa st ?i = pa" by (simp add: word_unat_eq_iff)
qed

lemma managed_pas_iff:
  assumes "pmm_window st" and "g_pmm s = Some st"
  shows "pa \<in> managed_pas s \<longleftrightarrow>
    base_pa st \<le> pa \<and> pa < limit_pa st \<and> page_aligned pa \<and> \<not> in_meta st pa"
proof
  assume "pa \<in> managed_pas s"
  then obtain i where i: "i < unat (total_pages st)" and pa: "pa = page_pa st i" and m: "\<not> in_meta st pa"
    using assms(2) by (auto simp: managed_pas_def)
  have "unat pa = unat (base_pa st) + i * 4096" using unat_page_pa [OF assms(1)] i pa by simp
  moreover have "unat (limit_pa st) = unat (base_pa st) + unat (total_pages st) * 4096"
    using assms(1) by (simp add: pmm_window_def)
  ultimately show "base_pa st \<le> pa \<and> pa < limit_pa st \<and> page_aligned pa \<and> \<not> in_meta st pa"
    using i m pa page_pa_aligned [OF assms(1)] by (auto simp: word_le_nat_alt word_less_nat_alt)
next
  assume pa: "base_pa st \<le> pa \<and> pa < limit_pa st \<and> page_aligned pa \<and> \<not> in_meta st pa"
  then have "page_pa st (unat ((pa - base_pa st) div PAGE_SIZE)) = pa"
    and "unat ((pa - base_pa st) div PAGE_SIZE) < unat (total_pages st)"
    using pmm_free_idx_bound [OF assms(1)] by auto
  with pa assms(2) show "pa \<in> managed_pas s" by (auto simp: managed_pas_def) metis
qed

lemma pressure_ok_frame [simp]:
  "pressure_ok st (s\<lparr>g_pmm := x\<rparr>) = pressure_ok st s"
  by (simp add: pressure_ok_def)

lemma pmm_free_page_release:
  assumes "\<not> in_irq s" and "g_pmm s = Some st" and "base_pa st \<le> pa" and "pa < limit_pa st"
    and "page_aligned pa" and "\<not> in_meta st pa"
    and "i = unat ((pa - base_pa st) div PAGE_SIZE)" and "i < unat (total_pages st)"
    and "bit_test (bitmap st) i"
  shows "pmm_free_page pa s =
    Ret ((pmm_update_pressure (pmm_release st i) (s\<lparr>g_pmm_free_calls := g_pmm_free_calls s + 1\<rparr>))
      \<lparr>g_pmm := Some (pmm_release st i)\<rparr>)"
proof -
  let ?idx = "(pa - base_pa st) div PAGE_SIZE"
  let ?st1 = "st\<lparr>bitmap := bit_clear (bitmap st) (unat ?idx), free_pages := free_pages st + 1\<rparr>"
  have rel: "(if ?idx < next_hint st then ?st1\<lparr>next_hint := ?idx\<rparr> else ?st1) = pmm_release st i"
    using assms(7) by (simp add: pmm_release_def word_less_nat_alt)
  have pr: "pmm_update_pressure ?st1 = pmm_update_pressure (pmm_release st i)"
    by (simp add: fun_eq_iff pmm_update_pressure_def Let_def)
  have guards: "(pa < base_pa st \<or> limit_pa st \<le> pa) = False" "(total_pages st \<le> ?idx) = False"
    "(meta_base_pa st \<le> pa \<and> pa < meta_base_pa st + meta_pages st * PAGE_SIZE) = False"
    "(pa AND (PAGE_SIZE - 1) \<noteq> 0) = False" "bit_test (bitmap st) (unat ?idx) = True"
    using assms(3,4) apply auto[1]
    using assms(7,8) apply (simp add: word_le_nat_alt)
    using assms(5,6,7,9) by (simp_all add: in_meta_def page_aligned_def)
  show ?thesis
    by (simp add: pmm_free_page_def Let_def assms(1,2) guards rel pr split del: if_split)
qed

text \<open>The three behaviours of \<open>pmm_free_page\<close>: refused, already free, released.\<close>

lemma pmm_free_page_Ret:
  assumes ok: "pmm_ok s" and free: "pmm_free_page pa s = Ret s'"
  shows "pmm_ok s'" and "managed_pas s' = managed_pas s"
    and "free_pas s' = (if pa \<in> managed_pas s then insert pa (free_pas s) else free_pas s)"
proof -
  from ok obtain st where st: "g_pmm s = Some st" and wf: "pmm_wf st" and pr: "pressure_ok st s"
    by (auto simp: pmm_ok_def split: option.splits)
  from wf have win: "pmm_window st" by (simp add: pmm_wf_def)
  let ?i = "unat ((pa - base_pa st) div PAGE_SIZE)"
  let ?frees = "base_pa st \<le> pa \<and> pa < limit_pa st \<and> page_aligned pa \<and> \<not> in_meta st pa \<and>
    bit_test (bitmap st) ?i"
  have "pmm_ok s' \<and> managed_pas s' = managed_pas s \<and>
    free_pas s' = (if pa \<in> managed_pas s then insert pa (free_pas s) else free_pas s)"
  proof (cases ?frees)
    case True
    then have i: "?i < unat (total_pages st)" and pi: "page_pa st ?i = pa"
      using pmm_free_idx_bound [OF win] by auto
    have irq: "\<not> in_irq s" using free by (auto simp: pmm_free_page_def)
    with True free st i have s': "s' = (pmm_update_pressure (pmm_release st ?i)
        (s\<lparr>g_pmm_free_calls := g_pmm_free_calls s + 1\<rparr>))\<lparr>g_pmm := Some (pmm_release st ?i)\<rparr>"
      by (simp add: pmm_free_page_release [OF irq st, where i = ?i])
    then have st': "g_pmm s' = Some (pmm_release st ?i)" and pr': "pressure_ok (pmm_release st ?i) s'"
      by simp_all
    from True pi have "pmm_wf (pmm_release st ?i)" using pmm_wf_release [OF wf i] by simp
    with st' pr' have "pmm_ok s'" by (simp add: pmm_ok_def)
    moreover have "pa \<in> managed_pas s" using True managed_pas_iff [OF win st] by simp
    ultimately show ?thesis
      using st st' pi by (simp add: managed_pas_def free_pas_def free_idx_release [OF win i])
  next
    case False
    have s': "s' = s\<lparr>g_pmm_free_calls := g_pmm_free_calls s + 1\<rparr>"
      using False free st pmm_free_idx_bound [OF win, of pa]
      by (auto simp: pmm_free_page_def Let_def in_meta_def page_aligned_def not_less not_le
          split: if_splits)
    moreover have "pa \<in> free_pas s" if "pa \<in> managed_pas s"
      using that False managed_pas_iff [OF win st] pmm_free_idx_bound [OF win, of pa] st
      by (auto simp: free_pas_def free_idx_def image_iff)
    ultimately show ?thesis
      using ok by (auto simp: pmm_ok_def pressure_ok_def managed_pas_def free_pas_def insert_absorb
          split: option.splits)
  qed
  then show "pmm_ok s'" and "managed_pas s' = managed_pas s"
    and "free_pas s' = (if pa \<in> managed_pas s then insert pa (free_pas s) else free_pas s)"
    by auto
qed

lemma managed_page:
  assumes "pmm_ok s" and "pa \<in> managed_pas s"
  shows "CAPAZ_RAM_BASE \<le> pa" and "unat pa + 4096 \<le> 0x80000000" and "4096 dvd unat pa"
proof -
  from assms(1) obtain st where st: "g_pmm s = Some st" and win: "pmm_window st"
    by (auto simp: pmm_ok_def pmm_wf_def split: option.splits)
  have m: "base_pa st \<le> pa" "pa < limit_pa st" "page_aligned pa" using managed_pas_iff [OF win st] assms(2) by auto
  show "CAPAZ_RAM_BASE \<le> pa" using win m(1) by (auto simp: pmm_window_def intro: order_trans)
  show al: "4096 dvd unat pa" using m(3) by (simp add: page_aligned_iff)
  have "4096 dvd unat (limit_pa st)" using win by (auto simp: pmm_window_def page_aligned_iff)
  then show "unat pa + 4096 \<le> 0x80000000"
    using al m(2) win by (auto simp: pmm_window_def word_less_nat_alt dvd_def)
qed

section \<open>The page allocator interface\<close>

text \<open>
  What the clients of the physical memory manager (slab caches, kernel heap, thread stacks) rely on:
  an allocation hands out a run of free pages and takes exactly that run out of the free set, a
  refused allocation changes nothing, a release returns a managed page to the free set.
\<close>

locale page_allocator =
  fixes inv :: "'s \<Rightarrow> bool"
    and frees :: "'s \<Rightarrow> u64 set"
    and managed :: "'s \<Rightarrow> u64 set"
    and alloc :: "u32 \<Rightarrow> 's \<Rightarrow> (u64 option \<times> 's) outcome"
    and release :: "u64 \<Rightarrow> 's \<Rightarrow> 's outcome"
  assumes frees_managed: "inv s \<Longrightarrow> frees s \<subseteq> managed s"
    and alloc_Some: "inv s \<Longrightarrow> alloc n s = Ret (Some pa, s') \<Longrightarrow>
      inv s' \<and> page_run pa (unat n) \<subseteq> frees s \<and> frees s' = frees s - page_run pa (unat n) \<and>
      managed s' = managed s"
    and alloc_None: "inv s \<Longrightarrow> alloc n s = Ret (None, s') \<Longrightarrow>
      inv s' \<and> frees s' = frees s \<and> managed s' = managed s"
    and release_Ret: "inv s \<Longrightarrow> release pa s = Ret s' \<Longrightarrow>
      inv s' \<and> managed s' = managed s \<and>
      frees s' = (if pa \<in> managed s then insert pa (frees s) else frees s)"
begin

lemma alloc_disjoint:
  assumes "inv s" and "alloc n s = Ret (Some p, s1)" and "alloc m s1 = Ret (Some q, s2)"
  shows "page_run p (unat n) \<inter> page_run q (unat m) = {}"
  using alloc_Some [OF assms(1,2)] alloc_Some [of s1, OF _ assms(3)] by auto

lemma alloc_release:
  assumes "inv s" and "alloc 1 s = Ret (Some p, s1)" and "release p s1 = Ret s2"
  shows "frees s2 = frees s"
proof -
  have "p \<in> managed s1"
    using alloc_Some [OF assms(1,2)] frees_managed [OF assms(1)] by auto
  then show ?thesis
    using alloc_Some [OF assms(1,2)] release_Ret [of s1, OF _ assms(3)] by auto
qed

text \<open>
  Ownership: the pages a client holds and the free pages partition the pages that were free at the
  start. Each step of a client keeps this.
\<close>

definition partitioned :: "u64 set \<Rightarrow> 's \<Rightarrow> u64 set \<Rightarrow> bool" where
  "partitioned F s own \<longleftrightarrow>
     inv s \<and> own \<inter> frees s = {} \<and> own \<union> frees s = F \<and> F \<subseteq> managed s"

lemma partitioned_start: "inv s \<Longrightarrow> partitioned (frees s) s {}"
  by (simp add: partitioned_def frees_managed)

lemma partitioned_alloc:
  "partitioned F s own \<Longrightarrow> alloc n s = Ret (Some pa, s') \<Longrightarrow>
   partitioned F s' (own \<union> page_run pa (unat n))"
  using alloc_Some [of s n pa s'] by (auto simp: partitioned_def)

lemma partitioned_alloc_fresh:
  "partitioned F s own \<Longrightarrow> alloc n s = Ret (Some pa, s') \<Longrightarrow> page_run pa (unat n) \<inter> own = {}"
  using alloc_Some [of s n pa s'] by (auto simp: partitioned_def)

lemma partitioned_fail:
  "partitioned F s own \<Longrightarrow> alloc n s = Ret (None, s') \<Longrightarrow> partitioned F s' own"
  using alloc_None [of s n s'] by (auto simp: partitioned_def)

lemma partitioned_release:
  "partitioned F s own \<Longrightarrow> pa \<in> own \<Longrightarrow> release pa s = Ret s' \<Longrightarrow> partitioned F s' (own - {pa})"
  using release_Ret [of s pa s'] by (auto simp: partitioned_def)

end

lemma free_pas_managed: "pmm_ok s \<Longrightarrow> free_pas s \<subseteq> managed_pas s"
  by (auto simp: pmm_ok_def pmm_wf_def free_pas_def managed_pas_def free_idx_def split: option.splits)

interpretation pm: page_allocator pmm_ok free_pas managed_pas "\<lambda>n. pmm_alloc_pages n LOCAL" pmm_free_page
  by unfold_locales (auto simp: free_pas_managed [THEN subsetD] dest: pmm_ok_alloc_Some pmm_ok_alloc_None
      pmm_free_page_Ret)

text \<open>A client that allocates runs and frees only pages it holds; \<open>own\<close> is what it holds.\<close>

inductive pmm_owned ::
    "'a pmm_globals_scheme \<Rightarrow> 'a pmm_globals_scheme \<Rightarrow> u64 set \<Rightarrow> bool" for s0 where
  owned_start: "pmm_owned s0 s0 {}"
| owned_alloc: "pmm_owned s0 s own \<Longrightarrow> pmm_alloc_pages n LOCAL s = Ret (Some pa, s') \<Longrightarrow>
    pmm_owned s0 s' (own \<union> page_run pa (unat n))"
| owned_fail: "pmm_owned s0 s own \<Longrightarrow> pmm_alloc_pages n LOCAL s = Ret (None, s') \<Longrightarrow>
    pmm_owned s0 s' own"
| owned_free: "pmm_owned s0 s own \<Longrightarrow> pa \<in> own \<Longrightarrow> pmm_free_page pa s = Ret s' \<Longrightarrow>
    pmm_owned s0 s' (own - {pa})"

lemma pmm_owned_partitioned:
  assumes "pmm_owned s0 s own" and "pmm_ok s0"
  shows "pm.partitioned (free_pas s0) s own"
  using assms
proof (induction rule: pmm_owned.induct)
  case owned_start
  then show ?case by (simp add: pm.partitioned_start)
qed (blast intro: pm.partitioned_alloc pm.partitioned_fail pm.partitioned_release)+

lemma pmm_free_page_more:
  assumes "pmm_free_page pa s = Ret s'"
  shows "pmm_globals.more s' = pmm_globals.more s" and "s_irq_depth s' = s_irq_depth s" and "daif s' = daif s"
  using assms by (auto simp: pmm_free_page_def Let_def split: option.splits if_splits)

lemma pmm_free_page_returns: "\<not> in_irq s \<Longrightarrow> \<exists>s'. pmm_free_page pa s = Ret s'"
  by (auto simp: pmm_free_page_def Let_def split: option.splits)

lemma pmm_alloc_one:
  assumes "pmm_ok s" and "\<not> in_irq s" and "free_pas s \<noteq> {}"
  shows "\<exists>pa s'. pmm_alloc_pages 1 LOCAL s = Ret (Some pa, s')"
proof -
  from assms(1) obtain st where st: "g_pmm s = Some st" and wf: "pmm_wf st"
    by (auto simp: pmm_ok_def split: option.splits)
  from assms(3) st obtain i where i: "i \<in> free_idx st" by (auto simp: free_pas_def)
  then have "0 < card (free_idx st)" by (auto simp: card_gt_0_iff)
  moreover have "i < unat (total_pages st)" using i by (simp add: free_idx_def)
  ultimately have "\<not> free_pages st < 1" "\<not> total_pages st < 1"
    using wf by (auto simp: pmm_wf_def word_less_nat_alt)
  moreover obtain j where "pmm_search st (Suc 0) = Some j" using pmm_search_one [OF i] by auto
  ultimately show ?thesis
    using assms(2) st by (simp add: pmm_alloc_pages_def Let_def)
qed

section \<open>Properties\<close>

text \<open>A manager of sixteen pages, the first one metadata, pages 4 to 7 free and the hint at 6.\<close>

definition example_pmm :: pmm_globals where
  "example_pmm =
     \<lparr>s_irq_depth = 0, daif = 0, s_handlers = [], s_ctx = [], eoi_log = [],
      g_pmm = Some \<lparr>base_pa = 0x40000000, limit_pa = 0x40010000, total_pages = 16, free_pages = 4,
        bitmap_va = 0xFFFF800040000050, bitmap = [0x0F, 0xFF], bitmap_bytes = 2, next_hint = 6,
        meta_base_pa = 0x40000000, meta_pages = 1\<rparr>,
      g_pmm_alloc_calls = 0, g_pmm_free_calls = 0, g_pmm_alloc_pages_calls = 0,
      g_pmm_alloc_contig_calls = 0, g_pmm_peak_used_pages = 12, g_pmm_low_free_pages = 4\<rparr>"

lemma free_idx_filter:
  "free_idx st = set (filter (\<lambda>i. \<not> bit_test (bitmap st) i) [0..<unat (total_pages st)])"
  by (auto simp: free_idx_def)

lemma example_pmm_bits: "filter (\<lambda>i. \<not> bit_test [0x0F, 0xFF] i) [0..<16] = [4, 5, 6, 7]"
  by code_simp

lemma example_pmm_runs:
  "find_run [0x0F, 0xFF] 6 16 2 = Some 6"
  "find_run [0x0F, 0xFF] 6 16 4 = None" "find_run [0x0F, 0xFF] 0 6 4 = None"
  "check_run [0x0F, 0xFF] 4 4"
  by code_simp+

lemma example_pmm_ok: "pmm_ok example_pmm" and example_pmm_thread: "\<not> in_irq example_pmm"
proof -
  show "pmm_ok example_pmm"
    by (simp add: example_pmm_def pmm_ok_def pmm_wf_def pmm_window_def free_idx_filter example_pmm_bits
        page_aligned_iff kaddr_config in_meta_def page_pa_def pressure_ok_def)
  show "\<not> in_irq example_pmm" by (simp add: example_pmm_def in_irq_def)
qed

lemma example_pmm_free: "free_pas example_pmm = {0x40004000, 0x40005000, 0x40006000, 0x40007000}"
  by (simp add: example_pmm_def free_pas_def free_idx_filter example_pmm_bits page_pa_def PAGE_SIZE_def)

text \<open>
  C1: whatever a client allocates and frees (freeing only what it holds), its pages and the free
  pages are disjoint and together are the pages that were free at the start: no page is handed out
  twice, none is lost, and the manager stays well formed.
\<close>

theorem pmm_conservation:
  assumes "pmm_ok s0" and "pmm_owned s0 s own"
  shows "own \<inter> free_pas s = {} \<and> own \<union> free_pas s = free_pas s0 \<and> pmm_ok s"
  using pmm_owned_partitioned [OF assms(2,1)] by (simp add: pm.partitioned_def)

text \<open>
  C32: a successful \<open>pmm_alloc_pages\<close> returns the page-aligned start of a run of \<open>count\<close> free pages,
  inside the managed window, removes exactly those pages from the free set and lowers
  \<open>free_pages\<close> by \<open>count\<close>.
\<close>

theorem pmm_alloc_pages_run:
  assumes "pmm_ok s" and "pmm_alloc_pages count LOCAL s = Ret (Some pa, s')"
  shows "page_aligned pa \<and> page_run pa (unat count) \<subseteq> free_pas s \<and>
    free_pas s' = free_pas s - page_run pa (unat count) \<and> pmm_ok s' \<and>
    (\<exists>st st'. g_pmm s = Some st \<and> g_pmm s' = Some st' \<and> base_pa st \<le> pa \<and>
       unat pa + unat count * 4096 \<le> unat (limit_pa st) \<and>
       unat (free_pages st') + unat count = unat (free_pages st))"
proof -
  from assms(2) obtain st i where st: "g_pmm s = Some st"
    and i: "i + unat count \<le> unat (total_pages st)" and run: "check_run (bitmap st) i (unat count)"
    and pa: "pa = page_pa st i" and st': "g_pmm s' = Some (pmm_commit st i (unat count))"
    by (rule pmm_alloc_pages_SomeE)
  from assms(1) st have wf: "pmm_wf st" by (simp add: pmm_ok_def)
  then have win: "pmm_window st" and fp: "unat (free_pages st) = card (free_idx st)"
    by (simp_all add: pmm_wf_def)
  have upa: "unat pa = unat (base_pa st) + i * 4096" using unat_page_pa [OF win] i pa by simp
  have "unat pa + unat count * 4096 \<le> unat (limit_pa st)"
    using mult_le_mono1 [OF i, of 4096] win by (simp add: upa pmm_window_def add_mult_distrib)
  moreover have "unat count \<le> card (free_idx st)"
    using card_mono [OF finite_free_idx free_run_subset [OF run i]] by simp
  then have "unat (free_pages (pmm_commit st i (unat count))) + unat count = unat (free_pages st)"
    using fp by (simp add: pmm_commit_def unat_sub word_le_nat_alt)
  ultimately show ?thesis
    using pmm_ok_alloc_Some [OF assms] page_pa_aligned [OF win] i pa st st' upa
    by (auto simp: word_le_nat_alt)
qed

theorem pmm_alloc_pages_run_witness:
  "\<exists>pa s'. pmm_alloc_pages 2 LOCAL example_pmm = Ret (Some pa, s') \<and>
     free_pas s' = free_pas example_pmm - page_run pa 2"
proof -
  have "\<exists>pa s'. pmm_alloc_pages 2 LOCAL example_pmm = Ret (Some pa, s')"
    by (simp add: pmm_alloc_pages_def Let_def example_pmm_thread)
       (simp add: example_pmm_def pmm_search_def example_pmm_runs Let_def)
  then obtain pa s' where r: "pmm_alloc_pages 2 LOCAL example_pmm = Ret (Some pa, s')" by blast
  from r pmm_alloc_pages_run [OF example_pmm_ok r] show ?thesis by auto
qed

theorem pmm_conservation_witness:
  "\<exists>pa s'. pmm_owned example_pmm s' {pa} \<and> pa \<notin> free_pas s' \<and>
     insert pa (free_pas s') = free_pas example_pmm"
proof -
  have "free_pas example_pmm \<noteq> {}" by (simp add: example_pmm_free)
  then obtain pa s' where r: "pmm_alloc_pages 1 LOCAL example_pmm = Ret (Some pa, s')"
    using pmm_alloc_one [OF example_pmm_ok example_pmm_thread] by blast
  have own: "pmm_owned example_pmm s' {pa}"
    using owned_alloc [OF owned_start r] by simp
  with pmm_conservation [OF example_pmm_ok own] show ?thesis by auto
qed

text \<open>
  in thread context a single-page allocation succeeds whenever any page is free, wherever the
  search hint points.
\<close>

theorem pmm_alloc_page_complete:
  assumes "pmm_ok s" and "\<not> in_irq s" and "free_pas s \<noteq> {}"
  shows "\<exists>pa s'. pmm_alloc_page LOCAL s = Ret (Some pa, s') \<and> pa \<in> free_pas s"
proof -
  from pmm_alloc_one [OF assms] obtain pa s'
    where r: "pmm_alloc_pages 1 LOCAL s = Ret (Some pa, s')" by blast
  from pmm_ok_alloc_Some(2) [OF assms(1) r] r show ?thesis by (auto simp: pmm_alloc_page_def)
qed

theorem pmm_alloc_page_complete_witness:
  "\<exists>pa s'. pmm_alloc_page LOCAL example_pmm = Ret (Some pa, s') \<and> pa \<in> free_pas example_pmm"
  using pmm_alloc_page_complete [OF example_pmm_ok example_pmm_thread] by (simp add: example_pmm_free)

text \<open>
  the search for a run of several pages is not complete: neither pass looks at runs that cross
  the hint, so an allocation is refused although a run of free pages of the requested length exists.
\<close>

theorem pmm_alloc_misses_run_across_hint:
  "\<exists>s'. pmm_alloc_pages 4 LOCAL example_pmm = Ret (None, s') \<and>
     page_run 0x40004000 4 \<subseteq> free_pas example_pmm"
proof -
  have "\<exists>s'. pmm_alloc_pages 4 LOCAL example_pmm = Ret (None, s')"
    by (simp add: pmm_alloc_pages_def Let_def example_pmm_thread)
       (simp add: example_pmm_def pmm_search_def example_pmm_runs Let_def)
  moreover have "page_run 0x40004000 4 \<subseteq> free_pas example_pmm"
    by (auto simp: example_pmm_free page_run_def PAGE_SIZE_def numeral_eq_Suc less_Suc_eq)
  ultimately show ?thesis by auto
qed

text \<open>
  releasing a managed page makes exactly that page free (a page already free stays free and is
  counted once), and any other address is ignored.
\<close>

theorem pmm_free_page_releases:
  assumes "pmm_ok s" and "\<not> in_irq s"
  shows "\<exists>s'. pmm_free_page pa s = Ret s' \<and> pmm_ok s' \<and>
    free_pas s' = (if pa \<in> managed_pas s then insert pa (free_pas s) else free_pas s)"
proof -
  obtain s' where "pmm_free_page pa s = Ret s'" using pmm_free_page_returns [OF assms(2)] by blast
  with pmm_free_page_Ret [OF assms(1) this] show ?thesis by blast
qed

theorem pmm_free_page_releases_witness:
  "\<exists>s'. pmm_free_page 0x40008000 example_pmm = Ret s' \<and>
     free_pas s' = insert 0x40008000 (free_pas example_pmm)"
proof -
  have "page_pa (the (g_pmm example_pmm)) 8 = 0x40008000"
    by (simp add: page_pa_def example_pmm_def PAGE_SIZE_def)
  then have "0x40008000 \<in> managed_pas example_pmm"
    by (auto simp: managed_pas_def example_pmm_def in_meta_def PAGE_SIZE_def intro!: exI [of _ 8])
  with pmm_free_page_releases [OF example_pmm_ok example_pmm_thread, of "0x40008000"]
  show ?thesis by auto
qed

end
