(* ===== verification/Slab.thy ===== *)
theory Slab
  imports Pmm
begin

text \<open>
  The slab allocator for fixed-size kernel objects (\<open>Kern/Kernel/alloc/slab_cache.c\<close>). Memory is a
  typed store: \<open>slab_page_at\<close> is the page header found at a page's base address and \<open>obj_link\<close> the
  intrusive next pointer in the first word of a free object. The static caches of the kernel are the
  constructors of \<open>slab_ref\<close>; a possibly NULL cache pointer is a \<open>slab_ref option\<close>. The loops over
  the page list and over a page's object slots are partial functions on machine words: a corrupted,
  cyclic list is a loop that does not end, and the invariant is what excludes it.
\<close>

section \<open>State\<close>

datatype slab_ref =
  G_cap_entry_cache | G_endpoint_cache | G_ipc_msg_cache | G_thread_cache | G_work_item_cache

record slab_page =
  sp_next :: ptr
  sp_freelist :: ptr
  sp_obj_count :: u16
  sp_inuse :: u16

record slab_cache =
  sc_name :: string
  sc_obj_size :: u32
  sc_obj_align :: u32
  sc_pages :: ptr
  sc_alloc_calls :: u64
  sc_free_calls :: u64
  sc_inuse_objects :: u64
  sc_peak_inuse_objects :: u64
  sc_slab_pages_allocated :: u64
  sc_alloc_failures :: u64

record slab_globals = pmm_globals +
  slab_caches :: "slab_ref \<Rightarrow> slab_cache"
  slab_page_at :: "ptr \<Rightarrow> slab_page"
  obj_link :: "ptr \<Rightarrow> ptr"
  obj_poison :: "ptr \<Rightarrow> u32"

definition SLAB_PAGE_SIZE :: u64 where
  "SLAB_PAGE_SIZE = 4096"

text \<open>\<open>sizeof(slab_page_t)\<close>: two pointers and two 16-bit counters, padded to eight bytes.\<close>

definition sizeof_slab_page :: u64 where
  "sizeof_slab_page = 24"

section \<open>Operations\<close>

definition slab_align_up :: "u64 \<Rightarrow> u64 \<Rightarrow> u64" where
  "slab_align_up v a = (if a = 0 then v else (v + (a - 1)) AND NOT (a - 1))"

definition u32_max :: "u32 \<Rightarrow> u32 \<Rightarrow> u32" where
  "u32_max a b = (if b < a then a else b)"

text \<open>The push-front loop over the object slots of a new page.\<close>

partial_function (option) slab_build_loop ::
    "u64 \<Rightarrow> u64 \<Rightarrow> u32 \<Rightarrow> ptr \<Rightarrow> u16 \<Rightarrow> (ptr \<Rightarrow> ptr) \<Rightarrow> (ptr \<times> u16 \<times> (ptr \<Rightarrow> ptr)) option" where
  "slab_build_loop cursor end_va sz head count links =
     (if cursor + ucast sz \<le> end_va
      then slab_build_loop (cursor + ucast sz) end_va sz cursor (count + 1) (links(cursor := head))
      else Some (head, count, links))"

definition slab_page_build_freelist ::
    "ptr \<Rightarrow> u32 \<Rightarrow> u32 \<Rightarrow> 'a slab_globals_scheme \<Rightarrow> 'a slab_globals_scheme outcome" where
  "slab_page_build_freelist sp sz al s =
     (let cursor = slab_align_up (sp + sizeof_slab_page) (ucast al);
          end_va = sp + SLAB_PAGE_SIZE in
      obind (of_loop (slab_build_loop cursor end_va sz NULL 0 (obj_link s)))
        (\<lambda>(head, count, links).
           let s1 = s\<lparr>obj_link := links,
                      slab_page_at := (slab_page_at s)(sp := (slab_page_at s sp)
                        \<lparr>sp_freelist := head, sp_obj_count := count, sp_inuse := 0\<rparr>)\<rparr> in
           kassert (count \<noteq> 0) ''slab: zero capacity'' (Ret s1)))"

definition slab_page_alloc ::
    "u32 \<Rightarrow> u32 \<Rightarrow> 'a slab_globals_scheme \<Rightarrow> (ptr \<times> 'a slab_globals_scheme) outcome" where
  "slab_page_alloc sz al s =
     obind (pmm_alloc_pages 1 LOCAL s) (\<lambda>(r, s1).
       case r of
         None \<Rightarrow> Ret (NULL, s1)
       | Some pa \<Rightarrow>
           let sp = pmm_phys_to_virt pa;
               s2 = s1\<lparr>slab_page_at := (slab_page_at s1)(sp :=
                 \<lparr>sp_next = NULL, sp_freelist = NULL, sp_obj_count = 0, sp_inuse = 0\<rparr>)\<rparr> in
           obind (slab_page_build_freelist sp sz al s2) (\<lambda>s3. Ret (sp, s3)))"

definition slab_cache_init ::
    "slab_ref option \<Rightarrow> string option \<Rightarrow> u64 \<Rightarrow> u64 \<Rightarrow> 'a slab_globals_scheme \<Rightarrow> 'a slab_globals_scheme outcome" where
  "slab_cache_init c name objsz align s =
     (case c of
        None \<Rightarrow> Panic ''slab_cache_init: null''
      | Some r \<Rightarrow>
          if objsz = 0 then Panic ''slab_cache_init: obj_size=0''
          else let want_align = u32_max (ucast align) 8 in
            if want_align AND (want_align - 1) \<noteq> 0 then Panic ''slab_cache_init: bad align''
            else let sz0 = ucast (slab_align_up (ucast (ucast objsz :: u32)) (ucast want_align)) :: u32;
                     sz = (if sz0 < 8 then 8 else sz0);
                     first = slab_align_up sizeof_slab_page (ucast want_align) in
              if SLAB_PAGE_SIZE < first + ucast sz then Panic ''slab_cache_init: obj too large''
              else Ret (s\<lparr>slab_caches := (slab_caches s)(r :=
                \<lparr>sc_name = (case name of Some n \<Rightarrow> n | None \<Rightarrow> ''slab''), sc_obj_size = sz, sc_obj_align = want_align, sc_pages = NULL,
                 sc_alloc_calls = 0, sc_free_calls = 0, sc_inuse_objects = 0,
                 sc_peak_inuse_objects = 0, sc_slab_pages_allocated = 0, sc_alloc_failures = 0\<rparr>)\<rparr>))"

text \<open>\<open>for (sp = c->pages; sp; sp = sp->next) if (sp->freelist) ...\<close>; NULL when no page qualifies.\<close>

partial_function (option) slab_find_free :: "(ptr \<Rightarrow> slab_page) \<Rightarrow> ptr \<Rightarrow> ptr option" where
  "slab_find_free pg sp =
     (if sp = NULL then Some NULL
      else if sp_freelist (pg sp) \<noteq> NULL then Some sp
      else slab_find_free pg (sp_next (pg sp)))"

text \<open>Taking the head object of a page's free list, with the cache's counters.\<close>

definition slab_take ::
    "slab_ref \<Rightarrow> ptr \<Rightarrow> 'a slab_globals_scheme \<Rightarrow> ptr \<times> 'a slab_globals_scheme" where
  "slab_take r sp s =
     (let pg = slab_page_at s sp; obj = sp_freelist pg;
          c = slab_caches s r;
          n = sc_inuse_objects c + 1;
          c' = c\<lparr>sc_inuse_objects := n,
                 sc_peak_inuse_objects :=
                   (if sc_peak_inuse_objects c < n then n else sc_peak_inuse_objects c)\<rparr> in
      (obj, s\<lparr>slab_page_at := (slab_page_at s)(sp := pg\<lparr>sp_freelist := obj_link s obj,
                                                       sp_inuse := sp_inuse pg + 1\<rparr>),
              slab_caches := (slab_caches s)(r := c')\<rparr>))"

text \<open>The tail of \<open>slab_alloc\<close>: no page has a free object, so a page is added and its first object taken.\<close>

definition slab_grow ::
    "slab_ref \<Rightarrow> 'a slab_globals_scheme \<Rightarrow> (ptr \<times> 'a slab_globals_scheme) outcome" where
  "slab_grow r s =
     obind (slab_page_alloc (sc_obj_size (slab_caches s r)) (sc_obj_align (slab_caches s r)) s)
       (\<lambda>(sp, s1).
          let c1 = slab_caches s1 r in
          if sp = NULL
          then Ret (NULL, s1\<lparr>slab_caches := (slab_caches s1)(r :=
                      c1\<lparr>sc_alloc_failures := sc_alloc_failures c1 + 1\<rparr>)\<rparr>)
          else let s2 = s1\<lparr>slab_caches := (slab_caches s1)(r :=
                        c1\<lparr>sc_slab_pages_allocated := sc_slab_pages_allocated c1 + 1,
                           sc_pages := sp\<rparr>),
                      slab_page_at := (slab_page_at s1)(sp :=
                        (slab_page_at s1 sp)\<lparr>sp_next := sc_pages c1\<rparr>)\<rparr> in
               Ret (slab_take r sp s2))"

definition slab_alloc ::
    "slab_ref option \<Rightarrow> 'a slab_globals_scheme \<Rightarrow> (ptr \<times> 'a slab_globals_scheme) outcome" where
  "slab_alloc c s0 =
     ASSERT_THREAD_CONTEXT s0
      (case c of
         None \<Rightarrow> Panic ''slab_alloc: null cache''
       | Some r \<Rightarrow>
           let c0 = slab_caches s0 r;
               s = s0\<lparr>slab_caches := (slab_caches s0)(r := c0\<lparr>sc_alloc_calls := sc_alloc_calls c0 + 1\<rparr>)\<rparr> in
           obind (of_loop (slab_find_free (slab_page_at s) (sc_pages (slab_caches s r)))) (\<lambda>sp.
             if sp \<noteq> NULL then Ret (slab_take r sp s) else slab_grow r s))"

text \<open>The membership loop of \<open>slab_free\<close>.\<close>

partial_function (option) slab_has_page :: "(ptr \<Rightarrow> slab_page) \<Rightarrow> ptr \<Rightarrow> ptr \<Rightarrow> bool option" where
  "slab_has_page pg it sp =
     (if it = NULL then Some False
      else if it = sp then Some True
      else slab_has_page pg (sp_next (pg it)) sp)"

definition slab_free ::
    "slab_ref option \<Rightarrow> ptr \<Rightarrow> 'a slab_globals_scheme \<Rightarrow> 'a slab_globals_scheme outcome" where
  "slab_free c p s0 =
     ASSERT_THREAD_CONTEXT s0
      (case c of
         None \<Rightarrow> Ret s0
       | Some r \<Rightarrow>
           if p = NULL then Ret s0
           else let c0 = slab_caches s0 r;
                    s = s0\<lparr>slab_caches := (slab_caches s0)(r := c0\<lparr>sc_free_calls := sc_free_calls c0 + 1\<rparr>)\<rparr>;
                    sp = p AND NOT (SLAB_PAGE_SIZE - 1) in
             obind (of_loop (slab_has_page (slab_page_at s) (sc_pages (slab_caches s r)) sp)) (\<lambda>found.
               kassert found ''slab_free: foreign ptr''
               (kassert (sp_inuse (slab_page_at s sp) \<noteq> 0) ''slab_free: underflow''
                (let s1 = s\<lparr>obj_poison := (obj_poison s)(p := sc_obj_size (slab_caches s r)),
                            obj_link := (obj_link s)(p := sp_freelist (slab_page_at s sp)),
                            slab_page_at := (slab_page_at s)(sp := (slab_page_at s sp)
                              \<lparr>sp_freelist := p, sp_inuse := sp_inuse (slab_page_at s sp) - 1\<rparr>)\<rparr>;
                     c1 = slab_caches s1 r in
                 kassert (sc_inuse_objects c1 \<noteq> 0) ''slab_free: cache underflow''
                  (Ret (s1\<lparr>slab_caches := (slab_caches s1)(r :=
                     c1\<lparr>sc_inuse_objects := sc_inuse_objects c1 - 1\<rparr>)\<rparr>))))))"

record slab_cache_stats =
  ss_alloc_calls :: u64
  ss_free_calls :: u64
  ss_inuse_objects :: u64
  ss_peak_inuse_objects :: u64
  ss_slab_pages_allocated :: u64
  ss_alloc_failures :: u64

definition slab_cache_get_stats :: "slab_ref option \<Rightarrow> 'a slab_globals_scheme \<Rightarrow> slab_cache_stats option" where
  "slab_cache_get_stats c s =
     (case c of None \<Rightarrow> None
      | Some r \<Rightarrow> let c = slab_caches s r in Some
          \<lparr>ss_alloc_calls = sc_alloc_calls c, ss_free_calls = sc_free_calls c,
           ss_inuse_objects = sc_inuse_objects c, ss_peak_inuse_objects = sc_peak_inuse_objects c,
           ss_slab_pages_allocated = sc_slab_pages_allocated c, ss_alloc_failures = sc_alloc_failures c\<rparr>)"

section \<open>Geometry of a slab page\<close>

definition first_off :: "nat \<Rightarrow> nat" where
  "first_off a = (24 + (a - 1)) div a * a"

definition slab_capacity :: "u32 \<Rightarrow> u32 \<Rightarrow> nat" where
  "slab_capacity sz al = (4096 - first_off (unat al)) div unat sz"

definition geom_ok :: "u32 \<Rightarrow> u32 \<Rightarrow> bool" where
  "geom_ok sz al \<longleftrightarrow>
     (\<exists>k\<le>12. unat al = 2 ^ k) \<and> 8 \<le> unat sz \<and> first_off (unat al) + unat sz \<le> 4096"

definition slot :: "u32 \<Rightarrow> u32 \<Rightarrow> ptr \<Rightarrow> nat \<Rightarrow> ptr" where
  "slot sz al p k = p + of_nat (first_off (unat al) + k * unat sz)"

definition slots :: "u32 \<Rightarrow> u32 \<Rightarrow> ptr \<Rightarrow> ptr list" where
  "slots sz al p = map (slot sz al p) [0..<slab_capacity sz al]"

text \<open>The base address of a slab page: a direct-mapped page frame of the RAM window.\<close>

definition page_base :: "ptr \<Rightarrow> bool" where
  "page_base p \<longleftrightarrow> page_aligned p \<and> p \<noteq> NULL \<and> unat p + 8192 < 2 ^ 64"

lemma first_off_ge: "0 < a \<Longrightarrow> 24 \<le> first_off a"
proof -
  assume a: "0 < a"
  let ?x = "24 + (a - 1)"
  have "?x div a * a + ?x mod a = ?x" by simp
  moreover have "?x mod a \<le> a - 1" using a by (simp add: Suc_leI flip: less_Suc_eq_le)
  ultimately have "24 \<le> ?x div a * a" by linarith
  then show ?thesis by (simp add: first_off_def)
qed

lemma slab_capacity_pos: "geom_ok sz al \<Longrightarrow> 0 < slab_capacity sz al"
  by (auto simp: geom_ok_def slab_capacity_def div_greater_zero_iff)

lemma slab_capacity_le: "geom_ok sz al \<Longrightarrow> slab_capacity sz al \<le> 512"
proof -
  assume g: "geom_ok sz al"
  have "slab_capacity sz al \<le> 4096 div unat sz"
    by (simp add: slab_capacity_def div_le_mono)
  also have "\<dots> \<le> 4096 div 8" using g by (intro div_le_mono2) (auto simp: geom_ok_def)
  finally show ?thesis by simp
qed

lemma slot_fits:
  assumes "geom_ok sz al" and "k < slab_capacity sz al"
  shows "first_off (unat al) + k * unat sz + unat sz \<le> 4096"
proof -
  have "Suc k * unat sz \<le> slab_capacity sz al * unat sz"
    using assms(2) by (intro mult_le_mono1) simp
  also have "\<dots> \<le> 4096 - first_off (unat al)" by (simp add: slab_capacity_def)
  finally have "k * unat sz + unat sz \<le> 4096 - first_off (unat al)" by simp
  moreover have "first_off (unat al) \<le> 4096" using assms(1) by (simp add: geom_ok_def)
  ultimately show ?thesis by linarith
qed

lemma unat_slot:
  assumes "geom_ok sz al" and "page_base p" and "k < slab_capacity sz al"
  shows "unat (slot sz al p k) = unat p + (first_off (unat al) + k * unat sz)"
proof -
  have "first_off (unat al) + k * unat sz < 4096"
    using slot_fits [OF assms(1,3)] assms(1) by (simp add: geom_ok_def)
  then show ?thesis
    using assms(2) unfolding slot_def page_base_def
    by (subst unat_add_no_wrap) (simp_all add: unat_of_nat del: of_nat_add of_nat_mult)
qed

lemma slot_page:
  assumes "geom_ok sz al" and "page_base p" and "x \<in> set (slots sz al p)"
  shows "align_down_4k x = p"
proof -
  from assms(3) obtain k where k: "k < slab_capacity sz al" and x: "x = slot sz al p k"
    by (auto simp: slots_def)
  have "first_off (unat al) + k * unat sz < 4096"
    using slot_fits [OF assms(1) k] assms(1) by (simp add: geom_ok_def)
  moreover obtain m where "unat p = 4096 * m"
    using assms(2) by (auto simp: page_base_def page_aligned_iff)
  ultimately have "unat x div 4096 * 4096 = unat p"
    using unat_slot [OF assms(1,2) k] x by simp
  then show ?thesis by (simp add: word_unat_eq_iff unat_align_down_4k)
qed

lemma slot_not_NULL:
  assumes "geom_ok sz al" and "page_base p" and "x \<in> set (slots sz al p)"
  shows "x \<noteq> NULL" and "x \<noteq> p"
proof -
  from assms(3) obtain k where k: "k < slab_capacity sz al" and x: "x = slot sz al p k"
    by (auto simp: slots_def)
  have "24 \<le> first_off (unat al)"
    using assms(1) by (auto simp: geom_ok_def intro: first_off_ge)
  then have "unat p < unat x" using unat_slot [OF assms(1,2) k] x by simp
  then show "x \<noteq> NULL" and "x \<noteq> p" by auto
qed

lemma slots_distinct:
  assumes "geom_ok sz al" and "page_base p"
  shows "distinct (slots sz al p)"
proof -
  have "inj_on (slot sz al p) {0..<slab_capacity sz al}"
  proof (rule inj_onI)
    fix i j assume "i \<in> {0..<slab_capacity sz al}" "j \<in> {0..<slab_capacity sz al}"
      and "slot sz al p i = slot sz al p j"
    then have "first_off (unat al) + i * unat sz = first_off (unat al) + j * unat sz"
      using unat_slot [OF assms, of i] unat_slot [OF assms, of j] by (metis add_left_cancel atLeastLessThan_iff)
    moreover have "0 < unat sz" using assms(1) by (simp add: geom_ok_def)
    ultimately show "i = j" by simp
  qed
  then show ?thesis by (simp add: slots_def distinct_map)
qed

lemma length_slots [simp]: "length (slots sz al p) = slab_capacity sz al"
  by (simp add: slots_def)

lemma slots_disjoint_pages:
  assumes "geom_ok sz al" "page_base p" and "geom_ok sz' al'" "page_base q" and "p \<noteq> q"
  shows "set (slots sz al p) \<inter> set (slots sz' al' q) = {}"
  using assms slot_page by blast

lemma mult_add_div_mult: "0 < (d::nat) \<Longrightarrow> (d * m + y) div d * d = d * m + y div d * d"
  by (simp add: algebra_simps)

lemma slab_align_up_pow2:
  assumes "unat al = 2 ^ k" and "unat v + 2 ^ k \<le> 2 ^ 64"
  shows "unat (slab_align_up v (ucast (al :: u32))) = (unat v + (2 ^ k - 1)) div 2 ^ k * 2 ^ k"
proof -
  have k: "(2::nat) ^ k < 2 ^ 32" using unat_less_two_power [of al] assms(1) by simp
  have pos: "0 < (2::nat) ^ k" by simp
  have al: "(ucast al :: u64) = 2 ^ k"
  proof -
    have "unat (of_nat (2 ^ k) :: u64) = 2 ^ k"
      using less_trans [OF k, of "2 ^ 64"] by (simp only: unat_of_nat) simp
    then have "unat ((2::u64) ^ k) = 2 ^ k" by simp
    then show ?thesis using assms(1) by (simp add: word_unat_eq_iff)
  qed
  have m: "(ucast al :: u64) - 1 = mask k" and nz: "(ucast al :: u64) \<noteq> 0"
    using assms(1) unfolding al mask_eq_exp_minus_1 by (auto simp flip: al simp: word_unat_eq_iff)
  have "unat (mask k :: u64) = 2 ^ k - 1"
    using assms(1) unfolding m [symmetric] by (subst unat_pred) (simp_all add: nz)
  then have "unat (v + mask k) = unat v + (2 ^ k - 1)"
    using assms(2) pos by (subst unat_add_no_wrap) simp_all
  then show ?thesis
    unfolding slab_align_up_def using nz by (simp add: m unat_and_not_mask)
qed

lemma slab_align_up_first:
  fixes al :: u32
  assumes "page_base p" and "unat al = 2 ^ k" and "k \<le> 12"
  shows "slab_align_up (p + sizeof_slab_page) (ucast al) = p + of_nat (first_off (unat al))"
proof -
  have k: "(2::nat) ^ k \<le> 2 ^ 12" using assms(3) by (intro power_increasing) simp_all
  have u24: "unat (p + sizeof_slab_page) = unat p + 24"
    using assms(1) by (subst unat_add_no_wrap) (simp_all add: sizeof_slab_page_def page_base_def)
  have "(2::nat) ^ k dvd 2 ^ 12" using assms(3) by (rule le_imp_power_dvd)
  also have "(2::nat) ^ 12 dvd unat p" using assms(1) by (simp add: page_base_def page_aligned_iff)
  finally obtain m where m: "unat p = 2 ^ k * m" by (auto simp: dvd_def)
  have "unat (slab_align_up (p + sizeof_slab_page) (ucast al)) =
      (2 ^ k * m + (24 + (2 ^ k - 1))) div 2 ^ k * 2 ^ k"
    using assms(1) k by (subst slab_align_up_pow2 [OF assms(2)])
      (simp_all add: u24 m [symmetric] page_base_def add.assoc)
  also have "\<dots> = unat p + first_off (unat al)"
    by (subst mult_add_div_mult) (simp_all add: m first_off_def assms(2))
  finally have "unat (slab_align_up (p + sizeof_slab_page) (ucast al)) = unat p + first_off (unat al)" .
  moreover have "first_off (unat al) \<le> 24 + (2 ^ k - 1)" by (simp add: first_off_def assms(2))
  then have "first_off (unat al) < 8192" using k by simp
  then have "unat (p + of_nat (first_off (unat al))) = unat p + first_off (unat al)"
    using assms(1) by (subst unat_add_no_wrap) (simp_all add: unat_of_nat page_base_def)
  ultimately show ?thesis by (simp add: word_unat_eq_iff)
qed

section \<open>The loops\<close>

text \<open>\<open>upslots c sz n\<close>: the \<open>n\<close> object addresses from \<open>c\<close> upwards.\<close>

fun upslots :: "u64 \<Rightarrow> u32 \<Rightarrow> nat \<Rightarrow> ptr list" where
  "upslots c sz 0 = []"
| "upslots c sz (Suc n) = c # upslots (c + ucast sz) sz n"

lemma upslots_map: "upslots c sz n = map (\<lambda>k. c + of_nat (k * unat sz)) [0..<n]"
proof (induction n arbitrary: c)
  case 0
  then show ?case by simp
next
  case (Suc n)
  have "[0..<Suc n] = 0 # map Suc [0..<n]" by (simp add: upt_conv_Cons map_Suc_upt del: upt_Suc)
  with Suc show ?case by (simp add: algebra_simps del: upt_Suc)
qed

lemma slots_upslots:
  "slots sz al p = upslots (p + of_nat (first_off (unat al))) sz (slab_capacity sz al)"
  by (simp add: slots_def slot_def upslots_map algebra_simps)

text \<open>Where the loop starts with room for exactly \<open>n\<close> objects, it ends and pushes those \<open>n\<close>.\<close>

lemma slab_build_loop_result:
  assumes "unat c + n * unat sz \<le> unat e" and "unat e < unat c + n * unat sz + unat sz"
    and "unat e + unat sz < 2 ^ 64"
  shows "\<exists>head' links'.
    slab_build_loop c e sz head cnt links = Some (head', cnt + of_nat n, links') \<and>
    (\<forall>x. x \<notin> set (upslots c sz n) \<longrightarrow> links' x = links x) \<and>
    (\<forall>hs. chain links head hs \<longrightarrow> distinct (upslots c sz n) \<longrightarrow> NULL \<notin> set (upslots c sz n) \<longrightarrow>
      set hs \<inter> set (upslots c sz n) = {} \<longrightarrow> chain links' head' (rev (upslots c sz n) @ hs))"
  using assms
proof (induction n arbitrary: c head cnt links)
  case 0
  then have "\<not> c + ucast sz \<le> e"
    by (simp add: word_le_nat_alt unat_add_no_wrap)
  then show ?case by (subst slab_build_loop.simps) simp
next
  case (Suc n)
  from Suc.prems have up: "unat (c + ucast sz) = unat c + unat sz"
    by (subst unat_add_no_wrap) simp_all
  with Suc.prems have "c + ucast sz \<le> e" by (simp add: word_le_nat_alt)
  then have step: "slab_build_loop c e sz head cnt links =
      slab_build_loop (c + ucast sz) e sz c (cnt + 1) (links(c := head))"
    by (subst slab_build_loop.simps) simp
  have p1: "unat (c + ucast sz) + n * unat sz \<le> unat e"
    and p2: "unat e < unat (c + ucast sz) + n * unat sz + unat sz"
    using Suc.prems by (simp_all add: up)
  from Suc.IH [OF p1 p2 Suc.prems(3), of c "cnt + 1" "links(c := head)"]
  obtain head' links' where res:
    "slab_build_loop (c + ucast sz) e sz c (cnt + 1) (links(c := head)) = Some (head', cnt + 1 + of_nat n, links')"
    and fr: "\<forall>x. x \<notin> set (upslots (c + ucast sz) sz n) \<longrightarrow> links' x = (links(c := head)) x"
    and ch: "\<forall>hs. chain (links(c := head)) c hs \<longrightarrow> distinct (upslots (c + ucast sz) sz n) \<longrightarrow>
      NULL \<notin> set (upslots (c + ucast sz) sz n) \<longrightarrow> set hs \<inter> set (upslots (c + ucast sz) sz n) = {} \<longrightarrow>
      chain links' head' (rev (upslots (c + ucast sz) sz n) @ hs)"
    by blast
  have "chain links' head' (rev (upslots c sz (Suc n)) @ hs)"
    if "chain links head hs" "distinct (upslots c sz (Suc n))" "NULL \<notin> set (upslots c sz (Suc n))"
      "set hs \<inter> set (upslots c sz (Suc n)) = {}" for hs
  proof -
    from that have "chain (links(c := head)) c (c # hs)" by auto
    moreover have "set (c # hs) \<inter> set (upslots (c + ucast sz) sz n) = {}" using that by auto
    ultimately have "chain links' head' (rev (upslots (c + ucast sz) sz n) @ c # hs)"
      using ch that by auto
    then show ?thesis by simp
  qed
  with step res fr show ?case by (auto simp: algebra_simps)
qed

lemma slab_find_free_result:
  assumes "chain (\<lambda>p. sp_next (pg p)) sp ps"
  shows "\<exists>r. slab_find_free pg sp = Some r \<and>
    (if r = NULL then \<forall>p\<in>set ps. sp_freelist (pg p) = NULL
     else r \<in> set ps \<and> sp_freelist (pg r) \<noteq> NULL)"
  using assms
proof (induction ps arbitrary: sp)
  case Nil
  then show ?case by (subst slab_find_free.simps) simp
next
  case (Cons p ps)
  then show ?case by (subst slab_find_free.simps) fastforce
qed

lemma slab_has_page_result:
  "chain (\<lambda>p. sp_next (pg p)) it ps \<Longrightarrow> slab_has_page pg it sp = Some (sp \<in> set ps)"
  by (induction ps arbitrary: it; subst slab_has_page.simps) auto

section \<open>Representation\<close>

text \<open>A page frame handed out by the physical memory manager and mapped at \<open>p\<close>.\<close>

definition backed :: "'a slab_globals_scheme \<Rightarrow> ptr \<Rightarrow> bool" where
  "backed s p \<longleftrightarrow> (\<exists>pa \<in> managed_pas s - free_pas s. p = pmm_phys_to_virt pa)"

definition cache_slots :: "slab_cache \<Rightarrow> ptr \<Rightarrow> ptr list" where
  "cache_slots c p = slots (sc_obj_size c) (sc_obj_align c) p"

definition cache_geom :: "slab_cache \<Rightarrow> bool" where
  "cache_geom c = geom_ok (sc_obj_size c) (sc_obj_align c)"

definition page_rep :: "'a slab_globals_scheme \<Rightarrow> slab_ref \<Rightarrow> ptr \<Rightarrow> ptr list \<Rightarrow> bool" where
  "page_rep s r p fl \<longleftrightarrow>
     backed s p \<and> chain (obj_link s) (sp_freelist (slab_page_at s p)) fl \<and>
     set fl \<subseteq> set (cache_slots (slab_caches s r) p) \<and>
     unat (sp_inuse (slab_page_at s p)) + length fl = length (cache_slots (slab_caches s r) p)"

definition cache_rep ::
    "'a slab_globals_scheme \<Rightarrow> slab_ref \<Rightarrow> ptr list \<Rightarrow> (ptr \<Rightarrow> ptr list) \<Rightarrow> bool" where
  "cache_rep s r ps FL \<longleftrightarrow>
     chain (\<lambda>p. sp_next (slab_page_at s p)) (sc_pages (slab_caches s r)) ps \<and>
     (\<forall>p\<in>set ps. page_rep s r p (FL p)) \<and>
     (ps \<noteq> [] \<longrightarrow> cache_geom (slab_caches s r)) \<and>
     unat (sc_inuse_objects (slab_caches s r)) = (\<Sum>p\<leftarrow>ps. unat (sp_inuse (slab_page_at s p)))"

definition slab_rep ::
    "'a slab_globals_scheme \<Rightarrow> (slab_ref \<Rightarrow> ptr list) \<Rightarrow> (ptr \<Rightarrow> ptr list) \<Rightarrow> bool" where
  "slab_rep s PS FL \<longleftrightarrow>
     pmm_ok s \<and> (\<forall>r. cache_rep s r (PS r) FL) \<and>
     (\<forall>r r'. r \<noteq> r' \<longrightarrow> set (PS r) \<inter> set (PS r') = {})"

definition slab_inv :: "'a slab_globals_scheme \<Rightarrow> bool" where
  "slab_inv s \<longleftrightarrow> (\<exists>PS FL. slab_rep s PS FL)"

definition lives ::
    "'a slab_globals_scheme \<Rightarrow> (slab_ref \<Rightarrow> ptr list) \<Rightarrow> (ptr \<Rightarrow> ptr list) \<Rightarrow> slab_ref \<Rightarrow> ptr set" where
  "lives s PS FL r = (\<Union>p\<in>set (PS r). set (cache_slots (slab_caches s r) p) - set (FL p))"

text \<open>The objects of a cache that are allocated and not yet freed.\<close>

definition live_objs :: "slab_ref \<Rightarrow> 'a slab_globals_scheme \<Rightarrow> ptr set" where
  "live_objs r s = {x. \<exists>PS FL. slab_rep s PS FL \<and> x \<in> lives s PS FL r}"

lemma slab_repD:
  assumes "slab_rep s PS FL"
  shows "pmm_ok s"
    and "chain (\<lambda>p. sp_next (slab_page_at s p)) (sc_pages (slab_caches s r)) (PS r)"
    and "p \<in> set (PS r) \<Longrightarrow> page_rep s r p (FL p)"
    and "p \<in> set (PS r) \<Longrightarrow> cache_geom (slab_caches s r)"
    and "unat (sc_inuse_objects (slab_caches s r)) = (\<Sum>p\<leftarrow>PS r. unat (sp_inuse (slab_page_at s p)))"
    and "r \<noteq> r' \<Longrightarrow> set (PS r) \<inter> set (PS r') = {}"
proof -
  have c: "cache_rep s r (PS r) FL" using assms by (simp add: slab_rep_def)
  show "pmm_ok s" and "r \<noteq> r' \<Longrightarrow> set (PS r) \<inter> set (PS r') = {}" using assms by (auto simp: slab_rep_def)
  show "chain (\<lambda>p. sp_next (slab_page_at s p)) (sc_pages (slab_caches s r)) (PS r)"
    and "unat (sc_inuse_objects (slab_caches s r)) = (\<Sum>p\<leftarrow>PS r. unat (sp_inuse (slab_page_at s p)))"
    using c by (simp_all add: cache_rep_def)
  show "p \<in> set (PS r) \<Longrightarrow> page_rep s r p (FL p)" using c by (simp add: cache_rep_def)
  show "p \<in> set (PS r) \<Longrightarrow> cache_geom (slab_caches s r)" using c by (auto simp: cache_rep_def)
qed

lemma slab_rep_unique:
  assumes "slab_rep s PS FL" and "slab_rep s PS' FL'"
  shows "PS' = PS" and "p \<in> set (PS r) \<Longrightarrow> FL' p = FL p"
proof -
  show eq: "PS' = PS"
  proof
    fix r
    show "PS' r = PS r"
      using assms by (auto simp: slab_rep_def cache_rep_def intro: chain_unique)
  qed
  assume "p \<in> set (PS r)"
  with assms eq have "page_rep s r p (FL p)" and "page_rep s r p (FL' p)"
    by (simp_all add: slab_rep_def cache_rep_def)
  then show "FL' p = FL p" unfolding page_rep_def using chain_unique by blast
qed

lemma live_objs_lives: "slab_rep s PS FL \<Longrightarrow> live_objs r s = lives s PS FL r"
proof -
  assume rep: "slab_rep s PS FL"
  have "lives s PS' FL' r = lives s PS FL r" if "slab_rep s PS' FL'" for PS' FL'
  proof -
    have PS: "PS' = PS" using slab_rep_unique(1) [OF rep that] .
    have FL: "\<And>p. p \<in> set (PS r) \<Longrightarrow> FL' p = FL p" using slab_rep_unique(2) [OF rep that] .
    show ?thesis unfolding lives_def PS by (rule SUP_cong) (simp_all add: FL)
  qed
  with rep show ?thesis unfolding live_objs_def by blast
qed

lemma backed_page_base:
  assumes "pmm_ok s" and "backed s p"
  shows "page_base p"
proof -
  from assms obtain st pa where st: "g_pmm s = Some st" "pmm_wf st" and pa: "pa \<in> managed_pas s"
    and p: "p = pmm_phys_to_virt pa"
    by (auto simp: backed_def pmm_ok_def split: option.splits)
  then have win: "pmm_window st" by (simp add: pmm_wf_def)
  from pa managed_pas_iff [OF win st(1)] have b: "base_pa st \<le> pa" "pa < limit_pa st" "page_aligned pa"
    by auto
  with win have lo: "0x40000000 \<le> unat pa" and hi: "unat pa < 0x80000000"
    by (auto simp: pmm_window_def word_le_nat_alt word_less_nat_alt kaddr_config)
  have "unat (pa - CAPAZ_RAM_BASE) = unat pa - 0x40000000"
    using lo by (subst unat_sub_no_wrap) (simp_all add: kaddr_config word_le_nat_alt)
  then have up: "unat p = 0xFFFF800040000000 + (unat pa - 0x40000000)"
    using hi unfolding p pmm_phys_to_virt_def
    by (subst unat_add_no_wrap) (simp_all add: kaddr_config)
  have "4096 dvd unat pa - 0x40000000"
    using b(3) by (simp add: page_aligned_iff dvd_diff_nat)
  then have "4096 dvd unat p" unfolding up by (intro dvd_add) simp_all
  then show ?thesis using up hi by (auto simp: page_base_def page_aligned_iff)
qed

text \<open>The pages of a cache, and how much they hold together, are bounded by the RAM window.\<close>

lemma backed_pages_bound:
  assumes "pmm_ok s" and "distinct ps" and "\<forall>p\<in>set ps. backed s p"
  shows "length ps \<le> 2 ^ 20"
proof -
  from assms(1) obtain st where st: "g_pmm s = Some st" and win: "pmm_window st"
    by (auto simp: pmm_ok_def pmm_wf_def split: option.splits)
  have man: "managed_pas s \<subseteq> page_pa st ` {..<unat (total_pages st)}"
    using st by (auto simp: managed_pas_def)
  have tot: "unat (total_pages st) * 4096 \<le> 0x80000000" using win by (simp add: pmm_window_def)
  have "set ps \<subseteq> pmm_phys_to_virt ` page_pa st ` {..<unat (total_pages st)}"
    using assms(3) man unfolding backed_def by blast
  then have "card (set ps) \<le> card (pmm_phys_to_virt ` page_pa st ` {..<unat (total_pages st)})"
    by (intro card_mono) auto
  also have "\<dots> \<le> unat (total_pages st)"
    using card_image_le [of "{..<unat (total_pages st)}" "\<lambda>i. pmm_phys_to_virt (page_pa st i)"]
    by (simp add: image_image)
  finally show ?thesis using assms(2) tot by (simp add: distinct_card)
qed

lemma inuse_sum_bound:
  assumes "slab_rep s PS FL"
  shows "(\<Sum>p\<leftarrow>PS r. unat (sp_inuse (slab_page_at s p))) \<le> 2 ^ 20 * 512"
proof -
  have c: "cache_rep s r (PS r) FL" and ok: "pmm_ok s" using assms by (auto simp: slab_rep_def)
  have "unat (sp_inuse (slab_page_at s p)) \<le> 512" if "p \<in> set (PS r)" for p
  proof -
    have "page_rep s r p (FL p)" and g: "cache_geom (slab_caches s r)"
      using c that by (auto simp: cache_rep_def)
    then show ?thesis
      using slab_capacity_le by (fastforce simp: page_rep_def cache_slots_def cache_geom_def)
  qed
  then have "(\<Sum>p\<leftarrow>PS r. unat (sp_inuse (slab_page_at s p))) \<le> (\<Sum>p\<leftarrow>PS r. 512)"
    by (rule sum_list_mono)
  also have "\<dots> = length (PS r) * 512" by (simp add: sum_list_triv)
  also have "\<dots> \<le> 2 ^ 20 * 512"
  proof (rule mult_le_mono1, rule backed_pages_bound [OF ok])
    show "distinct (PS r)" using c by (auto simp: cache_rep_def intro: chain_distinct)
    show "\<forall>p\<in>set (PS r). backed s p" using c by (auto simp: cache_rep_def page_rep_def)
  qed
  finally show ?thesis .
qed

lemma sum_list_update_one:
  fixes f :: "'b \<Rightarrow> nat"
  assumes "distinct xs" and "a \<in> set xs"
  shows "(\<Sum>x\<leftarrow>xs. (f(a := v)) x) + f a = (\<Sum>x\<leftarrow>xs. f x) + v"
  using assms
proof (induction xs)
  case Nil
  then show ?case by simp
next
  case (Cons x xs)
  show ?case
  proof (cases "x = a")
    case True
    with Cons.prems have "a \<notin> set xs" by simp
    then have "map (f(a := v)) xs = map f xs" by simp
    with True show ?thesis by (metis add.commute add.left_commute fun_upd_same list.simps(9) sum_list.Cons)
  next
    case False
    with Cons show ?thesis by simp
  qed
qed

definition same_pmm :: "'a slab_globals_scheme \<Rightarrow> 'a slab_globals_scheme \<Rightarrow> bool" where
  "same_pmm s s' \<longleftrightarrow>
     g_pmm s' = g_pmm s \<and> g_pmm_low_free_pages s' = g_pmm_low_free_pages s \<and>
     g_pmm_peak_used_pages s' = g_pmm_peak_used_pages s"

lemma same_pmm_pages:
  assumes "same_pmm s s'"
  shows "pmm_ok s' = pmm_ok s" and "managed_pas s' = managed_pas s" and "free_pas s' = free_pas s"
    and "backed s' = backed s"
  using assms
  by (auto simp: same_pmm_def pmm_ok_def pressure_ok_def managed_pas_def free_pas_def backed_def fun_eq_iff
      split: option.splits)

lemma rep_slots:
  assumes "slab_rep s PS FL" and "p \<in> set (PS r)" and "q \<in> set (PS r')" and "p \<noteq> q"
  shows "set (cache_slots (slab_caches s r) p) \<inter> set (cache_slots (slab_caches s r') q) = {}"
proof -
  have "pmm_ok s" "cache_rep s r (PS r) FL" "cache_rep s r' (PS r') FL"
    using assms(1) by (auto simp: slab_rep_def)
  then have "page_base p" "page_base q" "cache_geom (slab_caches s r)" "cache_geom (slab_caches s r')"
    using assms(2,3) by (auto simp: cache_rep_def page_rep_def intro: backed_page_base)
  with assms(4) show ?thesis
    unfolding cache_slots_def cache_geom_def by (intro slots_disjoint_pages) auto
qed

text \<open>
  A change of one page of one cache that keeps the page list, the geometry and the counters in step
  keeps the whole representation, and changes the live objects of that page only.
\<close>

lemma slab_rep_page_update:
  assumes rep: "slab_rep s PS FL" and p: "p \<in> set (PS r)" and pmm: "same_pmm s s'"
    and pg: "slab_page_at s' = (slab_page_at s)(p := pg')" "sp_next pg' = sp_next (slab_page_at s p)"
    and ln: "\<And>x. x \<notin> set (cache_slots (slab_caches s r) p) \<Longrightarrow> obj_link s' x = obj_link s x"
    and ca: "slab_caches s' = (slab_caches s)(r := c')" "sc_obj_size c' = sc_obj_size (slab_caches s r)"
      "sc_obj_align c' = sc_obj_align (slab_caches s r)" "sc_pages c' = sc_pages (slab_caches s r)"
    and pr: "page_rep s' r p fl'"
    and cnt: "unat (sc_inuse_objects c') + unat (sp_inuse (slab_page_at s p)) =
      unat (sc_inuse_objects (slab_caches s r)) + unat (sp_inuse pg')"
  shows "slab_rep s' PS (FL(p := fl'))"
    and "lives s' PS (FL(p := fl')) r' =
      (if r' = r then (lives s PS FL r - set (cache_slots (slab_caches s r) p)) \<union>
         (set (cache_slots (slab_caches s r) p) - set fl')
       else lives s PS FL r')"
proof -
  have sl: "cache_slots (slab_caches s' x) = cache_slots (slab_caches s x)"
    "cache_geom (slab_caches s' x) = cache_geom (slab_caches s x)"
    "sc_pages (slab_caches s' x) = sc_pages (slab_caches s x)" for x
    using ca by (auto simp: cache_slots_def cache_geom_def fun_eq_iff)
  have nxt: "(\<lambda>q. sp_next (slab_page_at s' q)) = (\<lambda>q. sp_next (slab_page_at s q))"
    using pg by (auto simp: fun_eq_iff)
  have dis: "x \<noteq> r \<Longrightarrow> p \<notin> set (PS x)" for x
    using rep p unfolding slab_rep_def by blast
  have other: "page_rep s' x q (FL q)" if "q \<in> set (PS x)" "q \<noteq> p" for x q
  proof -
    have pq: "page_rep s x q (FL q)" using rep that by (auto simp: slab_rep_def cache_rep_def)
    have "\<And>y. y \<in> set (FL q) \<Longrightarrow> obj_link s' y = obj_link s y"
      using ln pq rep_slots [OF rep p that(1)] that(2) unfolding page_rep_def by blast
    then have "chain (obj_link s') (sp_freelist (slab_page_at s q)) (FL q)"
      using pq chain_cong [of "FL q" "obj_link s'" "obj_link s"] by (simp add: page_rep_def)
    with pq that(2) show ?thesis
      by (simp add: page_rep_def sl same_pmm_pages [OF pmm] pg)
  qed
  have sum: "unat (sc_inuse_objects (slab_caches s' x)) =
      (\<Sum>q\<leftarrow>PS x. unat (sp_inuse (slab_page_at s' q)))" for x
  proof (cases "x = r")
    case True
    let ?f = "\<lambda>q. unat (sp_inuse (slab_page_at s q))"
    have d: "distinct (PS r)" and old: "unat (sc_inuse_objects (slab_caches s r)) = (\<Sum>q\<leftarrow>PS r. ?f q)"
      using rep by (auto simp: slab_rep_def cache_rep_def intro: chain_distinct)
    have "(\<lambda>q. unat (sp_inuse (slab_page_at s' q))) = ?f(p := unat (sp_inuse pg'))"
      by (auto simp: pg)
    then show ?thesis
      using sum_list_update_one [OF d p, of ?f "unat (sp_inuse pg')"] cnt old True
      by (simp add: ca fun_upd_def)
  next
    case False
    then have "map (\<lambda>q. unat (sp_inuse (slab_page_at s' q))) (PS x) =
        map (\<lambda>q. unat (sp_inuse (slab_page_at s q))) (PS x)"
      using dis [OF False] by (auto simp: pg)
    moreover have "slab_caches s' x = slab_caches s x" using False by (simp add: ca)
    ultimately show ?thesis using slab_repD(5) [OF rep, of x] by (simp only:)
  qed
  show "slab_rep s' PS (FL(p := fl'))"
    unfolding slab_rep_def cache_rep_def
  proof (intro conjI allI ballI impI)
    show "pmm_ok s'" using rep by (simp add: slab_rep_def same_pmm_pages [OF pmm])
  next
    fix x show "chain (\<lambda>q. sp_next (slab_page_at s' q)) (sc_pages (slab_caches s' x)) (PS x)"
      using rep by (simp add: slab_rep_def cache_rep_def nxt sl)
  next
    fix x q assume "q \<in> set (PS x)"
    then show "page_rep s' x q ((FL(p := fl')) q)"
      using other pr dis by (cases "q = p"; cases "x = r") auto
  next
    fix x assume "PS x \<noteq> []"
    then show "cache_geom (slab_caches s' x)" using rep by (simp add: slab_rep_def cache_rep_def sl)
  next
    fix x show "unat (sc_inuse_objects (slab_caches s' x)) =
      (\<Sum>q\<leftarrow>PS x. unat (sp_inuse (slab_page_at s' q)))" by (rule sum)
  next
    fix x y :: slab_ref assume "x \<noteq> y"
    then show "set (PS x) \<inter> set (PS y) = {}" using rep by (simp add: slab_rep_def)
  qed
  show "lives s' PS (FL(p := fl')) r' =
      (if r' = r then (lives s PS FL r - set (cache_slots (slab_caches s r) p)) \<union>
         (set (cache_slots (slab_caches s r) p) - set fl') else lives s PS FL r')"
  proof (cases "r' = r")
    case True
    let ?A = "\<lambda>q. set (cache_slots (slab_caches s r) q)" and ?rest = "set (PS r) - {p}"
    have "lives s' PS (FL(p := fl')) r = (?A p - set fl') \<union> (\<Union>q\<in>?rest. ?A q - set (FL q))"
      using p unfolding lives_def sl by (auto split: if_splits)
    moreover have "lives s PS FL r = (?A p - set (FL p)) \<union> (\<Union>q\<in>?rest. ?A q - set (FL q))"
      using p unfolding lives_def by auto
    moreover have "\<And>q. q \<in> ?rest \<Longrightarrow> ?A p \<inter> ?A q = {}" using rep_slots [OF rep p, of _ r] by auto
    ultimately show ?thesis using True by auto
  next
    case False
    then have "\<And>q. q \<in> set (PS r') \<Longrightarrow> (FL(p := fl')) q = FL q" using dis [OF False] by auto
    then show ?thesis using False unfolding lives_def sl by simp
  qed
qed

lemma slab_rep_base:
  assumes "slab_rep s PS FL" and "p \<in> set (PS r)"
  shows "page_base p" and "cache_geom (slab_caches s r)" and "page_rep s r p (FL p)"
proof -
  show pr: "page_rep s r p (FL p)" using slab_repD(3) [OF assms] .
  show "cache_geom (slab_caches s r)" using slab_repD(4) [OF assms] .
  show "page_base p"
    using pr slab_repD(1) [OF assms(1)] by (auto simp: page_rep_def intro: backed_page_base)
qed

lemma cache_capacity_le: "cache_geom c \<Longrightarrow> length (cache_slots c p) \<le> 512"
  by (simp add: cache_geom_def cache_slots_def slab_capacity_le)

text \<open>Taking the first free object of a page that has one.\<close>

lemma slab_take_rep:
  assumes rep: "slab_rep s PS FL" and p: "p \<in> set (PS r)"
    and fr: "sp_freelist (slab_page_at s p) \<noteq> NULL" and take: "slab_take r p s = (x, s')"
  shows "\<exists>FL'. slab_rep s' PS FL' \<and> x \<noteq> NULL \<and> x \<notin> lives s PS FL r \<and>
    lives s' PS FL' r = insert x (lives s PS FL r) \<and>
    (\<forall>r'. r' \<noteq> r \<longrightarrow> lives s' PS FL' r' = lives s PS FL r')"
proof -
  let ?pg = "slab_page_at s p" and ?c = "slab_caches s r"
  have base: "page_base p" and geom: "cache_geom ?c" and pr: "page_rep s r p (FL p)"
    using slab_rep_base [OF rep p] .
  obtain rest where fl: "FL p = sp_freelist ?pg # rest"
    and ch: "chain (obj_link s) (obj_link s (sp_freelist ?pg)) rest"
    using pr fr by (auto simp: page_rep_def chain_neq_NULL)
  have x: "x = sp_freelist ?pg" using take by (simp add: slab_take_def Let_def)
  have xs: "x \<in> set (cache_slots ?c p)" using pr fl x by (auto simp: page_rep_def)
  have "distinct (FL p)" using pr by (auto simp: page_rep_def intro: chain_distinct)
  then have dist: "x \<notin> set rest" using fl x by simp
  have inuse: "unat (sp_inuse ?pg) < 512"
    using pr fl cache_capacity_le [OF geom, of p] by (simp add: page_rep_def)
  then have iu: "unat (sp_inuse ?pg + 1) = Suc (unat (sp_inuse ?pg))"
    by (intro unat_Suc_no_wrap) simp
  have io: "unat (sc_inuse_objects ?c + 1) = Suc (unat (sc_inuse_objects ?c))"
    using inuse_sum_bound [OF rep, of r] by (intro unat_Suc_no_wrap) (simp add: slab_repD(5) [OF rep])
  define pg' where "pg' = ?pg\<lparr>sp_freelist := obj_link s x, sp_inuse := sp_inuse ?pg + 1\<rparr>"
  define c' where "c' = ?c\<lparr>sc_inuse_objects := sc_inuse_objects ?c + 1,
    sc_peak_inuse_objects := (if sc_peak_inuse_objects ?c < sc_inuse_objects ?c + 1
      then sc_inuse_objects ?c + 1 else sc_peak_inuse_objects ?c)\<rparr>"
  have s': "s' = s\<lparr>slab_page_at := (slab_page_at s)(p := pg'), slab_caches := (slab_caches s)(r := c')\<rparr>"
    using take x by (simp add: slab_take_def Let_def pg'_def c'_def)
  have same: "same_pmm s s'" by (simp add: same_pmm_def s')
  have sl: "cache_slots c' = cache_slots ?c" by (simp add: fun_eq_iff cache_slots_def c'_def)
  have pr': "page_rep s' r p rest"
    using pr fl ch iu sl x same_pmm_pages(4) [OF same] by (simp add: page_rep_def s' pg'_def)
  have st: "slab_page_at s' = (slab_page_at s)(p := pg')" "slab_caches s' = (slab_caches s)(r := c')"
    "\<And>y. y \<notin> set (cache_slots ?c p) \<Longrightarrow> obj_link s' y = obj_link s y" by (simp_all add: s')
  have fields: "sp_next pg' = sp_next ?pg" "sc_obj_size c' = sc_obj_size ?c"
    "sc_obj_align c' = sc_obj_align ?c" "sc_pages c' = sc_pages ?c"
    "unat (sc_inuse_objects c') + unat (sp_inuse ?pg) = unat (sc_inuse_objects ?c) + unat (sp_inuse pg')"
    by (simp_all add: pg'_def c'_def iu io)
  note upd = slab_rep_page_update [OF rep p same st(1) fields(1) st(3) st(2) fields(2,3,4) pr' fields(5)]
  have "lives s PS FL r \<inter> set (cache_slots ?c p) = set (cache_slots ?c p) - set (FL p)"
    using p rep_slots [OF rep p, of _ r] by (auto simp: lives_def)
  then have "x \<notin> lives s PS FL r" "lives s' PS (FL(p := rest)) r = insert x (lives s PS FL r)"
    using upd(2) [of r] xs fl x dist by auto
  moreover have "x \<noteq> NULL" using fr x by simp
  ultimately show ?thesis using upd by (intro exI [of _ "FL(p := rest)"]) auto
qed

text \<open>Freeing a live object succeeds and returns it to its page's free list.\<close>

lemma slab_free_rep:
  assumes rep: "slab_rep s PS FL" and x: "x \<in> lives s PS FL r" and irq: "\<not> in_irq s"
  shows "\<exists>s' FL'. slab_free (Some r) x s = Ret s' \<and> slab_rep s' PS FL' \<and>
    lives s' PS FL' r = lives s PS FL r - {x} \<and>
    (\<forall>r'. r' \<noteq> r \<longrightarrow> lives s' PS FL' r' = lives s PS FL r')"
proof -
  let ?c = "slab_caches s r"
  from x obtain p where p: "p \<in> set (PS r)" and xs: "x \<in> set (cache_slots ?c p)" and xf: "x \<notin> set (FL p)"
    by (auto simp: lives_def)
  let ?pg = "slab_page_at s p"
  have base: "page_base p" and geom: "cache_geom ?c" and pr: "page_rep s r p (FL p)"
    using slab_rep_base [OF rep p] .
  have ad: "x AND NOT (SLAB_PAGE_SIZE - 1) = p"
    using slot_page [OF _ base] geom xs
    by (simp add: cache_slots_def cache_geom_def align_down_4k_def SLAB_PAGE_SIZE_def PAGE_SIZE_def)
  have xn: "x \<noteq> NULL"
    using slot_not_NULL(1) [OF _ base] geom xs by (simp add: cache_slots_def cache_geom_def)
  have "card (insert x (set (FL p))) \<le> card (set (cache_slots ?c p))"
    using pr xs by (intro card_mono) (auto simp: page_rep_def)
  then have "Suc (length (FL p)) \<le> length (cache_slots ?c p)"
    using xf pr chain_distinct [of "obj_link s" "sp_freelist ?pg" "FL p"] card_length [of "cache_slots ?c p"]
    by (simp add: page_rep_def distinct_card)
  then have iu: "0 < unat (sp_inuse ?pg)" using pr by (simp add: page_rep_def)
  have "unat (sp_inuse ?pg) \<le> (\<Sum>q\<leftarrow>PS r. unat (sp_inuse (slab_page_at s q)))"
    using p by (simp add: member_le_sum_list)
  then have io: "0 < unat (sc_inuse_objects ?c)"
    using iu by (simp add: slab_repD(5) [OF rep])
  have nz: "sp_inuse ?pg \<noteq> 0" "sc_inuse_objects ?c \<noteq> 0" using iu io by auto
  have ch: "chain (\<lambda>q. sp_next (slab_page_at s q)) (sc_pages ?c) (PS r)"
    by (rule slab_repD(2) [OF rep])
  have has: "slab_has_page (slab_page_at s) (sc_pages ?c) p = Some True"
    using slab_has_page_result [OF ch, of p] p by simp
  define pg' where "pg' = ?pg\<lparr>sp_freelist := x, sp_inuse := sp_inuse ?pg - 1\<rparr>"
  define c' where "c' = ?c\<lparr>sc_free_calls := sc_free_calls ?c + 1, sc_inuse_objects := sc_inuse_objects ?c - 1\<rparr>"
  define s' where "s' = s\<lparr>slab_caches := (slab_caches s)(r := c'),
    obj_poison := (obj_poison s)(x := sc_obj_size ?c), obj_link := (obj_link s)(x := sp_freelist ?pg),
    slab_page_at := (slab_page_at s)(p := pg')\<rparr>"
  have run: "slab_free (Some r) x s = Ret s'"
    using irq xn has nz by (simp add: slab_free_def Let_def ad s'_def c'_def pg'_def)
  have same: "same_pmm s s'" by (simp add: same_pmm_def s'_def)
  have sl: "cache_slots c' = cache_slots ?c" by (simp add: fun_eq_iff cache_slots_def c'_def)
  have pr': "page_rep s' r p (x # FL p)"
    using pr xs xn xf iu sl nz same_pmm_pages(4) [OF same] length_pos_if_in_set [OF xs]
    by (simp add: page_rep_def s'_def pg'_def unat_pred)
  have st: "slab_page_at s' = (slab_page_at s)(p := pg')" "slab_caches s' = (slab_caches s)(r := c')"
    "\<And>y. y \<notin> set (cache_slots ?c p) \<Longrightarrow> obj_link s' y = obj_link s y" using xs by (auto simp: s'_def)
  have fields: "sp_next pg' = sp_next ?pg" "sc_obj_size c' = sc_obj_size ?c"
    "sc_obj_align c' = sc_obj_align ?c" "sc_pages c' = sc_pages ?c"
    "unat (sc_inuse_objects c') + unat (sp_inuse ?pg) = unat (sc_inuse_objects ?c) + unat (sp_inuse pg')"
    using iu io by (simp_all add: pg'_def c'_def unat_pred nz)
  note upd = slab_rep_page_update [OF rep p same st(1) fields(1) st(3) st(2) fields(2,3,4) pr' fields(5)]
  have "lives s PS FL r \<inter> set (cache_slots ?c p) = set (cache_slots ?c p) - set (FL p)"
    using p rep_slots [OF rep p, of _ r] by (auto simp: lives_def)
  then have "lives s' PS (FL(p := x # FL p)) r = lives s PS FL r - {x}"
    using upd(2) [of r] xs by auto
  with run upd show ?thesis by (intro exI [of _ s'] exI [of _ "FL(p := x # FL p)"]) auto
qed

section \<open>Allocation\<close>

text \<open>The fields of a cache the representation depends on.\<close>

definition same_shape :: "slab_cache \<Rightarrow> slab_cache \<Rightarrow> bool" where
  "same_shape c c' \<longleftrightarrow>
     sc_obj_size c' = sc_obj_size c \<and> sc_obj_align c' = sc_obj_align c \<and> sc_pages c' = sc_pages c \<and>
     sc_inuse_objects c' = sc_inuse_objects c"

lemma same_shape_slots:
  "same_shape c c' \<Longrightarrow> cache_slots c' = cache_slots c \<and> cache_geom c' = cache_geom c"
  by (auto simp: same_shape_def cache_slots_def cache_geom_def fun_eq_iff)

text \<open>A step that leaves the headers and the free slots of the caches' pages alone keeps them represented.\<close>

lemma slab_rep_frame:
  assumes rep: "slab_rep s PS FL" and ok: "pmm_ok s'" and ba: "\<And>p. backed s p \<Longrightarrow> backed s' p"
    and sh: "\<And>r. same_shape (slab_caches s r) (slab_caches s' r)"
    and pg: "\<And>r p. p \<in> set (PS r) \<Longrightarrow> slab_page_at s' p = slab_page_at s p"
    and ln: "\<And>r p x. p \<in> set (PS r) \<Longrightarrow> x \<in> set (cache_slots (slab_caches s r) p) \<Longrightarrow>
      obj_link s' x = obj_link s x"
  shows "slab_rep s' PS FL" and "lives s' PS FL = lives s PS FL"
proof -
  have sl: "cache_slots (slab_caches s' r) = cache_slots (slab_caches s r)"
    "cache_geom (slab_caches s' r) = cache_geom (slab_caches s r)"
    "sc_pages (slab_caches s' r) = sc_pages (slab_caches s r)"
    "sc_inuse_objects (slab_caches s' r) = sc_inuse_objects (slab_caches s r)" for r
    using same_shape_slots [OF sh, of r] sh [of r] by (auto simp: same_shape_def)
  have "cache_rep s' r (PS r) FL" for r
    unfolding cache_rep_def
  proof (intro conjI ballI impI)
    show "chain (\<lambda>p. sp_next (slab_page_at s' p)) (sc_pages (slab_caches s' r)) (PS r)"
      using slab_repD(2) [OF rep, of r] pg [of _ r]
        chain_cong [of "PS r" "\<lambda>p. sp_next (slab_page_at s' p)" "\<lambda>p. sp_next (slab_page_at s p)"]
      by (simp add: sl)
    show "unat (sc_inuse_objects (slab_caches s' r)) =
        (\<Sum>p\<leftarrow>PS r. unat (sp_inuse (slab_page_at s' p)))"
      using slab_repD(5) [OF rep, of r] pg [of _ r] by (simp add: sl cong: map_cong)
  next
    fix p assume p: "p \<in> set (PS r)"
    have pr: "page_rep s r p (FL p)" by (rule slab_repD(3) [OF rep p])
    then have "\<And>x. x \<in> set (FL p) \<Longrightarrow> obj_link s' x = obj_link s x"
      using ln [OF p] unfolding page_rep_def by blast
    then show "page_rep s' r p (FL p)"
      using pr ba chain_cong [of "FL p" "obj_link s'" "obj_link s"]
      by (simp add: page_rep_def pg [OF p] sl)
  next
    assume "PS r \<noteq> []"
    then show "cache_geom (slab_caches s' r)"
      using slab_repD(4) [OF rep, of "hd (PS r)" r] by (simp add: sl)
  qed
  then show "slab_rep s' PS FL" using rep ok by (simp add: slab_rep_def)
  show "lives s' PS FL = lives s PS FL" by (simp add: fun_eq_iff lives_def sl)
qed

lemma slab_globals_more_eq:
  "pmm_globals.more s' = pmm_globals.more s \<Longrightarrow>
   slab_caches s' = slab_caches s \<and> slab_page_at s' = slab_page_at s \<and> obj_link s' = obj_link s \<and>
   obj_poison s' = obj_poison s \<and> slab_globals.more s' = slab_globals.more s"
  by (cases s; cases s') simp

lemma phys_to_virt_inj: "pmm_phys_to_virt a = pmm_phys_to_virt b \<longleftrightarrow> a = b"
  by (simp add: pmm_phys_to_virt_def)

lemma pmm_one_backed:
  assumes ok: "pmm_ok s" and al: "pmm_alloc_pages 1 LOCAL s = Ret (Some pa, s1)"
  shows "pmm_ok s1" and "backed s1 (pmm_phys_to_virt pa)" and "\<not> backed s (pmm_phys_to_virt pa)"
    and "backed s p \<Longrightarrow> backed s1 p"
proof -
  have a: "pmm_ok s1" "{pa} \<subseteq> free_pas s" "free_pas s1 = free_pas s - {pa}" "managed_pas s1 = managed_pas s"
    using pmm_ok_alloc_Some [OF ok al] by simp_all
  show "pmm_ok s1" by (rule a(1))
  show "backed s1 (pmm_phys_to_virt pa)"
    using a free_pas_managed [OF ok] by (auto simp: backed_def)
  show "\<not> backed s (pmm_phys_to_virt pa)"
    using a(2) by (auto simp: backed_def phys_to_virt_inj)
  show "backed s p \<Longrightarrow> backed s1 p" using a by (auto simp: backed_def)
qed

text \<open>The free list built on a fresh page: all of its slots, last slot first.\<close>

lemma slab_page_build_freelist_result:
  assumes g: "geom_ok sz al" and b: "page_base p"
  shows "\<exists>links' head'. slab_page_build_freelist p sz al s =
      Ret (s\<lparr>obj_link := links', slab_page_at := (slab_page_at s)(p := (slab_page_at s p)
        \<lparr>sp_freelist := head', sp_obj_count := of_nat (slab_capacity sz al), sp_inuse := 0\<rparr>)\<rparr>) \<and>
    chain links' head' (rev (slots sz al p)) \<and>
    (\<forall>x. x \<notin> set (slots sz al p) \<longrightarrow> links' x = obj_link s x)"
proof -
  let ?n = "slab_capacity sz al" and ?c = "p + of_nat (first_off (unat al))"
  from g obtain k where k: "unat al = 2 ^ k" "k \<le> 12" by (auto simp: geom_ok_def)
  have fo: "first_off (unat al) + unat sz \<le> 4096" "8 \<le> unat sz" using g by (simp_all add: geom_ok_def)
  have uc: "unat ?c = unat p + first_off (unat al)"
    using b fo by (subst unat_add_no_wrap) (simp_all add: unat_of_nat page_base_def)
  have ue: "unat (p + SLAB_PAGE_SIZE) = unat p + 4096"
    using b by (subst unat_add_no_wrap) (simp_all add: page_base_def SLAB_PAGE_SIZE_def)
  let ?room = "4096 - first_off (unat al)"
  have dm: "?n * unat sz + ?room mod unat sz = ?room" by (simp add: slab_capacity_def)
  have ml: "?room mod unat sz < unat sz" using fo by simp
  have h1: "unat ?c + ?n * unat sz \<le> unat (p + SLAB_PAGE_SIZE)"
    and h2: "unat (p + SLAB_PAGE_SIZE) < unat ?c + ?n * unat sz + unat sz"
    unfolding uc ue using dm ml fo by linarith+
  have h3: "unat (p + SLAB_PAGE_SIZE) + unat sz < 2 ^ 64"
    unfolding ue using b fo by (simp add: page_base_def)
  have sl: "upslots ?c sz ?n = slots sz al p" by (simp add: slots_upslots)
  have d: "distinct (slots sz al p)" by (rule slots_distinct [OF g b])
  have nn: "NULL \<notin> set (slots sz al p)" using slot_not_NULL(1) [OF g b] by blast
  from slab_build_loop_result [OF h1 h2 h3, of NULL 0 "obj_link s"] obtain head' links' where
    res: "slab_build_loop ?c (p + SLAB_PAGE_SIZE) sz NULL 0 (obj_link s) = Some (head', 0 + of_nat ?n, links')"
    and fr: "\<forall>x. x \<notin> set (slots sz al p) \<longrightarrow> links' x = obj_link s x"
    and ch: "\<forall>hs. chain (obj_link s) NULL hs \<longrightarrow> distinct (slots sz al p) \<longrightarrow> NULL \<notin> set (slots sz al p) \<longrightarrow>
      set hs \<inter> set (slots sz al p) = {} \<longrightarrow> chain links' head' (rev (slots sz al p) @ hs)"
    unfolding sl by blast
  have ch': "chain links' head' (rev (slots sz al p))" using ch [rule_format, of "[]"] d nn by simp
  have "unat (of_nat ?n :: u16) = ?n"
    using slab_capacity_le [OF g] by (simp add: unat_of_nat)
  then have nz: "(of_nat ?n :: u16) \<noteq> 0" using slab_capacity_pos [OF g] by auto
  have st: "slab_align_up (p + sizeof_slab_page) (ucast al) = ?c"
    by (rule slab_align_up_first [OF b k])
  show ?thesis
    using res nz ch' fr unfolding slab_page_build_freelist_def Let_def st by auto
qed

text \<open>Linking a fresh page with all its slots free into a cache.\<close>

lemma slab_rep_add_page:
  assumes rep: "slab_rep s PS FL" and new: "\<And>r. p \<notin> set (PS r)" and pn: "p \<noteq> NULL"
    and ba: "backed s p" and geom: "cache_geom (slab_caches s r)"
    and ch: "chain (obj_link s) (sp_freelist (slab_page_at s p)) fl"
    and fl: "set fl = set (cache_slots (slab_caches s r) p)" "length fl = length (cache_slots (slab_caches s r) p)"
    and iu: "sp_inuse (slab_page_at s p) = 0"
    and s': "s' = s\<lparr>slab_caches := (slab_caches s)(r := (slab_caches s r)
        \<lparr>sc_slab_pages_allocated := n, sc_pages := p\<rparr>),
      slab_page_at := (slab_page_at s)(p := (slab_page_at s p)\<lparr>sp_next := sc_pages (slab_caches s r)\<rparr>)\<rparr>"
  shows "slab_rep s' (PS(r := p # PS r)) (FL(p := fl))"
    and "lives s' (PS(r := p # PS r)) (FL(p := fl)) = lives s PS FL"
proof -
  have same: "same_pmm s s'" by (simp add: same_pmm_def s')
  have sl: "cache_slots (slab_caches s' x) = cache_slots (slab_caches s x)"
    "cache_geom (slab_caches s' x) = cache_geom (slab_caches s x)"
    "sc_inuse_objects (slab_caches s' x) = sc_inuse_objects (slab_caches s x)" for x
    by (auto simp: s' cache_slots_def cache_geom_def fun_eq_iff)
  have pg: "slab_page_at s' q = slab_page_at s q" if "q \<in> set (PS x)" for q x
    using new [of x] that by (auto simp: s')
  have ln: "obj_link s' = obj_link s" by (simp add: s')
  have old: "page_rep s' x q (FL q)" if "q \<in> set (PS x)" for x q
    using slab_repD(3) [OF rep that] by (simp add: page_rep_def pg [OF that] ln sl same_pmm_pages [OF same])
  have chq: "chain (\<lambda>q. sp_next (slab_page_at s' q)) (sc_pages (slab_caches s x)) (PS x)" for x
    using slab_repD(2) [OF rep, of x] pg [of _ x]
      chain_cong [of "PS x" "\<lambda>p. sp_next (slab_page_at s' p)" "\<lambda>p. sp_next (slab_page_at s p)"] by simp
  have sum: "(\<Sum>q\<leftarrow>PS x. unat (sp_inuse (slab_page_at s' q))) =
      unat (sc_inuse_objects (slab_caches s x))" for x
    using slab_repD(5) [OF rep, of x] pg [of _ x] by (simp cong: map_cong)
  have np: "page_rep s' r p fl"
    using ba ch fl iu by (simp add: page_rep_def same_pmm_pages [OF same] ln sl) (simp add: s')
  have "cache_rep s' x ((PS(r := p # PS r)) x) (FL(p := fl))" for x
  proof (cases "x = r")
    case True
    have "page_rep s' r q ((FL(p := fl)) q)" if "q \<in> set (p # PS r)" for q
      using that np old [of q r] new [of r] by auto
    moreover have "chain (\<lambda>q. sp_next (slab_page_at s' q)) (sc_pages (slab_caches s' r)) (p # PS r)"
      using chq [of r] pn by (simp add: s')
    moreover have "sp_inuse (slab_page_at s' p) = 0" using iu by (simp add: s')
    ultimately show ?thesis using True sum [of r] geom by (simp add: cache_rep_def sl)
  next
    case False
    then have "sc_pages (slab_caches s' x) = sc_pages (slab_caches s x)" by (simp add: s')
    moreover have "page_rep s' x q ((FL(p := fl)) q)" if "q \<in> set (PS x)" for q
      using that old [of q x] new [of x] by auto
    moreover have "PS x \<noteq> [] \<longrightarrow> cache_geom (slab_caches s x)"
      using slab_repD(4) [OF rep, of "hd (PS x)" x] by auto
    ultimately show ?thesis using False sum [of x] chq [of x] by (simp add: cache_rep_def sl)
  qed
  moreover have "x \<noteq> y \<Longrightarrow> set ((PS(r := p # PS r)) x) \<inter> set ((PS(r := p # PS r)) y) = {}" for x y
    using slab_repD(6) [OF rep, of x y] new [of x] new [of y] by auto
  moreover have "pmm_ok s'" using slab_repD(1) [OF rep] by (simp add: same_pmm_pages [OF same])
  ultimately show "slab_rep s' (PS(r := p # PS r)) (FL(p := fl))" by (simp add: slab_rep_def)
  show "lives s' (PS(r := p # PS r)) (FL(p := fl)) = lives s PS FL"
  proof
    fix x
    have "q \<in> set (PS x) \<Longrightarrow> (FL(p := fl)) q = FL q" for q using new [of x] by auto
    then show "lives s' (PS(r := p # PS r)) (FL(p := fl)) x = lives s PS FL x"
      using fl by (auto simp: lives_def sl)
  qed
qed

text \<open>Layers above the slab allocator see only these effects of a step.\<close>

definition slab_frame :: "'a slab_globals_scheme \<Rightarrow> 'a slab_globals_scheme \<Rightarrow> bool" where
  "slab_frame s s' \<longleftrightarrow>
     slab_globals.more s' = slab_globals.more s \<and> s_irq_depth s' = s_irq_depth s \<and> daif s' = daif s \<and>
     (\<forall>r. sc_obj_size (slab_caches s' r) = sc_obj_size (slab_caches s r) \<and>
          sc_obj_align (slab_caches s' r) = sc_obj_align (slab_caches s r))"

lemma slab_frameD:
  assumes "slab_frame s s'"
  shows "slab_globals.more s' = slab_globals.more s" and "in_irq s' = in_irq s" and "daif s' = daif s"
    and "cache_geom (slab_caches s' r) = cache_geom (slab_caches s r)"
  using assms by (auto simp: slab_frame_def in_irq_def cache_geom_def)

lemma slab_frame_trans: "slab_frame s t \<Longrightarrow> slab_frame t u \<Longrightarrow> slab_frame s u"
  by (simp add: slab_frame_def)

lemma slab_page_alloc_rep:
  assumes rep: "slab_rep s PS FL" and irq: "\<not> in_irq s" and geom: "cache_geom (slab_caches s r)"
  defines "c \<equiv> slab_caches s r"
  shows "\<exists>p s1. slab_page_alloc (sc_obj_size c) (sc_obj_align c) s = Ret (p, s1) \<and>
    slab_caches s1 = slab_caches s \<and> slab_frame s s1 \<and> slab_rep s1 PS FL \<and> lives s1 PS FL = lives s PS FL \<and>
    (p = NULL \<longrightarrow> free_pas s = {} \<and> free_pas s1 = free_pas s) \<and>
    (p \<noteq> NULL \<longrightarrow> (\<exists>pa\<in>free_pas s. p = pmm_phys_to_virt pa \<and> free_pas s1 = free_pas s - {pa})) \<and>
    (p \<noteq> NULL \<longrightarrow> (\<forall>r'. p \<notin> set (PS r')) \<and> backed s1 p \<and> sp_inuse (slab_page_at s1 p) = 0 \<and>
       chain (obj_link s1) (sp_freelist (slab_page_at s1 p)) (rev (cache_slots c p)))"
proof -
  have ok: "pmm_ok s" using slab_repD(1) [OF rep] .
  obtain q t where al: "pmm_alloc_pages 1 LOCAL s = Ret (q, t)" using pmm_alloc_pages_returns [OF irq] by blast
  have fr: "slab_caches t = slab_caches s" "slab_page_at t = slab_page_at s" "obj_link t = obj_link s"
    "slab_globals.more t = slab_globals.more s" "s_irq_depth t = s_irq_depth s" "daif t = daif s"
    using slab_globals_more_eq [OF pmm_alloc_pages_frame(1) [OF al]] pmm_alloc_pages_frame [OF al] by auto
  have sh: "\<And>r. same_shape (slab_caches s r) (slab_caches s r)" by (simp add: same_shape_def)
  show ?thesis
  proof (cases q)
    case None
    have n: "pmm_ok t" "free_pas t = free_pas s" "managed_pas t = managed_pas s"
      using pmm_ok_alloc_None [OF ok al [unfolded None]] by auto
    have "free_pas s = {}" using pmm_alloc_one [OF ok irq] al None by auto
    moreover have "slab_rep t PS FL" "lives t PS FL = lives s PS FL"
      using slab_rep_frame [OF rep n(1)] fr n sh by (simp_all add: backed_def)
    ultimately show ?thesis
      using al None fr n by (simp add: slab_page_alloc_def slab_frame_def)
  next
    case (Some pa)
    let ?p = "pmm_phys_to_virt pa"
    have b: "pmm_ok t" "backed t ?p" "\<not> backed s ?p" "\<And>p. backed s p \<Longrightarrow> backed t p"
      using pmm_one_backed [OF ok al [unfolded Some]] by auto
    have pb: "page_base ?p" by (rule backed_page_base [OF b(1,2)])
    have new: "?p \<notin> set (PS r')" for r'
      using b(3) slab_repD(3) [OF rep, of ?p r'] by (auto simp: page_rep_def)
    let ?t = "t\<lparr>slab_page_at := (slab_page_at t)(?p :=
      \<lparr>sp_next = NULL, sp_freelist = NULL, sp_obj_count = 0, sp_inuse = 0\<rparr>)\<rparr>"
    from slab_page_build_freelist_result [OF geom [unfolded cache_geom_def] pb, of ?t]
    obtain links' head' where run: "slab_page_build_freelist ?p (sc_obj_size c) (sc_obj_align c) ?t =
        Ret (?t\<lparr>obj_link := links', slab_page_at := (slab_page_at ?t)(?p := (slab_page_at ?t ?p)
        \<lparr>sp_freelist := head', sp_obj_count := of_nat (slab_capacity (sc_obj_size c) (sc_obj_align c)),
          sp_inuse := 0\<rparr>)\<rparr>)"
      and ch: "chain links' head' (rev (cache_slots c ?p))"
      and lk: "\<And>x. x \<notin> set (cache_slots c ?p) \<Longrightarrow> links' x = obj_link t x"
      unfolding c_def cache_slots_def by auto
    define s1 where "s1 = t\<lparr>obj_link := links', slab_page_at := (slab_page_at t)(?p :=
        \<lparr>sp_next = NULL, sp_freelist = head',
          sp_obj_count = of_nat (slab_capacity (sc_obj_size c) (sc_obj_align c)), sp_inuse = 0\<rparr>)\<rparr>"
    have run': "slab_page_alloc (sc_obj_size c) (sc_obj_align c) s = Ret (?p, s1)"
      using al Some run by (simp add: slab_page_alloc_def s1_def Let_def)
    have same: "same_pmm t s1" by (simp add: same_pmm_def s1_def)
    have links: "obj_link s1 x = obj_link s x"
      if "p \<in> set (PS r')" "x \<in> set (cache_slots (slab_caches s r') p)" for r' p x
    proof -
      have "align_down_4k x = p"
        using slot_page [of _ _ p x] slab_rep_base [OF rep that(1)] that(2)
        by (simp add: cache_slots_def cache_geom_def)
      moreover have "p \<noteq> ?p" using new that(1) by blast
      ultimately have "x \<notin> set (cache_slots c ?p)"
        using slot_page [OF geom [unfolded cache_geom_def] pb] by (auto simp: c_def cache_slots_def)
      then show ?thesis using lk fr by (simp add: s1_def)
    qed
    have ok1: "pmm_ok s1" and b1: "\<And>p. backed s p \<Longrightarrow> backed s1 p" and b2: "backed s1 ?p"
      using b by (simp_all add: same_pmm_pages [OF same])
    have c1: "slab_caches s1 = slab_caches s" and p1: "\<And>p r'. p \<in> set (PS r') \<Longrightarrow> slab_page_at s1 p = slab_page_at s p"
      using fr new by (auto simp: s1_def)
    have sh1: "\<And>r. same_shape (slab_caches s r) (slab_caches s1 r)" using sh c1 by simp
    note frame = slab_rep_frame [OF rep ok1 b1 sh1 p1 links]
    have "slab_frame s s1" using fr by (simp add: slab_frame_def s1_def)
    moreover have "sp_inuse (slab_page_at s1 ?p) = 0"
      "chain (obj_link s1) (sp_freelist (slab_page_at s1 ?p)) (rev (cache_slots c ?p))"
      using ch by (simp_all add: s1_def)
    moreover have "?p \<noteq> NULL" using pb by (simp add: page_base_def)
    moreover have "free_pas s1 = free_pas s - {pa}" "pa \<in> free_pas s"
      using pmm_ok_alloc_Some(2,3) [OF ok al [unfolded Some]] by (simp_all add: same_pmm_pages [OF same])
    ultimately show ?thesis using run' frame c1 new b2 by (intro exI [of _ ?p] exI [of _ s1]) auto
  qed
qed

lemma slab_take_frame: "slab_take r p s = (x, s') \<Longrightarrow> slab_frame s s'"
  by (auto simp: slab_take_def Let_def slab_frame_def)

text \<open>What a call that returns an object or NULL does to the live objects of the caches.\<close>

definition took_page :: "'a slab_globals_scheme \<Rightarrow> 'a slab_globals_scheme \<Rightarrow> ptr \<Rightarrow> bool" where
  "took_page s s' p \<longleftrightarrow> free_pas s' = free_pas s \<or> (\<exists>pa\<in>free_pas s. p = pmm_phys_to_virt pa \<and> free_pas s' = free_pas s - {pa})"

definition slab_alloc_post ::
    "slab_ref \<Rightarrow> 'a slab_globals_scheme \<Rightarrow> (slab_ref \<Rightarrow> ptr set) \<Rightarrow> ptr \<times> 'a slab_globals_scheme \<Rightarrow> bool" where
  "slab_alloc_post r s L = (\<lambda>(x, s'). slab_frame s s' \<and>
     took_page s s' (align_down_4k x) \<and> (\<exists>PS' FL'. slab_rep s' PS' FL' \<and>
     (if x = NULL then free_pas s = {} \<and> lives s' PS' FL' = L
      else x \<notin> L r \<and> lives s' PS' FL' = L(r := insert x (L r)))))"

lemma slab_take_page:
  assumes rep: "slab_rep s PS FL" and p: "p \<in> set (PS r)" and fl: "sp_freelist (slab_page_at s p) \<noteq> NULL" and t: "slab_take r p s = (x, s')"
  shows "align_down_4k x = p"
proof -
  have "page_rep s r p (FL p)" using slab_repD(3) [OF rep p] .
  then have "chain (obj_link s) (sp_freelist (slab_page_at s p)) (FL p)" "set (FL p) \<subseteq> set (cache_slots (slab_caches s r) p)"
    by (auto simp: page_rep_def)
  then have "sp_freelist (slab_page_at s p) \<in> set (cache_slots (slab_caches s r) p)" using fl by (cases "FL p") auto
  moreover have "x = sp_freelist (slab_page_at s p)" using t by (simp add: slab_take_def Let_def)
  ultimately show ?thesis using slab_rep_base [OF rep p] by (intro slot_page) (auto simp: cache_slots_def cache_geom_def)
qed

lemma slab_take_post:
  assumes "slab_rep s1 PS FL" "p \<in> set (PS r)" "sp_freelist (slab_page_at s1 p) \<noteq> NULL" "slab_frame s s1"
    and "took_page s s1 p"
  shows "slab_alloc_post r s (lives s1 PS FL) (slab_take r p s1)"
proof -
  obtain x s' where t: "slab_take r p s1 = (x, s')" by fastforce
  from slab_take_rep [OF assms(1-3) t] obtain FL' where "slab_rep s' PS FL'" "x \<noteq> NULL"
    "x \<notin> lives s1 PS FL r" "lives s' PS FL' = (lives s1 PS FL)(r := insert x (lives s1 PS FL r))"
    by (auto simp: fun_eq_iff)
  moreover have "slab_frame s s'" using assms(4) slab_take_frame [OF t] by (rule slab_frame_trans)
  moreover have "same_pmm s1 s'" using t by (auto simp: slab_take_def Let_def same_pmm_def)
  moreover have "align_down_4k x = p" using slab_take_page [OF assms(1-3) t] .
  ultimately show ?thesis using t assms(5) by (auto simp: slab_alloc_post_def took_page_def same_pmm_pages)
qed

lemma slab_grow_post:
  assumes rep: "slab_rep s PS FL" and irq: "\<not> in_irq s" and geom: "cache_geom (slab_caches s r)"
  shows "\<exists>q. slab_grow r s = Ret q \<and> slab_alloc_post r s (lives s PS FL) q"
proof -
  from slab_page_alloc_rep [OF assms] obtain sp s1 where
    pa: "slab_page_alloc (sc_obj_size (slab_caches s r)) (sc_obj_align (slab_caches s r)) s = Ret (sp, s1)"
    and c1: "slab_caches s1 = slab_caches s" and fr: "slab_frame s s1" and rep1: "slab_rep s1 PS FL"
    and lv1: "lives s1 PS FL = lives s PS FL" and none: "sp = NULL \<longrightarrow> free_pas s = {} \<and> free_pas s1 = free_pas s"
    and fp: "sp \<noteq> NULL \<longrightarrow> (\<exists>pa\<in>free_pas s. sp = pmm_phys_to_virt pa \<and> free_pas s1 = free_pas s - {pa})"
    and some: "sp \<noteq> NULL \<longrightarrow> (\<forall>r'. sp \<notin> set (PS r')) \<and> backed s1 sp \<and> sp_inuse (slab_page_at s1 sp) = 0 \<and>
       chain (obj_link s1) (sp_freelist (slab_page_at s1 sp)) (rev (cache_slots (slab_caches s r) sp))"
    by blast
  show ?thesis
  proof (cases "sp = NULL")
    case True
    define s2 where "s2 = s1\<lparr>slab_caches := (slab_caches s1)(r :=
      (slab_caches s1 r)\<lparr>sc_alloc_failures := sc_alloc_failures (slab_caches s1 r) + 1\<rparr>)\<rparr>"
    have same: "same_pmm s1 s2" by (simp add: same_pmm_def s2_def)
    have "slab_rep s2 PS FL" and "lives s2 PS FL = lives s1 PS FL"
      using slab_rep_frame [OF rep1, of s2] slab_repD(1) [OF rep1]
      by (simp_all add: same_pmm_pages [OF same]) (simp_all add: s2_def same_shape_def)
    moreover have "slab_frame s s2" using fr by (simp add: slab_frame_def s2_def)
    moreover have "slab_grow r s = Ret (NULL, s2)"
      using pa True by (simp add: slab_grow_def Let_def s2_def)
    ultimately show ?thesis using True none lv1
      by (auto simp: slab_alloc_post_def took_page_def same_pmm_pages [OF same])
  next
    case False
    define s2 where "s2 = s1\<lparr>slab_caches := (slab_caches s1)(r := (slab_caches s1 r)
        \<lparr>sc_slab_pages_allocated := sc_slab_pages_allocated (slab_caches s1 r) + 1, sc_pages := sp\<rparr>),
      slab_page_at := (slab_page_at s1)(sp := (slab_page_at s1 sp)\<lparr>sp_next := sc_pages (slab_caches s1 r)\<rparr>)\<rparr>"
    let ?fl = "rev (cache_slots (slab_caches s1 r) sp)"
    have new: "\<And>r'. sp \<notin> set (PS r')" and ba: "backed s1 sp" and iu: "sp_inuse (slab_page_at s1 sp) = 0"
      and ch: "chain (obj_link s1) (sp_freelist (slab_page_at s1 sp)) ?fl"
      using some False c1 by auto
    have g1: "cache_geom (slab_caches s1 r)" using geom c1 by simp
    have set: "set ?fl = set (cache_slots (slab_caches s1 r) sp)"
      and len: "length ?fl = length (cache_slots (slab_caches s1 r) sp)" by simp_all
    note add = slab_rep_add_page [OF rep1 new False ba g1 ch set len iu s2_def]
    have "?fl \<noteq> []"
      using slab_capacity_pos g1 unfolding cache_geom_def cache_slots_def
      by (metis length_greater_0_conv length_rev length_slots)
    then have "sp_freelist (slab_page_at s1 sp) \<noteq> NULL" using ch by (cases ?fl) auto
    then have fl2: "sp_freelist (slab_page_at s2 sp) \<noteq> NULL" by (simp add: s2_def)
    have fr2: "slab_frame s s2" using fr by (simp add: slab_frame_def s2_def)
    have "slab_grow r s = Ret (slab_take r sp s2)"
      using pa False by (simp add: s2_def slab_grow_def Let_def)
    moreover have "same_pmm s1 s2" by (simp add: same_pmm_def s2_def)
    then have "took_page s s2 sp" using fp False by (simp add: took_page_def same_pmm_pages)
    ultimately show ?thesis
      using slab_take_post [OF add(1) _ fl2 fr2] add(2) lv1 by auto
  qed
qed

lemma slab_alloc_rep:
  assumes rep: "slab_rep s PS FL" and irq: "\<not> in_irq s" and geom: "cache_geom (slab_caches s r)"
  shows "\<exists>q. slab_alloc (Some r) s = Ret q \<and> slab_alloc_post r s (lives s PS FL) q"
proof -
  let ?c = "slab_caches s r"
  define s0 where "s0 = s\<lparr>slab_caches := (slab_caches s)(r := ?c\<lparr>sc_alloc_calls := sc_alloc_calls ?c + 1\<rparr>)\<rparr>"
  have same: "same_pmm s s0" and fr0: "slab_frame s s0" by (simp_all add: same_pmm_def slab_frame_def s0_def)
  have irq0: "\<not> in_irq s0" and geom0: "cache_geom (slab_caches s0 r)"
    using irq geom slab_frameD [OF fr0] by simp_all
  have rep0: "slab_rep s0 PS FL" and lv0: "lives s0 PS FL = lives s PS FL"
    using slab_rep_frame [OF rep, of s0] slab_repD(1) [OF rep]
    by (simp_all add: same_pmm_pages [OF same]) (simp_all add: s0_def same_shape_def)
  have post: "slab_alloc_post r s L q" if "slab_alloc_post r s0 L q" for L q
    using that slab_frame_trans [OF fr0]
    unfolding slab_alloc_post_def took_page_def same_pmm_pages(3) [OF same] by (cases q) blast
  obtain p where find: "slab_find_free (slab_page_at s0) (sc_pages (slab_caches s0 r)) = Some p"
    and pres: "if p = NULL then \<forall>q\<in>set (PS r). sp_freelist (slab_page_at s0 q) = NULL
      else p \<in> set (PS r) \<and> sp_freelist (slab_page_at s0 p) \<noteq> NULL"
    using slab_find_free_result [OF slab_repD(2) [OF rep0, of r]] by blast
  have run: "slab_alloc (Some r) s = (if p \<noteq> NULL then Ret (slab_take r p s0) else slab_grow r s0)"
    using irq find by (simp add: slab_alloc_def s0_def Let_def)
  show ?thesis
  proof (cases "p = NULL")
    case True
    then show ?thesis using slab_grow_post [OF rep0 irq0 geom0] post run lv0 by auto
  next
    case False
    then show ?thesis
      using slab_take_post [OF rep0 _ _ fr0, of p r] pres run lv0 by (auto simp: took_page_def same_pmm_pages [OF same])
  qed
qed

section \<open>The object cache interface\<close>

text \<open>
  A cache that its clients may use: well-formed allocator state, thread context, and an object
  geometry that \<open>slab_cache_init\<close> accepted.
\<close>

definition slab_ready :: "slab_ref \<Rightarrow> 'a slab_globals_scheme \<Rightarrow> bool" where
  "slab_ready r s \<longleftrightarrow> slab_inv s \<and> \<not> in_irq s \<and> cache_geom (slab_caches s r)"

lemma slab_readyI: "slab_inv s' \<Longrightarrow> slab_frame s s' \<Longrightarrow> slab_ready r s \<Longrightarrow> slab_ready r s'"
  by (simp add: slab_ready_def slab_frameD)

lemma slab_alloc_ready:
  assumes "slab_ready r s"
  shows "\<exists>x s'. slab_alloc (Some r) s = Ret (x, s') \<and> slab_inv s' \<and> slab_frame s s' \<and>
    (\<exists>pa. free_pas s - {pa} \<subseteq> free_pas s') \<and>
    (if x = NULL then free_pas s = {} \<and> (\<forall>q. live_objs q s' = live_objs q s)
     else x \<notin> live_objs r s \<and>
       (\<forall>q. live_objs q s' = (if q = r then insert x (live_objs r s) else live_objs q s)))"
proof -
  from assms obtain PS FL where rep: "slab_rep s PS FL" and h: "\<not> in_irq s" "cache_geom (slab_caches s r)"
    by (auto simp: slab_ready_def slab_inv_def)
  from slab_alloc_rep [OF rep h] obtain x s' PS' FL' where
    run: "slab_alloc (Some r) s = Ret (x, s')" and fr: "slab_frame s s'"
    and tp: "took_page s s' (align_down_4k x)" and rep': "slab_rep s' PS' FL'"
    and post: "if x = NULL then free_pas s = {} \<and> lives s' PS' FL' = lives s PS FL
      else x \<notin> lives s PS FL r \<and> lives s' PS' FL' = (lives s PS FL)(r := insert x (lives s PS FL r))"
    unfolding slab_alloc_post_def by blast
  have "slab_inv s'" using rep' by (auto simp: slab_inv_def)
  moreover have fp: "\<exists>pa. free_pas s - {pa} \<subseteq> free_pas s'" using tp by (auto simp: took_page_def)
  ultimately show ?thesis using run fr post
    by (auto simp: live_objs_lives [OF rep] live_objs_lives [OF rep'] split: if_splits)
qed

text \<open>The page frames an allocation takes: none, or the frame of the page that holds the object.\<close>

lemma slab_alloc_pages:
  assumes "slab_ready r s" and "slab_alloc (Some r) s = Ret (x, s')"
  shows "took_page s s' (align_down_4k x)"
proof -
  from assms(1) obtain PS FL where "slab_rep s PS FL" "\<not> in_irq s" "cache_geom (slab_caches s r)"
    by (auto simp: slab_ready_def slab_inv_def)
  from slab_alloc_rep [OF this] assms(2) show ?thesis by (auto simp: slab_alloc_post_def)
qed

lemma slab_free_same_pmm: "slab_free c p s = Ret s' \<Longrightarrow> same_pmm s s'"
  by (auto simp: slab_free_def Let_def obind_Ret_iff same_pmm_def split: option.splits if_splits)

lemma slab_free_frame: "slab_free c p s = Ret s' \<Longrightarrow> slab_frame s s'"
  by (auto simp: slab_free_def Let_def obind_Ret_iff slab_frame_def split: option.splits if_splits)

lemma slab_free_ready:
  assumes "slab_inv s" and "\<not> in_irq s" and "x \<in> live_objs r s"
  shows "\<exists>s'. slab_free (Some r) x s = Ret s' \<and> slab_inv s' \<and> slab_frame s s' \<and>
    (\<forall>q. live_objs q s' = (if q = r then live_objs r s - {x} else live_objs q s))"
proof -
  from assms(1) obtain PS FL where rep: "slab_rep s PS FL" by (auto simp: slab_inv_def)
  have "x \<in> lives s PS FL r" using assms(3) by (simp add: live_objs_lives [OF rep])
  from slab_free_rep [OF rep this assms(2)] obtain s' FL' where run: "slab_free (Some r) x s = Ret s'"
    and rep': "slab_rep s' PS FL'" and post: "lives s' PS FL' r = lives s PS FL r - {x}"
      "\<forall>r'. r' \<noteq> r \<longrightarrow> lives s' PS FL' r' = lives s PS FL r'"
    by blast
  have "slab_inv s'" using rep' by (auto simp: slab_inv_def)
  with run post slab_free_frame [OF run] show ?thesis
    by (auto simp: live_objs_lives [OF rep] live_objs_lives [OF rep'])
qed

lemma live_objs_not_NULL: "NULL \<notin> live_objs r s"
proof
  assume "NULL \<in> live_objs r s"
  then obtain PS FL p where rep: "slab_rep s PS FL" and p: "p \<in> set (PS r)"
    and x: "NULL \<in> set (cache_slots (slab_caches s r) p)"
    by (auto simp: live_objs_def lives_def)
  show False
    using slot_not_NULL(1) [of _ _ p NULL] slab_rep_base [OF rep p] x
    by (auto simp: cache_slots_def cache_geom_def)
qed

text \<open>States that agree on the allocators' globals have the same objects: used by the layers above.\<close>

lemma slab_same_view:
  assumes "same_pmm s s'" and "slab_caches s' = slab_caches s" and "slab_page_at s' = slab_page_at s"
    and "obj_link s' = obj_link s"
  shows "slab_inv s' = slab_inv s" and "live_objs r s' = live_objs r s"
    and "s_irq_depth s' = s_irq_depth s \<Longrightarrow> slab_ready r s' = slab_ready r s" and "slab_rep s' = slab_rep s"
proof -
  have "page_rep s' = page_rep s"
    by (intro ext) (simp add: page_rep_def assms same_pmm_pages [OF assms(1)])
  then have "cache_rep s' = cache_rep s" by (intro ext) (simp add: cache_rep_def assms)
  then show rep: "slab_rep s' = slab_rep s"
    by (intro ext) (simp add: slab_rep_def same_pmm_pages [OF assms(1)])
  moreover have "lives s' = lives s" by (intro ext) (simp add: lives_def assms)
  ultimately show "slab_inv s' = slab_inv s" and "live_objs r s' = live_objs r s"
    by (simp_all add: slab_inv_def live_objs_def)
  then show "s_irq_depth s' = s_irq_depth s \<Longrightarrow> slab_ready r s' = slab_ready r s"
    using assms by (simp add: slab_ready_def in_irq_def)
qed

lemma slab_more:
  fixes s s' :: "'a slab_globals_scheme"
  assumes "pmm_globals.more s' = pmm_globals.more s"
  shows "slab_caches s' = slab_caches s" "slab_page_at s' = slab_page_at s" "obj_link s' = obj_link s"
    "slab_globals.more s' = slab_globals.more s"
  using assms by (cases s; cases s'; simp)+

text \<open>Pages that change hands elsewhere do not touch the slab caches, as long as no slab page is freed.\<close>

lemma slab_rep_pmm:
  assumes rep: "slab_rep s PS FL" and m: "pmm_globals.more s' = pmm_globals.more s" and ok: "pmm_ok s'"
    and b: "\<And>r p. p \<in> set (PS r) \<Longrightarrow> backed s' p"
  shows "slab_rep s' PS FL" and "live_objs r s' = live_objs r s"
proof -
  note f = slab_more [OF m]
  have "cache_rep s' q (PS q) FL" for q
    using rep b [of _ q] by (auto simp: slab_rep_def cache_rep_def page_rep_def f)
  then show rep': "slab_rep s' PS FL" using rep ok by (simp add: slab_rep_def)
  have "lives s' PS FL = lives s PS FL" by (intro ext) (simp add: lives_def f)
  then show "live_objs r s' = live_objs r s" by (simp add: live_objs_lives [OF rep] live_objs_lives [OF rep'])
qed

locale object_cache =
  fixes inv :: "'s \<Rightarrow> bool"
    and live :: "'s \<Rightarrow> ptr set"
    and alloc :: "'s \<Rightarrow> (ptr \<times> 's) outcome"
    and release :: "ptr \<Rightarrow> 's \<Rightarrow> 's outcome"
  assumes alloc_spec: "inv s \<Longrightarrow> \<exists>x s'. alloc s = Ret (x, s') \<and> inv s' \<and>
      (if x = NULL then live s' = live s else x \<notin> live s \<and> live s' = insert x (live s))"
    and release_spec: "inv s \<Longrightarrow> x \<in> live s \<Longrightarrow>
      \<exists>s'. release x s = Ret s' \<and> inv s' \<and> live s' = live s - {x}"
begin

lemma alloc_Ret:
  assumes "inv s" and "alloc s = Ret (x, s')"
  shows "inv s'" and "x = NULL \<Longrightarrow> live s' = live s" and "x \<noteq> NULL \<Longrightarrow> x \<notin> live s"
    and "x \<noteq> NULL \<Longrightarrow> live s' = insert x (live s)"
  using alloc_spec [OF assms(1)] assms(2) by auto

lemma alloc_then_release:
  assumes "inv s" and "alloc s = Ret (x, s')" and "x \<noteq> NULL"
  shows "\<exists>s''. release x s' = Ret s'' \<and> inv s'' \<and> live s'' = live s"
  using release_spec [of s' x] alloc_Ret [OF assms(1,2)] assms(3) by auto

text \<open>Clients of a cache: any run of allocations and releases of held objects.\<close>

inductive client :: "'s \<Rightarrow> 's \<Rightarrow> ptr set \<Rightarrow> bool" for s0 where
  client_start: "client s0 s0 {}"
| client_alloc: "client s0 s held \<Longrightarrow> alloc s = Ret (x, s') \<Longrightarrow> x \<noteq> NULL \<Longrightarrow> client s0 s' (insert x held)"
| client_fail: "client s0 s held \<Longrightarrow> alloc s = Ret (NULL, s') \<Longrightarrow> client s0 s' held"
| client_release: "client s0 s held \<Longrightarrow> x \<in> held \<Longrightarrow> release x s = Ret s' \<Longrightarrow> client s0 s' (held - {x})"

lemma client_live:
  assumes "client s0 s held" and "inv s0"
  shows "inv s \<and> held \<inter> live s0 = {} \<and> live s = live s0 \<union> held"
  using assms
proof (induction rule: client.induct)
  case client_start
  then show ?case by simp
next
  case (client_alloc s held x s')
  then show ?case using alloc_Ret [of s x s'] by auto
next
  case (client_fail s held s')
  then show ?case using alloc_Ret [of s NULL s'] by auto
next
  case (client_release s held x s')
  then have i: "inv s" and x: "x \<in> live s" by auto
  from release_spec [OF i x] client_release show ?case by auto
qed

end

interpretation sl: object_cache "slab_ready r" "live_objs r" "slab_alloc (Some r)" "slab_free (Some r)"
  for r
proof
  fix s :: "'a slab_globals_scheme"
  assume rdy: "slab_ready r s"
  from slab_alloc_ready [OF rdy] obtain x s' where "slab_alloc (Some r) s = Ret (x, s')" "slab_inv s'"
    "slab_frame s s'" "if x = NULL then live_objs r s' = live_objs r s
      else x \<notin> live_objs r s \<and> live_objs r s' = insert x (live_objs r s)"
    by (auto split: if_splits)
  with slab_readyI [OF _ _ rdy] show "\<exists>x s'. slab_alloc (Some r) s = Ret (x, s') \<and> slab_ready r s' \<and>
      (if x = NULL then live_objs r s' = live_objs r s
       else x \<notin> live_objs r s \<and> live_objs r s' = insert x (live_objs r s))"
    by blast
next
  fix s :: "'a slab_globals_scheme" and x
  assume rdy: "slab_ready r s" and x: "x \<in> live_objs r s"
  from slab_free_ready [OF _ _ x] rdy slab_readyI [OF _ _ rdy]
  show "\<exists>s'. slab_free (Some r) x s = Ret s' \<and> slab_ready r s' \<and> live_objs r s' = live_objs r s - {x}"
    by (auto simp: slab_ready_def)
qed

section \<open>Initialisation\<close>

lemma slab_cache_init_Ret:
  assumes "slab_cache_init (Some r) name objsz align s = Ret s'"
  shows "\<exists>c. s' = s\<lparr>slab_caches := (slab_caches s)(r := c)\<rparr> \<and> sc_pages c = NULL \<and> sc_inuse_objects c = 0"
  using assms by (auto simp: slab_cache_init_def Let_def split: if_splits)

lemma nat_pow2_of_and_pred:
  fixes n :: nat
  assumes "n AND (n - 1) = 0" and "0 < n"
  shows "\<exists>k. n = 2 ^ k"
  using assms
proof (induction n rule: less_induct)
  case (less n)
  have rec: "n AND (n - 1) = of_bool (odd n \<and> odd (n - 1)) + 2 * ((n div 2) AND ((n - 1) div 2))"
    by (rule and_rec)
  show ?case
  proof (cases "even n")
    case True
    then obtain m where m: "n = 2 * m" by auto
    then have "(n - 1) div 2 = m - 1" using less.prems(2) by simp
    then have "m AND (m - 1) = 0" using rec less.prems(1) m by simp
    then obtain k where "m = 2 ^ k" using less.IH [of m] m less.prems(2) by auto
    then show ?thesis using m by (intro exI [of _ "Suc k"]) simp
  next
    case False
    then obtain m where m: "n = 2 * m + 1" by (auto elim: oddE)
    then have "m AND m = 0" using rec less.prems(1) by simp
    then show ?thesis using m by (intro exI [of _ 0]) simp
  qed
qed

lemma word_pow2_of_and_pred:
  fixes a :: u32
  assumes "a AND (a - 1) = 0" and "a \<noteq> 0"
  shows "\<exists>k. unat a = 2 ^ k"
proof -
  have "unat (a AND (a - 1)) = unat a AND (unat a - 1)"
    by (simp add: unsigned_and_eq unat_pred assms(2))
  then show ?thesis using assms nat_pow2_of_and_pred [of "unat a"] by (simp add: unat_gt_0)
qed

text \<open>
  Whatever sizes and alignments \<open>slab_cache_init\<close> accepts, at least one object fits in a page, objects
  hold the intrusive link, and every slot starts on the requested boundary.
\<close>

lemma slab_cache_init_geom:
  assumes "slab_cache_init (Some r) name objsz align s = Ret s'"
  shows "cache_geom (slab_caches s' r)"
proof -
  define al where "al = u32_max (ucast align) 8"
  define sz0 where "sz0 = (ucast (slab_align_up (ucast (ucast objsz :: u32)) (ucast al)) :: u32)"
  define sz where "sz = (if sz0 < 8 then 8 else sz0)"
  have acc: "al AND (al - 1) = 0" "\<not> SLAB_PAGE_SIZE < slab_align_up sizeof_slab_page (ucast al) + ucast sz"
    and c: "sc_obj_size (slab_caches s' r) = sz" "sc_obj_align (slab_caches s' r) = al"
    using assms by (auto simp: slab_cache_init_def Let_def al_def sz0_def sz_def split: if_splits)
  have al8: "8 \<le> unat al" by (auto simp: al_def u32_max_def word_less_nat_alt)
  then have "al \<noteq> 0" by auto
  from word_pow2_of_and_pred [OF acc(1) this] obtain k where k: "unat al = 2 ^ k" by blast
  have kb: "(2::nat) ^ k < 2 ^ 32" using unat_less_two_power [of al] k by simp
  have first: "unat (slab_align_up sizeof_slab_page (ucast al)) = first_off (unat al)"
    using kb by (subst slab_align_up_pow2 [OF k]) (simp_all add: first_off_def k sizeof_slab_page_def)
  have "first_off (unat al) \<le> 24 + 2 ^ k"
    unfolding first_off_def k by (rule order_trans [OF div_times_less_eq_dividend]) simp
  then have "unat (slab_align_up sizeof_slab_page (ucast al) + ucast sz) = first_off (unat al) + unat sz"
    using kb unat_less_two_power [of sz] by (subst unat_add_no_wrap) (simp_all add: first)
  then have fit: "first_off (unat al) + unat sz \<le> 4096"
    using acc(2) by (simp add: word_less_nat_alt SLAB_PAGE_SIZE_def)
  have "0 < (24 + (2 ^ k - 1)) div (2::nat) ^ k" by (simp add: div_greater_zero_iff)
  then have "2 ^ k \<le> first_off (unat al)" by (simp add: first_off_def k)
  then have "(2::nat) ^ k \<le> 2 ^ 12" using fit by simp
  then have "k \<le> 12" by (rule power_le_imp_le_exp [rotated]) simp
  moreover have "8 \<le> unat sz" by (auto simp: sz_def word_less_nat_alt)
  ultimately show ?thesis using fit k by (auto simp: cache_geom_def geom_ok_def c)
qed

text \<open>
  The sizes are kept in 32 bits. Below 2 GiB nothing is cut off: a slot has room for the object and is a multiple of the
  alignment.
\<close>

lemma slab_cache_init_slot:
  assumes "slab_cache_init (Some r) name objsz align s = Ret s'" and "unat objsz < 2 ^ 31"
  defines "c \<equiv> slab_caches s' r"
  shows "unat objsz \<le> unat (sc_obj_size c)" "unat (sc_obj_align c) dvd unat (sc_obj_size c)" "sc_obj_align c = u32_max (ucast align) 8"
proof -
  define al where "al = u32_max (ucast align) 8"
  define sz0 where "sz0 = (ucast (slab_align_up (ucast (ucast objsz :: u32)) (ucast al)) :: u32)"
  have o: "0 < unat objsz" and c: "sc_obj_size c = (if sz0 < 8 then 8 else sz0)" "sc_obj_align c = al"
    using assms(1) by (auto simp: c_def slab_cache_init_def Let_def al_def sz0_def unat_gt_0 split: if_splits)
  show "sc_obj_align c = u32_max (ucast align) 8" using c(2) by (simp add: al_def)
  have "geom_ok (sc_obj_size c) al" using slab_cache_init_geom [OF assms(1)] c(2) by (simp add: cache_geom_def c_def)
  then obtain k where k: "unat al = 2 ^ k" "k \<le> 12" by (auto simp: geom_ok_def)
  have al8: "8 \<le> (2 :: nat) ^ k" unfolding k(1) [symmetric] by (auto simp: al_def u32_max_def word_less_nat_alt)
  have kb: "(2::nat) ^ k \<le> 2 ^ 12" using k(2) by (intro power_increasing) simp_all
  have u: "unat (ucast (ucast objsz :: u32) :: u64) = unat objsz" using assms(2) by (simp add: unsigned_ucast_eq unsigned_take_bit_eq take_bit_nat_eq_self)
  define n where "n = (unat objsz + (2 ^ k - 1)) div 2 ^ k * 2 ^ k"
  have un: "unat (slab_align_up (ucast (ucast objsz :: u32)) (ucast al)) = n"
    unfolding n_def using slab_align_up_pow2 [OF k(1), of "ucast (ucast objsz :: u32)", unfolded u] order_trans [OF add_mono, OF less_imp_le [OF assms(2)] kb, of "2 ^ 64"]
    by simp
  have "n \<le> unat objsz + (2 ^ k - 1)" by (simp add: n_def)
  then have sz0: "unat sz0 = n" unfolding sz0_def using un assms(2) kb by (simp add: unsigned_ucast_eq take_bit_nat_eq_self)
  have "unat objsz + (2 ^ k - 1) < n + 2 ^ k" unfolding n_def using dividend_less_div_times [of "2 ^ k" "unat objsz + (2 ^ k - 1)"] by (simp add: add.commute)
  then have ge: "unat objsz \<le> n" using al8 by linarith
  have dv: "2 ^ k dvd n" by (simp add: n_def)
  have "8 \<le> n" using dvd_imp_le [OF dv] ge o al8 by linarith
  then have "sc_obj_size c = sz0" using c(1) sz0 by (simp add: word_less_nat_alt)
  then show "unat objsz \<le> unat (sc_obj_size c)" "unat (sc_obj_align c) dvd unat (sc_obj_size c)" using ge dv sz0 k(1) c(2) by simp_all
qed

lemma slab_init_ready:
  assumes "slab_cache_init (Some r) name objsz align s = Ret s'"
    and "slab_inv s" and "\<not> in_irq s" and "sc_pages (slab_caches s r) = NULL"
  shows "slab_ready r s' \<and> live_objs q s' = live_objs q s"
proof -
  from slab_cache_init_Ret [OF assms(1)] obtain c where s': "s' = s\<lparr>slab_caches := (slab_caches s)(r := c)\<rparr>"
    and c: "sc_pages c = NULL" "sc_inuse_objects c = 0" by blast
  from assms(2) obtain PS FL where rep: "slab_rep s PS FL" by (auto simp: slab_inv_def)
  have same: "same_pmm s s'" by (simp add: same_pmm_def s')
  have nil: "PS r = []" using slab_repD(2) [OF rep, of r] assms(4) by simp
  have pr: "page_rep s' x p (FL p)" if "p \<in> set (PS x)" for x p
    using slab_repD(3) [OF rep that] nil that
    by (cases "x = r") (auto simp: page_rep_def same_pmm_pages [OF same], auto simp: s')
  have "cache_rep s' x (PS x) FL" for x
    using rep pr [of _ x] nil c by (cases "x = r") (auto simp: slab_rep_def cache_rep_def s')
  then have rep': "slab_rep s' PS FL"
    using rep by (simp add: slab_rep_def same_pmm_pages [OF same])
  have "lives s' PS FL q = lives s PS FL q" using nil by (cases "q = r") (auto simp: lives_def s')
  then have "live_objs q s' = live_objs q s" by (simp add: live_objs_lives [OF rep] live_objs_lives [OF rep'])
  moreover have "\<not> in_irq s'" using assms(3) by (simp add: in_irq_def s')
  ultimately show ?thesis
    using rep' slab_cache_init_geom [OF assms(1)] by (auto simp: slab_ready_def slab_inv_def)
qed

section \<open>Properties\<close>

lemma live_obj_slot:
  assumes "slab_inv s" and "x \<in> live_objs r s"
  shows "\<exists>PS FL p k. slab_rep s PS FL \<and> p \<in> set (PS r) \<and> k < slab_capacity (sc_obj_size (slab_caches s r)) (sc_obj_align (slab_caches s r)) \<and>
    unat x = unat p + (first_off (unat (sc_obj_align (slab_caches s r))) + k * unat (sc_obj_size (slab_caches s r)))"
proof -
  from assms(1) obtain PS FL where rep: "slab_rep s PS FL" by (auto simp: slab_inv_def)
  with assms(2) obtain p where p: "p \<in> set (PS r)" and x: "x \<in> set (cache_slots (slab_caches s r) p)"
    by (auto simp: live_objs_lives lives_def)
  then obtain k where k: "k < slab_capacity (sc_obj_size (slab_caches s r)) (sc_obj_align (slab_caches s r))"
    and xk: "x = slot (sc_obj_size (slab_caches s r)) (sc_obj_align (slab_caches s r)) p k"
    by (auto simp: cache_slots_def slots_def)
  have "page_base p" "geom_ok (sc_obj_size (slab_caches s r)) (sc_obj_align (slab_caches s r))"
    using slab_rep_base [OF rep p] by (simp_all add: cache_geom_def)
  from unat_slot [OF this(2,1) k] rep p k xk show ?thesis by blast
qed

lemma slot_range:
  assumes "slab_rep s PS FL" and "p \<in> set (PS r)"
    and "k < slab_capacity (sc_obj_size (slab_caches s r)) (sc_obj_align (slab_caches s r))"
  defines "off \<equiv> first_off (unat (sc_obj_align (slab_caches s r))) + k * unat (sc_obj_size (slab_caches s r))"
  shows "24 \<le> off" and "off + unat (sc_obj_size (slab_caches s r)) \<le> 4096"
proof -
  have g: "geom_ok (sc_obj_size (slab_caches s r)) (sc_obj_align (slab_caches s r))"
    using slab_rep_base(2) [OF assms(1,2)] by (simp add: cache_geom_def)
  then have "24 \<le> first_off (unat (sc_obj_align (slab_caches s r)))"
    by (auto simp: geom_ok_def intro: first_off_ge)
  then show "24 \<le> off" by (simp add: off_def)
  show "off + unat (sc_obj_size (slab_caches s r)) \<le> 4096"
    unfolding off_def by (rule slot_fits [OF g assms(3)])
qed

lemma slot_steps: "i < j \<Longrightarrow> i * z + z \<le> j * (z::nat)"
proof -
  assume "i < j"
  then have "Suc i * z \<le> j * z" by (intro mult_le_mono1) simp
  then show ?thesis by simp
qed

lemma page_base_gap:
  assumes "page_base p" and "page_base q" and "unat p < unat q"
  shows "unat p + 4096 \<le> unat q"
proof -
  have "4096 dvd unat p" "4096 dvd unat q"
    using assms(1,2) by (simp_all add: page_base_def page_aligned_iff)
  then obtain i j where "unat p = 4096 * i" "unat q = 4096 * j" by (elim dvdE)
  with assms(3) show ?thesis by simp
qed

text \<open>Two different live objects of any two caches are apart.\<close>

lemma slab_live_apart:
  assumes "slab_inv s" and "x \<in> live_objs r s" and "y \<in> live_objs q s" and "x \<noteq> y"
  shows "(unat x + unat (sc_obj_size (slab_caches s r)) \<le> unat y \<or>
      unat y + unat (sc_obj_size (slab_caches s q)) \<le> unat x)"
proof -
  let ?z = "\<lambda>r. unat (sc_obj_size (slab_caches s r))" and ?f = "\<lambda>r. first_off (unat (sc_obj_align (slab_caches s r)))"
  from live_obj_slot [OF assms(1,2)] obtain PS FL a i where rep: "slab_rep s PS FL" and a: "a \<in> set (PS r)"
    and i: "i < slab_capacity (sc_obj_size (slab_caches s r)) (sc_obj_align (slab_caches s r))"
    and x: "unat x = unat a + (?f r + i * ?z r)" by blast
  from live_obj_slot [OF assms(1,3)] obtain PS' FL' b j where rep': "slab_rep s PS' FL'" and b': "b \<in> set (PS' q)"
    and j: "j < slab_capacity (sc_obj_size (slab_caches s q)) (sc_obj_align (slab_caches s q))"
    and y: "unat y = unat b + (?f q + j * ?z q)" by blast
  have b: "b \<in> set (PS q)" using b' slab_rep_unique(1) [OF rep rep'] by simp
  note rx = slot_range [OF rep a i] and ry = slot_range [OF rep b j]
  have pa: "page_base a" and pb: "page_base b"
    using slab_rep_base(1) [OF rep a] slab_rep_base(1) [OF rep b] .
  show "unat x + ?z r \<le> unat y \<or> unat y + ?z q \<le> unat x"
  proof (cases "a = b")
    case True
    then have rq: "r = q" using a b slab_repD(6) [OF rep, of r q] by blast
    have "i \<noteq> j" using x y True rq assms(4) by (auto simp: word_unat_eq_iff)
    then show ?thesis using x y True rq slot_steps [of i j "?z r"] slot_steps [of j i "?z r"]
      by (auto simp: neq_iff)
  next
    case False
    then consider "unat a < unat b" | "unat b < unat a" by (auto simp: word_unat_eq_iff neq_iff)
    then show ?thesis
      using page_base_gap [OF pa pb] page_base_gap [OF pb pa] rx ry x y by cases linarith+
  qed
qed

text \<open>Caches as the kernel creates them, over the sixteen-page manager.\<close>

definition example_cache :: slab_cache where
  "example_cache = \<lparr>sc_name = ''slab'', sc_obj_size = 32, sc_obj_align = 8, sc_pages = NULL, sc_alloc_calls = 0,
     sc_free_calls = 0, sc_inuse_objects = 0, sc_peak_inuse_objects = 0, sc_slab_pages_allocated = 0,
     sc_alloc_failures = 0\<rparr>"

definition example_slab :: slab_globals where
  "example_slab = pmm_globals.extend example_pmm
     \<lparr>slab_caches = (\<lambda>_. example_cache), slab_page_at = (\<lambda>_. \<lparr>sp_next = NULL, sp_freelist = NULL, sp_obj_count = 0,
       sp_inuse = 0\<rparr>), obj_link = (\<lambda>_. NULL), obj_poison = (\<lambda>_. 0)\<rparr>"

lemma example_slab_simps [simp]:
  "s_irq_depth example_slab = 0" "g_pmm example_slab = g_pmm example_pmm"
  "slab_caches example_slab r = example_cache"
  "g_pmm_low_free_pages example_slab = g_pmm_low_free_pages example_pmm"
  "g_pmm_peak_used_pages example_slab = g_pmm_peak_used_pages example_pmm"
  by (simp_all add: example_slab_def example_pmm_def pmm_globals.defs)

text \<open>Any state whose allocators look like the example's is usable; the layers above build on this.\<close>

definition like_example :: "'a slab_globals_scheme \<Rightarrow> bool" where
  "like_example s \<longleftrightarrow>
     g_pmm s = g_pmm example_pmm \<and> g_pmm_low_free_pages s = g_pmm_low_free_pages example_pmm \<and>
     g_pmm_peak_used_pages s = g_pmm_peak_used_pages example_pmm \<and> s_irq_depth s = 0 \<and>
     slab_caches s = (\<lambda>_. example_cache)"

lemma like_example_ready:
  assumes "like_example s"
  shows "slab_ready r s" and "live_objs r s = {}"
    and "free_pas s = {0x40004000, 0x40005000, 0x40006000, 0x40007000}"
proof -
  have pmm: "g_pmm s = g_pmm example_pmm" "g_pmm_low_free_pages s = g_pmm_low_free_pages example_pmm"
    "g_pmm_peak_used_pages s = g_pmm_peak_used_pages example_pmm" and irq: "\<not> in_irq s"
    and ca: "slab_caches s = (\<lambda>_. example_cache)"
    using assms by (simp_all add: like_example_def in_irq_def)
  have "pmm_ok s"
    using example_pmm_ok pmm by (simp add: pmm_ok_def pressure_ok_def split: option.splits)
  then have rep: "slab_rep s (\<lambda>_. []) (\<lambda>_. [])"
    by (simp add: slab_rep_def cache_rep_def example_cache_def ca)
  have "cache_geom example_cache"
    by (auto simp: cache_geom_def geom_ok_def example_cache_def first_off_def intro: exI [of _ 3])
  with rep irq ca show "slab_ready r s" by (auto simp: slab_ready_def slab_inv_def)
  show "live_objs r s = {}" by (simp add: live_objs_lives [OF rep] lives_def)
  show "free_pas s = {0x40004000, 0x40005000, 0x40006000, 0x40007000}"
    using example_pmm_free pmm by (simp add: free_pas_def)
qed

lemma like_example_slab: "like_example example_slab"
  by (simp add: like_example_def fun_eq_iff)

lemmas example_slab_ready = like_example_ready(1) [OF like_example_slab]
  and example_slab_live = like_example_ready(2) [OF like_example_slab]
  and example_slab_free = like_example_ready(3) [OF like_example_slab]

lemma slab_alloc_object:
  assumes "slab_ready r s" and "free_pas s \<noteq> {}"
  shows "\<exists>x s'. slab_alloc (Some r) s = Ret (x, s') \<and> x \<noteq> NULL \<and> slab_inv s' \<and> slab_frame s s' \<and>
    (\<exists>pa. free_pas s - {pa} \<subseteq> free_pas s') \<and> live_objs r s' = insert x (live_objs r s)"
  using slab_alloc_ready [OF assms(1)] assms(2) by (auto split: if_splits)

lemma example_slab_two:
  "\<exists>(s :: slab_globals) x y. slab_ready r s \<and> {x, y} \<subseteq> live_objs r s \<and> x \<noteq> y \<and> sc_obj_size (slab_caches s r) = 32"
proof -
  note free = example_slab_free
  from slab_alloc_object [OF example_slab_ready [of r]] free obtain x s1 pa where
    a1: "slab_alloc (Some r) example_slab = Ret (x, s1)" "x \<noteq> NULL" and f1: "slab_frame example_slab s1"
    and l1: "live_objs r s1 = insert x (live_objs r example_slab)"
    and fp: "free_pas example_slab - {pa} \<subseteq> free_pas s1" by auto
  have r1: "slab_ready r s1" by (rule sl.alloc_Ret(1) [OF example_slab_ready a1(1)])
  have "free_pas s1 \<noteq> {}" using fp free by auto
  from slab_alloc_object [OF r1 this] obtain y s2 where
    a2: "slab_alloc (Some r) s1 = Ret (y, s2)" "y \<noteq> NULL" and f2: "slab_frame s1 s2"
    and l2: "live_objs r s2 = insert y (live_objs r s1)" by auto
  have "slab_ready r s2" by (rule sl.alloc_Ret(1) [OF r1 a2(1)])
  moreover have "y \<notin> live_objs r s1" using sl.alloc_Ret(3) [OF r1 a2(1)] a2(2) by simp
  moreover have "sc_obj_size (slab_caches s2 r) = 32"
    using slab_frame_trans [OF f1 f2] by (simp add: slab_frame_def example_cache_def)
  moreover have "{x, y} \<subseteq> live_objs r s2" "x \<in> live_objs r s1" using l1 l2 by simp_all
  ultimately show ?thesis by blast
qed

lemma live_objs_disjoint:
  assumes "slab_inv s" and "r \<noteq> q"
  shows "live_objs r s \<inter> live_objs q s = {}"
proof -
  from assms(1) obtain PS FL where rep: "slab_rep s PS FL" by (auto simp: slab_inv_def)
  have "a \<in> set (PS r) \<Longrightarrow> b \<in> set (PS q) \<Longrightarrow> a \<noteq> b" for a b using slab_repD(6) [OF rep assms(2)] by blast
  then show ?thesis using rep_slots [OF rep, of _ r _ q] by (fastforce simp: live_objs_lives [OF rep] lives_def)
qed

lemma live_obj_page:
  assumes "slab_inv s" and "x \<in> live_objs r s"
  shows "unat (align_down_4k x) + unat sizeof_slab_page \<le> unat x" "unat x + unat (sc_obj_size (slab_caches s r)) \<le> unat (align_down_4k x) + unat SLAB_PAGE_SIZE"
proof -
  from live_obj_slot [OF assms] obtain PS FL p k where rep: "slab_rep s PS FL" "p \<in> set (PS r)"
    and k: "k < slab_capacity (sc_obj_size (slab_caches s r)) (sc_obj_align (slab_caches s r))"
    and x: "unat x = unat p + (first_off (unat (sc_obj_align (slab_caches s r))) + k * unat (sc_obj_size (slab_caches s r)))" by blast
  note rg = slot_range [OF rep k]
  obtain m where "unat p = 4096 * m" using slab_rep_base(1) [OF rep] by (auto simp: page_base_def page_aligned_iff)
  moreover have "0 < unat (sc_obj_size (slab_caches s r))" using slab_rep_base(2) [OF rep] by (simp add: cache_geom_def geom_ok_def)
  ultimately have "unat (align_down_4k x) = unat p" using x rg by (simp add: unat_align_down_4k)
  then show "unat (align_down_4k x) + unat sizeof_slab_page \<le> unat x" "unat x + unat (sc_obj_size (slab_caches s r)) \<le> unat (align_down_4k x) + unat SLAB_PAGE_SIZE"
    using rg x by (simp_all add: sizeof_slab_page_def SLAB_PAGE_SIZE_def)
qed

lemma live_obj_aligned:
  assumes "slab_inv s" and "x \<in> live_objs r s" and "unat (sc_obj_align (slab_caches s r)) dvd unat (sc_obj_size (slab_caches s r))"
  shows "unat (sc_obj_align (slab_caches s r)) dvd unat x"
proof -
  let ?al = "unat (sc_obj_align (slab_caches s r))"
  from live_obj_slot [OF assms(1,2)] obtain PS FL p k where rep: "slab_rep s PS FL" "p \<in> set (PS r)"
    and x: "unat x = unat p + (first_off ?al + k * unat (sc_obj_size (slab_caches s r)))" by blast
  obtain m where m: "?al = 2 ^ m" "m \<le> 12" using slab_rep_base(2) [OF rep] by (auto simp: cache_geom_def geom_ok_def)
  have "(2::nat) ^ m dvd 2 ^ 12" using m(2) by (rule le_imp_power_dvd)
  then have "?al dvd 4096" using m(1) by simp
  also have "4096 dvd unat p" using slab_rep_base(1) [OF rep] by (simp add: page_base_def page_aligned_iff)
  finally have "?al dvd unat p" .
  moreover have "?al dvd first_off ?al" by (simp add: first_off_def)
  ultimately show ?thesis using assms(3) unfolding x by simp
qed

text \<open>A client of one cache changes neither the objects of another nor the shape of any cache.\<close>

lemma client_others:
  assumes "sl.client r s0 s held" and "slab_ready r s0"
  shows "slab_frame s0 s \<and> (\<forall>q. q \<noteq> r \<longrightarrow> live_objs q s = live_objs q s0)"
  using assms
proof (induction rule: sl.client.induct)
  case client_start
  then show ?case by (simp add: slab_frame_def)
next
  case (client_alloc s held x s')
  have "slab_ready r s" using sl.client_live [OF client_alloc.hyps(1) client_alloc.prems] by blast
  from slab_alloc_ready [OF this] client_alloc show ?case using slab_frame_trans by fastforce
next
  case (client_fail s held s')
  have "slab_ready r s" using sl.client_live [OF client_fail.hyps(1) client_fail.prems] by blast
  from slab_alloc_ready [OF this] client_fail show ?case using slab_frame_trans by fastforce
next
  case (client_release s held x s')
  have l: "slab_ready r s" "x \<in> live_objs r s" using sl.client_live [OF client_release.hyps(1) client_release.prems] client_release.hyps(2) by auto
  then have "slab_inv s" "\<not> in_irq s" by (simp_all add: slab_ready_def)
  from slab_free_ready [OF this l(2)] client_release show ?case using slab_frame_trans by fastforce
qed

text \<open>
  C30: from the initialisation of a cache on, over any run of allocations from it and of frees of objects held, an object
  that is held has room for its size, starts on the requested boundary, lies behind the header of its page and inside
  the page, and overlaps neither another object held nor a live object of any other cache. The object size is below
  2 GiB.
\<close>

theorem slab_objects_disjoint:
  assumes init: "slab_cache_init (Some r) name objsz align si = Ret s0" "unat objsz < 2 ^ 31"
    and si: "slab_inv si" "\<not> in_irq si" "sc_pages (slab_caches si r) = NULL"
    and run: "sl.client r s0 s held" and x: "x \<in> held"
  shows "(\<forall>y\<in>held. y \<noteq> x \<longrightarrow> unat x + unat objsz \<le> unat y \<or> unat y + unat objsz \<le> unat x) \<and>
    (\<forall>q y. q \<noteq> r \<longrightarrow> y \<in> live_objs q si \<longrightarrow> unat x + unat objsz \<le> unat y \<or> unat y + unat (sc_obj_size (slab_caches si q)) \<le> unat x) \<and>
    unat (align_down_4k x) + unat sizeof_slab_page \<le> unat x \<and> unat x + unat objsz \<le> unat (align_down_4k x) + unat SLAB_PAGE_SIZE \<and>
    unat (u32_max (ucast align) 8) dvd unat x"
proof -
  have rdy: "slab_ready r s0" and lq: "\<And>q. live_objs q s0 = live_objs q si" using slab_init_ready [OF init(1) si] by blast+
  note sl = slab_cache_init_slot [OF init] and cl = sl.client_live [OF run rdy] and co = client_others [OF run rdy]
  have inv: "slab_inv s" using cl by (simp add: slab_ready_def)
  have sz: "sc_obj_size (slab_caches s q) = sc_obj_size (slab_caches s0 q)" "sc_obj_align (slab_caches s q) = sc_obj_align (slab_caches s0 q)" for q
    using co by (simp_all add: slab_frame_def)
  have szi: "sc_obj_size (slab_caches s0 q) = sc_obj_size (slab_caches si q)" if "q \<noteq> r" for q
    using slab_cache_init_Ret [OF init(1)] that by auto
  have lh: "y \<in> live_objs r s" if "y \<in> held" for y using cl that by auto
  let ?z = "unat (sc_obj_size (slab_caches s r))"
  have oz: "unat objsz \<le> ?z" using sl(1) sz by simp
  have held: "unat x + unat objsz \<le> unat y \<or> unat y + unat objsz \<le> unat x" if "y \<in> held" "y \<noteq> x" for y
    using slab_live_apart [OF inv lh [OF x] lh [OF that(1)]] that(2) oz by fastforce
  have other: "unat x + unat objsz \<le> unat y \<or> unat y + unat (sc_obj_size (slab_caches si q)) \<le> unat x" if "q \<noteq> r" "y \<in> live_objs q si" for q y
  proof -
    have y: "y \<in> live_objs q s" using co that lq by simp
    then have "x \<noteq> y" using live_objs_disjoint [OF inv that(1)] lh [OF x] by blast
    from slab_live_apart [OF inv lh [OF x] y this] show ?thesis using oz sz szi [OF that(1)] by fastforce
  qed
  have page: "unat (align_down_4k x) + unat sizeof_slab_page \<le> unat x" "unat x + unat objsz \<le> unat (align_down_4k x) + unat SLAB_PAGE_SIZE"
    using live_obj_page [OF inv lh [OF x]] oz by simp_all
  have "unat (u32_max (ucast align) 8) dvd unat x" using live_obj_aligned [OF inv lh [OF x]] sl(2,3) sz by simp
  with held other page show ?thesis by blast
qed

theorem slab_objects_disjoint_witness:
  "\<exists>s0 s x y. slab_cache_init (Some G_ipc_msg_cache) (Some ''m'') 100 16 example_slab = Ret s0 \<and> sl.client G_ipc_msg_cache s0 s {x, y} \<and> x \<noteq> y \<and>
     (unat x + 100 \<le> unat y \<or> unat y + 100 \<le> unat x) \<and> 16 dvd unat x"
proof -
  let ?r = G_ipc_msg_cache
  have si: "slab_inv example_slab" "\<not> in_irq example_slab" "sc_pages (slab_caches example_slab ?r) = NULL"
    using example_slab_ready by (auto simp: slab_ready_def example_cache_def)
  obtain s0 where i: "slab_cache_init (Some ?r) (Some ''m'') 100 16 example_slab = Ret s0"
    by (simp add: slab_cache_init_def Let_def u32_max_def slab_align_up_def sizeof_slab_page_def SLAB_PAGE_SIZE_def)
  note rdy = slab_init_ready [OF i si, THEN conjunct1]
  have "free_pas s0 = free_pas example_slab" using slab_cache_init_Ret [OF i] by (auto simp: free_pas_def)
  then have fr: "free_pas s0 = {0x40004000, 0x40005000, 0x40006000, 0x40007000}" using example_slab_free by simp
  from slab_alloc_object [OF rdy] fr obtain x s1 pa where
    a1: "slab_alloc (Some ?r) s0 = Ret (x, s1)" "x \<noteq> NULL" and fp: "free_pas s0 - {pa} \<subseteq> free_pas s1" by auto
  have r1: "slab_ready ?r s1" by (rule sl.alloc_Ret(1) [OF rdy a1(1)])
  have "free_pas s1 \<noteq> {}" using fp fr by auto
  from slab_alloc_object [OF r1 this] obtain y s2 where a2: "slab_alloc (Some ?r) s1 = Ret (y, s2)" "y \<noteq> NULL" by blast
  have run: "sl.client ?r s0 s2 {x, y}"
    using sl.client_alloc [OF sl.client_alloc [OF sl.client_start a1] a2] by (simp add: insert_commute)
  have "x \<noteq> y" using sl.alloc_Ret(3) [OF r1 a2] sl.alloc_Ret(4) [OF rdy a1] by auto
  moreover have "unat (u32_max (ucast (16 :: u64)) 8) = 16" by (simp add: u32_max_def)
  ultimately show ?thesis using slab_objects_disjoint [OF i _ si run, of x] i run by (intro exI [of _ s0] exI [of _ s2] exI [of _ x] exI [of _ y]) auto
qed

text \<open>
  in thread context an allocation from an initialised cache always returns: either NULL, and then no
  page frame was free, or an object that was live in no cache before and is live in this one only
  afterwards. No other object's liveness changes.
\<close>

theorem slab_alloc_fresh:
  assumes "slab_ready r s"
  shows "\<exists>x s'. slab_alloc (Some r) s = Ret (x, s') \<and> slab_ready r s' \<and>
    (if x = NULL then free_pas s = {} \<and> (\<forall>q. live_objs q s' = live_objs q s)
     else (\<forall>q. x \<notin> live_objs q s) \<and>
       (\<forall>q. live_objs q s' = (if q = r then insert x (live_objs r s) else live_objs q s)))"
proof -
  from slab_alloc_ready [OF assms] obtain x s' where run: "slab_alloc (Some r) s = Ret (x, s')"
    and inv: "slab_inv s'" and fr: "slab_frame s s'"
    and post: "if x = NULL then free_pas s = {} \<and> (\<forall>q. live_objs q s' = live_objs q s)
      else x \<notin> live_objs r s \<and>
       (\<forall>q. live_objs q s' = (if q = r then insert x (live_objs r s) else live_objs q s))" by blast
  have "x \<notin> live_objs q s" if "x \<noteq> NULL" for q
    using post that live_objs_disjoint [OF inv, of q r] by (cases "q = r") (auto split: if_splits)
  with run post slab_readyI [OF inv fr assms] show ?thesis by (auto split: if_splits)
qed

theorem slab_alloc_fresh_witness:
  "\<exists>x s'. slab_alloc (Some G_thread_cache) example_slab = Ret (x, s') \<and> x \<noteq> NULL \<and>
     live_objs G_thread_cache s' = {x}"
  using slab_alloc_fresh [OF example_slab_ready, of G_thread_cache]
  by (auto simp: example_slab_live example_slab_free split: if_splits)

text \<open>
  freeing a live object in thread context never panics (the foreign-pointer and underflow checks
  pass) and ends the liveness of that object alone.
\<close>

theorem slab_free_live:
  assumes "slab_inv s" and "\<not> in_irq s" and "x \<in> live_objs r s"
  shows "\<exists>s'. slab_free (Some r) x s = Ret s' \<and> slab_inv s' \<and>
    (\<forall>q. live_objs q s' = (if q = r then live_objs r s - {x} else live_objs q s))"
  using slab_free_ready [OF assms] by blast

theorem slab_free_live_witness:
  "\<exists>(s :: slab_globals) x s'. x \<in> live_objs G_endpoint_cache s \<and> slab_free (Some G_endpoint_cache) x s = Ret s' \<and>
     x \<notin> live_objs G_endpoint_cache s'"
proof -
  obtain s :: slab_globals and x where r: "slab_ready G_endpoint_cache s"
    and x: "x \<in> live_objs G_endpoint_cache s" using example_slab_two by blast
  then have "slab_inv s" "\<not> in_irq s" by (simp_all add: slab_ready_def)
  from slab_free_live [OF this x] obtain s' where "slab_free (Some G_endpoint_cache) x s = Ret s'"
    and "live_objs G_endpoint_cache s' = live_objs G_endpoint_cache s - {x}" by auto
  with x show ?thesis by blast
qed

text \<open>
  C31: over any run of allocations and of releases of objects it holds, a client's objects stay
  disjoint from those that were live before, and the live objects are exactly those two groups: no
  object is handed out twice or lost.
\<close>

theorem slab_client_conservation:
  assumes "slab_ready r s0" and "sl.client r s0 s held"
  shows "held \<inter> live_objs r s0 = {} \<and> live_objs r s = live_objs r s0 \<union> held \<and> slab_ready r s"
  using sl.client_live [OF assms(2,1)] by blast

theorem slab_client_conservation_witness:
  "\<exists>x s. sl.client G_endpoint_cache example_slab s {x} \<and> live_objs G_endpoint_cache s = {x}"
proof -
  have "free_pas example_slab \<noteq> {}" by (simp add: example_slab_free)
  from slab_alloc_object [OF example_slab_ready this, of G_endpoint_cache] obtain x s where
    "slab_alloc (Some G_endpoint_cache) example_slab = Ret (x, s)" "x \<noteq> NULL" by blast
  then have c: "sl.client G_endpoint_cache example_slab s {x}"
    using sl.client_alloc [OF sl.client_start] by blast
  with slab_client_conservation [OF example_slab_ready c] show ?thesis
    by (auto simp: example_slab_live)
qed

text \<open>
  whenever \<open>slab_cache_init\<close> accepts a size and an alignment on an unused cache, the cache is
  ready: power-of-two alignment of at least eight, room for the intrusive link, at least one object
  behind the page header; nothing that was live is touched.
\<close>

theorem slab_cache_init_ready:
  assumes "slab_cache_init (Some r) name objsz align s = Ret s'"
    and "slab_inv s" and "\<not> in_irq s" and "sc_pages (slab_caches s r) = NULL"
  shows "slab_ready r s' \<and> 0 < slab_capacity (sc_obj_size (slab_caches s' r)) (sc_obj_align (slab_caches s' r)) \<and>
    (\<forall>q. live_objs q s' = live_objs q s)"
  using slab_init_ready [OF assms] slab_cache_init_geom [OF assms(1)]
  by (simp add: cache_geom_def slab_capacity_pos)

lemma example_init_align: "slab_align_up (ucast (100 :: u32)) (ucast (16 :: u32)) = 112"
    "slab_align_up sizeof_slab_page (ucast (16 :: u32)) = 32" "(16 :: u32) AND (16 - 1) = 0"
  by (simp_all add: slab_align_up_def sizeof_slab_page_def)

theorem slab_cache_init_ready_witness:
  "\<exists>s'. slab_cache_init (Some G_ipc_msg_cache) (Some ''m'') 100 16 example_slab = Ret s' \<and>
     slab_ready G_ipc_msg_cache s' \<and> sc_obj_size (slab_caches s' G_ipc_msg_cache) = 112"
proof -
  let ?r = "slab_cache_init (Some G_ipc_msg_cache) (Some ''m'') 100 16 example_slab"
  have "\<exists>s'. ?r = Ret s' \<and> sc_obj_size (slab_caches s' G_ipc_msg_cache) = 112"
    by (simp add: slab_cache_init_def Let_def u32_max_def slab_align_up_def sizeof_slab_page_def SLAB_PAGE_SIZE_def)
  then obtain s' where r: "?r = Ret s'" and z: "sc_obj_size (slab_caches s' G_ipc_msg_cache) = 112" by blast
  have "slab_inv example_slab" "\<not> in_irq example_slab" "sc_pages (slab_caches example_slab G_ipc_msg_cache) = NULL"
    using example_slab_ready by (auto simp: slab_ready_def example_cache_def)
  from slab_cache_init_ready [OF r this] r z show ?thesis by blast
qed

text \<open>
  the object size is cut to 32 bits before it is checked: a size that is a multiple of 4 GiB is accepted, and its objects get
  slots of eight bytes.
\<close>

theorem slab_cache_init_truncates:
  assumes "objsz \<noteq> 0" and "ucast objsz = (0 :: u32)"
  shows "\<exists>s'. slab_cache_init (Some r) name objsz 8 s = Ret s' \<and> sc_obj_size (slab_caches s' r) = 8"
  using assms by (simp add: slab_cache_init_def Let_def u32_max_def slab_align_up_def sizeof_slab_page_def SLAB_PAGE_SIZE_def)

end
