(* ===== verification/Cap.thy ===== *)
theory Cap
  imports Slab
begin

text \<open>
  Capabilities (\<open>Kern/Kernel/cap/\<close>): entries allocated from a slab cache, the fixed-size table with its
  generation counters and free-slot stack, and the operations create, duplicate, transfer, drop and
  invalidate. Tables are found through pointers (\<open>cap_table_at\<close>), so that an operation with the same
  source and destination table works on one table, as in the code. The contents of a freed entry are
  not part of the typed store: no operation reads an entry that is not live.
\<close>

section \<open>Data\<close>

type_synonym cap_rights = u32
type_synonym cap_handle = u64

datatype cap_type =
  CAP_TYPE_INVALID | CAP_TYPE_TASK | CAP_TYPE_THREAD | CAP_TYPE_VMO | CAP_TYPE_VMAP | CAP_TYPE_ENDPOINT

datatype cap_status = CAP_OK | CAP_ERR_INVALID | CAP_ERR_NO_SLOTS | CAP_ERR_DENIED | CAP_ERR_NO_MEM

abbreviation (input) CAP_ERR_NO_ENTRY :: cap_status where
  "CAP_ERR_NO_ENTRY \<equiv> CAP_ERR_INVALID"

definition CAP_R_READ :: cap_rights where
  "CAP_R_READ = push_bit 0 1"

definition CAP_R_WRITE :: cap_rights where
  "CAP_R_WRITE = push_bit 1 1"

definition CAP_R_EXEC :: cap_rights where
  "CAP_R_EXEC = push_bit 2 1"

definition CAP_R_DUP :: cap_rights where
  "CAP_R_DUP = push_bit 3 1"

definition CAP_R_TRANSFER :: cap_rights where
  "CAP_R_TRANSFER = push_bit 4 1"

definition CAP_R_DROP :: cap_rights where
  "CAP_R_DROP = push_bit 5 1"

definition CAP_R_CONTROL :: cap_rights where
  "CAP_R_CONTROL = push_bit 8 1"

definition CAP_R_SEND :: cap_rights where
  "CAP_R_SEND = push_bit 12 1"

definition CAP_R_RECV :: cap_rights where
  "CAP_R_RECV = push_bit 13 1"

definition CAP_R_ARM :: cap_rights where
  "CAP_R_ARM = push_bit 16 1"

definition CAP_R_ACK :: cap_rights where
  "CAP_R_ACK = push_bit 17 1"

definition cap_rights_has :: "cap_rights \<Rightarrow> cap_rights \<Rightarrow> bool" where
  "cap_rights_has rights needed = (rights AND needed = needed)"

record cap_entry =
  ce_type :: cap_type
  ce_rights :: cap_rights
  ce_obj :: ptr
  ce_gen :: u32
  ce_flags :: u32

record cap_table =
  slots_of :: "ptr list"
  gens :: "u32 list"
  free_stack :: "u32 list"
  free_top :: u32

record cap_globals = slab_globals +
  s_cap_entry_cache_inited :: bool
  cap_entry_at :: "ptr \<Rightarrow> cap_entry"
  cap_table_at :: "ptr \<Rightarrow> cap_table"

definition CONFIG_CAP_TABLE_SLOTS :: nat where
  "CONFIG_CAP_TABLE_SLOTS = 256"

definition CAP_ENTRY_FLAG_VALID :: u32 where
  "CAP_ENTRY_FLAG_VALID = push_bit 0 1"

definition CAP_HANDLE_INVALID :: cap_handle where
  "CAP_HANDLE_INVALID = 0"

definition cap_handle_index :: "cap_handle \<Rightarrow> u32" where
  "cap_handle_index h = ucast (h AND 0xFFFFFFFF)"

definition cap_handle_gen :: "cap_handle \<Rightarrow> u32" where
  "cap_handle_gen h = ucast (drop_bit 32 h)"

definition cap_handle_make :: "u32 \<Rightarrow> u32 \<Rightarrow> cap_handle" where
  "cap_handle_make gen idx = push_bit 32 (ucast gen) OR ucast idx"

section \<open>Entries\<close>

text \<open>\<open>sizeof(cap_entry_t)\<close> is 24: two enums, a pointer and two 32-bit words.\<close>

definition cap_entry_cache_init :: "'a cap_globals_scheme \<Rightarrow> 'a cap_globals_scheme outcome" where
  "cap_entry_cache_init s =
     (if s_cap_entry_cache_inited s then Ret s
      else obind (slab_cache_init (Some G_cap_entry_cache) (Some ''cap_entry'') 24 8 s)
        (\<lambda>s1. Ret (s1\<lparr>s_cap_entry_cache_inited := True\<rparr>)))"

definition cap_entry_cache_get_stats :: "'a cap_globals_scheme \<Rightarrow> slab_cache_stats option" where
  "cap_entry_cache_get_stats s =
     (if \<not> s_cap_entry_cache_inited s then None else slab_cache_get_stats (Some G_cap_entry_cache) s)"

definition cap_entry_zero :: cap_entry where
  "cap_entry_zero = \<lparr>ce_type = CAP_TYPE_INVALID, ce_rights = 0, ce_obj = NULL, ce_gen = 0, ce_flags = 0\<rparr>"

definition cap_entry_alloc :: "'a cap_globals_scheme \<Rightarrow> (ptr \<times> 'a cap_globals_scheme) outcome" where
  "cap_entry_alloc s =
     ASSERT_THREAD_CONTEXT s
      (if \<not> s_cap_entry_cache_inited s then Panic ''cap_entry_alloc: cache not initialized''
       else obind (slab_alloc (Some G_cap_entry_cache) s) (\<lambda>(e, s1).
         if e = NULL then Ret (NULL, s1)
         else Ret (e, s1\<lparr>cap_entry_at := (cap_entry_at s1)(e := cap_entry_zero)\<rparr>)))"

definition cap_entry_free :: "ptr \<Rightarrow> 'a cap_globals_scheme \<Rightarrow> 'a cap_globals_scheme outcome" where
  "cap_entry_free e s =
     ASSERT_THREAD_CONTEXT s
      (if e = NULL then Ret s
       else if \<not> s_cap_entry_cache_inited s then Panic ''cap_entry_free: cache not initialized''
       else slab_free (Some G_cap_entry_cache) e s)"

section \<open>Table helpers\<close>

definition cap_slot_valid_index :: "u32 \<Rightarrow> bool" where
  "cap_slot_valid_index idx = (unat idx < CONFIG_CAP_TABLE_SLOTS)"

definition cap_bump_gen :: "u32 \<Rightarrow> u32" where
  "cap_bump_gen gen = (let g = gen + 1 in if g = 0 then 1 else g)"

text \<open>The result carries the index written through \<open>out_idx\<close>, if it is written.\<close>

definition cap_table_alloc_slot ::
    "ptr \<Rightarrow> ptr \<Rightarrow> 'a cap_globals_scheme \<Rightarrow> (cap_status \<times> u32 option) \<times> 'a cap_globals_scheme" where
  "cap_table_alloc_slot t out_idx s =
     (if t = NULL \<or> out_idx = NULL then ((CAP_ERR_INVALID, None), s)
      else let tb = cap_table_at s t in
        if free_top tb = 0 then ((CAP_ERR_NO_SLOTS, None), s)
        else let top = free_top tb - 1;
                 idx = free_stack tb ! unat top;
                 s1 = s\<lparr>cap_table_at := (cap_table_at s)(t := tb\<lparr>free_top := top\<rparr>)\<rparr> in
          if \<not> cap_slot_valid_index idx then ((CAP_ERR_INVALID, None), s1)
          else ((CAP_OK, Some idx), s1))"

definition cap_table_free_slot :: "ptr \<Rightarrow> u32 \<Rightarrow> 'a cap_globals_scheme \<Rightarrow> 'a cap_globals_scheme" where
  "cap_table_free_slot t idx s =
     (if t = NULL \<or> \<not> cap_slot_valid_index idx then s
      else let tb = cap_table_at s t in
        if unat (free_top tb) < CONFIG_CAP_TABLE_SLOTS
        then s\<lparr>cap_table_at := (cap_table_at s)(t := tb
               \<lparr>free_stack := (free_stack tb)[unat (free_top tb) := idx], free_top := free_top tb + 1\<rparr>)\<rparr>
        else s)"

text \<open>The entry found (or NULL) and the status written through \<open>status_out\<close>.\<close>

definition cap_lookup_ex ::
    "ptr \<Rightarrow> cap_handle \<Rightarrow> cap_rights \<Rightarrow> 'a cap_globals_scheme \<Rightarrow> ptr \<times> cap_status" where
  "cap_lookup_ex t h need s =
     (if t = NULL then (NULL, CAP_ERR_INVALID)
      else let idx = cap_handle_index h in
        if \<not> cap_slot_valid_index idx then (NULL, CAP_ERR_INVALID)
        else let tb = cap_table_at s t; e = slots_of tb ! unat idx in
          if e = NULL \<or> ce_flags (cap_entry_at s e) AND CAP_ENTRY_FLAG_VALID = 0
          then (NULL, CAP_ERR_NO_ENTRY)
          else let gen = cap_handle_gen h in
            if gen = 0 \<or> gen \<noteq> gens tb ! unat idx \<or> gen \<noteq> ce_gen (cap_entry_at s e)
            then (NULL, CAP_ERR_INVALID)
            else if ce_rights (cap_entry_at s e) AND need \<noteq> need then (NULL, CAP_ERR_DENIED)
            else (e, CAP_OK))"

section \<open>Table operations\<close>

text \<open>The three assignments of the initialisation loop, for \<open>i\<close> up to the table size.\<close>

fun cap_table_init_loop :: "nat \<Rightarrow> nat \<Rightarrow> cap_table \<Rightarrow> cap_table" where
  "cap_table_init_loop i 0 tb = tb"
| "cap_table_init_loop i (Suc n) tb =
     cap_table_init_loop (Suc i) n
       (tb\<lparr>slots_of := (slots_of tb)[i := NULL], gens := (gens tb)[i := 1],
           free_stack := (free_stack tb)[i := of_nat i]\<rparr>)"

definition cap_table_init :: "ptr \<Rightarrow> 'a cap_globals_scheme \<Rightarrow> 'a cap_globals_scheme" where
  "cap_table_init t s =
     (if t = NULL then s
      else s\<lparr>cap_table_at := (cap_table_at s)(t :=
        (cap_table_init_loop 0 CONFIG_CAP_TABLE_SLOTS (cap_table_at s t))
          \<lparr>free_top := of_nat CONFIG_CAP_TABLE_SLOTS\<rparr>)\<rparr>)"

definition cap_table_insert ::
    "ptr \<Rightarrow> cap_type \<Rightarrow> cap_rights \<Rightarrow> ptr \<Rightarrow> ptr \<Rightarrow> 'a cap_globals_scheme \<Rightarrow>
     ((cap_status \<times> cap_handle option) \<times> 'a cap_globals_scheme) outcome" where
  "cap_table_insert t ty rights obj out s =
     (if t = NULL \<or> out = NULL then Ret ((CAP_ERR_INVALID, None), s)
      else case cap_table_alloc_slot t LOCAL s of
        ((st, None), s1) \<Rightarrow> Ret ((st, None), s1)
      | ((st, Some idx), s1) \<Rightarrow>
          obind (cap_entry_alloc s1) (\<lambda>(e, s2).
            if e = NULL then Ret ((CAP_ERR_NO_MEM, None), cap_table_free_slot t idx s2)
            else let tb = cap_table_at s2 t; g = gens tb ! unat idx;
                     s3 = s2\<lparr>cap_entry_at := (cap_entry_at s2)(e :=
                       \<lparr>ce_type = ty, ce_rights = rights, ce_obj = obj, ce_gen = g,
                        ce_flags = CAP_ENTRY_FLAG_VALID\<rparr>)\<rparr>;
                     s4 = s3\<lparr>cap_table_at := (cap_table_at s3)(t :=
                       tb\<lparr>slots_of := (slots_of tb)[unat idx := e]\<rparr>)\<rparr> in
              Ret ((CAP_OK, Some (cap_handle_make g idx)), s4)))"

definition cap_lookup :: "ptr \<Rightarrow> cap_handle \<Rightarrow> cap_rights \<Rightarrow> 'a cap_globals_scheme \<Rightarrow> ptr" where
  "cap_lookup t h need s = fst (cap_lookup_ex t h need s)"

definition cap_table_lookup :: "ptr \<Rightarrow> cap_handle \<Rightarrow> cap_rights \<Rightarrow> 'a cap_globals_scheme \<Rightarrow> ptr" where
  "cap_table_lookup t h need s = cap_lookup t h need s"

text \<open>The steps that take a live entry out of slot \<open>idx\<close>, shared by removal and invalidation.\<close>

definition cap_table_clear_slot ::
    "ptr \<Rightarrow> u32 \<Rightarrow> ptr \<Rightarrow> 'a cap_globals_scheme \<Rightarrow> 'a cap_globals_scheme outcome" where
  "cap_table_clear_slot t idx e s =
     (let tb = cap_table_at s t;
          s1 = s\<lparr>cap_table_at := (cap_table_at s)(t := tb\<lparr>slots_of := (slots_of tb)[unat idx := NULL]\<rparr>)\<rparr> in
      obind (cap_entry_free e s1) (\<lambda>s2.
        let tb2 = cap_table_at s2 t;
            s3 = s2\<lparr>cap_table_at := (cap_table_at s2)(t :=
              tb2\<lparr>gens := (gens tb2)[unat idx := cap_bump_gen (gens tb2 ! unat idx)]\<rparr>)\<rparr> in
        Ret (cap_table_free_slot t idx s3)))"

definition cap_table_remove ::
    "ptr \<Rightarrow> cap_handle \<Rightarrow> 'a cap_globals_scheme \<Rightarrow> (cap_status \<times> 'a cap_globals_scheme) outcome" where
  "cap_table_remove t h s =
     (if t = NULL then Ret (CAP_ERR_INVALID, s)
      else case cap_lookup_ex t h 0 s of (e, st) \<Rightarrow>
        if e = NULL then Ret (st, s)
        else let idx = cap_handle_index h in
          if \<not> cap_slot_valid_index idx then Ret (CAP_ERR_INVALID, s)
          else obind (cap_table_clear_slot t idx e s) (\<lambda>s1. Ret (CAP_OK, s1)))"

text \<open>The scan over all slots, \<open>n\<close> of them left from index \<open>i\<close>.\<close>

fun cap_invalidate_loop ::
    "ptr \<Rightarrow> ptr \<Rightarrow> nat \<Rightarrow> nat \<Rightarrow> 'a cap_globals_scheme \<Rightarrow> 'a cap_globals_scheme outcome" where
  "cap_invalidate_loop t obj i 0 s = Ret s"
| "cap_invalidate_loop t obj i (Suc n) s =
     (let e = slots_of (cap_table_at s t) ! i in
      if e = NULL then cap_invalidate_loop t obj (Suc i) n s
      else if ce_flags (cap_entry_at s e) AND CAP_ENTRY_FLAG_VALID = 0
      then cap_invalidate_loop t obj (Suc i) n s
      else if ce_obj (cap_entry_at s e) \<noteq> obj then cap_invalidate_loop t obj (Suc i) n s
      else obind (cap_table_clear_slot t (of_nat i) e s) (\<lambda>s1. cap_invalidate_loop t obj (Suc i) n s1))"

definition cap_table_invalidate_object ::
    "ptr \<Rightarrow> ptr \<Rightarrow> 'a cap_globals_scheme \<Rightarrow> 'a cap_globals_scheme outcome" where
  "cap_table_invalidate_object t obj s =
     (if t = NULL \<or> obj = NULL then Ret s
      else cap_invalidate_loop t obj 0 CONFIG_CAP_TABLE_SLOTS s)"

definition cap_table_invalidate ::
    "ptr \<Rightarrow> cap_handle \<Rightarrow> 'a cap_globals_scheme \<Rightarrow> (cap_status \<times> 'a cap_globals_scheme) outcome" where
  "cap_table_invalidate t h s = cap_table_remove t h s"

section \<open>Capability operations\<close>

definition cap_create ::
    "ptr \<Rightarrow> cap_type \<Rightarrow> cap_rights \<Rightarrow> ptr \<Rightarrow> ptr \<Rightarrow> 'a cap_globals_scheme \<Rightarrow>
     ((cap_status \<times> cap_handle option) \<times> 'a cap_globals_scheme) outcome" where
  "cap_create t ty rights obj out s =
     (if t = NULL \<or> out = NULL then Ret ((CAP_ERR_INVALID, None), s)
      else cap_table_insert t ty rights obj out s)"

definition cap_dup ::
    "ptr \<Rightarrow> cap_handle \<Rightarrow> ptr \<Rightarrow> cap_rights \<Rightarrow> ptr \<Rightarrow> 'a cap_globals_scheme \<Rightarrow>
     ((cap_status \<times> cap_handle option) \<times> 'a cap_globals_scheme) outcome" where
  "cap_dup src h dst rmask out s =
     (if src = NULL \<or> dst = NULL \<or> out = NULL then Ret ((CAP_ERR_INVALID, None), s)
      else let e = cap_table_lookup src h CAP_R_DUP s in
        if e = NULL then Ret ((CAP_ERR_DENIED, None), s)
        else let en = cap_entry_at s e in
          cap_table_insert dst (ce_type en) (ce_rights en AND rmask) (ce_obj en) out s)"

definition cap_transfer ::
    "ptr \<Rightarrow> cap_handle \<Rightarrow> ptr \<Rightarrow> cap_rights \<Rightarrow> ptr \<Rightarrow> 'a cap_globals_scheme \<Rightarrow>
     ((cap_status \<times> cap_handle option) \<times> 'a cap_globals_scheme) outcome" where
  "cap_transfer src h dst rmask out s =
     (if src = NULL \<or> dst = NULL \<or> out = NULL then Ret ((CAP_ERR_INVALID, None), s)
      else let e = cap_table_lookup src h CAP_R_TRANSFER s in
        if e = NULL then Ret ((CAP_ERR_DENIED, None), s)
        else let en = cap_entry_at s e in
          obind (cap_table_insert dst (ce_type en) (ce_rights en AND rmask) (ce_obj en) out s)
            (\<lambda>((st, w), s1).
               if st \<noteq> CAP_OK then Ret ((st, w), s1)
               else obind (cap_table_remove src h s1) (\<lambda>(st2, s2).
                 if st2 \<noteq> CAP_OK
                 then obind (cap_table_remove dst (the w) s2) (\<lambda>(_, s3). Ret ((st2, w), s3))
                 else Ret ((CAP_OK, w), s2))))"

definition cap_drop ::
    "ptr \<Rightarrow> cap_handle \<Rightarrow> 'a cap_globals_scheme \<Rightarrow> (cap_status \<times> 'a cap_globals_scheme) outcome" where
  "cap_drop t h s = (if t = NULL then Ret (CAP_ERR_INVALID, s) else cap_table_remove t h s)"

definition cap_invalidate ::
    "ptr \<Rightarrow> cap_handle \<Rightarrow> 'a cap_globals_scheme \<Rightarrow> (cap_status \<times> 'a cap_globals_scheme) outcome" where
  "cap_invalidate t h s = (if t = NULL then Ret (CAP_ERR_INVALID, s) else cap_table_invalidate t h s)"

text \<open>The self test of debug builds; \<open>expect\<close> panics when its condition fails.\<close>

definition expect :: "bool \<Rightarrow> string \<Rightarrow> 'a outcome \<Rightarrow> 'a outcome" where
  "expect cond msg k = kassert cond (''cap_ops_selftest: '' @ msg) k"

definition cap_ops_selftest :: "ptr \<Rightarrow> 'a cap_globals_scheme \<Rightarrow> 'a cap_globals_scheme outcome" where
  "cap_ops_selftest t s0 =
     kassert (t \<noteq> NULL) ''cap_ops_selftest: null table''
     (obind (cap_create t CAP_TYPE_ENDPOINT (CAP_R_READ OR CAP_R_DUP OR CAP_R_TRANSFER) 0x1234 LOCAL s0)
       (\<lambda>((st, w), s1). expect (st = CAP_OK) ''cap_create failed''
        (let h = (case w of Some h \<Rightarrow> h | None \<Rightarrow> 0); e = cap_table_lookup t h CAP_R_READ s1 in
         expect (e \<noteq> NULL) ''cap_lookup failed''
         (expect (ce_type (cap_entry_at s1 e) = CAP_TYPE_ENDPOINT) ''type mismatch''
         (expect (ce_obj (cap_entry_at s1 e) = 0x1234) ''obj mismatch''
         (obind (cap_drop t h s1) (\<lambda>(st, s2). expect (st = CAP_OK) ''cap_drop failed''
         (expect (cap_table_lookup t h CAP_R_READ s2 = NULL) ''stale handle should fail''
         (obind (cap_create t CAP_TYPE_VMO (CAP_R_READ OR CAP_R_DUP OR CAP_R_TRANSFER) 0xBEEF LOCAL s2)
           (\<lambda>((st, w), s3). expect (st = CAP_OK) ''cap_create #2 failed''
            (let h1 = (case w of Some h \<Rightarrow> h | None \<Rightarrow> 0) in
             obind (cap_dup t h1 t CAP_R_READ LOCAL s3)
               (\<lambda>((st, w), s4). expect (st = CAP_OK) ''cap_dup failed''
                (let h_dup = (case w of Some h \<Rightarrow> h | None \<Rightarrow> 0) in
                 obind (cap_transfer t h1 t CAP_R_READ LOCAL s4)
                   (\<lambda>((st, w), s5). expect (st = CAP_OK) ''cap_transfer failed''
                    (let h_xfer = (case w of Some h \<Rightarrow> h | None \<Rightarrow> 0) in
                     obind (cap_drop t h_dup s5) (\<lambda>(_, s6).
                     obind (cap_drop t h_xfer s6) (\<lambda>(_, s7). Ret s7)))))))))))))))))"

section \<open>Status translation\<close>

datatype ks_cap_status =
  KS_CAP_OK | KS_CAP_ERR_INVALID | KS_CAP_ERR_NO_RIGHTS | KS_CAP_ERR_NO_SLOTS | KS_CAP_ERR_OOM

fun cap_status_to_ks_status :: "cap_status \<Rightarrow> ks_cap_status" where
  "cap_status_to_ks_status CAP_OK = KS_CAP_OK"
| "cap_status_to_ks_status CAP_ERR_INVALID = KS_CAP_ERR_INVALID"
| "cap_status_to_ks_status CAP_ERR_DENIED = KS_CAP_ERR_NO_RIGHTS"
| "cap_status_to_ks_status CAP_ERR_NO_SLOTS = KS_CAP_ERR_NO_SLOTS"
| "cap_status_to_ks_status CAP_ERR_NO_MEM = KS_CAP_ERR_OOM"

section \<open>Handles\<close>

lemma low32_mask: "(0xFFFFFFFF :: u64) = mask 32"
  by (simp add: mask_eq_exp_minus_1)

lemma cap_handle_index_make [simp]: "cap_handle_index (cap_handle_make g i) = i"
proof (rule bit_word_eqI)
  fix n assume "n < LENGTH(32)"
  then show "bit (cap_handle_index (cap_handle_make g i)) n = bit i n"
    by (simp add: cap_handle_index_def cap_handle_make_def low32_mask bit_simps)
qed

lemma cap_handle_gen_make [simp]: "cap_handle_gen (cap_handle_make g i) = g"
proof (rule bit_word_eqI)
  fix n assume "n < LENGTH(32)"
  then show "bit (cap_handle_gen (cap_handle_make g i)) n = bit g n"
    by (auto simp: cap_handle_gen_def cap_handle_make_def bit_simps dest: bit_imp_le_length)
qed

lemma cap_handle_make_parts [simp]: "cap_handle_make (cap_handle_gen h) (cap_handle_index h) = h"
proof (rule bit_word_eqI)
  fix n assume "n < LENGTH(64)"
  then show "bit (cap_handle_make (cap_handle_gen h) (cap_handle_index h)) n = bit h n"
    by (auto simp: cap_handle_gen_def cap_handle_index_def cap_handle_make_def low32_mask bit_simps not_less)
qed

lemma cap_handle_eq_iff: "h = h' \<longleftrightarrow> cap_handle_gen h = cap_handle_gen h' \<and> cap_handle_index h = cap_handle_index h'"
  by (metis cap_handle_make_parts)

lemma cap_handle_gen_zero [simp]: "cap_handle_gen 0 = 0"
  by (simp add: cap_handle_gen_def)

section \<open>Well-formed tables\<close>

definition free_idxs :: "cap_table \<Rightarrow> nat list" where
  "free_idxs tb = map unat (take (unat (free_top tb)) (free_stack tb))"

definition table_ok :: "cap_table \<Rightarrow> bool" where
  "table_ok tb \<longleftrightarrow>
     length (slots_of tb) = CONFIG_CAP_TABLE_SLOTS \<and> length (gens tb) = CONFIG_CAP_TABLE_SLOTS \<and>
     length (free_stack tb) = CONFIG_CAP_TABLE_SLOTS \<and> unat (free_top tb) \<le> CONFIG_CAP_TABLE_SLOTS \<and>
     distinct (free_idxs tb) \<and>
     set (free_idxs tb) = {i. i < CONFIG_CAP_TABLE_SLOTS \<and> slots_of tb ! i = NULL} \<and> 0 \<notin> set (gens tb)"

lemma table_okD:
  assumes "table_ok tb"
  shows "length (slots_of tb) = 256" and "length (gens tb) = 256" and "length (free_stack tb) = 256"
    and "unat (free_top tb) \<le> 256" and "distinct (free_idxs tb)"
    and "set (free_idxs tb) = {i. i < 256 \<and> slots_of tb ! i = NULL}"
    and "i < 256 \<Longrightarrow> gens tb ! i \<noteq> 0" and "length (free_idxs tb) = unat (free_top tb)"
proof -
  show lg: "length (gens tb) = 256" using assms by (simp add: table_ok_def CONFIG_CAP_TABLE_SLOTS_def)
  show "i < 256 \<Longrightarrow> gens tb ! i \<noteq> 0"
    using assms nth_mem [of i "gens tb"] lg by (metis table_ok_def)
qed (use assms in \<open>simp_all add: table_ok_def CONFIG_CAP_TABLE_SLOTS_def free_idxs_def\<close>)

text \<open>Taking the top of the free stack and filling that slot.\<close>

lemma table_top:
  assumes ok: "table_ok tb" and top: "free_top tb \<noteq> 0"
  defines "idx \<equiv> free_stack tb ! unat (free_top tb - 1)"
  shows "unat idx < 256" and "slots_of tb ! unat idx = NULL"
    and "free_idxs tb = free_idxs (tb\<lparr>free_top := free_top tb - 1\<rparr>) @ [unat idx]"
    and "(free_stack tb)[unat (free_top tb - 1) := idx] = free_stack tb"
proof -
  have u: "unat (free_top tb) = Suc (unat (free_top tb - 1))"
    using top by (simp add: unat_pred unat_gt_0 Suc_pred)
  show split: "free_idxs tb = free_idxs (tb\<lparr>free_top := free_top tb - 1\<rparr>) @ [unat idx]"
    using table_okD(3,4) [OF ok] by (simp add: free_idxs_def u take_Suc_conv_app_nth idx_def)
  then have "unat idx \<in> set (free_idxs tb)" by simp
  then show "unat idx < 256" and "slots_of tb ! unat idx = NULL" using table_okD(6) [OF ok] by auto
  show "(free_stack tb)[unat (free_top tb - 1) := idx] = free_stack tb" by (simp add: idx_def)
qed

lemma table_ok_fill:
  assumes ok: "table_ok tb" and top: "free_top tb \<noteq> 0" and e: "e \<noteq> NULL"
  defines "idx \<equiv> free_stack tb ! unat (free_top tb - 1)"
  shows "table_ok (tb\<lparr>free_top := free_top tb - 1, slots_of := (slots_of tb)[unat idx := e]\<rparr>)"
proof -
  let ?tb = "tb\<lparr>free_top := free_top tb - 1, slots_of := (slots_of tb)[unat idx := e]\<rparr>"
  note t = table_top [OF ok top, folded idx_def] and d = table_okD [OF ok]
  have fi: "free_idxs tb = free_idxs ?tb @ [unat idx]" using t(3) by (simp add: free_idxs_def)
  have "set (free_idxs ?tb) = set (free_idxs tb) - {unat idx}" using fi d(5) by auto
  also have "\<dots> = {i. i < 256 \<and> slots_of ?tb ! i = NULL}"
    unfolding d(6) using t(1) d(1) e by (auto simp: nth_list_update)
  finally show ?thesis
    using fi d ok top by (simp add: table_ok_def CONFIG_CAP_TABLE_SLOTS_def unat_pred)
qed

text \<open>Emptying a slot, bumping its generation and pushing it on the free stack.\<close>

lemma cap_bump_gen_nz [simp]: "cap_bump_gen g \<noteq> 0"
  by (simp add: cap_bump_gen_def Let_def)

definition table_clear :: "cap_table \<Rightarrow> nat \<Rightarrow> cap_table" where
  "table_clear tb i = tb\<lparr>slots_of := (slots_of tb)[i := NULL], gens := (gens tb)[i := cap_bump_gen (gens tb ! i)],
     free_stack := (free_stack tb)[unat (free_top tb) := of_nat i], free_top := free_top tb + 1\<rparr>"

lemma table_has_room:
  assumes ok: "table_ok tb" and i: "i < 256" and occ: "slots_of tb ! i \<noteq> NULL"
  shows "unat (free_top tb) < 256"
proof -
  note d = table_okD [OF ok]
  have "set (free_idxs tb) \<subseteq> {..<256} - {i}" unfolding d(6) using occ by auto
  then have "card (set (free_idxs tb)) \<le> card ({..<256} - {i})" by (intro card_mono) auto
  also have "\<dots> = 255" using i by simp
  finally show ?thesis using d(5,8) by (simp add: distinct_card)
qed

lemma table_ok_clear:
  assumes ok: "table_ok tb" and i: "i < 256" and occ: "slots_of tb ! i \<noteq> NULL"
  shows "table_ok (table_clear tb i)"
proof -
  note d = table_okD [OF ok] and room = table_has_room [OF assms]
  have ft: "unat (free_top tb + 1) = Suc (unat (free_top tb))"
    using room by (intro unat_Suc_no_wrap) simp
  have "unat (of_nat i :: u32) = i" using i by (simp add: unat_of_nat)
  then have fi: "free_idxs (table_clear tb i) = free_idxs tb @ [i]"
    using room d(3) by (simp add: free_idxs_def table_clear_def ft take_Suc_update)
  have "i \<notin> set (free_idxs tb)" using d(6) occ by auto
  then have "distinct (free_idxs (table_clear tb i))" using fi d(5) by simp
  moreover have "set (free_idxs (table_clear tb i)) = {j. j < 256 \<and> slots_of (table_clear tb i) ! j = NULL}"
    unfolding fi using d(1,6) i by (auto simp: table_clear_def nth_list_update)
  moreover have "0 \<notin> set (gens (table_clear tb i))"
    using ok set_update_subset_insert [of "gens tb" i "cap_bump_gen (gens tb ! i)"]
    by (auto simp: table_clear_def table_ok_def)
  ultimately show ?thesis
    using d room by (simp add: table_ok_def CONFIG_CAP_TABLE_SLOTS_def) (simp add: table_clear_def ft)
qed

section \<open>Initialisation\<close>

lemma cap_table_init_loop_result:
  assumes "i + n \<le> length (slots_of tb)" and "length (gens tb) = length (slots_of tb)"
    and "length (free_stack tb) = length (slots_of tb)"
  shows "cap_table_init_loop i n tb = tb
    \<lparr>slots_of := take i (slots_of tb) @ replicate n NULL @ drop (i + n) (slots_of tb),
     gens := take i (gens tb) @ replicate n 1 @ drop (i + n) (gens tb),
     free_stack := take i (free_stack tb) @ map of_nat [i..<i + n] @ drop (i + n) (free_stack tb)\<rparr>"
  using assms
proof (induction n arbitrary: i tb)
  case 0
  then show ?case by simp
next
  case (Suc n)
  then show ?case by (simp add: Suc.IH take_Suc_update upt_conv_Cons del: upt_Suc)
qed

lemma table_ok_init:
  assumes "length (slots_of tb) = CONFIG_CAP_TABLE_SLOTS" and "length (gens tb) = CONFIG_CAP_TABLE_SLOTS"
    and "length (free_stack tb) = CONFIG_CAP_TABLE_SLOTS"
  shows "table_ok ((cap_table_init_loop 0 CONFIG_CAP_TABLE_SLOTS tb)\<lparr>free_top := of_nat CONFIG_CAP_TABLE_SLOTS\<rparr>)"
    and "slots_of ((cap_table_init_loop 0 CONFIG_CAP_TABLE_SLOTS tb)\<lparr>free_top := of_nat CONFIG_CAP_TABLE_SLOTS\<rparr>)
      = replicate CONFIG_CAP_TABLE_SLOTS NULL"
proof -
  have loop: "cap_table_init_loop 0 CONFIG_CAP_TABLE_SLOTS tb = tb\<lparr>slots_of := replicate CONFIG_CAP_TABLE_SLOTS NULL,
      gens := replicate CONFIG_CAP_TABLE_SLOTS 1, free_stack := map of_nat [0..<CONFIG_CAP_TABLE_SLOTS]\<rparr>"
    using assms by (simp add: cap_table_init_loop_result)
  have "map unat (map (of_nat :: nat \<Rightarrow> u32) [0..<256]) = [0..<256]"
    by (auto simp: unat_of_nat intro!: map_idI)
  then show "table_ok ((cap_table_init_loop 0 CONFIG_CAP_TABLE_SLOTS tb)\<lparr>free_top := of_nat CONFIG_CAP_TABLE_SLOTS\<rparr>)"
    unfolding loop by (auto simp: table_ok_def free_idxs_def CONFIG_CAP_TABLE_SLOTS_def simp del: map_map)
  show "slots_of ((cap_table_init_loop 0 CONFIG_CAP_TABLE_SLOTS tb)\<lparr>free_top := of_nat CONFIG_CAP_TABLE_SLOTS\<rparr>)
      = replicate CONFIG_CAP_TABLE_SLOTS NULL" by (simp add: loop)
qed

section \<open>Capability spaces\<close>

text \<open>What a table means: a finite map from handles to capabilities.\<close>

type_synonym cap_view = "cap_type \<times> cap_rights \<times> ptr"

definition entry_view :: "cap_entry \<Rightarrow> cap_view" where
  "entry_view e = (ce_type e, ce_rights e, ce_obj e)"

definition caps :: "'a cap_globals_scheme \<Rightarrow> ptr \<Rightarrow> cap_handle \<Rightarrow> cap_view option" where
  "caps s t h =
     (let tb = cap_table_at s t; i = unat (cap_handle_index h) in
      if i < 256 \<and> slots_of tb ! i \<noteq> NULL \<and> cap_handle_gen h = gens tb ! i
      then Some (entry_view (cap_entry_at s (slots_of tb ! i))) else None)"

definition entries_ok :: "ptr set \<Rightarrow> 'a cap_globals_scheme \<Rightarrow> bool" where
  "entries_ok T s \<longleftrightarrow>
     (\<forall>t\<in>T. \<forall>i<256. slots_of (cap_table_at s t) ! i \<noteq> NULL \<longrightarrow>
        slots_of (cap_table_at s t) ! i \<in> live_objs G_cap_entry_cache s \<and>
        ce_flags (cap_entry_at s (slots_of (cap_table_at s t) ! i)) = CAP_ENTRY_FLAG_VALID \<and>
        ce_gen (cap_entry_at s (slots_of (cap_table_at s t) ! i)) = gens (cap_table_at s t) ! i)"

definition unshared :: "ptr set \<Rightarrow> 'a cap_globals_scheme \<Rightarrow> bool" where
  "unshared T s \<longleftrightarrow>
     (\<forall>t\<in>T. \<forall>t'\<in>T. \<forall>i<256. \<forall>j<256. slots_of (cap_table_at s t) ! i \<noteq> NULL \<longrightarrow>
        slots_of (cap_table_at s t) ! i = slots_of (cap_table_at s t') ! j \<longrightarrow> t = t' \<and> i = j)"

text \<open>The tables in \<open>T\<close> are well formed, point to live entries only, and share none.\<close>

definition cap_inv :: "ptr set \<Rightarrow> 'a cap_globals_scheme \<Rightarrow> bool" where
  "cap_inv T s \<longleftrightarrow>
     NULL \<notin> T \<and> slab_ready G_cap_entry_cache s \<and> s_cap_entry_cache_inited s \<and>
     (\<forall>t\<in>T. table_ok (cap_table_at s t)) \<and> entries_ok T s \<and> unshared T s"

lemma cap_invD:
  assumes "cap_inv T s" and "t \<in> T"
  shows "t \<noteq> NULL" and "table_ok (cap_table_at s t)" and "\<not> in_irq s" and "s_cap_entry_cache_inited s"
    and "i < 256 \<Longrightarrow> slots_of (cap_table_at s t) ! i \<noteq> NULL \<Longrightarrow>
        slots_of (cap_table_at s t) ! i \<in> live_objs G_cap_entry_cache s \<and>
        ce_flags (cap_entry_at s (slots_of (cap_table_at s t) ! i)) = CAP_ENTRY_FLAG_VALID \<and>
        ce_gen (cap_entry_at s (slots_of (cap_table_at s t) ! i)) = gens (cap_table_at s t) ! i"
    and "slab_ready G_cap_entry_cache s"
  using assms by (auto simp: cap_inv_def entries_ok_def slab_ready_def)

lemma cap_globals_more_eq:
  "slab_globals.more s' = slab_globals.more s \<Longrightarrow>
   s_cap_entry_cache_inited s' = s_cap_entry_cache_inited s \<and> cap_entry_at s' = cap_entry_at s \<and>
   cap_table_at s' = cap_table_at s \<and> cap_globals.more s' = cap_globals.more s"
  by (cases s; cases s') simp

lemma flag_valid_nz [simp]: "CAP_ENTRY_FLAG_VALID \<noteq> 0"
  by (simp add: CAP_ENTRY_FLAG_VALID_def)

text \<open>Lookup reads the capability space, checks rights, and reports the reason of a failure.\<close>

lemma cap_lookup_ex_caps:
  assumes "cap_inv T s" and "t \<in> T"
  shows "cap_lookup_ex t h need s =
    (case caps s t h of None \<Rightarrow> (NULL, CAP_ERR_INVALID)
     | Some (ty, rights, obj) \<Rightarrow>
         if rights AND need = need
         then (slots_of (cap_table_at s t) ! unat (cap_handle_index h), CAP_OK) else (NULL, CAP_ERR_DENIED))"
  using cap_invD(5) [OF assms, of "unat (cap_handle_index h)"] cap_invD(1) [OF assms] table_okD(7) [OF cap_invD(2) [OF assms]]
  by (auto simp: cap_lookup_ex_def caps_def Let_def cap_slot_valid_index_def CONFIG_CAP_TABLE_SLOTS_def
      entry_view_def flag_valid_nz)

lemma caps_SomeD:
  assumes "caps s t h = Some c"
  shows "unat (cap_handle_index h) < 256"
    and "slots_of (cap_table_at s t) ! unat (cap_handle_index h) \<noteq> NULL"
    and "entry_view (cap_entry_at s (slots_of (cap_table_at s t) ! unat (cap_handle_index h))) = c"
    and "cap_handle_gen h = gens (cap_table_at s t) ! unat (cap_handle_index h)"
  using assms by (auto simp: caps_def Let_def split: if_splits)

lemma cap_lookup_caps:
  assumes "cap_inv T s" and "t \<in> T"
  shows "cap_lookup t h need s \<noteq> NULL \<longleftrightarrow>
      (\<exists>ty rights obj. caps s t h = Some (ty, rights, obj) \<and> rights AND need = need)"
    and "cap_lookup t h need s \<noteq> NULL \<Longrightarrow>
      caps s t h = Some (entry_view (cap_entry_at s (cap_lookup t h need s))) \<and>
      ce_rights (cap_entry_at s (cap_lookup t h need s)) AND need = need"
  using caps_SomeD [of s t h]
  by (auto simp: cap_lookup_def cap_lookup_ex_caps [OF assms] entry_view_def split: option.splits if_splits)

section \<open>Contracts of the table operations\<close>

lemma cap_updates_view [simp]:
  "live_objs r (s\<lparr>cap_entry_at := a\<rparr>) = live_objs r s" "slab_ready r (s\<lparr>cap_entry_at := a\<rparr>) = slab_ready r s"
  "free_pas (s\<lparr>cap_entry_at := a\<rparr>) = free_pas s"
  "live_objs r (s\<lparr>cap_table_at := b\<rparr>) = live_objs r s" "slab_ready r (s\<lparr>cap_table_at := b\<rparr>) = slab_ready r s"
  "free_pas (s\<lparr>cap_table_at := b\<rparr>) = free_pas s"
  "live_objs r (s\<lparr>s_cap_entry_cache_inited := c\<rparr>) = live_objs r s"
  "slab_ready r (s\<lparr>s_cap_entry_cache_inited := c\<rparr>) = slab_ready r s"
  by (rule slab_same_view(2) slab_same_view(3) same_pmm_pages(3), simp_all add: same_pmm_def)+

text \<open>Effects on everything but the tables and the entries.\<close>

definition entry_frame :: "'a cap_globals_scheme \<Rightarrow> 'a cap_globals_scheme \<Rightarrow> bool" where
  "entry_frame s s' \<longleftrightarrow>
     cap_globals.more s' = cap_globals.more s \<and> s_irq_depth s' = s_irq_depth s \<and> daif s' = daif s \<and>
     s_cap_entry_cache_inited s' = s_cap_entry_cache_inited s \<and>
     (\<forall>q. q \<noteq> G_cap_entry_cache \<longrightarrow> live_objs q s' = live_objs q s) \<and>
     (\<forall>q. slab_ready q s \<longrightarrow> slab_ready q s')"

lemma entry_frameI:
  assumes "slab_frame s s'" and "slab_inv s'" and "\<And>q. q \<noteq> G_cap_entry_cache \<Longrightarrow> live_objs q s' = live_objs q s"
  shows "entry_frame s s' \<and> cap_table_at s' = cap_table_at s \<and> cap_entry_at s' = cap_entry_at s"
  using assms cap_globals_more_eq [OF slab_frameD(1) [OF assms(1)]] slab_readyI [OF assms(2,1)]
  by (auto simp: entry_frame_def slab_frame_def)

lemma cap_entry_alloc_spec:
  assumes "slab_ready G_cap_entry_cache s" and "s_cap_entry_cache_inited s"
  shows "\<exists>e s'. cap_entry_alloc s = Ret (e, s') \<and> entry_frame s s' \<and> cap_table_at s' = cap_table_at s \<and>
    (\<forall>x. x \<noteq> e \<longrightarrow> cap_entry_at s' x = cap_entry_at s x) \<and>
    (\<exists>pa. free_pas s - {pa} \<subseteq> free_pas s') \<and>
    (if e = NULL then free_pas s = {} \<and> live_objs G_cap_entry_cache s' = live_objs G_cap_entry_cache s
     else e \<notin> live_objs G_cap_entry_cache s \<and>
       live_objs G_cap_entry_cache s' = insert e (live_objs G_cap_entry_cache s))"
proof -
  from slab_alloc_ready [OF assms(1)] obtain e s1 where
    run: "slab_alloc (Some G_cap_entry_cache) s = Ret (e, s1)" and inv: "slab_inv s1" and fr: "slab_frame s s1"
    and fp: "\<exists>pa. free_pas s - {pa} \<subseteq> free_pas s1"
    and post: "if e = NULL then free_pas s = {} \<and> (\<forall>q. live_objs q s1 = live_objs q s)
      else e \<notin> live_objs G_cap_entry_cache s \<and>
       (\<forall>q. live_objs q s1 = (if q = G_cap_entry_cache then insert e (live_objs G_cap_entry_cache s) else live_objs q s))"
    by blast
  have ef: "entry_frame s s1 \<and> cap_table_at s1 = cap_table_at s \<and> cap_entry_at s1 = cap_entry_at s"
    using post by (intro entry_frameI [OF fr inv]) (auto split: if_splits)
  define s' where "s' = (if e = NULL then s1 else s1\<lparr>cap_entry_at := (cap_entry_at s1)(e := cap_entry_zero)\<rparr>)"
  have "cap_entry_alloc s = Ret (e, s')"
    using assms run by (simp add: cap_entry_alloc_def s'_def slab_ready_def)
  moreover have "entry_frame s s' \<and> cap_table_at s' = cap_table_at s \<and> (\<forall>x. x \<noteq> e \<longrightarrow> cap_entry_at s' x = cap_entry_at s x)"
    using ef by (simp add: s'_def entry_frame_def)
  moreover have "live_objs q s' = live_objs q s1" "free_pas s' = free_pas s1" for q by (simp_all add: s'_def)
  ultimately show ?thesis using post fp by (auto split: if_splits)
qed

lemma cap_entry_free_spec:
  assumes "slab_ready G_cap_entry_cache s" and "s_cap_entry_cache_inited s" and "e \<noteq> NULL"
    and "e \<in> live_objs G_cap_entry_cache s"
  shows "\<exists>s'. cap_entry_free e s = Ret s' \<and> entry_frame s s' \<and> cap_table_at s' = cap_table_at s \<and>
    cap_entry_at s' = cap_entry_at s \<and> live_objs G_cap_entry_cache s' = live_objs G_cap_entry_cache s - {e}"
proof -
  have "slab_inv s" "\<not> in_irq s" using assms(1) by (simp_all add: slab_ready_def)
  from slab_free_ready [OF this assms(4)] obtain s' where run: "slab_free (Some G_cap_entry_cache) e s = Ret s'"
    and inv: "slab_inv s'" and fr: "slab_frame s s'" and post:
      "\<forall>q. live_objs q s' = (if q = G_cap_entry_cache then live_objs G_cap_entry_cache s - {e} else live_objs q s)"
    by blast
  have "entry_frame s s' \<and> cap_table_at s' = cap_table_at s \<and> cap_entry_at s' = cap_entry_at s"
    using post by (intro entry_frameI [OF fr inv]) auto
  with run post assms \<open>\<not> in_irq s\<close> show ?thesis by (simp add: cap_entry_free_def)
qed

text \<open>Slots of a table after filling or clearing one of them.\<close>

lemma entry_slots_subset:
  assumes "cap_inv T s" and "t \<in> T" and "i < 256"
  shows "slots_of (cap_table_at s t) ! i = NULL \<or> slots_of (cap_table_at s t) ! i \<in> live_objs G_cap_entry_cache s"
  using cap_invD(5) [OF assms] by blast

lemma cap_inv_fill:
  assumes inv: "cap_inv T s" and t: "t \<in> T" and i: "i < 256" and fr: "entry_frame s s'"
    and e: "e \<noteq> NULL" "e \<notin> live_objs G_cap_entry_cache s"
      "live_objs G_cap_entry_cache s' = insert e (live_objs G_cap_entry_cache s)"
    and tb: "cap_table_at s' = (cap_table_at s)(t := tb')" "table_ok tb'"
      "slots_of tb' = (slots_of (cap_table_at s t))[i := e]" "gens tb' = gens (cap_table_at s t)"
    and en: "\<And>x. x \<noteq> e \<Longrightarrow> cap_entry_at s' x = cap_entry_at s x"
      "ce_flags (cap_entry_at s' e) = CAP_ENTRY_FLAG_VALID" "ce_gen (cap_entry_at s' e) = gens tb' ! i"
  shows "cap_inv T s'"
    and "t' \<in> T \<Longrightarrow> caps s' t' h = (if t' = t \<and> h = cap_handle_make (gens tb' ! i) (of_nat i)
       then Some (entry_view (cap_entry_at s' e))
       else if t' = t \<and> unat (cap_handle_index h) = i then None else caps s t' h)"
proof -
  have len: "length (slots_of (cap_table_at s t)) = 256" by (rule table_okD(1) [OF cap_invD(2) [OF inv t]])
  have sl: "slots_of (cap_table_at s' t') ! j = (if t' = t \<and> j = i then e else slots_of (cap_table_at s t') ! j)"
    if "j < 256" for t' j using that tb len i by (simp add: nth_list_update)
  have gn: "gens (cap_table_at s' t') = gens (cap_table_at s t')" for t' using tb by simp
  have ne: "slots_of (cap_table_at s t') ! j \<noteq> e" if "t' \<in> T" "j < 256" for t' j
    using entry_slots_subset [OF inv that] e by auto
  have "entries_ok T s'"
    unfolding entries_ok_def
    using cap_invD(5) [OF inv] e(3) en sl gn ne tb(4) by (auto simp: tb(1))
  moreover have "unshared T s'"
    using inv ne unfolding unshared_def cap_inv_def by (auto simp: sl)
  moreover have "\<forall>t\<in>T. table_ok (cap_table_at s' t)" using cap_invD(2) [OF inv] tb by auto
  ultimately show "cap_inv T s'" using inv fr by (auto simp: cap_inv_def entry_frame_def)
  assume t': "t' \<in> T"
  show "caps s' t' h = (if t' = t \<and> h = cap_handle_make (gens tb' ! i) (of_nat i)
       then Some (entry_view (cap_entry_at s' e))
       else if t' = t \<and> unat (cap_handle_index h) = i then None else caps s t' h)"
  proof (cases "t' = t \<and> unat (cap_handle_index h) = i")
    case True
    have "of_nat (unat (cap_handle_index h)) = cap_handle_index h" by simp
    with True have "cap_handle_index h = of_nat i" by simp
    then have "h = cap_handle_make (gens tb' ! i) (of_nat i) \<longleftrightarrow> cap_handle_gen h = gens tb' ! i"
      by (simp add: cap_handle_eq_iff)
    with True i sl [of i t] e(1) tb show ?thesis by (simp add: caps_def Let_def)
  next
    case False
    have "h \<noteq> cap_handle_make (gens tb' ! i) (of_nat i)" if "t' = t"
      using that False i by (auto simp: unat_of_nat)
    moreover have "caps s' t' h = caps s t' h"
      using sl [of "unat (cap_handle_index h)" t'] False ne [OF t'] gn [of t'] by (auto simp: caps_def Let_def en(1))
    ultimately show ?thesis using False by auto
  qed
qed

lemma cap_inv_clear:
  assumes inv: "cap_inv T s" and t: "t \<in> T" and i: "i < 256" and fr: "entry_frame s s'"
    and e: "e \<noteq> NULL" "slots_of (cap_table_at s t) ! i = e"
      "live_objs G_cap_entry_cache s' = live_objs G_cap_entry_cache s - {e}"
    and tb: "cap_table_at s' = (cap_table_at s)(t := table_clear (cap_table_at s t) i)"
    and en: "cap_entry_at s' = cap_entry_at s"
  shows "cap_inv T s'"
    and "t' \<in> T \<Longrightarrow> caps s' t' h = (if t' = t \<and> unat (cap_handle_index h) = i then None else caps s t' h)"
proof -
  note d = table_okD [OF cap_invD(2) [OF inv t]]
  have sl: "slots_of (cap_table_at s' t') ! j = (if t' = t \<and> j = i then NULL else slots_of (cap_table_at s t') ! j)"
    if "j < 256" for t' j using that tb d(1) i by (simp add: nth_list_update table_clear_def)
  have gn: "gens (cap_table_at s' t') ! j = gens (cap_table_at s t') ! j" if "t' \<noteq> t \<or> j \<noteq> i" for t' j
    using that tb by (auto simp: table_clear_def)
  have ne: "slots_of (cap_table_at s t') ! j \<noteq> e" if "t' \<in> T" "j < 256" "t' \<noteq> t \<or> j \<noteq> i" for t' j
    using inv that t i e unfolding cap_inv_def unshared_def by metis
  have "entries_ok T s'"
    unfolding entries_ok_def
  proof (intro ballI allI impI)
    fix u j assume u: "u \<in> T" and j: "j < 256" and nn: "slots_of (cap_table_at s' u) ! j \<noteq> NULL"
    have n: "u \<noteq> t \<or> j \<noteq> i" using nn sl [OF j, of u] by (auto split: if_splits)
    show "slots_of (cap_table_at s' u) ! j \<in> live_objs G_cap_entry_cache s' \<and>
        ce_flags (cap_entry_at s' (slots_of (cap_table_at s' u) ! j)) = CAP_ENTRY_FLAG_VALID \<and>
        ce_gen (cap_entry_at s' (slots_of (cap_table_at s' u) ! j)) = gens (cap_table_at s' u) ! j"
    proof -
      have eq: "slots_of (cap_table_at s' u) ! j = slots_of (cap_table_at s u) ! j" using n sl [OF j, of u] by auto
      with cap_invD(5) [OF inv u j] nn ne [OF u j n] show ?thesis unfolding eq gn [OF n] en e(3) by simp
    qed
  qed
  moreover have "unshared T s'"
    unfolding unshared_def
  proof (intro ballI allI impI)
    fix u v j k assume u: "u \<in> T" "v \<in> T" "j < 256" "k < 256" and nn: "slots_of (cap_table_at s' u) ! j \<noteq> NULL"
      and eq: "slots_of (cap_table_at s' u) ! j = slots_of (cap_table_at s' v) ! k"
    then have "slots_of (cap_table_at s u) ! j \<noteq> NULL"
      "slots_of (cap_table_at s u) ! j = slots_of (cap_table_at s v) ! k"
      using sl [of j u] sl [of k v] by (auto split: if_splits)
    with u inv show "u = v \<and> j = k" unfolding cap_inv_def unshared_def by blast
  qed
  moreover have "\<forall>t\<in>T. table_ok (cap_table_at s' t)"
    using cap_invD(2) [OF inv] tb table_ok_clear [OF cap_invD(2) [OF inv t] i] e by auto
  ultimately show "cap_inv T s'" using inv fr by (auto simp: cap_inv_def entry_frame_def)
  assume t': "t' \<in> T"
  show "caps s' t' h = (if t' = t \<and> unat (cap_handle_index h) = i then None else caps s t' h)"
    using sl [of "unat (cap_handle_index h)" t'] gn [of t' "unat (cap_handle_index h)"] i
    by (auto simp: caps_def Let_def en)
qed

text \<open>The generation counter of a slot.\<close>

definition slot_gen :: "'a cap_globals_scheme \<Rightarrow> ptr \<Rightarrow> nat \<Rightarrow> u32" where
  "slot_gen s t i = gens (cap_table_at s t) ! i"

definition cap_insert_post ::
    "ptr set \<Rightarrow> ptr \<Rightarrow> cap_view \<Rightarrow> 'a cap_globals_scheme \<Rightarrow> (cap_status \<times> cap_handle option) \<times> 'a cap_globals_scheme \<Rightarrow> bool"
  where
  "cap_insert_post T t c s = (\<lambda>((st, w), s').
     cap_inv T s' \<and> entry_frame s s' \<and> (\<forall>t' i. slot_gen s' t' i = slot_gen s t' i) \<and>
     (\<forall>t'. t' \<noteq> t \<longrightarrow> cap_table_at s' t' = cap_table_at s t') \<and>
     (\<exists>pa. free_pas s - {pa} \<subseteq> free_pas s') \<and>
     (case w of
        None \<Rightarrow> (\<forall>t'\<in>T. caps s' t' = caps s t') \<and>
          (st = CAP_ERR_NO_SLOTS \<and> free_top (cap_table_at s t) = 0 \<or> st = CAP_ERR_NO_MEM \<and> free_pas s = {})
      | Some h \<Rightarrow> st = CAP_OK \<and> h \<noteq> CAP_HANDLE_INVALID \<and> caps s t h = None \<and>
          free_top (cap_table_at s' t) = free_top (cap_table_at s t) - 1 \<and>
          caps s' t = (caps s t)(h \<mapsto> c) \<and> (\<forall>t'\<in>T - {t}. caps s' t' = caps s t')))"

lemma cap_inv_same:
  assumes inv: "cap_inv T s" and fr: "entry_frame s s'" and tb: "cap_table_at s' = cap_table_at s"
    and en: "\<And>x. x \<in> live_objs G_cap_entry_cache s \<Longrightarrow> cap_entry_at s' x = cap_entry_at s x"
    and lv: "live_objs G_cap_entry_cache s \<subseteq> live_objs G_cap_entry_cache s'"
  shows "cap_inv T s'" and "t \<in> T \<Longrightarrow> caps s' t = caps s t"
proof -
  have "entries_ok T s'"
    unfolding entries_ok_def tb using cap_invD(5) [OF inv] en lv by auto
  then show "cap_inv T s'" using inv fr by (auto simp: cap_inv_def entry_frame_def tb unshared_def)
  show "t \<in> T \<Longrightarrow> caps s' t = caps s t"
    using cap_invD(5) [OF inv] en by (auto simp: fun_eq_iff caps_def Let_def tb)
qed

text \<open>The table after a pop of its free stack, and the two ways an insertion goes on from there.\<close>

definition popped :: "'a cap_globals_scheme \<Rightarrow> ptr \<Rightarrow> 'a cap_globals_scheme" where
  "popped s t = s\<lparr>cap_table_at := (cap_table_at s)(t := (cap_table_at s t)
     \<lparr>free_top := free_top (cap_table_at s t) - 1\<rparr>)\<rparr>"

definition top_slot :: "'a cap_globals_scheme \<Rightarrow> ptr \<Rightarrow> u32" where
  "top_slot s t = free_stack (cap_table_at s t) ! unat (free_top (cap_table_at s t) - 1)"

lemma popped_view:
  "live_objs r (popped s t) = live_objs r s" "free_pas (popped s t) = free_pas s"
  "cap_entry_at (popped s t) = cap_entry_at s"
  by (simp_all add: popped_def)

lemma cap_table_alloc_slot_top:
  assumes "cap_inv T s" and "t \<in> T" and "free_top (cap_table_at s t) \<noteq> 0"
  shows "cap_table_alloc_slot t LOCAL s = ((CAP_OK, Some (top_slot s t)), popped s t)"
  using assms(3) cap_invD(1) [OF assms(1,2)] table_top(1) [OF cap_invD(2) [OF assms(1,2)] assms(3)]
  by (simp add: cap_table_alloc_slot_def Let_def popped_def top_slot_def cap_slot_valid_index_def
      CONFIG_CAP_TABLE_SLOTS_def)

lemma cap_table_free_slot_popped:
  assumes "cap_inv T s" and "t \<in> T" and "free_top (cap_table_at s t) \<noteq> 0"
    and tb: "cap_table_at s2 = cap_table_at (popped s t)"
  shows "cap_table_free_slot t (top_slot s t) s2 = s2\<lparr>cap_table_at := cap_table_at s\<rparr>"
proof -
  note i = cap_invD(1,2) [OF assms(1,2)]
  note top = table_top [OF i(2) assms(3), folded top_slot_def]
  have "unat (free_top (cap_table_at s t) - 1) < 256"
    using assms(3) table_okD(4) [OF i(2)] by (simp add: unat_pred unat_gt_0 Suc_le_lessD)
  then show ?thesis
    using top(1,4) i(1) unfolding cap_table_free_slot_def tb popped_def
    by (simp add: Let_def cap_slot_valid_index_def CONFIG_CAP_TABLE_SLOTS_def)
qed

lemma cap_insert_fill_post:
  assumes inv: "cap_inv T s" and t: "t \<in> T" and ft: "free_top (cap_table_at s t) \<noteq> 0"
    and fr: "entry_frame s s2" "\<exists>pa. free_pas s - {pa} \<subseteq> free_pas s2"
    and tb: "cap_table_at s2 = cap_table_at (popped s t)"
    and en: "\<And>x. x \<noteq> e \<Longrightarrow> cap_entry_at s2 x = cap_entry_at s x"
    and e: "e \<noteq> NULL" "e \<notin> live_objs G_cap_entry_cache s"
      "live_objs G_cap_entry_cache s2 = insert e (live_objs G_cap_entry_cache s)"
  defines "g \<equiv> gens (cap_table_at s t) ! unat (top_slot s t)"
  shows "cap_insert_post T t (ty, rights, obj) s ((CAP_OK, Some (cap_handle_make g (top_slot s t))),
    s2\<lparr>cap_entry_at := (cap_entry_at s2)(e := \<lparr>ce_type = ty, ce_rights = rights, ce_obj = obj,
          ce_gen = g, ce_flags = CAP_ENTRY_FLAG_VALID\<rparr>),
       cap_table_at := (cap_table_at s2)(t := (cap_table_at s2 t)
         \<lparr>slots_of := (slots_of (cap_table_at s t))[unat (top_slot s t) := e]\<rparr>)\<rparr>)"
    (is "cap_insert_post T t ?c s ((CAP_OK, Some ?h), ?s4)")
proof -
  let ?idx = "top_slot s t" and ?tb4 = "cap_table_at ?s4 t"
  note i = cap_invD(1,2) [OF inv t]
  note top = table_top [OF i(2) ft, folded top_slot_def]
  have tb4: "cap_table_at ?s4 = (cap_table_at s)(t := ?tb4)" by (simp add: tb popped_def fun_eq_iff)
  have ok4: "table_ok ?tb4"
    using table_ok_fill [OF i(2) ft e(1)] by (simp add: tb popped_def top_slot_def)
  have sg: "slots_of ?tb4 = (slots_of (cap_table_at s t))[unat ?idx := e]" "gens ?tb4 = gens (cap_table_at s t)"
    by (simp_all add: tb popped_def)
  have fr4: "entry_frame s ?s4" using fr(1) by (simp add: entry_frame_def)
  have lv: "live_objs G_cap_entry_cache ?s4 = insert e (live_objs G_cap_entry_cache s)" using e by simp
  have en4: "\<And>x. x \<noteq> e \<Longrightarrow> cap_entry_at ?s4 x = cap_entry_at s x" using en by simp
  have ent: "ce_flags (cap_entry_at ?s4 e) = CAP_ENTRY_FLAG_VALID" "ce_gen (cap_entry_at ?s4 e) = gens ?tb4 ! unat ?idx"
    using sg(2) by (simp_all add: g_def)
  note fill = cap_inv_fill [OF inv t top(1) fr4 e(1,2) lv tb4 ok4 sg en4 ent]
  have caps4: "caps ?s4 t' h = (if t' = t \<and> h = ?h then Some ?c
      else if t' = t \<and> unat (cap_handle_index h) = unat ?idx then None else caps s t' h)" if "t' \<in> T" for t' h
    using fill(2) [OF _ that, of h] sg(2) by (simp add: g_def entry_view_def)
  have none: "caps s t h = None" if "unat (cap_handle_index h) = unat ?idx" for h
    using top(2) that by (simp add: caps_def Let_def)
  have "caps ?s4 t = (caps s t)(?h \<mapsto> ?c)" using caps4 [OF t] none by (auto simp: fun_eq_iff)
  moreover have "\<forall>t'\<in>T - {t}. caps ?s4 t' = caps s t'" using caps4 by (auto simp: fun_eq_iff)
  moreover have "?h \<noteq> CAP_HANDLE_INVALID"
    using table_okD(7) [OF i(2) top(1)] by (auto simp: CAP_HANDLE_INVALID_def cap_handle_eq_iff g_def)
  moreover have "slot_gen ?s4 t' j = slot_gen s t' j" for t' j
    using sg(2) by (cases "t' = t") (simp_all add: slot_gen_def tb popped_def)
  ultimately show ?thesis
    using fill(1) fr(2) fr4 none [of ?h] by (simp add: cap_insert_post_def tb popped_def)
qed

lemma cap_table_insert_spec:
  assumes inv: "cap_inv T s" and t: "t \<in> T" and out: "out \<noteq> NULL"
  shows "\<exists>r. cap_table_insert t ty rights obj out s = Ret r \<and> cap_insert_post T t (ty, rights, obj) s r"
proof (cases "free_top (cap_table_at s t) = 0")
  case True
  have "entry_frame s s" by (simp add: entry_frame_def)
  then show ?thesis
    using True cap_invD(1) [OF inv t] out inv
    by (auto simp: cap_table_insert_def cap_table_alloc_slot_def cap_insert_post_def)
next
  case False
  note slot = cap_table_alloc_slot_top [OF inv t False] and i = cap_invD [OF inv t]
  have "slab_ready G_cap_entry_cache (popped s t)" "s_cap_entry_cache_inited (popped s t)"
    using i by (simp_all add: popped_def)
  from cap_entry_alloc_spec [OF this] obtain e s2 where
    run: "cap_entry_alloc (popped s t) = Ret (e, s2)" and fr2: "entry_frame (popped s t) s2"
    and tb2: "cap_table_at s2 = cap_table_at (popped s t)"
    and en2: "\<And>x. x \<noteq> e \<Longrightarrow> cap_entry_at s2 x = cap_entry_at s x"
    and fp: "\<exists>pa. free_pas s - {pa} \<subseteq> free_pas s2"
    and post: "if e = NULL then free_pas s = {} \<and> live_objs G_cap_entry_cache s2 = live_objs G_cap_entry_cache s
      else e \<notin> live_objs G_cap_entry_cache s \<and>
        live_objs G_cap_entry_cache s2 = insert e (live_objs G_cap_entry_cache s)"
    unfolding popped_view by blast
  have fr: "entry_frame s s2" using fr2 by (simp add: entry_frame_def popped_def)
  show ?thesis
  proof (cases "e = NULL")
    case True
    let ?s3 = "s2\<lparr>cap_table_at := cap_table_at s\<rparr>"
    have "cap_entry_at ?s3 x = cap_entry_at s x" if "x \<in> live_objs G_cap_entry_cache s" for x
    proof -
      have "x \<noteq> NULL" using that live_objs_not_NULL by metis
      then show ?thesis using en2 True by simp
    qed
    moreover have "entry_frame s ?s3" using fr by (simp add: entry_frame_def)
    moreover have "cap_table_insert t ty rights obj out s = Ret ((CAP_ERR_NO_MEM, None), ?s3)"
      using i(1) out slot run True cap_table_free_slot_popped [OF inv t False tb2]
      by (simp add: cap_table_insert_def)
    ultimately show ?thesis
      using cap_inv_same [OF inv, of ?s3] post fp True by (simp add: cap_insert_post_def slot_gen_def)
  next
    case en: False
    then have "e \<notin> live_objs G_cap_entry_cache s"
      "live_objs G_cap_entry_cache s2 = insert e (live_objs G_cap_entry_cache s)" using post by simp_all
    note fill = cap_insert_fill_post [OF inv t False fr fp tb2 en2 en this, of ty rights obj]
    show ?thesis
      using i(1) out slot run en fill by (simp add: cap_table_insert_def Let_def tb2 popped_def)
  qed
qed

lemma cap_table_clear_slot_spec:
  assumes inv: "cap_inv T s" and t: "t \<in> T" and i: "unat idx < 256"
    and e: "slots_of (cap_table_at s t) ! unat idx = e" "e \<noteq> NULL"
  shows "\<exists>s'. cap_table_clear_slot t idx e s = Ret s' \<and> cap_inv T s' \<and> entry_frame s s' \<and>
    cap_table_at s' = (cap_table_at s)(t := table_clear (cap_table_at s t) (unat idx)) \<and>
    cap_entry_at s' = cap_entry_at s \<and>
    (\<forall>t'\<in>T. \<forall>h. caps s' t' h = (if t' = t \<and> unat (cap_handle_index h) = unat idx then None else caps s t' h))"
proof -
  let ?tb = "cap_table_at s t"
  note c = cap_invD [OF inv t]
  define s1 where "s1 = s\<lparr>cap_table_at := (cap_table_at s)(t := ?tb\<lparr>slots_of := (slots_of ?tb)[unat idx := NULL]\<rparr>)\<rparr>"
  have "slab_ready G_cap_entry_cache s1" "s_cap_entry_cache_inited s1" "e \<in> live_objs G_cap_entry_cache s1"
    using c(4,6) c(5) [OF i] e by (simp_all add: s1_def)
  from cap_entry_free_spec [OF this(1,2) e(2) this(3)] obtain s2 where
    run: "cap_entry_free e s1 = Ret s2" and fr2: "entry_frame s1 s2" and tb2: "cap_table_at s2 = cap_table_at s1"
    and en2: "cap_entry_at s2 = cap_entry_at s1"
    and lv2: "live_objs G_cap_entry_cache s2 = live_objs G_cap_entry_cache s1 - {e}" by blast
  define s' where "s' = s2\<lparr>cap_table_at := (cap_table_at s)(t := table_clear ?tb (unat idx))\<rparr>"
  have room: "unat (free_top ?tb) < 256" using table_has_room [OF c(2) i] e by simp
  have run': "cap_table_clear_slot t idx e s = Ret s'"
    using run i room c(1) by (simp add: cap_table_clear_slot_def Let_def s1_def [symmetric] cap_table_free_slot_def
        cap_slot_valid_index_def CONFIG_CAP_TABLE_SLOTS_def tb2) (simp add: s1_def s'_def table_clear_def)
  have fr: "entry_frame s s'" using fr2 by (simp add: entry_frame_def s1_def s'_def)
  have "live_objs G_cap_entry_cache s' = live_objs G_cap_entry_cache s - {e}" "cap_entry_at s' = cap_entry_at s"
    "cap_table_at s' = (cap_table_at s)(t := table_clear ?tb (unat idx))"
    using lv2 en2 by (simp_all add: s'_def s1_def)
  with cap_inv_clear [OF inv t i fr e(2,1)] run' fr show ?thesis by auto
qed

lemma slot_gen_clear:
  assumes "table_ok (cap_table_at s t)" and "j < 256"
    and "cap_table_at s' = (cap_table_at s)(t := table_clear (cap_table_at s t) j)"
  shows "slot_gen s' t' i = (if t' = t \<and> i = j then cap_bump_gen (slot_gen s t j) else slot_gen s t' i)"
  using assms table_okD(2) [OF assms(1)] by (auto simp: slot_gen_def table_clear_def nth_list_update)

lemma cap_table_remove_stale:
  assumes "cap_inv T s" and "t \<in> T" and "caps s t h = None"
  shows "cap_table_remove t h s = Ret (CAP_ERR_INVALID, s)"
  using cap_invD(1) [OF assms(1,2)] assms(3) by (simp add: cap_table_remove_def cap_lookup_ex_caps [OF assms(1,2)])

lemma cap_table_remove_live:
  assumes inv: "cap_inv T s" and t: "t \<in> T" and c: "caps s t h = Some c"
  shows "\<exists>s'. cap_table_remove t h s = Ret (CAP_OK, s') \<and> cap_inv T s' \<and> entry_frame s s' \<and>
    caps s' t = (caps s t)(h := None) \<and> (\<forall>t'\<in>T - {t}. caps s' t' = caps s t') \<and>
    cap_table_at s' = (cap_table_at s)(t := table_clear (cap_table_at s t) (unat (cap_handle_index h))) \<and>
    (\<forall>t' i. slot_gen s' t' i = (if t' = t \<and> i = unat (cap_handle_index h)
       then cap_bump_gen (slot_gen s t' i) else slot_gen s t' i))"
proof -
  let ?i = "cap_handle_index h"
  note d = caps_SomeD [OF c]
  from cap_table_clear_slot_spec [OF inv t d(1) refl d(2)] obtain s' where
    run: "cap_table_clear_slot t ?i (slots_of (cap_table_at s t) ! unat ?i) s = Ret s'"
    and s': "cap_inv T s'" "entry_frame s s'"
      "cap_table_at s' = (cap_table_at s)(t := table_clear (cap_table_at s t) (unat ?i))"
    and caps': "\<forall>t'\<in>T. \<forall>h'. caps s' t' h' = (if t' = t \<and> unat (cap_handle_index h') = unat ?i then None else caps s t' h')"
    by blast
  obtain ty r obj where "c = (ty, r, obj)" by (cases c)
  then have "cap_table_remove t h s = Ret (CAP_OK, s')"
    using cap_invD(1) [OF inv t] d(1,2) c run
    by (simp add: cap_table_remove_def cap_lookup_ex_caps [OF inv t] cap_slot_valid_index_def CONFIG_CAP_TABLE_SLOTS_def)
  moreover have "caps s t h' = None" if "unat (cap_handle_index h') = unat ?i" "h' \<noteq> h" for h'
    using that d(4) cap_handle_eq_iff [of h' h] by (auto simp: caps_def Let_def word_unat_eq_iff)
  then have "caps s' t = (caps s t)(h := None)" using caps' t by (auto simp: fun_eq_iff)
  moreover have "\<forall>t'\<in>T - {t}. caps s' t' = caps s t'" using caps' by (auto simp: fun_eq_iff)
  ultimately show ?thesis
    using s' slot_gen_clear [OF cap_invD(2) [OF inv t] d(1) s'(3)] by simp
qed

text \<open>The scan of \<open>cap_table_invalidate_object\<close> from slot \<open>i\<close> on.\<close>

definition invalidated :: "ptr \<Rightarrow> (nat \<Rightarrow> bool) \<Rightarrow> (cap_handle \<Rightarrow> cap_view option) \<Rightarrow> cap_handle \<Rightarrow> cap_view option" where
  "invalidated obj P m h =
     (case m h of None \<Rightarrow> None
      | Some (ty, r, ob) \<Rightarrow> if ob = obj \<and> P (unat (cap_handle_index h)) then None else Some (ty, r, ob))"

lemma entry_frame_refl [simp]: "entry_frame s s"
  by (simp add: entry_frame_def)

lemma entry_frame_trans: "entry_frame s t \<Longrightarrow> entry_frame t u \<Longrightarrow> entry_frame s u"
  by (auto simp: entry_frame_def)

text \<open>The slot of a handle that a step ends has moved on to its next generation.\<close>

definition gone_bumps :: "ptr \<Rightarrow> 'a cap_globals_scheme \<Rightarrow> 'a cap_globals_scheme \<Rightarrow> bool" where
  "gone_bumps t s s' \<longleftrightarrow> (\<forall>h. caps s t h \<noteq> None \<longrightarrow> caps s' t h = None \<longrightarrow>
     slot_gen s' t (unat (cap_handle_index h)) = cap_bump_gen (slot_gen s t (unat (cap_handle_index h))))"

lemma gone_bumps_grow: "(\<And>h. caps s t h \<noteq> None \<Longrightarrow> caps s' t h \<noteq> None) \<Longrightarrow> gone_bumps t s s'"
  unfolding gone_bumps_def by blast

lemma cap_invalidate_loop_spec:
  assumes "cap_inv T s" and "t \<in> T" and "i + n \<le> 256"
  shows "\<exists>s'. cap_invalidate_loop t obj i n s = Ret s' \<and> cap_inv T s' \<and> entry_frame s s' \<and>
    caps s' t = invalidated obj (\<lambda>j. i \<le> j \<and> j < i + n) (caps s t) \<and>
    (\<forall>t'. t' \<noteq> t \<longrightarrow> cap_table_at s' t' = cap_table_at s t') \<and> (\<forall>t'\<in>T - {t}. caps s' t' = caps s t') \<and>
    (\<forall>j. slot_gen s' t j = slot_gen s t j \<or> (i \<le> j \<and> slot_gen s' t j = cap_bump_gen (slot_gen s t j))) \<and> gone_bumps t s s'"
  using assms
proof (induction n arbitrary: i s)
  case 0
  then show ?case by (auto simp: invalidated_def fun_eq_iff gone_bumps_def split: option.splits)
next
  case (Suc n)
  let ?e = "slots_of (cap_table_at s t) ! i"
  have i: "i < 256" using Suc.prems(3) by simp
  have ui: "unat (of_nat i :: u32) = i" using i by (simp add: unat_of_nat)
  show ?case
  proof (cases "?e = NULL \<or> ce_obj (cap_entry_at s ?e) \<noteq> obj")
    case True
    have "cap_invalidate_loop t obj i (Suc n) s = cap_invalidate_loop t obj (Suc i) n s"
      using True by (auto simp: Let_def)
    moreover have "invalidated obj (\<lambda>j. Suc i \<le> j \<and> j < Suc i + n) (caps s t) =
        invalidated obj (\<lambda>j. i \<le> j \<and> j < i + Suc n) (caps s t)"
    proof
      fix h
      have "caps s t h \<noteq> Some (ty, r, obj)" if "unat (cap_handle_index h) = i" for ty r
        using that True by (auto simp: caps_def Let_def entry_view_def)
      then show "invalidated obj (\<lambda>j. Suc i \<le> j \<and> j < Suc i + n) (caps s t) h =
          invalidated obj (\<lambda>j. i \<le> j \<and> j < i + Suc n) (caps s t) h"
        by (cases "unat (cap_handle_index h) = i") (auto simp: invalidated_def split: option.splits)
    qed
    moreover have "Suc i + n \<le> 256" using Suc.prems(3) by simp
    from Suc.IH [OF Suc.prems(1,2) this] obtain s' where
      "cap_invalidate_loop t obj (Suc i) n s = Ret s'" "cap_inv T s'" "entry_frame s s'"
      "caps s' t = invalidated obj (\<lambda>j. Suc i \<le> j \<and> j < Suc i + n) (caps s t)"
      "\<forall>t'. t' \<noteq> t \<longrightarrow> cap_table_at s' t' = cap_table_at s t'" "\<forall>t'\<in>T - {t}. caps s' t' = caps s t'"
      "gone_bumps t s s'"
      and gn: "\<forall>j. slot_gen s' t j = slot_gen s t j \<or> (Suc i \<le> j \<and> slot_gen s' t j = cap_bump_gen (slot_gen s t j))"
      by blast
    moreover have "\<forall>j. slot_gen s' t j = slot_gen s t j \<or> (i \<le> j \<and> slot_gen s' t j = cap_bump_gen (slot_gen s t j))"
      using gn Suc_leD by blast
    ultimately show ?thesis by (simp del: cap_invalidate_loop.simps)
  next
    case False
    then have e: "?e \<noteq> NULL" and ob: "ce_obj (cap_entry_at s ?e) = obj" by auto
    have fl: "ce_flags (cap_entry_at s ?e) = CAP_ENTRY_FLAG_VALID"
      using cap_invD(5) [OF Suc.prems(1,2) i e] by simp
    have iu: "unat (of_nat i :: u32) < 256" using i ui by simp
    from cap_table_clear_slot_spec [OF Suc.prems(1,2) iu, of ?e] e ui obtain s1 where
      run: "cap_table_clear_slot t (of_nat i) ?e s = Ret s1" and inv1: "cap_inv T s1" and fr1: "entry_frame s s1"
      and tb1: "cap_table_at s1 = (cap_table_at s)(t := table_clear (cap_table_at s t) i)"
      and caps1: "\<forall>t'\<in>T. \<forall>h. caps s1 t' h = (if t' = t \<and> unat (cap_handle_index h) = i then None else caps s t' h)"
      by auto
    have "Suc i + n \<le> 256" using Suc.prems(3) by simp
    from Suc.IH [OF inv1 Suc.prems(2) this] obtain s' where
      run': "cap_invalidate_loop t obj (Suc i) n s1 = Ret s'" and s': "cap_inv T s'" "entry_frame s1 s'"
      and caps': "caps s' t = invalidated obj (\<lambda>j. Suc i \<le> j \<and> j < Suc i + n) (caps s1 t)"
      and oth: "\<forall>t'. t' \<noteq> t \<longrightarrow> cap_table_at s' t' = cap_table_at s1 t'" "\<forall>t'\<in>T - {t}. caps s' t' = caps s1 t'"
      and gn: "\<forall>j. slot_gen s' t j = slot_gen s1 t j \<or> (Suc i \<le> j \<and> slot_gen s' t j = cap_bump_gen (slot_gen s1 t j))" and go: "gone_bumps t s1 s'"
      by blast
    have "cap_invalidate_loop t obj i (Suc n) s = Ret s'"
      using e fl ob run run' by (simp add: Let_def)
    moreover have "caps s' t = invalidated obj (\<lambda>j. i \<le> j \<and> j < i + Suc n) (caps s t)"
    proof
      fix h
      have "caps s t h = None \<or> (\<exists>ty r. caps s t h = Some (ty, r, obj))" if "unat (cap_handle_index h) = i"
        using that ob by (auto simp: caps_def Let_def entry_view_def)
      then show "caps s' t h = invalidated obj (\<lambda>j. i \<le> j \<and> j < i + Suc n) (caps s t) h"
        unfolding caps' using caps1 Suc.prems(2)
        by (cases "unat (cap_handle_index h) = i") (auto simp: invalidated_def split: option.splits)
    qed
    moreover have g1: "slot_gen s1 t j = (if j = i then cap_bump_gen (slot_gen s t j) else slot_gen s t j)" for j
      using slot_gen_clear [OF cap_invD(2) [OF Suc.prems(1,2)] i tb1, of t j] by simp
    moreover have "gone_bumps t s s'"
      unfolding gone_bumps_def
    proof (intro allI impI)
      fix h assume h: "caps s t h \<noteq> None" "caps s' t h = None"
      let ?j = "unat (cap_handle_index h)"
      show "slot_gen s' t ?j = cap_bump_gen (slot_gen s t ?j)"
      proof (cases "?j = i")
        case True
        then show ?thesis using gn [rule_format, of i] g1 [of i] by simp
      next
        case False
        then have "caps s1 t h \<noteq> None" using caps1 Suc.prems(2) h(1) by simp
        then show ?thesis using go h(2) g1 [of ?j] False unfolding gone_bumps_def by simp
      qed
    qed
    moreover have "slot_gen s' t j = slot_gen s t j \<or> (i \<le> j \<and> slot_gen s' t j = cap_bump_gen (slot_gen s t j))" for j
      using gn [rule_format, of j] g1 [of j] by (auto split: if_splits)
    ultimately show ?thesis
      using s' entry_frame_trans [OF fr1] oth tb1 caps1 by (intro exI [of _ s']) (auto simp: fun_eq_iff)
  qed
qed

lemma cap_table_invalidate_object_spec:
  assumes inv: "cap_inv T s" and t: "t \<in> T" and obj: "obj \<noteq> NULL"
  shows "\<exists>s'. cap_table_invalidate_object t obj s = Ret s' \<and> cap_inv T s' \<and> entry_frame s s' \<and>
    caps s' t = invalidated obj (\<lambda>_. True) (caps s t) \<and>
    (\<forall>t'. t' \<noteq> t \<longrightarrow> cap_table_at s' t' = cap_table_at s t') \<and> (\<forall>t'\<in>T - {t}. caps s' t' = caps s t') \<and>
    (\<forall>j. slot_gen s' t j = slot_gen s t j \<or> slot_gen s' t j = cap_bump_gen (slot_gen s t j)) \<and> gone_bumps t s s'"
proof -
  have "invalidated obj (\<lambda>j. 0 \<le> j \<and> j < 0 + 256) (caps s t) = invalidated obj (\<lambda>_. True) (caps s t)"
    by (auto simp: fun_eq_iff invalidated_def caps_def Let_def split: option.splits)
  moreover from cap_invalidate_loop_spec [OF inv t, of 0 256 obj] obtain s' where
    "cap_invalidate_loop t obj 0 256 s = Ret s'" "cap_inv T s'" "entry_frame s s'"
    "caps s' t = invalidated obj (\<lambda>j. 0 \<le> j \<and> j < 0 + 256) (caps s t)"
    "\<forall>t'. t' \<noteq> t \<longrightarrow> cap_table_at s' t' = cap_table_at s t'" "\<forall>t'\<in>T - {t}. caps s' t' = caps s t'"
    "\<forall>j. slot_gen s' t j = slot_gen s t j \<or> slot_gen s' t j = cap_bump_gen (slot_gen s t j)" "gone_bumps t s s'" by auto
  ultimately show ?thesis
    using cap_invD(1) [OF inv t] obj by (auto simp: cap_table_invalidate_object_def CONFIG_CAP_TABLE_SLOTS_def)
qed

section \<open>Duplicate and transfer\<close>

lemma cap_table_lookup_entry:
  assumes "cap_inv T s" and "t \<in> T" and "caps s t h = Some (ty, r, obj)" and "cap_rights_has r need"
  shows "cap_table_lookup t h need s \<noteq> NULL"
    and "entry_view (cap_entry_at s (cap_table_lookup t h need s)) = (ty, r, obj)"
proof -
  show nn: "cap_table_lookup t h need s \<noteq> NULL"
    using cap_lookup_caps(1) [OF assms(1,2)] assms(3,4) by (simp add: cap_table_lookup_def cap_rights_has_def)
  then show "entry_view (cap_entry_at s (cap_table_lookup t h need s)) = (ty, r, obj)"
    using cap_lookup_caps(2) [OF assms(1,2)] assms(3) by (simp add: cap_table_lookup_def)
qed

lemma cap_table_lookup_denied:
  assumes "cap_inv T s" and "t \<in> T" and "\<nexists>ty r obj. caps s t h = Some (ty, r, obj) \<and> cap_rights_has r need"
  shows "cap_table_lookup t h need s = NULL"
  using cap_lookup_caps(1) [OF assms(1,2), of h need] assms(3)
  by (auto simp: cap_table_lookup_def cap_rights_has_def)

lemma cap_dup_denied:
  assumes "cap_inv T s" and "src \<in> T" and "dst \<in> T" and "out \<noteq> NULL"
    and "\<nexists>ty r obj. caps s src h = Some (ty, r, obj) \<and> cap_rights_has r CAP_R_DUP"
  shows "cap_dup src h dst m out s = Ret ((CAP_ERR_DENIED, None), s)"
  using cap_table_lookup_denied [OF assms(1,2,5)] cap_invD(1) [OF assms(1,2)] cap_invD(1) [OF assms(1,3)] assms(4)
  by (simp add: cap_dup_def)

lemma cap_dup_spec:
  assumes "cap_inv T s" and "src \<in> T" and "dst \<in> T" and "out \<noteq> NULL"
    and "caps s src h = Some (ty, r, obj)" and "cap_rights_has r CAP_R_DUP"
  shows "\<exists>q. cap_dup src h dst m out s = Ret q \<and> cap_insert_post T dst (ty, r AND m, obj) s q"
  using cap_table_insert_spec [OF assms(1,3,4), of ty "r AND m" obj] cap_table_lookup_entry [OF assms(1,2,5,6)]
    cap_invD(1) [OF assms(1,2)] cap_invD(1) [OF assms(1,3)] assms(4)
  by (simp add: cap_dup_def entry_view_def)

lemma cap_transfer_denied:
  assumes "cap_inv T s" and "src \<in> T" and "dst \<in> T" and "out \<noteq> NULL"
    and "\<nexists>ty r obj. caps s src h = Some (ty, r, obj) \<and> cap_rights_has r CAP_R_TRANSFER"
  shows "cap_transfer src h dst m out s = Ret ((CAP_ERR_DENIED, None), s)"
  using cap_table_lookup_denied [OF assms(1,2,5)] cap_invD(1) [OF assms(1,2)] cap_invD(1) [OF assms(1,3)] assms(4)
  by (simp add: cap_transfer_def)

text \<open>The capability spaces after a transfer that succeeded with the new handle \<open>h'\<close>.\<close>

definition transferred ::
    "ptr \<Rightarrow> cap_handle \<Rightarrow> ptr \<Rightarrow> cap_handle \<Rightarrow> cap_view \<Rightarrow> (ptr \<Rightarrow> cap_handle \<Rightarrow> cap_view option) \<Rightarrow>
     ptr \<Rightarrow> cap_handle \<Rightarrow> cap_view option" where
  "transferred src h dst h' c m = (let m1 = m(dst := (m dst)(h' \<mapsto> c)) in m1(src := (m1 src)(h := None)))"

lemma cap_transfer_spec:
  assumes inv: "cap_inv T s" and src: "src \<in> T" and dst: "dst \<in> T" and out: "out \<noteq> NULL"
    and c: "caps s src h = Some (ty, r, obj)" and r: "cap_rights_has r CAP_R_TRANSFER"
  shows "\<exists>st w s'. cap_transfer src h dst m out s = Ret ((st, w), s') \<and> cap_inv T s' \<and> entry_frame s s' \<and>
    (\<forall>t\<in>T. \<forall>i. slot_gen s' t i = (if w \<noteq> None \<and> t = src \<and> i = unat (cap_handle_index h)
       then cap_bump_gen (slot_gen s t i) else slot_gen s t i)) \<and>
    (case w of None \<Rightarrow> st \<noteq> CAP_OK \<and> (free_top (cap_table_at s dst) = 0 \<or> free_pas s = {}) \<and>
         (\<forall>t\<in>T. caps s' t = caps s t)
     | Some h' \<Rightarrow> st = CAP_OK \<and> h' \<noteq> CAP_HANDLE_INVALID \<and> caps s dst h' = None \<and>
         (\<forall>t\<in>T. caps s' t = transferred src h dst h' (ty, r AND m, obj) (caps s) t))"
proof -
  from cap_table_insert_spec [OF inv dst out, of ty "r AND m" obj] obtain st w s1 where
    ins: "cap_table_insert dst ty (r AND m) obj out s = Ret ((st, w), s1)"
    and post: "cap_insert_post T dst (ty, r AND m, obj) s ((st, w), s1)" by auto
  have xfer: "cap_transfer src h dst m out s =
      (if st \<noteq> CAP_OK then Ret ((st, w), s1)
       else obind (cap_table_remove src h s1) (\<lambda>(st2, s2).
                 if st2 \<noteq> CAP_OK
                 then obind (cap_table_remove dst (the w) s2) (\<lambda>(_, s3). Ret ((st2, w), s3))
                 else Ret ((CAP_OK, w), s2)))"
    using ins cap_table_lookup_entry [OF inv src c r] cap_invD(1) [OF inv src] cap_invD(1) [OF inv dst] out
    by (simp add: cap_transfer_def entry_view_def)
  show ?thesis
  proof (cases w)
    case None
    then show ?thesis using xfer post by (auto simp: cap_insert_post_def)
  next
    case (Some h')
    then have inv1: "cap_inv T s1" and fr1: "entry_frame s s1" and st: "st = CAP_OK" and h': "h' \<noteq> CAP_HANDLE_INVALID"
      and fresh: "caps s dst h' = None" and caps1: "caps s1 dst = (caps s dst)(h' \<mapsto> (ty, r AND m, obj))"
        "\<forall>t'\<in>T - {dst}. caps s1 t' = caps s t'" and gn: "\<forall>t' i. slot_gen s1 t' i = slot_gen s t' i"
      using post by (auto simp: cap_insert_post_def)
    have "h' \<noteq> h" if "dst = src" using fresh c that by auto
    then have "caps s1 src h = Some (ty, r, obj)" using caps1 c src by (cases "dst = src") auto
    from cap_table_remove_live [OF inv1 src this] obtain s2 where
      rm: "cap_table_remove src h s1 = Ret (CAP_OK, s2)" and s2: "cap_inv T s2" "entry_frame s1 s2"
        "caps s2 src = (caps s1 src)(h := None)" "\<forall>t'\<in>T - {src}. caps s2 t' = caps s1 t'"
      and gn2: "\<forall>t' i. slot_gen s2 t' i = (if t' = src \<and> i = unat (cap_handle_index h)
        then cap_bump_gen (slot_gen s1 t' i) else slot_gen s1 t' i)" by blast
    have "caps s2 t = transferred src h dst h' (ty, r AND m, obj) (caps s) t" if "t \<in> T" for t
      using that s2(3,4) caps1 by (auto simp: transferred_def Let_def)
    moreover have "cap_transfer src h dst m out s = Ret ((CAP_OK, Some h'), s2)"
      using xfer st rm Some by simp
    ultimately show ?thesis
      using s2(1) entry_frame_trans [OF fr1 s2(2)] gn gn2 h' fresh by auto
  qed
qed

section \<open>The capability space interface\<close>

text \<open>
  What the clients of a table (endpoints, the kernel API) rely on: lookup reads an abstract map and
  checks rights, insertion binds a fresh handle, removal unbinds one.
\<close>

locale cap_space =
  fixes inv :: "'s \<Rightarrow> bool"
    and view :: "'s \<Rightarrow> cap_handle \<Rightarrow> cap_view option"
    and lookup :: "cap_handle \<Rightarrow> cap_rights \<Rightarrow> 's \<Rightarrow> ptr \<times> cap_status"
    and create :: "cap_type \<Rightarrow> cap_rights \<Rightarrow> ptr \<Rightarrow> 's \<Rightarrow> ((cap_status \<times> cap_handle option) \<times> 's) outcome"
    and remove :: "cap_handle \<Rightarrow> 's \<Rightarrow> (cap_status \<times> 's) outcome"
  assumes lookup_status: "inv s \<Longrightarrow> snd (lookup h need s) =
      (case view s h of None \<Rightarrow> CAP_ERR_INVALID
       | Some (ty, r, obj) \<Rightarrow> if cap_rights_has r need then CAP_OK else CAP_ERR_DENIED)"
    and lookup_found: "inv s \<Longrightarrow> (fst (lookup h need s) \<noteq> NULL) = (snd (lookup h need s) = CAP_OK)"
    and create_spec: "inv s \<Longrightarrow> \<exists>st w s'. create ty r obj s = Ret ((st, w), s') \<and> inv s' \<and>
      (case w of None \<Rightarrow> st \<noteq> CAP_OK \<and> view s' = view s
       | Some h \<Rightarrow> st = CAP_OK \<and> h \<noteq> CAP_HANDLE_INVALID \<and> view s h = None \<and> view s' = (view s)(h \<mapsto> (ty, r, obj)))"
    and remove_spec: "inv s \<Longrightarrow> \<exists>s'.
      remove h s = Ret (if view s h = None then CAP_ERR_INVALID else CAP_OK, s') \<and> inv s' \<and>
      view s' = (view s)(h := None)"
begin

lemma create_Ret:
  assumes "inv s" and "create ty r obj s = Ret ((CAP_OK, w), s')"
  shows "\<exists>h. w = Some h \<and> inv s' \<and> h \<noteq> CAP_HANDLE_INVALID \<and> view s h = None \<and> view s' = (view s)(h \<mapsto> (ty, r, obj))"
  using create_spec [OF assms(1), of ty r obj] assms(2) by (auto split: option.splits)

lemma create_lookup:
  assumes "inv s" and "create ty r obj s = Ret ((CAP_OK, Some h), s')"
  shows "fst (lookup h need s') \<noteq> NULL \<longleftrightarrow> cap_rights_has r need"
    and "h' \<noteq> h \<Longrightarrow> snd (lookup h' need s') = snd (lookup h' need s)"
  using create_Ret [OF assms] assms(1) by (auto simp: lookup_found lookup_status)

lemma remove_lookup:
  assumes "inv s" and "remove h s = Ret (st, s')"
  shows "fst (lookup h need s') = NULL"
    and "h' \<noteq> h \<Longrightarrow> snd (lookup h' need s') = snd (lookup h' need s)"
proof -
  have i: "inv s'" and v: "view s' = (view s)(h := None)" using remove_spec [OF assms(1), of h] assms(2) by auto
  have "snd (lookup h need s') = CAP_ERR_INVALID" using i v by (simp add: lookup_status)
  then show "fst (lookup h need s') = NULL" using lookup_found [OF i, of h need] by simp
  show "h' \<noteq> h \<Longrightarrow> snd (lookup h' need s') = snd (lookup h' need s)"
    using i v assms(1) by (simp add: lookup_status)
qed

lemma create_remove:
  assumes "inv s" and "create ty r obj s = Ret ((CAP_OK, Some h), s1)"
  shows "\<exists>s2. remove h s1 = Ret (CAP_OK, s2) \<and> inv s2 \<and> view s2 = view s"
proof -
  have i: "inv s1" and n: "view s h = None" and v: "view s1 = (view s)(h \<mapsto> (ty, r, obj))"
    using create_Ret [OF assms] by auto
  have "(view s)(h := None) = view s" using n by auto
  then show ?thesis using remove_spec [OF i, of h] v by auto
qed

end

interpretation cs: cap_space "\<lambda>s. cap_inv T s \<and> t \<in> T" "\<lambda>s. caps s t" "cap_lookup_ex t"
    "\<lambda>ty r obj. cap_table_insert t ty r obj LOCAL" "cap_table_remove t"
  for T t
proof (unfold_locales, goal_cases)
  case (1 s h need)
  then show ?case
    by (auto simp: cap_lookup_ex_caps cap_rights_has_def split: option.splits)
next
  case (2 s h need)
  then show ?case
    using caps_SomeD(2) [of s t h] by (auto simp: cap_lookup_ex_caps split: option.splits if_splits)
next
  case (3 s ty r obj)
  then have inv: "cap_inv T s" and t: "t \<in> T" by auto
  from cap_table_insert_spec [OF inv t, of LOCAL ty r obj] obtain st w s' where
    "cap_table_insert t ty r obj LOCAL s = Ret ((st, w), s')" "cap_insert_post T t (ty, r, obj) s ((st, w), s')" by auto
  then show ?case using t by (auto simp: cap_insert_post_def split: option.splits)
next
  case (4 s h)
  then have inv: "cap_inv T s" and t: "t \<in> T" by auto
  show ?case
  proof (cases "caps s t h")
    case None
    then have "(caps s t)(h := None) = caps s t" by auto
    then show ?thesis using None cap_table_remove_stale [OF inv t None] inv t by simp
  next
    case (Some c)
    then show ?thesis using cap_table_remove_live [OF inv t Some] t by auto
  qed
qed

section \<open>Runs of operations\<close>

text \<open>The operations of \<open>cap_ops.c\<close> and \<open>cap_table.c\<close> as a client issues them, with their tables.\<close>

datatype cap_op =
    Op_create ptr cap_type cap_rights ptr
  | Op_dup ptr cap_handle ptr cap_rights
  | Op_transfer ptr cap_handle ptr cap_rights
  | Op_drop ptr cap_handle
  | Op_invalidate ptr cap_handle
  | Op_invalidate_object ptr ptr

fun op_tables :: "cap_op \<Rightarrow> ptr set" where
  "op_tables (Op_create t ty r obj) = {t}"
| "op_tables (Op_dup src h dst m) = {src, dst}"
| "op_tables (Op_transfer src h dst m) = {src, dst}"
| "op_tables (Op_drop t h) = {t}"
| "op_tables (Op_invalidate t h) = {t}"
| "op_tables (Op_invalidate_object t obj) = {t}"

fun cap_exec :: "cap_op \<Rightarrow> 'a cap_globals_scheme \<Rightarrow> 'a cap_globals_scheme outcome" where
  "cap_exec (Op_create t ty r obj) s = obind (cap_create t ty r obj LOCAL s) (\<lambda>(_, s'). Ret s')"
| "cap_exec (Op_dup src h dst m) s = obind (cap_dup src h dst m LOCAL s) (\<lambda>(_, s'). Ret s')"
| "cap_exec (Op_transfer src h dst m) s = obind (cap_transfer src h dst m LOCAL s) (\<lambda>(_, s'). Ret s')"
| "cap_exec (Op_drop t h) s = obind (cap_drop t h s) (\<lambda>(_, s'). Ret s')"
| "cap_exec (Op_invalidate t h) s = obind (cap_invalidate t h s) (\<lambda>(_, s'). Ret s')"
| "cap_exec (Op_invalidate_object t obj) s = cap_table_invalidate_object t obj s"

fun cap_run :: "cap_op list \<Rightarrow> 'a cap_globals_scheme \<Rightarrow> 'a cap_globals_scheme outcome" where
  "cap_run [] s = Ret s"
| "cap_run (op # ops) s = obind (cap_exec op s) (cap_run ops)"

definition rights_le :: "cap_rights \<Rightarrow> cap_rights \<Rightarrow> bool" where
  "rights_le r r' \<longleftrightarrow> r AND r' = r"

text \<open>Every capability after the step was there before, with at least the same rights, or is created.\<close>

definition derives :: "ptr set \<Rightarrow> cap_view set \<Rightarrow> 'a cap_globals_scheme \<Rightarrow> 'a cap_globals_scheme \<Rightarrow> bool" where
  "derives T C s s' \<longleftrightarrow>
     (\<forall>t\<in>T. \<forall>h ty r obj. caps s' t h = Some (ty, r, obj) \<longrightarrow>
        (ty, r, obj) \<in> C \<or> (\<exists>t0\<in>T. \<exists>h0 r0. caps s t0 h0 = Some (ty, r0, obj) \<and> rights_le r r0))"

definition gen_step :: "ptr set \<Rightarrow> 'a cap_globals_scheme \<Rightarrow> 'a cap_globals_scheme \<Rightarrow> bool" where
  "gen_step T s s' \<longleftrightarrow>
     (\<forall>t\<in>T. \<forall>i. slot_gen s' t i = slot_gen s t i \<or> slot_gen s' t i = cap_bump_gen (slot_gen s t i))"

fun op_created :: "cap_op \<Rightarrow> cap_view set" where
  "op_created (Op_create t ty r obj) = {(ty, r, obj)}"
| "op_created _ = {}"

definition cap_step :: "ptr set \<Rightarrow> cap_view set \<Rightarrow> 'a cap_globals_scheme \<Rightarrow> 'a cap_globals_scheme \<Rightarrow> bool" where
  "cap_step T C s s' \<longleftrightarrow> cap_inv T s' \<and> entry_frame s s' \<and> gen_step T s s' \<and> derives T C s s' \<and> (\<forall>t\<in>T. gone_bumps t s s')"

lemma rights_le_refl [simp]: "rights_le r r"
  by (simp add: rights_le_def)

lemma rights_le_and [simp]: "rights_le (r AND m) r"
  by (simp add: rights_le_def ac_simps)

lemma rights_le_trans: "rights_le a b \<Longrightarrow> rights_le b c \<Longrightarrow> rights_le a c"
  unfolding rights_le_def by (metis and.assoc)

lemma cap_step_refl: "cap_inv T s \<Longrightarrow> cap_step T C s s"
  unfolding cap_step_def gen_step_def derives_def gone_bumps_def using entry_frame_refl rights_le_refl by fastforce

lemma cap_step_sub:
  assumes "cap_inv T s'" and "entry_frame s s'" and "gen_step T s s'"
    and "\<And>t h c. t \<in> T \<Longrightarrow> caps s' t h = Some c \<Longrightarrow> caps s t h = Some c" and "\<And>t. t \<in> T \<Longrightarrow> gone_bumps t s s'"
  shows "cap_step T C s s'"
  unfolding cap_step_def derives_def using assms rights_le_refl by blast

lemma cap_step_insert:
  assumes post: "cap_insert_post T t (ty, r, obj) s (q, s')" and t: "t \<in> T"
    and src: "(ty, r, obj) \<in> C \<or> (\<exists>t0\<in>T. \<exists>h0 r0. caps s t0 h0 = Some (ty, r0, obj) \<and> rights_le r r0)"
  shows "cap_step T C s s'"
proof -
  have "caps s t' h = Some c \<or> c = (ty, r, obj)" if "t' \<in> T" "caps s' t' h = Some c" for t' h c
    using post that by (cases "t' = t") (auto simp: cap_insert_post_def split: prod.splits option.splits if_splits)
  then have "derives T C s s'" unfolding derives_def using src rights_le_refl by blast
  moreover have "gone_bumps t' s s'" if "t' \<in> T" for t'
    using post that by (intro gone_bumps_grow) (cases "t' = t"; auto simp: cap_insert_post_def split: prod.splits option.splits if_splits)
  ultimately show ?thesis
    using post by (auto simp: cap_insert_post_def cap_step_def gen_step_def split: prod.splits)
qed

lemma cap_step_remove:
  assumes inv: "cap_inv T s" and t: "t \<in> T"
  shows "\<exists>st s'. cap_table_remove t h s = Ret (st, s') \<and> cap_step T C s s'"
proof (cases "caps s t h")
  case None
  then show ?thesis using cap_table_remove_stale [OF inv t] cap_step_refl [OF inv] by auto
next
  case (Some c)
  from cap_table_remove_live [OF inv t Some] obtain s' where rm: "cap_table_remove t h s = Ret (CAP_OK, s')"
    and i: "cap_inv T s'" "entry_frame s s'" and c1: "caps s' t = (caps s t)(h := None)"
      "\<forall>t'\<in>T - {t}. caps s' t' = caps s t'"
    and g: "\<forall>t' i. slot_gen s' t' i = (if t' = t \<and> i = unat (cap_handle_index h)
       then cap_bump_gen (slot_gen s t' i) else slot_gen s t' i)" by blast
  have "caps s t' h' = Some c'" if "t' \<in> T" "caps s' t' h' = Some c'" for t' h' c'
    using that c1 by (cases "t' = t") (auto split: if_splits)
  moreover have "gone_bumps t' s s'" if "t' \<in> T" for t'
    using that c1 g by (cases "t' = t") (auto simp: gone_bumps_def)
  ultimately have "cap_step T C s s'" using i g by (intro cap_step_sub) (auto simp: gen_step_def)
  with rm show ?thesis by blast
qed

lemma cap_step_transfer:
  assumes inv: "cap_inv T s" and src: "src \<in> T" and dst: "dst \<in> T"
  shows "\<exists>q s'. cap_transfer src h dst m LOCAL s = Ret (q, s') \<and> cap_step T C s s'"
proof (cases "\<exists>ty r obj. caps s src h = Some (ty, r, obj) \<and> cap_rights_has r CAP_R_TRANSFER")
  case False
  then show ?thesis
    using cap_transfer_denied [OF inv src dst, of LOCAL h m] cap_step_refl [OF inv] by auto
next
  case True
  then obtain ty r obj where c: "caps s src h = Some (ty, r, obj)" and r: "cap_rights_has r CAP_R_TRANSFER" by blast
  from cap_transfer_spec [OF inv src dst _ c r, of LOCAL m] obtain st w s' where
    run: "cap_transfer src h dst m LOCAL s = Ret ((st, w), s')" and i: "cap_inv T s'" "entry_frame s s'"
    and g: "\<forall>t\<in>T. \<forall>i. slot_gen s' t i = (if w \<noteq> None \<and> t = src \<and> i = unat (cap_handle_index h)
       then cap_bump_gen (slot_gen s t i) else slot_gen s t i)"
    and post: "case w of None \<Rightarrow> st \<noteq> CAP_OK \<and> (free_top (cap_table_at s dst) = 0 \<or> free_pas s = {}) \<and>
         (\<forall>t\<in>T. caps s' t = caps s t)
     | Some h' \<Rightarrow> st = CAP_OK \<and> h' \<noteq> CAP_HANDLE_INVALID \<and> caps s dst h' = None \<and>
         (\<forall>t\<in>T. caps s' t = transferred src h dst h' (ty, r AND m, obj) (caps s) t)" by auto
  have "caps s t h' = Some c' \<or> c' = (ty, r AND m, obj)" if "t \<in> T" "caps s' t h' = Some c'" for t h' c'
    using that post by (auto simp: transferred_def Let_def split: option.splits if_splits)
  then have "derives T C s s'" unfolding derives_def using src c rights_le_refl rights_le_and by blast
  moreover have "gen_step T s s'" using g by (auto simp: gen_step_def)
  moreover have "gone_bumps t s s'" if "t \<in> T" for t
  proof -
    have "w \<noteq> None \<and> t = src \<and> h' = h" if "caps s t h' \<noteq> None" "caps s' t h' = None" for h'
      using that \<open>t \<in> T\<close> post by (cases w) (auto simp: transferred_def Let_def split: if_splits)
    then show ?thesis using g \<open>t \<in> T\<close> unfolding gone_bumps_def by fastforce
  qed
  ultimately show ?thesis using run i by (auto simp: cap_step_def)
qed

lemma cap_exec_step:
  assumes inv: "cap_inv T s" and op: "op_tables op \<subseteq> T"
  shows "\<exists>s'. cap_exec op s = Ret s' \<and> cap_step T (op_created op) s s'"
  using op
proof (cases op)
  case (Op_create t ty r obj)
  then have t: "t \<in> T" using op by simp
  from cap_table_insert_spec [OF inv t, of LOCAL ty r obj] obtain q s' where
    "cap_table_insert t ty r obj LOCAL s = Ret (q, s')" "cap_insert_post T t (ty, r, obj) s (q, s')" by auto
  then show ?thesis
    using cap_step_insert [OF _ t, of ty r obj s q s'] Op_create cap_invD(1) [OF inv t] by (auto simp: cap_create_def)
next
  case (Op_dup src h dst m)
  then have t: "src \<in> T" "dst \<in> T" using op by auto
  show ?thesis
  proof (cases "\<exists>ty r obj. caps s src h = Some (ty, r, obj) \<and> cap_rights_has r CAP_R_DUP")
    case False
    then show ?thesis
      using cap_dup_denied [OF inv t, of LOCAL h m] cap_step_refl [OF inv] Op_dup by auto
  next
    case True
    then obtain ty r obj where c: "caps s src h = Some (ty, r, obj)" and r: "cap_rights_has r CAP_R_DUP" by blast
    from cap_dup_spec [OF inv t _ c r, of LOCAL m] obtain q s' where
      run: "cap_dup src h dst m LOCAL s = Ret (q, s')" and post: "cap_insert_post T dst (ty, r AND m, obj) s (q, s')"
      by auto
    have "cap_step T {} s s'"
      using c t(1) rights_le_and by (intro cap_step_insert [OF post t(2)]) blast
    then show ?thesis using run Op_dup by auto
  qed
next
  case (Op_transfer src h dst m)
  then show ?thesis using op cap_step_transfer [OF inv, of src dst h m "{}"] by auto
next
  case (Op_drop t h)
  then show ?thesis using op cap_step_remove [OF inv, of t h "{}"] cap_invD(1) [OF inv] by (auto simp: cap_drop_def)
next
  case (Op_invalidate t h)
  then show ?thesis
    using op cap_step_remove [OF inv, of t h "{}"] cap_invD(1) [OF inv]
    by (auto simp: cap_invalidate_def cap_table_invalidate_def)
next
  case (Op_invalidate_object t obj)
  then have t: "t \<in> T" using op by simp
  show ?thesis
  proof (cases "obj = NULL")
    case True
    then show ?thesis
      using Op_invalidate_object cap_step_refl [OF inv] by (auto simp: cap_table_invalidate_object_def)
  next
    case False
    from cap_table_invalidate_object_spec [OF inv t False] obtain s' where
      run: "cap_table_invalidate_object t obj s = Ret s'" and i: "cap_inv T s'" "entry_frame s s'"
      and c: "caps s' t = invalidated obj (\<lambda>_. True) (caps s t)" "\<forall>t'\<in>T - {t}. caps s' t' = caps s t'"
      and o: "\<forall>t'. t' \<noteq> t \<longrightarrow> cap_table_at s' t' = cap_table_at s t'"
      and g: "\<forall>j. slot_gen s' t j = slot_gen s t j \<or> slot_gen s' t j = cap_bump_gen (slot_gen s t j)" and gb: "gone_bumps t s s'" by blast
    have "gone_bumps t' s s'" if "t' \<in> T" for t'
      using gb c(2) that by (cases "t' = t") (auto simp: gone_bumps_def)
    moreover have "caps s t' h = Some c'" if "t' \<in> T" "caps s' t' h = Some c'" for t' h c'
      using that c by (cases "t' = t") (auto simp: invalidated_def split: option.splits if_splits)
    moreover have "gen_step T s s'"
      using g o unfolding gen_step_def by (metis slot_gen_def)
    ultimately have "cap_step T {} s s'" using i by (intro cap_step_sub)
    then show ?thesis using run Op_invalidate_object by simp
  qed
qed

lemma cap_run_inv:
  assumes "cap_inv T s" and "\<forall>op\<in>set ops. op_tables op \<subseteq> T"
  shows "\<exists>s'. cap_run ops s = Ret s' \<and> cap_inv T s' \<and> entry_frame s s'"
  using assms
proof (induction ops arbitrary: s)
  case Nil
  then show ?case by simp
next
  case (Cons op ops)
  then obtain s1 where "cap_exec op s = Ret s1" "cap_inv T s1" "entry_frame s s1"
    using cap_exec_step [of T s op] by (auto simp: cap_step_def)
  then show ?case using Cons entry_frame_trans by fastforce
qed

text \<open>
  Along a run: every capability has at most the rights of one of the same type and object that was there at the start or
  that an operation of the run created.
\<close>

definition ops_created :: "cap_op list \<Rightarrow> cap_view set" where
  "ops_created ops = \<Union> (op_created ` set ops)"

lemma cap_run_derives:
  assumes "cap_inv T s" and "\<forall>op\<in>set ops. op_tables op \<subseteq> T" and "cap_run ops s = Ret s'" and "t \<in> T" and "caps s' t h = Some (ty, r, obj)"
  shows "\<exists>r0. rights_le r r0 \<and> ((ty, r0, obj) \<in> ops_created ops \<or> (\<exists>t0\<in>T. \<exists>h0. caps s t0 h0 = Some (ty, r0, obj)))"
  using assms
proof (induction ops arbitrary: s)
  case Nil
  then show ?case using rights_le_refl by (intro exI [of _ r]) auto
next
  case (Cons op ops)
  then obtain s1 where e: "cap_exec op s = Ret s1" and st: "cap_step T (op_created op) s s1"
    using cap_exec_step [of T s op] by auto
  then have i1: "cap_inv T s1" and d: "derives T (op_created op) s s1" by (simp_all add: cap_step_def)
  from Cons.IH [OF i1] Cons.prems e obtain r1 where r1: "rights_le r r1"
    and src: "(ty, r1, obj) \<in> ops_created ops \<or> (\<exists>t0\<in>T. \<exists>h0. caps s1 t0 h0 = Some (ty, r1, obj))" by auto
  show ?case
  proof (cases "(ty, r1, obj) \<in> ops_created ops")
    case True
    then show ?thesis using r1 by (auto simp: ops_created_def)
  next
    case False
    then obtain t1 h1 where "t1 \<in> T" "caps s1 t1 h1 = Some (ty, r1, obj)" using src by blast
    then have "(ty, r1, obj) \<in> op_created op \<or> (\<exists>t0\<in>T. \<exists>h0 r0. caps s t0 h0 = Some (ty, r0, obj) \<and> rights_le r1 r0)"
      using d unfolding derives_def by blast
    then show ?thesis using r1 rights_le_trans [OF r1] by (fastforce simp: ops_created_def)
  qed
qed

text \<open>The generations of a slot along a run: at most one bump per operation.\<close>

lemma bump_pow:
  assumes "g \<noteq> 0"
  shows "unat ((cap_bump_gen ^^ n) g) = (unat g - 1 + n) mod (2 ^ 32 - 1) + 1"
proof (induction n)
  case 0
  have "unat g - 1 < 2 ^ 32 - 1" using unat_less_two_power [of g] assms by (simp add: unat_gt_0 less_diff_conv2)
  then show ?case using assms by (simp add: unat_gt_0)
next
  case (Suc n)
  let ?w = "(cap_bump_gen ^^ n) g" and ?k = "(unat g - 1 + n) mod (2 ^ 32 - 1)"
  have k: "?k < 2 ^ 32 - 1" by simp
  show ?case
  proof (cases "?k = 2 ^ 32 - 2")
    case True
    then have "unat ?w = 2 ^ 32 - 1" using Suc by simp
    then have "unat ?w = unat (- 1 :: u32)" by (simp add: unsigned_minus_1_eq_mask mask_eq_exp_minus_1)
    then have "?w = - 1" by (simp only: word_unat_eq_iff)
    then have "unat ((cap_bump_gen ^^ Suc n) g) = 1" by (simp add: cap_bump_gen_def)
    moreover have "(unat g - 1 + Suc n) mod (2 ^ 32 - 1) = 0" using True by (simp add: mod_Suc)
    ultimately show ?thesis by simp
  next
    case False
    then have "Suc (unat ?w) < 2 ^ 32" using Suc k by simp
    then have u: "unat (?w + 1) = Suc (unat ?w)" by (intro unat_Suc_no_wrap) simp
    then have "?w + 1 \<noteq> 0" by auto
    then have "unat ((cap_bump_gen ^^ Suc n) g) = Suc (unat ?w)" by (simp add: cap_bump_gen_def u)
    moreover have "(unat g - 1 + Suc n) mod (2 ^ 32 - 1) = Suc ?k" using False k by (simp add: mod_Suc)
    ultimately show ?thesis using Suc by simp
  qed
qed

lemma bump_pow_neq:
  assumes "g \<noteq> 0" and "0 < n" and "n < 2 ^ 32 - 1"
  shows "(cap_bump_gen ^^ n) g \<noteq> g"
proof
  assume "(cap_bump_gen ^^ n) g = g"
  then have "unat g = (unat g - 1 + n) mod (2 ^ 32 - 1) + 1" using bump_pow [OF assms(1), of n] by metis
  then have eq: "(unat g - 1 + n) mod (2 ^ 32 - 1) = unat g - 1" by linarith
  have lt: "unat g - 1 < 2 ^ 32 - 1"
    using unat_less_two_power [of g] assms(1) by (simp add: unat_gt_0 less_diff_conv2)
  show False
  proof (cases "unat g - 1 + n < 2 ^ 32 - 1")
    case True
    then show False using eq assms(2) by simp
  next
    case False
    then have "(unat g - 1 + n) mod (2 ^ 32 - 1) = unat g - 1 + n - (2 ^ 32 - 1)"
      using lt assms(3) by (subst le_mod_geq) simp_all
    then show False using eq assms(3) False by simp
  qed
qed

lemma cap_run_gens:
  assumes "cap_inv T s" and "\<forall>op\<in>set ops. op_tables op \<subseteq> T" and "cap_run ops s = Ret s'" and "t \<in> T"
  shows "\<exists>n\<le>length ops. slot_gen s' t i = (cap_bump_gen ^^ n) (slot_gen s t i)"
  using assms
proof (induction ops arbitrary: s)
  case Nil
  then show ?case by (auto intro: exI [of _ 0])
next
  case (Cons op ops)
  then obtain s1 where e: "cap_exec op s = Ret s1" and st: "cap_inv T s1" "gen_step T s s1"
    using cap_exec_step [of T s op] by (auto simp: cap_step_def)
  then obtain n where n: "n \<le> length ops" "slot_gen s' t i = (cap_bump_gen ^^ n) (slot_gen s1 t i)"
    using Cons.IH [of s1] Cons.prems by auto
  consider "slot_gen s1 t i = slot_gen s t i" | "slot_gen s1 t i = cap_bump_gen (slot_gen s t i)"
    using st(2) Cons.prems(4) unfolding gen_step_def by blast
  then show ?case
  proof cases
    case 1
    then show ?thesis using n by (intro exI [of _ n]) simp
  next
    case 2
    then show ?thesis using n by (intro exI [of _ "Suc n"]) (simp add: funpow_swap1)
  qed
qed

lemma cap_run_append: "cap_run (xs @ ys) s = obind (cap_run xs s) (cap_run ys)"
proof (induction xs arbitrary: s)
  case (Cons x xs)
  then show ?case by (cases "cap_exec x s") auto
qed simp

section \<open>Initialised tables and the self test\<close>

lemma cap_table_init_spec:
  assumes inv: "cap_inv T s" and t: "t \<noteq> NULL" "t \<notin> T"
    and len: "length (slots_of (cap_table_at s t)) = CONFIG_CAP_TABLE_SLOTS"
      "length (gens (cap_table_at s t)) = CONFIG_CAP_TABLE_SLOTS"
      "length (free_stack (cap_table_at s t)) = CONFIG_CAP_TABLE_SLOTS"
  shows "cap_inv (insert t T) (cap_table_init t s)" and "caps (cap_table_init t s) t = Map.empty"
    and "t' \<noteq> t \<Longrightarrow> caps (cap_table_init t s) t' = caps s t'"
    and "free_top (cap_table_at (cap_table_init t s) t) = 256"
proof -
  let ?s = "cap_table_init t s"
  define tb where "tb = (cap_table_init_loop 0 CONFIG_CAP_TABLE_SLOTS (cap_table_at s t))
    \<lparr>free_top := of_nat CONFIG_CAP_TABLE_SLOTS\<rparr>"
  have s': "?s = s\<lparr>cap_table_at := (cap_table_at s)(t := tb)\<rparr>" using t by (simp add: cap_table_init_def tb_def)
  have ok: "table_ok tb" and nil: "slots_of tb = replicate CONFIG_CAP_TABLE_SLOTS NULL"
    using table_ok_init [OF len] by (simp_all add: tb_def)
  have sl: "slots_of tb ! i = NULL" if "i < 256" for i using that by (simp add: nil CONFIG_CAP_TABLE_SLOTS_def)
  have "entries_ok (insert t T) ?s"
    unfolding entries_ok_def
  proof (intro ballI allI impI)
    fix u i assume "u \<in> insert t T" "i < 256" "slots_of (cap_table_at ?s u) ! i \<noteq> NULL"
    moreover from this have "u \<noteq> t" using sl by (auto simp: s')
    ultimately show "slots_of (cap_table_at ?s u) ! i \<in> live_objs G_cap_entry_cache ?s \<and>
        ce_flags (cap_entry_at ?s (slots_of (cap_table_at ?s u) ! i)) = CAP_ENTRY_FLAG_VALID \<and>
        ce_gen (cap_entry_at ?s (slots_of (cap_table_at ?s u) ! i)) = gens (cap_table_at ?s u) ! i"
      using cap_invD(5) [OF inv, of u i] by (auto simp: s')
  qed
  moreover have "unshared (insert t T) ?s"
    unfolding unshared_def
  proof (intro ballI allI impI)
    fix u v i j assume a: "u \<in> insert t T" "v \<in> insert t T" "i < 256" "j < 256"
      "slots_of (cap_table_at ?s u) ! i \<noteq> NULL" "slots_of (cap_table_at ?s u) ! i = slots_of (cap_table_at ?s v) ! j"
    then have "u \<noteq> t" "v \<noteq> t" using sl by (auto simp: s')
    with a inv show "u = v \<and> i = j" unfolding cap_inv_def unshared_def by (simp add: s')
  qed
  ultimately show "cap_inv (insert t T) ?s"
    using inv ok t by (simp add: cap_inv_def) (simp add: s')
  show "caps ?s t = Map.empty" using sl by (auto simp: fun_eq_iff caps_def Let_def s')
  show "t' \<noteq> t \<Longrightarrow> caps ?s t' = caps s t'" by (auto simp: fun_eq_iff caps_def Let_def s')
  show "free_top (cap_table_at ?s t) = 256" by (simp add: s' tb_def CONFIG_CAP_TABLE_SLOTS_def)
qed

lemma cap_create_ok:
  assumes inv: "cap_inv T s" and t: "t \<in> T" and ft: "free_top (cap_table_at s t) \<noteq> 0" and fp: "free_pas s \<noteq> {}"
  shows "\<exists>h s'. cap_table_insert t ty r obj LOCAL s = Ret ((CAP_OK, Some h), s') \<and> cap_inv T s' \<and>
    caps s' t = (caps s t)(h \<mapsto> (ty, r, obj)) \<and> caps s t h = None \<and>
    free_top (cap_table_at s' t) = free_top (cap_table_at s t) - 1 \<and> (\<exists>pa. free_pas s - {pa} \<subseteq> free_pas s') \<and>
    (\<forall>t'\<in>T - {t}. caps s' t' = caps s t' \<and> cap_table_at s' t' = cap_table_at s t')"
proof -
  from cap_table_insert_spec [OF inv t, of LOCAL ty r obj] obtain st w s' where
    "cap_table_insert t ty r obj LOCAL s = Ret ((st, w), s')" "cap_insert_post T t (ty, r, obj) s ((st, w), s')" by auto
  then show ?thesis using ft fp by (cases w) (auto simp: cap_insert_post_def)
qed

lemma slab_free_pas: "slab_free c p s = Ret s' \<Longrightarrow> free_pas s' = free_pas s"
  by (rule same_pmm_pages(3))
     (auto simp: slab_free_def Let_def obind_Ret_iff same_pmm_def split: option.splits if_splits)

lemma cap_table_free_slot_pas: "free_pas (cap_table_free_slot t i s) = free_pas s"
  by (auto simp: cap_table_free_slot_def Let_def)

lemma cap_table_remove_pas: "cap_table_remove t h s = Ret (st, s') \<Longrightarrow> free_pas s' = free_pas s"
  by (auto simp: cap_table_remove_def cap_table_clear_slot_def cap_entry_free_def obind_Ret_iff Let_def
      cap_table_free_slot_pas split: if_splits prod.splits dest: slab_free_pas)

lemma cap_remove_ok:
  assumes inv: "cap_inv T s" and t: "t \<in> T" and c: "caps s t h = Some c"
  shows "\<exists>s'. cap_table_remove t h s = Ret (CAP_OK, s') \<and> cap_inv T s' \<and> caps s' t = (caps s t)(h := None) \<and>
    free_top (cap_table_at s' t) = free_top (cap_table_at s t) + 1 \<and> free_pas s' = free_pas s"
  using cap_table_remove_live [OF assms] cap_table_remove_pas by (fastforce simp: table_clear_def)

lemma expect_True [simp]: "expect True msg k = k"
  by (simp add: expect_def)

lemma rights_rdt:
  "cap_rights_has (CAP_R_READ OR CAP_R_DUP OR CAP_R_TRANSFER) CAP_R_READ"
  "cap_rights_has (CAP_R_READ OR CAP_R_DUP OR CAP_R_TRANSFER) CAP_R_DUP"
  "cap_rights_has (CAP_R_READ OR CAP_R_DUP OR CAP_R_TRANSFER) CAP_R_TRANSFER"
  by (simp_all add: cap_rights_has_def CAP_R_READ_def CAP_R_DUP_def CAP_R_TRANSFER_def)

lemma card_free_pas_drop:
  assumes "free_pas s - {pa} \<subseteq> free_pas s'" and "Suc n \<le> card (free_pas s)"
  shows "n \<le> card (free_pas s')"
proof -
  have fin: "finite (free_pas s')" by (simp add: free_pas_def split: option.splits)
  have "card (free_pas s) - 1 \<le> card (free_pas s - {pa})" by (simp add: card_Diff_singleton_if)
  also have "\<dots> \<le> card (free_pas s')" by (rule card_mono [OF fin assms(1)])
  finally show ?thesis using assms(2) by simp
qed

text \<open>The part of the self test after the stale handle check: duplicate, transfer, clean up.\<close>

lemma cap_dup_xfer_ok:
  assumes inv: "cap_inv T s" and t: "t \<in> T" and c: "caps s t h = Some (ty, CAP_R_READ OR CAP_R_DUP OR CAP_R_TRANSFER, obj)"
    and ft: "2 \<le> unat (free_top (cap_table_at s t))" and fp: "2 \<le> card (free_pas s)"
  shows "\<exists>h1 h2 s1 s2. cap_dup t h t CAP_R_READ LOCAL s = Ret ((CAP_OK, Some h1), s1) \<and>
    cap_transfer t h t CAP_R_READ LOCAL s1 = Ret ((CAP_OK, Some h2), s2) \<and> cap_inv T s2"
proof -
  from cap_dup_spec [OF inv t t _ c rights_rdt(2), of LOCAL CAP_R_READ] obtain st w s1 where
    dup: "cap_dup t h t CAP_R_READ LOCAL s = Ret ((st, w), s1)"
    and post: "cap_insert_post T t (ty, (CAP_R_READ OR CAP_R_DUP OR CAP_R_TRANSFER) AND CAP_R_READ, obj) s ((st, w), s1)"
    by auto
  have "free_top (cap_table_at s t) \<noteq> 0" "free_pas s \<noteq> {}" using ft fp by auto
  then obtain h1 where w: "w = Some h1" "st = CAP_OK" and inv1: "cap_inv T s1" and new: "caps s t h1 = None"
    and c1: "caps s1 t = (caps s t)(h1 \<mapsto> (ty, (CAP_R_READ OR CAP_R_DUP OR CAP_R_TRANSFER) AND CAP_R_READ, obj))"
    and ft1: "free_top (cap_table_at s1 t) = free_top (cap_table_at s t) - 1"
    and fp1: "\<exists>pa. free_pas s - {pa} \<subseteq> free_pas s1"
    using post by (cases w) (auto simp: cap_insert_post_def)
  have "h1 \<noteq> h" using new c by auto
  then have ch: "caps s1 t h = Some (ty, CAP_R_READ OR CAP_R_DUP OR CAP_R_TRANSFER, obj)" using c1 c by simp
  have "unat (free_top (cap_table_at s1 t)) = unat (free_top (cap_table_at s t)) - 1"
    unfolding ft1 by (rule unat_pred) (use ft in auto)
  then have "free_top (cap_table_at s1 t) \<noteq> 0" using ft by auto
  moreover have "1 \<le> card (free_pas s1)" using fp1 card_free_pas_drop [of s _ s1 1] fp by auto
  then have "free_pas s1 \<noteq> {}" by auto
  ultimately obtain h2 s2 where "cap_transfer t h t CAP_R_READ LOCAL s1 = Ret ((CAP_OK, Some h2), s2)" "cap_inv T s2"
    using cap_transfer_spec [OF inv1 t t _ ch rights_rdt(3), of LOCAL CAP_R_READ] by (auto split: option.splits)
  with dup w show ?thesis by blast
qed

lemma cap_ops_selftest_runs:
  assumes inv: "cap_inv T s" and t: "t \<in> T"
    and ft: "3 \<le> unat (free_top (cap_table_at s t))" and fp: "4 \<le> card (free_pas s)"
  shows "\<exists>s'. cap_ops_selftest t s = Ret s' \<and> cap_inv T s'"
proof -
  let ?r = "CAP_R_READ OR CAP_R_DUP OR CAP_R_TRANSFER"
  have tn: "t \<noteq> NULL" by (rule cap_invD(1) [OF inv t])
  have "free_top (cap_table_at s t) \<noteq> 0" "free_pas s \<noteq> {}" using ft fp by auto
  from cap_create_ok [OF inv t this, of CAP_TYPE_ENDPOINT ?r "0x1234"] obtain h s1 pa where
    a1: "cap_table_insert t CAP_TYPE_ENDPOINT ?r 0x1234 LOCAL s = Ret ((CAP_OK, Some h), s1)" and i1: "cap_inv T s1"
    and c1: "caps s1 t h = Some (CAP_TYPE_ENDPOINT, ?r, 0x1234)"
    and f1: "free_top (cap_table_at s1 t) = free_top (cap_table_at s t) - 1" "free_pas s - {pa} \<subseteq> free_pas s1"
    by auto
  note lk = cap_table_lookup_entry [OF i1 t c1 rights_rdt(1)]
  from cap_remove_ok [OF i1 t c1] obtain s2 where
    a2: "cap_table_remove t h s1 = Ret (CAP_OK, s2)" and i2: "cap_inv T s2" and c2: "caps s2 t h = None"
    and f2: "free_top (cap_table_at s2 t) = free_top (cap_table_at s t)" "free_pas s2 = free_pas s1"
    using f1 by auto
  have stale: "cap_table_lookup t h CAP_R_READ s2 = NULL" by (rule cap_table_lookup_denied [OF i2 t]) (simp add: c2)
  have p2: "3 \<le> card (free_pas s2)" using card_free_pas_drop [OF f1(2), of 3] fp f2 by simp
  then have "free_top (cap_table_at s2 t) \<noteq> 0" "free_pas s2 \<noteq> {}" using ft f2 by auto
  from cap_create_ok [OF i2 t this, of CAP_TYPE_VMO ?r "0xBEEF"] obtain h1 s3 pb where
    a3: "cap_table_insert t CAP_TYPE_VMO ?r 0xBEEF LOCAL s2 = Ret ((CAP_OK, Some h1), s3)" and i3: "cap_inv T s3"
    and c3: "caps s3 t h1 = Some (CAP_TYPE_VMO, ?r, 0xBEEF)"
    and f3: "free_top (cap_table_at s3 t) = free_top (cap_table_at s t) - 1" "free_pas s2 - {pb} \<subseteq> free_pas s3"
    using f2 by auto
  have "unat (free_top (cap_table_at s3 t)) = unat (free_top (cap_table_at s t)) - 1"
    unfolding f3 by (rule unat_pred) (use ft in auto)
  then have "2 \<le> unat (free_top (cap_table_at s3 t))" "2 \<le> card (free_pas s3)"
    using ft card_free_pas_drop [OF f3(2), of 2] p2 by auto
  from cap_dup_xfer_ok [OF i3 t c3 this] obtain hd hx s4 s5 where
    a4: "cap_dup t h1 t CAP_R_READ LOCAL s3 = Ret ((CAP_OK, Some hd), s4)"
    and a5: "cap_transfer t h1 t CAP_R_READ LOCAL s4 = Ret ((CAP_OK, Some hx), s5)" and i5: "cap_inv T s5" by blast
  obtain st6 s6 where a6: "cap_table_remove t hd s5 = Ret (st6, s6)" and i6: "cap_inv T s6"
    using cap_step_remove [OF i5 t, of hd "{}"] by (auto simp: cap_step_def)
  obtain st7 s7 where a7: "cap_table_remove t hx s6 = Ret (st7, s7)" and i7: "cap_inv T s7"
    using cap_step_remove [OF i6 t, of hx "{}"] by (auto simp: cap_step_def)
  have "cap_ops_selftest t s = Ret s7"
    using tn lk stale by (simp add: cap_ops_selftest_def cap_create_def cap_drop_def a1 a2 a3 a4 a5 a6 a7 Let_def entry_view_def)
  with i7 show ?thesis by blast
qed

section \<open>Properties\<close>

text \<open>Two initialised tables on the example allocator.\<close>

definition example_table :: cap_table where
  "example_table = \<lparr>slots_of = replicate 256 NULL, gens = replicate 256 0, free_stack = replicate 256 0, free_top = 0\<rparr>"

definition example_cap0 :: cap_globals where
  "example_cap0 = slab_globals.extend example_slab
     \<lparr>s_cap_entry_cache_inited = True, cap_entry_at = (\<lambda>_. cap_entry_zero), cap_table_at = (\<lambda>_. example_table)\<rparr>"

definition example_cap :: cap_globals where
  "example_cap = cap_table_init 0x2000 (cap_table_init 0x1000 example_cap0)"

lemma example_cap0_simps:
  "like_example example_cap0" "s_cap_entry_cache_inited example_cap0" "cap_table_at example_cap0 t = example_table"
  using like_example_slab
  by (simp_all add: like_example_def example_cap0_def example_slab_def example_pmm_def pmm_globals.defs slab_globals.defs)

lemma cap_inv_none: "like_example s \<Longrightarrow> s_cap_entry_cache_inited s \<Longrightarrow> cap_inv {} s"
  by (simp add: cap_inv_def like_example_ready entries_ok_def unshared_def)

text \<open>Initialising two tables of a state that looks like the example's.\<close>

lemma example_tables:
  assumes "like_example s" and "s_cap_entry_cache_inited s" and "\<And>t. cap_table_at s t = example_table"
  defines "s2 \<equiv> cap_table_init 0x2000 (cap_table_init 0x1000 s)"
  shows "cap_inv {0x1000, 0x2000} s2" and "caps s2 0x1000 = Map.empty" and "caps s2 0x2000 = Map.empty"
    and "free_top (cap_table_at s2 0x1000) = 256" and "free_top (cap_table_at s2 0x2000) = 256"
    and "free_pas s2 = {0x40004000, 0x40005000, 0x40006000, 0x40007000}"
proof -
  let ?s1 = "cap_table_init 0x1000 s"
  have len: "length (slots_of example_table) = CONFIG_CAP_TABLE_SLOTS" "length (gens example_table) = CONFIG_CAP_TABLE_SLOTS"
    "length (free_stack example_table) = CONFIG_CAP_TABLE_SLOTS"
    by (simp_all add: example_table_def CONFIG_CAP_TABLE_SLOTS_def)
  have tb: "cap_table_at (cap_table_init t u) t' = cap_table_at u t'" if "t' \<noteq> t" for t t' and u :: "'a cap_globals_scheme"
    using that by (simp add: cap_table_init_def)
  note one = cap_table_init_spec [OF cap_inv_none [OF assms(1,2)], of "0x1000"]
  have i1: "cap_inv {0x1000} ?s1" "caps ?s1 0x1000 = Map.empty" "free_top (cap_table_at ?s1 0x1000) = 256"
    using one by (simp_all add: assms(3) len)
  have l2: "cap_table_at ?s1 0x2000 = example_table" using tb [of "0x2000" "0x1000" s] assms(3) by simp
  note two = cap_table_init_spec [OF i1(1), of "0x2000", folded s2_def, unfolded l2]
  show "cap_inv {0x1000, 0x2000} s2" using two(1) len by (simp add: insert_commute)
  show "caps s2 0x1000 = Map.empty" "caps s2 0x2000 = Map.empty" "free_top (cap_table_at s2 0x2000) = 256"
    using two(2,4) two(3) [of "0x1000"] len i1 by simp_all
  show "free_top (cap_table_at s2 0x1000) = 256" using tb [of "0x1000" "0x2000" ?s1] i1 by (simp add: s2_def)
  show "free_pas s2 = {0x40004000, 0x40005000, 0x40006000, 0x40007000}"
    using like_example_ready(3) [OF assms(1)] by (simp add: s2_def cap_table_init_def)
qed

lemmas example_cap_facts = example_tables [OF example_cap0_simps, folded example_cap_def]

lemma example_cap_created:
  "\<exists>h s'. cap_table_insert 0x1000 ty r obj LOCAL example_cap = Ret ((CAP_OK, Some h), s') \<and> cap_inv {0x1000, 0x2000} s' \<and>
     caps s' 0x1000 = [h \<mapsto> (ty, r, obj)]"
  using cap_create_ok [OF example_cap_facts(1), of "0x1000" ty r obj] by (auto simp: example_cap_facts)

text \<open>
  C3: whatever sequence of create, duplicate, transfer, drop and invalidate operations is applied to a
  set of well-formed tables, every operation returns (no panic, no endless loop) and the tables stay
  well formed: free stack and occupied slots partition the table, no generation is zero, every slot
  points to a live entry of the same generation, and no entry is shared between slots or tables.
\<close>

theorem cap_ops_preserve_inv:
  assumes "cap_inv T s" and "\<forall>op\<in>set ops. op_tables op \<subseteq> T"
  shows "\<exists>s'. cap_run ops s = Ret s' \<and> cap_inv T s'"
  using cap_run_inv [OF assms] by blast

theorem cap_ops_preserve_inv_witness:
  "\<exists>s'. cap_run [Op_create 0x1000 CAP_TYPE_VMO CAP_R_DUP 0x77, Op_drop 0x2000 5] example_cap = Ret s' \<and>
     cap_inv {0x1000, 0x2000} s'"
  by (rule cap_ops_preserve_inv [OF example_cap_facts(1)]) simp

text \<open>
  C33: a handle returned by \<open>cap_table_insert\<close> is not the invalid handle, was not valid before, and
  looking it up succeeds exactly for the rights that were granted; every other handle keeps its meaning.
\<close>

theorem cap_insert_lookup:
  assumes "cap_inv T s" and "t \<in> T" and "cap_table_insert t ty r obj LOCAL s = Ret ((CAP_OK, w), s')"
  shows "\<exists>h. w = Some h \<and> h \<noteq> CAP_HANDLE_INVALID \<and> caps s t h = None \<and>
    (\<forall>need. cap_lookup t h need s' \<noteq> NULL \<longleftrightarrow> cap_rights_has r need) \<and>
    (\<forall>need. cap_lookup t h need s' \<noteq> NULL \<longrightarrow>
       entry_view (cap_entry_at s' (cap_lookup t h need s')) = (ty, r, obj)) \<and>
    (\<forall>h' need. h' \<noteq> h \<longrightarrow> snd (cap_lookup_ex t h' need s') = snd (cap_lookup_ex t h' need s))"
proof -
  have i: "cap_inv T s \<and> t \<in> T" using assms by simp
  from cs.create_Ret [OF i assms(3)] obtain h where w: "w = Some h" and i': "cap_inv T s' \<and> t \<in> T"
    and h: "h \<noteq> CAP_HANDLE_INVALID" "caps s t h = None" "caps s' t = (caps s t)(h \<mapsto> (ty, r, obj))" by blast
  note lk = cs.create_lookup [OF i assms(3) [unfolded w]]
  have "entry_view (cap_entry_at s' (cap_lookup t h need s')) = (ty, r, obj)" if "cap_lookup t h need s' \<noteq> NULL" for need
    using cap_lookup_caps(2) [of T s' t h need] i' that h(3) by simp
  then show ?thesis using w h(1,2) lk by (simp add: cap_lookup_def)
qed

theorem cap_insert_lookup_witness:
  "\<exists>h s'. cap_table_insert 0x1000 CAP_TYPE_ENDPOINT CAP_R_SEND 0x77 LOCAL example_cap = Ret ((CAP_OK, Some h), s') \<and>
     cap_lookup 0x1000 h CAP_R_SEND s' \<noteq> NULL \<and> cap_lookup 0x1000 h CAP_R_RECV s' = NULL"
proof -
  obtain h s' where r: "cap_table_insert 0x1000 CAP_TYPE_ENDPOINT CAP_R_SEND 0x77 LOCAL example_cap = Ret ((CAP_OK, Some h), s')"
    using example_cap_created by blast
  have "cap_rights_has CAP_R_SEND CAP_R_SEND" "\<not> cap_rights_has CAP_R_SEND CAP_R_RECV"
    by (simp_all add: cap_rights_has_def CAP_R_SEND_def CAP_R_RECV_def)
  with cap_insert_lookup [OF example_cap_facts(1) _ r] r show ?thesis by auto
qed

text \<open>
  C28: once a step on the tables ends the validity of a handle, be it a drop, an invalidation, the transfer of its capability
  or the invalidation of its object, the handle is rejected for every right, and stays rejected through any further
  sequence of fewer than \<open>2^32 - 2\<close> operations, even though its slot may be reused: the generation counter, which
  skips zero, cannot come back to the old value in that many steps.
\<close>

theorem cap_stale_handle_rejected:
  assumes "cap_inv T s" and "t \<in> T" and "caps s t h \<noteq> None" and "op_tables op \<subseteq> T" and "cap_exec op s = Ret s1" and "caps s1 t h = None"
    and "\<forall>op\<in>set ops. op_tables op \<subseteq> T" and "cap_run ops s1 = Ret s2" and "length ops < 2 ^ 32 - 2"
  shows "cap_lookup t h need s2 = NULL"
proof -
  let ?i = "unat (cap_handle_index h)"
  obtain c where c: "caps s t h = Some c" using assms(3) by blast
  have st: "cap_step T (op_created op) s s1" using cap_exec_step [OF assms(1,4)] assms(5) by auto
  then have i1: "cap_inv T s1" and g1: "slot_gen s1 t ?i = cap_bump_gen (slot_gen s t ?i)"
    using assms(2,3,6) unfolding cap_step_def gone_bumps_def by blast+
  from cap_run_gens [OF i1 assms(7,8,2), of ?i] obtain n where n: "n \<le> length ops"
    and g2: "slot_gen s2 t ?i = (cap_bump_gen ^^ n) (slot_gen s1 t ?i)" by blast
  have "slot_gen s2 t ?i = (cap_bump_gen ^^ Suc n) (slot_gen s t ?i)" using g1 g2 by (simp add: funpow_swap1)
  moreover have "slot_gen s t ?i \<noteq> 0"
    using table_okD(7) [OF cap_invD(2) [OF assms(1,2)]] caps_SomeD(1) [OF c] by (simp add: slot_gen_def)
  ultimately have "slot_gen s2 t ?i \<noteq> cap_handle_gen h"
    using bump_pow_neq [of "slot_gen s t ?i" "Suc n"] n assms(9) caps_SomeD(4) [OF c] by (simp add: slot_gen_def)
  then have "caps s2 t h = None" by (auto simp: caps_def Let_def slot_gen_def)
  moreover have "cap_inv T s2" using cap_run_inv [OF i1 assms(7)] assms(8) by auto
  ultimately show ?thesis using cap_lookup_caps(1) [OF _ assms(2), of s2 h need] by simp
qed

text \<open>The handle of an invalidated object, after its slot was given to another capability.\<close>

theorem cap_stale_handle_rejected_witness:
  "\<exists>h s0 s1 s2. cap_table_invalidate_object 0x1000 0x77 s0 = Ret s1 \<and>
     cap_run [Op_create 0x1000 CAP_TYPE_VMO CAP_R_READ 0x88] s1 = Ret (s2 :: cap_globals) \<and>
     cap_lookup 0x1000 h CAP_R_READ s0 \<noteq> NULL \<and> cap_lookup 0x1000 h CAP_R_READ s2 = NULL"
proof -
  let ?T = "{0x1000, 0x2000} :: ptr set" and ?ops = "[Op_create 0x1000 CAP_TYPE_VMO CAP_R_READ 0x88]" and ?op = "Op_invalidate_object 0x1000 0x77"
  obtain h and s0 :: cap_globals where i0: "cap_inv ?T s0" and c0: "caps s0 0x1000 h = Some (CAP_TYPE_TASK, CAP_R_READ, 0x77)"
    using example_cap_created [of CAP_TYPE_TASK CAP_R_READ "0x77"] by auto
  from cap_table_invalidate_object_spec [OF i0, of "0x1000" "0x77"] obtain s1 where d: "cap_table_invalidate_object 0x1000 0x77 s0 = Ret s1"
    and i1: "cap_inv ?T s1" and c1: "caps s1 0x1000 = invalidated 0x77 (\<lambda>_. True) (caps s0 0x1000)" by auto
  obtain s2 where r: "cap_run ?ops s1 = Ret s2" using cap_run_inv [OF i1, of ?ops] by auto
  have "cap_lookup 0x1000 h CAP_R_READ s0 \<noteq> NULL" using cap_lookup_caps(1) [OF i0] c0 by simp
  moreover have "cap_lookup 0x1000 h CAP_R_READ s2 = NULL"
    using c0 c1 d by (intro cap_stale_handle_rejected [OF i0 _ _ _ _ _ _ r, of "0x1000" h ?op]) (simp_all add: invalidated_def)
  ultimately show ?thesis using d r by blast
qed

text \<open>
  C29: no privilege escalation. However capabilities are created, duplicated, transferred, dropped and invalidated among a
  set of tables, every capability found afterwards has at most the rights of one with the same type and object that was
  in these tables before or that an operation of the run created.
\<close>

theorem cap_rights_confined:
  assumes "cap_inv T s" and "\<forall>op\<in>set ops. op_tables op \<subseteq> T" and "cap_run ops s = Ret s'"
    and "t \<in> T" and "caps s' t h = Some (ty, r, obj)"
  shows "\<exists>r0. rights_le r r0 \<and> ((ty, r0, obj) \<in> ops_created ops \<or> (\<exists>t0\<in>T. \<exists>h0. caps s t0 h0 = Some (ty, r0, obj)))"
  by (rule cap_run_derives [OF assms])

theorem cap_rights_confined_witness:
  "\<exists>(s :: cap_globals) h s' h' r'. cap_run [Op_transfer 0x1000 h 0x2000 CAP_R_READ] s = Ret s' \<and>
     caps s' 0x2000 h' = Some (CAP_TYPE_VMO, r', 0x77) \<and> rights_le r' (CAP_R_READ OR CAP_R_TRANSFER)"
proof -
  let ?T = "{0x1000, 0x2000} :: ptr set" and ?r = "CAP_R_READ OR CAP_R_TRANSFER"
  from cap_create_ok [OF example_cap_facts(1), of "0x1000" CAP_TYPE_VMO ?r "0x77"]
  obtain h and s0 :: cap_globals and pa where
    i0: "cap_inv ?T s0" and c0: "caps s0 0x1000 = [h \<mapsto> (CAP_TYPE_VMO, ?r, 0x77)]" "caps s0 0x2000 = Map.empty"
    and p0: "{0x40004000, 0x40005000, 0x40006000, 0x40007000} - {pa} \<subseteq> free_pas s0"
    and f0: "free_top (cap_table_at s0 0x2000) = 256" by (auto simp: example_cap_facts)
  have ch: "caps s0 0x1000 h = Some (CAP_TYPE_VMO, ?r, 0x77)" and rt: "cap_rights_has ?r CAP_R_TRANSFER"
    using c0 by (simp_all add: cap_rights_has_def CAP_R_READ_def CAP_R_TRANSFER_def)
  have "free_pas s0 \<noteq> {}" using p0 by auto
  with cap_transfer_spec [OF i0 _ _ _ ch rt, of "0x2000" LOCAL CAP_R_READ] f0 obtain h' s' where
    x: "cap_transfer 0x1000 h 0x2000 CAP_R_READ LOCAL s0 = Ret ((CAP_OK, Some h'), s')"
    and c': "caps s' 0x2000 h' = Some (CAP_TYPE_VMO, ?r AND CAP_R_READ, 0x77)"
    by (auto simp: transferred_def split: option.splits)
  have run: "cap_run [Op_transfer 0x1000 h 0x2000 CAP_R_READ] s0 = Ret s'" using x by simp
  from cap_rights_confined [OF i0 _ run _ c'] obtain t0 h0 r0 where "t0 \<in> ?T"
    "caps s0 t0 h0 = Some (CAP_TYPE_VMO, r0, 0x77)" "rights_le (?r AND CAP_R_READ) r0" by (auto simp: ops_created_def)
  then have "rights_le (?r AND CAP_R_READ) ?r" using c0 by (auto split: if_splits)
  with run c' show ?thesis by blast
qed

text \<open>
  a transfer moves a capability: the destination gains a fresh handle for the same object and type with the rights that
  the source has and the mask allows, the source handle is gone, and nothing else changes, also when source and
  destination are the same table. It fails, and then leaves every capability space as it was, only when the source
  handle is not valid with the transfer right, or when the destination has no free slot or no page frame is free.
\<close>

theorem cap_transfer_moves:
  assumes "cap_inv T s" and "src \<in> T" and "dst \<in> T" and "out \<noteq> NULL"
  shows "\<exists>st w s'. cap_transfer src h dst m out s = Ret ((st, w), s') \<and> cap_inv T s' \<and>
    (case w of
       None \<Rightarrow> st \<noteq> CAP_OK \<and> (\<forall>t\<in>T. caps s' t = caps s t) \<and>
         ((\<nexists>ty r obj. caps s src h = Some (ty, r, obj) \<and> cap_rights_has r CAP_R_TRANSFER) \<or> free_top (cap_table_at s dst) = 0 \<or> free_pas s = {})
     | Some h' \<Rightarrow> st = CAP_OK \<and> caps s dst h' = None \<and>
         (\<exists>ty r obj. caps s src h = Some (ty, r, obj) \<and> cap_rights_has r CAP_R_TRANSFER \<and>
            (\<forall>t\<in>T. caps s' t = transferred src h dst h' (ty, r AND m, obj) (caps s) t)))"
proof (cases "\<exists>ty r obj. caps s src h = Some (ty, r, obj) \<and> cap_rights_has r CAP_R_TRANSFER")
  case False
  then show ?thesis using cap_transfer_denied [OF assms, of h m] assms(1) by auto
next
  case True
  then obtain ty r obj where c: "caps s src h = Some (ty, r, obj)" "cap_rights_has r CAP_R_TRANSFER" by blast
  from cap_transfer_spec [OF assms c, of m] obtain st w s' where
    x: "cap_transfer src h dst m out s = Ret ((st, w), s')" and i: "cap_inv T s'"
    and post: "case w of None \<Rightarrow> st \<noteq> CAP_OK \<and> (free_top (cap_table_at s dst) = 0 \<or> free_pas s = {}) \<and>
         (\<forall>t\<in>T. caps s' t = caps s t)
     | Some h' \<Rightarrow> st = CAP_OK \<and> h' \<noteq> CAP_HANDLE_INVALID \<and> caps s dst h' = None \<and>
         (\<forall>t\<in>T. caps s' t = transferred src h dst h' (ty, r AND m, obj) (caps s) t)" by blast
  show ?thesis using x i post c by (cases w) fastforce+
qed

theorem cap_transfer_moves_witness:
  "\<exists>(s :: cap_globals) h h' s'. cap_transfer 0x1000 h 0x2000 CAP_R_READ LOCAL s = Ret ((CAP_OK, Some h'), s') \<and>
     caps s 0x1000 h = Some (CAP_TYPE_VMO, CAP_R_READ OR CAP_R_TRANSFER, 0x77) \<and> caps s' 0x1000 h = None \<and>
     caps s' 0x2000 h' = Some (CAP_TYPE_VMO, CAP_R_READ, 0x77)"
proof -
  let ?T = "{0x1000, 0x2000} :: ptr set" and ?r = "CAP_R_READ OR CAP_R_TRANSFER"
  from cap_create_ok [OF example_cap_facts(1), of "0x1000" CAP_TYPE_VMO ?r "0x77"]
  obtain h and s0 :: cap_globals and pa where
    i0: "cap_inv ?T s0" and c0: "caps s0 0x1000 = [h \<mapsto> (CAP_TYPE_VMO, ?r, 0x77)]" "caps s0 0x2000 = Map.empty"
    and p0: "{0x40004000, 0x40005000, 0x40006000, 0x40007000} - {pa} \<subseteq> free_pas s0"
    and f0: "free_top (cap_table_at s0 0x2000) = 256" by (auto simp: example_cap_facts)
  have rt: "cap_rights_has ?r CAP_R_TRANSFER" "?r AND CAP_R_READ = CAP_R_READ"
    by (simp_all add: cap_rights_has_def CAP_R_READ_def CAP_R_TRANSFER_def)
  have "free_pas s0 \<noteq> {}" using p0 by auto
  with cap_transfer_moves [OF i0, of "0x1000" "0x2000" LOCAL h CAP_R_READ] c0 rt f0 obtain h' s' where
    "cap_transfer 0x1000 h 0x2000 CAP_R_READ LOCAL s0 = Ret ((CAP_OK, Some h'), s')"
    "\<forall>t\<in>?T. caps s' t = transferred 0x1000 h 0x2000 h' (CAP_TYPE_VMO, CAP_R_READ, 0x77) (caps s0) t"
    by (auto split: option.splits)
  with c0 show ?thesis by (intro exI [of _ s0] exI [of _ h] exI [of _ h'] exI [of _ s']) (simp add: transferred_def)
qed

text \<open>
  C34: \<open>cap_table_invalidate_object\<close> removes exactly the capabilities of a table that denote the given
  object, whatever their number, type or rights.
\<close>

theorem cap_invalidate_object_exact:
  assumes "cap_inv T s" and "t \<in> T" and "obj \<noteq> NULL"
  shows "\<exists>s'. cap_table_invalidate_object t obj s = Ret s' \<and> cap_inv T s' \<and>
    (\<forall>h. caps s' t h = (case caps s t h of
        Some (ty, r, ob) \<Rightarrow> if ob = obj then None else Some (ty, r, ob) | None \<Rightarrow> None)) \<and>
    (\<forall>t'\<in>T - {t}. caps s' t' = caps s t')"
  using cap_table_invalidate_object_spec [OF assms] by (auto simp: invalidated_def split: option.splits)

theorem cap_invalidate_object_exact_witness:
  "\<exists>(s :: cap_globals) h s'. caps s 0x1000 h = Some (CAP_TYPE_VMO, CAP_R_READ, 0x77) \<and>
     cap_table_invalidate_object 0x1000 0x77 s = Ret s' \<and> caps s' 0x1000 h = None"
proof -
  obtain h and s0 :: cap_globals where i0: "cap_inv {0x1000, 0x2000} s0"
    and c0: "caps s0 0x1000 = [h \<mapsto> (CAP_TYPE_VMO, CAP_R_READ, 0x77)]"
    using example_cap_created [of CAP_TYPE_VMO CAP_R_READ "0x77"] by auto
  from cap_invalidate_object_exact [OF i0, of "0x1000" "0x77"] obtain s' where
    "cap_table_invalidate_object 0x1000 0x77 s0 = Ret s'" "caps s' 0x1000 h = None" by (auto simp: c0)
  with c0 show ?thesis by (intro exI [of _ s0] exI [of _ h] exI [of _ s']) simp
qed

text \<open>
  the kernel's own capability self test passes, without panicking, on every well-formed table with
  three free slots and four free page frames.
\<close>

theorem cap_ops_selftest_passes:
  assumes "cap_inv T s" and "t \<in> T" and "3 \<le> unat (free_top (cap_table_at s t))" and "4 \<le> card (free_pas s)"
  shows "\<exists>s'. cap_ops_selftest t s = Ret s' \<and> cap_inv T s'"
  by (rule cap_ops_selftest_runs [OF assms])

theorem cap_ops_selftest_passes_witness:
  "\<exists>s'. cap_ops_selftest 0x1000 example_cap = Ret s' \<and> cap_inv {0x1000, 0x2000} s'"
  by (rule cap_ops_selftest_passes [OF example_cap_facts(1)]) (simp_all add: example_cap_facts)

text \<open>
  dropping a capability needs no right at all: a capability without \<open>CAP_R_DROP\<close> is removed like any
  other, although that bit is documented as the ability to remove a capability from a table.
\<close>

theorem cap_drop_ignores_drop_right:
  assumes "cap_inv T s" and "t \<in> T" and "caps s t h = Some (ty, r, obj)" and "\<not> cap_rights_has r CAP_R_DROP"
  shows "\<exists>s'. cap_drop t h s = Ret (CAP_OK, s') \<and> caps s' t h = None"
  using cap_table_remove_live [OF assms(1-3)] cap_invD(1) [OF assms(1,2)] by (auto simp: cap_drop_def)

theorem cap_drop_ignores_drop_right_witness:
  "\<exists>(s :: cap_globals) h s'. caps s 0x1000 h = Some (CAP_TYPE_VMO, CAP_R_READ, 0x77) \<and>
     cap_drop 0x1000 h s = Ret (CAP_OK, s') \<and> caps s' 0x1000 h = None"
proof -
  obtain h and s0 :: cap_globals where i0: "cap_inv {0x1000, 0x2000} s0"
    and c0: "caps s0 0x1000 h = Some (CAP_TYPE_VMO, CAP_R_READ, 0x77)"
    using example_cap_created [of CAP_TYPE_VMO CAP_R_READ "0x77"] by auto
  have "\<not> cap_rights_has CAP_R_READ CAP_R_DROP" by (simp add: cap_rights_has_def CAP_R_READ_def CAP_R_DROP_def)
  with cap_drop_ignores_drop_right [OF i0 _ c0] c0 show ?thesis by blast
qed

end
