(* ===== verification/Task.thy ===== *)
theory Task
  imports Cap
begin

text \<open>
  Tasks (\<open>Kern/Kernel/task/task.c\<close>): the resource contract of a task, its accounting window and the
  admission checks for I/O and memory, with scheduling intents (\<open>Kern/Kernel/sched/intent.h\<close>). All
  counters are 64-bit words that wrap around like the code's.
\<close>

section \<open>Intents\<close>

datatype sched_intent =
  SCHED_INTENT_INTERACTIVE | SCHED_INTENT_LATENCY | SCHED_INTENT_THROUGHPUT | SCHED_INTENT_BACKGROUND

definition SCHED_INTENT_COUNT :: u32 where
  "SCHED_INTENT_COUNT = 4"

text \<open>The value of an enumeration constant, and the cast of a value in range to the enumeration.\<close>

fun intent_value :: "sched_intent \<Rightarrow> u32" where
  "intent_value SCHED_INTENT_INTERACTIVE = 0"
| "intent_value SCHED_INTENT_LATENCY = 1"
| "intent_value SCHED_INTENT_THROUGHPUT = 2"
| "intent_value SCHED_INTENT_BACKGROUND = 3"

definition sched_intent_sanitize :: "u32 \<Rightarrow> sched_intent" where
  "sched_intent_sanitize raw =
     (if SCHED_INTENT_COUNT \<le> raw then SCHED_INTENT_BACKGROUND
      else if raw = 0 then SCHED_INTENT_INTERACTIVE
      else if raw = 1 then SCHED_INTENT_LATENCY
      else if raw = 2 then SCHED_INTENT_THROUGHPUT
      else SCHED_INTENT_BACKGROUND)"

lemma sched_intent_sanitize_value [simp]: "sched_intent_sanitize (intent_value i) = i"
  by (cases i) (simp_all add: sched_intent_sanitize_def SCHED_INTENT_COUNT_def word_le_nat_alt)

section \<open>Task state\<close>

record task =
  tk_id :: u64
  tk_caps :: ptr
  tk_self_cap :: cap_handle
  tk_console_ep_cap :: cap_handle
  tk_uart_cmd_ep_cap :: cap_handle
  tk_uart_evt_ep_cap :: cap_handle
  tk_kernel_log_send_cap :: cap_handle
  tk_kernel_log_recv_cap :: cap_handle
  tk_default_intent :: sched_intent
  tk_limit_window_ticks :: u64
  tk_cpu_ticks_limit :: u64
  tk_io_read_bytes_limit :: u64
  tk_io_write_bytes_limit :: u64
  tk_mem_bytes_limit :: u64
  tk_window_start_tick :: u64
  tk_cpu_ticks_window :: u64
  tk_io_read_bytes_window :: u64
  tk_io_write_bytes_window :: u64
  tk_cpu_ticks_total :: u64
  tk_io_read_bytes_total :: u64
  tk_io_write_bytes_total :: u64
  tk_mem_bytes_current :: u64
  tk_mem_bytes_peak :: u64
  tk_io_ops_total :: u64
  tk_io_ops_background :: u64
  tk_io_ops_latency :: u64
  tk_io_ops_throughput :: u64
  tk_io_ops_interactive :: u64
  tk_cpu_throttle_events :: u64
  tk_io_throttle_events :: u64
  tk_mem_throttle_events :: u64

record task_contract =
  tc_intent :: u32
  tc_flags :: u32
  tc_window_ticks :: u64
  tc_cpu_ticks_limit :: u64
  tc_io_read_bytes_limit :: u64
  tc_io_write_bytes_limit :: u64
  tc_mem_bytes_limit :: u64

record task_stats =
  ts_tick_now :: u64
  ts_window_start_tick :: u64
  ts_window_ticks :: u64
  ts_cpu_ticks_total :: u64
  ts_cpu_ticks_window :: u64
  ts_cpu_throttle_events :: u64
  ts_io_read_bytes_total :: u64
  ts_io_read_bytes_window :: u64
  ts_io_write_bytes_total :: u64
  ts_io_write_bytes_window :: u64
  ts_io_throttle_events :: u64
  ts_mem_bytes_current :: u64
  ts_mem_bytes_peak :: u64
  ts_mem_throttle_events :: u64
  ts_io_ops_total :: u64
  ts_io_ops_interactive :: u64
  ts_io_ops_latency :: u64
  ts_io_ops_throughput :: u64
  ts_io_ops_background :: u64

section \<open>Operations\<close>

text \<open>
  A task pointer that may be NULL is a \<open>task option\<close>; an operation returns the task after the call.
\<close>

definition saturating_sub_u64 :: "u64 \<Rightarrow> u64 \<Rightarrow> u64" where
  "saturating_sub_u64 a b = (if b < a then a - b else 0)"

definition reset_window :: "task \<Rightarrow> task" where
  "reset_window t = t\<lparr>tk_cpu_ticks_window := 0, tk_io_read_bytes_window := 0, tk_io_write_bytes_window := 0\<rparr>"

definition task_roll_window :: "task \<Rightarrow> u64 \<Rightarrow> task" where
  "task_roll_window t now =
     (let window = (if tk_limit_window_ticks t = 0 then 1 else tk_limit_window_ticks t) in
      if now < tk_window_start_tick t then reset_window (t\<lparr>tk_window_start_tick := now\<rparr>)
      else if now - tk_window_start_tick t < window then t
      else let spans0 = (now - tk_window_start_tick t) div window;
               spans = (if spans0 = 0 then 1 else spans0) in
        reset_window (t\<lparr>tk_window_start_tick := tk_window_start_tick t + spans * window\<rparr>))"

definition task_init :: "task option \<Rightarrow> ptr \<Rightarrow> task option" where
  "task_init t cp = map_option (\<lambda>_.
     \<lparr>tk_id = 0, tk_caps = cp, tk_self_cap = CAP_HANDLE_INVALID, tk_console_ep_cap = CAP_HANDLE_INVALID,
      tk_uart_cmd_ep_cap = CAP_HANDLE_INVALID, tk_uart_evt_ep_cap = CAP_HANDLE_INVALID,
      tk_kernel_log_send_cap = CAP_HANDLE_INVALID, tk_kernel_log_recv_cap = CAP_HANDLE_INVALID,
      tk_default_intent = SCHED_INTENT_INTERACTIVE, tk_limit_window_ticks = 100, tk_cpu_ticks_limit = 0,
      tk_io_read_bytes_limit = 0, tk_io_write_bytes_limit = 0, tk_mem_bytes_limit = 0,
      tk_window_start_tick = 0, tk_cpu_ticks_window = 0, tk_io_read_bytes_window = 0,
      tk_io_write_bytes_window = 0, tk_cpu_ticks_total = 0, tk_io_read_bytes_total = 0,
      tk_io_write_bytes_total = 0, tk_mem_bytes_current = 0, tk_mem_bytes_peak = 0, tk_io_ops_total = 0,
      tk_io_ops_background = 0, tk_io_ops_latency = 0, tk_io_ops_throughput = 0, tk_io_ops_interactive = 0,
      tk_cpu_throttle_events = 0, tk_io_throttle_events = 0, tk_mem_throttle_events = 0\<rparr>) t"

definition task_set_contract :: "task option \<Rightarrow> task_contract option \<Rightarrow> u64 \<Rightarrow> task option" where
  "task_set_contract t contract now =
     (case (t, contract) of
        (Some tk, Some c) \<Rightarrow> Some (tk
          \<lparr>tk_default_intent := sched_intent_sanitize (tc_intent c),
           tk_limit_window_ticks := (if tc_window_ticks c = 0 then 100 else tc_window_ticks c),
           tk_cpu_ticks_limit := tc_cpu_ticks_limit c,
           tk_io_read_bytes_limit := tc_io_read_bytes_limit c,
           tk_io_write_bytes_limit := tc_io_write_bytes_limit c,
           tk_mem_bytes_limit := tc_mem_bytes_limit c,
           tk_window_start_tick := now, tk_cpu_ticks_window := 0, tk_io_read_bytes_window := 0,
           tk_io_write_bytes_window := 0\<rparr>)
      | _ \<Rightarrow> t)"

definition task_get_contract :: "task option \<Rightarrow> task_contract option" where
  "task_get_contract t = map_option (\<lambda>tk.
     \<lparr>tc_intent = intent_value (tk_default_intent tk), tc_flags = 0,
      tc_window_ticks = tk_limit_window_ticks tk, tc_cpu_ticks_limit = tk_cpu_ticks_limit tk,
      tc_io_read_bytes_limit = tk_io_read_bytes_limit tk,
      tc_io_write_bytes_limit = tk_io_write_bytes_limit tk,
      tc_mem_bytes_limit = tk_mem_bytes_limit tk\<rparr>) t"

definition task_get_stats :: "task option \<Rightarrow> u64 \<Rightarrow> task_stats option" where
  "task_get_stats t now = map_option (\<lambda>tk.
     \<lparr>ts_tick_now = now, ts_window_start_tick = tk_window_start_tick tk,
      ts_window_ticks = tk_limit_window_ticks tk, ts_cpu_ticks_total = tk_cpu_ticks_total tk,
      ts_cpu_ticks_window = tk_cpu_ticks_window tk, ts_cpu_throttle_events = tk_cpu_throttle_events tk,
      ts_io_read_bytes_total = tk_io_read_bytes_total tk, ts_io_read_bytes_window = tk_io_read_bytes_window tk,
      ts_io_write_bytes_total = tk_io_write_bytes_total tk,
      ts_io_write_bytes_window = tk_io_write_bytes_window tk,
      ts_io_throttle_events = tk_io_throttle_events tk, ts_mem_bytes_current = tk_mem_bytes_current tk,
      ts_mem_bytes_peak = tk_mem_bytes_peak tk, ts_mem_throttle_events = tk_mem_throttle_events tk,
      ts_io_ops_total = tk_io_ops_total tk, ts_io_ops_interactive = tk_io_ops_interactive tk,
      ts_io_ops_latency = tk_io_ops_latency tk, ts_io_ops_throughput = tk_io_ops_throughput tk,
      ts_io_ops_background = tk_io_ops_background tk\<rparr>) t"

definition task_account_cpu_tick :: "task option \<Rightarrow> u64 \<Rightarrow> task option" where
  "task_account_cpu_tick t now = map_option (\<lambda>tk.
     let tk1 = task_roll_window tk now in
     tk1\<lparr>tk_cpu_ticks_total := tk_cpu_ticks_total tk1 + 1,
         tk_cpu_ticks_window := tk_cpu_ticks_window tk1 + 1\<rparr>) t"

definition task_allow_io :: "task option \<Rightarrow> u64 \<Rightarrow> bool \<Rightarrow> u64 \<Rightarrow> bool \<times> task option" where
  "task_allow_io t bytes is_write now =
     (case t of None \<Rightarrow> (True, None)
      | Some tk \<Rightarrow>
          let tk1 = task_roll_window tk now;
              throttled = tk1\<lparr>tk_io_throttle_events := tk_io_throttle_events tk1 + 1\<rparr> in
          if is_write then
            (if tk_io_write_bytes_limit tk1 \<noteq> 0 \<and>
                tk_io_write_bytes_limit tk1 < tk_io_write_bytes_window tk1 + bytes
             then (False, Some throttled) else (True, Some tk1))
          else
            (if tk_io_read_bytes_limit tk1 \<noteq> 0 \<and>
                tk_io_read_bytes_limit tk1 < tk_io_read_bytes_window tk1 + bytes
             then (False, Some throttled) else (True, Some tk1)))"

fun count_intent :: "sched_intent \<Rightarrow> task \<Rightarrow> task" where
  "count_intent SCHED_INTENT_INTERACTIVE tk = tk\<lparr>tk_io_ops_interactive := tk_io_ops_interactive tk + 1\<rparr>"
| "count_intent SCHED_INTENT_LATENCY tk = tk\<lparr>tk_io_ops_latency := tk_io_ops_latency tk + 1\<rparr>"
| "count_intent SCHED_INTENT_THROUGHPUT tk = tk\<lparr>tk_io_ops_throughput := tk_io_ops_throughput tk + 1\<rparr>"
| "count_intent SCHED_INTENT_BACKGROUND tk = tk\<lparr>tk_io_ops_background := tk_io_ops_background tk + 1\<rparr>"

definition task_account_io :: "task option \<Rightarrow> u64 \<Rightarrow> bool \<Rightarrow> u32 \<Rightarrow> u64 \<Rightarrow> task option" where
  "task_account_io t bytes is_write intent now = map_option (\<lambda>tk.
     let tk1 = task_roll_window tk now;
         tk2 = (if is_write
                then tk1\<lparr>tk_io_write_bytes_total := tk_io_write_bytes_total tk1 + bytes,
                         tk_io_write_bytes_window := tk_io_write_bytes_window tk1 + bytes\<rparr>
                else tk1\<lparr>tk_io_read_bytes_total := tk_io_read_bytes_total tk1 + bytes,
                         tk_io_read_bytes_window := tk_io_read_bytes_window tk1 + bytes\<rparr>);
         tk3 = tk2\<lparr>tk_io_ops_total := tk_io_ops_total tk2 + 1\<rparr> in
     count_intent (sched_intent_sanitize intent) tk3) t"

definition task_allow_mem_alloc :: "task option \<Rightarrow> u64 \<Rightarrow> bool \<times> task option" where
  "task_allow_mem_alloc t bytes =
     (case t of None \<Rightarrow> (True, None)
      | Some tk \<Rightarrow>
          if tk_mem_bytes_limit tk = 0 then (True, Some tk)
          else if tk_mem_bytes_limit tk < tk_mem_bytes_current tk + bytes
          then (False, Some (tk\<lparr>tk_mem_throttle_events := tk_mem_throttle_events tk + 1\<rparr>))
          else (True, Some tk))"

definition task_account_mem_alloc :: "task option \<Rightarrow> u64 \<Rightarrow> task option" where
  "task_account_mem_alloc t bytes = map_option (\<lambda>tk.
     let tk1 = tk\<lparr>tk_mem_bytes_current := tk_mem_bytes_current tk + bytes\<rparr> in
     if tk_mem_bytes_peak tk1 < tk_mem_bytes_current tk1
     then tk1\<lparr>tk_mem_bytes_peak := tk_mem_bytes_current tk1\<rparr> else tk1) t"

definition task_account_mem_free :: "task option \<Rightarrow> u64 \<Rightarrow> task option" where
  "task_account_mem_free t bytes = map_option (\<lambda>tk.
     tk\<lparr>tk_mem_bytes_current := saturating_sub_u64 (tk_mem_bytes_current tk) bytes\<rparr>) t"

section \<open>The accounting window\<close>

definition eff_window :: "task \<Rightarrow> nat" where
  "eff_window t = (if tk_limit_window_ticks t = 0 then 1 else unat (tk_limit_window_ticks t))"

lemma task_roll_window_cases:
  obtains (same) "task_roll_window t now = t" "tk_window_start_tick t \<le> now"
      "unat now - unat (tk_window_start_tick t) < eff_window t"
  | (moved) st where "task_roll_window t now = reset_window (t\<lparr>tk_window_start_tick := st\<rparr>)" "st \<le> now"
      "unat now - unat st < eff_window t"
proof -
  let ?w = "if tk_limit_window_ticks t = 0 then 1 else tk_limit_window_ticks t" and ?s = "tk_window_start_tick t"
  have w: "unat ?w = eff_window t" and w0: "0 < eff_window t" by (simp_all add: eff_window_def unat_gt_0)
  show thesis
  proof (cases "now < ?s")
    case True
    then show thesis using moved [of now] w0 by (simp add: task_roll_window_def Let_def)
  next
    case False
    then have le: "?s \<le> now" by simp
    then have d: "unat (now - ?s) = unat now - unat ?s" by (rule unat_sub_no_wrap)
    show thesis
    proof (cases "now - ?s < ?w")
      case True
      then show thesis using same le False d w by (simp add: task_roll_window_def Let_def word_less_nat_alt)
    next
      case ge: False
      let ?sp = "(now - ?s) div ?w" and ?d = "unat now - unat ?s"
      have "eff_window t \<le> ?d" using ge d w by (simp add: word_less_nat_alt)
      then have q: "1 \<le> ?d div eff_window t" using w0 by (simp add: div_greater_zero_iff Suc_leI)
      have usp: "unat ?sp = ?d div eff_window t" using d w by (simp add: unat_div)
      then have nz: "?sp \<noteq> 0" using q by auto
      have le2: "?d div eff_window t * eff_window t \<le> ?d" by simp
      have le3: "unat ?s + ?d div eff_window t * eff_window t \<le> unat now"
        using le2 le unfolding word_le_nat_alt by linarith
      have "?d < 2 ^ 64" by (rule le_less_trans [OF diff_le_self]) (use unat_less_two_power [of now] in simp)
      then have lt: "?d div eff_window t * eff_window t < 2 ^ 64" by (rule le_less_trans [OF le2])
      have "unat (?sp * ?w) = ?d div eff_window t * eff_window t"
        using lt by (subst unat_mult_lem [THEN iffD1]) (simp_all only: usp w, simp_all)
      then have us: "unat (?s + ?sp * ?w) = unat ?s + ?d div eff_window t * eff_window t"
        using le_less_trans [OF le3] unat_less_two_power [of now] by (subst unat_add_no_wrap) simp_all
      have "?d div eff_window t * eff_window t + ?d mod eff_window t = ?d" by simp
      moreover have "?d mod eff_window t < eff_window t" using w0 by simp
      ultimately have "unat now - unat (?s + ?sp * ?w) < eff_window t" unfolding us using le3 by linarith
      moreover have "?s + ?sp * ?w \<le> now" using us le3 by (simp only: word_le_nat_alt)
      ultimately show thesis
        using moved [of "?s + ?sp * ?w"] ge nz \<open>\<not> now < ?s\<close> by (simp add: task_roll_window_def Let_def)
    qed
  qed
qed

lemma reset_window_sel [simp]:
  "tk_window_start_tick (reset_window t) = tk_window_start_tick t"
  "tk_limit_window_ticks (reset_window t) = tk_limit_window_ticks t"
  "tk_io_read_bytes_limit (reset_window t) = tk_io_read_bytes_limit t"
  "tk_io_write_bytes_limit (reset_window t) = tk_io_write_bytes_limit t"
  "tk_io_read_bytes_window (reset_window t) = 0" "tk_io_write_bytes_window (reset_window t) = 0"
  "tk_cpu_ticks_window (reset_window t) = 0"
  by (simp_all add: reset_window_def)

lemma count_intent_sel [simp]:
  "tk_window_start_tick (count_intent i t) = tk_window_start_tick t"
  "tk_limit_window_ticks (count_intent i t) = tk_limit_window_ticks t"
  "tk_io_read_bytes_window (count_intent i t) = tk_io_read_bytes_window t"
  "tk_io_write_bytes_window (count_intent i t) = tk_io_write_bytes_window t"
  "tk_io_read_bytes_limit (count_intent i t) = tk_io_read_bytes_limit t"
  "tk_io_write_bytes_limit (count_intent i t) = tk_io_write_bytes_limit t"
  by (cases i; simp)+

section \<open>Requests under a contract\<close>

text \<open>
  How the kernel API uses the two calls: a request is admitted or refused at one tick, and accounted
  at a later one when the transfer was done.
\<close>

record io_request =
  rq_bytes :: u64
  rq_write :: bool
  rq_intent :: u32
  rq_done :: bool
  rq_admit_tick :: u64
  rq_done_tick :: u64

definition io_step :: "io_request \<Rightarrow> task \<Rightarrow> task" where
  "io_step r t =
     (case task_allow_io (Some t) (rq_bytes r) (rq_write r) (rq_admit_tick r) of
        (ok, t1) \<Rightarrow> if ok \<and> rq_done r
          then the (task_account_io t1 (rq_bytes r) (rq_write r) (rq_intent r) (rq_done_tick r)) else the t1)"

text \<open>The counter and the ceiling of one direction; a ceiling of 0 is no ceiling.\<close>

definition io_used :: "bool \<Rightarrow> task \<Rightarrow> u64" where
  "io_used w t = (if w then tk_io_write_bytes_window t else tk_io_read_bytes_window t)"

definition io_limit :: "bool \<Rightarrow> task \<Rightarrow> u64" where
  "io_limit w t = (if w then tk_io_write_bytes_limit t else tk_io_read_bytes_limit t)"

text \<open>The bytes that the requests of one direction really move: of those admitted when their turn comes and completed.\<close>

fun granted_bytes :: "bool \<Rightarrow> io_request list \<Rightarrow> task \<Rightarrow> nat" where
  "granted_bytes w [] t = 0"
| "granted_bytes w (r # rs) t =
     (if rq_write r = w \<and> rq_done r \<and> fst (task_allow_io (Some t) (rq_bytes r) (rq_write r) (rq_admit_tick r)) then unat (rq_bytes r) else 0) +
     granted_bytes w rs (io_step r t)"

definition in_window :: "task \<Rightarrow> u64 \<Rightarrow> bool" where
  "in_window t now \<longleftrightarrow> tk_window_start_tick t \<le> now \<and> unat now - unat (tk_window_start_tick t) < eff_window t"

text \<open>A request of this window that is not so large that it wraps a 64-bit counter.\<close>

definition plain_request :: "task \<Rightarrow> io_request \<Rightarrow> bool" where
  "plain_request t r \<longleftrightarrow> in_window t (rq_admit_tick r) \<and> in_window t (rq_done_tick r) \<and>
     unat (rq_bytes r) + unat (io_limit (rq_write r) t) < 2 ^ 64"

lemma roll_in_window: "in_window t now \<Longrightarrow> task_roll_window t now = t"
proof -
  assume i: "in_window t now"
  then have "unat (now - tk_window_start_tick t) < eff_window t" by (simp add: in_window_def unat_sub_no_wrap)
  then show ?thesis using i by (auto simp: task_roll_window_def Let_def in_window_def eff_window_def word_less_nat_alt word_le_nat_alt unat_eq_zero)
qed

definition same_contract :: "task \<Rightarrow> task \<Rightarrow> bool" where
  "same_contract t t' \<longleftrightarrow> tk_window_start_tick t' = tk_window_start_tick t \<and> tk_limit_window_ticks t' = tk_limit_window_ticks t \<and>
     tk_io_read_bytes_limit t' = tk_io_read_bytes_limit t \<and> tk_io_write_bytes_limit t' = tk_io_write_bytes_limit t"

lemma same_contract_requests:
  assumes "same_contract t t'"
  shows "io_limit w t' = io_limit w t" "plain_request t' r = plain_request t r" "in_window t' now = in_window t now"
  using assms by (simp_all add: same_contract_def io_limit_def plain_request_def in_window_def eff_window_def)

lemma admitted_iff:
  assumes "in_window t now" "io_limit w t \<noteq> 0" "io_used w t \<le> io_limit w t" "unat b + unat (io_limit w t) < 2 ^ 64"
  shows "fst (task_allow_io (Some t) b w now) \<longleftrightarrow> unat (io_used w t) + unat b \<le> unat (io_limit w t)"
proof -
  have "unat (io_used w t + b) = unat (io_used w t) + unat b"
    using assms(3,4) by (subst unat_add_no_wrap) (auto simp: word_le_nat_alt)
  then show ?thesis using assms(2) roll_in_window [OF assms(1)]
    by (auto simp: task_allow_io_def Let_def io_used_def io_limit_def word_less_nat_alt)
qed

lemma account_used:
  assumes "in_window t now"
  shows "same_contract t (the (task_account_io (Some t) b w i now))" "io_used w (the (task_account_io (Some t) b w i now)) = io_used w t + b"
  by (simp_all add: task_account_io_def roll_in_window [OF assms] Let_def same_contract_def io_used_def)

text \<open>One request: the counter of its direction moves by the bytes it moves, nothing else.\<close>

lemma io_step_used:
  assumes "plain_request t r"
  defines "ok \<equiv> rq_done r \<and> fst (task_allow_io (Some t) (rq_bytes r) (rq_write r) (rq_admit_tick r))"
  shows "same_contract t (io_step r t)" "io_used w (io_step r t) = (if ok \<and> rq_write r = w then io_used w t + rq_bytes r else io_used w t)"
proof -
  let ?th = "t\<lparr>tk_io_throttle_events := tk_io_throttle_events t + 1\<rparr>"
  have a: "task_roll_window t (rq_admit_tick r) = t" and d: "task_roll_window t (rq_done_tick r) = t"
    using assms(1) roll_in_window by (auto simp: plain_request_def)
  have al: "task_allow_io (Some t) (rq_bytes r) (rq_write r) (rq_admit_tick r) = (True, Some t) \<or>
      task_allow_io (Some t) (rq_bytes r) (rq_write r) (rq_admit_tick r) = (False, Some ?th)"
    by (auto simp: task_allow_io_def a Let_def)
  show "same_contract t (io_step r t)" "io_used w (io_step r t) = (if ok \<and> rq_write r = w then io_used w t + rq_bytes r else io_used w t)"
    using al by (auto simp: io_step_def task_account_io_def d Let_def same_contract_def io_used_def ok_def)
qed

lemma io_run_used:
  assumes "\<forall>r\<in>set rs. plain_request t r" "io_limit w t \<noteq> 0" "io_used w t \<le> io_limit w t"
  shows "same_contract t (fold io_step rs t) \<and> unat (io_used w (fold io_step rs t)) = unat (io_used w t) + granted_bytes w rs t \<and>
    io_used w (fold io_step rs t) \<le> io_limit w t"
  using assms
proof (induction rs arbitrary: t)
  case Nil
  then show ?case by (simp add: same_contract_def)
next
  case (Cons r rs)
  let ?t = "io_step r t"
  have pr: "plain_request t r" using Cons.prems(1) by simp
  note s = io_step_used [OF pr] and c = same_contract_requests [OF io_step_used(1) [OF pr]]
  let ?ok = "rq_done r \<and> fst (task_allow_io (Some t) (rq_bytes r) (rq_write r) (rq_admit_tick r))"
  have u: "unat (io_used w ?t) = unat (io_used w t) + (if ?ok \<and> rq_write r = w then unat (rq_bytes r) else 0) \<and> io_used w ?t \<le> io_limit w t"
  proof (cases "?ok \<and> rq_write r = w")
    case True
    then have "unat (io_used w t) + unat (rq_bytes r) \<le> unat (io_limit w t)"
      using admitted_iff [of t "rq_admit_tick r" w "rq_bytes r"] pr Cons.prems(2,3) by (auto simp: plain_request_def)
    moreover have "unat (io_limit w t) < 2 ^ 64" using unat_less_two_power [of "io_limit w t"] by simp
    ultimately show ?thesis using True s(2) [of w] by (simp add: word_le_nat_alt unat_add_no_wrap)
  next
    case False
    then have "io_used w ?t = io_used w t" using s(2) [of w] by (simp only: if_False)
    then show ?thesis using Cons.prems(3) unfolding if_not_P [OF False] by simp
  qed
  have "\<forall>q\<in>set rs. plain_request ?t q" using Cons.prems(1) c(2) by simp
  with Cons.IH [of ?t] u Cons.prems(2) c(1) have "same_contract ?t (fold io_step rs ?t) \<and>
      unat (io_used w (fold io_step rs ?t)) = unat (io_used w ?t) + granted_bytes w rs ?t \<and> io_used w (fold io_step rs ?t) \<le> io_limit w t" by simp
  then show ?case using s(1) u by (auto simp: same_contract_def)
qed

section \<open>Properties\<close>

definition example_task :: task where
  "example_task = (the (task_init (Some undefined) NULL))\<lparr>tk_io_read_bytes_limit := 100, tk_io_read_bytes_window := 50\<rparr>"

text \<open>
  after the window is rolled to the current tick, the tick lies inside the window, whatever the
  window length, also after the tick counter went backwards; the counters are kept exactly when the
  window did not move.
\<close>

theorem task_roll_window_contains_now:
  "tk_window_start_tick (task_roll_window t now) \<le> now \<and>
   unat now - unat (tk_window_start_tick (task_roll_window t now)) < eff_window t \<and>
   (task_roll_window t now = t \<or> tk_io_read_bytes_window (task_roll_window t now) = 0 \<and>
      tk_io_write_bytes_window (task_roll_window t now) = 0 \<and> tk_cpu_ticks_window (task_roll_window t now) = 0)"
  by (cases rule: task_roll_window_cases [of t now]) simp_all

text \<open>
  C36: I/O ceilings bound what a task really moves in a window. Over any sequence of requests whose ticks lie in
  the current window, each admitted or refused, completed or abandoned before the next, the bytes moved and those
  already counted stay within the ceiling of their direction; and the next request of that direction is admitted
  exactly when its bytes still fit. No request is so large that it wraps a 64-bit counter.
\<close>

theorem task_io_ceiling_enforced:
  assumes "\<forall>r\<in>set rs. plain_request t r" and "io_limit w t \<noteq> 0" and "io_used w t \<le> io_limit w t"
  shows "unat (io_used w t) + granted_bytes w rs t \<le> unat (io_limit w t) \<and>
    (\<forall>b now. in_window t now \<longrightarrow> unat b + unat (io_limit w t) < 2 ^ 64 \<longrightarrow>
       (fst (task_allow_io (Some (fold io_step rs t)) b w now) \<longleftrightarrow> unat (io_used w t) + granted_bytes w rs t + unat b \<le> unat (io_limit w t)))"
proof -
  note u = io_run_used [OF assms]
  note c = same_contract_requests [OF u [THEN conjunct1]]
  show ?thesis
  proof (intro conjI allI impI)
    show "unat (io_used w t) + granted_bytes w rs t \<le> unat (io_limit w t)" using u by (simp add: word_le_nat_alt)
    show "fst (task_allow_io (Some (fold io_step rs t)) b w now) \<longleftrightarrow> unat (io_used w t) + granted_bytes w rs t + unat b \<le> unat (io_limit w t)"
      if "in_window t now" "unat b + unat (io_limit w t) < 2 ^ 64" for b now
      using admitted_iff [of "fold io_step rs t" now w b] u c that assms(2) by simp
  qed
qed

lemma example_task_sel:
  "tk_io_read_bytes_limit example_task = 100" "tk_io_read_bytes_window example_task = 50"
  "tk_io_write_bytes_limit example_task = 0" "tk_window_start_tick example_task = 0"
  "tk_limit_window_ticks example_task = 100"
  by (simp_all add: example_task_def task_init_def)

text \<open>Of two reads of 40 bytes by a task that has 50 bytes left, the first moves and the second is refused.\<close>

theorem task_io_ceiling_enforced_witness:
  "granted_bytes False [\<lparr>rq_bytes = 40, rq_write = False, rq_intent = 1, rq_done = True, rq_admit_tick = 7, rq_done_tick = 9\<rparr>] example_task = 40 \<and>
   \<not> fst (task_allow_io (Some (fold io_step [\<lparr>rq_bytes = 40, rq_write = False, rq_intent = 1, rq_done = True, rq_admit_tick = 7, rq_done_tick = 9\<rparr>] example_task)) 40 False 11)"
proof -
  let ?r = "\<lparr>rq_bytes = 40, rq_write = False, rq_intent = 1, rq_done = True, rq_admit_tick = 7, rq_done_tick = 9\<rparr>"
  have p: "\<forall>r\<in>set [?r]. plain_request example_task r" "in_window example_task 11" "in_window example_task 7"
    by (simp_all add: plain_request_def in_window_def io_limit_def eff_window_def example_task_sel)
  have l: "io_limit False example_task = 100" "io_used False example_task = 50" by (simp_all add: io_limit_def io_used_def example_task_sel)
  have g: "granted_bytes False [?r] example_task = 40"
    using admitted_iff [OF p(3), of False 40] l by simp
  then show ?thesis using task_io_ceiling_enforced [OF p(1), of False] l p(2) by simp
qed

text \<open>
  the admission check adds in 64 bits without testing for overflow: in the window, every request so large that it
  wraps the counter of a task within its ceiling is admitted.
\<close>

theorem task_allow_io_wraps:
  assumes "in_window t now" and "io_used w t \<le> io_limit w t" and "2 ^ 64 \<le> unat (io_used w t) + unat b"
  shows "fst (task_allow_io (Some t) b w now)"
proof -
  have "unat (io_used w t) < 2 ^ 64" "unat b < 2 ^ 64" using unat_less_two_power [of "io_used w t"] unat_less_two_power [of b] by simp_all
  then have "unat (io_used w t + b) = unat (io_used w t) + unat b - 2 ^ 64" using assms(3) by (simp add: unat_word_ariths mod_if)
  then have "io_used w t + b \<le> io_limit w t" using assms(2) \<open>unat b < 2 ^ 64\<close> by (simp add: word_le_nat_alt)
  then show ?thesis using roll_in_window [OF assms(1)] by (auto simp: task_allow_io_def Let_def io_used_def io_limit_def not_less split: if_splits)
qed

theorem task_allow_io_wraps_witness: "fst (task_allow_io (Some example_task) (-10) False 1)"
  by (rule task_allow_io_wraps) (simp_all add: in_window_def io_limit_def io_used_def eff_window_def example_task_sel)

text \<open>
  the ceiling is checked when a request is admitted and the counter moves when it completes: of two requests in flight at
  once, each of which fits alone, both are admitted, and the counter then passes the ceiling.
\<close>

theorem task_io_overlap_passes_ceiling:
  assumes "in_window t now" "io_limit w t \<noteq> 0" "unat (io_used w t) + unat b \<le> unat (io_limit w t)" "unat (io_limit w t) < unat (io_used w t) + 2 * unat b"
    "unat b + unat (io_limit w t) < 2 ^ 63"
  shows "\<exists>t1 t2 t3 t4. task_allow_io (Some t) b w now = (True, t1) \<and> task_allow_io t1 b w now = (True, t2) \<and>
    task_account_io t2 b w i now = t3 \<and> task_account_io t3 b w i now = Some t4 \<and> io_limit w t4 < io_used w t4"
proof -
  let ?a = "the (task_account_io (Some t) b w i now)"
  let ?b = "the (task_account_io (Some ?a) b w i now)"
  note a = account_used [OF assms(1), where w = w and b = b and i = i]
  note c = same_contract_requests [OF a(1)]
  have "in_window ?a now" using c(3) assms(1) by simp
  note a2 = account_used [OF this, where w = w and b = b and i = i] and c2 = same_contract_requests [OF account_used(1) [OF this, where w = w and b = b and i = i]]
  have al: "task_allow_io (Some t) b w now = (True, Some t)"
    using admitted_iff [OF assms(1,2), of b] assms(3,5) roll_in_window [OF assms(1)] by (auto simp: word_le_nat_alt task_allow_io_def Let_def split: if_splits)
  have "io_limit w ?b = io_limit w t" "io_used w ?b = io_used w t + b + b" using a(2) a2(2) c(1) c2(1) by simp_all
  moreover have "unat (io_used w t + b) = unat (io_used w t) + unat b" using assms(3,5) by (simp add: unat_add_no_wrap)
  then have "unat (io_used w t + b + b) = unat (io_used w t) + 2 * unat b"
    using unat_add_no_wrap [of "io_used w t + b" b] assms(3,5) by (simp del: add_2_eq_Suc' mult_2)
  ultimately have "io_limit w ?b < io_used w ?b" using assms(4) by (simp add: word_less_nat_alt)
  moreover have "task_account_io (Some t) b w i now = Some ?a" "task_account_io (Some ?a) b w i now = Some ?b" by (simp_all add: task_account_io_def)
  ultimately show ?thesis using al by blast
qed

end
