(* ===== verification/Deadline_Queue.thy ===== *)
theory Deadline_Queue
  imports KPrelude "HOL-Library.Multiset"
begin

text \<open>
  The fixed-capacity deadline queue (\<open>Kern/Kernel/sched/deadline_queue.c\<close>): an array of 64 items with
  a count, insertion at the end, linear search for the earliest deadline, removal by swapping with the
  last item. A queue pointer that may be NULL is a \<open>deadline_queue option\<close>. Its contract is a
  priority queue: what is pushed comes out once, earliest deadline first.
\<close>

section \<open>State\<close>

record dlq_item =
  deadline :: u64
  cookie :: ptr

record deadline_queue =
  items :: "dlq_item list"
  dl_count :: u32

definition DLQ_MAX_ITEMS :: u32 where
  "DLQ_MAX_ITEMS = 64"

section \<open>Operations\<close>

text \<open>\<open>for (i = 1; i < count; i++)\<close> with the best index and its deadline; \<open>n\<close> iterations left.\<close>

fun dlq_min_loop :: "dlq_item list \<Rightarrow> nat \<Rightarrow> nat \<Rightarrow> nat \<Rightarrow> u64 \<Rightarrow> nat" where
  "dlq_min_loop its i 0 best best_deadline = best"
| "dlq_min_loop its i (Suc n) best best_deadline =
     (if deadline (its ! i) < best_deadline
      then dlq_min_loop its (Suc i) n i (deadline (its ! i))
      else dlq_min_loop its (Suc i) n best best_deadline)"

text \<open>The index as a signed 32-bit result: \<open>-1\<close> when there is none.\<close>

definition dlq_find_min_index :: "deadline_queue option \<Rightarrow> int" where
  "dlq_find_min_index q =
     (case q of None \<Rightarrow> -1
      | Some dq \<Rightarrow>
          if dl_count dq = 0 then -1
          else int (dlq_min_loop (items dq) 1 (unat (dl_count dq) - 1) 0 (deadline (items dq ! 0))))"

definition dlq_init :: "deadline_queue option \<Rightarrow> deadline_queue option" where
  "dlq_init q = map_option (\<lambda>dq. dq\<lparr>dl_count := 0\<rparr>) q"

definition dlq_push :: "deadline_queue option \<Rightarrow> u64 \<Rightarrow> ptr \<Rightarrow> bool \<times> deadline_queue option" where
  "dlq_push q dl ck =
     (case q of None \<Rightarrow> (False, None)
      | Some dq \<Rightarrow>
          if DLQ_MAX_ITEMS \<le> dl_count dq then (False, q)
          else (True, Some (dq\<lparr>items := (items dq)[unat (dl_count dq) := \<lparr>deadline = dl, cookie = ck\<rparr>],
                               dl_count := dl_count dq + 1\<rparr>)))"

text \<open>The item written through \<open>out\<close>, if the call succeeds.\<close>

definition dlq_peek_next :: "deadline_queue option \<Rightarrow> ptr \<Rightarrow> dlq_item option" where
  "dlq_peek_next q out =
     (if out = NULL then None
      else let idx = dlq_find_min_index q in
        if idx < 0 then None else map_option (\<lambda>dq. items dq ! nat idx) q)"

definition dlq_pop_next :: "deadline_queue option \<Rightarrow> ptr \<Rightarrow> dlq_item option \<times> deadline_queue option" where
  "dlq_pop_next q out =
     (case q of None \<Rightarrow> (None, None)
      | Some dq \<Rightarrow>
          if out = NULL then (None, q)
          else let idx = dlq_find_min_index q in
            if idx < 0 then (None, q)
            else let u = nat idx; it = items dq ! u; c = dl_count dq - 1;
                     its = (if u \<noteq> unat c then (items dq)[u := items dq ! unat c] else items dq) in
              (Some it, Some (dq\<lparr>items := its, dl_count := c\<rparr>)))"

section \<open>The search\<close>

lemma dlq_min_loop_bounds:
  assumes "best < i" and "best_deadline = deadline (its ! best)"
  shows "dlq_min_loop its i n best best_deadline < i + n \<and>
    (\<forall>j. j = best \<or> (i \<le> j \<and> j < i + n) \<longrightarrow>
       deadline (its ! dlq_min_loop its i n best best_deadline) \<le> deadline (its ! j))"
  using assms
proof (induction n arbitrary: i best best_deadline)
  case 0
  then show ?case by auto
next
  case (Suc n)
  show ?case
  proof (cases "deadline (its ! i) < best_deadline")
    case True
    let ?r = "dlq_min_loop its (Suc i) n i (deadline (its ! i))"
    have r: "?r < Suc i + n" "\<forall>j. j = i \<or> (Suc i \<le> j \<and> j < Suc i + n) \<longrightarrow> deadline (its ! ?r) \<le> deadline (its ! j)"
      using Suc.IH [of i "Suc i" "deadline (its ! i)"] by auto
    have "deadline (its ! ?r) \<le> deadline (its ! j)" if "j = best \<or> (i \<le> j \<and> j < i + Suc n)" for j
    proof (cases "j = best")
      case True
      have "deadline (its ! ?r) \<le> deadline (its ! i)" using r(2) by blast
      also have "\<dots> \<le> deadline (its ! best)" using \<open>deadline (its ! i) < best_deadline\<close> Suc.prems(2) by simp
      finally show ?thesis using True by simp
    next
      case False
      then show ?thesis using that r(2) by (cases "j = i") auto
    qed
    then show ?thesis using True r(1) by simp
  next
    case False
    let ?r = "dlq_min_loop its (Suc i) n best best_deadline"
    have r: "?r < Suc i + n" "\<forall>j. j = best \<or> (Suc i \<le> j \<and> j < Suc i + n) \<longrightarrow> deadline (its ! ?r) \<le> deadline (its ! j)"
      using Suc.IH [of best "Suc i" best_deadline] Suc.prems by auto
    have "deadline (its ! ?r) \<le> deadline (its ! i)"
      using r(2) False Suc.prems(2) by (metis linorder_not_less order_trans)
    then have "deadline (its ! ?r) \<le> deadline (its ! j)" if "j = best \<or> (i \<le> j \<and> j < i + Suc n)" for j
      using that r(2) by (cases "j = i") auto
    then show ?thesis using False r(1) by simp
  qed
qed

section \<open>The priority queue contract\<close>

definition dlq_ok :: "deadline_queue \<Rightarrow> bool" where
  "dlq_ok q \<longleftrightarrow> length (items q) = unat DLQ_MAX_ITEMS \<and> dl_count q \<le> DLQ_MAX_ITEMS"

definition queued :: "deadline_queue \<Rightarrow> dlq_item multiset" where
  "queued q = mset (take (unat (dl_count q)) (items q))"

lemma dlq_okD: "dlq_ok q \<Longrightarrow> length (items q) = 64 \<and> unat (dl_count q) \<le> 64"
  by (simp add: dlq_ok_def DLQ_MAX_ITEMS_def word_le_nat_alt)

lemma size_queued: "dlq_ok q \<Longrightarrow> size (queued q) = unat (dl_count q)"
  by (drule dlq_okD) (simp add: queued_def)

lemma dlq_push_spec:
  assumes ok: "dlq_ok q"
  shows "\<exists>b q'. dlq_push (Some q) dl ck = (b, Some q') \<and> dlq_ok q' \<and> b = (size (queued q) < 64) \<and>
    queued q' = (if b then add_mset \<lparr>deadline = dl, cookie = ck\<rparr> (queued q) else queued q)"
proof (cases "DLQ_MAX_ITEMS \<le> dl_count q")
  case True
  then show ?thesis using ok size_queued [OF ok] dlq_okD [OF ok]
    by (auto simp: dlq_push_def DLQ_MAX_ITEMS_def word_le_nat_alt)
next
  case False
  then have lt: "unat (dl_count q) < 64" by (simp add: DLQ_MAX_ITEMS_def word_le_nat_alt)
  then have u: "unat (dl_count q + 1) = Suc (unat (dl_count q))" by (intro unat_Suc_no_wrap) simp
  show ?thesis
    using False lt u ok size_queued [OF ok] dlq_okD [OF ok]
    by (intro exI [of _ True]) (simp add: dlq_push_def dlq_ok_def DLQ_MAX_ITEMS_def word_le_nat_alt queued_def take_Suc_update)
qed

lemma mset_swap_last:
  assumes "Suc n \<le> length xs" and "u < Suc n"
  shows "add_mset (xs ! u) (mset (take n (if u \<noteq> n then xs[u := xs ! n] else xs))) = mset (take (Suc n) xs)"
proof (cases "u = n")
  case True
  then show ?thesis using assms by (simp add: take_Suc_conv_app_nth)
next
  case False
  then have u: "u < n" using assms by simp
  have "mset (take n (xs[u := xs ! n])) = add_mset (xs ! n) (mset (take n xs) - {# xs ! u #})"
    using u assms by (simp add: take_update_swap mset_update)
  moreover have "xs ! u \<in># mset (take n xs)" using u assms by (auto simp: in_set_conv_nth intro!: exI [of _ u])
  ultimately show ?thesis using False assms by (simp add: take_Suc_conv_app_nth)
qed

lemma dlq_pop_spec:
  assumes ok: "dlq_ok q" and out: "out \<noteq> NULL"
  shows "\<exists>r q'. dlq_pop_next (Some q) out = (r, Some q') \<and> dlq_ok q' \<and>
    (case r of None \<Rightarrow> queued q = {#} \<and> q' = q
     | Some it \<Rightarrow> add_mset it (queued q') = queued q \<and> (\<forall>x\<in>#queued q. deadline it \<le> deadline x))"
proof (cases "dl_count q = 0")
  case True
  then show ?thesis
    using ok out by (simp add: dlq_pop_next_def dlq_find_min_index_def queued_def)
next
  case False
  let ?n = "unat (dl_count q) - 1" and ?u = "dlq_min_loop (items q) 1 (unat (dl_count q) - 1) 0 (deadline (items q ! 0))"
  note d = dlq_okD [OF ok]
  have n: "unat (dl_count q) = Suc ?n" and c: "unat (dl_count q - 1) = ?n"
    using False by (simp_all add: unat_pred unat_gt_0)
  have "?u < 1 + ?n" and mn: "\<forall>j. j = 0 \<or> (1 \<le> j \<and> j < 1 + ?n) \<longrightarrow> deadline (items q ! ?u) \<le> deadline (items q ! j)"
    using dlq_min_loop_bounds [of 0 1 "deadline (items q ! 0)" "items q" ?n] by auto
  then have u: "?u < Suc ?n" by simp
  let ?its = "if ?u \<noteq> ?n then (items q)[?u := items q ! ?n] else items q"
  have pop: "dlq_pop_next (Some q) out = (Some (items q ! ?u), Some (q\<lparr>items := ?its, dl_count := dl_count q - 1\<rparr>))"
    using False out c by (simp add: dlq_pop_next_def dlq_find_min_index_def Let_def)
  have "dlq_ok (q\<lparr>items := ?its, dl_count := dl_count q - 1\<rparr>)"
    using ok c n d by (simp add: dlq_ok_def DLQ_MAX_ITEMS_def word_le_nat_alt)
  moreover have "add_mset (items q ! ?u) (queued (q\<lparr>items := ?its, dl_count := dl_count q - 1\<rparr>)) = queued q"
    using mset_swap_last [of ?n "items q" ?u] u d n c by (simp add: queued_def)
  moreover have "\<forall>x\<in>#queued q. deadline (items q ! ?u) \<le> deadline x"
  proof
    fix x assume "x \<in># queued q"
    then obtain j where "j < unat (dl_count q)" "x = items q ! j"
      using d by (auto simp: queued_def in_set_conv_nth)
    then show "deadline (items q ! ?u) \<le> deadline x" using mn n by (cases j) auto
  qed
  ultimately show ?thesis using pop by auto
qed

locale priority_queue =
  fixes inv :: "'q \<Rightarrow> bool"
    and contents :: "'q \<Rightarrow> dlq_item multiset"
    and pop :: "'q \<Rightarrow> dlq_item option \<times> 'q"
  assumes pop_spec: "inv q \<Longrightarrow> inv (snd (pop q)) \<and>
    (case fst (pop q) of None \<Rightarrow> contents q = {#}
     | Some it \<Rightarrow> add_mset it (contents (snd (pop q))) = contents q \<and> (\<forall>x\<in>#contents q. deadline it \<le> deadline x))"
begin

fun drain :: "nat \<Rightarrow> 'q \<Rightarrow> dlq_item list" where
  "drain 0 q = []"
| "drain (Suc n) q = (case pop q of (None, q') \<Rightarrow> [] | (Some it, q') \<Rightarrow> it # drain n q')"

lemma drain_contents:
  "inv q \<Longrightarrow> size (contents q) \<le> n \<Longrightarrow> mset (drain n q) = contents q \<and> sorted (map deadline (drain n q))"
proof (induction n arbitrary: q)
  case 0
  then show ?case by simp
next
  case (Suc n)
  obtain r q' where p: "pop q = (r, q')" by fastforce
  show ?case
  proof (cases r)
    case None
    then show ?thesis using pop_spec [OF Suc.prems(1)] p by simp
  next
    case (Some it)
    then have i: "inv q'" and c: "add_mset it (contents q') = contents q"
      and mn: "\<forall>x\<in>#contents q. deadline it \<le> deadline x"
      using pop_spec [OF Suc.prems(1)] p by simp_all
    have "size (contents q') \<le> n" using Suc.prems(2) by (simp flip: c)
    then have ih: "mset (drain n q') = contents q'" "sorted (map deadline (drain n q'))"
      using Suc.IH [OF i] by auto
    have "\<forall>x\<in>set (drain n q'). deadline it \<le> deadline x"
      using mn ih(1) c by (metis insert_iff set_mset_add_mset_insert set_mset_mset)
    then show ?thesis using p Some ih c by simp
  qed
qed

end

interpretation dl: priority_queue dlq_ok queued "\<lambda>q. case dlq_pop_next (Some q) LOCAL of (r, q') \<Rightarrow> (r, the q')"
proof
  fix q assume "dlq_ok q"
  from dlq_pop_spec [OF this, of LOCAL] show "dlq_ok (snd (case dlq_pop_next (Some q) LOCAL of (r, q') \<Rightarrow> (r, the q'))) \<and>
    (case fst (case dlq_pop_next (Some q) LOCAL of (r, q') \<Rightarrow> (r, the q')) of None \<Rightarrow> queued q = {#}
     | Some it \<Rightarrow> add_mset it (queued (snd (case dlq_pop_next (Some q) LOCAL of (r, q') \<Rightarrow> (r, the q')))) = queued q \<and>
         (\<forall>x\<in>#queued q. deadline it \<le> deadline x))"
    by (auto split: option.splits)
qed

section \<open>Properties\<close>

text \<open>
  popping from a deadline queue returns nothing exactly when it is empty, otherwise an item with the
  earliest deadline, and removes that item and no other; pushing adds one item unless all 64 places are
  taken.
\<close>

theorem dlq_pop_earliest:
  assumes "dlq_ok q"
  shows "(\<exists>r q'. dlq_pop_next (Some q) LOCAL = (r, Some q') \<and> dlq_ok q' \<and>
      (case r of None \<Rightarrow> queued q = {#} \<and> q' = q
       | Some it \<Rightarrow> add_mset it (queued q') = queued q \<and> (\<forall>x\<in>#queued q. deadline it \<le> deadline x))) \<and>
    (\<exists>b q'. dlq_push (Some q) dlt ck = (b, Some q') \<and> dlq_ok q' \<and> b = (size (queued q) < 64) \<and>
      queued q' = (if b then add_mset \<lparr>deadline = dlt, cookie = ck\<rparr> (queued q) else queued q))"
  using dlq_pop_spec [OF assms, of LOCAL] dlq_push_spec [OF assms, of dlt ck] by simp

definition example_dlq :: deadline_queue where
  "example_dlq = \<lparr>items = [\<lparr>deadline = 30, cookie = 1\<rparr>, \<lparr>deadline = 10, cookie = 2\<rparr>, \<lparr>deadline = 20, cookie = 3\<rparr>]
     @ replicate 61 \<lparr>deadline = 0, cookie = 0\<rparr>, dl_count = 3\<rparr>"

lemma example_dlq_ok: "dlq_ok example_dlq"
  by (simp add: dlq_ok_def example_dlq_def DLQ_MAX_ITEMS_def)

theorem dlq_pop_earliest_witness:
  "\<exists>it q'. dlq_pop_next (Some example_dlq) LOCAL = (Some it, Some q') \<and> deadline it \<le> 10 \<and>
     add_mset it (queued q') = queued example_dlq"
proof -
  have "\<lparr>deadline = 10, cookie = 2\<rparr> \<in># queued example_dlq"
    by (simp add: queued_def example_dlq_def)
  then show ?thesis
    using dlq_pop_earliest [OF example_dlq_ok, of 0 0] by (fastforce split: option.splits)
qed

text \<open>
  C37: popping until the queue is empty returns every queued item exactly once, in order of deadline.
\<close>

theorem dlq_drain_sorted:
  assumes "dlq_ok q" and "size (queued q) \<le> n"
  shows "mset (dl.drain n q) = queued q \<and> sorted (map deadline (dl.drain n q))"
  by (rule dl.drain_contents [OF assms])

theorem dlq_drain_sorted_witness:
  "mset (dl.drain 3 example_dlq) = queued example_dlq \<and> sorted (map deadline (dl.drain 3 example_dlq))"
  by (rule dlq_drain_sorted [OF example_dlq_ok]) (simp add: queued_def example_dlq_def)

end
