(* ===== verification/Fifo.thy ===== *)
theory Fifo
  imports KPrelude
begin

text \<open>
  The contract of the kernel's intrusive queues (run queues, endpoint message queues, the deferred work
  queue): a representation of the linked structure as a list of nodes, an operation that appends a node
  and one that takes the first node or returns NULL. What clients rely on is the order: over any mixture
  of the two operations, the nodes come out in the order they went in.
\<close>

datatype fifo_op = Enq ptr | Deq

locale fifo =
  fixes rep :: "'s \<Rightarrow> ptr list \<Rightarrow> bool"
    and can :: "ptr \<Rightarrow> 's \<Rightarrow> bool"
    and enq :: "ptr \<Rightarrow> 's \<Rightarrow> 's outcome"
    and deq :: "'s \<Rightarrow> (ptr \<times> 's) outcome"
  assumes rep_not_NULL: "rep s xs \<Longrightarrow> NULL \<notin> set xs"
    and enq_spec: "rep s xs \<Longrightarrow> can x s \<Longrightarrow> \<exists>s'. enq x s = Ret s' \<and> rep s' (xs @ [x])"
    and deq_Nil: "rep s [] \<Longrightarrow> \<exists>s'. deq s = Ret (NULL, s') \<and> rep s' []"
    and deq_Cons: "rep s (x # xs) \<Longrightarrow> \<exists>s'. deq s = Ret (x, s') \<and> rep s' xs"
begin

text \<open>A run: the nodes that went in, the nodes that came out, and the final state.\<close>

inductive trace :: "'s \<Rightarrow> fifo_op list \<Rightarrow> ptr list \<Rightarrow> ptr list \<Rightarrow> 's \<Rightarrow> bool" where
  trace_Nil: "trace s [] [] [] s"
| trace_Enq: "can x s \<Longrightarrow> enq x s = Ret s1 \<Longrightarrow> trace s1 ops ins outs s' \<Longrightarrow>
    trace s (Enq x # ops) (x # ins) outs s'"
| trace_Deq: "deq s = Ret (x, s1) \<Longrightarrow> x \<noteq> NULL \<Longrightarrow> trace s1 ops ins outs s' \<Longrightarrow>
    trace s (Deq # ops) ins (x # outs) s'"
| trace_Empty: "deq s = Ret (NULL, s1) \<Longrightarrow> trace s1 ops ins outs s' \<Longrightarrow> trace s (Deq # ops) ins outs s'"

lemma deq_Ret:
  assumes "rep s xs" and "deq s = Ret (x, s')"
  shows "if x = NULL then xs = [] \<and> rep s' [] else \<exists>ys. xs = x # ys \<and> rep s' ys"
proof (cases xs)
  case Nil
  then show ?thesis using deq_Nil [of s] assms by auto
next
  case (Cons y ys)
  then have "y \<noteq> NULL" using rep_not_NULL [OF assms(1)] by auto
  then show ?thesis using deq_Cons [of s y ys] assms Cons by auto
qed

lemma trace_order:
  assumes "trace s ops ins outs s'" and "rep s xs"
  shows "\<exists>ys. rep s' ys \<and> xs @ ins = outs @ ys"
  using assms
proof (induction arbitrary: xs rule: trace.induct)
  case (trace_Nil s)
  then show ?case by auto
next
  case (trace_Enq x s s1 ops ins outs s')
  then have "rep s1 (xs @ [x])" using enq_spec [of s xs x] by auto
  from trace_Enq.IH [OF this] show ?case by simp
next
  case (trace_Deq s x s1 ops ins outs s')
  then obtain ys where "xs = x # ys" "rep s1 ys" using deq_Ret [of s xs x s1] by auto
  with trace_Deq.IH [OF this(2)] show ?case by auto
next
  case (trace_Empty s s1 ops ins outs s')
  then have "xs = []" "rep s1 []" using deq_Ret [of s xs NULL s1] by auto
  with trace_Empty.IH [OF this(2)] show ?case by auto
qed

text \<open>Every dequeue of a run returns, so a queue never blocks its consumer.\<close>

lemma deq_returns: "rep s xs \<Longrightarrow> \<exists>x s'. deq s = Ret (x, s')"
  using deq_Nil deq_Cons by (cases xs) blast+

end

section \<open>Lists with head and tail pointers\<close>

text \<open>\<open>sll nx h t xs\<close>: a singly linked list with head and tail pointers.\<close>

definition sll :: "(ptr \<Rightarrow> ptr) \<Rightarrow> ptr \<Rightarrow> ptr \<Rightarrow> ptr list \<Rightarrow> bool" where
  "sll nx h t xs \<longleftrightarrow> chain nx h xs \<and> t = (if xs = [] then NULL else last xs)"

lemma sll_unique: "sll nx h t xs \<Longrightarrow> sll nx h t' ys \<Longrightarrow> xs = ys"
  by (auto simp: sll_def intro: chain_unique)

lemma sll_no_NULL: "sll nx h t xs \<Longrightarrow> NULL \<notin> set xs"
  unfolding sll_def using chain_no_NULL by blast

lemma sll_tail: "sll nx h t xs \<Longrightarrow> t = NULL \<longleftrightarrow> xs = []"
  using sll_no_NULL [of nx h t xs] last_in_set [of xs] unfolding sll_def by metis

lemma sll_push:
  assumes "sll nx h t xs" and "a \<noteq> NULL" and "a \<notin> set xs"
  shows "sll (if t = NULL then nx(a := NULL) else nx(a := NULL, t := a)) (if t = NULL then a else h) a (xs @ [a])"
proof (cases xs rule: rev_cases)
  case Nil
  then show ?thesis using assms by (simp add: sll_def)
next
  case (snoc ys l)
  then have t: "t = l" "t \<noteq> NULL" using assms(1) sll_tail [OF assms(1)] by (auto simp: sll_def)
  have "chain (nx(l := a, a := NULL)) h (ys @ [l, a])"
    using assms snoc by (intro chain_snoc) (auto simp: sll_def)
  moreover have "nx(l := a, a := NULL) = nx(a := NULL, l := a)" using assms(3) snoc by (auto simp: fun_eq_iff)
  ultimately show ?thesis using t snoc by (simp add: sll_def)
qed

lemma sll_pop:
  assumes "sll nx h t (x # xs)"
  shows "h = x" and "x \<noteq> NULL" and "nx x = NULL \<longleftrightarrow> xs = []" and "sll (nx(x := NULL)) (nx x) (if nx x = NULL then NULL else t) xs"
proof -
  have c: "h = x" "x \<noteq> NULL" "chain nx (nx x) xs" and t: "t = last (x # xs)" using assms by (auto simp: sll_def)
  show "h = x" "x \<noteq> NULL" by (fact c)+
  show n: "nx x = NULL \<longleftrightarrow> xs = []" using c(3) by (cases xs) auto
  have "x \<notin> set xs" using chain_distinct [of nx h "x # xs"] assms by (auto simp: sll_def)
  then show "sll (nx(x := NULL)) (nx x) (if nx x = NULL then NULL else t) xs" using c(3) n t by (simp add: sll_def)
qed

end
