(* ===== verification/Sched.thy ===== *)
theory Sched
  imports Task Fifo
begin

text \<open>
  Threads and the intent-aware scheduler (\<open>Kern/Kernel/sched/\<close>: \<open>sched.c\<close>, \<open>thread.c\<close>, \<open>preempt.c\<close>, and the
  register effect of \<open>Arch/aarch64/context_switch.S\<close>), in the default configuration: preemption,
  intents and resource ceilings on, scheduler debug checks off. Threads are found through pointers
  (\<open>thread_at\<close>); the ready queues are circular lists through \<open>rq_next\<close>, known by their tail. The CPU's
  callee-saved registers are \<open>cpu\<close>: a context switch stores them in one thread and loads them from
  another, so that what a thread resumes with is part of the model.
\<close>

section \<open>State\<close>

record ctx =
  x19 :: u64
  x20 :: u64
  x21 :: u64
  x22 :: u64
  x23 :: u64
  x24 :: u64
  x25 :: u64
  x26 :: u64
  x27 :: u64
  x28 :: u64
  x29 :: u64
  x30 :: u64
  sp :: u64

datatype thread_state = THREAD_READY | THREAD_RUNNING | THREAD_BLOCKED | THREAD_DEAD

record thread =
  th_ctx :: ctx
  tid :: u32
  th_name :: ptr
  th_task :: ptr
  kstack_base :: ptr
  kstack_size :: u64
  kstack_top :: ptr
  rq_next :: ptr
  last_trap :: ptr
  irq_sp :: u64
  saved_daif :: u64
  sched_intent :: u8
  slice_ticks_budget :: u64
  slice_ticks_used :: u64
  runtime_ticks_total :: u64
  preemptions :: u64
  th_state :: thread_state

record trap_frame =
  tf_x :: "u64 list"
  tf_pad :: u64
  sp_at_fault :: u64
  elr_el1 :: u64
  spsr_el1 :: u64
  esr_el1 :: u64
  far_el1 :: u64
  sp_el0 :: u64

text \<open>The 31 general registers \<open>x[31]\<close> are a list; \<open>memset(tf, 0, sizeof(*tf))\<close> makes all fields zero.\<close>

definition trap_frame_zero :: trap_frame where
  "trap_frame_zero = \<lparr>tf_x = replicate 31 0, tf_pad = 0, sp_at_fault = 0, elr_el1 = 0, spsr_el1 = 0, esr_el1 = 0,
     far_el1 = 0, sp_el0 = 0\<rparr>"

record sched_stats =
  st_tick_now :: u64
  context_switches :: u64
  yield_calls :: u64
  preempt_switches :: u64
  intent_runs_interactive :: u64
  intent_runs_latency :: u64
  intent_runs_throughput :: u64
  intent_runs_background :: u64

record sched_globals = cap_globals +
  task_at :: "ptr \<Rightarrow> task"
  need_resched :: u32
  preempt_count :: u32
  bootstrap_thread :: ptr
  s_current :: ptr
  s_ready_tail :: "sched_intent \<Rightarrow> ptr"
  s_sched_ticks :: u64
  s_stats :: sched_stats
  s_pick_cursor :: u32
  thread_at :: "ptr \<Rightarrow> thread"
  trap_frame_at :: "ptr \<Rightarrow> trap_frame"
  cpu :: ctx
  s_next_tid :: u32
  s_thread_cache_inited :: bool

abbreviation thread_update :: "ptr \<Rightarrow> (thread \<Rightarrow> thread) \<Rightarrow> 'a sched_globals_scheme \<Rightarrow> 'a sched_globals_scheme" where
  "thread_update t f s \<equiv> s\<lparr>thread_at := (thread_at s)(t := f (thread_at s t))\<rparr>"

text \<open>\<open>sizeof(trap_frame_t)\<close>: 32 general words and six more.\<close>

definition sizeof_trap_frame :: u64 where
  "sizeof_trap_frame = 304"

definition KSTACK_PAGES_DEFAULT :: u32 where
  "KSTACK_PAGES_DEFAULT = 4"

definition KSTACK_PAGE_SIZE :: u64 where
  "KSTACK_PAGE_SIZE = 4096"

definition SPSR_EL1H_IRQ_ENABLED :: u64 where
  "SPSR_EL1H_IRQ_ENABLED = 0x345"

section \<open>Preemption bookkeeping\<close>

definition preempt_disable :: "'a sched_globals_scheme \<Rightarrow> 'a sched_globals_scheme" where
  "preempt_disable s = s\<lparr>preempt_count := preempt_count s + 1\<rparr>"

definition preempt_enable :: "'a sched_globals_scheme \<Rightarrow> 'a sched_globals_scheme outcome" where
  "preempt_enable s =
     (if preempt_count s = 0 then Panic ''preempt: enable with preempt_count == 0''
      else Ret (s\<lparr>preempt_count := preempt_count s - 1\<rparr>))"

definition preemptible :: "'a sched_globals_scheme \<Rightarrow> bool" where
  "preemptible s = (preempt_count s = 0)"

definition preempt_set_need_resched :: "'a sched_globals_scheme \<Rightarrow> 'a sched_globals_scheme" where
  "preempt_set_need_resched s = s\<lparr>need_resched := 1\<rparr>"

definition preempt_clear_need_resched :: "'a sched_globals_scheme \<Rightarrow> 'a sched_globals_scheme" where
  "preempt_clear_need_resched s = s\<lparr>need_resched := 0\<rparr>"

definition preempt_need_resched :: "'a sched_globals_scheme \<Rightarrow> bool" where
  "preempt_need_resched s = (need_resched s \<noteq> 0)"

section \<open>Ready queues\<close>

definition k_pick_pattern :: "sched_intent list" where
  "k_pick_pattern =
     [SCHED_INTENT_INTERACTIVE, SCHED_INTENT_INTERACTIVE, SCHED_INTENT_INTERACTIVE, SCHED_INTENT_INTERACTIVE,
      SCHED_INTENT_INTERACTIVE, SCHED_INTENT_INTERACTIVE, SCHED_INTENT_LATENCY, SCHED_INTENT_LATENCY,
      SCHED_INTENT_LATENCY, SCHED_INTENT_LATENCY, SCHED_INTENT_THROUGHPUT, SCHED_INTENT_THROUGHPUT,
      SCHED_INTENT_BACKGROUND]"

fun sched_slice_for_intent :: "sched_intent \<Rightarrow> u64" where
  "sched_slice_for_intent SCHED_INTENT_INTERACTIVE = 2"
| "sched_slice_for_intent SCHED_INTENT_LATENCY = 3"
| "sched_slice_for_intent SCHED_INTENT_THROUGHPUT = 5"
| "sched_slice_for_intent SCHED_INTENT_BACKGROUND = 8"

text \<open>The intent stored in a thread is a byte; it is widened for the sanitising cast.\<close>

definition thread_intent :: "thread \<Rightarrow> sched_intent" where
  "thread_intent th = sched_intent_sanitize (ucast (sched_intent th))"

definition sched_validate_irq_sp :: "ptr \<Rightarrow> 'a sched_globals_scheme \<Rightarrow> 'b outcome \<Rightarrow> 'b outcome" where
  "sched_validate_irq_sp t s k =
     (if t = NULL \<or> t = bootstrap_thread s then k
      else let th = thread_at s t in
        kassert (kstack_base th \<noteq> NULL) ''sched: thread kstack_base is NULL''
        (kassert (kstack_top th \<noteq> NULL) ''sched: thread kstack_top is NULL''
        (kassert (kstack_size th \<noteq> 0) ''sched: thread kstack_size is 0''
        (kassert (irq_sp th \<noteq> 0) ''sched: thread irq_sp is NULL''
        (kassert (irq_sp th AND 0xF = 0) ''sched: thread irq_sp not 16-byte aligned''
        (kassert (kstack_base th \<le> irq_sp th) ''sched: thread irq_sp below stack base''
        (kassert (irq_sp th + sizeof_trap_frame \<le> kstack_top th) ''sched: thread irq_sp beyond stack top''
         k)))))))"

definition rq_empty_intent :: "sched_intent \<Rightarrow> 'a sched_globals_scheme \<Rightarrow> bool" where
  "rq_empty_intent i s = (s_ready_tail s i = NULL)"

definition rq_insert_tail_locked :: "ptr \<Rightarrow> 'a sched_globals_scheme \<Rightarrow> 'a sched_globals_scheme outcome" where
  "rq_insert_tail_locked t s =
     (if t = NULL then Ret s
      else kassert (rq_next (thread_at s t) = NULL) ''sched: enqueue of already-queued thread''
        (kassert (th_state (thread_at s t) = THREAD_READY) ''sched: enqueue requires THREAD_READY''
        (sched_validate_irq_sp t s
        (kassert (sp (th_ctx (thread_at s t)) \<noteq> 0 \<longrightarrow> sp (th_ctx (thread_at s t)) AND 0xF = 0)
           ''sched: thread ctx.sp not 16-byte aligned''
         (let intent = thread_intent (thread_at s t); tail = s_ready_tail s intent in
          if tail = NULL
          then Ret ((thread_update t (\<lambda>th. th\<lparr>rq_next := t\<rparr>) s)\<lparr>s_ready_tail := (s_ready_tail s)(intent := t)\<rparr>)
          else let s1 = thread_update t (\<lambda>th. th\<lparr>rq_next := rq_next (thread_at s tail)\<rparr>) s;
                   s2 = thread_update tail (\<lambda>th. th\<lparr>rq_next := t\<rparr>) s1 in
            Ret (s2\<lparr>s_ready_tail := (s_ready_tail s2)(intent := t)\<rparr>))))))"

text \<open>
  The do-while search of one circular queue: \<open>Some (Some prev)\<close> when \<open>t\<close> is found behind \<open>prev\<close>,
  \<open>Some None\<close> when the search came around, \<open>None\<close> when it does not end.
\<close>

partial_function (option) rq_search :: "(ptr \<Rightarrow> ptr) \<Rightarrow> ptr \<Rightarrow> ptr \<Rightarrow> ptr \<Rightarrow> ptr \<Rightarrow> ptr option option" where
  "rq_search nx t tail prev cur =
     (if cur = t then Some (Some prev)
      else if cur \<noteq> tail then rq_search nx t tail cur (nx cur)
      else Some None)"

definition rq_unlink ::
    "sched_intent \<Rightarrow> ptr \<Rightarrow> ptr \<Rightarrow> 'a sched_globals_scheme \<Rightarrow> 'a sched_globals_scheme" where
  "rq_unlink i prev cur s =
     (let s1 = (if cur = prev then s\<lparr>s_ready_tail := (s_ready_tail s)(i := NULL)\<rparr>
                else let s2 = thread_update prev (\<lambda>th. th\<lparr>rq_next := rq_next (thread_at s cur)\<rparr>) s in
                  if s_ready_tail s2 i = cur then s2\<lparr>s_ready_tail := (s_ready_tail s2)(i := prev)\<rparr> else s2) in
      thread_update cur (\<lambda>th. th\<lparr>rq_next := NULL\<rparr>) s1)"

fun rq_remove_loop ::
    "sched_intent list \<Rightarrow> ptr \<Rightarrow> 'a sched_globals_scheme \<Rightarrow> (bool \<times> 'a sched_globals_scheme) outcome" where
  "rq_remove_loop [] t s = Ret (False, s)"
| "rq_remove_loop (i # is) t s =
     (let tail = s_ready_tail s i in
      if tail = NULL then rq_remove_loop is t s
      else obind (of_loop (rq_search (\<lambda>p. rq_next (thread_at s p)) t tail tail (rq_next (thread_at s tail))))
        (\<lambda>r. case r of Some prev \<Rightarrow> Ret (True, rq_unlink i prev t s) | None \<Rightarrow> rq_remove_loop is t s))"

definition all_intents :: "sched_intent list" where
  "all_intents = [SCHED_INTENT_INTERACTIVE, SCHED_INTENT_LATENCY, SCHED_INTENT_THROUGHPUT, SCHED_INTENT_BACKGROUND]"

definition rq_remove_locked ::
    "ptr \<Rightarrow> 'a sched_globals_scheme \<Rightarrow> (bool \<times> 'a sched_globals_scheme) outcome" where
  "rq_remove_locked t s = (if t = NULL then Ret (False, s) else rq_remove_loop all_intents t s)"

definition rq_pop_head_intent_locked ::
    "sched_intent \<Rightarrow> 'a sched_globals_scheme \<Rightarrow> ptr \<times> 'a sched_globals_scheme" where
  "rq_pop_head_intent_locked i s =
     (let tail = s_ready_tail s i in
      if tail = NULL then (NULL, s)
      else let head = rq_next (thread_at s tail);
               s1 = (if head = tail then s\<lparr>s_ready_tail := (s_ready_tail s)(i := NULL)\<rparr>
                     else thread_update tail (\<lambda>th. th\<lparr>rq_next := rq_next (thread_at s head)\<rparr>) s) in
        (head, thread_update head (\<lambda>th. th\<lparr>rq_next := NULL\<rparr>) s1))"

definition pattern_len :: u32 where
  "pattern_len = of_nat (length k_pick_pattern)"

text \<open>
  The scan of the pick pattern from the cursor (\<open>n\<close> positions left from offset \<open>i\<close>): the class of the
  first non-empty queue and the cursor behind its position.
\<close>

fun pick_loop :: "(sched_intent \<Rightarrow> bool) \<Rightarrow> u32 \<Rightarrow> nat \<Rightarrow> nat \<Rightarrow> (sched_intent \<times> u32) option" where
  "pick_loop is_empty cursor i 0 = None"
| "pick_loop is_empty cursor i (Suc n) =
     (let idx = (cursor + of_nat i) mod pattern_len; intent = k_pick_pattern ! unat idx in
      if \<not> is_empty intent then Some (intent, (idx + 1) mod pattern_len)
      else pick_loop is_empty cursor (Suc i) n)"

definition sched_pick_intent_locked ::
    "'a sched_globals_scheme \<Rightarrow> sched_intent \<times> 'a sched_globals_scheme" where
  "sched_pick_intent_locked s =
     (case pick_loop (\<lambda>i. rq_empty_intent i s) (s_pick_cursor s) 0 (unat pattern_len) of
        Some (intent, c) \<Rightarrow> (intent, s\<lparr>s_pick_cursor := c\<rparr>)
      | None \<Rightarrow> (case filter (\<lambda>i. \<not> rq_empty_intent i s) all_intents of
                  i # _ \<Rightarrow> (i, s) | [] \<Rightarrow> (SCHED_INTENT_BACKGROUND, s)))"

definition rq_pop_best_locked :: "'a sched_globals_scheme \<Rightarrow> ptr \<times> 'a sched_globals_scheme" where
  "rq_pop_best_locked s = (case sched_pick_intent_locked s of (i, s1) \<Rightarrow> rq_pop_head_intent_locked i s1)"

fun sched_note_run_intent :: "sched_intent \<Rightarrow> sched_stats \<Rightarrow> sched_stats" where
  "sched_note_run_intent SCHED_INTENT_INTERACTIVE st = st\<lparr>intent_runs_interactive := intent_runs_interactive st + 1\<rparr>"
| "sched_note_run_intent SCHED_INTENT_LATENCY st = st\<lparr>intent_runs_latency := intent_runs_latency st + 1\<rparr>"
| "sched_note_run_intent SCHED_INTENT_THROUGHPUT st = st\<lparr>intent_runs_throughput := intent_runs_throughput st + 1\<rparr>"
| "sched_note_run_intent SCHED_INTENT_BACKGROUND st = st\<lparr>intent_runs_background := intent_runs_background st + 1\<rparr>"

definition sched_prepare_running_locked :: "ptr \<Rightarrow> 'a sched_globals_scheme \<Rightarrow> 'a sched_globals_scheme" where
  "sched_prepare_running_locked t s =
     (if t = NULL then s
      else let intent = thread_intent (thread_at s t);
               s1 = thread_update t (\<lambda>th. th\<lparr>th_state := THREAD_RUNNING,
                      slice_ticks_budget := sched_slice_for_intent intent, slice_ticks_used := 0\<rparr>) s in
        s1\<lparr>s_stats := sched_note_run_intent intent (s_stats s1)\<rparr>)"

section \<open>Scheduler operations\<close>

definition sched_current :: "'a sched_globals_scheme \<Rightarrow> ptr" where
  "sched_current s = s_current s"

definition sched_ticks_now :: "'a sched_globals_scheme \<Rightarrow> u64" where
  "sched_ticks_now s = s_sched_ticks s"

definition sched_get_stats :: "'a sched_globals_scheme \<Rightarrow> sched_stats" where
  "sched_get_stats s = (s_stats s)\<lparr>st_tick_now := s_sched_ticks s\<rparr>"

definition ctx_zero :: ctx where
  "ctx_zero = \<lparr>x19 = 0, x20 = 0, x21 = 0, x22 = 0, x23 = 0, x24 = 0, x25 = 0, x26 = 0, x27 = 0, x28 = 0,
     x29 = 0, x30 = 0, sp = 0\<rparr>"

definition sched_stats_zero :: sched_stats where
  "sched_stats_zero = \<lparr>st_tick_now = 0, context_switches = 0, yield_calls = 0, preempt_switches = 0,
     intent_runs_interactive = 0, intent_runs_latency = 0, intent_runs_throughput = 0,
     intent_runs_background = 0\<rparr>"

text \<open>The thread's name is a pointer to a string constant: \<open>bootstrap_name\<close> is its address.\<close>

definition sched_init_bootstrap :: "ptr \<Rightarrow> 'a sched_globals_scheme \<Rightarrow> 'a sched_globals_scheme" where
  "sched_init_bootstrap bootstrap_name s =
     s\<lparr>s_ready_tail := (\<lambda>_. NULL),
       thread_at := (thread_at s)(bootstrap_thread s :=
         \<lparr>th_ctx = ctx_zero, tid = 0, th_name = bootstrap_name, th_task = NULL, kstack_base = NULL,
          kstack_size = 0, kstack_top = NULL, rq_next = NULL, last_trap = NULL, irq_sp = 0, saved_daif = 0,
          sched_intent = ucast (intent_value SCHED_INTENT_INTERACTIVE), slice_ticks_budget = 0,
          slice_ticks_used = 0, runtime_ticks_total = 0, preemptions = 0, th_state = THREAD_RUNNING\<rparr>),
       s_sched_ticks := 0, s_pick_cursor := 0, s_stats := sched_stats_zero,
       s_current := bootstrap_thread s\<rparr>"

definition sched_set_thread_intent ::
    "ptr \<Rightarrow> u32 \<Rightarrow> 'a sched_globals_scheme \<Rightarrow> 'a sched_globals_scheme outcome" where
  "sched_set_thread_intent t intent_raw s0 =
     (if t = NULL then Ret s0
      else case irq_save s0 of (flags, s) \<Rightarrow>
        let next_intent = sched_intent_sanitize intent_raw; th = thread_at s t in
        if ucast (sched_intent th) = intent_value next_intent then Ret (irq_restore flags s)
        else let was_ready = (th_state th = THREAD_READY \<and> rq_next th \<noteq> NULL) in
          obind (if was_ready then obind (rq_remove_locked t s) (\<lambda>(_, s1). Ret s1) else Ret s) (\<lambda>s1.
          let s2 = thread_update t (\<lambda>th. th\<lparr>sched_intent := ucast (intent_value next_intent)\<rparr>) s1 in
          obind (if was_ready then rq_insert_tail_locked t s2 else Ret s2) (\<lambda>s3.
          Ret (irq_restore flags s3))))"

definition sched_enqueue :: "ptr \<Rightarrow> 'a sched_globals_scheme \<Rightarrow> 'a sched_globals_scheme outcome" where
  "sched_enqueue t s0 =
     (if t = NULL then Ret s0
      else case irq_save s0 of (flags, s) \<Rightarrow>
        if th_state (thread_at s t) = THREAD_DEAD then Ret (irq_restore flags s)
        else obind (rq_insert_tail_locked t (thread_update t (\<lambda>th. th\<lparr>th_state := THREAD_READY\<rparr>) s))
          (\<lambda>s1. Ret (irq_restore flags s1)))"

definition sched_pick_next_locked :: "'a sched_globals_scheme \<Rightarrow> ptr \<times> 'a sched_globals_scheme" where
  "sched_pick_next_locked s =
     (case rq_pop_best_locked s of (next, s1) \<Rightarrow> if next = NULL then (s_current s1, s1) else (next, s1))"

text \<open>\<open>ctx_switch(&prev->ctx, &next->ctx)\<close>: the CPU's registers go to \<open>prev\<close>, those of \<open>next\<close> are loaded.\<close>

definition ctx_switch :: "ptr \<Rightarrow> ptr \<Rightarrow> 'a sched_globals_scheme \<Rightarrow> 'a sched_globals_scheme" where
  "ctx_switch prev next s =
     (let s1 = thread_update prev (\<lambda>th. th\<lparr>th_ctx := cpu s\<rparr>) s in s1\<lparr>cpu := th_ctx (thread_at s1 next)\<rparr>)"

text \<open>
  A call of \<open>yield\<close> or \<open>sched_block_current\<close> either returns to its caller, or the CPU now runs another
  thread; the caller's pending \<open>irq_restore(flags)\<close> is then what it does when it is switched back to.
\<close>

datatype switch_result = Returned | Switched u64

definition yield :: "'a sched_globals_scheme \<Rightarrow> (switch_result \<times> 'a sched_globals_scheme) outcome" where
  "yield s00 =
     ASSERT_THREAD_CONTEXT s00
      (case irq_save s00 of (flags, s0) \<Rightarrow>
       let s1 = s0\<lparr>s_stats := (s_stats s0)\<lparr>yield_calls := yield_calls (s_stats s0) + 1\<rparr>\<rparr>; prev = s_current s1 in
       kassert (prev \<noteq> NULL) ''sched: current is NULL''
       (kassert (rq_next (thread_at s1 prev) = NULL) ''sched: current unexpectedly enqueued''
        (let s2 = preempt_clear_need_resched s1 in
         obind (if prev \<noteq> bootstrap_thread s2 \<and> th_state (thread_at s2 prev) = THREAD_RUNNING
                then rq_insert_tail_locked prev (thread_update prev (\<lambda>th. th\<lparr>th_state := THREAD_READY\<rparr>) s2)
                else Ret s2) (\<lambda>s3.
         case sched_pick_next_locked s3 of (next, s4) \<Rightarrow>
           if next = NULL then Ret (Returned, irq_restore flags s4)
           else if next = prev then Ret (Returned, irq_restore flags (sched_prepare_running_locked prev s4))
           else let s5 = (sched_prepare_running_locked next s4)\<lparr>s_current := next\<rparr>;
                    s6 = s5\<lparr>s_stats := (s_stats s5)\<lparr>context_switches := context_switches (s_stats s5) + 1\<rparr>\<rparr> in
             Ret (Switched flags, ctx_switch prev next s6)))))"

definition sched_block_current :: "'a sched_globals_scheme \<Rightarrow> (switch_result \<times> 'a sched_globals_scheme) outcome" where
  "sched_block_current s00 =
     ASSERT_THREAD_CONTEXT s00
      (case irq_save s00 of (flags, s0) \<Rightarrow>
       let prev = s_current s0 in
       kassert (prev \<noteq> NULL) ''sched: current is NULL''
       (kassert (rq_next (thread_at s0 prev) = NULL) ''sched: current unexpectedly enqueued''
       (kassert (prev \<noteq> bootstrap_thread s0) ''sched: bootstrap thread must not block''
        (let s1 = thread_update prev (\<lambda>th. th\<lparr>th_state := THREAD_BLOCKED\<rparr>) s0 in
         case sched_pick_next_locked s1 of (next, s2) \<Rightarrow>
           if next = NULL \<or> next = prev
           then Ret (Returned, irq_restore flags (thread_update prev (\<lambda>th. th\<lparr>th_state := THREAD_RUNNING\<rparr>) s2))
           else let s3 = (sched_prepare_running_locked next s2)\<lparr>s_current := next\<rparr>;
                    s4 = s3\<lparr>s_stats := (s_stats s3)\<lparr>context_switches := context_switches (s_stats s3) + 1\<rparr>\<rparr> in
             Ret (Switched flags, ctx_switch prev next s4)))))"

definition sched_wake :: "ptr \<Rightarrow> 'a sched_globals_scheme \<Rightarrow> 'a sched_globals_scheme outcome" where
  "sched_wake t s0 =
     ASSERT_THREAD_CONTEXT s0
      (if t = NULL then Ret s0
       else case irq_save s0 of (flags, s) \<Rightarrow>
         obind (if th_state (thread_at s t) = THREAD_BLOCKED
                then rq_insert_tail_locked t (thread_update t (\<lambda>th. th\<lparr>th_state := THREAD_READY\<rparr>) s)
                else Ret s) (\<lambda>s1. Ret (irq_restore flags s1)))"

text \<open>The resource ceiling check of a timer tick on the running thread's task.\<close>

definition sched_charge_task :: "ptr \<Rightarrow> 'a sched_globals_scheme \<Rightarrow> 'a sched_globals_scheme" where
  "sched_charge_task cur s =
     (let tp = th_task (thread_at s cur) in
      if tp = NULL then s
      else let tk = the (task_account_cpu_tick (Some (task_at s tp)) (s_sched_ticks s));
               s1 = s\<lparr>task_at := (task_at s)(tp := tk)\<rparr> in
        if tk_cpu_ticks_limit tk \<noteq> 0 \<and> tk_cpu_ticks_limit tk < tk_cpu_ticks_window tk
        then let tk2 = (if tk_cpu_ticks_window tk = tk_cpu_ticks_limit tk + 1
                        then tk\<lparr>tk_cpu_throttle_events := tk_cpu_throttle_events tk + 1\<rparr> else tk);
                 s2 = s1\<lparr>task_at := (task_at s1)(tp := tk2)\<rparr> in
          preempt_set_need_resched (thread_update cur
            (\<lambda>th. th\<lparr>sched_intent := ucast (intent_value SCHED_INTENT_BACKGROUND)\<rparr>) s2)
        else s1)"

definition sched_on_timer_tick :: "'a sched_globals_scheme \<Rightarrow> 'a sched_globals_scheme" where
  "sched_on_timer_tick s0 =
     (let s = s0\<lparr>s_sched_ticks := s_sched_ticks s0 + 1\<rparr>; cur = s_current s in
      if cur = NULL then preempt_set_need_resched s
      else let s1 = (if cur \<noteq> bootstrap_thread s
                     then sched_charge_task cur
                       (thread_update cur (\<lambda>th. th\<lparr>runtime_ticks_total := runtime_ticks_total th + 1\<rparr>) s)
                     else s);
               s2 = thread_update cur (\<lambda>th. th\<lparr>slice_ticks_used := slice_ticks_used th + 1\<rparr>) s1;
               th = thread_at s2 cur in
        if slice_ticks_budget th = 0 \<or> slice_ticks_budget th \<le> slice_ticks_used th
        then preempt_set_need_resched s2 else s2)"

text \<open>The result is the trap frame the exception exit restores: the caller's own or another thread's.\<close>

definition sched_irq_exit :: "ptr \<Rightarrow> 'a sched_globals_scheme \<Rightarrow> (ptr \<times> 'a sched_globals_scheme) outcome" where
  "sched_irq_exit tf s0 =
     kassert (irq_irqs_disabled s0) ''sched: IRQs must be masked in sched_irq_exit''
     (kassert (tf \<noteq> NULL) ''sched: NULL trap frame''
      (let cur = s_current s0 in
       if cur = NULL then Ret (tf, s0)
       else kassert (rq_next (thread_at s0 cur) = NULL) ''sched: current unexpectedly enqueued in irq exit''
         (let s1 = thread_update cur (\<lambda>th. th\<lparr>last_trap := tf\<rparr>) s0 in
          if \<not> preempt_need_resched s1 then Ret (tf, s1)
          else if \<not> preemptible s1 then Ret (tf, s1)
          else let s2 = preempt_clear_need_resched s1 in
            obind (if cur \<noteq> bootstrap_thread s2 \<and> th_state (thread_at s2 cur) = THREAD_RUNNING
                   then rq_insert_tail_locked cur
                     (thread_update cur (\<lambda>th. th\<lparr>irq_sp := tf, th_state := THREAD_READY\<rparr>) s2)
                   else Ret s2) (\<lambda>s3.
            case sched_pick_next_locked s3 of (next, s4) \<Rightarrow>
              if next = NULL \<or> next = cur
              then Ret (tf, sched_prepare_running_locked cur
                     (thread_update cur (\<lambda>th. th\<lparr>th_state := THREAD_RUNNING\<rparr>) s4))
              else kassert (irq_sp (thread_at s4 next) \<noteq> 0) ''sched: next thread irq_sp is NULL''
                (let s5 = (sched_prepare_running_locked next s4)\<lparr>s_current := next\<rparr>;
                     s6 = (if cur \<noteq> bootstrap_thread s5
                           then thread_update cur (\<lambda>th. th\<lparr>preemptions := preemptions th + 1\<rparr>) s5 else s5);
                     s7 = s6\<lparr>s_stats := (s_stats s6)
                       \<lparr>preempt_switches := preempt_switches (s_stats s6) + 1,
                        context_switches := context_switches (s_stats s6) + 1\<rparr>\<rparr> in
                 Ret (irq_sp (thread_at s7 next), s7))))))"

end
