(* ===== verification/Sched_Queue.thy ===== *)
theory Sched_Queue
  imports Sched Fifo
begin

unbundle bit_operations_syntax

text \<open>
  The ready queues of \<open>sched.c\<close> as lists: each queue is a circular singly linked list known by its tail.
  The lemmas give what insertion, removal, popping the head and the weighted pick do to the lists.
\<close>

section \<open>Circular queues\<close>

text \<open>\<open>seg nx p xs q\<close>: following \<open>nx\<close> from \<open>p\<close> visits \<open>xs\<close> and arrives at \<open>q\<close>.\<close>

fun seg :: "(ptr \<Rightarrow> ptr) \<Rightarrow> ptr \<Rightarrow> ptr list \<Rightarrow> ptr \<Rightarrow> bool" where
  "seg nx p [] q \<longleftrightarrow> p = q"
| "seg nx p (a # as) q \<longleftrightarrow> p = a \<and> seg nx (nx a) as q"

definition ring :: "(ptr \<Rightarrow> ptr) \<Rightarrow> ptr \<Rightarrow> ptr list \<Rightarrow> bool" where
  "ring nx tail xs \<longleftrightarrow>
     distinct xs \<and> NULL \<notin> set xs \<and>
     (if xs = [] then tail = NULL
      else tail = last xs \<and> seg nx (hd xs) (butlast xs) tail \<and> nx tail = hd xs)"

lemma seg_append: "seg nx p (xs @ ys) q \<longleftrightarrow> (\<exists>r. seg nx p xs r \<and> seg nx r ys q)"
  by (induction xs arbitrary: p) auto

lemma seg_cong: "(\<And>x. x \<in> set xs \<Longrightarrow> nx' x = nx x) \<Longrightarrow> seg nx' p xs q = seg nx p xs q"
  by (induction xs arbitrary: p) auto

lemma ring_cong: "(\<And>x. x \<in> set xs \<Longrightarrow> nx' x = nx x) \<Longrightarrow> ring nx' tail xs = ring nx tail xs"
proof -
  assume eq: "\<And>x. x \<in> set xs \<Longrightarrow> nx' x = nx x"
  have "seg nx' p (butlast xs) q = seg nx p (butlast xs) q" for p q
    by (rule seg_cong) (simp add: eq in_set_butlastD)
  then show ?thesis using eq [of "last xs"] by (auto simp: ring_def)
qed

lemma ring_Nil [simp]: "ring nx tail [] \<longleftrightarrow> tail = NULL"
  by (simp add: ring_def)

lemma ring_snoc: "ring nx tail (ys @ [l]) \<longleftrightarrow>
    distinct (ys @ [l]) \<and> NULL \<notin> set (ys @ [l]) \<and> tail = l \<and> seg nx (hd (ys @ [l])) ys l \<and> nx l = hd (ys @ [l])"
  by (auto simp: ring_def)

lemma ring_tail_NULL_iff: "ring nx tail xs \<Longrightarrow> tail = NULL \<longleftrightarrow> xs = []"
  unfolding ring_def by (metis last_in_set)

lemma ring_tail_mem: "ring nx tail xs \<Longrightarrow> tail \<noteq> NULL \<Longrightarrow> tail \<in> set xs"
  unfolding ring_def by (metis last_in_set)

text \<open>Appending behind the tail.\<close>

lemma ring_insert_empty: "x \<noteq> NULL \<Longrightarrow> ring (nx(x := x)) x [x]"
  by (simp add: ring_def)

lemma ring_insert:
  assumes r: "ring nx tail xs" and ne: "xs \<noteq> []" and x: "x \<noteq> NULL" "x \<notin> set xs"
  shows "ring ((nx(x := nx tail))(tail := x)) x (xs @ [x])"
proof -
  obtain ys l where xs: "xs = ys @ [l]" using ne by (cases xs rule: rev_cases) auto
  let ?nx = "(nx(x := nx tail))(tail := x)"
  have d: "distinct (ys @ [l])" "NULL \<notin> set (ys @ [l])" and l: "tail = l" and sg: "seg nx (hd xs) ys l" and nl: "nx l = hd xs"
    using r by (simp_all add: xs ring_snoc)
  have "seg ?nx (hd xs) ys l = seg nx (hd xs) ys l"
    using d x by (intro seg_cong) (auto simp: l xs)
  then have "seg ?nx (hd xs) (ys @ [l]) x" using sg by (auto simp: seg_append l)
  moreover have "?nx x = hd xs" using x nl by (auto simp: l xs)
  moreover have "hd (xs @ [x]) = hd xs" by (simp add: xs hd_append)
  ultimately show ?thesis
    unfolding ring_snoc [of ?nx x xs x] using d x by (auto simp: xs)
qed

text \<open>Taking the head.\<close>

lemma ring_pop_single: "ring nx tail [x] \<Longrightarrow> tail = x \<and> nx x = x"
  by (metis append_Nil list.sel(1) ring_snoc)

lemma ring_pop:
  assumes r: "ring nx tail (x # xs)" and ne: "xs \<noteq> []"
  shows "nx tail = x" and "tail \<noteq> x" and "ring ((nx(tail := nx x))(x := NULL)) tail xs"
proof -
  obtain ys l where xs: "xs = ys @ [l]" using ne by (cases xs rule: rev_cases) auto
  let ?nx = "(nx(tail := nx x))(x := NULL)"
  have d: "distinct (x # ys @ [l])" "NULL \<notin> set (x # ys @ [l])" and l: "tail = l" and sg: "seg nx (nx x) ys l" and nl: "nx l = x"
    using r ring_snoc [of nx tail "x # ys" l] by (simp_all add: xs)
  show "nx tail = x" and "tail \<noteq> x" using l nl d by auto
  have hd: "nx x = hd xs" using sg by (cases ys) (simp_all add: xs)
  have "seg ?nx (hd xs) ys l = seg nx (hd xs) ys l" using d by (intro seg_cong) (auto simp: l)
  then show "ring ?nx tail xs" unfolding xs ring_snoc using d sg hd l by (auto simp: xs)
qed

text \<open>The search behind the current node, and unlinking what it found.\<close>

lemma rq_search_result:
  assumes "seg nx cur zs tail" and "distinct (zs @ [tail])"
  shows "rq_search nx t tail prev cur =
    Some (if t \<in> set (zs @ [tail]) then Some (last (prev # takeWhile (\<lambda>y. y \<noteq> t) (zs @ [tail]))) else None)"
  using assms
proof (induction zs arbitrary: cur prev)
  case Nil
  then show ?case by (subst rq_search.simps) auto
next
  case (Cons z zs)
  then have z: "cur = z" "seg nx (nx z) zs tail" "distinct (zs @ [tail])" "z \<noteq> tail" by auto
  show ?case
  proof (cases "z = t")
    case True
    then show ?thesis using z by (subst rq_search.simps) simp
  next
    case False
    have "rq_search nx t tail prev cur = rq_search nx t tail z (nx z)"
      using z False by (subst rq_search.simps) simp
    also have "\<dots> = Some (if t \<in> set (zs @ [tail]) then Some (last (z # takeWhile (\<lambda>y. y \<noteq> t) (zs @ [tail]))) else None)"
      by (rule Cons.IH [OF z(2,3)])
    finally show ?thesis using False by auto
  qed
qed

lemma ring_split:
  assumes r: "ring nx tail xs" and t: "t \<in> set xs"
  shows "\<exists>as bs. xs = as @ t # bs \<and> takeWhile (\<lambda>y. y \<noteq> t) xs = as \<and> t \<notin> set as \<and> t \<notin> set bs"
proof -
  have d: "distinct xs" using r by (simp add: ring_def)
  obtain as bs where xs: "xs = as @ t # bs" "t \<notin> set as" using split_list_first [OF t] by blast
  then have "takeWhile (\<lambda>y. y \<noteq> t) xs = as" unfolding xs(1) by (subst takeWhile_append2) auto
  then show ?thesis using xs d by auto
qed

lemma ring_search:
  assumes r: "ring nx tail xs" and ne: "xs \<noteq> []"
  shows "rq_search nx t tail tail (nx tail) =
    Some (if t \<in> set xs then Some (last (tail # takeWhile (\<lambda>y. y \<noteq> t) xs)) else None)"
proof -
  obtain ys l where xs: "xs = ys @ [l]" using ne by (cases xs rule: rev_cases) auto
  have "seg nx (nx tail) ys tail" "distinct (ys @ [tail])" "tail = l"
    using r by (auto simp: xs ring_snoc)
  then show ?thesis using rq_search_result [of nx "nx tail" ys tail t tail] by (simp add: xs)
qed

text \<open>Next pointers and tail after unlinking \<open>t\<close> behind \<open>prev\<close>.\<close>

lemma ring_next:
  assumes "ring nx tail (as @ t # bs)"
  shows "nx t = hd (bs @ as @ [t])"
proof (cases bs rule: rev_cases)
  case Nil
  then show ?thesis using assms by (simp add: ring_snoc hd_append)
next
  case (snoc cs l)
  then have "ring nx tail ((as @ t # cs) @ [l])" using assms by simp
  then have "seg nx (nx t) cs l" unfolding ring_snoc seg_append by auto
  then show ?thesis using snoc by (cases cs) auto
qed

lemma ring_unlink:
  assumes r: "ring nx tail (as @ t # bs)" and ne: "as @ bs \<noteq> []"
  defines "prev \<equiv> last (tail # as)"
  shows "prev \<noteq> t" and "ring ((nx(prev := nx t))(t := NULL)) (if tail = t then prev else tail) (as @ bs)"
proof -
  let ?nx = "(nx(prev := nx t))(t := NULL)"
  have d: "distinct (as @ t # bs)" "NULL \<notin> set (as @ t # bs)" using r by (simp_all add: ring_def)
  have nt: "nx t = hd (bs @ as @ [t])" by (rule ring_next [OF r])
  have tl: "tail = last (t # bs)" using r by (simp add: ring_def split: if_splits)
  show pt: "prev \<noteq> t" using d ne tl by (cases as rule: rev_cases; cases bs rule: rev_cases) (auto simp: prev_def)
  show "ring ?nx (if tail = t then prev else tail) (as @ bs)"
  proof (cases bs rule: rev_cases)
    case Nil
    then obtain cs a where as: "as = cs @ [a]" using ne by (cases as rule: rev_cases) auto
    have "seg nx (hd as) cs a"
      using r Nil as ring_snoc [of nx tail as t] by (auto simp: seg_append hd_append)
    moreover have "seg ?nx (hd as) cs a = seg nx (hd as) cs a" using d as by (intro seg_cong) (auto simp: prev_def)
    moreover have "?nx a = hd as" using nt Nil as d by (auto simp: prev_def hd_append)
    ultimately show ?thesis using Nil as tl d by (auto simp: ring_snoc prev_def)
  next
    case (snoc cs l)
    have rr: "ring nx tail ((as @ t # cs) @ [l])" using r snoc by simp
    then have l: "tail = l" and sg: "seg nx (hd (as @ t # cs @ [l])) as t" "seg nx (nx t) cs l" and nl: "nx l = hd (as @ t # cs @ [l])"
      unfolding ring_snoc seg_append by auto
    have hb: "nx t = hd bs" using nt snoc by (simp add: hd_append)
    have sc: "seg ?nx (nx t) cs l = seg nx (nx t) cs l"
      using d snoc l by (intro seg_cong) (auto simp: prev_def dest: last_in_set split: if_splits)
    show ?thesis
    proof (cases as rule: rev_cases)
      case Nil
      then show ?thesis using snoc d l sg(2) sc hb by (auto simp: ring_snoc prev_def)
    next
      case as: (snoc es a)
      have "seg nx (hd as) es a" using sg(1) as by (auto simp: seg_append hd_append)
      moreover have "seg ?nx (hd as) es a = seg nx (hd as) es a" using d as by (intro seg_cong) (auto simp: prev_def)
      moreover have "?nx a = nx t" "?nx l = hd as"
        using d as snoc nl l by (auto simp: prev_def hd_append)
      ultimately have "seg ?nx (hd as) (as @ cs) l" using sc sg(2) by (auto simp: as seg_append)
      then show ?thesis
        unfolding snoc append_assoc [symmetric] ring_snoc using d snoc as l \<open>?nx l = hd as\<close> by (auto simp: hd_append)
    qed
  qed
qed

section \<open>The four ready queues\<close>

definition nexts :: "'a sched_globals_scheme \<Rightarrow> ptr \<Rightarrow> ptr" where
  "nexts s = (\<lambda>p. rq_next (thread_at s p))"

text \<open>The queues are disjoint rings, and a thread in none of them has a NULL link.\<close>

definition rqs :: "(ptr \<Rightarrow> ptr) \<Rightarrow> (sched_intent \<Rightarrow> ptr) \<Rightarrow> (sched_intent \<Rightarrow> ptr list) \<Rightarrow> bool" where
  "rqs nx T Q \<longleftrightarrow>
     (\<forall>i. ring nx (T i) (Q i)) \<and> (\<forall>i j. i \<noteq> j \<longrightarrow> set (Q i) \<inter> set (Q j) = {}) \<and>
     (\<forall>p. (\<forall>i. p \<notin> set (Q i)) \<longrightarrow> nx p = NULL)"

definition in_rq :: "(sched_intent \<Rightarrow> ptr list) \<Rightarrow> ptr \<Rightarrow> bool" where
  "in_rq Q p \<longleftrightarrow> (\<exists>i. p \<in> set (Q i))"

lemma rqsD:
  assumes "rqs nx T Q"
  shows "ring nx (T i) (Q i)" and "p \<in> set (Q i) \<Longrightarrow> p \<in> set (Q j) \<Longrightarrow> i = j" and "\<not> in_rq Q p \<Longrightarrow> nx p = NULL"
    and "T i = NULL \<longleftrightarrow> Q i = []" and "in_rq Q p \<Longrightarrow> p \<noteq> NULL"
proof -
  show r: "ring nx (T i) (Q i)" for i using assms by (simp add: rqs_def)
  show "p \<in> set (Q i) \<Longrightarrow> p \<in> set (Q j) \<Longrightarrow> i = j" using assms unfolding rqs_def by blast
  show "\<not> in_rq Q p \<Longrightarrow> nx p = NULL" using assms by (simp add: rqs_def in_rq_def)
  show "T i = NULL \<longleftrightarrow> Q i = []" by (rule ring_tail_NULL_iff [OF r])
  show "in_rq Q p \<Longrightarrow> p \<noteq> NULL" using r by (auto simp: in_rq_def ring_def)
qed

text \<open>A change of one queue's links, members and tail.\<close>

lemma rqs_update:
  assumes old: "rqs nx T Q" and r: "ring nx' t' ys"
    and fr: "\<And>p. p \<notin> set (Q i) \<Longrightarrow> p \<notin> set ys \<Longrightarrow> nx' p = nx p"
    and new: "\<And>p j. p \<in> set ys \<Longrightarrow> p \<notin> set (Q i) \<Longrightarrow> p \<notin> set (Q j)"
    and gone: "\<And>p. p \<in> set (Q i) \<Longrightarrow> p \<notin> set ys \<Longrightarrow> nx' p = NULL"
  shows "rqs nx' (T(i := t')) (Q(i := ys))"
proof -
  have dis: "p \<notin> set ys" if "p \<in> set (Q j)" "j \<noteq> i" for p j
    using new [of p j] rqsD(2) [OF old, of p j i] that by blast
  have "ring nx' ((T(i := t')) j) ((Q(i := ys)) j)" for j
  proof (cases "j = i")
    case False
    have "nx' p = nx p" if "p \<in> set (Q j)" for p
      using fr [of p] dis [OF that False] rqsD(2) [OF old that, of i] False by blast
    then show ?thesis using rqsD(1) [OF old, of j] ring_cong [of "Q j" nx' nx] False by simp
  qed (simp add: r)
  moreover have "j \<noteq> k \<Longrightarrow> set ((Q(i := ys)) j) \<inter> set ((Q(i := ys)) k) = {}" for j k
    using dis rqsD(2) [OF old] by (cases "j = i"; cases "k = i") fastforce+
  moreover have "nx' p = NULL" if "\<forall>j. p \<notin> set ((Q(i := ys)) j)" for p
  proof (cases "p \<in> set (Q i)")
    case True
    then show ?thesis using gone that by (metis fun_upd_same)
  next
    case False
    then have "\<not> in_rq Q p" unfolding in_rq_def using that by (metis fun_upd_other)
    then show ?thesis using fr [of p] False that rqsD(3) [OF old] by (metis fun_upd_same)
  qed
  ultimately show ?thesis by (simp add: rqs_def)
qed

lemma rqs_insert:
  assumes q: "rqs nx T Q" and x: "x \<noteq> NULL" "\<not> in_rq Q x"
  shows "rqs (if T i = NULL then nx(x := x) else (nx(x := nx (T i)))(T i := x)) (T(i := x)) (Q(i := Q i @ [x]))"
proof (rule rqs_update [OF q])
  let ?nx = "if T i = NULL then nx(x := x) else (nx(x := nx (T i)))(T i := x)"
  show "ring ?nx x (Q i @ [x])"
  proof (cases "T i = NULL")
    case True
    then show ?thesis using ring_insert_empty [OF x(1)] rqsD(4) [OF q, of i] by simp
  next
    case False
    then show ?thesis using ring_insert [OF rqsD(1) [OF q] _ x(1)] x(2) rqsD(4) [OF q, of i] by (simp add: in_rq_def)
  qed
  have tl: "T i \<in> set (Q i)" if "T i \<noteq> NULL"
    using rqsD(1) [OF q, of i] that by (auto simp: ring_def split: if_splits)
  show "?nx p = nx p" if "p \<notin> set (Q i)" "p \<notin> set (Q i @ [x])" for p
    using that tl by auto
qed (use x in \<open>auto simp: in_rq_def\<close>)

lemma rqs_pop:
  assumes q: "rqs nx T Q" and Qi: "Q i = x # xs"
  shows "nx (T i) = x" and "T i = x \<longleftrightarrow> xs = []"
    and "rqs ((if x = T i then nx else nx(T i := nx x))(x := NULL)) (if x = T i then T(i := NULL) else T) (Q(i := xs))"
proof -
  have r: "ring nx (T i) (x # xs)" using rqsD(1) [OF q, of i] Qi by simp
  then have d: "x \<notin> set xs" by (simp add: ring_def)
  have main: "nx (T i) = x \<and> (T i = x \<longleftrightarrow> xs = []) \<and>
    rqs ((if x = T i then nx else nx(T i := nx x))(x := NULL)) (if x = T i then T(i := NULL) else T) (Q(i := xs))"
  proof (cases "xs = []")
    case True
    then have "T i = x" "nx x = x" using ring_pop_single [of nx "T i" x] r by auto
    moreover have "rqs (nx(x := NULL)) (T(i := NULL)) (Q(i := []))"
      by (rule rqs_update [OF q]) (auto simp: Qi True)
    ultimately show ?thesis using True by simp
  next
    case False
    note p = ring_pop [OF r False]
    have tl: "T i \<in> set xs" using r False p(2) by (auto simp: ring_def)
    have "rqs ((nx(T i := nx x))(x := NULL)) (T(i := T i)) (Q(i := xs))"
      by (rule rqs_update [OF q p(3)]) (use tl in \<open>auto simp: Qi\<close>)
    then show ?thesis using p False by auto
  qed
  then show "nx (T i) = x" and "T i = x \<longleftrightarrow> xs = []"
    and "rqs ((if x = T i then nx else nx(T i := nx x))(x := NULL)) (if x = T i then T(i := NULL) else T) (Q(i := xs))"
    by auto
qed

lemma rqs_unlink:
  assumes q: "rqs nx T Q" and Qi: "Q i = as @ t # bs"
  defines "prev \<equiv> last (T i # as)"
  shows "t = prev \<longleftrightarrow> as @ bs = []"
    and "rqs ((if t = prev then nx else nx(prev := nx t))(t := NULL))
      (if t = prev then T(i := NULL) else if T i = t then T(i := prev) else T) (Q(i := as @ bs))"
proof -
  have r: "ring nx (T i) (as @ t # bs)" using rqsD(1) [OF q, of i] Qi by simp
  then have d: "t \<notin> set as" "t \<notin> set bs" by (simp_all add: ring_def)
  have "(t = prev \<longleftrightarrow> as @ bs = []) \<and> rqs ((if t = prev then nx else nx(prev := nx t))(t := NULL))
      (if t = prev then T(i := NULL) else if T i = t then T(i := prev) else T) (Q(i := as @ bs))"
  proof (cases "as @ bs = []")
    case True
    then have "T i = t" using ring_pop_single [of nx "T i" t] r by simp
    then have "t = prev" using True by (simp add: prev_def)
    moreover have "rqs (nx(t := NULL)) (T(i := NULL)) (Q(i := []))"
      by (rule rqs_update [OF q]) (use True in \<open>auto simp: Qi\<close>)
    ultimately show ?thesis using True by simp
  next
    case False
    note u = ring_unlink [OF r False, folded prev_def]
    have pv: "prev \<in> set (as @ bs)"
    proof (cases "as = []")
      case True
      then have "prev = last bs" "bs \<noteq> []" using r False by (auto simp: prev_def ring_def split: if_splits)
      then show ?thesis by simp
    qed (simp add: prev_def)
    have "rqs ((nx(prev := nx t))(t := NULL)) (T(i := if T i = t then prev else T i)) (Q(i := as @ bs))"
      by (rule rqs_update [OF q u(2)]) (use pv in \<open>auto simp: Qi\<close>)
    moreover have "T(i := if T i = t then prev else T i) = (if T i = t then T(i := prev) else T)" by auto
    ultimately show ?thesis using u(1) False by auto
  qed
  then show "t = prev \<longleftrightarrow> as @ bs = []"
    and "rqs ((if t = prev then nx else nx(prev := nx t))(t := NULL))
      (if t = prev then T(i := NULL) else if T i = t then T(i := prev) else T) (Q(i := as @ bs))" by blast+
qed

section \<open>Queue operations on the state\<close>

text \<open>All queue operations change links and tails only.\<close>

definition relink :: "'a sched_globals_scheme \<Rightarrow> (ptr \<Rightarrow> ptr) \<Rightarrow> (sched_intent \<Rightarrow> ptr) \<Rightarrow> 'a sched_globals_scheme" where
  "relink s nx T = s\<lparr>thread_at := (\<lambda>p. (thread_at s p)\<lparr>rq_next := nx p\<rparr>), s_ready_tail := T\<rparr>"

lemma relink_sel [simp]:
  "nexts (relink s nx T) = nx" "s_ready_tail (relink s nx T) = T"
  "th_state (thread_at (relink s nx T) p) = th_state (thread_at s p)"
  "thread_intent (thread_at (relink s nx T) p) = thread_intent (thread_at s p)"
  "s_current (relink s nx T) = s_current s" "bootstrap_thread (relink s nx T) = bootstrap_thread s"
  "s_pick_cursor (relink s nx T) = s_pick_cursor s" "cpu (relink s nx T) = cpu s"
  "s_irq_depth (relink s nx T) = s_irq_depth s" "daif (relink s nx T) = daif s"
  "th_ctx (thread_at (relink s nx T) p) = th_ctx (thread_at s p)"
  "irq_sp (thread_at (relink s nx T) p) = irq_sp (thread_at s p)"
  "need_resched (relink s nx T) = need_resched s" "preempt_count (relink s nx T) = preempt_count s"
  by (simp_all add: relink_def nexts_def thread_intent_def)

lemma relink_self: "relink s (nexts s) (s_ready_tail s) = s"
  by (simp add: relink_def nexts_def)

lemma thread_update_link:
  "thread_update t (\<lambda>th. th\<lparr>rq_next := v\<rparr>) s = relink s ((nexts s)(t := v)) (s_ready_tail s)"
proof -
  have "(thread_at s)(t := (thread_at s t)\<lparr>rq_next := v\<rparr>) = (\<lambda>p. (thread_at s p)\<lparr>rq_next := ((nexts s)(t := v)) p\<rparr>)"
    by (auto simp: fun_eq_iff nexts_def)
  then show ?thesis by (simp add: relink_def)
qed

lemma relink_relink [simp]: "relink (relink s nx T) nx' T' = relink s nx' T'"
  by (simp add: relink_def)

lemma relink_daif: "(relink s nx T)\<lparr>daif := d\<rparr> = relink (s\<lparr>daif := d\<rparr>) nx T"
  by (simp add: relink_def)

lemma relink_tails: "(relink s nx T)\<lparr>s_ready_tail := T'\<rparr> = relink s nx T'"
  by (simp add: relink_def)

lemma tails_relink: "s\<lparr>s_ready_tail := T\<rparr> = relink s (nexts s) T"
  by (simp add: relink_def nexts_def)

text \<open>What \<open>rq_insert_tail_locked\<close> checks of a thread's saved stack pointers.\<close>

definition stack_ok :: "thread \<Rightarrow> bool" where
  "stack_ok th \<longleftrightarrow>
     kstack_base th \<noteq> NULL \<and> kstack_top th \<noteq> NULL \<and> kstack_size th \<noteq> 0 \<and> irq_sp th \<noteq> 0 \<and>
     irq_sp th AND 0xF = 0 \<and> kstack_base th \<le> irq_sp th \<and> irq_sp th + sizeof_trap_frame \<le> kstack_top th \<and>
     sp (th_ctx th) AND 0xF = 0"

lemma thread_view_frame [simp]:
  "thread_intent (th\<lparr>th_state := st\<rparr>) = thread_intent th" "stack_ok (th\<lparr>th_state := st\<rparr>) = stack_ok th"
  "thread_intent (th\<lparr>last_trap := lt\<rparr>) = thread_intent th" "stack_ok (th\<lparr>last_trap := lt\<rparr>) = stack_ok th"
  "thread_intent (th\<lparr>irq_sp := q\<rparr>) = thread_intent th" "stack_ok (th\<lparr>sched_intent := i\<rparr>) = stack_ok th"
  "thread_intent (th\<lparr>slice_ticks_used := n\<rparr>) = thread_intent th" "stack_ok (th\<lparr>slice_ticks_used := n\<rparr>) = stack_ok th"
  "thread_intent (th\<lparr>slice_ticks_budget := n\<rparr>) = thread_intent th" "stack_ok (th\<lparr>slice_ticks_budget := n\<rparr>) = stack_ok th"
  "thread_intent (th\<lparr>runtime_ticks_total := n\<rparr>) = thread_intent th" "stack_ok (th\<lparr>runtime_ticks_total := n\<rparr>) = stack_ok th"
  "thread_intent (th\<lparr>preemptions := n\<rparr>) = thread_intent th" "stack_ok (th\<lparr>preemptions := n\<rparr>) = stack_ok th"
  by (simp_all add: thread_intent_def stack_ok_def)

lemma stack_ok_relink [simp]: "stack_ok (thread_at (relink s nx T) p) = stack_ok (thread_at s p)"
  by (simp add: stack_ok_def relink_def)

lemma rq_insert_tail_spec:
  assumes q: "rqs (nexts s) (s_ready_tail s) Q" and t: "t \<noteq> NULL" "\<not> in_rq Q t"
    and st: "th_state (thread_at s t) = THREAD_READY" and ok: "stack_ok (thread_at s t)"
  defines "i \<equiv> thread_intent (thread_at s t)"
  shows "\<exists>nx T. rq_insert_tail_locked t s = Ret (relink s nx T) \<and> rqs nx T (Q(i := Q i @ [t]))"
proof -
  let ?T = "s_ready_tail s" and ?nx = "nexts s"
  have nn: "rq_next (thread_at s t) = NULL" using rqsD(3) [OF q t(2)] by (simp add: nexts_def)
  have tl: "?T i \<noteq> t" if "?T i \<noteq> NULL"
    using ring_tail_mem [OF rqsD(1) [OF q] that] t(2) by (auto simp: in_rq_def)
  have "rq_insert_tail_locked t s = Ret (relink s
      (if ?T i = NULL then ?nx(t := t) else (?nx(t := ?nx (?T i)))(?T i := t)) (?T(i := t)))"
    using t(1) nn st ok tl
    by (simp add: rq_insert_tail_locked_def sched_validate_irq_sp_def stack_ok_def Let_def i_def [symmetric]
        thread_update_link relink_tails del: fun_upd_apply) (auto simp: nexts_def)
  with rqs_insert [OF q t] show ?thesis by blast
qed

lemma rq_pop_head_spec:
  assumes q: "rqs (nexts s) (s_ready_tail s) Q"
  shows "Q i = [] \<Longrightarrow> rq_pop_head_intent_locked i s = (NULL, s)"
    and "Q i = x # xs \<Longrightarrow> \<exists>nx T. rq_pop_head_intent_locked i s = (x, relink s nx T) \<and> rqs nx T (Q(i := xs))"
proof -
  show "Q i = [] \<Longrightarrow> rq_pop_head_intent_locked i s = (NULL, s)"
    using rqsD(4) [OF q, of i] by (simp add: rq_pop_head_intent_locked_def)
  assume Qi: "Q i = x # xs"
  note p = rqs_pop [OF q Qi]
  have tn: "s_ready_tail s i \<noteq> NULL" using rqsD(4) [OF q, of i] Qi by simp
  have hd: "rq_next (thread_at s (s_ready_tail s i)) = x" using p(1) by (simp add: nexts_def)
  have "rq_pop_head_intent_locked i s = (x, relink s
      ((if x = s_ready_tail s i then nexts s else (nexts s)(s_ready_tail s i := nexts s x))(x := NULL))
      (if x = s_ready_tail s i then (s_ready_tail s)(i := NULL) else s_ready_tail s))"
    using tn hd
    by (simp add: rq_pop_head_intent_locked_def Let_def thread_update_link tails_relink del: fun_upd_apply)
      (simp add: nexts_def)
  with p(3) show "\<exists>nx T. rq_pop_head_intent_locked i s = (x, relink s nx T) \<and> rqs nx T (Q(i := xs))" by blast
qed

lemma rq_unlink_relink:
  "rq_unlink i prev t s = relink s ((if t = prev then nexts s else (nexts s)(prev := nexts s t))(t := NULL))
     (if t = prev then (s_ready_tail s)(i := NULL)
      else if s_ready_tail s i = t then (s_ready_tail s)(i := prev) else s_ready_tail s)"
  by (simp add: rq_unlink_def Let_def thread_update_link tails_relink del: fun_upd_apply) (simp add: nexts_def)

lemma rq_remove_loop_spec:
  assumes q: "rqs (nexts s) (s_ready_tail s) Q" and i: "t \<in> set (Q i)" "i \<in> set is" "distinct is"
  shows "\<exists>nx T as bs. rq_remove_loop is t s = Ret (True, relink s nx T) \<and> Q i = as @ t # bs \<and> rqs nx T (Q(i := as @ bs))"
  using i(2,3)
proof (induction "is")
  case (Cons j js)
  let ?T = "s_ready_tail s"
  have srch: "rq_search (\<lambda>p. rq_next (thread_at s p)) t (?T j) (?T j) (rq_next (thread_at s (?T j))) =
      Some (if t \<in> set (Q j) then Some (last (?T j # takeWhile (\<lambda>y. y \<noteq> t) (Q j))) else None)" if "?T j \<noteq> NULL"
    using ring_search [OF rqsD(1) [OF q, of j], of t] rqsD(4) [OF q, of j] that by (simp add: nexts_def)
  show ?case
  proof (cases "j = i")
    case True
    obtain as bs where Qi: "Q i = as @ t # bs" and tw: "takeWhile (\<lambda>y. y \<noteq> t) (Q i) = as"
      using ring_split [OF rqsD(1) [OF q] i(1)] by blast
    have tn: "?T i \<noteq> NULL" using rqsD(4) [OF q, of i] Qi by simp
    have "rq_remove_loop (j # js) t s = Ret (True, rq_unlink i (last (?T i # as)) t s)"
      using srch tn i(1) tw True by (simp add: Let_def)
    then show ?thesis using rqs_unlink(2) [OF q Qi] Qi unfolding rq_unlink_relink by blast
  next
    case False
    then have "t \<notin> set (Q j)" using rqsD(2) [OF q i(1), of j] by blast
    then have "rq_remove_loop (j # js) t s = rq_remove_loop js t s" using srch by (simp add: Let_def)
    then show ?thesis using Cons False by simp
  qed
qed simp

lemma rq_remove_spec:
  assumes q: "rqs (nexts s) (s_ready_tail s) Q" and i: "t \<in> set (Q i)"
  shows "\<exists>nx T as bs. rq_remove_locked t s = Ret (True, relink s nx T) \<and> Q i = as @ t # bs \<and> rqs nx T (Q(i := as @ bs))"
proof -
  have "t \<noteq> NULL" using rqsD(5) [OF q] i by (auto simp: in_rq_def)
  moreover have "i \<in> set all_intents" "distinct all_intents" by (cases i; simp add: all_intents_def)+
  ultimately show ?thesis using rq_remove_loop_spec [OF q i] by (simp add: rq_remove_locked_def)
qed

section \<open>Picking a class\<close>

definition pat :: "nat \<Rightarrow> sched_intent" where
  "pat k = k_pick_pattern ! (k mod 13)"

lemma pattern_len_13: "pattern_len = 13" "unat pattern_len = 13"
  by (simp_all add: pattern_len_def k_pick_pattern_def)

lemma pick_index:
  assumes "unat c < 13" and "k \<le> 13"
  shows "unat ((c + of_nat k) mod pattern_len) = (unat c + k) mod 13"
proof -
  have "unat (of_nat k :: u32) = k" using assms(2) by (simp add: unat_of_nat)
  then have "unat (c + of_nat k) = unat c + k" using assms by (subst unat_add_no_wrap) simp_all
  then show ?thesis by (simp add: pattern_len_13 unat_mod)
qed

lemma unat_less_13_Suc:
  assumes "unat (c :: u32) < 13"
  shows "unat ((c + 1) mod pattern_len) = Suc (unat c) mod 13"
  using pick_index [OF assms, of 1] by simp

lemma pick_loop_Some:
  assumes "unat c < 13" and "i + n \<le> 13" and "pick_loop e c i n = Some (j, c')"
  shows "\<exists>k. i \<le> k \<and> k < i + n \<and> j = pat (unat c + k) \<and> \<not> e j \<and> (\<forall>m. i \<le> m \<and> m < k \<longrightarrow> e (pat (unat c + m))) \<and>
    unat c' = Suc (unat c + k) mod 13"
  using assms(2,3)
proof (induction n arbitrary: i)
  case (Suc n)
  let ?idx = "(c + of_nat i) mod pattern_len"
  have idx: "unat ?idx = (unat c + i) mod 13" using pick_index [OF assms(1), of i] Suc.prems(1) by simp
  have p: "k_pick_pattern ! unat ?idx = pat (unat c + i)" by (simp add: pat_def idx)
  show ?case
  proof (cases "e (pat (unat c + i))")
    case True
    then have "pick_loop e c (Suc i) n = Some (j, c')" using Suc.prems(2) p by (simp add: Let_def)
    then obtain k where k: "Suc i \<le> k" "k < Suc i + n" "j = pat (unat c + k)" "\<not> e j"
      "\<forall>m. Suc i \<le> m \<and> m < k \<longrightarrow> e (pat (unat c + m))" "unat c' = Suc (unat c + k) mod 13"
      using Suc.IH [of "Suc i"] Suc.prems(1) by auto
    have "e (pat (unat c + m))" if "i \<le> m" "m < k" for m
      using that k(5) True by (cases "m = i") auto
    with k show ?thesis by (intro exI [of _ k]) auto
  next
    case False
    then have j: "j = pat (unat c + i)" and c': "c' = (?idx + 1) mod pattern_len"
      using Suc.prems(2) p by (auto simp: Let_def)
    have "unat c' = Suc (unat c + i) mod 13"
      using unat_less_13_Suc [of ?idx] idx c' by (simp add: mod_Suc_eq)
    then show ?thesis using False j by (intro exI [of _ i]) auto
  qed
qed simp

lemma pick_loop_None:
  assumes "unat c < 13" and "i + n \<le> 13" and "pick_loop e c i n = None" and "i \<le> m" and "m < i + n"
  shows "e (pat (unat c + m))"
  using assms(2-5)
proof (induction n arbitrary: i)
  case (Suc n)
  let ?idx = "(c + of_nat i) mod pattern_len"
  have idx: "unat ?idx = (unat c + i) mod 13" using pick_index [OF assms(1), of i] Suc.prems(1) by simp
  then have "e (pat (unat c + i))" and "pick_loop e c (Suc i) n = None"
    using Suc.prems(2) by (auto simp: Let_def pat_def split: if_splits)
  then show ?case using Suc.IH [of "Suc i"] Suc.prems by (cases "m = i") auto
qed simp

text \<open>Every class occurs in the pattern: the table of positions.\<close>

lemma pat_covers: "\<exists>m<13. pat (c + m) = j"
proof -
  obtain p where p: "p < 13" "pat p = j"
    by (cases j) (auto simp: pat_def k_pick_pattern_def intro: that [of 0] that [of 6] that [of 10] that [of 12])
  let ?m = "(p + 13 - c mod 13) mod 13"
  have "(c + ?m) mod 13 = p mod 13"
  proof -
    have "13 * (c div 13) + c mod 13 = c" "c mod 13 < 13" by simp_all
    then have eq: "c + (p + 13 - c mod 13) = p + 13 * Suc (c div 13)" unfolding mult_Suc_right by linarith
    have "(c + ?m) mod 13 = (c + (p + 13 - c mod 13)) mod 13" by (rule mod_add_right_eq)
    also have "\<dots> = p mod 13" unfolding eq by (rule mod_mult_self2)
    finally show ?thesis .
  qed
  then have "pat (c + ?m) = j" using p by (simp add: pat_def)
  then show ?thesis by (intro exI [of _ ?m]) simp
qed

definition pick :: "(sched_intent \<Rightarrow> ptr list) \<Rightarrow> u32 \<Rightarrow> (sched_intent \<times> u32) option" where
  "pick Q c = pick_loop (\<lambda>i. Q i = []) c 0 13"

lemma pick_None: "unat c < 13 \<Longrightarrow> pick Q c = None \<longleftrightarrow> (\<forall>i. Q i = [])"
proof
  assume c: "unat c < 13" and n: "pick Q c = None"
  show "\<forall>i. Q i = []"
  proof
    fix i
    obtain m where "m < 13" "pat (unat c + m) = i" using pat_covers by blast
    then show "Q i = []" using pick_loop_None [OF c _ n [unfolded pick_def], of m] by simp
  qed
next
  assume c: "unat c < 13" and e: "\<forall>i. Q i = []"
  show "pick Q c = None"
  proof (cases "pick Q c")
    case (Some p)
    then show ?thesis using pick_loop_Some [OF c, of 0 13 _ "fst p" "snd p"] e by (auto simp: pick_def)
  qed simp
qed

lemma pick_Some:
  assumes "unat c < 13" and "pick Q c = Some (j, c')"
  shows "Q j \<noteq> []" and "unat c' < 13"
  using pick_loop_Some [OF assms(1) _ assms(2) [unfolded pick_def]] by auto

lemma rq_pop_best_spec:
  assumes q: "rqs (nexts s) (s_ready_tail s) Q" and c: "unat (s_pick_cursor s) < 13"
  shows "case pick Q (s_pick_cursor s) of
      None \<Rightarrow> rq_pop_best_locked s = (NULL, s) \<and> (\<forall>i. Q i = [])
    | Some (i, c') \<Rightarrow> \<exists>nx T. rq_pop_best_locked s = (hd (Q i), relink (s\<lparr>s_pick_cursor := c'\<rparr>) nx T) \<and>
        Q i \<noteq> [] \<and> unat c' < 13 \<and> rqs nx T (Q(i := tl (Q i)))"
proof -
  have e: "(\<lambda>i. rq_empty_intent i s) = (\<lambda>i. Q i = [])"
    using rqsD(4) [OF q] by (simp add: rq_empty_intent_def)
  have pk: "pick_loop (\<lambda>i. rq_empty_intent i s) (s_pick_cursor s) 0 (unat pattern_len) = pick Q (s_pick_cursor s)"
    by (simp add: e pick_def pattern_len_13)
  show ?thesis
  proof (cases "pick Q (s_pick_cursor s)")
    case None
    then have nil: "\<forall>i. Q i = []" using pick_None [OF c] by simp
    then have "\<forall>i. rq_empty_intent i s" using e by (simp add: fun_eq_iff)
    then have "sched_pick_intent_locked s = (SCHED_INTENT_BACKGROUND, s)"
      using pk None by (simp add: sched_pick_intent_locked_def)
    then show ?thesis using None nil rq_pop_head_spec(1) [OF q] by (simp add: rq_pop_best_locked_def)
  next
    case (Some r)
    obtain i c' where r: "r = (i, c')" by fastforce
    note s = pick_Some [OF c Some [unfolded r]]
    let ?s = "s\<lparr>s_pick_cursor := c'\<rparr>"
    have q': "rqs (nexts ?s) (s_ready_tail ?s) Q" using q by (simp add: nexts_def)
    obtain x xs where Qi: "Q i = x # xs" using s(1) by (cases "Q i") auto
    have "sched_pick_intent_locked s = (i, ?s)" using pk Some r by (simp add: sched_pick_intent_locked_def)
    then show ?thesis
      using Some r rq_pop_head_spec(2) [OF q' Qi] Qi s by (auto simp: rq_pop_best_locked_def)
  qed
qed

section \<open>Each ready queue is a FIFO\<close>

lemma rqs_in_next:
  assumes q: "rqs nx T Q" and t: "in_rq Q t"
  shows "nx t \<noteq> NULL"
proof -
  from t obtain i where "t \<in> set (Q i)" by (auto simp: in_rq_def)
  then obtain as bs where Qi: "Q i = as @ t # bs" by (metis split_list)
  have "nx t = hd (bs @ as @ [t])" using ring_next rqsD(1) [OF q, of i] unfolding Qi by metis
  then have "nx t \<in> set (Q i)" unfolding Qi by (cases bs; cases as) auto
  then show ?thesis using rqsD(5) [OF q] by (auto simp: in_rq_def)
qed

definition rq_rep :: "sched_intent \<Rightarrow> 'a sched_globals_scheme \<Rightarrow> ptr list \<Rightarrow> bool" where
  "rq_rep i s xs \<longleftrightarrow> (\<exists>Q. rqs (nexts s) (s_ready_tail s) Q \<and> Q i = xs)"

definition rq_can :: "sched_intent \<Rightarrow> ptr \<Rightarrow> 'a sched_globals_scheme \<Rightarrow> bool" where
  "rq_can i t s \<longleftrightarrow> t \<noteq> NULL \<and> rq_next (thread_at s t) = NULL \<and> th_state (thread_at s t) = THREAD_READY \<and>
     stack_ok (thread_at s t) \<and> thread_intent (thread_at s t) = i"

interpretation rq: fifo "rq_rep i" "rq_can i" rq_insert_tail_locked "\<lambda>s. Ret (rq_pop_head_intent_locked i s)"
proof unfold_locales
  fix s :: "'a sched_globals_scheme" and xs x
  show "rq_rep i s xs \<Longrightarrow> NULL \<notin> set xs" using rqsD(5) unfolding rq_rep_def in_rq_def by blast
  show "\<exists>s'. rq_insert_tail_locked x s = Ret s' \<and> rq_rep i s' (xs @ [x])" if h: "rq_rep i s xs" and c: "rq_can i x s"
  proof -
    obtain Q where q: "rqs (nexts s) (s_ready_tail s) Q" "Q i = xs" using h unfolding rq_rep_def by blast
    have "\<not> in_rq Q x" using rqs_in_next [OF q(1), of x] c by (auto simp: rq_can_def nexts_def)
    with rq_insert_tail_spec [OF q(1), of x] c obtain nx T where
      "rq_insert_tail_locked x s = Ret (relink s nx T)" "rqs nx T (Q(i := Q i @ [x]))" by (auto simp: rq_can_def)
    then show ?thesis using q(2) by (auto simp: rq_rep_def intro!: exI [of _ "Q(i := Q i @ [x])"])
  qed
  show "\<exists>s'. Ret (rq_pop_head_intent_locked i s) = Ret (NULL, s') \<and> rq_rep i s' []" if "rq_rep i s []"
    using that rq_pop_head_spec(1) by (auto simp: rq_rep_def)
  show "\<exists>s'. Ret (rq_pop_head_intent_locked i s) = Ret (x, s') \<and> rq_rep i s' xs" if h: "rq_rep i s (x # xs)"
  proof -
    obtain Q where q: "rqs (nexts s) (s_ready_tail s) Q" "Q i = x # xs" using h unfolding rq_rep_def by blast
    from rq_pop_head_spec(2) [OF this] show ?thesis
      by (auto simp: rq_rep_def intro!: exI [of _ "Q(i := xs)"])
  qed
qed

section \<open>Waiting time\<close>

lemma rq_insert_tail_Ret:
  assumes q: "rqs (nexts s) (s_ready_tail s) Q" and x: "x \<noteq> NULL" and r: "rq_insert_tail_locked x s = Ret s'"
  defines "i \<equiv> thread_intent (thread_at s x)"
  shows "\<exists>nx T. s' = relink s nx T \<and> rqs nx T (Q(i := Q i @ [x]))"
proof -
  let ?T = "s_ready_tail s" and ?nx = "nexts s"
  have nn: "rq_next (thread_at s x) = NULL" using r x by (auto simp: rq_insert_tail_locked_def)
  then have nq: "\<not> in_rq Q x" using rqs_in_next [OF q, of x] by (auto simp: nexts_def)
  have tl: "?T i \<noteq> x" if "?T i \<noteq> NULL"
    using ring_tail_mem [OF rqsD(1) [OF q] that] nq by (auto simp: in_rq_def)
  have "s' = relink s (if ?T i = NULL then ?nx(x := x) else (?nx(x := ?nx (?T i)))(?T i := x)) (?T(i := x))"
    using r x nn tl
    by (simp add: rq_insert_tail_locked_def sched_validate_irq_sp_def Let_def i_def [symmetric]
        thread_update_link relink_tails del: fun_upd_apply split: if_splits) (auto simp: nexts_def)
  with rqs_insert [OF q x nq] show ?thesis by blast
qed

text \<open>The number of pattern positions from the cursor to the next one of class \<open>j\<close>.\<close>

definition pick_dist :: "nat \<Rightarrow> sched_intent \<Rightarrow> nat" where
  "pick_dist c j = (LEAST m. pat (c + m) = j)"

lemma pick_dist: "pat (c + pick_dist c j) = j" "pick_dist c j < 13"
proof -
  obtain m where m: "m < 13" "pat (c + m) = j" using pat_covers by blast
  show "pat (c + pick_dist c j) = j" unfolding pick_dist_def by (rule LeastI) (rule m(2))
  have "pick_dist c j \<le> m" unfolding pick_dist_def by (rule Least_le) (rule m(2))
  then show "pick_dist c j < 13" using m(1) by simp
qed

lemma pick_dist_advance:
  assumes "m < pick_dist c j" and "c' = Suc (c + m) mod 13"
  shows "pick_dist c' j + Suc m \<le> pick_dist c j"
proof -
  let ?d = "pick_dist c j - Suc m"
  have "(c' + ?d) mod 13 = (Suc (c + m) + ?d) mod 13" using assms(2) by (simp add: mod_simps)
  also have "Suc (c + m) + ?d = c + pick_dist c j" using assms(1) by simp
  finally have "pat (c' + ?d) = j" using pick_dist(1) [of c j] by (simp add: pat_def)
  then have "pick_dist c' j \<le> ?d" unfolding pick_dist_def [of c'] by (rule Least_le)
  then show ?thesis using assms(1) by simp
qed

text \<open>One pick moves a waiting thread forward: in its queue, or its queue in the pattern.\<close>

lemma pick_progress:
  assumes c: "unat c < 13" and p: "pick Q c = Some (i, c')" and k: "k < length (Q j)" and ne: "hd (Q i) \<noteq> Q j ! k"
  shows "\<exists>k'. k' < length ((Q(i := tl (Q i))) j) \<and> (Q(i := tl (Q i))) j ! k' = Q j ! k \<and>
    Suc (13 * k' + pick_dist (unat c') j) \<le> 13 * k + pick_dist (unat c) j"
proof -
  from pick_loop_Some [OF c _ p [unfolded pick_def]] obtain m where m: "m < 13" "i = pat (unat c + m)" "Q i \<noteq> []"
    "\<forall>l<m. Q (pat (unat c + l)) = []" "unat c' = Suc (unat c + m) mod 13" by auto
  show ?thesis
  proof (cases "i = j")
    case True
    obtain k' where k': "k = Suc k'" using ne k m(3) True by (cases k) (auto simp: hd_conv_nth)
    then have "k' < length (tl (Q j))" "tl (Q j) ! k' = Q j ! k" using k by (simp_all add: nth_tl)
    moreover have "pick_dist (unat c') j < 13" by (rule pick_dist(2))
    ultimately show ?thesis using True k' by (intro exI [of _ k']) simp
  next
    case False
    have "m < pick_dist (unat c) j"
    proof (rule ccontr)
      assume "\<not> m < pick_dist (unat c) j"
      moreover have "pick_dist (unat c) j \<noteq> m" using pick_dist(1) [of "unat c" j] m(2) False by auto
      ultimately have "Q j = []" using m(4) pick_dist(1) [of "unat c" j] by (metis linorder_neqE_nat)
      then show False using k by simp
    qed
    from pick_dist_advance [OF this m(5)] show ?thesis using False k by (intro exI [of _ k]) simp
  qed
qed

text \<open>
  \<open>waits t n s s'\<close>: from \<open>s\<close> to \<open>s'\<close> threads are appended to the queues in any way and \<open>n\<close> picks are made,
  none of which takes \<open>t\<close>.
\<close>

inductive waits :: "ptr \<Rightarrow> nat \<Rightarrow> 'a sched_globals_scheme \<Rightarrow> 'a sched_globals_scheme \<Rightarrow> bool" for t where
  waits_start: "waits t 0 s s"
| waits_insert: "waits t n s s1 \<Longrightarrow> rq_insert_tail_locked x s1 = Ret s2 \<Longrightarrow> waits t n s s2"
| waits_pick: "waits t n s s1 \<Longrightarrow> rq_pop_best_locked s1 = (x, s2) \<Longrightarrow> x \<noteq> t \<Longrightarrow> waits t (Suc n) s s2"

lemma waits_progress:
  assumes "waits t n s s'" and "rqs (nexts s) (s_ready_tail s) Q" and "unat (s_pick_cursor s) < 13"
    and "k < length (Q j)" and "Q j ! k = t"
  shows "\<exists>Q' k'. rqs (nexts s') (s_ready_tail s') Q' \<and> unat (s_pick_cursor s') < 13 \<and> k' < length (Q' j) \<and> Q' j ! k' = t \<and>
    n + (13 * k' + pick_dist (unat (s_pick_cursor s')) j) \<le> 13 * k + pick_dist (unat (s_pick_cursor s)) j"
  using assms
proof (induction rule: waits.induct)
  case (waits_start s)
  then show ?case by auto
next
  case (waits_insert n s s1 x s2)
  from waits_insert.IH [OF waits_insert.prems] obtain Q' k' where q: "rqs (nexts s1) (s_ready_tail s1) Q'"
    and o: "unat (s_pick_cursor s1) < 13" "k' < length (Q' j)" "Q' j ! k' = t"
      "n + (13 * k' + pick_dist (unat (s_pick_cursor s1)) j) \<le> 13 * k + pick_dist (unat (s_pick_cursor s)) j" by blast
  show ?case
  proof (cases "x = NULL")
    case True
    then have "s2 = s1" using waits_insert.hyps(2) by (simp add: rq_insert_tail_locked_def)
    then show ?thesis using q o by blast
  next
    case False
    define i where "i = thread_intent (thread_at s1 x)"
    obtain nx T where r: "s2 = relink s1 nx T" "rqs nx T (Q'(i := Q' i @ [x]))"
      using rq_insert_tail_Ret [OF q False waits_insert.hyps(2)] by (auto simp: i_def)
    have "k' < length ((Q'(i := Q' i @ [x])) j)" "(Q'(i := Q' i @ [x])) j ! k' = t"
      using o(2,3) by (auto simp: nth_append)
    then show ?thesis using r o(1,4) by (intro exI [of _ "Q'(i := Q' i @ [x])"] exI [of _ k']) (simp del: fun_upd_apply)
  qed
next
  case (waits_pick n s s1 x s2)
  from waits_pick.IH [OF waits_pick.prems] obtain Q' k' where q: "rqs (nexts s1) (s_ready_tail s1) Q'"
    and o: "unat (s_pick_cursor s1) < 13" "k' < length (Q' j)" "Q' j ! k' = t"
      "n + (13 * k' + pick_dist (unat (s_pick_cursor s1)) j) \<le> 13 * k + pick_dist (unat (s_pick_cursor s)) j" by blast
  have "pick Q' (s_pick_cursor s1) \<noteq> None" using pick_None [OF o(1), of Q'] o(2) by (metis less_zeroE list.size(3))
  then obtain i c' where p: "pick Q' (s_pick_cursor s1) = Some (i, c')" by auto
  with rq_pop_best_spec [OF q o(1)] obtain nx T where r: "x = hd (Q' i)" "s2 = relink (s1\<lparr>s_pick_cursor := c'\<rparr>) nx T"
    "unat c' < 13" "rqs nx T (Q'(i := tl (Q' i)))" using waits_pick.hyps(2) by auto
  from pick_progress [OF o(1) p o(2)] obtain k'' where "k'' < length ((Q'(i := tl (Q' i))) j)"
    "(Q'(i := tl (Q' i))) j ! k'' = t" "Suc (13 * k'' + pick_dist (unat c') j) \<le> 13 * k' + pick_dist (unat (s_pick_cursor s1)) j"
    using waits_pick.hyps(3) r(1) o(3) by auto
  then show ?case using r o(4) by (intro exI [of _ "Q'(i := tl (Q' i))"] exI [of _ k'']) (simp del: fun_upd_apply)
qed

end
