(* ===== verification/Sched_Inv.thy ===== *)
theory Sched_Inv
  imports Sched_Queue
begin

unbundle bit_operations_syntax

text \<open>
  The scheduler invariant and the contract of every operation of \<open>sched.c\<close>: what it does to the queues, to
  the current thread, to the saved contexts and to the interrupt mask.
\<close>

section \<open>The scheduler invariant\<close>

text \<open>
  \<open>TH\<close> is the set of threads handed to the scheduler, \<open>Q\<close> the contents of the queues. Every thread that
  is ready is in exactly one queue, the one of its intent, and only ready threads are queued.
\<close>

definition base_inv :: "ptr set \<Rightarrow> (sched_intent \<Rightarrow> ptr list) \<Rightarrow> 'a sched_globals_scheme \<Rightarrow> bool" where
  "base_inv TH Q s \<longleftrightarrow>
     rqs (nexts s) (s_ready_tail s) Q \<and> (\<forall>p. in_rq Q p \<longrightarrow> p \<in> TH) \<and> NULL \<notin> TH \<and> bootstrap_thread s \<notin> TH \<and>
     bootstrap_thread s \<noteq> NULL \<and>
     (\<forall>i. \<forall>p\<in>set (Q i). th_state (thread_at s p) = THREAD_READY \<and> thread_intent (thread_at s p) = i) \<and>
     (\<forall>p\<in>TH. th_state (thread_at s p) = THREAD_READY \<longrightarrow> in_rq Q p) \<and> (\<forall>p\<in>TH. stack_ok (thread_at s p)) \<and>
     unat (s_pick_cursor s) < 13 \<and> sp (cpu s) AND 0xF = 0"

text \<open>At most the current thread is running; the current thread is the bootstrap context or one of \<open>TH\<close>.\<close>

definition sched_inv :: "ptr set \<Rightarrow> (sched_intent \<Rightarrow> ptr list) \<Rightarrow> 'a sched_globals_scheme \<Rightarrow> bool" where
  "sched_inv TH Q s \<longleftrightarrow>
     base_inv TH Q s \<and> (\<forall>p\<in>TH. th_state (thread_at s p) = THREAD_RUNNING \<longrightarrow> p = s_current s) \<and>
     (s_current s = bootstrap_thread s \<or>
      s_current s \<in> TH \<and> th_state (thread_at s (s_current s)) \<in> {THREAD_RUNNING, THREAD_DEAD})"

lemma base_invD:
  assumes "base_inv TH Q s"
  shows "rqs (nexts s) (s_ready_tail s) Q" and "in_rq Q p \<Longrightarrow> p \<in> TH" and "unat (s_pick_cursor s) < 13"
    and "p \<in> set (Q i) \<Longrightarrow> th_state (thread_at s p) = THREAD_READY" and "p \<in> set (Q i) \<Longrightarrow> thread_intent (thread_at s p) = i"
    and "p \<in> TH \<Longrightarrow> stack_ok (thread_at s p)" and "p \<in> TH \<Longrightarrow> p \<noteq> NULL" and "bootstrap_thread s \<notin> TH"
    and "bootstrap_thread s \<noteq> NULL" and "in_rq Q p \<Longrightarrow> th_state (thread_at s p) = THREAD_READY"
    and "p \<in> TH \<Longrightarrow> th_state (thread_at s p) = THREAD_READY \<Longrightarrow> in_rq Q p" and "sp (cpu s) AND 0xF = 0"
  using assms by (auto simp: base_inv_def in_rq_def)

lemma base_inv_cong:
  assumes b: "base_inv TH Q s" and T: "s_ready_tail s' = s_ready_tail s" "bootstrap_thread s' = bootstrap_thread s"
    and th: "\<And>p. rq_next (thread_at s' p) = rq_next (thread_at s p)"
      "\<And>p. p \<in> TH \<Longrightarrow> th_state (thread_at s' p) = th_state (thread_at s p) \<and>
         thread_intent (thread_at s' p) = thread_intent (thread_at s p) \<and> stack_ok (thread_at s' p)"
    and c: "unat (s_pick_cursor s') < 13" "sp (cpu s') AND 0xF = 0"
  shows "base_inv TH Q s'"
proof -
  have nx: "nexts s' = nexts s" by (simp add: nexts_def th(1))
  have m: "p \<in> set (Q i) \<Longrightarrow> p \<in> TH" for p i using base_invD(2) [OF b] by (auto simp: in_rq_def)
  have q: "th_state (thread_at s' p) = THREAD_READY" "thread_intent (thread_at s' p) = i" if "p \<in> set (Q i)" for p i
    using th(2) [OF m [OF that]] base_invD(4,5) [OF b that] by simp_all
  show ?thesis
    unfolding base_inv_def nx T using b q th(2) c
    by (intro conjI allI ballI impI) (simp_all add: base_inv_def)
qed

text \<open>Changing a thread that is in no queue and does not become ready.\<close>

lemma base_inv_idle:
  assumes b: "base_inv TH Q s" and t: "\<not> in_rq Q t" and f: "rq_next (f (thread_at s t)) = rq_next (thread_at s t)"
    "th_state (f (thread_at s t)) \<noteq> THREAD_READY" "t \<in> TH \<Longrightarrow> stack_ok (f (thread_at s t))"
  shows "base_inv TH Q (thread_update t f s)"
proof -
  have nx: "nexts (thread_update t f s) = nexts s" using f(1) by (auto simp: nexts_def fun_eq_iff)
  have "p \<in> set (Q i) \<Longrightarrow> p \<noteq> t" for p i using t by (auto simp: in_rq_def)
  then show ?thesis using b f(2,3) unfolding base_inv_def nx by auto
qed

text \<open>A thread made ready and appended to the queue of its intent.\<close>

lemma base_enqueue:
  assumes b: "base_inv TH Q s" and t: "t \<noteq> NULL" "t \<noteq> bootstrap_thread s" "\<not> in_rq Q t"
    and f: "rq_next (f (thread_at s t)) = rq_next (thread_at s t)" "th_state (f (thread_at s t)) = THREAD_READY"
      "stack_ok (f (thread_at s t))"
  defines "i \<equiv> thread_intent (f (thread_at s t))"
  shows "\<exists>nx T. rq_insert_tail_locked t (thread_update t f s) = Ret (relink (thread_update t f s) nx T) \<and>
    base_inv (insert t TH) (Q(i := Q i @ [t])) (relink (thread_update t f s) nx T)"
proof -
  let ?s = "thread_update t f s"
  have nx: "nexts ?s = nexts s" using f(1) by (auto simp: nexts_def fun_eq_iff)
  have q: "rqs (nexts ?s) (s_ready_tail ?s) Q" using base_invD(1) [OF b] nx by simp
  have "th_state (thread_at ?s t) = THREAD_READY" "stack_ok (thread_at ?s t)" using f by simp_all
  from rq_insert_tail_spec [OF q t(1,3) this] obtain nx T where
    run: "rq_insert_tail_locked t ?s = Ret (relink ?s nx T)" and r: "rqs nx T (Q(i := Q i @ [t]))"
    by (auto simp: i_def)
  have nt: "p \<in> set (Q j) \<Longrightarrow> p \<noteq> t" for p j using t(3) by (auto simp: in_rq_def)
  have in': "in_rq (Q(i := Q i @ [t])) p \<longleftrightarrow> in_rq Q p \<or> p = t" for p by (auto simp: in_rq_def)
  have "base_inv (insert t TH) (Q(i := Q i @ [t])) (relink ?s nx T)"
    unfolding base_inv_def relink_sel stack_ok_relink in'
  proof (intro conjI allI ballI impI)
    fix j p assume "p \<in> set ((Q(i := Q i @ [t])) j)"
    then have "p \<in> set (Q j) \<or> p = t \<and> j = i" by (auto split: if_splits)
    then show "th_state (thread_at ?s p) = THREAD_READY" "thread_intent (thread_at ?s p) = j"
      using base_invD(4,5) [OF b, of p j] nt f(2) by (auto simp: i_def)
  qed (use b r t f in \<open>auto simp: base_inv_def\<close>)
  with run show ?thesis by blast
qed

lemma sched_prepare_running_sel [simp]:
  "rq_next (thread_at (sched_prepare_running_locked t s) p) = rq_next (thread_at s p)"
  "s_ready_tail (sched_prepare_running_locked t s) = s_ready_tail s"
  "bootstrap_thread (sched_prepare_running_locked t s) = bootstrap_thread s"
  "s_current (sched_prepare_running_locked t s) = s_current s"
  "s_pick_cursor (sched_prepare_running_locked t s) = s_pick_cursor s" "cpu (sched_prepare_running_locked t s) = cpu s"
  "th_ctx (thread_at (sched_prepare_running_locked t s) p) = th_ctx (thread_at s p)"
  "irq_sp (thread_at (sched_prepare_running_locked t s) p) = irq_sp (thread_at s p)"
  "thread_intent (thread_at (sched_prepare_running_locked t s) p) = thread_intent (thread_at s p)"
  "stack_ok (thread_at (sched_prepare_running_locked t s) p) = stack_ok (thread_at s p)"
  "th_state (thread_at (sched_prepare_running_locked t s) p) =
     (if p = t \<and> t \<noteq> NULL then THREAD_RUNNING else th_state (thread_at s p))"
  "daif (sched_prepare_running_locked t s) = daif s" "s_irq_depth (sched_prepare_running_locked t s) = s_irq_depth s"
  "need_resched (sched_prepare_running_locked t s) = need_resched s"
  by (simp_all add: sched_prepare_running_locked_def Let_def thread_intent_def stack_ok_def)

text \<open>The head of the picked queue leaves it and becomes running.\<close>

lemma base_dispatch:
  assumes b: "base_inv TH Q s" and p: "pick Q (s_pick_cursor s) = Some (i, c')"
  shows "\<exists>nx T. sched_pick_next_locked s = (hd (Q i), relink (s\<lparr>s_pick_cursor := c'\<rparr>) nx T) \<and> in_rq Q (hd (Q i)) \<and>
    \<not> in_rq (Q(i := tl (Q i))) (hd (Q i)) \<and>
    base_inv TH (Q(i := tl (Q i))) (sched_prepare_running_locked (hd (Q i)) (relink (s\<lparr>s_pick_cursor := c'\<rparr>) nx T))"
proof -
  note q = base_invD(1) [OF b] and c = base_invD(3) [OF b]
  from rq_pop_best_spec [OF q c] p obtain nx T where
    pop: "rq_pop_best_locked s = (hd (Q i), relink (s\<lparr>s_pick_cursor := c'\<rparr>) nx T)" and ne: "Q i \<noteq> []"
    and c': "unat c' < 13" and r: "rqs nx T (Q(i := tl (Q i)))" by auto
  let ?x = "hd (Q i)" and ?Q = "Q(i := tl (Q i))" and ?s1 = "relink (s\<lparr>s_pick_cursor := c'\<rparr>) nx T"
  have x: "in_rq Q ?x" using hd_in_set [OF ne] unfolding in_rq_def by blast
  then have xn: "?x \<noteq> NULL" by (rule rqsD(5) [OF q])
  have "distinct (Q i)" using rqsD(1) [OF q, of i] by (simp add: ring_def)
  then have ntl: "?x \<notin> set (tl (Q i))" using ne by (cases "Q i") auto
  have no: "?x \<notin> set (?Q j)" for j
    using ntl rqsD(2) [OF q, of ?x i j] ne by (cases "j = i") auto
  have sub: "p \<in> set (?Q j) \<Longrightarrow> p \<in> set (Q j)" for p j by (auto dest: list.set_sel(2) [OF ne] split: if_splits)
  have in': "in_rq ?Q p \<longleftrightarrow> in_rq Q p \<and> p \<noteq> ?x" for p
  proof
    assume "in_rq Q p \<and> p \<noteq> ?x"
    then obtain j where "p \<in> set (Q j)" "p \<noteq> ?x" by (auto simp: in_rq_def)
    then have "p \<in> set (?Q j)" using ne by (cases "Q i") auto
    then show "in_rq ?Q p" unfolding in_rq_def by blast
  qed (use no sub in \<open>auto simp: in_rq_def\<close>)
  have nx: "nexts (sched_prepare_running_locked ?x ?s1) = nx" by (simp add: nexts_def) (simp add: relink_def)
  have "base_inv TH ?Q (sched_prepare_running_locked ?x ?s1)"
    unfolding base_inv_def nx sched_prepare_running_sel relink_sel stack_ok_relink in'
  proof (intro conjI allI ballI impI)
    fix j p assume pq: "p \<in> set (?Q j)"
    then have "p \<noteq> ?x" using no by auto
    with pq show "(if p = ?x \<and> ?x \<noteq> NULL then THREAD_RUNNING else th_state (thread_at (s\<lparr>s_pick_cursor := c'\<rparr>) p)) = THREAD_READY"
      and "thread_intent (thread_at (s\<lparr>s_pick_cursor := c'\<rparr>) p) = j"
      using base_invD(4,5) [OF b sub [OF pq]] by simp_all
  qed (use b r xn c' in \<open>auto simp: base_inv_def split: if_splits\<close>)
  then show ?thesis
    using pop xn x in' by (auto simp: sched_pick_next_locked_def)
qed

lemma base_no_dispatch:
  assumes b: "base_inv TH Q s" and p: "pick Q (s_pick_cursor s) = None"
  shows "sched_pick_next_locked s = (s_current s, s)" and "\<not> in_rq Q t"
  using rq_pop_best_spec [OF base_invD(1,3) [OF b]] p by (auto simp: sched_pick_next_locked_def in_rq_def)

section \<open>Contracts of the scheduler operations\<close>

lemma irq_restore_pair: "daif s' = d OR DAIF_I_BIT \<Longrightarrow> irq_restore d s' = s'\<lparr>daif := d\<rparr>"
proof -
  assume a: "daif s' = d OR DAIF_I_BIT"
  have "daif (irq_restore d s') = d"
    by (rule bit_word_eqI) (auto simp: a irq_restore_def and_DAIF_I_BIT_iff bit_simps bit_DAIF_I_BIT)
  moreover have "irq_restore d s' = s'\<lparr>daif := daif (irq_restore d s')\<rparr>" by (simp add: irq_restore_def)
  ultimately show ?thesis by simp
qed

text \<open>What the invariant does not read.\<close>

lemma sched_inv_cong:
  assumes "s_ready_tail s' = s_ready_tail s" "bootstrap_thread s' = bootstrap_thread s" "s_current s' = s_current s"
    "thread_at s' = thread_at s" "s_pick_cursor s' = s_pick_cursor s" "cpu s' = cpu s"
  shows "sched_inv TH Q s' = sched_inv TH Q s" and "base_inv TH Q s' = base_inv TH Q s"
  using assms by (simp_all add: sched_inv_def base_inv_def nexts_def)

lemma sched_inv_frame [simp]:
  "sched_inv TH Q (s\<lparr>daif := d\<rparr>) = sched_inv TH Q s" "base_inv TH Q (s\<lparr>daif := d\<rparr>) = base_inv TH Q s"
  "sched_inv TH Q (s\<lparr>s_stats := st\<rparr>) = sched_inv TH Q s" "base_inv TH Q (s\<lparr>s_stats := st\<rparr>) = base_inv TH Q s"
  "sched_inv TH Q (s\<lparr>need_resched := n\<rparr>) = sched_inv TH Q s" "base_inv TH Q (s\<lparr>need_resched := n\<rparr>) = base_inv TH Q s"
  "sched_inv TH Q (s\<lparr>s_sched_ticks := k\<rparr>) = sched_inv TH Q s"
  "sched_inv TH Q (s\<lparr>task_at := ta\<rparr>) = sched_inv TH Q s"
  "base_inv TH Q (s\<lparr>s_current := x\<rparr>) = base_inv TH Q s"
  by (simp_all add: sched_inv_def base_inv_def nexts_def)

lemma nexts_frame [simp]:
  "nexts (s\<lparr>daif := d\<rparr>) = nexts s" "nexts (s\<lparr>s_stats := st\<rparr>) = nexts s" "nexts (s\<lparr>need_resched := n\<rparr>) = nexts s"
  "nexts (s\<lparr>s_pick_cursor := c\<rparr>) = nexts s"
  by (simp_all add: nexts_def)

lemma rq_next_NULL: "base_inv TH Q s \<Longrightarrow> \<not> in_rq Q t \<Longrightarrow> rq_next (thread_at s t) = NULL"
  using rqsD(3) [OF base_invD(1)] by (simp add: nexts_def)

text \<open>
  The abstract scheduler: \<open>requeue\<close> puts a running thread at the end of the queue of its intent,
  \<open>dispatch\<close> takes the head of the queue the pick pattern names, or stays with the current thread.
\<close>

definition requeue :: "'a sched_globals_scheme \<Rightarrow> (sched_intent \<Rightarrow> ptr list) \<Rightarrow> sched_intent \<Rightarrow> ptr list" where
  "requeue s Q = (let cur = s_current s; i = thread_intent (thread_at s cur) in
     if cur \<noteq> bootstrap_thread s \<and> th_state (thread_at s cur) = THREAD_RUNNING then Q(i := Q i @ [cur]) else Q)"

definition dispatch ::
    "(sched_intent \<Rightarrow> ptr list) \<Rightarrow> u32 \<Rightarrow> ptr \<Rightarrow> ptr \<times> (sched_intent \<Rightarrow> ptr list) \<times> u32" where
  "dispatch Q c cur = (case pick Q c of None \<Rightarrow> (cur, Q, c) | Some (i, c') \<Rightarrow> (hd (Q i), Q(i := tl (Q i)), c'))"

lemma resched:
  assumes b: "base_inv TH Q s" and nr: "\<forall>p\<in>TH. th_state (thread_at s p) \<noteq> THREAD_RUNNING"
    and cur: "s_current s = bootstrap_thread s \<or> s_current s \<in> TH"
    and d: "dispatch Q (s_pick_cursor s) (s_current s) = (next, Q', c')"
  shows "\<exists>nx T. sched_pick_next_locked s = (next, relink (s\<lparr>s_pick_cursor := c'\<rparr>) nx T) \<and> next \<noteq> NULL \<and>
    (next = s_current s \<or> next \<in> TH) \<and>
    sched_inv TH Q' ((sched_prepare_running_locked next (relink (s\<lparr>s_pick_cursor := c'\<rparr>) nx T))\<lparr>s_current := next\<rparr>)"
proof (cases "pick Q (s_pick_cursor s)")
  case None
  then have d': "next = s_current s" "Q' = Q" "c' = s_pick_cursor s" using d by (simp_all add: dispatch_def)
  have n: "s_current s \<noteq> NULL" using cur base_invD(7,9) [OF b] by metis
  let ?s = "relink (s\<lparr>s_pick_cursor := c'\<rparr>) (nexts s) (s_ready_tail s)"
  have s: "?s = s" using d' by (simp add: relink_self)
  have "base_inv TH Q (sched_prepare_running_locked (s_current s) s)"
  proof -
    have "base_inv TH Q (thread_update (s_current s) (\<lambda>th. th\<lparr>th_state := THREAD_RUNNING,
        slice_ticks_budget := sched_slice_for_intent (thread_intent (thread_at s (s_current s))), slice_ticks_used := 0\<rparr>) s)"
      using base_no_dispatch(2) [OF b None] base_invD(6) [OF b] by (intro base_inv_idle [OF b]) (simp_all add: stack_ok_def)
    then show ?thesis using n by (simp add: sched_prepare_running_locked_def Let_def)
  qed
  then have "sched_inv TH Q' ((sched_prepare_running_locked next ?s)\<lparr>s_current := next\<rparr>)"
    unfolding s sched_inv_def using nr cur n d' by (auto simp: n)
  then show ?thesis using base_no_dispatch(1) [OF b None] d' n s by metis
next
  case (Some r)
  obtain i c where r: "r = (i, c)" by fastforce
  with Some d have d': "next = hd (Q i)" "Q' = Q(i := tl (Q i))" "c' = c" by (simp_all add: dispatch_def)
  from base_dispatch [OF b Some [unfolded r]] obtain nx T where
    p: "sched_pick_next_locked s = (next, relink (s\<lparr>s_pick_cursor := c'\<rparr>) nx T)" and i: "in_rq Q next"
    and b': "base_inv TH Q' (sched_prepare_running_locked next (relink (s\<lparr>s_pick_cursor := c'\<rparr>) nx T))"
    unfolding d' by blast
  have m: "next \<in> TH" using base_invD(2) [OF b i] .
  then have "next \<noteq> NULL" using base_invD(7) [OF b] by blast
  with p m b' nr show ?thesis unfolding sched_inv_def by (intro exI [of _ nx] exI [of _ T]) auto
qed

lemma sched_inv_ctx_switch:
  assumes i: "sched_inv TH Q s" and n: "next \<in> TH"
  shows "sched_inv TH Q (ctx_switch prev next s)"
proof -
  note b = i [unfolded sched_inv_def, THEN conjunct1]
  let ?s = "ctx_switch prev next s"
  have th: "rq_next (thread_at ?s p) = rq_next (thread_at s p)" "th_state (thread_at ?s p) = th_state (thread_at s p)"
    "thread_intent (thread_at ?s p) = thread_intent (thread_at s p)" "p \<in> TH \<Longrightarrow> stack_ok (thread_at ?s p)" for p
    using base_invD(6) [OF b, of p] base_invD(12) [OF b]
    by (auto simp: ctx_switch_def Let_def thread_intent_def stack_ok_def)
  have "sp (cpu ?s) AND 0xF = 0"
    using base_invD(6) [OF b n] base_invD(12) [OF b] by (simp add: ctx_switch_def Let_def stack_ok_def)
  then have "base_inv TH Q ?s"
    by (intro base_inv_cong [OF b]) (use th base_invD(3) [OF b] in \<open>simp_all add: ctx_switch_def Let_def\<close>)
  moreover have "s_current ?s = s_current s" "bootstrap_thread ?s = bootstrap_thread s"
    by (simp_all add: ctx_switch_def Let_def)
  ultimately show ?thesis using i th(2) by (simp add: sched_inv_def)
qed

text \<open>The first half of \<open>yield\<close> and of the interrupt exit: the running thread goes to its queue.\<close>

lemma sched_inv_current:
  assumes "sched_inv TH Q s"
  shows "base_inv TH Q s" and "\<not> in_rq Q (s_current s)" and "s_current s \<noteq> NULL"
    and "s_current s \<noteq> bootstrap_thread s \<Longrightarrow> s_current s \<in> TH" and "rq_next (thread_at s (s_current s)) = NULL"
    and "p \<in> TH \<Longrightarrow> th_state (thread_at s p) = THREAD_RUNNING \<Longrightarrow> p = s_current s"
proof -
  show b: "base_inv TH Q s" using assms by (simp add: sched_inv_def)
  show q: "\<not> in_rq Q (s_current s)"
    using assms base_invD(2,8,10) [OF b] by (auto simp: sched_inv_def)
  show "s_current s \<noteq> NULL" using assms base_invD(7,9) [OF b] by (auto simp: sched_inv_def)
  show "s_current s \<noteq> bootstrap_thread s \<Longrightarrow> s_current s \<in> TH" using assms by (auto simp: sched_inv_def)
  show "rq_next (thread_at s (s_current s)) = NULL" by (rule rq_next_NULL [OF b q])
  show "p \<in> TH \<Longrightarrow> th_state (thread_at s p) = THREAD_RUNNING \<Longrightarrow> p = s_current s"
    using assms by (auto simp: sched_inv_def)
qed

lemma requeue_step:
  assumes i: "sched_inv TH Q s" and f: "rq_next (f (thread_at s (s_current s))) = NULL"
      "th_state (f (thread_at s (s_current s))) = THREAD_READY"
      "thread_intent (f (thread_at s (s_current s))) = thread_intent (thread_at s (s_current s))"
      "s_current s \<in> TH \<Longrightarrow> stack_ok (f (thread_at s (s_current s)))"
  defines "cur \<equiv> s_current s"
  defines "go \<equiv> cur \<noteq> bootstrap_thread s \<and> th_state (thread_at s cur) = THREAD_RUNNING"
  shows "\<exists>nx T. (if go then rq_insert_tail_locked cur (thread_update cur f s) else Ret s) =
      Ret (relink (if go then thread_update cur f s else s) nx T) \<and>
    base_inv TH (requeue s Q) (relink (if go then thread_update cur f s else s) nx T) \<and>
    (\<forall>p\<in>TH. th_state (thread_at (if go then thread_update cur f s else s) p) \<noteq> THREAD_RUNNING)"
proof (cases go)
  case True
  note c = sched_inv_current [OF i]
  have t: "cur \<in> TH" "cur \<noteq> NULL" "cur \<noteq> bootstrap_thread s" "\<not> in_rq Q cur"
    using True c(2-4) by (simp_all add: go_def cur_def)
  have "insert cur TH = TH" using t by auto
  moreover have "requeue s Q = Q(thread_intent (f (thread_at s cur)) := Q (thread_intent (f (thread_at s cur))) @ [cur])"
    using True f(3) by (simp add: requeue_def Let_def cur_def go_def)
  moreover have "\<forall>p\<in>TH. th_state (thread_at (thread_update cur f s) p) \<noteq> THREAD_RUNNING"
    using c(6) f(2) by (auto simp: cur_def)
  moreover have "\<exists>nx T. rq_insert_tail_locked cur (thread_update cur f s) = Ret (relink (thread_update cur f s) nx T) \<and>
      base_inv (insert cur TH) (Q(thread_intent (f (thread_at s cur)) := Q (thread_intent (f (thread_at s cur))) @ [cur]))
        (relink (thread_update cur f s) nx T)"
    using f c(5) t by (intro base_enqueue [OF c(1)]) (simp_all add: cur_def)
  ultimately show ?thesis
    using True by (simp del: fun_upd_apply)
next
  case False
  note c = sched_inv_current [OF i]
  have "\<forall>p\<in>TH. th_state (thread_at s p) \<noteq> THREAD_RUNNING"
    using False c(6) base_invD(8) [OF c(1)] by (auto simp: go_def cur_def)
  moreover have "requeue s Q = Q" using False by (auto simp: requeue_def Let_def cur_def go_def)
  ultimately show ?thesis using False c(1) relink_self [of s]
    by (intro exI [of _ "nexts s"] exI [of _ "s_ready_tail s"]) simp
qed

lemma ctx_switch_sel [simp]:
  "s_current (ctx_switch p n s) = s_current s" "s_pick_cursor (ctx_switch p n s) = s_pick_cursor s"
  "daif (ctx_switch p n s) = daif s" "need_resched (ctx_switch p n s) = need_resched s"
  "th_state (thread_at (ctx_switch p n s) q) = th_state (thread_at s q)"
  "p \<noteq> n \<Longrightarrow> cpu (ctx_switch p n s) = th_ctx (thread_at s n)" "th_ctx (thread_at (ctx_switch p n s) p) = cpu s"
  by (simp_all add: ctx_switch_def Let_def)

definition switch_post ::
    "'a sched_globals_scheme \<Rightarrow> ptr \<Rightarrow> switch_result \<Rightarrow> 'a sched_globals_scheme \<Rightarrow> bool" where
  "switch_post s next r s' \<longleftrightarrow>
     s_current s' = next \<and> th_state (thread_at s' next) = THREAD_RUNNING \<and>
     (if next = s_current s then r = Returned \<and> daif s' = daif s \<and> cpu s' = cpu s
      else r = Switched (daif s) \<and> irq_irqs_disabled s' \<and> cpu s' = th_ctx (thread_at s next) \<and>
        th_ctx (thread_at s' (s_current s)) = cpu s)"

lemma irqs_disabled_or: "daif s' = d OR DAIF_I_BIT \<Longrightarrow> irq_irqs_disabled s'"
  by (simp add: irq_irqs_disabled_def and_DAIF_I_BIT_iff bit_or_iff bit_DAIF_I_BIT del: word_ao_absorbs)

lemma yield_spec:
  assumes i: "sched_inv TH Q s" and nirq: "\<not> in_irq s"
    and d: "dispatch (requeue s Q) (s_pick_cursor s) (s_current s) = (next, Q', c')"
  shows "\<exists>r s'. yield s = Ret (r, s') \<and> sched_inv TH Q' s' \<and> s_pick_cursor s' = c' \<and> need_resched s' = 0 \<and>
    switch_post s next r s'"
proof -
  define s2 where "s2 = preempt_clear_need_resched (s\<lparr>daif := daif s OR DAIF_I_BIT,
    s_stats := (s_stats s)\<lparr>yield_calls := yield_calls (s_stats s) + 1\<rparr>\<rparr>)"
  have eq: "s_current s2 = s_current s" "bootstrap_thread s2 = bootstrap_thread s" "thread_at s2 = thread_at s"
    "s_pick_cursor s2 = s_pick_cursor s" "daif s2 = daif s OR DAIF_I_BIT" "cpu s2 = cpu s" "need_resched s2 = 0"
    by (simp_all add: s2_def preempt_clear_need_resched_def)
  have i2: "sched_inv TH Q s2" using i by (simp add: s2_def preempt_clear_need_resched_def)
  have rq: "requeue s2 Q = requeue s Q" by (simp add: requeue_def eq)
  note c = sched_inv_current [OF i]
  let ?f = "\<lambda>th. th\<lparr>th_state := THREAD_READY\<rparr>" and ?cur = "s_current s"
  let ?go = "?cur \<noteq> bootstrap_thread s \<and> th_state (thread_at s ?cur) = THREAD_RUNNING"
  define u where "u = (if ?go then thread_update ?cur ?f s2 else s2)"
  have "\<exists>nx T. (if ?go then rq_insert_tail_locked ?cur (thread_update ?cur ?f s2) else Ret s2) =
      Ret (relink u nx T) \<and> base_inv TH (requeue s Q) (relink u nx T) \<and>
      (\<forall>p\<in>TH. th_state (thread_at u p) \<noteq> THREAD_RUNNING)"
    using requeue_step [OF i2, of ?f] c(5) base_invD(6) [OF c(1)] unfolding eq rq u_def
    by (simp add: thread_intent_def stack_ok_def del: fun_upd_apply)
  then obtain nx T where ins: "(if ?go then rq_insert_tail_locked ?cur (thread_update ?cur ?f s2) else Ret s2) = Ret (relink u nx T)"
    and b: "base_inv TH (requeue s Q) (relink u nx T)" and nr: "\<forall>p\<in>TH. th_state (thread_at u p) \<noteq> THREAD_RUNNING"
    by blast
  let ?u = "relink u nx T"
  have eu: "s_current u = ?cur" "bootstrap_thread u = bootstrap_thread s" "s_pick_cursor u = s_pick_cursor s"
    "daif u = daif s OR DAIF_I_BIT" "cpu u = cpu s" "need_resched u = 0"
    "th_ctx (thread_at u p) = th_ctx (thread_at s p)" for p
    by (simp_all add: u_def eq)
  obtain nx' T' where pk: "sched_pick_next_locked ?u = (next, relink (?u\<lparr>s_pick_cursor := c'\<rparr>) nx' T')"
    and n: "next \<noteq> NULL" "next = ?cur \<or> next \<in> TH"
    and i4: "sched_inv TH Q' ((sched_prepare_running_locked next (relink (?u\<lparr>s_pick_cursor := c'\<rparr>) nx' T'))\<lparr>s_current := next\<rparr>)"
    using resched [OF b, of "next" Q' c'] nr d c(4) by (auto simp: eu)
  define v where "v = sched_prepare_running_locked next (relink (?u\<lparr>s_pick_cursor := c'\<rparr>) nx' T')"
  have ev: "s_current v = ?cur" "s_pick_cursor v = c'" "daif v = daif s OR DAIF_I_BIT" "cpu v = cpu s" "need_resched v = 0"
    "th_state (thread_at v next) = THREAD_RUNNING" "th_ctx (thread_at v p) = th_ctx (thread_at s p)" for p
    using n by (simp_all add: v_def eu)
  have y: "yield s = (if next = ?cur then Ret (Returned, irq_restore (daif s) v)
      else Ret (Switched (daif s), ctx_switch ?cur next
        (v\<lparr>s_current := next, s_stats := (s_stats v)\<lparr>context_switches := context_switches (s_stats v) + 1\<rparr>\<rparr>)))"
  proof -
    have "yield s = obind (if ?go then rq_insert_tail_locked ?cur (thread_update ?cur ?f s2) else Ret s2) (\<lambda>s3.
        case sched_pick_next_locked s3 of (next, s4) \<Rightarrow>
          if next = NULL then Ret (Returned, irq_restore (daif s) s4)
          else if next = ?cur then Ret (Returned, irq_restore (daif s) (sched_prepare_running_locked ?cur s4))
          else let s5 = (sched_prepare_running_locked next s4)\<lparr>s_current := next\<rparr> in
            Ret (Switched (daif s), ctx_switch ?cur next
              (s5\<lparr>s_stats := (s_stats s5)\<lparr>context_switches := context_switches (s_stats s5) + 1\<rparr>\<rparr>)))"
      using nirq c(3,5) unfolding yield_def s2_def irq_save_def Let_def preempt_clear_need_resched_def
      by (simp cong: if_cong)
    then show ?thesis unfolding ins using pk n(1) by (simp add: v_def Let_def)
  qed
  show ?thesis
  proof (cases "next = ?cur")
    case True
    have "v\<lparr>s_current := ?cur\<rparr> = v" using ev(1) by simp
    then have "sched_inv TH Q' (v\<lparr>daif := daif s\<rparr>)" using i4 [folded v_def] True by simp
    with True y ev show ?thesis by (simp add: irq_restore_pair switch_post_def)
  next
    case False
    let ?w = "v\<lparr>s_current := next, s_stats := (s_stats v)\<lparr>context_switches := context_switches (s_stats v) + 1\<rparr>\<rparr>"
    have "sched_inv TH Q' ?w" using i4 [folded v_def] by simp
    then have "sched_inv TH Q' (ctx_switch ?cur next ?w)" using n False by (intro sched_inv_ctx_switch) auto
    with False y ev show ?thesis by (simp add: switch_post_def irqs_disabled_or)
  qed
qed

lemma sched_block_current_spec:
  assumes i: "sched_inv TH Q s" and nirq: "\<not> in_irq s" and nb: "s_current s \<noteq> bootstrap_thread s"
    and d: "dispatch Q (s_pick_cursor s) (s_current s) = (next, Q', c')"
  shows "\<exists>r s'. sched_block_current s = Ret (r, s') \<and> sched_inv TH Q' s' \<and> s_pick_cursor s' = c' \<and>
    need_resched s' = need_resched s \<and> switch_post s next r s' \<and>
    (next \<noteq> s_current s \<longrightarrow> th_state (thread_at s' (s_current s)) = THREAD_BLOCKED)"
proof -
  note c = sched_inv_current [OF i]
  let ?cur = "s_current s" and ?f = "\<lambda>th. th\<lparr>th_state := THREAD_BLOCKED\<rparr>"
  define u where "u = thread_update ?cur ?f (s\<lparr>daif := daif s OR DAIF_I_BIT\<rparr>)"
  have eu: "s_current u = ?cur" "bootstrap_thread u = bootstrap_thread s" "s_pick_cursor u = s_pick_cursor s"
    "daif u = daif s OR DAIF_I_BIT" "cpu u = cpu s" "need_resched u = need_resched s"
    "th_ctx (thread_at u p) = th_ctx (thread_at s p)" for p
    by (simp_all add: u_def)
  have b: "base_inv TH Q u"
    unfolding u_def using c(1,2) base_invD(6) [OF c(1)] by (intro base_inv_idle) (simp_all add: stack_ok_def)
  have nr: "\<forall>p\<in>TH. th_state (thread_at u p) \<noteq> THREAD_RUNNING" using c(6) by (auto simp: u_def)
  obtain nx T where pk: "sched_pick_next_locked u = (next, relink (u\<lparr>s_pick_cursor := c'\<rparr>) nx T)"
    and n: "next \<noteq> NULL" "next = ?cur \<or> next \<in> TH"
    and i4: "sched_inv TH Q' ((sched_prepare_running_locked next (relink (u\<lparr>s_pick_cursor := c'\<rparr>) nx T))\<lparr>s_current := next\<rparr>)"
    using resched [OF b nr, of "next" Q' c'] d c(4) by (auto simp: eu)
  let ?u = "relink (u\<lparr>s_pick_cursor := c'\<rparr>) nx T"
  define v where "v = sched_prepare_running_locked next ?u"
  have ev: "s_current v = ?cur" "s_pick_cursor v = c'" "daif v = daif s OR DAIF_I_BIT" "cpu v = cpu s"
    "need_resched v = need_resched s" "th_state (thread_at v next) = THREAD_RUNNING"
    "th_ctx (thread_at v p) = th_ctx (thread_at s p)" "?cur \<noteq> next \<Longrightarrow> th_state (thread_at v ?cur) = THREAD_BLOCKED" for p
    using n by (simp_all add: v_def eu) (simp add: u_def)
  have y: "sched_block_current s = (if next = ?cur
      then Ret (Returned, irq_restore (daif s) (thread_update ?cur (\<lambda>th. th\<lparr>th_state := THREAD_RUNNING\<rparr>) ?u))
      else Ret (Switched (daif s), ctx_switch ?cur next
        (v\<lparr>s_current := next, s_stats := (s_stats v)\<lparr>context_switches := context_switches (s_stats v) + 1\<rparr>\<rparr>)))"
  proof -
    have u: "s\<lparr>daif := daif s OR DAIF_I_BIT, thread_at := (thread_at s)(?cur := (thread_at s ?cur)\<lparr>th_state := THREAD_BLOCKED\<rparr>)\<rparr> = u"
      by (simp add: u_def)
    show ?thesis
      using nirq c(3,5) nb pk n(1) unfolding sched_block_current_def irq_save_def by (simp add: Let_def u v_def)
  qed
  show ?thesis
  proof (cases "next = ?cur")
    case True
    let ?w = "thread_update ?cur (\<lambda>th. th\<lparr>th_state := THREAD_RUNNING\<rparr>) ?u"
    have r: "irq_restore (daif s) ?w = ?w\<lparr>daif := daif s\<rparr>" by (rule irq_restore_pair) (simp add: eu)
    have "v\<lparr>s_current := ?cur\<rparr> = v" using ev(1) by simp
    then have iv: "sched_inv TH Q' v" using i4 [folded v_def] True by simp
    have bw: "base_inv TH Q' ?w"
    proof (rule base_inv_cong [OF sched_inv_current(1) [OF iv]])
      show "sp (cpu ?w) AND 0xF = 0" using base_invD(12) [OF c(1)] by (simp add: eu)
      show "unat (s_pick_cursor ?w) < 13" using base_invD(3) [OF sched_inv_current(1) [OF iv]] ev by simp
      fix p
      show "rq_next (thread_at ?w p) = rq_next (thread_at v p)" by (simp add: v_def)
      show "p \<in> TH \<Longrightarrow> th_state (thread_at ?w p) = th_state (thread_at v p) \<and>
         thread_intent (thread_at ?w p) = thread_intent (thread_at v p) \<and> stack_ok (thread_at ?w p)"
        using base_invD(6) [OF b, of p] True n by (auto simp: v_def)
    qed (simp_all add: v_def)
    have "th_state (thread_at ?w p) = th_state (thread_at v p)" for p using True n by (simp add: v_def)
    with bw iv have "sched_inv TH Q' ?w" by (simp add: sched_inv_def v_def)
    with True y ev eu show ?thesis by (simp add: r switch_post_def)
  next
    case False
    let ?w = "v\<lparr>s_current := next, s_stats := (s_stats v)\<lparr>context_switches := context_switches (s_stats v) + 1\<rparr>\<rparr>"
    have "sched_inv TH Q' ?w" using i4 [folded v_def] by simp
    then have "sched_inv TH Q' (ctx_switch ?cur next ?w)" using n False by (intro sched_inv_ctx_switch) auto
    with False y ev show ?thesis by (simp add: switch_post_def irqs_disabled_or)
  qed
qed

text \<open>Making a blocked or new thread ready.\<close>

lemma sched_inv_enqueue:
  assumes i: "sched_inv TH Q s" and t: "t \<noteq> NULL" "t \<noteq> bootstrap_thread s" "\<not> in_rq Q t" "t \<noteq> s_current s" "stack_ok (thread_at s t)"
  defines "j \<equiv> thread_intent (thread_at s t)"
  shows "\<exists>nx T. rq_insert_tail_locked t (thread_update t (\<lambda>th. th\<lparr>th_state := THREAD_READY\<rparr>) s) =
      Ret (relink (thread_update t (\<lambda>th. th\<lparr>th_state := THREAD_READY\<rparr>) s) nx T) \<and>
    sched_inv (insert t TH) (Q(j := Q j @ [t])) (relink (thread_update t (\<lambda>th. th\<lparr>th_state := THREAD_READY\<rparr>) s) nx T)"
proof -
  note c = sched_inv_current [OF i]
  let ?f = "\<lambda>th. th\<lparr>th_state := THREAD_READY\<rparr>"
  have "\<exists>nx T. rq_insert_tail_locked t (thread_update t ?f s) = Ret (relink (thread_update t ?f s) nx T) \<and>
      base_inv (insert t TH) (Q(thread_intent (?f (thread_at s t)) := Q (thread_intent (?f (thread_at s t))) @ [t]))
        (relink (thread_update t ?f s) nx T)"
    using t by (intro base_enqueue [OF c(1)]) simp_all
  then obtain nx T where r: "rq_insert_tail_locked t (thread_update t ?f s) = Ret (relink (thread_update t ?f s) nx T)"
    and b: "base_inv (insert t TH) (Q(j := Q j @ [t])) (relink (thread_update t ?f s) nx T)" by (auto simp: j_def)
  have "sched_inv (insert t TH) (Q(j := Q j @ [t])) (relink (thread_update t ?f s) nx T)"
    using b i t(4) by (auto simp: sched_inv_def)
  with r show ?thesis by blast
qed

lemma sched_enqueue_spec:
  assumes i: "sched_inv TH Q s" and t: "t \<noteq> NULL" "t \<noteq> bootstrap_thread s" "\<not> in_rq Q t" "t \<noteq> s_current s" "stack_ok (thread_at s t)"
    and d: "th_state (thread_at s t) \<noteq> THREAD_DEAD"
  defines "j \<equiv> thread_intent (thread_at s t)"
  shows "\<exists>nx T. sched_enqueue t s = Ret (relink (thread_update t (\<lambda>th. th\<lparr>th_state := THREAD_READY\<rparr>) s) nx T) \<and>
    sched_inv (insert t TH) (Q(j := Q j @ [t])) (relink (thread_update t (\<lambda>th. th\<lparr>th_state := THREAD_READY\<rparr>) s) nx T)"
proof -
  let ?f = "\<lambda>th. th\<lparr>th_state := THREAD_READY\<rparr>" and ?s = "s\<lparr>daif := daif s OR DAIF_I_BIT\<rparr>"
  obtain nx T where r: "rq_insert_tail_locked t (thread_update t ?f ?s) = Ret (relink (thread_update t ?f ?s) nx T)"
    and i': "sched_inv (insert t TH) (Q(j := Q j @ [t])) (relink (thread_update t ?f ?s) nx T)"
    using sched_inv_enqueue [of TH Q ?s t] i t by (auto simp: j_def)
  have eq: "(relink (thread_update t ?f ?s) nx T)\<lparr>daif := daif s\<rparr> = relink (thread_update t ?f s) nx T"
    by (simp add: relink_daif)
  have "sched_enqueue t s = Ret (relink (thread_update t ?f s) nx T)"
    using t(1) d r by (simp add: sched_enqueue_def irq_save_def irq_restore_pair relink_daif)
  moreover have "sched_inv (insert t TH) (Q(j := Q j @ [t])) (relink (thread_update t ?f s) nx T)"
    unfolding eq [symmetric] sched_inv_frame(1) by (rule i')
  ultimately show ?thesis by blast
qed

lemma daif_same [simp]: "irq_restore (daif s) (s\<lparr>daif := daif s OR DAIF_I_BIT\<rparr>) = s"
  using irq_restore_pair [of "s\<lparr>daif := daif s OR DAIF_I_BIT\<rparr>" "daif s"] by simp

lemma sched_wake_spec:
  assumes i: "sched_inv TH Q s" and nirq: "\<not> in_irq s" and t: "t \<in> TH"
  defines "j \<equiv> thread_intent (thread_at s t)"
  shows "th_state (thread_at s t) = THREAD_BLOCKED \<Longrightarrow>
      \<exists>nx T. sched_wake t s = Ret (relink (thread_update t (\<lambda>th. th\<lparr>th_state := THREAD_READY\<rparr>) s) nx T) \<and>
        sched_inv TH (Q(j := Q j @ [t])) (relink (thread_update t (\<lambda>th. th\<lparr>th_state := THREAD_READY\<rparr>) s) nx T)"
    and "th_state (thread_at s t) \<noteq> THREAD_BLOCKED \<Longrightarrow> sched_wake t s = Ret s"
proof -
  note c = sched_inv_current [OF i]
  have n: "t \<noteq> NULL" using base_invD(7) [OF c(1) t] .
  then show "th_state (thread_at s t) \<noteq> THREAD_BLOCKED \<Longrightarrow> sched_wake t s = Ret s"
    using nirq by (simp add: sched_wake_def irq_save_def)
  assume bl: "th_state (thread_at s t) = THREAD_BLOCKED"
  have nq: "\<not> in_rq Q t" using base_invD(10) [OF c(1), of t] bl by auto
  have nb: "t \<noteq> bootstrap_thread s" using base_invD(8) [OF c(1)] t by auto
  then have nc: "t \<noteq> s_current s" using i bl by (auto simp: sched_inv_def)
  have "sched_wake t s = sched_enqueue t s"
    using n bl nirq by (simp add: sched_wake_def sched_enqueue_def irq_save_def)
  moreover have "insert t TH = TH" using t by auto
  ultimately show "\<exists>nx T. sched_wake t s = Ret (relink (thread_update t (\<lambda>th. th\<lparr>th_state := THREAD_READY\<rparr>) s) nx T) \<and>
        sched_inv TH (Q(j := Q j @ [t])) (relink (thread_update t (\<lambda>th. th\<lparr>th_state := THREAD_READY\<rparr>) s) nx T)"
    using sched_enqueue_spec [OF i n nb nq nc base_invD(6) [OF c(1) t]] bl by (simp add: j_def)
qed

text \<open>Changing fields the invariant does not read, of a thread that is not queued.\<close>

lemma sched_inv_thread_update:
  assumes i: "sched_inv TH Q s" and t: "\<not> in_rq Q t" and f: "rq_next (f (thread_at s t)) = rq_next (thread_at s t)"
    "th_state (f (thread_at s t)) = th_state (thread_at s t)" "t \<in> TH \<Longrightarrow> stack_ok (f (thread_at s t))"
  shows "sched_inv TH Q (thread_update t f s)"
proof -
  note b = sched_inv_current(1) [OF i]
  let ?s = "thread_update t f s"
  have nx: "nexts ?s = nexts s" using f(1) by (auto simp: nexts_def fun_eq_iff)
  have "base_inv TH Q ?s"
    unfolding base_inv_def nx
  proof (intro conjI allI ballI impI)
    fix j p assume "p \<in> set (Q j)"
    moreover from this have "p \<noteq> t" using t by (auto simp: in_rq_def)
    ultimately show "th_state (thread_at ?s p) = THREAD_READY" "thread_intent (thread_at ?s p) = j"
      using base_invD(4,5) [OF b] by simp_all
  next
    fix p assume "p \<in> TH"
    then show "stack_ok (thread_at ?s p)" using base_invD(6) [OF b, of p] f(3) by auto
  next
    fix p assume "p \<in> TH" "th_state (thread_at ?s p) = THREAD_READY"
    then show "in_rq Q p" using base_invD(11) [OF b, of p] f(2) by (auto split: if_splits)
  qed (use b in \<open>simp_all add: base_inv_def\<close>)
  then show ?thesis using i f(2) by (auto simp: sched_inv_def)
qed

lemma sched_inv_thread_same:
  assumes i: "sched_inv TH Q s" and f: "\<forall>th. rq_next (f th) = rq_next th \<and> th_state (f th) = th_state th \<and>
    thread_intent (f th) = thread_intent th \<and> stack_ok (f th) = stack_ok th"
  shows "sched_inv TH Q (thread_update t f s)"
proof -
  note b = sched_inv_current(1) [OF i]
  have "base_inv TH Q (thread_update t f s)"
    by (rule base_inv_cong [OF b]) (use f base_invD(3,6,12) [OF b] in auto)
  then show ?thesis using i f by (auto simp: sched_inv_def)
qed

lemma sched_on_timer_tick_inv:
  assumes i: "sched_inv TH Q s"
  shows "sched_inv TH Q (sched_on_timer_tick s)"
proof -
  define u where "u = s\<lparr>s_sched_ticks := s_sched_ticks s + 1\<rparr>"
  let ?cur = "s_current s"
  have iu: "sched_inv TH Q u" "s_current u = ?cur" using i by (simp_all add: u_def)
  have upd: "sched_inv TH Q (thread_update (s_current v) f v) \<and> s_current (thread_update (s_current v) f v) = s_current v"
    if "sched_inv TH Q v" "\<forall>th. rq_next (f th) = rq_next th \<and> th_state (f th) = th_state th \<and> stack_ok (f th) = stack_ok th" for v f
    using that base_invD(6) [OF sched_inv_current(1) [OF that(1)]] sched_inv_current(2) [OF that(1)]
    by (auto intro: sched_inv_thread_update)
  have ch: "sched_inv TH Q (sched_charge_task (s_current v) v) \<and> s_current (sched_charge_task (s_current v) v) = s_current v"
    if v: "sched_inv TH Q v" for v
  proof -
    have "sched_inv TH Q (thread_update (s_current v) (\<lambda>th. th\<lparr>sched_intent := n\<rparr>) (v\<lparr>task_at := ta\<rparr>))" for n ta
      using upd [of "v\<lparr>task_at := ta\<rparr>" "\<lambda>th. th\<lparr>sched_intent := n\<rparr>"] v by simp
    then show ?thesis using v by (simp add: sched_charge_task_def Let_def preempt_set_need_resched_def)
  qed
  define w where "w = (if ?cur \<noteq> bootstrap_thread u then sched_charge_task ?cur
      (thread_update ?cur (\<lambda>th. th\<lparr>runtime_ticks_total := runtime_ticks_total th + 1\<rparr>) u) else u)"
  have w: "sched_inv TH Q w \<and> s_current w = ?cur"
  proof (cases "?cur = bootstrap_thread u")
    case False
    let ?x = "thread_update ?cur (\<lambda>th. th\<lparr>runtime_ticks_total := runtime_ticks_total th + 1\<rparr>) u"
    have "sched_inv TH Q ?x" "s_current ?x = ?cur"
      using upd [OF iu(1), of "\<lambda>th. th\<lparr>runtime_ticks_total := runtime_ticks_total th + 1\<rparr>"] iu(2) by simp_all
    then show ?thesis using False ch [of ?x] by (simp add: w_def)
  qed (use iu in \<open>simp add: w_def\<close>)
  have "sched_inv TH Q (thread_update ?cur (\<lambda>th. th\<lparr>slice_ticks_used := slice_ticks_used th + 1\<rparr>) w)"
    using upd [of w "\<lambda>th. th\<lparr>slice_ticks_used := slice_ticks_used th + 1\<rparr>"] w by simp
  moreover have "sched_on_timer_tick s =
      (let s2 = thread_update ?cur (\<lambda>th. th\<lparr>slice_ticks_used := slice_ticks_used th + 1\<rparr>) w; th = thread_at s2 ?cur in
       if slice_ticks_budget th = 0 \<or> slice_ticks_budget th \<le> slice_ticks_used th
       then preempt_set_need_resched s2 else s2)"
    using iu(2) sched_inv_current(3) [OF i]
    unfolding sched_on_timer_tick_def u_def [symmetric] Let_def w_def by (simp only: if_False)
  ultimately show ?thesis by (simp add: Let_def preempt_set_need_resched_def)
qed

lemma base_remove:
  assumes b: "base_inv TH Q s" and t: "t \<in> set (Q j)"
  shows "\<exists>nx T as bs. rq_remove_locked t s = Ret (True, relink s nx T) \<and> Q j = as @ t # bs \<and>
    base_inv (TH - {t}) (Q(j := as @ bs)) (relink s nx T) \<and> \<not> in_rq (Q(j := as @ bs)) t"
proof -
  note q = base_invD(1) [OF b]
  from rq_remove_spec [OF q t] obtain nx T as bs where
    r: "rq_remove_locked t s = Ret (True, relink s nx T)" and Qj: "Q j = as @ t # bs" and q': "rqs nx T (Q(j := as @ bs))"
    by blast
  let ?Q = "Q(j := as @ bs)"
  have "distinct (Q j)" using rqsD(1) [OF q, of j] by (simp add: ring_def)
  then have "t \<notin> set (as @ bs)" unfolding Qj by simp
  then have no: "t \<notin> set (?Q k)" for k using rqsD(2) [OF q t, of k] by (cases "k = j") (simp, auto)
  have sub: "p \<in> set (Q k) \<longleftrightarrow> p \<in> set (?Q k) \<or> p = t \<and> k = j" for p k using Qj by (cases "k = j") auto
  have in': "in_rq ?Q p \<longleftrightarrow> in_rq Q p \<and> p \<noteq> t" for p unfolding in_rq_def using sub no by blast
  have "base_inv (TH - {t}) ?Q (relink s nx T)"
    unfolding base_inv_def relink_sel stack_ok_relink in'
  proof (intro conjI allI ballI impI)
    fix k p assume "p \<in> set (?Q k)"
    then have "p \<in> set (Q k)" using sub by blast
    then show "th_state (thread_at s p) = THREAD_READY" "thread_intent (thread_at s p) = k"
      by (rule base_invD(4,5) [OF b])+
  qed (use b q' in \<open>auto simp: base_inv_def\<close>)
  moreover have "\<not> in_rq ?Q t" using in' by blast
  ultimately show ?thesis using r Qj by blast
qed

text \<open>
  A change of a thread's intent: a queued thread leaves its place and goes to the end of the queue of the
  new intent; for any other thread the intent is recorded.
\<close>

lemma in_rq_next: "base_inv TH Q s \<Longrightarrow> in_rq Q t \<Longrightarrow> rq_next (thread_at s t) \<noteq> NULL"
  using rqs_in_next [OF base_invD(1)] by (simp add: nexts_def)

lemma intent_byte: "ucast (ucast (intent_value i) :: u8) = intent_value i"
  by (cases i) simp_all

lemma sched_set_thread_intent_spec:
  fixes raw :: u32
  assumes i: "sched_inv TH Q s" and t: "t \<in> TH"
  defines "j \<equiv> thread_intent (thread_at s t)" and "k \<equiv> sched_intent_sanitize raw"
  assumes ch: "ucast (sched_intent (thread_at s t)) \<noteq> intent_value k"
  shows "\<not> in_rq Q t \<Longrightarrow> sched_set_thread_intent t raw s = Ret (thread_update t (\<lambda>th. th\<lparr>sched_intent := ucast (intent_value k)\<rparr>) s) \<and>
      sched_inv TH Q (thread_update t (\<lambda>th. th\<lparr>sched_intent := ucast (intent_value k)\<rparr>) s)"
    and "in_rq Q t \<Longrightarrow> \<exists>as bs s'. sched_set_thread_intent t raw s = Ret s' \<and> Q j = as @ t # bs \<and>
      sched_inv TH ((Q(j := as @ bs))(k := (Q(j := as @ bs)) k @ [t])) s'"
proof -
  note c = sched_inv_current [OF i]
  have n: "t \<noteq> NULL" using base_invD(7) [OF c(1) t] .
  let ?f = "\<lambda>th :: thread. th\<lparr>sched_intent := ucast (intent_value k)\<rparr>" and ?s = "s\<lparr>daif := daif s OR DAIF_I_BIT\<rparr>"
  {
    assume nq: "\<not> in_rq Q t"
    have "rq_next (thread_at s t) = NULL" by (rule rq_next_NULL [OF c(1) nq])
    then have "sched_set_thread_intent t raw s = Ret (irq_restore (daif s) (thread_update t ?f ?s))"
      using n ch by (simp add: sched_set_thread_intent_def irq_save_def Let_def k_def)
    moreover have "sched_inv TH Q (thread_update t ?f s)"
      using nq base_invD(6) [OF c(1) t] by (intro sched_inv_thread_update [OF i]) simp_all
    ultimately show "sched_set_thread_intent t raw s = Ret (thread_update t ?f s) \<and> sched_inv TH Q (thread_update t ?f s)"
      by (simp add: irq_restore_pair)
  }
  assume q: "in_rq Q t"
  then obtain j' where "t \<in> set (Q j')" by (auto simp: in_rq_def)
  moreover have "j' = j" using base_invD(5) [OF c(1) calculation] by (simp add: j_def)
  ultimately have tj: "t \<in> set (Q j)" by simp
  have b: "base_inv TH Q ?s" using c(1) by simp
  from base_remove [OF b tj] obtain nx T as bs where rm: "rq_remove_locked t ?s = Ret (True, relink ?s nx T)"
    and Qj: "Q j = as @ t # bs" and b1: "base_inv (TH - {t}) (Q(j := as @ bs)) (relink ?s nx T)"
    and no: "\<not> in_rq (Q(j := as @ bs)) t" by blast
  let ?r = "relink ?s nx T" and ?Q = "Q(j := as @ bs)"
  have st: "th_state (thread_at s t) = THREAD_READY" using base_invD(10) [OF c(1) q] .
  have ki: "thread_intent (?f (thread_at ?r t)) = k"
    by (simp add: thread_intent_def intent_byte)
  have "\<exists>nx T. rq_insert_tail_locked t (thread_update t ?f ?r) = Ret (relink (thread_update t ?f ?r) nx T) \<and>
      base_inv (insert t (TH - {t})) (?Q(thread_intent (?f (thread_at ?r t)) := ?Q (thread_intent (?f (thread_at ?r t))) @ [t]))
        (relink (thread_update t ?f ?r) nx T)"
    using n no st base_invD(6) [OF c(1) t] base_invD(8) [OF c(1)] t by (intro base_enqueue [OF b1]) auto
  moreover have "insert t (TH - {t}) = TH" using t by auto
  ultimately obtain nx' T' where ins: "rq_insert_tail_locked t (thread_update t ?f ?r) = Ret (relink (thread_update t ?f ?r) nx' T')"
    and b2: "base_inv TH (?Q(k := ?Q k @ [t])) (relink (thread_update t ?f ?r) nx' T')" unfolding ki by auto
  have "sched_set_thread_intent t raw s = Ret ((relink (thread_update t ?f ?r) nx' T')\<lparr>daif := daif s\<rparr>)"
    using n ch st in_rq_next [OF c(1) q] rm ins
    by (simp add: sched_set_thread_intent_def irq_save_def Let_def k_def [symmetric] irq_restore_pair)
  moreover have "sched_inv TH (?Q(k := ?Q k @ [t])) (relink (thread_update t ?f ?r) nx' T')"
    using b2 i st by (auto simp: sched_inv_def)
  ultimately show "\<exists>as bs s'. sched_set_thread_intent t raw s = Ret s' \<and> Q j = as @ t # bs \<and>
      sched_inv TH ((Q(j := as @ bs))(k := (Q(j := as @ bs)) k @ [t])) s'"
    using Qj by (intro exI [of _ as] exI [of _ bs]) simp
qed

text \<open>The frame the exception entry pushed: non-NULL, and inside the stack of the interrupted thread.\<close>

definition frame_ok :: "ptr \<Rightarrow> 'a sched_globals_scheme \<Rightarrow> bool" where
  "frame_ok tf s \<longleftrightarrow> tf \<noteq> NULL \<and>
     (s_current s \<noteq> bootstrap_thread s \<longrightarrow> stack_ok ((thread_at s (s_current s))\<lparr>irq_sp := tf\<rparr>))"

lemma sched_irq_exit_stays:
  assumes i: "sched_inv TH Q s" and m: "irq_irqs_disabled s" and tf: "frame_ok tf s"
    and no: "need_resched s = 0 \<or> preempt_count s \<noteq> 0"
  shows "sched_irq_exit tf s = Ret (tf, thread_update (s_current s) (\<lambda>th. th\<lparr>last_trap := tf\<rparr>) s)"
    and "sched_inv TH Q (thread_update (s_current s) (\<lambda>th. th\<lparr>last_trap := tf\<rparr>) s)"
proof -
  note c = sched_inv_current [OF i]
  show "sched_irq_exit tf s = Ret (tf, thread_update (s_current s) (\<lambda>th. th\<lparr>last_trap := tf\<rparr>) s)"
    using m tf no c(3,5)
    by (auto simp: sched_irq_exit_def frame_ok_def Let_def preempt_need_resched_def preemptible_def kassert_def)
  show "sched_inv TH Q (thread_update (s_current s) (\<lambda>th. th\<lparr>last_trap := tf\<rparr>) s)"
    using c(2) base_invD(6) [OF c(1)] by (intro sched_inv_thread_update [OF i]) simp_all
qed

lemma sched_prepare_running_again:
  "t \<noteq> NULL \<Longrightarrow> sched_prepare_running_locked t (thread_update t (\<lambda>th. th\<lparr>th_state := x\<rparr>) s) = sched_prepare_running_locked t s"
  by (simp add: sched_prepare_running_locked_def Let_def)

lemma sched_irq_exit_spec:
  assumes i: "sched_inv TH Q s" and m: "irq_irqs_disabled s" and tf: "frame_ok tf s"
    and go: "need_resched s \<noteq> 0" "preempt_count s = 0"
    and d: "dispatch (requeue s Q) (s_pick_cursor s) (s_current s) = (next, Q', c')"
  shows "\<exists>s'. sched_irq_exit tf s = Ret (if next = s_current s then tf else irq_sp (thread_at s next), s') \<and>
    sched_inv TH Q' s' \<and> s_current s' = next \<and> s_pick_cursor s' = c' \<and> need_resched s' = 0 \<and> cpu s' = cpu s \<and>
    th_state (thread_at s' next) = THREAD_RUNNING \<and> daif s' = daif s \<and>
    (s_current s \<noteq> bootstrap_thread s \<and> th_state (thread_at s (s_current s)) = THREAD_RUNNING \<longrightarrow>
       irq_sp (thread_at s' (s_current s)) = tf \<and>
       (next \<noteq> s_current s \<longrightarrow> th_state (thread_at s' (s_current s)) = THREAD_READY)) \<and>
    last_trap (thread_at s' (s_current s)) = tf"
proof -
  note c = sched_inv_current [OF i]
  let ?cur = "s_current s" and ?f = "\<lambda>th :: thread. th\<lparr>irq_sp := tf, th_state := THREAD_READY\<rparr>"
  define s2 where "s2 = preempt_clear_need_resched (thread_update ?cur (\<lambda>th. th\<lparr>last_trap := tf\<rparr>) s)"
  have eq: "s_current s2 = ?cur" "bootstrap_thread s2 = bootstrap_thread s" "s_pick_cursor s2 = s_pick_cursor s"
    "daif s2 = daif s" "cpu s2 = cpu s" "need_resched s2 = 0"
    "thread_at s2 = (thread_at s)(?cur := (thread_at s ?cur)\<lparr>last_trap := tf\<rparr>)"
    by (simp_all add: s2_def preempt_clear_need_resched_def)
  have i2: "sched_inv TH Q s2"
    using sched_inv_thread_update [OF i c(2), of "\<lambda>th. th\<lparr>last_trap := tf\<rparr>"] base_invD(6) [OF c(1)]
    by (simp add: s2_def preempt_clear_need_resched_def)
  have rq: "requeue s2 Q = requeue s Q" by (simp add: requeue_def eq Let_def)
  let ?go = "?cur \<noteq> bootstrap_thread s \<and> th_state (thread_at s ?cur) = THREAD_RUNNING"
  define u where "u = (if ?go then thread_update ?cur ?f s2 else s2)"
  have "?cur \<in> TH \<Longrightarrow> ?cur \<noteq> bootstrap_thread s" using base_invD(8) [OF c(1)] by auto
  then have sk: "?cur \<in> TH \<Longrightarrow> stack_ok (?f (thread_at s2 ?cur))"
    using tf by (simp add: frame_ok_def eq stack_ok_def)
  have "\<exists>nx T. (if ?go then rq_insert_tail_locked ?cur (thread_update ?cur ?f s2) else Ret s2) =
      Ret (relink u nx T) \<and> base_inv TH (requeue s Q) (relink u nx T) \<and>
      (\<forall>p\<in>TH. th_state (thread_at u p) \<noteq> THREAD_RUNNING)"
  proof -
    have g: "(s_current s2 \<noteq> bootstrap_thread s2 \<and> th_state (thread_at s2 (s_current s2)) = THREAD_RUNNING) = ?go"
      by (simp add: eq)
    have "rq_next (?f (thread_at s2 (s_current s2))) = NULL" using c(5) by (simp add: eq)
    moreover have "th_state (?f (thread_at s2 (s_current s2))) = THREAD_READY" by simp
    moreover have "thread_intent (?f (thread_at s2 (s_current s2))) = thread_intent (thread_at s2 (s_current s2))" by simp
    moreover have "s_current s2 \<in> TH \<Longrightarrow> stack_ok (?f (thread_at s2 (s_current s2)))" using sk by (simp only: eq(1))
    ultimately show ?thesis using requeue_step [OF i2, of ?f] unfolding g rq u_def by (simp only: eq(1))
  qed
  then obtain nx T where ins: "(if ?go then rq_insert_tail_locked ?cur (thread_update ?cur ?f s2) else Ret s2) = Ret (relink u nx T)"
    and b: "base_inv TH (requeue s Q) (relink u nx T)" and nr: "\<forall>p\<in>TH. th_state (thread_at u p) \<noteq> THREAD_RUNNING"
    by blast
  let ?u = "relink u nx T"
  have eu: "s_current u = ?cur" "bootstrap_thread u = bootstrap_thread s" "s_pick_cursor u = s_pick_cursor s"
    "daif u = daif s" "cpu u = cpu s" "need_resched u = 0" "?go \<Longrightarrow> irq_sp (thread_at u ?cur) = tf"
    "p \<noteq> ?cur \<Longrightarrow> irq_sp (thread_at u p) = irq_sp (thread_at s p)" "?go \<Longrightarrow> th_state (thread_at u ?cur) = THREAD_READY"
    "last_trap (thread_at u ?cur) = tf" for p
    by (simp_all add: u_def eq)
  obtain nx' T' where pk: "sched_pick_next_locked ?u = (next, relink (?u\<lparr>s_pick_cursor := c'\<rparr>) nx' T')"
    and n: "next \<noteq> NULL" "next = ?cur \<or> next \<in> TH"
    and i4: "sched_inv TH Q' ((sched_prepare_running_locked next (relink (?u\<lparr>s_pick_cursor := c'\<rparr>) nx' T'))\<lparr>s_current := next\<rparr>)"
    using resched [OF b, of "next" Q' c'] nr d c(4) by (auto simp: eu)
  define w where "w = relink (?u\<lparr>s_pick_cursor := c'\<rparr>) nx' T'"
  define v where "v = sched_prepare_running_locked next w"
  have ev: "s_current v = ?cur" "bootstrap_thread v = bootstrap_thread s" "s_pick_cursor v = c'" "daif v = daif s" "cpu v = cpu s"
    "need_resched v = 0" "th_state (thread_at v next) = THREAD_RUNNING" "irq_sp (thread_at v p) = irq_sp (thread_at u p)" for p
    using n by (simp_all add: v_def w_def eu)
  have lv: "last_trap (thread_at v p) = last_trap (thread_at u p)" "p \<noteq> next \<Longrightarrow> th_state (thread_at v p) = th_state (thread_at u p)" for p
    using n by (simp_all add: v_def w_def sched_prepare_running_locked_def Let_def relink_def)
  have bd: "sched_irq_exit tf s =
      (if next = NULL \<or> next = ?cur then Ret (tf, sched_prepare_running_locked ?cur (thread_update ?cur (\<lambda>th. th\<lparr>th_state := THREAD_RUNNING\<rparr>) w))
       else kassert (irq_sp (thread_at w next) \<noteq> 0) ''sched: next thread irq_sp is NULL''
         (let s6 = (if ?cur \<noteq> bootstrap_thread (v\<lparr>s_current := next\<rparr>)
                    then thread_update ?cur (\<lambda>th. th\<lparr>preemptions := preemptions th + 1\<rparr>) (v\<lparr>s_current := next\<rparr>) else v\<lparr>s_current := next\<rparr>);
              s7 = s6\<lparr>s_stats := (s_stats s6)\<lparr>preempt_switches := preempt_switches (s_stats s6) + 1,
                context_switches := context_switches (s_stats s6) + 1\<rparr>\<rparr> in
          Ret (irq_sp (thread_at s7 next), s7)))"
  proof -
    have "sched_irq_exit tf s = obind (if ?go then rq_insert_tail_locked ?cur (thread_update ?cur ?f s2) else Ret s2) (\<lambda>s3.
            case sched_pick_next_locked s3 of (next, s4) \<Rightarrow>
              if next = NULL \<or> next = ?cur
              then Ret (tf, sched_prepare_running_locked ?cur
                     (thread_update ?cur (\<lambda>th. th\<lparr>th_state := THREAD_RUNNING\<rparr>) s4))
              else kassert (irq_sp (thread_at s4 next) \<noteq> 0) ''sched: next thread irq_sp is NULL''
                (let s5 = (sched_prepare_running_locked next s4)\<lparr>s_current := next\<rparr>;
                     s6 = (if ?cur \<noteq> bootstrap_thread s5
                           then thread_update ?cur (\<lambda>th. th\<lparr>preemptions := preemptions th + 1\<rparr>) s5 else s5);
                     s7 = s6\<lparr>s_stats := (s_stats s6)
                       \<lparr>preempt_switches := preempt_switches (s_stats s6) + 1,
                        context_switches := context_switches (s_stats s6) + 1\<rparr>\<rparr> in
                 Ret (irq_sp (thread_at s7 next), s7)))"
      using m tf go c(3,5) unfolding sched_irq_exit_def s2_def preempt_clear_need_resched_def preempt_need_resched_def preemptible_def
      by (simp add: frame_ok_def Let_def cong: if_cong)
    then show ?thesis unfolding ins obind.simps pk prod.case w_def v_def by (simp only: Let_def)
  qed
  show ?thesis
  proof (cases "next = ?cur")
    case True
    have "sched_irq_exit tf s = Ret (tf, v)"
      unfolding bd using True n(1) sched_prepare_running_again [of ?cur w] by (simp add: v_def)
    moreover have "v\<lparr>s_current := ?cur\<rparr> = v" using ev(1) by simp
    then have "sched_inv TH Q' v" using i4 [folded w_def, folded v_def] True by simp
    ultimately show ?thesis using True ev eu(7,10) lv(1) by simp
  next
    case False
    have nb: "next \<in> TH" using n False by blast
    have isp: "irq_sp (thread_at w next) = irq_sp (thread_at s next)" using False by (simp add: w_def eu)
    then have nz: "irq_sp (thread_at w next) \<noteq> 0" using base_invD(6) [OF c(1) nb] by (simp add: stack_ok_def)
    define x where "x = (if ?cur \<noteq> bootstrap_thread s
      then thread_update ?cur (\<lambda>th. th\<lparr>preemptions := preemptions th + 1\<rparr>) (v\<lparr>s_current := next\<rparr>) else v\<lparr>s_current := next\<rparr>)"
    let ?y = "x\<lparr>s_stats := (s_stats x)\<lparr>preempt_switches := preempt_switches (s_stats x) + 1,
                context_switches := context_switches (s_stats x) + 1\<rparr>\<rparr>"
    have ex: "s_current x = next" "s_pick_cursor x = c'" "daif x = daif s" "cpu x = cpu s" "need_resched x = 0"
      "th_state (thread_at x next) = THREAD_RUNNING" "irq_sp (thread_at x p) = irq_sp (thread_at u p)" for p
      using False by (simp_all add: x_def ev)
    have run: "sched_irq_exit tf s = Ret (irq_sp (thread_at s next), ?y)"
    proof -
      have "sched_irq_exit tf s = Ret (irq_sp (thread_at ?y next), ?y)"
        unfolding bd x_def using n(1) False nz ev(2) by (simp add: Let_def cong: if_cong)
      then show ?thesis using False by (simp add: ex eu)
    qed
    have iv: "sched_inv TH Q' (v\<lparr>s_current := next\<rparr>)" using i4 [folded w_def, folded v_def] .
    have "sched_inv TH Q' x"
    proof (cases "?cur = bootstrap_thread s")
      case nbt: False
      then show ?thesis unfolding x_def using sched_inv_thread_same [OF iv, of "\<lambda>th. th\<lparr>preemptions := preemptions th + 1\<rparr>" ?cur] by simp
    qed (use iv in \<open>simp add: x_def\<close>)
    moreover have "last_trap (thread_at x ?cur) = tf" "th_state (thread_at x ?cur) = th_state (thread_at u ?cur)"
      using False eu(10) lv unfolding x_def by (cases "?cur = bootstrap_thread s"; simp)+
    ultimately show ?thesis using run ex eu(7,9) False by simp
  qed
qed

end
