(* ===== verification/Sched_Props.thy ===== *)
theory Sched_Props
  imports Sched_Inv
begin

unbundle bit_operations_syntax

text \<open>
  Properties of the scheduler: runs of arbitrary calls from boot, what \<open>yield\<close> and the interrupt exit do
  on the abstract queues, the order within a class, the shares of the classes and the bound on waiting.
\<close>

section \<open>Shares of the four classes\<close>

fun pop_n :: "nat \<Rightarrow> 'a sched_globals_scheme \<Rightarrow> ptr list \<times> 'a sched_globals_scheme" where
  "pop_n 0 s = ([], s)"
| "pop_n (Suc n) s = (case rq_pop_best_locked s of (x, s1) \<Rightarrow> case pop_n n s1 of (xs, s2) \<Rightarrow> (x # xs, s2))"

definition pats :: "nat \<Rightarrow> nat \<Rightarrow> sched_intent list" where
  "pats c n = map (\<lambda>m. pat (c + m)) [0..<n]"

lemma pats_Suc: "pats c (Suc n) = pat c # pats (Suc c mod 13) n"
proof -
  have "pat (c + Suc m) = pat (Suc c mod 13 + m)" for m by (simp add: pat_def mod_simps)
  then show ?thesis by (simp add: pats_def upt_conv_Cons map_Suc_upt [symmetric] del: upt_Suc)
qed

lemma pick_nonempty:
  assumes c: "unat c < 13" and ne: "Q (pat (unat c)) \<noteq> []"
  shows "\<exists>c'. pick Q c = Some (pat (unat c), c') \<and> unat c' = Suc (unat c) mod 13"
proof -
  obtain i c' where p: "pick Q c = Some (i, c')" using pick_None [OF c, of Q] ne by (cases "pick Q c") auto
  from pick_loop_Some [OF c _ p [unfolded pick_def]] obtain m where m: "i = pat (unat c + m)"
    "\<forall>l<m. Q (pat (unat c + l)) = []" "unat c' = Suc (unat c + m) mod 13" by auto
  have "m = 0" using m(2) ne by (cases m) auto
  then show ?thesis using p m by simp
qed

lemma pop_n_pattern:
  assumes "rqs (nexts s) (s_ready_tail s) Q" and "unat (s_pick_cursor s) < 13"
    and "\<forall>i. count_list (pats (unat (s_pick_cursor s)) n) i \<le> length (Q i)"
    and "\<forall>i. \<forall>p\<in>set (Q i). thread_intent (thread_at s p) = i"
  shows "map (\<lambda>p. thread_intent (thread_at s p)) (fst (pop_n n s)) = pats (unat (s_pick_cursor s)) n"
  using assms
proof (induction n arbitrary: s Q)
  case 0
  then show ?case by (simp add: pats_def)
next
  case (Suc n)
  let ?c = "unat (s_pick_cursor s)" and ?i = "pat (unat (s_pick_cursor s))"
  have "count_list (pats ?c (Suc n)) ?i \<le> length (Q ?i)" using Suc.prems(3) by blast
  then have ne: "Q ?i \<noteq> []" by (auto simp: pats_Suc)
  from pick_nonempty [OF Suc.prems(2), of Q, OF ne] obtain c' where
    p: "pick Q (s_pick_cursor s) = Some (?i, c')" and c': "unat c' = Suc ?c mod 13" by blast
  from rq_pop_best_spec [OF Suc.prems(1,2)] p obtain nx T where
    pop: "rq_pop_best_locked s = (hd (Q ?i), relink (s\<lparr>s_pick_cursor := c'\<rparr>) nx T)" and r: "rqs nx T (Q(?i := tl (Q ?i)))"
    by auto
  let ?s = "relink (s\<lparr>s_pick_cursor := c'\<rparr>) nx T" and ?Q = "Q(?i := tl (Q ?i))"
  have "map (\<lambda>p. thread_intent (thread_at ?s p)) (fst (pop_n n ?s)) = pats (unat (s_pick_cursor ?s)) n"
  proof (rule Suc.IH [of ?s ?Q])
    show "\<forall>i. count_list (pats (unat (s_pick_cursor ?s)) n) i \<le> length (?Q i)"
    proof
      fix i
      have "count_list (pats ?c (Suc n)) i \<le> length (Q i)" using Suc.prems(3) by blast
      then show "count_list (pats (unat (s_pick_cursor ?s)) n) i \<le> length (?Q i)" by (auto simp: pats_Suc c')
    qed
    show "\<forall>i. \<forall>p\<in>set (?Q i). thread_intent (thread_at ?s p) = i"
      using Suc.prems(4) by (auto dest: list.set_sel(2) [OF ne])
  qed (use r c' in \<open>simp_all del: fun_upd_apply\<close>)
  moreover have "thread_intent (thread_at s (hd (Q ?i))) = ?i" using Suc.prems(4) hd_in_set [OF ne] by blast
  ultimately show ?case by (auto simp: pop pats_Suc c' split: prod.splits)
qed

definition class_weight :: "sched_intent \<Rightarrow> nat" where
  "class_weight i = count_list k_pick_pattern i"

lemma pats_weight: "c < 13 \<Longrightarrow> count_list (pats c 13) i = class_weight i"
proof -
  have "list_all (\<lambda>c. list_all (\<lambda>i. count_list (pats c 13) i = class_weight i) all_intents) [0..<13]"
    by code_simp
  moreover have "i \<in> set all_intents" by (cases i) (simp_all add: all_intents_def)
  moreover assume "c < 13"
  ultimately show ?thesis by (simp add: list_all_iff)
qed

lemma class_weights: "class_weight SCHED_INTENT_INTERACTIVE = 6" "class_weight SCHED_INTENT_LATENCY = 4"
  "class_weight SCHED_INTENT_THROUGHPUT = 2" "class_weight SCHED_INTENT_BACKGROUND = 1"
  by (simp_all add: class_weight_def k_pick_pattern_def)

section \<open>Runs of the scheduler\<close>

text \<open>
  The calls the rest of the kernel makes, with what the caller guarantees: \<open>TH\<close> are the threads already
  handed to the scheduler. \<open>Cpu\<close> stands for what the running thread does between two calls: it changes its
  registers, keeping the stack pointer aligned, its interrupt mask, the interrupt depth and the
  preemption counters. \<open>Die\<close> is the state change of \<open>thread_exit\<close>.
\<close>

datatype sched_call =
    Yield | Block | Wake ptr | Enqueue ptr | Set_intent ptr u32 | Timer_tick | Irq_exit ptr | Die
  | Cpu ctx u64 u32 u32 u32

fun legal :: "ptr set \<Rightarrow> sched_call \<Rightarrow> 'a sched_globals_scheme \<Rightarrow> bool" where
  "legal TH Yield s \<longleftrightarrow> \<not> in_irq s"
| "legal TH Block s \<longleftrightarrow> \<not> in_irq s \<and> s_current s \<noteq> bootstrap_thread s"
| "legal TH (Wake t) s \<longleftrightarrow> \<not> in_irq s \<and> t \<in> TH"
| "legal TH (Enqueue t) s \<longleftrightarrow> t \<notin> TH \<and> t \<noteq> NULL \<and> t \<noteq> bootstrap_thread s \<and> stack_ok (thread_at s t) \<and>
     th_state (thread_at s t) \<noteq> THREAD_DEAD"
| "legal TH (Set_intent t raw) s \<longleftrightarrow> t \<in> TH"
| "legal TH Timer_tick s \<longleftrightarrow> True"
| "legal TH (Irq_exit tf) s \<longleftrightarrow> irq_irqs_disabled s \<and> frame_ok tf s"
| "legal TH Die s \<longleftrightarrow> True"
| "legal TH (Cpu c d depth nr pc) s \<longleftrightarrow> sp c AND 0xF = 0"

fun sched_exec :: "sched_call \<Rightarrow> 'a sched_globals_scheme \<Rightarrow> 'a sched_globals_scheme outcome" where
  "sched_exec Yield s = obind (yield s) (\<lambda>(r, s'). Ret s')"
| "sched_exec Block s = obind (sched_block_current s) (\<lambda>(r, s'). Ret s')"
| "sched_exec (Wake t) s = sched_wake t s"
| "sched_exec (Enqueue t) s = sched_enqueue t s"
| "sched_exec (Set_intent t raw) s = sched_set_thread_intent t raw s"
| "sched_exec Timer_tick s = Ret (sched_on_timer_tick s)"
| "sched_exec (Irq_exit tf) s = obind (sched_irq_exit tf s) (\<lambda>(tf', s'). Ret s')"
| "sched_exec Die s = Ret (thread_update (s_current s) (\<lambda>th. th\<lparr>th_state := THREAD_DEAD\<rparr>) s)"
| "sched_exec (Cpu c d depth nr pc) s = Ret (s\<lparr>cpu := c, daif := d, s_irq_depth := depth, need_resched := nr, preempt_count := pc\<rparr>)"

fun new_threads :: "sched_call \<Rightarrow> ptr set" where
  "new_threads (Enqueue t) = {t}"
| "new_threads c = {}"

inductive sched_reach :: "'a sched_globals_scheme \<Rightarrow> ptr set \<Rightarrow> 'a sched_globals_scheme \<Rightarrow> bool" for s0 where
  reach_boot: "sched_reach s0 {} s0"
| reach_call: "sched_reach s0 TH s \<Longrightarrow> legal TH c s \<Longrightarrow> sched_exec c s = Ret s' \<Longrightarrow>
    sched_reach s0 (TH \<union> new_threads c) s'"

lemma sched_exec_thread:
  assumes i: "sched_inv TH Q s"
  shows "sched_inv TH Q (thread_update (s_current s) (\<lambda>th. th\<lparr>th_state := THREAD_DEAD\<rparr>) s)"
proof -
  note c = sched_inv_current [OF i]
  have "base_inv TH Q (thread_update (s_current s) (\<lambda>th. th\<lparr>th_state := THREAD_DEAD\<rparr>) s)"
    using c(2) base_invD(6) [OF c(1)] by (intro base_inv_idle [OF c(1)]) simp_all
  then show ?thesis using i by (auto simp: sched_inv_def)
qed

lemma sched_exec_cpu:
  assumes i: "sched_inv TH Q s" and "sp c AND 0xF = 0"
  shows "sched_inv TH Q (s\<lparr>cpu := c, daif := d, s_irq_depth := depth, need_resched := nr, preempt_count := pc\<rparr>)"
  using assms by (simp add: sched_inv_def base_inv_def nexts_def)

text \<open>Every legal call returns and keeps the invariant.\<close>

lemma sched_exec_inv:
  assumes i: "sched_inv TH Q s" and l: "legal TH c s"
  shows "\<exists>s' Q'. sched_exec c s = Ret s' \<and> sched_inv (TH \<union> new_threads c) Q' s'"
proof (cases c)
  case Yield
  obtain next' Q' c' where "dispatch (requeue s Q) (s_pick_cursor s) (s_current s) = (next', Q', c')" by (metis prod_cases3)
  from yield_spec [OF i _ this] l Yield show ?thesis by auto
next
  case Block
  obtain next' Q' c' where "dispatch Q (s_pick_cursor s) (s_current s) = (next', Q', c')" by (metis prod_cases3)
  from sched_block_current_spec [OF i _ _ this] l Block show ?thesis by auto
next
  case (Wake t)
  then show ?thesis using sched_wake_spec [OF i, of t] l i
    by (cases "th_state (thread_at s t) = THREAD_BLOCKED") auto
next
  case (Enqueue t)
  note c = sched_inv_current [OF i]
  have "\<not> in_rq Q t" "t \<noteq> s_current s" using Enqueue l base_invD(2) [OF c(1)] c(4) by auto
  with sched_enqueue_spec [OF i, of t] Enqueue l show ?thesis by (simp del: fun_upd_apply) blast
next
  case (Set_intent t raw)
  have t: "t \<in> TH" "t \<noteq> NULL" using Set_intent l base_invD(7) [OF sched_inv_current(1) [OF i]] by auto
  show ?thesis
  proof (cases "ucast (sched_intent (thread_at s t)) = intent_value (sched_intent_sanitize raw)")
    case True
    then show ?thesis using Set_intent t i by (auto simp: sched_set_thread_intent_def irq_save_def Let_def)
  next
    case False
    from sched_set_thread_intent_spec [OF i t(1) this] Set_intent show ?thesis by (cases "in_rq Q t") auto
  qed
next
  case Timer_tick
  then show ?thesis using sched_on_timer_tick_inv [OF i] by auto
next
  case (Irq_exit tf)
  obtain next' Q' c' where d: "dispatch (requeue s Q) (s_pick_cursor s) (s_current s) = (next', Q', c')" by (metis prod_cases3)
  show ?thesis
  proof (cases "need_resched s = 0 \<or> preempt_count s \<noteq> 0")
    case True
    from sched_irq_exit_stays [OF i _ _ this] Irq_exit l show ?thesis by auto
  next
    case False
    with sched_irq_exit_spec [OF i _ _ _ _ d, of tf] Irq_exit l show ?thesis by auto
  qed
next
  case Die
  then show ?thesis using sched_exec_thread [OF i] by auto
next
  case (Cpu r d depth nr pc)
  then have "sp r AND 0xF = 0" using l by simp
  note sched_exec_cpu [OF i this, of pc nr depth d]
  then show ?thesis using Cpu by auto
qed

lemma sched_init_bootstrap_inv:
  assumes "bootstrap_thread s \<noteq> NULL" and "\<forall>p. rq_next (thread_at s p) = NULL" and "sp (cpu s) AND 0xF = 0"
  shows "sched_inv {} (\<lambda>_. []) (sched_init_bootstrap nm s)"
  using assms by (simp add: sched_inv_def base_inv_def sched_init_bootstrap_def rqs_def in_rq_def nexts_def)

lemma sched_reach_inv:
  assumes "sched_reach s0 TH s" and "sched_inv {} Q s0"
  shows "\<exists>Q. sched_inv TH Q s"
  using assms
proof (induction rule: sched_reach.induct)
  case (reach_call TH s c s')
  then obtain Q where "sched_inv TH Q s" by blast
  from sched_exec_inv [OF this reach_call.hyps(2)] reach_call.hyps(3) show ?case by auto
qed auto

section \<open>Properties\<close>

text \<open>
  Two threads handed to the scheduler after boot: an interactive one at 0x1000 and a background one at
  0x2000, with their stacks in the direct map.
\<close>

definition example_thread :: "ptr \<Rightarrow> sched_intent \<Rightarrow> thread" where
  "example_thread base i = \<lparr>th_ctx = ctx_zero, tid = 1, th_name = NULL, th_task = NULL, kstack_base = base,
     kstack_size = 0x4000, kstack_top = base + 0x4000, rq_next = NULL, last_trap = NULL, irq_sp = base + 0x3000,
     saved_daif = 0, sched_intent = ucast (intent_value i), slice_ticks_budget = 0, slice_ticks_used = 0,
     runtime_ticks_total = 0, preemptions = 0, th_state = THREAD_READY\<rparr>"

definition example_sched0 :: sched_globals where
  "example_sched0 = cap_globals.extend example_cap0
     \<lparr>task_at = (\<lambda>_. example_task), need_resched = 0, preempt_count = 0, bootstrap_thread = 0x500, s_current = NULL,
      s_ready_tail = (\<lambda>_. NULL), s_sched_ticks = 0, s_stats = sched_stats_zero, s_pick_cursor = 0,
      thread_at = (\<lambda>p. if p = 0x2000 then example_thread 0x80000 SCHED_INTENT_BACKGROUND
        else example_thread 0x40000 SCHED_INTENT_INTERACTIVE),
      trap_frame_at = (\<lambda>_. trap_frame_zero), cpu = ctx_zero, s_next_tid = 1, s_thread_cache_inited = True\<rparr>"

definition example_boot :: sched_globals where
  "example_boot = sched_init_bootstrap 0x60 example_sched0"

lemma example_boot_facts:
  "sched_inv {} (\<lambda>_. []) example_boot" "\<not> in_irq example_boot" "s_current example_boot = 0x500" "bootstrap_thread example_boot = 0x500"
  "s_pick_cursor example_boot = 0" "thread_at example_boot 0x1000 = example_thread 0x40000 SCHED_INTENT_INTERACTIVE"
  "thread_at example_boot 0x2000 = example_thread 0x80000 SCHED_INTENT_BACKGROUND"
proof -
  have e: "bootstrap_thread example_sched0 = 0x500" "s_irq_depth example_sched0 = 0" "cpu example_sched0 = ctx_zero"
    "thread_at example_sched0 = (\<lambda>p. if p = 0x2000 then example_thread 0x80000 SCHED_INTENT_BACKGROUND
        else example_thread 0x40000 SCHED_INTENT_INTERACTIVE)"
    using example_cap0_simps(1) by (simp_all add: example_sched0_def cap_globals.defs like_example_def)
  show "sched_inv {} (\<lambda>_. []) example_boot"
    unfolding example_boot_def by (rule sched_init_bootstrap_inv) (simp_all add: e ctx_zero_def example_thread_def)
  show "\<not> in_irq example_boot" "s_current example_boot = 0x500" "bootstrap_thread example_boot = 0x500"
    "s_pick_cursor example_boot = 0" "thread_at example_boot 0x1000 = example_thread 0x40000 SCHED_INTENT_INTERACTIVE"
    "thread_at example_boot 0x2000 = example_thread 0x80000 SCHED_INTENT_BACKGROUND"
    by (simp_all add: example_boot_def sched_init_bootstrap_def e in_irq_def)
qed

lemma example_thread_ok: "stack_ok (example_thread 0x40000 i)" "stack_ok (example_thread 0x80000 i)"
  by (simp_all add: stack_ok_def example_thread_def ctx_zero_def sizeof_trap_frame_def)

lemma example_thread_sel [simp]:
  "th_state (example_thread b i) = THREAD_READY" "irq_sp (example_thread b i) = b + 0x3000"
  "th_ctx (example_thread b i) = ctx_zero" "rq_next (example_thread b i) = NULL"
  by (simp_all add: example_thread_def)

lemma example_thread_intent [simp]: "thread_intent (example_thread b i) = i"
  by (simp add: thread_intent_def example_thread_def intent_byte)

text \<open>The example after both threads were enqueued.\<close>

lemma example_two_threads:
  "\<exists>s :: sched_globals. sched_inv {0x1000, 0x2000} ((\<lambda>_. [])(SCHED_INTENT_INTERACTIVE := [0x1000], SCHED_INTENT_BACKGROUND := [0x2000])) s \<and>
     \<not> in_irq s \<and> s_current s = 0x500 \<and> bootstrap_thread s = 0x500 \<and> s_pick_cursor s = 0 \<and>
     th_ctx (thread_at s 0x1000) = ctx_zero \<and> irq_sp (thread_at s 0x1000) = 0x43000"
proof -
  note e = example_boot_facts
  let ?f = "\<lambda>th :: thread. th\<lparr>th_state := THREAD_READY\<rparr>"
  have "\<exists>nx T. sched_enqueue 0x1000 example_boot = Ret (relink (thread_update 0x1000 ?f example_boot) nx T) \<and>
      sched_inv {0x1000} ((\<lambda>_. [])(SCHED_INTENT_INTERACTIVE := [0x1000])) (relink (thread_update 0x1000 ?f example_boot) nx T)"
    using sched_enqueue_spec [OF e(1), of "0x1000"] by (simp add: e in_rq_def example_thread_ok)
  then obtain nx T where
    i1: "sched_inv {0x1000} ((\<lambda>_. [])(SCHED_INTENT_INTERACTIVE := [0x1000])) (relink (thread_update 0x1000 ?f example_boot) nx T)"
    by blast
  let ?s = "relink (thread_update 0x1000 ?f example_boot) nx T" and ?Q = "(\<lambda>_. [])(SCHED_INTENT_INTERACTIVE := [0x1000])"
  have t2: "thread_at ?s 0x2000 = (example_thread 0x80000 SCHED_INTENT_BACKGROUND)\<lparr>rq_next := nx 0x2000\<rparr>"
    by (simp add: relink_def e)
  have ok2: "stack_ok (thread_at ?s 0x2000)" "thread_intent (thread_at ?s 0x2000) = SCHED_INTENT_BACKGROUND"
    "th_state (thread_at ?s 0x2000) \<noteq> THREAD_DEAD" "irq_sp (thread_at ?s 0x1000) = 0x43000" "th_ctx (thread_at ?s 0x1000) = ctx_zero"
    using example_thread_ok by (simp_all add: e)
  have "\<not> in_rq ?Q 0x2000" by (simp add: in_rq_def)
  from sched_enqueue_spec [OF i1 _ _ this _ ok2(1,3)] obtain nx' T' where
    i2: "sched_inv {0x1000, 0x2000} (?Q(SCHED_INTENT_BACKGROUND := [0x2000])) (relink (thread_update 0x2000 ?f ?s) nx' T')"
    unfolding ok2 by (auto simp: e insert_commute)
  then show ?thesis
    by (intro exI [of _ "relink (thread_update 0x2000 ?f ?s) nx' T'"])
      (use e ok2 in \<open>simp add: in_irq_def\<close>)
qed

text \<open>
  C4: from boot, whatever calls the kernel makes (yield, block, wake, enqueue of a new thread, change of
  intent, timer tick, interrupt exit, thread death), the queues stay well formed: every ready thread is
  in exactly the queue of its intent, only ready threads are queued, at most the current thread is
  running. And in every reachable state every legal call returns: no assertion of \<open>sched.c\<close> fails and
  no search of a queue runs forever.
\<close>

theorem sched_reachable_safe:
  assumes "bootstrap_thread s \<noteq> NULL" and "\<forall>p. rq_next (thread_at s p) = NULL" and "sp (cpu s) AND 0xF = 0"
    and "sched_reach (sched_init_bootstrap nm s) TH s'"
  shows "(\<exists>Q. sched_inv TH Q s') \<and> (\<forall>c. legal TH c s' \<longrightarrow> (\<exists>s''. sched_exec c s' = Ret s''))"
proof -
  obtain Q where "sched_inv TH Q s'" using sched_reach_inv [OF assms(4) sched_init_bootstrap_inv [OF assms(1-3)]] by blast
  then show ?thesis using sched_exec_inv by blast
qed

lemma example_sched0_facts:
  "bootstrap_thread example_sched0 \<noteq> NULL" "\<forall>p. rq_next (thread_at example_sched0 p) = NULL" "sp (cpu example_sched0) AND 0xF = 0"
  by (simp_all add: example_sched0_def cap_globals.defs ctx_zero_def)

theorem sched_reachable_safe_witness:
  "\<exists>s''. sched_exec (Enqueue 0x1000) (sched_init_bootstrap 0x60 example_sched0) = Ret s''"
proof -
  have "legal {} (Enqueue 0x1000) (sched_init_bootstrap 0x60 example_sched0)"
    using example_boot_facts example_thread_ok unfolding example_boot_def by simp
  then show ?thesis using sched_reachable_safe [OF example_sched0_facts reach_boot, of "0x60"] by blast
qed

text \<open>
  C5: \<open>yield\<close> implements the abstract scheduler. The running thread goes to the end of the queue of its
  intent, the thread the pattern names is taken from the head of its queue (or the caller continues when
  nothing is ready), it becomes the current, running thread with its saved registers on the CPU and the
  caller's registers saved; the cursor and the queues are those of \<open>dispatch\<close>, and a call that returns to
  its caller has restored the interrupt mask.
\<close>

theorem yield_refines_dispatch:
  assumes "sched_inv TH Q s" and "\<not> in_irq s" and "dispatch (requeue s Q) (s_pick_cursor s) (s_current s) = (next, Q', c')"
  shows "\<exists>r s'. yield s = Ret (r, s') \<and> sched_inv TH Q' s' \<and> s_pick_cursor s' = c' \<and> need_resched s' = 0 \<and>
    s_current s' = next \<and> th_state (thread_at s' next) = THREAD_RUNNING \<and>
    (if next = s_current s then r = Returned \<and> daif s' = daif s \<and> cpu s' = cpu s
     else r = Switched (daif s) \<and> irq_irqs_disabled s' \<and> cpu s' = th_ctx (thread_at s next) \<and>
       th_ctx (thread_at s' (s_current s)) = cpu s)"
  using yield_spec [OF assms] unfolding switch_post_def by blast

lemma example_pick:
  "pick ((\<lambda>_. [])(SCHED_INTENT_INTERACTIVE := [0x1000], SCHED_INTENT_BACKGROUND := [0x2000])) 0 = Some (SCHED_INTENT_INTERACTIVE, 1)"
proof -
  have "pat (unat 0) = SCHED_INTENT_INTERACTIVE" by (simp add: pat_def k_pick_pattern_def)
  then obtain c' where c': "pick ((\<lambda>_. [])(SCHED_INTENT_INTERACTIVE := [0x1000], SCHED_INTENT_BACKGROUND := [0x2000])) 0 =
      Some (SCHED_INTENT_INTERACTIVE, c')" "unat c' = 1"
    using pick_nonempty [of 0 "(\<lambda>_. [])(SCHED_INTENT_INTERACTIVE := [0x1000], SCHED_INTENT_BACKGROUND := [0x2000])"] by auto
  then have "c' = 1" by (simp add: word_unat_eq_iff)
  with c'(1) show ?thesis by simp
qed

lemma example_dispatch:
  "dispatch ((\<lambda>_. [])(SCHED_INTENT_INTERACTIVE := [0x1000], SCHED_INTENT_BACKGROUND := [0x2000])) 0 cur =
     (0x1000, (\<lambda>_. [])(SCHED_INTENT_BACKGROUND := [0x2000]), 1)"
  using example_pick by (auto simp: dispatch_def fun_eq_iff)

text \<open>The picked thread is one of the threads handed to the scheduler.\<close>

lemma dispatch_in:
  assumes i: "sched_inv TH Q s" and d: "dispatch (requeue s Q) (s_pick_cursor s) (s_current s) = (nxt, Q', c')"
    and n: "nxt \<noteq> s_current s"
  shows "nxt \<in> TH"
proof -
  note b = sched_inv_current(1) [OF i]
  obtain j c where p: "pick (requeue s Q) (s_pick_cursor s) = Some (j, c)" and x: "nxt = hd (requeue s Q j)"
    using d n by (auto simp: dispatch_def split: option.splits)
  have "hd (requeue s Q j) \<in> set (requeue s Q j)"
    by (rule hd_in_set) (rule pick_Some(1) [OF base_invD(3) [OF b] p])
  then have "nxt \<in> set (Q j)" using x n by (auto simp: requeue_def Let_def split: if_splits)
  then show ?thesis using base_invD(2) [OF b] by (auto simp: in_rq_def)
qed

lemma requeue_bootstrap: "s_current s = bootstrap_thread s \<Longrightarrow> requeue s Q = Q"
  by (simp add: requeue_def Let_def)

theorem yield_refines_dispatch_witness:
  "\<exists>(s :: sched_globals) r s'. s_current s = 0x500 \<and> yield s = Ret (r, s') \<and> s_current s' = 0x1000 \<and> r = Switched (daif s)"
proof -
  obtain s :: sched_globals where s: "sched_inv {0x1000, 0x2000} ((\<lambda>_. [])(SCHED_INTENT_INTERACTIVE := [0x1000], SCHED_INTENT_BACKGROUND := [0x2000])) s"
    "\<not> in_irq s" "s_current s = 0x500" "bootstrap_thread s = 0x500" "s_pick_cursor s = 0" using example_two_threads by blast
  have "dispatch (requeue s ((\<lambda>_. [])(SCHED_INTENT_INTERACTIVE := [0x1000], SCHED_INTENT_BACKGROUND := [0x2000])))
      (s_pick_cursor s) (s_current s) = (0x1000, (\<lambda>_. [])(SCHED_INTENT_BACKGROUND := [0x2000]), 1)"
    using s by (simp only: requeue_bootstrap example_dispatch)
  from yield_refines_dispatch [OF s(1,2) this] s(3) show ?thesis by auto
qed

text \<open>
  C27: preemption at interrupt exit. The frame given is recorded as the last trap of the interrupted thread in
  every case. When a reschedule is pending and preemption is allowed, it is recorded as the frame to resume a
  running thread from as well (\<open>irq_sp\<close>), and the frame returned is the given one if the interrupted thread is
  picked again; otherwise that thread is ready, and the frame returned is the recorded frame of the thread
  that is now current: a 16-byte aligned frame that lies inside that thread's kernel stack. With no
  reschedule pending or preemption held off, the exit returns the frame it was given.
\<close>

theorem sched_irq_exit_returns_frame:
  assumes "sched_inv TH Q s" and "irq_irqs_disabled s" and "frame_ok tf s"
  shows "\<exists>tf' s'. sched_irq_exit tf s = Ret (tf', s') \<and> (\<exists>Q'. sched_inv TH Q' s') \<and> daif s' = daif s \<and>
    last_trap (thread_at s' (s_current s)) = tf \<and>
    (if need_resched s = 0 \<or> preempt_count s \<noteq> 0 then tf' = tf \<and> s_current s' = s_current s
     else s_current s' = fst (dispatch (requeue s Q) (s_pick_cursor s) (s_current s)) \<and>
       tf' = (if s_current s' = s_current s then tf else irq_sp (thread_at s (s_current s'))) \<and>
       th_state (thread_at s' (s_current s')) = THREAD_RUNNING \<and>
       (s_current s \<noteq> bootstrap_thread s \<and> th_state (thread_at s (s_current s)) = THREAD_RUNNING \<longrightarrow>
          irq_sp (thread_at s' (s_current s)) = tf \<and>
          (s_current s' \<noteq> s_current s \<longrightarrow> th_state (thread_at s' (s_current s)) = THREAD_READY))) \<and>
    (s_current s' \<noteq> s_current s \<longrightarrow> tf' AND 0xF = 0 \<and> kstack_base (thread_at s (s_current s')) \<le> tf' \<and>
       tf' + sizeof_trap_frame \<le> kstack_top (thread_at s (s_current s')))"
proof (cases "need_resched s = 0 \<or> preempt_count s \<noteq> 0")
  case True
  from sched_irq_exit_stays [OF assms True] True show ?thesis by auto
next
  case False
  obtain nxt Q' c' where d: "dispatch (requeue s Q) (s_pick_cursor s) (s_current s) = (nxt, Q', c')" by (metis prod_cases3)
  from sched_irq_exit_spec [OF assms _ _ d] False obtain s' where
    r: "sched_irq_exit tf s = Ret (if nxt = s_current s then tf else irq_sp (thread_at s nxt), s')" and i: "sched_inv TH Q' s'"
    and c: "s_current s' = nxt" "daif s' = daif s" "th_state (thread_at s' nxt) = THREAD_RUNNING"
      "last_trap (thread_at s' (s_current s)) = tf"
      "s_current s \<noteq> bootstrap_thread s \<and> th_state (thread_at s (s_current s)) = THREAD_RUNNING \<longrightarrow>
         irq_sp (thread_at s' (s_current s)) = tf \<and> (nxt \<noteq> s_current s \<longrightarrow> th_state (thread_at s' (s_current s)) = THREAD_READY)" by auto
  have "stack_ok (thread_at s nxt)" if "nxt \<noteq> s_current s"
    using base_invD(6) [OF sched_inv_current(1) [OF assms(1)] dispatch_in [OF assms(1) d that]] .
  then show ?thesis using False r i c d by (auto simp: stack_ok_def)
qed

theorem sched_irq_exit_returns_frame_witness:
  "\<exists>(s :: sched_globals) s'. s_current s = 0x500 \<and> sched_irq_exit 0x7000 s = Ret (0x43000, s') \<and> s_current s' = 0x1000 \<and>
     last_trap (thread_at s' 0x500) = 0x7000"
proof -
  let ?Q = "(\<lambda>_. [])(SCHED_INTENT_INTERACTIVE := [0x1000], SCHED_INTENT_BACKGROUND := [0x2000])"
  obtain s0 :: sched_globals where s0: "sched_inv {0x1000, 0x2000} ?Q s0" "s_current s0 = 0x500" "bootstrap_thread s0 = 0x500"
    "s_pick_cursor s0 = 0" "irq_sp (thread_at s0 0x1000) = 0x43000" using example_two_threads by blast
  let ?s = "s0\<lparr>daif := 0x80, need_resched := 1, preempt_count := 0\<rparr>"
  have i: "sched_inv {0x1000, 0x2000} ?Q ?s"
    using s0(1) by (simp add: sched_inv_def base_inv_def nexts_def del: fun_upd_apply)
  have "irq_irqs_disabled ?s" "frame_ok 0x7000 ?s"
    by (simp_all add: irq_irqs_disabled_def DAIF_I_BIT_def frame_ok_def s0)
  moreover have "fst (dispatch (requeue ?s ?Q) (s_pick_cursor ?s) (s_current ?s)) = 0x1000"
  proof -
    have "requeue ?s ?Q = ?Q" by (rule requeue_bootstrap) (simp add: s0)
    moreover have "s_pick_cursor ?s = 0" by (simp add: s0)
    ultimately show ?thesis using example_dispatch [of "s_current ?s"] by (simp only: fst_conv)
  qed
  ultimately obtain s' where "sched_irq_exit 0x7000 ?s = Ret (0x43000, s')" "s_current s' = 0x1000" "last_trap (thread_at s' 0x500) = 0x7000"
    using sched_irq_exit_returns_frame [OF i] s0 by fastforce
  then show ?thesis using s0(2) by (intro exI [of _ ?s] exI [of _ s']) simp
qed

text \<open>
  within a class threads run in the order they became ready. Over any mixture of insertions at the tail
  and removals of the head of the queue of an intent, the threads taken out are, in order, the ones that
  were in the queue followed by the ones inserted.
\<close>

theorem run_queue_fifo:
  assumes "fifo.trace (rq_can i) rq_insert_tail_locked (\<lambda>s. Ret (rq_pop_head_intent_locked i s)) s ops ins outs s'"
    and "rq_rep i s xs"
  shows "\<exists>ys. rq_rep i s' ys \<and> xs @ ins = outs @ ys"
  using assms by (rule rq.trace_order)

lemma example_rq_rep: "sched_inv TH Q s \<Longrightarrow> rq_rep i s (Q i)"
  using base_invD(1) [OF sched_inv_current(1)] unfolding rq_rep_def by blast

theorem run_queue_fifo_witness:
  "\<exists>(s :: sched_globals) s'. rq_rep SCHED_INTENT_INTERACTIVE s [0x1000] \<and> rq_rep SCHED_INTENT_INTERACTIVE s' [] \<and>
     rq_pop_head_intent_locked SCHED_INTENT_INTERACTIVE s = (0x1000, s')"
proof -
  let ?i = SCHED_INTENT_INTERACTIVE
  let ?Q = "(\<lambda>_. [])(SCHED_INTENT_INTERACTIVE := [0x1000], SCHED_INTENT_BACKGROUND := [0x2000])"
  obtain s :: sched_globals where "sched_inv {0x1000, 0x2000} ?Q s" using example_two_threads by blast
  then have r: "rq_rep ?i s [0x1000]" using example_rq_rep [of _ ?Q s ?i] by simp
  then obtain s' where p: "rq_pop_head_intent_locked ?i s = (0x1000, s')" using rq.deq_Cons [of ?i s "0x1000" "[]"] by auto
  have "fifo.trace (rq_can ?i) rq_insert_tail_locked (\<lambda>s. Ret (rq_pop_head_intent_locked ?i s)) s [Deq] [] [0x1000] s'"
    by (rule rq.trace_Deq [OF _ _ rq.trace_Nil]) (simp_all add: p)
  from run_queue_fifo [OF this r] show ?thesis using r p by auto
qed

text \<open>
  C6: no ready thread starves. A thread with \<open>k\<close> threads ahead of it in the queue of its intent is picked
  at the latest by the \<open>13 (k + 1)\<close>-th pick, whatever threads are queued meanwhile, in its class or in
  classes of higher weight.
\<close>

theorem ready_thread_bounded_wait:
  assumes "sched_inv TH Q s" and "k < length (Q j)" and "Q j ! k = t" and "waits t n s s'"
  shows "n < 13 * Suc k"
proof -
  note b = sched_inv_current(1) [OF assms(1)]
  have "n \<le> 13 * k + pick_dist (unat (s_pick_cursor s)) j"
    using waits_progress [OF assms(4) base_invD(1,3) [OF b] assms(2,3)] by auto
  then show ?thesis using pick_dist(2) [of "unat (s_pick_cursor s)" j] by simp
qed

theorem ready_thread_bounded_wait_witness:
  "\<exists>(s :: sched_globals) s'. waits 0x2000 1 s s' \<and> 1 < 13 * Suc 0"
proof -
  let ?Q = "(\<lambda>_. [])(SCHED_INTENT_INTERACTIVE := [0x1000], SCHED_INTENT_BACKGROUND := [0x2000])"
  obtain s :: sched_globals where s: "sched_inv {0x1000, 0x2000} ?Q s" "s_pick_cursor s = 0" using example_two_threads by blast
  have "pick ?Q (s_pick_cursor s) = Some (SCHED_INTENT_INTERACTIVE, 1)"
    unfolding s(2) by (rule example_pick)
  then obtain s' where "rq_pop_best_locked s = (0x1000, s')"
    using rq_pop_best_spec [OF base_invD(1,3) [OF sched_inv_current(1) [OF s(1)]]] by auto
  moreover have "(0x1000 :: ptr) \<noteq> 0x2000" by simp
  ultimately have "waits 0x2000 (Suc 0) s s'" using waits_pick [OF waits_start] by blast
  moreover from ready_thread_bounded_wait [OF s(1) _ _ this, of 0 SCHED_INTENT_BACKGROUND] have "Suc 0 < 13 * Suc 0" by simp
  ultimately show ?thesis by auto
qed

text \<open>
  C35: the classes get their weights. When enough threads wait in every class, thirteen consecutive picks
  take exactly six interactive, four latency, two throughput threads and one background thread, from
  whatever position of the pattern the picks start.
\<close>

theorem sched_weighted_share:
  assumes "sched_inv TH Q s" and "\<forall>i. class_weight i \<le> length (Q i)"
  shows "count_list (map (\<lambda>p. thread_intent (thread_at s p)) (fst (pop_n 13 s))) i =
    (case i of SCHED_INTENT_INTERACTIVE \<Rightarrow> 6 | SCHED_INTENT_LATENCY \<Rightarrow> 4 | SCHED_INTENT_THROUGHPUT \<Rightarrow> 2 | SCHED_INTENT_BACKGROUND \<Rightarrow> 1)"
proof -
  note b = sched_inv_current(1) [OF assms(1)]
  have "map (\<lambda>p. thread_intent (thread_at s p)) (fst (pop_n 13 s)) = pats (unat (s_pick_cursor s)) 13"
    by (rule pop_n_pattern [OF base_invD(1,3) [OF b]])
      (use assms(2) pats_weight [OF base_invD(3) [OF b]] base_invD(5) [OF b] in auto)
  then show ?thesis using pats_weight [OF base_invD(3) [OF b]] class_weights by (cases i) simp_all
qed

text \<open>A state with thirteen ready threads, for the witness.\<close>

lemma enqueue_many:
  fixes s :: "'a sched_globals_scheme"
  assumes "sched_inv TH Q s" and "distinct ts" and "\<forall>t\<in>set ts. t \<notin> TH \<and> t \<noteq> NULL \<and> t \<noteq> bootstrap_thread s \<and> t \<noteq> s_current s \<and>
      stack_ok (thread_at s t) \<and> th_state (thread_at s t) \<noteq> THREAD_DEAD"
  shows "\<exists>s' :: 'a sched_globals_scheme. sched_inv (TH \<union> set ts) (\<lambda>i. Q i @ filter (\<lambda>t. thread_intent (thread_at s t) = i) ts) s'"
  using assms
proof (induction ts arbitrary: TH Q s)
  case Nil
  then show ?case by auto
next
  case (Cons t ts)
  let ?u = "thread_update t (\<lambda>th. th\<lparr>th_state := THREAD_READY\<rparr>) s" and ?j = "thread_intent (thread_at s t)"
  have "\<not> in_rq Q t" using Cons.prems(3) base_invD(2) [OF sched_inv_current(1) [OF Cons.prems(1)]] by auto
  with sched_enqueue_spec [OF Cons.prems(1), of t] Cons.prems(3) obtain nx T where
    i: "sched_inv (insert t TH) (Q(?j := Q ?j @ [t])) (relink ?u nx T)" by auto
  let ?s = "relink ?u nx T" and ?Q = "Q(?j := Q ?j @ [t])"
  have th: "thread_intent (thread_at ?s p) = thread_intent (thread_at s p)" "stack_ok (thread_at ?s p) = stack_ok (thread_at s p)"
    "p \<noteq> t \<Longrightarrow> th_state (thread_at ?s p) = th_state (thread_at s p)" for p by simp_all
  have "\<exists>s' :: 'a sched_globals_scheme. sched_inv (insert t TH \<union> set ts) (\<lambda>i. ?Q i @ filter (\<lambda>p. thread_intent (thread_at ?s p) = i) ts) s'"
    by (rule Cons.IH [OF i]) (use Cons.prems(2,3) th in auto)
  moreover have "(\<lambda>i. ?Q i @ filter (\<lambda>p. thread_intent (thread_at ?s p) = i) ts) =
      (\<lambda>i. Q i @ filter (\<lambda>p. thread_intent (thread_at s p) = i) (t # ts))"
    unfolding th by (auto simp: fun_eq_iff)
  ultimately show ?case by simp
qed

definition many_threads :: "ptr list" where
  "many_threads = map (\<lambda>n. 0x1000 * of_nat n) [1..<14]"

definition many_intent :: "ptr \<Rightarrow> sched_intent" where
  "many_intent p = (if p \<le> 0x6000 then SCHED_INTENT_INTERACTIVE else if p \<le> 0xA000 then SCHED_INTENT_LATENCY
     else if p \<le> 0xC000 then SCHED_INTENT_THROUGHPUT else SCHED_INTENT_BACKGROUND)"

lemma many_threads_facts:
  "distinct many_threads" "\<forall>t\<in>set many_threads. t \<noteq> NULL \<and> t \<noteq> 0x500"
  "list_all (\<lambda>i. class_weight i \<le> length (filter (\<lambda>t. many_intent t = i) many_threads)) all_intents"
  by code_simp+

theorem sched_weighted_share_witness:
  "\<exists>s :: sched_globals. count_list (map (\<lambda>p. thread_intent (thread_at s p)) (fst (pop_n 13 s))) SCHED_INTENT_BACKGROUND = 1"
proof -
  let ?s0 = "sched_init_bootstrap 0x60 (example_sched0\<lparr>thread_at := (\<lambda>p. example_thread 0x40000 (many_intent p))\<rparr>)"
  have e: "bootstrap_thread ?s0 = 0x500" "s_current ?s0 = 0x500"
    "t \<noteq> 0x500 \<Longrightarrow> thread_at ?s0 t = example_thread 0x40000 (many_intent t)" for t
    using example_boot_facts(3,4) unfolding example_boot_def by (simp_all add: sched_init_bootstrap_def)
  have "sched_inv {} (\<lambda>_. []) ?s0"
    by (rule sched_init_bootstrap_inv) (use example_sched0_facts in simp_all)
  from enqueue_many [OF this many_threads_facts(1)] obtain s :: sched_globals where
    i: "sched_inv (set many_threads) (\<lambda>i. filter (\<lambda>t. thread_intent (thread_at ?s0 t) = i) many_threads) s"
    using many_threads_facts(2) e example_thread_ok by auto
  have "filter (\<lambda>t. thread_intent (thread_at ?s0 t) = i) many_threads = filter (\<lambda>t. many_intent t = i) many_threads" for i
    using many_threads_facts(2) e(3) by (intro filter_cong) simp_all
  moreover have "i \<in> set all_intents" for i by (cases i) (simp_all add: all_intents_def)
  ultimately have "\<forall>i. class_weight i \<le> length (filter (\<lambda>t. thread_intent (thread_at ?s0 t) = i) many_threads)"
    using many_threads_facts(3) by (simp add: list_all_iff)
  from sched_weighted_share [OF i this, of SCHED_INTENT_BACKGROUND] show ?thesis by auto
qed

end
