(* ===== verification/Thread.thy ===== *)
theory Thread
  imports Sched_Props
begin

unbundle bit_operations_syntax

text \<open>
  Kernel threads (\<open>Kern/Kernel/sched/thread.c\<close>): the thread object comes from a slab cache, its stack from
  the page allocator; a new thread has a context for the first cooperative switch and a trap frame for
  the first start from an interrupt exit. The addresses of the assembly entry \<open>thread_start\<close> and of
  \<open>thread_trampoline\<close> are arguments.
\<close>

section \<open>Operations\<close>

text \<open>\<open>sizeof(thread_t)\<close> is 232 with an alignment of 8.\<close>

definition sizeof_thread :: u64 where
  "sizeof_thread = 232"

definition thread_alloc_init :: "'a sched_globals_scheme \<Rightarrow> 'a sched_globals_scheme outcome" where
  "thread_alloc_init s =
     (if s_thread_cache_inited s then Ret s
      else obind (slab_cache_init (Some G_thread_cache) (Some ''thread'') sizeof_thread 8 s)
        (\<lambda>s1. Ret (s1\<lparr>s_thread_cache_inited := True\<rparr>)))"

definition thread_cache_get_stats :: "'a sched_globals_scheme \<Rightarrow> slab_cache_stats option" where
  "thread_cache_get_stats s =
     (if \<not> s_thread_cache_inited s then None else slab_cache_get_stats (Some G_thread_cache) s)"

definition align_down_u64 :: "u64 \<Rightarrow> u64 \<Rightarrow> u64" where
  "align_down_u64 v a = v AND NOT (a - 1)"

text \<open>\<open>memset(t, 0, sizeof(*t))\<close>: all fields zero, the state the first one of the enumeration.\<close>

definition thread_zero :: thread where
  "thread_zero = \<lparr>th_ctx = ctx_zero, tid = 0, th_name = NULL, th_task = NULL, kstack_base = NULL, kstack_size = 0,
     kstack_top = NULL, rq_next = NULL, last_trap = NULL, irq_sp = 0, saved_daif = 0, sched_intent = 0,
     slice_ticks_budget = 0, slice_ticks_used = 0, runtime_ticks_total = 0, preemptions = 0,
     th_state = THREAD_READY\<rparr>"

definition thread_build_initial_irq_frame ::
    "ptr \<Rightarrow> ptr \<Rightarrow> ptr \<Rightarrow> ptr \<Rightarrow> u64 \<Rightarrow> 'a sched_globals_scheme \<Rightarrow> u64 \<times> 'a sched_globals_scheme" where
  "thread_build_initial_irq_frame thread_trampoline t entry arg stack_top_aligned s =
     (let tf_sp = align_down_u64 (stack_top_aligned - sizeof_trap_frame) 16;
          tf0 = trap_frame_zero;
          tf = tf0\<lparr>tf_x := (tf_x tf0)[0 := entry, 1 := arg], elr_el1 := thread_trampoline,
                   spsr_el1 := SPSR_EL1H_IRQ_ENABLED, sp_at_fault := stack_top_aligned\<rparr>;
          s1 = s\<lparr>trap_frame_at := (trap_frame_at s)(tf_sp := tf)\<rparr> in
      (tf_sp, thread_update t (\<lambda>th. th\<lparr>irq_sp := tf_sp, last_trap := tf_sp\<rparr>) s1))"

definition thread_create_named ::
    "ptr \<Rightarrow> ptr \<Rightarrow> ptr \<Rightarrow> ptr \<Rightarrow> ptr \<Rightarrow> 'a sched_globals_scheme \<Rightarrow> (ptr \<times> 'a sched_globals_scheme) outcome" where
  "thread_create_named thread_start thread_trampoline name entry arg s0 =
     ASSERT_THREAD_CONTEXT s0
      (if entry = NULL then Panic ''thread_create: entry is NULL''
       else obind (slab_alloc (Some G_thread_cache) s0) (\<lambda>(t, s1).
         if t = NULL then Panic ''thread_create: OOM thread_t''
         else let s2 = thread_update t (\<lambda>_. thread_zero\<lparr>tid := s_next_tid s1, th_name := name, th_task := NULL\<rparr>) s1;
                  s3 = s2\<lparr>s_next_tid := s_next_tid s2 + 1\<rparr>;
                  pages = KSTACK_PAGES_DEFAULT in
           obind (pmm_alloc_pages pages LOCAL s3) (\<lambda>(r, s4).
             case r of
               None \<Rightarrow> obind (slab_free (Some G_thread_cache) t s4) (\<lambda>_. Panic ''thread_create: OOM stack pages'')
             | Some stack_pa \<Rightarrow>
                 let stack_va = pmm_phys_to_virt stack_pa;
                     stack_size = ucast pages * KSTACK_PAGE_SIZE;
                     stack_top = stack_va + stack_size;
                     sp0 = align_down_u64 stack_top 16;
                     s5 = thread_update t (\<lambda>th. th\<lparr>kstack_base := stack_va, kstack_size := stack_size, kstack_top := sp0\<rparr>) s4 in
                 (case thread_build_initial_irq_frame thread_trampoline t entry arg sp0 s5 of (tf_sp, s6) \<Rightarrow>
                    Ret (t, thread_update t (\<lambda>th. th\<lparr>th_ctx := (th_ctx th)\<lparr>x19 := entry, x20 := arg, x30 := thread_start,
                        sp := align_down_u64 tf_sp 16 - 0x100\<rparr>,
                        th_state := THREAD_READY, saved_daif := 0,
                        sched_intent := ucast (intent_value SCHED_INTENT_INTERACTIVE), slice_ticks_budget := 0,
                        slice_ticks_used := 0, runtime_ticks_total := 0, preemptions := 0\<rparr>) s6)))))"

definition thread_create ::
    "ptr \<Rightarrow> ptr \<Rightarrow> ptr \<Rightarrow> ptr \<Rightarrow> 'a sched_globals_scheme \<Rightarrow> (ptr \<times> 'a sched_globals_scheme) outcome" where
  "thread_create thread_start thread_trampoline entry arg s =
     thread_create_named thread_start thread_trampoline NULL entry arg s"

text \<open>
  \<open>thread_exit\<close> marks the thread dead and then repeats \<open>yield(); wfi\<close> forever: \<open>thread_exit_mark\<close> is what
  comes before the loop and \<open>thread_exit_pass\<close> one pass of it up to the wait for an interrupt. A pass that
  switches away is resumed only if the thread is picked again.
\<close>

definition thread_exit_mark :: "'a sched_globals_scheme \<Rightarrow> 'a sched_globals_scheme" where
  "thread_exit_mark s =
     (let t = sched_current s in
      if t \<noteq> NULL then thread_update t (\<lambda>th. th\<lparr>th_state := THREAD_DEAD\<rparr>) s else s)"

definition thread_exit_pass :: "'a sched_globals_scheme \<Rightarrow> (switch_result \<times> 'a sched_globals_scheme) outcome" where
  "thread_exit_pass s = yield s"

fun free_stack_pages :: "u64 \<Rightarrow> u32 \<Rightarrow> nat \<Rightarrow> 'a sched_globals_scheme \<Rightarrow> 'a sched_globals_scheme outcome" where
  "free_stack_pages pa_base i 0 s = Ret s"
| "free_stack_pages pa_base i (Suc n) s =
     obind (pmm_free_page (pa_base + ucast i * KSTACK_PAGE_SIZE) s) (free_stack_pages pa_base (i + 1) n)"

definition thread_destroy :: "ptr \<Rightarrow> 'a sched_globals_scheme \<Rightarrow> 'a sched_globals_scheme outcome" where
  "thread_destroy t s =
     (if t = NULL then Ret s
      else ASSERT_THREAD_CONTEXT s
        (let th = thread_at s t in
         obind (if kstack_base th \<noteq> NULL \<and> kstack_size th \<noteq> 0
                then let pa_base = pmm_virt_to_phys (kstack_base th);
                         pages = ucast (kstack_size th div KSTACK_PAGE_SIZE) :: u32 in
                  free_stack_pages pa_base 0 (unat pages) s
                else Ret s)
           (slab_free (Some G_thread_cache) t)))"

section \<open>What a new thread looks like\<close>

lemma align_down_16: "x AND 0xF = 0 \<Longrightarrow> align_down_u64 x 16 = x" "align_down_u64 x 16 AND 0xF = 0"
proof -
  have m: "(16 :: u64) - 1 = mask 4" "(0xF :: u64) = mask 4" by (simp_all add: mask_eq_exp_minus_1)
  show "align_down_u64 x 16 AND 0xF = 0"
    unfolding align_down_u64_def m by (rule bit_word_eqI) (auto simp: bit_simps)
  show "align_down_u64 x 16 = x" if "x AND 0xF = 0"
  proof -
    have "align_down_u64 x 16 = x AND NOT (x AND mask 4)"
      unfolding align_down_u64_def m by (rule bit_word_eqI) (auto simp: bit_simps)
    then show ?thesis unfolding that [unfolded m] by simp
  qed
qed

lemma thread_create_named_Ret:
  assumes "thread_create_named ts tt name entry arg s = Ret (t, s')"
  obtains s1 pa s4 where "entry \<noteq> NULL" and "\<not> in_irq s" and "slab_alloc (Some G_thread_cache) s = Ret (t, s1)" and "t \<noteq> NULL"
    and "pmm_alloc_pages KSTACK_PAGES_DEFAULT LOCAL ((thread_update t (\<lambda>_. thread_zero\<lparr>tid := s_next_tid s1, th_name := name, th_task := NULL\<rparr>) s1)
        \<lparr>s_next_tid := s_next_tid s1 + 1\<rparr>) = Ret (Some pa, s4)"
    and "s' = (let sp0 = align_down_u64 (pmm_phys_to_virt pa + 0x4000) 16; tf = align_down_u64 (sp0 - sizeof_trap_frame) 16 in
      (thread_update t (\<lambda>th. th\<lparr>kstack_base := pmm_phys_to_virt pa, kstack_size := 0x4000, kstack_top := sp0,
         irq_sp := tf, last_trap := tf, th_ctx := (th_ctx th)\<lparr>x19 := entry, x20 := arg, x30 := ts, sp := align_down_u64 tf 16 - 0x100\<rparr>,
         th_state := THREAD_READY, saved_daif := 0, sched_intent := ucast (intent_value SCHED_INTENT_INTERACTIVE),
         slice_ticks_budget := 0, slice_ticks_used := 0, runtime_ticks_total := 0, preemptions := 0\<rparr>) s4)
      \<lparr>trap_frame_at := (trap_frame_at s4)(tf := trap_frame_zero\<lparr>tf_x := (replicate 31 0)[0 := entry, 1 := arg],
         elr_el1 := tt, spsr_el1 := SPSR_EL1H_IRQ_ENABLED, sp_at_fault := sp0\<rparr>)\<rparr>)"
  using assms unfolding thread_create_named_def
  apply (auto simp: obind_Ret_iff Let_def thread_build_initial_irq_frame_def KSTACK_PAGES_DEFAULT_def KSTACK_PAGE_SIZE_def trap_frame_zero_def
      split: option.splits if_splits prod.splits)
  done

text \<open>What changes of the allocators' own globals mean to the layers above.\<close>

lemma sched_more:
  fixes s s' :: "'a sched_globals_scheme"
  assumes "slab_globals.more s' = slab_globals.more s"
  shows "thread_at s' = thread_at s" "trap_frame_at s' = trap_frame_at s" "s_next_tid s' = s_next_tid s" "s_ready_tail s' = s_ready_tail s"
    "s_current s' = s_current s" "bootstrap_thread s' = bootstrap_thread s" "s_pick_cursor s' = s_pick_cursor s" "cpu s' = cpu s"
    "s_thread_cache_inited s' = s_thread_cache_inited s"
  using assms by (cases s; cases s'; simp)+

lemma and_15_iff: "(x :: u64) AND 0xF = 0 \<longleftrightarrow> 16 dvd unat x"
proof -
  have "(0xF :: u64) = mask 4" by (simp add: mask_eq_exp_minus_1)
  moreover have "unat (x AND mask 4) = unat x mod 16" by (simp add: flip: take_bit_eq_mask) (simp add: take_bit_eq_mod unat_mod)
  ultimately show ?thesis by (simp add: dvd_eq_mod_eq_0 flip: unat_eq_zero)
qed

text \<open>A managed run of pages seen through the direct map.\<close>

lemma stack_geometry:
  assumes ok: "pmm_ok s" and run: "page_run pa 4 \<subseteq> managed_pas s"
  defines "b \<equiv> pmm_phys_to_virt pa"
  shows "align_down_u64 (b + 0x4000) 16 = b + 0x4000" "align_down_u64 (b + 0x4000 - sizeof_trap_frame) 16 = b + 0x4000 - sizeof_trap_frame"
    "b \<noteq> NULL" "unat b + 0x4000 < 2 ^ 64" "16 dvd unat b" "4096 dvd unat b" "pmm_virt_to_phys b = pa"
    "unat pa + 0x4000 \<le> 0x80000000"
proof -
  have "pa + of_nat k * PAGE_SIZE \<in> managed_pas s" if "k < 4" for k using run that by (auto simp: page_run_def)
  from this [of 0] this [of 3] have p0: "pa \<in> managed_pas s" and p3: "pa + 3 * PAGE_SIZE \<in> managed_pas s" by simp_all
  note m0 = managed_page [OF ok p0] and m3 = managed_page [OF ok p3]
  have u3: "unat (pa + 3 * PAGE_SIZE) = unat pa + 0x3000" using m0 by (simp add: PAGE_SIZE_def unat_word_ariths)
  show top: "unat pa + 0x4000 \<le> 0x80000000" using m3(2) u3 by simp
  have ub: "unat b = 0xFFFF800000000000 + unat pa" unfolding b_def using m0 by (intro unat_phys_to_virt) auto
  show lt: "unat b + 0x4000 < 2 ^ 64" using ub top by simp
  show "b \<noteq> NULL" using ub by auto
  show p: "4096 dvd unat b" unfolding ub using m0(3) by (intro dvd_add) (simp_all add: dvd_def)
  then show d: "16 dvd unat b" by (rule dvd_trans [rotated]) (simp add: dvd_def)
  have t: "unat (b + 0x4000) = unat b + 0x4000" using lt by (simp add: unat_word_ariths)
  then have "16 dvd unat (b + 0x4000)" using d by (simp add: dvd_add)
  then show "align_down_u64 (b + 0x4000) 16 = b + 0x4000" by (intro align_down_16) (simp add: and_15_iff)
  have "unat (b + 0x4000 - sizeof_trap_frame) = unat b + 16080"
  proof -
    have "b + 0x4000 - sizeof_trap_frame = b + 16080" by (simp add: sizeof_trap_frame_def)
    then show ?thesis using lt by (simp only: unat_word_ariths) simp
  qed
  moreover have "16 dvd (16080 :: nat)" by simp
  ultimately have "16 dvd unat (b + 0x4000 - sizeof_trap_frame)" using d by (metis dvd_add)
  then show "align_down_u64 (b + 0x4000 - sizeof_trap_frame) 16 = b + 0x4000 - sizeof_trap_frame"
    by (intro align_down_16) (simp add: and_15_iff)
  show "pmm_virt_to_phys b = pa" unfolding b_def using m0 by (intro virt_to_phys_phys_to_virt) auto
qed

lemma slab_alloc_free_sub:
  assumes ok: "pmm_ok s" and a: "slab_alloc (Some r) s = Ret (x, s')"
  shows "free_pas s' \<subseteq> free_pas s"
proof -
  have g: "free_pas u' = free_pas u" if "g_pmm u' = g_pmm u" for u u' :: "'a slab_globals_scheme"
    using that by (simp add: free_pas_def)
  have pg: "free_pas u' \<subseteq> free_pas u" if p: "pmm_ok u" and q: "slab_page_alloc sz al u = Ret (y, u')" for u u' :: "'a slab_globals_scheme" and sz al y
  proof -
    from q obtain k v where v: "pmm_alloc_pages 1 LOCAL u = Ret (k, v)" "g_pmm u' = g_pmm v"
      by (auto simp: slab_page_alloc_def obind_Ret_iff slab_page_build_freelist_def Let_def split: option.splits if_splits)
    then have "free_pas v \<subseteq> free_pas u"
      using pmm_ok_alloc_None [OF p] pmm_ok_alloc_Some [OF p] by (cases k) auto
    then show ?thesis using g [OF v(2)] by simp
  qed
  define u where "u = s\<lparr>slab_caches := (slab_caches s)(r := (slab_caches s r)\<lparr>sc_alloc_calls := sc_alloc_calls (slab_caches s r) + 1\<rparr>)\<rparr>"
  have u: "pmm_ok u" "free_pas u = free_pas s"
    using ok same_pmm_pages(1,3) [of s u] by (simp_all add: u_def same_pmm_def)
  from a obtain sp where sp: "(if sp \<noteq> NULL then Ret (slab_take r sp u) else slab_grow r u) = Ret (x, s')"
    unfolding slab_alloc_def option.case Let_def u_def [symmetric] ASSERT_THREAD_CONTEXT_Ret_iff obind_Ret_iff by blast
  show ?thesis
  proof (cases "sp = NULL")
    case True
    with sp have "slab_grow r u = Ret (x, s')" by simp
    then obtain y w where w: "slab_page_alloc (sc_obj_size (slab_caches u r)) (sc_obj_align (slab_caches u r)) u = Ret (y, w)"
      and "g_pmm s' = g_pmm w"
      unfolding slab_grow_def obind_Ret_iff by (auto simp: slab_take_def Let_def split: if_splits)
    then show ?thesis using pg [OF u(1) w] g [of s' w] u(2) by simp
  next
    case False
    with sp have "g_pmm s' = g_pmm u" by (auto simp: slab_take_def Let_def)
    then show ?thesis using g [of s' u] u(2) by simp
  qed
qed

text \<open>The stack of a thread: pages handed out by the page allocator, none of them a slab page.\<close>

definition stack_owned :: "ptr \<Rightarrow> 'a sched_globals_scheme \<Rightarrow> bool" where
  "stack_owned t s \<longleftrightarrow> (\<exists>pa PS FL. slab_rep s PS FL \<and> kstack_base (thread_at s t) = pmm_phys_to_virt pa \<and>
     kstack_size (thread_at s t) = 0x4000 \<and> page_run pa 4 \<subseteq> managed_pas s - free_pas s \<and>
     (\<forall>q. pmm_phys_to_virt ` page_run pa 4 \<inter> set (PS q) = {}))"

definition stack_pages :: "ptr \<Rightarrow> 'a sched_globals_scheme \<Rightarrow> u64 set" where
  "stack_pages t s = page_run (pmm_virt_to_phys (kstack_base (thread_at s t))) 4"

lemma thread_create_spec:
  assumes r: "slab_ready G_thread_cache s" and c: "thread_create_named ts tt name entry arg s = Ret (t, s')"
  shows "t \<noteq> NULL" "t \<notin> live_objs G_thread_cache s" "stack_ok (thread_at s' t)" "th_state (thread_at s' t) = THREAD_READY"
    "rq_next (thread_at s' t) = NULL" "thread_intent (thread_at s' t) = SCHED_INTENT_INTERACTIVE"
    "x19 (th_ctx (thread_at s' t)) = entry" "x20 (th_ctx (thread_at s' t)) = arg" "x30 (th_ctx (thread_at s' t)) = ts"
    "kstack_base (thread_at s' t) < sp (th_ctx (thread_at s' t))" "sp (th_ctx (thread_at s' t)) < irq_sp (thread_at s' t)"
    "trap_frame_at s' (irq_sp (thread_at s' t)) = trap_frame_zero\<lparr>tf_x := (replicate 31 0)[0 := entry, 1 := arg], elr_el1 := tt,
       spsr_el1 := SPSR_EL1H_IRQ_ENABLED, sp_at_fault := kstack_top (thread_at s' t)\<rparr>"
    "p \<noteq> t \<Longrightarrow> thread_at s' p = thread_at s p"
    "s_next_tid s' = s_next_tid s + 1" "tid (thread_at s' t) = s_next_tid s"
    "slab_ready G_thread_cache s'" "live_objs q s' = (if q = G_thread_cache then insert t (live_objs q s) else live_objs q s)"
    "stack_owned t s'" "stack_pages t s' \<subseteq> free_pas s"
    "free_pas s' \<union> stack_pages t s' = free_pas s \<or>
       (\<exists>pa\<in>free_pas s. align_down_4k t = pmm_phys_to_virt pa \<and> free_pas s' \<union> stack_pages t s' = free_pas s - {pa})"
    "free_pas s' \<inter> stack_pages t s' = {}"
    "bootstrap_thread s' = bootstrap_thread s"
proof -
  from c obtain s1 pa s4 where a: "slab_alloc (Some G_thread_cache) s = Ret (t, s1)" and t: "t \<noteq> NULL"
    and pg: "pmm_alloc_pages KSTACK_PAGES_DEFAULT LOCAL ((thread_update t (\<lambda>_. thread_zero\<lparr>tid := s_next_tid s1, th_name := name, th_task := NULL\<rparr>) s1)
        \<lparr>s_next_tid := s_next_tid s1 + 1\<rparr>) = Ret (Some pa, s4)"
    and s': "s' = (let sp0 = align_down_u64 (pmm_phys_to_virt pa + 0x4000) 16; tf = align_down_u64 (sp0 - sizeof_trap_frame) 16 in
      (thread_update t (\<lambda>th. th\<lparr>kstack_base := pmm_phys_to_virt pa, kstack_size := 0x4000, kstack_top := sp0,
         irq_sp := tf, last_trap := tf, th_ctx := (th_ctx th)\<lparr>x19 := entry, x20 := arg, x30 := ts, sp := align_down_u64 tf 16 - 0x100\<rparr>,
         th_state := THREAD_READY, saved_daif := 0, sched_intent := ucast (intent_value SCHED_INTENT_INTERACTIVE),
         slice_ticks_budget := 0, slice_ticks_used := 0, runtime_ticks_total := 0, preemptions := 0\<rparr>) s4)
      \<lparr>trap_frame_at := (trap_frame_at s4)(tf := trap_frame_zero\<lparr>tf_x := (replicate 31 0)[0 := entry, 1 := arg],
         elr_el1 := tt, spsr_el1 := SPSR_EL1H_IRQ_ENABLED, sp_at_fault := sp0\<rparr>)\<rparr>)"
    by (rule thread_create_named_Ret)
  from slab_alloc_ready [OF r] a t have si: "slab_inv s1" and fr: "slab_frame s s1" and nl: "t \<notin> live_objs G_thread_cache s"
    and lv: "\<forall>q. live_objs q s1 = (if q = G_thread_cache then insert t (live_objs G_thread_cache s) else live_objs q s)" by auto
  define s3 where "s3 = (thread_update t (\<lambda>_. thread_zero\<lparr>tid := s_next_tid s1, th_name := name, th_task := NULL\<rparr>) s1)
        \<lparr>s_next_tid := s_next_tid s1 + 1\<rparr>"
  note pg = pg [folded s3_def]
  have v: "slab_inv s3" "live_objs q s3 = live_objs q s1" for q
    using slab_same_view [of s1 s3] si by (simp_all add: s3_def same_pmm_def)
  then obtain PS FL where rep: "slab_rep s3 PS FL" by (auto simp: slab_inv_def)
  have ok3: "pmm_ok s3" using rep by (simp add: slab_rep_def)
  note al = pmm_ok_alloc_Some [OF ok3 pg] and fr4 = pmm_alloc_pages_frame [OF pg]
  have k4: "unat KSTACK_PAGES_DEFAULT = 4" by (simp add: KSTACK_PAGES_DEFAULT_def)
  have bk: "\<forall>q. \<forall>p\<in>set (PS q). backed s4 p"
    using slab_repD(3) [OF rep] al(2-4) by (fastforce simp: page_rep_def backed_def)
  have rep4: "slab_rep s4 PS FL" "live_objs q s4 = live_objs q s3" for q
    by (rule slab_rep_pmm [OF rep fr4(1) al(1)]; use bk in blast)+
  have run: "page_run pa 4 \<subseteq> managed_pas s3" using al(2) free_pas_managed [OF ok3] k4 by auto
  note g = stack_geometry [OF ok3 run]
  note m1 = sched_more [OF slab_frameD(1) [OF fr]] and m4 = sched_more [OF slab_more(4) [OF fr4(1)]]
  let ?b = "pmm_phys_to_virt pa"
  have e3: "?b + 0x4000 - sizeof_trap_frame = ?b + 16080" by (simp add: sizeof_trap_frame_def)
  have ub: "unat (?b + 0x4000) = unat ?b + 0x4000" "unat (?b + 16080) = unat ?b + 16080" "unat (?b + 15824) = unat ?b + 15824"
    "unat (0x4000 + ?b) = unat ?b + 0x4000"
    using g(4) by (simp_all add: unat_word_ariths)
  have th: "thread_at s' t = thread_zero\<lparr>tid := s_next_tid s, th_name := name, kstack_base := ?b, kstack_size := 0x4000,
      kstack_top := ?b + 0x4000, irq_sp := ?b + 16080, last_trap := ?b + 16080,
      th_ctx := ctx_zero\<lparr>x19 := entry, x20 := arg, x30 := ts, sp := ?b + 15824\<rparr>\<rparr>"
    using g(1,2) unfolding s' Let_def by (simp add: m4 s3_def m1 thread_zero_def e3)
  show "t \<noteq> NULL" by (rule t)
  show "t \<notin> live_objs G_thread_cache s" by (rule nl)
  show "th_state (thread_at s' t) = THREAD_READY" "rq_next (thread_at s' t) = NULL" "x19 (th_ctx (thread_at s' t)) = entry"
    "x20 (th_ctx (thread_at s' t)) = arg" "x30 (th_ctx (thread_at s' t)) = ts" "tid (thread_at s' t) = s_next_tid s"
    "thread_intent (thread_at s' t) = SCHED_INTENT_INTERACTIVE"
    unfolding th by (simp_all add: thread_zero_def thread_intent_def sched_intent_sanitize_def SCHED_INTENT_COUNT_def)
  have al16: "16 dvd unat (?b + 16080)" "16 dvd unat (?b + 15824)"
    unfolding ub by (intro dvd_add g(5); simp)+
  show "stack_ok (thread_at s' t)"
    unfolding th using g(3,4) al16 ub
    by (auto simp: stack_ok_def and_15_iff word_le_nat_alt sizeof_trap_frame_def)
  show "kstack_base (thread_at s' t) < sp (th_ctx (thread_at s' t))" "sp (th_ctx (thread_at s' t)) < irq_sp (thread_at s' t)"
    unfolding th by (simp_all add: word_less_nat_alt ub)
  show "trap_frame_at s' (irq_sp (thread_at s' t)) = trap_frame_zero\<lparr>tf_x := (replicate 31 0)[0 := entry, 1 := arg], elr_el1 := tt,
       spsr_el1 := SPSR_EL1H_IRQ_ENABLED, sp_at_fault := kstack_top (thread_at s' t)\<rparr>"
    unfolding th using g(1,2) unfolding s' Let_def by (simp add: e3)
  show "p \<noteq> t \<Longrightarrow> thread_at s' p = thread_at s p" by (simp add: s' Let_def m4 s3_def m1)
  show "bootstrap_thread s' = bootstrap_thread s" by (simp add: s' Let_def m4 s3_def m1)
  show "s_next_tid s' = s_next_tid s + 1" by (simp add: s' Let_def m4 s3_def m1)
  have irq: "\<not> in_irq s'" using r slab_frameD(2) [OF fr] fr4(2) by (simp add: s' Let_def slab_ready_def in_irq_def s3_def)
  have view: "slab_inv s' = slab_inv s4" "live_objs q s' = live_objs q s4"
    using slab_same_view [of s4 s'] by (simp_all add: s' Let_def same_pmm_def)
  show "live_objs q s' = (if q = G_thread_cache then insert t (live_objs q s) else live_objs q s)"
    using view(2) rep4(2) v(2) lv by simp
  have inv: "slab_inv s'" using view(1) rep4(1) by (auto simp only: slab_inv_def)
  moreover have "slab_caches s' = slab_caches s1" using slab_more(1) [OF fr4(1)] by (simp add: s' Let_def s3_def)
  ultimately show "slab_ready G_thread_cache s'"
    using r irq slab_frameD(4) [OF fr] by (simp add: slab_ready_def)
  have pm: "same_pmm s4 s'" by (simp add: s' Let_def same_pmm_def)
  have rep': "slab_rep s' PS FL"
    using slab_same_view(4) [OF pm] rep4(1) by (simp add: s' Let_def)
  have st: "stack_pages t s' = page_run pa 4" using g(7) by (simp add: stack_pages_def th)
  have f3: "free_pas s3 = free_pas s1" using same_pmm_pages(3) [of s1 s3] by (simp add: s3_def same_pmm_def)
  have f': "free_pas s' = free_pas s1 - page_run pa 4" "managed_pas s' = managed_pas s3"
    using same_pmm_pages(2,3) [OF pm] al(3,4) k4 f3 by simp_all
  have f1: "free_pas s1 \<subseteq> free_pas s" and tp: "took_page s s1 (align_down_4k t)"
    using slab_alloc_free_sub [OF _ a] slab_alloc_pages [OF r a] r by (auto simp: slab_ready_def slab_inv_def slab_rep_def)
  have "pmm_phys_to_virt ` page_run pa 4 \<inter> set (PS q) = {}" for q
    using slab_repD(3) [OF rep] al(2) k4 by (fastforce simp: page_rep_def backed_def phys_to_virt_inj)
  moreover have "page_run pa 4 \<subseteq> managed_pas s' - free_pas s'" using f' run by auto
  ultimately show "stack_owned t s'"
    unfolding stack_owned_def using rep' th by (intro exI [of _ pa] exI [of _ PS] exI [of _ FL]) simp
  show "stack_pages t s' \<subseteq> free_pas s" using al(2) k4 f3 f1 unfolding st by auto
  have "free_pas s' \<union> stack_pages t s' = free_pas s1" using al(2) k4 f3 unfolding f' st by auto
  then show "free_pas s' \<union> stack_pages t s' = free_pas s \<or>
       (\<exists>pa\<in>free_pas s. align_down_4k t = pmm_phys_to_virt pa \<and> free_pas s' \<union> stack_pages t s' = free_pas s - {pa})"
    using tp by (simp add: took_page_def)
  show "free_pas s' \<inter> stack_pages t s' = {}" unfolding f' st by blast
qed

section \<open>Teardown\<close>

lemma free_stack_pages_spec:
  assumes "pmm_ok s" and "\<not> in_irq s" and "\<forall>k<n. pa + ucast (i + of_nat k) * KSTACK_PAGE_SIZE \<in> managed_pas s"
  shows "\<exists>s'. free_stack_pages pa i n s = Ret s' \<and> pmm_ok s' \<and> managed_pas s' = managed_pas s \<and>
    pmm_globals.more s' = pmm_globals.more s \<and> s_irq_depth s' = s_irq_depth s \<and> daif s' = daif s \<and>
    free_pas s' = free_pas s \<union> (\<lambda>k. pa + ucast (i + of_nat k) * KSTACK_PAGE_SIZE) ` {..<n}"
  using assms
proof (induction n arbitrary: i s)
  case 0
  then show ?case by simp
next
  case (Suc n)
  let ?p = "pa + ucast i * KSTACK_PAGE_SIZE"
  have m: "?p \<in> managed_pas s" using Suc.prems(3) [rule_format, of 0] by simp
  obtain s1 where r: "pmm_free_page ?p s = Ret s1" using pmm_free_page_returns [OF Suc.prems(2)] by blast
  note f = pmm_free_page_Ret [OF Suc.prems(1) r] and fr = pmm_free_page_more [OF r]
  have "\<not> in_irq s1" using Suc.prems(2) fr(2) by (simp add: in_irq_def)
  moreover have "\<forall>k<n. pa + ucast (i + 1 + of_nat k) * KSTACK_PAGE_SIZE \<in> managed_pas s1"
  proof (intro allI impI)
    fix k assume "k < n"
    then have "pa + ucast (i + of_nat (Suc k)) * KSTACK_PAGE_SIZE \<in> managed_pas s" using Suc.prems(3) [rule_format, of "Suc k"] by simp
    then show "pa + ucast (i + 1 + of_nat k) * KSTACK_PAGE_SIZE \<in> managed_pas s1" using f(2) by (simp add: add.assoc)
  qed
  ultimately obtain s' where s': "free_stack_pages pa (i + 1) n s1 = Ret s'" "pmm_ok s'" "managed_pas s' = managed_pas s1"
    "pmm_globals.more s' = pmm_globals.more s1" "s_irq_depth s' = s_irq_depth s1" "daif s' = daif s1"
    "free_pas s' = free_pas s1 \<union> (\<lambda>k. pa + ucast (i + 1 + of_nat k) * KSTACK_PAGE_SIZE) ` {..<n}"
    using Suc.IH [OF f(1), of "i + 1"] by auto
  have "(\<lambda>k. pa + ucast (i + of_nat k) * KSTACK_PAGE_SIZE) ` {..<Suc n} =
      insert ?p ((\<lambda>k. pa + ucast (i + 1 + of_nat k) * KSTACK_PAGE_SIZE) ` {..<n})"
    unfolding lessThan_Suc_eq_insert_0 image_insert image_image by (simp add: add.assoc)
  then have "free_pas s' = free_pas s \<union> (\<lambda>k. pa + ucast (i + of_nat k) * KSTACK_PAGE_SIZE) ` {..<Suc n}"
    unfolding s'(7) f(3) using m by simp
  moreover have "free_stack_pages pa i (Suc n) s = Ret s'" using r s'(1) by simp
  ultimately show ?case using s'(2-6) f(2) fr by metis
qed

lemma stack_run_words: "(\<lambda>k. pa + ucast (0 + of_nat k :: u32) * KSTACK_PAGE_SIZE) ` {..<4} = page_run pa 4"
proof -
  have "ucast (of_nat k :: u32) = (of_nat k :: u64)" if "k < 4" for k
    using that by (simp add: word_unat_eq_iff unsigned_ucast_eq unat_of_nat take_bit_nat_eq_self)
  then show ?thesis unfolding page_run_def by (intro image_cong) (simp_all add: KSTACK_PAGE_SIZE_def PAGE_SIZE_def)
qed

lemma thread_destroy_spec:
  assumes irq: "\<not> in_irq s" and t: "t \<in> live_objs G_thread_cache s" and own: "stack_owned t s"
  shows "\<exists>s'. thread_destroy t s = Ret s' \<and> slab_inv s' \<and> slab_frame s s' \<and> free_pas s' = free_pas s \<union> stack_pages t s \<and>
    (\<forall>q. live_objs q s' = (if q = G_thread_cache then live_objs q s - {t} else live_objs q s))"
proof -
  from own obtain pa PS FL where rep: "slab_rep s PS FL" and b: "kstack_base (thread_at s t) = pmm_phys_to_virt pa"
    and sz: "kstack_size (thread_at s t) = 0x4000" and run: "page_run pa 4 \<subseteq> managed_pas s - free_pas s"
    and dis: "\<forall>q. pmm_phys_to_virt ` page_run pa 4 \<inter> set (PS q) = {}" unfolding stack_owned_def by blast
  have ok: "pmm_ok s" using rep by (simp add: slab_rep_def)
  have tn: "t \<noteq> NULL" using t live_objs_not_NULL by auto
  have "page_run pa 4 \<subseteq> managed_pas s" using run by blast
  note g = stack_geometry [OF ok this]
  have "\<forall>k<4. pa + ucast (0 + of_nat k :: u32) * KSTACK_PAGE_SIZE \<in> managed_pas s" using run stack_run_words [of pa] by blast
  from free_stack_pages_spec [OF ok irq this] obtain s1 where
    f: "free_stack_pages pa 0 4 s = Ret s1" "pmm_ok s1" "managed_pas s1 = managed_pas s" "pmm_globals.more s1 = pmm_globals.more s"
    "s_irq_depth s1 = s_irq_depth s" "free_pas s1 = free_pas s \<union> page_run pa 4" "daif s1 = daif s" unfolding stack_run_words by blast
  have bk: "\<forall>q. \<forall>p\<in>set (PS q). backed s1 p"
    using slab_repD(3) [OF rep] dis by (fastforce simp: page_rep_def backed_def f(3,6))
  have rep1: "slab_rep s1 PS FL" "live_objs q s1 = live_objs q s" for q
    by (rule slab_rep_pmm [OF rep f(4,2)]; use bk in blast)+
  have irq1: "\<not> in_irq s1" using irq f(5) by (simp add: in_irq_def)
  have "slab_inv s1" using rep1(1) by (auto simp: slab_inv_def)
  from slab_free_ready [OF this irq1, of t G_thread_cache] t rep1(2) obtain s' where
    s': "slab_free (Some G_thread_cache) t s1 = Ret s'" "slab_inv s'" "slab_frame s1 s'"
    "\<forall>q. live_objs q s' = (if q = G_thread_cache then live_objs G_thread_cache s1 - {t} else live_objs q s1)" by auto
  have "(0x4000 :: u64) div KSTACK_PAGE_SIZE = 4" by (simp add: KSTACK_PAGE_SIZE_def)
  then have run: "thread_destroy t s = Ret s'"
    using tn irq g(3,7) b sz f(1) s'(1) by (simp add: thread_destroy_def Let_def)
  have "slab_frame s s1" using f(4,5,7) slab_more [OF f(4)] by (simp add: slab_frame_def)
  then have "slab_frame s s'" using s'(3) slab_frame_trans by blast
  moreover have "free_pas s' = free_pas s \<union> stack_pages t s"
    using same_pmm_pages(3) [OF slab_free_same_pmm [OF s'(1)]] f(6) g(7) by (simp add: stack_pages_def b)
  ultimately show ?thesis using run s'(2,4) rep1(2) by (intro exI [of _ s']) simp
qed

section \<open>Properties\<close>

text \<open>A manager of sixteen pages of which the first is metadata, for the examples.\<close>

definition roomy_pmm :: pmm_state where
  "roomy_pmm = \<lparr>base_pa = 0x40000000, limit_pa = 0x40010000, total_pages = 16, free_pages = 15,
     bitmap_va = 0xFFFF800040000050, bitmap = [0x01, 0x00], bitmap_bytes = 2, next_hint = 1,
     meta_base_pa = 0x40000000, meta_pages = 1\<rparr>"

definition example_roomy :: sched_globals where
  "example_roomy = example_sched0\<lparr>g_pmm := Some roomy_pmm\<rparr>"

lemma roomy_bits: "filter (\<lambda>i. \<not> bit_test [0x01, 0x00] i) [0..<16] = [1, 2, 3, 4, 5, 6, 7, 8, 9, 10, 11, 12, 13, 14, 15]"
  by code_simp

lemma roomy_runs: "find_run [0x01, 0x00] 1 16 (Suc 0) = Some 1" "set_run [0x01, 0x00] 1 (Suc 0) = [0x03, 0x00]"
  "find_run [0x03, 0x00] 2 16 4 = Some 2"
  by code_simp+

definition roomy_pmm1 :: pmm_state where
  "roomy_pmm1 = roomy_pmm\<lparr>bitmap := [0x03, 0x00], free_pages := 14, next_hint := 2\<rparr>"

lemma roomy_search: "pmm_search roomy_pmm (Suc 0) = Some 1" "pmm_search roomy_pmm1 4 = Some 2"
  "free_pages roomy_pmm = 15" "total_pages roomy_pmm = 16" "free_pages roomy_pmm1 = 14" "total_pages roomy_pmm1 = 16"
  using roomy_runs by (simp_all add: pmm_search_def roomy_pmm_def roomy_pmm1_def Let_def)

lemma example_sched0_like: "like_example example_sched0"
  using example_cap0_simps(1) by (simp add: like_example_def example_sched0_def cap_globals.defs)

lemma example_roomy_ready: "slab_ready r example_roomy" "sc_pages (slab_caches example_roomy r) = NULL"
  "g_pmm example_roomy = Some roomy_pmm" "\<not> in_irq example_roomy" "bootstrap_thread example_roomy = 0x500"
proof -
  have like: "slab_caches example_roomy = (\<lambda>_. example_cache)" "s_irq_depth example_roomy = 0"
    "g_pmm_low_free_pages example_roomy = 4" "g_pmm_peak_used_pages example_roomy = 12"
    using example_sched0_like by (simp_all add: like_example_def example_roomy_def example_pmm_def)
  show g: "g_pmm example_roomy = Some roomy_pmm" by (simp add: example_roomy_def)
  have "pmm_ok example_roomy"
    unfolding pmm_ok_def g
    by (simp add: roomy_pmm_def pmm_wf_def pmm_window_def free_idx_filter roomy_bits page_aligned_iff kaddr_config in_meta_def
        page_pa_def pressure_ok_def like)
  then have rep: "slab_rep example_roomy (\<lambda>_. []) (\<lambda>_. [])"
    by (simp add: slab_rep_def cache_rep_def example_cache_def like)
  show irq: "\<not> in_irq example_roomy" by (simp add: in_irq_def like)
  have "cache_geom (slab_caches example_roomy r)"
    using like_example_ready(1) [OF example_sched0_like, of r] example_sched0_like by (simp add: slab_ready_def like like_example_def)
  then show "slab_ready r example_roomy" using rep irq by (auto simp: slab_ready_def slab_inv_def)
  show "sc_pages (slab_caches example_roomy r) = NULL" by (simp add: like example_cache_def)
  show "bootstrap_thread example_roomy = 0x500" by (simp add: example_roomy_def example_sched0_def cap_globals.defs)
qed

text \<open>The first object of an empty cache comes from a page the page allocator hands out.\<close>

lemma slab_alloc_first:
  assumes "sc_pages (slab_caches s r) = NULL" and "slab_alloc (Some r) s = Ret (x, s')"
  shows "\<exists>c k v. pmm_alloc_pages 1 LOCAL (s\<lparr>slab_caches := c\<rparr>) = Ret (k, v) \<and> g_pmm s' = g_pmm v"
proof -
  define c where "c = (slab_caches s)(r := (slab_caches s r)\<lparr>sc_alloc_calls := sc_alloc_calls (slab_caches s r) + 1\<rparr>)"
  let ?u = "s\<lparr>slab_caches := c\<rparr>"
  have e: "slab_find_free (slab_page_at ?u) (sc_pages (slab_caches ?u r)) = Some NULL"
    using assms(1) by (simp add: c_def) (subst slab_find_free.simps, simp)
  have "slab_grow r ?u = Ret (x, s')"
    using assms(2) e unfolding slab_alloc_def Let_def option.case ASSERT_THREAD_CONTEXT_Ret_iff c_def [symmetric] by simp
  then obtain y w where w: "slab_page_alloc (sc_obj_size (slab_caches ?u r)) (sc_obj_align (slab_caches ?u r)) ?u = Ret (y, w)"
      and g: "g_pmm s' = g_pmm w"
    unfolding slab_grow_def obind_Ret_iff by (auto simp: slab_take_def Let_def split: if_splits)
  from w obtain k v where "pmm_alloc_pages 1 LOCAL ?u = Ret (k, v)" "g_pmm w = g_pmm v"
    by (auto simp: slab_page_alloc_def obind_Ret_iff slab_page_build_freelist_def Let_def split: option.splits if_splits)
  then show ?thesis using g by auto
qed

lemma example_thread_created: "\<exists>t s'. thread_create_named 0x111 0x222 NULL 0x333 7 example_roomy = Ret (t, s')"
proof -
  note e = example_roomy_ready
  obtain t s1 where a: "slab_alloc (Some G_thread_cache) example_roomy = Ret (t, s1)" and fr: "slab_frame example_roomy s1"
    and n: "t = NULL \<longrightarrow> free_pas example_roomy = {}" using slab_alloc_ready [OF e(1)] by (metis (full_types))
  have "free_pas example_roomy \<noteq> {}"
    by (simp add: free_pas_def e roomy_pmm_def free_idx_filter roomy_bits)
  with n have t: "t \<noteq> NULL" by auto
  from slab_alloc_first [OF e(2) a] obtain c k v where v: "pmm_alloc_pages 1 LOCAL (example_roomy\<lparr>slab_caches := c\<rparr>) = Ret (k, v)"
    "g_pmm s1 = g_pmm v" by blast
  have one: "\<not> in_irq (example_roomy\<lparr>slab_caches := c\<rparr>)" using e(4) by (simp add: in_irq_def)
  have "g_pmm v = Some (roomy_pmm\<lparr>bitmap := set_run (bitmap roomy_pmm) 1 (Suc 0), free_pages := 14, next_hint := 2\<rparr>)"
    using v(1) one by (auto simp: pmm_alloc_pages_def Let_def e(3) roomy_search)
  moreover have "set_run (bitmap roomy_pmm) 1 (Suc 0) = [0x03, 0x00]" using roomy_runs(2) by (simp add: roomy_pmm_def)
  ultimately have g: "g_pmm s1 = Some roomy_pmm1" unfolding v(2) by (simp only: roomy_pmm1_def)
  let ?s3 = "(thread_update t (\<lambda>_. thread_zero\<lparr>tid := s_next_tid s1, th_name := NULL, th_task := NULL\<rparr>) s1)\<lparr>s_next_tid := s_next_tid s1 + 1\<rparr>"
  have irq: "\<not> in_irq s1" using slab_frameD(2) [OF fr] e(4) by simp
  have "\<exists>pa s4. pmm_alloc_pages KSTACK_PAGES_DEFAULT LOCAL ?s3 = Ret (Some pa, s4)"
    using irq by (simp add: pmm_alloc_pages_def Let_def g in_irq_def KSTACK_PAGES_DEFAULT_def roomy_search)
  then show ?thesis
    using a t e(4) by (auto simp: thread_create_named_def Let_def thread_build_initial_irq_frame_def)
qed

text \<open>
  C11: a created thread can run. It is a new object of the thread cache, ready, in no queue, with a stack of
  pages that were free and belong to no slab; its saved stack pointers are aligned and lie inside that
  stack, the cooperative one below the reserved trap frame; the first switch to it enters \<open>thread_start\<close>
  with the entry function and its argument, and the first return from an interrupt into it enters
  \<open>thread_trampoline\<close> with the same two arguments and interrupts enabled. So the scheduler accepts it.
\<close>

theorem thread_create_runnable:
  assumes "slab_ready G_thread_cache s" and "thread_create_named ts tt name entry arg s = Ret (t, s')"
    and "TH \<subseteq> live_objs G_thread_cache s" and "t \<noteq> bootstrap_thread s"
  shows "t \<notin> live_objs G_thread_cache s \<and> live_objs G_thread_cache s' = insert t (live_objs G_thread_cache s) \<and>
    legal TH (Enqueue t) s' \<and> thread_intent (thread_at s' t) = SCHED_INTENT_INTERACTIVE \<and>
    stack_owned t s' \<and> stack_pages t s' \<subseteq> free_pas s \<and>
    kstack_base (thread_at s' t) < sp (th_ctx (thread_at s' t)) \<and> sp (th_ctx (thread_at s' t)) < irq_sp (thread_at s' t) \<and>
    x30 (th_ctx (thread_at s' t)) = ts \<and> x19 (th_ctx (thread_at s' t)) = entry \<and> x20 (th_ctx (thread_at s' t)) = arg \<and>
    (let tf = trap_frame_at s' (irq_sp (thread_at s' t)) in
       elr_el1 tf = tt \<and> tf_x tf ! 0 = entry \<and> tf_x tf ! 1 = arg \<and> spsr_el1 tf AND DAIF_I_BIT = 0)"
proof -
  note c = thread_create_spec [OF assms(1,2)]
  have "SPSR_EL1H_IRQ_ENABLED AND DAIF_I_BIT = 0" by (simp add: SPSR_EL1H_IRQ_ENABLED_def DAIF_I_BIT_def)
  then show ?thesis using c assms(3,4) by (auto simp: Let_def c(12))
qed

lemma card_page_run4: "card (page_run pa 4) = 4"
proof -
  have "page_run pa 4 = {pa, pa + 0x1000, pa + 0x2000, pa + 0x3000}"
    by (auto simp: page_run_def PAGE_SIZE_def lessThan_nat_numeral lessThan_Suc)
  then show ?thesis by simp
qed

lemma live_objs_high: "x \<in> live_objs r s \<Longrightarrow> 4096 \<le> unat x"
proof -
  assume "x \<in> live_objs r s"
  then obtain PS FL p where rep: "slab_rep s PS FL" and p: "p \<in> set (PS r)" and x: "x \<in> set (cache_slots (slab_caches s r) p)"
    by (auto simp: live_objs_def lives_def)
  have b: "page_base p" "cache_geom (slab_caches s r)" using slab_rep_base [OF rep p] by simp_all
  then have "align_down_4k x = p" using x by (intro slot_page) (auto simp: cache_geom_def cache_slots_def)
  then have "unat x div 4096 * 4096 = unat p" using unat_align_down_4k [of x] by simp
  moreover have "0 < unat p" using b(1) by (auto simp: page_base_def unat_gt_0)
  ultimately show ?thesis by (cases "unat x < 4096") auto
qed

theorem thread_create_runnable_witness:
  "\<exists>t s'. thread_create_named 0x111 0x222 NULL 0x333 7 example_roomy = Ret (t, s') \<and> x19 (th_ctx (thread_at s' t)) = 0x333 \<and>
     stack_ok (thread_at s' t)"
proof -
  obtain t s' where c: "thread_create_named 0x111 0x222 NULL 0x333 7 example_roomy = Ret (t, s')"
    using example_thread_created by blast
  note sp = thread_create_spec [OF example_roomy_ready(1) c]
  have "t \<in> live_objs G_thread_cache s'" using sp(17) by simp
  then have "t \<noteq> bootstrap_thread example_roomy" using live_objs_high [of t G_thread_cache s'] by (auto simp: example_roomy_ready)
  from thread_create_runnable [OF example_roomy_ready(1) c _ this, of "{}"] show ?thesis using c by auto
qed

text \<open>
  C12: destroying a thread that was created undoes the creation exactly. Creation takes four pages that were
  free for the stack; destruction frees those four pages and no other, and removes the thread object and no
  other object from the caches. Against the state before the creation the set of free pages is the same,
  or it lacks one page, the one that holds the thread object, which the cache keeps when it had to grow.
\<close>

theorem thread_create_destroy:
  assumes "slab_ready G_thread_cache s" and "thread_create_named ts tt name entry arg s = Ret (t, s')"
  shows "\<exists>s''. thread_destroy t s' = Ret s'' \<and> slab_ready G_thread_cache s'' \<and> (\<forall>q. live_objs q s'' = live_objs q s) \<and>
    card (stack_pages t s') = 4 \<and> stack_pages t s' \<subseteq> free_pas s \<and> free_pas s' \<inter> stack_pages t s' = {} \<and>
    free_pas s'' = free_pas s' \<union> stack_pages t s' \<and>
    (free_pas s'' = free_pas s \<or>
     (\<exists>pa\<in>free_pas s. align_down_4k t = pmm_phys_to_virt pa \<and> free_pas s'' = free_pas s - {pa}))"
proof -
  note c = thread_create_spec [OF assms]
  have "t \<in> live_objs G_thread_cache s'" using c(17) by auto
  moreover have irq: "\<not> in_irq s'" using c(16) by (simp add: slab_ready_def)
  ultimately obtain s'' where d: "thread_destroy t s' = Ret s''" "slab_inv s''" "slab_frame s' s''"
    "free_pas s'' = free_pas s' \<union> stack_pages t s'"
    "\<forall>q. live_objs q s'' = (if q = G_thread_cache then live_objs q s' - {t} else live_objs q s')"
    using thread_destroy_spec [OF _ _ c(18)] by blast
  have "\<forall>q. live_objs q s'' = live_objs q s" using d(5) c(2,17) by auto
  moreover have "slab_ready G_thread_cache s''" by (rule slab_readyI [OF d(2,3) c(16)])
  moreover have "card (stack_pages t s') = 4" by (simp add: stack_pages_def card_page_run4)
  ultimately show ?thesis using d(1,4) c(19-21) by auto
qed

theorem thread_create_destroy_witness:
  "\<exists>t s' s''. thread_create_named 0x111 0x222 NULL 0x333 7 example_roomy = Ret (t, s') \<and> thread_destroy t s' = Ret s'' \<and>
     live_objs G_thread_cache s'' = live_objs G_thread_cache example_roomy \<and> card (stack_pages t s') = 4 \<and>
     free_pas s'' = free_pas s' \<union> stack_pages t s'"
  using example_thread_created thread_create_destroy [OF example_roomy_ready(1)] by metis

text \<open>
  C13: a thread that exits while no other thread is ready does not stay dead: the \<open>yield\<close> of its exit loop
  finds only the caller, marks it running again and returns. When another thread becomes ready later, the
  next pass of the loop puts the exited thread back into a ready queue.
\<close>

theorem thread_exit_resurrects:
  assumes "sched_inv TH (\<lambda>_. []) s" and "\<not> in_irq s" and "s_current s \<noteq> bootstrap_thread s"
  shows "\<exists>s'. th_state (thread_at (thread_exit_mark s) (s_current s)) = THREAD_DEAD \<and>
    thread_exit_pass (thread_exit_mark s) = Ret (Returned, s') \<and> s_current s' = s_current s \<and>
    th_state (thread_at s' (s_current s)) = THREAD_RUNNING \<and> sched_inv TH (\<lambda>_. []) s' \<and>
    requeue s' (\<lambda>_. []) (thread_intent (thread_at s' (s_current s))) = [s_current s]"
proof -
  note c = sched_inv_current [OF assms(1)]
  let ?d = "thread_exit_mark s" and ?cur = "s_current s"
  have d: "?d = thread_update ?cur (\<lambda>th. th\<lparr>th_state := THREAD_DEAD\<rparr>) s"
    using c(3) by (simp add: thread_exit_mark_def sched_current_def Let_def)
  have i: "sched_inv TH (\<lambda>_. []) ?d" unfolding d by (rule sched_exec_thread [OF assms(1)])
  have rq: "requeue ?d (\<lambda>_. []) = (\<lambda>_. [])" by (simp add: requeue_def d Let_def)
  have cur: "s_current ?d = ?cur" and pc: "unat (s_pick_cursor ?d) < 13" and nirq: "\<not> in_irq ?d"
    using assms(2) base_invD(3) [OF c(1)] by (simp_all add: d in_irq_def)
  have "dispatch (requeue ?d (\<lambda>_. [])) (s_pick_cursor ?d) (s_current ?d) = (?cur, \<lambda>_. [], s_pick_cursor ?d)"
    using pick_None [OF pc, of "\<lambda>_. []"] by (simp add: rq dispatch_def cur)
  from yield_spec [OF i nirq this] obtain r s' where
    y: "yield ?d = Ret (r, s')" "sched_inv TH (\<lambda>_. []) s'" "switch_post ?d ?cur r s'" by blast
  have p: "r = Returned" "s_current s' = ?cur" "th_state (thread_at s' ?cur) = THREAD_RUNNING"
    using y(3) cur by (simp_all add: switch_post_def)
  have "bootstrap_thread s' \<noteq> ?cur"
    using c(4) [OF assms(3)] base_invD(8) [OF sched_inv_current(1) [OF y(2)]] by auto
  then show ?thesis using y(1,2) p by (intro exI [of _ s']) (auto simp: d thread_exit_pass_def requeue_def Let_def)
qed

theorem thread_exit_resurrects_witness:
  "\<exists>(s :: sched_globals) s'. th_state (thread_at (thread_exit_mark s) (s_current s)) = THREAD_DEAD \<and>
     thread_exit_pass (thread_exit_mark s) = Ret (Returned, s') \<and> th_state (thread_at s' (s_current s)) = THREAD_RUNNING"
proof -
  note e = example_boot_facts
  have i: "sched_inv {0x1000} (\<lambda>_. []) (example_boot\<lparr>s_current := 0x1000, thread_at := (thread_at example_boot)
      (0x1000 := (example_thread 0x40000 SCHED_INTENT_INTERACTIVE)\<lparr>th_state := THREAD_RUNNING\<rparr>)\<rparr>)" (is "sched_inv _ _ ?s")
    using e(1,4,6) example_thread_ok
    by (auto simp: sched_inv_def base_inv_def rqs_def in_rq_def nexts_def)
  have "\<not> in_irq ?s" "s_current ?s \<noteq> bootstrap_thread ?s" using e(2,4) by (simp_all add: in_irq_def)
  from thread_exit_resurrects [OF i this] show ?thesis by blast
qed

end
