(* ===== verification/Work_Queue.thy ===== *)
theory Work_Queue
  imports Thread Fifo
begin

unbundle bit_operations_syntax

text \<open>
  The deferred work queue (\<open>Kern/Kernel/work/work_queue.c\<close>): interrupt handlers append work items, a thread
  takes them in order. The items come from a slab cache and are linked through their \<open>next\<close> field.
\<close>

section \<open>State\<close>

record work_item =
  wi_fn :: ptr
  wi_arg :: ptr
  wi_next :: ptr

record workq =
  wq_head :: ptr
  wq_tail :: ptr

record work_globals = sched_globals +
  work_item_at :: "ptr \<Rightarrow> work_item"
  workq_at :: "ptr \<Rightarrow> workq"
  g_cache_inited :: bool

abbreviation work_item_update :: "ptr \<Rightarrow> (work_item \<Rightarrow> work_item) \<Rightarrow> 'a work_globals_scheme \<Rightarrow> 'a work_globals_scheme" where
  "work_item_update p f s \<equiv> s\<lparr>work_item_at := (work_item_at s)(p := f (work_item_at s p))\<rparr>"

abbreviation workq_update :: "ptr \<Rightarrow> (workq \<Rightarrow> workq) \<Rightarrow> 'a work_globals_scheme \<Rightarrow> 'a work_globals_scheme" where
  "workq_update q f s \<equiv> s\<lparr>workq_at := (workq_at s)(q := f (workq_at s q))\<rparr>"

section \<open>Operations\<close>

text \<open>\<open>sizeof(work_item_t)\<close> is 24 with an alignment of 8.\<close>

definition work_item_cache_init :: "'a work_globals_scheme \<Rightarrow> 'a work_globals_scheme outcome" where
  "work_item_cache_init s =
     ASSERT_THREAD_CONTEXT s
      (if g_cache_inited s then Ret s
       else obind (slab_cache_init (Some G_work_item_cache) (Some ''work_item'') 24 8 s)
         (\<lambda>s1. Ret (s1\<lparr>g_cache_inited := True\<rparr>)))"

definition work_item_alloc :: "ptr \<Rightarrow> ptr \<Rightarrow> 'a work_globals_scheme \<Rightarrow> (ptr \<times> 'a work_globals_scheme) outcome" where
  "work_item_alloc fn arg s =
     ASSERT_THREAD_CONTEXT s
      (obind (if \<not> g_cache_inited s then work_item_cache_init s else Ret s) (\<lambda>s1.
       obind (slab_alloc (Some G_work_item_cache) s1) (\<lambda>(it, s2).
         if it = NULL then Ret (NULL, s2)
         else Ret (it, work_item_update it (\<lambda>_. \<lparr>wi_fn = fn, wi_arg = arg, wi_next = NULL\<rparr>) s2))))"

definition work_item_free :: "ptr \<Rightarrow> 'a work_globals_scheme \<Rightarrow> 'a work_globals_scheme outcome" where
  "work_item_free item s =
     (if item = NULL then Ret s
      else ASSERT_THREAD_CONTEXT s (slab_free (Some G_work_item_cache) item s))"

definition workq_init :: "ptr \<Rightarrow> 'a work_globals_scheme \<Rightarrow> 'a work_globals_scheme" where
  "workq_init q s = (if q = NULL then s else workq_update q (\<lambda>w. w\<lparr>wq_head := NULL, wq_tail := NULL\<rparr>) s)"

definition workq_enqueue_from_irq ::
    "ptr \<Rightarrow> ptr \<Rightarrow> 'a work_globals_scheme \<Rightarrow> (bool \<times> 'a work_globals_scheme) outcome" where
  "workq_enqueue_from_irq q item s0 =
     ASSERT_IRQ_CONTEXT s0
      (if q = NULL \<or> item = NULL \<or> wi_fn (work_item_at s0 item) = NULL then Ret (False, s0)
       else let s1 = work_item_update item (\<lambda>w. w\<lparr>wi_next := NULL\<rparr>) s0 in
         case irq_save s1 of (flags, s2) \<Rightarrow>
           let tail = wq_tail (workq_at s2 q);
               s3 = (if tail \<noteq> NULL
                     then workq_update q (\<lambda>w. w\<lparr>wq_tail := item\<rparr>) (work_item_update tail (\<lambda>w. w\<lparr>wi_next := item\<rparr>) s2)
                     else workq_update q (\<lambda>w. w\<lparr>wq_head := item, wq_tail := item\<rparr>) s2) in
           Ret (True, irq_restore flags s3))"

definition workq_dequeue :: "ptr \<Rightarrow> 'a work_globals_scheme \<Rightarrow> (ptr \<times> 'a work_globals_scheme) outcome" where
  "workq_dequeue q s0 =
     ASSERT_THREAD_CONTEXT s0
      (if q = NULL then Ret (NULL, s0)
       else case irq_save s0 of (flags, s1) \<Rightarrow>
         let it = wq_head (workq_at s1 q);
             s2 = (if it \<noteq> NULL
                   then let s3 = workq_update q (\<lambda>w. w\<lparr>wq_head := wi_next (work_item_at s1 it)\<rparr>) s1;
                            s4 = (if wq_head (workq_at s3 q) = NULL then workq_update q (\<lambda>w. w\<lparr>wq_tail := NULL\<rparr>) s3 else s3) in
                     work_item_update it (\<lambda>w. w\<lparr>wi_next := NULL\<rparr>) s4
                   else s1) in
         Ret (it, irq_restore flags s2))"

section \<open>The queue is a FIFO\<close>

definition wq_rep :: "ptr \<Rightarrow> 'a work_globals_scheme \<Rightarrow> ptr list \<Rightarrow> bool" where
  "wq_rep q s xs \<longleftrightarrow> q \<noteq> NULL \<and> \<not> in_irq s \<and>
     sll (\<lambda>p. wi_next (work_item_at s p)) (wq_head (workq_at s q)) (wq_tail (workq_at s q)) xs"

text \<open>An item that can be posted: not NULL, with a function, and not in the queue already.\<close>

definition wq_can :: "ptr \<Rightarrow> ptr \<Rightarrow> 'a work_globals_scheme \<Rightarrow> bool" where
  "wq_can q x s \<longleftrightarrow> x \<noteq> NULL \<and> wi_fn (work_item_at s x) \<noteq> NULL \<and> (\<forall>xs. wq_rep q s xs \<longrightarrow> x \<notin> set xs)"

text \<open>An interrupt that posts an item: entry, the enqueue of the handler, exit.\<close>

definition post_in_irq :: "ptr \<Rightarrow> ptr \<Rightarrow> 'a work_globals_scheme \<Rightarrow> 'a work_globals_scheme outcome" where
  "post_in_irq q x s = obind (workq_enqueue_from_irq q x (irq_enter s)) (\<lambda>(ok, s1). irq_exit s1)"

lemma work_next_upd:
  "(\<lambda>p. wi_next (((work_item_at s)(x := (work_item_at s x)\<lparr>wi_next := v\<rparr>)) p)) = (\<lambda>p. wi_next (work_item_at s p))(x := v)"
  by (auto simp: fun_eq_iff)

lemma post_in_irq_spec:
  assumes r: "wq_rep q s xs" and c: "wq_can q x s"
  shows "\<exists>s'. post_in_irq q x s = Ret s' \<and> wq_rep q s' (xs @ [x])"
proof -
  let ?nx = "\<lambda>p. wi_next (work_item_at s p)" and ?h = "wq_head (workq_at s q)" and ?t = "wq_tail (workq_at s q)"
  have l: "sll ?nx ?h ?t xs" and irq: "s_irq_depth s = 0" and q: "q \<noteq> NULL" using r by (auto simp: wq_rep_def in_irq_def)
  have x: "x \<noteq> NULL" "x \<notin> set xs" "wi_fn (work_item_at s x) \<noteq> NULL" using c r by (auto simp: wq_can_def)
  note p = sll_push [OF l x(1,2)]
  have tx: "?t \<noteq> x" if "?t \<noteq> NULL" using l x(2) that sll_tail [OF l] by (auto simp: sll_def)
  have "\<exists>s'. post_in_irq q x s = Ret s' \<and> s_irq_depth s' = 0 \<and> workq_at s' = (workq_at s)(q := \<lparr>wq_head = (if ?t = NULL then x else ?h), wq_tail = x\<rparr>) \<and>
      (\<lambda>p. wi_next (work_item_at s' p)) = (if ?t = NULL then ?nx(x := NULL) else ?nx(x := NULL, ?t := x))"
    using x(1,3) q irq tx
    by (cases "?t = NULL") (simp_all add: post_in_irq_def workq_enqueue_from_irq_def irq_enter_def irq_exit_def in_irq_def irq_save_def
        irq_restore_pair Let_def ASSERT_IRQ_CONTEXT_def fun_eq_iff)
  then show ?thesis using p q by (auto simp: wq_rep_def in_irq_def)
qed

lemma workq_dequeue_spec:
  assumes r: "wq_rep q s xs"
  shows "\<exists>s'. workq_dequeue q s = Ret (case xs of [] \<Rightarrow> NULL | x # _ \<Rightarrow> x, s') \<and> wq_rep q s' (tl xs)"
proof -
  let ?nx = "\<lambda>p. wi_next (work_item_at s p)" and ?h = "wq_head (workq_at s q)" and ?t = "wq_tail (workq_at s q)"
  have l: "sll ?nx ?h ?t xs" and irq: "\<not> in_irq s" and q: "q \<noteq> NULL" using r by (auto simp: wq_rep_def)
  show ?thesis
  proof (cases xs)
    case Nil
    then have "?h = NULL" using l by (simp add: sll_def)
    then show ?thesis using Nil r irq q by (simp add: workq_dequeue_def irq_save_def Let_def)
  next
    case (Cons x ys)
    note p = sll_pop [OF l [unfolded Cons]]
    have "\<exists>s'. workq_dequeue q s = Ret (x, s') \<and> s_irq_depth s' = s_irq_depth s \<and>
        workq_at s' = (workq_at s)(q := \<lparr>wq_head = ?nx x, wq_tail = (if ?nx x = NULL then NULL else ?t)\<rparr>) \<and>
        (\<lambda>p. wi_next (work_item_at s' p)) = ?nx(x := NULL)"
      using irq q p(1,2)
      by (simp add: workq_dequeue_def irq_save_def Let_def irq_restore_pair fun_eq_iff)
    then show ?thesis using Cons irq q p(4) by (auto simp: wq_rep_def in_irq_def)
  qed
qed

interpretation wq: fifo "wq_rep q" "wq_can q" "post_in_irq q" "workq_dequeue q" for q
proof unfold_locales
  fix s :: "'a work_globals_scheme" and xs x
  show "wq_rep q s xs \<Longrightarrow> NULL \<notin> set xs" by (auto simp: wq_rep_def dest: sll_no_NULL)
  show "wq_rep q s xs \<Longrightarrow> wq_can q x s \<Longrightarrow> \<exists>s'. post_in_irq q x s = Ret s' \<and> wq_rep q s' (xs @ [x])"
    by (rule post_in_irq_spec)
  show "wq_rep q s [] \<Longrightarrow> \<exists>s'. workq_dequeue q s = Ret (NULL, s') \<and> wq_rep q s' []"
    using workq_dequeue_spec [of q s "[]"] by simp
  show "wq_rep q s (x # xs) \<Longrightarrow> \<exists>s'. workq_dequeue q s = Ret (x, s') \<and> wq_rep q s' xs"
    using workq_dequeue_spec [of q s "x # xs"] by simp
qed

section \<open>Properties\<close>

text \<open>
  C14: deferred work runs in the order interrupts posted it. Over any mixture of interrupts that post items
  and dequeues in thread context, the items taken out are, in order, those that were queued followed by
  those posted; none is lost and none is taken twice.
\<close>

theorem deferred_work_fifo:
  assumes "fifo.trace (wq_can q) (post_in_irq q) (workq_dequeue q) s ops ins outs s'" and "wq_rep q s xs"
  shows "\<exists>ys. wq_rep q s' ys \<and> xs @ ins = outs @ ys"
  using assms by (rule wq.trace_order)

definition example_work :: work_globals where
  "example_work = sched_globals.extend example_sched0
     \<lparr>work_item_at = (\<lambda>_. \<lparr>wi_fn = 0x99, wi_arg = 0, wi_next = NULL\<rparr>), workq_at = (\<lambda>_. \<lparr>wq_head = NULL, wq_tail = NULL\<rparr>),
      g_cache_inited = True\<rparr>"

theorem deferred_work_fifo_witness:
  "\<exists>s1 s2. post_in_irq 0x40 0x10 example_work = Ret s1 \<and> workq_dequeue 0x40 s1 = Ret (0x10, s2) \<and> wq_rep 0x40 s2 []"
proof -
  have r: "wq_rep 0x40 example_work []"
    using example_sched0_like
    by (simp add: wq_rep_def example_work_def sched_globals.defs in_irq_def like_example_def sll_def)
  then have c: "wq_can 0x40 0x10 example_work"
    by (auto simp: wq_can_def wq_rep_def dest: sll_unique) (simp add: example_work_def sched_globals.defs)
  obtain s1 where s1: "post_in_irq 0x40 0x10 example_work = Ret s1" "wq_rep 0x40 s1 [0x10]"
    using post_in_irq_spec [OF r c] by auto
  obtain s2 where s2: "workq_dequeue 0x40 s1 = Ret (0x10, s2)" using workq_dequeue_spec [OF s1(2)] by auto
  have "fifo.trace (wq_can 0x40) (post_in_irq 0x40) (workq_dequeue 0x40) example_work [Enq 0x10, Deq] [0x10] [0x10] s2"
    by (rule wq.trace_Enq [OF c s1(1)] wq.trace_Deq [OF s2 _ wq.trace_Nil])+ simp
  from deferred_work_fifo [OF this r] s1(1) s2 show ?thesis by auto
qed

end
