(* ===== verification/Ipc.thy ===== *)
theory Ipc
  imports Work_Queue
begin

unbundle bit_operations_syntax

text \<open>
  Capability-scoped message passing (\<open>Kern/Kernel/ipc/ipc_message.c\<close>, \<open>Kern/Kernel/ipc/endpoint.c\<close>): an
  endpoint holds a doubly linked queue of messages from a slab cache and at most one waiting receiver.
  Inline data are lists of 128 bytes. The receive loop is one pass per wake-up: a pass delivers a
  message, reports an error or blocks.
\<close>

section \<open>State\<close>

definition IPC_MSG_INLINE_MAX :: nat where
  "IPC_MSG_INLINE_MAX = 128"

definition KS_IPC_MSG_MAX :: u32 where
  "KS_IPC_MSG_MAX = 128"

record ipc_msg =
  im_next :: ptr
  im_prev :: ptr
  im_tag :: u32
  im_len :: u32
  im_data :: "u8 list"

record endpoint =
  ep_id :: u64
  q_head :: ptr
  q_tail :: ptr
  waiting_recv :: ptr
  ep_closed :: bool

record ks_ipc_msg =
  km_tag :: u32
  km_len :: u32
  km_data :: "u8 list"

datatype ks_ipc_status =
  KS_IPC_OK | KS_IPC_ERR_INVALID | KS_IPC_ERR_RIGHTS | KS_IPC_ERR_NO_MEM | KS_IPC_ERR_CLOSED | KS_IPC_ERR_EMPTY

datatype ks_status =
    KS_STATUS_OK | KS_STATUS_INVALID_ARG | KS_STATUS_INVALID_STATE | KS_STATUS_NO_RIGHTS | KS_STATUS_NO_SPACE
  | KS_STATUS_OUT_OF_MEMORY | KS_STATUS_NOT_FOUND | KS_STATUS_NOT_SUPPORTED | KS_STATUS_BUSY
  | KS_STATUS_TIMED_OUT | KS_STATUS_INTERNAL

record ipc_globals = work_globals +
  ipc_msg_at :: "ptr \<Rightarrow> ipc_msg"
  endpoint_at :: "ptr \<Rightarrow> endpoint"
  s_ipc_msg_cache_inited :: bool
  s_endpoint_cache_inited :: bool
  s_next_endpoint_id :: u64

abbreviation msg_update :: "ptr \<Rightarrow> (ipc_msg \<Rightarrow> ipc_msg) \<Rightarrow> 'a ipc_globals_scheme \<Rightarrow> 'a ipc_globals_scheme" where
  "msg_update m f s \<equiv> s\<lparr>ipc_msg_at := (ipc_msg_at s)(m := f (ipc_msg_at s m))\<rparr>"

abbreviation ep_update :: "ptr \<Rightarrow> (endpoint \<Rightarrow> endpoint) \<Rightarrow> 'a ipc_globals_scheme \<Rightarrow> 'a ipc_globals_scheme" where
  "ep_update e f s \<equiv> s\<lparr>endpoint_at := (endpoint_at s)(e := f (endpoint_at s e))\<rparr>"

text \<open>\<open>memcpy(dst, src, n)\<close> between two byte arrays.\<close>

definition copy_bytes :: "u8 list \<Rightarrow> u8 list \<Rightarrow> nat \<Rightarrow> u8 list" where
  "copy_bytes dst src n = take n src @ drop n dst"

section \<open>Message objects\<close>

text \<open>\<open>sizeof(ipc_msg_t)\<close> is 152 with an alignment of 8.\<close>

definition ipc_msg_cache_init :: "'a ipc_globals_scheme \<Rightarrow> 'a ipc_globals_scheme outcome" where
  "ipc_msg_cache_init s =
     (if s_ipc_msg_cache_inited s then Ret s
      else obind (slab_cache_init (Some G_ipc_msg_cache) (Some ''ipc_msg'') 152 8 s)
        (\<lambda>s1. Ret (s1\<lparr>s_ipc_msg_cache_inited := True\<rparr>)))"

definition ipc_msg_cache_get_stats :: "'a ipc_globals_scheme \<Rightarrow> slab_cache_stats option" where
  "ipc_msg_cache_get_stats s =
     (if \<not> s_ipc_msg_cache_inited s then None else slab_cache_get_stats (Some G_ipc_msg_cache) s)"

definition ipc_msg_zero :: ipc_msg where
  "ipc_msg_zero = \<lparr>im_next = NULL, im_prev = NULL, im_tag = 0, im_len = 0, im_data = replicate IPC_MSG_INLINE_MAX 0\<rparr>"

definition ipc_msg_alloc :: "'a ipc_globals_scheme \<Rightarrow> (ptr \<times> 'a ipc_globals_scheme) outcome" where
  "ipc_msg_alloc s =
     ASSERT_THREAD_CONTEXT s
      (if \<not> s_ipc_msg_cache_inited s then Panic ''ipc_msg_alloc: cache not initialized''
       else obind (slab_alloc (Some G_ipc_msg_cache) s) (\<lambda>(m, s1).
         if m = NULL then Panic ''ipc_msg_alloc: OOM''
         else Ret (m, msg_update m (\<lambda>_. ipc_msg_zero) s1)))"

definition ipc_msg_free :: "ptr \<Rightarrow> 'a ipc_globals_scheme \<Rightarrow> 'a ipc_globals_scheme outcome" where
  "ipc_msg_free m s =
     ASSERT_THREAD_CONTEXT s
      (if m = NULL then Ret s
       else if \<not> s_ipc_msg_cache_inited s then Panic ''ipc_msg_free: cache not initialized''
       else slab_free (Some G_ipc_msg_cache) m s)"

section \<open>Endpoint objects\<close>

text \<open>\<open>sizeof(endpoint_t)\<close> is 40 with an alignment of 8.\<close>

definition endpoint_cache_init :: "'a ipc_globals_scheme \<Rightarrow> 'a ipc_globals_scheme outcome" where
  "endpoint_cache_init s =
     (if s_endpoint_cache_inited s then Ret s
      else obind (slab_cache_init (Some G_endpoint_cache) (Some ''endpoint'') 40 8 s)
        (\<lambda>s1. Ret (s1\<lparr>s_endpoint_cache_inited := True\<rparr>)))"

definition endpoint_alloc :: "'a ipc_globals_scheme \<Rightarrow> (ptr \<times> 'a ipc_globals_scheme) outcome" where
  "endpoint_alloc s =
     ASSERT_THREAD_CONTEXT s
      (if \<not> s_endpoint_cache_inited s then Panic ''endpoint_alloc: cache not initialized''
       else obind (slab_alloc (Some G_endpoint_cache) s) (\<lambda>(e, s1).
         if e = NULL then Panic ''endpoint_alloc: OOM''
         else Ret (e, (ep_update e (\<lambda>_. \<lparr>ep_id = s_next_endpoint_id s1, q_head = NULL, q_tail = NULL, waiting_recv = NULL,
                ep_closed = False\<rparr>) s1)\<lparr>s_next_endpoint_id := s_next_endpoint_id s1 + 1\<rparr>)))"

text \<open>The result is the status and the pointer stored through \<open>out_ep\<close>, when one is stored.\<close>

definition endpoint_create ::
    "ptr \<Rightarrow> 'a ipc_globals_scheme \<Rightarrow> ((ks_status \<times> ptr option) \<times> 'a ipc_globals_scheme) outcome" where
  "endpoint_create out_ep s =
     (if out_ep = NULL then Ret ((KS_STATUS_INVALID_ARG, None), s)
      else obind (endpoint_alloc s) (\<lambda>(ep, s1).
        if ep = NULL then Ret ((KS_STATUS_OUT_OF_MEMORY, None), s1)
        else Ret ((KS_STATUS_OK, Some ep), s1)))"

definition endpoint_free :: "ptr \<Rightarrow> 'a ipc_globals_scheme \<Rightarrow> 'a ipc_globals_scheme outcome" where
  "endpoint_free e s =
     ASSERT_THREAD_CONTEXT s
      (if e = NULL then Ret s
       else if \<not> s_endpoint_cache_inited s then Panic ''endpoint_free: cache not initialized''
       else slab_free (Some G_endpoint_cache) e s)"

definition q_push_tail :: "ptr \<Rightarrow> ptr \<Rightarrow> 'a ipc_globals_scheme \<Rightarrow> 'a ipc_globals_scheme" where
  "q_push_tail e m s =
     (let tail = q_tail (endpoint_at s e);
          s1 = msg_update m (\<lambda>g. g\<lparr>im_next := NULL, im_prev := tail\<rparr>) s;
          s2 = (if tail \<noteq> NULL then msg_update tail (\<lambda>g. g\<lparr>im_next := m\<rparr>) s1
                else ep_update e (\<lambda>p. p\<lparr>q_head := m\<rparr>) s1) in
      ep_update e (\<lambda>p. p\<lparr>q_tail := m\<rparr>) s2)"

definition q_pop_head :: "ptr \<Rightarrow> 'a ipc_globals_scheme \<Rightarrow> ptr \<times> 'a ipc_globals_scheme" where
  "q_pop_head e s =
     (let m = q_head (endpoint_at s e) in
      if m = NULL then (NULL, s)
      else let n = im_next (ipc_msg_at s m);
               s1 = ep_update e (\<lambda>p. p\<lparr>q_head := n\<rparr>) s;
               s2 = (if n \<noteq> NULL then msg_update n (\<lambda>g. g\<lparr>im_prev := NULL\<rparr>) s1
                     else ep_update e (\<lambda>p. p\<lparr>q_tail := NULL\<rparr>) s1) in
        (m, msg_update m (\<lambda>g. g\<lparr>im_next := NULL, im_prev := NULL\<rparr>) s2))"

text \<open>The result is the endpoint (or NULL) and the status stored through \<open>out_status\<close>.\<close>

definition endpoint_from_handle ::
    "ptr \<Rightarrow> cap_handle \<Rightarrow> cap_rights \<Rightarrow> 'a ipc_globals_scheme \<Rightarrow> ptr \<times> ks_ipc_status" where
  "endpoint_from_handle cps h need_rights s =
     (if cps = NULL then (NULL, KS_IPC_ERR_INVALID)
      else let ent = cap_table_lookup cps h need_rights s in
        if ent = NULL then (NULL, KS_IPC_ERR_RIGHTS)
        else let en = cap_entry_at s ent in
          if ce_type en \<noteq> CAP_TYPE_ENDPOINT \<or> ce_obj en = NULL then (NULL, KS_IPC_ERR_INVALID)
          else (ce_obj en, KS_IPC_OK))"

definition endpoint_create_cap ::
    "ptr \<Rightarrow> cap_rights \<Rightarrow> ptr \<Rightarrow> 'a ipc_globals_scheme \<Rightarrow> ((ks_ipc_status \<times> cap_handle option) \<times> 'a ipc_globals_scheme) outcome" where
  "endpoint_create_cap cps rights out s =
     ASSERT_THREAD_CONTEXT s
      (if cps = NULL \<or> out = NULL then Ret ((KS_IPC_ERR_INVALID, None), s)
       else obind (if \<not> s_endpoint_cache_inited s then endpoint_cache_init s else Ret s) (\<lambda>s1.
         obind (endpoint_alloc s1) (\<lambda>(e, s2).
         if e = NULL then Ret ((KS_IPC_ERR_NO_MEM, None), s2)
         else let eff = rights OR CAP_R_DROP in
           obind (cap_create cps CAP_TYPE_ENDPOINT eff e LOCAL s2) (\<lambda>((st, w), s3).
             if st \<noteq> CAP_OK
             then obind (endpoint_free e s3) (\<lambda>s4.
               Ret ((if st = CAP_ERR_NO_MEM then KS_IPC_ERR_NO_MEM else KS_IPC_ERR_INVALID, None), s4))
             else Ret ((KS_IPC_OK, Some (case w of Some h \<Rightarrow> h | None \<Rightarrow> 0)), s3)))))"

section \<open>Send and receive\<close>

text \<open>The message of the caller is passed by value; \<open>None\<close> is a NULL pointer.\<close>

definition ipc_send_cap ::
    "ptr \<Rightarrow> cap_handle \<Rightarrow> ks_ipc_msg option \<Rightarrow> 'a ipc_globals_scheme \<Rightarrow> (ks_ipc_status \<times> 'a ipc_globals_scheme) outcome" where
  "ipc_send_cap cps endpoint_h msg s =
     ASSERT_THREAD_CONTEXT s
      (case msg of
         None \<Rightarrow> Ret (KS_IPC_ERR_INVALID, s)
       | Some km \<Rightarrow>
           if KS_IPC_MSG_MAX < km_len km then Ret (KS_IPC_ERR_INVALID, s)
           else case endpoint_from_handle cps endpoint_h CAP_R_SEND s of (e, status) \<Rightarrow>
             if e = NULL then Ret (status, s)
             else if ep_closed (endpoint_at s e) then Ret (KS_IPC_ERR_CLOSED, s)
             else obind (ipc_msg_alloc s) (\<lambda>(m, s1).
               if m = NULL then Ret (KS_IPC_ERR_NO_MEM, s1)
               else let s2 = msg_update m (\<lambda>g. g\<lparr>im_tag := km_tag km, im_len := km_len km,
                           im_data := (if 0 < km_len km then copy_bytes (im_data g) (km_data km) (unat (km_len km)) else im_data g)\<rparr>) s1 in
                 case irq_save s2 of (flags, s3) \<Rightarrow>
                   let s4 = q_push_tail e m s3; w = waiting_recv (endpoint_at s4 e) in
                   obind (if w \<noteq> NULL then sched_wake w (ep_update e (\<lambda>p. p\<lparr>waiting_recv := NULL\<rparr>) s4) else Ret s4)
                     (\<lambda>s5. Ret (KS_IPC_OK, irq_restore flags s5))))"

text \<open>
  Copying a message out and freeing it: \<open>out\<close> is what the caller's buffer holds before; the result is
  what it holds after.
\<close>

definition recv_copy :: "ipc_msg \<Rightarrow> ks_ipc_msg \<Rightarrow> ks_ipc_msg" where
  "recv_copy g out =
     (let len = (if KS_IPC_MSG_MAX < im_len g then KS_IPC_MSG_MAX else im_len g) in
      out\<lparr>km_tag := im_tag g, km_len := len,
          km_data := (if 0 < len then copy_bytes (km_data out) (im_data g) (unat len) else km_data out)\<rparr>)"

datatype recv_result = Done ks_ipc_status ks_ipc_msg | Blocked switch_result

text \<open>
  The part of a receive pass before the block: the message taken, or the receiver registered
  (\<open>Inr ()\<close>, with the interrupt mask restored).
\<close>

definition recv_take ::
    "ptr \<Rightarrow> ks_ipc_msg \<Rightarrow> 'a ipc_globals_scheme \<Rightarrow> (((ks_ipc_status \<times> ks_ipc_msg) + unit) \<times> 'a ipc_globals_scheme) outcome" where
  "recv_take e out s0 =
     (case irq_save s0 of (flags, s) \<Rightarrow>
      case q_pop_head e s of (m, s1) \<Rightarrow>
        if m \<noteq> NULL then
          let s2 = irq_restore flags s1; out' = recv_copy (ipc_msg_at s2 m) out in
          obind (ipc_msg_free m s2) (\<lambda>s3. Ret (Inl (KS_IPC_OK, out'), s3))
        else if ep_closed (endpoint_at s1 e) then Ret (Inl (KS_IPC_ERR_CLOSED, out), irq_restore flags s1)
        else let cur = sched_current s1 in
          if cur = NULL then Ret (Inl (KS_IPC_ERR_INVALID, out), irq_restore flags s1)
          else if waiting_recv (endpoint_at s1 e) \<noteq> NULL \<and> waiting_recv (endpoint_at s1 e) \<noteq> cur
          then Ret (Inl (KS_IPC_ERR_RIGHTS, out), irq_restore flags s1)
          else Ret (Inr (), irq_restore flags (ep_update e (\<lambda>p. p\<lparr>waiting_recv := cur\<rparr>) s1)))"

definition ipc_recv_pass ::
    "ptr \<Rightarrow> ks_ipc_msg \<Rightarrow> 'a ipc_globals_scheme \<Rightarrow> (recv_result \<times> 'a ipc_globals_scheme) outcome" where
  "ipc_recv_pass e out s =
     obind (recv_take e out s) (\<lambda>(r, s1).
       case r of Inl (st, out') \<Rightarrow> Ret (Done st out', s1)
       | Inr _ \<Rightarrow> obind (sched_block_current s1) (\<lambda>(sw, s2). Ret (Blocked sw, s2)))"

text \<open>
  The loop repeats passes as long as a block returns at once because no other thread is ready. It stops
  with \<open>Blocked\<close> when the CPU was switched to another thread: the rest of the call happens when the
  receiver is switched back to (\<open>ipc_recv_resume\<close>).
\<close>

partial_function (option) ipc_recv_loop ::
    "ptr \<Rightarrow> ks_ipc_msg \<Rightarrow> 'a ipc_globals_scheme \<Rightarrow> (recv_result \<times> 'a ipc_globals_scheme) outcome option" where
  "ipc_recv_loop e out s =
     (case ipc_recv_pass e out s of
        Ret (Blocked Returned, s') \<Rightarrow> ipc_recv_loop e out s'
      | r \<Rightarrow> Some r)"

definition ipc_recv_cap ::
    "ptr \<Rightarrow> cap_handle \<Rightarrow> ks_ipc_msg option \<Rightarrow> 'a ipc_globals_scheme \<Rightarrow>
     ((ks_ipc_status + recv_result) \<times> 'a ipc_globals_scheme) outcome" where
  "ipc_recv_cap cps endpoint_h out s =
     ASSERT_THREAD_CONTEXT s
      (case out of
         None \<Rightarrow> Ret (Inl KS_IPC_ERR_INVALID, s)
       | Some buf \<Rightarrow>
           case endpoint_from_handle cps endpoint_h CAP_R_RECV s of (e, status) \<Rightarrow>
             if e = NULL then Ret (Inl status, s)
             else (case ipc_recv_loop e buf s of
                     None \<Rightarrow> Hang
                   | Some o1 \<Rightarrow> obind o1 (\<lambda>(r, s1). Ret (Inr r, s1))))"

definition ipc_recv_resume ::
    "ptr \<Rightarrow> ks_ipc_msg \<Rightarrow> u64 \<Rightarrow> 'a ipc_globals_scheme \<Rightarrow> (recv_result \<times> 'a ipc_globals_scheme) outcome option" where
  "ipc_recv_resume e out flags s = ipc_recv_loop e out (irq_restore flags s)"

definition ipc_try_recv_cap ::
    "ptr \<Rightarrow> cap_handle \<Rightarrow> ks_ipc_msg option \<Rightarrow> 'a ipc_globals_scheme \<Rightarrow>
     ((ks_ipc_status \<times> ks_ipc_msg option) \<times> 'a ipc_globals_scheme) outcome" where
  "ipc_try_recv_cap cps endpoint_h out s0 =
     ASSERT_THREAD_CONTEXT s0
      (case out of
         None \<Rightarrow> Ret ((KS_IPC_ERR_INVALID, None), s0)
       | Some buf \<Rightarrow>
           case endpoint_from_handle cps endpoint_h CAP_R_RECV s0 of (e, status) \<Rightarrow>
             if e = NULL then Ret ((status, Some buf), s0)
             else case irq_save s0 of (flags, s) \<Rightarrow>
               case q_pop_head e s of (m, s1) \<Rightarrow>
                 if m = NULL
                 then let s2 = irq_restore flags s1 in
                   if ep_closed (endpoint_at s2 e) then Ret ((KS_IPC_ERR_CLOSED, Some buf), s2)
                   else Ret ((KS_IPC_ERR_EMPTY, Some buf), s2)
                 else let s2 = irq_restore flags s1; buf' = recv_copy (ipc_msg_at s2 m) buf in
                   obind (ipc_msg_free m s2) (\<lambda>s3. Ret ((KS_IPC_OK, Some buf'), s3)))"

section \<open>Message queues\<close>

fun prevs :: "(ptr \<Rightarrow> ptr) \<Rightarrow> ptr \<Rightarrow> ptr list \<Rightarrow> bool" where
  "prevs pv p [] \<longleftrightarrow> True"
| "prevs pv p (x # xs) \<longleftrightarrow> pv x = p \<and> prevs pv x xs"

lemma prevs_cong: "(\<And>x. x \<in> set xs \<Longrightarrow> pv' x = pv x) \<Longrightarrow> prevs pv' p xs = prevs pv p xs"
  by (induction xs arbitrary: p) auto

lemma prevs_snoc: "prevs pv p (xs @ [a]) \<longleftrightarrow> prevs pv p xs \<and> pv a = (if xs = [] then p else last xs)"
  by (induction xs arbitrary: p) auto

abbreviation msg_next :: "'a ipc_globals_scheme \<Rightarrow> ptr \<Rightarrow> ptr" where
  "msg_next s \<equiv> (\<lambda>m. im_next (ipc_msg_at s m))"

abbreviation msg_prev :: "'a ipc_globals_scheme \<Rightarrow> ptr \<Rightarrow> ptr" where
  "msg_prev s \<equiv> (\<lambda>m. im_prev (ipc_msg_at s m))"

definition ep_rep :: "ptr \<Rightarrow> 'a ipc_globals_scheme \<Rightarrow> ptr list \<Rightarrow> bool" where
  "ep_rep e s xs \<longleftrightarrow>
     sll (msg_next s) (q_head (endpoint_at s e)) (q_tail (endpoint_at s e)) xs \<and> prevs (msg_prev s) NULL xs"

lemma ep_rep_unique: "ep_rep e s xs \<Longrightarrow> ep_rep e s ys \<Longrightarrow> xs = ys"
  by (auto simp: ep_rep_def dest: sll_unique)

lemma ep_rep_NULL: "ep_rep e s xs \<Longrightarrow> NULL \<notin> set xs"
  unfolding ep_rep_def using sll_no_NULL by blast

lemma ep_rep_cong:
  assumes "endpoint_at s' e = endpoint_at s e" and "\<And>m. m \<in> set xs \<Longrightarrow> im_next (ipc_msg_at s' m) = im_next (ipc_msg_at s m)"
    and "\<And>m. m \<in> set xs \<Longrightarrow> im_prev (ipc_msg_at s' m) = im_prev (ipc_msg_at s m)"
  shows "ep_rep e s' xs = ep_rep e s xs"
proof -
  have "chain (msg_next s') h xs = chain (msg_next s) h xs" for h by (rule chain_cong) (simp add: assms(2))
  moreover have "prevs (msg_prev s') NULL xs = prevs (msg_prev s) NULL xs" by (rule prevs_cong) (simp add: assms(3))
  ultimately show ?thesis by (simp add: ep_rep_def sll_def assms(1))
qed

text \<open>What the two queue operations leave alone: contents of messages, and everything but the links and ends.\<close>

definition links_only :: "ptr \<Rightarrow> 'a ipc_globals_scheme \<Rightarrow> 'a ipc_globals_scheme \<Rightarrow> bool" where
  "links_only e s s' \<longleftrightarrow>
     s' = s\<lparr>ipc_msg_at := ipc_msg_at s', endpoint_at := endpoint_at s'\<rparr> \<and>
     (\<forall>m. im_tag (ipc_msg_at s' m) = im_tag (ipc_msg_at s m) \<and> im_len (ipc_msg_at s' m) = im_len (ipc_msg_at s m) \<and>
          im_data (ipc_msg_at s' m) = im_data (ipc_msg_at s m)) \<and>
     (\<forall>e'. e' \<noteq> e \<longrightarrow> endpoint_at s' e' = endpoint_at s e') \<and>
     waiting_recv (endpoint_at s' e) = waiting_recv (endpoint_at s e) \<and> ep_closed (endpoint_at s' e) = ep_closed (endpoint_at s e)"

lemma q_push_tail_spec:
  assumes r: "ep_rep e s xs" and m: "m \<noteq> NULL" "m \<notin> set xs"
  shows "ep_rep e (q_push_tail e m s) (xs @ [m])" and "links_only e s (q_push_tail e m s)"
    and "p \<notin> set (m # xs) \<Longrightarrow> ipc_msg_at (q_push_tail e m s) p = ipc_msg_at s p"
proof -
  let ?h = "q_head (endpoint_at s e)" and ?t = "q_tail (endpoint_at s e)" and ?s = "q_push_tail e m s"
  have l: "sll (msg_next s) ?h ?t xs" and pv: "prevs (msg_prev s) NULL xs" using r by (auto simp: ep_rep_def)
  have t: "?t = NULL \<longleftrightarrow> xs = []" by (rule sll_tail [OF l])
  have tl: "?t = (if xs = [] then NULL else last xs)" using l by (simp add: sll_def)
  then have tx: "?t \<in> set xs" if "xs \<noteq> []" using that by simp
  have tm: "?t \<noteq> m" using m tx t by (cases "xs = []") auto
  have nx: "msg_next ?s = (if ?t = NULL then (msg_next s)(m := NULL) else (msg_next s)(m := NULL, ?t := m))"
    using tm by (auto simp: q_push_tail_def Let_def fun_eq_iff)
  have hd: "q_head (endpoint_at ?s e) = (if ?t = NULL then m else ?h)" "q_tail (endpoint_at ?s e) = m"
    by (simp_all add: q_push_tail_def Let_def)
  have pn: "msg_prev ?s = (msg_prev s)(m := ?t)" using tm by (auto simp: q_push_tail_def Let_def fun_eq_iff)
  have "prevs (msg_prev ?s) NULL xs" unfolding pn using pv m(2) by (subst prevs_cong [where pv = "msg_prev s"]) auto
  then have "prevs (msg_prev ?s) NULL (xs @ [m])" unfolding prevs_snoc pn using tl by simp
  then show "ep_rep e ?s (xs @ [m])" using sll_push [OF l m] by (simp add: ep_rep_def nx hd)
  show "links_only e s ?s" by (simp add: links_only_def q_push_tail_def Let_def)
  show "ipc_msg_at ?s p = ipc_msg_at s p" if "p \<notin> set (m # xs)"
  proof -
    have "p \<noteq> m" "?t = NULL \<or> p \<noteq> ?t" using that tx t by auto
    then show ?thesis by (auto simp: q_push_tail_def Let_def)
  qed
qed

lemma q_pop_head_Nil: "ep_rep e s [] \<Longrightarrow> q_pop_head e s = (NULL, s)"
  by (simp add: q_pop_head_def ep_rep_def sll_def Let_def)

lemma q_pop_head_spec:
  assumes r: "ep_rep e s (x # xs)"
  shows "\<exists>s'. q_pop_head e s = (x, s') \<and> ep_rep e s' xs \<and> links_only e s s' \<and>
    (\<forall>p. p \<notin> set (x # xs) \<longrightarrow> ipc_msg_at s' p = ipc_msg_at s p)"
proof -
  let ?h = "q_head (endpoint_at s e)" and ?t = "q_tail (endpoint_at s e)" and ?n = "im_next (ipc_msg_at s x)"
  have l: "sll (msg_next s) ?h ?t (x # xs)" and pv: "prevs (msg_prev s) x xs" using r by (auto simp: ep_rep_def)
  note p = sll_pop [OF l]
  have c: "chain (msg_next s) ?n xs" using l by (auto simp: sll_def)
  have d: "x \<notin> set xs" "distinct xs" using chain_distinct [of "msg_next s" ?h "x # xs"] l by (auto simp: sll_def)
  have nx: "?n \<in> set xs" "?n = hd xs" if "?n \<noteq> NULL" using c that by (cases xs; auto)+
  define s' where "s' = snd (q_pop_head e s)"
  have q: "q_pop_head e s = (x, s')" using p(1,2) by (simp add: s'_def q_pop_head_def Let_def)
  have e1: "msg_next s' = (msg_next s)(x := NULL)" "q_head (endpoint_at s' e) = ?n"
    "q_tail (endpoint_at s' e) = (if ?n = NULL then NULL else ?t)"
    "msg_prev s' = (if ?n = NULL then (msg_prev s)(x := NULL) else (msg_prev s)(?n := NULL, x := NULL))"
    using p(1,2) by (auto simp: s'_def q_pop_head_def Let_def fun_eq_iff)
  have "prevs (msg_prev s') NULL xs"
  proof (cases xs)
    case (Cons y ys)
    then have "?n = y" "y \<noteq> NULL" using c by auto
    then have "msg_prev s' y = NULL" "\<And>z. z \<in> set ys \<Longrightarrow> msg_prev s' z = msg_prev s z"
      using d Cons fun_cong [OF e1(4)] by auto
    then show ?thesis using pv Cons prevs_cong [of ys "msg_prev s'" "msg_prev s" y] by simp
  qed simp
  then have "ep_rep e s' xs" using p(4) by (simp add: ep_rep_def e1)
  moreover have "links_only e s s'" using p(1,2) by (simp add: links_only_def s'_def q_pop_head_def Let_def)
  moreover have "ipc_msg_at s' z = ipc_msg_at s z" if "z \<notin> set (x # xs)" for z
  proof -
    have "z \<noteq> x" "?n = NULL \<or> z \<noteq> ?n" using that nx by auto
    then show ?thesis using p(1,2) by (auto simp: s'_def q_pop_head_def Let_def)
  qed
  ultimately show ?thesis using q by blast
qed

definition ep_can :: "ptr \<Rightarrow> ptr \<Rightarrow> 'a ipc_globals_scheme \<Rightarrow> bool" where
  "ep_can e m s \<longleftrightarrow> m \<noteq> NULL \<and> (\<forall>xs. ep_rep e s xs \<longrightarrow> m \<notin> set xs)"

interpretation ep: fifo "ep_rep e" "ep_can e" "\<lambda>m s. Ret (q_push_tail e m s)" "\<lambda>s. Ret (q_pop_head e s)" for e
proof unfold_locales
  fix s :: "'a ipc_globals_scheme" and xs x
  show "ep_rep e s xs \<Longrightarrow> NULL \<notin> set xs" by (rule ep_rep_NULL)
  show "ep_rep e s xs \<Longrightarrow> ep_can e x s \<Longrightarrow> \<exists>s'. Ret (q_push_tail e x s) = Ret s' \<and> ep_rep e s' (xs @ [x])"
    using q_push_tail_spec(1) [of e s xs x] by (auto simp: ep_can_def)
  show "ep_rep e s [] \<Longrightarrow> \<exists>s'. Ret (q_pop_head e s) = Ret (NULL, s') \<and> ep_rep e s' []"
    using q_pop_head_Nil by auto
  show "ep_rep e s (x # xs) \<Longrightarrow> \<exists>s'. Ret (q_pop_head e s) = Ret (x, s') \<and> ep_rep e s' xs"
    using q_pop_head_spec by fastforce
qed

end
