(* ===== verification/Ipc_Props.thy ===== *)
theory Ipc_Props
  imports Ipc
begin

unbundle bit_operations_syntax

text \<open>
  What message passing promises: the messages of an endpoint are delivered once, in the order they were
  sent and with the contents they were sent with, whatever the scheduler does in between; a send wakes
  the blocked receiver; the rights of the handle are enforced. The last part shows the window between
  registering a receiver and blocking it.
\<close>

section \<open>What scheduling leaves alone\<close>

definition sched_frame :: "'a sched_globals_scheme \<Rightarrow> 'a sched_globals_scheme \<Rightarrow> bool" where
  "sched_frame s s' \<longleftrightarrow>
     same_pmm s s' \<and> slab_caches s' = slab_caches s \<and> slab_page_at s' = slab_page_at s \<and> obj_link s' = obj_link s \<and>
     cap_entry_at s' = cap_entry_at s \<and> cap_table_at s' = cap_table_at s \<and> sched_globals.more s' = sched_globals.more s"

lemma sched_frame_refl [simp]: "sched_frame s s"
  by (simp add: sched_frame_def same_pmm_def)

lemma sched_frame_trans: "sched_frame s t \<Longrightarrow> sched_frame t u \<Longrightarrow> sched_frame s u"
  by (simp add: sched_frame_def same_pmm_def)

lemma sched_frame_upd [simp]:
  "sched_frame s (t\<lparr>thread_at := a\<rparr>) = sched_frame s t" "sched_frame s (t\<lparr>s_ready_tail := b\<rparr>) = sched_frame s t"
  "sched_frame s (t\<lparr>s_pick_cursor := c\<rparr>) = sched_frame s t" "sched_frame s (t\<lparr>s_stats := d\<rparr>) = sched_frame s t"
  "sched_frame s (t\<lparr>s_current := e\<rparr>) = sched_frame s t" "sched_frame s (t\<lparr>cpu := f\<rparr>) = sched_frame s t"
  "sched_frame s (t\<lparr>daif := g\<rparr>) = sched_frame s t" "sched_frame s (t\<lparr>need_resched := h\<rparr>) = sched_frame s t"
  "sched_frame s (t\<lparr>task_at := i\<rparr>) = sched_frame s t" "sched_frame s (t\<lparr>s_sched_ticks := j\<rparr>) = sched_frame s t"
  "sched_frame s (t\<lparr>preempt_count := k\<rparr>) = sched_frame s t" "sched_frame s (t\<lparr>s_irq_depth := l\<rparr>) = sched_frame s t"
  by (simp_all add: sched_frame_def same_pmm_def)

lemma sched_frame_irq [simp]: "sched_frame s (irq_restore d t) = sched_frame s t" "sched_frame s (snd (irq_save t)) = sched_frame s t"
  by (simp_all add: irq_restore_def irq_save_def)

lemma on_Ret_validate: "on_Ret P k \<Longrightarrow> on_Ret P (sched_validate_irq_sp t s k)"
  by (simp add: sched_validate_irq_sp_def Let_def)

lemma sched_frame_insert: "sched_frame s u \<Longrightarrow> on_Ret (sched_frame s) (rq_insert_tail_locked t u)"
  by (simp add: rq_insert_tail_locked_def Let_def on_Ret_validate)

lemma sched_frame_remove: "sched_frame s u \<Longrightarrow> on_Ret (\<lambda>x. sched_frame s (snd x)) (rq_remove_loop is t u)"
  by (induction "is" t u rule: rq_remove_loop.induct) (simp_all add: Let_def rq_unlink_def split: option.split)

lemma sched_frame_next: "sched_frame s u \<Longrightarrow> sched_frame s (snd (sched_pick_next_locked u))"
  by (simp add: sched_pick_next_locked_def rq_pop_best_locked_def rq_pop_head_intent_locked_def sched_pick_intent_locked_def Let_def
      split: option.split list.split)

lemma sched_frame_run [simp]: "sched_frame s (sched_prepare_running_locked t u) = sched_frame s u"
  "sched_frame s (ctx_switch p n u) = sched_frame s u"
  by (simp_all add: sched_prepare_running_locked_def ctx_switch_def Let_def)

lemma sched_frame_block: "on_Ret (\<lambda>x. sched_frame s (snd x)) (sched_block_current s)"
proof -
  have "sched_frame s (snd (sched_pick_next_locked
      (thread_update (s_current s) (\<lambda>th. th\<lparr>th_state := THREAD_BLOCKED\<rparr>) (s\<lparr>daif := daif s OR DAIF_I_BIT\<rparr>))))"
    by (rule sched_frame_next) simp
  then show ?thesis by (simp add: sched_block_current_def irq_save_def Let_def case_prod_beta)
qed

lemma sched_frame_yield: "on_Ret (\<lambda>x. sched_frame s (snd x)) (yield s)"
proof -
  have k: "on_Ret (\<lambda>x. sched_frame s (snd x)) (case sched_pick_next_locked u of (next, s4) \<Rightarrow>
           if next = NULL then Ret (Returned, irq_restore flags s4)
           else if next = prev then Ret (Returned, irq_restore flags (sched_prepare_running_locked prev s4))
           else let s5 = (sched_prepare_running_locked next s4)\<lparr>s_current := next\<rparr>;
                    s6 = s5\<lparr>s_stats := (s_stats s5)\<lparr>context_switches := context_switches (s_stats s5) + 1\<rparr>\<rparr> in
             Ret (Switched flags, ctx_switch prev next s6))" if "sched_frame s u" for u flags "prev"
    using sched_frame_next [OF that] by (simp add: Let_def case_prod_beta)
  show ?thesis
    unfolding yield_def irq_save_def Let_def on_Ret_thread prod.case on_Ret_simps on_Ret_obind
    by (intro impI, rule on_Ret_mono [where P = "sched_frame s", OF _ k [unfolded Let_def]])
      (simp add: preempt_clear_need_resched_def sched_frame_insert)
qed

lemma sched_frame_wake: "on_Ret (sched_frame s) (sched_wake t s)"
  by (simp add: sched_wake_def irq_save_def sched_frame_insert)


lemma on_Ret_insert:
  "sched_frame s u \<Longrightarrow> (\<And>v. sched_frame s v \<Longrightarrow> P v) \<Longrightarrow> on_Ret P (rq_insert_tail_locked t u)"
  by (rule on_Ret_mono [OF sched_frame_insert])

lemma on_Ret_remove:
  "sched_frame s u \<Longrightarrow> (\<And>r v. sched_frame s v \<Longrightarrow> P (r, v)) \<Longrightarrow> on_Ret P (rq_remove_locked t u)"
  unfolding rq_remove_locked_def using on_Ret_mono [OF sched_frame_remove, of s u P all_intents t] by (simp add: split_paired_all)

lemma sched_frame_set_intent: "on_Ret (sched_frame s) (sched_set_thread_intent t i s)"
  by (simp add: sched_set_thread_intent_def irq_save_def Let_def; intro conjI impI on_Ret_remove [of s]; simp add: sched_frame_insert)

lemma sched_frame_irq_exit: "on_Ret (\<lambda>x. sched_frame s (snd x)) (sched_irq_exit tf s)"
  by (simp add: sched_irq_exit_def Let_def case_prod_beta preempt_clear_need_resched_def;
      intro conjI impI on_Ret_insert [of s]; simp add: sched_frame_next)

lemma sched_frame_exec: "on_Ret (sched_frame s) (sched_exec c s)"
proof (cases c)
  case Timer_tick
  then show ?thesis
    by (simp add: sched_on_timer_tick_def sched_charge_task_def preempt_set_need_resched_def Let_def)
next
  case (Enqueue t)
  then show ?thesis by (simp add: sched_enqueue_def irq_save_def sched_frame_insert)
qed (use sched_frame_yield [of s] sched_frame_block [of s] sched_frame_wake [of s] sched_frame_set_intent [of s] sched_frame_irq_exit [of s]
     in \<open>simp_all add: case_prod_beta\<close>)


section \<open>The invariant of message passing\<close>

text \<open>
  \<open>CS\<close> are the capability tables in use, \<open>E\<close> the endpoints their handles lead to and \<open>Q e\<close> the
  messages queued at \<open>e\<close>: live objects of the message cache, each in one queue, with a length that
  fits the inline data.
\<close>

definition ipc_inv :: "ptr set \<Rightarrow> ptr set \<Rightarrow> (ptr \<Rightarrow> ptr list) \<Rightarrow> 'a ipc_globals_scheme \<Rightarrow> bool" where
  "ipc_inv CS E Q s \<longleftrightarrow>
     slab_inv s \<and> cache_geom (slab_caches s G_ipc_msg_cache) \<and> s_ipc_msg_cache_inited s \<and> NULL \<notin> E \<and>
     (\<forall>cps\<in>CS. \<forall>h r. fst (endpoint_from_handle cps h r s) \<in> insert NULL E) \<and>
     (\<forall>e\<in>E. ep_rep e s (Q e) \<and> set (Q e) \<subseteq> live_objs G_ipc_msg_cache s) \<and>
     (\<forall>e\<in>E. \<forall>e'\<in>E. e \<noteq> e' \<longrightarrow> set (Q e) \<inter> set (Q e') = {}) \<and>
     (\<forall>e\<in>E. \<forall>m\<in>set (Q e). im_len (ipc_msg_at s m) \<le> KS_IPC_MSG_MAX \<and> length (im_data (ipc_msg_at s m)) = IPC_MSG_INLINE_MAX)"

lemma ipc_invD:
  assumes "ipc_inv CS E Q s"
  shows "slab_inv s" and "cache_geom (slab_caches s G_ipc_msg_cache)" and "s_ipc_msg_cache_inited s" and "NULL \<notin> E"
    and "cps \<in> CS \<Longrightarrow> fst (endpoint_from_handle cps h r s) \<in> insert NULL E"
    and "e \<in> E \<Longrightarrow> ep_rep e s (Q e)" and "e \<in> E \<Longrightarrow> set (Q e) \<subseteq> live_objs G_ipc_msg_cache s"
    and "e \<in> E \<Longrightarrow> e' \<in> E \<Longrightarrow> e \<noteq> e' \<Longrightarrow> set (Q e) \<inter> set (Q e') = {}"
    and "e \<in> E \<Longrightarrow> m \<in> set (Q e) \<Longrightarrow> im_len (ipc_msg_at s m) \<le> KS_IPC_MSG_MAX"
    and "e \<in> E \<Longrightarrow> m \<in> set (Q e) \<Longrightarrow> length (im_data (ipc_msg_at s m)) = IPC_MSG_INLINE_MAX"
  using assms by (simp_all add: ipc_inv_def)

lemma endpoint_from_handle_cong:
  "cap_entry_at s' = cap_entry_at s \<Longrightarrow> cap_table_at s' = cap_table_at s \<Longrightarrow>
   endpoint_from_handle cps h r s' = endpoint_from_handle cps h r s"
  by (simp add: endpoint_from_handle_def cap_table_lookup_def cap_lookup_def cap_lookup_ex_def Let_def cong: if_cong)

text \<open>The invariant after the allocator or the scheduler ran.\<close>

lemma ipc_more:
  fixes s s' :: "'a ipc_globals_scheme"
  assumes "sched_globals.more s' = sched_globals.more s"
  shows "ipc_msg_at s' = ipc_msg_at s" "endpoint_at s' = endpoint_at s" "s_ipc_msg_cache_inited s' = s_ipc_msg_cache_inited s"
  using assms by (cases s; cases s'; simp)+

lemma slab_more_ipc:
  fixes s s' :: "'a ipc_globals_scheme"
  assumes "slab_globals.more s' = slab_globals.more s"
  shows "sched_globals.more s' = sched_globals.more s" "cap_entry_at s' = cap_entry_at s" "cap_table_at s' = cap_table_at s"
  using assms by (cases s; cases s'; simp)+

lemma ipc_inv_slab:
  assumes i: "ipc_inv CS E Q s" and n: "slab_inv s'" "slab_frame s s'"
    and l: "\<And>e. e \<in> E \<Longrightarrow> set (Q e) \<subseteq> live_objs G_ipc_msg_cache s'"
  shows "ipc_inv CS E Q s'"
proof -
  note m = slab_more_ipc [OF slab_frameD(1) [OF n(2)]] and g = slab_frameD(4) [OF n(2)]
  note e = ipc_more [OF m(1)]
  have "ep_rep a s' xs = ep_rep a s xs" for a xs by (rule ep_rep_cong) (simp_all add: e)
  then show ?thesis
    using i n(1) l unfolding ipc_inv_def g e endpoint_from_handle_cong [OF m(2,3)] by simp
qed

lemma ipc_inv_sched:
  assumes i: "ipc_inv CS E Q s" and f: "sched_frame s s'"
  shows "ipc_inv CS E Q s'" and "ipc_msg_at s' = ipc_msg_at s"
proof -
  have f': "same_pmm s s'" "slab_caches s' = slab_caches s" "slab_page_at s' = slab_page_at s" "obj_link s' = obj_link s"
    "cap_entry_at s' = cap_entry_at s" "cap_table_at s' = cap_table_at s" "sched_globals.more s' = sched_globals.more s"
    using f by (simp_all add: sched_frame_def)
  note v = slab_same_view(1,2) [OF f'(1-4)] and m = ipc_more [OF f'(7)]
  have "ep_rep a s' xs = ep_rep a s xs" for a xs by (rule ep_rep_cong) (simp_all add: m)
  then show "ipc_inv CS E Q s'"
    using i unfolding ipc_inv_def v m f'(2) endpoint_from_handle_cong [OF f'(5,6)] by simp
  show "ipc_msg_at s' = ipc_msg_at s" by (fact m(1))
qed


section \<open>Sending and receiving, on payloads\<close>

text \<open>What is sent: the tag and the bytes up to the length.\<close>

definition body :: "ipc_msg \<Rightarrow> u32 \<times> u8 list" where
  "body g = (im_tag g, take (unat (im_len g)) (im_data g))"

definition payload :: "ks_ipc_msg \<Rightarrow> u32 \<times> u8 list" where
  "payload km = (km_tag km, take (unat (km_len km)) (km_data km))"

definition wf_msg :: "ks_ipc_msg \<Rightarrow> bool" where
  "wf_msg km \<longleftrightarrow> length (km_data km) = IPC_MSG_INLINE_MAX"

definition inbox :: "(ptr \<Rightarrow> ptr list) \<Rightarrow> ptr \<Rightarrow> 'a ipc_globals_scheme \<Rightarrow> (u32 \<times> u8 list) list" where
  "inbox Q e s = map (\<lambda>m. body (ipc_msg_at s m)) (Q e)"

lemma inbox_sched: "ipc_inv CS E Q s \<Longrightarrow> sched_frame s s' \<Longrightarrow> inbox Q' a s' = inbox Q' a s"
  using ipc_inv_sched(2) [of CS E Q s s'] by (simp add: inbox_def)

lemma recv_copy_payload:
  assumes "im_len g \<le> KS_IPC_MSG_MAX" and "length (im_data g) = IPC_MSG_INLINE_MAX" and "wf_msg buf"
  shows "payload (recv_copy g buf) = body g" and "wf_msg (recv_copy g buf)" and "km_len (recv_copy g buf) = im_len g"
proof -
  have l: "unat (im_len g) \<le> 128" using assms(1) by (simp add: KS_IPC_MSG_MAX_def word_le_nat_alt)
  have n: "\<not> KS_IPC_MSG_MAX < im_len g" using assms(1) by simp
  show "payload (recv_copy g buf) = body g" "wf_msg (recv_copy g buf)" "km_len (recv_copy g buf) = im_len g"
    using assms l n by (auto simp: payload_def body_def recv_copy_def copy_bytes_def wf_msg_def IPC_MSG_INLINE_MAX_def Let_def word_gt_0)
qed

lemma links_onlyD:
  assumes "links_only e s s'"
  shows "slab_inv s' = slab_inv s" and "live_objs r s' = live_objs r s" and "slab_caches s' = slab_caches s"
    and "s_ipc_msg_cache_inited s' = s_ipc_msg_cache_inited s" and "cap_entry_at s' = cap_entry_at s"
    and "cap_table_at s' = cap_table_at s" and "in_irq s' = in_irq s" and "daif s' = daif s"
    and "sched_inv TH SQ s' = sched_inv TH SQ s" and "thread_at s' = thread_at s" and "s_current s' = s_current s"
    and "bootstrap_thread s' = bootstrap_thread s"
proof -
  have eq: "s' = s\<lparr>ipc_msg_at := ipc_msg_at s', endpoint_at := endpoint_at s'\<rparr>" using assms by (simp add: links_only_def)
  have f: "f s' = f s" if "\<And>a b. f (s\<lparr>ipc_msg_at := a, endpoint_at := b\<rparr>) = f s" for f :: "_ \<Rightarrow> 'x"
    using arg_cong [OF eq, of f] that by simp
  show "slab_inv s' = slab_inv s" by (rule f, rule slab_same_view) (simp_all add: same_pmm_def)
  show "live_objs r s' = live_objs r s" by (rule f, rule slab_same_view) (simp_all add: same_pmm_def)
  show "sched_inv TH SQ s' = sched_inv TH SQ s" by (rule f, rule sched_inv_cong) simp_all
  show "slab_caches s' = slab_caches s" "s_ipc_msg_cache_inited s' = s_ipc_msg_cache_inited s" "cap_entry_at s' = cap_entry_at s"
    "cap_table_at s' = cap_table_at s" "in_irq s' = in_irq s" "daif s' = daif s" "thread_at s' = thread_at s"
    "s_current s' = s_current s" "bootstrap_thread s' = bootstrap_thread s"
    by (rule f, simp add: in_irq_def)+
qed

text \<open>Queueing a new message at \<open>e\<close>.\<close>

lemma push_inv:
  assumes i: "ipc_inv CS E Q s" and e: "e \<in> E" and m: "m \<in> live_objs G_ipc_msg_cache s" "\<forall>a\<in>E. m \<notin> set (Q a)"
    and g: "im_len (ipc_msg_at s m) \<le> KS_IPC_MSG_MAX" "length (im_data (ipc_msg_at s m)) = IPC_MSG_INLINE_MAX"
  shows "ipc_inv CS E (Q(e := Q e @ [m])) (q_push_tail e m s)"
    and "inbox (Q(e := Q e @ [m])) a (q_push_tail e m s) = inbox Q a s @ (if a = e then [body (ipc_msg_at s m)] else [])"
proof -
  let ?s = "q_push_tail e m s"
  have mn: "m \<noteq> NULL" using m(1) live_objs_not_NULL by blast
  note p = q_push_tail_spec [OF ipc_invD(6) [OF i e] mn] m(2) [rule_format, OF e]
  have lo: "links_only e s ?s" and rep: "ep_rep e ?s (Q e @ [m])"
    and fr: "\<And>z. z \<notin> set (m # Q e) \<Longrightarrow> ipc_msg_at ?s z = ipc_msg_at s z"
    using p by blast+
  note sv = links_onlyD [OF lo]
  have ct: "im_tag (ipc_msg_at ?s z) = im_tag (ipc_msg_at s z)" "im_len (ipc_msg_at ?s z) = im_len (ipc_msg_at s z)"
    "im_data (ipc_msg_at ?s z) = im_data (ipc_msg_at s z)" for z
    using lo by (simp_all add: links_only_def)
  have "ep_rep a ?s (Q a) = ep_rep a s (Q a)" if a: "a \<in> E" "a \<noteq> e" for a
  proof (rule ep_rep_cong)
    show "endpoint_at ?s a = endpoint_at s a" using lo a by (simp add: links_only_def)
    fix z assume "z \<in> set (Q a)"
    then have "z \<notin> set (m # Q e)" using ipc_invD(8) [OF i a(1) e a(2)] m(2) a(1) by auto
    then show "im_next (ipc_msg_at ?s z) = im_next (ipc_msg_at s z)" "im_prev (ipc_msg_at ?s z) = im_prev (ipc_msg_at s z)"
      using fr by simp_all
  qed
  then have rp: "ep_rep a ?s ((Q(e := Q e @ [m])) a)" if "a \<in> E" for a using rep ipc_invD(6) [OF i that] that by (cases "a = e") auto
  show "ipc_inv CS E (Q(e := Q e @ [m])) ?s"
    unfolding ipc_inv_def sv ct endpoint_from_handle_cong [OF sv(5,6)]
  proof (intro conjI ballI impI allI)
    fix a b assume "a \<in> E" "b \<in> E" "a \<noteq> b"
    then show "set ((Q(e := Q e @ [m])) a) \<inter> set ((Q(e := Q e @ [m])) b) = {}"
      using ipc_invD(8) [OF i, of a b] m(2) by auto
  qed (use i m g rp in \<open>auto simp: ipc_inv_def split: if_splits\<close>)
  show "inbox (Q(e := Q e @ [m])) a ?s = inbox Q a s @ (if a = e then [body (ipc_msg_at s m)] else [])"
    by (simp add: inbox_def body_def ct)
qed


text \<open>Taking the first message of \<open>e\<close>.\<close>

lemma pop_inv:
  assumes i: "ipc_inv CS E Q s" and e: "e \<in> E" and q: "Q e = m # xs"
  shows "\<exists>s'. q_pop_head e s = (m, s') \<and> ipc_inv CS E (Q(e := xs)) s' \<and> links_only e s s' \<and> (\<forall>a\<in>E. m \<notin> set ((Q(e := xs)) a))"
proof -
  note r = ipc_invD(6) [OF i e, unfolded q]
  obtain s' where p: "q_pop_head e s = (m, s')" and rep: "ep_rep e s' xs" and lo: "links_only e s s'"
    and fr: "\<And>z. z \<notin> set (m # xs) \<Longrightarrow> ipc_msg_at s' z = ipc_msg_at s z"
    using q_pop_head_spec [OF r] by blast
  note sv = links_onlyD [OF lo]
  have ct: "im_len (ipc_msg_at s' z) = im_len (ipc_msg_at s z)" "im_data (ipc_msg_at s' z) = im_data (ipc_msg_at s z)" for z
    using lo by (simp_all add: links_only_def)
  have dj: "set (Q a) \<inter> set (m # xs) = {}" if "a \<in> E" "a \<noteq> e" for a using ipc_invD(8) [OF i that(1) e that(2)] q by simp
  have "ep_rep a s' (Q a) = ep_rep a s (Q a)" if a: "a \<in> E" "a \<noteq> e" for a
  proof (rule ep_rep_cong)
    show "endpoint_at s' a = endpoint_at s a" using lo a by (simp add: links_only_def)
    fix z assume "z \<in> set (Q a)"
    then have "z \<notin> set (m # xs)" using dj [OF a] by auto
    then show "im_next (ipc_msg_at s' z) = im_next (ipc_msg_at s z)" "im_prev (ipc_msg_at s' z) = im_prev (ipc_msg_at s z)"
      using fr by simp_all
  qed
  then have rp: "ep_rep a s' ((Q(e := xs)) a)" if "a \<in> E" for a using rep ipc_invD(6) [OF i that] that by (cases "a = e") auto
  have sub: "set ((Q(e := xs)) a) \<subseteq> set (Q a)" for a using q by auto
  have "distinct (m # xs)" using r chain_distinct [of "msg_next s" "q_head (endpoint_at s e)" "m # xs"] unfolding ep_rep_def sll_def by blast
  then have nm: "\<forall>a\<in>E. m \<notin> set ((Q(e := xs)) a)" using dj by auto
  have "ipc_inv CS E (Q(e := xs)) s'"
    unfolding ipc_inv_def sv ct endpoint_from_handle_cong [OF sv(5,6)]
  proof (intro conjI ballI impI allI)
    fix a b assume "a \<in> E" "b \<in> E" "a \<noteq> b"
    then show "set ((Q(e := xs)) a) \<inter> set ((Q(e := xs)) b) = {}"
      using ipc_invD(8) [OF i, of a b] sub [of a] sub [of b] by blast
  next
    fix a assume "a \<in> E"
    then show "set ((Q(e := xs)) a) \<subseteq> live_objs G_ipc_msg_cache s" using ipc_invD(7) [OF i] sub [of a] by blast
    fix z assume "z \<in> set ((Q(e := xs)) a)"
    then have "z \<in> set (Q a)" using sub [of a] by blast
    with \<open>a \<in> E\<close> show "im_len (ipc_msg_at s z) \<le> KS_IPC_MSG_MAX" "length (im_data (ipc_msg_at s z)) = IPC_MSG_INLINE_MAX"
      using ipc_invD(9,10) [OF i] by blast+
  qed (use i rp in \<open>simp_all add: ipc_inv_def\<close>)
  with p lo nm show ?thesis by blast
qed

lemma links_only_body: "links_only e s s' \<Longrightarrow> body (ipc_msg_at s' m) = body (ipc_msg_at s m)"
  by (simp add: links_only_def body_def)

lemma ipc_inv_msg_update:
  assumes i: "ipc_inv CS E Q s" and m: "\<forall>a\<in>E. m \<notin> set (Q a)"
  shows "ipc_inv CS E Q (msg_update m f s)" and "a \<in> E \<Longrightarrow> inbox Q a (msg_update m f s) = inbox Q a s"
proof -
  let ?s = "msg_update m f s"
  have sv: "slab_inv ?s = slab_inv s" "live_objs r ?s = live_objs r s" for r
    by (rule slab_same_view; simp add: same_pmm_def)+
  have "ep_rep a ?s (Q a) = ep_rep a s (Q a)" if "a \<in> E" for a by (rule ep_rep_cong) (use m that in auto)
  moreover have "endpoint_from_handle cps h r ?s = endpoint_from_handle cps h r s" for cps h r
    by (rule endpoint_from_handle_cong) simp_all
  ultimately show "ipc_inv CS E Q ?s" using i m unfolding ipc_inv_def sv by auto
  show "a \<in> E \<Longrightarrow> inbox Q a (msg_update m f s) = inbox Q a s" using m by (auto simp: inbox_def)
qed

lemma ipc_inv_ep_update:
  assumes i: "ipc_inv CS E Q s" and "q_head (f (endpoint_at s e)) = q_head (endpoint_at s e)" "q_tail (f (endpoint_at s e)) = q_tail (endpoint_at s e)"
  shows "ipc_inv CS E Q (ep_update e f s)"
proof -
  let ?s = "ep_update e f s"
  have sv: "slab_inv ?s = slab_inv s" "live_objs r ?s = live_objs r s" for r
    by (rule slab_same_view; simp add: same_pmm_def)+
  have "ep_rep a ?s (Q a) = ep_rep a s (Q a)" for a using assms by (simp add: ep_rep_def)
  moreover have "endpoint_from_handle cps h r ?s = endpoint_from_handle cps h r s" for cps h r
    by (rule endpoint_from_handle_cong) simp_all
  ultimately show ?thesis using i unfolding ipc_inv_def sv by simp
qed


lemma endpoint_from_handle_OK:
  "fst (endpoint_from_handle cps h r s) \<noteq> NULL \<Longrightarrow> endpoint_from_handle cps h r s = (fst (endpoint_from_handle cps h r s), KS_IPC_OK)"
  "fst (endpoint_from_handle cps h r s) = NULL \<Longrightarrow> snd (endpoint_from_handle cps h r s) \<noteq> KS_IPC_OK"
  by (auto simp: endpoint_from_handle_def Let_def split: if_splits)

lemma ipc_msg_alloc_inv:
  assumes i: "ipc_inv CS E Q s" and irq: "\<not> in_irq s"
  shows "ipc_msg_alloc s = Panic ''ipc_msg_alloc: OOM'' \<and> free_pas s = {} \<or>
    (\<exists>m s'. ipc_msg_alloc s = Ret (m, s') \<and> m \<noteq> NULL \<and> ipc_inv CS E Q s' \<and> (\<forall>a\<in>E. m \<notin> set (Q a) \<and> inbox Q a s' = inbox Q a s) \<and>
      m \<in> live_objs G_ipc_msg_cache s' \<and> ipc_msg_at s' = (ipc_msg_at s)(m := ipc_msg_zero) \<and> endpoint_at s' = endpoint_at s \<and>
      in_irq s' = in_irq s \<and> daif s' = daif s \<and>
      cap_entry_at s' = cap_entry_at s \<and> cap_table_at s' = cap_table_at s \<and> (\<forall>TH SQ. sched_inv TH SQ s' = sched_inv TH SQ s) \<and>
      thread_at s' = thread_at s \<and> s_current s' = s_current s \<and> bootstrap_thread s' = bootstrap_thread s \<and> s_pick_cursor s' = s_pick_cursor s)"
proof -
  have rdy: "slab_ready G_ipc_msg_cache s" using ipc_invD(1,2) [OF i] irq by (simp add: slab_ready_def)
  from slab_alloc_ready [OF rdy] obtain m s1 where run: "slab_alloc (Some G_ipc_msg_cache) s = Ret (m, s1)"
    and n: "slab_inv s1" "slab_frame s s1" and post: "if m = NULL then free_pas s = {} \<and> (\<forall>q. live_objs q s1 = live_objs q s)
      else m \<notin> live_objs G_ipc_msg_cache s \<and>
        (\<forall>q. live_objs q s1 = (if q = G_ipc_msg_cache then insert m (live_objs G_ipc_msg_cache s) else live_objs q s))"
    by blast
  show ?thesis
  proof (cases "m = NULL")
    case True
    then show ?thesis using run irq ipc_invD(3) [OF i] post by (simp add: ipc_msg_alloc_def)
  next
    case False
    let ?s = "msg_update m (\<lambda>_. ipc_msg_zero) s1"
    have m: "m \<notin> live_objs G_ipc_msg_cache s" "live_objs G_ipc_msg_cache s1 = insert m (live_objs G_ipc_msg_cache s)"
      using post False by auto
    then have mq: "\<forall>a\<in>E. m \<notin> set (Q a)" using ipc_invD(7) [OF i] by blast
    have i1: "ipc_inv CS E Q s1" using ipc_invD(7) [OF i] m by (intro ipc_inv_slab [OF i n]) auto
    note mo = slab_more_ipc [OF slab_frameD(1) [OF n(2)]]
    note e = ipc_more [OF mo(1)]
    note so = sched_more [OF slab_frameD(1) [OF n(2)]]
    have lv: "live_objs r ?s = live_objs r s1" for r by (rule slab_same_view; simp add: same_pmm_def)
    have a: "ipc_msg_alloc s = Ret (m, ?s)" using run irq ipc_invD(3) [OF i] False by (simp add: ipc_msg_alloc_def)
    have b: "inbox Q a s1 = inbox Q a s" for a by (simp add: inbox_def e)
    have c: "sched_inv TH SQ ?s = sched_inv TH SQ s" for TH SQ by (rule sched_inv_cong) (simp_all add: so)
    show ?thesis
      using a False i1 ipc_inv_msg_update [OF i1 mq, where f = "\<lambda>_. ipc_msg_zero"] mq m lv e mo b c so slab_frameD(2,3) [OF n(2)]
      by (intro disjI2 exI [of _ m] exI [of _ ?s]) (simp add: in_irq_def)
  qed
qed


text \<open>
  A send that passes the checks runs out of memory (and panics), or it queues the message at the
  endpoint and then wakes the registered receiver, if there is one.
\<close>

lemma send_run:
  assumes i: "ipc_inv CS E Q s" and irq: "\<not> in_irq s" and c: "cps \<in> CS" and km: "wf_msg km" "km_len km \<le> KS_IPC_MSG_MAX"
    and e: "fst (endpoint_from_handle cps h CAP_R_SEND s) = e" "e \<noteq> NULL" "\<not> ep_closed (endpoint_at s e)"
  defines "w \<equiv> waiting_recv (endpoint_at s e)"
  shows "ipc_send_cap cps h (Some km) s = Panic ''ipc_msg_alloc: OOM'' \<and> free_pas s = {} \<or>
    (\<exists>m s4. ipc_send_cap cps h (Some km) s =
        obind (if w \<noteq> NULL then sched_wake w (ep_update e (\<lambda>p. p\<lparr>waiting_recv := NULL\<rparr>) s4) else Ret s4)
          (\<lambda>s5. Ret (KS_IPC_OK, irq_restore (daif s) s5)) \<and>
      ipc_inv CS E (Q(e := Q e @ [m])) s4 \<and>
      (\<forall>a\<in>E. inbox (Q(e := Q e @ [m])) a s4 = inbox Q a s @ (if a = e then [payload km] else [])) \<and>
      in_irq s4 = in_irq s \<and> daif s4 = daif s OR DAIF_I_BIT \<and> (\<forall>TH SQ. sched_inv TH SQ s4 = sched_inv TH SQ s) \<and>
      thread_at s4 = thread_at s \<and> s_current s4 = s_current s \<and> bootstrap_thread s4 = bootstrap_thread s \<and>
      s_pick_cursor s4 = s_pick_cursor s \<and> (\<forall>c h r. endpoint_from_handle c h r s4 = endpoint_from_handle c h r s))"
proof -
  have eE: "e \<in> E" using ipc_invD(5) [OF i c, of h CAP_R_SEND] e by auto
  have h: "endpoint_from_handle cps h CAP_R_SEND s = (e, KS_IPC_OK)" using endpoint_from_handle_OK(1) e by metis
  have len: "\<not> KS_IPC_MSG_MAX < km_len km" using km(2) by simp
  from ipc_msg_alloc_inv [OF i irq] show ?thesis
  proof (elim disjE exE conjE)
    assume "ipc_msg_alloc s = Panic ''ipc_msg_alloc: OOM''" "free_pas s = {}"
    then show ?thesis using irq len h e by (simp add: ipc_send_cap_def)
  next
    fix m s1
    assume a: "ipc_msg_alloc s = Ret (m, s1)" "m \<noteq> NULL" and i1: "ipc_inv CS E Q s1"
      and mq: "\<forall>a\<in>E. m \<notin> set (Q a) \<and> inbox Q a s1 = inbox Q a s" and ml: "m \<in> live_objs G_ipc_msg_cache s1"
      and f: "ipc_msg_at s1 = (ipc_msg_at s)(m := ipc_msg_zero)" "endpoint_at s1 = endpoint_at s" "in_irq s1 = in_irq s" "daif s1 = daif s"
        "\<forall>TH SQ. sched_inv TH SQ s1 = sched_inv TH SQ s" "thread_at s1 = thread_at s" "s_current s1 = s_current s"
        "bootstrap_thread s1 = bootstrap_thread s" "s_pick_cursor s1 = s_pick_cursor s" "cap_entry_at s1 = cap_entry_at s" "cap_table_at s1 = cap_table_at s"
    let ?f = "\<lambda>g :: ipc_msg. g\<lparr>im_tag := km_tag km, im_len := km_len km,
        im_data := (if 0 < km_len km then copy_bytes (im_data g) (km_data km) (unat (km_len km)) else im_data g)\<rparr>"
    let ?s2 = "msg_update m ?f s1"
    let ?s3 = "?s2\<lparr>daif := daif s OR DAIF_I_BIT\<rparr>"
    have mq': "\<forall>a\<in>E. m \<notin> set (Q a)" using mq by simp
    note i2 = ipc_inv_msg_update [OF i1 mq', where f = ?f]
    have fr: "sched_frame ?s2 ?s3" by simp
    note i3 = ipc_inv_sched [OF i2(1) fr]
    have l3: "live_objs G_ipc_msg_cache ?s3 = live_objs G_ipc_msg_cache s1" by (rule slab_same_view; simp add: same_pmm_def)
    have len': "unat (km_len km) \<le> 128" using km(2) by (simp add: KS_IPC_MSG_MAX_def word_le_nat_alt)
    have g: "im_len (ipc_msg_at ?s3 m) \<le> KS_IPC_MSG_MAX" "length (im_data (ipc_msg_at ?s3 m)) = IPC_MSG_INLINE_MAX"
      using km len' by (auto simp: f(1) ipc_msg_zero_def copy_bytes_def wf_msg_def IPC_MSG_INLINE_MAX_def)
    have b: "body (ipc_msg_at ?s3 m) = payload km"
      using km len' by (auto simp: f(1) ipc_msg_zero_def copy_bytes_def wf_msg_def body_def payload_def IPC_MSG_INLINE_MAX_def word_gt_0)
    have ml3: "m \<in> live_objs G_ipc_msg_cache ?s3" unfolding l3 by (fact ml)
    note p = push_inv [OF i3(1) eE ml3 mq' g]
    let ?s4 = "q_push_tail e m ?s3"
    have en: "waiting_recv (endpoint_at ?s4 e) = w" by (simp add: q_push_tail_def Let_def w_def f(2))
    have run: "ipc_send_cap cps h (Some km) s =
        obind (if w \<noteq> NULL then sched_wake w (ep_update e (\<lambda>p. p\<lparr>waiting_recv := NULL\<rparr>) ?s4) else Ret ?s4)
          (\<lambda>s5. Ret (KS_IPC_OK, irq_restore (daif s) s5))"
      using irq len h e a en f(4) by (simp add: ipc_send_cap_def irq_save_def Let_def)
    have bx: "inbox (Q(e := Q e @ [m])) a ?s4 = inbox Q a s @ (if a = e then [payload km] else [])" if "a \<in> E" for a
    proof -
      have "inbox Q a ?s3 = inbox Q a s" using i2(2) [OF that] mq that by (simp add: inbox_def)
      then show ?thesis unfolding p(2) b by simp
    qed
    have sc: "sched_inv TH SQ ?s4 = sched_inv TH SQ s" for TH SQ
      using f(5) sched_inv_cong [of ?s4 s1 TH SQ] by (simp add: q_push_tail_def Let_def)
    have o: "in_irq ?s4 = in_irq s" "daif ?s4 = daif s OR DAIF_I_BIT" "thread_at ?s4 = thread_at s" "s_current ?s4 = s_current s"
      "bootstrap_thread ?s4 = bootstrap_thread s" "s_pick_cursor ?s4 = s_pick_cursor s"
      using f by (simp_all add: q_push_tail_def Let_def in_irq_def)
    have k: "endpoint_from_handle c h r ?s4 = endpoint_from_handle c h r s" for c h r
      by (rule endpoint_from_handle_cong) (simp_all add: q_push_tail_def Let_def f)
    show ?thesis
      by (intro disjI2 exI [of _ m] exI [of _ ?s4] conjI allI ballI) (fact run p(1) sc o k | rule bx, assumption)+
  qed
qed

text \<open>The critical section of a receive and the release of the message.\<close>

lemma take_msg:
  assumes i: "ipc_inv CS E Q s" and irq: "\<not> in_irq s" and e: "e \<in> E" and q: "Q e = m # xs" and w: "wf_msg buf"
  shows "\<exists>s1 s3. q_pop_head e (snd (irq_save s)) = (m, s1) \<and> m \<noteq> NULL \<and> ipc_msg_free m (irq_restore (daif s) s1) = Ret s3 \<and>
    ipc_inv CS E (Q(e := xs)) s3 \<and> inbox (Q(e := xs)) a s3 = (if a = e then tl (inbox Q a s) else inbox Q a s) \<and>
    payload (recv_copy (ipc_msg_at (irq_restore (daif s) s1) m) buf) = hd (inbox Q e s)"
proof -
  let ?s0 = "snd (irq_save s)"
  have f0: "sched_frame s ?s0" by simp
  note i0 = ipc_inv_sched(1) [OF i f0]
  obtain s1 where p: "q_pop_head e ?s0 = (m, s1)" and i1: "ipc_inv CS E (Q(e := xs)) s1" and lo: "links_only e ?s0 s1"
    and nm: "\<forall>a\<in>E. m \<notin> set ((Q(e := xs)) a)"
    using pop_inv [OF i0 e q] by blast
  have mE: "m \<in> set (Q e)" using q by simp
  have mn: "m \<noteq> NULL" using ep_rep_NULL [OF ipc_invD(6) [OF i e]] mE by auto
  let ?s2 = "irq_restore (daif s) s1"
  have f2: "sched_frame s1 ?s2" by simp
  note i2 = ipc_inv_sched(1) [OF i1 f2]
  have lv: "m \<in> live_objs G_ipc_msg_cache ?s2"
  proof -
    have "live_objs G_ipc_msg_cache ?s2 = live_objs G_ipc_msg_cache s1" by (rule slab_same_view; simp add: same_pmm_def irq_restore_def)
    moreover have "live_objs G_ipc_msg_cache ?s0 = live_objs G_ipc_msg_cache s" by (rule slab_same_view; simp add: same_pmm_def irq_save_def)
    ultimately show ?thesis using ipc_invD(7) [OF i e] mE links_onlyD(2) [OF lo] by auto
  qed
  have irq2: "\<not> in_irq ?s2" using links_onlyD(7) [OF lo] irq by (simp add: in_irq_def irq_restore_def irq_save_def)
  from slab_free_ready [OF ipc_invD(1) [OF i2] irq2 lv] obtain s3 where r: "slab_free (Some G_ipc_msg_cache) m ?s2 = Ret s3"
    and n: "slab_inv s3" "slab_frame ?s2 s3" and l3: "live_objs G_ipc_msg_cache s3 = live_objs G_ipc_msg_cache ?s2 - {m}"
    by auto
  have "set ((Q(e := xs)) a) \<subseteq> live_objs G_ipc_msg_cache s3" if "a \<in> E" for a
    using ipc_invD(7) [OF i2 that] l3 nm that by blast
  then have i3: "ipc_inv CS E (Q(e := xs)) s3" by (rule ipc_inv_slab [OF i2 n])
  have ms: "ipc_msg_at ?s2 = ipc_msg_at s1" "ipc_msg_at ?s0 = ipc_msg_at s" by (simp_all add: irq_restore_def irq_save_def)
  have m3: "ipc_msg_at s3 = ipc_msg_at ?s2" by (rule ipc_more [OF slab_more_ipc(1) [OF slab_frameD(1) [OF n(2)]]])
  have bd: "body (ipc_msg_at s1 z) = body (ipc_msg_at s z)" for z using links_only_body [OF lo] ms(2) by simp
  have bx: "inbox (Q(e := xs)) a s3 = (if a = e then tl (inbox Q a s) else inbox Q a s)"
    using q by (simp add: inbox_def m3 ms bd)
  have "im_len (ipc_msg_at s1 m) \<le> KS_IPC_MSG_MAX" "length (im_data (ipc_msg_at s1 m)) = IPC_MSG_INLINE_MAX"
    using ipc_invD(9,10) [OF i e mE] lo ms(2) by (simp_all add: links_only_def)
  then have "payload (recv_copy (ipc_msg_at ?s2 m) buf) = hd (inbox Q e s)"
    using recv_copy_payload(1) [OF _ _ w] bd q by (simp add: ms inbox_def)
  moreover have "ipc_msg_free m ?s2 = Ret s3" using r irq2 mn ipc_invD(3) [OF i2] by (simp add: ipc_msg_free_def)
  ultimately show ?thesis using p mn i3 bx by blast
qed

text \<open>The effect of each operation on the inboxes, when it returns.\<close>

lemma send_effect:
  assumes i: "ipc_inv CS E Q s" and c: "cps \<in> CS" and km: "wf_msg km" and r: "ipc_send_cap cps h (Some km) s = Ret (st, s')"
  shows "\<exists>Q'. ipc_inv CS E Q' s' \<and> (\<forall>a\<in>E. inbox Q' a s' = inbox Q a s @
    (if st = KS_IPC_OK \<and> a = fst (endpoint_from_handle cps h CAP_R_SEND s) then [payload km] else []))"
proof -
  let ?e = "fst (endpoint_from_handle cps h CAP_R_SEND s)"
  have irq: "\<not> in_irq s" using r by (simp add: ipc_send_cap_def)
  show ?thesis
  proof (cases "km_len km \<le> KS_IPC_MSG_MAX \<and> ?e \<noteq> NULL \<and> \<not> ep_closed (endpoint_at s ?e)")
    case False
    then have "s' = s" "st \<noteq> KS_IPC_OK"
      using r irq endpoint_from_handle_OK(2) [of cps h CAP_R_SEND s] by (auto simp: ipc_send_cap_def case_prod_beta not_le split: if_splits)
    then show ?thesis using i by auto
  next
    case True
    let ?w = "waiting_recv (endpoint_at s ?e)"
    from True have t: "km_len km \<le> KS_IPC_MSG_MAX" "?e \<noteq> NULL" "\<not> ep_closed (endpoint_at s ?e)" by blast+
    obtain m s4 where
      run: "obind (if ?w \<noteq> NULL then sched_wake ?w (ep_update ?e (\<lambda>p. p\<lparr>waiting_recv := NULL\<rparr>) s4) else Ret s4)
          (\<lambda>s5. Ret (KS_IPC_OK, irq_restore (daif s) s5)) = Ret (st, s')"
      and i4: "ipc_inv CS E (Q(?e := Q ?e @ [m])) s4"
      and b: "\<forall>a\<in>E. inbox (Q(?e := Q ?e @ [m])) a s4 = inbox Q a s @ (if a = ?e then [payload km] else [])"
      using send_run [OF i irq c km t(1) refl t(2,3)] unfolding r by (elim disjE exE conjE) (simp, metis)
    let ?Q = "Q(?e := Q ?e @ [m])" and ?s4 = "ep_update ?e (\<lambda>p. p\<lparr>waiting_recv := NULL\<rparr>) s4"
    have i4': "ipc_inv CS E ?Q ?s4" by (rule ipc_inv_ep_update [OF i4]) simp_all
    obtain s5 where s5: "(if ?w \<noteq> NULL then sched_wake ?w ?s4 else Ret s4) = Ret s5" "st = KS_IPC_OK" "s' = irq_restore (daif s) s5"
      using run by (auto simp: obind_Ret_iff)
    show ?thesis
    proof (cases "?w = NULL")
      case True
      then have f: "sched_frame s4 s'" using s5 by simp
      show ?thesis using ipc_inv_sched(1) [OF i4 f] inbox_sched [OF i4 f] b s5(2) by (intro exI [of _ ?Q]) simp
    next
      case False
      then have f: "sched_frame ?s4 s'" using s5 on_RetD [OF sched_frame_wake] by fastforce
      have "inbox ?Q a ?s4 = inbox ?Q a s4" for a by (simp add: inbox_def)
      then show ?thesis using ipc_inv_sched(1) [OF i4' f] inbox_sched [OF i4' f] b s5(2) by (intro exI [of _ ?Q]) simp
    qed
  qed
qed


lemma try_recv_effect:
  assumes i: "ipc_inv CS E Q s" and c: "cps \<in> CS" and w: "wf_msg buf" and r: "ipc_try_recv_cap cps h (Some buf) s = Ret ((st, ob), s')"
  shows "\<exists>Q'. ipc_inv CS E Q' s' \<and> (\<forall>a\<in>E. inbox Q a s =
    (if st = KS_IPC_OK \<and> a = fst (endpoint_from_handle cps h CAP_R_RECV s) then [payload (the ob)] else []) @ inbox Q' a s')"
proof -
  let ?e = "fst (endpoint_from_handle cps h CAP_R_RECV s)" and ?s0 = "snd (irq_save s)"
  have irq: "\<not> in_irq s" using r by (simp add: ipc_try_recv_cap_def)
  have f0: "sched_frame s ?s0" by simp
  note i0 = ipc_inv_sched(1) [OF i f0]
  show ?thesis
  proof (cases "?e = NULL")
    case True
    then have "s' = s" "st \<noteq> KS_IPC_OK"
      using r irq endpoint_from_handle_OK(2) [of cps h CAP_R_RECV s] by (auto simp: ipc_try_recv_cap_def case_prod_beta)
    then show ?thesis using i by auto
  next
    case False
    then have eE: "?e \<in> E" using ipc_invD(5) [OF i c, of h CAP_R_RECV] by auto
    show ?thesis
    proof (cases "Q ?e")
      case Nil
      have "q_pop_head ?e ?s0 = (NULL, ?s0)" using q_pop_head_Nil ipc_invD(6) [OF i0 eE] Nil by metis
      then have st: "st \<noteq> KS_IPC_OK" and s': "s' = irq_restore (daif s) ?s0"
        using r irq False by (auto simp: ipc_try_recv_cap_def irq_save_def case_prod_beta Let_def split: if_splits)
      then have f: "sched_frame s s'" by simp
      show ?thesis using ipc_inv_sched(1) [OF i f] inbox_sched [OF i f] st by (intro exI [of _ Q]) simp
    next
      case (Cons m xs)
      let ?Q = "Q(?e := xs)"
      from take_msg [OF i irq eE Cons w] obtain s1 s3 where p: "q_pop_head ?e ?s0 = (m, s1)" "m \<noteq> NULL"
        "ipc_msg_free m (irq_restore (daif s) s1) = Ret s3" and i3: "ipc_inv CS E ?Q s3"
        and pl: "payload (recv_copy (ipc_msg_at (irq_restore (daif s) s1) m) buf) = hd (inbox Q ?e s)" by blast
      have b: "inbox ?Q a s3 = (if a = ?e then tl (inbox Q a s) else inbox Q a s)" for a
        using take_msg [OF i irq eE Cons w, of a] p by auto
      have "st = KS_IPC_OK" "s' = s3" "ob = Some (recv_copy (ipc_msg_at (irq_restore (daif s) s1) m) buf)"
        using r irq False p by (auto simp: ipc_try_recv_cap_def irq_save_def case_prod_beta Let_def)
      moreover have "inbox Q ?e s \<noteq> []" using Cons by (simp add: inbox_def)
      ultimately show ?thesis using i3 b pl by (intro exI [of _ ?Q]) auto
    qed
  qed
qed

lemma recv_pass_effect:
  assumes i: "ipc_inv CS E Q s" and e: "e \<in> E" and w: "wf_msg buf" and irq: "\<not> in_irq s" and r: "ipc_recv_pass e buf s = Ret (res, s')"
  shows "\<exists>Q'. ipc_inv CS E Q' s' \<and> (\<forall>a\<in>E. inbox Q a s =
    (case res of Done st ob \<Rightarrow> if st = KS_IPC_OK \<and> a = e then [payload ob] else [] | Blocked _ \<Rightarrow> []) @ inbox Q' a s')"
proof -
  let ?s0 = "snd (irq_save s)"
  have f0: "sched_frame s ?s0" by simp
  note i0 = ipc_inv_sched(1) [OF i f0]
  show ?thesis
  proof (cases "Q e")
    case Nil
    let ?s1 = "ep_update e (\<lambda>p. p\<lparr>waiting_recv := s_current s\<rparr>) ?s0"
    have q: "q_pop_head e ?s0 = (NULL, ?s0)" using q_pop_head_Nil ipc_invD(6) [OF i0 e] Nil by metis
    have i1: "ipc_inv CS E Q ?s1" by (rule ipc_inv_ep_update [OF i0]) simp_all
    have b1: "inbox Q a ?s1 = inbox Q a s" for a by (simp add: inbox_def irq_save_def)
    have "(\<exists>st. st \<noteq> KS_IPC_OK \<and> recv_take e buf s = Ret (Inl (st, buf), irq_restore (daif s) ?s0)) \<or>
        recv_take e buf s = Ret (Inr (), irq_restore (daif s) ?s1)"
      using q by (auto simp: recv_take_def irq_save_def Let_def sched_current_def)
    then show ?thesis
    proof (elim disjE exE conjE)
      fix st assume "st \<noteq> KS_IPC_OK" and t: "recv_take e buf s = Ret (Inl (st, buf), irq_restore (daif s) ?s0)"
      moreover from t have s': "s' = irq_restore (daif s) ?s0" "res = Done st buf" using r by (auto simp: ipc_recv_pass_def)
      then have f: "sched_frame s s'" by simp
      ultimately show ?thesis using ipc_inv_sched(1) [OF i f] inbox_sched [OF i f] s'(2) by (intro exI [of _ Q]) simp
    next
      assume t: "recv_take e buf s = Ret (Inr (), irq_restore (daif s) ?s1)"
      then obtain sw where s': "sched_block_current (irq_restore (daif s) ?s1) = Ret (sw, s')" "res = Blocked sw"
        using r by (auto simp: ipc_recv_pass_def obind_Ret_iff)
      have "sched_frame (irq_restore (daif s) ?s1) s'" using on_RetD [OF sched_frame_block s'(1)] by simp
      moreover have "sched_frame ?s1 (irq_restore (daif s) ?s1)" by simp
      ultimately have f: "sched_frame ?s1 s'" by (rule sched_frame_trans [rotated])
      show ?thesis using ipc_inv_sched(1) [OF i1 f] inbox_sched [OF i1 f] s'(2) b1 by (intro exI [of _ Q]) simp
    qed
  next
    case (Cons m xs)
    let ?Q = "Q(e := xs)"
    from take_msg [OF i irq e Cons w] obtain s1 s3 where p: "q_pop_head e ?s0 = (m, s1)" "m \<noteq> NULL"
      "ipc_msg_free m (irq_restore (daif s) s1) = Ret s3" and i3: "ipc_inv CS E ?Q s3"
      and pl: "payload (recv_copy (ipc_msg_at (irq_restore (daif s) s1) m) buf) = hd (inbox Q e s)" by blast
    have b: "inbox ?Q a s3 = (if a = e then tl (inbox Q a s) else inbox Q a s)" for a
      using take_msg [OF i irq e Cons w, of a] p by auto
    have "res = Done KS_IPC_OK (recv_copy (ipc_msg_at (irq_restore (daif s) s1) m) buf)" "s' = s3"
      using r p by (auto simp: ipc_recv_pass_def recv_take_def irq_save_def Let_def)
    moreover have "inbox Q e s \<noteq> []" using Cons by (simp add: inbox_def)
    ultimately show ?thesis using i3 b pl by (intro exI [of _ ?Q]) auto
  qed
qed


section \<open>Runs\<close>

text \<open>
  A run of the message operations by any threads, interleaved with any calls of the scheduler: \<open>ins\<close> are
  the payloads of the sends to \<open>e\<close> that were accepted, \<open>outs\<close> the payloads received from \<open>e\<close>. A blocking
  receive takes part with each pass of its loop.
\<close>

type_synonym ipc_payload = "u32 \<times> u8 list"

inductive ipc_trace ::
    "ptr set \<Rightarrow> ptr set \<Rightarrow> ptr \<Rightarrow> 'a ipc_globals_scheme \<Rightarrow> ipc_payload list \<Rightarrow> ipc_payload list \<Rightarrow> 'a ipc_globals_scheme \<Rightarrow> bool"
  for CS E e where
  it_done: "ipc_trace CS E e s [] [] s"
| it_send: "cps \<in> CS \<Longrightarrow> wf_msg km \<Longrightarrow> ipc_send_cap cps h (Some km) s = Ret (st, s1) \<Longrightarrow> ipc_trace CS E e s1 ins outs s' \<Longrightarrow>
    ipc_trace CS E e s ((if st = KS_IPC_OK \<and> e = fst (endpoint_from_handle cps h CAP_R_SEND s) then [payload km] else []) @ ins) outs s'"
| it_try: "cps \<in> CS \<Longrightarrow> wf_msg buf \<Longrightarrow> ipc_try_recv_cap cps h (Some buf) s = Ret ((st, ob), s1) \<Longrightarrow> ipc_trace CS E e s1 ins outs s' \<Longrightarrow>
    ipc_trace CS E e s ins ((if st = KS_IPC_OK \<and> e = fst (endpoint_from_handle cps h CAP_R_RECV s) then [payload (the ob)] else []) @ outs) s'"
| it_recv: "a \<in> E \<Longrightarrow> wf_msg buf \<Longrightarrow> \<not> in_irq s \<Longrightarrow> ipc_recv_pass a buf s = Ret (res, s1) \<Longrightarrow> ipc_trace CS E e s1 ins outs s' \<Longrightarrow>
    ipc_trace CS E e s ins ((case res of Done st ob \<Rightarrow> if st = KS_IPC_OK \<and> e = a then [payload ob] else [] | Blocked _ \<Rightarrow> []) @ outs) s'"
| it_sched: "sched_exec c s = Ret s1 \<Longrightarrow> ipc_trace CS E e s1 ins outs s' \<Longrightarrow> ipc_trace CS E e s ins outs s'"

lemma ipc_trace_order:
  assumes "ipc_trace CS E e s ins outs s'" and "ipc_inv CS E Q s" and "e \<in> E"
  shows "\<exists>Q'. ipc_inv CS E Q' s' \<and> inbox Q e s @ ins = outs @ inbox Q' e s'"
  using assms
proof (induction arbitrary: Q rule: ipc_trace.induct)
  case (it_done s)
  then show ?case by auto
next
  case (it_send cps km h s st s1 ins outs s')
  from send_effect [OF it_send.prems(1) it_send.hyps(1-3)] obtain Q1 where q: "ipc_inv CS E Q1 s1"
    "inbox Q1 e s1 = inbox Q e s @ (if st = KS_IPC_OK \<and> e = fst (endpoint_from_handle cps h CAP_R_SEND s) then [payload km] else [])"
    using it_send.prems(2) by blast
  from it_send.IH [OF q(1) it_send.prems(2)] show ?case unfolding q(2) by simp
next
  case (it_try cps buf h s st ob s1 ins outs s')
  from try_recv_effect [OF it_try.prems(1) it_try.hyps(1-3)] obtain Q1 where q: "ipc_inv CS E Q1 s1"
    "inbox Q e s = (if st = KS_IPC_OK \<and> e = fst (endpoint_from_handle cps h CAP_R_RECV s) then [payload (the ob)] else []) @ inbox Q1 e s1"
    using it_try.prems(2) by blast
  from it_try.IH [OF q(1) it_try.prems(2)] show ?case unfolding q(2) by auto
next
  case (it_recv a buf s res s1 ins outs s')
  from recv_pass_effect [OF it_recv.prems(1) it_recv.hyps(1-4)] obtain Q1 where q: "ipc_inv CS E Q1 s1"
    "inbox Q e s = (case res of Done st ob \<Rightarrow> if st = KS_IPC_OK \<and> e = a then [payload ob] else [] | Blocked _ \<Rightarrow> []) @ inbox Q1 e s1"
    using it_recv.prems(2) by blast
  from it_recv.IH [OF q(1) it_recv.prems(2)] show ?case unfolding q(2) by (auto split: recv_result.split)
next
  case (it_sched c s s1 ins outs s')
  have f: "sched_frame s s1" using on_RetD [OF sched_frame_exec it_sched.hyps(1)] .
  from it_sched.IH [OF ipc_inv_sched(1) [OF it_sched.prems(1) f] it_sched.prems(2)] show ?case
    unfolding inbox_sched [OF it_sched.prems(1) f] .
qed

text \<open>Scheduler calls only, on a fixed set of threads.\<close>

inductive sched_run :: "ptr set \<Rightarrow> 'a sched_globals_scheme \<Rightarrow> 'a sched_globals_scheme \<Rightarrow> bool" for TH where
  run_done: "sched_run TH s s"
| run_call: "sched_run TH s s1 \<Longrightarrow> legal TH c s1 \<Longrightarrow> new_threads c = {} \<Longrightarrow> sched_exec c s1 = Ret s' \<Longrightarrow> sched_run TH s s'"

lemma sched_run_frame:
  assumes "sched_run TH s s'"
  shows "sched_frame s s'" and "sched_inv TH SQ s \<Longrightarrow> \<exists>SQ'. sched_inv TH SQ' s'"
proof -
  show "sched_frame s s'" using assms
    by (induction rule: sched_run.induct) (auto dest: on_RetD [OF sched_frame_exec] intro: sched_frame_trans)
  show "\<exists>SQ'. sched_inv TH SQ' s'" if "sched_inv TH SQ s"
    using assms that
  proof (induction rule: sched_run.induct)
    case (run_call s s1 c s')
    then obtain SQ1 where "sched_inv TH SQ1 s1" by blast
    from sched_exec_inv [OF this run_call.hyps(2)] run_call.hyps(3,4) show ?case by auto
  qed blast
qed


section \<open>An example\<close>

text \<open>
  One table at 0x50 with an endpoint capability (send and receive) in slot 0, the endpoint at 0x70 with
  an empty queue and the receiver \<open>w\<close>; the bootstrap context runs, the threads are given by \<open>th\<close> and \<open>T\<close>.
\<close>

definition example_ipc :: "ptr \<Rightarrow> (sched_intent \<Rightarrow> ptr) \<Rightarrow> (ptr \<Rightarrow> thread) \<Rightarrow> ipc_globals" where
  "example_ipc w T th = work_globals.extend (sched_globals.extend
     (example_boot\<lparr>thread_at := th, s_ready_tail := T,
        cap_table_at := (\<lambda>_. \<lparr>slots_of = 0x60 # replicate 255 NULL, gens = replicate 256 1, free_stack = replicate 256 0, free_top = 255\<rparr>),
        cap_entry_at := (\<lambda>_. \<lparr>ce_type = CAP_TYPE_ENDPOINT, ce_rights = CAP_R_SEND OR CAP_R_RECV, ce_obj = 0x70, ce_gen = 1,
          ce_flags = CAP_ENTRY_FLAG_VALID\<rparr>)\<rparr>)
     \<lparr>work_item_at = (\<lambda>_. \<lparr>wi_fn = 0, wi_arg = 0, wi_next = NULL\<rparr>), workq_at = (\<lambda>_. \<lparr>wq_head = NULL, wq_tail = NULL\<rparr>), g_cache_inited = True\<rparr>)
     \<lparr>ipc_msg_at = (\<lambda>_. ipc_msg_zero),
      endpoint_at = (\<lambda>_. \<lparr>ep_id = 1, q_head = NULL, q_tail = NULL, waiting_recv = w, ep_closed = False\<rparr>),
      s_ipc_msg_cache_inited = True, s_endpoint_cache_inited = True, s_next_endpoint_id = 2\<rparr>"

definition example_handle :: cap_handle where
  "example_handle = cap_handle_make 1 0"

definition example_msg :: ks_ipc_msg where
  "example_msg = \<lparr>km_tag = 7, km_len = 2, km_data = replicate 128 9\<rparr>"

lemma example_ipc_sel [simp]:
  "endpoint_at (example_ipc w T th) = (\<lambda>_. \<lparr>ep_id = 1, q_head = NULL, q_tail = NULL, waiting_recv = w, ep_closed = False\<rparr>)"
  "thread_at (example_ipc w T th) = th" "s_ready_tail (example_ipc w T th) = T" "s_current (example_ipc w T th) = 0x500"
  "bootstrap_thread (example_ipc w T th) = 0x500" "s_pick_cursor (example_ipc w T th) = 0" "cpu (example_ipc w T th) = cpu example_boot"
  "s_ipc_msg_cache_inited (example_ipc w T th)" "s_irq_depth (example_ipc w T th) = 0"
  using example_boot_facts(2-5) by (simp_all add: example_ipc_def sched_globals.defs work_globals.defs in_irq_def)

lemma example_ipc_like: "like_example (example_ipc w T th)"
proof -
  have "like_example example_boot"
    using example_sched0_like by (simp add: example_boot_def sched_init_bootstrap_def like_example_def)
  then show ?thesis by (simp add: example_ipc_def sched_globals.defs work_globals.defs like_example_def)
qed

lemma example_endpoint:
  "fst (endpoint_from_handle cps h r (example_ipc w T th)) \<in> {NULL, 0x70}"
  "r \<in> {CAP_R_SEND, CAP_R_RECV} \<Longrightarrow> endpoint_from_handle 0x50 example_handle r (example_ipc w T th) = (0x70, KS_IPC_OK)"
proof -
  let ?s = "example_ipc w T th"
  have c: "cap_table_at ?s = (\<lambda>_. \<lparr>slots_of = 0x60 # replicate 255 NULL, gens = replicate 256 1, free_stack = replicate 256 0, free_top = 255\<rparr>)"
    "cap_entry_at ?s = (\<lambda>_. \<lparr>ce_type = CAP_TYPE_ENDPOINT, ce_rights = CAP_R_SEND OR CAP_R_RECV, ce_obj = 0x70, ce_gen = 1, ce_flags = CAP_ENTRY_FLAG_VALID\<rparr>)"
    by (simp_all add: example_ipc_def sched_globals.defs work_globals.defs)
  show "fst (endpoint_from_handle cps h r ?s) \<in> {NULL, 0x70}"
    by (simp add: endpoint_from_handle_def c Let_def)
  show "r \<in> {CAP_R_SEND, CAP_R_RECV} \<Longrightarrow> endpoint_from_handle 0x50 example_handle r ?s = (0x70, KS_IPC_OK)"
    by (auto simp: endpoint_from_handle_def c Let_def cap_table_lookup_def cap_lookup_def cap_lookup_ex_def example_handle_def
        cap_slot_valid_index_def CONFIG_CAP_TABLE_SLOTS_def CAP_ENTRY_FLAG_VALID_def CAP_R_SEND_def CAP_R_RECV_def)
qed

lemma example_ipc_facts:
  "ipc_inv {0x50} {0x70} (\<lambda>_. []) (example_ipc w T th)" "\<not> in_irq (example_ipc w T th)" "free_pas (example_ipc w T th) \<noteq> {}"
  "wf_msg example_msg" "km_len example_msg \<le> KS_IPC_MSG_MAX"
proof -
  note r = like_example_ready [OF example_ipc_like [of w T th]]
  show "ipc_inv {0x50} {0x70} (\<lambda>_. []) (example_ipc w T th)"
    using r(1) [of G_ipc_msg_cache] example_endpoint(1) by (simp add: ipc_inv_def slab_ready_def ep_rep_def sll_def insert_commute)
  show "\<not> in_irq (example_ipc w T th)" "free_pas (example_ipc w T th) \<noteq> {}" using r(3) by (simp_all add: in_irq_def)
  show "wf_msg example_msg" "km_len example_msg \<le> KS_IPC_MSG_MAX"
    by (simp_all add: wf_msg_def example_msg_def IPC_MSG_INLINE_MAX_def KS_IPC_MSG_MAX_def)
qed

section \<open>Properties\<close>

text \<open>
  C7: messages are delivered in order and intact. Over any run of sends, non-blocking receives and passes
  of blocking receives, by any threads that hold capabilities, interleaved with any scheduling, what was
  queued at an endpoint followed by the payloads accepted there equals the payloads received from it
  followed by what is still queued: nothing is lost, duplicated, reordered or altered.
\<close>

theorem ipc_delivers_in_order:
  assumes "ipc_inv CS E Q s" and "e \<in> E" and "ipc_trace CS E e s ins outs s'"
  shows "\<exists>Q'. ipc_inv CS E Q' s' \<and> inbox Q e s @ ins = outs @ inbox Q' e s'"
  using ipc_trace_order assms by blast

lemma try_recv_returns:
  assumes i: "ipc_inv CS E Q s" and irq: "\<not> in_irq s" and e: "endpoint_from_handle cps h CAP_R_RECV s = (e, KS_IPC_OK)" "e \<in> E"
    and q: "Q e \<noteq> []" and w: "wf_msg buf"
  shows "\<exists>ob s'. ipc_try_recv_cap cps h (Some buf) s = Ret ((KS_IPC_OK, Some ob), s')"
proof -
  obtain m xs where Q: "Q e = m # xs" using q by (cases "Q e") auto
  have "e \<noteq> NULL" using ipc_invD(4) [OF i] e(2) by blast
  moreover obtain s1 s3 where "q_pop_head e (snd (irq_save s)) = (m, s1)" "m \<noteq> NULL" "ipc_msg_free m (irq_restore (daif s) s1) = Ret s3"
    using take_msg [OF i irq e(2) Q w] by blast
  ultimately show ?thesis using irq e(1) by (simp add: ipc_try_recv_cap_def irq_save_def Let_def)
qed

theorem ipc_delivers_in_order_witness:
  "\<exists>s1 s2 ob. ipc_send_cap 0x50 example_handle (Some example_msg) (example_ipc NULL (\<lambda>_. NULL) (\<lambda>_. thread_zero)) = Ret (KS_IPC_OK, s1) \<and>
     ipc_try_recv_cap 0x50 example_handle (Some example_msg) s1 = Ret ((KS_IPC_OK, Some ob), s2) \<and> payload ob = (7, [9, 9])"
proof -
  let ?s = "example_ipc NULL (\<lambda>_. NULL) (\<lambda>_. thread_zero)" and ?h = example_handle and ?m = example_msg
  note f = example_ipc_facts and h = example_endpoint(2)
  have e: "fst (endpoint_from_handle 0x50 ?h CAP_R_SEND ?s) = 0x70" "(0x70 :: ptr) \<noteq> NULL" "\<not> ep_closed (endpoint_at ?s 0x70)"
    using h by simp_all
  have c: "(0x50 :: ptr) \<in> {0x50}" by simp
  obtain s1 where s1: "ipc_send_cap 0x50 ?h (Some ?m) ?s = Ret (KS_IPC_OK, s1)" "\<not> in_irq s1"
    "endpoint_from_handle 0x50 ?h CAP_R_RECV s1 = (0x70, KS_IPC_OK)"
  proof -
    obtain m s4 where s4: "ipc_send_cap 0x50 ?h (Some ?m) ?s = Ret (KS_IPC_OK, irq_restore (daif ?s) s4)" "in_irq s4 = in_irq ?s"
      "\<forall>c h r. endpoint_from_handle c h r s4 = endpoint_from_handle c h r ?s"
      using send_run [OF f(1,2) c f(4,5) e] f(3) by auto
    moreover have "endpoint_from_handle 0x50 ?h CAP_R_RECV (irq_restore (daif ?s) s4) = (0x70, KS_IPC_OK)"
      using s4(3) h [of CAP_R_RECV NULL "\<lambda>_. NULL" "\<lambda>_. thread_zero"] endpoint_from_handle_cong [of "irq_restore (daif ?s) s4" s4]
      by (simp add: irq_restore_def)
    ultimately show ?thesis using f(2) that by (simp add: in_irq_def irq_restore_def)
  qed
  from send_effect [OF f(1) c f(4) s1(1)] obtain Q where q: "ipc_inv {0x50} {0x70} Q s1" "inbox Q 0x70 s1 = [payload ?m]"
    using h by (auto simp: inbox_def)
  then have "Q 0x70 \<noteq> []" by (auto simp: inbox_def)
  from try_recv_returns [OF q(1) s1(2,3) _ this f(4)] obtain ob s2 where
    s2: "ipc_try_recv_cap 0x50 ?h (Some ?m) s1 = Ret ((KS_IPC_OK, Some ob), s2)" by auto
  have "ipc_trace {0x50} {0x70} 0x70 ?s [payload ?m] [payload ob] s2"
    using it_send [OF c f(4) s1(1) it_try [OF c f(4) s2 it_done], where e = "0x70" and E = "{0x70}"] h s1(3) by simp
  from ipc_delivers_in_order [OF f(1) _ this] have "payload ob = payload ?m" by (auto simp: inbox_def)
  moreover have "replicate 2 (9 :: u8) = [9, 9]" by (simp add: numeral_2_eq_2)
  then have "payload ?m = (7, [9, 9])" by (simp add: payload_def example_msg_def)
  ultimately show ?thesis using s1(1) s2 by auto
qed

text \<open>
  C8: a send to an endpoint with a blocked receiver succeeds (as long as memory is left), queues the
  message last and makes the receiver ready, at the end of the queue of its intent; the endpoint has no
  waiting receiver afterwards.
\<close>

theorem ipc_send_wakes_receiver:
  assumes i: "ipc_inv CS E Q s" and si: "sched_inv TH SQ s" and irq: "\<not> in_irq s" and c: "cps \<in> CS"
    and km: "wf_msg km" "km_len km \<le> KS_IPC_MSG_MAX" and mem: "free_pas s \<noteq> {}"
    and e: "endpoint_from_handle cps h CAP_R_SEND s = (e, KS_IPC_OK)" "e \<in> E" "\<not> ep_closed (endpoint_at s e)"
    and t: "waiting_recv (endpoint_at s e) = t" "t \<in> TH" "th_state (thread_at s t) = THREAD_BLOCKED"
  shows "\<exists>Q' s'. ipc_send_cap cps h (Some km) s = Ret (KS_IPC_OK, s') \<and> ipc_inv CS E Q' s' \<and>
    inbox Q' e s' = inbox Q e s @ [payload km] \<and> waiting_recv (endpoint_at s' e) = NULL \<and>
    th_state (thread_at s' t) = THREAD_READY \<and>
    sched_inv TH (SQ(thread_intent (thread_at s t) := SQ (thread_intent (thread_at s t)) @ [t])) s'"
proof -
  have en: "e \<noteq> NULL" using ipc_invD(4) [OF i] e(2) by blast
  have tn: "t \<noteq> NULL" using base_invD(7) [OF sched_inv_current(1) [OF si] t(2)] .
  have f: "fst (endpoint_from_handle cps h CAP_R_SEND s) = e" using e(1) by simp
  obtain m s4 where run: "ipc_send_cap cps h (Some km) s =
        obind (sched_wake t (ep_update e (\<lambda>p. p\<lparr>waiting_recv := NULL\<rparr>) s4)) (\<lambda>s5. Ret (KS_IPC_OK, irq_restore (daif s) s5))"
      and b: "in_irq s4 = in_irq s" "\<forall>TH SQ. sched_inv TH SQ s4 = sched_inv TH SQ s" "thread_at s4 = thread_at s"
    using send_run [OF i irq c km f en e(3)] mem t(1) tn by auto
  let ?s4 = "ep_update e (\<lambda>p. p\<lparr>waiting_recv := NULL\<rparr>) s4"
  have s4: "sched_inv TH SQ ?s4" using b(2) si sched_inv_cong(1) [of ?s4 s4] by simp
  have irq4: "\<not> in_irq ?s4" using b(1) irq by (simp add: in_irq_def)
  have bl: "th_state (thread_at ?s4 t) = THREAD_BLOCKED" using b(3) t(3) by simp
  from sched_wake_spec(1) [OF s4 irq4 t(2) bl] obtain nx T where
    w: "sched_wake t ?s4 = Ret (relink (thread_update t (\<lambda>th. th\<lparr>th_state := THREAD_READY\<rparr>) ?s4) nx T)"
    and i5: "sched_inv TH (SQ(thread_intent (thread_at s t) := SQ (thread_intent (thread_at s t)) @ [t]))
      (relink (thread_update t (\<lambda>th. th\<lparr>th_state := THREAD_READY\<rparr>) ?s4) nx T)" (is "sched_inv _ _ ?s5")
    using b(3) by auto
  let ?s' = "irq_restore (daif s) ?s5"
  have r: "ipc_send_cap cps h (Some km) s = Ret (KS_IPC_OK, ?s')" unfolding run w by simp
  from send_effect [OF i c km(1) r] obtain Q' where "ipc_inv CS E Q' ?s'" "inbox Q' e ?s' = inbox Q e s @ [payload km]"
    using f e(2) by auto
  moreover have "waiting_recv (endpoint_at ?s' e) = NULL" "th_state (thread_at ?s' t) = THREAD_READY"
    by (simp_all add: irq_restore_def relink_def)
  moreover have "sched_inv TH (SQ(thread_intent (thread_at s t) := SQ (thread_intent (thread_at s t)) @ [t])) ?s'"
    using i5 by (simp add: irq_restore_def)
  ultimately show ?thesis using r by blast
qed


definition example_threads :: "thread_state \<Rightarrow> ptr \<Rightarrow> ptr \<Rightarrow> thread" where
  "example_threads st nx p =
     (if p = 0x1000 then (example_thread 0x40000 SCHED_INTENT_INTERACTIVE)\<lparr>th_state := st, rq_next := nx\<rparr>
      else if p = 0x2000 then (example_thread 0x80000 SCHED_INTENT_BACKGROUND)\<lparr>rq_next := 0x2000\<rparr>
      else thread_zero)"

abbreviation ipc_blocked :: ipc_globals where
  "ipc_blocked \<equiv> example_ipc 0x1000 ((\<lambda>_. NULL)(SCHED_INTENT_BACKGROUND := 0x2000)) (example_threads THREAD_BLOCKED NULL)"

lemma example_threads_sel [simp]:
  "th_state (example_threads st nx 0x1000) = st" "th_state (example_threads st nx 0x2000) = THREAD_READY"
  "thread_intent (example_threads st nx 0x1000) = SCHED_INTENT_INTERACTIVE"
  "thread_intent (example_threads st nx 0x2000) = SCHED_INTENT_BACKGROUND"
  "rq_next (example_threads st nx p) = (if p = 0x1000 then nx else if p = 0x2000 then 0x2000 else NULL)"
  "stack_ok (example_threads st nx 0x1000)" "stack_ok (example_threads st nx 0x2000)"
  using example_thread_intent example_thread_ok
  by (simp_all add: example_threads_def thread_intent_def stack_ok_def thread_zero_def)

lemma example_boot_cpu: "sp (cpu example_boot) AND 0xF = 0"
  using example_boot_facts(1) base_invD(12) sched_inv_current(1) by blast

lemma ipc_blocked_inv: "sched_inv {0x1000, 0x2000} ((\<lambda>_. [])(SCHED_INTENT_BACKGROUND := [0x2000])) ipc_blocked"
  using example_boot_cpu
  by (auto simp: sched_inv_def base_inv_def rqs_def ring_def in_rq_def nexts_def)

theorem ipc_send_wakes_receiver_witness:
  "\<exists>s'. ipc_send_cap 0x50 example_handle (Some example_msg) ipc_blocked = Ret (KS_IPC_OK, s') \<and>
     th_state (thread_at ipc_blocked 0x1000) = THREAD_BLOCKED \<and> th_state (thread_at s' 0x1000) = THREAD_READY"
proof -
  note f = example_ipc_facts(1-3) [of "0x1000" "(\<lambda>_. NULL)(SCHED_INTENT_BACKGROUND := 0x2000)" "example_threads THREAD_BLOCKED NULL"]
  from ipc_send_wakes_receiver [OF f(1) ipc_blocked_inv f(2) _ example_ipc_facts(4,5) f(3) example_endpoint(2)] show ?thesis by auto
qed

text \<open>
  C9: the rights of a handle are enforced. With a live endpoint capability that lacks the send right a
  send is refused with \<open>KS_IPC_ERR_RIGHTS\<close> and changes nothing; without the receive right neither form
  of receive gets a message, and both leave the kernel as it was.
\<close>

theorem ipc_rights_enforced:
  assumes "\<not> in_irq s" and "cps \<noteq> NULL" and "km_len km \<le> KS_IPC_MSG_MAX" and "cap_lookup_ex cps h 0 s = (ent, CAP_OK)"
  shows "(\<not> cap_rights_has (ce_rights (cap_entry_at s ent)) CAP_R_SEND \<longrightarrow>
      ipc_send_cap cps h (Some km) s = Ret (KS_IPC_ERR_RIGHTS, s)) \<and>
    (\<not> cap_rights_has (ce_rights (cap_entry_at s ent)) CAP_R_RECV \<longrightarrow>
      ipc_try_recv_cap cps h (Some buf) s = Ret ((KS_IPC_ERR_RIGHTS, Some buf), s) \<and>
      ipc_recv_cap cps h (Some buf) s = Ret (Inl KS_IPC_ERR_RIGHTS, s))"
proof -
  have "cap_table_lookup cps h r s = NULL" if "\<not> cap_rights_has (ce_rights (cap_entry_at s ent)) r" for r
    using assms(4) that
    by (auto simp: cap_table_lookup_def cap_lookup_def cap_lookup_ex_def cap_rights_has_def Let_def split: if_splits)
  then have "endpoint_from_handle cps h r s = (NULL, KS_IPC_ERR_RIGHTS)"
    if "\<not> cap_rights_has (ce_rights (cap_entry_at s ent)) r" for r
    using that assms(2) by (simp add: endpoint_from_handle_def)
  then show ?thesis
    using assms(1,3) by (intro conjI impI) (simp_all add: ipc_send_cap_def ipc_try_recv_cap_def ipc_recv_cap_def)
qed

theorem ipc_rights_enforced_witness:
  "let s = ipc_blocked\<lparr>cap_entry_at := (\<lambda>_. \<lparr>ce_type = CAP_TYPE_ENDPOINT, ce_rights = CAP_R_RECV, ce_obj = 0x70, ce_gen = 1,
      ce_flags = CAP_ENTRY_FLAG_VALID\<rparr>)\<rparr> in
   ipc_send_cap 0x50 example_handle (Some example_msg) s = Ret (KS_IPC_ERR_RIGHTS, s)"
proof -
  let ?s = "ipc_blocked\<lparr>cap_entry_at := (\<lambda>_. \<lparr>ce_type = CAP_TYPE_ENDPOINT, ce_rights = CAP_R_RECV, ce_obj = 0x70, ce_gen = 1,
      ce_flags = CAP_ENTRY_FLAG_VALID\<rparr>)\<rparr>"
  have n: "\<not> in_irq ?s" "(0x50 :: ptr) \<noteq> NULL" by (simp_all add: in_irq_def)
  have l: "cap_lookup_ex 0x50 example_handle 0 ?s = (0x60, CAP_OK)"
    by (simp add: cap_lookup_ex_def example_handle_def Let_def cap_slot_valid_index_def CONFIG_CAP_TABLE_SLOTS_def CAP_ENTRY_FLAG_VALID_def)
      (simp add: example_ipc_def sched_globals.defs work_globals.defs)
  have "\<not> cap_rights_has (ce_rights (cap_entry_at ?s 0x60)) CAP_R_SEND"
    by (simp add: cap_rights_has_def CAP_R_RECV_def CAP_R_SEND_def)
  from ipc_rights_enforced [OF n example_ipc_facts(5) l] this show ?thesis by (simp add: Let_def)
qed


text \<open>
  The timer interrupt, as the vectors handle it (\<open>kernel_vectors.S\<close>): it is taken only while the I bit is
  clear, the handler runs with the bit set, and \<open>sched_irq_exit\<close> chooses the frame that is restored.
  \<open>None\<close>: the interrupt stays pending. The exception return itself is a \<open>Cpu\<close> step of the scheduler model.
\<close>

definition timer_interrupt :: "ptr \<Rightarrow> 'a sched_globals_scheme \<Rightarrow> (ptr \<times> 'a sched_globals_scheme) outcome option" where
  "timer_interrupt tf s =
     (if irq_irqs_disabled s then None
      else Some (sched_irq_exit tf (sched_on_timer_tick (s\<lparr>daif := daif s OR DAIF_I_BIT\<rparr>))))"

lemma tick_sel:
  "s_current (sched_on_timer_tick s) = s_current s" "bootstrap_thread (sched_on_timer_tick s) = bootstrap_thread s"
  "daif (sched_on_timer_tick s) = daif s" "th_state (thread_at (sched_on_timer_tick s) p) = th_state (thread_at s p)"
  "kstack_base (thread_at (sched_on_timer_tick s) p) = kstack_base (thread_at s p)"
  "kstack_top (thread_at (sched_on_timer_tick s) p) = kstack_top (thread_at s p)"
  "kstack_size (thread_at (sched_on_timer_tick s) p) = kstack_size (thread_at s p)"
  "th_ctx (thread_at (sched_on_timer_tick s) p) = th_ctx (thread_at s p)"
  by (simp_all add: sched_on_timer_tick_def sched_charge_task_def preempt_set_need_resched_def Let_def)

lemma sched_frame_masked: "sched_frame s (s\<lparr>daif := daif s OR DAIF_I_BIT\<rparr>)"
  using sched_frame_irq(2) [of s s] by (simp add: irq_save_def)

lemma timer_interrupt_frame: "timer_interrupt tf s = Some (Ret (tf', s')) \<Longrightarrow> sched_frame s s'"
proof -
  assume "timer_interrupt tf s = Some (Ret (tf', s'))"
  then have "sched_irq_exit tf (sched_on_timer_tick (s\<lparr>daif := daif s OR DAIF_I_BIT\<rparr>)) = Ret (tf', s')"
    by (simp add: timer_interrupt_def split: if_splits)
  moreover have "sched_frame s (sched_on_timer_tick (s\<lparr>daif := daif s OR DAIF_I_BIT\<rparr>))"
    using sched_frame_trans [OF sched_frame_masked] on_RetD [OF sched_frame_exec [of "s\<lparr>daif := daif s OR DAIF_I_BIT\<rparr>" Timer_tick]] by simp
  ultimately show "sched_frame s s'" using sched_frame_trans on_RetD [OF sched_frame_irq_exit] by fastforce
qed

lemma timer_interrupt_spec:
  assumes i: "sched_inv TH Q s" and m: "\<not> irq_irqs_disabled s" and tf: "frame_ok tf s"
    and r: "s_current s \<noteq> bootstrap_thread s" "th_state (thread_at s (s_current s)) = THREAD_RUNNING"
  shows "\<exists>tf' s'. timer_interrupt tf s = Some (Ret (tf', s')) \<and> (\<exists>Q'. sched_inv TH Q' s') \<and> sched_frame s s' \<and>
    (s_current s' \<noteq> s_current s \<longrightarrow> th_state (thread_at s' (s_current s)) = THREAD_READY)"
proof -
  let ?v = "sched_on_timer_tick (s\<lparr>daif := daif s OR DAIF_I_BIT\<rparr>)"
  have iv: "sched_inv TH Q ?v" using i by (intro sched_on_timer_tick_inv) simp
  have mv: "irq_irqs_disabled ?v" by (rule irqs_disabled_or [of _ "daif s"]) (simp add: tick_sel)
  have tv: "frame_ok tf ?v" using tf by (simp add: frame_ok_def stack_ok_def tick_sel)
  have e: "timer_interrupt tf s = Some (sched_irq_exit tf ?v)" using m by (simp add: timer_interrupt_def)
  have rv: "s_current ?v \<noteq> bootstrap_thread ?v" "th_state (thread_at ?v (s_current ?v)) = THREAD_RUNNING" "s_current ?v = s_current s"
    using r by (simp_all add: tick_sel)
  have "\<exists>tf' s'. sched_irq_exit tf ?v = Ret (tf', s') \<and> (\<exists>Q'. sched_inv TH Q' s') \<and>
      (s_current s' \<noteq> s_current ?v \<longrightarrow> th_state (thread_at s' (s_current ?v)) = THREAD_READY)"
  proof (cases "need_resched ?v = 0 \<or> preempt_count ?v \<noteq> 0")
    case True
    from sched_irq_exit_stays [OF iv mv tv this] show ?thesis by auto
  next
    case False
    obtain nxt Q' c' where "dispatch (requeue ?v Q) (s_pick_cursor ?v) (s_current ?v) = (nxt, Q', c')" by (metis prod_cases3)
    from sched_irq_exit_spec [OF iv mv tv _ _ this] False rv(1,2) show ?thesis by blast
  qed
  then obtain tf' s' where x: "sched_irq_exit tf ?v = Ret (tf', s')" "\<exists>Q'. sched_inv TH Q' s'"
    "s_current s' \<noteq> s_current s \<longrightarrow> th_state (thread_at s' (s_current s)) = THREAD_READY" unfolding rv(3) by blast
  moreover have "sched_frame s s'" by (rule timer_interrupt_frame [of tf _ tf']) (simp add: e x(1))
  ultimately show ?thesis using e by auto
qed

text \<open>A send to an endpoint whose registered receiver is ready: the message is queued and nobody is woken.\<close>

lemma send_ready_receiver:
  assumes i: "ipc_inv CS E Q s" and si: "sched_inv TH SQ s" and c: "cps \<in> CS" and km: "wf_msg km"
    and e: "endpoint_from_handle cps h CAP_R_SEND s = (e, KS_IPC_OK)" "e \<in> E"
    and t: "waiting_recv (endpoint_at s e) = t" "t \<in> TH" "th_state (thread_at s t) = THREAD_READY"
    and send: "ipc_send_cap cps h (Some km) s = Ret (KS_IPC_OK, s1)"
  shows "sched_inv TH SQ s1" and "waiting_recv (endpoint_at s1 e) = NULL"
    and "\<exists>Q'. ipc_inv CS E Q' s1 \<and> inbox Q' e s1 = inbox Q e s @ [payload km]"
proof -
  have irq: "\<not> in_irq s" using send by (simp add: ipc_send_cap_def)
  have en: "e \<noteq> NULL" using ipc_invD(4) [OF i] e(2) by blast
  have tn: "t \<noteq> NULL" using base_invD(7) [OF sched_inv_current(1) [OF si] t(2)] .
  have f: "fst (endpoint_from_handle cps h CAP_R_SEND s) = e" using e(1) by simp
  have ok: "km_len km \<le> KS_IPC_MSG_MAX" "\<not> ep_closed (endpoint_at s e)"
    using send irq e(1) en by (auto simp: ipc_send_cap_def not_le split: if_splits)
  obtain m s4 where r: "Ret (KS_IPC_OK, s1) = obind (sched_wake t (ep_update e (\<lambda>p. p\<lparr>waiting_recv := NULL\<rparr>) s4))
        (\<lambda>s5. Ret (KS_IPC_OK, irq_restore (daif s) s5))"
      and b: "in_irq s4 = in_irq s" "\<forall>TH SQ. sched_inv TH SQ s4 = sched_inv TH SQ s" "thread_at s4 = thread_at s"
    using send_run [OF i irq c km ok(1) f en ok(2)] send t(1) tn by auto
  let ?s4 = "ep_update e (\<lambda>p. p\<lparr>waiting_recv := NULL\<rparr>) s4"
  have s4: "sched_inv TH SQ ?s4" using b(2) si sched_inv_cong(1) [of ?s4 s4] by simp
  have irq4: "\<not> in_irq ?s4" using b(1) irq by (simp add: in_irq_def)
  have "sched_wake t ?s4 = Ret ?s4" using sched_wake_spec(2) [OF s4 irq4 t(2)] b(3) t(3) by simp
  then have s1: "s1 = irq_restore (daif s) ?s4" using r by simp
  show "sched_inv TH SQ s1" unfolding s1 using s4 by (simp add: irq_restore_def)
  show "waiting_recv (endpoint_at s1 e) = NULL" unfolding s1 by (simp add: irq_restore_def)
  show "\<exists>Q'. ipc_inv CS E Q' s1 \<and> inbox Q' e s1 = inbox Q e s @ [payload km]"
    using send_effect [OF i c km send] f e(2) by auto
qed

text \<open>Blocking while another thread is ready switches away and leaves the caller blocked.\<close>

lemma block_switches:
  assumes i: "sched_inv TH Q s" and n: "\<not> in_irq s" "s_current s \<noteq> bootstrap_thread s"
    and u: "u \<in> TH" "th_state (thread_at s u) = THREAD_READY"
  shows "\<exists>flags s'. sched_block_current s = Ret (Switched flags, s') \<and> th_state (thread_at s' (s_current s)) = THREAD_BLOCKED"
proof -
  note c = sched_inv_current [OF i]
  obtain nxt Q' c' where d: "dispatch Q (s_pick_cursor s) (s_current s) = (nxt, Q', c')" by (metis prod_cases3)
  have "in_rq Q u" using base_invD(11) [OF c(1) u] .
  then have "pick Q (s_pick_cursor s) \<noteq> None" using pick_None [OF base_invD(3) [OF c(1)], of Q] by (auto simp: in_rq_def)
  then obtain j c where p: "pick Q (s_pick_cursor s) = Some (j, c)" by auto
  have "nxt = hd (Q j)" using d p by (simp add: dispatch_def)
  moreover have "hd (Q j) \<in> set (Q j)" by (rule hd_in_set) (rule pick_Some(1) [OF base_invD(3) [OF sched_inv_current(1) [OF i]] p])
  ultimately have "nxt \<noteq> s_current s" using sched_inv_current(2) [OF i] by (auto simp: in_rq_def)
  then show ?thesis using sched_block_current_spec [OF i n d] by (auto simp: switch_post_def)
qed

lemma recv_registers:
  assumes i: "ipc_inv CS E Q s" and e: "e \<in> E" "Q e = []" "\<not> ep_closed (endpoint_at s e)" "waiting_recv (endpoint_at s e) = NULL"
    and c: "s_current s \<noteq> NULL"
  shows "recv_take e out s = Ret (Inr (), ep_update e (\<lambda>p. p\<lparr>waiting_recv := s_current s\<rparr>) s)"
proof -
  from ipc_inv_sched(1) [OF i sched_frame_masked] have "ep_rep e (s\<lparr>daif := daif s OR DAIF_I_BIT\<rparr>) []" using ipc_invD(6) e(1,2) by fastforce
  then have q: "q_pop_head e (s\<lparr>daif := daif s OR DAIF_I_BIT\<rparr>) = (NULL, s\<lparr>daif := daif s OR DAIF_I_BIT\<rparr>)" by (rule q_pop_head_Nil)
  have "irq_restore (daif s) (ep_update e (\<lambda>p. p\<lparr>waiting_recv := s_current s\<rparr>) (s\<lparr>daif := daif s OR DAIF_I_BIT\<rparr>)) =
      (ep_update e (\<lambda>p. p\<lparr>waiting_recv := s_current s\<rparr>) (s\<lparr>daif := daif s OR DAIF_I_BIT\<rparr>))\<lparr>daif := daif s\<rparr>"
    by (rule irq_restore_pair) simp
  then show ?thesis
    using q e(3,4) c unfolding recv_take_def irq_save_def by (simp add: Let_def sched_current_def)
qed

text \<open>
  C10: the lost wake-up. A thread that finds the queue empty registers itself with \<open>recv_take\<close>, which unmasks
  interrupts again before the thread blocks, so a timer interrupt is taken there and may switch to another
  thread; the receiver is then ready, not blocked. If a message is sent before it runs again, the send clears
  the registration and wakes nobody. When the receiver runs again, whatever the scheduler did in between, its
  next call is \<open>sched_block_current\<close>: it blocks although the message is queued, and no later send knows that it
  waits.
\<close>

theorem ipc_lost_wakeup:
  assumes i: "ipc_inv CS E Q s" and si: "sched_inv TH SQ s" and irq: "\<not> irq_irqs_disabled s" and tf: "frame_ok tf s"
    and t: "s_current s = t" "t \<noteq> bootstrap_thread s" "th_state (thread_at s t) = THREAD_RUNNING"
    and e: "e \<in> E" "Q e = []" "\<not> ep_closed (endpoint_at s e)" "waiting_recv (endpoint_at s e) = NULL"
    and h: "cps \<in> CS" "endpoint_from_handle cps h CAP_R_SEND s = (e, KS_IPC_OK)" and km: "wf_msg km"
  shows "\<exists>s1 tf' s2. recv_take e out s = Ret (Inr (), s1) \<and> waiting_recv (endpoint_at s1 e) = t \<and>
    timer_interrupt tf s1 = Some (Ret (tf', s2)) \<and>
    (s_current s2 \<noteq> t \<longrightarrow> th_state (thread_at s2 t) = THREAD_READY \<and> waiting_recv (endpoint_at s2 e) = t \<and>
      (\<forall>s3 s4 s5 u. sched_run TH s2 s3 \<and> th_state (thread_at s3 t) = THREAD_READY \<and>
         ipc_send_cap cps h (Some km) s3 = Ret (KS_IPC_OK, s4) \<and>
         sched_run TH s4 s5 \<and> s_current s5 = t \<and> \<not> in_irq s5 \<and> u \<in> TH \<and> th_state (thread_at s5 u) = THREAD_READY \<longrightarrow>
         (\<exists>flags s6. sched_block_current s5 = Ret (Switched flags, s6) \<and> th_state (thread_at s6 t) = THREAD_BLOCKED \<and>
            waiting_recv (endpoint_at s6 e) = NULL \<and> (\<exists>Q'. ipc_inv CS E Q' s6 \<and> inbox Q' e s6 = [payload km]))))"
proof -
  let ?s1 = "ep_update e (\<lambda>p. p\<lparr>waiting_recv := s_current s\<rparr>) s"
  have tn: "t \<in> TH" using sched_inv_current(4) [OF si] t(1,2) by simp
  have take: "recv_take e out s = Ret (Inr (), ?s1)" by (rule recv_registers [OF i e sched_inv_current(3) [OF si]])
  have i1: "ipc_inv CS E Q ?s1" by (rule ipc_inv_ep_update [OF i]) simp_all
  have si1: "sched_inv TH SQ ?s1" using si sched_inv_cong(1) [of ?s1 s] by simp
  have h1: "endpoint_from_handle cps h CAP_R_SEND ?s1 = (e, KS_IPC_OK)" using h(2) endpoint_from_handle_cong [of ?s1 s] by simp
  have m1: "\<not> irq_irqs_disabled ?s1" "frame_ok tf ?s1" using irq tf by (simp_all add: irq_irqs_disabled_def frame_ok_def)
  have r1: "s_current ?s1 \<noteq> bootstrap_thread ?s1" "th_state (thread_at ?s1 (s_current ?s1)) = THREAD_RUNNING" using t by simp_all
  obtain tf' s2 where x: "timer_interrupt tf ?s1 = Some (Ret (tf', s2))" "\<exists>SQ'. sched_inv TH SQ' s2" "sched_frame ?s1 s2"
    "s_current s2 \<noteq> t \<longrightarrow> th_state (thread_at s2 t) = THREAD_READY"
    using timer_interrupt_spec [OF si1 m1 r1] t(1) by auto
  have late: "\<exists>flags s6. sched_block_current s5 = Ret (Switched flags, s6) \<and> th_state (thread_at s6 t) = THREAD_BLOCKED \<and>
      waiting_recv (endpoint_at s6 e) = NULL \<and> (\<exists>Q'. ipc_inv CS E Q' s6 \<and> inbox Q' e s6 = [payload km])"
    if run: "sched_run TH s2 s3" "th_state (thread_at s3 t) = THREAD_READY" and send: "ipc_send_cap cps h (Some km) s3 = Ret (KS_IPC_OK, s4)"
      and run2: "sched_run TH s4 s5" "s_current s5 = t" "\<not> in_irq s5" and u: "u \<in> TH" "th_state (thread_at s5 u) = THREAD_READY" for s3 s4 s5 u
  proof -
    have f3: "sched_frame ?s1 s3" using sched_frame_trans [OF x(3) sched_run_frame(1) [OF run(1)]] .
    then have f3': "cap_entry_at s3 = cap_entry_at ?s1" "cap_table_at s3 = cap_table_at ?s1" "sched_globals.more s3 = sched_globals.more ?s1"
      by (simp_all add: sched_frame_def)
    obtain SQ3 where si3: "sched_inv TH SQ3 s3" using sched_run_frame(2) [OF run(1)] x(2) by blast
    note i3 = ipc_inv_sched(1) [OF i1 f3]
    have h3: "endpoint_from_handle cps h CAP_R_SEND s3 = (e, KS_IPC_OK)" using h1 endpoint_from_handle_cong [OF f3'(1,2)] by simp
    have w3: "waiting_recv (endpoint_at s3 e) = t" using ipc_more(2) [OF f3'(3)] t(1) by simp
    note sent = send_ready_receiver [OF i3 si3 h(1) km h3 e(1) w3 tn run(2) send]
    from sent(3) obtain Q' where q: "ipc_inv CS E Q' s4" "inbox Q' e s4 = [payload km]" using e(2) by (auto simp: inbox_def)
    obtain SQ5 where si5: "sched_inv TH SQ5 s5" using sched_run_frame(2) [OF run2(1) sent(1)] by blast
    have nb: "s_current s5 \<noteq> bootstrap_thread s5" using base_invD(8) [OF sched_inv_current(1) [OF si5]] tn run2(2) by auto
    obtain flags s6 where b: "sched_block_current s5 = Ret (Switched flags, s6)" "th_state (thread_at s6 t) = THREAD_BLOCKED"
      using block_switches [OF si5 run2(3) nb u] run2(2) by auto
    have fr: "sched_frame s4 s6"
      using sched_frame_trans [OF sched_run_frame(1) [OF run2(1)]] on_RetD [OF sched_frame_block b(1)] by simp
    have "endpoint_at s6 = endpoint_at s4" by (rule ipc_more) (use fr in \<open>simp add: sched_frame_def\<close>)
    then show ?thesis using b sent(2) ipc_inv_sched(1) [OF q(1) fr] inbox_sched [OF q(1) fr] q(2) by auto
  qed
  have "waiting_recv (endpoint_at s2 e) = t" using ipc_more(2) [of s2 ?s1] x(3) t(1) by (simp add: sched_frame_def)
  moreover have "waiting_recv (endpoint_at ?s1 e) = t" using t(1) by simp
  moreover have "\<forall>s3 s4 s5 u. sched_run TH s2 s3 \<and> th_state (thread_at s3 t) = THREAD_READY \<and>
         ipc_send_cap cps h (Some km) s3 = Ret (KS_IPC_OK, s4) \<and>
         sched_run TH s4 s5 \<and> s_current s5 = t \<and> \<not> in_irq s5 \<and> u \<in> TH \<and> th_state (thread_at s5 u) = THREAD_READY \<longrightarrow>
         (\<exists>flags s6. sched_block_current s5 = Ret (Switched flags, s6) \<and> th_state (thread_at s6 t) = THREAD_BLOCKED \<and>
            waiting_recv (endpoint_at s6 e) = NULL \<and> (\<exists>Q'. ipc_inv CS E Q' s6 \<and> inbox Q' e s6 = [payload km]))"
    by (intro allI impI, elim conjE) (rule late)
  ultimately show ?thesis using take x(1,4) by (rule_tac x = ?s1 in exI) blast
qed

text \<open>A yield does not change the interrupt depth.\<close>

lemma depth_insert: "s_irq_depth u = d \<Longrightarrow> on_Ret (\<lambda>v. s_irq_depth v = d) (rq_insert_tail_locked t u)"
  by (simp add: rq_insert_tail_locked_def Let_def on_Ret_validate)

lemma depth_next: "s_irq_depth (snd (sched_pick_next_locked u)) = s_irq_depth u"
  by (simp add: sched_pick_next_locked_def rq_pop_best_locked_def rq_pop_head_intent_locked_def sched_pick_intent_locked_def Let_def
      split: option.split list.split)

lemma depth_yield: "on_Ret (\<lambda>x. s_irq_depth (snd x) = s_irq_depth s) (yield s)"
proof -
  have k: "on_Ret (\<lambda>x. s_irq_depth (snd x) = s_irq_depth s) (case sched_pick_next_locked u of (next, s4) \<Rightarrow>
           if next = NULL then Ret (Returned, irq_restore flags s4)
           else if next = prev then Ret (Returned, irq_restore flags (sched_prepare_running_locked prev s4))
           else let s5 = (sched_prepare_running_locked next s4)\<lparr>s_current := next\<rparr>;
                    s6 = s5\<lparr>s_stats := (s_stats s5)\<lparr>context_switches := context_switches (s_stats s5) + 1\<rparr>\<rparr> in
             Ret (Switched flags, ctx_switch prev next s6))" if "s_irq_depth u = s_irq_depth s" for u flags "prev"
    using depth_next [of u] that by (simp add: Let_def case_prod_beta irq_restore_def ctx_switch_def)
  show ?thesis
    unfolding yield_def irq_save_def Let_def on_Ret_thread prod.case on_Ret_simps on_Ret_obind
    by (intro impI, rule on_Ret_mono [where P = "\<lambda>u. s_irq_depth u = s_irq_depth s", OF _ k [unfolded Let_def]])
      (simp add: preempt_clear_need_resched_def depth_insert)
qed

lemma send_ready_returns:
  assumes i: "ipc_inv CS E Q s" and si: "sched_inv TH SQ s" and c: "cps \<in> CS" and km: "wf_msg km" "km_len km \<le> KS_IPC_MSG_MAX"
    and e: "endpoint_from_handle cps h CAP_R_SEND s = (e, KS_IPC_OK)" "e \<in> E" "\<not> ep_closed (endpoint_at s e)"
    and t: "waiting_recv (endpoint_at s e) = t" "t \<in> TH" "th_state (thread_at s t) = THREAD_READY"
    and irq: "\<not> in_irq s" and mem: "free_pas s \<noteq> {}"
  shows "\<exists>s1. ipc_send_cap cps h (Some km) s = Ret (KS_IPC_OK, s1) \<and> thread_at s1 = thread_at s \<and> s_current s1 = s_current s \<and>
    bootstrap_thread s1 = bootstrap_thread s \<and> s_pick_cursor s1 = s_pick_cursor s \<and> \<not> in_irq s1"
proof -
  have en: "e \<noteq> NULL" using ipc_invD(4) [OF i] e(2) by blast
  have tn: "t \<noteq> NULL" using base_invD(7) [OF sched_inv_current(1) [OF si] t(2)] .
  have f: "fst (endpoint_from_handle cps h CAP_R_SEND s) = e" using e(1) by simp
  obtain s4 where r: "ipc_send_cap cps h (Some km) s = obind (sched_wake t (ep_update e (\<lambda>p. p\<lparr>waiting_recv := NULL\<rparr>) s4))
        (\<lambda>s5. Ret (KS_IPC_OK, irq_restore (daif s) s5))"
    and b: "in_irq s4 = in_irq s" "\<forall>TH SQ. sched_inv TH SQ s4 = sched_inv TH SQ s" "thread_at s4 = thread_at s"
      "s_current s4 = s_current s" "bootstrap_thread s4 = bootstrap_thread s" "s_pick_cursor s4 = s_pick_cursor s"
    using send_run [OF i irq c km f en e(3)] t(1) tn mem by auto
  let ?s4 = "ep_update e (\<lambda>p. p\<lparr>waiting_recv := NULL\<rparr>) s4"
  have s4: "sched_inv TH SQ ?s4" using b(2) si sched_inv_cong(1) [of ?s4 s4] by simp
  have irq4: "\<not> in_irq ?s4" using b(1) irq by (simp add: in_irq_def)
  have "sched_wake t ?s4 = Ret ?s4" using sched_wake_spec(2) [OF s4 irq4 t(2)] b(3) t(3) by simp
  then show ?thesis using r b irq4 by (simp add: irq_restore_def in_irq_def)
qed

abbreviation ipc_receiving :: ipc_globals where
  "ipc_receiving \<equiv> (example_ipc NULL ((\<lambda>_. NULL)(SCHED_INTENT_BACKGROUND := 0x2000)) (example_threads THREAD_RUNNING NULL))
     \<lparr>s_current := 0x1000, s_pick_cursor := 12, daif := 0, need_resched := 0, preempt_count := 0\<rparr>"

lemma ipc_receiving_facts:
  "sched_inv {0x1000, 0x2000} ((\<lambda>_. [])(SCHED_INTENT_BACKGROUND := [0x2000])) ipc_receiving"
  "ipc_inv {0x50} {0x70} (\<lambda>_. []) ipc_receiving" "endpoint_from_handle 0x50 example_handle CAP_R_SEND ipc_receiving = (0x70, KS_IPC_OK)"
  "free_pas ipc_receiving \<noteq> {}"
  "frame_ok 0x43000 ipc_receiving" "\<not> irq_irqs_disabled ipc_receiving"
proof -
  let ?e = "example_ipc NULL ((\<lambda>_. NULL)(SCHED_INTENT_BACKGROUND := 0x2000)) (example_threads THREAD_RUNNING NULL)"
  have f: "sched_frame ?e ipc_receiving" by simp
  show "sched_inv {0x1000, 0x2000} ((\<lambda>_. [])(SCHED_INTENT_BACKGROUND := [0x2000])) ipc_receiving"
    using example_boot_cpu by (auto simp: sched_inv_def base_inv_def rqs_def ring_def in_rq_def nexts_def)
  show "ipc_inv {0x50} {0x70} (\<lambda>_. []) ipc_receiving" by (rule ipc_inv_sched(1) [OF example_ipc_facts(1) f])
  show "endpoint_from_handle 0x50 example_handle CAP_R_SEND ipc_receiving = (0x70, KS_IPC_OK)"
    using example_endpoint(2) endpoint_from_handle_cong [of ipc_receiving ?e] by simp
  show "free_pas ipc_receiving \<noteq> {}" using example_ipc_facts(3) same_pmm_pages(3) [of ?e ipc_receiving] f by (simp add: sched_frame_def)
  show "frame_ok 0x43000 ipc_receiving"
    using example_thread_ok(1) [of SCHED_INTENT_INTERACTIVE] by (simp add: frame_ok_def example_threads_def stack_ok_def example_thread_def)
  show "\<not> irq_irqs_disabled ipc_receiving" by (simp add: irq_irqs_disabled_def)
qed

text \<open>The first timer tick in the example switches from the receiver to the background thread.\<close>

lemma ipc_receiving_switch:
  assumes s1: "s1 = ep_update 0x70 f ipc_receiving"
  shows "\<exists>tf' s2. timer_interrupt 0x43000 s1 = Some (Ret (tf', s2)) \<and> sched_inv {0x1000, 0x2000} ((\<lambda>_. [])(SCHED_INTENT_INTERACTIVE := [0x1000])) s2 \<and>
    s_current s2 = 0x2000 \<and> s_pick_cursor s2 = 0 \<and> th_state (thread_at s2 0x2000) = THREAD_RUNNING"
proof -
  let ?Q = "(\<lambda>_. [])(SCHED_INTENT_BACKGROUND := [0x2000]) :: sched_intent \<Rightarrow> ptr list"
  let ?v = "sched_on_timer_tick (s1\<lparr>daif := daif s1 OR DAIF_I_BIT\<rparr>)"
  have i1: "sched_inv {0x1000, 0x2000} ?Q s1" unfolding s1 using ipc_receiving_facts(1) sched_inv_cong(1) [of "ep_update 0x70 f ipc_receiving" ipc_receiving] by simp
  have iv: "sched_inv {0x1000, 0x2000} ?Q ?v" using i1 by (intro sched_on_timer_tick_inv) simp
  have mv: "irq_irqs_disabled ?v" by (rule irqs_disabled_or [of _ "daif s1"]) (simp add: tick_sel)
  have tv: "frame_ok 0x43000 ?v" using ipc_receiving_facts(5) by (simp add: s1 frame_ok_def stack_ok_def tick_sel)
  have go: "need_resched ?v \<noteq> 0" "preempt_count ?v = 0" "s_pick_cursor ?v = 12" "s_current ?v = 0x1000" "bootstrap_thread ?v = 0x500"
    "th_state (thread_at ?v 0x1000) = THREAD_RUNNING" "thread_intent (thread_at ?v 0x1000) = SCHED_INTENT_INTERACTIVE"
    using example_thread_intent [of _ SCHED_INTENT_INTERACTIVE]
    by (simp_all add: s1 sched_on_timer_tick_def sched_charge_task_def preempt_set_need_resched_def Let_def example_threads_def thread_intent_def)
      (simp_all add: example_thread_def)
  let ?R = "?Q(SCHED_INTENT_INTERACTIVE := [0x1000])"
  have rq: "requeue ?v ?Q = ?R" using go(4-7) by (simp add: requeue_def Let_def)
  have p: "pat (unat (12 :: u32)) = SCHED_INTENT_BACKGROUND" by code_simp
  then obtain c' where "pick ?R 12 = Some (SCHED_INTENT_BACKGROUND, c')" "unat c' = 0"
    using pick_nonempty [of 12 ?R] by auto
  then have "pick ?R 12 = Some (SCHED_INTENT_BACKGROUND, 0)" by (simp add: unat_eq_0)
  then have "dispatch (requeue ?v ?Q) (s_pick_cursor ?v) (s_current ?v) = (0x2000, (\<lambda>_. [])(SCHED_INTENT_INTERACTIVE := [0x1000]), 0)"
    unfolding rq go(3) by (auto simp: dispatch_def fun_eq_iff)
  from sched_irq_exit_spec [OF iv mv tv go(1,2) this] obtain s2 where
    "sched_irq_exit 0x43000 ?v = Ret (irq_sp (thread_at ?v 0x2000), s2)" "sched_inv {0x1000, 0x2000} ((\<lambda>_. [])(SCHED_INTENT_INTERACTIVE := [0x1000])) s2"
    "s_current s2 = 0x2000" "s_pick_cursor s2 = 0" "th_state (thread_at s2 0x2000) = THREAD_RUNNING" unfolding go(4) by auto
  moreover have "\<not> irq_irqs_disabled s1" using ipc_receiving_facts(6) by (simp add: s1 irq_irqs_disabled_def)
  ultimately show ?thesis by (auto simp: timer_interrupt_def)
qed

theorem ipc_lost_wakeup_witness:
  "\<exists>s1 tf s2 s3 s4 s5 flags s6. recv_take 0x70 example_msg ipc_receiving = Ret (Inr (), s1) \<and>
     timer_interrupt 0x43000 s1 = Some (Ret (tf, s2)) \<and> s_current s2 = 0x2000 \<and> sched_run {0x1000, 0x2000} s2 s3 \<and>
     ipc_send_cap 0x50 example_handle (Some example_msg) s3 = Ret (KS_IPC_OK, s4) \<and> sched_exec Yield s4 = Ret s5 \<and>
     sched_block_current s5 = Ret (Switched flags, s6) \<and> th_state (thread_at s6 0x1000) = THREAD_BLOCKED \<and>
     waiting_recv (endpoint_at s6 0x70) = NULL \<and> (\<exists>Q'. ipc_inv {0x50} {0x70} Q' s6 \<and> inbox Q' 0x70 s6 = [payload example_msg])"
proof -
  let ?TH = "{0x1000, 0x2000} :: ptr set" and ?h = example_handle and ?m = example_msg
  let ?I = "(\<lambda>_. [])(SCHED_INTENT_INTERACTIVE := [0x1000]) :: sched_intent \<Rightarrow> ptr list"
  note f = ipc_receiving_facts and g = example_ipc_facts(4,5)
  let ?s1 = "ep_update 0x70 (\<lambda>p. p\<lparr>waiting_recv := s_current ipc_receiving\<rparr>) ipc_receiving"
  have t: "s_current ipc_receiving = 0x1000" "(0x1000 :: ptr) \<noteq> bootstrap_thread ipc_receiving"
      "th_state (thread_at ipc_receiving 0x1000) = THREAD_RUNNING" by simp_all
  obtain tf s2 where sw: "timer_interrupt 0x43000 ?s1 = Some (Ret (tf, s2))" and i2: "sched_inv ?TH ?I s2" and c2: "s_current s2 = 0x2000" "s_pick_cursor s2 = 0"
    and r2: "th_state (thread_at s2 0x2000) = THREAD_RUNNING" using ipc_receiving_switch [OF refl] by blast
  have e: "(0x70 :: ptr) \<in> {0x70}" "(\<lambda>_ :: ptr. [] :: ptr list) 0x70 = []" "\<not> ep_closed (endpoint_at ipc_receiving 0x70)"
      "waiting_recv (endpoint_at ipc_receiving 0x70) = NULL" by simp_all
  have rt: "recv_take 0x70 ?m ipc_receiving = Ret (Inr (), ?s1)" by (rule recv_registers [OF f(2) e]) simp
  obtain s1' tf' s2' where th: "recv_take 0x70 ?m ipc_receiving = Ret (Inr (), s1')" "timer_interrupt 0x43000 s1' = Some (Ret (tf', s2'))"
    and lt: "s_current s2' \<noteq> 0x1000 \<longrightarrow> th_state (thread_at s2' 0x1000) = THREAD_READY \<and> waiting_recv (endpoint_at s2' 0x70) = 0x1000 \<and>
      (\<forall>s3 s4 s5 u. sched_run ?TH s2' s3 \<and> th_state (thread_at s3 0x1000) = THREAD_READY \<and>
         ipc_send_cap 0x50 ?h (Some ?m) s3 = Ret (KS_IPC_OK, s4) \<and>
         sched_run ?TH s4 s5 \<and> s_current s5 = 0x1000 \<and> \<not> in_irq s5 \<and> u \<in> ?TH \<and> th_state (thread_at s5 u) = THREAD_READY \<longrightarrow>
         (\<exists>flags s6. sched_block_current s5 = Ret (Switched flags, s6) \<and> th_state (thread_at s6 0x1000) = THREAD_BLOCKED \<and>
            waiting_recv (endpoint_at s6 0x70) = NULL \<and> (\<exists>Q'. ipc_inv {0x50} {0x70} Q' s6 \<and> inbox Q' 0x70 s6 = [payload ?m])))"
    using ipc_lost_wakeup [OF f(2,1,6,5) t e singletonI f(3) g(1)] by blast
  have "s1' = ?s1" using th(1) unfolding rt by (simp only: outcome.inject prod.inject)
  then have s2': "s2' = s2" using th(2) sw by (simp only: outcome.inject prod.inject option.inject)
  note lt = lt [unfolded s2', unfolded c2(1), simplified (no_asm)]
  define s3 where "s3 = s2\<lparr>cpu := cpu s2, daif := 0, s_irq_depth := 0, need_resched := 0, preempt_count := 0\<rparr>"
  note b2 = sched_inv_current(1) [OF i2]
  have run3: "sched_run ?TH s2 s3"
    by (rule run_call [OF run_done, where c = "Cpu (cpu s2) 0 0 0 0"]) (simp_all add: s3_def base_invD(12) [OF b2])
  have i1: "ipc_inv {0x50} {0x70} (\<lambda>_. []) ?s1" by (rule ipc_inv_ep_update [OF f(2)]) simp_all
  have fr: "sched_frame ?s1 s2" using timer_interrupt_frame [OF sw] .
  then have fr3: "sched_frame ?s1 s3" by (simp add: s3_def)
  then have eq3: "cap_entry_at s3 = cap_entry_at ipc_receiving" "cap_table_at s3 = cap_table_at ipc_receiving"
      "sched_globals.more s3 = sched_globals.more ?s1" "same_pmm ?s1 s3" by (simp_all add: sched_frame_def)
  have h3: "endpoint_from_handle 0x50 ?h CAP_R_SEND s3 = (0x70, KS_IPC_OK)" using f(3) endpoint_from_handle_cong [OF eq3(1,2)] by simp
  have e3: "\<not> ep_closed (endpoint_at s3 0x70)" "waiting_recv (endpoint_at s3 0x70) = 0x1000" using ipc_more(2) [OF eq3(3)] by simp_all
  have i3: "sched_inv ?TH ?I s3" unfolding s3_def using sched_exec_cpu [OF i2 base_invD(12) [OF b2]] by blast
  have m3: "free_pas s3 \<noteq> {}" using f(4) same_pmm_pages(3) [OF eq3(4)] same_pmm_pages(3) [of ipc_receiving ?s1] by (simp add: same_pmm_def)
  have th3: "th_state (thread_at s3 0x1000) = THREAD_READY" using base_invD(4) [OF sched_inv_current(1) [OF i3], of "0x1000" SCHED_INTENT_INTERACTIVE] by simp
  obtain s4 where s4: "ipc_send_cap 0x50 ?h (Some ?m) s3 = Ret (KS_IPC_OK, s4)" "thread_at s4 = thread_at s3" "s_current s4 = s_current s3"
      "bootstrap_thread s4 = bootstrap_thread s3" "s_pick_cursor s4 = s_pick_cursor s3" "\<not> in_irq s4"
    using send_ready_returns [OF ipc_inv_sched(1) [OF i1 fr3] i3 _ g h3 _ e3 _ th3 _ m3] by (auto simp: s3_def in_irq_def)
  have i4: "sched_inv ?TH ?I s4" using send_ready_receiver(1) [OF ipc_inv_sched(1) [OF i1 fr3] i3 _ g(1) h3 _ e3(2) _ th3 s4(1)] by simp
  have c4: "s_current s4 = 0x2000" "s_pick_cursor s4 = 0" "th_state (thread_at s4 0x2000) = THREAD_RUNNING" "bootstrap_thread s4 \<notin> ?TH"
    using s4(2-5) c2 r2 base_invD(8) [OF sched_inv_current(1) [OF i4]] by (simp_all add: s3_def)
  let ?i = "thread_intent (thread_at s4 0x2000)"
  let ?R = "?I(?i := ?I ?i @ [0x2000])"
  have rq: "requeue s4 ?I = ?R" using c4 by (auto simp: requeue_def Let_def)
  have pt: "pat (unat (0 :: u32)) = SCHED_INTENT_INTERACTIVE" by code_simp
  then have "?R (pat (unat (0 :: u32))) \<noteq> []" by simp
  then obtain c' where pk: "pick ?R 0 = Some (SCHED_INTENT_INTERACTIVE, c')" using pick_nonempty [of 0 ?R] unfolding pt by (metis unat_0 zero_less_numeral)
  have "dispatch (requeue s4 ?I) (s_pick_cursor s4) (s_current s4) = (0x1000, ?R(SCHED_INTENT_INTERACTIVE := tl (?R SCHED_INTENT_INTERACTIVE)), c')"
    unfolding rq c4(2) dispatch_def pk by simp
  from yield_spec [OF i4 s4(6) this] obtain y s5 where y: "yield s4 = Ret (y, s5)" "s_current s5 = 0x1000"
    and i5: "sched_inv ?TH (?R(SCHED_INTENT_INTERACTIVE := tl (?R SCHED_INTENT_INTERACTIVE))) s5" by (auto simp: switch_post_def)
  have irq5: "\<not> in_irq s5" using on_RetD [OF depth_yield y(1)] s4(6) by (simp add: in_irq_def)
  have u5: "th_state (thread_at s5 0x2000) = THREAD_READY"
    by (rule base_invD(4) [OF sched_inv_current(1) [OF i5], of _ ?i]) simp
  have run5: "sched_run ?TH s4 s5" by (rule run_call [OF run_done, where c = Yield]) (use s4(6) y(1) in simp_all)
  from lt run3 th3 s4(1) run5 y(2) irq5 u5 obtain flags s6 where
    "sched_block_current s5 = Ret (Switched flags, s6)" "th_state (thread_at s6 0x1000) = THREAD_BLOCKED"
    "waiting_recv (endpoint_at s6 0x70) = NULL" "\<exists>Q'. ipc_inv {0x50} {0x70} Q' s6 \<and> inbox Q' 0x70 s6 = [payload ?m]" by blast
  moreover have "sched_exec Yield s4 = Ret s5" using y(1) by simp
  ultimately show ?thesis using rt sw c2(1) run3 s4(1) by blast
qed
end
