(* ===== verification/Kheap.thy ===== *)
theory Kheap
  imports Ipc
begin

unbundle bit_operations_syntax

text \<open>
  The kernel heap (\<open>Kern/Kernel/kheap.c\<close>): eight buckets of power-of-two blocks carved out of page frames,
  and page-granular allocations behind a header for everything larger. A page header is kept per page
  address; \<open>bucket_index\<close> and \<open>block_size\<close> share their bytes with \<open>pages\<close>, and each is read only under
  the magic that goes with it.
  The poison bytes \<open>kfree\<close> stores into a small block beside its link are not modelled.
\<close>

section \<open>State\<close>

definition NUM_BUCKETS :: nat where
  "NUM_BUCKETS = 8"

definition g_bucket_sizes :: "u16 list" where
  "g_bucket_sizes = [16, 32, 64, 128, 256, 512, 1024, 2048]"

definition SLAB_MAGIC :: u32 where
  "SLAB_MAGIC = 0x534C4142"

definition BIG_MAGIC :: u32 where
  "BIG_MAGIC = 0x42494721"

definition KHEAP_POISON_BYTE :: u8 where
  "KHEAP_POISON_BYTE = 0xA5"

record kheap_hdr =
  hdr_magic :: u32
  bucket_index :: u16
  block_size :: u16
  hdr_pages :: u32

record kheap_stats =
  kh_cur_bytes :: u64
  kh_peak_bytes :: u64
  kh_kmalloc_calls :: u64
  kh_kfree_calls :: u64
  kh_big_alloc_calls :: u64
  kh_big_free_calls :: u64
  kh_fail_calls :: u64
  kh_bucket_refill_calls :: "u64 list"

record kheap_globals = ipc_globals +
  g_freelist :: "ptr list"
  free_next :: "ptr \<Rightarrow> ptr"
  kheap_hdr_at :: "ptr \<Rightarrow> kheap_hdr"
  g_kheap_cur_bytes :: u64
  g_kheap_peak_bytes :: u64
  g_kheap_small_allocs :: "u64 list"
  g_kheap_small_frees :: "u64 list"
  g_kheap_big_alloc_calls :: u64
  g_kheap_big_free_calls :: u64
  g_kheap_fail_calls :: u64
  g_kheap_kmalloc_calls :: u64
  g_kheap_kfree_calls :: u64
  g_kheap_bucket_refills :: "u64 list"

section \<open>Operations\<close>

definition kheap_account_alloc :: "u64 \<Rightarrow> 'a kheap_globals_scheme \<Rightarrow> 'a kheap_globals_scheme" where
  "kheap_account_alloc bytes s =
     (let s1 = s\<lparr>g_kheap_cur_bytes := g_kheap_cur_bytes s + bytes\<rparr> in
      if g_kheap_peak_bytes s1 < g_kheap_cur_bytes s1 then s1\<lparr>g_kheap_peak_bytes := g_kheap_cur_bytes s1\<rparr> else s1)"

definition kheap_account_free :: "u64 \<Rightarrow> 'a kheap_globals_scheme \<Rightarrow> 'a kheap_globals_scheme" where
  "kheap_account_free bytes s =
     (if bytes \<le> g_kheap_cur_bytes s then s\<lparr>g_kheap_cur_bytes := g_kheap_cur_bytes s - bytes\<rparr>
      else s\<lparr>g_kheap_cur_bytes := 0\<rparr>)"

text \<open>The index of the first bucket whose blocks are large enough; \<open>None\<close> is the result -1.\<close>

fun bucket_search :: "u64 \<Rightarrow> nat \<Rightarrow> u16 list \<Rightarrow> nat option" where
  "bucket_search sz i [] = None"
| "bucket_search sz i (b # bs) = (if sz \<le> ucast b then Some i else bucket_search sz (Suc i) bs)"

definition bucket_for_size :: "u64 \<Rightarrow> nat option" where
  "bucket_for_size sz = bucket_search sz 0 g_bucket_sizes"

text \<open>The loop that threads the blocks of a fresh page onto the free list (links and list head).\<close>

partial_function (option) refill_loop :: "u64 \<Rightarrow> u64 \<Rightarrow> u64 \<Rightarrow> (ptr \<Rightarrow> ptr) \<Rightarrow> ptr \<Rightarrow> ((ptr \<Rightarrow> ptr) \<times> ptr) option" where
  "refill_loop bs end p nx head =
     (if p + bs \<le> end then refill_loop bs end (p + bs) (nx(p := head)) p else Some (nx, head))"

definition sizeof_slab_page_hdr :: u64 where
  "sizeof_slab_page_hdr = 8"

definition sizeof_big_alloc_hdr :: u64 where
  "sizeof_big_alloc_hdr = 8"

definition refill_bucket :: "nat \<Rightarrow> 'a kheap_globals_scheme \<Rightarrow> 'a kheap_globals_scheme outcome" where
  "refill_bucket b s0 =
     (let s = (if b < NUM_BUCKETS
               then s0\<lparr>g_kheap_bucket_refills := (g_kheap_bucket_refills s0)[b := g_kheap_bucket_refills s0 ! b + 1]\<rparr> else s0) in
      obind (pmm_alloc_page_va s) (\<lambda>((page_va, _), s1).
        if page_va = NULL then Ret s1
        else let base = page_va;
                 s2 = s1\<lparr>kheap_hdr_at := (kheap_hdr_at s1)(base := (kheap_hdr_at s1 base)
                        \<lparr>hdr_magic := SLAB_MAGIC, bucket_index := of_nat b, block_size := g_bucket_sizes ! b\<rparr>)\<rparr>;
                 bs = ucast (block_size (kheap_hdr_at s2 base));
                 start = (base + sizeof_slab_page_hdr + (bs - 1)) AND NOT (bs - 1);
                 end = base + PAGE_SIZE in
          obind (of_loop (refill_loop bs end start (free_next s2) (g_freelist s2 ! b))) (\<lambda>(nx, head).
            Ret (s2\<lparr>free_next := nx, g_freelist := (g_freelist s2)[b := head]\<rparr>))))"

definition kheap_init :: "'a kheap_globals_scheme \<Rightarrow> 'a kheap_globals_scheme" where
  "kheap_init s = s\<lparr>g_freelist := replicate NUM_BUCKETS NULL\<rparr>"

text \<open>The result is the direct-mapped address and the physical address stored through \<open>out_pa\<close>.\<close>

definition kheap_alloc_pages ::
    "u32 \<Rightarrow> ptr \<Rightarrow> 'a kheap_globals_scheme \<Rightarrow> ((ptr \<times> u64 option) \<times> 'a kheap_globals_scheme) outcome" where
  "kheap_alloc_pages pages out_pa s =
     ASSERT_THREAD_CONTEXT s
      (if pages = 0 then Ret ((NULL, None), s)
       else obind (pmm_alloc_pages pages LOCAL s) (\<lambda>(r, s1).
         case r of
           None \<Rightarrow> Ret ((NULL, None), s1\<lparr>g_kheap_fail_calls := g_kheap_fail_calls s1 + 1\<rparr>)
         | Some pa \<Rightarrow> Ret ((pmm_phys_to_virt pa, if out_pa \<noteq> NULL then Some pa else None), s1)))"

text \<open>The loop \<open>for (i = i0; i < pages; i++)\<close> with \<open>n\<close> iterations left.\<close>

fun free_pages_loop :: "u64 \<Rightarrow> u32 \<Rightarrow> nat \<Rightarrow> 'a kheap_globals_scheme \<Rightarrow> 'a kheap_globals_scheme outcome" where
  "free_pages_loop pa0 i 0 s = Ret s"
| "free_pages_loop pa0 i (Suc n) s =
     obind (pmm_free_page (pa0 + ucast i * PAGE_SIZE) s) (\<lambda>s1. free_pages_loop pa0 (i + 1) n s1)"

definition kheap_free_pages :: "ptr \<Rightarrow> u32 \<Rightarrow> 'a kheap_globals_scheme \<Rightarrow> 'a kheap_globals_scheme outcome" where
  "kheap_free_pages va pages s =
     ASSERT_THREAD_CONTEXT s
      (if va = NULL \<or> pages = 0 then Ret s
       else let pa0 = align_down_4k (pmm_virt_to_phys va) in free_pages_loop pa0 0 (unat pages) s)"

definition kmalloc_small :: "nat \<Rightarrow> 'a kheap_globals_scheme \<Rightarrow> (ptr \<times> 'a kheap_globals_scheme) outcome" where
  "kmalloc_small b s =
     obind (if g_freelist s ! b = NULL then refill_bucket b s else Ret s) (\<lambda>s1.
       let n = g_freelist s1 ! b in
       if n = NULL then Ret (NULL, s1)
       else let s2 = s1\<lparr>g_freelist := (g_freelist s1)[b := free_next s1 n],
                        g_kheap_small_allocs := (g_kheap_small_allocs s1)[b := g_kheap_small_allocs s1 ! b + 1]\<rparr> in
         Ret (n, kheap_account_alloc (ucast (g_bucket_sizes ! b)) s2))"

definition kmalloc_big :: "u64 \<Rightarrow> 'a kheap_globals_scheme \<Rightarrow> (ptr \<times> 'a kheap_globals_scheme) outcome" where
  "kmalloc_big sz s =
     (let total = sz + sizeof_big_alloc_hdr;
          pages = ucast (align_up_4k total div PAGE_SIZE) in
      obind (kheap_alloc_pages pages LOCAL s) (\<lambda>((base_va, _), s1).
        if base_va = NULL then Ret (NULL, s1)
        else let s2 = s1\<lparr>kheap_hdr_at := (kheap_hdr_at s1)(base_va := (kheap_hdr_at s1 base_va)
                        \<lparr>hdr_magic := BIG_MAGIC, hdr_pages := pages\<rparr>),
                        g_kheap_big_alloc_calls := g_kheap_big_alloc_calls s1 + 1\<rparr> in
          Ret (base_va + sizeof_big_alloc_hdr, kheap_account_alloc (ucast pages * PAGE_SIZE) s2)))"

definition kmalloc :: "u64 \<Rightarrow> 'a kheap_globals_scheme \<Rightarrow> (ptr \<times> 'a kheap_globals_scheme) outcome" where
  "kmalloc sz s0 =
     ASSERT_THREAD_CONTEXT s0
      (let s = s0\<lparr>g_kheap_kmalloc_calls := g_kheap_kmalloc_calls s0 + 1\<rparr> in
       if sz = 0 then Ret (NULL, s)
       else case bucket_for_size sz of
         Some b \<Rightarrow> kmalloc_small b s
       | None \<Rightarrow> kmalloc_big sz s)"

text \<open>
  Freed memory is filled with the poison byte: the headers of the pages of a large allocation become four
  poison bytes each, so that a second free of it is ignored.
\<close>

definition poison_hdr :: kheap_hdr where
  "poison_hdr = \<lparr>hdr_magic = 0xA5A5A5A5, bucket_index = 0xA5A5, block_size = 0xA5A5, hdr_pages = 0xA5A5A5A5\<rparr>"

definition poison_pages :: "ptr \<Rightarrow> u32 \<Rightarrow> (ptr \<Rightarrow> kheap_hdr) \<Rightarrow> ptr \<Rightarrow> kheap_hdr" where
  "poison_pages page_va pages h p =
     (if p AND (PAGE_SIZE - 1) = 0 \<and> p - page_va < ucast pages * PAGE_SIZE then poison_hdr else h p)"

definition kfree :: "ptr \<Rightarrow> 'a kheap_globals_scheme \<Rightarrow> 'a kheap_globals_scheme outcome" where
  "kfree ptr s0 =
     ASSERT_THREAD_CONTEXT s0
      (let s = s0\<lparr>g_kheap_kfree_calls := g_kheap_kfree_calls s0 + 1\<rparr> in
       if ptr = NULL then Ret s
       else let page_va = align_down_4k ptr; hdr = kheap_hdr_at s page_va in
         if hdr_magic hdr = SLAB_MAGIC then
           let b = unat (bucket_index hdr) in
           if NUM_BUCKETS \<le> b then Ret s
           else let s1 = s\<lparr>free_next := (free_next s)(ptr := g_freelist s ! b), g_freelist := (g_freelist s)[b := ptr],
                           g_kheap_small_frees := (g_kheap_small_frees s)[b := g_kheap_small_frees s ! b + 1]\<rparr> in
             Ret (kheap_account_free (ucast (block_size hdr)) s1)
         else if hdr_magic hdr = BIG_MAGIC then
           let pages = hdr_pages hdr in
           if pages = 0 then Ret s
           else let s1 = s\<lparr>kheap_hdr_at := poison_pages page_va pages (kheap_hdr_at s),
                           g_kheap_big_free_calls := g_kheap_big_free_calls s + 1\<rparr> in
             kheap_free_pages page_va pages (kheap_account_free (ucast pages * PAGE_SIZE) s1)
         else Ret s)"

definition kheap_get_stats :: "'a kheap_globals_scheme \<Rightarrow> kheap_stats" where
  "kheap_get_stats s =
     \<lparr>kh_cur_bytes = g_kheap_cur_bytes s, kh_peak_bytes = g_kheap_peak_bytes s, kh_kmalloc_calls = g_kheap_kmalloc_calls s,
      kh_kfree_calls = g_kheap_kfree_calls s, kh_big_alloc_calls = g_kheap_big_alloc_calls s,
      kh_big_free_calls = g_kheap_big_free_calls s, kh_fail_calls = g_kheap_fail_calls s,
      kh_bucket_refill_calls = g_kheap_bucket_refills s\<rparr>"


section \<open>Geometry of the buckets\<close>

definition bsz :: "nat \<Rightarrow> nat" where
  "bsz b = 16 * 2 ^ b"

lemma less_8_cases: "b < (8 :: nat) \<Longrightarrow> b = 0 \<or> b = 1 \<or> b = 2 \<or> b = 3 \<or> b = 4 \<or> b = 5 \<or> b = 6 \<or> b = 7"
  by auto

lemma bucket_size: "b < 8 \<Longrightarrow> unat (g_bucket_sizes ! b) = bsz b"
  by (drule less_8_cases) (auto simp: g_bucket_sizes_def bsz_def)

lemma bsz_bounds: "b < 8 \<Longrightarrow> 16 \<le> bsz b \<and> bsz b \<le> 2048 \<and> 4096 mod bsz b = 0"
  by (drule less_8_cases) (auto simp: bsz_def)

lemma bucket_for_size_Some: "bucket_for_size sz = Some b \<Longrightarrow> b < 8 \<and> unat sz \<le> bsz b"
  by (auto simp: bucket_for_size_def g_bucket_sizes_def bsz_def word_le_nat_alt split: if_splits)

lemma bucket_for_size_None: "bucket_for_size sz = None \<Longrightarrow> 2048 < unat sz"
  by (auto simp: bucket_for_size_def g_bucket_sizes_def word_le_nat_alt split: if_splits)

text \<open>The blocks of a page of bucket \<open>b\<close>: the multiples of the block size but the first.\<close>

definition kblocks :: "nat \<Rightarrow> ptr \<Rightarrow> ptr list" where
  "kblocks b p = upslots (p + of_nat (bsz b)) (of_nat (bsz b)) (4096 div bsz b - 1)"

lemma unat_bsz: "b < 8 \<Longrightarrow> unat (of_nat (bsz b) :: u32) = bsz b" "b < 8 \<Longrightarrow> unat (of_nat (bsz b) :: u64) = bsz b"
  using bsz_bounds [of b] by (simp_all add: unat_of_nat)

lemma kblocks_iff:
  assumes "b < 8"
  shows "x \<in> set (kblocks b p) \<longleftrightarrow> (\<exists>k. 0 < k \<and> k < 4096 div bsz b \<and> x = p + of_nat (k * bsz b))"
proof -
  have "x \<in> set (kblocks b p) \<longleftrightarrow> (\<exists>k<4096 div bsz b - 1. x = p + of_nat (bsz b) + of_nat (k * bsz b))"
    by (auto simp: kblocks_def upslots_map unat_bsz [OF assms])
  also have "\<dots> \<longleftrightarrow> (\<exists>k. 0 < k \<and> k < 4096 div bsz b \<and> x = p + of_nat (k * bsz b))"
  proof
    assume "\<exists>k<4096 div bsz b - 1. x = p + of_nat (bsz b) + of_nat (k * bsz b)"
    then obtain k where "k < 4096 div bsz b - 1" "x = p + of_nat (Suc k * bsz b)" by (auto simp: algebra_simps)
    then show "\<exists>k. 0 < k \<and> k < 4096 div bsz b \<and> x = p + of_nat (k * bsz b)" by (intro exI [of _ "Suc k"]) simp
  next
    assume "\<exists>k. 0 < k \<and> k < 4096 div bsz b \<and> x = p + of_nat (k * bsz b)"
    then obtain k where "k < 4096 div bsz b - 1" "x = p + of_nat (Suc k * bsz b)" by (metis Suc_pred' less_diff_conv Suc_eq_plus1)
    then show "\<exists>k<4096 div bsz b - 1. x = p + of_nat (bsz b) + of_nat (k * bsz b)" by (auto simp: algebra_simps)
  qed
  finally show ?thesis .
qed

lemma kblock_range:
  assumes b: "b < 8" and p: "page_base p" and x: "x \<in> set (kblocks b p)"
  shows "unat p + bsz b \<le> unat x" and "unat x + bsz b \<le> unat p + 4096" and "bsz b dvd unat x - unat p"
proof -
  from x obtain k where k: "0 < k" "k < 4096 div bsz b" "x = p + of_nat (k * bsz b)" unfolding kblocks_iff [OF b] by blast
  have "Suc k * bsz b \<le> 4096 div bsz b * bsz b" using k(2) by (intro mult_le_mono1) simp
  also have "\<dots> \<le> 4096" by simp
  finally have le: "k * bsz b + bsz b \<le> 4096" by simp
  then have "unat x = unat p + k * bsz b"
    using p unfolding k(3) page_base_def by (subst unat_add_no_wrap) (simp_all add: unat_of_nat del: of_nat_mult)
  moreover have "bsz b \<le> k * bsz b" using k(1) by simp
  ultimately show "unat p + bsz b \<le> unat x" "unat x + bsz b \<le> unat p + 4096" "bsz b dvd unat x - unat p" using le by simp_all
qed

lemma in_page:
  assumes p: "page_base p" and x: "unat p \<le> unat x" "unat x < unat p + 4096"
  shows "align_down_4k x = p"
proof -
  obtain m where m: "unat p = 4096 * m" using p by (auto simp: page_base_def page_aligned_iff)
  then have "unat x div 4096 = m" using x by (intro div_nat_eqI) simp_all
  then show ?thesis using m by (simp add: word_unat_eq_iff unat_align_down_4k)
qed

lemma kblock_page:
  assumes "b < 8" and "page_base p" and "x \<in> set (kblocks b p)"
  shows "align_down_4k x = p" and "x \<noteq> NULL"
proof -
  note r = kblock_range [OF assms] and s = bsz_bounds [OF assms(1)]
  show "align_down_4k x = p" using r s by (intro in_page [OF assms(2)]) simp_all
  show "x \<noteq> NULL" using r s by auto
qed

lemma kblocks_distinct:
  assumes b: "b < 8" and p: "page_base p"
  shows "distinct (kblocks b p)"
proof -
  have "inj_on (\<lambda>k. p + of_nat (bsz b) + of_nat (k * bsz b)) {0..<4096 div bsz b - 1}"
  proof (rule inj_onI)
    fix i j assume ij: "i \<in> {0..<4096 div bsz b - 1}" "j \<in> {0..<4096 div bsz b - 1}"
      and e: "p + of_nat (bsz b) + of_nat (i * bsz b) = p + of_nat (bsz b) + of_nat (j * bsz b)"
    have u: "k * bsz b < 4096" if "k < 4096 div bsz b - 1" for k
    proof -
      have "k * bsz b \<le> (4096 div bsz b - 1) * bsz b" using that by (intro mult_le_mono1) simp
      also have "\<dots> < 4096" using bsz_bounds [OF b] div_times_less_eq_dividend [of 4096 "bsz b"]
        unfolding diff_mult_distrib by linarith
      finally show ?thesis .
    qed
    have "(of_nat (i * bsz b) :: u64) = of_nat (j * bsz b)" using e by (simp del: of_nat_mult)
    then have "unat (of_nat (i * bsz b) :: u64) = unat (of_nat (j * bsz b) :: u64)" by (rule arg_cong)
    then have "i * bsz b = j * bsz b" using u [of i] u [of j] ij by (simp add: unat_of_nat del: of_nat_mult)
    then show "i = j" using bsz_bounds [OF b] by simp
  qed
  then show ?thesis by (simp add: kblocks_def upslots_map distinct_map unat_bsz [OF b])
qed

lemma refill_start:
  assumes b: "b < 8" and p: "page_base p"
  defines "bs \<equiv> of_nat (bsz b) :: u64"
  shows "(p + sizeof_slab_page_hdr + (bs - 1)) AND NOT (bs - 1) = p + bs"
proof -
  have m: "bs - 1 = mask (4 + b)" by (simp add: bs_def bsz_def mask_eq_exp_minus_1 power_add)
  have ub: "unat bs = bsz b" by (simp add: bs_def unat_bsz [OF b])
  note s = bsz_bounds [OF b]
  have um: "unat (bs - 1) = bsz b - 1" using s ub by (simp add: unat_sub_no_wrap word_le_nat_alt)
  have u: "unat (p + sizeof_slab_page_hdr + (bs - 1)) = unat p + 8 + (bsz b - 1)"
  proof -
    have p8: "unat (p + sizeof_slab_page_hdr) = unat p + 8"
      using p by (subst unat_add_no_wrap) (simp_all add: page_base_def sizeof_slab_page_hdr_def)
    have "unat (p + sizeof_slab_page_hdr) + unat (bs - 1) < 2 ^ LENGTH(64)"
      unfolding p8 um using p s by (simp add: page_base_def)
    from unat_add_no_wrap [OF this] show ?thesis unfolding p8 um .
  qed
  have e: "2 ^ (4 + b) = bsz b" by (simp add: bsz_def power_add)
  obtain m' where m': "unat p = bsz b * m'" using p s
    by (auto simp: page_base_def page_aligned_iff mod_eq_0_iff_dvd dvd_def intro: that) (metis mult.assoc)
  have "unat ((p + sizeof_slab_page_hdr + (bs - 1)) AND NOT (bs - 1)) = (unat p + 8 + (bsz b - 1)) div bsz b * bsz b"
    by (simp only: m unat_and_not_mask e) (simp only: u [unfolded m])
  also have "\<dots> = unat p + bsz b"
  proof -
    have "(unat p + 8 + (bsz b - 1)) div bsz b = m' + 1"
      using s unfolding m' by (intro div_nat_eqI) (simp_all add: algebra_simps)
    then show ?thesis by (simp add: m' algebra_simps)
  qed
  also have "\<dots> = unat (p + bs)" using p s ub by (subst unat_add_no_wrap) (simp_all add: page_base_def)
  finally show ?thesis by (simp add: word_unat_eq_iff)
qed


lemma refill_loop_result:
  assumes "unat c + n * unat sz \<le> unat e" and "unat e < unat c + n * unat sz + unat sz" and "unat e + unat sz < 2 ^ 64"
    and "distinct (upslots c sz n)" "NULL \<notin> set (upslots c sz n)" "set hs \<inter> set (upslots c sz n) = {}" and "chain nx head hs"
  shows "\<exists>nx' head'. refill_loop (ucast sz) e c nx head = Some (nx', head') \<and>
    (\<forall>x. x \<notin> set (upslots c sz n) \<longrightarrow> nx' x = nx x) \<and> chain nx' head' (rev (upslots c sz n) @ hs)"
  using assms
proof (induction n arbitrary: c head nx hs)
  case 0
  then have "\<not> c + ucast sz \<le> e" by (simp add: word_le_nat_alt unat_add_no_wrap)
  then show ?case using 0 by (subst refill_loop.simps) simp
next
  case (Suc n)
  have up: "unat (c + ucast sz) = unat c + unat sz" using Suc.prems(1-3) by (subst unat_add_no_wrap) simp_all
  then have "c + ucast sz \<le> e" using Suc.prems(1) by (simp add: word_le_nat_alt)
  then have step: "refill_loop (ucast sz) e c nx head = refill_loop (ucast sz) e (c + ucast sz) (nx(c := head)) c"
    by (subst refill_loop.simps) simp
  have ch: "chain (nx(c := head)) c (c # hs)" using Suc.prems(5-7) by auto
  have pr: "unat (c + ucast sz) + n * unat sz \<le> unat e" "unat e < unat (c + ucast sz) + n * unat sz + unat sz"
    "distinct (upslots (c + ucast sz) sz n)" "NULL \<notin> set (upslots (c + ucast sz) sz n)" "set (c # hs) \<inter> set (upslots (c + ucast sz) sz n) = {}"
    using Suc.prems up by auto
  obtain nx' head' where "refill_loop (ucast sz) e (c + ucast sz) (nx(c := head)) c = Some (nx', head')"
    "\<forall>x. x \<notin> set (upslots (c + ucast sz) sz n) \<longrightarrow> nx' x = (nx(c := head)) x" "chain nx' head' (rev (upslots (c + ucast sz) sz n) @ c # hs)"
    using Suc.IH [OF pr(1,2) Suc.prems(3) pr(3-5) ch] by blast
  then show ?case using step by (intro exI [of _ nx'] exI [of _ head']) auto
qed

section \<open>Representation\<close>

text \<open>
  \<open>OW\<close> says what each page the heap holds is used for, \<open>BG\<close> the number of pages of each large
  allocation (by its first page), \<open>FL\<close> the free list of each bucket.
\<close>

datatype kpage = Small nat | Big ptr

definition slab_hdr :: "nat \<Rightarrow> kheap_hdr \<Rightarrow> bool" where
  "slab_hdr b h \<longleftrightarrow> hdr_magic h = SLAB_MAGIC \<and> bucket_index h = of_nat b \<and> block_size h = g_bucket_sizes ! b"

definition big_hdr :: "u32 \<Rightarrow> kheap_hdr \<Rightarrow> bool" where
  "big_hdr n h \<longleftrightarrow> hdr_magic h = BIG_MAGIC \<and> hdr_pages h = n"

definition bpage :: "ptr \<Rightarrow> nat \<Rightarrow> ptr" where
  "bpage q k = q + of_nat k * PAGE_SIZE"

definition small_at :: "(ptr \<Rightarrow> kpage option) \<Rightarrow> nat \<Rightarrow> ptr \<Rightarrow> bool" where
  "small_at OW b x \<longleftrightarrow> (\<exists>p. OW p = Some (Small b) \<and> x \<in> set (kblocks b p))"

definition kheap_rep ::
    "'a kheap_globals_scheme \<Rightarrow> (ptr \<Rightarrow> kpage option) \<Rightarrow> (ptr \<Rightarrow> u32 option) \<Rightarrow> (nat \<Rightarrow> ptr list) \<Rightarrow> bool" where
  "kheap_rep s OW BG FL \<longleftrightarrow>
     pmm_ok s \<and> length (g_freelist s) = 8 \<and>
     (\<forall>p\<in>dom OW. backed s p) \<and>
     (\<forall>p b. OW p = Some (Small b) \<longrightarrow> b < 8 \<and> slab_hdr b (kheap_hdr_at s p)) \<and>
     (\<forall>q n. BG q = Some n \<longrightarrow> n \<noteq> 0 \<and> big_hdr n (kheap_hdr_at s q) \<and> (\<forall>k<unat n. OW (bpage q k) = Some (Big q))) \<and>
     (\<forall>b<8. chain (free_next s) (g_freelist s ! b) (FL b) \<and> (\<forall>x\<in>set (FL b). small_at OW b x))"

text \<open>The blocks handed out: their address and the number of usable bytes.\<close>

definition kheap_live :: "(ptr \<Rightarrow> kpage option) \<Rightarrow> (ptr \<Rightarrow> u32 option) \<Rightarrow> (nat \<Rightarrow> ptr list) \<Rightarrow> (ptr \<times> nat) set" where
  "kheap_live OW BG FL =
     {(x, l). \<exists>b. small_at OW b x \<and> x \<notin> set (FL b) \<and> l = bsz b} \<union>
     {(x, l). \<exists>q n. BG q = Some n \<and> x = q + 8 \<and> l = unat n * 4096 - 8}"

definition kheap_inv :: "'a kheap_globals_scheme \<Rightarrow> (ptr \<times> nat) set \<Rightarrow> bool" where
  "kheap_inv s L \<longleftrightarrow> (\<exists>OW BG FL. kheap_rep s OW BG FL \<and> L = kheap_live OW BG FL)"

lemma kheap_repD:
  assumes "kheap_rep s OW BG FL"
  shows "pmm_ok s" and "length (g_freelist s) = 8" and "OW p = Some w \<Longrightarrow> backed s p" and "OW p = Some w \<Longrightarrow> page_base p"
    and "OW p = Some (Small b) \<Longrightarrow> b < 8" and "OW p = Some (Small b) \<Longrightarrow> slab_hdr b (kheap_hdr_at s p)"
    and "BG q = Some n \<Longrightarrow> n \<noteq> 0" and "BG q = Some n \<Longrightarrow> big_hdr n (kheap_hdr_at s q)"
    and "BG q = Some n \<Longrightarrow> k < unat n \<Longrightarrow> OW (bpage q k) = Some (Big q)"
    and "b < 8 \<Longrightarrow> chain (free_next s) (g_freelist s ! b) (FL b)"
    and "b < 8 \<Longrightarrow> x \<in> set (FL b) \<Longrightarrow> small_at OW b x"
    and "BG q = Some n \<Longrightarrow> OW q = Some (Big q)"
proof -
  show ok: "pmm_ok s" using assms by (simp add: kheap_rep_def)
  show bk: "OW p = Some w \<Longrightarrow> backed s p" using assms by (auto simp: kheap_rep_def)
  show "OW p = Some w \<Longrightarrow> page_base p" using backed_page_base [OF ok] bk by blast
  show nz: "BG q = Some n \<Longrightarrow> n \<noteq> 0" using assms by (auto simp: kheap_rep_def)
  show b: "BG q = Some n \<Longrightarrow> k < unat n \<Longrightarrow> OW (bpage q k) = Some (Big q)" for k using assms by (auto simp: kheap_rep_def)
  show "BG q = Some n \<Longrightarrow> OW q = Some (Big q)" using b [of 0] nz by (simp add: bpage_def unat_gt_0)
qed (use assms in \<open>auto simp: kheap_rep_def\<close>)


lemma kheap_more:
  fixes s s' :: "'a kheap_globals_scheme"
  assumes "pmm_globals.more s' = pmm_globals.more s"
  shows "g_freelist s' = g_freelist s" "free_next s' = free_next s" "kheap_hdr_at s' = kheap_hdr_at s"
  using assms by (cases s; cases s'; simp)+

lemma kheap_rep_cong:
  assumes "kheap_rep s OW BG FL" and "pmm_ok s'" and "\<And>p. backed s p \<Longrightarrow> backed s' p"
    and "g_freelist s' = g_freelist s" "free_next s' = free_next s" "kheap_hdr_at s' = kheap_hdr_at s"
  shows "kheap_rep s' OW BG FL"
  using assms unfolding kheap_rep_def by simp

lemma backed_cong: "g_pmm s' = g_pmm s \<Longrightarrow> backed s' p = backed s p"
  by (simp add: backed_def managed_pas_def free_pas_def)

lemma pmm_ok_cong:
  "g_pmm s' = g_pmm s \<Longrightarrow> g_pmm_low_free_pages s' = g_pmm_low_free_pages s \<Longrightarrow> g_pmm_peak_used_pages s' = g_pmm_peak_used_pages s \<Longrightarrow>
   pmm_ok s' = pmm_ok s"
  by (simp add: pmm_ok_def pressure_ok_def split: option.splits)

lemma kheap_upd_pmm [simp]:
  "backed (s\<lparr>g_freelist := a\<rparr>) p = backed s p" "backed (s\<lparr>free_next := b\<rparr>) p = backed s p" "backed (s\<lparr>kheap_hdr_at := c\<rparr>) p = backed s p"
  "pmm_ok (s\<lparr>g_freelist := a\<rparr>) = pmm_ok s" "pmm_ok (s\<lparr>free_next := b\<rparr>) = pmm_ok s" "pmm_ok (s\<lparr>kheap_hdr_at := c\<rparr>) = pmm_ok s"
  by (rule backed_cong pmm_ok_cong; simp)+

text \<open>Counters do not matter.\<close>

lemma kheap_rep_counters [simp]:
  "kheap_rep (s\<lparr>g_kheap_bucket_refills := a\<rparr>) = kheap_rep s" "kheap_rep (s\<lparr>g_pmm_alloc_calls := b\<rparr>) = kheap_rep s"
  "kheap_rep (s\<lparr>g_kheap_kmalloc_calls := b\<rparr>) = kheap_rep s" "kheap_rep (s\<lparr>g_kheap_kfree_calls := b\<rparr>) = kheap_rep s"
  "kheap_rep (s\<lparr>g_kheap_small_allocs := a\<rparr>) = kheap_rep s" "kheap_rep (s\<lparr>g_kheap_small_frees := a\<rparr>) = kheap_rep s"
  "kheap_rep (s\<lparr>g_kheap_cur_bytes := b\<rparr>) = kheap_rep s" "kheap_rep (s\<lparr>g_kheap_peak_bytes := b\<rparr>) = kheap_rep s"
  "kheap_rep (s\<lparr>g_kheap_fail_calls := b\<rparr>) = kheap_rep s" "kheap_rep (s\<lparr>g_kheap_big_alloc_calls := b\<rparr>) = kheap_rep s"
  "kheap_rep (s\<lparr>g_kheap_big_free_calls := b\<rparr>) = kheap_rep s"
  by (intro ext; simp add: kheap_rep_def backed_def managed_pas_def free_pas_def pmm_ok_def pressure_ok_def split: option.split)+

lemma kheap_account_rep [simp]:
  "kheap_rep (kheap_account_alloc n s) = kheap_rep s" "kheap_rep (kheap_account_free n s) = kheap_rep s"
  "s_irq_depth (kheap_account_alloc n s) = s_irq_depth s" "s_irq_depth (kheap_account_free n s) = s_irq_depth s"
  "kheap_hdr_at (kheap_account_free n s) = kheap_hdr_at s"
  by (simp_all add: kheap_account_alloc_def kheap_account_free_def Let_def)

lemma pmm_alloc_page_va_cases:
  assumes ok: "pmm_ok s" and irq: "\<not> in_irq s"
  shows "\<exists>va pa s1. pmm_alloc_page_va s = Ret ((va, pa), s1) \<and> pmm_ok s1 \<and> pmm_globals.more s1 = pmm_globals.more s \<and>
    s_irq_depth s1 = s_irq_depth s \<and> (\<forall>p. backed s p \<longrightarrow> backed s1 p) \<and> (va \<noteq> NULL \<longrightarrow> backed s1 va \<and> \<not> backed s va)"
proof -
  let ?s = "s\<lparr>g_pmm_alloc_calls := g_pmm_alloc_calls s + 1\<rparr>"
  have ok0: "pmm_ok ?s" using ok pmm_ok_cong [of ?s s] by simp
  have b0: "backed ?s p = backed s p" for p by (rule backed_cong) simp
  have irq0: "\<not> in_irq ?s" using irq by (simp add: in_irq_def)
  obtain r s1 where r: "pmm_alloc_pages 1 LOCAL ?s = Ret (r, s1)" using pmm_alloc_pages_returns [OF irq0] by blast
  note f = pmm_alloc_pages_frame [OF r]
  show ?thesis
  proof (cases r)
    case None
    note n = pmm_ok_alloc_None [OF ok0 r [unfolded None]]
    have "backed s p \<Longrightarrow> backed s1 p" for p using b0 n(2,3) by (simp add: backed_def)
    then show ?thesis using r None irq f n(1) by (simp add: pmm_alloc_page_va_def pmm_alloc_page_def Let_def)
  next
    case (Some pa)
    note n = pmm_one_backed [OF ok0 r [unfolded Some]]
    show ?thesis using r Some irq f n b0 by (simp add: pmm_alloc_page_va_def pmm_alloc_page_def Let_def)
  qed
qed

lemma bucket_size_word:
  assumes "b < 8"
  shows "ucast (g_bucket_sizes ! b) = (of_nat (bsz b) :: u64)" and "(of_nat (bsz b) :: u64) = ucast (of_nat (bsz b) :: u32)"
  using bucket_size [OF assms] unat_bsz [OF assms] bsz_bounds [OF assms]
  by (simp_all add: word_unat_eq_iff unsigned_ucast_eq take_bit_nat_eq_self)

text \<open>A block belongs to one bucket only, and a large allocation's address is not a block.\<close>

lemma small_page:
  assumes "kheap_rep s OW BG FL" and "small_at OW b x"
  shows "OW (align_down_4k x) = Some (Small b)" and "x \<in> set (kblocks b (align_down_4k x))" and "b < 8" and "x \<noteq> NULL"
proof -
  obtain p where p: "OW p = Some (Small b)" "x \<in> set (kblocks b p)" using assms(2) by (auto simp: small_at_def)
  show b: "b < 8" using kheap_repD(5) [OF assms(1) p(1)] .
  note k = kblock_page [OF b kheap_repD(4) [OF assms(1) p(1)] p(2)]
  show "OW (align_down_4k x) = Some (Small b)" "x \<in> set (kblocks b (align_down_4k x))" "x \<noteq> NULL" using k p by simp_all
qed

lemma small_unique:
  assumes "kheap_rep s OW BG FL" and "small_at OW b x" and "small_at OW c x"
  shows "c = b"
  using small_page(1) [OF assms(1,2)] small_page(1) [OF assms(1,3)] by simp

lemma big_addr:
  assumes "kheap_rep s OW BG FL" and "BG q = Some n"
  shows "align_down_4k (q + 8) = q" and "unat (q + 8) = unat q + 8" and "page_base q"
proof -
  show q: "page_base q" using kheap_repD(4,12) [OF assms(1)] assms(2) by blast
  show u: "unat (q + 8) = unat q + 8" using q by (subst unat_add_no_wrap) (simp_all add: page_base_def)
  show "align_down_4k (q + 8) = q" using u q by (intro in_page) simp_all
qed

lemma small_not_big:
  assumes "kheap_rep s OW BG FL" and "small_at OW b x" and "BG q = Some n"
  shows "x \<noteq> q + 8"
  using small_page(1) [OF assms(1,2)] big_addr(1) [OF assms(1,3)] kheap_repD(12) [OF assms(1,3)] by auto

lemma small_at_upd:
  assumes "OW p = None"
  shows "small_at (OW(p \<mapsto> Small b)) c x \<longleftrightarrow> small_at OW c x \<or> c = b \<and> x \<in> set (kblocks b p)"
  using assms unfolding small_at_def by (metis fun_upd_apply kpage.inject(1) option.distinct(1) option.inject)

text \<open>The blocks of the buckets that are handed out, bucket by bucket.\<close>

lemma kheap_live_eq:
  "kheap_live OW BG FL = (\<Union>b. (\<lambda>x. (x, bsz b)) ` ({x. small_at OW b x} - set (FL b))) \<union> {(x, l). \<exists>q n. BG q = Some n \<and> x = q + 8 \<and> l = unat n * 4096 - 8}"
  unfolding kheap_live_def by auto

lemma UN_split: "(\<Union>b. F b) = F k \<union> (\<Union>b\<in>- {k}. F b)"
  by auto

lemma refill_bucket_spec:
  assumes rep: "kheap_rep s OW BG FL" and irq: "\<not> in_irq s" and b: "b < 8"
  shows "\<exists>s'. refill_bucket b s = Ret s' \<and> \<not> in_irq s' \<and>
    (kheap_rep s' OW BG FL \<or>
     (\<exists>p. OW p = None \<and> page_base p \<and> kheap_rep s' (OW(p \<mapsto> Small b)) BG (FL(b := rev (kblocks b p) @ FL b))))"
proof -
  let ?s = "s\<lparr>g_kheap_bucket_refills := (g_kheap_bucket_refills s)[b := g_kheap_bucket_refills s ! b + 1]\<rparr>"
  have rep0: "kheap_rep ?s OW BG FL" using rep by simp
  have irq0: "\<not> in_irq ?s" using irq by (simp add: in_irq_def)
  obtain va pa s1 where a: "pmm_alloc_page_va ?s = Ret ((va, pa), s1)" "pmm_ok s1" "pmm_globals.more s1 = pmm_globals.more ?s"
    "s_irq_depth s1 = s_irq_depth ?s" "\<And>p. backed ?s p \<Longrightarrow> backed s1 p" "va \<noteq> NULL \<Longrightarrow> backed s1 va \<and> \<not> backed ?s va"
    using pmm_alloc_page_va_cases [OF kheap_repD(1) [OF rep0] irq0] by metis
  note m = kheap_more [OF a(3)]
  have rep1: "kheap_rep s1 OW BG FL" by (rule kheap_rep_cong [OF rep0 a(2,5) m])
  have irq1: "\<not> in_irq s1" using irq0 a(4) by (simp add: in_irq_def)
  show ?thesis
  proof (cases "va = NULL")
    case True
    then have "refill_bucket b s = Ret s1" using a(1) b by (simp add: refill_bucket_def NUM_BUCKETS_def)
    then show ?thesis using rep1 irq1 by blast
  next
    case False
    have fresh: "OW va = None" using a(6) [OF False] kheap_repD(3) [OF rep0, of va] by (cases "OW va") auto
    have pb: "page_base va" using backed_page_base [OF a(2)] a(6) [OF False] by blast
    let ?bs = "of_nat (bsz b) :: u64"
    let ?h = "(kheap_hdr_at s1 va)\<lparr>hdr_magic := SLAB_MAGIC, bucket_index := of_nat b, block_size := g_bucket_sizes ! b\<rparr>"
    have bs: "ucast (g_bucket_sizes ! b) = ?bs" and bs': "?bs = ucast (of_nat (bsz b) :: u32)" by (rule bucket_size_word [OF b])+
    let ?nb = "upslots (va + ?bs) (of_nat (bsz b)) (4096 div bsz b - 1)"
    have kb: "?nb = kblocks b va" by (simp add: kblocks_def)
    note s = bsz_bounds [OF b] and u32 = unat_bsz(1) [OF b]
    have uv: "unat (va + ?bs) = unat va + bsz b" "unat (va + PAGE_SIZE) = unat va + 4096"
      using pb s unat_bsz(2) [OF b] by (subst unat_add_no_wrap; simp add: page_base_def)+
    have dv: "4096 div bsz b * bsz b = 4096" "0 < 4096 div bsz b" using s by (auto simp: div_greater_zero_iff)
    have cnt: "bsz b + (4096 div bsz b - 1) * bsz b = 4096" using dv by (cases "4096 div bsz b") simp_all
    have dj: "set (FL b) \<inter> set (kblocks b va) = {}"
    proof -
      have "x \<notin> set (kblocks b va)" if "x \<in> set (FL b)" for x
        using small_page(1) [OF rep1 kheap_repD(11) [OF rep1 b that]] kblock_page(1) [OF b pb, of x] fresh by auto
      then show ?thesis by blast
    qed
    obtain nx head where l: "refill_loop ?bs (va + PAGE_SIZE) (va + ?bs) (free_next s1) (g_freelist s1 ! b) = Some (nx, head)"
      and nx: "\<And>x. x \<notin> set (kblocks b va) \<Longrightarrow> nx x = free_next s1 x" and ch: "chain nx head (rev (kblocks b va) @ FL b)"
    proof -
      have "\<exists>nx head. refill_loop (ucast (of_nat (bsz b) :: u32)) (va + PAGE_SIZE) (va + ?bs) (free_next s1) (g_freelist s1 ! b) = Some (nx, head) \<and>
        (\<forall>x. x \<notin> set ?nb \<longrightarrow> nx x = free_next s1 x) \<and> chain nx head (rev ?nb @ FL b)"
        by (rule refill_loop_result)
          (use cnt s u32 uv pb kb kblocks_distinct [OF b pb] kblock_page(2) [OF b pb] dj kheap_repD(10) [OF rep1 b] in \<open>auto simp: page_base_def\<close>)
      then show ?thesis using that unfolding kb by (auto simp flip: bs')
    qed
    let ?s2 = "s1\<lparr>kheap_hdr_at := (kheap_hdr_at s1)(va := ?h), free_next := nx, g_freelist := (g_freelist s1)[b := head]\<rparr>"
    have run: "refill_bucket b s = Ret ?s2"
      using a(1) b False l refill_start [OF b pb] by (simp add: refill_bucket_def NUM_BUCKETS_def Let_def bs)
    have oth: "chain nx (g_freelist s1 ! c) (FL c)" if "c < 8" "c \<noteq> b" for c
    proof -
      have "x \<notin> set (kblocks b va)" if "x \<in> set (FL c)" for x
        using small_page(1) [OF rep1 kheap_repD(11) [OF rep1 \<open>c < 8\<close> that]] kblock_page(1) [OF b pb, of x] fresh by auto
      then show ?thesis using kheap_repD(10) [OF rep1 that(1)] chain_cong [of "FL c" nx "free_next s1"] nx by blast
    qed
    have bk2: "backed ?s2 p = backed s1 p" "pmm_ok ?s2 = pmm_ok s1" for p by simp_all
    have nb: "q \<noteq> va" if "BG q = Some n" for q n using kheap_repD(12) [OF rep1 that] fresh by auto
    have nk: "bpage q k \<noteq> va" if "BG q = Some n" "k < unat n" for q n k using kheap_repD(9) [OF rep1 that] fresh by auto
    have "kheap_rep ?s2 (OW(va \<mapsto> Small b)) BG (FL(b := rev (kblocks b va) @ FL b))"
      unfolding kheap_rep_def bk2
    proof (intro conjI allI impI ballI)
      fix c :: nat assume c: "c < 8"
      show "chain (free_next ?s2) (g_freelist ?s2 ! c) ((FL(b := rev (kblocks b va) @ FL b)) c)"
        using c b ch oth kheap_repD(2) [OF rep1] by (cases "c = b") simp_all
      fix x assume "x \<in> set ((FL(b := rev (kblocks b va) @ FL b)) c)"
      then show "small_at (OW(va \<mapsto> Small b)) c x"
        using kheap_repD(11) [OF rep1 c] small_at_upd [where OW = OW, OF fresh] by (cases "c = b") auto
    qed (use a(2,6) b False kheap_repD(2,3,5-9) [OF rep1] nb nk in \<open>auto simp: slab_hdr_def split: if_splits\<close>)
    moreover have "\<not> in_irq ?s2" using irq1 by (simp add: in_irq_def)
    ultimately show ?thesis using run fresh pb by blast
  qed
qed


text \<open>Taking the head of a free list, and putting a block back.\<close>

lemma kheap_rep_pop:
  assumes rep: "kheap_rep s OW BG FL" and b: "b < 8" and fl: "FL b = x # xs"
  shows "kheap_rep (s\<lparr>g_freelist := (g_freelist s)[b := free_next s x]\<rparr>) OW BG (FL(b := xs))"
    and "kheap_live OW BG (FL(b := xs)) = insert (x, bsz b) (kheap_live OW BG FL)"
    and "x \<noteq> NULL" and "small_at OW b x" and "g_freelist s ! b = x"
proof -
  let ?s = "s\<lparr>g_freelist := (g_freelist s)[b := free_next s x]\<rparr>"
  have c: "chain (free_next s) (g_freelist s ! b) (x # xs)" using kheap_repD(10) [OF rep b] fl by simp
  then show "x \<noteq> NULL" and "g_freelist s ! b = x" by auto
  show p: "small_at OW b x" using kheap_repD(11) [OF rep b, of x] fl by simp
  have x: "x \<notin> set xs" using chain_distinct [OF c] by simp
  have ch: "chain (free_next s) ((g_freelist s)[b := free_next s x] ! k) ((FL(b := xs)) k)" if "k < 8" for k
    using that b c kheap_repD(2,10) [OF rep] by (cases "k = b") simp_all
  have sm: "small_at OW k z" if "k < 8" "z \<in> set ((FL(b := xs)) k)" for k z
    using that kheap_repD(11) [OF rep that(1), of z] fl by (cases "k = b") simp_all
  show "kheap_rep ?s OW BG (FL(b := xs))"
    using rep ch sm by (simp add: kheap_rep_def)
  show "kheap_live OW BG (FL(b := xs)) = insert (x, bsz b) (kheap_live OW BG FL)"
  proof -
    have "{z. small_at OW b z} - set xs = insert x ({z. small_at OW b z} - set (FL b))" using p x fl by auto
    then show ?thesis unfolding kheap_live_eq UN_split [where k = b] by simp
  qed
qed

lemma kheap_rep_push:
  assumes rep: "kheap_rep s OW BG FL" and p: "small_at OW b x" and x: "x \<notin> set (FL b)"
  shows "kheap_rep (s\<lparr>free_next := (free_next s)(x := g_freelist s ! b), g_freelist := (g_freelist s)[b := x]\<rparr>) OW BG (FL(b := x # FL b))"
    and "kheap_live OW BG (FL(b := x # FL b)) = kheap_live OW BG FL - {(x, bsz b)}"
proof -
  let ?s = "s\<lparr>free_next := (free_next s)(x := g_freelist s ! b), g_freelist := (g_freelist s)[b := x]\<rparr>"
  note sp = small_page [OF rep p]
  have nx: "x \<notin> set (FL k)" if "k < 8" for k using kheap_repD(11) [OF rep that, of x] small_unique [OF rep p] x by blast
  have ch: "chain ((free_next s)(x := g_freelist s ! b)) ((g_freelist s)[b := x] ! k) ((FL(b := x # FL b)) k)" if "k < 8" for k
    using that sp(3,4) nx [OF that] kheap_repD(2,10) [OF rep] by (cases "k = b") simp_all
  have sm: "small_at OW k z" if "k < 8" "z \<in> set ((FL(b := x # FL b)) k)" for k z
    using that kheap_repD(11) [OF rep that(1), of z] p by (cases "k = b") auto
  show "kheap_rep ?s OW BG (FL(b := x # FL b))" using rep ch sm by (simp add: kheap_rep_def)
  show "kheap_live OW BG (FL(b := x # FL b)) = kheap_live OW BG FL - {(x, bsz b)}"
  proof -
    have a: "{z. small_at OW b z} - set (x # FL b) = {z. small_at OW b z} - set (FL b) - {x}" by auto
    have c: "(x, bsz b) \<notin> (\<Union>k\<in>- {b}. (\<lambda>x. (x, bsz k)) ` ({x. small_at OW k x} - set (FL k)))" using small_unique [OF rep p] by auto
    have d: "(x, bsz b) \<notin> {(x, l). \<exists>q n. BG q = Some n \<and> x = q + 8 \<and> l = unat n * 4096 - 8}" using small_not_big [OF rep p] by auto
    have e: "(\<lambda>z. (z, bsz b)) ` (A - {x}) = (\<lambda>z. (z, bsz b)) ` A - {(x, bsz b)}" for A by auto
    have f: "(\<Union>k\<in>- {b}. (\<lambda>z. (z, bsz k)) ` ({z. small_at OW k z} - set ((FL(b := x # FL b)) k))) =
        (\<Union>k\<in>- {b}. (\<lambda>z. (z, bsz k)) ` ({z. small_at OW k z} - set (FL k)))" by (intro SUP_cong) auto
    show ?thesis unfolding kheap_live_eq UN_split [where k = b] f fun_upd_same a e using c d by blast
  qed
qed

lemma live_addr_small:
  assumes rep: "kheap_rep s OW BG FL" and p: "small_at OW b x"
  shows "x \<in> fst ` kheap_live OW BG FL \<longleftrightarrow> x \<notin> set (FL b)"
proof
  assume "x \<in> fst ` kheap_live OW BG FL"
  then obtain l where "(x, l) \<in> kheap_live OW BG FL" by auto
  then show "x \<notin> set (FL b)" using small_unique [OF rep p] small_not_big [OF rep p] unfolding kheap_live_def by blast
next
  assume "x \<notin> set (FL b)"
  then have "(x, bsz b) \<in> kheap_live OW BG FL" using p unfolding kheap_live_def by blast
  then show "x \<in> fst ` kheap_live OW BG FL" by force
qed

lemma kheap_live_refill:
  assumes "OW p = None" and rep: "kheap_rep s OW BG FL" and p: "page_base p" and b: "b < 8"
  shows "kheap_live (OW(p \<mapsto> Small b)) BG (FL(b := rev (kblocks b p) @ FL b)) = kheap_live OW BG FL"
proof -
  have "x \<notin> set (kblocks b p)" if "small_at OW c x" for c x
    using kblock_page(1) [OF b p, of x] small_page(1) [OF rep that] assms(1) by auto
  then have "{x. small_at (OW(p \<mapsto> Small b)) c x} - set ((FL(b := rev (kblocks b p) @ FL b)) c) = {x. small_at OW c x} - set (FL c)" for c
    unfolding small_at_upd [where OW = OW, OF assms(1)] by (cases "c = b") auto
  then show ?thesis unfolding kheap_live_eq by simp
qed

lemma kmalloc_small_spec:
  assumes i: "kheap_inv s L" and irq: "\<not> in_irq s" and b: "b < 8"
  shows "\<exists>x s'. kmalloc_small b s = Ret (x, s') \<and> \<not> in_irq s' \<and>
    (if x = NULL then kheap_inv s' L else x \<notin> fst ` L \<and> kheap_inv s' (insert (x, bsz b) L))"
proof -
  obtain OW BG FL where rep: "kheap_rep s OW BG FL" and L: "L = kheap_live OW BG FL" using i by (auto simp: kheap_inv_def)
  define g where "g = (if g_freelist s ! b = NULL then refill_bucket b s else Ret s)"
  have "\<exists>s1 OW1 FL1. g = Ret s1 \<and> \<not> in_irq s1 \<and> kheap_rep s1 OW1 BG FL1 \<and> kheap_live OW1 BG FL1 = L"
  proof (cases "g_freelist s ! b = NULL")
    case True
    then have "g = refill_bucket b s" by (simp add: g_def)
    then show ?thesis using refill_bucket_spec [OF rep irq b] kheap_live_refill [OF _ rep _ b] L by metis
  qed (use rep irq L in \<open>auto simp: g_def\<close>)
  then obtain s1 OW1 FL1 where g: "g = Ret s1" "\<not> in_irq s1" and r1: "kheap_rep s1 OW1 BG FL1" "kheap_live OW1 BG FL1 = L" by blast
  have ch: "chain (free_next s1) (g_freelist s1 ! b) (FL1 b)" by (rule kheap_repD(10) [OF r1(1) b])
  show ?thesis
  proof (cases "FL1 b")
    case Nil
    then have "kmalloc_small b s = Ret (NULL, s1)" using ch g(1) by (simp add: kmalloc_small_def g_def)
    then show ?thesis using g(2) r1 by (auto simp: kheap_inv_def)
  next
    case (Cons x xs)
    note p = kheap_rep_pop [OF r1(1) b Cons]
    let ?s2 = "s1\<lparr>g_freelist := (g_freelist s1)[b := free_next s1 x], g_kheap_small_allocs := (g_kheap_small_allocs s1)[b := g_kheap_small_allocs s1 ! b + 1]\<rparr>"
    let ?s' = "kheap_account_alloc (ucast (g_bucket_sizes ! b)) ?s2"
    have run: "kmalloc_small b s = Ret (x, ?s')" using g(1) p(3,5) by (simp add: kmalloc_small_def g_def Let_def)
    have "kheap_rep ?s' OW1 BG (FL1(b := xs))" using p(1) by simp
    then have "kheap_inv ?s' (insert (x, bsz b) L)" using p(2) r1(2) by (auto simp: kheap_inv_def)
    moreover have "\<not> in_irq ?s'" using g(2) by (simp add: in_irq_def)
    moreover have "x \<notin> fst ` L" using live_addr_small [OF r1(1) p(4)] Cons r1(2) by simp
    ultimately show ?thesis using run p(3) by (intro exI [of _ x] exI [of _ ?s']) simp
  qed
qed


section \<open>Large allocations\<close>

lemma bpage_phys: "bpage (pmm_phys_to_virt pa) k = pmm_phys_to_virt (pa + of_nat k * PAGE_SIZE)"
  by (simp add: bpage_def pmm_phys_to_virt_def)

definition own_run :: "(ptr \<Rightarrow> kpage option) \<Rightarrow> ptr \<Rightarrow> nat \<Rightarrow> ptr \<Rightarrow> kpage option" where
  "own_run OW q n p = (if p \<in> bpage q ` {..<n} then Some (Big q) else OW p)"

definition drop_run :: "(ptr \<Rightarrow> kpage option) \<Rightarrow> ptr \<Rightarrow> nat \<Rightarrow> ptr \<Rightarrow> kpage option" where
  "drop_run OW q n p = (if p \<in> bpage q ` {..<n} then None else OW p)"

lemma small_at_runs:
  assumes "\<And>p. p \<in> bpage q ` {..<n} \<Longrightarrow> \<nexists>b. OW p = Some (Small b)"
  shows "small_at (own_run OW q n) b x = small_at OW b x" and "small_at (drop_run OW q n) b x = small_at OW b x"
  using assms by (auto simp: small_at_def own_run_def drop_run_def)

lemma big_pages_word:
  assumes "unat sz < 2 ^ 43"
  shows "unat (ucast (align_up_4k (sz + sizeof_big_alloc_hdr) div PAGE_SIZE) :: u32) = (unat sz + 8 + 4095) div 4096"
proof -
  have u: "unat (sz + sizeof_big_alloc_hdr) = unat sz + 8"
    using assms by (subst unat_add_no_wrap) (simp_all add: sizeof_big_alloc_hdr_def)
  have "unat (align_up_4k (sz + sizeof_big_alloc_hdr)) = (unat sz + 8 + 4095) div 4096 * 4096"
    using assms u by (subst unat_align_up_4k) simp_all
  then have d: "unat (align_up_4k (sz + sizeof_big_alloc_hdr) div PAGE_SIZE) = (unat sz + 8 + 4095) div 4096"
    by (simp add: unat_div)
  have "(unat sz + 8 + 4095) div 4096 < 2 ^ 32" using assms by (simp add: div_less_iff_less_mult)
  then show ?thesis using d by (simp add: unsigned_ucast_eq take_bit_nat_eq_self)
qed

lemma run_backed:
  assumes "pmm_ok s" and al: "pmm_alloc_pages n LOCAL s = Ret (Some pa, s1)"
  shows "k < unat n \<Longrightarrow> backed s1 (bpage (pmm_phys_to_virt pa) k)" and "k < unat n \<Longrightarrow> \<not> backed s (bpage (pmm_phys_to_virt pa) k)"
    and "backed s p \<Longrightarrow> backed s1 p" and "pmm_ok s1"
proof -
  have a: "pmm_ok s1" "page_run pa (unat n) \<subseteq> free_pas s" "free_pas s1 = free_pas s - page_run pa (unat n)" "managed_pas s1 = managed_pas s"
    using pmm_ok_alloc_Some [OF assms] by simp_all
  show "pmm_ok s1" by (fact a(1))
  have m: "pa + of_nat k * PAGE_SIZE \<in> page_run pa (unat n)" if "k < unat n" for k using that by (auto simp: page_run_def)
  show "backed s1 (bpage (pmm_phys_to_virt pa) k)" if "k < unat n"
    using m [OF that] a free_pas_managed [OF assms(1)] unfolding bpage_phys backed_def by blast
  show "\<not> backed s (bpage (pmm_phys_to_virt pa) k)" if "k < unat n"
    using m [OF that] a(2) unfolding bpage_phys backed_def by (auto simp: phys_to_virt_inj)
  show "backed s p \<Longrightarrow> backed s1 p" using a by (auto simp: backed_def)
qed

lemma ex_map_upd:
  "m k = None \<Longrightarrow> (\<exists>a w. (m(k \<mapsto> v)) a = Some w \<and> P a w) \<longleftrightarrow> P k v \<or> (\<exists>a w. m a = Some w \<and> P a w)"
  by (metis fun_upd_apply option.distinct(1) option.inject)

lemma ex_map_del: "(\<exists>a w. (m(k := None)) a = Some w \<and> P a w) \<longleftrightarrow> (\<exists>a w. a \<noteq> k \<and> m a = Some w \<and> P a w)"
  by (metis fun_upd_apply option.distinct(1))

text \<open>What a large request gets: \<open>n\<close> pages, for the page count as the code computes it.\<close>

lemma kmalloc_big_pages:
  fixes s :: "'a kheap_globals_scheme" and sz :: u64
  assumes i: "kheap_inv s L" and irq: "\<not> in_irq s"
  defines "n \<equiv> (ucast (align_up_4k (sz + sizeof_big_alloc_hdr) div PAGE_SIZE) :: u32)"
  assumes nz: "n \<noteq> 0"
  shows "\<exists>x s'. kmalloc_big sz s = Ret (x, s') \<and> \<not> in_irq s' \<and> (n = 1 \<longrightarrow> free_pas s \<noteq> {} \<longrightarrow> x \<noteq> NULL) \<and>
    (if x = NULL then kheap_inv s' L else x \<notin> fst ` L \<and> kheap_inv s' (insert (x, unat n * 4096 - 8) L))"
proof -
  obtain OW BG FL where rep: "kheap_rep s OW BG FL" and L: "L = kheap_live OW BG FL" using i by (auto simp: kheap_inv_def)
  have un0: "0 < unat n" using nz by (simp add: unat_gt_0)
  obtain r s1 where r: "pmm_alloc_pages n LOCAL s = Ret (r, s1)" using pmm_alloc_pages_returns [OF irq] by blast
  note f = pmm_alloc_pages_frame [OF r] and m = kheap_more [OF pmm_alloc_pages_frame(1) [OF r]]
  have irq1: "\<not> in_irq s1" using irq f(2) by (simp add: in_irq_def)
  show ?thesis
  proof (cases r)
    case None
    let ?s = "s1\<lparr>g_kheap_fail_calls := g_kheap_fail_calls s1 + 1\<rparr>"
    note k = pmm_ok_alloc_None [OF kheap_repD(1) [OF rep] r [unfolded None]]
    have "kheap_rep s1 OW BG FL" using k by (intro kheap_rep_cong [OF rep k(1) _ m]) (simp add: backed_def)
    then have "kheap_inv ?s L" using L by (auto simp: kheap_inv_def)
    moreover have "kmalloc_big sz s = Ret (NULL, ?s)"
      using r None nz irq unfolding n_def by (simp add: kmalloc_big_def kheap_alloc_pages_def Let_def)
    moreover have "\<not> in_irq ?s" using irq1 by (simp add: in_irq_def)
    moreover have "n = 1 \<longrightarrow> free_pas s = {}" using pmm_alloc_one [OF kheap_repD(1) [OF rep] irq] r None by fastforce
    ultimately show ?thesis by (intro exI [of _ NULL] exI [of _ ?s]) simp
  next
    case (Some pa)
    let ?q = "pmm_phys_to_virt pa" and ?N = "unat n"
    note k = run_backed [OF kheap_repD(1) [OF rep] r [unfolded Some]]
    have fresh: "OW p = None" if "p \<in> bpage ?q ` {..<?N}" for p
      using that k(2) kheap_repD(3) [OF rep, of p] by (cases "OW p") auto
    have q0: "bpage ?q 0 = ?q" by (simp add: bpage_def)
    have qin: "?q \<in> bpage ?q ` {..<?N}" using un0 q0 by (metis imageI lessThan_iff)
    have pb: "page_base ?q" using k(1) [of 0] un0 q0 backed_page_base [OF k(4)] by simp
    have uq: "unat (?q + 8) = unat ?q + 8" using pb by (subst unat_add_no_wrap) (simp_all add: page_base_def)
    let ?s2 = "s1\<lparr>kheap_hdr_at := (kheap_hdr_at s1)(?q := (kheap_hdr_at s1 ?q)\<lparr>hdr_magic := BIG_MAGIC, hdr_pages := n\<rparr>),
        g_kheap_big_alloc_calls := g_kheap_big_alloc_calls s1 + 1\<rparr>"
    let ?s' = "kheap_account_alloc (ucast n * PAGE_SIZE) ?s2"
    have run: "kmalloc_big sz s = Ret (?q + 8, ?s')"
      using r Some nz irq pb unfolding n_def by (simp add: kmalloc_big_def kheap_alloc_pages_def Let_def page_base_def sizeof_big_alloc_hdr_def)
    have sm: "small_at (own_run OW ?q ?N) b x = small_at OW b x" for b x using small_at_runs(1) fresh by (metis option.distinct(1))
    have nq: "p \<noteq> ?q" if "OW p = Some w" for p w using that fresh [OF qin] by auto
    have bn: "a \<noteq> ?q" if "BG a = Some w" for a w using nq kheap_repD(12) [OF rep that] by blast
    have bq: "BG ?q = None" using bn by (cases "BG ?q") auto
    have ob: "own_run OW ?q ?N p = Some w \<Longrightarrow> backed s1 p" for p w
      using k(1,3) kheap_repD(3) [OF rep] by (auto simp: own_run_def split: if_splits)
    have os: "own_run OW ?q ?N p = Some (Small b) \<Longrightarrow> OW p = Some (Small b)" for p b by (auto simp: own_run_def split: if_splits)
    have oo: "OW p = Some w \<Longrightarrow> own_run OW ?q ?N p = Some w" for p w using fresh by (auto simp: own_run_def)
    have on: "j < ?N \<Longrightarrow> own_run OW ?q ?N (bpage ?q j) = Some (Big ?q)" for j by (auto simp: own_run_def)
    have "kheap_rep (s1\<lparr>kheap_hdr_at := (kheap_hdr_at s1)(?q := (kheap_hdr_at s1 ?q)\<lparr>hdr_magic := BIG_MAGIC, hdr_pages := n\<rparr>)\<rparr>)
        (own_run OW ?q ?N) (BG(?q \<mapsto> n)) FL"
      unfolding kheap_rep_def sm kheap_upd_pmm
    proof (intro conjI allI impI ballI)
      fix p b assume o: "own_run OW ?q ?N p = Some (Small b)"
      show "b < 8" using kheap_repD(5) [OF rep os [OF o]] .
      show "slab_hdr b (kheap_hdr_at (s1\<lparr>kheap_hdr_at := (kheap_hdr_at s1)(?q := (kheap_hdr_at s1 ?q)\<lparr>hdr_magic := BIG_MAGIC, hdr_pages := n\<rparr>)\<rparr>) p)"
        using kheap_repD(6) [OF rep os [OF o]] nq [OF os [OF o]] m(3) by simp
    next
      fix a w assume a: "(BG(?q \<mapsto> n)) a = Some w"
      then have c: "a = ?q \<and> w = n \<or> a \<noteq> ?q \<and> BG a = Some w" by (auto split: if_splits)
      show "w \<noteq> 0" using c nz kheap_repD(7) [OF rep] by blast
      show "big_hdr w (kheap_hdr_at (s1\<lparr>kheap_hdr_at := (kheap_hdr_at s1)(?q := (kheap_hdr_at s1 ?q)\<lparr>hdr_magic := BIG_MAGIC, hdr_pages := n\<rparr>)\<rparr>) a)"
        using c kheap_repD(8) [OF rep, of a w] m(3) by (auto simp: big_hdr_def)
      fix j assume "j < unat w"
      then show "own_run OW ?q ?N (bpage a j) = Some (Big a)" using c on oo kheap_repD(9) [OF rep] by blast
    qed (use k(4) ob kheap_repD(2,10,11) [OF rep] m in auto)
    then have "kheap_rep ?s' (own_run OW ?q ?N) (BG(?q \<mapsto> n)) FL" by simp
    moreover have "kheap_live (own_run OW ?q ?N) (BG(?q \<mapsto> n)) FL = insert (?q + 8, ?N * 4096 - 8) L"
      unfolding kheap_live_def L sm ex_map_upd [where m = BG, OF bq] by auto
    ultimately have "kheap_inv ?s' (insert (?q + 8, ?N * 4096 - 8) L)" unfolding kheap_inv_def by metis
    moreover have "?q + 8 \<notin> fst ` L"
    proof
      assume "?q + 8 \<in> fst ` L"
      then obtain l where "(?q + 8, l) \<in> kheap_live OW BG FL" using L by auto
      then consider b where "small_at OW b (?q + 8)" | a w where "BG a = Some w" "?q + 8 = a + 8" unfolding kheap_live_def by auto
      then show False
      proof cases
        case 1
        have "align_down_4k (?q + 8) = ?q" using uq pb by (intro in_page) simp_all
        then show ?thesis using small_page(1) [OF rep 1] nq by auto
      qed (use bn in auto)
    qed
    moreover have "\<not> in_irq ?s'" using irq1 by (simp add: in_irq_def)
    moreover have "?q + 8 \<noteq> NULL" using uq by auto
    ultimately show ?thesis using run by (intro exI [of _ "?q + 8"] exI [of _ ?s']) simp
  qed
qed

lemma kmalloc_big_spec:
  assumes i: "kheap_inv s L" and irq: "\<not> in_irq s" and sz: "unat sz < 2 ^ 43"
  shows "\<exists>x s'. kmalloc_big sz s = Ret (x, s') \<and> \<not> in_irq s' \<and>
    (if x = NULL then kheap_inv s' L
     else \<exists>l. unat sz \<le> l \<and> x \<notin> fst ` L \<and> kheap_inv s' (insert (x, l) L))"
proof -
  let ?n = "ucast (align_up_4k (sz + sizeof_big_alloc_hdr) div PAGE_SIZE) :: u32"
  have un: "unat ?n = (unat sz + 8 + 4095) div 4096" by (rule big_pages_word [OF sz])
  then have l: "0 < unat ?n" "unat sz \<le> unat ?n * 4096 - 8" by (simp_all add: div_greater_zero_iff)
  have "?n \<noteq> 0" using l(1) by (metis unat_0 less_numeral_extra(3))
  from kmalloc_big_pages [OF i irq this] l(2) show ?thesis by (metis (no_types, lifting))
qed


lemma free_pages_loop_eq: "free_pages_loop pa i n s = free_stack_pages pa i n s"
proof (induction n arbitrary: i s)
  case (Suc n)
  have "KSTACK_PAGE_SIZE = PAGE_SIZE" by (simp add: KSTACK_PAGE_SIZE_def PAGE_SIZE_def)
  then show ?case using Suc by (simp cong: obind_cong)
qed simp

lemma run_words: "n \<le> 2 ^ 32 \<Longrightarrow> (\<lambda>k. pa + ucast (0 + of_nat k :: u32) * KSTACK_PAGE_SIZE) ` {..<n} = page_run pa n"
proof -
  assume n: "n \<le> 2 ^ 32"
  have "ucast (of_nat k :: u32) = (of_nat k :: u64)" if "k < n" for k
    using that n by (simp add: word_unat_eq_iff unsigned_ucast_eq unat_of_nat take_bit_nat_eq_self)
  then show ?thesis unfolding page_run_def by (intro image_cong) (simp_all add: KSTACK_PAGE_SIZE_def PAGE_SIZE_def)
qed

text \<open>The pages of a large allocation are the page-aligned addresses in its range.\<close>

lemma poison_range:
  assumes "page_base p" "page_base q"
  shows "p - q < ucast (n :: u32) * PAGE_SIZE \<longleftrightarrow> p \<in> bpage q ` {..<unat n}"
proof -
  have n32: "unat n < 2 ^ 32" by (rule order_less_le_trans [OF unat_less_two_power]) simp
  have un: "unat (ucast n * PAGE_SIZE :: u64) = unat n * 4096"
    using n32 by (simp add: unat_word_ariths unsigned_ucast_eq take_bit_nat_eq_self)
  have ub: "unat (of_nat k * PAGE_SIZE :: u64) = k * 4096" if "k < unat n" for k
    using that n32 by (simp add: unat_word_ariths unat_of_nat)
  show ?thesis
  proof
    assume l: "p - q < ucast n * PAGE_SIZE"
    then have ul: "unat (p - q) < unat n * 4096" using un by (simp add: word_less_nat_alt)
    have "4096 dvd unat (p - q)"
    proof (cases "q \<le> p")
      case True
      then show ?thesis using assms by (simp add: unat_sub_no_wrap page_base_def page_aligned_iff dvd_diff_nat)
    next
      case False
      then have "unat (p - q) = 2 ^ 64 + unat p - unat q" by (simp add: unat_sub_if' word_le_nat_alt)
      moreover have "4096 dvd 2 ^ 64 + unat p" using assms by (intro dvd_add) (simp_all add: page_base_def page_aligned_iff)
      ultimately show ?thesis using assms by (simp add: page_base_def page_aligned_iff dvd_diff_nat)
    qed
    then obtain k where k: "unat (p - q) = k * 4096" by (metis dvd_def mult.commute)
    then have kn: "k < unat n" using ul by simp
    then have "p - q = of_nat k * PAGE_SIZE" using ub k by (simp add: word_unat_eq_iff)
    then have "p = bpage q k" by (simp add: bpage_def algebra_simps)
    then show "p \<in> bpage q ` {..<unat n}" using kn by auto
  next
    assume "p \<in> bpage q ` {..<unat n}"
    then obtain k where "k < unat n" "p - q = of_nat k * PAGE_SIZE" by (auto simp: bpage_def)
    then show "p - q < ucast n * PAGE_SIZE" using ub un by (simp add: word_less_nat_alt)
  qed
qed

lemma kfree_small_spec:
  assumes rep: "kheap_rep s OW BG FL" and irq: "\<not> in_irq s" and x: "small_at OW b x" "x \<notin> set (FL b)"
  shows "\<exists>s'. kfree x s = Ret s' \<and> \<not> in_irq s' \<and> kheap_inv s' (kheap_live OW BG FL - {(x, bsz b)})"
proof -
  note sp = small_page [OF rep x(1)]
  have h: "hdr_magic (kheap_hdr_at s (align_down_4k x)) = SLAB_MAGIC" "unat (bucket_index (kheap_hdr_at s (align_down_4k x))) = b"
    using kheap_repD(6) [OF rep sp(1)] sp(3) by (simp_all add: slab_hdr_def unat_of_nat)
  note p = kheap_rep_push [OF rep x]
  let ?s0 = "s\<lparr>g_kheap_kfree_calls := g_kheap_kfree_calls s + 1\<rparr>"
  let ?s1 = "?s0\<lparr>free_next := (free_next s)(x := g_freelist s ! b), g_freelist := (g_freelist s)[b := x],
      g_kheap_small_frees := (g_kheap_small_frees s)[b := g_kheap_small_frees s ! b + 1]\<rparr>"
  let ?s' = "kheap_account_free (ucast (block_size (kheap_hdr_at s (align_down_4k x)))) ?s1"
  have run: "kfree x s = Ret ?s'" using irq sp(3,4) h by (simp add: kfree_def Let_def NUM_BUCKETS_def)
  have "kheap_rep (?s0\<lparr>free_next := (free_next s)(x := g_freelist s ! b), g_freelist := (g_freelist s)[b := x]\<rparr>) OW BG (FL(b := x # FL b))"
    using kheap_rep_push(1) [of ?s0 OW BG FL b x] rep x by simp
  then have "kheap_rep ?s' OW BG (FL(b := x # FL b))" by simp
  then have "kheap_inv ?s' (kheap_live OW BG FL - {(x, bsz b)})" unfolding kheap_inv_def using p(2) by metis
  moreover have "\<not> in_irq ?s'" using irq by (simp add: in_irq_def)
  ultimately show ?thesis using run by blast
qed

lemma magics: "BIG_MAGIC \<noteq> SLAB_MAGIC"
  by (simp add: BIG_MAGIC_def SLAB_MAGIC_def)

lemma kfree_big_spec:
  assumes rep: "kheap_rep s OW BG FL" and irq: "\<not> in_irq s" and q: "BG q = Some n"
  shows "\<exists>s'. kfree (q + 8) s = Ret s' \<and> \<not> in_irq s' \<and> kheap_inv s' (kheap_live OW BG FL - {(q + 8, unat n * 4096 - 8)})"
proof -
  note a = big_addr [OF rep q]
  have h: "hdr_magic (kheap_hdr_at s q) = BIG_MAGIC" "hdr_pages (kheap_hdr_at s q) = n" and nz: "n \<noteq> 0"
    using kheap_repD(7,8) [OF rep q] by (simp_all add: big_hdr_def)
  have qn: "q \<noteq> NULL" "q + 8 \<noteq> NULL" using a(2,3) by (auto simp: page_base_def)
  have n32: "unat n \<le> 2 ^ 32" using order_less_imp_le [OF unat_less_two_power [of n]] by simp
  obtain pa where pa: "pa \<in> managed_pas s" "q = pmm_phys_to_virt pa"
    using kheap_repD(3,12) [OF rep] q by (fastforce simp: backed_def)
  let ?s1 = "s\<lparr>g_kheap_kfree_calls := g_kheap_kfree_calls s + 1, kheap_hdr_at := poison_pages q n (kheap_hdr_at s),
      g_kheap_big_free_calls := g_kheap_big_free_calls s + 1\<rparr>"
  let ?s2 = "kheap_account_free (ucast n * PAGE_SIZE) ?s1"
  have pv: "align_down_4k (pmm_virt_to_phys q) = pa"
    using managed_page [OF kheap_repD(1) [OF rep] pa(1)] virt_to_phys_phys_to_virt [of pa]
    by (simp add: pa(2) align_down_4k_id page_aligned_iff)
  have run: "kfree (q + 8) s = free_stack_pages pa 0 (unat n) ?s2"
    using irq qn a(1) h nz magics pv
    by (simp add: kfree_def kheap_free_pages_def Let_def free_pages_loop_eq in_irq_def)
  have pm: "g_pmm ?s2 = g_pmm s" "g_pmm_low_free_pages ?s2 = g_pmm_low_free_pages s" "g_pmm_peak_used_pages ?s2 = g_pmm_peak_used_pages s"
    by (simp_all add: kheap_account_free_def)
  have ok2: "pmm_ok ?s2" using kheap_repD(1) [OF rep] pmm_ok_cong [OF pm] by simp
  have mg: "managed_pas ?s2 = managed_pas s" "free_pas ?s2 = free_pas s" by (simp_all add: managed_pas_def free_pas_def pm)
  have irq2: "\<not> in_irq ?s2" using irq by (simp add: in_irq_def)
  have inrun: "pa + of_nat k * PAGE_SIZE \<in> managed_pas s" if "k < unat n" for k
  proof -
    have "backed s (bpage q k)" using kheap_repD(3) [OF rep] kheap_repD(9) [OF rep q that] by blast
    then show ?thesis unfolding pa(2) bpage_phys by (auto simp: backed_def phys_to_virt_inj)
  qed
  have mem: "\<forall>k<unat n. pa + ucast (0 + of_nat k :: u32) * KSTACK_PAGE_SIZE \<in> managed_pas ?s2"
  proof (intro allI impI)
    fix k assume "k < unat n"
    then have "pa + ucast (0 + of_nat k :: u32) * KSTACK_PAGE_SIZE \<in> page_run pa (unat n)" unfolding run_words [OF n32, symmetric] by (intro imageI) simp
    then show "pa + ucast (0 + of_nat k :: u32) * KSTACK_PAGE_SIZE \<in> managed_pas ?s2" unfolding mg page_run_def using inrun by auto
  qed
  obtain s' where s': "free_stack_pages pa 0 (unat n) ?s2 = Ret s'" "pmm_ok s'" "managed_pas s' = managed_pas ?s2"
    "pmm_globals.more s' = pmm_globals.more ?s2" "s_irq_depth s' = s_irq_depth ?s2" "free_pas s' = free_pas ?s2 \<union> page_run pa (unat n)"
    using free_stack_pages_spec [OF ok2 irq2 mem] unfolding run_words [OF n32] by blast
  note m = kheap_more [OF s'(4)]
  have m': "g_freelist s' = g_freelist s" "free_next s' = free_next s" "kheap_hdr_at s' = poison_pages q n (kheap_hdr_at s)"
    using m by (simp_all add: kheap_account_free_def)
  let ?OW = "drop_run OW q (unat n)"
  have big: "OW p = Some (Big q)" if "p \<in> bpage q ` {..<unat n}" for p using that kheap_repD(9) [OF rep q] by auto
  have sm: "small_at ?OW b x = small_at OW b x" for b x using small_at_runs(2) [of q "unat n" OW] big by (metis kpage.distinct(1) option.inject)
  have dr: "OW p = Some w" "p \<notin> bpage q ` {..<unat n}" if "?OW p = Some w" for p w using that by (auto simp: drop_run_def split: if_splits)
  have keep: "poison_pages q n (kheap_hdr_at s) p = kheap_hdr_at s p" if "?OW p = Some w" for p w
    using dr [OF that] poison_range [OF kheap_repD(4) [OF rep] a(3), of p w n] by (simp add: poison_pages_def)
  have bk: "backed s' p" if h: "?OW p = Some w" for p w
  proof -
    obtain pp where pp: "pp \<in> managed_pas s - free_pas s" "p = pmm_phys_to_virt pp"
      using kheap_repD(3) [OF rep dr(1) [OF h]] by (auto simp: backed_def)
    have "pp \<notin> page_run pa (unat n)" using dr(2) [OF h] unfolding pp(2) pa(2) page_run_def image_def bpage_phys by auto
    then show ?thesis using pp s'(3,6) mg by (auto simp: backed_def)
  qed
  have ot: "?OW (bpage c k) = Some (Big c)" if "BG c = Some w" "c \<noteq> q" "k < unat w" for c w k
    using kheap_repD(9) [OF rep that(1,3)] that(2) big [of "bpage c k"] by (auto simp: drop_run_def)
  have "kheap_rep s' ?OW (BG(q := None)) FL"
    unfolding kheap_rep_def sm m'(1,2)
  proof (intro conjI allI impI ballI)
    fix p b assume o: "?OW p = Some (Small b)"
    show "b < 8" "slab_hdr b (kheap_hdr_at s' p)" using kheap_repD(5,6) [OF rep dr(1) [OF o]] keep [OF o] m'(3) by simp_all
  next
    fix c w assume "(BG(q := None)) c = Some w"
    then have c: "BG c = Some w" "c \<noteq> q" by (auto split: if_splits)
    show wz: "w \<noteq> 0" using kheap_repD(7) [OF rep c(1)] .
    have "?OW c = Some (Big c)" using ot [OF c, of 0] wz by (simp add: bpage_def unat_gt_0)
    then show "big_hdr w (kheap_hdr_at s' c)" using kheap_repD(8) [OF rep c(1)] keep m'(3) by simp
    fix k assume "k < unat w" then show "?OW (bpage c k) = Some (Big c)" by (rule ot [OF c])
  qed (use s'(2) bk kheap_repD(2,10,11) [OF rep] in auto)
  moreover have "kheap_live ?OW (BG(q := None)) FL = kheap_live OW BG FL - {(q + 8, unat n * 4096 - 8)}"
  proof -
    have "(q + 8, l) \<notin> {(x, l). \<exists>b. small_at OW b x \<and> x \<notin> set (FL b) \<and> l = bsz b}" for l using small_not_big [OF rep _ q] by auto
    then show ?thesis using q unfolding kheap_live_def sm ex_map_del by auto
  qed
  ultimately have "kheap_inv s' (kheap_live OW BG FL - {(q + 8, unat n * 4096 - 8)})" unfolding kheap_inv_def by metis
  moreover have "\<not> in_irq s'" using irq2 s'(5) by (simp add: in_irq_def)
  ultimately show ?thesis using run s'(1) by auto
qed


section \<open>The contract of the heap\<close>

lemma kmalloc_spec:
  assumes i: "kheap_inv s L" and irq: "\<not> in_irq s" and sz: "unat sz < 2 ^ 43"
  shows "\<exists>x s'. kmalloc sz s = Ret (x, s') \<and> \<not> in_irq s' \<and>
    (if x = NULL then kheap_inv s' L else \<exists>l. unat sz \<le> l \<and> x \<notin> fst ` L \<and> kheap_inv s' (insert (x, l) L))"
proof -
  let ?s = "s\<lparr>g_kheap_kmalloc_calls := g_kheap_kmalloc_calls s + 1\<rparr>"
  have i0: "kheap_inv ?s L" using i by (simp add: kheap_inv_def)
  have irq0: "\<not> in_irq ?s" using irq by (simp add: in_irq_def)
  consider "sz = 0" | b where "sz \<noteq> 0" "bucket_for_size sz = Some b" | "sz \<noteq> 0" "bucket_for_size sz = None" by fastforce
  then show ?thesis
  proof cases
    case 1
    then show ?thesis using i0 irq irq0 by (simp add: kmalloc_def Let_def)
  next
    case 2
    note b = bucket_for_size_Some [OF 2(2)]
    from kmalloc_small_spec [OF i0 irq0, of b] b 2 irq show ?thesis by (auto simp: kmalloc_def Let_def split: if_splits)
  next
    case 3
    from kmalloc_big_spec [OF i0 irq0 sz] 3 irq show ?thesis by (simp add: kmalloc_def Let_def)
  qed
qed

lemma kfree_spec:
  assumes i: "kheap_inv s L" and irq: "\<not> in_irq s" and x: "(x, l) \<in> L"
  shows "\<exists>s'. kfree x s = Ret s' \<and> \<not> in_irq s' \<and> kheap_inv s' (L - {(x, l)})"
proof -
  obtain OW BG FL where rep: "kheap_rep s OW BG FL" and L: "L = kheap_live OW BG FL" using i by (auto simp: kheap_inv_def)
  from x L consider b where "small_at OW b x" "x \<notin> set (FL b)" "l = bsz b" | q n where "BG q = Some n" "x = q + 8" "l = unat n * 4096 - 8"
    unfolding kheap_live_def by auto
  then show ?thesis using kfree_small_spec [OF rep irq] kfree_big_spec [OF rep irq] L by cases blast+
qed

lemma bpage_unat:
  assumes rep: "kheap_rep s OW BG FL" and q: "BG q = Some n" and k: "k < unat n"
  shows "unat (bpage q k) = unat q + k * 4096"
  using k
proof (induction k)
  case 0
  then show ?case by (simp add: bpage_def)
next
  case (Suc k)
  have pb: "page_base (bpage q k)" using kheap_repD(4) [OF rep kheap_repD(9) [OF rep q]] Suc.prems by simp
  have "bpage q (Suc k) = bpage q k + PAGE_SIZE" by (simp add: bpage_def algebra_simps)
  then have "unat (bpage q (Suc k)) = unat (bpage q k) + 4096" using pb by (simp add: unat_add_no_wrap page_base_def)
  then show ?case using Suc by simp
qed

text \<open>Every byte of a live block lies in a page that the heap holds for it.\<close>

lemma live_byte:
  assumes rep: "kheap_rep s OW BG FL" and x: "(x, l) \<in> kheap_live OW BG FL" and a: "unat x \<le> a" "a < unat x + l"
  shows "\<exists>p w. OW p = Some w \<and> page_base p \<and> unat p = a div 4096 * 4096 \<and>
    (case w of Small b \<Rightarrow> x \<in> set (kblocks b p) \<and> l = bsz b \<and> b < 8 | Big q \<Rightarrow> \<exists>n. BG q = Some n \<and> x = q + 8 \<and> l = unat n * 4096 - 8)"
proof -
  have dv: "a div 4096 * 4096 = unat p" if h: "page_base p" "unat p \<le> a" "a < unat p + 4096" for p
  proof -
    obtain m where m: "unat p = 4096 * m" using h(1) by (auto simp: page_base_def page_aligned_iff)
    then have "a div 4096 = m" using h(2,3) by (intro div_nat_eqI) simp_all
    then show ?thesis using m by simp
  qed
  from x consider b where "small_at OW b x" "l = bsz b" | q n where "BG q = Some n" "x = q + 8" "l = unat n * 4096 - 8"
    unfolding kheap_live_def by auto
  then show ?thesis
  proof cases
    case 1
    let ?p = "align_down_4k x"
    note sp = small_page [OF rep 1(1)]
    have pb: "page_base ?p" using kheap_repD(4) [OF rep sp(1)] .
    note r = kblock_range [OF sp(3) pb sp(2)]
    show ?thesis using sp pb 1(2) dv [OF pb] r a by (intro exI [of _ ?p] exI [of _ "Small b"]) auto
  next
    case 2
    note u = big_addr [OF rep 2(1)]
    define k where "k = (a - unat q) div 4096"
    have aq: "unat q \<le> a" "a < unat q + unat n * 4096" using a u(2) 2 by auto
    then have kn: "k < unat n" unfolding k_def by (simp add: div_less_iff_less_mult less_diff_conv2)
    have o: "OW (bpage q k) = Some (Big q)" using kheap_repD(9) [OF rep 2(1) kn] .
    have pb: "page_base (bpage q k)" using kheap_repD(4) [OF rep o] .
    have "k * 4096 \<le> a - unat q" "a - unat q < k * 4096 + 4096" unfolding k_def
      using dividend_less_div_times [of 4096 "a - unat q"] by (simp_all add: div_times_less_eq_dividend)
    then have "unat (bpage q k) \<le> a" "a < unat (bpage q k) + 4096" using bpage_unat [OF rep 2(1) kn] aq by simp_all
    then show ?thesis using o pb dv [OF pb] 2 by (intro exI [of _ "bpage q k"] exI [of _ "Big q"]) auto
  qed
qed

lemma live_disjoint:
  assumes "kheap_inv s L" and "(x, l) \<in> L" "(y, m) \<in> L" "x \<noteq> y"
  shows "{unat x..<unat x + l} \<inter> {unat y..<unat y + m} = {}"
proof (rule ccontr)
  obtain OW BG FL where rep: "kheap_rep s OW BG FL" and L: "L = kheap_live OW BG FL" using assms(1) by (auto simp: kheap_inv_def)
  assume "{unat x..<unat x + l} \<inter> {unat y..<unat y + m} \<noteq> {}"
  then obtain a where "a \<in> {unat x..<unat x + l} \<inter> {unat y..<unat y + m}" by blast
  then have a: "unat x \<le> a" "a < unat x + l" "unat y \<le> a" "a < unat y + m" by simp_all
  obtain p w where p: "OW p = Some w" "page_base p" "unat p = a div 4096 * 4096" and pw:
    "case w of Small b \<Rightarrow> x \<in> set (kblocks b p) \<and> l = bsz b \<and> b < 8 | Big q \<Rightarrow> \<exists>n. BG q = Some n \<and> x = q + 8 \<and> l = unat n * 4096 - 8"
    using live_byte [OF rep assms(2) [unfolded L] a(1,2)] by blast
  obtain p' w' where p': "OW p' = Some w'" "unat p' = a div 4096 * 4096" and pw':
    "case w' of Small b \<Rightarrow> y \<in> set (kblocks b p') \<and> m = bsz b \<and> b < 8 | Big q \<Rightarrow> \<exists>n. BG q = Some n \<and> y = q + 8 \<and> m = unat n * 4096 - 8"
    using live_byte [OF rep assms(3) [unfolded L] a(3,4)] by blast
  have "p' = p" using p(3) p'(2) by (simp add: word_unat_eq_iff)
  then have w: "w' = w" using p p' by simp
  show False
  proof (cases w)
    case (Small b)
    then have b: "x \<in> set (kblocks b p)" "y \<in> set (kblocks b p)" "l = bsz b" "m = bsz b" "b < 8" using pw pw' w \<open>p' = p\<close> by simp_all
    note rx = kblock_range [OF b(5) p(2) b(1)] and ry = kblock_range [OF b(5) p(2) b(2)]
    obtain i j where "unat x - unat p = bsz b * i" "unat y - unat p = bsz b * j" using rx(3) ry(3) by (metis dvd_def)
    moreover have "unat x < unat y + bsz b" "unat y < unat x + bsz b" using a b by simp_all
    ultimately have "bsz b * i < bsz b * Suc j" "bsz b * j < bsz b * Suc i" using rx(1) ry(1) by (simp_all add: algebra_simps)
    then have "i = j" by (simp only: nat_mult_less_cancel_disj) simp
    then have "unat x = unat y" using \<open>unat x - unat p = bsz b * i\<close> \<open>unat y - unat p = bsz b * j\<close> rx(1) ry(1) by simp
    then show False using assms(4) by (simp add: word_unat_eq_iff)
  next
    case (Big q)
    then show False using pw pw' w assms(4) by auto
  qed
qed


lemma kheap_init_inv:
  assumes "pmm_ok s"
  shows "kheap_inv (kheap_init s) {}"
proof -
  have "kheap_rep (kheap_init s) (\<lambda>_. None) (\<lambda>_. None) (\<lambda>_. [])"
    using assms by (simp add: kheap_rep_def kheap_init_def NUM_BUCKETS_def)
  then show ?thesis unfolding kheap_inv_def by (intro exI conjI) (auto simp: kheap_live_def small_at_def)
qed

text \<open>An example: the heap on the page manager of the earlier examples, four free pages.\<close>

definition example_kheap0 :: kheap_globals where
  "example_kheap0 = ipc_globals.extend (work_globals.extend example_work
     \<lparr>ipc_msg_at = (\<lambda>_. ipc_msg_zero),
      endpoint_at = (\<lambda>_. \<lparr>ep_id = 0, q_head = NULL, q_tail = NULL, waiting_recv = NULL, ep_closed = False\<rparr>),
      s_ipc_msg_cache_inited = True, s_endpoint_cache_inited = True, s_next_endpoint_id = 1\<rparr>)
     \<lparr>g_freelist = replicate 8 NULL, free_next = (\<lambda>_. NULL), kheap_hdr_at = (\<lambda>_. poison_hdr), g_kheap_cur_bytes = 0, g_kheap_peak_bytes = 0,
      g_kheap_small_allocs = replicate 8 0, g_kheap_small_frees = replicate 8 0, g_kheap_big_alloc_calls = 0, g_kheap_big_free_calls = 0,
      g_kheap_fail_calls = 0, g_kheap_kmalloc_calls = 0, g_kheap_kfree_calls = 0, g_kheap_bucket_refills = replicate 8 0\<rparr>"

definition example_kheap :: kheap_globals where
  "example_kheap = kheap_init example_kheap0"

lemma example_kheap_facts: "kheap_inv example_kheap {}" "\<not> in_irq example_kheap" "free_pas example_kheap \<noteq> {}"
proof -
  have "like_example example_work"
    using example_sched0_like by (simp add: example_work_def sched_globals.defs like_example_def)
  then have l: "like_example example_kheap0" by (simp add: example_kheap0_def ipc_globals.defs work_globals.defs like_example_def)
  then have "slab_inv example_kheap0" using like_example_ready(1) by (auto simp: slab_ready_def)
  then have "pmm_ok example_kheap0" by (auto simp: slab_inv_def slab_rep_def)
  then show "kheap_inv example_kheap {}" unfolding example_kheap_def by (rule kheap_init_inv)
  show "\<not> in_irq example_kheap" using l by (simp add: example_kheap_def kheap_init_def in_irq_def like_example_def)
  have "free_pas example_kheap = free_pas example_kheap0" by (simp add: example_kheap_def kheap_init_def free_pas_def)
  then show "free_pas example_kheap \<noteq> {}" using like_example_ready(3) [OF l] by simp
qed

section \<open>Properties\<close>

text \<open>A client of the heap: \<open>H\<close> are the blocks it holds, with the sizes it asked for.\<close>

inductive kheap_run :: "'a kheap_globals_scheme \<Rightarrow> 'a kheap_globals_scheme \<Rightarrow> (ptr \<times> nat) set \<Rightarrow> bool" for s0 where
  kr_start: "kheap_run s0 s0 {}"
| kr_alloc: "kheap_run s0 s H \<Longrightarrow> unat sz < 2 ^ 43 \<Longrightarrow> kmalloc sz s = Ret (x, s') \<Longrightarrow> x \<noteq> NULL \<Longrightarrow> kheap_run s0 s' (insert (x, unat sz) H)"
| kr_fail: "kheap_run s0 s H \<Longrightarrow> unat sz < 2 ^ 43 \<Longrightarrow> kmalloc sz s = Ret (NULL, s') \<Longrightarrow> kheap_run s0 s' H"
| kr_free: "kheap_run s0 s H \<Longrightarrow> (x, n) \<in> H \<Longrightarrow> kfree x s = Ret s' \<Longrightarrow> kheap_run s0 s' (H - {(x, n)})"

lemma kheap_run_inv:
  assumes "kheap_run s0 s H" and "kheap_inv s0 {}" and "\<not> in_irq s0"
  shows "\<exists>L. kheap_inv s L \<and> \<not> in_irq s \<and> (\<forall>(x, n)\<in>H. \<exists>l\<ge>n. (x, l) \<in> L) \<and> inj_on fst H"
  using assms
proof (induction rule: kheap_run.induct)
  case kr_start
  then show ?case by auto
next
  case (kr_alloc s H sz x s')
  then obtain L where L: "kheap_inv s L" "\<not> in_irq s" "\<forall>(x, n)\<in>H. \<exists>l\<ge>n. (x, l) \<in> L" "inj_on fst H" by blast
  from kmalloc_spec [OF L(1,2) kr_alloc.hyps(2)] kr_alloc.hyps(3,4) obtain l where
    l: "\<not> in_irq s'" "unat sz \<le> l" "x \<notin> fst ` L" "kheap_inv s' (insert (x, l) L)" by auto
  have "x \<notin> fst ` H" using L(3) l(3) by force
  then show ?case using l L(3,4) by (intro exI [of _ "insert (x, l) L"]) (auto simp: inj_on_insert)
next
  case (kr_fail s H sz s')
  then obtain L where L: "kheap_inv s L" "\<not> in_irq s" "\<forall>(x, n)\<in>H. \<exists>l\<ge>n. (x, l) \<in> L" "inj_on fst H" by blast
  from kmalloc_spec [OF L(1,2) kr_fail.hyps(2)] kr_fail.hyps(3) L show ?case by auto
next
  case (kr_free s H x n s')
  then obtain L where L: "kheap_inv s L" "\<not> in_irq s" "\<forall>(x, n)\<in>H. \<exists>l\<ge>n. (x, l) \<in> L" "inj_on fst H" by blast
  then obtain l where l: "(x, l) \<in> L" using kr_free.hyps(2) by blast
  from kfree_spec [OF L(1,2) l] kr_free.hyps(3) have s': "\<not> in_irq s'" "kheap_inv s' (L - {(x, l)})" by auto
  have "y \<noteq> x" if "(y, m) \<in> H - {(x, n)}" for y m
    using that kr_free.hyps(2) inj_onD [OF L(4), of "(y, m)" "(x, n)"] by auto
  then have "\<forall>(y, m)\<in>H - {(x, n)}. \<exists>k\<ge>m. (y, k) \<in> L - {(x, l)}" using L(3) by fastforce
  then show ?case using s' L(4) by (intro exI [of _ "L - {(x, l)}"]) (auto intro: inj_on_diff)
qed

text \<open>
  C19: the blocks of the kernel heap. Whatever a client allocates (requests below 2^43 bytes) and frees,
  the blocks it holds never overlap: each has at least the bytes that were asked for, in its own memory;
  and every further request and every free of a held block returns, without a panic and without an
  endless loop.
\<close>

theorem kheap_blocks_disjoint:
  assumes "kheap_run s0 s H" and "kheap_inv s0 {}" and "\<not> in_irq s0"
  shows "(\<forall>(x, n)\<in>H. \<forall>(y, m)\<in>H. x \<noteq> y \<longrightarrow> {unat x..<unat x + n} \<inter> {unat y..<unat y + m} = {}) \<and>
    (\<forall>sz. unat sz < 2 ^ 43 \<longrightarrow> (\<exists>x s'. kmalloc sz s = Ret (x, s') \<and> x \<notin> fst ` H)) \<and> (\<forall>(x, n)\<in>H. \<exists>s'. kfree x s = Ret s')"
proof -
  obtain L where L: "kheap_inv s L" "\<not> in_irq s" "\<forall>(x, n)\<in>H. \<exists>l\<ge>n. (x, l) \<in> L" using kheap_run_inv [OF assms] by blast
  have "{unat x..<unat x + n} \<inter> {unat y..<unat y + m} = {}" if h: "(x, n) \<in> H" "(y, m) \<in> H" "x \<noteq> y" for x n y m
  proof -
    obtain l k where lk: "n \<le> l" "(x, l) \<in> L" "m \<le> k" "(y, k) \<in> L" using L(3) h(1,2) by blast
    have "{unat x..<unat x + n} \<subseteq> {unat x..<unat x + l}" "{unat y..<unat y + m} \<subseteq> {unat y..<unat y + k}" using lk(1,3) by auto
    then show ?thesis using live_disjoint [OF L(1) lk(2,4) h(3)] by blast
  qed
  moreover have "\<exists>x s'. kmalloc sz s = Ret (x, s') \<and> x \<notin> fst ` H" if h: "unat sz < 2 ^ 43" for sz
  proof -
    obtain x s' where x: "kmalloc sz s = Ret (x, s')" "x \<noteq> NULL \<Longrightarrow> x \<notin> fst ` L"
      using kmalloc_spec [OF L(1,2) h] by (auto split: if_splits)
    have "NULL \<notin> fst ` L"
    proof -
      obtain OW BG FL where rep: "kheap_rep s OW BG FL" and "L = kheap_live OW BG FL" using L(1) by (auto simp: kheap_inv_def)
      moreover have "q + 8 \<noteq> NULL" if "BG q = Some n" for q n using big_addr(2) [OF rep that] by (metis unat_0 add_is_0 zero_neq_numeral)
      ultimately show ?thesis using small_page(4) [OF rep] unfolding kheap_live_def by force
    qed
    then have "x \<notin> fst ` L" using x(2) by (cases "x = NULL") simp_all
    then show ?thesis using x(1) L(3) by force
  qed
  moreover have "\<exists>s'. kfree x s = Ret s'" if "(x, n) \<in> H" for x n
    using that L(3) kfree_spec [OF L(1,2)] by blast
  ultimately show ?thesis by blast
qed

theorem kheap_blocks_disjoint_witness:
  "\<exists>x s' y s''. kmalloc 100 example_kheap = Ret (x, s') \<and> kmalloc 9000 s' = Ret (y, s'') \<and>
     (x \<noteq> NULL \<longrightarrow> y \<noteq> NULL \<longrightarrow> {unat x..<unat x + 100} \<inter> {unat y..<unat y + 9000} = {})"
proof -
  note f = example_kheap_facts(1,2)
  have sz: "unat (100 :: u64) < 2 ^ 43" "unat (9000 :: u64) < 2 ^ 43" by simp_all
  obtain x s' where x: "kmalloc 100 example_kheap = Ret (x, s')" using kheap_blocks_disjoint [OF kr_start f] sz by blast
  show ?thesis
  proof (cases "x = NULL")
    case True
    then obtain y s'' where "kmalloc 9000 s' = Ret (y, s'')"
      using kheap_blocks_disjoint [OF kr_fail [OF kr_start sz(1)] f, of s'] x sz(2) by blast
    then show ?thesis using x True by blast
  next
    case False
    note r1 = kr_alloc [OF kr_start sz(1) x False]
    obtain y s'' where y: "kmalloc 9000 s' = Ret (y, s'')" "y \<notin> fst ` {(x, unat (100 :: u64))}"
      using kheap_blocks_disjoint [OF r1 f] sz(2) by blast
    have "{unat x..<unat x + 100} \<inter> {unat y..<unat y + 9000} = {}" if "y \<noteq> NULL"
      using kheap_blocks_disjoint [OF kr_alloc [OF r1 sz(2) y(1) that] f] y(2) by auto
    then show ?thesis using x y(1) by blast
  qed
qed

text \<open>
  a request of 2^44 bytes is granted with one page. The page count is computed in 64 bits and then
  stored in 32, so the request succeeds as soon as one page is free, and the block it gets has 4088
  usable bytes.
\<close>

theorem kmalloc_truncates_page_count:
  assumes i: "kheap_inv s L" and irq: "\<not> in_irq s" and mem: "free_pas s \<noteq> {}"
  shows "\<exists>x s'. kmalloc 0x100000000000 s = Ret (x, s') \<and> x \<noteq> NULL \<and> kheap_inv s' (insert (x, 4088) L)"
proof -
  let ?s = "s\<lparr>g_kheap_kmalloc_calls := g_kheap_kmalloc_calls s + 1\<rparr>"
  have i0: "kheap_inv ?s L" using i by (simp add: kheap_inv_def)
  have irq0: "\<not> in_irq ?s" "free_pas ?s \<noteq> {}" using irq mem by (simp_all add: in_irq_def free_pas_def)
  have n: "(ucast (align_up_4k (0x100000000000 + sizeof_big_alloc_hdr) div PAGE_SIZE) :: u32) = 1"
    by (simp add: align_up_4k_def sizeof_big_alloc_hdr_def PAGE_SIZE_def)
  have b: "bucket_for_size 0x100000000000 = None" by (simp add: bucket_for_size_def g_bucket_sizes_def)
  from kmalloc_big_pages [OF i0 irq0(1), of "0x100000000000", unfolded n] irq0(2) obtain x s' where
    "kmalloc_big 0x100000000000 ?s = Ret (x, s')" "x \<noteq> NULL" "kheap_inv s' (insert (x, 4088) L)" by auto
  then show ?thesis using irq b by (simp add: kmalloc_def Let_def)
qed


theorem kmalloc_truncates_page_count_witness:
  "\<exists>x s'. kmalloc 0x100000000000 example_kheap = Ret (x, s') \<and> x \<noteq> NULL \<and> kheap_inv s' {(x, 4088)}"
  using kmalloc_truncates_page_count [OF example_kheap_facts] by simp

end
