(* ===== verification/Boot_Disk.thy ===== *)
theory Boot_Disk
  imports Mem
begin

unbundle bit_operations_syntax

text \<open>
  The disk as the loader sees it and the search for the boot partition in the GUID partition table
  (\<open>Kern/Loader/loader.c\<close>). A block device is a function from a sector number to what a one-sector read
  at that number returns: the success flag of \<open>boot_block_read\<close> and the contents the caller's buffer
  has afterwards, also after a failed read.
\<close>

type_synonym blkdev = "u64 \<Rightarrow> bool \<times> u8 list"

definition LOADER_SECTOR_SIZE :: nat where
  "LOADER_SECTOR_SIZE = 512"

section \<open>Endian helpers\<close>

definition read_le16 :: "u8 list \<Rightarrow> u16" where
  "read_le16 p = ucast (p ! 0) OR push_bit 8 (ucast (p ! 1))"

definition read_le32 :: "u8 list \<Rightarrow> u32" where
  "read_le32 p = ucast (p ! 0) OR push_bit 8 (ucast (p ! 1)) OR push_bit 16 (ucast (p ! 2)) OR push_bit 24 (ucast (p ! 3))"

definition read_le64 :: "u8 list \<Rightarrow> u64" where
  "read_le64 p = ucast (read_le32 p) OR push_bit 32 (ucast (read_le32 (drop 4 p)))"

definition read_be32 :: "u8 list \<Rightarrow> u32" where
  "read_be32 p = push_bit 24 (ucast (p ! 0)) OR push_bit 16 (ucast (p ! 1)) OR push_bit 8 (ucast (p ! 2)) OR ucast (p ! 3)"

section \<open>Partition search\<close>

text \<open>
  An entry pointer is a buffer and an offset. An access past the end of the buffer is undefined in C;
  here it is the outcome \<open>Panic\<close> with the message below.
\<close>

definition oob :: string where
  "oob = ''out-of-bounds read''"

definition byte_at :: "u8 list \<Rightarrow> nat \<Rightarrow> u8 outcome" where
  "byte_at buf i = kassert (i < length buf) oob (Ret (buf ! i))"

definition gpt_guid_efi_system :: "u8 list" where
  "gpt_guid_efi_system =
     [0x28, 0x73, 0x2A, 0xC1, 0x1F, 0xF8, 0xD2, 0x11, 0xBA, 0x4B, 0x00, 0xA0, 0xC9, 0x3E, 0xC9, 0x3B]"

definition gpt_guid_ms_basic :: "u8 list" where
  "gpt_guid_ms_basic =
     [0xA2, 0xA0, 0xD0, 0xEB, 0xE5, 0xB9, 0x33, 0x44, 0x87, 0xC0, 0x68, 0xB6, 0xB7, 0x26, 0x99, 0xC7]"

fun guid_zero_loop :: "u8 list \<Rightarrow> nat \<Rightarrow> nat \<Rightarrow> bool outcome" where
  "guid_zero_loop buf g 0 = Ret True"
| "guid_zero_loop buf g (Suc k) =
     obind (byte_at buf g) (\<lambda>b. if b \<noteq> 0 then Ret False else guid_zero_loop buf (Suc g) k)"

definition guid_is_zero :: "u8 list \<Rightarrow> nat \<Rightarrow> bool outcome" where
  "guid_is_zero buf g = guid_zero_loop buf g 16"

fun guid_equals :: "u8 list \<Rightarrow> nat \<Rightarrow> u8 list \<Rightarrow> bool outcome" where
  "guid_equals buf a [] = Ret True"
| "guid_equals buf a (b # bs) =
     obind (byte_at buf a) (\<lambda>x. if x \<noteq> b then Ret False else guid_equals buf (Suc a) bs)"

definition read_le64_at :: "u8 list \<Rightarrow> nat \<Rightarrow> u64 outcome" where
  "read_le64_at buf i = kassert (i + 8 \<le> length buf) oob (Ret (read_le64 (drop i buf)))"

text \<open>The loop over the entries \<open>i\<close>, \<open>i + 1\<close>, ... with \<open>k\<close> of them left.\<close>

fun gpt_scan :: "blkdev \<Rightarrow> u64 \<Rightarrow> u32 \<Rightarrow> nat \<Rightarrow> nat \<Rightarrow> u64 \<Rightarrow> u8 list \<Rightarrow> u64 \<Rightarrow> u64 outcome" where
  "gpt_scan dev entries_lba entry_size i 0 cur_lba sector fallback_first_lba = Ret fallback_first_lba"
| "gpt_scan dev entries_lba entry_size i (Suc k) cur_lba sector fallback_first_lba =
     (let pos = of_nat i * ucast entry_size :: u64;
          entry_lba = entries_lba + pos div of_nat LOADER_SECTOR_SIZE;
          entry = unat (ucast (pos mod of_nat LOADER_SECTOR_SIZE) :: u32);
          rd = (if entry_lba \<noteq> cur_lba then dev entry_lba else (True, sector)) in
      if \<not> fst rd then Ret 0 else
      let buf = snd rd in
      obind (guid_is_zero buf entry) (\<lambda>z.
        if z then gpt_scan dev entries_lba entry_size (Suc i) k entry_lba buf fallback_first_lba else
        obind (read_le64_at buf (entry + 32)) (\<lambda>first_lba.
          if first_lba = 0 then gpt_scan dev entries_lba entry_size (Suc i) k entry_lba buf fallback_first_lba else
          let fb = (if fallback_first_lba = 0 then first_lba else fallback_first_lba) in
          obind (guid_equals buf entry gpt_guid_efi_system) (\<lambda>efi.
            obind (if efi then Ret True else guid_equals buf entry gpt_guid_ms_basic) (\<lambda>known.
              if \<not> known then gpt_scan dev entries_lba entry_size (Suc i) k entry_lba buf fb
              else Ret first_lba)))))"

definition gpt_find_partition_lba :: "blkdev \<Rightarrow> u64 outcome" where
  "gpt_find_partition_lba dev =
     (let (ok, sector) = dev 1 in
      if \<not> ok then Ret 0 else
      if take 8 sector \<noteq> [0x45, 0x46, 0x49, 0x20, 0x50, 0x41, 0x52, 0x54] then Ret 0 else
      let entries_lba = read_le64 (drop 72 sector);
          num_entries = read_le32 (drop 80 sector);
          entry_size = read_le32 (drop 84 sector) in
      if entries_lba = 0 \<or> num_entries = 0 \<or> entry_size < 128 \<or> of_nat LOADER_SECTOR_SIZE < entry_size then Ret 0
      else gpt_scan dev entries_lba entry_size 0 (unat num_entries) (- 1) sector 0)"

section \<open>Reference: the table as a list of entries\<close>

record gpt_entry =
  type_guid :: "u8 list"
  first_lba :: u64

definition gpt_entry_at :: "blkdev \<Rightarrow> u64 \<Rightarrow> u32 \<Rightarrow> nat \<Rightarrow> gpt_entry" where
  "gpt_entry_at dev entries_lba entry_size i =
     (let pos = i * unat entry_size;
          e = drop (pos mod 512) (snd (dev (entries_lba + of_nat (pos div 512)))) in
      \<lparr>type_guid = take 16 e, first_lba = read_le64 (drop 32 e)\<rparr>)"

definition gpt_used :: "gpt_entry \<Rightarrow> bool" where
  "gpt_used e \<longleftrightarrow> type_guid e \<noteq> replicate 16 0 \<and> first_lba e \<noteq> 0"

definition gpt_bootable :: "gpt_entry \<Rightarrow> bool" where
  "gpt_bootable e \<longleftrightarrow> gpt_used e \<and> type_guid e \<in> {gpt_guid_efi_system, gpt_guid_ms_basic}"

text \<open>The first bootable entry, else the first used one, else none.\<close>

definition gpt_choice :: "gpt_entry list \<Rightarrow> u64" where
  "gpt_choice es =
     (case find gpt_bootable es of Some e \<Rightarrow> first_lba e
      | None \<Rightarrow> (case find gpt_used es of Some e \<Rightarrow> first_lba e | None \<Rightarrow> 0))"

text \<open>Every sector of the table reads, and no entry crosses the end of its sector.\<close>

definition gpt_table_ok :: "blkdev \<Rightarrow> u64 \<Rightarrow> u32 \<Rightarrow> nat \<Rightarrow> bool" where
  "gpt_table_ok dev entries_lba entry_size n \<longleftrightarrow>
     unat entries_lba + n * unat entry_size div 512 < 2 ^ 64 - 1 \<and>
     (\<forall>i<n. (i * unat entry_size) mod 512 + 40 \<le> 512 \<and>
       (let r = dev (entries_lba + of_nat (i * unat entry_size div 512)) in fst r \<and> length (snd r) = 512))"

section \<open>The search finds the chosen entry\<close>

lemma guid_zero_loop_eq:
  "g + k \<le> length buf \<Longrightarrow> guid_zero_loop buf g k = Ret (take k (drop g buf) = replicate k 0)"
proof (induction k arbitrary: g)
  case 0
  then show ?case by simp
next
  case (Suc k)
  then have "drop g buf = buf ! g # drop (Suc g) buf" by (simp add: Cons_nth_drop_Suc)
  then show ?case using Suc by (auto simp: byte_at_def)
qed

lemma guid_equals_eq:
  "g + length bs \<le> length buf \<Longrightarrow> guid_equals buf g bs = Ret (take (length bs) (drop g buf) = bs)"
proof (induction bs arbitrary: g)
  case Nil
  then show ?case by simp
next
  case (Cons b bs)
  then have "drop g buf = buf ! g # drop (Suc g) buf" by (simp add: Cons_nth_drop_Suc)
  then show ?case using Cons by (auto simp: byte_at_def)
qed

lemma gpt_choice_Cons:
  "gpt_choice (e # es) =
     (if gpt_bootable e then first_lba e
      else case find gpt_bootable es of Some e' \<Rightarrow> first_lba e'
        | None \<Rightarrow> if gpt_used e then first_lba e else gpt_choice es)"
  by (auto simp: gpt_choice_def split: option.splits)

text \<open>What the scan returns with the fallback found so far.\<close>

definition gpt_result :: "u64 \<Rightarrow> gpt_entry list \<Rightarrow> u64" where
  "gpt_result fb es =
     (case find gpt_bootable es of Some e \<Rightarrow> first_lba e
      | None \<Rightarrow> if fb \<noteq> 0 then fb else (case find gpt_used es of Some e \<Rightarrow> first_lba e | None \<Rightarrow> 0))"

lemma gpt_result_Cons:
  "gpt_result fb (e # es) =
     (if gpt_bootable e then first_lba e
      else gpt_result (if fb = 0 \<and> gpt_used e then first_lba e else fb) es)"
  by (auto simp: gpt_result_def gpt_used_def split: option.splits)

lemma gpt_position:
  assumes "i * unat (es :: u32) < 2 ^ 64"
  shows "(of_nat i * ucast es :: u64) div of_nat LOADER_SECTOR_SIZE = of_nat (i * unat es div 512)"
    and "unat (ucast ((of_nat i * ucast es :: u64) mod of_nat LOADER_SECTOR_SIZE) :: u32) = i * unat es mod 512"
proof -
  have u: "unat (of_nat i * ucast es :: u64) = i * unat es"
    using assms by (simp add: unat_word_ariths unat_of_nat mod_mult_left_eq)
  have "i * unat es div 512 < 2 ^ 64" using assms by (meson div_le_dividend order_le_less_trans)
  then show "(of_nat i * ucast es :: u64) div of_nat LOADER_SECTOR_SIZE = of_nat (i * unat es div 512)"
    using u by (simp add: LOADER_SECTOR_SIZE_def word_unat_eq_iff unat_div unat_of_nat)
  have "unat ((of_nat i * ucast es :: u64) mod of_nat LOADER_SECTOR_SIZE) = i * unat es mod 512"
    using u by (simp add: LOADER_SECTOR_SIZE_def unat_mod)
  then show "unat (ucast ((of_nat i * ucast es :: u64) mod of_nat LOADER_SECTOR_SIZE) :: u32) = i * unat es mod 512"
    by (simp add: unsigned_ucast_eq take_bit_nat_eq_self less_trans [OF mod_less_divisor])
qed


lemma gpt_scan_eq:
  assumes ok: "gpt_table_ok dev el es n" and "i + k = n" and n: "n \<le> 2 ^ 32"
    and cur: "cur = - 1 \<or> dev cur = (True, sector)"
  shows "gpt_scan dev el es i k cur sector fb = Ret (gpt_result fb (map (gpt_entry_at dev el es) [i..<n]))"
  using assms(2,4)
proof (induction k arbitrary: i cur sector fb)
  case 0
  then show ?case by (simp add: gpt_result_def)
next
  case (Suc k)
  let ?pos = "i * unat es" and ?e = "gpt_entry_at dev el es i"
  let ?lba = "el + of_nat (?pos div 512)"
  have i: "i < n" using Suc.prems(1) by simp
  have es: "unat es < 2 ^ 32" using unsigned_less [of es] by simp
  have "?pos < 2 ^ 32 * 2 ^ 32" using i n es by (intro mult_strict_mono) auto
  then have p: "?pos < 2 ^ 64" by simp
  have rd: "fst (dev ?lba)" "length (snd (dev ?lba)) = 512" "?pos mod 512 + 40 \<le> 512"
    using ok i by (simp_all add: gpt_table_ok_def Let_def)
  have "?pos div 512 \<le> n * unat es div 512" using i by (intro div_le_mono mult_le_mono1) simp
  then have lt: "unat el + ?pos div 512 < 2 ^ 64 - 1" using ok by (simp add: gpt_table_ok_def)
  then have "unat ?lba = unat el + ?pos div 512" by (simp add: unat_word_ariths unat_of_nat)
  moreover have "unat (- 1 :: u64) = 2 ^ 64 - 1" by (simp add: unsigned_minus_1_eq_mask mask_eq_exp_minus_1)
  ultimately have neq: "?lba \<noteq> - 1" using lt by (metis less_irrefl)
  define buf where "buf = snd (dev ?lba)"
  have dv: "dev ?lba = (True, buf)" using rd(1) by (simp add: buf_def prod_eq_iff)
  have cur': "(if ?lba \<noteq> cur then dev ?lba else (True, sector)) = (True, buf)" using Suc.prems(2) neq dv by auto
  have b: "length buf = 512" using rd(2) by (simp add: buf_def)
  have e: "type_guid ?e = take 16 (drop (?pos mod 512) buf)" "first_lba ?e = read_le64 (drop (?pos mod 512 + 32) buf)"
    by (simp_all add: gpt_entry_at_def Let_def buf_def add.commute)
  have IH: "gpt_scan dev el es (Suc i) k ?lba buf f = Ret (gpt_result f (map (gpt_entry_at dev el es) [Suc i..<n]))" for f
    using Suc.prems(1) dv by (intro Suc.IH) auto
  have z: "guid_is_zero buf (?pos mod 512) = Ret (type_guid ?e = replicate 16 0)"
    using rd(3) b e(1) by (simp add: guid_is_zero_def guid_zero_loop_eq)
  have q: "guid_equals buf (?pos mod 512) g = Ret (type_guid ?e = g)" if "length g = 16" for g
    using that rd(3) b e(1) guid_equals_eq [of "?pos mod 512" g buf] by simp
  have f: "read_le64_at buf (?pos mod 512 + 32) = Ret (first_lba ?e)"
    using rd(3) b e(2) by (simp add: read_le64_at_def)
  have up: "map (gpt_entry_at dev el es) [i..<n] = ?e # map (gpt_entry_at dev el es) [Suc i..<n]"
    using i by (simp add: upt_conv_Cons)
  have g: "length gpt_guid_efi_system = 16" "length gpt_guid_ms_basic = 16"
    by (simp_all add: gpt_guid_efi_system_def gpt_guid_ms_basic_def)
  show ?case
    unfolding up gpt_result_Cons gpt_scan.simps Let_def gpt_position [OF p] cur' fst_conv snd_conv z obind.simps f q [OF g(1)] q [OF g(2)] IH
    by (auto simp: gpt_bootable_def gpt_used_def)
qed

text \<open>
  C26: on a disk whose partition table is readable and whose entries do not cross sectors, the partition
  search returns, and its result is the first entry of a known type, or else the first entry in use, or
  else 0.
\<close>

theorem gpt_find_partition_correct:
  assumes hdr: "dev 1 = (True, sector)" "take 8 sector = [0x45, 0x46, 0x49, 0x20, 0x50, 0x41, 0x52, 0x54]"
    and lba: "read_le64 (drop 72 sector) = el" "el \<noteq> 0"
    and num: "read_le32 (drop 80 sector) = n" "n \<noteq> 0"
    and size: "read_le32 (drop 84 sector) = es" "128 \<le> es" "es \<le> 512"
    and ok: "gpt_table_ok dev el es (unat n)"
  shows "gpt_find_partition_lba dev = Ret (gpt_choice (map (gpt_entry_at dev el es) [0..<unat n]))"
proof -
  have "unat n < 2 ^ 32" using unsigned_less [of n] by simp
  then have "gpt_scan dev el es 0 (unat n) (- 1) sector 0
      = Ret (gpt_result 0 (map (gpt_entry_at dev el es) [0..<unat n]))"
    using ok by (intro gpt_scan_eq) auto
  moreover have "gpt_result 0 = gpt_choice" by (auto simp: gpt_result_def gpt_choice_def)
  moreover have "\<not> es < 128" "\<not> 512 < es" using size by (simp_all add: not_less)
  ultimately show ?thesis
    using assms by (simp add: gpt_find_partition_lba_def Let_def LOADER_SECTOR_SIZE_def)
qed

text \<open>A disk given by its non-empty sectors; every other sector is full of zeros.\<close>

definition sector_of :: "u8 list \<Rightarrow> u8 list" where
  "sector_of bs = bs @ replicate (512 - length bs) 0"

definition disk_of :: "(u64 \<times> u8 list) list \<Rightarrow> blkdev" where
  "disk_of secs lba = (True, sector_of (case map_of secs lba of Some bs \<Rightarrow> bs | None \<Rightarrow> []))"

lemma disk_of_sector: "length (case map_of secs lba of Some bs \<Rightarrow> bs | None \<Rightarrow> []) \<le> 512 \<Longrightarrow>
    fst (disk_of secs lba) \<and> length (snd (disk_of secs lba)) = 512"
  by (simp add: disk_of_def sector_of_def)

definition gpt_header_bytes :: "u8 \<Rightarrow> u8 \<Rightarrow> u8 list" where
  "gpt_header_bytes n es =
     [0x45, 0x46, 0x49, 0x20, 0x50, 0x41, 0x52, 0x54] @ replicate 64 0 @ [2, 0, 0, 0, 0, 0, 0, 0] @ [n, 0, 0, 0] @ [es, 0, 0, 0]"

definition gpt_entry_bytes :: "u8 list \<Rightarrow> u8 \<Rightarrow> u8 list" where
  "gpt_entry_bytes g lba = g @ replicate 16 0 @ [lba, 0, 0, 0, 0, 0, 0, 0] @ replicate 88 0"

text \<open>Two entries: one of an unknown type at sector 9, then a basic data partition at sector 4.\<close>

definition example_gpt :: blkdev where
  "example_gpt =
     disk_of [(1, gpt_header_bytes 2 128),
              (2, gpt_entry_bytes (replicate 16 7) 9 @ gpt_entry_bytes gpt_guid_ms_basic 4)]"

theorem gpt_find_partition_correct_witness: "gpt_find_partition_lba example_gpt = Ret 4"
proof -
  have h: "gpt_find_partition_lba example_gpt = Ret (gpt_choice (map (gpt_entry_at example_gpt 2 128) [0..<unat (2 :: u32)]))"
  proof (rule gpt_find_partition_correct)
    show "example_gpt 1 = (True, sector_of (gpt_header_bytes 2 128))" by (simp add: example_gpt_def disk_of_def)
    have "fst (example_gpt 2) \<and> length (snd (example_gpt 2)) = 512"
      unfolding example_gpt_def by (rule disk_of_sector) (simp add: gpt_entry_bytes_def gpt_guid_ms_basic_def)
    then show "gpt_table_ok example_gpt 2 128 (unat (2 :: u32))"
      by (auto simp: gpt_table_ok_def dest: less_2_cases)
  qed (code_simp+)
  have "gpt_choice (map (gpt_entry_at example_gpt 2 128) [0..<unat (2 :: u32)]) = 4" by code_simp
  with h show ?thesis by simp
qed

text \<open>
  entries of 168 bytes pass the checks of the header, but the fourth of them starts 8 bytes before the
  end of its sector, and the search reads past the end of its sector buffer.
\<close>

theorem gpt_entry_across_sector_overread:
  "gpt_find_partition_lba (disk_of [(1, gpt_header_bytes 4 168)]) = Panic oob"
  by code_simp

end
