(* ===== verification/Fat16.thy ===== *)
theory Fat16
  imports Boot_Disk
begin

unbundle bit_operations_syntax

text \<open>
  The FAT16 reader of the loader (\<open>Kern/Loader/loader.c\<close>): parsing the volume, following cluster chains
  through a one-sector cache of the allocation table, looking up a path and reading a range of a file.
  Paths and names are byte lists without the terminating zero. A reader that stores through a pointer
  returns the bytes it stored, in order, also when it fails half way.
\<close>

section \<open>Volume\<close>

record fat16_volume =
  part_lba :: u64
  bytes_per_sector :: u16
  sectors_per_cluster :: u8
  reserved_sectors :: u16
  num_fats :: u8
  root_entry_count :: u16
  sectors_per_fat :: u16
  total_sectors :: u32
  fat_start_lba :: u32
  root_dir_lba :: u32
  root_dir_sectors :: u32
  data_start_lba :: u32

record fat16_dirent =
  de_name :: "u8 list"
  de_attr :: u8
  de_first_cluster :: u16
  de_size :: u32

definition fat16_parse :: "blkdev \<Rightarrow> u64 \<Rightarrow> fat16_volume option" where
  "fat16_parse dev plba =
     (let (ok, sector) = dev plba in
      if \<not> ok then None else
      if sector ! 510 \<noteq> 0x55 \<or> sector ! 511 \<noteq> 0xAA then None else
      let bps = read_le16 (drop 11 sector);
          spc = sector ! 13;
          reserved = read_le16 (drop 14 sector);
          fats = sector ! 16;
          root_entries = read_le16 (drop 17 sector);
          total16 = read_le16 (drop 19 sector);
          spf16 = read_le16 (drop 22 sector);
          total32 = read_le32 (drop 32 sector) in
      if bps \<noteq> of_nat LOADER_SECTOR_SIZE then None else
      if spc = 0 \<or> reserved = 0 \<or> fats = 0 \<or> spf16 = 0 then None else
      if root_entries = 0 then None else
      let total = (if total16 \<noteq> 0 then ucast total16 else total32) in
      if total = 0 then None else
      let root_sectors = (ucast root_entries * 32 + (ucast bps - 1)) div ucast bps;
          fat_start = ucast (plba + ucast reserved);
          root_lba = fat_start + ucast fats * ucast spf16;
          data_start = root_lba + root_sectors in
      Some \<lparr>part_lba = plba, bytes_per_sector = bps, sectors_per_cluster = spc, reserved_sectors = reserved,
            num_fats = fats, root_entry_count = root_entries, sectors_per_fat = spf16, total_sectors = total,
            fat_start_lba = fat_start, root_dir_lba = root_lba, root_dir_sectors = root_sectors,
            data_start_lba = data_start\<rparr>)"

section \<open>Clusters\<close>

definition fat16_cluster_to_lba :: "fat16_volume \<Rightarrow> u16 \<Rightarrow> u64" where
  "fat16_cluster_to_lba vol cluster =
     ucast (data_start_lba vol) + (ucast cluster - 2) * ucast (sectors_per_cluster vol)"

text \<open>The static variables of \<open>fat16_next_cluster\<close>.\<close>

record fat_cache =
  cached_lba :: u64
  cached_sector :: "u8 list"

definition fat_cache_initial :: fat_cache where
  "fat_cache_initial = \<lparr>cached_lba = - 1, cached_sector = replicate LOADER_SECTOR_SIZE 0\<rparr>"

definition fat16_next_cluster :: "blkdev \<Rightarrow> fat16_volume \<Rightarrow> u16 \<Rightarrow> fat_cache \<Rightarrow> u16 \<times> fat_cache" where
  "fat16_next_cluster dev vol cluster cache =
     (let fat_offset = ucast cluster * 2 :: u32;
          fat_lba = ucast (fat_start_lba vol) + ucast (fat_offset div of_nat LOADER_SECTOR_SIZE);
          fat_off = fat_offset mod of_nat LOADER_SECTOR_SIZE;
          (ok, cache') =
            (if fat_lba \<noteq> cached_lba cache
             then (case dev fat_lba of (ok, sector) \<Rightarrow>
                     (ok, if ok then \<lparr>cached_lba = fat_lba, cached_sector = sector\<rparr>
                          else cache\<lparr>cached_sector := sector\<rparr>))
             else (True, cache)) in
      (if ok then read_le16 (drop (unat fat_off) (cached_sector cache')) else 0xFFFF, cache'))"

definition fat16_is_eoc :: "u16 \<Rightarrow> bool" where
  "fat16_is_eoc cluster \<longleftrightarrow> 0xFFF8 \<le> cluster"

section \<open>Names\<close>

definition to_upper_ascii :: "u8 \<Rightarrow> u8" where
  "to_upper_ascii c = (if 0x61 \<le> c \<and> c \<le> 0x7A then c - 0x61 + 0x41 else c)"

text \<open>The search for the only dot: \<open>None\<close> when there are two.\<close>

fun find_dot :: "u8 list \<Rightarrow> nat \<Rightarrow> nat option \<Rightarrow> nat option option" where
  "find_dot [] i dot = Some dot"
| "find_dot (c # cs) i dot =
     (if c = 0x2E then if dot \<noteq> None then None else find_dot cs (Suc i) (Some i) else find_dot cs (Suc i) dot)"

fun put_upper :: "u8 list \<Rightarrow> nat \<Rightarrow> u8 list \<Rightarrow> u8 list" where
  "put_upper out i [] = out"
| "put_upper out i (c # cs) = put_upper (out[i := to_upper_ascii c]) (Suc i) cs"

definition make_short_name :: "u8 list \<Rightarrow> u8 list option" where
  "make_short_name name =
     (if name = [] then None else
      case find_dot name 0 None of None \<Rightarrow> None
      | Some dot \<Rightarrow>
        let base_len = (case dot of Some d \<Rightarrow> d | None \<Rightarrow> length name);
            ext = (case dot of Some d \<Rightarrow> drop (d + 1) name | None \<Rightarrow> []) in
        if base_len = 0 \<or> 8 < base_len \<or> 3 < length ext then None
        else Some (put_upper (put_upper (replicate 11 0x20) 0 (take base_len name)) 8 ext))"

definition name_matches :: "u8 list \<Rightarrow> u8 list \<Rightarrow> bool" where
  "name_matches entry_name target = list_all (\<lambda>i. entry_name ! i = target ! i) [0..<11]"

section \<open>Directories\<close>

text \<open>The scan of the entries of one sector ends the search, finds the entry, or goes on.\<close>

datatype scan = Scan_end | Scan_hit fat16_dirent | Scan_more

definition dirent_of :: "u8 list \<Rightarrow> fat16_dirent" where
  "dirent_of e = \<lparr>de_name = take 11 e, de_attr = e ! 11, de_first_cluster = read_le16 (drop 26 e), de_size = read_le32 (drop 28 e)\<rparr>"

fun scan_sector :: "u8 list \<Rightarrow> u8 list \<Rightarrow> nat \<Rightarrow> nat \<Rightarrow> scan" where
  "scan_sector sector target off 0 = Scan_more"
| "scan_sector sector target off (Suc k) =
     (let first = sector ! off; attr = sector ! (off + 11) in
      if first = 0 then Scan_end
      else if first = 0xE5 then scan_sector sector target (off + 32) k
      else if attr = 0x0F then scan_sector sector target (off + 32) k
      else if attr AND 0x08 \<noteq> 0 then scan_sector sector target (off + 32) k
      else if name_matches (drop off sector) target then Scan_hit (dirent_of (drop off sector))
      else scan_sector sector target (off + 32) k)"

fun root_loop :: "blkdev \<Rightarrow> u32 \<Rightarrow> u8 list \<Rightarrow> nat \<Rightarrow> nat \<Rightarrow> fat16_dirent option" where
  "root_loop dev lba target s 0 = None"
| "root_loop dev lba target s (Suc k) =
     (let (ok, sector) = dev (ucast (lba + of_nat s)) in
      if \<not> ok then None else
      case scan_sector sector target 0 16 of
        Scan_end \<Rightarrow> None
      | Scan_hit e \<Rightarrow> Some e
      | Scan_more \<Rightarrow> root_loop dev lba target (Suc s) k)"

definition fat16_find_in_root :: "blkdev \<Rightarrow> fat16_volume \<Rightarrow> u8 list \<Rightarrow> fat16_dirent option" where
  "fat16_find_in_root dev vol target = root_loop dev (root_dir_lba vol) target 0 (unat (root_dir_sectors vol))"

fun cluster_scan :: "blkdev \<Rightarrow> u64 \<Rightarrow> u8 list \<Rightarrow> nat \<Rightarrow> nat \<Rightarrow> scan" where
  "cluster_scan dev lba target s 0 = Scan_more"
| "cluster_scan dev lba target s (Suc k) =
     (let (ok, sector) = dev (lba + of_nat s) in
      if \<not> ok then Scan_end else
      case scan_sector sector target 0 16 of
        Scan_more \<Rightarrow> cluster_scan dev lba target (Suc s) k
      | r \<Rightarrow> r)"

text \<open>The walk along the directory's clusters; it does not end when they form a cycle.\<close>

partial_function (option) dir_loop ::
    "blkdev \<Rightarrow> fat16_volume \<Rightarrow> u8 list \<Rightarrow> u16 \<Rightarrow> fat_cache \<Rightarrow> (fat16_dirent option \<times> fat_cache) option" where
  "dir_loop dev vol target cluster cache =
     (if 2 \<le> cluster \<and> \<not> fat16_is_eoc cluster
      then case cluster_scan dev (fat16_cluster_to_lba vol cluster) target 0 (unat (sectors_per_cluster vol)) of
             Scan_end \<Rightarrow> Some (None, cache)
           | Scan_hit e \<Rightarrow> Some (Some e, cache)
           | Scan_more \<Rightarrow>
               (case fat16_next_cluster dev vol cluster cache of (c, cache') \<Rightarrow> dir_loop dev vol target c cache')
      else Some (None, cache))"

definition fat16_find_in_dir ::
    "blkdev \<Rightarrow> fat16_volume \<Rightarrow> u16 \<Rightarrow> u8 list \<Rightarrow> fat_cache \<Rightarrow> (fat16_dirent option \<times> fat_cache) outcome" where
  "fat16_find_in_dir dev vol dir_cluster target cache =
     (if dir_cluster = 0 then Ret (fat16_find_in_root dev vol target, cache)
      else of_loop (dir_loop dev vol target dir_cluster cache))"

text \<open>The length of the first path component, at most \<open>n\<close>.\<close>

fun comp_len :: "u8 list \<Rightarrow> nat \<Rightarrow> nat" where
  "comp_len (c # cs) (Suc n) = (if c \<noteq> 0x2F then Suc (comp_len cs n) else 0)"
| "comp_len [] n = 0"
| "comp_len cs 0 = 0"

definition skip_slashes :: "u8 list \<Rightarrow> u8 list" where
  "skip_slashes path = dropWhile (\<lambda>c. c = 0x2F) path"

lemma skip_slashes_le [termination_simp]: "length (skip_slashes p) \<le> length p"
  by (simp add: skip_slashes_def length_dropWhile_le)

lemma path_rest_less: "p \<noteq> [] \<Longrightarrow> length (skip_slashes (drop (comp_len p 15) p)) < length p"
proof (cases p)
  case (Cons c cs)
  show ?thesis
  proof (cases "c = 0x2F")
    case True
    then have "skip_slashes (drop (comp_len p 15) p) = skip_slashes cs"
      using Cons by (simp add: skip_slashes_def numeral_eq_Suc)
    then show ?thesis using skip_slashes_le [of cs] Cons by simp
  next
    case False
    then have "comp_len p 15 \<noteq> 0" using Cons by (simp add: numeral_eq_Suc)
    then show ?thesis using skip_slashes_le [of "drop (comp_len p 15) p"] Cons by (simp add: less_Suc_eq_le)
  qed
qed simp

function path_loop ::
    "blkdev \<Rightarrow> fat16_volume \<Rightarrow> u8 list \<Rightarrow> u16 \<Rightarrow> fat_cache \<Rightarrow> (fat16_dirent option \<times> fat_cache) outcome" where
  "path_loop dev vol path dir_cluster cache =
     (if path = [] then Ret (None, cache) else
      let len = comp_len path 15 in
      if len < length path \<and> path ! len \<noteq> 0x2F then Ret (None, cache) else
      let namebuf = take len path; path' = skip_slashes (drop len path) in
      case make_short_name namebuf of None \<Rightarrow> Ret (None, cache)
      | Some shortname \<Rightarrow>
        obind (fat16_find_in_dir dev vol dir_cluster shortname cache) (\<lambda>(entry, cache').
          case entry of None \<Rightarrow> Ret (None, cache')
          | Some e \<Rightarrow>
            if path' = [] then Ret (Some e, cache')
            else if de_attr e AND 0x10 = 0 then Ret (None, cache')
            else path_loop dev vol path' (de_first_cluster e) cache'))"
  by pat_completeness auto
termination
  by (relation "measure (\<lambda>(dev, vol, path, c, cache). length path)") (auto intro: path_rest_less)

declare path_loop.simps [simp del]

definition fat16_find_path ::
    "blkdev \<Rightarrow> fat16_volume \<Rightarrow> u8 list \<Rightarrow> fat_cache \<Rightarrow> (fat16_dirent option \<times> fat_cache) outcome" where
  "fat16_find_path dev vol path cache =
     (if path = [] then Ret (None, cache) else path_loop dev vol (skip_slashes path) 0 cache)"

section \<open>Reading a file\<close>

fun skip_clusters :: "blkdev \<Rightarrow> fat16_volume \<Rightarrow> u16 \<Rightarrow> nat \<Rightarrow> fat_cache \<Rightarrow> u16 option \<times> fat_cache" where
  "skip_clusters dev vol cluster 0 cache = (Some cluster, cache)"
| "skip_clusters dev vol cluster (Suc k) cache =
     (let (c, cache') = fat16_next_cluster dev vol cluster cache in
      if c < 2 \<or> fat16_is_eoc c then (None, cache') else skip_clusters dev vol c k cache')"

text \<open>The sectors of one cluster: the success flag, the bytes copied and the bytes remaining.\<close>

fun read_sectors :: "blkdev \<Rightarrow> u16 \<Rightarrow> u64 \<Rightarrow> nat \<Rightarrow> nat \<Rightarrow> u32 \<Rightarrow> u32 \<Rightarrow> bool \<times> u8 list \<times> u32" where
  "read_sectors dev bps lba s 0 sector_off remaining = (True, [], remaining)"
| "read_sectors dev bps lba s (Suc k) sector_off remaining =
     (if remaining = 0 then (True, [], remaining) else
      let (ok, sector) = dev (lba + of_nat s) in
      if \<not> ok then (False, [], remaining) else
      let avail = ucast bps - sector_off;
          copy = (if remaining < avail then remaining else avail);
          (ok', ws, rem) = read_sectors dev bps lba (Suc s) k 0 (remaining - copy) in
      (ok', take (unat copy) (drop (unat sector_off) sector) @ ws, rem))"

partial_function (option) read_loop ::
    "blkdev \<Rightarrow> fat16_volume \<Rightarrow> u16 \<Rightarrow> u32 \<Rightarrow> u32 \<Rightarrow> u8 list \<Rightarrow> fat_cache \<Rightarrow> (bool \<times> u8 list \<times> fat_cache) option" where
  "read_loop dev vol cluster off_in_cluster remaining out cache =
     (if remaining = 0 then Some (True, out, cache) else
      if cluster < 2 \<or> fat16_is_eoc cluster then Some (False, out, cache) else
      let lba = fat16_cluster_to_lba vol cluster;
          sector_idx = off_in_cluster div ucast (bytes_per_sector vol);
          sector_off = off_in_cluster mod ucast (bytes_per_sector vol) in
      case read_sectors dev (bytes_per_sector vol) lba (unat sector_idx)
             (unat (sectors_per_cluster vol) - unat sector_idx) sector_off remaining of
        (ok, ws, rem) \<Rightarrow>
          if \<not> ok then Some (False, out @ ws, cache) else
          (case (if 0 < rem then fat16_next_cluster dev vol cluster cache else (cluster, cache)) of
             (c, cache') \<Rightarrow> read_loop dev vol c 0 rem (out @ ws) cache'))"

definition fat16_read_file_at ::
    "blkdev \<Rightarrow> fat16_volume \<Rightarrow> fat16_dirent \<Rightarrow> u32 \<Rightarrow> u32 \<Rightarrow> ptr \<Rightarrow> fat_cache \<Rightarrow> (bool \<times> u8 list \<times> fat_cache) outcome" where
  "fat16_read_file_at dev vol file offset len dst cache =
     (if dst = NULL then Ret (False, [], cache) else
      if len = 0 then Ret (True, [], cache) else
      if de_size file < offset then Ret (False, [], cache) else
      if de_size file < offset + len then Ret (False, [], cache) else
      let cluster_size = ucast (bytes_per_sector vol) * ucast (sectors_per_cluster vol);
          skip = offset div cluster_size;
          off_in_cluster = offset mod cluster_size in
      case skip_clusters dev vol (de_first_cluster file) (unat skip) cache of
        (None, cache') \<Rightarrow> Ret (False, [], cache')
      | (Some cluster, cache') \<Rightarrow> of_loop (read_loop dev vol cluster off_in_cluster len [] cache'))"

declare dir_loop.simps [code] read_loop.simps [code]

end
