(* ===== verification/Fat16_Props.thy ===== *)
theory Fat16_Props
  imports Fat16
begin

unbundle bit_operations_syntax

text \<open>
  What the FAT16 reader returns: a file's contents are the concatenated sectors of its cluster chain, and
  \<open>fat16_read_file_at\<close> returns the requested range of them; a directory search returns the first live
  entry of the name; short names; and what happens on damaged volumes and after failed reads.
\<close>

section \<open>The allocation table\<close>

definition fat_lba_of :: "fat16_volume \<Rightarrow> u16 \<Rightarrow> u64" where
  "fat_lba_of vol c = ucast (fat_start_lba vol) + of_nat (unat c * 2 div 512)"

definition fat_entry :: "blkdev \<Rightarrow> fat16_volume \<Rightarrow> u16 \<Rightarrow> u16" where
  "fat_entry dev vol c = read_le16 (drop (unat c * 2 mod 512) (snd (dev (fat_lba_of vol c))))"

text \<open>The chain from a cluster: the clusters visited until an end mark or an invalid number.\<close>

fun fat_chain :: "blkdev \<Rightarrow> fat16_volume \<Rightarrow> u16 \<Rightarrow> u16 list \<Rightarrow> bool" where
  "fat_chain dev vol c [] \<longleftrightarrow> c < 2 \<or> fat16_is_eoc c"
| "fat_chain dev vol c (x # xs) \<longleftrightarrow>
     x = c \<and> 2 \<le> c \<and> \<not> fat16_is_eoc c \<and> fst (dev (fat_lba_of vol c)) \<and> fat_chain dev vol (fat_entry dev vol c) xs"

definition cache_ok :: "blkdev \<Rightarrow> fat_cache \<Rightarrow> bool" where
  "cache_ok dev cache \<longleftrightarrow> cached_lba cache = - 1 \<or> dev (cached_lba cache) = (True, cached_sector cache)"

lemma cache_ok_initial [simp]: "cache_ok dev fat_cache_initial"
  by (simp add: cache_ok_def fat_cache_initial_def)

lemma unat_ucast_16_32 [simp]: "unat (ucast (w :: u16) :: u32) = unat w"
  using unat_less_two_power [of w] by (simp add: unsigned_ucast_eq take_bit_nat_eq_self)

lemma unat_ucast_8_32 [simp]: "unat (ucast (w :: u8) :: u32) = unat w"
  using unat_less_two_power [of w] by (simp add: unsigned_ucast_eq take_bit_nat_eq_self)

lemma fat_position:
  "ucast (fat_start_lba vol) + ucast ((ucast (c :: u16) * 2 :: u32) div of_nat LOADER_SECTOR_SIZE) = fat_lba_of vol c"
  "unat ((ucast c * 2 :: u32) mod of_nat LOADER_SECTOR_SIZE) = unat c * 2 mod 512"
proof -
  have "unat c < 2 ^ 16" using unsigned_less [of c] by simp
  then have u: "unat (ucast c * 2 :: u32) = unat c * 2" by (simp add: unat_word_ariths)
  then have d: "unat ((ucast c * 2 :: u32) div of_nat LOADER_SECTOR_SIZE) = unat c * 2 div 512"
    by (simp add: LOADER_SECTOR_SIZE_def unat_div)
  have "(ucast ((ucast c * 2 :: u32) div of_nat LOADER_SECTOR_SIZE) :: u64) = of_nat (unat c * 2 div 512)"
    unfolding d [symmetric] by simp
  then show "ucast (fat_start_lba vol) + ucast ((ucast c * 2 :: u32) div of_nat LOADER_SECTOR_SIZE) = fat_lba_of vol c"
    by (simp add: fat_lba_of_def)
  show "unat ((ucast c * 2 :: u32) mod of_nat LOADER_SECTOR_SIZE) = unat c * 2 mod 512"
    using u by (simp add: LOADER_SECTOR_SIZE_def unat_mod)
qed

lemma fat_lba_of_neq: "fat_lba_of vol c \<noteq> - 1"
proof -
  have c: "unat c < 2 ^ 16" "unat (fat_start_lba vol) < 2 ^ 32"
    using unsigned_less [of c] unsigned_less [of "fat_start_lba vol"] by simp_all
  then have "unat (fat_lba_of vol c) = unat (fat_start_lba vol) + unat c * 2 div 512"
    by (simp add: fat_lba_of_def unat_word_ariths unat_of_nat)
  also have "\<dots> < 2 ^ 33" using c by auto
  finally have "unat (fat_lba_of vol c) < 2 ^ 33" .
  moreover have "unat (- 1 :: u64) = 2 ^ 64 - 1" by (simp add: unsigned_minus_1_eq_mask mask_eq_exp_minus_1)
  ultimately show ?thesis by auto
qed

lemma fat16_next_cluster_eq:
  assumes "cache_ok dev cache" "fst (dev (fat_lba_of vol c))"
  shows "\<exists>cache'. fat16_next_cluster dev vol c cache = (fat_entry dev vol c, cache') \<and> cache_ok dev cache'"
proof -
  have r: "dev (fat_lba_of vol c) = (True, snd (dev (fat_lba_of vol c)))" using assms(2) by (simp add: prod_eq_iff)
  show ?thesis
  proof (cases "fat_lba_of vol c = cached_lba cache")
    case True
    then have "snd (dev (fat_lba_of vol c)) = cached_sector cache"
      using assms(1) fat_lba_of_neq [of vol c] by (auto simp: cache_ok_def)
    then show ?thesis
      using assms(1) True unfolding fat16_next_cluster_def Let_def fat_position by (simp add: fat_entry_def)
  next
    case False
    obtain sec where "dev (fat_lba_of vol c) = (True, sec)" using r by blast
    with False show ?thesis unfolding fat16_next_cluster_def Let_def fat_position
      by (simp add: fat_entry_def cache_ok_def)
  qed
qed

section \<open>File contents\<close>

definition vol_ok :: "fat16_volume \<Rightarrow> bool" where
  "vol_ok vol \<longleftrightarrow> bytes_per_sector vol = 512 \<and> sectors_per_cluster vol \<noteq> 0"

lemma fat16_parse_vol_ok: "fat16_parse dev l = Some vol \<Longrightarrow> vol_ok vol"
  by (auto simp: fat16_parse_def vol_ok_def Let_def LOADER_SECTOR_SIZE_def split: prod.splits if_splits)

definition sectors_bytes :: "blkdev \<Rightarrow> u64 \<Rightarrow> nat \<Rightarrow> nat \<Rightarrow> u8 list" where
  "sectors_bytes dev lba s n = concat (map (\<lambda>i. snd (dev (lba + of_nat i))) [s..<n])"

definition cluster_bytes :: "blkdev \<Rightarrow> fat16_volume \<Rightarrow> u16 \<Rightarrow> u8 list" where
  "cluster_bytes dev vol c = sectors_bytes dev (fat16_cluster_to_lba vol c) 0 (unat (sectors_per_cluster vol))"

definition sectors_ok :: "blkdev \<Rightarrow> u64 \<Rightarrow> nat \<Rightarrow> bool" where
  "sectors_ok dev lba n \<longleftrightarrow> (\<forall>i<n. fst (dev (lba + of_nat i)) \<and> length (snd (dev (lba + of_nat i))) = 512)"

abbreviation cluster_ok :: "blkdev \<Rightarrow> fat16_volume \<Rightarrow> u16 \<Rightarrow> bool" where
  "cluster_ok dev vol c \<equiv> sectors_ok dev (fat16_cluster_to_lba vol c) (unat (sectors_per_cluster vol))"

abbreviation cluster_size :: "fat16_volume \<Rightarrow> nat" where
  "cluster_size vol \<equiv> 512 * unat (sectors_per_cluster vol)"

lemma sectors_bytes_Cons: "s < n \<Longrightarrow> sectors_bytes dev lba s n = snd (dev (lba + of_nat s)) @ sectors_bytes dev lba (Suc s) n"
  by (simp add: sectors_bytes_def upt_conv_Cons)

lemma sectors_bytes_length: "sectors_ok dev lba n \<Longrightarrow> length (sectors_bytes dev lba s n) = 512 * (n - s)"
proof (induction "n - s" arbitrary: s)
  case 0
  then show ?case by (simp add: sectors_bytes_def)
next
  case (Suc k)
  then have s: "s < n" by simp
  have "length (sectors_bytes dev lba (Suc s) n) = 512 * (n - Suc s)" using Suc by (intro Suc.hyps) auto
  then show ?case using s Suc.prems unfolding sectors_bytes_Cons [OF s] by (simp add: sectors_ok_def)
qed

lemma cluster_bytes_length: "cluster_ok dev vol c \<Longrightarrow> length (cluster_bytes dev vol c) = cluster_size vol"
  by (simp add: cluster_bytes_def sectors_bytes_length)

lemma sectors_bytes_drop:
  "sectors_ok dev lba n \<Longrightarrow> s + k \<le> n \<Longrightarrow> drop (512 * k) (sectors_bytes dev lba s n) = sectors_bytes dev lba (s + k) n"
proof (induction k arbitrary: s)
  case 0
  then show ?case by simp
next
  case (Suc k)
  have s: "s < n" using Suc.prems(2) by simp
  have "length (snd (dev (lba + of_nat s))) = 512" using Suc.prems(1) s by (simp add: sectors_ok_def)
  then have "drop (512 * Suc k) (sectors_bytes dev lba s n) = drop (512 * k) (sectors_bytes dev lba (Suc s) n)"
    by (simp add: sectors_bytes_Cons [OF s])
  then show ?case using Suc.IH [of "Suc s"] Suc.prems by simp
qed

lemma read_sectors_eq:
  assumes "sectors_ok dev lba n" "s + k = n" "unat so < 512" "k = 0 \<longrightarrow> so = 0"
  shows "\<exists>rem. read_sectors dev 512 lba s k so r = (True, take (unat r) (drop (unat so) (sectors_bytes dev lba s n)), rem) \<and>
    unat rem = unat r - (512 * k - unat so)"
  using assms
proof (induction k arbitrary: s so r)
  case 0
  then show ?case by (simp add: sectors_bytes_def)
next
  case (Suc k)
  let ?sec = "snd (dev (lba + of_nat s))"
  have s: "s < n" using Suc.prems(2) by simp
  have l: "fst (dev (lba + of_nat s))" "length ?sec = 512" using Suc.prems(1) s by (simp_all add: sectors_ok_def)
  define avail :: u32 where "avail = ucast (512 :: u16) - so"
  define copy where "copy = (if r < avail then r else avail)"
  have "so \<le> ucast (512 :: u16)" using Suc.prems(3) by (simp add: word_le_nat_alt)
  then have av: "unat avail = 512 - unat so" unfolding avail_def by (subst unat_sub) simp_all
  then have cp: "unat copy = min (unat r) (512 - unat so)" by (simp add: copy_def word_less_nat_alt min_def)
  then have "copy \<le> r" by (simp add: word_le_nat_alt)
  then have rc: "unat (r - copy) = unat r - min (unat r) (512 - unat so)" by (simp add: unat_sub cp)
  obtain rem where rem: "read_sectors dev 512 lba (Suc s) k 0 (r - copy)
      = (True, take (unat (r - copy)) (sectors_bytes dev lba (Suc s) n), rem)" "unat rem = unat (r - copy) - 512 * k"
    using Suc.IH [of "Suc s" 0 "r - copy"] Suc.prems by auto
  have eq: "take (unat copy) (drop (unat so) ?sec) @ take (unat (r - copy)) (sectors_bytes dev lba (Suc s) n)
      = take (unat r) (drop (unat so) (sectors_bytes dev lba s n))"
    unfolding sectors_bytes_Cons [OF s] rc cp using l(2) Suc.prems(3) by (simp add: min_def)
  have dv: "dev (lba + of_nat s) = (True, ?sec)" using l(1) by (simp add: prod_eq_iff)
  show ?case
  proof (cases "r = 0")
    case True
    then show ?thesis by simp
  next
    case False
    have "read_sectors dev 512 lba s (Suc k) so r =
        (case read_sectors dev 512 lba (Suc s) k 0 (r - copy) of (ok', ws, rem) \<Rightarrow>
           (ok', take (unat copy) (drop (unat so) ?sec) @ ws, rem))"
      using False l(1) by (simp add: Let_def avail_def copy_def case_prod_beta)
    then have "read_sectors dev 512 lba s (Suc k) so r = (True, take (unat r) (drop (unat so) (sectors_bytes dev lba s n)), rem)"
      using rem(1) eq by simp
    moreover have "unat rem = unat r - (512 * Suc k - unat so)" unfolding rem(2) rc using Suc.prems(3) by auto
    ultimately show ?thesis by blast
  qed
qed

definition chain_bytes :: "blkdev \<Rightarrow> fat16_volume \<Rightarrow> u16 list \<Rightarrow> u8 list" where
  "chain_bytes dev vol cs = concat (map (cluster_bytes dev vol) cs)"

lemma chain_bytes_length:
  "\<forall>c\<in>set cs. cluster_ok dev vol c \<Longrightarrow> length (chain_bytes dev vol cs) = length cs * cluster_size vol"
  by (induction cs) (simp_all add: chain_bytes_def cluster_bytes_length)

lemma read_loop_0 [simp]: "read_loop dev vol c off 0 out cache = Some (True, out, cache)"
  by (subst read_loop.simps) simp

lemma read_loop_eq:
  assumes "vol_ok vol" "fat_chain dev vol c cs" "\<forall>x\<in>set cs. cluster_ok dev vol x" "cache_ok dev cache"
    "unat off < cluster_size vol" "unat off + unat r \<le> length cs * cluster_size vol \<or> r = 0"
  shows "\<exists>cache'. read_loop dev vol c off r out cache
      = Some (True, out @ take (unat r) (drop (unat off) (chain_bytes dev vol cs)), cache') \<and> cache_ok dev cache'"
  using assms(2-)
proof (induction cs arbitrary: c off r out cache)
  case Nil
  then have "r = 0" by (auto simp: unat_eq_zero)
  then show ?case using Nil(3) by simp
next
  case (Cons x xs)
  have bps: "bytes_per_sector vol = 512" and spc: "0 < unat (sectors_per_cluster vol)"
    using assms(1) by (simp_all add: vol_ok_def unat_gt_0)
  have x: "x = c" "\<not> c < 2" "\<not> fat16_is_eoc c" "fst (dev (fat_lba_of vol c))" "fat_chain dev vol (fat_entry dev vol c) xs"
    using Cons.prems(1) by auto
  let ?si = "unat off div 512" and ?so = "unat off mod 512" and ?lba = "fat16_cluster_to_lba vol c"
  let ?n = "unat (sectors_per_cluster vol)"
  have si: "?si < ?n" using Cons.prems(4) by (simp add: div_less_iff_less_mult mult.commute)
  have ok: "sectors_ok dev ?lba ?n" using Cons.prems(2) x(1) by simp
  have idx: "unat (off div ucast (512 :: u16)) = ?si" "unat (off mod ucast (512 :: u16)) = ?so" "off mod ucast (512 :: u16) = off mod 512"
    by (simp_all add: unat_div unat_mod)
  obtain rem where rd: "read_sectors dev 512 ?lba ?si (?n - ?si) (off mod ucast (512 :: u16)) r
      = (True, take (unat r) (drop ?so (sectors_bytes dev ?lba ?si ?n)), rem)" "unat rem = unat r - (512 * (?n - ?si) - ?so)"
    using read_sectors_eq [OF ok, of ?si "?n - ?si" "off mod ucast (512 :: u16)" r] si unfolding idx(2) by auto
  have "sectors_bytes dev ?lba ?si ?n = drop (512 * ?si) (cluster_bytes dev vol c)"
    using sectors_bytes_drop [OF ok, of 0 ?si] si by (simp add: cluster_bytes_def)
  then have ws: "drop ?so (sectors_bytes dev ?lba ?si ?n) = drop (unat off) (cluster_bytes dev vol c)"
    by (simp add: add.commute mult.commute [of 512])
  have "512 * (?n - ?si) - ?so = cluster_size vol - unat off"
    by (metis diff_diff_left diff_mult_distrib2 mult_div_mod_eq)
  then have rem: "unat rem = unat r - (cluster_size vol - unat off)" using rd(2) by simp
  have len: "length (cluster_bytes dev vol c) = cluster_size vol" using ok by (rule cluster_bytes_length)
  show ?case
  proof (cases "r = 0")
    case True
    then show ?thesis using Cons.prems(3) by simp
  next
    case False
    have step: "read_loop dev vol c off r out cache =
        (case (if 0 < rem then fat16_next_cluster dev vol c cache else (c, cache)) of (c', cache') \<Rightarrow>
           read_loop dev vol c' 0 rem (out @ take (unat r) (drop (unat off) (cluster_bytes dev vol c))) cache')"
      using False x(2,3) rd(1) ws idx(1) by (subst read_loop.simps) (simp add: bps Let_def del: unat_div)
    have all: "take (unat r) (drop (unat off) (chain_bytes dev vol (x # xs)))
        = take (unat r) (drop (unat off) (cluster_bytes dev vol c)) @ take (unat rem) (chain_bytes dev vol xs)"
      using Cons.prems(4) len by (simp add: chain_bytes_def x(1) rem)
    show ?thesis
    proof (cases "rem = 0")
      case True
      then show ?thesis using Cons.prems(3) unfolding step all by simp
    next
      case nz: False
      obtain cache1 where n: "fat16_next_cluster dev vol c cache = (fat_entry dev vol c, cache1)" "cache_ok dev cache1"
        using fat16_next_cluster_eq [OF Cons.prems(3) x(4)] by blast
      have "unat rem \<noteq> 0" using nz by (simp add: unat_eq_zero)
      then have "unat (0 :: u32) + unat rem \<le> length xs * cluster_size vol"
        using Cons.prems(5) False rem by (simp add: algebra_simps)
      moreover have "unat (0 :: u32) < cluster_size vol" using spc by simp
      ultimately obtain cache' where "read_loop dev vol (fat_entry dev vol c) 0 rem
            (out @ take (unat r) (drop (unat off) (cluster_bytes dev vol c))) cache1
          = Some (True, (out @ take (unat r) (drop (unat off) (cluster_bytes dev vol c)))
              @ take (unat rem) (drop (unat (0 :: u32)) (chain_bytes dev vol xs)), cache')" "cache_ok dev cache'"
        using Cons.IH [OF x(5) _ n(2)] Cons.prems(2) by (metis list.set_intros(2))
      then show ?thesis using n(1) nz unfolding step all by (simp add: word_greater_zero_iff)
    qed
  qed
qed


lemma skip_clusters_eq:
  assumes "fat_chain dev vol c cs" "cache_ok dev cache" "k < length cs"
  shows "\<exists>cache'. skip_clusters dev vol c k cache = (Some (cs ! k), cache') \<and> cache_ok dev cache' \<and>
    fat_chain dev vol (cs ! k) (drop k cs)"
  using assms
proof (induction k arbitrary: c cs cache)
  case 0
  then show ?case by (cases cs) auto
next
  case (Suc k)
  then obtain xs where cs: "cs = c # xs" and k: "k < length xs" by (cases cs) auto
  have c: "fst (dev (fat_lba_of vol c))" "fat_chain dev vol (fat_entry dev vol c) xs" using Suc.prems(1) cs by auto
  obtain cache1 where n: "fat16_next_cluster dev vol c cache = (fat_entry dev vol c, cache1)" "cache_ok dev cache1"
    using fat16_next_cluster_eq [OF Suc.prems(2) c(1)] by blast
  have "\<not> (fat_entry dev vol c < 2 \<or> fat16_is_eoc (fat_entry dev vol c))" using c(2) k by (cases xs) auto
  then show ?case using Suc.IH [OF c(2) n(2) k] n(1) cs by simp
qed

lemma chain_bytes_drop:
  "\<forall>c\<in>set cs. cluster_ok dev vol c \<Longrightarrow> k \<le> length cs \<Longrightarrow>
    drop (k * cluster_size vol) (chain_bytes dev vol cs) = chain_bytes dev vol (drop k cs)"
proof (induction k arbitrary: cs)
  case 0
  then show ?case by simp
next
  case (Suc k)
  then obtain x xs where cs: "cs = x # xs" by (cases cs) auto
  then have "length (cluster_bytes dev vol x) = cluster_size vol" using Suc.prems(1) by (simp add: cluster_bytes_length)
  then show ?case using Suc.IH [of xs] Suc.prems cs by (simp add: chain_bytes_def)
qed

lemma cluster_size_word:
  assumes "vol_ok vol"
  shows "unat (ucast (bytes_per_sector vol) * ucast (sectors_per_cluster vol) :: u32) = cluster_size vol"
proof -
  have "unat (sectors_per_cluster vol) < 256" using unat_less_two_power [of "sectors_per_cluster vol"] by simp
  then show ?thesis using assms by (simp add: vol_ok_def unat_word_ariths)
qed

text \<open>
  C22: Reading a range of a file whose cluster chain is intact returns, and what it stores is exactly that
  range of the concatenated clusters.
\<close>

theorem fat16_read_file_at_correct:
  assumes vol: "vol_ok vol" and chain: "fat_chain dev vol (de_first_cluster file) cs"
    and ok: "\<forall>c\<in>set cs. cluster_ok dev vol c" and cache: "cache_ok dev cache"
    and covers: "unat (de_size file) \<le> length cs * cluster_size vol"
    and range: "unat offset + unat len \<le> unat (de_size file)" and dst: "dst \<noteq> NULL"
  shows "\<exists>cache'. fat16_read_file_at dev vol file offset len dst cache =
      Ret (True, take (unat len) (drop (unat offset) (chain_bytes dev vol cs)), cache') \<and> cache_ok dev cache'"
proof (cases "len = 0")
  case True
  then show ?thesis using cache dst by (simp add: fat16_read_file_at_def)
next
  case False
  define csz :: u32 where "csz = ucast (bytes_per_sector vol) * ucast (sectors_per_cluster vol)"
  have csz: "unat csz = cluster_size vol" unfolding csz_def using vol by (rule cluster_size_word)
  have pos: "0 < cluster_size vol" using vol by (simp add: vol_ok_def unat_gt_0)
  have l0: "0 < unat len" using False by (simp add: unat_gt_0)
  let ?k = "unat offset div cluster_size vol" and ?o = "unat offset mod cluster_size vol"
  have "unat offset < length cs * cluster_size vol" using l0 range covers by linarith
  then have k: "?k < length cs" using pos by (simp add: div_less_iff_less_mult)
  have ko: "unat (offset div csz) = ?k" "unat (offset mod csz) = ?o" using csz by (simp_all add: unat_div unat_mod)
  obtain cache1 where sk: "skip_clusters dev vol (de_first_cluster file) ?k cache = (Some (cs ! ?k), cache1)"
      "cache_ok dev cache1" "fat_chain dev vol (cs ! ?k) (drop ?k cs)"
    using skip_clusters_eq [OF chain cache k] by blast
  have "unat (offset + len) = unat offset + unat len"
    using range unat_less_two_power [of "de_size file"] by (intro unat_add_no_wrap) simp
  then have guards: "\<not> de_size file < offset" "\<not> de_size file < offset + len"
    using range by (simp_all add: word_less_nat_alt)
  have oeq: "?k * cluster_size vol + ?o = unat offset" by (rule div_mult_mod_eq)
  have dk: "drop ?o (chain_bytes dev vol (drop ?k cs)) = drop (unat offset) (chain_bytes dev vol cs)"
  proof -
    have "drop (?k * cluster_size vol) (chain_bytes dev vol cs) = chain_bytes dev vol (drop ?k cs)"
      using ok k by (intro chain_bytes_drop) simp_all
    moreover have "?o + ?k * cluster_size vol = unat offset" by (rule mod_div_mult_eq)
    ultimately show ?thesis by (metis drop_drop)
  qed
  have "\<exists>cache'. read_loop dev vol (cs ! ?k) (offset mod csz) len [] cache1
      = Some (True, [] @ take (unat len) (drop (unat (offset mod csz)) (chain_bytes dev vol (drop ?k cs))), cache') \<and> cache_ok dev cache'"
  proof (rule read_loop_eq [OF vol sk(3) _ sk(2)])
    show "\<forall>x\<in>set (drop ?k cs). cluster_ok dev vol x" using ok by (meson in_set_dropD)
    show "unat (offset mod csz) < cluster_size vol" using pos ko(2) by simp
    have "?o + unat len \<le> length cs * cluster_size vol - ?k * cluster_size vol"
      using range covers oeq by linarith
    then show "unat (offset mod csz) + unat len \<le> length (drop ?k cs) * cluster_size vol \<or> len = 0"
      unfolding ko(2) by (simp add: diff_mult_distrib)
  qed
  then show ?thesis
    using False dst guards sk(1) unfolding fat16_read_file_at_def Let_def csz_def [symmetric] ko dk by auto
qed

lemma read_sectors_decreases:
  assumes "unat so < 512"
  shows "snd (snd (read_sectors dev 512 lba s k so r)) \<le> r \<and>
    (fst (read_sectors dev 512 lba s k so r) \<longrightarrow> 0 < k \<longrightarrow> r \<noteq> 0 \<longrightarrow> snd (snd (read_sectors dev 512 lba s k so r)) < r)"
  using assms
proof (induction k arbitrary: s so r)
  case 0
  then show ?case by simp
next
  case (Suc k)
  define avail :: u32 where "avail = ucast (512 :: u16) - so"
  define copy where "copy = (if r < avail then r else avail)"
  have "so < ucast (512 :: u16)" using Suc.prems by (simp add: word_less_nat_alt)
  then have "avail \<noteq> 0" by (simp add: avail_def)
  then have cp: "copy \<le> r" "r \<noteq> 0 \<Longrightarrow> copy \<noteq> 0" by (auto simp: copy_def not_less word_less_nat_alt word_le_nat_alt)
  then have lt: "r - copy < r" if "r \<noteq> 0"
    using that by (simp add: word_less_nat_alt word_le_nat_alt unat_sub unat_gt_0)
  have IH: "snd (snd (read_sectors dev 512 lba (Suc s) k 0 (r - copy))) \<le> r - copy" using Suc.IH [of 0] by simp
  have step: "read_sectors dev 512 lba s (Suc k) so r =
      (if r = 0 then (True, [], r) else if \<not> fst (dev (lba + of_nat s)) then (False, [], r) else
       case read_sectors dev 512 lba (Suc s) k 0 (r - copy) of (ok', ws, rem) \<Rightarrow>
         (ok', take (unat copy) (drop (unat so) (snd (dev (lba + of_nat s)))) @ ws, rem))"
    by (simp add: Let_def avail_def copy_def case_prod_beta)
  show ?case unfolding step using IH lt by (auto simp: case_prod_beta intro: order_le_less_trans order_less_imp_le)
qed

lemma read_loop_total:
  assumes vol: "vol_ok vol" and "unat off < cluster_size vol"
  shows "read_loop dev vol c off r out cache \<noteq> None"
  using assms(2)
proof (induction "unat r" arbitrary: c off r out cache rule: less_induct)
  case less
  have bps: "bytes_per_sector vol = 512" using vol by (simp add: vol_ok_def)
  have z: "unat (0 :: u32) < cluster_size vol" using vol by (simp add: vol_ok_def unat_gt_0)
  let ?si = "off div ucast (512 :: u16)" and ?so = "off mod ucast (512 :: u16)"
  have si: "unat ?si < unat (sectors_per_cluster vol)" and so: "unat ?so < 512"
    using less.prems by (simp_all add: unat_div unat_mod div_less_iff_less_mult mult.commute)
  let ?rd = "read_sectors dev 512 (fat16_cluster_to_lba vol c) (unat ?si) (unat (sectors_per_cluster vol) - unat ?si) ?so r"
  have dec: "unat (snd (snd ?rd)) < unat r" if "r \<noteq> 0" "fst ?rd"
    using read_sectors_decreases [OF so] si that by (simp add: word_less_nat_alt)
  obtain ok ws rem where rd: "?rd = (ok, ws, rem)" by (metis prod_cases3)
  show ?case
  proof (cases "r = 0 \<or> c < 2 \<or> fat16_is_eoc c \<or> \<not> ok")
    case True
    then show ?thesis using rd by (subst read_loop.simps) (auto simp: bps Let_def)
  next
    case False
    then have "read_loop dev vol c' 0 rem out' cache' \<noteq> None" for c' out' cache'
      using dec rd z by (intro less.hyps) auto
    then show ?thesis using False rd by (subst read_loop.simps) (simp add: bps Let_def case_prod_beta)
  qed
qed

text \<open>
  C23: For every device, also one with failing reads and a damaged allocation table, reading from a parsed
  volume returns.
\<close>

theorem fat16_read_file_at_returns:
  assumes "vol_ok vol"
  shows "\<exists>ok ws cache'. fat16_read_file_at dev vol file offset len dst cache = Ret (ok, ws, cache')"
proof -
  define csz :: u32 where "csz = ucast (bytes_per_sector vol) * ucast (sectors_per_cluster vol)"
  have "0 < cluster_size vol" using assms by (simp add: vol_ok_def unat_gt_0)
  then have "unat (offset mod csz) < cluster_size vol"
    unfolding csz_def by (simp add: unat_mod cluster_size_word [OF assms])
  then have "\<exists>r. read_loop dev vol c (offset mod csz) len [] cache' = Some r" for c cache'
    using read_loop_total [OF assms] by blast
  then show ?thesis
    unfolding fat16_read_file_at_def Let_def csz_def [symmetric]
    by (auto split: prod.splits option.splits)
qed

section \<open>Directory search\<close>

definition live_match :: "u8 list \<Rightarrow> u8 list \<Rightarrow> bool" where
  "live_match target e \<longleftrightarrow> e ! 0 \<noteq> 0xE5 \<and> e ! 11 \<noteq> 0x0F \<and> e ! 11 AND 0x08 = 0 \<and> take 11 e = target"

text \<open>The search over the list of 32-byte entries of a directory.\<close>

fun dir_lookup :: "u8 list \<Rightarrow> u8 list list \<Rightarrow> scan" where
  "dir_lookup target [] = Scan_more"
| "dir_lookup target (e # es) =
     (if e ! 0 = 0 then Scan_end
      else if live_match target e then Scan_hit (dirent_of e) else dir_lookup target es)"

definition entries_of :: "u8 list \<Rightarrow> u8 list list" where
  "entries_of bs = map (\<lambda>i. take 32 (drop (32 * i) bs)) [0..<length bs div 32]"

lemma dir_lookup_append:
  "dir_lookup target (xs @ ys) = (case dir_lookup target xs of Scan_more \<Rightarrow> dir_lookup target ys | r \<Rightarrow> r)"
  by (induction xs) simp_all

lemma entries_of_append:
  assumes "length xs = 32 * n"
  shows "entries_of (xs @ ys) = entries_of xs @ entries_of ys"
proof (rule nth_equalityI)
  show "length (entries_of (xs @ ys)) = length (entries_of xs @ entries_of ys)"
    using assms by (simp add: entries_of_def)
next
  fix i assume "i < length (entries_of (xs @ ys))"
  then have i: "i < n + length ys div 32" using assms by (simp add: entries_of_def)
  show "entries_of (xs @ ys) ! i = (entries_of xs @ entries_of ys) ! i"
  proof (cases "i < n")
    case True
    then have "32 * i + 32 \<le> length xs" using assms by simp
    then show ?thesis using True i assms by (simp add: entries_of_def nth_append)
  next
    case False
    then have "drop (32 * i) (xs @ ys) = drop (32 * (i - n)) ys" using assms by (simp add: diff_mult_distrib2)
    moreover have "[0..<length ys div 32] ! (i - n) = i - n" using False i by simp
    ultimately show ?thesis using False i assms by (simp add: entries_of_def nth_append)
  qed
qed

lemma name_matches_eq: "11 \<le> length e \<Longrightarrow> length target = 11 \<Longrightarrow> name_matches e target \<longleftrightarrow> take 11 e = target"
  by (auto simp: name_matches_def list_all_iff list_eq_iff_nth_eq)

lemma dirent_of_take: "32 \<le> length e \<Longrightarrow> dirent_of (take 32 e) = dirent_of e"
  by (simp add: dirent_of_def read_le16_def read_le32_def)

lemma scan_sector_eq:
  assumes "length target = 11" "length sec = off + 32 * k"
  shows "scan_sector sec target off k = dir_lookup target (entries_of (drop off sec))"
  using assms(2)
proof (induction k arbitrary: off)
  case 0
  then show ?case by (simp add: entries_of_def)
next
  case (Suc k)
  let ?e = "take 32 (drop off sec)"
  have IH: "scan_sector sec target (off + 32) k = dir_lookup target (entries_of (drop (off + 32) sec))"
    using Suc.prems by (intro Suc.IH) simp
  have "drop off sec = ?e @ drop (off + 32) sec" by (metis append_take_drop_id drop_drop add.commute)
  moreover have "entries_of (?e @ drop (off + 32) sec) = entries_of ?e @ entries_of (drop (off + 32) sec)"
    using Suc.prems by (intro entries_of_append [of _ 1]) simp
  ultimately have "entries_of (drop off sec) = entries_of ?e @ entries_of (drop (off + 32) sec)" by simp
  moreover have "entries_of ?e = [?e]" using Suc.prems by (simp add: entries_of_def)
  ultimately have es: "entries_of (drop off sec) = ?e # entries_of (drop (off + 32) sec)" by simp
  have "name_matches (drop off sec) target \<longleftrightarrow> take 11 ?e = target"
    using Suc.prems assms(1) by (simp add: name_matches_eq min_def)
  then show ?case unfolding es scan_sector.simps Let_def IH
    using Suc.prems by (auto simp: live_match_def dirent_of_take)
qed

definition scan_result :: "scan \<Rightarrow> fat16_dirent option" where
  "scan_result r = (case r of Scan_hit e \<Rightarrow> Some e | _ \<Rightarrow> None)"

lemma cluster_scan_eq:
  assumes "length target = 11" "sectors_ok dev lba n" "s + k = n"
  shows "cluster_scan dev lba target s k = dir_lookup target (entries_of (sectors_bytes dev lba s n))"
  using assms(3)
proof (induction k arbitrary: s)
  case 0
  then show ?case by (simp add: sectors_bytes_def entries_of_def)
next
  case (Suc k)
  let ?sec = "snd (dev (lba + of_nat s))"
  have s: "s < n" using Suc.prems by simp
  have l: "fst (dev (lba + of_nat s))" "length ?sec = 512" using assms(2) s by (simp_all add: sectors_ok_def)
  have "entries_of (sectors_bytes dev lba s n) = entries_of ?sec @ entries_of (sectors_bytes dev lba (Suc s) n)"
    unfolding sectors_bytes_Cons [OF s] using l(2) by (intro entries_of_append [of _ 16]) simp
  moreover have "scan_sector ?sec target 0 16 = dir_lookup target (entries_of ?sec)"
    using scan_sector_eq [OF assms(1), of ?sec 0 16] l(2) by simp
  moreover have "cluster_scan dev lba target (Suc s) k = dir_lookup target (entries_of (sectors_bytes dev lba (Suc s) n))"
    using Suc.prems by (intro Suc.IH) simp
  ultimately show ?case using l(1) by (simp add: case_prod_beta dir_lookup_append split: scan.splits)
qed

lemma dir_loop_eq:
  assumes "length target = 11"
  shows "fat_chain dev vol c cs \<Longrightarrow> \<forall>x\<in>set cs. cluster_ok dev vol x \<Longrightarrow> cache_ok dev cache \<Longrightarrow>
    \<exists>cache'. dir_loop dev vol target c cache =
      Some (scan_result (dir_lookup target (entries_of (chain_bytes dev vol cs))), cache') \<and> cache_ok dev cache'"
proof (induction cs arbitrary: c cache)
  case Nil
  then show ?case
    by (subst dir_loop.simps) (auto simp: chain_bytes_def entries_of_def scan_result_def not_le)
next
  case (Cons x xs)
  have x: "x = c" "2 \<le> c" "\<not> fat16_is_eoc c" "fst (dev (fat_lba_of vol c))" "fat_chain dev vol (fat_entry dev vol c) xs"
    using Cons.prems(1) by auto
  have ok: "cluster_ok dev vol c" using Cons.prems(2) x(1) by simp
  have sc: "cluster_scan dev (fat16_cluster_to_lba vol c) target 0 (unat (sectors_per_cluster vol))
      = dir_lookup target (entries_of (cluster_bytes dev vol c))"
    unfolding cluster_bytes_def using ok by (intro cluster_scan_eq [OF assms]) simp_all
  have "length (cluster_bytes dev vol c) = 32 * (16 * unat (sectors_per_cluster vol))"
    using cluster_bytes_length [OF ok] by simp
  then have es: "entries_of (chain_bytes dev vol (x # xs))
      = entries_of (cluster_bytes dev vol c) @ entries_of (chain_bytes dev vol xs)"
    using entries_of_append x(1) by (simp add: chain_bytes_def)
  obtain cache1 where n: "fat16_next_cluster dev vol c cache = (fat_entry dev vol c, cache1)" "cache_ok dev cache1"
    using fat16_next_cluster_eq [OF Cons.prems(3) x(4)] by blast
  obtain cache' where "dir_loop dev vol target (fat_entry dev vol c) cache1 =
      Some (scan_result (dir_lookup target (entries_of (chain_bytes dev vol xs))), cache')" "cache_ok dev cache'"
    using Cons.IH [OF x(5) _ n(2)] Cons.prems(2) by auto
  then show ?case using Cons.prems(3) x(2,3) sc n(1)
    by (subst dir_loop.simps) (auto simp: es dir_lookup_append scan_result_def split: scan.splits)
qed

text \<open>
  C24: Searching a directory whose cluster chain is intact returns the first entry of the name that is neither
  deleted nor a long name nor a label, among the entries before the end mark.
\<close>

theorem fat16_find_in_dir_correct:
  assumes "length target = 11" "dir_cluster \<noteq> 0" "fat_chain dev vol dir_cluster cs"
    and "\<forall>c\<in>set cs. cluster_ok dev vol c" "cache_ok dev cache"
  shows "\<exists>cache'. fat16_find_in_dir dev vol dir_cluster target cache =
      Ret (scan_result (dir_lookup target (entries_of (chain_bytes dev vol cs))), cache') \<and> cache_ok dev cache'"
  using dir_loop_eq [OF assms(1,3-5)] assms(2) by (auto simp: fat16_find_in_dir_def)

definition root_ok :: "blkdev \<Rightarrow> fat16_volume \<Rightarrow> bool" where
  "root_ok dev vol \<longleftrightarrow> (\<forall>i<unat (root_dir_sectors vol). let r = dev (ucast (root_dir_lba vol + of_nat i)) in fst r \<and> length (snd r) = 512)"

definition root_bytes :: "blkdev \<Rightarrow> fat16_volume \<Rightarrow> u8 list" where
  "root_bytes dev vol = concat (map (\<lambda>i. snd (dev (ucast (root_dir_lba vol + of_nat i)))) [0..<unat (root_dir_sectors vol)])"

lemma fat16_find_in_root_eq:
  assumes "length target = 11" "root_ok dev vol"
  shows "fat16_find_in_root dev vol target = scan_result (dir_lookup target (entries_of (root_bytes dev vol)))"
proof -
  let ?n = "unat (root_dir_sectors vol)" and ?s = "\<lambda>i. dev (ucast (root_dir_lba vol + of_nat i))"
  have "root_loop dev (root_dir_lba vol) target s k =
      scan_result (dir_lookup target (entries_of (concat (map (\<lambda>i. snd (?s i)) [s..<?n]))))" if "s + k = ?n" for s k
    using that
  proof (induction k arbitrary: s)
    case 0
    then show ?case by (simp add: entries_of_def scan_result_def)
  next
    case (Suc k)
    have s: "s < ?n" using Suc.prems by simp
    have l: "fst (?s s)" "length (snd (?s s)) = 512" using assms(2) s by (simp_all add: root_ok_def Let_def)
    have "scan_sector (snd (?s s)) target 0 16 = dir_lookup target (entries_of (snd (?s s)))"
      using scan_sector_eq [OF assms(1), of "snd (?s s)" 0 16] l(2) by simp
    moreover have "entries_of (concat (map (\<lambda>i. snd (?s i)) [s..<?n])) =
        entries_of (snd (?s s)) @ entries_of (concat (map (\<lambda>i. snd (?s i)) [Suc s..<?n]))"
      using s l(2) entries_of_append [of "snd (?s s)" 16] by (simp add: upt_conv_Cons)
    moreover have "root_loop dev (root_dir_lba vol) target (Suc s) k =
        scan_result (dir_lookup target (entries_of (concat (map (\<lambda>i. snd (?s i)) [Suc s..<?n]))))"
      using Suc.prems by (intro Suc.IH) simp
    ultimately show ?case using l(1)
      by (auto simp: case_prod_beta dir_lookup_append scan_result_def split: scan.splits)
  qed
  from this [of 0 ?n] show ?thesis by (simp add: fat16_find_in_root_def root_bytes_def)
qed

section \<open>Damaged volumes\<close>

text \<open>
  C25: A directory whose clusters form a cycle, none of them with an end mark or the name, is searched
  forever.
\<close>

theorem fat16_directory_cycle_hangs:
  assumes start: "c \<in> S" and cache: "cache_ok dev cache"
    and cyc: "\<forall>x\<in>S. 2 \<le> x \<and> \<not> fat16_is_eoc x \<and> fst (dev (fat_lba_of vol x)) \<and> fat_entry dev vol x \<in> S \<and>
      cluster_scan dev (fat16_cluster_to_lba vol x) target 0 (unat (sectors_per_cluster vol)) = Scan_more"
  shows "fat16_find_in_dir dev vol c target cache = Hang"
proof -
  have "dev' = dev \<longrightarrow> vol' = vol \<longrightarrow> target' = target \<longrightarrow> c' \<in> S \<longrightarrow> cache_ok dev cache' \<longrightarrow> False"
    if "dir_loop dev' vol' target' c' cache' = Some r" for dev' vol' target' c' cache' r
  proof (rule dir_loop.raw_induct [OF _ that])
    fix loop :: "blkdev \<Rightarrow> fat16_volume \<Rightarrow> u8 list \<Rightarrow> u16 \<Rightarrow> fat_cache \<Rightarrow> (fat16_dirent option \<times> fat_cache) option"
    fix d v t x k q
    assume IH: "\<And>d v t x k q. loop d v t x k = Some q \<Longrightarrow>
        d = dev \<longrightarrow> v = vol \<longrightarrow> t = target \<longrightarrow> x \<in> S \<longrightarrow> cache_ok dev k \<longrightarrow> False"
      and step: "(if 2 \<le> x \<and> \<not> fat16_is_eoc x
         then case cluster_scan d (fat16_cluster_to_lba v x) t 0 (unat (sectors_per_cluster v)) of
                Scan_end \<Rightarrow> Some (None, k) | Scan_hit e \<Rightarrow> Some (Some e, k)
              | Scan_more \<Rightarrow> (case fat16_next_cluster d v x k of (c, cache') \<Rightarrow> loop d v t c cache')
         else Some (None, k)) = Some q"
    show "d = dev \<longrightarrow> v = vol \<longrightarrow> t = target \<longrightarrow> x \<in> S \<longrightarrow> cache_ok dev k \<longrightarrow> False"
    proof (intro impI)
      assume eq: "d = dev" "v = vol" "t = target" "x \<in> S" "cache_ok dev k"
      obtain k' where n: "fat16_next_cluster dev vol x k = (fat_entry dev vol x, k')" "cache_ok dev k'"
        using fat16_next_cluster_eq eq(4,5) cyc by blast
      have "loop dev vol target (fat_entry dev vol x) k' = Some q" using step cyc eq n(1) by auto
      then show False using IH [of dev vol target "fat_entry dev vol x" k' q] cyc eq(4) n(2) by blast
    qed
  qed
  then have "dir_loop dev vol target c cache = None" using start cache by (cases "dir_loop dev vol target c cache") blast+
  moreover have "c \<noteq> 0" using start cyc by auto
  ultimately show ?thesis by (simp add: fat16_find_in_dir_def)
qed

text \<open>
  A failed read leaves the cache keyed by the sector it held before, with the contents the failed read
  left in the buffer: a later lookup in the old sector takes its entry from there.
\<close>

theorem fat16_cache_stale_after_error:
  assumes "cached_lba cache = fat_lba_of vol c" "fat_lba_of vol c' \<noteq> fat_lba_of vol c"
    and "dev (fat_lba_of vol c') = (False, junk)"
  shows "fat16_next_cluster dev vol c (snd (fat16_next_cluster dev vol c' cache))
    = (read_le16 (drop (unat c * 2 mod 512) junk), cache\<lparr>cached_sector := junk\<rparr>)"
  using assms by (simp add: fat16_next_cluster_def Let_def fat_position)

section \<open>An example volume\<close>

text \<open>
  A disk with a volume at sector 4: one table sector, one root directory sector and one-sector clusters.
  The file \<open>KERNEL.ELF\<close> has the clusters 2 and 3; cluster 4 points to itself and holds deleted
  entries only.
\<close>

definition example_boot_sector :: "u8 list" where
  "example_boot_sector = replicate 11 0 @ [0, 2, 1, 1, 0, 1, 16, 0, 64, 0, 0xF8, 1, 0] @ replicate 486 0 @ [0x55, 0xAA]"

definition example_fat :: "u8 list" where
  "example_fat = [0xF8, 0xFF, 0xFF, 0xFF, 3, 0, 0xFF, 0xFF, 4, 0]"

definition kernel_short_name :: "u8 list" where
  "kernel_short_name = [0x4B, 0x45, 0x52, 0x4E, 0x45, 0x4C, 0x20, 0x20, 0x45, 0x4C, 0x46]"

definition example_root :: "u8 list" where
  "example_root = kernel_short_name @ [0x20] @ replicate 14 0 @ [2, 0] @ [0x58, 0x02, 0, 0]"

definition example_elf :: "u8 list" where
  "example_elf =
     [0x7F, 0x45, 0x4C, 0x46, 2, 1, 1, 0, 0, 0, 0, 0, 0, 0, 0, 0] @
     [2, 0, 0xB7, 0, 1, 0, 0, 0] @ [0, 0, 0x28, 0x40, 0, 0, 0, 0] @ [64, 0, 0, 0, 0, 0, 0, 0] @ replicate 8 0 @
     [0, 0, 0, 0, 64, 0, 56, 0, 1, 0, 0, 0, 0, 0, 0, 0] @
     [1, 0, 0, 0, 5, 0, 0, 0] @ [120, 0, 0, 0, 0, 0, 0, 0] @ [0, 0, 0x28, 0x40, 0, 0, 0, 0] @ [0, 0, 0x28, 0x40, 0, 0, 0, 0] @
     [8, 0, 0, 0, 0, 0, 0, 0] @ [16, 0, 0, 0, 0, 0, 0, 0] @ [0, 16, 0, 0, 0, 0, 0, 0] @
     [0x1F, 0x20, 0x03, 0xD5, 0x00, 0x00, 0x00, 0x14]"

definition example_sectors :: "(u64 \<times> u8 list) list" where
  "example_sectors =
     [(1, gpt_header_bytes 1 128), (2, gpt_entry_bytes gpt_guid_ms_basic 4), (4, example_boot_sector), (5, example_fat),
      (6, example_root), (7, example_elf), (9, replicate 512 0xE5)]"

definition example_disk :: blkdev where
  "example_disk = disk_of example_sectors"

definition example_vol :: fat16_volume where
  "example_vol =
     \<lparr>part_lba = 4, bytes_per_sector = 512, sectors_per_cluster = 1, reserved_sectors = 1, num_fats = 1,
      root_entry_count = 16, sectors_per_fat = 1, total_sectors = 64, fat_start_lba = 5, root_dir_lba = 6,
      root_dir_sectors = 1, data_start_lba = 7\<rparr>"

definition example_kernel :: fat16_dirent where
  "example_kernel = \<lparr>de_name = kernel_short_name, de_attr = 0x20, de_first_cluster = 2, de_size = 600\<rparr>"

lemma example_parse: "fat16_parse example_disk 4 = Some example_vol"
  by code_simp

lemma example_root_lookup: "fat16_find_in_root example_disk example_vol kernel_short_name = Some example_kernel"
  by code_simp

lemma example_chain: "fat_chain example_disk example_vol 2 [2, 3]"
  by code_simp

lemma example_vol_ok: "vol_ok example_vol"
  by (simp add: vol_ok_def example_vol_def)

lemma disk_of_sectors_ok:
  assumes "\<forall>p\<in>set secs. length (snd p) \<le> 512"
  shows "sectors_ok (disk_of secs) lba n"
proof -
  have "length (case map_of secs l of Some bs \<Rightarrow> bs | None \<Rightarrow> []) \<le> 512" for l
    using assms by (force split: option.splits dest: map_of_SomeD)
  then show ?thesis using disk_of_sector unfolding sectors_ok_def by blast
qed

lemma example_sectors_ok: "sectors_ok example_disk lba n"
proof -
  have "\<forall>p\<in>set example_sectors. length (snd p) \<le> 512" by code_simp
  then show ?thesis unfolding example_disk_def by (rule disk_of_sectors_ok)
qed

theorem fat16_read_file_at_correct_witness:
  "\<exists>cache'. fat16_read_file_at example_disk example_vol example_kernel 100 500 LOCAL fat_cache_initial =
      Ret (True, take 500 (drop 100 (chain_bytes example_disk example_vol [2, 3])), cache') \<and> cache_ok example_disk cache'"
proof -
  have c: "fat_chain example_disk example_vol (de_first_cluster example_kernel) [2, 3]"
    using example_chain by (simp only: example_kernel_def fat16_dirent.simps)
  have s: "unat (de_size example_kernel) \<le> length [2 :: u16, 3] * cluster_size example_vol"
    "unat (100 :: u32) + unat (500 :: u32) \<le> unat (de_size example_kernel)"
    by (simp_all add: example_kernel_def example_vol_def)
  have "\<forall>x\<in>set [2, 3]. cluster_ok example_disk example_vol x" using example_sectors_ok by blast
  from fat16_read_file_at_correct [OF example_vol_ok c this cache_ok_initial s, of LOCAL] show ?thesis by simp
qed

theorem fat16_read_file_at_returns_witness:
  "\<exists>ok ws cache'. fat16_read_file_at (\<lambda>_. (False, [])) example_vol example_kernel 0 100 LOCAL fat_cache_initial = Ret (ok, ws, cache')"
  by (rule fat16_read_file_at_returns [OF example_vol_ok])

theorem fat16_find_in_dir_correct_witness:
  "\<exists>cache'. fat16_find_in_dir example_disk example_vol 2 kernel_short_name fat_cache_initial =
      Ret (scan_result (dir_lookup kernel_short_name (entries_of (chain_bytes example_disk example_vol [2, 3]))), cache') \<and>
      cache_ok example_disk cache'"
proof (rule fat16_find_in_dir_correct [OF _ _ example_chain])
  show "\<forall>c\<in>set [2, 3]. cluster_ok example_disk example_vol c" using example_sectors_ok by blast
qed (simp_all add: kernel_short_name_def)

theorem fat16_directory_cycle_hangs_witness:
  "fat16_find_in_dir example_disk example_vol 4 kernel_short_name fat_cache_initial = Hang"
proof (rule fat16_directory_cycle_hangs [of 4 "{4}"])
  have "2 \<le> (4 :: u16) \<and> \<not> fat16_is_eoc 4 \<and> fst (example_disk (fat_lba_of example_vol 4))" by code_simp
  moreover have "fat_entry example_disk example_vol 4 = 4" by code_simp
  moreover have "cluster_scan example_disk (fat16_cluster_to_lba example_vol 4) kernel_short_name 0
      (unat (sectors_per_cluster example_vol)) = Scan_more" by code_simp
  ultimately show "\<forall>x\<in>{4}. 2 \<le> x \<and> \<not> fat16_is_eoc x \<and> fst (example_disk (fat_lba_of example_vol x)) \<and>
      fat_entry example_disk example_vol x \<in> {4} \<and>
      cluster_scan example_disk (fat16_cluster_to_lba example_vol x) kernel_short_name 0
        (unat (sectors_per_cluster example_vol)) = Scan_more" by simp
qed simp_all

theorem fat16_cache_stale_after_error_witness:
  "fat16_next_cluster (\<lambda>_. (False, replicate 512 0xEE)) example_vol 2
      (snd (fat16_next_cluster (\<lambda>_. (False, replicate 512 0xEE)) example_vol 300 \<lparr>cached_lba = 5, cached_sector = sector_of example_fat\<rparr>))
    = (0xEEEE, \<lparr>cached_lba = 5, cached_sector = replicate 512 0xEE\<rparr>)"
proof -
  have "cached_lba \<lparr>cached_lba = 5, cached_sector = sector_of example_fat\<rparr> = fat_lba_of example_vol 2"
    "fat_lba_of example_vol 300 \<noteq> fat_lba_of example_vol 2" by code_simp+
  moreover have "read_le16 (drop (unat (2 :: u16) * 2 mod 512) (replicate 512 0xEE)) = 0xEEEE" by code_simp
  ultimately show ?thesis
    using fat16_cache_stale_after_error [of "\<lparr>cached_lba = 5, cached_sector = sector_of example_fat\<rparr>" example_vol 2 300] by simp
qed

text \<open>
  The range check adds offset and length in 32 bits. A length close to 2^32 passes it, and the read runs
  past the end of the file to the end of its cluster chain before it fails.
\<close>

theorem fat16_read_range_wraps:
  "(case fat16_read_file_at example_disk example_vol example_kernel 16 0xFFFFFFF4 LOCAL fat_cache_initial of
      Ret (ok, ws, cache') \<Rightarrow> \<not> ok \<and> length ws = 1008 \<and> de_size example_kernel = 600 | _ \<Rightarrow> False)"
  by code_simp

end
