(* ===== verification/Boot_Info.thy ===== *)
theory Boot_Info
  imports KPrelude
begin

text \<open>
  What the boot stages pass on: the record the loader fills for the kernel
  (\<open>Kern/Kernel/boot/boot_info.h\<close>) and a range of physical addresses (\<open>Kern/Kernel/platform/dtb.h\<close>).
\<close>

record boot_info =
  kernel_phys_base :: u64
  kernel_size :: u64
  kernel_entry_offset :: u64
  dtb_ptr :: u64
  dtb_size :: u64

record dtb_range =
  r_base :: u64
  r_size :: u64

end
