(* ===== verification/Loader.thy ===== *)
theory Loader
  imports Fat16_Props Kaddr Boot_Info
begin

unbundle bit_operations_syntax

text \<open>
  Loading the kernel image and the loader's entry point (\<open>Kern/Loader/loader.c\<close>). Physical memory is a
  byte memory; the loader's own variables, stack and boot information are not in it, so a segment that
  overwrites the running loader is outside the model. Log output is left out.
\<close>

section \<open>ELF structures\<close>

record Elf64_Ehdr =
  e_ident :: "u8 list"
  e_type :: u16
  e_machine :: u16
  e_version :: u32
  e_entry :: u64
  e_phoff :: u64
  e_shoff :: u64
  e_flags :: u32
  e_ehsize :: u16
  e_phentsize :: u16
  e_phnum :: u16
  e_shentsize :: u16
  e_shnum :: u16
  e_shstrndx :: u16

record Elf64_Phdr =
  p_type :: u32
  p_flags :: u32
  p_offset :: u64
  p_vaddr :: u64
  p_paddr :: u64
  p_filesz :: u64
  p_memsz :: u64
  p_align :: u64

text \<open>\<open>loader_memcpy\<close> of the bytes into the structure, on a little-endian machine.\<close>

definition ehdr_of :: "u8 list \<Rightarrow> Elf64_Ehdr" where
  "ehdr_of b =
     \<lparr>e_ident = take 16 b, e_type = read_le16 (drop 16 b), e_machine = read_le16 (drop 18 b),
      e_version = read_le32 (drop 20 b), e_entry = read_le64 (drop 24 b), e_phoff = read_le64 (drop 32 b),
      e_shoff = read_le64 (drop 40 b), e_flags = read_le32 (drop 48 b), e_ehsize = read_le16 (drop 52 b),
      e_phentsize = read_le16 (drop 54 b), e_phnum = read_le16 (drop 56 b), e_shentsize = read_le16 (drop 58 b),
      e_shnum = read_le16 (drop 60 b), e_shstrndx = read_le16 (drop 62 b)\<rparr>"

definition phdr_of :: "u8 list \<Rightarrow> Elf64_Phdr" where
  "phdr_of b =
     \<lparr>p_type = read_le32 b, p_flags = read_le32 (drop 4 b), p_offset = read_le64 (drop 8 b),
      p_vaddr = read_le64 (drop 16 b), p_paddr = read_le64 (drop 24 b), p_filesz = read_le64 (drop 32 b),
      p_memsz = read_le64 (drop 40 b), p_align = read_le64 (drop 48 b)\<rparr>"

definition sizeof_Elf64_Ehdr :: u32 where
  "sizeof_Elf64_Ehdr = 64"

definition sizeof_Elf64_Phdr :: u32 where
  "sizeof_Elf64_Phdr = 56"

definition PT_LOAD :: u32 where
  "PT_LOAD = 1"

definition LOADER_KERNEL_PHYS_BASE :: u64 where
  "LOADER_KERNEL_PHYS_BASE = 0x40280000"

record loader_state =
  ls_mem :: mem
  ls_fat :: fat_cache

section \<open>Loading the image\<close>

text \<open>\<open>fat16_read_file_at\<close> storing to physical memory.\<close>

fun store_bytes :: "ptr \<Rightarrow> u8 list \<Rightarrow> mem \<Rightarrow> mem" where
  "store_bytes d [] m = m"
| "store_bytes d (b # bs) m = store_bytes (d + 1) bs (m(d := b))"

definition read_phdr ::
    "blkdev \<Rightarrow> fat16_volume \<Rightarrow> fat16_dirent \<Rightarrow> Elf64_Ehdr \<Rightarrow> nat \<Rightarrow> fat_cache \<Rightarrow> (Elf64_Phdr option \<times> fat_cache) outcome" where
  "read_phdr dev vol file ehdr i cache =
     (let ph_off = ucast (e_phoff ehdr + of_nat i * ucast (e_phentsize ehdr)) :: u32 in
      obind (fat16_read_file_at dev vol file ph_off sizeof_Elf64_Phdr LOCAL cache) (\<lambda>(ok, ph_buf, cache').
        Ret (if ok then Some (phdr_of ph_buf) else None, cache')))"

fun elf_bases ::
    "blkdev \<Rightarrow> fat16_volume \<Rightarrow> fat16_dirent \<Rightarrow> Elf64_Ehdr \<Rightarrow> nat \<Rightarrow> nat \<Rightarrow> u64 \<Rightarrow> u64 \<Rightarrow> fat_cache \<Rightarrow>
     ((u64 \<times> u64) option \<times> fat_cache) outcome" where
  "elf_bases dev vol file ehdr i 0 base_vaddr base_paddr cache = Ret (Some (base_vaddr, base_paddr), cache)"
| "elf_bases dev vol file ehdr i (Suc k) base_vaddr base_paddr cache =
     obind (read_phdr dev vol file ehdr i cache) (\<lambda>(r, cache').
       case r of None \<Rightarrow> Ret (None, cache')
       | Some ph \<Rightarrow>
         if p_type ph \<noteq> PT_LOAD \<or> p_memsz ph = 0 then elf_bases dev vol file ehdr (Suc i) k base_vaddr base_paddr cache'
         else elf_bases dev vol file ehdr (Suc i) k
                (if p_vaddr ph < base_vaddr then p_vaddr ph else base_vaddr)
                (if p_paddr ph \<noteq> 0 \<and> p_paddr ph < base_paddr then p_paddr ph else base_paddr) cache')"

fun elf_segments ::
    "blkdev \<Rightarrow> fat16_volume \<Rightarrow> fat16_dirent \<Rightarrow> Elf64_Ehdr \<Rightarrow> u64 \<Rightarrow> u64 \<Rightarrow> nat \<Rightarrow> nat \<Rightarrow> u64 \<Rightarrow> u64 \<Rightarrow> loader_state \<Rightarrow>
     ((u64 \<times> u64) option \<times> loader_state) outcome" where
  "elf_segments dev vol file ehdr base_vaddr base_paddr i 0 min_paddr max_paddr st = Ret (Some (min_paddr, max_paddr), st)"
| "elf_segments dev vol file ehdr base_vaddr base_paddr i (Suc k) min_paddr max_paddr st =
     obind (read_phdr dev vol file ehdr i (ls_fat st)) (\<lambda>(r, cache').
       let st1 = st\<lparr>ls_fat := cache'\<rparr> in
       case r of None \<Rightarrow> Ret (None, st1)
       | Some ph \<Rightarrow>
         if p_type ph \<noteq> PT_LOAD \<or> p_memsz ph = 0
         then elf_segments dev vol file ehdr base_vaddr base_paddr (Suc i) k min_paddr max_paddr st1 else
         let dest_paddr = (if p_paddr ph \<noteq> 0 then p_paddr ph else base_paddr + (p_vaddr ph - base_vaddr)) in
         obind (if 0 < p_filesz ph
                then obind (fat16_read_file_at dev vol file (ucast (p_offset ph)) (ucast (p_filesz ph)) dest_paddr (ls_fat st1))
                       (\<lambda>(ok, ws, cache''). Ret (ok, \<lparr>ls_mem = store_bytes dest_paddr ws (ls_mem st1), ls_fat = cache''\<rparr>))
                else Ret (True, st1)) (\<lambda>(ok, st2).
           if \<not> ok then Ret (None, st2) else
           let st3 = (if p_filesz ph < p_memsz ph
                      then st2\<lparr>ls_mem := snd (loader_memset (dest_paddr + p_filesz ph) 0 (p_memsz ph - p_filesz ph) (ls_mem st2))\<rparr>
                      else st2);
               end_paddr = dest_paddr + p_memsz ph in
           elf_segments dev vol file ehdr base_vaddr base_paddr (Suc i) k
             (if dest_paddr < min_paddr then dest_paddr else min_paddr)
             (if max_paddr < end_paddr then end_paddr else max_paddr) st3))"

definition load_kernel_elf ::
    "blkdev \<Rightarrow> fat16_volume \<Rightarrow> fat16_dirent \<Rightarrow> boot_info \<Rightarrow> loader_state \<Rightarrow> ((boot_info \<times> u64) option \<times> loader_state) outcome" where
  "load_kernel_elf dev vol file bi st =
     obind (fat16_read_file_at dev vol file 0 sizeof_Elf64_Ehdr LOCAL (ls_fat st)) (\<lambda>(ok, ehdr_buf, cache1).
       let st1 = st\<lparr>ls_fat := cache1\<rparr> in
       if \<not> ok then Ret (None, st1) else
       let ehdr = ehdr_of ehdr_buf in
       if e_ident ehdr ! 0 \<noteq> 0x7F \<or> e_ident ehdr ! 1 \<noteq> 0x45 \<or> e_ident ehdr ! 2 \<noteq> 0x4C \<or> e_ident ehdr ! 3 \<noteq> 0x46
       then Ret (None, st1) else
       if e_ident ehdr ! 4 \<noteq> 2 \<or> e_ident ehdr ! 5 \<noteq> 1 then Ret (None, st1) else
       if e_machine ehdr \<noteq> 0xB7 then Ret (None, st1) else
       if ucast (e_phentsize ehdr) < sizeof_Elf64_Phdr \<or> e_phnum ehdr = 0 then Ret (None, st1) else
       obind (elf_bases dev vol file ehdr 0 (unat (e_phnum ehdr)) (- 1) (- 1) cache1) (\<lambda>(r, cache2).
         let st2 = st1\<lparr>ls_fat := cache2\<rparr> in
         case r of None \<Rightarrow> Ret (None, st2)
         | Some (base_vaddr, base_paddr0) \<Rightarrow>
           if base_vaddr = - 1 then Ret (None, st2) else
           let base_paddr = (if base_paddr0 = - 1 then LOADER_KERNEL_PHYS_BASE else base_paddr0) in
           obind (elf_segments dev vol file ehdr base_vaddr base_paddr 0 (unat (e_phnum ehdr)) (- 1) 0 st2) (\<lambda>(r', st3).
             case r' of None \<Rightarrow> Ret (None, st3)
             | Some (min_paddr, max_paddr) \<Rightarrow>
               if min_paddr = - 1 \<or> max_paddr \<le> min_paddr then Ret (None, st3)
               else Ret (Some (bi\<lparr>kernel_phys_base := min_paddr, kernel_size := max_paddr - min_paddr,
                                  kernel_entry_offset := (if base_vaddr \<le> e_entry ehdr then e_entry ehdr - base_vaddr else 0)\<rparr>,
                               e_entry ehdr), st3))))"

section \<open>Entry point\<close>

definition dtb_total_size :: "ptr \<Rightarrow> mem \<Rightarrow> u32" where
  "dtb_total_size dtb m =
     (if dtb = NULL then 0
      else if read_be32 (bytes_at m dtb 4) \<noteq> 0xD00DFEED then 0
      else read_be32 (bytes_at m (dtb + 4) 4))"

definition kernel_paths :: "u8 list list" where
  "kernel_paths =
     [[0x4B, 0x45, 0x52, 0x4E, 0x45, 0x4C, 0x2E, 0x45, 0x4C, 0x46],
      [0x4B, 0x45, 0x52, 0x4E, 0x45, 0x4C, 0x38, 0x2E, 0x45, 0x4C, 0x46]]"

fun find_kernel :: "blkdev \<Rightarrow> fat16_volume \<Rightarrow> u8 list list \<Rightarrow> fat_cache \<Rightarrow> (fat16_dirent option \<times> fat_cache) outcome" where
  "find_kernel dev vol [] cache = Ret (None, cache)"
| "find_kernel dev vol (p # ps) cache =
     obind (fat16_find_path dev vol p cache) (\<lambda>(r, cache').
       case r of Some e \<Rightarrow> Ret (Some e, cache') | None \<Rightarrow> find_kernel dev vol ps cache')"

text \<open>
  What the loader hands over: the entry address it jumps to, the argument, the boot information behind
  the argument, and the memory. The kernel does not return to it.
\<close>

record handover =
  jump_entry :: u64
  jump_arg :: u64
  jump_info :: boot_info
  jump_mem :: mem

definition loader_main :: "blkdev \<Rightarrow> ptr \<Rightarrow> ptr \<Rightarrow> ptr \<Rightarrow> loader_state \<Rightarrow> handover outcome" where
  "loader_main dev boot_stack_top bi_pa boot_dtb_ptr st =
     obind (gpt_find_partition_lba dev) (\<lambda>part.
       kassert (part \<noteq> 0) ''no GPT partition found''
        (case fat16_parse dev part of None \<Rightarrow> Panic ''FAT16 parse failed''
         | Some vol \<Rightarrow>
           obind (find_kernel dev vol kernel_paths (ls_fat st)) (\<lambda>(r, cache').
             case r of None \<Rightarrow> Panic ''kernel not found''
             | Some kernel_entry \<Rightarrow>
               kassert (de_attr kernel_entry AND 0x10 = 0) ''kernel is directory''
                (let bi0 = \<lparr>kernel_phys_base = 0, kernel_size = 0, kernel_entry_offset = 0, dtb_ptr = 0, dtb_size = 0\<rparr> in
                 obind (load_kernel_elf dev vol kernel_entry bi0 (st\<lparr>ls_fat := cache'\<rparr>)) (\<lambda>(res, st').
                   case res of None \<Rightarrow> Panic ''ELF load failed''
                   | Some (bi, entry_va) \<Rightarrow>
                     kassert (boot_stack_top \<le> kernel_phys_base bi) ''kernel overlaps loader''
                      (kassert (kernel_phys_base bi AND 0xFFF = 0) ''kernel not page aligned''
                        (kassert (entry_va AND 3 = 0) ''entry not aligned''
                          (let dtb_sz = dtb_total_size boot_dtb_ptr (ls_mem st');
                               bi' = (if boot_dtb_ptr \<noteq> NULL \<and> 0 < dtb_sz
                                      then bi\<lparr>dtb_ptr := CAPAZ_HH_BASE + boot_dtb_ptr, dtb_size := ucast dtb_sz\<rparr>
                                      else bi) in
                           Ret \<lparr>jump_entry = entry_va, jump_arg = CAPAZ_HH_BASE + bi_pa, jump_info = bi', jump_mem = ls_mem st'\<rparr>))))))))"

section \<open>Memory effects\<close>

lemma store_bytes_eq:
  "length bs \<le> 2 ^ 64 \<Longrightarrow> store_bytes d bs m a = (if span d (length bs) a then bs ! unat (a - d) else m a)"
proof (induction bs arbitrary: d m)
  case Nil
  then show ?case by simp
next
  case (Cons b bs)
  have IH: "store_bytes (d + 1) bs (m(d := b)) a = (if span (d + 1) (length bs) a then bs ! unat (a - (d + 1)) else (m(d := b)) a)"
    using Cons.prems by (intro Cons.IH) simp
  show ?case
  proof (cases "a = d")
    case True
    have "\<not> span (d + 1) (length bs) d"
      using Cons.prems by (simp add: span_def unsigned_minus_1_eq_mask mask_eq_exp_minus_1)
    then show ?thesis using IH True by (simp add: span_def)
  next
    case False
    then have "a - d \<noteq> 0" by simp
    then have "unat (a - d) = Suc (unat (a - d - 1))" using unat_pred [of "a - d"] by (simp add: unat_gt_0)
    then have "unat (a - d) = Suc (unat (a - (d + 1)))" by (simp only: diff_diff_eq)
    then show ?thesis using IH False by (simp add: span_def)
  qed
qed

section \<open>The image of an ELF file\<close>

text \<open>The bytes of a file whose cluster chain is intact.\<close>

definition file_holds :: "blkdev \<Rightarrow> fat16_volume \<Rightarrow> fat16_dirent \<Rightarrow> u8 list \<Rightarrow> bool" where
  "file_holds dev vol file bs \<longleftrightarrow> vol_ok vol \<and>
     (\<exists>cs. fat_chain dev vol (de_first_cluster file) cs \<and> (\<forall>c\<in>set cs. cluster_ok dev vol c) \<and>
        unat (de_size file) \<le> length cs * cluster_size vol \<and> bs = take (unat (de_size file)) (chain_bytes dev vol cs))"

lemma file_holds_length: "file_holds dev vol file bs \<Longrightarrow> length bs = unat (de_size file)"
  by (auto simp: file_holds_def chain_bytes_length)

lemma file_holds_less: "file_holds dev vol file bs \<Longrightarrow> length bs < 2 ^ 32"
  using unat_less_two_power [of "de_size file"] by (simp add: file_holds_length)

lemma file_holds_read:
  assumes "file_holds dev vol file bs" "cache_ok dev cache" "unat offset + unat len \<le> length bs" "dst \<noteq> NULL"
  shows "\<exists>cache'. fat16_read_file_at dev vol file offset len dst cache = Ret (True, take (unat len) (drop (unat offset) bs), cache') \<and>
    cache_ok dev cache'"
proof -
  from assms(1) obtain cs where cs: "vol_ok vol" "fat_chain dev vol (de_first_cluster file) cs"
      "\<forall>c\<in>set cs. cluster_ok dev vol c" "unat (de_size file) \<le> length cs * cluster_size vol"
      "bs = take (unat (de_size file)) (chain_bytes dev vol cs)" by (auto simp: file_holds_def)
  have r: "unat offset + unat len \<le> unat (de_size file)" using assms(3) file_holds_length [OF assms(1)] by simp
  have "take (unat len) (drop (unat offset) (chain_bytes dev vol cs)) = take (unat len) (drop (unat offset) bs)"
    unfolding cs(5) using r by (simp add: drop_take min_def)
  then show ?thesis using fat16_read_file_at_correct [OF cs(1-3) assms(2) cs(4) r assms(4)] by simp
qed

definition elf_ehdr :: "u8 list \<Rightarrow> Elf64_Ehdr" where
  "elf_ehdr bs = ehdr_of (take 64 bs)"

definition elf_phdr :: "u8 list \<Rightarrow> nat \<Rightarrow> Elf64_Phdr" where
  "elf_phdr bs i = phdr_of (take 56 (drop (unat (e_phoff (elf_ehdr bs)) + i * unat (e_phentsize (elf_ehdr bs))) bs))"

definition loadable :: "Elf64_Phdr \<Rightarrow> bool" where
  "loadable p \<longleftrightarrow> p_type p = PT_LOAD \<and> p_memsz p \<noteq> 0"

definition elf_segs :: "u8 list \<Rightarrow> Elf64_Phdr list" where
  "elf_segs bs = filter loadable (map (elf_phdr bs) [0..<unat (e_phnum (elf_ehdr bs))])"

definition elf_vbase :: "Elf64_Phdr list \<Rightarrow> u64" where
  "elf_vbase ps = fold min (map p_vaddr ps) (- 1)"

definition elf_pbase :: "Elf64_Phdr list \<Rightarrow> u64" where
  "elf_pbase ps =
     (let q = fold min (filter (\<lambda>a. a \<noteq> 0) (map p_paddr ps)) (- 1) in if q = - 1 then LOADER_KERNEL_PHYS_BASE else q)"

definition seg_dest :: "Elf64_Phdr list \<Rightarrow> Elf64_Phdr \<Rightarrow> u64" where
  "seg_dest ps p = (if p_paddr p \<noteq> 0 then p_paddr p else elf_pbase ps + (p_vaddr p - elf_vbase ps))"

abbreviation phdrs_inside :: "u8 list \<Rightarrow> bool" where
  "phdrs_inside bs \<equiv> 56 \<le> unat (e_phentsize (elf_ehdr bs)) \<and>
     unat (e_phoff (elf_ehdr bs)) + unat (e_phnum (elf_ehdr bs)) * unat (e_phentsize (elf_ehdr bs)) \<le> length bs"

lemma read_phdr_eq:
  assumes "file_holds dev vol file bs" "cache_ok dev cache" "phdrs_inside bs" "i < unat (e_phnum (elf_ehdr bs))"
  shows "\<exists>cache'. read_phdr dev vol file (elf_ehdr bs) i cache = Ret (Some (elf_phdr bs i), cache') \<and> cache_ok dev cache'"
proof -
  let ?e = "elf_ehdr bs"
  let ?o = "unat (e_phoff ?e) + i * unat (e_phentsize ?e)"
  let ?w = "ucast (e_phoff ?e + of_nat i * ucast (e_phentsize ?e)) :: u32"
  have "Suc i * unat (e_phentsize ?e) \<le> unat (e_phnum ?e) * unat (e_phentsize ?e)"
    using assms(4) by (intro mult_le_mono1) simp
  then have o: "?o + 56 \<le> length bs" using assms(3) by simp
  then have lt: "?o < 2 ^ 32" using file_holds_less [OF assms(1)] by simp
  have "unat (ucast (e_phentsize ?e) :: u64) = unat (e_phentsize ?e)"
    using unat_less_two_power [of "e_phentsize ?e"] by (simp add: unsigned_ucast_eq take_bit_nat_eq_self)
  then have "unat (e_phoff ?e + of_nat i * ucast (e_phentsize ?e) :: u64) = ?o"
    using lt by (simp add: unat_word_ariths unat_of_nat mod_mult_left_eq mod_add_right_eq)
  then have w: "unat ?w = ?o" using lt by (simp add: unsigned_ucast_eq take_bit_nat_eq_self)
  have "unat ?w + unat sizeof_Elf64_Phdr \<le> length bs" unfolding w using o by (simp add: sizeof_Elf64_Phdr_def)
  from file_holds_read [OF assms(1,2) this, of LOCAL] show ?thesis
    unfolding w by (auto simp: read_phdr_def elf_phdr_def sizeof_Elf64_Phdr_def Let_def)
qed

lemma elf_bases_eq:
  assumes "file_holds dev vol file bs" "phdrs_inside bs"
  shows "i + k = unat (e_phnum (elf_ehdr bs)) \<Longrightarrow> cache_ok dev cache \<Longrightarrow>
    \<exists>cache'. elf_bases dev vol file (elf_ehdr bs) i k bv bp cache =
      Ret (Some (fold min (map p_vaddr (filter loadable (map (elf_phdr bs) [i..<i + k]))) bv,
                 fold min (filter (\<lambda>a. a \<noteq> 0) (map p_paddr (filter loadable (map (elf_phdr bs) [i..<i + k])))) bp), cache') \<and>
      cache_ok dev cache'"
proof (induction k arbitrary: i bv bp cache)
  case 0
  then show ?case by simp
next
  case (Suc k)
  let ?p = "elf_phdr bs i"
  obtain cache1 where rd: "read_phdr dev vol file (elf_ehdr bs) i cache = Ret (Some ?p, cache1)" "cache_ok dev cache1"
    using read_phdr_eq [OF assms(1) Suc.prems(2) assms(2), of i] Suc.prems(1) by auto
  have up: "[i..<i + Suc k] = i # [Suc i..<Suc i + k]" by (simp add: upt_conv_Cons)
  have m: "(if a < b then a else b) = min a b" for a b :: u64 by (cases a b rule: linorder_cases) (auto simp: min_def)
  note IH = Suc.IH [of "Suc i", OF _ rd(2)]
  show ?case
  proof (cases "loadable ?p")
    case True
    then have "elf_bases dev vol file (elf_ehdr bs) i (Suc k) bv bp cache
        = elf_bases dev vol file (elf_ehdr bs) (Suc i) k (min (p_vaddr ?p) bv)
            (if p_paddr ?p \<noteq> 0 then min (p_paddr ?p) bp else bp) cache1"
      by (simp add: rd(1) loadable_def m flip: m)
    then show ?thesis unfolding up using True Suc.prems(1) IH by simp
  next
    case False
    then have "elf_bases dev vol file (elf_ehdr bs) i (Suc k) bv bp cache
        = elf_bases dev vol file (elf_ehdr bs) (Suc i) k bv bp cache1"
      by (auto simp: rd(1) loadable_def)
    then show ?thesis unfolding up using False Suc.prems(1) IH by simp
  qed
qed

text \<open>One segment: its file bytes, then zeros up to its memory size.\<close>

definition seg_store :: "u8 list \<Rightarrow> u64 \<Rightarrow> Elf64_Phdr \<Rightarrow> mem \<Rightarrow> mem" where
  "seg_store bs d p m = (\<lambda>a.
     if span d (unat (p_memsz p)) a
     then if unat (a - d) < unat (p_filesz p) then bs ! (unat (p_offset p) + unat (a - d)) else 0
     else m a)"

abbreviation seg_inside :: "u8 list \<Rightarrow> u64 \<Rightarrow> Elf64_Phdr \<Rightarrow> bool" where
  "seg_inside bs d p \<equiv> unat (p_offset p) + unat (p_filesz p) \<le> length bs \<and> p_filesz p \<le> p_memsz p \<and> d \<noteq> 0 \<and>
     unat d + unat (p_memsz p) < 2 ^ 64"

lemma seg_store_steps:
  assumes "seg_inside bs d p" "m1 = store_bytes d (take (unat (p_filesz p)) (drop (unat (p_offset p)) bs)) m"
  shows "(if p_filesz p < p_memsz p then snd (loader_memset (d + p_filesz p) 0 (p_memsz p - p_filesz p) m1) else m1)
    = seg_store bs d p m"
proof
  fix a
  let ?f = "unat (p_filesz p)" and ?n = "unat (p_memsz p)"
  have l: "length (take ?f (drop (unat (p_offset p)) bs)) = ?f" using assms(1) by auto
  have m1: "m1 a = (if span d ?f a then bs ! (unat (p_offset p) + unat (a - d)) else m a)"
    unfolding assms(2) using unat_less_two_power [of "p_filesz p"] assms(1) by (subst store_bytes_eq) (auto simp: span_def)
  have fn: "?f \<le> ?n" using assms(1) by (simp add: word_le_nat_alt)
  have df: "unat (d + p_filesz p) = unat d + ?f" using assms(1) fn by (intro unat_add_no_wrap) simp
  have sub: "unat (p_memsz p - p_filesz p) = ?n - ?f" using assms(1) by (simp add: unat_sub)
  have sp: "span (d + p_filesz p) (?n - ?f) a \<longleftrightarrow> span d ?n a \<and> \<not> span d ?f a"
    using assms(1) fn df by (subst (1 2 3) span_iff_interval) auto
  show "(if p_filesz p < p_memsz p then snd (loader_memset (d + p_filesz p) 0 (p_memsz p - p_filesz p) m1) else m1) a
    = seg_store bs d p m a"
  proof (cases "p_filesz p < p_memsz p")
    case True
    then show ?thesis using fn by (auto simp: loader_memset_eq memset_fills sub sp [unfolded span_def] m1 seg_store_def span_def)
  next
    case False
    then have "?f = ?n" using fn by (simp add: word_less_nat_alt)
    then show ?thesis using False by (simp add: m1 seg_store_def span_def)
  qed
qed

lemma elf_segments_eq:
  assumes f: "file_holds dev vol file bs" "phdrs_inside bs"
    and ins: "\<forall>p\<in>set (elf_segs bs). seg_inside bs (seg_dest (elf_segs bs) p) p"
    and base: "bv = elf_vbase (elf_segs bs)" "bp = elf_pbase (elf_segs bs)"
  shows "i + k = unat (e_phnum (elf_ehdr bs)) \<Longrightarrow> cache_ok dev (ls_fat st) \<Longrightarrow>
    \<exists>st'. elf_segments dev vol file (elf_ehdr bs) bv bp i k mn mx st =
      Ret (Some (fold min (map (seg_dest (elf_segs bs)) (filter loadable (map (elf_phdr bs) [i..<i + k]))) mn,
                 fold max (map (\<lambda>p. seg_dest (elf_segs bs) p + p_memsz p) (filter loadable (map (elf_phdr bs) [i..<i + k]))) mx), st') \<and>
      ls_mem st' = fold (\<lambda>p. seg_store bs (seg_dest (elf_segs bs) p) p) (filter loadable (map (elf_phdr bs) [i..<i + k])) (ls_mem st)"
proof (induction k arbitrary: i mn mx st)
  case 0
  then show ?case by simp
next
  case (Suc k)
  let ?p = "elf_phdr bs i" and ?d = "seg_dest (elf_segs bs)"
  obtain cache1 where rd: "read_phdr dev vol file (elf_ehdr bs) i (ls_fat st) = Ret (Some ?p, cache1)" "cache_ok dev cache1"
    using read_phdr_eq [OF f(1) Suc.prems(2) f(2), of i] Suc.prems(1) by auto
  have up: "[i..<i + Suc k] = i # [Suc i..<Suc i + k]" by (simp add: upt_conv_Cons)
  have mm: "(if a < b then a else b) = min a b" "(if b < a then a else b) = max a b" for a b :: u64
    by (cases a b rule: linorder_cases; auto simp: min_def max_def)+
  have n: "Suc i + k = unat (e_phnum (elf_ehdr bs))" using Suc.prems(1) by simp
  show ?case
  proof (cases "loadable ?p")
    case False
    then have "elf_segments dev vol file (elf_ehdr bs) bv bp i (Suc k) mn mx st
        = elf_segments dev vol file (elf_ehdr bs) bv bp (Suc i) k mn mx (st\<lparr>ls_fat := cache1\<rparr>)"
      by (auto simp: rd(1) loadable_def)
    then show ?thesis unfolding up using False Suc.IH [OF n, of "st\<lparr>ls_fat := cache1\<rparr>" mn mx] rd(2) by simp
  next
    case True
    then have "?p \<in> set (elf_segs bs)" using Suc.prems(1) by (auto simp: elf_segs_def)
    then have i: "seg_inside bs (?d ?p) ?p" using ins by blast
    have d: "(if p_paddr ?p \<noteq> 0 then p_paddr ?p else bp + (p_vaddr ?p - bv)) = ?d ?p" by (simp add: seg_dest_def base)
    have "unat (p_offset ?p) < 2 ^ 32" "unat (p_filesz ?p) < 2 ^ 32" using i file_holds_less [OF f(1)] by auto
    then have u: "unat (ucast (p_offset ?p) :: u32) = unat (p_offset ?p)" "unat (ucast (p_filesz ?p) :: u32) = unat (p_filesz ?p)"
      by (simp_all add: unsigned_ucast_eq take_bit_nat_eq_self)
    let ?ws = "take (unat (p_filesz ?p)) (drop (unat (p_offset ?p)) bs)"
    obtain cache2 where r: "fat16_read_file_at dev vol file (ucast (p_offset ?p)) (ucast (p_filesz ?p)) (?d ?p) cache1
        = Ret (True, ?ws, cache2)" "cache_ok dev cache2"
      using file_holds_read [OF f(1) rd(2), of "ucast (p_offset ?p)" "ucast (p_filesz ?p)" "?d ?p"] i unfolding u by auto
    define c where "c = (if 0 < p_filesz ?p then cache2 else cache1)"
    define m1 where "m1 = store_bytes (?d ?p) ?ws (ls_mem st)"
    have sk: "p_filesz ?p = 0 \<Longrightarrow> m1 = ls_mem st" by (simp add: m1_def)
    have ld: "(if 0 < p_filesz ?p
        then obind (fat16_read_file_at dev vol file (ucast (p_offset ?p)) (ucast (p_filesz ?p)) (?d ?p) (ls_fat (st\<lparr>ls_fat := cache1\<rparr>)))
               (\<lambda>(ok, ws, cache''). Ret (ok, \<lparr>ls_mem = store_bytes (?d ?p) ws (ls_mem (st\<lparr>ls_fat := cache1\<rparr>)), ls_fat = cache''\<rparr>))
        else Ret (True, st\<lparr>ls_fat := cache1\<rparr>)) = Ret (True, \<lparr>ls_mem = m1, ls_fat = c\<rparr>)"
      using r(1) sk by (auto simp: c_def m1_def word_greater_zero_iff)
    define st3 :: loader_state where "st3 = \<lparr>ls_mem = seg_store bs (?d ?p) ?p (ls_mem st), ls_fat = c\<rparr>"
    have st3: "(if p_filesz ?p < p_memsz ?p
        then \<lparr>ls_mem = m1, ls_fat = c\<rparr>\<lparr>ls_mem := snd (loader_memset (?d ?p + p_filesz ?p) 0 (p_memsz ?p - p_filesz ?p) (ls_mem \<lparr>ls_mem = m1, ls_fat = c\<rparr>))\<rparr>
        else \<lparr>ls_mem = m1, ls_fat = c\<rparr>) = st3"
      using seg_store_steps [OF i m1_def] by (auto simp: st3_def split: if_splits)
    have nt: "(p_type ?p \<noteq> PT_LOAD \<or> p_memsz ?p = 0) = False" using True by (simp add: loadable_def)
    have "elf_segments dev vol file (elf_ehdr bs) bv bp i (Suc k) mn mx st
        = elf_segments dev vol file (elf_ehdr bs) bv bp (Suc i) k (min (?d ?p) mn) (max (?d ?p + p_memsz ?p) mx) st3"
      unfolding elf_segments.simps rd(1) obind.simps prod.case Let_def option.case nt if_False d ld not_True_eq_False st3 mm ..
    moreover have "cache_ok dev (ls_fat st3)" using rd(2) r(2) by (simp add: st3_def c_def)
    ultimately show ?thesis unfolding up using True Suc.IH [OF n, of st3] by (simp add: st3_def)
  qed
qed

section \<open>Segments in memory\<close>

abbreviation seg_apart :: "Elf64_Phdr list \<Rightarrow> Elf64_Phdr \<Rightarrow> Elf64_Phdr \<Rightarrow> bool" where
  "seg_apart ps p q \<equiv>
     unat (seg_dest ps p) + unat (p_memsz p) \<le> unat (seg_dest ps q) \<or> unat (seg_dest ps q) + unat (p_memsz q) \<le> unat (seg_dest ps p)"

lemma seg_stores_other:
  assumes "\<forall>p\<in>set qs. \<not> span (D p) (unat (p_memsz p)) a"
  shows "fold (\<lambda>p. seg_store bs (D p) p) qs m a = m a"
  using assms by (induction qs arbitrary: m) (simp_all add: seg_store_def)

lemma seg_stores_in:
  assumes "sorted_wrt (\<lambda>p q. \<forall>a. \<not> (span (D p) (unat (p_memsz p)) a \<and> span (D q) (unat (p_memsz q)) a)) qs"
    and "p \<in> set qs" "span (D p) (unat (p_memsz p)) a"
  shows "fold (\<lambda>p. seg_store bs (D p) p) qs m a
    = (if unat (a - D p) < unat (p_filesz p) then bs ! (unat (p_offset p) + unat (a - D p)) else 0)"
  using assms
proof (induction qs arbitrary: m)
  case Nil
  then show ?case by simp
next
  case (Cons q qs)
  show ?case
  proof (cases "p \<in> set qs")
    case True
    then show ?thesis using Cons by simp
  next
    case False
    then have "p = q" using Cons.prems(2) by simp
    then have "\<forall>r\<in>set qs. \<not> span (D r) (unat (p_memsz r)) a" using Cons.prems(1,3) by auto
    then have "fold (\<lambda>p. seg_store bs (D p) p) (q # qs) m a = seg_store bs (D q) q m a" by (simp add: seg_stores_other)
    moreover have "seg_store bs (D q) q m a =
        (if unat (a - D p) < unat (p_filesz p) then bs ! (unat (p_offset p) + unat (a - D p)) else 0)"
      using \<open>p = q\<close> Cons.prems(3) by (simp add: seg_store_def)
    ultimately show ?thesis by simp
  qed
qed

text \<open>
  A well-formed image: the identification the loader checks, program headers and segment contents inside
  the file, segments that fit below 2^64 and do not overlap in memory.
\<close>

definition elf_image_ok :: "u8 list \<Rightarrow> bool" where
  "elf_image_ok bs \<longleftrightarrow> 64 \<le> length bs \<and> take 6 bs = [0x7F, 0x45, 0x4C, 0x46, 2, 1] \<and> e_machine (elf_ehdr bs) = 0xB7 \<and>
     phdrs_inside bs \<and> elf_segs bs \<noteq> [] \<and>
     (\<forall>p\<in>set (elf_segs bs). seg_inside bs (seg_dest (elf_segs bs) p) p \<and> p_vaddr p \<noteq> - 1) \<and>
     sorted_wrt (seg_apart (elf_segs bs)) (elf_segs bs)"

lemma fold_min_le:
  fixes b :: u64
  shows "fold min xs b \<le> b" "x \<in> set xs \<Longrightarrow> fold min xs b \<le> x" "fold min xs b = b \<or> fold min xs b \<in> set xs"
proof -
  have e: "fold min xs b = Min (insert b (set xs))" using Min.set_eq_fold [of b xs] by simp
  show "fold min xs b \<le> b" "x \<in> set xs \<Longrightarrow> fold min xs b \<le> x" unfolding e by (rule Min_le; simp)+
  have "Min (insert b (set xs)) \<in> insert b (set xs)" by (rule Min_in) auto
  then show "fold min xs b = b \<or> fold min xs b \<in> set xs" unfolding e by auto
qed

lemma fold_max_ge:
  fixes b :: u64
  shows "x \<in> set xs \<Longrightarrow> x \<le> fold max xs b"
proof -
  have e: "fold max xs b = Max (insert b (set xs))" using Max.set_eq_fold [of b xs] by simp
  show "x \<in> set xs \<Longrightarrow> x \<le> fold max xs b" unfolding e by (rule Max_ge) auto
qed

lemma fold_max_in:
  fixes b :: u64
  shows "fold max xs b = b \<or> fold max xs b \<in> set xs"
proof -
  have "fold max xs b = Max (insert b (set xs))" using Max.set_eq_fold [of b xs] by simp
  moreover have "Max (insert b (set xs)) \<in> insert b (set xs)" by (rule Max_in) auto
  ultimately show ?thesis by auto
qed

lemma word_minus_one_max: "(x :: u64) \<noteq> - 1 \<longleftrightarrow> unat x < 2 ^ 64 - 1"
proof -
  have "unat (- 1 :: u64) = 2 ^ 64 - 1" by (simp add: unsigned_minus_1_eq_mask mask_eq_exp_minus_1)
  then show ?thesis using unat_less_two_power [of x] by (auto simp: word_unat_eq_iff)
qed

lemma load_kernel_elf_eq:
  assumes f: "file_holds dev vol file bs" and ok: "elf_image_ok bs" and cache: "cache_ok dev (ls_fat st)"
  defines "D \<equiv> seg_dest (elf_segs bs)"
  shows "\<exists>st'. load_kernel_elf dev vol file bi st =
      Ret (Some (bi\<lparr>kernel_phys_base := fold min (map D (elf_segs bs)) (- 1),
                    kernel_size := fold max (map (\<lambda>p. D p + p_memsz p) (elf_segs bs)) 0 - fold min (map D (elf_segs bs)) (- 1),
                    kernel_entry_offset := (if elf_vbase (elf_segs bs) \<le> e_entry (elf_ehdr bs) then e_entry (elf_ehdr bs) - elf_vbase (elf_segs bs) else 0)\<rparr>,
                 e_entry (elf_ehdr bs)), st') \<and>
      ls_mem st' = fold (\<lambda>p. seg_store bs (D p) p) (elf_segs bs) (ls_mem st)"
proof -
  let ?e = "elf_ehdr bs" and ?S = "elf_segs bs"
  let ?mn = "fold min (map D ?S) (- 1)" and ?mx = "fold max (map (\<lambda>p. D p + p_memsz p) ?S) 0"
  have ph: "phdrs_inside bs" and S: "?S \<noteq> []" and len: "64 \<le> length bs"
    and ins: "\<forall>p\<in>set ?S. seg_inside bs (seg_dest ?S p) p" and va: "\<forall>p\<in>set ?S. p_vaddr p \<noteq> - 1"
    using ok by (simp_all add: elf_image_ok_def)
  obtain cache1 where r1: "fat16_read_file_at dev vol file 0 sizeof_Elf64_Ehdr LOCAL (ls_fat st) = Ret (True, take 64 bs, cache1)"
      "cache_ok dev cache1"
    using file_holds_read [OF f cache, of 0 sizeof_Elf64_Ehdr LOCAL] len by (auto simp: sizeof_Elf64_Ehdr_def)
  obtain cache2 where r2: "elf_bases dev vol file ?e 0 (unat (e_phnum ?e)) (- 1) (- 1) cache1
      = Ret (Some (elf_vbase ?S, fold min (filter (\<lambda>a. a \<noteq> 0) (map p_paddr ?S)) (- 1)), cache2)" "cache_ok dev cache2"
    using elf_bases_eq [OF f ph, of 0 "unat (e_phnum ?e)" cache1 "- 1" "- 1"] r1(2) by (auto simp: elf_vbase_def elf_segs_def)
  have r3: "\<exists>st'. elf_segments dev vol file ?e (elf_vbase ?S) (elf_pbase ?S) 0 (unat (e_phnum ?e)) (- 1) 0 (st\<lparr>ls_fat := cache2\<rparr>)
      = Ret (Some (?mn, ?mx), st') \<and> ls_mem st' = fold (\<lambda>p. seg_store bs (D p) p) ?S (ls_mem st)"
    using elf_segments_eq [OF f ph ins refl refl, of 0 "unat (e_phnum ?e)" "st\<lparr>ls_fat := cache2\<rparr>" "- 1" 0] r2(2)
    by (simp add: D_def flip: elf_segs_def)
  obtain p where p: "p \<in> set ?S" using S by (cases ?S) auto
  have vb: "elf_vbase ?S \<noteq> - 1"
  proof -
    have "elf_vbase ?S \<le> p_vaddr p" unfolding elf_vbase_def using p by (intro fold_min_le(2)) simp
    moreover have "p_vaddr p \<noteq> - 1" using va p by blast
    ultimately show ?thesis by (auto simp: word_minus_one_max word_le_nat_alt)
  qed
  have pp: "unat (D p) + unat (p_memsz p) < 2 ^ 64" "p_memsz p \<noteq> 0"
    using ins p by (auto simp: D_def elf_segs_def loadable_def)
  then have pe: "unat (D p + p_memsz p) = unat (D p) + unat (p_memsz p)" "0 < unat (p_memsz p)"
    by (simp_all add: unat_add_no_wrap unat_gt_0)
  have mp: "?mn \<le> D p" "D p + p_memsz p \<le> ?mx"
    using p by (auto intro!: fold_min_le(2) fold_max_ge)
  then have mm: "?mn \<noteq> - 1" "\<not> ?mx \<le> ?mn"
    using pp pe by (auto simp: word_minus_one_max word_le_nat_alt)
  have id: "take 6 (take 64 bs) = [0x7F, 0x45, 0x4C, 0x46, 2, 1]" using ok by (simp add: elf_image_ok_def)
  have "e_ident ?e ! j = take 6 (take 64 bs) ! j" if "j < 6" for j using that by (simp add: elf_ehdr_def ehdr_of_def)
  then have ident: "e_ident ?e ! 0 = 0x7F" "e_ident ?e ! 1 = 0x45" "e_ident ?e ! 2 = 0x4C" "e_ident ?e ! 3 = 0x46"
      "e_ident ?e ! 4 = 2" "e_ident ?e ! 5 = 1" unfolding id by simp_all
  have pn: "e_phnum ?e \<noteq> 0" using S by (auto simp: elf_segs_def)
  have pz: "\<not> ucast (e_phentsize ?e) < sizeof_Elf64_Phdr" using ph by (simp add: word_less_nat_alt sizeof_Elf64_Phdr_def)
  have pb: "(if fold min (filter (\<lambda>a. a \<noteq> 0) (map p_paddr ?S)) (- 1) = - 1 then LOADER_KERNEL_PHYS_BASE
      else fold min (filter (\<lambda>a. a \<noteq> 0) (map p_paddr ?S)) (- 1)) = elf_pbase ?S" by (simp add: elf_pbase_def Let_def)
  from r3 obtain st' where st': "elf_segments dev vol file ?e (elf_vbase ?S) (elf_pbase ?S) 0 (unat (e_phnum ?e)) (- 1) 0 (st\<lparr>ls_fat := cache2\<rparr>)
      = Ret (Some (?mn, ?mx), st')" "ls_mem st' = fold (\<lambda>p. seg_store bs (D p) p) ?S (ls_mem st)" by blast
  have mach: "e_machine ?e = 0xB7" using ok by (simp add: elf_image_ok_def)
  show ?thesis
    unfolding load_kernel_elf_def r1(1) obind.simps prod.case Let_def elf_ehdr_def [symmetric]
    using ident mach pn pz r2(1) vb pb st' mm by (simp add: elf_ehdr_def)
qed

lemma seg_apart_spans:
  assumes "elf_image_ok bs"
  defines "D \<equiv> seg_dest (elf_segs bs)"
  shows "sorted_wrt (\<lambda>p q. \<forall>a. \<not> (span (D p) (unat (p_memsz p)) a \<and> span (D q) (unat (p_memsz q)) a)) (elf_segs bs)"
proof -
  have s: "sorted_wrt (seg_apart (elf_segs bs)) (elf_segs bs)" using assms(1) by (simp add: elf_image_ok_def)
  have b: "unat (D p) + unat (p_memsz p) \<le> 2 ^ 64" if "p \<in> set (elf_segs bs)" for p
    using assms(1) that by (auto simp: elf_image_ok_def D_def)
  show ?thesis
  proof (rule sorted_wrt_mono_rel [OF _ s])
    fix p q assume pq: "p \<in> set (elf_segs bs)" "q \<in> set (elf_segs bs)" "seg_apart (elf_segs bs) p q"
    show "\<forall>a. \<not> (span (D p) (unat (p_memsz p)) a \<and> span (D q) (unat (p_memsz q)) a)"
      using pq(3) unfolding D_def [symmetric] span_iff_interval [OF b [OF pq(1)]] span_iff_interval [OF b [OF pq(2)]] by auto
  qed
qed

text \<open>What the memory and the boot information hold after the image is loaded.\<close>

definition image_loaded :: "u8 list \<Rightarrow> mem \<Rightarrow> mem \<Rightarrow> bool" where
  "image_loaded bs m m' \<longleftrightarrow>
     (\<forall>p\<in>set (elf_segs bs). \<forall>j<unat (p_memsz p). m' (seg_dest (elf_segs bs) p + of_nat j) =
        (if j < unat (p_filesz p) then bs ! (unat (p_offset p) + j) else 0)) \<and>
     (\<forall>a. (\<forall>p\<in>set (elf_segs bs). \<not> span (seg_dest (elf_segs bs) p) (unat (p_memsz p)) a) \<longrightarrow> m' a = m a)"

text \<open>
  The extent in the boot information is exact: the base is the lowest destination of a segment, and base
  plus size is the highest end of one.
\<close>

definition kernel_extent :: "u8 list \<Rightarrow> boot_info \<Rightarrow> bool" where
  "kernel_extent bs bi \<longleftrightarrow>
     (\<exists>p\<in>set (elf_segs bs). kernel_phys_base bi = seg_dest (elf_segs bs) p) \<and>
     (\<exists>p\<in>set (elf_segs bs). unat (kernel_phys_base bi) + unat (kernel_size bi) = unat (seg_dest (elf_segs bs) p) + unat (p_memsz p)) \<and>
     (\<forall>p\<in>set (elf_segs bs). kernel_phys_base bi \<le> seg_dest (elf_segs bs) p \<and>
        unat (seg_dest (elf_segs bs) p) + unat (p_memsz p) \<le> unat (kernel_phys_base bi) + unat (kernel_size bi))"

lemma segments_image_loaded:
  assumes ok: "elf_image_ok bs"
  shows "image_loaded bs m (fold (\<lambda>p. seg_store bs (seg_dest (elf_segs bs) p) p) (elf_segs bs) m)"
proof -
  let ?S = "elf_segs bs"
  have in_seg: "fold (\<lambda>p. seg_store bs (seg_dest ?S p) p) ?S m (seg_dest ?S p + of_nat j) =
      (if j < unat (p_filesz p) then bs ! (unat (p_offset p) + j) else 0)" if "p \<in> set ?S" "j < unat (p_memsz p)" for p j
  proof -
    have j: "unat (of_nat j :: u64) = j" using that(2) unat_less_two_power [of "p_memsz p"] by (simp add: unat_of_nat)
    then have "span (seg_dest ?S p) (unat (p_memsz p)) (seg_dest ?S p + of_nat j)" using that(2) by (simp add: span_def)
    from seg_stores_in [OF seg_apart_spans [OF ok] that(1) this] show ?thesis using j by simp
  qed
  then show ?thesis using seg_stores_other [of ?S "seg_dest ?S"] by (simp add: image_loaded_def)
qed

lemma image_extent:
  assumes ok: "elf_image_ok bs"
  defines "D \<equiv> seg_dest (elf_segs bs)"
  shows "kernel_extent bs (bi\<lparr>kernel_phys_base := fold min (map D (elf_segs bs)) (- 1),
      kernel_size := fold max (map (\<lambda>p. D p + p_memsz p) (elf_segs bs)) 0 - fold min (map D (elf_segs bs)) (- 1),
      kernel_entry_offset := e\<rparr>)"
proof -
  let ?S = "elf_segs bs"
  let ?mn = "fold min (map D ?S) (- 1)" and ?mx = "fold max (map (\<lambda>p. D p + p_memsz p) ?S) 0"
  have b: "unat (D p) + unat (p_memsz p) < 2 ^ 64" "p_memsz p \<noteq> 0" if "p \<in> set ?S" for p
    using ok that by (auto simp: elf_image_ok_def D_def elf_segs_def loadable_def)
  have le: "?mn \<le> D p" "D p + p_memsz p \<le> ?mx" if "p \<in> set ?S" for p
    using that by (auto intro!: fold_min_le(2) fold_max_ge)
  have e: "unat (D p + p_memsz p) = unat (D p) + unat (p_memsz p)" if "p \<in> set ?S" for p
    using b [OF that] by (intro unat_add_no_wrap) simp
  obtain p where p: "p \<in> set ?S" using ok by (cases ?S) (auto simp: elf_image_ok_def)
  have "?mn \<le> ?mx" using le [OF p] e [OF p] by (auto simp: word_le_nat_alt)
  then have sz: "unat ?mn + unat (?mx - ?mn) = unat ?mx" by (simp add: unat_sub word_le_nat_alt)
  have "?mn \<noteq> - 1"
    using le(1) [OF p] b [OF p] by (auto simp: word_minus_one_max word_le_nat_alt unat_gt_0 [symmetric])
  then have "?mn \<in> set (map D ?S)" using fold_min_le(3) [of "map D ?S" "- 1"] by blast
  then have "\<exists>p\<in>set ?S. ?mn = D p" by auto
  moreover have "?mn \<le> D p \<and> unat (D p) + unat (p_memsz p) \<le> unat ?mn + unat (?mx - ?mn)" if "p \<in> set ?S" for p
    unfolding sz e [OF that, symmetric] using le [OF that] by (simp add: word_le_nat_alt)
  moreover have "?mx \<noteq> 0" using le(2) [OF p] e [OF p] b(2) [OF p] by (auto simp: word_le_nat_alt unat_gt_0 [symmetric])
  then have "?mx \<in> set (map (\<lambda>p. D p + p_memsz p) ?S)" using fold_max_in [of "map (\<lambda>p. D p + p_memsz p) ?S" 0] by blast
  then obtain q where "q \<in> set ?S" "?mx = D q + p_memsz q" by auto
  then have "\<exists>p\<in>set ?S. unat ?mn + unat (?mx - ?mn) = unat (D p) + unat (p_memsz p)" unfolding sz using e by auto
  ultimately show ?thesis by (simp add: kernel_extent_def D_def)
qed

lemma kernel_path_lookup: "fat16_find_path dev vol (hd kernel_paths) cache = Ret (fat16_find_in_root dev vol kernel_short_name, cache)"
proof -
  let ?p = "[0x4B, 0x45, 0x52, 0x4E, 0x45, 0x4C, 0x2E, 0x45, 0x4C, 0x46] :: u8 list"
  have n: "make_short_name ?p = Some kernel_short_name" by code_simp
  have c: "comp_len ?p 15 = 10" by code_simp
  have s: "skip_slashes ?p = ?p" "skip_slashes (drop 10 ?p) = []" by code_simp+
  have "path_loop dev vol ?p 0 cache = Ret (fat16_find_in_root dev vol kernel_short_name, cache)"
    using n s(2) by (subst path_loop.simps) (simp add: c fat16_find_in_dir_def Let_def split: option.splits)
  then show ?thesis by (simp add: fat16_find_path_def kernel_paths_def s(1))
qed

text \<open>
  C21: On a disk with a boot partition whose root directory names a well-formed kernel image that lies above
  the loader, page aligned and with an aligned entry, the loader jumps to the image's entry with every
  segment in place, its tail zeroed, nothing else written, and the exact extent of the image (the lowest
  destination and the distance to the highest segment end) in the boot information.
\<close>

theorem loader_boots_kernel:
  assumes part: "gpt_find_partition_lba dev = Ret lba" "lba \<noteq> 0" and vol: "fat16_parse dev lba = Some vol"
    and root: "fat16_find_in_root dev vol kernel_short_name = Some file" "de_attr file AND 0x10 = 0"
    and holds: "file_holds dev vol file bs" and ok: "elf_image_ok bs" and cache: "cache_ok dev (ls_fat st)"
    and place: "\<forall>p\<in>set (elf_segs bs). stack_top \<le> seg_dest (elf_segs bs) p \<and> seg_dest (elf_segs bs) p AND 0xFFF = 0"
    and entry: "e_entry (elf_ehdr bs) AND 3 = 0"
  shows "\<exists>h. loader_main dev stack_top bi_pa dtb st = Ret h \<and> jump_entry h = e_entry (elf_ehdr bs) \<and>
    jump_arg h = CAPAZ_HH_BASE + bi_pa \<and> image_loaded bs (ls_mem st) (jump_mem h) \<and> kernel_extent bs (jump_info h)"
proof -
  let ?D = "seg_dest (elf_segs bs)"
  let ?bi0 = "\<lparr>kernel_phys_base = 0, kernel_size = 0, kernel_entry_offset = 0, dtb_ptr = 0, dtb_size = 0\<rparr>"
  have fk: "find_kernel dev vol kernel_paths (ls_fat st) = Ret (Some file, ls_fat st)"
  proof -
    have "kernel_paths = hd kernel_paths # tl kernel_paths" by (simp add: kernel_paths_def)
    then have "find_kernel dev vol kernel_paths (ls_fat st) = find_kernel dev vol (hd kernel_paths # tl kernel_paths) (ls_fat st)"
      by (rule arg_cong [where f = "\<lambda>ps. find_kernel dev vol ps (ls_fat st)"])
    then show ?thesis by (simp add: kernel_path_lookup root(1))
  qed
  obtain bi st' where ld: "load_kernel_elf dev vol file ?bi0 st = Ret (Some (bi, e_entry (elf_ehdr bs)), st')"
      "image_loaded bs (ls_mem st) (ls_mem st')" "kernel_extent bs bi"
  proof -
    from load_kernel_elf_eq [OF holds ok cache, of ?bi0] obtain st' where
      l: "load_kernel_elf dev vol file ?bi0 st =
        Ret (Some (?bi0\<lparr>kernel_phys_base := fold min (map ?D (elf_segs bs)) (- 1),
          kernel_size := fold max (map (\<lambda>p. ?D p + p_memsz p) (elf_segs bs)) 0 - fold min (map ?D (elf_segs bs)) (- 1),
          kernel_entry_offset := (if elf_vbase (elf_segs bs) \<le> e_entry (elf_ehdr bs) then e_entry (elf_ehdr bs) - elf_vbase (elf_segs bs) else 0)\<rparr>,
          e_entry (elf_ehdr bs)), st')"
      and m: "ls_mem st' = fold (\<lambda>p. seg_store bs (?D p) p) (elf_segs bs) (ls_mem st)" by blast
    show ?thesis by (rule that [OF l _ image_extent [OF ok]]) (simp only: m segments_image_loaded [OF ok])
  qed
  have kb: "stack_top \<le> kernel_phys_base bi" "kernel_phys_base bi AND 0xFFF = 0"
    using ld(3) place unfolding kernel_extent_def by metis+
  have ext: "kernel_extent bs (bi\<lparr>dtb_ptr := x, dtb_size := y\<rparr>)" for x y using ld(3) by (simp add: kernel_extent_def)
  show ?thesis
    unfolding loader_main_def using part vol fk root(2) ld(1,2) kb entry ext ld(3) by (auto simp: Let_def)
qed

definition example_image :: "u8 list" where
  "example_image = sector_of example_elf @ replicate 88 0"

definition example_seg :: Elf64_Phdr where
  "example_seg = \<lparr>p_type = 1, p_flags = 5, p_offset = 120, p_vaddr = 0x40280000, p_paddr = 0x40280000, p_filesz = 8, p_memsz = 16, p_align = 4096\<rparr>"

lemma example_image_holds: "file_holds example_disk example_vol example_kernel example_image"
proof -
  have "take 600 (chain_bytes example_disk example_vol [2, 3]) = example_image" by code_simp
  moreover have "\<forall>c\<in>set [2, 3]. cluster_ok example_disk example_vol c" using example_sectors_ok by blast
  moreover have "unat (de_size example_kernel) = 600" "de_first_cluster example_kernel = 2"
    "600 \<le> length [2 :: u16, 3] * cluster_size example_vol"
    by (simp_all add: example_kernel_def example_vol_def)
  ultimately show ?thesis using example_vol_ok example_chain unfolding file_holds_def by metis
qed

lemma example_segs: "elf_segs example_image = [example_seg]"
  by code_simp

lemma example_dest: "seg_dest [example_seg] example_seg = 0x40280000"
  by code_simp

lemma example_headers:
  "e_machine (elf_ehdr example_image) = 0xB7" "e_entry (elf_ehdr example_image) = 0x40280000"
  "e_phentsize (elf_ehdr example_image) = 56" "e_phnum (elf_ehdr example_image) = 1" "e_phoff (elf_ehdr example_image) = 64"
  "take 6 example_image = [0x7F, 0x45, 0x4C, 0x46, 2, 1]"
  by code_simp+

lemma example_image_length: "length example_image = 600"
  by (simp add: example_image_def sector_of_def example_elf_def)

lemma example_image_ok: "elf_image_ok example_image"
  by (simp add: elf_image_ok_def example_segs example_dest example_headers example_image_length)
    (simp add: example_seg_def)

theorem loader_boots_kernel_witness:
  "\<exists>h. loader_main example_disk 0x40200000 0x40100000 0 \<lparr>ls_mem = (\<lambda>_. 0xAA), ls_fat = fat_cache_initial\<rparr> = Ret h \<and>
    jump_entry h = 0x40280000 \<and> jump_arg h = CAPAZ_HH_BASE + 0x40100000 \<and>
    image_loaded example_image (\<lambda>_. 0xAA) (jump_mem h) \<and> kernel_extent example_image (jump_info h) \<and>
    kernel_phys_base (jump_info h) = 0x40280000 \<and> kernel_size (jump_info h) = 16"
proof -
  let ?st = "\<lparr>ls_mem = (\<lambda>_. 0xAA), ls_fat = fat_cache_initial\<rparr>"
  have g: "gpt_find_partition_lba example_disk = Ret 4" by code_simp
  have a: "de_attr example_kernel AND 0x10 = 0" by (simp add: example_kernel_def)
  have p: "\<forall>p\<in>set (elf_segs example_image). 0x40200000 \<le> seg_dest (elf_segs example_image) p \<and>
      seg_dest (elf_segs example_image) p AND 0xFFF = 0"
    by (simp add: example_segs example_dest)
  have c: "cache_ok example_disk (ls_fat ?st)" by simp
  have e: "e_entry (elf_ehdr example_image) AND 3 = 0" by (simp add: example_headers)
  from loader_boots_kernel [OF g _ example_parse example_root_lookup a example_image_holds example_image_ok c p e, of "0x40100000" 0]
  obtain h where h: "loader_main example_disk 0x40200000 0x40100000 0 ?st = Ret h" "jump_entry h = 0x40280000"
      "jump_arg h = CAPAZ_HH_BASE + 0x40100000" "image_loaded example_image (\<lambda>_. 0xAA) (jump_mem h)" "kernel_extent example_image (jump_info h)"
    by (auto simp: example_headers)
  have m: "p_memsz example_seg = 16" by (simp add: example_seg_def)
  have b: "kernel_phys_base (jump_info h) = 0x40280000" and "unat (kernel_size (jump_info h)) = unat (16 :: u64)"
    using h(5) unfolding kernel_extent_def example_segs by (auto simp: example_dest m)
  then show ?thesis using h b by (auto simp: word_unat_eq_iff)
qed

end
