(* ===== verification/Dtb.thy ===== *)
theory Dtb
  imports Mem Boot_Info
begin

unbundle bit_operations_syntax

text \<open>
  The device tree parser (\<open>Kern/Kernel/platform/dtb.c\<close>): the header, the reservation map, and the walks
  over the structure block that collect memory, reserved memory and virtio ranges and find the console.
  The blob is read from a byte memory; the parser does not stop at the end of the blob, so a walk over a
  damaged one goes on through the memory behind it. The walks differ only in what they do with a token;
  a walk is the common loop with the step of the function.
\<close>

section \<open>Reading\<close>

definition be32 :: "mem \<Rightarrow> ptr \<Rightarrow> u32" where
  "be32 m p = push_bit 24 (ucast (m p)) OR push_bit 16 (ucast (m (p + 1))) OR push_bit 8 (ucast (m (p + 2))) OR ucast (m (p + 3))"

definition be64 :: "mem \<Rightarrow> ptr \<Rightarrow> u64" where
  "be64 m p = push_bit 32 (ucast (be32 m p)) OR ucast (be32 m (p + 4))"

definition align4 :: "ptr \<Rightarrow> ptr" where
  "align4 p = (p + 3) AND NOT 3"

definition FDT_MAGIC :: u32 where
  "FDT_MAGIC = 0xD00DFEED"

text \<open>A token of the structure block: what is read at \<open>p\<close>, and where the next one starts.\<close>

datatype fdt_token =
    FDT_BEGIN_NODE ptr
  | FDT_END_NODE
  | FDT_PROP u32 u32 ptr
  | FDT_NOP
  | FDT_END
  | FDT_OTHER

definition next_token :: "mem \<Rightarrow> ptr \<Rightarrow> (fdt_token \<times> ptr) option" where
  "next_token m p0 =
     (let token = be32 m p0; p = p0 + 4 in
      if token = 1 then
        (case strlen_loop p 0 m of None \<Rightarrow> None | Some nlen \<Rightarrow> Some (FDT_BEGIN_NODE p, align4 (p + (nlen + 1))))
      else if token = 2 then Some (FDT_END_NODE, p)
      else if token = 4 then Some (FDT_NOP, p)
      else if token = 9 then Some (FDT_END, p)
      else if token = 3 then
        (let len = be32 m p; nameoff = be32 m (p + 4); data = p + 8 in
         Some (FDT_PROP len nameoff data, align4 (data + ucast len)))
      else Some (FDT_OTHER, p))"

text \<open>The loop: a step ends the walk with a result or goes on with a new state.\<close>

partial_function (option) walk :: "mem \<Rightarrow> (fdt_token \<Rightarrow> 's \<Rightarrow> 'r + 's) \<Rightarrow> ptr \<Rightarrow> 's \<Rightarrow> 'r option" where
  "walk m step p s =
     (case next_token m p of None \<Rightarrow> None
      | Some (t, p') \<Rightarrow> (case step t s of Inl r \<Rightarrow> Some r | Inr s' \<Rightarrow> walk m step p' s'))"

definition run_walk :: "'a outcome option \<Rightarrow> 'a outcome" where
  "run_walk r = (case r of None \<Rightarrow> Hang | Some x \<Rightarrow> x)"

section \<open>Properties\<close>

record node_ctx =
  parent_addr_cells :: u32
  parent_size_cells :: u32
  addr_cells :: u32
  size_cells :: u32
  is_memory :: bool
  is_uart_candidate :: bool

fun read_cells :: "mem \<Rightarrow> nat \<Rightarrow> ptr \<Rightarrow> u64 \<Rightarrow> u64" where
  "read_cells m 0 p v = v"
| "read_cells m (Suc n) p v = read_cells m n (p + 4) (push_bit 32 v OR ucast (be32 m p))"

definition parse_reg_first :: "mem \<Rightarrow> ptr \<Rightarrow> u32 \<Rightarrow> u32 \<Rightarrow> u32 \<Rightarrow> (u64 \<times> u64) option" where
  "parse_reg_first m data len acells scells =
     (if data = NULL \<or> len < 8 then None else
      if acells = 0 \<or> scells = 0 then None else
      if 2 < acells \<or> 2 < scells then None else
      let need = 4 * (acells + scells) in
      if len < need then None
      else Some (read_cells m (unat acells) data 0, read_cells m (unat scells) (data + 4 * ucast acells) 0))"

definition append_range :: "nat \<Rightarrow> u64 \<Rightarrow> u64 \<Rightarrow> dtb_range list \<Rightarrow> dtb_range list" where
  "append_range lim b sz arr =
     (if sz = 0 then arr else if lim \<le> length arr then arr else arr @ [\<lparr>r_base = b, r_size = sz\<rparr>])"

text \<open>The loop over the tuples; with a length close to 2^32 its counter wraps and it does not end.\<close>

partial_function (option) reg_loop ::
    "mem \<Rightarrow> ptr \<Rightarrow> u32 \<Rightarrow> u32 \<Rightarrow> u32 \<Rightarrow> nat \<Rightarrow> u32 \<Rightarrow> dtb_range list \<Rightarrow> dtb_range list option" where
  "reg_loop m data len acells scells lim off out =
     (let tuple_bytes = 4 * (acells + scells) in
      if off + tuple_bytes \<le> len
      then let p = data + ucast off in
           reg_loop m data len acells scells lim (off + tuple_bytes)
             (append_range lim (read_cells m (unat acells) p 0) (read_cells m (unat scells) (p + 4 * ucast acells) 0) out)
      else Some out)"

definition parse_reg_all :: "mem \<Rightarrow> ptr \<Rightarrow> u32 \<Rightarrow> u32 \<Rightarrow> u32 \<Rightarrow> nat \<Rightarrow> dtb_range list \<Rightarrow> dtb_range list option" where
  "parse_reg_all m data len acells scells lim out =
     (if data = NULL \<or> len = 0 then Some out else
      if acells = 0 \<or> scells = 0 then Some out else
      if 2 < acells \<or> 2 < scells then Some out else
      reg_loop m data len acells scells lim 0 out)"

definition has_prefix :: "mem \<Rightarrow> ptr \<Rightarrow> u8 list \<Rightarrow> bool" where
  "has_prefix m p cs = (bytes_at m p (length cs) = cs)"

text \<open>Property and node names: \<open>#a\<close>, \<open>#s\<close>, \<open>reg\<close>, \<open>co\<close>, \<open>memory\<close>, \<open>reserved-memory\<close>.\<close>

definition is_addr_cells :: "mem \<Rightarrow> ptr \<Rightarrow> bool" where
  "is_addr_cells m pname = has_prefix m pname [0x23, 0x61]"

definition is_size_cells :: "mem \<Rightarrow> ptr \<Rightarrow> bool" where
  "is_size_cells m pname = has_prefix m pname [0x23, 0x73]"

definition is_reg :: "mem \<Rightarrow> ptr \<Rightarrow> bool" where
  "is_reg m pname = has_prefix m pname [0x72, 0x65, 0x67]"

definition is_compatible :: "mem \<Rightarrow> ptr \<Rightarrow> bool" where
  "is_compatible m pname = has_prefix m pname [0x63, 0x6F]"

definition memory_prefix :: "u8 list" where
  "memory_prefix = [0x6D, 0x65, 0x6D, 0x6F, 0x72, 0x79]"

definition is_memory_name :: "mem \<Rightarrow> ptr \<Rightarrow> bool" where
  "is_memory_name m name = (has_prefix m name memory_prefix \<and> (m (name + 6) = 0 \<or> m (name + 6) = 0x40))"

definition is_reserved_name :: "mem \<Rightarrow> ptr \<Rightarrow> bool" where
  "is_reserved_name m name =
     has_prefix m name [0x72, 0x65, 0x73, 0x65, 0x72, 0x76, 0x65, 0x64, 0x2D, 0x6D, 0x65, 0x6D, 0x6F, 0x72, 0x79, 0]"

section \<open>Nodes\<close>

text \<open>
  The stack of node contexts. Entering a node at a negative depth writes in front of the array, which is
  undefined in C and the outcome \<open>Panic\<close> here.
\<close>

type_synonym ctx_stack = "int \<Rightarrow> node_ctx"

definition stack_oob :: string where
  "stack_oob = ''out-of-bounds write''"

definition enter_ctx :: "int \<Rightarrow> bool \<Rightarrow> ctx_stack \<Rightarrow> ctx_stack" where
  "enter_ctx depth mem_node stk =
     (let pa = (if depth = 0 then 2 else addr_cells (stk (depth - 1)));
          ps = (if depth = 0 then 2 else size_cells (stk (depth - 1))) in
      stk(depth := \<lparr>parent_addr_cells = pa, parent_size_cells = ps, addr_cells = pa, size_cells = ps,
                    is_memory = mem_node, is_uart_candidate = False\<rparr>))"

abbreviation set_addr_cells :: "int \<Rightarrow> u32 \<Rightarrow> ctx_stack \<Rightarrow> ctx_stack" where
  "set_addr_cells depth v stk \<equiv> stk(depth := (stk depth)\<lparr>addr_cells := v\<rparr>)"

abbreviation set_size_cells :: "int \<Rightarrow> u32 \<Rightarrow> ctx_stack \<Rightarrow> ctx_stack" where
  "set_size_cells depth v stk \<equiv> stk(depth := (stk depth)\<lparr>size_cells := v\<rparr>)"

definition DTB_MAX_MEMORY_RANGES :: nat where
  "DTB_MAX_MEMORY_RANGES = 16"

definition DTB_MAX_RESERVED_RANGES :: nat where
  "DTB_MAX_RESERVED_RANGES = 64"

definition DTB_STACK :: int where
  "DTB_STACK = 64"

record dtb_globals =
  g_fdt :: ptr
  g_fdt_totalsize :: u32
  g_struct :: ptr
  g_strings :: ptr
  g_rsvmap :: ptr
  g_struct_size :: u32
  g_strings_size :: u32
  g_mem_ranges :: "dtb_range list"
  g_rsv_ranges :: "dtb_range list"
  g_parsed :: bool

definition str_at :: "dtb_globals \<Rightarrow> u32 \<Rightarrow> ptr" where
  "str_at g off = g_strings g + ucast off"

subsection \<open>Memory ranges\<close>

record walk_state =
  depth :: int
  stack :: ctx_stack
  ranges :: "dtb_range list"

definition empty_ctx :: node_ctx where
  "empty_ctx = \<lparr>parent_addr_cells = 0, parent_size_cells = 0, addr_cells = 0, size_cells = 0, is_memory = False, is_uart_candidate = False\<rparr>"

definition memory_step :: "mem \<Rightarrow> dtb_globals \<Rightarrow> fdt_token \<Rightarrow> walk_state \<Rightarrow> dtb_range list outcome + walk_state" where
  "memory_step m g t s =
     (case t of
        FDT_END \<Rightarrow> Inl (Ret (ranges s))
      | FDT_BEGIN_NODE name \<Rightarrow>
          (let d = depth s + 1 in
           if DTB_STACK \<le> d then Inl (Ret (ranges s))
           else if d < 0 then Inl (Panic stack_oob)
           else Inr (s\<lparr>depth := d, stack := enter_ctx d (is_memory_name m name) (stack s)\<rparr>))
      | FDT_END_NODE \<Rightarrow> Inr (s\<lparr>depth := depth s - 1\<rparr>)
      | FDT_NOP \<Rightarrow> Inr s
      | FDT_PROP len nameoff data \<Rightarrow>
          (if depth s < 0 then Inr s else
           let pname = str_at g nameoff; ctx = stack s (depth s) in
           if is_addr_cells m pname
           then Inr (if 4 \<le> len then s\<lparr>stack := set_addr_cells (depth s) (be32 m data) (stack s)\<rparr> else s)
           else if is_size_cells m pname
           then Inr (if 4 \<le> len then s\<lparr>stack := set_size_cells (depth s) (be32 m data) (stack s)\<rparr> else s)
           else if is_reg m pname \<and> is_memory ctx
           then (case parse_reg_all m data len (parent_addr_cells ctx) (parent_size_cells ctx) DTB_MAX_MEMORY_RANGES (ranges s) of
                   None \<Rightarrow> Inl Hang | Some rs \<Rightarrow> Inr (s\<lparr>ranges := rs\<rparr>))
           else Inr s)
      | FDT_OTHER \<Rightarrow> Inl (Ret (ranges s)))"

definition collect_memory_ranges :: "mem \<Rightarrow> dtb_globals \<Rightarrow> dtb_globals outcome" where
  "collect_memory_ranges m g =
     (if g_struct g = NULL \<or> g_strings g = NULL then Ret g else
      obind (run_walk (walk m (memory_step m g) (g_struct g)
               \<lparr>depth = - 1, stack = (\<lambda>_. empty_ctx), ranges = g_mem_ranges g\<rparr>))
        (\<lambda>rs. Ret (g\<lparr>g_mem_ranges := rs\<rparr>)))"

subsection \<open>Reserved ranges\<close>

record reserved_state = walk_state +
  in_reserved :: bool
  reserved_depth :: int

definition reserved_step :: "mem \<Rightarrow> dtb_globals \<Rightarrow> fdt_token \<Rightarrow> reserved_state \<Rightarrow> dtb_range list outcome + reserved_state" where
  "reserved_step m g t s =
     (case t of
        FDT_END \<Rightarrow> Inl (Ret (ranges s))
      | FDT_BEGIN_NODE name \<Rightarrow>
          (let d = depth s + 1 in
           if DTB_STACK \<le> d then Inl (Ret (ranges s))
           else if d < 0 then Inl (Panic stack_oob)
           else let s1 = s\<lparr>depth := d, stack := enter_ctx d False (stack s)\<rparr> in
                Inr (if \<not> in_reserved s \<and> is_reserved_name m name then s1\<lparr>in_reserved := True, reserved_depth := d\<rparr> else s1))
      | FDT_END_NODE \<Rightarrow>
          (let s1 = (if in_reserved s \<and> depth s = reserved_depth s then s\<lparr>in_reserved := False, reserved_depth := - 1\<rparr> else s) in
           Inr (s1\<lparr>depth := depth s1 - 1\<rparr>))
      | FDT_NOP \<Rightarrow> Inr s
      | FDT_PROP len nameoff data \<Rightarrow>
          (if depth s < 0 then Inr s else
           let pname = str_at g nameoff; ctx = stack s (depth s) in
           if is_addr_cells m pname
           then Inr (if 4 \<le> len then s\<lparr>stack := set_addr_cells (depth s) (be32 m data) (stack s)\<rparr> else s)
           else if is_size_cells m pname
           then Inr (if 4 \<le> len then s\<lparr>stack := set_size_cells (depth s) (be32 m data) (stack s)\<rparr> else s)
           else if is_reg m pname \<and> in_reserved s \<and> 0 \<le> reserved_depth s \<and> reserved_depth s < depth s
           then (case parse_reg_all m data len (parent_addr_cells ctx) (parent_size_cells ctx) DTB_MAX_RESERVED_RANGES (ranges s) of
                   None \<Rightarrow> Inl Hang | Some rs \<Rightarrow> Inr (s\<lparr>ranges := rs\<rparr>))
           else Inr s)
      | FDT_OTHER \<Rightarrow> Inl (Ret (ranges s)))"

definition collect_reserved_memory_ranges :: "mem \<Rightarrow> dtb_globals \<Rightarrow> dtb_globals outcome" where
  "collect_reserved_memory_ranges m g =
     (if g_struct g = NULL \<or> g_strings g = NULL then Ret g else
      obind (run_walk (walk m (reserved_step m g) (g_struct g)
               \<lparr>depth = - 1, stack = (\<lambda>_. empty_ctx), ranges = g_rsv_ranges g, in_reserved = False, reserved_depth = - 1\<rparr>))
        (\<lambda>rs. Ret (g\<lparr>g_rsv_ranges := rs\<rparr>)))"

fun memreserve_loop :: "mem \<Rightarrow> ptr \<Rightarrow> nat \<Rightarrow> dtb_range list \<Rightarrow> dtb_range list" where
  "memreserve_loop m p 0 rs = rs"
| "memreserve_loop m p (Suc k) rs =
     (let addr = be64 m p; sz = be64 m (p + 8) in
      if addr = 0 \<and> sz = 0 then rs
      else memreserve_loop m (p + 16) k (append_range DTB_MAX_RESERVED_RANGES addr sz rs))"

definition collect_memreserve_ranges :: "mem \<Rightarrow> dtb_globals \<Rightarrow> dtb_globals" where
  "collect_memreserve_ranges m g =
     (if g_rsvmap g = NULL then g else g\<lparr>g_rsv_ranges := memreserve_loop m (g_rsvmap g) 128 (g_rsv_ranges g)\<rparr>)"

section \<open>Initialisation and results\<close>

definition ensure_parsed :: "mem \<Rightarrow> dtb_globals \<Rightarrow> dtb_globals outcome" where
  "ensure_parsed m g =
     (if g_parsed g then Ret g else
      obind (collect_reserved_memory_ranges m (collect_memreserve_ranges m (g\<lparr>g_mem_ranges := [], g_rsv_ranges := []\<rparr>))) (\<lambda>g1.
        obind (collect_memory_ranges m g1) (\<lambda>g2. Ret (g2\<lparr>g_parsed := True\<rparr>))))"

definition dtb_init :: "mem \<Rightarrow> ptr \<Rightarrow> u64 \<Rightarrow> dtb_globals \<Rightarrow> (bool \<times> dtb_globals) outcome" where
  "dtb_init m fdt fdt_size g =
     (if fdt = NULL then Ret (False, g) else
      if be32 m fdt \<noteq> FDT_MAGIC then Ret (False, g) else
      let totalsize = be32 m (fdt + 4) in
      if totalsize = 0 then Ret (False, g) else
      if fdt_size \<noteq> 0 \<and> ucast fdt_size < totalsize then Ret (False, g) else
      let g1 = g\<lparr>g_fdt := fdt, g_fdt_totalsize := totalsize\<rparr>;
          off_struct = be32 m (fdt + 8); off_strings = be32 m (fdt + 12); off_rsvmap = be32 m (fdt + 16);
          size_struct = be32 m (fdt + 36); size_strings = be32 m (fdt + 32) in
      if totalsize \<le> off_struct \<or> totalsize \<le> off_strings \<or> totalsize \<le> off_rsvmap then Ret (False, g1) else
      if size_struct = 0 \<or> size_strings = 0 then Ret (False, g1) else
      if totalsize < off_struct + size_struct then Ret (False, g1) else
      if totalsize < off_strings + size_strings then Ret (False, g1) else
      let g2 = g1\<lparr>g_struct := fdt + ucast off_struct, g_strings := fdt + ucast off_strings, g_rsvmap := fdt + ucast off_rsvmap,
                  g_struct_size := size_struct, g_strings_size := size_strings,
                  g_mem_ranges := [], g_rsv_ranges := [], g_parsed := False\<rparr> in
      obind (ensure_parsed m g2) (\<lambda>g3. Ret (True, g3)))"

definition dtb_get_memory_ranges :: "mem \<Rightarrow> nat \<Rightarrow> dtb_globals \<Rightarrow> (bool \<times> dtb_range list \<times> dtb_globals) outcome" where
  "dtb_get_memory_ranges m cap g =
     obind (ensure_parsed m g) (\<lambda>g'. Ret (g_mem_ranges g' \<noteq> [], take cap (g_mem_ranges g'), g'))"

definition dtb_get_reserved_ranges :: "mem \<Rightarrow> nat \<Rightarrow> dtb_globals \<Rightarrow> (bool \<times> dtb_range list \<times> dtb_globals) outcome" where
  "dtb_get_reserved_ranges m cap g =
     obind (ensure_parsed m g) (\<lambda>g'. Ret (True, take cap (g_rsv_ranges g'), g'))"

definition dtb_get_totalsize :: "mem \<Rightarrow> dtb_globals \<Rightarrow> (u32 \<times> dtb_globals) outcome" where
  "dtb_get_totalsize m g = obind (ensure_parsed m g) (\<lambda>g'. Ret (g_fdt_totalsize g', g'))"

definition dtb_first_memory_range :: "mem \<Rightarrow> dtb_globals \<Rightarrow> ((u64 \<times> u64) option \<times> dtb_globals) outcome" where
  "dtb_first_memory_range m g =
     obind (dtb_get_memory_ranges m 1 g) (\<lambda>(ok, r, g').
       Ret (if \<not> ok \<or> r = [] then None else Some (r_base (r ! 0), r_size (r ! 0)), g'))"

section \<open>Device searches\<close>

text \<open>The search for a string in a list of zero-terminated strings, as a prefix.\<close>

fun prefix_loop :: "mem \<Rightarrow> ptr \<Rightarrow> u8 list \<Rightarrow> bool" where
  "prefix_loop m t [] = True"
| "prefix_loop m t (u # us) = (if m t \<noteq> 0 \<and> m t = u then prefix_loop m (t + 1) us else False)"

fun skip_string :: "mem \<Rightarrow> ptr \<Rightarrow> nat \<Rightarrow> ptr \<times> nat" where
  "skip_string m q 0 = (q, 0)"
| "skip_string m q (Suc n) = (if m q \<noteq> 0 then skip_string m (q + 1) n else (q, Suc n))"

fun skip_zeros :: "mem \<Rightarrow> ptr \<Rightarrow> nat \<Rightarrow> ptr \<times> nat" where
  "skip_zeros m q 0 = (q, 0)"
| "skip_zeros m q (Suc n) = (if m q = 0 then skip_zeros m (q + 1) n else (q, Suc n))"

lemma skip_string_le: "snd (skip_string m q n) \<le> n"
  by (induction n arbitrary: q) (auto intro: le_SucI)

lemma skip_zeros_le: "snd (skip_zeros m q n) \<le> n"
  by (induction n arbitrary: q) (auto intro: le_SucI)

text \<open>\<open>n\<close> is the number of bytes left of the property.\<close>

function compat_loop :: "mem \<Rightarrow> ptr \<Rightarrow> nat \<Rightarrow> u8 list \<Rightarrow> bool" where
  "compat_loop m q n needle =
     (if n = 0 \<or> m q = 0 then False
      else if prefix_loop m q needle then True
      else let (q1, n1) = skip_string m q n; (q2, n2) = skip_zeros m q1 n1 in compat_loop m q2 n2 needle)"
  by pat_completeness auto
termination
proof (relation "measure (\<lambda>(m, q, n, needle). n)", goal_cases)
  case 1
  then show ?case by simp
next
  case (2 m q n needle x q1 n1 y q2 n2)
  then obtain k where n: "n = Suc k" and q: "m q \<noteq> 0" by (cases n) auto
  have "(q1, n1) = skip_string m (q + 1) k" using 2(3,4) n q by simp
  then have "n1 \<le> k" using skip_string_le [of m "q + 1" k] by (metis snd_conv)
  moreover have "n2 \<le> n1" using 2(5,6) skip_zeros_le [of m q1 n1] by (metis snd_conv)
  ultimately show ?case using n by simp
qed

declare compat_loop.simps [simp del]

definition needle_pl011 :: "u8 list" where
  "needle_pl011 = [0x61, 0x72, 0x6D, 0x2C, 0x70, 0x6C, 0x30, 0x31, 0x31]"

definition needle_virtio :: "u8 list" where
  "needle_virtio = [0x76, 0x69, 0x72, 0x74, 0x69, 0x6F, 0x2C, 0x6D, 0x6D, 0x69, 0x6F]"

abbreviation set_candidate :: "int \<Rightarrow> ctx_stack \<Rightarrow> ctx_stack" where
  "set_candidate d stk \<equiv> stk(d := (stk d)\<lparr>is_uart_candidate := True\<rparr>)"

definition virtio_step :: "mem \<Rightarrow> dtb_globals \<Rightarrow> nat \<Rightarrow> fdt_token \<Rightarrow> walk_state \<Rightarrow> (bool \<times> dtb_range list) outcome + walk_state" where
  "virtio_step m g cap t s =
     (case t of
        FDT_END \<Rightarrow> Inl (Ret (ranges s \<noteq> [], ranges s))
      | FDT_BEGIN_NODE name \<Rightarrow>
          (let d = depth s + 1 in
           if DTB_STACK \<le> d then Inl (Ret (False, ranges s))
           else if d < 0 then Inl (Panic stack_oob)
           else Inr (s\<lparr>depth := d, stack := enter_ctx d False (stack s)\<rparr>))
      | FDT_END_NODE \<Rightarrow> Inr (s\<lparr>depth := depth s - 1\<rparr>)
      | FDT_NOP \<Rightarrow> Inr s
      | FDT_PROP len nameoff data \<Rightarrow>
          (if depth s < 0 then Inr s else
           let pname = str_at g nameoff; ctx = stack s (depth s) in
           if is_addr_cells m pname
           then Inr (if 4 \<le> len then s\<lparr>stack := set_addr_cells (depth s) (be32 m data) (stack s)\<rparr> else s)
           else if is_size_cells m pname
           then Inr (if 4 \<le> len then s\<lparr>stack := set_size_cells (depth s) (be32 m data) (stack s)\<rparr> else s)
           else if is_compatible m pname
           then Inr (if compat_loop m data (unat len) needle_virtio then s\<lparr>stack := set_candidate (depth s) (stack s)\<rparr> else s)
           else if is_reg m pname
           then (if is_uart_candidate ctx
                 then (case parse_reg_all m data len (parent_addr_cells ctx) (parent_size_cells ctx) cap (ranges s) of
                         None \<Rightarrow> Inl Hang
                       | Some rs \<Rightarrow> if cap \<le> length rs then Inl (Ret (True, rs)) else Inr (s\<lparr>ranges := rs\<rparr>))
                 else Inr s)
           else Inr s)
      | FDT_OTHER \<Rightarrow> Inl (Ret (ranges s \<noteq> [], ranges s)))"

definition dtb_get_virtio_mmio_ranges :: "mem \<Rightarrow> nat \<Rightarrow> dtb_globals \<Rightarrow> (bool \<times> dtb_range list) outcome" where
  "dtb_get_virtio_mmio_ranges m cap g =
     (if g_struct g = NULL \<or> g_strings g = NULL then Ret (False, []) else
      if cap = 0 then Ret (False, []) else
      run_walk (walk m (virtio_step m g cap) (g_struct g) \<lparr>depth = - 1, stack = (\<lambda>_. empty_ctx), ranges = []\<rparr>))"

text \<open>\<open>walk_struct_find\<close>: the first memory range and the first PL011 console.\<close>

record find_state = walk_state +
  found_mem :: "(u64 \<times> u64) option"
  found_uart :: "u64 option"

definition MAX_DEPTH :: int where
  "MAX_DEPTH = 32"

definition find_step ::
    "mem \<Rightarrow> dtb_globals \<Rightarrow> bool \<Rightarrow> bool \<Rightarrow> fdt_token \<Rightarrow> find_state \<Rightarrow>
     (bool \<times> (u64 \<times> u64) option \<times> u64 option) outcome + find_state" where
  "find_step m g want_mem want_uart t s =
     (case t of
        FDT_END \<Rightarrow> Inl (Ret ((if want_mem then found_mem s \<noteq> None else True) \<and> (if want_uart then found_uart s \<noteq> None else True),
                            found_mem s, found_uart s))
      | FDT_BEGIN_NODE name \<Rightarrow>
          (let d = depth s + 1 in
           if MAX_DEPTH \<le> d then Inl (Ret (False, found_mem s, found_uart s))
           else Inr (s\<lparr>depth := d, stack := enter_ctx d (has_prefix m name memory_prefix) (stack s)\<rparr>))
      | FDT_END_NODE \<Rightarrow> if depth s < 0 then Inl (Ret (False, found_mem s, found_uart s)) else Inr (s\<lparr>depth := depth s - 1\<rparr>)
      | FDT_NOP \<Rightarrow> Inr s
      | FDT_PROP len nameoff data \<Rightarrow>
          (if depth s < 0 then Inr s else
           let pname = str_at g nameoff; ctx = stack s (depth s) in
           if is_addr_cells m pname
           then Inr (if len = 4 then s\<lparr>stack := set_addr_cells (depth s) (be32 m data) (stack s)\<rparr> else s)
           else if is_size_cells m pname
           then Inr (if len = 4 then s\<lparr>stack := set_size_cells (depth s) (be32 m data) (stack s)\<rparr> else s)
           else if want_uart \<and> is_compatible m pname
           then Inr (if compat_loop m data (unat len) needle_pl011 then s\<lparr>stack := set_candidate (depth s) (stack s)\<rparr> else s)
           else if (want_mem \<or> want_uart) \<and> is_reg m pname
           then (case parse_reg_first m data len (parent_addr_cells ctx) (parent_size_cells ctx) of
                   None \<Rightarrow> Inr s
                 | Some (addr, sz) \<Rightarrow>
                     (let s1 = (if want_mem \<and> is_memory ctx \<and> found_mem s = None then s\<lparr>found_mem := Some (addr, sz)\<rparr> else s) in
                      Inr (if want_uart \<and> is_uart_candidate ctx \<and> found_uart s = None then s1\<lparr>found_uart := Some addr\<rparr> else s1)))
           else Inr s)
      | FDT_OTHER \<Rightarrow> Inl (Ret (False, found_mem s, found_uart s)))"

definition walk_struct_find ::
    "mem \<Rightarrow> bool \<Rightarrow> bool \<Rightarrow> dtb_globals \<Rightarrow> (bool \<times> (u64 \<times> u64) option \<times> u64 option) outcome" where
  "walk_struct_find m want_mem want_uart g =
     (if g_struct g = NULL \<or> g_strings g = NULL then Ret (False, None, None) else
      run_walk (walk m (find_step m g want_mem want_uart) (g_struct g)
        \<lparr>depth = - 1, stack = (\<lambda>_. empty_ctx), ranges = [], found_mem = None, found_uart = None\<rparr>))"

declare walk.simps [code] reg_loop.simps [code] strlen_loop.simps [code]

end
