(* ===== verification/Dtb_Props.thy ===== *)
theory Dtb_Props
  imports Dtb Kaddr
begin

unbundle bit_operations_syntax

text \<open>
  A device tree as a datatype, its encoding as a structure block, and the proof that the walk over the
  encoded block collects the memory ranges of the tree.
\<close>

section \<open>Trees and their encoding\<close>

text \<open>A node: its name, its properties (offset of the name in the strings block, data), its children.\<close>

datatype dt_node = DtNode "u8 list" "(u32 \<times> u8 list) list" "dt_node list"

definition be32_bytes :: "u32 \<Rightarrow> u8 list" where
  "be32_bytes w = [ucast (drop_bit 24 w), ucast (drop_bit 16 w), ucast (drop_bit 8 w), ucast w]"

definition pad4 :: "u8 list \<Rightarrow> u8 list" where
  "pad4 bs = bs @ replicate ((4 - length bs mod 4) mod 4) 0"

definition flat_prop :: "u32 \<times> u8 list \<Rightarrow> u8 list" where
  "flat_prop p = be32_bytes 3 @ be32_bytes (of_nat (length (snd p))) @ be32_bytes (fst p) @ pad4 (snd p)"

fun flat_node :: "dt_node \<Rightarrow> u8 list" where
  "flat_node (DtNode name props children) =
     be32_bytes 1 @ pad4 (name @ [0]) @ concat (map flat_prop props) @ concat (map flat_node children) @ be32_bytes 2"

fun node_ok :: "dt_node \<Rightarrow> bool" where
  "node_ok (DtNode name props children) \<longleftrightarrow>
     0 \<notin> set name \<and> (\<forall>p\<in>set props. length (snd p) < 2 ^ 31) \<and> (\<forall>c\<in>set children. node_ok c)"

fun height :: "dt_node \<Rightarrow> nat" where
  "height (DtNode name props children) = Suc (Max (insert 0 (set (map height children))))"

section \<open>Bytes in memory\<close>

definition holds :: "mem \<Rightarrow> ptr \<Rightarrow> u8 list \<Rightarrow> bool" where
  "holds m p bs \<longleftrightarrow> bytes_at m p (length bs) = bs"

lemma holds_nth: "holds m p bs \<longleftrightarrow> (\<forall>i<length bs. m (p + of_nat i) = bs ! i)"
proof
  assume h: "holds m p bs"
  have "m (p + of_nat i) = bytes_at m p (length bs) ! i" if "i < length bs" for i using that by (simp add: bytes_at_def)
  then show "\<forall>i<length bs. m (p + of_nat i) = bs ! i" using h by (simp add: holds_def)
next
  assume "\<forall>i<length bs. m (p + of_nat i) = bs ! i"
  then show "holds m p bs" unfolding holds_def by (intro nth_equalityI) (simp_all add: bytes_at_def)
qed

lemma holds_Nil [simp]: "holds m p []"
  by (simp add: holds_nth)

lemma holds_append [simp]: "holds m p (xs @ ys) \<longleftrightarrow> holds m p xs \<and> holds m (p + of_nat (length xs)) ys"
proof -
  have "bytes_at m p (length xs + length ys) = bytes_at m p (length xs) @ bytes_at m (p + of_nat (length xs)) (length ys)"
    by (rule nth_equalityI) (auto simp: bytes_at_def nth_append algebra_simps)
  moreover have "length (bytes_at m p (length xs)) = length xs" by (simp add: bytes_at_def)
  ultimately show ?thesis by (simp add: holds_def)
qed

lemma length_be32_bytes [simp]: "length (be32_bytes w) = 4"
  by (simp add: be32_bytes_def)

lemma be32_of_bytes:
  assumes "holds m p (be32_bytes w)"
  shows "be32 m p = w"
proof -
  have b: "m p = ucast (drop_bit 24 w)" "m (p + 1) = ucast (drop_bit 16 w)" "m (p + 2) = ucast (drop_bit 8 w)" "m (p + 3) = ucast w"
    using assms unfolding holds_nth by (auto simp: be32_bytes_def dest: spec [where x = 0] spec [where x = 1] spec [where x = 2] spec [where x = 3])
  show ?thesis unfolding be32_def b
  proof (rule bit_word_eqI)
    fix n assume "n < LENGTH(32)"
    then consider "n < 8" | "8 \<le> n" "n < 16" | "16 \<le> n" "n < 24" | "24 \<le> n" "n < 32" by fastforce
    then show "bit (push_bit 24 (ucast (ucast (drop_bit 24 w) :: u8) :: u32) OR push_bit 16 (ucast (ucast (drop_bit 16 w) :: u8)) OR
        push_bit 8 (ucast (ucast (drop_bit 8 w) :: u8)) OR ucast (ucast w :: u8)) n = bit w n"
      by cases (auto simp: bit_simps)
  qed
qed

lemma length_pad4: "length (pad4 bs) = 4 * ((length bs + 3) div 4)"
proof -
  have "n + (4 - n mod 4) mod 4 = 4 * ((n + 3) div 4)" for n :: nat
  proof -
    consider "n mod 4 = 0" | "n mod 4 = 1" | "n mod 4 = 2" | "n mod 4 = 3" by linarith
    then show ?thesis by cases (simp_all, presburger+)
  qed
  then show ?thesis by (simp add: pad4_def)
qed

lemma align4_eq:
  assumes "4 dvd unat p" "unat p + n + 3 < 2 ^ 64"
  shows "align4 (p + of_nat n) = p + of_nat (4 * ((n + 3) div 4))"
proof -
  have m: "(3 :: ptr) = mask 2" by (simp add: mask_eq_exp_minus_1)
  have u: "unat (p + of_nat n + 3) = unat p + n + 3" using assms(2) by (simp add: unat_word_ariths unat_of_nat)
  obtain k where k: "unat p = 4 * k" using assms(1) by auto
  have "unat (align4 (p + of_nat n)) = (unat p + n + 3) div 4 * 4"
    unfolding align4_def using unat_and_not_mask [of "p + of_nat n + 3" 2] u by (simp add: m)
  also have "\<dots> = unat p + 4 * ((n + 3) div 4)" by (simp add: k add.assoc)
  finally have a: "unat (align4 (p + of_nat n)) = unat p + 4 * ((n + 3) div 4)" .
  have "4 * ((n + 3) div 4) \<le> n + 3" by simp
  then have "unat (p + of_nat (4 * ((n + 3) div 4))) = unat p + 4 * ((n + 3) div 4)"
    using assms(2) by (simp add: unat_word_ariths unat_of_nat)
  then show ?thesis using a by (simp add: word_unat_eq_iff)
qed

lemma holds_pad4: "holds m p (pad4 bs) \<Longrightarrow> holds m p bs"
  by (simp add: pad4_def)

section \<open>Tokens of an encoded tree\<close>

lemma dvd_unat_add:
  assumes "4 dvd unat (p :: ptr)" "4 dvd n"
  shows "4 dvd unat (p + of_nat n)"
proof -
  have "unat (p + of_nat n) = (unat p + n) mod 2 ^ 64" by (simp add: unat_word_ariths unat_of_nat mod_add_right_eq)
  moreover have "4 dvd (2 ^ 64 :: nat)" by simp
  ultimately show ?thesis using assms by (simp only: dvd_mod_iff dvd_add)
qed

lemma next_token_begin:
  assumes "holds m p (be32_bytes 1 @ pad4 (name @ [0]))" "0 \<notin> set name" "4 dvd unat p"
    "unat p + length (pad4 (name @ [0])) + 8 < 2 ^ 64"
  shows "next_token m p = Some (FDT_BEGIN_NODE (p + 4), p + of_nat (4 + length (pad4 (name @ [0]))))"
proof -
  have h: "holds m p (be32_bytes 1)" "holds m (p + 4) (pad4 (name @ [0]))" using assms(1) by simp_all
  note h = h(1) holds_pad4 [OF h(2)]
  have "strlen_loop (p + 4) (of_nat 0) m = Some (of_nat (0 + length name))"
  proof (rule strlen_loop_eq)
    show "m (p + 4 + of_nat (0 + length name)) = 0" using h(2) by (simp add: holds_nth)
    show "m (p + 4 + of_nat j) \<noteq> 0" if "j < 0 + length name" for j
      using h(2) that assms(2) unfolding holds_nth by (metis add_0 length_append_singleton less_Suc_eq nth_append nth_mem)
  qed
  then have s: "strlen_loop (p + 4) 0 m = Some (of_nat (length name))" by simp
  have a: "align4 (p + 4 + (of_nat (length name) + 1)) = p + of_nat (4 + length (pad4 (name @ [0])))"
  proof -
    have l: "length (pad4 (name @ [0])) = 4 * ((length name + 1 + 3) div 4)" by (simp add: length_pad4)
    have d: "4 dvd unat (p + 4)" using dvd_unat_add [OF assms(3), of 4] by simp
    have u: "unat (p + 4) = unat p + 4" using assms(4) by (simp add: unat_word_ariths)
    have "length name + 1 \<le> length (pad4 (name @ [0]))" by (simp add: pad4_def)
    then have "align4 (p + 4 + of_nat (length name + 1)) = p + 4 + of_nat (4 * ((length name + 1 + 3) div 4))"
      using assms(4) u by (intro align4_eq [OF d]) (simp add: l)
    then show ?thesis unfolding l by (simp add: algebra_simps)
  qed
  have "next_token m p = Some (FDT_BEGIN_NODE (p + 4), align4 (p + 4 + (of_nat (length name) + 1)))"
    unfolding next_token_def Let_def be32_of_bytes [OF h(1)] by (simp add: s)
  then show ?thesis by (simp only: a)
qed

lemma next_token_prop:
  assumes "holds m p (flat_prop q)" "4 dvd unat p" "unat p + length (flat_prop q) + 4 < 2 ^ 64" "length (snd q) < 2 ^ 31"
  shows "next_token m p = Some (FDT_PROP (of_nat (length (snd q))) (fst q) (p + 12), p + of_nat (length (flat_prop q)))"
    and "holds m (p + 12) (snd q)"
proof -
  have h: "holds m p (be32_bytes 3)" "holds m (p + 4) (be32_bytes (of_nat (length (snd q))))" "holds m (p + 8) (be32_bytes (fst q))"
    "holds m (p + 12) (pad4 (snd q))" using assms(1) by (simp_all add: flat_prop_def add.assoc)
  then show "holds m (p + 12) (snd q)" by (simp add: pad4_def)
  have l: "length (flat_prop q) = 12 + 4 * ((length (snd q) + 3) div 4)" by (simp add: flat_prop_def length_pad4)
  have d: "4 dvd unat (p + 12)" using dvd_unat_add [OF assms(2), of 12] by simp
  have u: "unat (p + 12) = unat p + 12" using assms(3) l by (simp add: unat_word_ariths)
  have "unat (of_nat (length (snd q)) :: u32) = length (snd q)" using assms(4) by (simp add: unat_of_nat)
  then have c: "(ucast (of_nat (length (snd q)) :: u32) :: ptr) = of_nat (length (snd q))"
    using assms(4) by (simp add: word_unat_eq_iff unat_of_nat)
  have "length (snd q) \<le> 4 * ((length (snd q) + 3) div 4)" by presburger
  then have "align4 (p + 12 + of_nat (length (snd q))) = p + 12 + of_nat (4 * ((length (snd q) + 3) div 4))"
    using assms(3) u l by (intro align4_eq [OF d]) simp
  then have a: "align4 (p + 12 + of_nat (length (snd q))) = p + of_nat (length (flat_prop q))"
    unfolding l by (simp add: algebra_simps)
  have p8: "p + 4 + 4 = p + 8" "p + 4 + 8 = p + 12" by (simp_all add: add.assoc)
  show "next_token m p = Some (FDT_PROP (of_nat (length (snd q))) (fst q) (p + 12), p + of_nat (length (flat_prop q)))"
    unfolding next_token_def Let_def be32_of_bytes [OF h(1)] be32_of_bytes [OF h(2)] p8 be32_of_bytes [OF h(3)]
    by (simp add: c a)
qed

lemma next_token_end_node: "holds m p (be32_bytes 2) \<Longrightarrow> next_token m p = Some (FDT_END_NODE, p + 4)"
  by (simp add: next_token_def be32_of_bytes Let_def)

lemma next_token_end: "holds m p (be32_bytes 9) \<Longrightarrow> next_token m p = Some (FDT_END, p + 4)"
  by (simp add: next_token_def be32_of_bytes Let_def)

section \<open>Properties of an encoded node\<close>

definition be32_of :: "u8 list \<Rightarrow> u32" where
  "be32_of bs = be32 (\<lambda>a. bs ! unat a) 0"

lemma be32_holds:
  assumes "holds m p bs" "k + 4 \<le> length bs"
  shows "be32 m (p + of_nat k) = be32_of (drop k bs)"
proof -
  have "m (p + of_nat k + of_nat j) = drop k bs ! j" if "j < 4" for j
    using assms that unfolding holds_nth by (simp add: algebra_simps flip: of_nat_add)
  from this [of 0] this [of 1] this [of 2] this [of 3] show ?thesis by (simp add: be32_def be32_of_def)
qed

fun cells_of :: "nat \<Rightarrow> u8 list \<Rightarrow> u64 \<Rightarrow> u64" where
  "cells_of 0 bs v = v"
| "cells_of (Suc n) bs v = cells_of n (drop 4 bs) (push_bit 32 v OR ucast (be32_of bs))"

lemma read_cells_holds:
  "holds m p bs \<Longrightarrow> k + 4 * n \<le> length bs \<Longrightarrow> read_cells m n (p + of_nat k) v = cells_of n (drop k bs) v"
proof (induction n arbitrary: k v)
  case 0
  then show ?case by simp
next
  case (Suc n)
  have e: "p + of_nat k + 4 = p + of_nat (k + 4)" by (simp add: algebra_simps)
  have d: "drop (k + 4) bs = drop 4 (drop k bs)" by (simp add: add.commute)
  have "be32 m (p + of_nat k) = be32_of (drop k bs)" using Suc.prems by (intro be32_holds) simp_all
  then show ?case using Suc.IH [OF Suc.prems(1), of "k + 4"] Suc.prems(2) by (simp only: read_cells.simps cells_of.simps e d) simp
qed

text \<open>The tuples of a \<open>reg\<close> property.\<close>

definition reg_tuples :: "u32 \<Rightarrow> u32 \<Rightarrow> u8 list \<Rightarrow> (u64 \<times> u64) list" where
  "reg_tuples a s bs =
     (if a = 0 \<or> s = 0 \<or> 2 < a \<or> 2 < s then [] else
      map (\<lambda>i. let t = drop (i * (4 * (unat a + unat s))) bs in (cells_of (unat a) t 0, cells_of (unat s) (drop (4 * unat a) t) 0))
        [0..<length bs div (4 * (unat a + unat s))])"

definition add_ranges :: "nat \<Rightarrow> (u64 \<times> u64) list \<Rightarrow> dtb_range list \<Rightarrow> dtb_range list" where
  "add_ranges lim ts rs = fold (\<lambda>(b, sz). append_range lim b sz) ts rs"

lemma reg_loop_eq:
  assumes h: "holds m p bs" and l: "length bs < 2 ^ 31" and c: "0 < unat a" "unat a \<le> 2" "0 < unat s" "unat s \<le> 2"
  defines "w \<equiv> 4 * (unat a + unat s)"
  shows "i \<le> length bs div w \<Longrightarrow> reg_loop m p (of_nat (length bs)) a s lim (of_nat (i * w)) rs =
    Some (add_ranges lim (map (\<lambda>i. let t = drop (i * w) bs in (cells_of (unat a) t 0, cells_of (unat s) (drop (4 * unat a) t) 0))
      [i..<length bs div w]) rs)"
proof (induction "length bs div w - i" arbitrary: i rs)
  case 0
  have w: "0 < w" "w \<le> 16" using c by (simp_all add: w_def)
  have tb: "4 * (a + s) = of_nat w" by (simp add: w_def algebra_simps)
  have i: "i = length bs div w" using 0 by simp
  have "\<not> i * w + w \<le> length bs" unfolding i using w(1) by (metis dividend_less_div_times mult.commute not_le add.commute mult_Suc_right div_mult_mod_eq)
  moreover have "i * w \<le> length bs" unfolding i by simp
  moreover have "(of_nat (i * w) + of_nat w :: u32) = of_nat (i * w + w)" by simp
  ultimately have "\<not> (of_nat (i * w) + of_nat w :: u32) \<le> of_nat (length bs)"
    using l w by (simp add: word_le_nat_alt unat_of_nat del: of_nat_add of_nat_mult)
  then have "reg_loop m p (of_nat (length bs)) a s lim (of_nat (i * w)) rs = Some rs"
    by (subst reg_loop.simps) (simp only: Let_def tb if_False)
  then show ?case by (simp add: add_ranges_def i del: of_nat_mult)
next
  case (Suc k)
  have w: "0 < w" "w \<le> 16" using c by (simp_all add: w_def)
  have tb: "4 * (a + s) = of_nat w" by (simp add: w_def algebra_simps)
  have i: "i < length bs div w" using Suc by simp
  then have "Suc i * w \<le> length bs" using w(1) by (metis Suc_leI le_trans mult_le_mono1 div_times_less_eq_dividend)
  then have iw: "i * w + w \<le> length bs" by simp
  have add: "(of_nat (i * w) + of_nat w :: u32) = of_nat (Suc i * w)" by (simp add: algebra_simps)
  have le: "(of_nat (Suc i * w) :: u32) \<le> of_nat (length bs)"
    using l iw by (simp add: word_le_nat_alt unat_of_nat del: of_nat_add of_nat_mult)
  have u: "(ucast (of_nat (i * w) :: u32) :: ptr) = of_nat (i * w)"
    using l iw by (simp add: word_unat_eq_iff unat_of_nat del: of_nat_mult)
  have r1: "read_cells m (unat a) (p + of_nat (i * w)) 0 = cells_of (unat a) (drop (i * w) bs) 0"
    using iw by (intro read_cells_holds [OF h]) (simp add: w_def)
  have "p + of_nat (i * w) + 4 * ucast a = p + of_nat (i * w + 4 * unat a)" by (simp add: algebra_simps)
  then have r2: "read_cells m (unat s) (p + of_nat (i * w) + 4 * ucast a) 0 = cells_of (unat s) (drop (4 * unat a) (drop (i * w) bs)) 0"
    using iw read_cells_holds [OF h, of "i * w + 4 * unat a" "unat s"] by (simp add: w_def add.commute algebra_simps)
  have "reg_loop m p (of_nat (length bs)) a s lim (of_nat (i * w)) rs =
      reg_loop m p (of_nat (length bs)) a s lim (of_nat (Suc i * w))
        (append_range lim (cells_of (unat a) (drop (i * w) bs) 0) (cells_of (unat s) (drop (4 * unat a) (drop (i * w) bs)) 0) rs)"
    by (subst reg_loop.simps) (simp only: Let_def tb add le if_True u r1 r2)
  also have "\<dots> = Some (add_ranges lim (map (\<lambda>i. let t = drop (i * w) bs in (cells_of (unat a) t 0, cells_of (unat s) (drop (4 * unat a) t) 0))
      [Suc i..<length bs div w]) (append_range lim (cells_of (unat a) (drop (i * w) bs) 0) (cells_of (unat s) (drop (4 * unat a) (drop (i * w) bs)) 0) rs))"
    using Suc.hyps(2) i by (intro Suc.hyps(1)) simp_all
  finally show ?case using i by (simp add: upt_conv_Cons add_ranges_def Let_def)
qed

lemma parse_reg_all_eq:
  assumes "holds m p bs" "length bs < 2 ^ 31" "p \<noteq> NULL"
  shows "parse_reg_all m p (of_nat (length bs)) a s lim rs = Some (add_ranges lim (reg_tuples a s bs) rs)"
proof (cases "a = 0 \<or> s = 0 \<or> 2 < a \<or> 2 < s \<or> bs = []")
  case True
  then show ?thesis by (auto simp: parse_reg_all_def reg_tuples_def add_ranges_def)
next
  case False
  then have c: "0 < unat a" "unat a \<le> 2" "0 < unat s" "unat s \<le> 2"
    by (auto simp: unat_gt_0 not_less word_le_nat_alt)
  have "(of_nat (length bs) :: u32) \<noteq> 0" using False assms(2) by (simp add: word_unat_eq_iff unat_of_nat)
  then show ?thesis using False assms(3) reg_loop_eq [OF assms(1,2) c, of 0 lim rs]
    by (simp add: parse_reg_all_def reg_tuples_def)
qed

section \<open>The walk over an encoded tree\<close>

text \<open>What a node's properties mean for its children's cell counts and, in a memory node, for the ranges.\<close>

definition prop_cells :: "mem \<Rightarrow> dtb_globals \<Rightarrow> u32 \<times> u8 list \<Rightarrow> u32 \<times> u32 \<Rightarrow> u32 \<times> u32" where
  "prop_cells m g q c =
     (if is_addr_cells m (str_at g (fst q)) then if 4 \<le> length (snd q) then (be32_of (snd q), snd c) else c
      else if is_size_cells m (str_at g (fst q)) then if 4 \<le> length (snd q) then (fst c, be32_of (snd q)) else c
      else c)"

definition reg_prop :: "mem \<Rightarrow> dtb_globals \<Rightarrow> u32 \<times> u8 list \<Rightarrow> bool" where
  "reg_prop m g q \<longleftrightarrow> \<not> is_addr_cells m (str_at g (fst q)) \<and> \<not> is_size_cells m (str_at g (fst q)) \<and> is_reg m (str_at g (fst q))"

definition memory_node :: "u8 list \<Rightarrow> bool" where
  "memory_node name \<longleftrightarrow> name = memory_prefix \<or> take 7 name = memory_prefix @ [0x40]"

text \<open>The memory ranges of a tree: the \<open>reg\<close> tuples of its memory nodes, in order, with the cell counts of the parent.\<close>

fun tree_tuples :: "mem \<Rightarrow> dtb_globals \<Rightarrow> u32 \<times> u32 \<Rightarrow> dt_node \<Rightarrow> (u64 \<times> u64) list" where
  "tree_tuples m g c (DtNode name props children) =
     (if memory_node name then concat (map (\<lambda>q. reg_tuples (fst c) (snd c) (snd q)) (filter (reg_prop m g) props)) else []) @
     concat (map (tree_tuples m g (fold (prop_cells m g) props c)) children)"

lemma walk_next:
  assumes "next_token m p = Some (t, p')" "step t s = Inr s'"
  shows "walk m step p s = walk m step p' s'"
  using assms by (subst walk.simps) simp

lemma add_ranges_append: "add_ranges lim (xs @ ys) rs = add_ranges lim ys (add_ranges lim xs rs)"
  by (simp add: add_ranges_def)

lemma add_ranges_Nil [simp]: "add_ranges lim [] rs = rs"
  by (simp add: add_ranges_def)

lemma is_memory_name_eq:
  assumes "holds m p (name @ [0])" "0 \<notin> set name"
  shows "is_memory_name m p \<longleftrightarrow> memory_node name"
proof -
  let ?s = "name @ [0]"
  have at: "m (p + of_nat i) = ?s ! i" if "i \<le> length name" for i using assms(1) that unfolding holds_nth by simp
  have l6: "length memory_prefix = 6" by (simp add: memory_prefix_def)
  have pre: "has_prefix m p memory_prefix \<longleftrightarrow> (\<forall>i<6. m (p + of_nat i) = memory_prefix ! i)"
    using holds_nth [of m p memory_prefix] by (simp add: has_prefix_def holds_def l6)
  show ?thesis
  proof (cases "6 \<le> length name")
    case True
    have "(\<forall>i<6. m (p + of_nat i) = memory_prefix ! i) \<longleftrightarrow> take 6 name = memory_prefix"
    proof -
      have "m (p + of_nat i) = name ! i" if "i < 6" for i using at [of i] that True by (simp add: nth_append)
      then show ?thesis using True by (auto simp: list_eq_iff_nth_eq memory_prefix_def)
    qed
    moreover have six: "m (p + 6) = ?s ! 6" using at [of 6] True by simp
    ultimately have "is_memory_name m p \<longleftrightarrow> take 6 name = memory_prefix \<and> (?s ! 6 = 0 \<or> ?s ! 6 = 0x40)"
      by (simp add: is_memory_name_def pre)
    also have "\<dots> \<longleftrightarrow> memory_node name"
    proof (cases "length name = 6")
      case True
      then show ?thesis by (auto simp: memory_node_def nth_append memory_prefix_def)
    next
      case False
      then have l: "6 < length name" using \<open>6 \<le> length name\<close> by simp
      then have "name ! 6 \<noteq> 0" using assms(2) by (metis nth_mem)
      moreover have "take 7 name = take 6 name @ [name ! 6]" using l take_Suc_conv_app_nth [of 6 name] by (simp add: numeral_eq_Suc)
      moreover have "name \<noteq> memory_prefix" using l by (auto simp: memory_prefix_def)
      ultimately show ?thesis using l by (simp add: memory_node_def nth_append)
    qed
    finally show ?thesis .
  next
    case False
    then have "m (p + of_nat (length name)) = 0" "length name < 6" using at [of "length name"] by auto
    moreover have "0 \<notin> set memory_prefix" by (simp add: memory_prefix_def)
    then have "memory_prefix ! length name \<noteq> 0" if "length name < 6" using that l6 by (metis nth_mem)
    ultimately have "\<not> is_memory_name m p" unfolding is_memory_name_def pre by metis
    moreover have "\<not> memory_node name" using False by (auto simp: memory_node_def memory_prefix_def dest: arg_cong [where f = length])
    ultimately show ?thesis by simp
  qed
qed

definition node_state :: "mem \<Rightarrow> dtb_globals \<Rightarrow> (u32 \<times> u8 list) list \<Rightarrow> walk_state \<Rightarrow> walk_state" where
  "node_state m g ps s =
     (let d = depth s; ctx = stack s d; c = fold (prop_cells m g) ps (addr_cells ctx, size_cells ctx) in
      s\<lparr>stack := (stack s)(d := ctx\<lparr>addr_cells := fst c, size_cells := snd c\<rparr>),
        ranges := add_ranges DTB_MAX_MEMORY_RANGES
          (if is_memory ctx
           then concat (map (\<lambda>q. reg_tuples (parent_addr_cells ctx) (parent_size_cells ctx) (snd q)) (filter (reg_prop m g) ps))
           else []) (ranges s)\<rparr>)"

lemma node_state_Nil: "node_state m g [] s = s"
  by (simp add: node_state_def Let_def add_ranges_def)

lemma node_state_Cons: "node_state m g (q # ps) s = node_state m g ps (node_state m g [q] s)"
  by (simp add: node_state_def Let_def add_ranges_append prod.collapse)

lemma node_state_depth [simp]: "depth (node_state m g ps s) = depth s"
  by (simp add: node_state_def Let_def)

lemma memory_step_prop:
  assumes h: "holds m data (snd q)" and l: "length (snd q) < 2 ^ 31" and d: "0 \<le> depth s" and nn: "data \<noteq> NULL"
  shows "memory_step m g (FDT_PROP (of_nat (length (snd q))) (fst q) data) s = Inr (node_state m g [q] s)"
proof -
  have l4: "(4 :: u32) \<le> of_nat (length (snd q)) \<longleftrightarrow> 4 \<le> length (snd q)"
    using l by (simp add: word_le_nat_alt unat_of_nat)
  have b: "be32 m data = be32_of (snd q)" if "4 \<le> length (snd q)" using be32_holds [OF h, of 0] that by simp
  show ?thesis
    using d b by (auto simp: memory_step_def node_state_def Let_def prop_cells_def reg_prop_def l4 parse_reg_all_eq [OF h l nn]
        add_ranges_def fun_upd_idem)
qed

lemma walk_props:
  assumes "\<forall>q\<in>set ps. length (snd q) < 2 ^ 31"
  shows "holds m p (concat (map flat_prop ps)) \<Longrightarrow> 4 dvd unat p \<Longrightarrow>
    unat p + length (concat (map flat_prop ps)) + 4 < 2 ^ 64 \<Longrightarrow> 0 \<le> depth s \<Longrightarrow>
    walk m (memory_step m g) p s = walk m (memory_step m g) (p + of_nat (length (concat (map flat_prop ps)))) (node_state m g ps s)"
  using assms
proof (induction ps arbitrary: p s)
  case Nil
  then show ?case by (simp add: node_state_Nil)
next
  case (Cons q ps)
  let ?n = "length (flat_prop q)"
  have h: "holds m p (flat_prop q)" "holds m (p + of_nat ?n) (concat (map flat_prop ps))" using Cons.prems(1) by simp_all
  have u: "unat p + ?n + length (concat (map flat_prop ps)) + 4 < 2 ^ 64" using Cons.prems(3) by simp
  have l: "length (snd q) < 2 ^ 31" using Cons.prems(5) by simp
  have dv: "4 dvd ?n" by (simp add: flat_prop_def length_pad4)
  have un: "unat (p + of_nat ?n) = unat p + ?n" using u by (simp add: unat_word_ariths unat_of_nat)
  have "12 \<le> ?n" by (simp add: flat_prop_def)
  then have "unat (p + 12) = unat p + 12" using u by (simp add: unat_word_ariths)
  then have nn: "p + 12 \<noteq> NULL" by (metis add_is_0 unat_0 zero_neq_numeral)
  note tok = next_token_prop [OF h(1) Cons.prems(2) _ l]
  have "walk m (memory_step m g) p s = walk m (memory_step m g) (p + of_nat ?n) (node_state m g [q] s)"
    using u Cons.prems(4) by (intro walk_next [OF tok(1)] memory_step_prop [OF tok(2) l _ nn]) simp_all
  also have "\<dots> = walk m (memory_step m g) (p + of_nat ?n + of_nat (length (concat (map flat_prop ps)))) (node_state m g ps (node_state m g [q] s))"
    using Cons.prems(4,5) u un by (intro Cons.IH h(2) dvd_unat_add Cons.prems(2) dv) simp_all
  finally show ?case by (simp add: node_state_Cons [of m g q ps] algebra_simps)
qed

lemma length_flat_node_dvd: "4 dvd length (flat_node nd)"
proof (induction nd)
  case (DtNode name props children)
  have "4 dvd length (concat (map flat_prop props))"
    by (induction props) (auto simp: flat_prop_def length_pad4)
  moreover have "4 dvd length (concat (map flat_node children))"
    using DtNode by (induction children) auto
  ultimately show ?case by (simp add: length_pad4)
qed

text \<open>A node is processed with its subtree; below its depth the stack is as before.\<close>

definition node_walked :: "mem \<Rightarrow> dtb_globals \<Rightarrow> ptr \<Rightarrow> nat \<Rightarrow> walk_state \<Rightarrow> (u64 \<times> u64) list \<Rightarrow> bool" where
  "node_walked m g p n s ts \<longleftrightarrow>
     (\<exists>stk. walk m (memory_step m g) p s =
        walk m (memory_step m g) (p + of_nat n) (s\<lparr>stack := stk, ranges := add_ranges DTB_MAX_MEMORY_RANGES ts (ranges s)\<rparr>) \<and>
      (\<forall>i\<le>depth s. stk i = stack s i))"

definition cells_at :: "walk_state \<Rightarrow> u32 \<times> u32" where
  "cells_at s = (if depth s = - 1 then (2, 2) else (addr_cells (stack s (depth s)), size_cells (stack s (depth s))))"

lemma walk_children:
  assumes IH: "\<And>c p s. c \<in> set cs \<Longrightarrow> holds m p (flat_node c) \<Longrightarrow> 4 dvd unat p \<Longrightarrow> unat p + length (flat_node c) + 8 < 2 ^ 64 \<Longrightarrow>
      node_ok c \<Longrightarrow> - 1 \<le> depth s \<Longrightarrow> depth s + int (height c) < DTB_STACK \<Longrightarrow>
      node_walked m g p (length (flat_node c)) s (tree_tuples m g (cells_at s) c)"
    and ok: "\<forall>c\<in>set cs. node_ok c \<and> depth s + int (height c) < DTB_STACK" and d: "0 \<le> depth s"
  shows "holds m p (concat (map flat_node cs)) \<Longrightarrow> 4 dvd unat p \<Longrightarrow> unat p + length (concat (map flat_node cs)) + 8 < 2 ^ 64 \<Longrightarrow>
    node_walked m g p (length (concat (map flat_node cs))) s (concat (map (tree_tuples m g (cells_at s)) cs))"
  using assms
proof (induction cs arbitrary: p s)
  case Nil
  have "s\<lparr>stack := stack s, ranges := ranges s\<rparr> = s" by simp
  then show ?case unfolding node_walked_def by (intro exI [of _ "stack s"]) (simp add: add_ranges_def)
next
  case (Cons c cs)
  let ?n = "length (flat_node c)" and ?l = "length (concat (map flat_node cs))"
  have h: "holds m p (flat_node c)" "holds m (p + of_nat ?n) (concat (map flat_node cs))" using Cons.prems(1) by simp_all
  have u: "unat p + ?n + ?l + 8 < 2 ^ 64" using Cons.prems(3) by simp
  have un: "unat (p + of_nat ?n) = unat p + ?n" using u by (simp add: unat_word_ariths unat_of_nat)
  have "node_walked m g p ?n s (tree_tuples m g (cells_at s) c)"
    using Cons.prems u by (intro Cons.prems(4) h(1)) simp_all
  then obtain stk where w: "walk m (memory_step m g) p s = walk m (memory_step m g) (p + of_nat ?n)
        (s\<lparr>stack := stk, ranges := add_ranges DTB_MAX_MEMORY_RANGES (tree_tuples m g (cells_at s) c) (ranges s)\<rparr>)"
      "\<forall>i\<le>depth s. stk i = stack s i" by (auto simp: node_walked_def)
  let ?s = "s\<lparr>stack := stk, ranges := add_ranges DTB_MAX_MEMORY_RANGES (tree_tuples m g (cells_at s) c) (ranges s)\<rparr>"
  have c: "cells_at ?s = cells_at s" using w(2) by (simp add: cells_at_def)
  have "node_walked m g (p + of_nat ?n) ?l ?s (concat (map (tree_tuples m g (cells_at ?s)) cs))"
  proof (rule Cons.IH [OF h(2)])
    show "4 dvd unat (p + of_nat ?n)" using Cons.prems(2) length_flat_node_dvd by (rule dvd_unat_add)
    show "unat (p + of_nat ?n) + ?l + 8 < 2 ^ 64" using u un by simp
    show "node_walked m g q (length (flat_node x)) t (tree_tuples m g (cells_at t) x)"
      if "x \<in> set cs" "holds m q (flat_node x)" "4 dvd unat q" "unat q + length (flat_node x) + 8 < 2 ^ 64" "node_ok x"
        "- 1 \<le> depth t" "depth t + int (height x) < DTB_STACK" for x q t
      using that Cons.prems(4) by simp
  qed (use Cons.prems(5,6) in auto)
  then obtain stk' where "walk m (memory_step m g) (p + of_nat ?n) ?s = walk m (memory_step m g) (p + of_nat ?n + of_nat ?l)
        (?s\<lparr>stack := stk', ranges := add_ranges DTB_MAX_MEMORY_RANGES (concat (map (tree_tuples m g (cells_at s)) cs)) (ranges ?s)\<rparr>)"
      "\<forall>i\<le>depth ?s. stk' i = stack ?s i" unfolding c by (auto simp: node_walked_def)
  then show ?case using w unfolding node_walked_def
    by (intro exI [of _ stk']) (simp add: add_ranges_append algebra_simps)
qed

lemma walk_node:
  "holds m p (flat_node nd) \<Longrightarrow> 4 dvd unat p \<Longrightarrow> unat p + length (flat_node nd) + 8 < 2 ^ 64 \<Longrightarrow> node_ok nd \<Longrightarrow>
    - 1 \<le> depth s \<Longrightarrow> depth s + int (height nd) < DTB_STACK \<Longrightarrow>
    node_walked m g p (length (flat_node nd)) s (tree_tuples m g (cells_at s) nd)"
proof (induction nd arbitrary: p s)
  case (DtNode name props children)
  let ?nm = "pad4 (name @ [0])" and ?ps = "concat (map flat_prop props)" and ?cs = "concat (map flat_node children)"
  let ?p1 = "p + of_nat (4 + length ?nm)"
  let ?p2 = "?p1 + of_nat (length ?ps)"
  let ?p3 = "?p2 + of_nat (length ?cs)"
  let ?W = "walk m (memory_step m g)"
  have h: "holds m p (be32_bytes 1 @ ?nm)" "holds m ?p1 ?ps" "holds m ?p2 ?cs" "holds m ?p3 (be32_bytes 2)"
    using DtNode.prems(1) by (simp_all add: algebra_simps)
  have u: "unat p + (4 + length ?nm + length ?ps + length ?cs + 4) + 8 < 2 ^ 64" using DtNode.prems(3) by simp
  have u1: "unat ?p1 = unat p + (4 + length ?nm)" using u by (simp add: unat_word_ariths unat_of_nat)
  have u2: "unat ?p2 = unat p + (4 + length ?nm + length ?ps)" 
  proof -
    have "unat (of_nat (length ?ps) :: ptr) = length ?ps" using u by (simp add: unat_of_nat)
    then show ?thesis using u u1 unat_add_no_wrap [of ?p1 "of_nat (length ?ps)"] by simp
  qed
  have d0: "4 dvd length ?nm" "4 dvd length ?ps"
  proof -
    show "4 dvd length ?nm" by (simp add: length_pad4)
    show "4 dvd length ?ps" by (induction props) (auto simp: flat_prop_def length_pad4)
  qed
  have d1: "4 dvd unat ?p1" using DtNode.prems(2) d0 u1 by (simp add: dvd_add)
  have d2: "4 dvd unat ?p2" using d1 d0(2) by (rule dvd_unat_add)
  have ok: "0 \<notin> set name" "\<forall>q\<in>set props. length (snd q) < 2 ^ 31" "\<forall>c\<in>set children. node_ok c"
    using DtNode.prems(4) by simp_all
  let ?d = "depth s + 1"
  have dd: "0 \<le> ?d" "\<not> DTB_STACK \<le> ?d" using DtNode.prems(5,6) by simp_all
  define s1 where "s1 = s\<lparr>depth := ?d, stack := enter_ctx ?d (memory_node name) (stack s)\<rparr>"
  have tk: "next_token m p = Some (FDT_BEGIN_NODE (p + 4), ?p1)"
    using h(1) ok(1) DtNode.prems(2) u by (intro next_token_begin) simp_all
  have "holds m (p + 4) ?nm" using h(1) by simp
  then have "holds m (p + 4) (name @ [0])" by (rule holds_pad4)
  then have nm: "is_memory_name m (p + 4) = memory_node name" using ok(1) by (rule is_memory_name_eq)
  have w1: "?W p s = ?W ?p1 s1"
    using dd by (intro walk_next [OF tk]) (simp add: memory_step_def Let_def nm s1_def)
  have w2: "?W ?p1 s1 = ?W ?p2 (node_state m g props s1)"
    using u u1 dd by (intro walk_props [OF ok(2) h(2) d1]) (simp_all add: s1_def)
  let ?s2 = "node_state m g props s1"
  have c1: "addr_cells (stack s1 ?d) = fst (cells_at s)" "size_cells (stack s1 ?d) = snd (cells_at s)"
    "parent_addr_cells (stack s1 ?d) = fst (cells_at s)" "parent_size_cells (stack s1 ?d) = snd (cells_at s)"
    "is_memory (stack s1 ?d) = memory_node name"
    using DtNode.prems(5) by (simp_all add: s1_def enter_ctx_def Let_def cells_at_def)
  have c2: "cells_at ?s2 = fold (prop_cells m g) props (cells_at s)"
  proof -
    have ds: "depth s1 = ?d" by (simp add: s1_def)
    have "addr_cells (stack ?s2 ?d) = fst (fold (prop_cells m g) props (cells_at s))"
      "size_cells (stack ?s2 ?d) = snd (fold (prop_cells m g) props (cells_at s))"
      by (simp_all add: node_state_def Let_def ds c1)
    moreover have "depth ?s2 = ?d" "?d \<noteq> - 1" using ds dd(1) by simp_all
    ultimately show ?thesis by (simp add: cells_at_def [of ?s2])
  qed
  have hc: "depth ?s2 + int (height c) < DTB_STACK" if "c \<in> set children" for c
  proof -
    have "height c \<le> Max (insert 0 (set (map height children)))" using that by (intro Max_ge) auto
    then show ?thesis using DtNode.prems(6) by (simp add: s1_def)
  qed
  have "node_walked m g ?p2 (length ?cs) ?s2 (concat (map (tree_tuples m g (cells_at ?s2)) children))"
  proof (rule walk_children [OF _ _ _ h(3) d2])
    show "unat ?p2 + length ?cs + 8 < 2 ^ 64" using u u2 by simp
    show "0 \<le> depth ?s2" using dd by (simp add: s1_def)
    show "\<forall>c\<in>set children. node_ok c \<and> depth ?s2 + int (height c) < DTB_STACK" using ok(3) hc by blast
  qed (use DtNode.IH in blast)
  then obtain stk where w3: "?W ?p2 ?s2 = ?W ?p3 (?s2\<lparr>stack := stk,
        ranges := add_ranges DTB_MAX_MEMORY_RANGES (concat (map (tree_tuples m g (cells_at ?s2)) children)) (ranges ?s2)\<rparr>)"
      "\<forall>i\<le>depth ?s2. stk i = stack ?s2 i" by (auto simp: node_walked_def)
  have w4: "?W ?p3 t = ?W (?p3 + 4) (t\<lparr>depth := depth t - 1\<rparr>)" for t
    by (intro walk_next [OF next_token_end_node [OF h(4)]]) (simp add: memory_step_def)
  have stk: "stk i = stack s i" if "i \<le> depth s" for i
  proof -
    have "stk i = stack ?s2 i" using w3(2) that by (simp add: s1_def)
    then show ?thesis using that by (simp add: node_state_def Let_def s1_def enter_ctx_def)
  qed
  have rg: "add_ranges DTB_MAX_MEMORY_RANGES (concat (map (tree_tuples m g (cells_at ?s2)) children)) (ranges ?s2)
      = add_ranges DTB_MAX_MEMORY_RANGES (tree_tuples m g (cells_at s) (DtNode name props children)) (ranges s)"
  proof -
    have ds: "depth s1 = ?d" "ranges s1 = ranges s" by (simp_all add: s1_def)
    have "ranges ?s2 = add_ranges DTB_MAX_MEMORY_RANGES
        (if memory_node name then concat (map (\<lambda>q. reg_tuples (fst (cells_at s)) (snd (cells_at s)) (snd q)) (filter (reg_prop m g) props)) else [])
        (ranges s)" by (simp add: node_state_def Let_def ds c1)
    then show ?thesis by (simp only: c2 tree_tuples.simps add_ranges_append)
  qed
  have e: "?p3 + 4 = p + of_nat (length (flat_node (DtNode name props children)))" by (simp add: algebra_simps)
  have "?W p s = ?W (?p3 + 4) (s\<lparr>stack := stk, ranges := add_ranges DTB_MAX_MEMORY_RANGES (tree_tuples m g (cells_at s) (DtNode name props children)) (ranges s)\<rparr>)"
    unfolding w1 w2 w3(1) w4 rg by (rule arg_cong [where f = "?W (?p3 + 4)"]) (simp add: node_state_def Let_def s1_def)
  then show ?case unfolding node_walked_def e using stk by blast
qed

text \<open>
  C15: The parser and the tree agree: on the encoding of a well-formed tree the walk ends and collects exactly
  the memory ranges of the tree, in order, up to the capacity of the table.
\<close>

theorem collect_memory_ranges_of_tree:
  assumes "holds m (g_struct g) (flat_node nd @ be32_bytes 9)" "node_ok nd" "height nd \<le> 64"
    and "4 dvd unat (g_struct g)" "unat (g_struct g) + length (flat_node nd) + 8 < 2 ^ 64" "g_struct g \<noteq> NULL" "g_strings g \<noteq> NULL"
  shows "collect_memory_ranges m g =
    Ret (g\<lparr>g_mem_ranges := add_ranges DTB_MAX_MEMORY_RANGES (tree_tuples m g (2, 2) nd) (g_mem_ranges g)\<rparr>)"
proof -
  let ?s = "\<lparr>depth = - 1, stack = (\<lambda>_. empty_ctx), ranges = g_mem_ranges g\<rparr>"
  have h: "holds m (g_struct g) (flat_node nd)" "holds m (g_struct g + of_nat (length (flat_node nd))) (be32_bytes 9)"
    using assms(1) by simp_all
  have "node_walked m g (g_struct g) (length (flat_node nd)) ?s (tree_tuples m g (cells_at ?s) nd)"
    using assms(2-5) by (intro walk_node h(1)) (simp_all add: DTB_STACK_def)
  then obtain stk where w: "walk m (memory_step m g) (g_struct g) ?s = walk m (memory_step m g) (g_struct g + of_nat (length (flat_node nd)))
      (?s\<lparr>stack := stk, ranges := add_ranges DTB_MAX_MEMORY_RANGES (tree_tuples m g (2, 2) nd) (g_mem_ranges g)\<rparr>)"
    by (auto simp: node_walked_def cells_at_def)
  have "walk m (memory_step m g) (g_struct g) ?s = Some (Ret (add_ranges DTB_MAX_MEMORY_RANGES (tree_tuples m g (2, 2) nd) (g_mem_ranges g)))"
    unfolding w by (subst walk.simps) (simp add: next_token_end [OF h(2)] memory_step_def)
  then show ?thesis using assms(6,7) by (simp add: collect_memory_ranges_def run_walk_def)
qed

section \<open>Examples and damaged blobs\<close>

definition mem_with :: "u8 list \<Rightarrow> u8 list \<Rightarrow> mem" where
  "mem_with blk strs a =
     (if 0x1000 \<le> a \<and> a < 0x1000 + of_nat (length blk) then blk ! unat (a - 0x1000)
      else if 0x8000 \<le> a \<and> a < 0x8000 + of_nat (length strs) then strs ! unat (a - 0x8000) else 0)"

text \<open>The strings \<open>#a\<close>, \<open>#s\<close> and \<open>reg\<close>, and a root with one memory node of 1 GiB at 0x40000000.\<close>

definition example_strings :: "u8 list" where
  "example_strings = [0x23, 0x61, 0, 0x23, 0x73, 0, 0x72, 0x65, 0x67, 0]"

definition example_tree :: dt_node where
  "example_tree =
     DtNode [] [(0, [0, 0, 0, 2]), (3, [0, 0, 0, 1])]
       [DtNode (memory_prefix @ [0x40, 0x34]) [(6, [0, 0, 0, 0, 0x40, 0, 0, 0, 0x40, 0, 0, 0])] []]"

definition example_dtb :: dtb_globals where
  "example_dtb =
     \<lparr>g_fdt = 0x1000, g_fdt_totalsize = 0x100, g_struct = 0x1000, g_strings = 0x8000, g_rsvmap = 0, g_struct_size = 0x80,
      g_strings_size = 10, g_mem_ranges = [], g_rsv_ranges = [], g_parsed = False\<rparr>"

definition example_dtb_mem :: mem where
  "example_dtb_mem = mem_with (flat_node example_tree @ be32_bytes 9) example_strings"

theorem collect_memory_ranges_of_tree_witness:
  "collect_memory_ranges example_dtb_mem example_dtb =
    Ret (example_dtb\<lparr>g_mem_ranges := [\<lparr>r_base = 0x40000000, r_size = 0x40000000\<rparr>]\<rparr>)"
proof -
  have h: "holds example_dtb_mem (g_struct example_dtb) (flat_node example_tree @ be32_bytes 9)" by code_simp
  have n: "node_ok example_tree" by (simp add: example_tree_def memory_prefix_def)
  have l: "length (flat_node example_tree) = 88"
    by (simp add: example_tree_def flat_prop_def pad4_def memory_prefix_def)
  have t: "add_ranges DTB_MAX_MEMORY_RANGES (tree_tuples example_dtb_mem example_dtb (2, 2) example_tree) (g_mem_ranges example_dtb)
      = [\<lparr>r_base = 0x40000000, r_size = 0x40000000\<rparr>]" by code_simp
  have s: "g_struct example_dtb = 0x1000" "g_strings example_dtb = 0x8000" by (simp_all add: example_dtb_def)
  have "height example_tree \<le> 64" by (simp add: example_tree_def)
  from collect_memory_ranges_of_tree [OF h n this] show ?thesis unfolding t by (simp add: s l)
qed

text \<open>
  A \<open>reg\<close> property whose length field is close to 2^32 is never finished: the offset wraps below the
  length again.
\<close>

theorem parse_reg_all_length_wraps:
  assumes "data \<noteq> NULL"
  shows "parse_reg_all m data 0xFFFFFFFF 2 2 lim out = None"
proof -
  have all: "(x :: u32) + 4 * (2 + 2) \<le> 0xFFFFFFFF" for x
    using unat_less_two_power [of "x + 4 * (2 + 2)"] by (simp add: word_le_nat_alt)
  have "len = 0xFFFFFFFF \<longrightarrow> a = 2 \<longrightarrow> s = 2 \<longrightarrow> False" if "reg_loop m' d len a s lim' off rs = Some q" for m' d len a s lim' off rs q
  proof (rule reg_loop.raw_induct [OF _ that])
    fix loop :: "mem \<Rightarrow> ptr \<Rightarrow> u32 \<Rightarrow> u32 \<Rightarrow> u32 \<Rightarrow> nat \<Rightarrow> u32 \<Rightarrow> dtb_range list \<Rightarrow> dtb_range list option"
    fix m' d len a s lim' off rs q
    assume IH: "\<And>m' d len a s lim' off rs q. loop m' d len a s lim' off rs = Some q \<Longrightarrow> len = 0xFFFFFFFF \<longrightarrow> a = 2 \<longrightarrow> s = 2 \<longrightarrow> False"
      and step: "(let tuple_bytes = 4 * (a + s) in
        if off + tuple_bytes \<le> len
        then let p = d + ucast off in loop m' d len a s lim' (off + tuple_bytes)
               (append_range lim' (read_cells m' (unat a) p 0) (read_cells m' (unat s) (p + 4 * ucast a) 0) rs)
        else Some rs) = Some q"
    show "len = 0xFFFFFFFF \<longrightarrow> a = 2 \<longrightarrow> s = 2 \<longrightarrow> False"
    proof (intro impI)
      assume e: "len = 0xFFFFFFFF" "a = 2" "s = 2"
      have "off + 4 * (a + s) \<le> len" unfolding e by (rule all)
      then show False using step IH e unfolding Let_def by (metis (no_types, lifting))
    qed
  qed
  then have "reg_loop m data 0xFFFFFFFF 2 2 lim 0 out = None" by (cases "reg_loop m data 0xFFFFFFFF 2 2 lim 0 out") blast+
  then show ?thesis using assms by (simp add: parse_reg_all_def)
qed

theorem parse_reg_all_length_wraps_witness: "parse_reg_all example_dtb_mem 0x1000 0xFFFFFFFF 2 2 16 [] = None"
  by (rule parse_reg_all_length_wraps) simp

text \<open>
  An end of node in front of the first node takes the depth below -1, and the next node's context is
  written in front of the stack.
\<close>

theorem memory_walk_stack_underflow:
  "collect_memory_ranges (mem_with (be32_bytes 2 @ flat_node example_tree @ be32_bytes 9) example_strings) example_dtb = Panic stack_oob"
  by code_simp

end
