(* ===== verification/Platform.thy ===== *)
theory Platform
  imports Kaddr Dtb "HOL-Library.Multiset"
begin

unbundle bit_operations_syntax

text \<open>
  The memory map (\<open>Kern/Kernel/platform/platform.c\<close>): which physical ranges the page allocator may use,
  computed from the device tree's memory minus its reserved ranges and the parts the kernel itself
  occupies. An array with a count is a list. The routines that compact an array in place read an element
  before they write at or below its index, so they are written as passes over the list.
\<close>

section \<open>Ranges\<close>

definition range_end :: "dtb_range \<Rightarrow> u64" where
  "range_end r = r_base r + r_size r"

fun find_min :: "dtb_range list \<Rightarrow> nat \<Rightarrow> nat \<Rightarrow> nat \<Rightarrow> nat" where
  "find_min r mn j 0 = mn"
| "find_min r mn j (Suc k) = find_min r (if r_base (r ! j) < r_base (r ! mn) then j else mn) (Suc j) k"

fun sort_loop :: "dtb_range list \<Rightarrow> nat \<Rightarrow> nat \<Rightarrow> dtb_range list" where
  "sort_loop r i 0 = r"
| "sort_loop r i (Suc k) =
     (let mn = find_min r i (Suc i) k in
      sort_loop (if mn \<noteq> i then r[i := r ! mn, mn := r ! i] else r) (Suc i) k)"

definition sort_ranges :: "dtb_range list \<Rightarrow> dtb_range list" where
  "sort_ranges r = sort_loop r 0 (length r)"

fun merge_loop :: "dtb_range list \<Rightarrow> dtb_range list \<Rightarrow> dtb_range list" where
  "merge_loop out [] = out"
| "merge_loop out (r # rs) =
     (if r_size r = 0 then merge_loop out rs else
      if out = [] then merge_loop [r] rs else
      let prev = last out; prev_end = range_end prev; cur_end = range_end r in
      if r_base r \<le> prev_end
      then if prev_end < cur_end then merge_loop (butlast out @ [prev\<lparr>r_size := cur_end - r_base prev\<rparr>]) rs else merge_loop out rs
      else merge_loop (out @ [r]) rs)"

definition normalize_merge :: "dtb_range list \<Rightarrow> dtb_range list" where
  "normalize_merge rs = merge_loop [] rs"

text \<open>Subtraction: the loop over the reserved ranges that may overlap \<open>[cur, m_end)\<close>, then over the memory ranges.\<close>

definition push_out :: "nat \<Rightarrow> u64 \<Rightarrow> u64 \<Rightarrow> dtb_range list \<Rightarrow> dtb_range list option" where
  "push_out cap start stop out = (if cap \<le> length out then None else Some (out @ [\<lparr>r_base = start, r_size = stop - start\<rparr>]))"

fun sub_inner :: "nat \<Rightarrow> u64 \<Rightarrow> dtb_range list \<Rightarrow> u64 \<Rightarrow> dtb_range list \<Rightarrow> (dtb_range list \<times> u64) option" where
  "sub_inner cap m_end [] cur out = Some (out, cur)"
| "sub_inner cap m_end (r # rs) cur out =
     (if \<not> r_base r < m_end then Some (out, cur) else
      let r_start = r_base r; r_end = range_end r; seg_end = (if r_start < m_end then r_start else m_end) in
      case (if cur < r_start then if cur < seg_end then push_out cap cur seg_end out else Some out else Some out) of
        None \<Rightarrow> None
      | Some out' \<Rightarrow>
          let cur' = (if cur < r_end then r_end else cur) in
          if m_end \<le> cur' then Some (out', cur') else sub_inner cap m_end rs cur' out')"

fun sub_loop :: "nat \<Rightarrow> dtb_range list \<Rightarrow> dtb_range list \<Rightarrow> dtb_range list \<Rightarrow> dtb_range list option" where
  "sub_loop cap [] rsv out = Some out"
| "sub_loop cap (mr # mrs) rsv out =
     (if r_size mr = 0 then sub_loop cap mrs rsv out else
      let m_start = r_base mr; m_end = range_end mr;
          rsv' = dropWhile (\<lambda>r. range_end r \<le> m_start) rsv in
      case sub_inner cap m_end rsv' m_start out of None \<Rightarrow> None
      | Some (out', cur) \<Rightarrow>
          (case (if cur < m_end then push_out cap cur m_end out' else Some out') of None \<Rightarrow> None
           | Some out'' \<Rightarrow> sub_loop cap mrs rsv' out''))"

definition subtract_reserved :: "dtb_range list \<Rightarrow> dtb_range list \<Rightarrow> nat \<Rightarrow> dtb_range list option" where
  "subtract_reserved mem rsv cap = sub_loop cap mem rsv []"

section \<open>Usable ranges\<close>

definition PLATFORM_MAX_RANGES :: nat where
  "PLATFORM_MAX_RANGES = 64"

definition PMM_METADATA_PAGES :: u64 where
  "PMM_METADATA_PAGES = 16"

definition window_end :: u64 where
  "window_end = CAPAZ_RAM_BASE + CAPAZ_RAM_DIRECTMAP_SIZE"

text \<open>Clamping \<open>[start, stop)\<close> to the direct-mapped window; an empty range is dropped.\<close>

definition clamp_window :: "u64 \<Rightarrow> u64 \<Rightarrow> dtb_range option" where
  "clamp_window start stop =
     (let s = (if start < CAPAZ_RAM_BASE then CAPAZ_RAM_BASE else start);
          e = (if window_end < stop then window_end else stop) in
      if e \<le> s then None else Some \<lparr>r_base = s, r_size = e - s\<rparr>)"

definition opt_list :: "'a option \<Rightarrow> 'a list" where
  "opt_list r = (case r of None \<Rightarrow> [] | Some x \<Rightarrow> [x])"

text \<open>The whole pages inside each range, and the pages that cover each reserved range.\<close>

definition inner_pages :: "dtb_range list \<Rightarrow> dtb_range list" where
  "inner_pages rs = concat (map (\<lambda>r. opt_list (clamp_window (align_up_4k (r_base r)) (align_down_4k (r_base r + r_size r)))) rs)"

definition push_rsv :: "dtb_range option \<Rightarrow> dtb_range list \<Rightarrow> dtb_range list" where
  "push_rsv r out = (case r of None \<Rightarrow> out | Some x \<Rightarrow> if length out < PLATFORM_MAX_RANGES * 2 then out @ [x] else out)"

definition outer_pages :: "dtb_range list \<Rightarrow> dtb_range list" where
  "outer_pages rs =
     fold (\<lambda>r out. if r_size r = 0 then out
        else push_rsv (clamp_window (align_down_4k (r_base r)) (align_up_4k (r_base r + r_size r))) out) rs []"

definition boot_reservation :: "boot_info \<Rightarrow> u64 \<Rightarrow> dtb_range option" where
  "boot_reservation bi mem_min_base =
     (if mem_min_base \<noteq> - 1 \<and> mem_min_base < kernel_phys_base bi
      then clamp_window (align_down_4k mem_min_base) (align_up_4k (kernel_phys_base bi)) else None)"

definition kernel_reservation :: "boot_info \<Rightarrow> u64 \<Rightarrow> dtb_range option" where
  "kernel_reservation bi runtime_end =
     clamp_window (align_down_4k (kernel_phys_base bi)) (align_up_4k (pmm_virt_to_phys runtime_end))"

definition metadata_reservation :: "u64 \<Rightarrow> dtb_range option" where
  "metadata_reservation runtime_end =
     (let start = align_up_4k (pmm_virt_to_phys runtime_end);
          stop = start + PMM_METADATA_PAGES * PAGE_SIZE in
      if start < window_end
      then let e = (if window_end < stop then window_end else stop) in
           if start < e then Some \<lparr>r_base = start, r_size = e - start\<rparr> else None
      else None)"

definition dtb_reservation_size :: "boot_info \<Rightarrow> u32 \<Rightarrow> u64" where
  "dtb_reservation_size bi totalsize =
     (let sz = (if totalsize = 0 then dtb_size bi else ucast totalsize) in
      if dtb_size bi \<noteq> 0 \<and> dtb_size bi < sz then dtb_size bi else sz)"

definition dtb_reservation :: "boot_info \<Rightarrow> u32 \<Rightarrow> dtb_range option" where
  "dtb_reservation bi totalsize =
     (if dtb_ptr bi = 0 then None else
      let dtb_phys = pmm_virt_to_phys (dtb_ptr bi) in
      clamp_window (align_down_4k dtb_phys) (align_up_4k (dtb_phys + dtb_reservation_size bi totalsize)))"

definition all_reservations :: "boot_info option \<Rightarrow> u64 \<Rightarrow> u32 \<Rightarrow> u64 \<Rightarrow> dtb_range list \<Rightarrow> dtb_range list" where
  "all_reservations bi runtime_end totalsize mem_min_base rsv =
     (case bi of None \<Rightarrow> outer_pages rsv
      | Some b \<Rightarrow>
          push_rsv (dtb_reservation b totalsize)
           (push_rsv (metadata_reservation runtime_end)
             (push_rsv (kernel_reservation b runtime_end)
               (push_rsv (boot_reservation b mem_min_base) (outer_pages rsv)))))"

definition usable_of :: "boot_info option \<Rightarrow> u64 \<Rightarrow> u32 \<Rightarrow> dtb_range list \<Rightarrow> dtb_range list \<Rightarrow> nat \<Rightarrow> dtb_range list option" where
  "usable_of bi runtime_end totalsize mem rsv cap =
     (let mem' = normalize_merge (sort_ranges (inner_pages mem));
          mem_min_base = (if mem' \<noteq> [] then r_base (mem' ! 0) else CAPAZ_RAM_BASE);
          all_rsv = normalize_merge (sort_ranges (all_reservations bi runtime_end totalsize mem_min_base rsv)) in
      case subtract_reserved mem' all_rsv cap of None \<Rightarrow> None
      | Some out \<Rightarrow> Some (normalize_merge (sort_ranges (inner_pages out))))"

definition platform_get_usable_ranges ::
    "mem \<Rightarrow> u64 \<Rightarrow> boot_info option \<Rightarrow> nat \<Rightarrow> dtb_globals \<Rightarrow> (dtb_range list option \<times> dtb_globals) outcome" where
  "platform_get_usable_ranges m runtime_end bi cap g =
     obind (dtb_get_memory_ranges m PLATFORM_MAX_RANGES g) (\<lambda>(ok, mem, g1).
       if \<not> ok then Ret (None, g1) else
       obind (dtb_get_reserved_ranges m PLATFORM_MAX_RANGES g1) (\<lambda>(ok', rsv, g2).
         if \<not> ok' then Ret (None, g2) else
         obind (if (case bi of None \<Rightarrow> False | Some b \<Rightarrow> dtb_ptr b \<noteq> 0) then dtb_get_totalsize m g2 else Ret (0, g2)) (\<lambda>(totalsize, g3).
           Ret (usable_of bi runtime_end totalsize mem rsv cap, g3))))"

section \<open>Sorting\<close>

lemma find_min_spec:
  assumes "mn < n" "j + k = n" "n \<le> length r"
  shows "find_min r mn j k < n \<and> (find_min r mn j k = mn \<or> j \<le> find_min r mn j k) \<and>
    r_base (r ! find_min r mn j k) \<le> r_base (r ! mn) \<and> (\<forall>x. j \<le> x \<and> x < n \<longrightarrow> r_base (r ! find_min r mn j k) \<le> r_base (r ! x))"
  using assms
proof (induction k arbitrary: mn j)
  case 0
  then show ?case by auto
next
  case (Suc k)
  let ?mn = "if r_base (r ! j) < r_base (r ! mn) then j else mn"
  have IH: "find_min r ?mn (Suc j) k < n \<and> (find_min r ?mn (Suc j) k = ?mn \<or> Suc j \<le> find_min r ?mn (Suc j) k) \<and>
    r_base (r ! find_min r ?mn (Suc j) k) \<le> r_base (r ! ?mn) \<and>
    (\<forall>x. Suc j \<le> x \<and> x < n \<longrightarrow> r_base (r ! find_min r ?mn (Suc j) k) \<le> r_base (r ! x))"
    using Suc.prems by (intro Suc.IH) auto
  have m: "r_base (r ! ?mn) \<le> r_base (r ! mn)" "r_base (r ! ?mn) \<le> r_base (r ! j)" by auto
  have "r_base (r ! find_min r ?mn (Suc j) k) \<le> r_base (r ! x)" if "j \<le> x" "x < n" for x
    using IH m(2) that by (cases "x = j") (auto intro: order_trans)
  moreover have "find_min r ?mn (Suc j) k = mn \<or> j \<le> find_min r ?mn (Suc j) k" using IH by (auto split: if_splits)
  moreover have "r_base (r ! find_min r ?mn (Suc j) k) \<le> r_base (r ! mn)" using IH m(1) by (blast intro: order_trans)
  ultimately show ?case using IH by simp
qed

lemma sort_loop_spec:
  assumes "i + k = length r" "sorted (map r_base (take i r))" "\<forall>x<i. \<forall>y. i \<le> y \<and> y < length r \<longrightarrow> r_base (r ! x) \<le> r_base (r ! y)"
  shows "mset (sort_loop r i k) = mset r \<and> sorted (map r_base (sort_loop r i k))"
  using assms
proof (induction k arbitrary: r i)
  case 0
  then show ?case by simp
next
  case (Suc k)
  define mn where "mn = find_min r i (Suc i) k"
  define r' where "r' = (if mn \<noteq> i then r[i := r ! mn, mn := r ! i] else r)"
  have i: "i < length r" using Suc.prems(1) by simp
  have mn: "mn < length r" "i \<le> mn" "\<forall>x. i \<le> x \<and> x < length r \<longrightarrow> r_base (r ! mn) \<le> r_base (r ! x)"
    using find_min_spec [of i "length r" "Suc i" k r] Suc.prems(1) i unfolding mn_def
    by (auto simp: less_eq_Suc_le [symmetric] dest: le_imp_less_or_eq)
  have ms: "mset r' = mset r" using mset_swap [OF mn(1) i] by (simp add: r'_def)
  have len: "length r' = length r" by (simp add: r'_def)
  have tk: "take i r' = take i r" using mn(2) by (simp add: r'_def)
  have ri: "r' ! i = r ! mn" using i mn by (simp add: r'_def)
  have later: "\<exists>z. i \<le> z \<and> z < length r \<and> r' ! y = r ! z" if "i \<le> y" "y < length r" for y
    using that i mn by (auto simp: r'_def nth_list_update)
  have pre: "r' ! x = r ! x" if "x < i" for x using that mn(2) by (simp add: r'_def)
  have "sorted (map r_base (take (Suc i) r'))"
  proof -
    have "take (Suc i) r' = take i r @ [r ! mn]" using i len tk ri by (simp add: take_Suc_conv_app_nth)
    moreover have "r_base y \<le> r_base (r ! mn)" if "y \<in> set (take i r)" for y
      using that Suc.prems(3) mn(1,2) by (auto simp: in_set_conv_nth)
    ultimately show ?thesis using Suc.prems(2) by (simp add: sorted_append)
  qed
  moreover have "r_base (r' ! x) \<le> r_base (r' ! y)" if ord: "x < Suc i" "Suc i \<le> y" "y < length r'" for x y
  proof -
    obtain z where z: "i \<le> z" "z < length r" "r' ! y = r ! z" using later [of y] ord(2,3) len by (metis Suc_leD)
    show ?thesis
    proof (cases "x = i")
      case True
      then show ?thesis using z mn(3) ri by simp
    next
      case False
      then have "x < i" using ord(1) by simp
      then show ?thesis using pre [of x] Suc.prems(3) z by simp
    qed
  qed
  ultimately have "mset (sort_loop r' (Suc i) k) = mset r' \<and> sorted (map r_base (sort_loop r' (Suc i) k))"
    using Suc.prems(1) len by (intro Suc.IH) auto
  then show ?case using ms by (simp add: Let_def flip: mn_def r'_def)
qed

lemma sort_ranges_sorts: "mset (sort_ranges r) = mset r" "sorted (map r_base (sort_ranges r))"
  using sort_loop_spec [of 0 "length r" r] by (simp_all add: sort_ranges_def)

lemma set_sort_ranges [simp]: "set (sort_ranges r) = set r"
  using sort_ranges_sorts(1) by (rule mset_eq_setD)

section \<open>Ranges as sets of addresses\<close>

definition rset :: "dtb_range \<Rightarrow> nat set" where
  "rset r = {unat (r_base r)..<unat (r_base r) + unat (r_size r)}"

definition rsets :: "dtb_range list \<Rightarrow> nat set" where
  "rsets rs = (\<Union>r\<in>set rs. rset r)"

definition r_ok :: "dtb_range \<Rightarrow> bool" where
  "r_ok r \<longleftrightarrow> unat (r_base r) + unat (r_size r) < 2 ^ 64"

text \<open>Sorted, non-empty ranges with gaps between them.\<close>

definition apart :: "dtb_range list \<Rightarrow> bool" where
  "apart rs \<longleftrightarrow> sorted_wrt (\<lambda>a b. unat (r_base a) + unat (r_size a) < unat (r_base b)) rs \<and> (\<forall>r\<in>set rs. r_ok r \<and> r_size r \<noteq> 0)"

lemma rsets_simps [simp]:
  "rsets [] = {}" "rsets (r # rs) = rset r \<union> rsets rs" "rsets (rs @ rs') = rsets rs \<union> rsets rs'"
  by (auto simp: rsets_def)

lemma rsets_sort [simp]: "rsets (sort_ranges rs) = rsets rs"
  by (simp add: rsets_def)

lemma unat_range_end: "r_ok r \<Longrightarrow> unat (range_end r) = unat (r_base r) + unat (r_size r)"
  by (simp add: range_end_def r_ok_def unat_add_no_wrap)

lemma rset_empty [simp]: "r_size r = 0 \<Longrightarrow> rset r = {}"
  by (simp add: rset_def)

lemma apart_snoc:
  "apart (rs @ [x]) \<longleftrightarrow> apart rs \<and> r_ok x \<and> r_size x \<noteq> 0 \<and> (\<forall>r\<in>set rs. unat (r_base r) + unat (r_size r) < unat (r_base x))"
  by (auto simp: apart_def sorted_wrt_append)

lemma merge_loop_spec:
  assumes "apart out" "sorted (map r_base rs)" "\<forall>r\<in>set rs. r_ok r" "out \<noteq> [] \<longrightarrow> (\<forall>r\<in>set rs. r_base (last out) \<le> r_base r)"
  shows "apart (merge_loop out rs) \<and> rsets (merge_loop out rs) = rsets out \<union> rsets rs"
  using assms
proof (induction rs arbitrary: out)
  case Nil
  then show ?case by simp
next
  case (Cons r rs)
  have r: "r_ok r" "sorted (map r_base rs)" "\<forall>x\<in>set rs. r_ok x" "\<forall>x\<in>set rs. r_base r \<le> r_base x"
    using Cons.prems(2,3) by auto
  consider "r_size r = 0" | "r_size r \<noteq> 0" "out = []" | pre prev where "r_size r \<noteq> 0" "out = pre @ [prev]"
    by (metis rev_exhaust)
  then show ?case
  proof cases
    case 1
    then show ?thesis using Cons.IH [OF Cons.prems(1) r(2,3)] Cons.prems(4) by simp
  next
    case 2
    then show ?thesis using Cons.IH [of "[r]"] r by (simp add: apart_def)
  next
    case 3
    have pv: "r_ok prev" "r_size prev \<noteq> 0" "apart pre" "\<forall>x\<in>set pre. unat (r_base x) + unat (r_size x) < unat (r_base prev)"
      using Cons.prems(1) 3(2) by (simp_all add: apart_snoc)
    have b: "unat (r_base prev) \<le> unat (r_base r)" using Cons.prems(4) 3(2) by (simp add: word_le_nat_alt)
    let ?pe = "unat (r_base prev) + unat (r_size prev)" and ?ce = "unat (r_base r) + unat (r_size r)"
    have e: "unat (range_end prev) = ?pe" "unat (range_end r) = ?ce" using pv(1) r(1) by (simp_all add: unat_range_end)
    have pb: "\<forall>x\<in>set rs. r_base prev \<le> r_base x" using r(4) b by (auto simp: word_le_nat_alt intro: order_trans)
    show ?thesis
    proof (cases "r_base r \<le> range_end prev")
      case True
      then have t: "unat (r_base r) \<le> ?pe" using e by (simp add: word_le_nat_alt)
      show ?thesis
      proof (cases "range_end prev < range_end r")
        case grow: True
        then have g: "?pe < ?ce" using e by (simp add: word_less_nat_alt)
        let ?p = "prev\<lparr>r_size := range_end r - r_base prev\<rparr>"
        have sz: "unat (range_end r - r_base prev) = ?ce - unat (r_base prev)"
          using e g by (subst unat_sub) (simp_all add: word_le_nat_alt)
        have z: "range_end r - r_base prev \<noteq> 0" using sz g by (metis unat_0 diff_is_0_eq not_le le_add1 order_less_le_trans order.strict_trans1)
        have p: "apart (pre @ [?p])" using pv r(1) g b sz z by (simp add: apart_snoc r_ok_def)
        have "rset ?p = rset prev \<union> rset r" using sz g t b by (auto simp: rset_def)
        then show ?thesis using Cons.IH [OF p r(2,3)] pb True grow 3 by (auto simp: Let_def)
      next
        case False
        then have "?ce \<le> ?pe" using e by (simp add: word_less_nat_alt)
        then have "rset r \<subseteq> rset prev" using b by (auto simp: rset_def)
        then show ?thesis using Cons.IH [OF Cons.prems(1) r(2,3)] pb True False 3 by (auto simp: Let_def)
      qed
    next
      case False
      then have "?pe < unat (r_base r)" using e by (simp add: word_le_nat_alt)
      moreover have "unat (r_base x) + unat (r_size x) < unat (r_base r)" if "x \<in> set out" for x
        using that 3(2) pv(4) b \<open>?pe < unat (r_base r)\<close> by auto
      ultimately have "apart (out @ [r])" unfolding apart_snoc using Cons.prems(1) 3(1) r(1) by blast
      then show ?thesis using Cons.IH [of "out @ [r]"] r False 3 by (auto simp: Let_def)
    qed
  qed
qed

lemma normalize_merge_sorted:
  assumes "\<forall>r\<in>set rs. r_ok r"
  shows "apart (normalize_merge (sort_ranges rs))" "rsets (normalize_merge (sort_ranges rs)) = rsets rs"
proof -
  have "apart [] \<and> sorted (map r_base (sort_ranges rs)) \<and> (\<forall>r\<in>set (sort_ranges rs). r_ok r)"
    using assms sort_ranges_sorts(2) by (simp add: apart_def)
  then have "apart (merge_loop [] (sort_ranges rs)) \<and> rsets (merge_loop [] (sort_ranges rs)) = rsets [] \<union> rsets (sort_ranges rs)"
    by (intro merge_loop_spec) simp_all
  then show "apart (normalize_merge (sort_ranges rs))" "rsets (normalize_merge (sort_ranges rs)) = rsets rs"
    by (simp_all add: normalize_merge_def)
qed

section \<open>Subtraction\<close>

lemma push_out_Some:
  assumes "push_out cap start stop out = Some out'" "start < stop"
  shows "rsets out' = rsets out \<union> {unat start..<unat stop}" "(\<forall>r\<in>set out. r_ok r) \<Longrightarrow> (\<forall>r\<in>set out'. r_ok r)"
proof -
  have sz: "unat (stop - start) = unat stop - unat start" using assms(2) by (simp add: unat_sub)
  have o: "out' = out @ [\<lparr>r_base = start, r_size = stop - start\<rparr>]" using assms(1) by (simp add: push_out_def split: if_splits)
  show "rsets out' = rsets out \<union> {unat start..<unat stop}"
    unfolding o using sz assms(2) by (simp add: rset_def word_less_nat_alt)
  show "(\<forall>r\<in>set out. r_ok r) \<Longrightarrow> (\<forall>r\<in>set out'. r_ok r)"
    unfolding o using sz assms(2) unat_less_two_power [of stop] by (auto simp: r_ok_def word_less_nat_alt)
qed

lemma sub_inner_step:
  assumes "r_base r < m_end" "sub_inner cap m_end (r # rs) cur out = Some res"
  obtains o1 cu where "rsets o1 = rsets out \<union> {unat cur..<unat (r_base r)}" "(\<forall>x\<in>set out. r_ok x) \<longrightarrow> (\<forall>x\<in>set o1. r_ok x)"
    "cu = (if cur < range_end r then range_end r else cur)"
    "(if m_end \<le> cu then Some (o1, cu) else sub_inner cap m_end rs cu o1) = Some res"
proof -
  define ro where "ro = (if cur < r_base r then if cur < r_base r then push_out cap cur (r_base r) out else Some out else Some out)"
  have "(case ro of None \<Rightarrow> None | Some o1 \<Rightarrow> if m_end \<le> (if cur < range_end r then range_end r else cur)
      then Some (o1, if cur < range_end r then range_end r else cur)
      else sub_inner cap m_end rs (if cur < range_end r then range_end r else cur) o1) = Some res"
    using assms(2) by (simp only: ro_def Let_def sub_inner.simps assms(1) not_True_eq_False if_True if_False)
  then obtain o1 where o1: "ro = Some o1" and rest: "(if m_end \<le> (if cur < range_end r then range_end r else cur)
      then Some (o1, if cur < range_end r then range_end r else cur)
      else sub_inner cap m_end rs (if cur < range_end r then range_end r else cur) o1) = Some res"
    by (cases ro) auto
  have "rsets o1 = rsets out \<union> {unat cur..<unat (r_base r)}"
    using o1 push_out_Some(1) [of cap cur "r_base r" out o1] by (cases "cur < r_base r") (auto simp: ro_def word_less_nat_alt)
  moreover have "(\<forall>x\<in>set out. r_ok x) \<longrightarrow> (\<forall>x\<in>set o1. r_ok x)"
    using o1 push_out_Some(2) [of cap cur "r_base r" out o1] by (auto simp: ro_def split: if_splits)
  ultimately show ?thesis using rest that by blast
qed

lemma sub_inner_spec:
  assumes "sorted (map r_base rs)" "\<forall>r\<in>set rs. r_ok r" "sub_inner cap m_end rs cur out = Some (out', cur')"
  shows "rsets out' \<union> {unat cur'..<unat m_end} = rsets out \<union> ({unat cur..<unat m_end} - rsets rs) \<and>
    ((\<forall>r\<in>set out. r_ok r) \<longrightarrow> (\<forall>r\<in>set out'. r_ok r))"
  using assms
proof (induction rs arbitrary: cur out)
  case Nil
  then show ?case by simp
next
  case (Cons r rs)
  have r: "r_ok r" "sorted (map r_base rs)" "\<forall>x\<in>set rs. r_ok x" "\<forall>x\<in>set rs. unat (r_base r) \<le> unat (r_base x)"
    using Cons.prems(1,2) by (simp_all add: word_le_nat_alt [where a = "r_base r"])
  have after: "x \<notin> rsets rs" if "x < unat (r_base r)" for x
    using that r(4) by (force simp: rsets_def rset_def)
  show ?case
  proof (cases "r_base r < m_end")
    case False
    then have "rsets (r # rs) \<inter> {unat cur..<unat m_end} = {}"
      using after by (auto simp: rset_def word_less_nat_alt)
    then show ?thesis using Cons.prems(3) False by auto
  next
    case True
    then obtain o1 cu where o1: "rsets o1 = rsets out \<union> {unat cur..<unat (r_base r)}" "(\<forall>x\<in>set out. r_ok x) \<longrightarrow> (\<forall>x\<in>set o1. r_ok x)"
      and cu: "cu = (if cur < range_end r then range_end r else cur)"
      and rest: "(if m_end \<le> cu then Some (o1, cu) else sub_inner cap m_end rs cu o1) = Some (out', cur')"
      using Cons.prems(3) by (rule sub_inner_step)
    have ucu: "unat cu = max (unat cur) (unat (r_base r) + unat (r_size r))"
      using r(1) by (auto simp: cu unat_range_end word_less_nat_alt max_def)
    have cut: "{unat cur..<unat m_end} - rsets (r # rs) = {unat cur..<unat (r_base r)} \<union> ({unat cu..<unat m_end} - rsets rs)"
      using after True unfolding ucu by (auto simp: rset_def word_less_nat_alt)
    show ?thesis
    proof (cases "m_end \<le> cu")
      case True
      then have "out' = o1" "cur' = cu" using rest by simp_all
      then show ?thesis unfolding cut using o1 True by (auto simp: word_le_nat_alt)
    next
      case False
      then have "sub_inner cap m_end rs cu o1 = Some (out', cur')" using rest by simp
      from Cons.IH [OF r(2,3) this] show ?thesis unfolding cut using o1 by auto
    qed
  qed
qed

lemma sub_loop_spec:
  assumes "apart mem" "sorted (map r_base rsv)" "\<forall>r\<in>set rsv. r_ok r" "sub_loop cap mem rsv out = Some out'"
  shows "rsets out' = rsets out \<union> (rsets mem - rsets rsv)" and "(\<forall>r\<in>set out. r_ok r) \<Longrightarrow> (\<forall>r\<in>set out'. r_ok r)"
proof -
  have "rsets out' = rsets out \<union> (rsets mem - rsets rsv) \<and> ((\<forall>r\<in>set out. r_ok r) \<longrightarrow> (\<forall>r\<in>set out'. r_ok r))"
    using assms
  proof (induction mem arbitrary: rsv out)
    case Nil
    then show ?case by simp
  next
    case (Cons mr mrs)
    define d where "d = takeWhile (\<lambda>r. range_end r \<le> r_base mr) rsv"
    define rv where "rv = dropWhile (\<lambda>r. range_end r \<le> r_base mr) rsv"
    have m: "r_ok mr" "r_size mr \<noteq> 0" "apart mrs" "\<forall>x\<in>set mrs. unat (r_base mr) \<le> unat (r_base x)"
      using Cons.prems(1) by (auto simp: apart_def)
    have me: "unat (range_end mr) = unat (r_base mr) + unat (r_size mr)" using m(1) by (rule unat_range_end)
    have rsv: "rsv = d @ rv" by (simp add: d_def rv_def)
    have rv: "sorted (map r_base rv)" "\<forall>r\<in>set rv. r_ok r"
      using Cons.prems(2,3) unfolding rsv by (simp_all add: sorted_append)
    have "rset x \<subseteq> {..<unat (r_base mr)}" if "x \<in> set d" for x
    proof -
      have "range_end x \<le> r_base mr" using that set_takeWhileD unfolding d_def by force
      moreover have "r_ok x" using that Cons.prems(3) unfolding rsv by simp
      ultimately show ?thesis by (auto simp: rset_def word_le_nat_alt unat_range_end)
    qed
    moreover have "rset x \<inter> {..<unat (r_base mr)} = {}" if "x \<in> set (mr # mrs)" for x
      using that m(4) by (force simp: rset_def)
    ultimately have "rsets d \<inter> rsets (mr # mrs) = {}" unfolding rsets_def by blast
    then have gone: "rsets (mr # mrs) - rsets rsv = (rset mr - rsets rv) \<union> (rsets mrs - rsets rv)"
      unfolding rsv by auto
    obtain o1 cur where i: "sub_inner cap (range_end mr) rv (r_base mr) out = Some (o1, cur)"
      using Cons.prems(4) m(2) by (auto simp: Let_def simp flip: rv_def split: option.splits)
    obtain o2 where p: "(if cur < range_end mr then push_out cap cur (range_end mr) o1 else Some o1) = Some o2"
      and l: "sub_loop cap mrs rv o2 = Some out'"
      using Cons.prems(4) m(2) i by (auto simp: Let_def simp flip: rv_def split: option.splits)
    have o2: "rsets o2 = rsets o1 \<union> {unat cur..<unat (range_end mr)}" "(\<forall>r\<in>set o1. r_ok r) \<longrightarrow> (\<forall>r\<in>set o2. r_ok r)"
      using p push_out_Some [of cap cur "range_end mr" o1 o2] by (auto simp: word_less_nat_alt split: if_splits)
    have "rsets o2 = rsets out \<union> (rset mr - rsets rv)"
      using sub_inner_spec [OF rv i] unfolding o2 me rset_def by simp
    then show ?case using Cons.IH [OF m(3) rv l] o2(2) sub_inner_spec [OF rv i] unfolding gone by blast
  qed
  then show "rsets out' = rsets out \<union> (rsets mem - rsets rsv)" "(\<forall>r\<in>set out. r_ok r) \<Longrightarrow> (\<forall>r\<in>set out'. r_ok r)" by blast+
qed

lemma filter_length_mono: "(\<And>x. P x \<Longrightarrow> Q x) \<Longrightarrow> length (filter P xs) \<le> length (filter Q xs)"
  by (induction xs) auto

lemma filter_disjoint_length:
  assumes "\<And>x. P x \<Longrightarrow> R x" "\<And>x. Q x \<Longrightarrow> R x" "\<And>x. P x \<Longrightarrow> \<not> Q x"
  shows "length (filter P xs) + length (filter Q xs) \<le> length (filter R xs)"
  using assms by (induction xs) auto

lemma sub_inner_returns:
  assumes "length out + length (filter (\<lambda>r. cur < r_base r \<and> r_base r < m_end) rs) \<le> cap"
  shows "\<exists>out' cur'. sub_inner cap m_end rs cur out = Some (out', cur') \<and>
    length out' \<le> length out + length (filter (\<lambda>r. cur < r_base r \<and> r_base r < m_end) rs)"
  using assms
proof (induction rs arbitrary: cur out)
  case Nil
  then show ?case by simp
next
  case (Cons r rs)
  define cu where "cu = (if cur < range_end r then range_end r else cur)"
  have "cur \<le> cu" by (auto simp: cu_def)
  then have le: "length (filter (\<lambda>r. cu < r_base r \<and> r_base r < m_end) rs) \<le> length (filter (\<lambda>r. cur < r_base r \<and> r_base r < m_end) rs)"
    by (intro filter_length_mono) auto
  show ?case
  proof (cases "cur < r_base r \<and> r_base r < m_end")
    case True
    define o1 where "o1 = out @ [\<lparr>r_base = cur, r_size = r_base r - cur\<rparr>]"
    have p: "push_out cap cur (r_base r) out = Some o1" using Cons.prems True by (simp add: push_out_def o1_def)
    have "length o1 + length (filter (\<lambda>r. cu < r_base r \<and> r_base r < m_end) rs) \<le> cap"
      using Cons.prems True le by (simp add: o1_def)
    from Cons.IH [OF this] show ?thesis using p True le by (auto simp: Let_def o1_def simp flip: cu_def)
  next
    case False
    then have "length out + length (filter (\<lambda>r. cu < r_base r \<and> r_base r < m_end) rs) \<le> cap" using Cons.prems le by (simp split: if_splits)
    from Cons.IH [OF this] show ?thesis using False le by (auto simp: Let_def simp flip: cu_def)
  qed
qed

lemma sub_loop_returns:
  assumes "apart mem" "length out + length mem + length (filter (\<lambda>r. mem \<noteq> [] \<and> r_base (hd mem) < r_base r) rsv) \<le> cap"
  shows "\<exists>out'. sub_loop cap mem rsv out = Some out'"
  using assms
proof (induction mem arbitrary: rsv out)
  case Nil
  then show ?case by simp
next
  case (Cons mr mrs)
  define rv where "rv = dropWhile (\<lambda>r. range_end r \<le> r_base mr) rsv"
  have m: "r_ok mr" "r_size mr \<noteq> 0" "apart mrs" using Cons.prems(1) by (auto simp: apart_def)
  let ?P = "\<lambda>r. r_base mr < r_base r \<and> r_base r < range_end mr" and ?Q = "\<lambda>r. mrs \<noteq> [] \<and> r_base (hd mrs) < r_base r"
  have nxt: "range_end mr < r_base (hd mrs)" if "mrs \<noteq> []"
    using that Cons.prems(1) m(1) by (cases mrs) (auto simp: apart_def word_less_nat_alt unat_range_end)
  have up: "r_base mr \<le> range_end mr" using m(1) by (simp add: word_le_nat_alt unat_range_end)
  have "length (filter ?P rv) + length (filter ?Q rv) \<le> length (filter (\<lambda>r. r_base mr < r_base r) rv)"
  proof (rule filter_disjoint_length)
    show "r_base mr < r_base x" if "?Q x" for x using that nxt up by (meson order.strict_trans order.strict_trans1)
    show "\<not> ?Q x" if "?P x" for x using that nxt by (meson not_less_iff_gr_or_eq order.strict_trans)
  qed simp
  also have "\<dots> \<le> length (filter (\<lambda>r. r_base mr < r_base r) rsv)"
    unfolding rv_def by (metis (no_types, lifting) filter_append le_add2 length_append takeWhile_dropWhile_id)
  finally have room: "length out + length (filter ?P rv) + length mrs + length (filter ?Q rv) < cap" using Cons.prems(2) by simp
  then have "length out + length (filter ?P rv) \<le> cap" by simp
  from sub_inner_returns [OF this] obtain o1 cur where i: "sub_inner cap (range_end mr) rv (r_base mr) out = Some (o1, cur)"
    and l1: "length o1 \<le> length out + length (filter ?P rv)" by blast
  define o2 where "o2 = (if cur < range_end mr then o1 @ [\<lparr>r_base = cur, r_size = range_end mr - cur\<rparr>] else o1)"
  have p: "(if cur < range_end mr then push_out cap cur (range_end mr) o1 else Some o1) = Some o2"
    using room l1 by (simp add: o2_def push_out_def)
  have "length o2 + length mrs + length (filter ?Q rv) \<le> cap" using room l1 by (simp add: o2_def)
  from Cons.IH [OF m(3) this] obtain out' where "sub_loop cap mrs rv o2 = Some out'" by blast
  then have "sub_loop cap (mr # mrs) rsv out = Some out'" using m(2) i p by (simp add: Let_def flip: rv_def)
  then show ?case by blast
qed

section \<open>Whole pages\<close>

text \<open>The addresses of the direct-mapped window, of the whole pages inside a range, and of the pages a span touches.\<close>

definition win :: "nat set" where
  "win = {unat CAPAZ_RAM_BASE..<unat window_end}"

definition pages_in :: "dtb_range \<Rightarrow> nat set" where
  "pages_in r = {a. {a div 4096 * 4096..<a div 4096 * 4096 + 4096} \<subseteq> rset r} \<inter> win"

definition pages_of :: "nat \<Rightarrow> nat \<Rightarrow> nat set" where
  "pages_of lo hi = {a. lo < hi \<and> lo div 4096 * 4096 \<le> a \<and> a div 4096 * 4096 < hi} \<inter> win"

definition r_sane :: "dtb_range \<Rightarrow> bool" where
  "r_sane r \<longleftrightarrow> unat (r_base r) + unat (r_size r) + 4095 < 2 ^ 64"

definition page_range :: "dtb_range \<Rightarrow> bool" where
  "page_range r \<longleftrightarrow> page_aligned (r_base r) \<and> page_aligned (r_size r) \<and> rset r \<subseteq> win"

lemma win_bounds: "unat CAPAZ_RAM_BASE = 0x40000000" "unat window_end = 0x80000000"
  by (simp_all add: window_end_def CAPAZ_RAM_BASE_def CAPAZ_RAM_DIRECTMAP_SIZE_def)

lemma clamp_window_spec:
  "rsets (opt_list (clamp_window start stop)) = {unat start..<unat stop} \<inter> win"
  "r \<in> set (opt_list (clamp_window start stop)) \<Longrightarrow> r_ok r \<and> r_size r \<noteq> 0"
  "r \<in> set (opt_list (clamp_window start stop)) \<Longrightarrow> page_aligned start \<Longrightarrow> page_aligned stop \<Longrightarrow> page_range r"
proof -
  define s where "s = (if start < CAPAZ_RAM_BASE then CAPAZ_RAM_BASE else start)"
  define e where "e = (if window_end < stop then window_end else stop)"
  have c: "opt_list (clamp_window start stop) = (if e \<le> s then [] else [\<lparr>r_base = s, r_size = e - s\<rparr>])"
    by (simp add: clamp_window_def opt_list_def s_def e_def Let_def)
  have us: "unat s = max (unat start) 0x40000000" unfolding s_def word_less_nat_alt win_bounds max_def using win_bounds by auto
  have ue: "unat e = min (unat stop) 0x80000000" unfolding e_def word_less_nat_alt win_bounds min_def using win_bounds by auto
  have sz: "unat (e - s) = unat e - unat s" if "\<not> e \<le> s" using that by (simp add: unat_sub)
  have rs: "rset \<lparr>r_base = s, r_size = e - s\<rparr> = {unat s..<unat e}" if "\<not> e \<le> s"
    using that sz by (simp add: rset_def word_le_nat_alt)
  have w: "{unat s..<unat e} = {unat start..<unat stop} \<inter> win" unfolding us ue win_def win_bounds by auto
  show "rsets (opt_list (clamp_window start stop)) = {unat start..<unat stop} \<inter> win"
    unfolding c using rs w by (auto simp: word_le_nat_alt)
  show "r_ok r \<and> r_size r \<noteq> 0" if "r \<in> set (opt_list (clamp_window start stop))"
    using that sz unat_less_two_power [of e] unfolding c by (auto simp: r_ok_def word_le_nat_alt split: if_splits)
  show "page_range r" if "r \<in> set (opt_list (clamp_window start stop))" "page_aligned start" "page_aligned stop"
  proof -
    have r: "\<not> e \<le> s" "r = \<lparr>r_base = s, r_size = e - s\<rparr>" using that(1) unfolding c by (simp_all split: if_splits)
    have "4096 dvd unat s" "4096 dvd unat e" using that(2,3) unfolding us ue page_aligned_iff by (simp_all add: max_def min_def)
    then show ?thesis using rs [OF r(1)] w sz [OF r(1)] unfolding r(2) page_range_def page_aligned_iff by auto
  qed
qed

lemma page_aligned_align_up [simp]: "page_aligned (align_up_4k x)"
  using page_aligned_align_down [of "x + (PAGE_SIZE - 1)"] by (simp add: align_up_4k_def align_down_4k_def)

text \<open>Comparing an address with a rounded bound is comparing its page with the bound.\<close>

lemma page_bounds:
  fixes a b :: nat
  shows "(b + 4095) div 4096 * 4096 \<le> a \<longleftrightarrow> b \<le> a div 4096 * 4096"
    and "a < b div 4096 * 4096 \<longleftrightarrow> a div 4096 * 4096 + 4096 \<le> b"
    and "a < (b + 4095) div 4096 * 4096 \<longleftrightarrow> a div 4096 * 4096 < b"
proof -
  have lo: "k * 4096 \<le> n \<longleftrightarrow> k \<le> n div 4096" and hi: "n < k * 4096 \<longleftrightarrow> n div 4096 < k" for k n :: nat
    by (simp_all add: less_eq_div_iff_mult_less_eq div_less_iff_less_mult)
  show "a < b div 4096 * 4096 \<longleftrightarrow> a div 4096 * 4096 + 4096 \<le> b"
    using lo [of "Suc (a div 4096)" b] hi [of a "b div 4096"] by auto
  show up: "a < (b + 4095) div 4096 * 4096 \<longleftrightarrow> a div 4096 * 4096 < b"
    using lo [of "Suc (a div 4096)" "b + 4095"] hi [of a "(b + 4095) div 4096"] by auto
  show "(b + 4095) div 4096 * 4096 \<le> a \<longleftrightarrow> b \<le> a div 4096 * 4096"
    using up by (simp add: not_less [symmetric])
qed

lemma inner_pages_set:
  assumes "\<forall>r\<in>set rs. r_sane r"
  shows "rsets (inner_pages rs) = (\<Union>r\<in>set rs. pages_in r)"
  using assms
proof (induction rs)
  case Nil
  then show ?case by (simp add: inner_pages_def)
next
  case (Cons r rs)
  let ?b = "unat (r_base r)" and ?e = "unat (r_base r) + unat (r_size r)"
  have s: "?e + 4095 < 2 ^ 64" using Cons.prems by (simp add: r_sane_def)
  have up: "unat (align_up_4k (r_base r)) = (?b + 4095) div 4096 * 4096" using s by (intro unat_align_up_4k) simp
  have dn: "unat (align_down_4k (r_base r + r_size r)) = ?e div 4096 * 4096"
    using s by (simp add: unat_align_down_4k unat_add_no_wrap)
  have "{(?b + 4095) div 4096 * 4096..<?e div 4096 * 4096} = {a. {a div 4096 * 4096..<a div 4096 * 4096 + 4096} \<subseteq> rset r}"
    by (auto simp: page_bounds rset_def atLeastLessThan_subset_iff)
  then have "rsets (opt_list (clamp_window (align_up_4k (r_base r)) (align_down_4k (r_base r + r_size r)))) = pages_in r"
    unfolding clamp_window_spec(1) up dn pages_in_def by simp
  then show ?case using Cons by (simp add: inner_pages_def)
qed

lemma inner_pages_ok:
  "r \<in> set (inner_pages rs) \<Longrightarrow> r_ok r \<and> r_size r \<noteq> 0 \<and> page_range r"
  using clamp_window_spec(2,3) by (auto simp: inner_pages_def)

text \<open>A clamped span of pages is the pages the span touches.\<close>

lemma clamp_pages_of:
  assumes "unat lo \<le> unat hi" "unat hi + 4095 < 2 ^ 64" "lo \<noteq> hi \<or> 4096 dvd unat lo"
  shows "rsets (opt_list (clamp_window (align_down_4k lo) (align_up_4k hi))) = pages_of (unat lo) (unat hi)"
proof -
  have "{unat lo div 4096 * 4096..<(unat hi + 4095) div 4096 * 4096} =
      {a. unat lo < unat hi \<and> unat lo div 4096 * 4096 \<le> a \<and> a div 4096 * 4096 < unat hi}"
  proof (cases "unat lo < unat hi")
    case True
    then show ?thesis by (auto simp: page_bounds)
  next
    case False
    then have "unat hi = unat lo" "4096 dvd unat lo" using assms(1,3) by (auto simp: word_unat_eq_iff)
    then show ?thesis by (auto simp: page_bounds)
  qed
  then show ?thesis
    unfolding clamp_window_spec(1) unat_align_down_4k unat_align_up_4k [OF assms(2)] pages_of_def by simp
qed

section \<open>Alignment\<close>

definition aligned_ranges :: "dtb_range list \<Rightarrow> bool" where
  "aligned_ranges rs \<longleftrightarrow> (\<forall>r\<in>set rs. page_aligned (r_base r) \<and> page_aligned (r_size r))"

lemma page_aligned_dvd: "page_aligned x \<longleftrightarrow> 2 ^ 12 dvd x"
  unfolding page_aligned_def page_mask take_bit_eq_mask [symmetric] by (rule take_bit_eq_0_iff)

lemma page_aligned_arith [simp]:
  "page_aligned x \<Longrightarrow> page_aligned y \<Longrightarrow> page_aligned (x + y)"
  "page_aligned x \<Longrightarrow> page_aligned y \<Longrightarrow> page_aligned (x - y)"
  unfolding page_aligned_dvd by (rule dvd_add, assumption+) (rule dvd_diff, assumption+)

lemma aligned_ranges_simps [simp]:
  "aligned_ranges []"
  "aligned_ranges (r # rs) \<longleftrightarrow> page_aligned (r_base r) \<and> page_aligned (r_size r) \<and> aligned_ranges rs"
  "aligned_ranges (rs @ rs') \<longleftrightarrow> aligned_ranges rs \<and> aligned_ranges rs'"
  "aligned_ranges (sort_ranges rs) \<longleftrightarrow> aligned_ranges rs"
  by (auto simp: aligned_ranges_def)

lemma aligned_range_end: "page_aligned (r_base r) \<Longrightarrow> page_aligned (r_size r) \<Longrightarrow> page_aligned (range_end r)"
  by (simp add: range_end_def)

lemma aligned_merge_loop: "aligned_ranges out \<Longrightarrow> aligned_ranges rs \<Longrightarrow> aligned_ranges (merge_loop out rs)"
proof (induction out rs rule: merge_loop.induct)
  case (2 out r rs)
  show ?case
  proof (cases out rule: rev_cases)
    case Nil
    then show ?thesis using 2 by simp
  next
    case (snoc pre prev)
    then show ?thesis using 2 by (simp add: Let_def aligned_range_end)
  qed
qed simp

lemma aligned_normalize_merge: "aligned_ranges rs \<Longrightarrow> aligned_ranges (normalize_merge (sort_ranges rs))"
  by (simp add: normalize_merge_def aligned_merge_loop)

lemma aligned_push_out:
  "push_out cap a b out = Some out' \<Longrightarrow> aligned_ranges out \<Longrightarrow> page_aligned a \<Longrightarrow> page_aligned b \<Longrightarrow> aligned_ranges out'"
  by (auto simp: push_out_def split: if_splits)

lemma aligned_sub_inner:
  assumes "sub_inner cap m_end rs cur out = Some (out', cur')" "aligned_ranges rs" "aligned_ranges out"
    "page_aligned m_end" "page_aligned cur"
  shows "aligned_ranges out' \<and> page_aligned cur'"
  using assms
proof (induction rs arbitrary: cur out)
  case (Cons r rs)
  have re: "page_aligned (range_end r)" using Cons.prems(2) by (simp add: aligned_range_end)
  show ?case
  proof (cases "r_base r < m_end")
    case True
    have p: "aligned_ranges o1" if "push_out cap cur (r_base r) out = Some o1" for o1
      using aligned_push_out [OF that] Cons.prems by simp
    show ?thesis using Cons.prems Cons.IH True re p by (auto simp: Let_def split: if_splits option.splits)
  qed (use Cons.prems in simp)
qed simp

lemma aligned_sub_loop:
  assumes "sub_loop cap mem rsv out = Some out'" "aligned_ranges mem" "aligned_ranges rsv" "aligned_ranges out"
  shows "aligned_ranges out'"
  using assms
proof (induction mem arbitrary: rsv out)
  case (Cons mr mrs)
  define rv where "rv = dropWhile (\<lambda>r. range_end r \<le> r_base mr) rsv"
  have rv: "aligned_ranges rv" using Cons.prems(3) unfolding rv_def aligned_ranges_def by (meson set_dropWhileD)
  have me: "page_aligned (range_end mr)" using Cons.prems(2) by (simp add: aligned_range_end)
  show ?case
  proof (cases "r_size mr = 0")
    case True
    then show ?thesis using Cons by simp
  next
    case False
    then obtain o1 cur o2 where i: "sub_inner cap (range_end mr) rv (r_base mr) out = Some (o1, cur)"
      and p: "(if cur < range_end mr then push_out cap cur (range_end mr) o1 else Some o1) = Some o2"
      and l: "sub_loop cap mrs rv o2 = Some out'"
      using Cons.prems(1) by (auto simp: Let_def simp flip: rv_def split: option.splits)
    have "aligned_ranges o1 \<and> page_aligned cur" using aligned_sub_inner [OF i rv] Cons.prems me by simp
    then have "aligned_ranges o2" using p aligned_push_out me by (auto split: if_splits)
    then show ?thesis using Cons.IH [OF l] Cons.prems(2) rv by simp
  qed
qed simp

lemma pages_in_page_range:
  assumes "page_range r" "r_ok r"
  shows "pages_in r = rset r"
proof -
  obtain k j where kj: "unat (r_base r) = 4096 * k" "unat (r_size r) = 4096 * j"
    using assms(1) unfolding page_range_def page_aligned_iff by (auto elim!: dvdE)
  define n where "n = k + j"
  have rs: "rset r = {k * 4096..<n * 4096}" by (simp add: rset_def kj n_def algebra_simps)
  have e: "k * 4096 \<le> a \<longleftrightarrow> k * 4096 \<le> a div 4096 * 4096" "a < n * 4096 \<longleftrightarrow> a div 4096 * 4096 + 4096 \<le> n * 4096" for a
    using page_bounds(2) [of a "n * 4096"] page_bounds(1) [of "k * 4096" a] by simp_all
  have "{a div 4096 * 4096..<a div 4096 * 4096 + 4096} \<subseteq> rset r \<longleftrightarrow> a \<in> rset r" for a
    unfolding rs atLeastLessThan_subset_iff atLeastLessThan_iff using e [of a] by auto
  then show ?thesis using assms(1) by (auto simp: pages_in_def page_range_def)
qed

section \<open>What is usable\<close>

definition rsv_ranges :: "dtb_range list \<Rightarrow> dtb_range list" where
  "rsv_ranges rs = concat (map (\<lambda>r. if r_size r = 0 then [] else
     opt_list (clamp_window (align_down_4k (r_base r)) (align_up_4k (r_base r + r_size r)))) rs)"

lemma opt_list_length: "length (opt_list r) \<le> 1"
  by (simp add: opt_list_def split: option.splits)

lemma push_rsv_room: "length out < 128 \<Longrightarrow> push_rsv r out = out @ opt_list r"
  by (simp add: push_rsv_def opt_list_def PLATFORM_MAX_RANGES_def split: option.splits)

lemma rsv_ranges_length: "length (rsv_ranges rs) \<le> length rs"
proof (induction rs)
  case (Cons r rs)
  then show ?case using opt_list_length [of "clamp_window (align_down_4k (r_base r)) (align_up_4k (r_base r + r_size r))"]
    by (simp add: rsv_ranges_def)
qed (simp add: rsv_ranges_def)

lemma outer_pages_eq:
  assumes "length rs \<le> 128"
  shows "outer_pages rs = rsv_ranges rs"
  using assms
proof (induction rs rule: rev_induct)
  case (snoc r rs)
  have "length (rsv_ranges rs) < 128" using snoc.prems rsv_ranges_length [of rs] by simp
  then have "push_rsv x (rsv_ranges rs) = rsv_ranges rs @ opt_list x" for x by (rule push_rsv_room)
  then show ?case using snoc by (simp add: outer_pages_def rsv_ranges_def)
qed (simp add: outer_pages_def rsv_ranges_def)

lemma all_reservations_eq:
  assumes "length rsv \<le> 64"
  shows "all_reservations (Some b) re ts mn rsv =
    rsv_ranges rsv @ opt_list (boot_reservation b mn) @ opt_list (kernel_reservation b re) @
      opt_list (metadata_reservation re) @ opt_list (dtb_reservation b ts)"
proof -
  have l: "length (rsv_ranges rsv) \<le> 64" using rsv_ranges_length [of rsv] assms by simp
  have o: "length (opt_list x) \<le> 1" for x :: "dtb_range option" by (rule opt_list_length)
  have p: "push_rsv x (rsv_ranges rsv @ xs) = rsv_ranges rsv @ xs @ opt_list x" if "length xs \<le> 3" for x xs
    using push_rsv_room [of "rsv_ranges rsv @ xs" x] that l by simp
  show ?thesis
    using p [of "[]"] p [of "opt_list (boot_reservation b mn)"] p [of "opt_list (boot_reservation b mn) @ opt_list (kernel_reservation b re)"]
      p [of "opt_list (boot_reservation b mn) @ opt_list (kernel_reservation b re) @ opt_list (metadata_reservation re)"]
      o [of "boot_reservation b mn"] o [of "kernel_reservation b re"] o [of "metadata_reservation re"] assms
    by (simp add: all_reservations_def outer_pages_eq)
qed

lemma rsv_ranges_set:
  assumes "\<forall>r\<in>set rs. r_sane r"
  shows "rsets (rsv_ranges rs) = (\<Union>r\<in>set rs. pages_of (unat (r_base r)) (unat (r_base r) + unat (r_size r)))"
  using assms
proof (induction rs)
  case Nil
  then show ?case by (simp add: rsv_ranges_def)
next
  case (Cons r rs)
  have s: "unat (r_base r + r_size r) = unat (r_base r) + unat (r_size r)" "unat (r_base r) + unat (r_size r) + 4095 < 2 ^ 64"
    using Cons.prems by (simp_all add: r_sane_def unat_add_no_wrap)
  show ?case
  proof (cases "r_size r = 0")
    case True
    then have "pages_of (unat (r_base r)) (unat (r_base r) + unat (r_size r)) = {}" by (simp add: pages_of_def)
    then show ?thesis using Cons True by (simp add: rsv_ranges_def)
  next
    case False
    then have "rsets (opt_list (clamp_window (align_down_4k (r_base r)) (align_up_4k (r_base r + r_size r)))) =
        pages_of (unat (r_base r)) (unat (r_base r) + unat (r_size r))"
      using clamp_pages_of [of "r_base r" "r_base r + r_size r"] s by simp
    then show ?thesis using Cons False by (simp add: rsv_ranges_def)
  qed
qed

definition range_good :: "dtb_range \<Rightarrow> bool" where
  "range_good r \<longleftrightarrow> r_ok r \<and> page_aligned (r_base r) \<and> page_aligned (r_size r)"

lemma clamp_good:
  "r \<in> set (opt_list (clamp_window (align_down_4k lo) (align_up_4k hi))) \<Longrightarrow> range_good r"
  using clamp_window_spec(2,3) by (auto simp: range_good_def page_range_def)

lemma rsv_ranges_good: "r \<in> set (rsv_ranges rs) \<Longrightarrow> range_good r"
  using clamp_good by (auto simp: rsv_ranges_def split: if_splits)

definition runtime_end_pa :: "u64 \<Rightarrow> nat" where
  "runtime_end_pa re = (unat (pmm_virt_to_phys re) + 4095) div 4096 * 4096"

lemma metadata_reservation_set:
  assumes "unat (pmm_virt_to_phys re) < 2 ^ 63"
  shows "rsets (opt_list (metadata_reservation re)) \<inter> win = {runtime_end_pa re..<runtime_end_pa re + 65536} \<inter> win"
    and "r \<in> set (opt_list (metadata_reservation re)) \<Longrightarrow> range_good r"
proof -
  let ?s = "align_up_4k (pmm_virt_to_phys re)"
  define e where "e = (if window_end < ?s + PMM_METADATA_PAGES * PAGE_SIZE then window_end else ?s + PMM_METADATA_PAGES * PAGE_SIZE)"
  have s: "unat ?s = runtime_end_pa re" using assms by (simp add: unat_align_up_4k runtime_end_pa_def)
  have "runtime_end_pa re \<le> 2 ^ 63 + 4095" 
    using assms div_times_less_eq_dividend [of "unat (pmm_virt_to_phys re) + 4095" 4096] unfolding runtime_end_pa_def by linarith
  then have e: "unat (?s + PMM_METADATA_PAGES * PAGE_SIZE) = runtime_end_pa re + 65536"
    using s by (simp add: PMM_METADATA_PAGES_def PAGE_SIZE_def unat_word_ariths)
  have ue: "unat e = min (runtime_end_pa re + 65536) (unat window_end)"
    unfolding e_def word_less_nat_alt e min_def by (simp add: e)
  have m: "opt_list (metadata_reservation re) = (if ?s < window_end \<and> ?s < e then [\<lparr>r_base = ?s, r_size = e - ?s\<rparr>] else [])"
    by (simp add: metadata_reservation_def opt_list_def Let_def e_def)
  have sz: "unat (e - ?s) = unat e - unat ?s" if "?s < e" using that by (simp add: unat_sub)
  have "rsets (opt_list (metadata_reservation re)) = (if ?s < window_end then {runtime_end_pa re..<unat e} else {})"
    unfolding m using sz s by (auto simp: rset_def word_less_nat_alt)
  then show "rsets (opt_list (metadata_reservation re)) \<inter> win = {runtime_end_pa re..<runtime_end_pa re + 65536} \<inter> win"
    unfolding word_less_nat_alt s ue win_def by auto
  have "page_aligned window_end" "page_aligned (PMM_METADATA_PAGES * PAGE_SIZE)"
    by (simp_all add: page_aligned_iff win_bounds PMM_METADATA_PAGES_def PAGE_SIZE_def)
  then have "page_aligned e" by (simp add: e_def)
  then show "range_good r" if "r \<in> set (opt_list (metadata_reservation re))"
    using that sz unat_less_two_power [of e] unfolding m
    by (auto simp: range_good_def r_ok_def word_less_nat_alt split: if_splits)
qed

definition dtb_pages :: "boot_info \<Rightarrow> u32 \<Rightarrow> nat set" where
  "dtb_pages b ts = (if dtb_ptr b = 0 then {}
     else pages_of (unat (pmm_virt_to_phys (dtb_ptr b))) (unat (pmm_virt_to_phys (dtb_ptr b)) + unat (dtb_reservation_size b ts)))"

definition dtb_sane :: "boot_info \<Rightarrow> u32 \<Rightarrow> bool" where
  "dtb_sane b ts \<longleftrightarrow> dtb_ptr b = 0 \<or> (dtb_reservation_size b ts \<noteq> 0 \<and>
     unat (pmm_virt_to_phys (dtb_ptr b)) + unat (dtb_reservation_size b ts) + 4095 < 2 ^ 64)"

lemma dtb_reservation_set:
  assumes "dtb_sane b ts"
  shows "rsets (opt_list (dtb_reservation b ts)) = dtb_pages b ts"
proof (cases "dtb_ptr b = 0")
  case True
  then show ?thesis by (simp add: dtb_reservation_def dtb_pages_def opt_list_def)
next
  case False
  let ?d = "pmm_virt_to_phys (dtb_ptr b)" and ?z = "dtb_reservation_size b ts"
  have "?z \<noteq> 0" "unat (?d + ?z) = unat ?d + unat ?z" "unat ?d + unat ?z + 4095 < 2 ^ 64"
    using assms False by (simp_all add: dtb_sane_def unat_add_no_wrap)
  then show ?thesis using False clamp_pages_of [of ?d "?d + ?z"] by (simp add: dtb_reservation_def dtb_pages_def Let_def)
qed

lemma all_reservations_good:
  assumes "length rsv \<le> 64" "unat (pmm_virt_to_phys re) < 2 ^ 63" "r \<in> set (all_reservations (Some b) re ts mn rsv)"
  shows "range_good r"
  using assms(3) rsv_ranges_good clamp_good metadata_reservation_set(2) [OF assms(2)]
  unfolding all_reservations_eq [OF assms(1)]
  by (auto simp: boot_reservation_def kernel_reservation_def dtb_reservation_def Let_def opt_list_def split: if_splits)

text \<open>Above the lowest memory, the implicit reservations are everything below the end of the allocator's metadata.\<close>

lemma all_reservations_set:
  assumes "length rsv \<le> 64" "\<forall>r\<in>set rsv. r_sane r" "unat (pmm_virt_to_phys re) < 2 ^ 63" "kernel_phys_base b \<le> pmm_virt_to_phys re"
    "dtb_sane b ts" "page_aligned mn" "a \<in> win" "unat mn \<le> a"
  shows "a \<in> rsets (all_reservations (Some b) re ts mn rsv) \<longleftrightarrow>
    a \<in> (\<Union>r\<in>set rsv. pages_of (unat (r_base r)) (unat (r_base r) + unat (r_size r))) \<or> a < runtime_end_pa re + 65536 \<or> a \<in> dtb_pages b ts"
proof -
  let ?k = "unat (kernel_phys_base b)"
  have kr: "?k \<le> unat (pmm_virt_to_phys re)" using assms(4) by (simp add: word_le_nat_alt)
  have up: "unat (align_up_4k (kernel_phys_base b)) = (?k + 4095) div 4096 * 4096"
    "unat (align_up_4k (pmm_virt_to_phys re)) = runtime_end_pa re"
    using assms(3) kr by (simp_all add: unat_align_up_4k runtime_end_pa_def)
  have le: "(?k + 4095) div 4096 * 4096 \<le> runtime_end_pa re" unfolding runtime_end_pa_def using kr by (intro mult_le_mono div_le_mono) simp_all
  have ker: "a \<in> rsets (opt_list (kernel_reservation b re)) \<longleftrightarrow> ?k div 4096 * 4096 \<le> a \<and> a < runtime_end_pa re"
    using assms(7) unfolding kernel_reservation_def clamp_window_spec(1) up unat_align_down_4k by auto
  have boot: "a \<in> rsets (opt_list (boot_reservation b mn)) \<longleftrightarrow> mn < kernel_phys_base b \<and> a < (?k + 4095) div 4096 * 4096"
  proof (cases "mn < kernel_phys_base b")
    case True
    then have "mn \<noteq> - 1" by (metis word_order.extremum_strict)
    then show ?thesis using True assms(7,8)
      by (simp add: boot_reservation_def clamp_window_spec(1) up align_down_4k_id [OF assms(6)])
  next
    case False
    then show ?thesis by (simp add: boot_reservation_def opt_list_def)
  qed
  have md: "a \<in> rsets (opt_list (metadata_reservation re)) \<longleftrightarrow> runtime_end_pa re \<le> a \<and> a < runtime_end_pa re + 65536"
    using metadata_reservation_set(1) [OF assms(3)] assms(7) by auto
  have low: "mn < kernel_phys_base b" if "a < ?k div 4096 * 4096"
    using that assms(8) by (simp add: word_less_nat_alt)
  have "a \<in> rsets (opt_list (boot_reservation b mn)) \<or> a \<in> rsets (opt_list (kernel_reservation b re)) \<or> a \<in> rsets (opt_list (metadata_reservation re))
      \<longleftrightarrow> a < runtime_end_pa re + 65536"
    unfolding ker boot md using low le div_le_mono [of ?k "?k + 4095" 4096]
    by (cases "a < ?k div 4096 * 4096") auto
  then show ?thesis
    unfolding all_reservations_eq [OF assms(1)] rsets_simps Un_iff rsv_ranges_set [OF assms(2)] dtb_reservation_set [OF assms(5)] by blast
qed

lemma good_normalize:
  assumes "\<forall>r\<in>set rs. range_good r"
  shows "apart (normalize_merge (sort_ranges rs))" "rsets (normalize_merge (sort_ranges rs)) = rsets rs"
    "aligned_ranges (normalize_merge (sort_ranges rs))"
  using normalize_merge_sorted [of rs] aligned_normalize_merge [of rs] assms
  by (auto simp: range_good_def aligned_ranges_def)

lemma inner_pages_good: "\<forall>r\<in>set (inner_pages rs). range_good r"
  using inner_pages_ok by (auto simp: range_good_def page_range_def)

lemma inner_pages_win: "rsets (inner_pages rs) \<subseteq> win"
  using inner_pages_ok by (force simp: rsets_def page_range_def)

lemma apart_sorted: "apart rs \<Longrightarrow> sorted (map r_base rs)"
  by (auto simp: apart_def sorted_wrt_map word_le_nat_alt elim!: sorted_wrt_mono_rel [rotated])

lemma apart_head_le: "apart rs \<Longrightarrow> a \<in> rsets rs \<Longrightarrow> unat (r_base (rs ! 0)) \<le> a"
  by (cases rs) (force simp: apart_def rsets_def rset_def)+

text \<open>The final pass over page-aligned ranges inside the window changes no address.\<close>

lemma inner_pages_id:
  assumes "\<forall>r\<in>set rs. r_ok r" "aligned_ranges rs" "rsets rs \<subseteq> win"
  shows "rsets (inner_pages rs) = rsets rs"
proof -
  have pr: "page_range r" if "r \<in> set rs" for r
    using assms that by (auto simp: page_range_def aligned_ranges_def rsets_def)
  have "r_sane r" if "r \<in> set rs" for r
  proof (cases "r_size r = 0")
    case True
    obtain k where "unat (r_base r) = 4096 * k" using pr [OF \<open>r \<in> set rs\<close>] by (auto simp: page_range_def page_aligned_iff)
    then show ?thesis using True unat_less_two_power [of "r_base r"] by (simp add: r_sane_def)
  next
    case False
    then have "0 < unat (r_size r)" by (simp add: unat_gt_0)
    then have "unat (r_base r) + unat (r_size r) - 1 \<in> rset r" unfolding rset_def by auto
    then show ?thesis using assms(3) that unfolding r_sane_def rsets_def win_def win_bounds by force
  qed
  then have "rsets (inner_pages rs) = (\<Union>r\<in>set rs. pages_in r)" by (intro inner_pages_set) blast
  also have "\<dots> = rsets rs" unfolding rsets_def using pages_in_page_range pr assms(1) by auto
  finally show ?thesis .
qed

lemma merge_loop_length: "length (merge_loop out rs) \<le> length out + length rs"
proof (induction rs arbitrary: out)
  case (Cons r rs)
  show ?case using Cons.IH [of out] Cons.IH [of "out @ [r]"] Cons.IH [of "[r]"] Cons.IH [of "butlast out @ [last out\<lparr>r_size := range_end r - r_base (last out)\<rparr>]"]
    by (cases out rule: rev_cases) (simp_all add: Let_def)
qed simp

lemma normalize_length: "length (normalize_merge (sort_ranges rs)) \<le> length rs"
  using merge_loop_length [of "[]" "sort_ranges rs"] sort_ranges_sorts(1) [of rs]
  by (simp add: normalize_merge_def) (metis size_mset)

lemma inner_pages_length: "length (inner_pages rs) \<le> length rs"
proof (induction rs)
  case (Cons r rs)
  then show ?case using opt_list_length [of "clamp_window (align_up_4k (r_base r)) (align_down_4k (r_base r + r_size r))"]
    by (simp add: inner_pages_def)
qed (simp add: inner_pages_def)

lemma all_reservations_length:
  assumes "length rsv \<le> 64"
  shows "length (all_reservations (Some b) re ts mn rsv) \<le> length rsv + 4"
  using opt_list_length [of "boot_reservation b mn"] opt_list_length [of "kernel_reservation b re"]
    opt_list_length [of "metadata_reservation re"] opt_list_length [of "dtb_reservation b ts"] rsv_ranges_length [of rsv]
  unfolding all_reservations_eq [OF assms] by simp

text \<open>The output array is large enough whenever it has a slot for every memory and reserved range and four more.\<close>

lemma usable_ranges_returns:
  assumes "length rsv \<le> 64" "length mem + length rsv + 4 \<le> cap"
  shows "\<exists>out. usable_of (Some b) re ts mem rsv cap = Some out"
proof -
  define mem' where "mem' = normalize_merge (sort_ranges (inner_pages mem))"
  define mn where "mn = (if mem' \<noteq> [] then r_base (mem' ! 0) else CAPAZ_RAM_BASE)"
  define rs where "rs = normalize_merge (sort_ranges (all_reservations (Some b) re ts mn rsv))"
  have "length mem' \<le> length mem" "length rs \<le> length rsv + 4"
    using normalize_length [of "inner_pages mem"] inner_pages_length [of mem]
      normalize_length [of "all_reservations (Some b) re ts mn rsv"] all_reservations_length [OF assms(1), of b re ts mn]
    by (simp_all add: mem'_def rs_def)
  then have "length ([] :: dtb_range list) + length mem' + length (filter (\<lambda>r. mem' \<noteq> [] \<and> r_base (hd mem') < r_base r) rs) \<le> cap"
    using assms(2) by (intro order_trans [OF add_le_mono [OF order_refl length_filter_le]]) simp
  from sub_loop_returns [OF good_normalize(1) [OF inner_pages_good [of mem], folded mem'_def] this]
  show ?thesis
    unfolding usable_of_def subtract_reserved_def Let_def mem'_def [symmetric] mn_def [symmetric] rs_def [symmetric] by auto
qed

definition ex_boot :: boot_info where
  "ex_boot = \<lparr>kernel_phys_base = 0x40200000, kernel_size = 0x100000, kernel_entry_offset = 0, dtb_ptr = 0x44000000, dtb_size = 0x10000\<rparr>"

lemma ex_usable:
  "usable_of (Some ex_boot) 0xFFFF800040300010 0x8000 [\<lparr>r_base = 0x40000000, r_size = 0x8000000\<rparr>]
     [\<lparr>r_base = 0x42000100, r_size = 0x100\<rparr>] 64 =
   Some [\<lparr>r_base = 0x40311000, r_size = 0x1CEF000\<rparr>, \<lparr>r_base = 0x42001000, r_size = 0x1FFF000\<rparr>, \<lparr>r_base = 0x44008000, r_size = 0x3FF8000\<rparr>]"
  by code_simp

text \<open>
  A successful call returns separated, page-aligned ranges; they are the whole pages of the memory ranges,
  minus every page a reserved range touches, everything up to the end of the allocator's metadata, and the
  pages of the device tree blob.
\<close>

lemma usable_ranges_spec:
  assumes "usable_of (Some b) re ts mem rsv cap = Some out" "length rsv \<le> 64" "\<forall>r\<in>set mem. r_sane r" "\<forall>r\<in>set rsv. r_sane r"
    "unat (pmm_virt_to_phys re) < 2 ^ 63" "kernel_phys_base b \<le> pmm_virt_to_phys re" "dtb_sane b ts"
  shows "apart out \<and> aligned_ranges out \<and>
    rsets out = {a \<in> \<Union> (pages_in ` set mem). a \<notin> (\<Union>r\<in>set rsv. pages_of (unat (r_base r)) (unat (r_base r) + unat (r_size r))) \<and>
      runtime_end_pa re + 65536 \<le> a \<and> a \<notin> dtb_pages b ts}"
proof -
  define mem' where "mem' = normalize_merge (sort_ranges (inner_pages mem))"
  define mn where "mn = (if mem' \<noteq> [] then r_base (mem' ! 0) else CAPAZ_RAM_BASE)"
  define rs where "rs = normalize_merge (sort_ranges (all_reservations (Some b) re ts mn rsv))"
  note m = good_normalize [OF inner_pages_good [of mem], folded mem'_def]
  have "\<forall>r\<in>set (all_reservations (Some b) re ts mn rsv). range_good r" using all_reservations_good [OF assms(2,5)] by blast
  note r = good_normalize [OF this, folded rs_def]
  have al: "page_aligned mn" using m(3) by (cases mem') (simp_all add: mn_def page_aligned_iff win_bounds)
  obtain o1 where o1: "sub_loop cap mem' rs [] = Some o1" and out: "out = normalize_merge (sort_ranges (inner_pages o1))"
    using assms(1) unfolding usable_of_def subtract_reserved_def Let_def mem'_def [symmetric] mn_def [symmetric] rs_def [symmetric]
    by (auto split: option.splits)
  have rok: "\<forall>x\<in>set rs. r_ok x" using r(1) by (simp add: apart_def)
  have s1: "rsets o1 = rsets mem' - rsets rs" "\<forall>x\<in>set o1. r_ok x"
    using sub_loop_spec [OF m(1) apart_sorted [OF r(1)] rok o1] by simp_all
  have w: "rsets mem' \<subseteq> win" using m(2) inner_pages_win by simp
  have so: "rsets out = rsets mem' - rsets rs"
    using good_normalize(2) [OF inner_pages_good [of o1]] inner_pages_id [OF s1(2) aligned_sub_loop [OF o1 m(3) r(3)]] s1(1) w
    by (auto simp: out)
  have "a \<in> rsets rs \<longleftrightarrow> a \<in> (\<Union>r\<in>set rsv. pages_of (unat (r_base r)) (unat (r_base r) + unat (r_size r))) \<or>
      a < runtime_end_pa re + 65536 \<or> a \<in> dtb_pages b ts" if "a \<in> rsets mem'" for a
  proof -
    have "unat mn \<le> a" using apart_head_le [OF m(1) that] that by (cases mem') (auto simp: mn_def)
    then show ?thesis unfolding r(2) using w that assms al by (intro all_reservations_set) auto
  qed
  moreover have "rsets mem' = \<Union> (pages_in ` set mem)" unfolding m(2) by (rule inner_pages_set [OF assms(3)])
  ultimately have "rsets out = {a \<in> \<Union> (pages_in ` set mem). a \<notin> (\<Union>r\<in>set rsv. pages_of (unat (r_base r)) (unat (r_base r) + unat (r_size r))) \<and>
      runtime_end_pa re + 65536 \<le> a \<and> a \<notin> dtb_pages b ts}"
    unfolding so by (auto simp: not_le [symmetric] simp del: UN_iff)
  then show ?thesis using good_normalize(1,3) [OF inner_pages_good [of o1]] by (simp add: out)
qed

lemma parsed_results:
  assumes "g_parsed g"
  shows "dtb_get_memory_ranges m n g = Ret (g_mem_ranges g \<noteq> [], take n (g_mem_ranges g), g)"
    "dtb_get_reserved_ranges m n g = Ret (True, take n (g_rsv_ranges g), g)"
    "dtb_get_totalsize m g = Ret (g_fdt_totalsize g, g)"
  using assms by (simp_all add: dtb_get_memory_ranges_def dtb_get_reserved_ranges_def dtb_get_totalsize_def ensure_parsed_def)

text \<open>The addresses that are neither reserved nor part of what the loader placed, and a boot whose inputs do not wrap around.\<close>

definition boot_usable :: "boot_info \<Rightarrow> u64 \<Rightarrow> dtb_globals \<Rightarrow> nat set" where
  "boot_usable b re g = {a \<in> \<Union> (pages_in ` set (g_mem_ranges g)).
     a \<notin> (\<Union>r\<in>set (g_rsv_ranges g). pages_of (unat (r_base r)) (unat (r_base r) + unat (r_size r))) \<and>
     runtime_end_pa re + 65536 \<le> a \<and> a \<notin> dtb_pages b (g_fdt_totalsize g)}"

definition boot_sane :: "boot_info \<Rightarrow> u64 \<Rightarrow> dtb_globals \<Rightarrow> bool" where
  "boot_sane b re g \<longleftrightarrow> g_parsed g \<and> length (g_mem_ranges g) + length (g_rsv_ranges g) \<le> 60 \<and>
     (\<forall>r\<in>set (g_mem_ranges g) \<union> set (g_rsv_ranges g). r_sane r) \<and> dtb_sane b (g_fdt_totalsize g) \<and>
     kernel_phys_base b \<le> pmm_virt_to_phys re \<and> unat (pmm_virt_to_phys re) < 2 ^ 63"

lemma boot_usable_of:
  assumes "boot_sane b re g"
  obtains out where "usable_of (Some b) re (if dtb_ptr b \<noteq> 0 then g_fdt_totalsize g else 0) (g_mem_ranges g) (g_rsv_ranges g) 64 = Some out"
    "apart out" "aligned_ranges out" "rsets out = boot_usable b re g"
proof -
  let ?ts = "if dtb_ptr b \<noteq> 0 then g_fdt_totalsize g else 0"
  have h: "length (g_rsv_ranges g) \<le> 64" "length (g_mem_ranges g) + length (g_rsv_ranges g) + 4 \<le> 64"
    "\<forall>r\<in>set (g_mem_ranges g). r_sane r" "\<forall>r\<in>set (g_rsv_ranges g). r_sane r"
    "unat (pmm_virt_to_phys re) < 2 ^ 63" "kernel_phys_base b \<le> pmm_virt_to_phys re" "dtb_sane b ?ts"
    "dtb_pages b ?ts = dtb_pages b (g_fdt_totalsize g)"
    using assms by (auto simp: boot_sane_def dtb_sane_def dtb_pages_def)
  from usable_ranges_returns [OF h(1,2)] obtain out where out: "usable_of (Some b) re ?ts (g_mem_ranges g) (g_rsv_ranges g) 64 = Some out" by blast
  note u = usable_ranges_spec [OF out h(1,3-7), unfolded h(8)]
  show ?thesis using that [OF out] u by (simp add: boot_usable_def)
qed

text \<open>
  C18: With a parsed device tree whose ranges do not wrap around and leave the output array large enough,
  \<open>platform_get_usable_ranges\<close> succeeds. What it returns is sorted, page aligned and separated by gaps, and
  is exactly the whole pages of memory inside the direct map that no reserved range touches, that lie behind
  the kernel and its page-allocator metadata, and that do not hold the device tree.
\<close>

theorem platform_get_usable_ranges_exact:
  assumes "boot_sane b re g" "g_mem_ranges g \<noteq> []"
  shows "\<exists>out. platform_get_usable_ranges m re (Some b) PLATFORM_MAX_RANGES g = Ret (Some out, g) \<and>
    apart out \<and> aligned_ranges out \<and> rsets out = boot_usable b re g"
proof -
  obtain out where out: "usable_of (Some b) re (if dtb_ptr b \<noteq> 0 then g_fdt_totalsize g else 0) (g_mem_ranges g) (g_rsv_ranges g) 64 = Some out"
    "apart out" "aligned_ranges out" "rsets out = boot_usable b re g"
    using assms(1) by (rule boot_usable_of)
  have "g_parsed g" "take 64 (g_mem_ranges g) = g_mem_ranges g" "take 64 (g_rsv_ranges g) = g_rsv_ranges g"
    using assms(1) by (simp_all add: boot_sane_def)
  then show ?thesis using out assms(2) parsed_results [of g m]
    by (cases "dtb_ptr b = 0") (simp_all add: platform_get_usable_ranges_def PLATFORM_MAX_RANGES_def)
qed

definition ex_dtb :: dtb_globals where
  "ex_dtb = \<lparr>g_fdt = 0x44000000, g_fdt_totalsize = 0x8000, g_struct = NULL, g_strings = NULL, g_rsvmap = NULL,
     g_struct_size = 0, g_strings_size = 0, g_mem_ranges = [\<lparr>r_base = 0x40000000, r_size = 0x8000000\<rparr>],
     g_rsv_ranges = [\<lparr>r_base = 0x42000100, r_size = 0x100\<rparr>], g_parsed = True\<rparr>"

lemma ex_boot_sane: "boot_sane ex_boot 0xFFFF800040300010 ex_dtb"
  by (simp add: boot_sane_def ex_dtb_def ex_boot_def r_sane_def dtb_sane_def dtb_reservation_size_def pmm_virt_to_phys_def kaddr_config)

theorem platform_get_usable_ranges_exact_witness:
  "rsets [\<lparr>r_base = 0x40311000, r_size = 0x1CEF000\<rparr>, \<lparr>r_base = 0x42001000, r_size = 0x1FFF000\<rparr>, \<lparr>r_base = 0x44008000, r_size = 0x3FF8000\<rparr>] =
    boot_usable ex_boot 0xFFFF800040300010 ex_dtb"
proof -
  let ?out = "[\<lparr>r_base = 0x40311000, r_size = 0x1CEF000\<rparr>, \<lparr>r_base = 0x42001000, r_size = 0x1FFF000\<rparr>, \<lparr>r_base = 0x44008000, r_size = 0x3FF8000\<rparr>] :: dtb_range list"
  have "platform_get_usable_ranges (\<lambda>_. 0) 0xFFFF800040300010 (Some ex_boot) PLATFORM_MAX_RANGES ex_dtb = Ret (Some ?out, ex_dtb)"
    using ex_usable by (simp add: platform_get_usable_ranges_def parsed_results ex_dtb_def PLATFORM_MAX_RANGES_def ex_boot_def)
  moreover have "g_mem_ranges ex_dtb \<noteq> []" by (simp add: ex_dtb_def)
  ultimately show ?thesis
    using platform_get_usable_ranges_exact [OF ex_boot_sane, of "\<lambda>_. 0"] by auto
qed

end
