(* ===== verification/Pmm_Init.thy ===== *)
theory Pmm_Init
  imports Pmm Platform
begin

unbundle bit_operations_syntax

text \<open>
  Boot-time construction of the page allocator (\<open>pmm_init\<close> of \<open>Kern/Kernel/mm/pmm.c\<close>): the managed
  window, the placement of state and bitmap behind the kernel, the release of the usable ranges, and the
  defensive reservation pass. The bytes of the bitmap before it is filled are never read, so the fresh
  state starts with an empty list.
\<close>

section \<open>Initialisation\<close>

definition window_step :: "dtb_range \<Rightarrow> u64 \<times> u64 \<Rightarrow> u64 \<times> u64" where
  "window_step r w =
     (let start = align_up_4k (r_base r); stop = align_down_4k (r_base r + r_size r) in
      if stop \<le> start then w
      else (if fst w = 0 \<or> start < fst w then start else fst w, if snd w < stop then stop else snd w))"

definition PMM_STATE_BYTES :: u64 where
  "PMM_STATE_BYTES = 72"

definition pmm_place :: "dtb_range list \<Rightarrow> u64 \<Rightarrow> pmm_state outcome" where
  "pmm_place usable runtime_end =
     (let w = fold window_step usable (0, 0) in
      if fst w = 0 \<or> snd w \<le> fst w then Panic ''invalid PMM window from usable ranges'' else
      let base = align_up_4k (if fst w < CAPAZ_RAM_BASE then CAPAZ_RAM_BASE else fst w);
          limit = align_down_4k (if window_end < snd w then window_end else snd w) in
      if limit \<le> base then Panic ''PMM window empty after clamp'' else
      let meta_base = align_up_4k (pmm_virt_to_phys runtime_end);
          meta_bytes = PMM_METADATA_PAGES * PAGE_SIZE;
          meta_end = meta_base + meta_bytes in
      if meta_base < CAPAZ_RAM_BASE \<or> window_end < meta_end then Panic ''metadata region outside mapped RAM window'' else
      let total = (limit - base) div PAGE_SIZE;
          bytes = (total + 7) div 8;
          off = (PMM_STATE_BYTES + 7) AND NOT 7 in
      if meta_bytes < off + bytes then Panic ''metadata pages insufficient for bitmap''
      else Ret \<lparr>base_pa = base, limit_pa = limit, total_pages = total, free_pages = 0,
             bitmap_va = pmm_phys_to_virt meta_base + off, bitmap = [], bitmap_bytes = bytes,
             next_hint = 0, meta_base_pa = meta_base, meta_pages = PMM_METADATA_PAGES\<rparr>)"

definition lowest_step :: "dtb_range \<Rightarrow> u64 \<Rightarrow> u64" where
  "lowest_step r lowest =
     (let start = r_base r; stop = r_base r + r_size r in
      if stop \<le> CAPAZ_RAM_BASE then lowest else
      let start' = (if start < CAPAZ_RAM_BASE then CAPAZ_RAM_BASE else start) in
      if window_end \<le> start' then lowest else
      let stop' = (if window_end < stop then window_end else stop);
          s = align_up_4k start'; e = align_down_4k stop' in
      if e \<le> s then lowest else if s < lowest then s else lowest)"

definition lowest_ram :: "dtb_range list \<Rightarrow> u64" where
  "lowest_ram mem = (let lowest = fold lowest_step mem window_end in if lowest = window_end then CAPAZ_RAM_BASE else lowest)"

definition reserve_dtb :: "boot_info \<Rightarrow> u32 \<Rightarrow> pmm_state \<Rightarrow> pmm_state" where
  "reserve_dtb b totalsize st =
     (if dtb_ptr b = 0 then st else
      let dtb_phys = pmm_virt_to_phys (dtb_ptr b); sz = dtb_reservation_size b totalsize in
      if sz = 0 then st
      else bitmap_mark_range_reserved st (align_down_4k dtb_phys) (align_up_4k (dtb_phys + sz)))"

definition pmm_reserve_implicit :: "boot_info \<Rightarrow> u64 \<Rightarrow> u32 \<Rightarrow> u64 \<Rightarrow> pmm_state \<Rightarrow> pmm_state" where
  "pmm_reserve_implicit b runtime_end totalsize lowest st =
     (let runtime_end_pa = pmm_virt_to_phys runtime_end;
          meta_base = align_up_4k runtime_end_pa;
          st1 = bitmap_mark_range_reserved st lowest (kernel_phys_base b);
          st2 = bitmap_mark_range_reserved st1 (kernel_phys_base b) (align_up_4k runtime_end_pa);
          st3 = reserve_dtb b totalsize st2 in
      bitmap_mark_range_reserved st3 meta_base (meta_base + PMM_METADATA_PAGES * PAGE_SIZE))"

definition pmm_build :: "boot_info \<Rightarrow> u64 \<Rightarrow> u32 \<Rightarrow> dtb_range list \<Rightarrow> dtb_range list \<Rightarrow> pmm_state \<Rightarrow> pmm_state" where
  "pmm_build b runtime_end totalsize mem usable st =
     pmm_reserve_implicit b runtime_end totalsize (lowest_ram mem)
       (fold (\<lambda>r st. bitmap_mark_range_free st (r_base r) (r_base r + r_size r)) usable (bitmap_mark_all_reserved st))"

definition pmm_init ::
    "mem \<Rightarrow> u64 \<Rightarrow> boot_info option \<Rightarrow> 'a pmm_globals_scheme \<Rightarrow> dtb_globals \<Rightarrow> ('a pmm_globals_scheme \<times> dtb_globals) outcome" where
  "pmm_init m runtime_end bi s g =
     (case bi of None \<Rightarrow> Panic ''boot_info is NULL''
      | Some b \<Rightarrow>
          obind (platform_get_usable_ranges m runtime_end bi PLATFORM_MAX_RANGES g) (\<lambda>(u, g1).
            case u of None \<Rightarrow> Panic ''platform_get_usable_ranges failed or returned empty''
            | Some usable \<Rightarrow>
                if usable = [] then Panic ''platform_get_usable_ranges failed or returned empty'' else
                obind (pmm_place usable runtime_end) (\<lambda>st.
                  obind (dtb_get_memory_ranges m PLATFORM_MAX_RANGES g1) (\<lambda>(ok, mem, g2).
                    obind (if dtb_ptr b \<noteq> 0 then dtb_get_totalsize m g2 else Ret (0, g2)) (\<lambda>(totalsize, g3).
                      let st' = pmm_build b runtime_end totalsize (if ok then mem else []) usable st in
                      Ret (pmm_update_pressure st' (s\<lparr>g_pmm := Some st'\<rparr>), g3))))))"

section \<open>Marking\<close>

text \<open>A manager under construction: its window is laid out and its count is right.\<close>

definition pmm_counts :: "pmm_state \<Rightarrow> bool" where
  "pmm_counts st \<longleftrightarrow> pmm_window st \<and> unat (free_pages st) = card (free_idx st)"

definition same_window :: "pmm_state \<Rightarrow> pmm_state \<Rightarrow> bool" where
  "same_window st st' \<longleftrightarrow> base_pa st' = base_pa st \<and> limit_pa st' = limit_pa st \<and> total_pages st' = total_pages st \<and>
     bitmap_va st' = bitmap_va st \<and> bitmap_bytes st' = bitmap_bytes st \<and> next_hint st' = next_hint st \<and>
     meta_base_pa st' = meta_base_pa st \<and> meta_pages st' = meta_pages st"

lemma card_free_idx: "card (free_idx st) \<le> unat (total_pages st)"
  using card_mono [of "{..<unat (total_pages st)}" "free_idx st"] by (auto simp: free_idx_def)

lemma mark_free_step:
  assumes "pmm_counts st" "i < unat (total_pages st)" "bit_test (bitmap st) i"
  shows "pmm_counts (st\<lparr>bitmap := bit_clear (bitmap st) i, free_pages := free_pages st + 1\<rparr>)"
    "free_idx (st\<lparr>bitmap := bit_clear (bitmap st) i, free_pages := free_pages st + 1\<rparr>) = insert i (free_idx st)"
proof -
  let ?st = "st\<lparr>bitmap := bit_clear (bitmap st) i, free_pages := free_pages st + 1\<rparr>"
  have "bit_test (bit_clear (bitmap st) i) j \<longleftrightarrow> bit_test (bitmap st) j \<and> j \<noteq> i" if "j < unat (total_pages st)" for j
    using that assms by (auto simp: bit_test_bit_clear pmm_counts_def pmm_window_def)
  then show idx: "free_idx ?st = insert i (free_idx st)" using assms(2) by (auto simp: free_idx_def)
  have "i \<notin> free_idx st" using assms(3) by (simp add: free_idx_def)
  then have c: "card (free_idx ?st) = Suc (card (free_idx st))" unfolding idx by simp
  have "card (free_idx ?st) \<le> unat (total_pages st)" using card_free_idx [of ?st] by simp
  then have "unat (free_pages st + 1) = card (free_idx ?st)"
    using assms(1) c unat_less_two_power [of "total_pages st"] by (simp add: pmm_counts_def unat_add_no_wrap)
  then show "pmm_counts ?st" using assms(1) by (simp add: pmm_counts_def pmm_window_def)
qed

lemma mark_free_loop_spec:
  assumes "pmm_counts st" "i + n \<le> unat (total_pages st)"
  shows "pmm_counts (mark_free_loop i n st) \<and> free_idx (mark_free_loop i n st) = free_idx st \<union> {i..<i + n} \<and> same_window st (mark_free_loop i n st)"
  using assms
proof (induction n arbitrary: i st)
  case 0
  then show ?case by (simp add: same_window_def)
next
  case (Suc n)
  define st1 where "st1 = (if bit_test (bitmap st) i then st\<lparr>bitmap := bit_clear (bitmap st) i, free_pages := free_pages st + 1\<rparr> else st)"
  have s1: "pmm_counts st1" "free_idx st1 = insert i (free_idx st)" "same_window st st1"
    using mark_free_step [OF Suc.prems(1), of i] Suc.prems by (auto simp: st1_def same_window_def free_idx_def)
  then have "total_pages st1 = total_pages st" by (simp add: same_window_def)
  then have "pmm_counts (mark_free_loop (Suc i) n st1) \<and> free_idx (mark_free_loop (Suc i) n st1) = free_idx st1 \<union> {Suc i..<Suc i + n} \<and>
      same_window st1 (mark_free_loop (Suc i) n st1)"
    using Suc.prems(2) s1(1) by (intro Suc.IH) simp_all
  moreover have "{i..<i + Suc n} = insert i {Suc i..<Suc i + n}" by auto
  ultimately show ?case using s1(2,3) by (auto simp: same_window_def simp flip: st1_def)
qed

lemma mark_reserved_loop_noop: "\<forall>j\<in>{i..<i + n}. bit_test (bitmap st) j \<Longrightarrow> mark_reserved_loop i n st = st"
  by (induction n arbitrary: i) auto

lemma align_up_4k_id: "page_aligned x \<Longrightarrow> align_up_4k x = x"
proof -
  assume "page_aligned x"
  then obtain k where k: "unat x = 4096 * k" by (auto simp: page_aligned_iff)
  then have "unat x + 4095 < 2 ^ 64" using unat_less_two_power [of x] by simp
  then show ?thesis using k by (simp add: word_unat_eq_iff unat_align_up_4k)
qed

definition free_addrs :: "pmm_state \<Rightarrow> nat set" where
  "free_addrs st = (\<lambda>i. unat (base_pa st) + i * 4096) ` free_idx st"

lemma unat_page_index:
  assumes "b \<le> x"
  shows "unat ((x - b) div PAGE_SIZE) = (unat x - unat b) div 4096"
  using assms by (simp add: unat_div unat_sub)

lemma mark_range_free_spec:
  assumes "pmm_counts st" "range_good r" "r_size r \<noteq> 0" "base_pa st \<le> r_base r" "range_end r \<le> limit_pa st"
  defines "st' \<equiv> bitmap_mark_range_free st (r_base r) (r_base r + r_size r)"
  shows "pmm_counts st' \<and> same_window st st' \<and> free_addrs st' = free_addrs st \<union> {a \<in> rset r. 4096 dvd a}"
proof -
  let ?b = "unat (base_pa st)" and ?B = "unat (r_base r)" and ?E = "unat (r_base r) + unat (r_size r)"
  let ?n = "unat (total_pages st)"
  have w: "4096 dvd ?b" "unat (limit_pa st) = ?b + ?n * 4096" "bitmap_va st \<noteq> NULL"
    using assms(1) by (auto simp: pmm_counts_def pmm_window_def page_aligned_iff)
  have r: "4096 dvd ?B" "4096 dvd ?E" "unat (range_end r) = ?E" "?B < ?E"
    using assms(2,3) by (auto simp: range_good_def page_aligned_iff unat_range_end unat_gt_0)
  have bE: "?b \<le> ?B" "?E \<le> ?b + ?n * 4096" using assms(4,5) r(3) w(2) by (simp_all add: word_le_nat_alt)
  have al: "align_up_4k (r_base r) = r_base r" "align_down_4k (range_end r) = range_end r"
    using assms(2) by (simp_all add: range_good_def align_up_4k_id align_down_4k_id aligned_range_end)
  define f l where "f = (?B - ?b) div 4096" and "l = (?E - ?b) div 4096"
  have fl: "?B = ?b + f * 4096" "?E = ?b + l * 4096" using w(1) r bE(1) by (simp_all add: f_def l_def dvd_diff_nat)
  have rs: "rset r = {?b + f * 4096..<?b + l * 4096}" unfolding rset_def fl(2) unfolding fl(1) ..
  have "range_end r \<noteq> r_base r" "\<not> range_end r \<le> r_base r" "base_pa st \<le> range_end r"
    using r bE by (auto simp: word_le_nat_alt word_unat_eq_iff)
  then have st': "st' = mark_free_loop f (l - f) st"
    using assms(4,5) w(3) al r(3) unfolding st'_def bitmap_mark_range_free_def range_end_def [symmetric]
    by (simp add: Let_def unat_page_index f_def l_def not_less)
  have ln: "f + (l - f) \<le> ?n" "f < l" using fl bE(2) r(4) by simp_all
  have spec: "pmm_counts st' \<and> free_idx st' = free_idx st \<union> {f..<l} \<and> same_window st st'"
    using mark_free_loop_spec [OF assms(1) ln(1)] ln(2) by (simp add: st')
  have "(\<lambda>i. ?b + i * 4096) ` {f..<l} = {a \<in> rset r. 4096 dvd a}"
  proof (intro set_eqI iffI)
    fix a assume "a \<in> {a \<in> rset r. 4096 dvd a}"
    then have a: "?b + f * 4096 \<le> a" "a < ?b + l * 4096" "4096 dvd a" by (simp_all add: rs)
    then have "4096 dvd a - ?b" using w(1) by (simp add: dvd_diff_nat)
    then obtain k where "a - ?b = 4096 * k" by blast
    then have "a = ?b + k * 4096" using a(1) by simp
    then show "a \<in> (\<lambda>i. ?b + i * 4096) ` {f..<l}" using a by auto
  qed (use w(1) in \<open>auto simp: rs\<close>)
  then show ?thesis using spec by (simp add: free_addrs_def same_window_def image_Un)
qed

lemma mark_range_reserved_noop:
  assumes "pmm_counts st" "free_addrs st \<inter> {unat (align_down_4k s)..<unat (align_up_4k e)} = {}"
  shows "bitmap_mark_range_reserved st s e = st"
proof -
  let ?b = "unat (base_pa st)" and ?n = "unat (total_pages st)"
  have w: "4096 dvd ?b" "unat (limit_pa st) = ?b + ?n * 4096"
    using assms(1) by (auto simp: pmm_counts_def pmm_window_def page_aligned_iff)
  define s' where "s' = (if align_down_4k s < base_pa st then base_pa st else align_down_4k s)"
  define e' where "e' = (if limit_pa st < align_up_4k e then limit_pa st else align_up_4k e)"
  show ?thesis
  proof (cases "e' \<le> s'")
    case True
    then show ?thesis by (simp add: bitmap_mark_range_reserved_def Let_def s'_def e'_def)
  next
    case False
    have le1: "base_pa st \<le> s'" by (auto simp: s'_def)
    then have le: "base_pa st \<le> s'" "base_pa st \<le> e'" "e' \<le> limit_pa st" using False by (simp, meson le_cases order_trans) (auto simp: e'_def)
    have al: "4096 dvd unat s'" using w(1) by (simp add: s'_def unat_align_down_4k)
    define f l where "f = (unat s' - ?b) div 4096" and "l = (unat e' - ?b) div 4096"
    have "bit_test (bitmap st) j" if "j \<in> {f..<f + (l - f)}" for j
    proof -
      have j: "f \<le> j" "j < l" using that by auto
      have "unat s' = ?b + f * 4096" using al w(1) le(1) by (simp add: f_def dvd_diff_nat word_le_nat_alt)
      then have lo: "unat s' \<le> ?b + j * 4096" using j by simp
      have "(j + 1) * 4096 \<le> unat e' - ?b" using j(2) unfolding l_def by (simp add: less_eq_div_iff_mult_less_eq Suc_le_eq [symmetric])
      then have hi: "?b + j * 4096 < unat e'" by simp
      have "j < ?n" using hi le(3) w(2) by (simp add: word_le_nat_alt)
      moreover have "unat (align_down_4k s) \<le> unat s'" "unat e' \<le> unat (align_up_4k e)"
        by (auto simp: s'_def e'_def word_less_nat_alt)
      then have "j \<notin> free_idx st" using assms(2) lo hi unfolding free_addrs_def by auto
      ultimately show ?thesis by (simp add: free_idx_def)
    qed
    then have "mark_reserved_loop f (l - f) st = st" by (intro mark_reserved_loop_noop) blast
    then show ?thesis using False le unfolding bitmap_mark_range_reserved_def
      by (simp add: Let_def unat_page_index f_def l_def flip: s'_def e'_def)
  qed
qed

section \<open>The window\<close>

definition usable_list :: "dtb_range list \<Rightarrow> bool" where
  "usable_list rs \<longleftrightarrow> rs \<noteq> [] \<and> (\<forall>r\<in>set rs. range_good r \<and> r_size r \<noteq> 0 \<and> rset r \<subseteq> win)"

lemma usable_range_bounds:
  assumes "range_good r" "r_size r \<noteq> 0" "rset r \<subseteq> win"
  shows "0x40000000 \<le> unat (r_base r)" "unat (range_end r) \<le> 0x80000000" "unat (r_base r) < unat (range_end r)"
proof -
  have e: "unat (range_end r) = unat (r_base r) + unat (r_size r)" "0 < unat (r_size r)"
    using assms(1,2) by (simp_all add: range_good_def unat_range_end unat_gt_0)
  then have "unat (r_base r) \<in> rset r" "unat (r_base r) + unat (r_size r) - 1 \<in> rset r" by (auto simp: rset_def)
  then show "0x40000000 \<le> unat (r_base r)" "unat (range_end r) \<le> 0x80000000" "unat (r_base r) < unat (range_end r)"
    using assms(3) e unfolding win_def win_bounds by force+
qed

definition covers :: "u64 \<times> u64 \<Rightarrow> dtb_range list \<Rightarrow> bool" where
  "covers w rs \<longleftrightarrow> (\<forall>r\<in>set rs. fst w \<le> r_base r \<and> range_end r \<le> snd w) \<and> page_aligned (fst w) \<and> page_aligned (snd w) \<and>
     CAPAZ_RAM_BASE \<le> fst w \<and> snd w \<le> window_end \<and> fst w < snd w"

lemma window_step_covers:
  assumes "range_good r" "r_size r \<noteq> 0" "rset r \<subseteq> win" "rs = [] \<and> w = (0, 0) \<or> rs \<noteq> [] \<and> covers w rs"
  shows "covers (window_step r w) (rs @ [r])"
proof -
  note b = usable_range_bounds [OF assms(1-3)]
  have al: "align_up_4k (r_base r) = r_base r" "align_down_4k (range_end r) = range_end r" "page_aligned (r_base r)" "page_aligned (range_end r)"
    using assms(1) by (simp_all add: range_good_def align_up_4k_id align_down_4k_id aligned_range_end)
  have lt: "r_base r < range_end r" "CAPAZ_RAM_BASE \<le> r_base r" "range_end r \<le> window_end"
    using b win_bounds by (simp_all add: word_less_nat_alt word_le_nat_alt)
  have nle: "\<not> range_end r \<le> r_base r" using lt(1) by (simp add: not_le)
  have st: "window_step r w = (if fst w = 0 \<or> r_base r < fst w then r_base r else fst w, if snd w < range_end r then range_end r else snd w)"
    using al nle unfolding window_step_def range_end_def [symmetric] by (simp add: Let_def)
  show ?thesis
  proof (cases "rs = []")
    case True
    have "0 < range_end r" using lt(1) by (metis le_less_trans word_zero_le)
    then show ?thesis using True assms(4) st lt al by (simp add: covers_def)
  next
    case False
    then have c: "covers w rs" using assms(4) by blast
    then have "fst w \<noteq> 0" by (auto simp: covers_def word_le_nat_alt win_bounds)
    then show ?thesis using c lt al unfolding st covers_def
      by (auto simp: not_less intro: order_trans less_imp_le order.strict_trans order.strict_trans1 order.strict_trans2)
  qed
qed

lemma window_loop_covers:
  assumes "usable_list rs"
  shows "covers (fold window_step rs (0, 0)) rs"
proof -
  have "rs = [] \<or> covers (fold window_step rs (0, 0)) rs" if "\<forall>r\<in>set rs. range_good r \<and> r_size r \<noteq> 0 \<and> rset r \<subseteq> win"
    using that
  proof (induction rs rule: rev_induct)
    case (snoc r rs)
    then have "covers (window_step r (fold window_step rs (0, 0))) (rs @ [r])"
      by (intro window_step_covers) auto
    then show ?case by simp
  qed simp
  then show ?thesis using assms by (auto simp: usable_list_def)
qed

lemma bit_test_full: "i < 8 * n \<Longrightarrow> bit_test (replicate n 0xFF) i"
proof -
  assume "i < 8 * n"
  moreover have full: "(0xFF :: u8) = mask 8" by (simp add: mask_eq_exp_minus_1)
  have "bit (0xFF :: u8) (i mod 8)" unfolding full bit_mask_iff by simp
  ultimately show ?thesis by (simp add: bit_test_iff less_mult_imp_div_less mult.commute)
qed

definition fresh_pmm :: "dtb_range list \<Rightarrow> u64 \<Rightarrow> pmm_state \<Rightarrow> bool" where
  "fresh_pmm rs re st \<longleftrightarrow> pmm_counts st \<and> free_idx st = {} \<and> next_hint st = 0 \<and> unat (meta_base_pa st) = runtime_end_pa re \<and>
     meta_pages st = PMM_METADATA_PAGES \<and> (\<forall>r\<in>set rs. base_pa st \<le> r_base r \<and> range_end r \<le> limit_pa st)"

lemma pmm_place_fresh:
  assumes "usable_list rs" "0x40000000 \<le> runtime_end_pa re" "runtime_end_pa re + 65536 \<le> 0x80000000"
    "unat (pmm_virt_to_phys re) < 2 ^ 63"
  shows "\<exists>st. pmm_place rs re = Ret st \<and> fresh_pmm rs re (bitmap_mark_all_reserved st)"
proof -
  obtain b l where w: "fold window_step rs (0, 0) = (b, l)" by fastforce
  have c: "page_aligned b" "page_aligned l" "CAPAZ_RAM_BASE \<le> b" "l \<le> window_end" "b < l"
    "\<forall>r\<in>set rs. b \<le> r_base r \<and> range_end r \<le> l"
    using window_loop_covers [OF assms(1)] by (simp_all add: w covers_def)
  have bl: "0x40000000 \<le> unat b" "unat l \<le> 0x80000000" "unat b < unat l" "4096 dvd unat b" "4096 dvd unat l"
    using c win_bounds by (simp_all add: word_le_nat_alt word_less_nat_alt page_aligned_iff)
  define mb where "mb = align_up_4k (pmm_virt_to_phys re)"
  have mb: "unat mb = runtime_end_pa re" using assms(4) by (simp add: mb_def unat_align_up_4k runtime_end_pa_def)
  have me: "unat (mb + PMM_METADATA_PAGES * PAGE_SIZE) = runtime_end_pa re + 65536"
    using mb assms(3) by (simp add: PMM_METADATA_PAGES_def PAGE_SIZE_def unat_word_ariths)
  define t where "t = (l - b) div PAGE_SIZE"
  have t: "unat t = (unat l - unat b) div 4096" using c(5) by (simp add: t_def unat_page_index)
  then have tl: "unat l = unat b + unat t * 4096" "unat t \<le> 262144" using bl by (simp_all add: dvd_diff_nat)
  define y where "y = (t + 7) div 8"
  have y: "unat y = (unat t + 7) div 8" using tl(2) by (simp add: y_def unat_div unat_word_ariths)
  have off: "(PMM_STATE_BYTES + 7) AND NOT 7 = 72" by (simp add: PMM_STATE_BYTES_def)
  have room: "\<not> PMM_METADATA_PAGES * PAGE_SIZE < 72 + y"
    using y tl(2) by (simp add: PMM_METADATA_PAGES_def PAGE_SIZE_def word_less_nat_alt unat_word_ariths)
  define st where "st = \<lparr>base_pa = b, limit_pa = l, total_pages = t, free_pages = 0,
             bitmap_va = pmm_phys_to_virt mb + 72, bitmap = [], bitmap_bytes = y,
             next_hint = 0, meta_base_pa = mb, meta_pages = PMM_METADATA_PAGES\<rparr>"
  have "b \<noteq> 0" using bl(1) by auto
  then have "pmm_place rs re = Ret st"
    unfolding pmm_place_def w Let_def mb_def [symmetric] off
    using c room mb me assms(2,3) win_bounds
    by (simp add: st_def t_def y_def align_up_4k_id align_down_4k_id not_less not_le word_le_nat_alt word_less_nat_alt)
  have va: "unat (pmm_phys_to_virt mb + 72) = 0xFFFF800000000000 + runtime_end_pa re + 72"
    using mb assms(2,3) win_bounds by (simp add: unat_word_ariths unat_phys_to_virt word_le_nat_alt)
  then have nn: "bitmap_va st \<noteq> NULL" by (auto simp: st_def)
  let ?st = "bitmap_mark_all_reserved st"
  have f: "free_idx ?st = {}" using nn y by (auto simp: free_idx_def bitmap_mark_all_reserved_def st_def intro!: bit_test_full)
  have "pmm_window ?st" using nn c(1,3) bl tl y by (auto simp: pmm_window_def bitmap_mark_all_reserved_def st_def)
  then have "fresh_pmm rs re ?st" using f nn c(6) mb by (simp add: fresh_pmm_def pmm_counts_def) (simp add: bitmap_mark_all_reserved_def st_def)
  then show ?thesis using \<open>pmm_place rs re = Ret st\<close> by blast
qed

section \<open>The free pages\<close>

lemma free_usable_spec:
  assumes "pmm_counts st" "\<forall>r\<in>set rs. range_good r \<and> r_size r \<noteq> 0 \<and> base_pa st \<le> r_base r \<and> range_end r \<le> limit_pa st"
  defines "st' \<equiv> fold (\<lambda>r st. bitmap_mark_range_free st (r_base r) (r_base r + r_size r)) rs st"
  shows "pmm_counts st' \<and> same_window st st' \<and> free_addrs st' = free_addrs st \<union> {a \<in> rsets rs. 4096 dvd a}"
  using assms(1,2) unfolding st'_def
proof (induction rs arbitrary: st)
  case Nil
  then show ?case by (simp add: same_window_def)
next
  case (Cons r rs)
  define st1 where "st1 = bitmap_mark_range_free st (r_base r) (r_base r + r_size r)"
  have s1: "pmm_counts st1 \<and> same_window st st1 \<and> free_addrs st1 = free_addrs st \<union> {a \<in> rset r. 4096 dvd a}"
    unfolding st1_def using Cons.prems by (intro mark_range_free_spec) auto
  have "base_pa st1 = base_pa st" "limit_pa st1 = limit_pa st" using s1 by (simp_all add: same_window_def)
  then have "pmm_counts (fold (\<lambda>r st. bitmap_mark_range_free st (r_base r) (r_base r + r_size r)) rs st1) \<and>
      same_window st1 (fold (\<lambda>r st. bitmap_mark_range_free st (r_base r) (r_base r + r_size r)) rs st1) \<and>
      free_addrs (fold (\<lambda>r st. bitmap_mark_range_free st (r_base r) (r_base r + r_size r)) rs st1) =
        free_addrs st1 \<union> {a \<in> rsets rs. 4096 dvd a}"
    using Cons.prems s1 by (intro Cons.IH) auto
  then show ?case using s1 by (auto simp: same_window_def simp flip: st1_def)
qed

text \<open>The defensive pass finds nothing to reserve when the free pages avoid the implicit reservations.\<close>

lemma pmm_reserve_implicit_noop:
  assumes "pmm_counts st" "\<forall>a\<in>free_addrs st. a \<in> win \<and> runtime_end_pa re + 65536 \<le> a \<and> a \<notin> dtb_pages b ts"
    "kernel_phys_base b \<le> pmm_virt_to_phys re" "runtime_end_pa re + 65536 \<le> 0x80000000" "unat (pmm_virt_to_phys re) < 2 ^ 63" "dtb_sane b ts"
  shows "pmm_reserve_implicit b re ts lowest st = st"
proof -
  let ?p = "pmm_virt_to_phys re" and ?k = "unat (kernel_phys_base b)"
  have up: "unat (align_up_4k ?p) = runtime_end_pa re" using assms(5) by (simp add: unat_align_up_4k runtime_end_pa_def)
  have below: "bitmap_mark_range_reserved st s e = st" if "unat (align_up_4k e) \<le> runtime_end_pa re + 65536" for s e
    using assms(2) that by (intro mark_range_reserved_noop [OF assms(1)]) force
  have k: "?k \<le> unat ?p" using assms(3) by (simp add: word_le_nat_alt)
  then have "unat (align_up_4k (kernel_phys_base b)) = (?k + 4095) div 4096 * 4096" using assms(5) by (intro unat_align_up_4k) simp
  also have "\<dots> \<le> runtime_end_pa re" unfolding runtime_end_pa_def using k by (intro mult_le_mono div_le_mono) simp_all
  finally have 1: "bitmap_mark_range_reserved st lowest (kernel_phys_base b) = st" by (intro below) simp
  have al: "page_aligned (align_up_4k ?p + PMM_METADATA_PAGES * PAGE_SIZE)"
    by (intro page_aligned_arith) (simp_all add: page_aligned_iff [of 65536] PMM_METADATA_PAGES_def PAGE_SIZE_def)
  have "unat (align_up_4k ?p + PMM_METADATA_PAGES * PAGE_SIZE) = runtime_end_pa re + 65536"
    using up assms(4) by (simp add: PMM_METADATA_PAGES_def PAGE_SIZE_def unat_word_ariths)
  then have 4: "bitmap_mark_range_reserved st (align_up_4k ?p) (align_up_4k ?p + PMM_METADATA_PAGES * PAGE_SIZE) = st"
    using al by (intro below) (simp add: align_up_4k_id)
  have 2: "bitmap_mark_range_reserved st (kernel_phys_base b) (align_up_4k ?p) = st" using up by (intro below) (simp add: align_up_4k_id)
  have 3: "reserve_dtb b ts st = st"
  proof (cases "dtb_ptr b = 0")
    case False
    let ?d = "pmm_virt_to_phys (dtb_ptr b)" and ?z = "dtb_reservation_size b ts"
    have z: "?z \<noteq> 0" "unat (?d + ?z) = unat ?d + unat ?z" "unat ?d + unat ?z + 4095 < 2 ^ 64" "0 < unat ?z"
      using assms(6) False by (simp_all add: dtb_sane_def unat_add_no_wrap unat_gt_0)
    have "bitmap_mark_range_reserved st (align_down_4k ?d) (align_up_4k (?d + ?z)) = st"
    proof (intro mark_range_reserved_noop [OF assms(1)] equals0I)
      fix a assume "a \<in> free_addrs st \<inter> {unat (align_down_4k (align_down_4k ?d))..<unat (align_up_4k (align_up_4k (?d + ?z)))}"
      then have a: "a \<in> free_addrs st" "unat ?d div 4096 * 4096 \<le> a" "a < (unat ?d + unat ?z + 4095) div 4096 * 4096"
        using z(2,3) by (simp_all add: align_down_4k_id align_up_4k_id unat_align_down_4k unat_align_up_4k)
      then have "a \<in> dtb_pages b ts" using assms(2) False z(4) by (simp add: dtb_pages_def pages_of_def page_bounds)
      then show False using a(1) assms(2) by blast
    qed
    then show ?thesis using False by (simp add: reserve_dtb_def Let_def)
  qed (simp add: reserve_dtb_def)
  show ?thesis unfolding pmm_reserve_implicit_def Let_def 1 2 3 4 ..
qed

lemma free_pas_addrs:
  assumes "pmm_window st" "g_pmm s = Some st"
  shows "unat ` free_pas s = free_addrs st"
proof -
  have "unat (page_pa st i) = unat (base_pa st) + i * 4096" if "i \<in> free_idx st" for i
    using that by (intro unat_page_pa [OF assms(1)]) (simp add: free_idx_def)
  then show ?thesis using assms(2) by (auto simp: free_pas_def free_addrs_def image_image)
qed

lemma boot_usable_list:
  assumes "boot_sane b re g" "boot_usable b re g \<noteq> {}"
  obtains out where "usable_of (Some b) re (if dtb_ptr b \<noteq> 0 then g_fdt_totalsize g else 0) (g_mem_ranges g) (g_rsv_ranges g) 64 = Some out"
    "usable_list out" "rsets out = boot_usable b re g"
proof -
  obtain out where out: "usable_of (Some b) re (if dtb_ptr b \<noteq> 0 then g_fdt_totalsize g else 0) (g_mem_ranges g) (g_rsv_ranges g) 64 = Some out"
    "apart out" "aligned_ranges out" "rsets out = boot_usable b re g"
    using assms(1) by (rule boot_usable_of)
  have "rsets out \<subseteq> win" unfolding out(4) by (auto simp: boot_usable_def pages_in_def)
  then have "rset r \<subseteq> win" if "r \<in> set out" for r using that by (auto simp: rsets_def)
  then have "usable_list out" using out assms(2) by (auto simp: usable_list_def range_good_def aligned_ranges_def apart_def)
  then show ?thesis using that out by blast
qed

text \<open>
  C2: With the parsed device tree of a machine whose memory is not all reserved, \<open>pmm_init\<close> returns a
  well-formed allocator whose free pages are exactly the whole pages of the memory ranges that no reserved
  range, no part of the loaded kernel with its metadata, and not the device tree blob touches.
\<close>

theorem pmm_init_free_pages:
  assumes "boot_sane b re g" "boot_usable b re g \<noteq> {}" "0x40000000 \<le> runtime_end_pa re" "runtime_end_pa re + 65536 \<le> 0x80000000"
  shows "\<exists>s'. pmm_init m re (Some b) s g = Ret (s', g) \<and> pmm_ok s' \<and> unat ` free_pas s' = {a \<in> boot_usable b re g. 4096 dvd a}"
proof -
  let ?ts = "if dtb_ptr b \<noteq> 0 then g_fdt_totalsize g else 0"
  obtain out where out: "usable_of (Some b) re ?ts (g_mem_ranges g) (g_rsv_ranges g) 64 = Some out" "usable_list out" "rsets out = boot_usable b re g"
    using boot_usable_list [OF assms(1,2)] .
  have h: "g_parsed g" "kernel_phys_base b \<le> pmm_virt_to_phys re" "unat (pmm_virt_to_phys re) < 2 ^ 63" "dtb_sane b ?ts"
    "0x40000000 \<le> runtime_end_pa re" "runtime_end_pa re + 65536 \<le> 0x80000000"
    "take 64 (g_mem_ranges g) = g_mem_ranges g" "take 64 (g_rsv_ranges g) = g_rsv_ranges g" "dtb_pages b ?ts = dtb_pages b (g_fdt_totalsize g)"
    using assms(1,3,4) by (auto simp: boot_sane_def dtb_sane_def dtb_pages_def)
  have ne: "g_mem_ranges g \<noteq> []" using assms(2) by (auto simp: boot_usable_def)
  obtain st where st: "pmm_place out re = Ret st" "fresh_pmm out re (bitmap_mark_all_reserved st)"
    using pmm_place_fresh [OF out(2) h(5,6,3)] by blast
  define st1 where "st1 = fold (\<lambda>r st. bitmap_mark_range_free st (r_base r) (r_base r + r_size r)) out (bitmap_mark_all_reserved st)"
  have s1: "pmm_counts st1 \<and> same_window (bitmap_mark_all_reserved st) st1 \<and> free_addrs st1 = free_addrs (bitmap_mark_all_reserved st) \<union> {a \<in> rsets out. 4096 dvd a}"
    unfolding st1_def using st(2) out(2) by (intro free_usable_spec) (auto simp: fresh_pmm_def usable_list_def)
  have fa: "free_addrs st1 = {a \<in> boot_usable b re g. 4096 dvd a}"
    using s1 st(2) out(3) by (simp add: free_addrs_def fresh_pmm_def)
  have noop: "pmm_reserve_implicit b re ?ts lo st1 = st1" for lo
    using s1 h(2,3,4,6,9) fa by (intro pmm_reserve_implicit_noop) (auto simp: boot_usable_def pages_in_def)
  define s' where "s' = pmm_update_pressure st1 (s\<lparr>g_pmm := Some st1\<rparr>)"
  have run: "pmm_init m re (Some b) s g = Ret (s', g)"
    using out(1,2) st(1) ne h(7,8) parsed_results [OF h(1)] noop
    by (cases "dtb_ptr b = 0") (simp_all add: pmm_init_def platform_get_usable_ranges_def PLATFORM_MAX_RANGES_def usable_list_def pmm_build_def Let_def s'_def flip: st1_def)
  have win: "pmm_window st1" using s1 by (simp add: pmm_counts_def)
  have meta: "unat (meta_base_pa st1) = runtime_end_pa re" "meta_pages st1 = PMM_METADATA_PAGES" "next_hint st1 = 0"
    using s1 st(2) by (simp_all add: fresh_pmm_def same_window_def)
  have "\<not> in_meta st1 (page_pa st1 i)" if "i \<in> free_idx st1" for i
  proof -
    have a: "unat (page_pa st1 i) \<in> free_addrs st1" using that unat_page_pa [OF win, of i] by (simp add: free_addrs_def free_idx_def)
    have "unat (meta_base_pa st1 + meta_pages st1 * PAGE_SIZE) = runtime_end_pa re + 65536"
      using meta h(6) by (simp add: PMM_METADATA_PAGES_def PAGE_SIZE_def unat_word_ariths)
    then show ?thesis using a unfolding fa in_meta_def by (auto simp: boot_usable_def word_less_nat_alt)
  qed
  then have "pmm_wf st1" using s1 win meta(3) by (simp add: pmm_wf_def pmm_counts_def)
  then have "pmm_ok s'" by (simp add: pmm_ok_def s'_def)
  moreover have "unat ` free_pas s' = {a \<in> boot_usable b re g. 4096 dvd a}"
    using free_pas_addrs [OF win, of s'] fa by (simp add: s'_def)
  ultimately show ?thesis using run by blast
qed

theorem pmm_init_free_pages_witness:
  "\<exists>s'. pmm_init (\<lambda>_. 0) 0xFFFF800040300010 (Some ex_boot) example_pmm ex_dtb = Ret (s', ex_dtb) \<and> pmm_ok s' \<and>
    0x40311000 \<in> unat ` free_pas s' \<and> 0x40310000 \<notin> unat ` free_pas s' \<and> 0x42000000 \<notin> unat ` free_pas s'"
proof -
  have re: "runtime_end_pa 0xFFFF800040300010 = 0x40301000" by (simp add: runtime_end_pa_def pmm_virt_to_phys_def kaddr_config)
  have u: "0x40311000 \<in> boot_usable ex_boot 0xFFFF800040300010 ex_dtb" "0x40310000 \<notin> boot_usable ex_boot 0xFFFF800040300010 ex_dtb"
    "0x42000000 \<notin> boot_usable ex_boot 0xFFFF800040300010 ex_dtb"
    by (simp_all add: boot_usable_def re ex_dtb_def ex_boot_def dtb_pages_def dtb_reservation_size_def pages_of_def pages_in_def
        rset_def win_def win_bounds pmm_virt_to_phys_def kaddr_config)
  then have "boot_usable ex_boot 0xFFFF800040300010 ex_dtb \<noteq> {}" by blast
  from pmm_init_free_pages [OF ex_boot_sane this, of "\<lambda>_. 0" example_pmm]
  show ?thesis unfolding re using u by auto
qed

end
