(* ===== verification/Mmu.thy ===== *)
theory Mmu
  imports Platform
begin

unbundle bit_operations_syntax

text \<open>
  The kernel's page tables (\<open>Kern/Kernel/mm/mmu.c\<close>). Table memory is a function from the virtual address of
  a 64-bit word to its contents; the tables of the source are page-aligned arrays at addresses the linker
  chooses (\<open>mmu_syms\<close>), so a lookup follows descriptors through memory as the source does. The wait loops
  on an exhausted pool are the outcome \<open>Hang\<close>. The system registers the setup programs are part of the state.
\<close>

section \<open>State\<close>

record mmu_syms =
  l0_table :: u64
  l1_table :: u64
  l2_tables :: u64
  l3_pool :: u64
  kernel_vectors :: u64
  text_start :: u64
  text_end :: u64
  rodata_start :: u64
  rodata_end :: u64
  data_start :: u64
  data_end :: u64
  bss_start :: u64
  bss_end :: u64
  core_text_start :: u64
  core_text_end :: u64
  core_rodata_start :: u64
  core_rodata_end :: u64
  core_data_start :: u64
  core_data_end :: u64
  core_bss_start :: u64
  core_bss_end :: u64
  kernel_image_start :: u64
  kernel_runtime_end :: u64

record mmu_globals =
  pt :: "u64 \<Rightarrow> u64"
  l2_tables_used :: u32
  l2_for_l1 :: "nat \<Rightarrow> u64"
  l3_pool_used :: u64
  alloc_phys :: u64
  alloc_virt :: u64
  sp_reg :: u64
  vbar_el1 :: u64
  ttbr0_el1 :: u64
  ttbr1_el1 :: u64
  mair_el1 :: u64
  tcr_el1 :: u64
  sctlr_el1 :: u64

definition tw :: "u64 \<Rightarrow> nat \<Rightarrow> u64" where
  "tw t i = t + 8 * of_nat i"

definition RAM_BLOCK_SIZE :: u64 where
  "RAM_BLOCK_SIZE = 0x200000"

definition L1_BLOCK_SIZE :: u64 where
  "L1_BLOCK_SIZE = 0x40000000"

definition MAX_L2_TABLES :: u32 where
  "MAX_L2_TABLES = 128"

definition L3_POOL_TABLES :: u64 where
  "L3_POOL_TABLES = 64"

definition align_down_2m :: "u64 \<Rightarrow> u64" where
  "align_down_2m x = x AND NOT (RAM_BLOCK_SIZE - 1)"

definition align_up_2m :: "u64 \<Rightarrow> u64" where
  "align_up_2m x = (x + (RAM_BLOCK_SIZE - 1)) AND NOT (RAM_BLOCK_SIZE - 1)"

definition mmu_pa_to_va :: "u64 \<Rightarrow> u64" where
  "mmu_pa_to_va pa = CAPAZ_HH_RAM_BASE + (pa - CAPAZ_RAM_BASE)"

definition virt_to_phys :: "u64 \<Rightarrow> u64" where
  "virt_to_phys va = (if CAPAZ_HH_RAM_BASE \<le> va then (va - CAPAZ_HH_RAM_BASE) + CAPAZ_RAM_BASE else va)"

definition DESC_TABLE :: u64 where "DESC_TABLE = 3"
definition DESC_BLOCK :: u64 where "DESC_BLOCK = 1"
definition DESC_PAGE :: u64 where "DESC_PAGE = 3"
definition ATTRINDX_NORMAL :: u64 where "ATTRINDX_NORMAL = push_bit 2 0"
definition ATTRINDX_DEVICE :: u64 where "ATTRINDX_DEVICE = push_bit 2 1"
definition SH_INNER :: u64 where "SH_INNER = push_bit 8 3"
definition SH_NON :: u64 where "SH_NON = push_bit 8 0"
definition AF :: u64 where "AF = push_bit 10 1"
definition XN_BITS :: u64 where "XN_BITS = push_bit 53 1 OR push_bit 54 1"
definition AP_MASK :: u64 where "AP_MASK = push_bit 6 3"
definition AP_RO_EL1 :: u64 where "AP_RO_EL1 = push_bit 6 2"
definition AP_RW_EL1 :: u64 where "AP_RW_EL1 = push_bit 6 0"
definition MAIR_DEFAULT :: u64 where "MAIR_DEFAULT = 0x04FF"
definition TCR_BOOT :: u64 where "TCR_BOOT = 0xB5103510"

section \<open>Lookup and self test\<close>

definition desc_type :: "u64 \<Rightarrow> u64" where
  "desc_type d = d AND 3"

definition desc_addr :: "u64 \<Rightarrow> u64" where
  "desc_addr d = d AND 0x0000FFFFFFFFF000"

definition table_index :: "u64 \<Rightarrow> nat \<Rightarrow> nat" where
  "table_index va shift = unat (drop_bit shift va AND 0x1FF)"

definition mmu_lookup_desc :: "mmu_syms \<Rightarrow> (u64 \<Rightarrow> u64) \<Rightarrow> u64 \<Rightarrow> u64" where
  "mmu_lookup_desc y m va =
     (let d0 = m (tw (l0_table y) (table_index va 39)) in
      if d0 = 0 then 0 else
      if desc_type d0 \<noteq> DESC_TABLE then d0 else
      let d1 = m (tw (mmu_pa_to_va (desc_addr d0)) (table_index va 30)) in
      if d1 = 0 then 0 else
      if desc_type d1 = DESC_BLOCK then d1 else
      if desc_type d1 \<noteq> DESC_TABLE then 0 else
      let d2 = m (tw (mmu_pa_to_va (desc_addr d1)) (table_index va 21)) in
      if d2 = 0 then 0 else
      if desc_type d2 = DESC_BLOCK then d2 else
      if desc_type d2 \<noteq> DESC_TABLE then 0 else
      m (tw (mmu_pa_to_va (desc_addr d2)) (table_index va 12)))"

definition desc_device :: "u64 \<Rightarrow> bool" where
  "desc_device d \<longleftrightarrow> drop_bit 2 d AND 7 = drop_bit 2 ATTRINDX_DEVICE"

definition desc_ro :: "u64 \<Rightarrow> bool" where
  "desc_ro d \<longleftrightarrow> drop_bit 6 d AND 3 = 2"

definition desc_exec :: "u64 \<Rightarrow> bool" where
  "desc_exec d \<longleftrightarrow> \<not> (drop_bit 53 d AND 1 \<noteq> 0 \<or> drop_bit 54 d AND 1 \<noteq> 0)"

definition mmu_expect_page :: "mmu_syms \<Rightarrow> u64 \<Rightarrow> bool \<Rightarrow> bool \<Rightarrow> bool \<Rightarrow> mmu_globals \<Rightarrow> mmu_globals outcome" where
  "mmu_expect_page y va expect_exec expect_ro expect_device g =
     (let d = mmu_lookup_desc y (pt g) va in
      if d = 0 then Panic ''mmu: selftest missing mapping'' else
      if \<not> (desc_type d = DESC_BLOCK \<or> desc_type d = DESC_PAGE) then Panic ''mmu: selftest unexpected desc type'' else
      if expect_device \<noteq> desc_device d then Panic ''mmu: selftest AttrIndx mismatch'' else
      if expect_ro \<noteq> desc_ro d then Panic ''mmu: selftest AP mismatch'' else
      if expect_exec \<noteq> desc_exec d then Panic ''mmu: selftest XN mismatch'' else Ret g)"

text \<open>The layout checks stop at the first violated condition; the optional core sections are empty when start and end agree.\<close>

definition mmu_check :: "bool \<Rightarrow> string \<Rightarrow> mmu_globals \<Rightarrow> mmu_globals outcome" where
  "mmu_check c msg g = (if c then Ret g else Panic msg)"

definition core_text :: "mmu_syms \<Rightarrow> bool" where "core_text y \<longleftrightarrow> core_text_start y \<noteq> core_text_end y"
definition core_rodata :: "mmu_syms \<Rightarrow> bool" where "core_rodata y \<longleftrightarrow> core_rodata_start y \<noteq> core_rodata_end y"
definition core_data :: "mmu_syms \<Rightarrow> bool" where "core_data y \<longleftrightarrow> core_data_start y \<noteq> core_data_end y"
definition core_bss :: "mmu_syms \<Rightarrow> bool" where "core_bss y \<longleftrightarrow> core_bss_start y \<noteq> core_bss_end y"

definition layout_checks :: "mmu_syms \<Rightarrow> (bool \<times> string) list" where
  "layout_checks y =
     (let after_text = (if core_text y then core_text_end y else rodata_end y);
          after_rodata = (if core_rodata y then core_rodata_end y else after_text);
          after_data = (if core_data y then core_data_end y else data_end y) in
      [(text_start y < text_end y, ''mmu: bad text range''),
       (rodata_start y < rodata_end y, ''mmu: bad rodata range''),
       (data_start y < data_end y, ''mmu: bad data range''),
       (bss_start y < bss_end y, ''mmu: bad bss range''),
       (core_text y \<longrightarrow> core_text_start y < core_text_end y, ''mmu: bad core text range''),
       (core_rodata y \<longrightarrow> core_rodata_start y < core_rodata_end y, ''mmu: bad core rodata range''),
       (core_data y \<longrightarrow> core_data_start y < core_data_end y, ''mmu: bad core data range''),
       (core_bss y \<longrightarrow> core_bss_start y < core_bss_end y, ''mmu: bad core bss range''),
       (text_end y \<le> rodata_start y, ''mmu: segments overlap (text/rodata)''),
       (core_text y \<longrightarrow> rodata_end y \<le> core_text_start y, ''mmu: segments overlap (rodata/core_text)''),
       (core_rodata y \<longrightarrow> after_text \<le> core_rodata_start y, ''mmu: segments overlap (core_text/core_rodata)''),
       (after_rodata \<le> data_start y, ''mmu: segments overlap (core_rodata/data)''),
       (core_data y \<longrightarrow> data_end y \<le> core_data_start y, ''mmu: segments overlap (data/core_data)''),
       (after_data \<le> bss_start y, ''mmu: segments overlap (core_data/bss)''),
       (core_bss y \<longrightarrow> bss_end y \<le> core_bss_start y, ''mmu: segments overlap (bss/core_bss)'')])"

definition permission_checks :: "mmu_syms \<Rightarrow> (u64 \<times> bool \<times> bool \<times> bool) list" where
  "permission_checks y =
     [(text_start y, True, True, False), (rodata_start y, False, True, False),
      (data_start y, False, False, False), (bss_start y, False, False, False)] @
     (if core_text y then [(core_text_start y, True, True, False)] else []) @
     (if core_rodata y then [(core_rodata_start y, False, True, False)] else []) @
     (if core_data y then [(core_data_start y, False, False, False)] else []) @
     (if core_bss y then [(core_bss_start y, False, False, False)] else []) @
     [(0xFFFF800000000000 + 0x0000000009000000, False, False, True)]"

fun run_checks :: "(bool \<times> string) list \<Rightarrow> mmu_globals \<Rightarrow> mmu_globals outcome" where
  "run_checks [] g = Ret g"
| "run_checks ((c, msg) # cs) g = obind (mmu_check c msg g) (run_checks cs)"

fun run_expects :: "mmu_syms \<Rightarrow> (u64 \<times> bool \<times> bool \<times> bool) list \<Rightarrow> mmu_globals \<Rightarrow> mmu_globals outcome" where
  "run_expects y [] g = Ret g"
| "run_expects y ((va, x, ro, dev) # es) g = obind (mmu_expect_page y va x ro dev g) (run_expects y es)"

definition mmu_assert_layout_and_wx :: "mmu_syms \<Rightarrow> mmu_globals \<Rightarrow> mmu_globals outcome" where
  "mmu_assert_layout_and_wx y g = obind (run_checks (layout_checks y) g) (run_expects y (permission_checks y))"

section \<open>Table pools\<close>

fun table_zero :: "u64 \<Rightarrow> nat \<Rightarrow> nat \<Rightarrow> (u64 \<Rightarrow> u64) \<Rightarrow> (u64 \<Rightarrow> u64)" where
  "table_zero t i 0 m = m"
| "table_zero t i (Suc k) m = table_zero t (Suc i) k (m(tw t i := 0))"

definition alloc_l3 :: "mmu_syms \<Rightarrow> mmu_globals \<Rightarrow> (u64 \<times> mmu_globals) outcome" where
  "alloc_l3 y g =
     (if L3_POOL_TABLES \<le> l3_pool_used g then Hang
      else let tbl = l3_pool y + 4096 * l3_pool_used g in
           Ret (tbl, g\<lparr>l3_pool_used := l3_pool_used g + 1, pt := table_zero tbl 0 512 (pt g)\<rparr>))"

definition alloc_l2 :: "mmu_syms \<Rightarrow> mmu_globals \<Rightarrow> (u64 \<times> mmu_globals) outcome" where
  "alloc_l2 y g =
     (if MAX_L2_TABLES \<le> l2_tables_used g then Hang
      else let tbl = l2_tables y + 4096 * ucast (l2_tables_used g) in
           Ret (tbl, g\<lparr>l2_tables_used := l2_tables_used g + 1, pt := table_zero tbl 0 512 (pt g)\<rparr>))"

definition get_l2_for_l1 :: "mmu_syms \<Rightarrow> u64 \<Rightarrow> nat \<Rightarrow> mmu_globals \<Rightarrow> (u64 \<times> mmu_globals) outcome" where
  "get_l2_for_l1 y l1 l1_index g =
     (if l2_for_l1 g l1_index = 0
      then obind (alloc_l2 y g) (\<lambda>(tbl, g1).
             Ret (tbl, g1\<lparr>l2_for_l1 := (l2_for_l1 g1)(l1_index := tbl),
                          pt := (pt g1)(tw l1 l1_index := virt_to_phys tbl OR DESC_TABLE)\<rparr>))
      else Ret (l2_for_l1 g l1_index, g))"

definition page_alloc_init :: "mmu_syms \<Rightarrow> mmu_globals \<Rightarrow> mmu_globals" where
  "page_alloc_init y g =
     (let end_pa = virt_to_phys (kernel_runtime_end y);
          ap = ((end_pa + 0xFFF) AND NOT 0xFFF) + PMM_METADATA_PAGES * 0x1000 in
      g\<lparr>alloc_phys := ap, alloc_virt := CAPAZ_HH_RAM_BASE + (ap - CAPAZ_RAM_BASE)\<rparr>)"

section \<open>Descriptors\<close>

definition in_segment :: "u64 \<Rightarrow> u64 \<Rightarrow> u64 \<Rightarrow> bool" where
  "in_segment start stop pa \<longleftrightarrow> virt_to_phys start \<le> pa \<and> pa < virt_to_phys stop"

definition make_ro :: "u64 \<Rightarrow> u64" where
  "make_ro d = d AND NOT AP_MASK OR AP_RO_EL1"

definition page_desc :: "mmu_syms \<Rightarrow> u64 \<Rightarrow> u64" where
  "page_desc y pa4 =
     (let d = pa4 OR ATTRINDX_NORMAL OR SH_INNER OR AF OR AP_RW_EL1 OR XN_BITS;
          d' = (if pa4 = virt_to_phys (kernel_vectors y) AND NOT 0xFFF then make_ro (d AND NOT XN_BITS)
                else if in_segment (text_start y) (text_end y) pa4 then make_ro (d AND NOT XN_BITS)
                else if in_segment (rodata_start y) (rodata_end y) pa4 then make_ro d
                else if in_segment (core_text_start y) (core_text_end y) pa4 then make_ro (d AND NOT XN_BITS)
                else if in_segment (core_rodata_start y) (core_rodata_end y) pa4 then make_ro d
                else d) in
      d' OR DESC_PAGE)"

definition block_desc :: "u64 \<Rightarrow> u64" where
  "block_desc pa = pa OR ATTRINDX_NORMAL OR SH_INNER OR AF OR AP_RW_EL1 OR XN_BITS OR DESC_BLOCK"

definition dev_desc :: u64 where
  "dev_desc = 0 OR ATTRINDX_DEVICE OR SH_NON OR AF OR XN_BITS OR DESC_BLOCK"

definition overlaps_kernel :: "mmu_syms \<Rightarrow> u64 \<Rightarrow> bool" where
  "overlaps_kernel y pa \<longleftrightarrow>
     \<not> (pa + RAM_BLOCK_SIZE \<le> virt_to_phys (kernel_image_start y) \<or> virt_to_phys (kernel_runtime_end y) \<le> pa)"

section \<open>Building the tables\<close>

fun l3_fill :: "mmu_syms \<Rightarrow> u64 \<Rightarrow> nat \<Rightarrow> nat \<Rightarrow> u64 \<Rightarrow> (u64 \<Rightarrow> u64) \<Rightarrow> (u64 \<Rightarrow> u64)" where
  "l3_fill y l3 p 0 pa4 m = m"
| "l3_fill y l3 p (Suc k) pa4 m = l3_fill y l3 (Suc p) k (pa4 + 0x1000) (m(tw l3 p := page_desc y pa4))"

definition map_block :: "mmu_syms \<Rightarrow> u64 \<Rightarrow> mmu_globals \<Rightarrow> mmu_globals outcome" where
  "map_block y pa g =
     (let l1_index = unat (drop_bit 30 pa) in
      if l1_index = 0 \<or> 512 \<le> l1_index then Ret g else
      obind (get_l2_for_l1 y (l1_table y) l1_index g) (\<lambda>(l2, g1).
        let l2_index = unat ((pa AND (L1_BLOCK_SIZE - 1)) div RAM_BLOCK_SIZE) in
        if overlaps_kernel y pa
        then obind (alloc_l3 y g1) (\<lambda>(l3, g2).
               Ret (g2\<lparr>pt := (l3_fill y l3 0 512 pa (pt g2))(tw l2 l2_index := virt_to_phys l3 OR DESC_TABLE)\<rparr>))
        else Ret (g1\<lparr>pt := (pt g1)(tw l2 l2_index := block_desc pa)\<rparr>)))"

text \<open>
  The block addresses a memory range is mapped with, in the order of the loop: from the range's start
  rounded down to its end rounded up. Both bounds are multiples of the block size, so the loop
  ends exactly at the rounded end.
\<close>

definition range_blocks :: "dtb_range \<Rightarrow> u64 list" where
  "range_blocks r =
     (let range_start = r_base r; stop = r_base r + r_size r in
      if stop \<le> CAPAZ_RAM_BASE then [] else
      let start = (if range_start < CAPAZ_RAM_BASE then CAPAZ_RAM_BASE else range_start);
          pa = align_down_2m start; pa_end = align_up_2m stop in
      if pa < pa_end then map (\<lambda>k. pa + of_nat k * RAM_BLOCK_SIZE) [0..<unat ((pa_end - pa) div RAM_BLOCK_SIZE)] else [])"

fun map_blocks :: "mmu_syms \<Rightarrow> u64 list \<Rightarrow> mmu_globals \<Rightarrow> mmu_globals outcome" where
  "map_blocks y [] g = Ret g"
| "map_blocks y (pa # pas) g = obind (map_block y pa g) (map_blocks y pas)"

definition MMU_MAX_MEMORY_RANGES :: nat where
  "MMU_MAX_MEMORY_RANGES = 64"

definition ram_ranges :: "bool \<Rightarrow> dtb_range list \<Rightarrow> dtb_range list" where
  "ram_ranges have_ranges rs =
     (if \<not> have_ranges \<or> rs = [] then [\<lparr>r_base = CAPAZ_RAM_BASE, r_size = CAPAZ_RAM_DIRECTMAP_SIZE\<rparr>] else rs)"

definition mmu_tables_init :: "mmu_syms \<Rightarrow> mmu_globals \<Rightarrow> mmu_globals" where
  "mmu_tables_init y g =
     g\<lparr>l2_tables_used := 0, l2_for_l1 := (\<lambda>i. if i < 512 then 0 else l2_for_l1 g i),
       pt := (pt g)(tw (l0_table y) 256 := virt_to_phys (l1_table y) OR DESC_TABLE, tw (l1_table y) 0 := dev_desc)\<rparr>"

text \<open>The assembly block: switch the stack, install the tables and enable translation with write-execute protection.\<close>

definition mmu_install :: "mmu_syms \<Rightarrow> mmu_globals \<Rightarrow> mmu_globals" where
  "mmu_install y g =
     g\<lparr>sp_reg := CAPAZ_HH_RAM_BASE + (virt_to_phys (sp_reg g) - CAPAZ_RAM_BASE), vbar_el1 := kernel_vectors y,
       ttbr0_el1 := 0, ttbr1_el1 := virt_to_phys (l0_table y), mair_el1 := MAIR_DEFAULT, tcr_el1 := TCR_BOOT OR push_bit 7 1,
       sctlr_el1 := sctlr_el1 g OR 1 OR push_bit 2 1 OR push_bit 12 1 OR push_bit 19 1\<rparr>"

definition mmu_init :: "mem \<Rightarrow> mmu_syms \<Rightarrow> mmu_globals \<Rightarrow> dtb_globals \<Rightarrow> (mmu_globals \<times> dtb_globals) outcome" where
  "mmu_init m y g dg =
     (let g1 = mmu_tables_init y (page_alloc_init y g) in
      obind (dtb_get_memory_ranges m MMU_MAX_MEMORY_RANGES dg) (\<lambda>(have_ranges, rs, dg').
        obind (map_blocks y (concat (map range_blocks (ram_ranges have_ranges rs))) g1) (\<lambda>g2.
          obind (mmu_assert_layout_and_wx y (mmu_install y g2)) (\<lambda>g3. Ret (g3, dg')))))"

end
