(* ===== verification/Mmu_Props.thy ===== *)
theory Mmu_Props
  imports Mmu
begin

unbundle bit_operations_syntax

text \<open>Facts about the page tables: what a lookup returns after \<open>mmu_init\<close>, and with which permissions.\<close>

section \<open>Descriptor bits\<close>

definition frame_bits :: "u64 \<Rightarrow> bool" where
  "frame_bits pa \<longleftrightarrow> pa AND 0xFFFF000000000FFF = 0"

lemma or_and_drop:
  fixes pa c k :: "'a::len word"
  assumes "pa AND k = 0"
  shows "(pa OR c) AND k = c AND k"
  by (simp add: bit.conj_disj_distrib2 assms)

lemma or_and_keep:
  fixes pa c k :: "'a::len word"
  assumes "pa AND NOT k = 0"
  shows "(pa OR c) AND k = pa OR (c AND k)"
proof -
  have "pa = (pa AND k) OR (pa AND NOT k)" by (simp add: bit.conj_disj_distrib [symmetric])
  then have "pa AND k = pa" using assms by simp
  then show ?thesis by (simp add: bit.conj_disj_distrib2)
qed

lemma frame_and:
  assumes "frame_bits pa" "k AND 0xFFFF000000000FFF = k"
  shows "pa AND k = 0"
proof -
  have "pa AND k = (pa AND 0xFFFF000000000FFF) AND k" using assms(2) by (metis and.assoc and.commute)
  then show ?thesis using assms(1) by (simp add: frame_bits_def)
qed

lemma drop_bit_and:
  fixes d m :: "'a::len word"
  shows "drop_bit n d AND m = drop_bit n (d AND push_bit n m)"
  by (rule bit_word_eqI) (auto simp: bit_simps dest: bit_imp_le_length)

lemma frame_desc_fields:
  assumes "frame_bits pa"
  shows "desc_type (pa OR c) = desc_type c" "desc_device (pa OR c) = desc_device c" "desc_ro (pa OR c) = desc_ro c"
    "desc_exec (pa OR c) = desc_exec c" "desc_addr (pa OR c) = pa OR desc_addr c"
proof -
  have drop: "(pa OR c) AND k = c AND k" if "k AND 0xFFFF000000000FFF = k" for k
    using frame_and [OF assms that] by (rule or_and_drop)
  show "desc_type (pa OR c) = desc_type c" by (simp add: desc_type_def drop)
  show "desc_device (pa OR c) = desc_device c" "desc_ro (pa OR c) = desc_ro c" "desc_exec (pa OR c) = desc_exec c"
    by (simp_all only: desc_device_def desc_ro_def desc_exec_def drop_bit_and) (simp_all add: drop)
  have "pa AND NOT 0x0000FFFFFFFFF000 = 0" by (rule frame_and [OF assms]) simp
  then show "desc_addr (pa OR c) = pa OR desc_addr c" unfolding desc_addr_def by (rule or_and_keep)
qed

text \<open>Every leaf descriptor is the frame address and one of four attribute words.\<close>

definition page_attr :: "mmu_syms \<Rightarrow> u64 \<Rightarrow> u64" where
  "page_attr y pa4 =
     (if pa4 = virt_to_phys (kernel_vectors y) AND NOT 0xFFF \<or> in_segment (text_start y) (text_end y) pa4 then 0x783
      else if in_segment (rodata_start y) (rodata_end y) pa4 then 0x60000000000783
      else if in_segment (core_text_start y) (core_text_end y) pa4 then 0x783
      else if in_segment (core_rodata_start y) (core_rodata_end y) pa4 then 0x60000000000783
      else 0x60000000000703)"

lemmas desc_consts = DESC_TABLE_def DESC_BLOCK_def DESC_PAGE_def ATTRINDX_NORMAL_def ATTRINDX_DEVICE_def SH_INNER_def SH_NON_def
  AF_def XN_BITS_def AP_MASK_def AP_RO_EL1_def AP_RW_EL1_def

lemma page_desc_eq:
  assumes "frame_bits pa"
  shows "page_desc y pa = pa OR page_attr y pa"
proof -
  have keep: "(pa OR c) AND k = pa OR (c AND k)" if "NOT k AND 0xFFFF000000000FFF = NOT k" for c k
    using frame_and [OF assms that] by (rule or_and_keep)
  define d where "d = pa OR ATTRINDX_NORMAL OR SH_INNER OR AF OR AP_RW_EL1 OR XN_BITS"
  define vec where "vec \<longleftrightarrow> pa = virt_to_phys (kernel_vectors y) AND NOT 0xFFF"
  have d: "d = pa OR 0x60000000000700" unfolding d_def or.assoc by (simp add: desc_consts)
  have nx: "d AND NOT XN_BITS = pa OR 0x700" unfolding d by (subst keep) (simp_all add: desc_consts)
  have ro: "make_ro (pa OR c) = pa OR (c AND NOT AP_MASK OR AP_RO_EL1)" for c
    unfolding make_ro_def by (subst keep) (simp_all add: desc_consts or.assoc)
  have "make_ro (d AND NOT XN_BITS) OR DESC_PAGE = pa OR 0x783" "make_ro d OR DESC_PAGE = pa OR 0x60000000000783" "d OR DESC_PAGE = pa OR 0x60000000000703"
    unfolding nx ro unfolding d ro or.assoc by (simp_all add: desc_consts)
  then show ?thesis
    unfolding page_desc_def page_attr_def Let_def d_def [symmetric] vec_def [symmetric] by simp
qed

lemma block_desc_eq: "block_desc pa = pa OR 0x60000000000701"
  unfolding block_desc_def or.assoc by (simp add: desc_consts)

lemma attr_fields:
  "desc_type (0x783::u64) = 3" "desc_type (0x60000000000783::u64) = 3" "desc_type (0x60000000000703::u64) = 3" "desc_type (0x60000000000701::u64) = 1"
  "desc_ro 0x783" "desc_ro 0x60000000000783" "\<not> desc_ro 0x60000000000703" "\<not> desc_ro 0x60000000000701"
  "desc_exec 0x783" "\<not> desc_exec 0x60000000000783" "\<not> desc_exec 0x60000000000703" "\<not> desc_exec 0x60000000000701"
  "\<not> desc_device 0x783" "\<not> desc_device 0x60000000000783" "\<not> desc_device 0x60000000000703" "\<not> desc_device 0x60000000000701"
  "desc_addr 0x783 = 0" "desc_addr 0x60000000000783 = 0" "desc_addr 0x60000000000703 = 0" "desc_addr 0x60000000000701 = 0"
  by (simp_all add: desc_type_def desc_ro_def desc_exec_def desc_device_def desc_addr_def ATTRINDX_DEVICE_def)

lemma dev_desc_fields:
  "dev_desc \<noteq> 0" "desc_type dev_desc = 1" "\<not> desc_ro dev_desc" "\<not> desc_exec dev_desc" "desc_device dev_desc" "desc_addr dev_desc = 0"
  by (simp_all add: dev_desc_def desc_consts desc_type_def desc_ro_def desc_exec_def desc_device_def desc_addr_def)

section \<open>Table addresses\<close>

datatype tbl = L0 | L1 | L2 nat | L3 nat

primrec taddr :: "mmu_syms \<Rightarrow> tbl \<Rightarrow> u64" where
  "taddr y L0 = l0_table y"
| "taddr y L1 = l1_table y"
| "taddr y (L2 k) = l2_tables y + 4096 * of_nat k"
| "taddr y (L3 k) = l3_pool y + 4096 * of_nat k"

primrec tvalid :: "tbl \<Rightarrow> bool" where
  "tvalid L0 \<longleftrightarrow> True"
| "tvalid L1 \<longleftrightarrow> True"
| "tvalid (L2 k) \<longleftrightarrow> k < 128"
| "tvalid (L3 k) \<longleftrightarrow> k < 64"

definition apart_spans :: "u64 \<Rightarrow> nat \<Rightarrow> u64 \<Rightarrow> nat \<Rightarrow> bool" where
  "apart_spans a n b m \<longleftrightarrow> unat a + n * 4096 \<le> unat b \<or> unat b + m * 4096 \<le> unat a"

definition table_span :: "u64 \<Rightarrow> nat \<Rightarrow> bool" where
  "table_span a n \<longleftrightarrow> page_aligned a \<and> 0xFFFF800040000000 \<le> unat a \<and> unat a + n * 4096 \<le> 0xFFFF800080000000"

definition tables_placed :: "mmu_syms \<Rightarrow> bool" where
  "tables_placed y \<longleftrightarrow>
     table_span (l0_table y) 1 \<and> table_span (l1_table y) 1 \<and> table_span (l2_tables y) 128 \<and> table_span (l3_pool y) 64 \<and>
     apart_spans (l0_table y) 1 (l1_table y) 1 \<and> apart_spans (l0_table y) 1 (l2_tables y) 128 \<and> apart_spans (l0_table y) 1 (l3_pool y) 64 \<and>
     apart_spans (l1_table y) 1 (l2_tables y) 128 \<and> apart_spans (l1_table y) 1 (l3_pool y) 64 \<and> apart_spans (l2_tables y) 128 (l3_pool y) 64"

lemma unat_span_elem:
  assumes "table_span a n" "k < n"
  shows "unat (a + 4096 * of_nat k) = unat a + 4096 * k"
proof -
  have "k * 4096 < n * 4096" using assms(2) by simp
  then have "unat a + k * 4096 < 0xFFFF800080000000" using assms(1) by (simp add: table_span_def)
  then show ?thesis by (simp add: unat_word_ariths unat_of_nat)
qed

primrec tpos :: "mmu_syms \<Rightarrow> tbl \<Rightarrow> nat" where
  "tpos y L0 = unat (l0_table y)"
| "tpos y L1 = unat (l1_table y)"
| "tpos y (L2 k) = unat (l2_tables y) + 4096 * k"
| "tpos y (L3 k) = unat (l3_pool y) + 4096 * k"

lemma unat_taddr:
  assumes "tables_placed y" "tvalid t"
  shows "unat (taddr y t) = tpos y t"
  using assms unat_span_elem [of "l2_tables y" 128] unat_span_elem [of "l3_pool y" 64]
  by (cases t) (simp_all add: tables_placed_def)

lemma taddr_span:
  assumes "tables_placed y" "tvalid t"
  shows "table_span (taddr y t) 1"
  using assms unat_taddr [OF assms]
  by (cases t) (auto simp: tables_placed_def table_span_def page_aligned_iff simp del: taddr.simps(3,4))

lemma taddr_inj:
  assumes "tables_placed y" "tvalid t" "tvalid t'" "taddr y t = taddr y t'"
  shows "t = t'"
proof -
  have u: "tpos y t = tpos y t'" using assms(4) unat_taddr [OF assms(1)] assms(2,3) by metis
  have "unat (l0_table y) + 4096 \<le> unat (l1_table y) \<or> unat (l1_table y) + 4096 \<le> unat (l0_table y)"
    "unat (l0_table y) + 4096 \<le> unat (l2_tables y) \<or> unat (l2_tables y) + 524288 \<le> unat (l0_table y)"
    "unat (l0_table y) + 4096 \<le> unat (l3_pool y) \<or> unat (l3_pool y) + 262144 \<le> unat (l0_table y)"
    "unat (l1_table y) + 4096 \<le> unat (l2_tables y) \<or> unat (l2_tables y) + 524288 \<le> unat (l1_table y)"
    "unat (l1_table y) + 4096 \<le> unat (l3_pool y) \<or> unat (l3_pool y) + 262144 \<le> unat (l1_table y)"
    "unat (l2_tables y) + 524288 \<le> unat (l3_pool y) \<or> unat (l3_pool y) + 262144 \<le> unat (l2_tables y)"
    using assms(1) by (simp_all add: tables_placed_def apart_spans_def)
  then show ?thesis using u assms(2,3) by (cases t; cases t') auto
qed

lemma unat_tw:
  assumes "page_aligned t" "i < 512"
  shows "unat (tw t i) = unat t + 8 * i"
proof -
  obtain k where k: "unat t = 4096 * k" using assms(1) by (auto simp: page_aligned_iff)
  then have "unat t + 8 * i < 2 ^ 64" using unat_less_two_power [of t] assms(2) by simp
  moreover have "unat (8 * of_nat i :: u64) = 8 * i" using assms(2) by (simp add: unat_word_ariths unat_of_nat)
  ultimately show ?thesis by (simp add: tw_def unat_add_no_wrap)
qed

lemma tw_eq_iff:
  assumes "page_aligned t" "page_aligned t'" "i < 512" "i' < 512"
  shows "tw t i = tw t' i' \<longleftrightarrow> t = t' \<and> i = i'"
proof
  assume "tw t i = tw t' i'"
  then have e: "unat t + 8 * i = unat t' + 8 * i'" using unat_tw [OF assms(1,3)] unat_tw [OF assms(2,4)] by simp
  obtain k k' where k: "unat t = 4096 * k" "unat t' = 4096 * k'" using assms(1,2) unfolding page_aligned_iff by (metis dvdE)
  have "(4096 * k + 8 * i) div 4096 = k" "(4096 * k' + 8 * i') div 4096 = k'" using assms(3,4) by simp_all
  then have "k = k'" using e k by simp
  then show "t = t' \<and> i = i'" using e k by (simp add: word_unat_eq_iff)
qed simp

definition tv :: "mmu_syms \<Rightarrow> (u64 \<Rightarrow> u64) \<Rightarrow> tbl \<Rightarrow> nat \<Rightarrow> u64" where
  "tv y m t i = m (tw (taddr y t) i)"

lemma tv_update:
  assumes "tables_placed y" "tvalid t" "tvalid t'" "i < 512" "j < 512"
  shows "tv y (m(tw (taddr y t) i := v)) t' j = (if t' = t \<and> j = i then v else tv y m t' j)"
  using assms tw_eq_iff [of "taddr y t'" "taddr y t" j i] taddr_inj [of y t' t] taddr_span [of y t] taddr_span [of y t']
  by (auto simp: tv_def table_span_def)

text \<open>A table descriptor leads back to the table's address.\<close>

definition td :: "mmu_syms \<Rightarrow> tbl \<Rightarrow> u64" where
  "td y t = virt_to_phys (taddr y t) OR DESC_TABLE"

lemma frame_bits_iff: "frame_bits pa \<longleftrightarrow> 4096 dvd unat pa \<and> unat pa < 2 ^ 48"
proof -
  have "pa AND 0xFFFF000000000FFF = 0 \<longleftrightarrow> pa AND mask 12 = 0 \<and> pa AND NOT (mask 48) = 0"
  proof -
    have "(0xFFFF000000000FFF :: u64) = mask 12 OR NOT (mask 48)" by (simp add: mask_eq_exp_minus_1)
    then have "pa AND 0xFFFF000000000FFF = (pa AND mask 12) OR (pa AND NOT (mask 48))" by (simp only:) (auto simp: bit_eq_iff bit_simps)
    then show ?thesis by (simp add: or_eq_0_iff)
  qed
  moreover have "pa AND mask 12 = 0 \<longleftrightarrow> 4096 dvd unat pa" using page_aligned_iff [of pa] by (simp add: page_aligned_def page_mask)
  moreover have "pa AND NOT (mask 48) = 0 \<longleftrightarrow> unat pa < 2 ^ 48"
  proof -
    have "pa AND NOT (mask 48) = 0 \<longleftrightarrow> unat (pa AND NOT (mask 48)) = 0" by (simp add: unat_eq_zero)
    also have "\<dots> \<longleftrightarrow> unat pa < 2 ^ 48" unfolding unat_and_not_mask by (auto simp: div_eq_0_iff)
    finally show ?thesis .
  qed
  ultimately show ?thesis by (simp add: frame_bits_def)
qed

lemma virt_to_phys_tbl:
  assumes "table_span a 1"
  shows "unat (virt_to_phys a) = unat a - 0xFFFF800000000000" "mmu_pa_to_va (virt_to_phys a) = a" "frame_bits (virt_to_phys a)"
proof -
  have b: "0xFFFF800040000000 \<le> unat a" "unat a < 0xFFFF800080000000" using assms by (simp_all add: table_span_def)
  have hi: "CAPAZ_HH_RAM_BASE \<le> a" using b(1) by (simp add: word_le_nat_alt kaddr_config)
  then have u: "unat (a - CAPAZ_HH_RAM_BASE) = unat a - 0xFFFF800040000000" by (simp add: unat_sub kaddr_config)
  show p: "unat (virt_to_phys a) = unat a - 0xFFFF800000000000"
    using hi u b by (simp add: virt_to_phys_def unat_word_ariths) (simp add: kaddr_config)
  show "mmu_pa_to_va (virt_to_phys a) = a" using hi by (simp add: mmu_pa_to_va_def virt_to_phys_def)
  obtain k where "unat a = 4096 * k" using assms by (auto simp: table_span_def page_aligned_iff)
  then have "unat a - 0xFFFF800000000000 = 4096 * (k - 0xFFFF800000000)" by simp
  then show "frame_bits (virt_to_phys a)" unfolding frame_bits_iff p using b by simp
qed

lemma td_facts:
  assumes "tables_placed y" "tvalid t"
  shows "desc_type (td y t) = 3" "td y t \<noteq> 0" "mmu_pa_to_va (desc_addr (td y t)) = taddr y t"
proof -
  note s = virt_to_phys_tbl [OF taddr_span [OF assms]]
  show ty: "desc_type (td y t) = 3" unfolding td_def using frame_desc_fields(1) [OF s(3)] by (simp add: DESC_TABLE_def desc_type_def)
  then show "td y t \<noteq> 0" by (auto simp: desc_type_def)
  show "mmu_pa_to_va (desc_addr (td y t)) = taddr y t"
    unfolding td_def frame_desc_fields(5) [OF s(3)] using s(2) by (simp add: DESC_TABLE_def desc_addr_def)
qed

section \<open>Writing whole tables\<close>

lemma tv_table_zero:
  assumes "tables_placed y" "tvalid t" "tvalid t'" "i + k \<le> 512" "j < 512"
  shows "tv y (table_zero (taddr y t) i k m) t' j = (if t' = t \<and> i \<le> j \<and> j < i + k then 0 else tv y m t' j)"
  using assms(4)
proof (induction k arbitrary: i m)
  case (Suc k)
  show ?case using Suc.IH [of "Suc i" "m(tw (taddr y t) i := 0)"] Suc.prems tv_update [OF assms(1-3), of i j m 0] assms(5)
    by (auto simp del: fun_upd_apply)
qed auto

lemma tv_l3_fill:
  assumes "tables_placed y" "tvalid t" "tvalid t'" "p + k \<le> 512" "j < 512"
  shows "tv y (l3_fill y (taddr y t) p k pa m) t' j =
    (if t' = t \<and> p \<le> j \<and> j < p + k then page_desc y (pa + 0x1000 * of_nat (j - p)) else tv y m t' j)"
  using assms(4)
proof (induction k arbitrary: p pa m)
  case (Suc k)
  have "pa + 0x1000 + 0x1000 * of_nat (j - Suc p) = pa + 0x1000 * of_nat (j - p)" if "Suc p \<le> j"
  proof -
    have "j - p = Suc (j - Suc p)" using that by simp
    then show ?thesis by (simp add: algebra_simps)
  qed
  then show ?case using Suc.IH [of "Suc p" "pa + 0x1000" "m(tw (taddr y t) p := page_desc y pa)"] Suc.prems
      tv_update [OF assms(1-3), of p j m "page_desc y pa"] assms(5)
    by (auto simp del: fun_upd_apply)
qed auto

section \<open>The invariant of the construction\<close>

text \<open>Block \<open>n\<close> is the 2 MiB of memory at \<open>n\<close> times that size; \<open>T\<close> is the set of blocks mapped so far.\<close>

definition bpa :: "nat \<Rightarrow> u64" where
  "bpa n = of_nat (n * 0x200000)"

definition entry_ok :: "mmu_syms \<Rightarrow> mmu_globals \<Rightarrow> nat set \<Rightarrow> u64 \<Rightarrow> nat \<Rightarrow> bool" where
  "entry_ok y g T d n \<longleftrightarrow>
     (if n \<notin> T then d = 0
      else if overlaps_kernel y (bpa n)
      then \<exists>k<unat (l3_pool_used g). d = td y (L3 k) \<and> (\<forall>p<512. tv y (pt g) (L3 k) p = page_desc y (bpa n + 0x1000 * of_nat p))
      else d = block_desc (bpa n))"

definition l2_ok :: "mmu_syms \<Rightarrow> mmu_globals \<Rightarrow> nat set \<Rightarrow> nat \<Rightarrow> bool" where
  "l2_ok y g T i \<longleftrightarrow>
     (if l2_for_l1 g i = 0 then tv y (pt g) L1 i = 0 \<and> (\<forall>j<512. i * 512 + j \<notin> T)
      else \<exists>k<unat (l2_tables_used g). l2_for_l1 g i = taddr y (L2 k) \<and> tv y (pt g) L1 i = td y (L2 k) \<and>
        (\<forall>j<512. entry_ok y g T (tv y (pt g) (L2 k) j) (i * 512 + j)))"

definition l2_in_use :: "mmu_globals \<Rightarrow> nat set" where
  "l2_in_use g = {i. 0 < i \<and> i < 512 \<and> l2_for_l1 g i \<noteq> 0}"

definition mmu_inv :: "mmu_syms \<Rightarrow> mmu_globals \<Rightarrow> nat set \<Rightarrow> bool" where
  "mmu_inv y g T \<longleftrightarrow>
     tv y (pt g) L0 256 = td y L1 \<and> (\<forall>i<512. i \<noteq> 256 \<longrightarrow> tv y (pt g) L0 i = 0) \<and> tv y (pt g) L1 0 = dev_desc \<and>
     (\<forall>i. 0 < i \<and> i < 512 \<longrightarrow> l2_ok y g T i) \<and> inj_on (l2_for_l1 g) (l2_in_use g) \<and>
     unat (l2_tables_used g) = card (l2_in_use g) \<and> unat (l2_tables_used g) \<le> 128 \<and> unat (l3_pool_used g) \<le> 64"

lemma taddr_nonzero: "tables_placed y \<Longrightarrow> tvalid t \<Longrightarrow> taddr y t \<noteq> 0"
  using taddr_span [of y t] by (auto simp: table_span_def)

lemma finite_l2_in_use [simp]: "finite (l2_in_use g)"
  by (rule finite_subset [of _ "{..<512}"]) (auto simp: l2_in_use_def)

text \<open>An L2 entry depends on the tables only through itself and the L3 table it points to.\<close>

lemma entry_ok_cong:
  assumes "entry_ok y g T d n" "unat (l3_pool_used g) \<le> unat (l3_pool_used g')"
    "\<And>k p. k < unat (l3_pool_used g) \<Longrightarrow> p < 512 \<Longrightarrow> tv y (pt g') (L3 k) p = tv y (pt g) (L3 k) p" "n \<in> T' \<longleftrightarrow> n \<in> T"
  shows "entry_ok y g' T' d n"
proof (cases "n \<in> T \<and> overlaps_kernel y (bpa n)")
  case True
  then obtain k where "k < unat (l3_pool_used g)" "d = td y (L3 k)"
    "\<forall>p<512. tv y (pt g) (L3 k) p = page_desc y (bpa n + 0x1000 * of_nat p)"
    using assms(1) by (auto simp: entry_ok_def)
  then have "k < unat (l3_pool_used g')" "d = td y (L3 k)" "\<forall>p<512. tv y (pt g') (L3 k) p = page_desc y (bpa n + 0x1000 * of_nat p)"
    using assms(2,3) by simp_all
  then show ?thesis using True assms(4) unfolding entry_ok_def by auto
next
  case False
  then show ?thesis using assms(1,4) by (auto simp: entry_ok_def split: if_splits)
qed

lemma l2_ok_cong:
  assumes "l2_ok y g T i" "l2_for_l1 g' i = l2_for_l1 g i" "tv y (pt g') L1 i = tv y (pt g) L1 i"
    "unat (l2_tables_used g) \<le> unat (l2_tables_used g')" "unat (l3_pool_used g) \<le> unat (l3_pool_used g')"
    "\<And>k j. k < unat (l2_tables_used g) \<Longrightarrow> l2_for_l1 g i = taddr y (L2 k) \<Longrightarrow> j < 512 \<Longrightarrow> tv y (pt g') (L2 k) j = tv y (pt g) (L2 k) j"
    "\<And>k p. k < unat (l3_pool_used g) \<Longrightarrow> p < 512 \<Longrightarrow> tv y (pt g') (L3 k) p = tv y (pt g) (L3 k) p"
    "\<And>j. j < 512 \<Longrightarrow> i * 512 + j \<in> T' \<longleftrightarrow> i * 512 + j \<in> T"
  shows "l2_ok y g' T' i"
proof (cases "l2_for_l1 g i = 0")
  case True
  then show ?thesis using assms(1,2,3,8) by (auto simp: l2_ok_def)
next
  case False
  then obtain k where k: "k < unat (l2_tables_used g)" "l2_for_l1 g i = taddr y (L2 k)" "tv y (pt g) L1 i = td y (L2 k)"
    "\<forall>j<512. entry_ok y g T (tv y (pt g) (L2 k) j) (i * 512 + j)"
    using assms(1) by (auto simp: l2_ok_def)
  have "entry_ok y g' T' (tv y (pt g') (L2 k) j) (i * 512 + j)" if "j < 512" for j
    using k(4) that assms(6) [OF k(1,2) that] assms(5,7,8) by (auto intro: entry_ok_cong)
  then show ?thesis using False k(1-3) assms(2-4) unfolding l2_ok_def by (auto intro!: exI [of _ k])
qed

lemma mmu_inv_l2:
  assumes "mmu_inv y g T" "0 < i" "i < 512" "l2_for_l1 g i \<noteq> 0"
  obtains k where "k < unat (l2_tables_used g)" "k < 128" "l2_for_l1 g i = taddr y (L2 k)" "tv y (pt g) L1 i = td y (L2 k)"
    "\<And>j. j < 512 \<Longrightarrow> entry_ok y g T (tv y (pt g) (L2 k) j) (i * 512 + j)"
proof -
  have "l2_ok y g T i" "unat (l2_tables_used g) \<le> 128" using assms by (simp_all add: mmu_inv_def)
  then show ?thesis using that assms(4) by (auto simp: l2_ok_def)
qed

lemma get_l2_new:
  assumes P: "tables_placed y" and "mmu_inv y g T" "0 < i" "i < 512" "l2_for_l1 g i = 0" "unat (l2_tables_used g) < 128"
  defines "k \<equiv> unat (l2_tables_used g)"
  defines "g' \<equiv> g\<lparr>l2_tables_used := l2_tables_used g + 1, l2_for_l1 := (l2_for_l1 g)(i := taddr y (L2 k)),
      pt := (table_zero (taddr y (L2 k)) 0 512 (pt g))(tw (taddr y L1) i := td y (L2 k))\<rparr>"
  shows "get_l2_for_l1 y (l1_table y) i g = Ret (taddr y (L2 k), g') \<and> mmu_inv y g' T \<and> l2_in_use g' = insert i (l2_in_use g)"
proof -
  have k: "k < 128" "tvalid (L2 k)" using assms(6) by (simp_all add: k_def)
  have tbl: "l2_tables y + 4096 * ucast (l2_tables_used g) = taddr y (L2 k)" by (simp add: k_def unsigned_ucast_eq)
  have used: "unat (l2_tables_used g') = Suc k" using k(1) by (simp add: g'_def k_def unat_word_ariths)
  have nz: "taddr y (L2 k) \<noteq> 0" using taddr_nonzero [OF P k(2)] .
  have run: "get_l2_for_l1 y (l1_table y) i g = Ret (taddr y (L2 k), g')"
    using assms(5,6) tbl by (simp add: get_l2_for_l1_def alloc_l2_def MAX_L2_TABLES_def word_le_nat_alt g'_def td_def Let_def del: taddr.simps(3))
  have view: "tv y (pt g') t j = (if t = L1 \<and> j = i then td y (L2 k) else if t = L2 k then 0 else tv y (pt g) t j)" if "tvalid t" "j < 512" for t j
    using that k assms(4) P by (simp add: g'_def tv_update tv_table_zero del: fun_upd_apply taddr.simps)
  have use: "l2_in_use g' = insert i (l2_in_use g)" using assms(3,4) nz by (auto simp: l2_in_use_def g'_def)
  have i: "i \<notin> l2_in_use g" using assms(5) by (simp add: l2_in_use_def)
  have fresh: "l2_for_l1 g i' \<noteq> taddr y (L2 k)" if i': "0 < i'" "i' < 512" for i'
  proof
    assume e: "l2_for_l1 g i' = taddr y (L2 k)"
    then obtain k' where "k' < unat (l2_tables_used g)" "k' < 128" "l2_for_l1 g i' = taddr y (L2 k')"
      using assms(2) i' nz by (metis mmu_inv_l2)
    then show False using e taddr_inj [OF P, of "L2 k" "L2 k'"] k by (simp add: k_def)
  qed
  have ok: "l2_ok y g' T i'" if i': "0 < i'" "i' < 512" for i'
  proof (cases "i' = i")
    case True
    have "l2_ok y g T i" using assms(2-4) by (simp add: mmu_inv_def)
    then have "\<forall>j<512. i * 512 + j \<notin> T" using assms(5) by (simp add: l2_ok_def)
    moreover have "l2_for_l1 g' i = taddr y (L2 k)" by (simp add: g'_def)
    ultimately show ?thesis using True nz used k assms(4) view [of L1 i] view [of "L2 k"]
      by (auto simp: l2_ok_def entry_ok_def intro!: exI [of _ k] simp del: taddr.simps)
  next
    case False
    have l3: "unat (l3_pool_used g) \<le> 64" and "l2_ok y g T i'" using assms(2) i' by (simp_all add: mmu_inv_def)
    from this(2) show ?thesis
    proof (rule l2_ok_cong)
      show "l2_for_l1 g' i' = l2_for_l1 g i'" "unat (l3_pool_used g) \<le> unat (l3_pool_used g')" using False by (simp_all add: g'_def)
      show "tv y (pt g') L1 i' = tv y (pt g) L1 i'" using False i' view [of L1 i'] by simp
      show "unat (l2_tables_used g) \<le> unat (l2_tables_used g')" using used by (simp add: k_def)
      show "tv y (pt g') (L2 k') j = tv y (pt g) (L2 k') j" if "k' < unat (l2_tables_used g)" "j < 512" for k' j
        using that k(1) view [of "L2 k'" j] by (simp add: k_def)
      show "tv y (pt g') (L3 q) p = tv y (pt g) (L3 q) p" if "q < unat (l3_pool_used g)" "p < 512" for q p
        using that l3 view [of "L3 q" p] by simp
    qed simp
  qed
  have new: "taddr y (L2 k) \<notin> l2_for_l1 g ` l2_in_use g"
  proof
    assume "taddr y (L2 k) \<in> l2_for_l1 g ` l2_in_use g"
    then obtain i' where "0 < i'" "i' < 512" "taddr y (L2 k) = l2_for_l1 g i'" by (auto simp: l2_in_use_def simp del: taddr.simps)
    then show False using fresh by metis
  qed
  have "inj_on (l2_for_l1 g) (l2_in_use g)" using assms(2) by (simp add: mmu_inv_def)
  then have "inj_on ((l2_for_l1 g)(i := taddr y (L2 k))) (insert i (l2_in_use g))"
    using new i unfolding inj_on_insert by (auto simp: inj_on_fun_updI simp del: taddr.simps)
  then have "inj_on (l2_for_l1 g') (l2_in_use g')" unfolding use by (simp add: g'_def)
  moreover have "unat (l2_tables_used g') = card (l2_in_use g')" using used i assms(2) unfolding use by (simp add: mmu_inv_def k_def)
  moreover have "tv y (pt g') L0 p = tv y (pt g) L0 p" if "p < 512" for p using that view [of L0 p] by simp
  moreover have "tv y (pt g') L1 0 = tv y (pt g) L1 0" "l3_pool_used g' = l3_pool_used g" using view [of L1 0] assms(3) by (simp_all add: g'_def)
  ultimately have "mmu_inv y g' T" using assms(2) ok used k(1) unfolding mmu_inv_def by simp
  then show ?thesis using run use by blast
qed

lemma get_l2_inv:
  assumes "tables_placed y" "mmu_inv y g T" "0 < i" "i < 512" "card (insert i (l2_in_use g)) \<le> 128"
  obtains l2 g' where "get_l2_for_l1 y (l1_table y) i g = Ret (l2, g')" "mmu_inv y g' T" "l2_for_l1 g' i = l2" "l2 \<noteq> 0"
    "l2_in_use g' = insert i (l2_in_use g)" "l3_pool_used g' = l3_pool_used g"
proof (cases "l2_for_l1 g i = 0")
  case True
  then have "i \<notin> l2_in_use g" by (simp add: l2_in_use_def)
  then have u: "unat (l2_tables_used g) < 128" using assms(2,5) by (simp add: mmu_inv_def)
  let ?t = "taddr y (L2 (unat (l2_tables_used g)))"
  have "?t \<noteq> 0" using u by (intro taddr_nonzero [OF assms(1)]) simp
  with get_l2_new [OF assms(1-4) True u] show ?thesis
    by (elim conjE) (rule that, assumption, assumption, simp_all del: taddr.simps)
next
  case False
  then have "l2_in_use g = insert i (l2_in_use g)" using assms(3,4) by (auto simp: l2_in_use_def)
  moreover have "get_l2_for_l1 y (l1_table y) i g = Ret (l2_for_l1 g i, g)" using False by (simp add: get_l2_for_l1_def)
  ultimately show ?thesis using that [of "l2_for_l1 g i" g] False assms(2) by simp
qed

text \<open>Writing one L2 entry, with the L3 table it may point to, maps one more block.\<close>

lemma mult_512_unique: "i' * 512 + j' = i * 512 + j \<Longrightarrow> j' < 512 \<Longrightarrow> j < 512 \<Longrightarrow> i' = i \<and> j' = (j::nat)"
proof -
  assume e: "i' * 512 + j' = i * 512 + j" and j: "j' < 512" "j < 512"
  have "(i' * 512 + j') mod 512 = j'" "(i * 512 + j) mod 512 = j" using j by simp_all
  then show ?thesis using e by simp
qed

lemma entry_write_inv:
  assumes P: "tables_placed y" and inv: "mmu_inv y g T" and i: "0 < i" "i < 512" and j: "j < 512" and k: "k < 128" "l2_for_l1 g i = taddr y (L2 k)"
    and same: "l2_for_l1 g' = l2_for_l1 g" "l2_tables_used g' = l2_tables_used g"
    and l3: "unat (l3_pool_used g) \<le> unat (l3_pool_used g')" "unat (l3_pool_used g') \<le> 64"
    and view: "\<And>t p. tvalid t \<Longrightarrow> p < 512 \<Longrightarrow> (\<forall>q. t = L3 q \<longrightarrow> q < unat (l3_pool_used g)) \<Longrightarrow> \<not> (t = L2 k \<and> p = j) \<Longrightarrow> tv y (pt g') t p = tv y (pt g) t p"
    and new: "entry_ok y g' (insert (i * 512 + j) T) (tv y (pt g') (L2 k) j) (i * 512 + j)"
  shows "mmu_inv y g' (insert (i * 512 + j) T)"
proof -
  let ?T = "insert (i * 512 + j) T"
  have lim: "unat (l2_tables_used g) \<le> 128" "unat (l3_pool_used g) \<le> 64" "inj_on (l2_for_l1 g) (l2_in_use g)"
    using inv by (simp_all add: mmu_inv_def)
  have nz: "l2_for_l1 g i \<noteq> 0" using taddr_nonzero [OF P, of "L2 k"] k by simp
  have mem: "i' * 512 + j' \<in> ?T \<longleftrightarrow> i' * 512 + j' \<in> T" if "j' < 512" "i' \<noteq> i \<or> j' \<noteq> j" for i' j'
  proof -
    have "i' = i \<and> j' = j" if "i' * 512 + j' = i * 512 + j"
      using that \<open>j' < 512\<close> j by (rule mult_512_unique)
    then show ?thesis using that by auto
  qed
  have l3v: "tv y (pt g') (L3 q) p = tv y (pt g) (L3 q) p" if "q < unat (l3_pool_used g)" "p < 512" for q p
    using that lim(2) by (intro view) auto
  have "l2_ok y g' ?T i'" if i': "0 < i'" "i' < 512" for i'
  proof (cases "i' = i")
    case True
    obtain k' where k': "k' < unat (l2_tables_used g)" "k' < 128" "l2_for_l1 g i = taddr y (L2 k')" "tv y (pt g) L1 i = td y (L2 k')"
      "\<And>j. j < 512 \<Longrightarrow> entry_ok y g T (tv y (pt g) (L2 k') j) (i * 512 + j)"
      using mmu_inv_l2 [OF inv i nz] by blast
    have kk: "k' = k" using taddr_inj [OF P, of "L2 k'" "L2 k"] k k' by simp
    have "entry_ok y g' ?T (tv y (pt g') (L2 k) j') (i * 512 + j')" if "j' < 512" for j'
    proof (cases "j' = j")
      case False
      have v: "tv y (pt g') (L2 k) j' = tv y (pt g) (L2 k) j'" using False that k(1) by (intro view) auto
      show ?thesis unfolding v
      proof (rule entry_ok_cong [OF _ l3(1) l3v])
        show "entry_ok y g T (tv y (pt g) (L2 k) j') (i * 512 + j')" using k'(5) [OF that] kk by simp
      qed (use mem [OF that] False in auto)
    qed (use new in simp)
    moreover have "tv y (pt g') L1 i = td y (L2 k)" using k'(4) kk view [of L1 i] i(2) by simp
    ultimately show ?thesis using True nz same k k'(1) kk by (auto simp: l2_ok_def intro!: exI [of _ k])
  next
    case False
    have other: "l2_for_l1 g i' \<noteq> l2_for_l1 g i" if "l2_for_l1 g i' \<noteq> 0"
      using that False i i' nz lim(3) unfolding inj_on_def l2_in_use_def by blast
    have "tv y (pt g') (L2 k') j' = tv y (pt g) (L2 k') j'" if "k' < unat (l2_tables_used g)" "l2_for_l1 g i' = taddr y (L2 k')" "j' < 512" for k' j'
    proof -
      have "k' < 128" using that(1) lim(1) by simp
      then have "taddr y (L2 k') \<noteq> 0" using taddr_nonzero [OF P, of "L2 k'"] by simp
      then have "k' \<noteq> k" using other that(2) k(2) by metis
      then show ?thesis using that \<open>k' < 128\<close> by (intro view) auto
    qed
    moreover have "l2_ok y g T i'" using inv i' by (simp add: mmu_inv_def)
    ultimately show ?thesis using l3v l3(1) mem False same view [of L1 i'] i'(2)
      by (intro l2_ok_cong [of y g T i' g' ?T]) simp_all
  qed
  moreover have "l2_in_use g' = l2_in_use g" by (simp add: l2_in_use_def same)
  moreover have "tv y (pt g') L0 p = tv y (pt g) L0 p" "tv y (pt g') L1 p = tv y (pt g) L1 p" if "p < 512" for p
    using that by (auto intro: view)
  ultimately show ?thesis using inv same l3 unfolding mmu_inv_def by simp
qed

section \<open>Mapping blocks\<close>

definition block_idx :: "u64 \<Rightarrow> nat" where
  "block_idx pa = unat pa div 0x200000"

text \<open>The blocks a list of block addresses maps: those in the L1 entries above the device gigabyte.\<close>

definition mapped :: "u64 \<Rightarrow> bool" where
  "mapped pa \<longleftrightarrow> 0 < unat pa div 2 ^ 30 \<and> unat pa div 2 ^ 30 < 512"

definition block_aligned :: "u64 \<Rightarrow> bool" where
  "block_aligned pa \<longleftrightarrow> 0x200000 dvd unat pa"

lemma block_indices:
  assumes "block_aligned pa" "mapped pa"
  defines "i \<equiv> unat (drop_bit 30 pa)" and "j \<equiv> unat ((pa AND (L1_BLOCK_SIZE - 1)) div RAM_BLOCK_SIZE)"
  shows "0 < i" "i < 512" "j < 512" "block_idx pa = i * 512 + j" "bpa (i * 512 + j) = pa"
proof -
  have ui: "i = unat pa div 2 ^ 30" unfolding i_def unat_drop_bit_eq by (simp add: drop_bit_eq_div)
  have "L1_BLOCK_SIZE - 1 = mask 30" by (simp add: L1_BLOCK_SIZE_def mask_eq_exp_minus_1)
  then have "unat (pa AND (L1_BLOCK_SIZE - 1)) = unat pa mod 2 ^ 30"
    by (simp add: flip: take_bit_eq_mask) (simp add: take_bit_eq_mod unat_mod)
  then have uj: "j = unat pa mod 2 ^ 30 div 0x200000" unfolding j_def by (simp add: unat_div RAM_BLOCK_SIZE_def)
  obtain n where n: "unat pa = 0x200000 * n" using assms(1) by (auto simp: block_aligned_def)
  have nd: "unat pa div 2 ^ 30 = n div 512" using div_mult_mult1 [where c = "0x200000 :: nat" and a = n and b = 512] by (simp add: n)
  have nm: "unat pa mod 2 ^ 30 = 0x200000 * (n mod 512)" using mod_mult_mult1 [where c = "0x200000 :: nat" and a = n and b = 512] by (simp add: n)
  show "0 < i" "i < 512" using assms(2) ui by (simp_all add: mapped_def)
  have j: "j = n mod 512" unfolding uj nm by simp
  then show "j < 512" by simp
  have ij: "i * 512 + j = n" unfolding ui nd j by simp
  then show "block_idx pa = i * 512 + j" by (simp add: block_idx_def n)
  have "of_nat (unat pa) = pa" by simp
  then show "bpa (i * 512 + j) = pa" unfolding ij bpa_def n by (simp add: mult.commute)
qed

lemma map_block_inv:
  assumes P: "tables_placed y" and inv: "mmu_inv y g T" and pa: "block_aligned pa" "mapped pa"
    and room: "card (insert (unat (drop_bit 30 pa)) (l2_in_use g)) \<le> 128" "overlaps_kernel y pa \<longrightarrow> unat (l3_pool_used g) < 64"
  obtains g' where "map_block y pa g = Ret g'" "mmu_inv y g' (insert (block_idx pa) T)"
    "l2_in_use g' = insert (unat (drop_bit 30 pa)) (l2_in_use g)"
    "unat (l3_pool_used g') = unat (l3_pool_used g) + (if overlaps_kernel y pa then 1 else 0)"
proof -
  define i where "i = unat (drop_bit 30 pa)"
  define j where "j = unat ((pa AND (L1_BLOCK_SIZE - 1)) div RAM_BLOCK_SIZE)"
  note ij = block_indices [OF pa, folded i_def j_def]
  obtain l2 g1 where g1: "get_l2_for_l1 y (l1_table y) i g = Ret (l2, g1)" "mmu_inv y g1 T" "l2_for_l1 g1 i = l2" "l2 \<noteq> 0"
    "l2_in_use g1 = insert i (l2_in_use g)" "l3_pool_used g1 = l3_pool_used g"
    using get_l2_inv [OF P inv ij(1,2)] room(1) unfolding i_def by metis
  obtain k where k: "k < unat (l2_tables_used g1)" "k < 128" "l2_for_l1 g1 i = taddr y (L2 k)"
    using mmu_inv_l2 [OF g1(2) ij(1,2)] g1(3,4) by metis
  have kv: "tvalid (L2 k)" using k(2) by simp
  have l2: "l2 = taddr y (L2 k)" using g1(3) k(3) by simp
  show ?thesis
  proof (cases "overlaps_kernel y pa")
    case False
    define g' where "g' = g1\<lparr>pt := (pt g1)(tw (taddr y (L2 k)) j := block_desc pa)\<rparr>"
    have run: "map_block y pa g = Ret g'"
      using False g1(1) ij(1,2) l2 by (simp add: map_block_def Let_def g'_def flip: i_def j_def)
    have view: "tv y (pt g') t p = (if t = L2 k \<and> p = j then block_desc pa else tv y (pt g1) t p)" if "tvalid t" "p < 512" for t p
      using tv_update [OF P kv that(1) ij(3) that(2)] by (simp add: g'_def)
    have "entry_ok y g' (insert (i * 512 + j) T) (tv y (pt g') (L2 k) j) (i * 512 + j)"
      using False ij(3,5) view [OF kv ij(3)] by (simp add: entry_ok_def)
    then have "mmu_inv y g' (insert (i * 512 + j) T)"
      using view g1(2) by (intro entry_write_inv [OF P g1(2) ij(1-3) k(2,3)]) (auto simp: g'_def [THEN arg_cong [of _ _ l2_for_l1]] g'_def [THEN arg_cong [of _ _ l2_tables_used]] g'_def [THEN arg_cong [of _ _ l3_pool_used]] mmu_inv_def)
    then show ?thesis using that [OF run] False g1(5,6) ij(4) by (simp add: g'_def l2_in_use_def i_def)
  next
    case True
    define q where "q = unat (l3_pool_used g1)"
    have q: "q < 64" "tvalid (L3 q)" using room(2) True g1(6) by (simp_all add: q_def)
    have tbl: "l3_pool y + 4096 * l3_pool_used g1 = taddr y (L3 q)" by (simp add: q_def)
    define m where "m = l3_fill y (taddr y (L3 q)) 0 512 pa (table_zero (taddr y (L3 q)) 0 512 (pt g1))"
    define g' where "g' = g1\<lparr>l3_pool_used := l3_pool_used g1 + 1, pt := m(tw (taddr y (L2 k)) j := td y (L3 q))\<rparr>"
    have run: "map_block y pa g = Ret g'"
      using True g1(1) ij(1,2) l2 tbl q(1)
      by (simp add: map_block_def alloc_l3_def L3_POOL_TABLES_def word_le_nat_alt Let_def g'_def m_def q_def td_def flip: i_def j_def del: taddr.simps)
    have used: "unat (l3_pool_used g') = Suc q" using q(1) by (simp add: g'_def q_def unat_word_ariths)
    have view: "tv y (pt g') t p = (if t = L2 k \<and> p = j then td y (L3 q) else if t = L3 q then page_desc y (pa + 0x1000 * of_nat p) else tv y (pt g1) t p)"
      if "tvalid t" "p < 512" for t p
      using tv_update [OF P kv that(1) ij(3) that(2)] tv_l3_fill [OF P q(2) that(1), of 0 512 p] tv_table_zero [OF P q(2) that(1), of 0 512 p] that(2)
      by (cases "t = L3 q") (simp_all add: g'_def m_def del: taddr.simps)
    have "entry_ok y g' (insert (i * 512 + j) T) (tv y (pt g') (L2 k) j) (i * 512 + j)"
      using True ij(3,5) view [OF kv ij(3)] view [OF q(2)] used by (auto simp: entry_ok_def intro!: exI [of _ q])
    moreover have "unat (l3_pool_used g1) \<le> unat (l3_pool_used g')" "unat (l3_pool_used g') \<le> 64" using used q(1) by (simp_all add: q_def)
    moreover have "l2_for_l1 g' = l2_for_l1 g1" "l2_tables_used g' = l2_tables_used g1" by (simp_all add: g'_def)
    ultimately have "mmu_inv y g' (insert (i * 512 + j) T)"
      using view by (intro entry_write_inv [OF P g1(2) ij(1-3) k(2,3)]) (auto simp: q_def)
    moreover have "l2_in_use g' = l2_in_use g1" by (simp add: l2_in_use_def g'_def)
    ultimately show ?thesis using that [OF run] True g1(5,6) ij(4) used by (simp add: q_def i_def)
  qed
qed

definition l3_needed :: "mmu_syms \<Rightarrow> u64 list \<Rightarrow> nat" where
  "l3_needed y pas = length (filter (\<lambda>pa. mapped pa \<and> overlaps_kernel y pa) pas)"

definition low_blocks :: "u64 list \<Rightarrow> bool" where
  "low_blocks pas \<longleftrightarrow> (\<forall>pa\<in>set pas. block_aligned pa \<and> (mapped pa \<longrightarrow> unat pa div 2 ^ 30 \<le> 128))"

lemma map_blocks_inv:
  assumes "tables_placed y" "mmu_inv y g T" "low_blocks pas" "l2_in_use g \<subseteq> {1..128}" "unat (l3_pool_used g) + l3_needed y pas \<le> 64"
  shows "\<exists>g'. map_blocks y pas g = Ret g' \<and> mmu_inv y g' (T \<union> block_idx ` {pa \<in> set pas. mapped pa})"
  using assms(2-5)
proof (induction pas arbitrary: g T)
  case Nil
  then show ?case by simp
next
  case (Cons pa pas)
  have i: "unat (drop_bit 30 pa) = unat pa div 2 ^ 30" unfolding unat_drop_bit_eq by (simp add: drop_bit_eq_div)
  show ?case
  proof (cases "mapped pa")
    case False
    then have "map_block y pa g = Ret g" unfolding map_block_def Let_def i by (auto simp: mapped_def)
    moreover have "\<exists>g'. map_blocks y pas g = Ret g' \<and> mmu_inv y g' (T \<union> block_idx ` {pa \<in> set pas. mapped pa})"
      using Cons False by (simp add: low_blocks_def l3_needed_def)
    moreover have "{x \<in> set (pa # pas). mapped x} = {x \<in> set pas. mapped x}" using False by auto
    ultimately show ?thesis by (simp del: set_simps)
  next
    case True
    have pa: "block_aligned pa" "unat pa div 2 ^ 30 \<le> 128" "low_blocks pas" using Cons.prems(2) True by (auto simp: low_blocks_def)
    have sub: "insert (unat (drop_bit 30 pa)) (l2_in_use g) \<subseteq> {1..128}" using Cons.prems(3) pa(2) True unfolding i by (auto simp: mapped_def)
    then have "card (insert (unat (drop_bit 30 pa)) (l2_in_use g)) \<le> card {1..128::nat}" by (intro card_mono) auto
    then have room: "card (insert (unat (drop_bit 30 pa)) (l2_in_use g)) \<le> 128" by simp
    have "overlaps_kernel y pa \<longrightarrow> unat (l3_pool_used g) < 64" using Cons.prems(4) True by (auto simp: l3_needed_def)
    then obtain g1 where g1: "map_block y pa g = Ret g1" "mmu_inv y g1 (insert (block_idx pa) T)"
      "l2_in_use g1 = insert (unat (drop_bit 30 pa)) (l2_in_use g)"
      "unat (l3_pool_used g1) = unat (l3_pool_used g) + (if overlaps_kernel y pa then 1 else 0)"
      using map_block_inv [OF assms(1) Cons.prems(1) pa(1) True room] by blast
    have "\<exists>g'. map_blocks y pas g1 = Ret g' \<and> mmu_inv y g' (insert (block_idx pa) T \<union> block_idx ` {pa \<in> set pas. mapped pa})"
      using g1 pa(3) sub Cons.prems(4) True by (intro Cons.IH) (auto simp: l3_needed_def split: if_splits)
    moreover have "T \<union> block_idx ` {x \<in> set (pa # pas). mapped x} = insert (block_idx pa) T \<union> block_idx ` {pa \<in> set pas. mapped pa}"
      using True by auto
    ultimately show ?thesis using g1(1) by (simp del: set_simps)
  qed
qed

section \<open>Lookups\<close>

definition leaf :: "mmu_syms \<Rightarrow> nat \<Rightarrow> nat \<Rightarrow> u64" where
  "leaf y n p = (if overlaps_kernel y (bpa n) then page_desc y (bpa n + 0x1000 * of_nat p) else block_desc (bpa n))"

lemma table_index_less: "table_index va n < 512"
proof -
  have "drop_bit n va AND 0x1FF = take_bit 9 (drop_bit n va)" by (simp add: take_bit_eq_mask mask_eq_exp_minus_1)
  then show ?thesis unfolding table_index_def by (simp add: take_bit_eq_mod unat_mod)
qed

text \<open>Frames below 2 to the 39 hold only address bits.\<close>

lemma frame_bits_block:
  assumes "n < 2 ^ 18" "p < 512"
  shows "unat (bpa n + 0x1000 * of_nat p) = n * 0x200000 + 0x1000 * p" "frame_bits (bpa n + 0x1000 * of_nat p)"
proof -
  have b: "n * 0x200000 + 0x1000 * p < 2 ^ 39" using assms by simp
  have "bpa n + 0x1000 * of_nat p = of_nat (n * 0x200000 + 0x1000 * p)" by (simp add: bpa_def)
  then show u: "unat (bpa n + 0x1000 * of_nat p) = n * 0x200000 + 0x1000 * p" using b by (simp only: unat_of_nat) simp
  have e: "n * 0x200000 + 0x1000 * p = 4096 * (n * 512 + p)" by simp
  have "4096 dvd n * 0x200000 + 0x1000 * p" unfolding e by simp
  moreover have "n * 0x200000 + 0x1000 * p < 2 ^ 48" using b by simp
  ultimately show "frame_bits (bpa n + 0x1000 * of_nat p)" unfolding frame_bits_iff u by blast
qed

lemma mmu_inv_lookup:
  assumes P: "tables_placed y" and inv: "mmu_inv y g T"
  shows "mmu_lookup_desc y (pt g) va =
    (if table_index va 39 \<noteq> 256 then 0
     else if table_index va 30 = 0 then dev_desc
     else let n = table_index va 30 * 512 + table_index va 21 in if n \<in> T then leaf y n (table_index va 12) else 0)"
proof -
  let ?i = "table_index va 30" and ?j = "table_index va 21" and ?p = "table_index va 12"
  have lt: "table_index va 39 < 512" "?i < 512" "?j < 512" "?p < 512" by (rule table_index_less)+
  have at: "pt g (tw (taddr y t) q) = tv y (pt g) t q" for t q by (simp add: tv_def)
  have l0: "pt g (tw (l0_table y) (table_index va 39)) = (if table_index va 39 = 256 then td y L1 else 0)"
    using inv lt(1) at [of L0] by (simp add: mmu_inv_def)
  note t1 = td_facts [OF P, of L1, simplified]
  show ?thesis
  proof (cases "table_index va 39 = 256 \<and> ?i \<noteq> 0")
    case False
    then show ?thesis using inv l0 t1 at [of L1] dev_desc_fields
      by (auto simp: mmu_lookup_desc_def Let_def mmu_inv_def DESC_TABLE_def DESC_BLOCK_def)
  next
    case True
    let ?n = "?i * 512 + ?j"
    show ?thesis
    proof (cases "l2_for_l1 g ?i = 0")
      case z: True
      have "l2_ok y g T ?i" using inv True lt(2) by (simp add: mmu_inv_def)
      then have "tv y (pt g) L1 ?i = 0" "?n \<notin> T" using z lt(3) by (simp_all add: l2_ok_def)
      then show ?thesis using True l0 t1 at [of L1] by (simp add: mmu_lookup_desc_def Let_def DESC_TABLE_def)
    next
      case False
      then obtain k where k: "k < 128" "tv y (pt g) L1 ?i = td y (L2 k)" "entry_ok y g T (tv y (pt g) (L2 k) ?j) ?n"
        using mmu_inv_l2 [OF inv _ lt(2)] True lt(3) by (metis bot_nat_0.not_eq_extremum)
      note t2 = td_facts [OF P, of "L2 k"]
      have look: "mmu_lookup_desc y (pt g) va = (let d2 = tv y (pt g) (L2 k) ?j in
          if d2 = 0 then 0 else if desc_type d2 = DESC_BLOCK then d2 else if desc_type d2 \<noteq> DESC_TABLE then 0
          else pt g (tw (mmu_pa_to_va (desc_addr d2)) ?p))"
        using True l0 t1 k(1,2) t2 at [of L1] at [of "L2 k"] by (simp add: mmu_lookup_desc_def Let_def DESC_TABLE_def DESC_BLOCK_def del: taddr.simps(3))
      show ?thesis
      proof (cases "?n \<in> T")
        case False
        then show ?thesis using look k(3) True by (simp add: entry_ok_def)
      next
        case T: True
        have n: "?n < 2 ^ 18" using lt(2,3) by simp
        show ?thesis
        proof (cases "overlaps_kernel y (bpa ?n)")
          case ov: True
          then obtain q where q: "q < unat (l3_pool_used g)" "tv y (pt g) (L2 k) ?j = td y (L3 q)"
            "tv y (pt g) (L3 q) ?p = page_desc y (bpa ?n + 0x1000 * of_nat ?p)"
            using k(3) T lt(4) by (auto simp: entry_ok_def)
          have "tvalid (L3 q)" using q(1) inv by (simp add: mmu_inv_def)
          note t3 = td_facts [OF P this]
          show ?thesis unfolding look q(2) Let_def using t3 q(3) at [of "L3 q"] True T ov
            by (simp add: DESC_TABLE_def DESC_BLOCK_def leaf_def del: taddr.simps(4))
        next
          case ov: False
          have d: "tv y (pt g) (L2 k) ?j = block_desc (bpa ?n)" using k(3) T ov by (simp add: entry_ok_def)
          have "frame_bits (bpa ?n)" using frame_bits_block(2) [OF n, of 0] by simp
          then have ty: "desc_type (block_desc (bpa ?n)) = 1" unfolding block_desc_eq using frame_desc_fields(1) attr_fields(4) by simp
          then have "block_desc (bpa ?n) \<noteq> 0" by (auto simp: desc_type_def)
          then show ?thesis unfolding look d Let_def using ty True T ov by (simp add: DESC_BLOCK_def leaf_def)
        qed
      qed
    qed
  qed
qed

section \<open>The direct map\<close>

lemma table_index_eq: "table_index va n = unat va div 2 ^ n mod 512"
proof -
  have "drop_bit n va AND 0x1FF = take_bit 9 (drop_bit n va)" by (simp add: take_bit_eq_mask mask_eq_exp_minus_1)
  then have "table_index va n = unat (drop_bit n va) mod 512" unfolding table_index_def by (simp add: take_bit_eq_mod unat_mod)
  then show ?thesis unfolding unat_drop_bit_eq by (simp add: drop_bit_eq_div)
qed

lemma direct_map_indices:
  assumes "0x40000000 \<le> unat pa" "unat pa < 2 ^ 39"
  shows "unat (mmu_pa_to_va pa) = 0xFFFF800000000000 + unat pa" "table_index (mmu_pa_to_va pa) 39 = 256"
    "table_index (mmu_pa_to_va pa) 30 = unat pa div 2 ^ 30" "table_index (mmu_pa_to_va pa) 21 = unat pa div 2 ^ 21 mod 512"
    "table_index (mmu_pa_to_va pa) 12 = unat pa div 2 ^ 12 mod 512" "0 < unat pa div 2 ^ 30"
proof -
  have "CAPAZ_RAM_BASE \<le> pa" using assms(1) by (simp add: word_le_nat_alt kaddr_config)
  then show u: "unat (mmu_pa_to_va pa) = 0xFFFF800000000000 + unat pa"
    using assms by (simp add: mmu_pa_to_va_def unat_word_ariths unat_sub kaddr_config)
  have split: "(0xFFFF800000000000 + unat pa) div 2 ^ n = 0xFFFF800000000000 div 2 ^ n + unat pa div 2 ^ n" if "n \<le> 39" for n
  proof -
    have "(2::nat) ^ n dvd 2 ^ 47" using that by (intro le_imp_power_dvd) simp
    moreover have "(0xFFFF800000000000::nat) = 2 ^ 47 * 0x1FFFF" by simp
    ultimately show ?thesis by (simp only: div_plus_div_distrib_dvd_left dvd_mult2)
  qed
  show "table_index (mmu_pa_to_va pa) 39 = 256" "table_index (mmu_pa_to_va pa) 30 = unat pa div 2 ^ 30"
    "table_index (mmu_pa_to_va pa) 21 = unat pa div 2 ^ 21 mod 512" "table_index (mmu_pa_to_va pa) 12 = unat pa div 2 ^ 12 mod 512"
    unfolding table_index_eq u using assms(2) by (subst split; simp add: mod_add_eq [symmetric] less_mult_imp_div_less)+
  show "0 < unat pa div 2 ^ 30" using assms(1) by (simp add: div_greater_zero_iff)
qed

lemma direct_map_lookup:
  assumes P: "tables_placed y" and inv: "mmu_inv y g T" and "0x40000000 \<le> unat pa" "unat pa < 2 ^ 39" "block_idx pa \<in> T"
  shows "mmu_lookup_desc y (pt g) (mmu_pa_to_va pa) = leaf y (block_idx pa) (unat pa div 2 ^ 12 mod 512)"
proof -
  note ix = direct_map_indices [OF assms(3,4)]
  have "unat pa div 2 ^ 30 = unat pa div 2 ^ 21 div 512" by (simp add: div_mult2_eq [symmetric])
  then have n: "unat pa div 2 ^ 30 * 512 + unat pa div 2 ^ 21 mod 512 = block_idx pa" by (simp add: block_idx_def)
  show ?thesis unfolding mmu_inv_lookup [OF P inv] ix(2-5) using ix(6) assms(5) n by simp
qed

text \<open>A leaf descriptor translates an address of its block to itself.\<close>

lemma leaf_translates:
  fixes y :: mmu_syms
  assumes "unat pa < 2 ^ 39"
  defines "d \<equiv> leaf y (block_idx pa) (unat pa div 2 ^ 12 mod 512)"
  shows "unat (desc_addr d) + unat pa mod (if desc_type d = DESC_BLOCK then 2 ^ 21 else 2 ^ 12) = unat pa"
proof -
  have n: "block_idx pa < 2 ^ 18" using assms(1) by (simp add: block_idx_def less_mult_imp_div_less)
  have p: "unat pa div 2 ^ 12 mod 512 < 512" by simp
  note f = frame_bits_block [OF n p] and f0 = frame_bits_block [OF n, of 0]
  show ?thesis
  proof (cases "overlaps_kernel y (bpa (block_idx pa))")
    case True
    have ty: "desc_type (page_attr y x) = 3" "desc_addr (page_attr y x) = 0" for x by (simp_all add: page_attr_def attr_fields)
    have dd: "d = bpa (block_idx pa) + 0x1000 * of_nat (unat pa div 2 ^ 12 mod 512) OR page_attr y (bpa (block_idx pa) + 0x1000 * of_nat (unat pa div 2 ^ 12 mod 512))"
      using True page_desc_eq [OF f(2)] by (simp add: d_def leaf_def)
    have "desc_type d = 3" "unat (desc_addr d) = block_idx pa * 0x200000 + 0x1000 * (unat pa div 2 ^ 12 mod 512)"
      unfolding dd frame_desc_fields(1,5) [OF f(2)] ty using f(1) by simp_all
    moreover have q: "q div 512 * 0x200000 + 0x1000 * (q mod 512) = q * 4096" for q :: nat
      using div_mult_mod_eq [of q 512] by linarith
    have "unat pa div 2 ^ 21 = unat pa div 2 ^ 12 div 512" by (simp add: div_mult2_eq [symmetric])
    then have "block_idx pa * 0x200000 + 0x1000 * (unat pa div 2 ^ 12 mod 512) = unat pa div 2 ^ 12 * 2 ^ 12"
      unfolding block_idx_def using q [of "unat pa div 2 ^ 12"] by simp
    ultimately show ?thesis using div_mult_mod_eq [of "unat pa" "2 ^ 12"] by (simp add: DESC_BLOCK_def)
  next
    case False
    have dd: "d = bpa (block_idx pa) OR 0x60000000000701" using False by (simp add: d_def leaf_def block_desc_eq)
    have "frame_bits (bpa (block_idx pa))" "unat (bpa (block_idx pa)) = block_idx pa * 0x200000" using f0 by simp_all
    then have "desc_type d = 1" "unat (desc_addr d) = block_idx pa * 0x200000"
      unfolding dd using frame_desc_fields(1,5) attr_fields(4,20) by simp_all
    then show ?thesis using div_mult_mod_eq [of "unat pa" "2 ^ 21"] by (simp add: DESC_BLOCK_def block_idx_def)
  qed
qed

text \<open>
  The architecture's reading of a leaf: AP[2] (bit 7) clear makes it writable, PXN (bit 53) clear executable
  at EL1, UXN (bit 54) clear executable at EL0. Code frames are the vectors and the two text segments.
\<close>

definition writable :: "u64 \<Rightarrow> bool" where
  "writable d \<longleftrightarrow> \<not> bit d 7"

definition el1_exec :: "u64 \<Rightarrow> bool" where
  "el1_exec d \<longleftrightarrow> \<not> bit d 53"

definition el0_exec :: "u64 \<Rightarrow> bool" where
  "el0_exec d \<longleftrightarrow> \<not> bit d 54"

definition code_frame :: "mmu_syms \<Rightarrow> u64 \<Rightarrow> bool" where
  "code_frame y pa \<longleftrightarrow> pa = virt_to_phys (kernel_vectors y) AND NOT 0xFFF \<or> in_segment (text_start y) (text_end y) pa \<or>
     in_segment (core_text_start y) (core_text_end y) pa"

definition wx_ok :: "mmu_syms \<Rightarrow> u64 \<Rightarrow> bool" where
  "wx_ok y d \<longleftrightarrow> (writable d \<longrightarrow> \<not> el1_exec d \<and> \<not> el0_exec d) \<and> (el1_exec d \<or> el0_exec d \<longrightarrow> code_frame y (desc_addr d))"

lemmas wx_defs = wx_ok_def writable_def el1_exec_def el0_exec_def

lemma frame_attr_bits:
  assumes "frame_bits pa"
  shows "bit (pa OR c) 7 = bit c 7" "bit (pa OR c) 53 = bit c 53" "bit (pa OR c) 54 = bit c 54"
proof -
  have "pa AND 0xFFFF000000000FFF = 0" using frame_and [OF assms, of "0xFFFF000000000FFF"] by simp
  then have "bit (pa AND 0xFFFF000000000FFF) n = False" for n by simp
  from this [of 7] this [of 53] this [of 54]
  show "bit (pa OR c) 7 = bit c 7" "bit (pa OR c) 53 = bit c 53" "bit (pa OR c) 54 = bit c 54"
    by (simp_all add: bit_and_iff bit_or_iff bit_numeral_simps)
qed

lemma attr_bits:
  "bit (0x783 :: u64) 7" "\<not> bit (0x783 :: u64) 53" "\<not> bit (0x783 :: u64) 54"
  "bit (0x60000000000783 :: u64) 7" "bit (0x60000000000783 :: u64) 53" "bit (0x60000000000783 :: u64) 54"
  "bit (0x60000000000703 :: u64) 53" "bit (0x60000000000703 :: u64) 54"
  "bit (0x60000000000701 :: u64) 53" "bit (0x60000000000701 :: u64) 54"
  by (simp_all add: bit_numeral_simps)

lemma leaf_wx:
  assumes "n < 2 ^ 18" "p < 512"
  shows "wx_ok y (leaf y n p)"
proof (cases "overlaps_kernel y (bpa n)")
  case True
  let ?pa = "bpa n + 0x1000 * of_nat p"
  note f = frame_bits_block(2) [OF assms]
  have "desc_addr (page_attr y ?pa) = 0" by (simp add: page_attr_def attr_fields)
  then have a: "desc_addr (leaf y n p) = ?pa"
    using True frame_desc_fields(5) [OF f] by (simp add: leaf_def page_desc_eq [OF f])
  have "bit (page_attr y ?pa) 7 \<or> bit (page_attr y ?pa) 53 \<and> bit (page_attr y ?pa) 54"
    and "code_frame y ?pa \<or> bit (page_attr y ?pa) 53 \<and> bit (page_attr y ?pa) 54"
    by (auto simp: page_attr_def attr_bits code_frame_def)
  then show ?thesis unfolding wx_defs a using True unfolding leaf_def by (auto simp: page_desc_eq [OF f] frame_attr_bits [OF f])
next
  case False
  have "frame_bits (bpa n)" using frame_bits_block(2) [OF assms(1), of 0] by simp
  then show ?thesis using False by (simp add: wx_defs leaf_def block_desc_eq frame_attr_bits attr_bits)
qed

lemma dev_desc_wx: "wx_ok y dev_desc"
proof -
  have d: "dev_desc = 0x60000000000405" by (simp add: dev_desc_def desc_consts)
  have "bit (0x60000000000405 :: u64) 53" "bit (0x60000000000405 :: u64) 54" by (simp_all add: bit_numeral_simps)
  then show ?thesis unfolding wx_defs d by blast
qed

lemma lookup_wx:
  assumes "tables_placed y" "mmu_inv y g T" "mmu_lookup_desc y (pt g) va \<noteq> 0"
  shows "wx_ok y (mmu_lookup_desc y (pt g) va)"
proof -
  have "table_index va 30 * 512 + table_index va 21 < 2 ^ 18" using table_index_less [of va 30] table_index_less [of va 21] by simp
  then show ?thesis using assms(3) dev_desc_wx leaf_wx [OF _ table_index_less [of va 12]]
    unfolding mmu_inv_lookup [OF assms(1,2)] by (auto simp: Let_def split: if_splits)
qed

section \<open>Initialisation\<close>

definition zero_tables :: "mmu_syms \<Rightarrow> mmu_globals \<Rightarrow> bool" where
  "zero_tables y g \<longleftrightarrow> (\<forall>t i. tvalid t \<and> i < 512 \<longrightarrow> tv y (pt g) t i = 0)"

lemma mmu_tables_init_inv:
  assumes P: "tables_placed y" and "zero_tables y g" "l3_pool_used g = 0"
  shows "mmu_inv y (mmu_tables_init y (page_alloc_init y g)) {}" "l2_in_use (mmu_tables_init y (page_alloc_init y g)) = {}"
proof -
  let ?g = "mmu_tables_init y (page_alloc_init y g)"
  have p: "pt (page_alloc_init y g) = pt g" "l3_pool_used (page_alloc_init y g) = 0" using assms(3) by (simp_all add: page_alloc_init_def Let_def)
  have pt: "pt ?g = ((pt g)(tw (taddr y L0) 256 := td y L1))(tw (taddr y L1) 0 := dev_desc)" by (simp add: mmu_tables_init_def td_def p)
  have view: "tv y (pt ?g) t i = (if t = L1 \<and> i = 0 then dev_desc else if t = L0 \<and> i = 256 then td y L1 else 0)" if "tvalid t" "i < 512" for t i
    unfolding pt using that assms(2) by (simp add: tv_update [OF P] zero_tables_def del: fun_upd_apply taddr.simps)
  have l2: "l2_for_l1 ?g i = 0" if "i < 512" for i using that by (simp add: mmu_tables_init_def)
  show u: "l2_in_use ?g = {}" using l2 by (auto simp: l2_in_use_def)
  have "l2_ok y ?g {} i" if "0 < i" "i < 512" for i using that l2 view [of L1 i] by (simp add: l2_ok_def)
  moreover have "l2_tables_used ?g = 0" "l3_pool_used ?g = 0" using p by (simp_all add: mmu_tables_init_def)
  ultimately show "mmu_inv y ?g {}" using u view [of L0] view [of L1 0] by (simp add: mmu_inv_def)
qed

definition boot_blocks :: "dtb_globals \<Rightarrow> u64 list" where
  "boot_blocks dg = concat (map range_blocks (ram_ranges (g_mem_ranges dg \<noteq> []) (take MMU_MAX_MEMORY_RANGES (g_mem_ranges dg))))"

definition mmu_ready :: "mmu_syms \<Rightarrow> mmu_globals \<Rightarrow> dtb_globals \<Rightarrow> bool" where
  "mmu_ready y g dg \<longleftrightarrow> tables_placed y \<and> zero_tables y g \<and> l3_pool_used g = 0 \<and> g_parsed dg \<and>
     (\<forall>pa\<in>set (boot_blocks dg). mapped pa \<longrightarrow> unat pa div 2 ^ 30 \<le> 128) \<and> l3_needed y (boot_blocks dg) \<le> 64"

lemma block_mask: "RAM_BLOCK_SIZE - 1 = mask 21"
  by (simp add: RAM_BLOCK_SIZE_def mask_eq_exp_minus_1)

lemma unat_align_down_2m: "unat (align_down_2m x) = unat x div 0x200000 * 0x200000"
  unfolding align_down_2m_def block_mask unat_and_not_mask by simp

lemma unat_align_up_2m:
  assumes "unat x + 0x1FFFFF < 2 ^ 64"
  shows "unat (align_up_2m x) = (unat x + 0x1FFFFF) div 0x200000 * 0x200000"
proof -
  have "unat (x + (RAM_BLOCK_SIZE - 1)) = unat x + 0x1FFFFF" using assms by (simp add: RAM_BLOCK_SIZE_def unat_word_ariths)
  then show ?thesis unfolding align_up_2m_def by (simp add: block_mask unat_and_not_mask)
qed

lemma block_aligned_dvd: "block_aligned x \<longleftrightarrow> 2 ^ 21 dvd x"
proof -
  have "unat (x AND mask 21) = unat x mod 0x200000" by (simp add: flip: take_bit_eq_mask) (simp add: take_bit_eq_mod unat_mod)
  then have "block_aligned x \<longleftrightarrow> take_bit 21 x = 0" by (simp add: block_aligned_def dvd_eq_mod_eq_0 take_bit_eq_mask flip: unat_eq_zero)
  then show ?thesis by (simp add: take_bit_eq_0_iff)
qed

lemma range_blocks_aligned: "pa \<in> set (range_blocks r) \<Longrightarrow> block_aligned pa"
proof -
  assume "pa \<in> set (range_blocks r)"
  then obtain s k where pa: "pa = align_down_2m s + of_nat k * RAM_BLOCK_SIZE" by (auto simp: range_blocks_def Let_def split: if_splits)
  have "block_aligned (align_down_2m s)" by (simp add: block_aligned_def unat_align_down_2m)
  moreover have "(2 ^ 21 :: u64) dvd of_nat k * RAM_BLOCK_SIZE" by (simp add: RAM_BLOCK_SIZE_def)
  ultimately show ?thesis unfolding pa block_aligned_dvd by (rule dvd_add)
qed

lemma mmu_ready_build:
  assumes "mmu_ready y g dg"
  obtains g2 where "map_blocks y (boot_blocks dg) (mmu_tables_init y (page_alloc_init y g)) = Ret g2"
    "mmu_inv y g2 (block_idx ` {pa \<in> set (boot_blocks dg). mapped pa})"
proof -
  have P: "tables_placed y" "zero_tables y g" "l3_pool_used g = 0" "l3_needed y (boot_blocks dg) \<le> 64" using assms by (simp_all add: mmu_ready_def)
  note i = mmu_tables_init_inv [OF P(1-3)]
  have "low_blocks (boot_blocks dg)" using assms range_blocks_aligned by (auto simp: low_blocks_def mmu_ready_def boot_blocks_def)
  moreover have "l3_pool_used (mmu_tables_init y (page_alloc_init y g)) = 0" using P(3) by (simp add: mmu_tables_init_def page_alloc_init_def Let_def)
  ultimately show ?thesis using map_blocks_inv [OF P(1) i(1), of "boot_blocks dg"] i(2) P(4) that by auto
qed

text \<open>Every address of a memory range lies in one of its blocks.\<close>

lemma range_blocks_cover:
  assumes "unat (r_base r) + unat (r_size r) + 0x1FFFFF < 2 ^ 64" "a \<in> rset r" "0x40000000 \<le> a"
  shows "\<exists>pa\<in>set (range_blocks r). block_idx pa = a div 0x200000"
proof -
  let ?e = "unat (r_base r) + unat (r_size r)"
  define st where "st = (if r_base r < CAPAZ_RAM_BASE then CAPAZ_RAM_BASE else r_base r)"
  have e: "unat (r_base r + r_size r) = ?e" using assms(1) by (simp add: unat_add_no_wrap)
  have a: "unat (r_base r) \<le> a" "a < ?e" using assms(2) by (simp_all add: rset_def)
  have st: "unat st \<le> a" using a(1) assms(3) by (auto simp: st_def kaddr_config)
  define lo where "lo = align_down_2m st"
  define hi where "hi = align_up_2m (r_base r + r_size r)"
  have lo: "unat lo = unat st div 0x200000 * 0x200000" by (simp add: lo_def unat_align_down_2m)
  have hi: "unat hi = (?e + 0x1FFFFF) div 0x200000 * 0x200000" using assms(1) by (simp add: hi_def unat_align_up_2m e)
  define n where "n = (?e + 0x1FFFFF) div 0x200000 - unat st div 0x200000"
  define k where "k = a div 0x200000 - unat st div 0x200000"
  have q: "unat st div 0x200000 \<le> a div 0x200000" using st by (rule div_le_mono)
  have "a + 0x200000 \<le> ?e + 0x1FFFFF" using a(2) by simp
  then have "(a + 0x200000) div 0x200000 \<le> (?e + 0x1FFFFF) div 0x200000" by (rule div_le_mono)
  then have h: "a div 0x200000 < (?e + 0x1FFFFF) div 0x200000" by simp
  then have k: "k < n" unfolding k_def n_def using q by (rule diff_less_mono)
  have lt: "lo < hi" unfolding word_less_nat_alt lo hi using h q by simp
  have "unat (hi - lo) = unat hi - unat lo" using lt by (simp add: unat_sub)
  then have cnt: "unat ((hi - lo) div RAM_BLOCK_SIZE) = n" unfolding unat_div lo hi n_def by (simp add: RAM_BLOCK_SIZE_def diff_mult_distrib [symmetric])
  have "\<not> r_base r + r_size r \<le> CAPAZ_RAM_BASE" using a(2) assms(3) by (simp add: word_le_nat_alt e kaddr_config)
  then have "lo + of_nat k * RAM_BLOCK_SIZE \<in> set (range_blocks r)"
    using lt k cnt by (auto simp: range_blocks_def Let_def simp flip: st_def lo_def hi_def)
  moreover have "unat (lo + of_nat k * RAM_BLOCK_SIZE) = a div 0x200000 * 0x200000"
  proof -
    have "lo = of_nat (unat st div 0x200000 * 0x200000)" unfolding lo [symmetric] by simp
    then have "lo + of_nat k * RAM_BLOCK_SIZE = of_nat (a div 0x200000 * 0x200000)"
      using q by (simp add: RAM_BLOCK_SIZE_def k_def algebra_simps of_nat_diff)
    moreover have "a div 0x200000 * 0x200000 < 2 ^ 64" using a(2) assms(1) by (intro le_less_trans [OF div_times_less_eq_dividend]) simp
    ultimately show ?thesis by (simp only: unat_of_nat) simp
  qed
  then have "block_idx (lo + of_nat k * RAM_BLOCK_SIZE) = a div 0x200000" by (simp add: block_idx_def)
  ultimately show ?thesis by blast
qed

section \<open>The self test\<close>

text \<open>
  A linked image whose sections start on page boundaries inside the kernel image, in the order the layout
  checks ask for, with the exception vectors in the text section, in memory the device tree describes.
\<close>

definition sections :: "mmu_syms \<Rightarrow> u64 list" where
  "sections y = [text_start y, rodata_start y, data_start y, bss_start y] @
     (if core_text y then [core_text_start y] else []) @ (if core_rodata y then [core_rodata_start y] else []) @
     (if core_data y then [core_data_start y] else []) @ (if core_bss y then [core_bss_start y] else [])"

definition hh_addr :: "u64 \<Rightarrow> bool" where
  "hh_addr a \<longleftrightarrow> 0xFFFF800040000000 \<le> unat a \<and> unat a < 0xFFFF800080000000"

definition in_memory :: "dtb_globals \<Rightarrow> nat \<Rightarrow> bool" where
  "in_memory dg a \<longleftrightarrow> (\<exists>r\<in>set (ram_ranges (g_mem_ranges dg \<noteq> []) (take MMU_MAX_MEMORY_RANGES (g_mem_ranges dg))).
     unat (r_base r) + unat (r_size r) + 0x1FFFFF < 2 ^ 64 \<and> a \<in> rset r)"

definition image_ok :: "mmu_syms \<Rightarrow> dtb_globals \<Rightarrow> bool" where
  "image_ok y dg \<longleftrightarrow>
     (\<forall>c\<in>set (layout_checks y). fst c) \<and>
     (\<forall>a\<in>set (sections y). page_aligned a \<and> hh_addr a \<and> kernel_image_start y \<le> a \<and> a < kernel_runtime_end y \<and> in_memory dg (unat (virt_to_phys a))) \<and>
     (\<forall>a\<in>{text_end y, rodata_end y, core_text_start y, core_text_end y, core_rodata_start y, core_rodata_end y, kernel_image_start y, kernel_runtime_end y}. hh_addr a) \<and>
     (\<exists>v. page_aligned v \<and> hh_addr v \<and> text_start y \<le> v \<and> v < text_end y \<and> virt_to_phys (kernel_vectors y) AND NOT 0xFFF = virt_to_phys v)"

lemma hh_phys:
  assumes "hh_addr a"
  shows "unat (virt_to_phys a) = unat a - 0xFFFF800000000000" "mmu_pa_to_va (virt_to_phys a) = a"
    "0x40000000 \<le> unat (virt_to_phys a)" "unat (virt_to_phys a) < 2 ^ 39"
proof -
  have b: "0xFFFF800040000000 \<le> unat a" "unat a < 0xFFFF800080000000" using assms by (simp_all add: hh_addr_def)
  have hi: "CAPAZ_HH_RAM_BASE \<le> a" using b(1) by (simp add: word_le_nat_alt kaddr_config)
  then have u: "unat (a - CAPAZ_HH_RAM_BASE) = unat a - 0xFFFF800040000000" by (simp add: unat_sub kaddr_config)
  show p: "unat (virt_to_phys a) = unat a - 0xFFFF800000000000"
    using hi u b by (simp add: virt_to_phys_def unat_word_ariths) (simp add: kaddr_config)
  show "mmu_pa_to_va (virt_to_phys a) = a" using hi by (simp add: mmu_pa_to_va_def virt_to_phys_def)
  show "0x40000000 \<le> unat (virt_to_phys a)" "unat (virt_to_phys a) < 2 ^ 39" unfolding p using b by simp_all
qed

lemma hh_phys_mono:
  assumes "hh_addr a" "hh_addr b"
  shows "virt_to_phys a \<le> virt_to_phys b \<longleftrightarrow> a \<le> b" "virt_to_phys a < virt_to_phys b \<longleftrightarrow> a < b"
  using assms unfolding word_le_nat_alt word_less_nat_alt hh_phys(1) [OF assms(1)] hh_phys(1) [OF assms(2)]
  by (auto simp: hh_addr_def)

lemma in_memory_mapped:
  assumes "in_memory dg (unat pa)" "0x40000000 \<le> unat pa" "unat pa < 2 ^ 39"
  shows "block_idx pa \<in> block_idx ` {pa \<in> set (boot_blocks dg). mapped pa}"
proof -
  obtain r where r: "r \<in> set (ram_ranges (g_mem_ranges dg \<noteq> []) (take MMU_MAX_MEMORY_RANGES (g_mem_ranges dg)))"
    "unat (r_base r) + unat (r_size r) + 0x1FFFFF < 2 ^ 64" "unat pa \<in> rset r" using assms(1) by (auto simp: in_memory_def)
  obtain pb where pb: "pb \<in> set (range_blocks r)" "block_idx pb = unat pa div 0x200000" using range_blocks_cover [OF r(2,3) assms(2)] by blast
  have un: "unat pb = unat pa div 0x200000 * 0x200000"
    using range_blocks_aligned [OF pb(1)] pb(2) by (auto simp: block_idx_def block_aligned_def elim!: dvdE)
  have "unat pa div 0x200000 * 0x200000 div (512 * 0x200000) = unat pa div 0x200000 div 512" by (rule div_mult_mult2) simp
  then have d30: "unat pb div 2 ^ 30 = unat pa div 2 ^ 30" unfolding un by (simp add: div_mult2_eq [symmetric])
  have "0 < unat pa div 2 ^ 30" "unat pa div 2 ^ 30 < 512" using assms(2,3) by (simp_all add: div_greater_zero_iff less_mult_imp_div_less)
  then have mp: "mapped pb" unfolding mapped_def d30 by simp
  have "block_idx pa = block_idx pb" using pb(2) by (simp add: block_idx_def)
  then show ?thesis using mp pb(1) r(1) by (auto simp: boot_blocks_def)
qed

text \<open>The descriptor of a section start.\<close>

lemma section_lookup:
  assumes P: "tables_placed y" and inv: "mmu_inv y g (block_idx ` {pa \<in> set (boot_blocks dg). mapped pa})"
    and a: "hh_addr a" "page_aligned a" "kernel_image_start y \<le> a" "a < kernel_runtime_end y" "in_memory dg (unat (virt_to_phys a))"
    and hh: "hh_addr (kernel_image_start y)" "hh_addr (kernel_runtime_end y)"
  shows "mmu_lookup_desc y (pt g) a = virt_to_phys a OR page_attr y (virt_to_phys a) \<and> frame_bits (virt_to_phys a)"
proof -
  let ?pa = "virt_to_phys a"
  note h = hh_phys [OF a(1)]
  have T: "block_idx ?pa \<in> block_idx ` {pa \<in> set (boot_blocks dg). mapped pa}" using in_memory_mapped [OF a(5) h(3,4)] .
  have n: "block_idx ?pa < 2 ^ 18" using h(4) by (simp add: block_idx_def less_mult_imp_div_less)
  have bpa: "unat (bpa (block_idx ?pa)) = unat ?pa div 0x200000 * 0x200000" using frame_bits_block(1) [OF n, of 0] by (simp add: block_idx_def)
  have lim: "unat ?pa < 0x80000000" using h(1) a(1) unfolding hh_addr_def by linarith
  have "unat (bpa (block_idx ?pa) + RAM_BLOCK_SIZE) = unat ?pa div 0x200000 * 0x200000 + 0x200000"
    using bpa lim by (simp add: unat_word_ariths RAM_BLOCK_SIZE_def)
  moreover have "unat ?pa < unat ?pa div 0x200000 * 0x200000 + 0x200000" using mod_less_divisor [of "0x200000" "unat ?pa"] div_mult_mod_eq [of "unat ?pa" "0x200000"] by linarith
  ultimately have ov: "overlaps_kernel y (bpa (block_idx ?pa))"
    using hh_phys_mono [OF hh(1) a(1)] hh_phys_mono [OF a(1) hh(2)] a(3,4) bpa
    unfolding overlaps_kernel_def word_le_nat_alt word_less_nat_alt by simp
  have "4096 dvd unat ?pa" using hh_phys(1) [OF a(1)] a(1,2) by (auto simp: page_aligned_iff hh_addr_def elim!: dvdE)
  then have fb: "frame_bits ?pa" using h(4) by (simp add: frame_bits_iff)
  have "unat (bpa (block_idx ?pa) + 0x1000 * of_nat (unat ?pa div 2 ^ 12 mod 512)) = unat ?pa"
  proof -
    have q: "q div 512 * 0x200000 + 0x1000 * (q mod 512) = q * 4096" for q :: nat using div_mult_mod_eq [of q 512] by linarith
    have "unat ?pa div 0x200000 = unat ?pa div 2 ^ 12 div 512" by (simp add: div_mult2_eq [symmetric])
    then show ?thesis using frame_bits_block(1) [OF n, of "unat ?pa div 2 ^ 12 mod 512"] q [of "unat ?pa div 2 ^ 12"] \<open>4096 dvd unat ?pa\<close> by (simp add: block_idx_def)
  qed
  then have "leaf y (block_idx ?pa) (unat ?pa div 2 ^ 12 mod 512) = page_desc y ?pa" using ov by (simp add: leaf_def word_unat_eq_iff [symmetric])
  then show ?thesis using direct_map_lookup [OF P inv h(3,4) T] h(2) page_desc_eq [OF fb] fb by simp
qed

lemma run_checks_pass: "\<forall>c\<in>set cs. fst c \<Longrightarrow> run_checks cs g = Ret g"
  by (induction cs) (auto simp: mmu_check_def)

lemma run_expects_pass: "\<forall>(va, x, ro, dev)\<in>set es. mmu_expect_page y va x ro dev g = Ret g \<Longrightarrow> run_expects y es g = Ret g"
  by (induction es) auto

definition page_seg :: "u64 \<Rightarrow> u64 \<Rightarrow> u64 \<Rightarrow> bool" where
  "page_seg start stop a \<longleftrightarrow> start \<le> a \<and> a < stop"

lemma page_attr_section:
  assumes "image_ok y dg" "hh_addr a" "page_aligned a"
  shows "page_seg (text_start y) (text_end y) a \<Longrightarrow> page_attr y (virt_to_phys a) = 0x783"
    and "\<not> page_seg (text_start y) (text_end y) a \<Longrightarrow> page_attr y (virt_to_phys a) =
      (if page_seg (rodata_start y) (rodata_end y) a then 0x60000000000783
       else if page_seg (core_text_start y) (core_text_end y) a then 0x783
       else if page_seg (core_rodata_start y) (core_rodata_end y) a then 0x60000000000783 else 0x60000000000703)"
proof -
  obtain v where v: "hh_addr v" "text_start y \<le> v" "v < text_end y" "virt_to_phys (kernel_vectors y) AND NOT 0xFFF = virt_to_phys v"
    using assms(1) by (auto simp: image_ok_def)
  have hh: "hh_addr (text_start y)" "hh_addr (text_end y)" "hh_addr (rodata_start y)" "hh_addr (rodata_end y)" "hh_addr (core_text_start y)"
    "hh_addr (core_text_end y)" "hh_addr (core_rodata_start y)" "hh_addr (core_rodata_end y)"
    using assms(1) by (simp_all add: image_ok_def sections_def)
  have s: "in_segment b e (virt_to_phys a) \<longleftrightarrow> page_seg b e a" if "hh_addr b" "hh_addr e" for b e
    unfolding in_segment_def page_seg_def hh_phys_mono(1) [OF that(1) assms(2)] hh_phys_mono(2) [OF assms(2) that(2)] ..
  have vec: "virt_to_phys a = virt_to_phys v \<longleftrightarrow> a = v" using hh_phys(2) [OF assms(2)] hh_phys(2) [OF v(1)] by metis
  show "page_seg (text_start y) (text_end y) a \<Longrightarrow> page_attr y (virt_to_phys a) = 0x783" by (simp add: page_attr_def s hh)
  assume n: "\<not> page_seg (text_start y) (text_end y) a"
  then have "a \<noteq> v" using v by (auto simp: page_seg_def)
  then show "page_attr y (virt_to_phys a) =
      (if page_seg (rodata_start y) (rodata_end y) a then 0x60000000000783
       else if page_seg (core_text_start y) (core_text_end y) a then 0x783
       else if page_seg (core_rodata_start y) (core_rodata_end y) a then 0x60000000000783 else 0x60000000000703)"
    using n unfolding page_attr_def v(4) vec by (simp add: s hh)
qed

lemma expect_section:
  assumes "tables_placed y" "mmu_inv y g (block_idx ` {pa \<in> set (boot_blocks dg). mapped pa})" "image_ok y dg" "a \<in> set (sections y)"
    "page_attr y (virt_to_phys a) = (if x then 0x783 else if ro then 0x60000000000783 else 0x60000000000703)" "x \<longrightarrow> ro"
  shows "mmu_expect_page y a x ro False g = Ret g"
proof -
  have a: "hh_addr a" "page_aligned a" "kernel_image_start y \<le> a" "a < kernel_runtime_end y" "in_memory dg (unat (virt_to_phys a))"
    "hh_addr (kernel_image_start y)" "hh_addr (kernel_runtime_end y)"
    using assms(3,4) by (auto simp: image_ok_def)
  define c :: u64 where "c = (if x then 0x783 else if ro then 0x60000000000783 else 0x60000000000703)"
  have l: "mmu_lookup_desc y (pt g) a = virt_to_phys a OR c" "frame_bits (virt_to_phys a)"
    using section_lookup [OF assms(1,2) a] assms(5) by (simp_all add: c_def)
  note f = frame_desc_fields [OF l(2), of c]
  have "desc_type c = 3" by (simp add: c_def attr_fields)
  then have nz: "virt_to_phys a OR c \<noteq> 0" using f(1) by (auto simp: desc_type_def)
  show ?thesis unfolding mmu_expect_page_def l(1) Let_def f using nz \<open>desc_type c = 3\<close> assms(6) by (auto simp: DESC_PAGE_def DESC_BLOCK_def c_def attr_fields)
qed

lemma layout_orders:
  assumes "image_ok y dg"
  shows "text_start y < text_end y" "rodata_start y < rodata_end y" "text_end y \<le> rodata_start y"
    "core_text y \<Longrightarrow> rodata_end y \<le> core_text_start y \<and> core_text_start y < core_text_end y"
    "core_rodata y \<Longrightarrow> rodata_end y \<le> core_rodata_start y \<and> core_rodata_start y < core_rodata_end y \<and> (core_text y \<longrightarrow> core_text_end y \<le> core_rodata_start y)"
    "rodata_end y \<le> data_start y \<and> (core_text y \<longrightarrow> core_text_end y \<le> data_start y) \<and> (core_rodata y \<longrightarrow> core_rodata_end y \<le> data_start y)"
    "data_start y \<le> bss_start y" "core_data y \<Longrightarrow> data_start y \<le> core_data_start y" "core_bss y \<Longrightarrow> data_start y \<le> core_bss_start y"
proof -
  have "\<forall>c\<in>set (layout_checks y). fst c" using assms by (simp add: image_ok_def)
  then show "text_start y < text_end y" "rodata_start y < rodata_end y" "text_end y \<le> rodata_start y"
    "core_text y \<Longrightarrow> rodata_end y \<le> core_text_start y \<and> core_text_start y < core_text_end y"
    "core_rodata y \<Longrightarrow> rodata_end y \<le> core_rodata_start y \<and> core_rodata_start y < core_rodata_end y \<and> (core_text y \<longrightarrow> core_text_end y \<le> core_rodata_start y)"
    "rodata_end y \<le> data_start y \<and> (core_text y \<longrightarrow> core_text_end y \<le> data_start y) \<and> (core_rodata y \<longrightarrow> core_rodata_end y \<le> data_start y)"
    "data_start y \<le> bss_start y" "core_data y \<Longrightarrow> data_start y \<le> core_data_start y" "core_bss y \<Longrightarrow> data_start y \<le> core_bss_start y"
    unfolding layout_checks_def Let_def word_le_nat_alt word_less_nat_alt by (auto split: if_splits)
qed

lemma selftest_passes:
  assumes "tables_placed y" "mmu_inv y g (block_idx ` {pa \<in> set (boot_blocks dg). mapped pa})" "image_ok y dg"
  shows "mmu_assert_layout_and_wx y g = Ret g"
proof -
  have "run_checks (layout_checks y) g = Ret g" using assms(3) by (intro run_checks_pass) (simp add: image_ok_def)
  moreover have "run_expects y (permission_checks y) g = Ret g"
  proof (rule run_expects_pass)
    note lo = layout_orders [OF assms(3)]
    note ex = expect_section [OF assms(1-3)]
    have sec: "hh_addr a" "page_aligned a" if "a \<in> set (sections y)" for a using assms(3) that by (simp_all add: image_ok_def)
    note pa = page_attr_section [OF assms(3) sec]
    have pos: "\<not> page_seg (text_start y) (text_end y) a \<and> \<not> page_seg (rodata_start y) (rodata_end y) a \<and>
        \<not> page_seg (core_text_start y) (core_text_end y) a \<and> \<not> page_seg (core_rodata_start y) (core_rodata_end y) a" if "data_start y \<le> a" for a
      using that lo by (cases "core_text y"; cases "core_rodata y") (auto simp: page_seg_def core_text_def core_rodata_def)
    have rw: "mmu_expect_page y a False False False g = Ret g" if "a \<in> set (sections y)" "data_start y \<le> a" for a
      using ex [OF that(1), of False False] pa(2) [OF that(1) that(1)] pos [OF that(2)] by simp
    have t: "mmu_expect_page y (text_start y) True True False g = Ret g"
      using ex [of "text_start y" True True] pa(1) [of "text_start y"] lo(1) by (simp add: sections_def page_seg_def)
    have r: "mmu_expect_page y (rodata_start y) False True False g = Ret g"
      using ex [of "rodata_start y" False True] pa(2) [of "rodata_start y"] lo(2,3) by (simp add: sections_def page_seg_def not_less)
    have ct: "mmu_expect_page y (core_text_start y) True True False g = Ret g" if c: "core_text y"
    proof -
      have "\<not> page_seg (text_start y) (text_end y) (core_text_start y)" "\<not> page_seg (rodata_start y) (rodata_end y) (core_text_start y)"
        "page_seg (core_text_start y) (core_text_end y) (core_text_start y)"
        using lo(2,3) lo(4) [OF c] by (auto simp: page_seg_def)
      then show ?thesis using ex [of "core_text_start y" True True] pa(2) [of "core_text_start y"] c by (simp add: sections_def)
    qed
    have cr: "mmu_expect_page y (core_rodata_start y) False True False g = Ret g" if c: "core_rodata y"
    proof -
      have "\<not> page_seg (text_start y) (text_end y) (core_rodata_start y)" "\<not> page_seg (rodata_start y) (rodata_end y) (core_rodata_start y)"
        "\<not> page_seg (core_text_start y) (core_text_end y) (core_rodata_start y)" "page_seg (core_rodata_start y) (core_rodata_end y) (core_rodata_start y)"
        using lo(2,3) lo(5) [OF c] by (auto simp: page_seg_def core_text_def)
      then show ?thesis using ex [of "core_rodata_start y" False True] pa(2) [of "core_rodata_start y"] c by (simp add: sections_def)
    qed
    have dev: "mmu_expect_page y 0xFFFF800009000000 False False True g = Ret g"
      using mmu_inv_lookup [OF assms(1,2), where va = "0xFFFF800009000000"] dev_desc_fields
      by (simp add: mmu_expect_page_def table_index_eq DESC_BLOCK_def)
    show "\<forall>(va, x, ro, dev)\<in>set (permission_checks y). mmu_expect_page y va x ro dev g = Ret g"
      using t r ct cr dev rw [of "data_start y"] rw [of "bss_start y"] rw [of "core_data_start y"] rw [of "core_bss_start y"] lo(7-9)
      by (auto simp: permission_checks_def sections_def)
  qed
  ultimately show ?thesis by (simp add: mmu_assert_layout_and_wx_def)
qed

lemma mmu_init_run:
  assumes "mmu_ready y g dg" "image_ok y dg"
  obtains g' where "mmu_init m y g dg = Ret (g', dg)" "mmu_inv y g' (block_idx ` {pa \<in> set (boot_blocks dg). mapped pa})"
    "ttbr1_el1 g' = virt_to_phys (l0_table y)" "ttbr0_el1 g' = 0" "bit (sctlr_el1 g') 19" "bit (tcr_el1 g') 7"
proof -
  obtain g2 where g2: "map_blocks y (boot_blocks dg) (mmu_tables_init y (page_alloc_init y g)) = Ret g2"
    "mmu_inv y g2 (block_idx ` {pa \<in> set (boot_blocks dg). mapped pa})"
    using assms(1) by (rule mmu_ready_build)
  define g' where "g' = mmu_install y g2"
  have same: "pt g' = pt g2" "l2_for_l1 g' = l2_for_l1 g2" "l2_tables_used g' = l2_tables_used g2" "l3_pool_used g' = l3_pool_used g2"
    by (simp_all add: g'_def mmu_install_def)
  have inv: "mmu_inv y g' (block_idx ` {pa \<in> set (boot_blocks dg). mapped pa})"
    using g2(2) unfolding mmu_inv_def l2_ok_def entry_ok_def l2_in_use_def same .
  have P: "tables_placed y" "g_parsed dg" using assms(1) by (simp_all add: mmu_ready_def)
  have t: "mmu_assert_layout_and_wx y g' = Ret g'" using P(1) inv assms(2) by (rule selftest_passes)
  have "mmu_init m y g dg = Ret (g', dg)"
    using g2(1) t parsed_results [OF P(2)] by (simp add: mmu_init_def boot_blocks_def g'_def)
  moreover have "ttbr1_el1 g' = virt_to_phys (l0_table y)" "ttbr0_el1 g' = 0" "bit (sctlr_el1 g') 19" "bit (tcr_el1 g') 7"
    by (simp_all add: g'_def mmu_install_def bit_simps TCR_BOOT_def)
  ultimately show ?thesis using that inv by blast
qed

section \<open>An example machine\<close>

text \<open>Eight megabytes of memory and an image of 3 MiB behind the first 2 MiB, without core sections.\<close>

definition ex_syms :: mmu_syms where
  "ex_syms = \<lparr>l0_table = 0xFFFF800040400000, l1_table = 0xFFFF800040401000, l2_tables = 0xFFFF800040402000,
     l3_pool = 0xFFFF800040482000, kernel_vectors = 0xFFFF800040200800, text_start = 0xFFFF800040200000, text_end = 0xFFFF800040240000,
     rodata_start = 0xFFFF800040240000, rodata_end = 0xFFFF800040280000, data_start = 0xFFFF800040280000, data_end = 0xFFFF8000402C0000,
     bss_start = 0xFFFF8000402C0000, bss_end = 0xFFFF800040500000, core_text_start = 0xFFFF800040280000, core_text_end = 0xFFFF800040280000,
     core_rodata_start = 0xFFFF800040280000, core_rodata_end = 0xFFFF800040280000, core_data_start = 0xFFFF8000402C0000, core_data_end = 0xFFFF8000402C0000,
     core_bss_start = 0xFFFF800040500000, core_bss_end = 0xFFFF800040500000, kernel_image_start = 0xFFFF800040200000, kernel_runtime_end = 0xFFFF800040500000\<rparr>"

definition ex_mmu :: mmu_globals where
  "ex_mmu = \<lparr>pt = (\<lambda>_. 0), l2_tables_used = 0, l2_for_l1 = (\<lambda>_. 0), l3_pool_used = 0, alloc_phys = 0, alloc_virt = 0, sp_reg = 0x40100000,
     vbar_el1 = 0, ttbr0_el1 = 0x40080000, ttbr1_el1 = 0x40080000, mair_el1 = 0, tcr_el1 = TCR_BOOT, sctlr_el1 = 1\<rparr>"

definition ex_ram :: dtb_globals where
  "ex_ram = ex_dtb\<lparr>g_mem_ranges := [\<lparr>r_base = 0x40000000, r_size = 0x800000\<rparr>]\<rparr>"

lemma ex_blocks: "boot_blocks ex_ram = [0x40000000, 0x40200000, 0x40400000, 0x40600000]"
  by code_simp

lemma ex_ranges: "ram_ranges (g_mem_ranges ex_ram \<noteq> []) (take MMU_MAX_MEMORY_RANGES (g_mem_ranges ex_ram)) = [\<lparr>r_base = 0x40000000, r_size = 0x800000\<rparr>]"
  by (simp add: ex_ram_def ram_ranges_def MMU_MAX_MEMORY_RANGES_def)

lemma ex_mmu_ready: "mmu_ready ex_syms ex_mmu ex_ram"
proof -
  have "tables_placed ex_syms" by (simp add: tables_placed_def ex_syms_def table_span_def apart_spans_def page_aligned_iff)
  moreover have "zero_tables ex_syms ex_mmu" by (simp add: zero_tables_def tv_def ex_mmu_def)
  moreover have "l3_needed ex_syms (boot_blocks ex_ram) \<le> 64"
    unfolding ex_blocks l3_needed_def by (rule order_trans [OF length_filter_le]) simp
  ultimately show ?thesis unfolding mmu_ready_def ex_blocks by (simp add: ex_mmu_def ex_ram_def ex_dtb_def)
qed

lemma ex_image_ok: "image_ok ex_syms ex_ram"
proof -
  have "\<forall>c\<in>set (layout_checks ex_syms). fst c" by (simp add: layout_checks_def ex_syms_def core_text_def core_rodata_def core_data_def core_bss_def)
  moreover have "\<forall>a\<in>set (sections ex_syms). page_aligned a \<and> hh_addr a \<and> kernel_image_start ex_syms \<le> a \<and> a < kernel_runtime_end ex_syms \<and> in_memory ex_ram (unat (virt_to_phys a))"
    unfolding in_memory_def ex_ranges
    by (simp add: sections_def ex_syms_def core_text_def core_rodata_def core_data_def core_bss_def page_aligned_iff hh_addr_def virt_to_phys_def kaddr_config rset_def)
  moreover have "virt_to_phys (kernel_vectors ex_syms) AND NOT 0xFFF = virt_to_phys (text_start ex_syms)"
    by (simp add: ex_syms_def virt_to_phys_def kaddr_config)
  ultimately show ?thesis unfolding image_ok_def
    by (intro conjI exI [of _ "text_start ex_syms"]) (simp_all add: ex_syms_def hh_addr_def page_aligned_iff)
qed

section \<open>Properties\<close>

text \<open>
  C17: On a machine whose memory and image fit the tables, \<open>mmu_init\<close> passes its own checks, switches to
  the new tables with the low half disabled and write-execute protection on, and every byte of memory the
  device tree describes is found at its direct-map address by a descriptor that translates back to it.
\<close>

theorem mmu_init_direct_map:
  assumes "mmu_ready y g dg" "image_ok y dg"
  shows "\<exists>g'. mmu_init m y g dg = Ret (g', dg) \<and> ttbr1_el1 g' = virt_to_phys (l0_table y) \<and> ttbr0_el1 g' = 0 \<and>
    bit (sctlr_el1 g') 19 \<and> bit (tcr_el1 g') 7 \<and>
    (\<forall>pa. in_memory dg (unat pa) \<and> 0x40000000 \<le> unat pa \<and> unat pa < 2 ^ 39 \<longrightarrow>
      (let d = mmu_lookup_desc y (pt g') (mmu_pa_to_va pa) in
       d \<noteq> 0 \<and> unat (desc_addr d) + unat pa mod (if desc_type d = DESC_BLOCK then 2 ^ 21 else 2 ^ 12) = unat pa))"
proof -
  obtain g' where g': "mmu_init m y g dg = Ret (g', dg)" "mmu_inv y g' (block_idx ` {pa \<in> set (boot_blocks dg). mapped pa})"
    "ttbr1_el1 g' = virt_to_phys (l0_table y)" "ttbr0_el1 g' = 0" "bit (sctlr_el1 g') 19" "bit (tcr_el1 g') 7"
    using mmu_init_run [OF assms] .
  have P: "tables_placed y" using assms(1) by (simp add: mmu_ready_def)
  have "let d = mmu_lookup_desc y (pt g') (mmu_pa_to_va pa) in
       d \<noteq> 0 \<and> unat (desc_addr d) + unat pa mod (if desc_type d = DESC_BLOCK then 2 ^ 21 else 2 ^ 12) = unat pa"
    if pa: "in_memory dg (unat pa)" "0x40000000 \<le> unat pa" "unat pa < 2 ^ 39" for pa
  proof -
    let ?d = "leaf y (block_idx pa) (unat pa div 2 ^ 12 mod 512)"
    have look: "mmu_lookup_desc y (pt g') (mmu_pa_to_va pa) = ?d"
      using direct_map_lookup [OF P g'(2) pa(2,3) in_memory_mapped [OF pa]] .
    have tr: "unat (desc_addr ?d) + unat pa mod (if desc_type ?d = DESC_BLOCK then 2 ^ 21 else 2 ^ 12) = unat pa"
      using pa(3) by (rule leaf_translates)
    have "?d \<noteq> 0"
    proof
      assume z: "?d = 0"
      have "unat pa mod 2 ^ 12 = unat pa" using tr unfolding z by (simp add: desc_addr_def desc_type_def DESC_BLOCK_def)
      moreover have "unat pa mod 2 ^ 12 < 2 ^ 12" by simp
      ultimately have "unat pa < 2 ^ 12" by simp
      then show False using pa(2) by simp
    qed
    then show ?thesis unfolding look Let_def using tr by blast
  qed
  then show ?thesis using g' by blast
qed

theorem mmu_init_direct_map_witness:
  "\<exists>g'. mmu_init (\<lambda>_. 0) ex_syms ex_mmu ex_ram = Ret (g', ex_ram) \<and>
    (let d = mmu_lookup_desc ex_syms (pt g') 0xFFFF800040612345 in
     d \<noteq> 0 \<and> unat (desc_addr d) + 0x40612345 mod (if desc_type d = DESC_BLOCK then 2 ^ 21 else 2 ^ 12) = 0x40612345)"
proof -
  obtain g' where g': "mmu_init (\<lambda>_. 0) ex_syms ex_mmu ex_ram = Ret (g', ex_ram)"
    "\<And>pa. in_memory ex_ram (unat pa) \<and> 0x40000000 \<le> unat pa \<and> unat pa < 2 ^ 39 \<Longrightarrow>
      (let d = mmu_lookup_desc ex_syms (pt g') (mmu_pa_to_va pa) in
       d \<noteq> 0 \<and> unat (desc_addr d) + unat pa mod (if desc_type d = DESC_BLOCK then 2 ^ 21 else 2 ^ 12) = unat pa)"
    using mmu_init_direct_map [OF ex_mmu_ready ex_image_ok, of "\<lambda>_. 0"] by blast
  have "in_memory ex_ram (unat (0x40612345 :: u64))" unfolding in_memory_def ex_ranges by (simp add: rset_def)
  then have "let d = mmu_lookup_desc ex_syms (pt g') (mmu_pa_to_va 0x40612345) in
       d \<noteq> 0 \<and> unat (desc_addr d) + unat (0x40612345 :: u64) mod (if desc_type d = DESC_BLOCK then 2 ^ 21 else 2 ^ 12) = unat (0x40612345 :: u64)"
    by (intro g'(2)) simp
  moreover have "mmu_pa_to_va 0x40612345 = 0xFFFF800040612345" "unat (0x40612345 :: u64) = 0x40612345" by (simp_all add: mmu_pa_to_va_def kaddr_config)
  ultimately show ?thesis using g'(1) by metis
qed

text \<open>
  C16: the tables of a completed \<open>mmu_init\<close> map nothing both writable and executable. A leaf that is writable
  has both PXN and UXN set, so neither the kernel nor a lower level executes from it; and what is executable
  at either level is a frame of the exception vectors or of one of the two text segments.
\<close>

theorem mmu_write_xor_execute:
  assumes "mmu_ready y g dg" "mmu_init m y g dg = Ret (g', dg')" "mmu_lookup_desc y (pt g') va = d" "d \<noteq> 0"
  shows "(writable d \<longrightarrow> \<not> el1_exec d \<and> \<not> el0_exec d) \<and> (el1_exec d \<or> el0_exec d \<longrightarrow> code_frame y (desc_addr d))"
proof -
  obtain g2 where g2: "map_blocks y (boot_blocks dg) (mmu_tables_init y (page_alloc_init y g)) = Ret g2"
    "mmu_inv y g2 (block_idx ` {pa \<in> set (boot_blocks dg). mapped pa})"
    using assms(1) by (rule mmu_ready_build)
  have P: "tables_placed y" "g_parsed dg" using assms(1) by (simp_all add: mmu_ready_def)
  have rc: "run_checks cs h = Ret h' \<Longrightarrow> h' = h" for cs h h'
    by (induction cs) (auto simp: mmu_check_def split: if_splits)
  have re: "run_expects y es h = Ret h' \<Longrightarrow> h' = h" for es h h'
    by (induction es) (auto simp: mmu_expect_page_def Let_def obind_Ret_iff split: if_splits)
  have "g' = mmu_install y g2"
    using assms(2) g2(1) parsed_results [OF P(2)]
    by (auto simp: mmu_init_def mmu_assert_layout_and_wx_def obind_Ret_iff dest!: rc re simp flip: boot_blocks_def)
  then have "pt g' = pt g2" by (simp add: mmu_install_def)
  then show ?thesis using lookup_wx [OF P(1) g2(2), of va] assms(3,4) by (simp add: wx_ok_def)
qed

theorem mmu_write_xor_execute_witness:
  "\<exists>g'. mmu_init (\<lambda>_. 0) ex_syms ex_mmu ex_ram = Ret (g', ex_ram) \<and>
    el1_exec (mmu_lookup_desc ex_syms (pt g') 0xFFFF800040200000) \<and> \<not> writable (mmu_lookup_desc ex_syms (pt g') 0xFFFF800040200000) \<and>
    code_frame ex_syms (desc_addr (mmu_lookup_desc ex_syms (pt g') 0xFFFF800040200000))"
proof -
  obtain g' where g': "mmu_init (\<lambda>_. 0) ex_syms ex_mmu ex_ram = Ret (g', ex_ram)" "mmu_inv ex_syms g' (block_idx ` {pa \<in> set (boot_blocks ex_ram). mapped pa})"
    by (rule mmu_init_run [OF ex_mmu_ready ex_image_ok, where m = "\<lambda>_. 0"]) blast
  have "tables_placed ex_syms" using ex_mmu_ready by (simp add: mmu_ready_def)
  moreover have "text_start ex_syms = 0xFFFF800040200000" "text_start ex_syms \<in> set (sections ex_syms)" by (simp_all add: ex_syms_def sections_def)
  ultimately have "mmu_lookup_desc ex_syms (pt g') 0xFFFF800040200000 = virt_to_phys 0xFFFF800040200000 OR page_attr ex_syms (virt_to_phys 0xFFFF800040200000)"
    using section_lookup [OF _ g'(2), of "text_start ex_syms"] ex_image_ok by (simp add: image_ok_def)
  then have d: "mmu_lookup_desc ex_syms (pt g') 0xFFFF800040200000 = 0x40200783"
    by (simp add: virt_to_phys_def kaddr_config page_attr_def in_segment_def ex_syms_def)
  have "el1_exec 0x40200783" by (simp add: el1_exec_def bit_numeral_simps)
  then show ?thesis using mmu_write_xor_execute [OF ex_mmu_ready g'(1) d] g'(1) d by auto
qed

end
