(* ===== verification/Math_Helper.thy ===== *)
theory Math_Helper
  imports KPrelude
begin

text \<open>
  Formatting of byte counts (\<open>Kern/Kernel/util/MathHelper.c\<close>). The output buffer is a list of
  characters with the capacity as its length; a write outside of it is the result \<open>None\<close>. A string
  literal is the list of its characters without the terminator. Offsets are natural numbers, which is exact
  because every offset stays below the capacity.
\<close>

section \<open>Appending\<close>

definition NUL :: char where
  "NUL = CHR 0x00"

definition put :: "string \<Rightarrow> nat \<Rightarrow> char \<Rightarrow> string option" where
  "put dst i c = (if i < length dst then Some (dst[i := c]) else None)"

fun append_loop :: "string \<Rightarrow> nat \<Rightarrow> nat \<Rightarrow> string \<Rightarrow> (string \<times> nat) option" where
  "append_loop dst dst_sz off [] = Some (dst, off)"
| "append_loop dst dst_sz off (c # cs) =
     (if off + 1 < dst_sz then Option.bind (put dst off c) (\<lambda>d. append_loop d dst_sz (off + 1) cs) else Some (dst, off))"

definition mh_append :: "string option \<Rightarrow> nat \<Rightarrow> nat \<Rightarrow> string option \<Rightarrow> (string option \<times> nat) option" where
  "mh_append dst dst_sz off src =
     (case dst of None \<Rightarrow> Some (dst, off)
      | Some d \<Rightarrow>
          if dst_sz = 0 \<or> dst_sz \<le> off then Some (dst, off)
          else Option.bind (append_loop d dst_sz off (case src of None \<Rightarrow> [] | Some cs \<Rightarrow> cs)) (\<lambda>(d1, off1).
                 map_option (\<lambda>d2. (Some d2, off1)) (put d1 off1 NUL)))"

text \<open>The digits of the value, least significant first, at most \<open>room\<close> of them.\<close>

fun digit_loop :: "nat \<Rightarrow> u64 \<Rightarrow> string" where
  "digit_loop 0 v = []"
| "digit_loop (Suc room) v = (if v = 0 then [] else char_of (48 + unat (v mod 10)) # digit_loop room (v div 10))"

definition mh_append_u64 :: "string option \<Rightarrow> nat \<Rightarrow> nat \<Rightarrow> u64 \<Rightarrow> (string option \<times> nat) option" where
  "mh_append_u64 dst dst_sz off v =
     (if v = 0 then mh_append dst dst_sz off (Some ''0'')
      else let tmp = digit_loop 32 v in
        case dst of None \<Rightarrow> if dst_sz = 0 then Some (dst, off) else None
        | Some d \<Rightarrow>
            Option.bind (append_loop d dst_sz off (rev tmp)) (\<lambda>(d1, off1).
              if 0 < dst_sz then map_option (\<lambda>d2. (Some d2, off1)) (put d1 (if off1 < dst_sz then off1 else dst_sz - 1) NUL)
              else Some (Some d1, off1)))"

section \<open>Formatting\<close>

definition kUnits :: "string list" where
  "kUnits = [''B'', ''KB'', ''MB'', ''GB'', ''TB'', ''PB'', ''EB'']"

definition kMaxUnit :: nat where
  "kMaxUnit = 6"

fun unit_loop :: "u64 \<Rightarrow> nat \<Rightarrow> u64 \<Rightarrow> nat \<Rightarrow> u64 \<times> nat" where
  "unit_loop bytes 0 unit_div unit_idx = (unit_div, unit_idx)"
| "unit_loop bytes (Suc k) unit_div unit_idx =
     (if (- 1) div 1024 < unit_div then (unit_div, unit_idx)
      else if bytes < unit_div * 1024 then (unit_div, unit_idx)
      else unit_loop bytes k (unit_div * 1024) (unit_idx + 1))"

definition put_tenth :: "u64 \<Rightarrow> nat \<Rightarrow> nat \<Rightarrow> string option \<Rightarrow> (string option \<times> nat) option" where
  "put_tenth tenth out_sz off out =
     (if tenth \<noteq> 0 \<and> off + 2 < out_sz then
        case out of None \<Rightarrow> None
        | Some d \<Rightarrow>
            Option.bind (put d off (CHR ''.'')) (\<lambda>d1. Option.bind (put d1 (off + 1) (char_of (48 + unat tenth))) (\<lambda>d2.
              map_option (\<lambda>d3. (Some d3, off + 2)) (put d2 (off + 2) NUL)))
      else Some (out, off))"

text \<open>The number: the integer part, and below ten a tenth when there is one and room for it.\<close>

definition put_number :: "u64 \<Rightarrow> nat \<Rightarrow> u64 \<Rightarrow> u64 \<Rightarrow> nat \<Rightarrow> string \<Rightarrow> (string option \<times> nat) option" where
  "put_number unit_div unit_idx whole rem out_sz d =
     Option.bind (mh_append_u64 (Some d) out_sz 0 whole) (\<lambda>(o1, off1).
       if unit_idx \<noteq> 0 \<and> whole < 10 \<and> rem \<noteq> 0 \<and> off1 + 2 < out_sz then
         let tenth = (rem * 10 + unit_div div 2) div unit_div in
         if 10 \<le> tenth
         then Option.bind (case o1 of None \<Rightarrow> None | Some d1 \<Rightarrow> put d1 0 NUL) (\<lambda>d2.
                Option.bind (mh_append_u64 (Some d2) out_sz 0 (whole + 1)) (\<lambda>(o2, off2). put_tenth 0 out_sz off2 o2))
         else put_tenth tenth out_sz off1 o1
       else Some (o1, off1))"

definition mh_format_bytes_pretty :: "string option \<Rightarrow> nat \<Rightarrow> u64 \<Rightarrow> (string option \<times> nat) option" where
  "mh_format_bytes_pretty out out_sz bytes =
     (case out of None \<Rightarrow> Some (out, 0)
      | Some d0 \<Rightarrow>
          if out_sz = 0 then Some (out, 0) else
          Option.bind (put d0 0 NUL) (\<lambda>d.
            let (unit_div, unit_idx) = unit_loop bytes kMaxUnit 1 0;
                whole = (if unit_div = 0 then 0 else bytes div unit_div);
                rem = (if unit_div = 0 then 0 else bytes mod unit_div) in
            Option.bind (put_number unit_div unit_idx whole rem out_sz d) (\<lambda>(o3, off3).
              mh_append o3 out_sz off3 (Some (kUnits ! unit_idx)))))"

section \<open>Buffers that hold a text\<close>

definition text_at :: "string \<Rightarrow> nat \<Rightarrow> string \<Rightarrow> bool" where
  "text_at buf n t \<longleftrightarrow> length buf = n \<and> length t < n \<and> take (Suc (length t)) buf = t @ [NUL]"

lemma put_at:
  assumes "take off d = t" "off = length t" "off < length d"
  shows "put d off c = Some (d[off := c]) \<and> take (Suc off) (d[off := c]) = t @ [c]"
  using assms by (auto simp: put_def take_Suc_conv_app_nth)

lemma append_loop_text:
  assumes "take off d = t" "off = length t" "off < n" "length d = n"
  shows "\<exists>d'. append_loop d n off cs = Some (d', length t + length (take (n - 1 - off) cs)) \<and> length d' = n \<and>
    take (length t + length (take (n - 1 - off) cs)) d' = t @ take (n - 1 - off) cs"
  using assms
proof (induction cs arbitrary: d off t)
  case (Cons c cs)
  show ?case
  proof (cases "off + 1 < n")
    case True
    have p: "put d off c = Some (d[off := c])" "take (Suc off) (d[off := c]) = t @ [c]"
      using put_at [OF Cons.prems(1,2)] Cons.prems(3,4) by simp_all
    have "n - 1 - off = Suc (n - 1 - Suc off)" using True by simp
    then have tk: "take (n - 1 - off) (c # cs) = c # take (n - 1 - Suc off) cs" by simp
    show ?thesis unfolding tk
      using Cons.IH [of "Suc off" "d[off := c]" "t @ [c]"] p Cons.prems True by simp
  next
    case False
    then have "n - 1 - off = 0" using Cons.prems(3) by simp
    then show ?thesis using False Cons.prems by simp
  qed
qed auto

lemma text_at_take: "text_at d n t \<Longrightarrow> take (length t) d = t"
  unfolding text_at_def by (metis Suc_n_not_le_n append_eq_conv_conj le_eq_less_or_eq length_append_singleton min.absorb1 take_append take_take)

lemma terminate_text:
  assumes "length d = n" "take (length t) d = t" "length t < n"
  shows "put d (length t) NUL = Some (d[length t := NUL]) \<and> text_at (d[length t := NUL]) n t"
  using put_at [OF assms(2) refl] assms by (auto simp: text_at_def)

lemma mh_append_text:
  assumes "text_at d n t"
  shows "\<exists>d'. mh_append (Some d) n (length t) (Some cs) = Some (Some d', length (t @ take (n - 1 - length t) cs)) \<and>
    text_at d' n (t @ take (n - 1 - length t) cs)"
proof -
  let ?t = "t @ take (n - 1 - length t) cs"
  have h: "length t < n" "length d = n" using assms by (simp_all add: text_at_def)
  obtain d1 where d1: "append_loop d n (length t) cs = Some (d1, length ?t)" "length d1 = n" "take (length ?t) d1 = ?t"
    using append_loop_text [OF text_at_take [OF assms] refl h, of cs] by auto
  have "length ?t < n" using h(1) by simp
  from terminate_text [OF d1(2,3) this] show ?thesis using d1(1) h(1) by (auto simp: mh_append_def)
qed

section \<open>Decimal digits\<close>

fun dec :: "nat \<Rightarrow> string" where
  "dec n = (if n < 10 then [char_of (48 + n)] else dec (n div 10) @ [char_of (48 + n mod 10)])"

declare dec.simps [simp del]

definition num_of :: "string \<Rightarrow> nat" where
  "num_of cs = foldl (\<lambda>a c. 10 * a + (of_char c - 48)) 0 cs"

lemma num_of_dec: "num_of (dec n) = n"
proof (induction n rule: dec.induct)
  case (1 n)
  have "of_char (char_of (48 + k) :: char) - 48 = k" if "k < 10" for k :: nat using that by simp
  then show ?case using 1 by (subst dec.simps) (simp add: num_of_def)
qed

lemma dec_length: "n < 10 ^ k \<Longrightarrow> 0 < k \<Longrightarrow> length (dec n) \<le> k"
proof (induction n arbitrary: k rule: dec.induct)
  case (1 n)
  show ?case
  proof (cases "n < 10")
    case True
    then show ?thesis using 1 by (simp add: dec.simps)
  next
    case False
    then obtain k' where k: "k = Suc k'" "0 < k'" using 1 by (cases k; cases "k - 1") auto
    then have "n div 10 < 10 ^ k'" using 1(2) by (simp add: less_mult_imp_div_less mult.commute)
    then show ?thesis using 1(1) [OF False, of k'] False k by (subst dec.simps) simp
  qed
qed

lemma digit_loop_dec: "v \<noteq> 0 \<Longrightarrow> unat v < 10 ^ k \<Longrightarrow> rev (digit_loop k v) = dec (unat v)"
proof (induction k arbitrary: v)
  case (Suc k)
  have d: "unat (v div 10) = unat v div 10" "unat (v mod 10) = unat v mod 10" by (simp_all add: unat_div unat_mod)
  show ?case
  proof (cases "unat v < 10")
    case True
    then have "v div 10 = 0" using d(1) by (simp add: unat_eq_zero [symmetric])
    then have "digit_loop k (v div 10) = []" by (cases k) simp_all
    then show ?thesis using Suc.prems(1) d(2) True by (simp add: dec.simps)
  next
    case False
    then have nz: "v div 10 \<noteq> 0" using d(1) by (simp add: unat_eq_zero [symmetric] div_eq_0_iff)
    have "unat (v div 10) < 10 ^ k" using Suc.prems(2) d(1) by (simp add: less_mult_imp_div_less mult.commute)
    then show ?thesis using Suc.IH [OF nz] Suc.prems(1) d False by (simp add: dec.simps [of "unat v"])
  qed
qed (simp add: unat_eq_zero)

lemma char_of_48_49: "char_of (48 :: nat) = CHR ''0''" "char_of (49 :: nat) = CHR ''1''"
  by code_simp+

lemma mh_append_u64_text:
  assumes "text_at d n t"
  shows "\<exists>d'. mh_append_u64 (Some d) n (length t) v = Some (Some d', length (t @ take (n - 1 - length t) (dec (unat v)))) \<and>
    text_at d' n (t @ take (n - 1 - length t) (dec (unat v)))"
proof (cases "v = 0")
  case True
  then have "dec (unat v) = ''0''" using char_of_48_49 by (simp add: dec.simps)
  then show ?thesis using mh_append_text [OF assms, of "''0''"] True by (simp add: mh_append_u64_def)
next
  case False
  have "unat v < 2 ^ 64" using unat_less_two_power [of v] by simp
  then have "unat v < 10 ^ 32" by (rule order.strict_trans2) simp
  then have dg: "rev (digit_loop 32 v) = dec (unat v)" by (rule digit_loop_dec [OF False])
  let ?t = "t @ take (n - 1 - length t) (dec (unat v))"
  have h: "length t < n" "length d = n" using assms by (simp_all add: text_at_def)
  obtain d1 where d1: "append_loop d n (length t) (dec (unat v)) = Some (d1, length ?t)" "length d1 = n" "take (length ?t) d1 = ?t"
    using append_loop_text [OF text_at_take [OF assms] refl h, of "dec (unat v)"] by auto
  have lt: "length ?t < n" using h(1) by simp
  from terminate_text [OF d1(2,3) lt] show ?thesis
    using d1(1) lt False dg h(1) unfolding mh_append_u64_def Let_def by auto
qed

section \<open>The text of a byte count\<close>

text \<open>The largest unit that is at most the value; the value in that unit, below ten rounded to a tenth.\<close>

definition unit_of :: "nat \<Rightarrow> nat" where
  "unit_of b = (if b < 1024 then 0 else if b < 1024 ^ 2 then 1 else if b < 1024 ^ 3 then 2 else if b < 1024 ^ 4 then 3
     else if b < 1024 ^ 5 then 4 else if b < 1024 ^ 6 then 5 else 6)"

definition pretty_number :: "nat \<Rightarrow> string" where
  "pretty_number b =
     (let u = 1024 ^ unit_of b in
      if unit_of b = 0 \<or> 10 \<le> b div u then dec (b div u)
      else let r = (10 * b + u div 2) div u in dec (r div 10) @ (if r mod 10 = 0 then [] else CHR ''.'' # dec (r mod 10)))"

definition pretty_text :: "nat \<Rightarrow> string" where
  "pretty_text b = pretty_number b @ kUnits ! unit_of b"

lemma unit_loop_eq: "unit_loop bytes kMaxUnit 1 0 = (of_nat (1024 ^ unit_of (unat bytes)), unit_of (unat bytes))"
proof -
  have k: "kMaxUnit = Suc (Suc (Suc (Suc (Suc (Suc 0)))))" by (simp add: kMaxUnit_def)
  show ?thesis unfolding k by (simp add: unit_of_def word_less_nat_alt)
qed

lemma unit_of_bounds:
  assumes "b < 2 ^ 64"
  shows "unit_of b \<le> 6" "unit_of b \<noteq> 0 \<Longrightarrow> 1024 ^ unit_of b \<le> b" "b div 1024 ^ unit_of b < 1024"
  using assms by (auto simp: unit_of_def less_mult_imp_div_less)

lemma put_tenth_text:
  assumes "text_at d n t" "0 < tenth" "tenth < 10" "length t + 2 < n"
  shows "\<exists>d'. put_tenth tenth n (length t) (Some d) = Some (Some d', length (t @ CHR ''.'' # dec (unat tenth))) \<and>
    text_at d' n (t @ CHR ''.'' # dec (unat tenth))"
proof -
  let ?c = "char_of (48 + unat tenth) :: char"
  have l: "length d = n" using assms(1) by (simp add: text_at_def)
  have dc: "dec (unat tenth) = [?c]" using assms(3) by (simp add: dec.simps word_less_nat_alt)
  have "tenth \<noteq> 0" using assms(2) by auto
  define d1 where "d1 = d[length t := CHR ''.'']"
  define d2 where "d2 = d1[Suc (length t) := ?c]"
  have 1: "put d (length t) (CHR ''.'') = Some d1" "take (Suc (length t)) d1 = t @ ''.''"
    using put_at [OF text_at_take [OF assms(1)] refl] assms(4) l by (simp_all add: d1_def)
  have 2: "put d1 (Suc (length t)) ?c = Some d2" "take (Suc (Suc (length t))) d2 = (t @ ''.'') @ [?c]"
    using put_at [OF 1(2), of ?c] assms(4) l by (simp_all add: d1_def d2_def)
  have 3: "put d2 (Suc (Suc (length t))) NUL = Some (d2[Suc (Suc (length t)) := NUL])" "text_at (d2[Suc (Suc (length t)) := NUL]) n (t @ ''.'' @ [?c])"
    using terminate_text [of d2 n "t @ ''.'' @ [?c]"] 2(2) assms(4) l by (simp_all add: d1_def d2_def)
  show ?thesis using 1(1) 2(1) 3 assms(4) dc \<open>tenth \<noteq> 0\<close> by (simp add: put_tenth_def)
qed

text \<open>The rounded tenth in 64-bit arithmetic is the tenth of the rounded value.\<close>

lemma tenth_value:
  assumes "0 < i" "i \<le> 6" "b div 1024 ^ i < 10"
  defines "u \<equiv> 1024 ^ i" and "r \<equiv> (10 * b + 1024 ^ i div 2) div 1024 ^ i"
  shows "(10 * (b mod u) + u div 2) div u = r - 10 * (b div u)" "10 * (b div u) \<le> r" "r \<le> 10 * (b div u) + 10"
    "unat (of_nat (b mod u) * 10 + of_nat u div 2 :: u64) = 10 * (b mod u) + u div 2"
proof -
  have u: "0 < u" "u \<le> 2 ^ 60" using power_increasing [OF assms(2), of "1024 :: nat"] by (simp_all add: u_def)
  have "10 * (b div u * u + b mod u) + u div 2 = 10 * (b mod u) + u div 2 + 10 * (b div u) * u" by (simp only: distrib_left ac_simps)
  then have "10 * b + u div 2 = 10 * (b mod u) + u div 2 + 10 * (b div u) * u" by (simp only: div_mult_mod_eq)
  then have r: "r = (10 * (b mod u) + u div 2) div u + 10 * (b div u)" 
    using div_mult_self1 [of u "10 * (b mod u) + u div 2" "10 * (b div u)"] u(1) by (simp only: r_def u_def [symmetric])
  show "(10 * (b mod u) + u div 2) div u = r - 10 * (b div u)" "10 * (b div u) \<le> r" using r by simp_all
  have m: "b mod u < u" using u(1) by simp
  then have "10 * (b mod u) + u div 2 < 11 * u" using u(1) by linarith
  then have "(10 * (b mod u) + u div 2) div u < 11" by (simp add: less_mult_imp_div_less)
  then show "r \<le> 10 * (b div u) + 10" using r by simp
  have "unat (of_nat (b mod u) :: u64) = b mod u" "unat (of_nat u :: u64) = u" using m u(2) by (simp_all add: unat_of_nat)
  then show "unat (of_nat (b mod u) * 10 + of_nat u div 2 :: u64) = 10 * (b mod u) + u div 2"
    using m u(2) by (simp add: unat_word_ariths unat_div)
qed


text \<open>The reference text of a number below ten, by the rounded tenths it has beyond its integer part.\<close>

lemma pretty_number_small:
  assumes "unit_of b \<noteq> 0" "b div 1024 ^ unit_of b = w" "w < 10" "(10 * b + 1024 ^ unit_of b div 2) div 1024 ^ unit_of b = 10 * w + k"
  shows "k = 0 \<Longrightarrow> pretty_number b = dec w" "k = 10 \<Longrightarrow> pretty_number b = dec (w + 1)"
    "0 < k \<Longrightarrow> k < 10 \<Longrightarrow> pretty_number b = dec w @ CHR ''.'' # dec k"
  using assms by (simp_all add: pretty_number_def)

text \<open>
  The number stage never leaves the buffer, whatever its size, and with room for seven characters it writes
  the reference text.
\<close>

lemma restart: "text_at d n t \<Longrightarrow> put d 0 NUL = Some (d[0 := NUL]) \<and> text_at (d[0 := NUL]) n []"
  using terminate_text [of d n "[]"] by (simp add: text_at_def)

lemma dec_digits: "n < 10 \<Longrightarrow> length (dec n) = 1" "n < 1024 \<Longrightarrow> length (dec n) \<le> 4"
  using dec_length [of n 4] by (simp_all add: dec.simps)

lemma pretty_text_length:
  assumes "b < 2 ^ 64"
  shows "length (pretty_text b) \<le> 6"
proof -
  note ub = unit_of_bounds [OF assms]
  have k: "length (kUnits ! unit_of b) \<le> 2" unfolding unit_of_def kUnits_def by simp
  have "length (pretty_number b) \<le> 4"
  proof (cases "unit_of b = 0 \<or> 10 \<le> b div 1024 ^ unit_of b")
    case True
    then show ?thesis using dec_digits(2) [OF ub(3)] by (simp add: pretty_number_def)
  next
    case False
    define r where "r = (10 * b + 1024 ^ unit_of b div 2) div 1024 ^ unit_of b"
    have "r \<le> 10 * (b div 1024 ^ unit_of b) + 10" using tenth_value(3) [of "unit_of b" b] False ub(1) by (simp add: r_def)
    then have "r div 10 < 10 ^ 2" using False by simp linarith
    then have "length (dec (r div 10)) \<le> 2" by (rule dec_length) simp
    then show ?thesis using False dec_digits(1) [of "r mod 10"] by (simp add: pretty_number_def Let_def r_def)
  qed
  then show ?thesis using k by (simp add: pretty_text_def)
qed

lemma put_number_text:
  fixes bytes :: u64 and n :: nat
  defines "b \<equiv> unat bytes"
  defines "i \<equiv> unit_of b"
  defines "u \<equiv> (of_nat (1024 ^ i) :: u64)"
  assumes d: "text_at d n []"
  shows "\<exists>d' t. put_number u i (bytes div u) (bytes mod u) n d = Some (Some d', length t) \<and> text_at d' n t \<and>
    (7 \<le> n \<longrightarrow> t = pretty_number b)"
proof -
  have b: "b < 2 ^ 64" unfolding b_def using unat_less_two_power [of bytes] by simp
  note ub = unit_of_bounds [OF b, folded i_def]
  have "(1024 :: nat) ^ i \<le> 2 ^ 60" using power_increasing [OF ub(1), of "1024 :: nat"] by simp
  then have uu: "unat u = 1024 ^ i" unfolding u_def by (simp add: unat_of_nat del: of_nat_power)
  define w where "w = b div 1024 ^ i"
  have w: "unat (bytes div u) = w" and r: "unat (bytes mod u) = b mod 1024 ^ i"
    using uu by (simp_all add: unat_div unat_mod b_def w_def)
  have w10: "bytes div u < 10 \<longleftrightarrow> w < 10" using w by (simp add: word_less_nat_alt)
  define t1 where "t1 = take (n - 1) (dec w)"
  obtain d1 where d1: "mh_append_u64 (Some d) n 0 (bytes div u) = Some (Some d1, length t1)" "text_at d1 n t1"
    using mh_append_u64_text [OF d, of "bytes div u"] by (auto simp: w t1_def)
  have fit: "t1 = dec w" if "7 \<le> n" using that dec_digits(2) [of w] ub(3) by (simp add: t1_def w_def)
  show ?thesis
  proof (cases "i \<noteq> 0 \<and> w < 10")
    case False
    then have "pretty_number b = dec w" by (auto simp: pretty_number_def i_def [symmetric] w_def Let_def)
    then show ?thesis using d1 fit False w10 unfolding put_number_def by auto
  next
    case True
    define k where "k = (10 * (b mod 1024 ^ i) + 1024 ^ i div 2) div 1024 ^ i"
    note tv = tenth_value [of i b, folded w_def k_def]
    have i: "0 < i" "i \<le> 6" "w < 10" using True ub(1) by simp_all
    have k: "(10 * b + 1024 ^ i div 2) div 1024 ^ i = 10 * w + k" "k \<le> 10"
      using tv [OF i] by linarith+
    note small = pretty_number_small [of b w k, folded i_def, OF _ _ _ k(1)]
    have "of_nat (b mod 1024 ^ i) = bytes mod u" by (simp only: r [symmetric]) simp
    then have tenth: "unat ((bytes mod u * 10 + u div 2) div u) = k"
      using tv(4) [OF i] by (simp add: unat_div uu k_def u_def [symmetric] del: of_nat_power)
    have t0: "(bytes mod u * 10 + u div 2) div u = 0 \<longleftrightarrow> k = 0" and t10: "10 \<le> (bytes mod u * 10 + u div 2) div u \<longleftrightarrow> 10 \<le> k"
      unfolding tenth [symmetric] by (simp_all add: unat_eq_zero word_le_nat_alt)
    have one: "length (dec w) = 1" using dec_digits(1) True by simp
    consider "bytes mod u = 0 \<or> n \<le> length t1 + 2" | "bytes mod u \<noteq> 0" "length t1 + 2 < n" by linarith
    then show ?thesis
    proof cases
      case 1
      have "k = 0" if "7 \<le> n"
      proof -
        have "bytes mod u = 0" using 1 that fit one by simp
        then show ?thesis using r by (simp add: k_def)
      qed
      moreover have "(i \<noteq> 0 \<and> bytes div u < 10 \<and> bytes mod u \<noteq> 0 \<and> length t1 + 2 < n) = False" using 1 by auto
      then have "put_number u i (bytes div u) (bytes mod u) n d = Some (Some d1, length t1)"
        by (simp only: put_number_def d1(1) bind.bind_lunit prod.case if_False)
      ultimately show ?thesis using d1(2) fit small(1) True by (auto simp: w_def i_def)
    next
      case 2
      consider "k = 0" | "0 < k" "k < 10" | "k = 10" using k(2) by linarith
      then show ?thesis
      proof cases
        case 1
        then show ?thesis using 2 d1 fit small(1) True t0 t10 w10 unfolding put_number_def by (auto simp: w_def put_tenth_def)
      next
        case k: 2
        let ?v = "(bytes mod u * 10 + u div 2) div u"
        have v: "0 < ?v" "?v < 10" using k tenth by (simp_all add: word_less_nat_alt)
        obtain d2 where d2: "put_tenth ?v n (length t1) (Some d1) = Some (Some d2, length (t1 @ CHR ''.'' # dec k))"
          "text_at d2 n (t1 @ CHR ''.'' # dec k)"
          using put_tenth_text [OF d1(2) v 2(2)] unfolding tenth by blast
        have "put_number u i (bytes div u) (bytes mod u) n d = Some (Some d2, length (t1 @ CHR ''.'' # dec k))"
          using 2 d1(1) d2(1) True t10 w10 k unfolding put_number_def by (simp add: Let_def)
        moreover have "pretty_number b = dec w @ CHR ''.'' # dec k" using small(3) True k by (simp add: w_def)
        ultimately show ?thesis using d2(2) fit by (intro exI [of _ d2] exI [of _ "t1 @ CHR ''.'' # dec k"]) simp
      next
        case k: 3
        define t2 where "t2 = take (n - 1) (dec (w + 1))"
        have "unat (bytes div u + 1) = w + 1" using True w by (simp add: unat_word_ariths)
        then obtain d2 where d2: "mh_append_u64 (Some (d1[0 := NUL])) n 0 (bytes div u + 1) = Some (Some d2, length t2)" "text_at d2 n t2"
          using mh_append_u64_text [OF conjunct2 [OF restart [OF d1(2)]], of "bytes div u + 1"] by (auto simp: t2_def)
        have "t2 = dec (w + 1)" if "7 \<le> n" using that dec_digits(2) [of "w + 1"] True by (simp add: t2_def)
        then show ?thesis
          using 2 d1(1) d2 restart [OF d1(2)] small(2) True t10 w10 k unfolding put_number_def by (auto simp: w_def put_tenth_def)
      qed
    qed
  qed
qed

section \<open>The formatter\<close>

text \<open>
  No buffer size makes the formatter write outside of the buffer: the text is always terminated, and the
  value returned is its length. Seven characters are enough for the whole text.
\<close>

lemma format_stages:
  assumes "length buf = n" "0 < n"
  shows "\<exists>d t. mh_format_bytes_pretty (Some buf) n bytes = Some (Some d, length t) \<and> text_at d n t \<and>
    (7 \<le> n \<longrightarrow> t = pretty_text (unat bytes))"
proof -
  let ?b = "unat bytes"
  let ?u = "of_nat (1024 ^ unit_of ?b) :: u64"
  have b: "?b < 2 ^ 64" using unat_less_two_power [of bytes] by simp
  have "(1024 :: nat) ^ unit_of ?b \<le> 2 ^ 60" using power_increasing [OF unit_of_bounds(1) [OF b], of "1024 :: nat"] by simp
  then have "unat ?u = 1024 ^ unit_of ?b" by (simp add: unat_of_nat del: of_nat_power)
  then have nz: "?u \<noteq> 0" by (metis power_not_zero unat_eq_zero zero_neq_numeral)
  have r: "put buf 0 NUL = Some (buf[0 := NUL])" "text_at (buf[0 := NUL]) n []"
    using terminate_text [of buf n "[]"] assms by simp_all
  obtain d1 t1 where d1: "put_number ?u (unit_of ?b) (bytes div ?u) (bytes mod ?u) n (buf[0 := NUL]) = Some (Some d1, length t1)"
    "text_at d1 n t1" "7 \<le> n \<longrightarrow> t1 = pretty_number ?b"
    using put_number_text [OF r(2), of bytes] by auto
  define t where "t = t1 @ take (n - 1 - length t1) (kUnits ! unit_of ?b)"
  obtain d where d: "mh_append (Some d1) n (length t1) (Some (kUnits ! unit_of ?b)) = Some (Some d, length t)" "text_at d n t"
    using mh_append_text [OF d1(2), of "kUnits ! unit_of ?b"] unfolding t_def by blast
  have "mh_format_bytes_pretty (Some buf) n bytes = Some (Some d, length t)"
    using r(1) d1(1) d(1) nz assms(2) unfolding mh_format_bytes_pretty_def unit_loop_eq by (simp del: of_nat_power)
  moreover have "t = pretty_text ?b" if "7 \<le> n"
    using that d1(3) pretty_text_length [OF b] by (simp add: t_def pretty_text_def)
  ultimately show ?thesis using d(2) by blast
qed

text \<open>
  formatting a byte count into a buffer of any size stays inside the buffer, terminates the text and
  returns its length; with room for seven characters the text is the integer part in the largest unit not above
  the value, below ten rounded to a tenth with a carry into the integer part, followed by the unit.
\<close>

theorem mh_format_bytes_pretty_text:
  assumes "length buf = n" "0 < n"
  shows "\<exists>d k. mh_format_bytes_pretty (Some buf) n bytes = Some (Some d, k) \<and> length d = n \<and> k < n \<and> d ! k = NUL \<and>
    (7 \<le> n \<longrightarrow> take k d = pretty_text (unat bytes))"
proof -
  obtain d t where h: "mh_format_bytes_pretty (Some buf) n bytes = Some (Some d, length t)" "text_at d n t"
    "7 \<le> n \<longrightarrow> t = pretty_text (unat bytes)"
    using format_stages [OF assms] by blast
  have "d ! length t = NUL" using h(2) unfolding text_at_def by (metis lessI nth_append_length nth_take)
  then show ?thesis using h text_at_take [OF h(2)] by (auto simp: text_at_def)
qed

theorem mh_format_bytes_pretty_text_witness:
  "\<exists>d k. mh_format_bytes_pretty (Some (replicate 8 NUL)) 8 10239 = Some (Some d, k) \<and> take k d = ''10KB''"
proof -
  have "pretty_text (unat (10239 :: u64)) = ''10KB''"
    using char_of_48_49 by (simp add: pretty_text_def pretty_number_def unit_of_def dec.simps kUnits_def)
  then show ?thesis using mh_format_bytes_pretty_text [of "replicate 8 NUL" 8 10239] by auto
qed

end
