(* ===== verification/Virtio.thy ===== *)
theory Virtio
  imports Mem
begin

unbundle bit_operations_syntax

text \<open>
  What the two virtio block drivers share (\<open>Kern/Kernel/dev/virtio_blk.c\<close> and
  \<open>Kern/Loader/boot_block_virtio.c\<close>): the registers, the structures of a split queue, and the memory the
  driver and the device both access. The device is not part of the sources: it is the parameter \<open>hw\<close>, which
  gives the effect of a register read, of a register write and of one step of the device on the shared memory.
  What the drivers rely on is stated as \<open>blk_compliant\<close>, the handling of a block request by a device that
  follows the virtio specification.
\<close>

section \<open>Registers and constants\<close>

definition VIRTIO_MMIO_MAGIC_VALUE :: u32 where "VIRTIO_MMIO_MAGIC_VALUE = 0x000"
definition VIRTIO_MMIO_VERSION :: u32 where "VIRTIO_MMIO_VERSION = 0x004"
definition VIRTIO_MMIO_DEVICE_ID :: u32 where "VIRTIO_MMIO_DEVICE_ID = 0x008"
definition VIRTIO_MMIO_DEVICE_FEATURES :: u32 where "VIRTIO_MMIO_DEVICE_FEATURES = 0x010"
definition VIRTIO_MMIO_DEVICE_FEATURES_SEL :: u32 where "VIRTIO_MMIO_DEVICE_FEATURES_SEL = 0x014"
definition VIRTIO_MMIO_DRIVER_FEATURES :: u32 where "VIRTIO_MMIO_DRIVER_FEATURES = 0x020"
definition VIRTIO_MMIO_DRIVER_FEATURES_SEL :: u32 where "VIRTIO_MMIO_DRIVER_FEATURES_SEL = 0x024"
definition VIRTIO_MMIO_GUEST_PAGE_SIZE :: u32 where "VIRTIO_MMIO_GUEST_PAGE_SIZE = 0x028"
definition VIRTIO_MMIO_QUEUE_SEL :: u32 where "VIRTIO_MMIO_QUEUE_SEL = 0x030"
definition VIRTIO_MMIO_QUEUE_NUM_MAX :: u32 where "VIRTIO_MMIO_QUEUE_NUM_MAX = 0x034"
definition VIRTIO_MMIO_QUEUE_NUM :: u32 where "VIRTIO_MMIO_QUEUE_NUM = 0x038"
definition VIRTIO_MMIO_QUEUE_ALIGN :: u32 where "VIRTIO_MMIO_QUEUE_ALIGN = 0x03C"
definition VIRTIO_MMIO_QUEUE_PFN :: u32 where "VIRTIO_MMIO_QUEUE_PFN = 0x040"
definition VIRTIO_MMIO_QUEUE_READY :: u32 where "VIRTIO_MMIO_QUEUE_READY = 0x044"
definition VIRTIO_MMIO_QUEUE_NOTIFY :: u32 where "VIRTIO_MMIO_QUEUE_NOTIFY = 0x050"
definition VIRTIO_MMIO_STATUS :: u32 where "VIRTIO_MMIO_STATUS = 0x070"
definition VIRTIO_MMIO_QUEUE_DESC_LOW :: u32 where "VIRTIO_MMIO_QUEUE_DESC_LOW = 0x080"
definition VIRTIO_MMIO_QUEUE_DESC_HIGH :: u32 where "VIRTIO_MMIO_QUEUE_DESC_HIGH = 0x084"
definition VIRTIO_MMIO_QUEUE_AVAIL_LOW :: u32 where "VIRTIO_MMIO_QUEUE_AVAIL_LOW = 0x090"
definition VIRTIO_MMIO_QUEUE_AVAIL_HIGH :: u32 where "VIRTIO_MMIO_QUEUE_AVAIL_HIGH = 0x094"
definition VIRTIO_MMIO_QUEUE_USED_LOW :: u32 where "VIRTIO_MMIO_QUEUE_USED_LOW = 0x0A0"
definition VIRTIO_MMIO_QUEUE_USED_HIGH :: u32 where "VIRTIO_MMIO_QUEUE_USED_HIGH = 0x0A4"
definition VIRTIO_MMIO_CONFIG :: u32 where "VIRTIO_MMIO_CONFIG = 0x100"

lemmas virtio_registers = VIRTIO_MMIO_MAGIC_VALUE_def VIRTIO_MMIO_VERSION_def VIRTIO_MMIO_DEVICE_ID_def
  VIRTIO_MMIO_DEVICE_FEATURES_def VIRTIO_MMIO_DEVICE_FEATURES_SEL_def VIRTIO_MMIO_DRIVER_FEATURES_def
  VIRTIO_MMIO_DRIVER_FEATURES_SEL_def VIRTIO_MMIO_GUEST_PAGE_SIZE_def VIRTIO_MMIO_QUEUE_SEL_def
  VIRTIO_MMIO_QUEUE_NUM_MAX_def VIRTIO_MMIO_QUEUE_NUM_def VIRTIO_MMIO_QUEUE_ALIGN_def VIRTIO_MMIO_QUEUE_PFN_def
  VIRTIO_MMIO_QUEUE_READY_def VIRTIO_MMIO_QUEUE_NOTIFY_def VIRTIO_MMIO_STATUS_def VIRTIO_MMIO_QUEUE_DESC_LOW_def
  VIRTIO_MMIO_QUEUE_DESC_HIGH_def VIRTIO_MMIO_QUEUE_AVAIL_LOW_def VIRTIO_MMIO_QUEUE_AVAIL_HIGH_def
  VIRTIO_MMIO_QUEUE_USED_LOW_def VIRTIO_MMIO_QUEUE_USED_HIGH_def VIRTIO_MMIO_CONFIG_def

definition VIRTIO_MMIO_MAGIC :: u32 where "VIRTIO_MMIO_MAGIC = 0x74726976"
definition VIRTIO_VERSION_1 :: u32 where "VIRTIO_VERSION_1 = 1"
definition VIRTIO_VERSION_2 :: u32 where "VIRTIO_VERSION_2 = 2"
definition VIRTIO_DEVICE_BLOCK :: u32 where "VIRTIO_DEVICE_BLOCK = 2"
definition VIRTIO_STATUS_ACKNOWLEDGE :: u32 where "VIRTIO_STATUS_ACKNOWLEDGE = 1"
definition VIRTIO_STATUS_DRIVER :: u32 where "VIRTIO_STATUS_DRIVER = 2"
definition VIRTIO_STATUS_DRIVER_OK :: u32 where "VIRTIO_STATUS_DRIVER_OK = 4"
definition VIRTIO_STATUS_FEATURES_OK :: u32 where "VIRTIO_STATUS_FEATURES_OK = 8"
definition VIRTIO_STATUS_FAILED :: u32 where "VIRTIO_STATUS_FAILED = 0x80"
definition VIRTQ_DESC_F_NEXT :: u16 where "VIRTQ_DESC_F_NEXT = 1"
definition VIRTQ_DESC_F_WRITE :: u16 where "VIRTQ_DESC_F_WRITE = 2"
definition VIRTIO_BLK_T_IN :: u32 where "VIRTIO_BLK_T_IN = 0"
definition VIRTIO_BLK_T_OUT :: u32 where "VIRTIO_BLK_T_OUT = 1"
definition VIRTQ_SIZE :: u32 where "VIRTQ_SIZE = 8"

lemmas virtio_constants = VIRTIO_MMIO_MAGIC_def VIRTIO_VERSION_1_def VIRTIO_VERSION_2_def VIRTIO_DEVICE_BLOCK_def
  VIRTIO_STATUS_ACKNOWLEDGE_def VIRTIO_STATUS_DRIVER_def VIRTIO_STATUS_DRIVER_OK_def VIRTIO_STATUS_FEATURES_OK_def
  VIRTIO_STATUS_FAILED_def VIRTQ_DESC_F_NEXT_def VIRTQ_DESC_F_WRITE_def VIRTIO_BLK_T_IN_def VIRTIO_BLK_T_OUT_def
  VIRTQ_SIZE_def

section \<open>The queue and the shared memory\<close>

record virtq_desc =
  vd_addr :: u64
  vd_len :: u32
  vd_flags :: u16
  vd_next :: u16

record virtq_avail =
  av_flags :: u16
  av_idx :: u16
  av_ring :: "u16 list"
  av_used_event :: u16

record virtq_used_elem =
  ue_id :: u32
  ue_len :: u32

record virtq_used =
  us_flags :: u16
  us_idx :: u16
  us_ring :: "virtq_used_elem list"
  us_avail_event :: u16

record virtio_blk_req =
  br_type :: u32
  br_reserved :: u32
  br_sector :: u64

text \<open>
  The memory by the address the CPU uses: descriptors, rings and request headers by the address of the
  structure, and plain bytes (the data buffers and the status byte). A descriptor takes 16 bytes.
\<close>

record dma =
  desc_at :: "ptr \<Rightarrow> virtq_desc"
  avail_at :: "ptr \<Rightarrow> virtq_avail"
  used_at :: "ptr \<Rightarrow> virtq_used"
  req_at :: "ptr \<Rightarrow> virtio_blk_req"
  byte_at :: mem

definition sizeof_virtq_desc :: u64 where
  "sizeof_virtq_desc = 16"

definition sizeof_virtq_avail :: u64 where
  "sizeof_virtq_avail = 22"

definition sizeof_virtio_blk_req :: u32 where
  "sizeof_virtio_blk_req = 16"

definition desc_slot :: "ptr \<Rightarrow> u16 \<Rightarrow> ptr" where
  "desc_slot d i = d + ucast i * sizeof_virtq_desc"

text \<open>A page of zeros as a descriptor table, an available ring and a used ring.\<close>

definition desc_zero :: virtq_desc where
  "desc_zero = \<lparr>vd_addr = 0, vd_len = 0, vd_flags = 0, vd_next = 0\<rparr>"

definition avail_zero :: virtq_avail where
  "avail_zero = \<lparr>av_flags = 0, av_idx = 0, av_ring = replicate 8 0, av_used_event = 0\<rparr>"

definition used_zero :: virtq_used where
  "used_zero = \<lparr>us_flags = 0, us_idx = 0, us_ring = replicate 8 \<lparr>ue_id = 0, ue_len = 0\<rparr>, us_avail_event = 0\<rparr>"

text \<open>\<open>memset(p, 0, n)\<close> on queue memory.\<close>

definition dma_zero :: "ptr \<Rightarrow> nat \<Rightarrow> dma \<Rightarrow> dma" where
  "dma_zero p n m =
     m\<lparr>desc_at := (\<lambda>a. if span p n a then desc_zero else desc_at m a),
       avail_at := (\<lambda>a. if span p n a then avail_zero else avail_at m a),
       used_at := (\<lambda>a. if span p n a then used_zero else used_at m a),
       byte_at := (\<lambda>a. if span p n a then 0 else byte_at m a)\<rparr>"

section \<open>The device\<close>

record 'd virtio_hw =
  hw_read :: "ptr \<Rightarrow> u32 \<Rightarrow> 'd \<Rightarrow> u32 \<times> 'd"
  hw_write :: "ptr \<Rightarrow> u32 \<Rightarrow> u32 \<Rightarrow> 'd \<Rightarrow> 'd"
  hw_step :: "'d \<Rightarrow> dma \<Rightarrow> 'd \<times> dma"

text \<open>
  What a device keeps according to the specification: the addresses and the size of its queue, the number of
  requests taken from the available ring, and the disk as a sequence of bytes.
\<close>

record vdev =
  dv_desc :: u64
  dv_avail :: u64
  dv_used :: u64
  dv_qsize :: nat
  dv_seen :: u16
  dv_disk :: "nat \<Rightarrow> u8"
  dv_sectors :: nat

text \<open>A block request as the device finds it: kind, first sector, data address and length, status address.\<close>

record blk_request =
  rq_kind :: u32
  rq_sector :: u64
  rq_data :: u64
  rq_len :: u32
  rq_stat :: u64

text \<open>
  The request at the head of the queue: a chain of three descriptors inside the table, a readable header of 16
  bytes, the data (writable exactly when the disk is read) and a writable status byte. The addresses in the
  queue are physical; \<open>tr\<close> gives the address by which the memory is kept.
\<close>

definition next_request :: "(u64 \<Rightarrow> ptr) \<Rightarrow> vdev \<Rightarrow> dma \<Rightarrow> blk_request option" where
  "next_request tr v m =
     (let av = avail_at m (tr (dv_avail v));
          head = av_ring av ! (unat (dv_seen v) mod dv_qsize v);
          d0 = desc_at m (tr (desc_slot (dv_desc v) head));
          d1 = desc_at m (tr (desc_slot (dv_desc v) (vd_next d0)));
          d2 = desc_at m (tr (desc_slot (dv_desc v) (vd_next d1)));
          rq = req_at m (tr (vd_addr d0)) in
      if av_idx av = dv_seen v + 1 \<and> unat head < dv_qsize v \<and> unat (vd_next d0) < dv_qsize v \<and> unat (vd_next d1) < dv_qsize v \<and>
         vd_flags d0 = VIRTQ_DESC_F_NEXT \<and> vd_len d0 = sizeof_virtio_blk_req \<and>
         (br_type rq = VIRTIO_BLK_T_IN \<and> vd_flags d1 = VIRTQ_DESC_F_NEXT OR VIRTQ_DESC_F_WRITE \<or>
          br_type rq = VIRTIO_BLK_T_OUT \<and> vd_flags d1 = VIRTQ_DESC_F_NEXT) \<and>
         vd_flags d2 = VIRTQ_DESC_F_WRITE \<and> vd_len d2 = 1
      then Some \<lparr>rq_kind = br_type rq, rq_sector = br_sector rq, rq_data = vd_addr d1, rq_len = vd_len d1, rq_stat = vd_addr d2\<rparr>
      else None)"

definition disk_pos :: "u64 \<Rightarrow> nat" where
  "disk_pos lba = unat lba * 512"

definition in_disk :: "vdev \<Rightarrow> blk_request \<Rightarrow> bool" where
  "in_disk v r \<longleftrightarrow> 512 dvd unat (rq_len r) \<and> disk_pos (rq_sector r) + unat (rq_len r) \<le> dv_sectors v * 512"

text \<open>
  The effect of a request: a read fills the data bytes from the disk, a write takes them to the disk; the
  status byte is zero for a request inside the disk and not zero, with nothing transferred, for another one.
\<close>

definition serve_mem :: "(u64 \<Rightarrow> ptr) \<Rightarrow> vdev \<Rightarrow> blk_request \<Rightarrow> mem \<Rightarrow> mem" where
  "serve_mem tr v r m =
     (if in_disk v r
      then (if rq_kind r = VIRTIO_BLK_T_IN
            then (\<lambda>a. if span (tr (rq_data r)) (unat (rq_len r)) a
                  then dv_disk v (disk_pos (rq_sector r) + unat (a - tr (rq_data r))) else m a)
            else m)(tr (rq_stat r) := 0)
      else m(tr (rq_stat r) := 1))"

definition serve_disk :: "(u64 \<Rightarrow> ptr) \<Rightarrow> vdev \<Rightarrow> blk_request \<Rightarrow> mem \<Rightarrow> nat \<Rightarrow> u8" where
  "serve_disk tr v r m =
     (if in_disk v r \<and> rq_kind r = VIRTIO_BLK_T_OUT
      then (\<lambda>i. if disk_pos (rq_sector r) \<le> i \<and> i < disk_pos (rq_sector r) + unat (rq_len r)
                then m (tr (rq_data r) + of_nat (i - disk_pos (rq_sector r))) else dv_disk v i)
      else dv_disk v)"

definition served_dev :: "(u64 \<Rightarrow> ptr) \<Rightarrow> vdev \<Rightarrow> blk_request \<Rightarrow> mem \<Rightarrow> vdev" where
  "served_dev tr v r m = v\<lparr>dv_seen := dv_seen v + 1, dv_disk := serve_disk tr v r m\<rparr>"

text \<open>Of the used ring only the index matters to the drivers; \<open>u\<close> is what the device makes of the ring.\<close>

definition served_dma :: "(u64 \<Rightarrow> ptr) \<Rightarrow> vdev \<Rightarrow> blk_request \<Rightarrow> virtq_used \<Rightarrow> dma \<Rightarrow> dma" where
  "served_dma tr v r u m = m\<lparr>byte_at := serve_mem tr v r (byte_at m), used_at := (used_at m)(tr (dv_used v) := u)\<rparr>"

fun hw_steps :: "'d virtio_hw \<Rightarrow> nat \<Rightarrow> 'd \<times> dma \<Rightarrow> 'd \<times> dma" where
  "hw_steps hw 0 x = x"
| "hw_steps hw (Suc n) x = hw_steps hw n (hw_step hw (fst x) (snd x))"

text \<open>
  A device that follows the specification: notified of a request, it completes it within \<open>N\<close> steps, and until
  then it leaves the index of the used ring as it is. \<open>view\<close> is what the device keeps.
\<close>

definition blk_compliant :: "'d virtio_hw \<Rightarrow> (u64 \<Rightarrow> ptr) \<Rightarrow> ptr \<Rightarrow> ('d \<Rightarrow> vdev) \<Rightarrow> nat \<Rightarrow> bool" where
  "blk_compliant hw tr mmio view N \<longleftrightarrow>
     (\<forall>d m r. next_request tr (view d) m = Some r \<longrightarrow>
        (\<exists>n d' u. 0 < n \<and> n \<le> N \<and>
           (\<forall>k<n. us_idx (used_at (snd (hw_steps hw k (hw_write hw mmio VIRTIO_MMIO_QUEUE_NOTIFY 0 d, m))) (tr (dv_used (view d)))) =
              us_idx (used_at m (tr (dv_used (view d))))) \<and>
           hw_steps hw n (hw_write hw mmio VIRTIO_MMIO_QUEUE_NOTIFY 0 d, m) = (d', served_dma tr (view d) r u m) \<and>
           us_idx u = us_idx (used_at m (tr (dv_used (view d)))) + 1 \<and>
           view d' = served_dev tr (view d) r (byte_at m)))"

text \<open>
  The registers by which a driver sets the queue up: a reset forgets the requests taken; a modern device takes
  the three addresses in halves, a legacy one the number of the first page and lays the rings out behind the table.
\<close>

definition set_low :: "u32 \<Rightarrow> u64 \<Rightarrow> u64" where
  "set_low v x = (x AND NOT (mask 32)) OR ucast v"

definition set_high :: "u32 \<Rightarrow> u64 \<Rightarrow> u64" where
  "set_high v x = (x AND mask 32) OR push_bit 32 (ucast v)"

definition reg_effect :: "u32 \<Rightarrow> u32 \<Rightarrow> vdev \<Rightarrow> vdev" where
  "reg_effect off x v =
     (if off = VIRTIO_MMIO_STATUS then (if x = 0 then v\<lparr>dv_seen := 0\<rparr> else v)
      else if off = VIRTIO_MMIO_QUEUE_NUM then v\<lparr>dv_qsize := unat x\<rparr>
      else if off = VIRTIO_MMIO_QUEUE_DESC_LOW then v\<lparr>dv_desc := set_low x (dv_desc v)\<rparr>
      else if off = VIRTIO_MMIO_QUEUE_DESC_HIGH then v\<lparr>dv_desc := set_high x (dv_desc v)\<rparr>
      else if off = VIRTIO_MMIO_QUEUE_AVAIL_LOW then v\<lparr>dv_avail := set_low x (dv_avail v)\<rparr>
      else if off = VIRTIO_MMIO_QUEUE_AVAIL_HIGH then v\<lparr>dv_avail := set_high x (dv_avail v)\<rparr>
      else if off = VIRTIO_MMIO_QUEUE_USED_LOW then v\<lparr>dv_used := set_low x (dv_used v)\<rparr>
      else if off = VIRTIO_MMIO_QUEUE_USED_HIGH then v\<lparr>dv_used := set_high x (dv_used v)\<rparr>
      else if off = VIRTIO_MMIO_QUEUE_PFN then
        let p = push_bit 12 (ucast x); q = dv_qsize v in
        v\<lparr>dv_desc := p, dv_avail := p + of_nat (16 * q), dv_used := p + of_nat ((16 * q + 2 * (3 + q) + 4095) div 4096 * 4096)\<rparr>
      else v)"

definition reg_compliant :: "'d virtio_hw \<Rightarrow> ptr \<Rightarrow> ('d \<Rightarrow> vdev) \<Rightarrow> bool" where
  "reg_compliant hw mmio view \<longleftrightarrow>
     (\<forall>off x d. view (hw_write hw mmio off x d) = reg_effect off x (view d)) \<and> (\<forall>off d. view (snd (hw_read hw mmio off d)) = view d)"

lemma set_halves: "set_high (ucast (drop_bit 32 pa)) (set_low (ucast (pa AND 0xFFFFFFFF)) x) = pa" for pa :: u64
proof (rule bit_word_eqI)
  fix n assume n: "n < LENGTH(64)"
  have m: "(0xFFFFFFFF :: u64) = mask 32" by (simp add: mask_eq_exp_minus_1)
  show "bit (set_high (ucast (drop_bit 32 pa)) (set_low (ucast (pa AND 0xFFFFFFFF)) x)) n = bit pa n"
    using n unfolding m set_high_def set_low_def by (cases "n < 32") (auto simp: bit_simps)
qed

lemma desc_slots_distinct [simp]: "desc_slot d i = desc_slot d j \<longleftrightarrow> i = j"
proof
  assume "desc_slot d i = desc_slot d j"
  then have "(ucast i :: u64) * 16 = ucast j * 16" by (simp add: desc_slot_def sizeof_virtq_desc_def)
  then have "unat ((ucast i :: u64) * 16) = unat ((ucast j :: u64) * 16)" by simp
  moreover have "unat ((ucast k :: u64) * 16) = unat k * 16" for k :: u16
  proof -
    have "unat k < 65536" using unat_less_two_power [of k] by simp
    then show ?thesis by (simp add: unat_word_ariths unsigned_ucast_eq take_bit_nat_eq_self)
  qed
  ultimately show "i = j" by (simp add: word_unat_eq_iff)
qed simp

lemma page_frame_number:
  assumes "unat pa < 0x80000000" "4096 dvd unat pa"
  shows "push_bit 12 (ucast (ucast (drop_bit 12 pa) :: u32)) = (pa :: u64)"
proof -
  obtain k where k: "unat pa = 4096 * k" using assms(2) by (auto simp: dvd_def)
  have kl: "k < 2 ^ 19" using assms(1) k by simp
  have "unat (drop_bit 12 pa) = k" by (simp add: unat_drop_bit_eq drop_bit_eq_div [where 'a = nat] k)
  moreover define w where "w = (ucast (drop_bit 12 pa) :: u32)"
  ultimately have "unat w = k" using kl by (simp add: unsigned_ucast_eq take_bit_nat_eq_self)
  then have "unat (ucast w :: u64) = k" using kl by (simp add: unsigned_ucast_eq take_bit_nat_eq_self)
  then have "unat (push_bit 12 (ucast w) :: u64) = 4096 * k" using kl by (simp add: push_bit_eq_mult unat_word_ariths)
  then show ?thesis using k unfolding w_def [symmetric] by (simp add: word_unat_eq_iff)
qed

section \<open>An example device\<close>

text \<open>A device that serves a request at its first step after the notification.\<close>

definition prompt_device :: "(u64 \<Rightarrow> ptr) \<Rightarrow> (vdev \<times> bool) virtio_hw" where
  "prompt_device tr =
     \<lparr>hw_read = (\<lambda>_ off d. (if off = VIRTIO_MMIO_MAGIC_VALUE then VIRTIO_MMIO_MAGIC else if off = VIRTIO_MMIO_VERSION then VIRTIO_VERSION_2
         else if off = VIRTIO_MMIO_DEVICE_ID then VIRTIO_DEVICE_BLOCK else if off = VIRTIO_MMIO_STATUS then 15
         else if off = VIRTIO_MMIO_QUEUE_NUM_MAX then 256 else if off = VIRTIO_MMIO_CONFIG then 100 else 0, d)),
      hw_write = (\<lambda>_ off x (v, p). (reg_effect off x v, p \<or> off = VIRTIO_MMIO_QUEUE_NOTIFY)),
      hw_step = (\<lambda>(v, p) m. case (p, next_request tr v m) of
         (True, Some r) \<Rightarrow> ((served_dev tr v r (byte_at m), False),
           served_dma tr v r (let u = used_at m (tr (dv_used v)) in u\<lparr>us_idx := us_idx u + 1\<rparr>) m)
       | _ \<Rightarrow> ((v, p), m))\<rparr>"

lemma prompt_device_compliant: "0 < N \<Longrightarrow> blk_compliant (prompt_device tr) tr mmio fst N"
  unfolding blk_compliant_def
proof (intro allI impI)
  fix d :: "vdev \<times> bool" and m r
  assume N: "0 < N" and r: "next_request tr (fst d) m = Some r"
  let ?u = "used_at m (tr (dv_used (fst d)))"
  have w: "hw_write (prompt_device tr) mmio VIRTIO_MMIO_QUEUE_NOTIFY 0 d = (fst d, True)"
    by (simp add: prompt_device_def reg_effect_def virtio_registers split: prod.split)
  have "hw_steps (prompt_device tr) 1 ((fst d, True), m) =
      ((served_dev tr (fst d) r (byte_at m), False), served_dma tr (fst d) r (?u\<lparr>us_idx := us_idx ?u + 1\<rparr>) m)"
    using r by (simp add: prompt_device_def Let_def)
  then show "\<exists>n d' u. 0 < n \<and> n \<le> N \<and>
      (\<forall>k<n. us_idx (used_at (snd (hw_steps (prompt_device tr) k (hw_write (prompt_device tr) mmio VIRTIO_MMIO_QUEUE_NOTIFY 0 d, m))) (tr (dv_used (fst d)))) = us_idx ?u) \<and>
      hw_steps (prompt_device tr) n (hw_write (prompt_device tr) mmio VIRTIO_MMIO_QUEUE_NOTIFY 0 d, m) = (d', served_dma tr (fst d) r u m) \<and>
      us_idx u = us_idx ?u + 1 \<and> fst d' = served_dev tr (fst d) r (byte_at m)"
    unfolding w using N by (intro exI [of _ 1] exI [of _ "(served_dev tr (fst d) r (byte_at m), False)"] exI [of _ "?u\<lparr>us_idx := us_idx ?u + 1\<rparr>"]) simp
qed

lemma prompt_device_registers: "reg_compliant (prompt_device tr) mmio fst"
  by (auto simp: reg_compliant_def prompt_device_def split: prod.split)

end
