(* ===== verification/Virtio_Blk.thy ===== *)
theory Virtio_Blk
  imports Kheap Dtb Virtio
begin

unbundle bit_operations_syntax

text \<open>
  The virtio block driver of the kernel (\<open>Kern/Kernel/dev/virtio_blk.c\<close>) and the block interface over it
  (\<open>Kern/HAL/hal_block.c\<close>). Cache maintenance and barriers order what the device sees and have no value of
  their own, and the log output of a timeout is left out. The device progresses by one step before each look at
  the used ring. The request header and the status byte are kept in the shared memory at their addresses inside
  \<open>g_blk\<close>, whose own address is the parameter \<open>blk\<close>.
\<close>

section \<open>State\<close>

record virtio_blk_dev =
  vb_base :: u64
  vb_mmio :: ptr
  vb_queue_size :: u32
  vb_desc :: ptr
  vb_avail :: ptr
  vb_used :: ptr
  vb_last_used :: u16
  vb_capacity_sectors :: u64
  vb_sector_size :: u32
  vb_ready :: bool

record 'd virtio_globals = kheap_globals +
  vhw :: 'd
  shared :: dma
  g_blk :: virtio_blk_dev

definition req_addr :: "ptr \<Rightarrow> ptr" where
  "req_addr blk = blk + 50"

definition status_addr :: "ptr \<Rightarrow> ptr" where
  "status_addr blk = blk + 66"

definition VIRTIO_PAGE_SIZE :: u64 where
  "VIRTIO_PAGE_SIZE = 0x1000"

section \<open>Registers\<close>

definition mmio_ptr :: "u64 \<Rightarrow> ptr" where
  "mmio_ptr base = CAPAZ_HH_BASE + base"

definition mmio_write :: "'d virtio_hw \<Rightarrow> ptr \<Rightarrow> u32 \<Rightarrow> u32 \<Rightarrow> ('d, 'a) virtio_globals_scheme \<Rightarrow> ('d, 'a) virtio_globals_scheme" where
  "mmio_write hw base off v s = s\<lparr>vhw := hw_write hw base off v (vhw s)\<rparr>"

definition mmio_read :: "'d virtio_hw \<Rightarrow> ptr \<Rightarrow> u32 \<Rightarrow> ('d, 'a) virtio_globals_scheme \<Rightarrow> u32 \<times> ('d, 'a) virtio_globals_scheme" where
  "mmio_read hw base off s = (case hw_read hw base off (vhw s) of (v, d) \<Rightarrow> (v, s\<lparr>vhw := d\<rparr>))"

text \<open>A list of register writes, in order.\<close>

fun mmio_writes :: "'d virtio_hw \<Rightarrow> ptr \<Rightarrow> (u32 \<times> u32) list \<Rightarrow> ('d, 'a) virtio_globals_scheme \<Rightarrow> ('d, 'a) virtio_globals_scheme" where
  "mmio_writes hw base [] s = s"
| "mmio_writes hw base ((off, v) # ws) s = mmio_writes hw base ws (mmio_write hw base off v s)"

section \<open>Probing\<close>

text \<open>Feature negotiation: the offered features are read and ignored, none is accepted.\<close>

definition virtio_features :: "'d virtio_hw \<Rightarrow> ptr \<Rightarrow> u32 \<Rightarrow> ('d, 'a) virtio_globals_scheme \<Rightarrow> ('d, 'a) virtio_globals_scheme" where
  "virtio_features hw mmio version s =
     (if version = VIRTIO_VERSION_2 then
        let s1 = snd (mmio_read hw mmio VIRTIO_MMIO_DEVICE_FEATURES (mmio_write hw mmio VIRTIO_MMIO_DEVICE_FEATURES_SEL 0 s));
            s2 = snd (mmio_read hw mmio VIRTIO_MMIO_DEVICE_FEATURES (mmio_write hw mmio VIRTIO_MMIO_DEVICE_FEATURES_SEL 1 s1)) in
        mmio_writes hw mmio [(VIRTIO_MMIO_DRIVER_FEATURES_SEL, 0), (VIRTIO_MMIO_DRIVER_FEATURES, 0),
          (VIRTIO_MMIO_DRIVER_FEATURES_SEL, 1), (VIRTIO_MMIO_DRIVER_FEATURES, 0)] s2
      else
        mmio_write hw mmio VIRTIO_MMIO_DRIVER_FEATURES 0 (snd (mmio_read hw mmio VIRTIO_MMIO_DEVICE_FEATURES s)))"

text \<open>Reset, acknowledgement and negotiation; the device is told when the driver gives up.\<close>

definition virtio_negotiate :: "'d virtio_hw \<Rightarrow> ptr \<Rightarrow> u32 \<Rightarrow> ('d, 'a) virtio_globals_scheme \<Rightarrow> bool \<times> ('d, 'a) virtio_globals_scheme" where
  "virtio_negotiate hw mmio version s3 =
     (let status2 = VIRTIO_STATUS_ACKNOWLEDGE OR VIRTIO_STATUS_DRIVER;
          s4 = mmio_writes hw mmio [(VIRTIO_MMIO_STATUS, 0), (VIRTIO_MMIO_STATUS, VIRTIO_STATUS_ACKNOWLEDGE), (VIRTIO_MMIO_STATUS, status2)] s3;
          s5 = virtio_features hw mmio version s4;
          status3 = status2 OR VIRTIO_STATUS_FEATURES_OK;
          (st, s6) = mmio_read hw mmio VIRTIO_MMIO_STATUS (mmio_write hw mmio VIRTIO_MMIO_STATUS status3 s5) in
      if st AND VIRTIO_STATUS_FEATURES_OK = 0
      then (False, mmio_write hw mmio VIRTIO_MMIO_STATUS (status3 OR VIRTIO_STATUS_FAILED) s6)
      else (True, s6))"

definition pa_of :: "u64 option \<Rightarrow> u64" where
  "pa_of r = (case r of None \<Rightarrow> 0 | Some pa \<Rightarrow> pa)"

text \<open>The queue of a modern device: a page each for the table and the two rings.\<close>

definition virtio_queue_v2 ::
    "'d virtio_hw \<Rightarrow> ptr \<Rightarrow> ('d, 'a) virtio_globals_scheme \<Rightarrow> ((ptr \<times> ptr \<times> ptr) option \<times> ('d, 'a) virtio_globals_scheme) outcome" where
  "virtio_queue_v2 hw mmio s =
     obind (kheap_alloc_pages 1 LOCAL s) (\<lambda>((desc, dpa), s1).
     obind (kheap_alloc_pages 1 LOCAL s1) (\<lambda>((avail, apa), s2).
     obind (kheap_alloc_pages 1 LOCAL s2) (\<lambda>((used, upa), s3).
       let desc_pa = pa_of dpa; avail_pa = pa_of apa; used_pa = pa_of upa in
       if desc = NULL \<or> avail = NULL \<or> used = NULL then Ret (None, s3)
       else let s4 = s3\<lparr>shared := dma_zero used 4096 (dma_zero avail 4096 (dma_zero desc 4096 (shared s3)))\<rparr> in
         Ret (Some (desc, avail, used), mmio_writes hw mmio
           [(VIRTIO_MMIO_QUEUE_DESC_LOW, ucast (desc_pa AND 0xFFFFFFFF)), (VIRTIO_MMIO_QUEUE_DESC_HIGH, ucast (drop_bit 32 desc_pa)),
            (VIRTIO_MMIO_QUEUE_AVAIL_LOW, ucast (avail_pa AND 0xFFFFFFFF)), (VIRTIO_MMIO_QUEUE_AVAIL_HIGH, ucast (drop_bit 32 avail_pa)),
            (VIRTIO_MMIO_QUEUE_USED_LOW, ucast (used_pa AND 0xFFFFFFFF)), (VIRTIO_MMIO_QUEUE_USED_HIGH, ucast (drop_bit 32 used_pa)),
            (VIRTIO_MMIO_QUEUE_READY, 1)] s4))))"

text \<open>The queue of a legacy device: two pages, the used ring on the second one.\<close>

definition used_offset :: "u32 \<Rightarrow> u32" where
  "used_offset qsize =
     (let desc_bytes = qsize * 16; avail_bytes = 22 in
      ucast ((ucast (desc_bytes + avail_bytes) + (VIRTIO_PAGE_SIZE - 1)) AND NOT (VIRTIO_PAGE_SIZE - 1)))"

definition virtio_queue_v1 ::
    "'d virtio_hw \<Rightarrow> ptr \<Rightarrow> u32 \<Rightarrow> ('d, 'a) virtio_globals_scheme \<Rightarrow> ((ptr \<times> ptr \<times> ptr) option \<times> ('d, 'a) virtio_globals_scheme) outcome" where
  "virtio_queue_v1 hw mmio qsize s =
     obind (kheap_alloc_pages 2 LOCAL (mmio_write hw mmio VIRTIO_MMIO_GUEST_PAGE_SIZE (ucast VIRTIO_PAGE_SIZE) s)) (\<lambda>((queue, qpa), s1).
       if queue = NULL then Ret (None, s1)
       else let s2 = s1\<lparr>shared := dma_zero queue (2 * 4096) (shared s1)\<rparr> in
         Ret (Some (queue, queue + ucast (qsize * 16), queue + ucast (used_offset qsize)), mmio_writes hw mmio
           [(VIRTIO_MMIO_QUEUE_ALIGN, ucast VIRTIO_PAGE_SIZE), (VIRTIO_MMIO_QUEUE_PFN, ucast (drop_bit 12 (pa_of qpa)))] s2))"

text \<open>The end of a successful probe: the device is started and described in \<open>g_blk\<close>.\<close>

definition virtio_start ::
    "'d virtio_hw \<Rightarrow> u64 \<Rightarrow> ptr \<Rightarrow> u32 \<Rightarrow> ptr \<times> ptr \<times> ptr \<Rightarrow> ('d, 'a) virtio_globals_scheme \<Rightarrow> ('d, 'a) virtio_globals_scheme" where
  "virtio_start hw base mmio qsize q s =
     (let (desc, avail, used) = q;
          status = VIRTIO_STATUS_ACKNOWLEDGE OR VIRTIO_STATUS_DRIVER OR VIRTIO_STATUS_FEATURES_OK OR VIRTIO_STATUS_DRIVER_OK;
          s1 = mmio_write hw mmio VIRTIO_MMIO_STATUS status s;
          (cap_lo, s2) = mmio_read hw mmio VIRTIO_MMIO_CONFIG s1;
          (cap_hi, s3) = mmio_read hw mmio (VIRTIO_MMIO_CONFIG + 4) s2 in
      s3\<lparr>g_blk := (g_blk s3)\<lparr>vb_base := base, vb_mmio := mmio, vb_queue_size := qsize,
        vb_desc := desc, vb_avail := avail, vb_used := used, vb_last_used := 0,
        vb_capacity_sectors := push_bit 32 (ucast cap_hi) OR ucast cap_lo, vb_sector_size := 512, vb_ready := True\<rparr>\<rparr>)"

definition virtio_setup ::
    "'d virtio_hw \<Rightarrow> u64 \<Rightarrow> ptr \<Rightarrow> u32 \<Rightarrow> ('d, 'a) virtio_globals_scheme \<Rightarrow> (bool \<times> ('d, 'a) virtio_globals_scheme) outcome" where
  "virtio_setup hw base mmio version s =
     (let (qmax, s1) = mmio_read hw mmio VIRTIO_MMIO_QUEUE_NUM_MAX (mmio_write hw mmio VIRTIO_MMIO_QUEUE_SEL 0 s) in
      if qmax = 0 then Ret (False, s1)
      else let qsize = (if qmax < VIRTQ_SIZE then qmax else VIRTQ_SIZE);
               s2 = mmio_write hw mmio VIRTIO_MMIO_QUEUE_NUM qsize s1 in
        obind (if version = VIRTIO_VERSION_2 then virtio_queue_v2 hw mmio s2 else virtio_queue_v1 hw mmio qsize s2) (\<lambda>(q, s3).
          case q of None \<Rightarrow> Ret (False, s3) | Some x \<Rightarrow> Ret (True, virtio_start hw base mmio qsize x s3)))"

definition virtio_blk_probe ::
    "'d virtio_hw \<Rightarrow> u64 \<Rightarrow> ('d, 'a) virtio_globals_scheme \<Rightarrow> (bool \<times> ('d, 'a) virtio_globals_scheme) outcome" where
  "virtio_blk_probe hw base s0 =
     (let mmio = mmio_ptr base;
          (magic, s1) = mmio_read hw mmio VIRTIO_MMIO_MAGIC_VALUE s0;
          (version, s2) = mmio_read hw mmio VIRTIO_MMIO_VERSION s1;
          (devid, s3) = mmio_read hw mmio VIRTIO_MMIO_DEVICE_ID s2 in
      if magic \<noteq> VIRTIO_MMIO_MAGIC then Ret (False, s3)
      else if version \<noteq> VIRTIO_VERSION_1 \<and> version \<noteq> VIRTIO_VERSION_2 then Ret (False, s3)
      else if devid \<noteq> VIRTIO_DEVICE_BLOCK then Ret (False, s3)
      else let (ok, s4) = virtio_negotiate hw mmio version s3 in
        if \<not> ok then Ret (False, s4) else virtio_setup hw base mmio version s4)"

fun probe_loop ::
    "'d virtio_hw \<Rightarrow> dtb_range list \<Rightarrow> ('d, 'a) virtio_globals_scheme \<Rightarrow> (bool \<times> ('d, 'a) virtio_globals_scheme) outcome" where
  "probe_loop hw [] s = Ret (False, s)"
| "probe_loop hw (r # rs) s = obind (virtio_blk_probe hw (r_base r) s) (\<lambda>(ok, s1). if ok then Ret (True, s1) else probe_loop hw rs s1)"

definition fallback_ranges :: "dtb_range list" where
  "fallback_ranges = map (\<lambda>i. \<lparr>r_base = 0x0A000000 + 0x200 * of_nat i, r_size = 0x200\<rparr>) [0..<32]"

definition virtio_blk_init ::
    "'d virtio_hw \<Rightarrow> mem \<Rightarrow> dtb_globals \<Rightarrow> ('d, 'a) virtio_globals_scheme \<Rightarrow> (bool \<times> ('d, 'a) virtio_globals_scheme) outcome" where
  "virtio_blk_init hw fdt g s =
     (if vb_ready (g_blk s) then Ret (True, s)
      else obind (dtb_get_virtio_mmio_ranges fdt 64 g) (\<lambda>(ok, rs).
        probe_loop hw (if \<not> ok \<or> rs = [] then fallback_ranges else rs) s))"

definition virtio_blk_ready :: "('d, 'a) virtio_globals_scheme \<Rightarrow> bool" where
  "virtio_blk_ready s = vb_ready (g_blk s)"

definition virtio_blk_sector_size :: "('d, 'a) virtio_globals_scheme \<Rightarrow> u32" where
  "virtio_blk_sector_size s = vb_sector_size (g_blk s)"

definition virtio_blk_capacity_sectors :: "('d, 'a) virtio_globals_scheme \<Rightarrow> u64" where
  "virtio_blk_capacity_sectors s = vb_capacity_sectors (g_blk s)"

section \<open>Requests\<close>

text \<open>The request header, the status byte, the three descriptors and the entry of the available ring.\<close>

definition blk_submit :: "ptr \<Rightarrow> u32 \<Rightarrow> u16 \<Rightarrow> u64 \<Rightarrow> ptr \<Rightarrow> u64 \<Rightarrow> virtio_blk_dev \<Rightarrow> dma \<Rightarrow> dma" where
  "blk_submit blk kind data_flags lba buf total_bytes b m =
     (let req_pa = pmm_virt_to_phys (req_addr blk); buf_pa = pmm_virt_to_phys buf; st_pa = pmm_virt_to_phys (status_addr blk);
          m1 = m\<lparr>req_at := (req_at m)(req_addr blk := \<lparr>br_type = kind, br_reserved = 0, br_sector = lba\<rparr>),
                 byte_at := (byte_at m)(status_addr blk := 0xFF),
                 desc_at := (desc_at m)
                   (desc_slot (vb_desc b) 0 := \<lparr>vd_addr = req_pa, vd_len = sizeof_virtio_blk_req, vd_flags = VIRTQ_DESC_F_NEXT, vd_next = 1\<rparr>,
                    desc_slot (vb_desc b) 1 := \<lparr>vd_addr = buf_pa, vd_len = ucast total_bytes, vd_flags = data_flags, vd_next = 2\<rparr>,
                    desc_slot (vb_desc b) 2 := \<lparr>vd_addr = st_pa, vd_len = 1, vd_flags = VIRTQ_DESC_F_WRITE, vd_next = 0\<rparr>)\<rparr>;
          av = avail_at m1 (vb_avail b); idx = av_idx av in
      m1\<lparr>avail_at := (avail_at m1)(vb_avail b :=
           av\<lparr>av_ring := (av_ring av)[unat (ucast idx mod vb_queue_size b) := 0], av_idx := idx + 1\<rparr>)\<rparr>)"

text \<open>Polling the used ring with \<open>k\<close> retries left.\<close>

fun poll_used ::
    "'d virtio_hw \<Rightarrow> nat \<Rightarrow> ('d, 'a) virtio_globals_scheme \<Rightarrow> bool \<times> ('d, 'a) virtio_globals_scheme" where
  "poll_used hw k s0 =
     (let s = (case hw_step hw (vhw s0) (shared s0) of (d, m) \<Rightarrow> s0\<lparr>vhw := d, shared := m\<rparr>) in
      if us_idx (used_at (shared s) (vb_used (g_blk s))) \<noteq> vb_last_used (g_blk s) then (True, s)
      else case k of 0 \<Rightarrow> (False, s) | Suc k' \<Rightarrow> poll_used hw k' s)"

declare poll_used.simps [simp del]

definition POLL_LIMIT :: nat where
  "POLL_LIMIT = 2000000"

definition blk_request_run ::
    "'d virtio_hw \<Rightarrow> ptr \<Rightarrow> u32 \<Rightarrow> u16 \<Rightarrow> u64 \<Rightarrow> ptr \<Rightarrow> u64 \<Rightarrow> ('d, 'a) virtio_globals_scheme \<Rightarrow> bool \<times> ('d, 'a) virtio_globals_scheme" where
  "blk_request_run hw blk kind data_flags lba buf total_bytes s =
     (let s1 = mmio_write hw (vb_mmio (g_blk s)) VIRTIO_MMIO_QUEUE_NOTIFY 0 (s\<lparr>shared := blk_submit blk kind data_flags lba buf total_bytes (g_blk s) (shared s)\<rparr>) in
      case poll_used hw POLL_LIMIT s1 of
        (False, s2) \<Rightarrow> (False, s2)
      | (True, s2) \<Rightarrow>
          let s3 = s2\<lparr>g_blk := (g_blk s2)\<lparr>vb_last_used := us_idx (used_at (shared s2) (vb_used (g_blk s2)))\<rparr>\<rparr> in
          (byte_at (shared s3) (status_addr blk) = 0, s3))"

definition virtio_blk_read ::
    "'d virtio_hw \<Rightarrow> ptr \<Rightarrow> u64 \<Rightarrow> u32 \<Rightarrow> ptr \<Rightarrow> u64 \<Rightarrow> ('d, 'a) virtio_globals_scheme \<Rightarrow> bool \<times> ('d, 'a) virtio_globals_scheme" where
  "virtio_blk_read hw blk lba count buf buf_len s =
     (if \<not> vb_ready (g_blk s) \<or> buf = NULL \<or> count = 0 then (False, s)
      else let total_bytes = ucast count * ucast (vb_sector_size (g_blk s)) in
        if buf_len < total_bytes then (False, s)
        else blk_request_run hw blk VIRTIO_BLK_T_IN (VIRTQ_DESC_F_NEXT OR VIRTQ_DESC_F_WRITE) lba buf total_bytes s)"

definition virtio_blk_write ::
    "'d virtio_hw \<Rightarrow> ptr \<Rightarrow> u64 \<Rightarrow> u32 \<Rightarrow> ptr \<Rightarrow> u64 \<Rightarrow> ('d, 'a) virtio_globals_scheme \<Rightarrow> bool \<times> ('d, 'a) virtio_globals_scheme" where
  "virtio_blk_write hw blk lba count buf buf_len s =
     (if \<not> vb_ready (g_blk s) \<or> buf = NULL \<or> count = 0 then (False, s)
      else let total_bytes = ucast count * ucast (vb_sector_size (g_blk s)) in
        if buf_len < total_bytes then (False, s)
        else blk_request_run hw blk VIRTIO_BLK_T_OUT VIRTQ_DESC_F_NEXT lba buf total_bytes s)"

section \<open>The block interface\<close>

definition hal_block_init ::
    "'d virtio_hw \<Rightarrow> mem \<Rightarrow> dtb_globals \<Rightarrow> ('d, 'a) virtio_globals_scheme \<Rightarrow> (bool \<times> ('d, 'a) virtio_globals_scheme) outcome" where
  "hal_block_init hw fdt g s = virtio_blk_init hw fdt g s"

definition hal_block_ready :: "('d, 'a) virtio_globals_scheme \<Rightarrow> bool" where
  "hal_block_ready s = virtio_blk_ready s"

definition hal_block_sector_size :: "('d, 'a) virtio_globals_scheme \<Rightarrow> u32" where
  "hal_block_sector_size s = virtio_blk_sector_size s"

definition hal_block_capacity_sectors :: "('d, 'a) virtio_globals_scheme \<Rightarrow> u64" where
  "hal_block_capacity_sectors s = virtio_blk_capacity_sectors s"

definition hal_block_read ::
    "'d virtio_hw \<Rightarrow> ptr \<Rightarrow> u64 \<Rightarrow> ptr \<Rightarrow> u64 \<Rightarrow> ('d, 'a) virtio_globals_scheme \<Rightarrow> bool \<times> ('d, 'a) virtio_globals_scheme" where
  "hal_block_read hw blk lba buf blocks s =
     (if \<not> virtio_blk_ready s \<or> buf = NULL \<or> blocks = 0 then (False, s)
      else let sector_size = virtio_blk_sector_size s in
        if sector_size = 0 then (False, s)
        else virtio_blk_read hw blk lba (ucast blocks) buf (ucast sector_size * blocks) s)"

definition hal_block_write ::
    "'d virtio_hw \<Rightarrow> ptr \<Rightarrow> u64 \<Rightarrow> ptr \<Rightarrow> u64 \<Rightarrow> ('d, 'a) virtio_globals_scheme \<Rightarrow> bool \<times> ('d, 'a) virtio_globals_scheme" where
  "hal_block_write hw blk lba buf blocks s =
     (if \<not> virtio_blk_ready s \<or> buf = NULL \<or> blocks = 0 then (False, s)
      else let sector_size = virtio_blk_sector_size s in
        if sector_size = 0 then (False, s)
        else virtio_blk_write hw blk lba (ucast blocks) buf (ucast sector_size * blocks) s)"

end
