(* ===== verification/Virtio_Props.thy ===== *)
theory Virtio_Props
  imports Virtio_Blk
begin

unbundle bit_operations_syntax

text \<open>
  The kernel's block driver with a device that follows the specification: every request it submits is one the
  device understands, a read delivers the sectors of the disk, a write stores them, and what was written is
  read back.
\<close>

abbreviation (input) tr :: "u64 \<Rightarrow> ptr" where
  "tr \<equiv> pmm_phys_to_virt"

lemma tr_add: "tr (pa + x) = tr pa + x"
  by (simp add: pmm_phys_to_virt_def)

lemma tr_slot: "tr (desc_slot d i) = desc_slot (tr d) i"
  by (simp add: desc_slot_def tr_add)

lemma tr_inverse: "CAPAZ_HH_RAM_BASE \<le> a \<Longrightarrow> tr (pmm_virt_to_phys a) = a"
  by (simp add: pmm_phys_to_virt_def pmm_virt_to_phys_def)

text \<open>
  The driver and the device agree: on the addresses and the size of the queue (with room for the three
  descriptors of a request), and on all earlier requests being done. \<open>g_blk\<close> is a kernel variable.
\<close>

definition blk_ok :: "('d \<Rightarrow> vdev) \<Rightarrow> ptr \<Rightarrow> ('d, 'a) virtio_globals_scheme \<Rightarrow> bool" where
  "blk_ok view blk s \<longleftrightarrow>
     (let b = g_blk s; v = view (vhw s); m = shared s in
      vb_ready b \<and> vb_sector_size b = 512 \<and> vb_desc b = tr (dv_desc v) \<and> vb_avail b = tr (dv_avail v) \<and> vb_used b = tr (dv_used v) \<and>
      unat (vb_queue_size b) = dv_qsize v \<and> 3 \<le> dv_qsize v \<and> dv_qsize v \<le> 8 \<and>
      vb_last_used b = us_idx (used_at m (vb_used b)) \<and> av_idx (avail_at m (vb_avail b)) = dv_seen v \<and> length (av_ring (avail_at m (vb_avail b))) = 8 \<and>
      CAPAZ_HH_RAM_BASE \<le> req_addr blk \<and> CAPAZ_HH_RAM_BASE \<le> status_addr blk)"

definition kind_flags :: "u32 \<Rightarrow> u16 \<Rightarrow> bool" where
  "kind_flags kind fl \<longleftrightarrow> kind = VIRTIO_BLK_T_IN \<and> fl = VIRTQ_DESC_F_NEXT OR VIRTQ_DESC_F_WRITE \<or> kind = VIRTIO_BLK_T_OUT \<and> fl = VIRTQ_DESC_F_NEXT"

text \<open>The chain the driver builds is a request in the sense of the specification.\<close>

lemma blk_submit_request:
  assumes "blk_ok view blk s" and "kind_flags kind fl" and "CAPAZ_HH_RAM_BASE \<le> buf"
  shows "next_request tr (view (vhw s)) (blk_submit blk kind fl lba buf total_bytes (g_blk s) (shared s)) =
    Some \<lparr>rq_kind = kind, rq_sector = lba, rq_data = pmm_virt_to_phys buf, rq_len = ucast total_bytes, rq_stat = pmm_virt_to_phys (status_addr blk)\<rparr>"
proof -
  let ?v = "view (vhw s)" and ?b = "g_blk s"
  have ok: "vb_desc ?b = tr (dv_desc ?v)" "vb_avail ?b = tr (dv_avail ?v)" "unat (vb_queue_size ?b) = dv_qsize ?v" "3 \<le> dv_qsize ?v"
    "dv_qsize ?v \<le> 8" "av_idx (avail_at (shared s) (vb_avail ?b)) = dv_seen ?v" "length (av_ring (avail_at (shared s) (vb_avail ?b))) = 8"
    "CAPAZ_HH_RAM_BASE \<le> req_addr blk"
    using assms(1) unfolding blk_ok_def Let_def by blast+
  have i: "unat (ucast (dv_seen ?v) mod vb_queue_size ?b) = unat (dv_seen ?v) mod dv_qsize ?v"
    using ok(3) unat_less_two_power [of "dv_seen ?v"] by (simp add: unat_mod unsigned_ucast_eq take_bit_nat_eq_self)
  have "unat (dv_seen ?v) mod dv_qsize ?v < 8" using ok(4,5) by (intro order_less_le_trans [OF mod_less_divisor]) simp_all
  then show ?thesis
    using ok i assms(2)
    by (simp add: next_request_def blk_submit_def Let_def tr_slot tr_inverse kind_flags_def sizeof_virtio_blk_req_def)
qed

lemma poll_used_steps:
  fixes s :: "('d, 'a) virtio_globals_scheme"
  assumes "hw_steps hw n (vhw s, shared s) = (d', m')" "0 < n" "n \<le> Suc k"
    and "\<And>j. j < n \<Longrightarrow> us_idx (used_at (snd (hw_steps hw j (vhw s, shared s))) (vb_used (g_blk s))) = vb_last_used (g_blk s)"
    and "us_idx (used_at m' (vb_used (g_blk s))) \<noteq> vb_last_used (g_blk s)"
  shows "poll_used hw k s = (True, s\<lparr>vhw := d', shared := m'\<rparr>)"
  using assms
proof (induction n arbitrary: k s)
  case (Suc n)
  obtain d1 m1 where st: "hw_step hw (vhw s) (shared s) = (d1, m1)" by fastforce
  let ?s1 = "s\<lparr>vhw := d1, shared := m1\<rparr>"
  show ?case
  proof (cases n)
    case 0
    then show ?thesis using Suc.prems(1,5) st by (subst poll_used.simps) simp
  next
    case (Suc n')
    then obtain k' where k: "k = Suc k'" using Suc.prems(3) by (cases k) simp_all
    have "us_idx (used_at m1 (vb_used (g_blk s))) = vb_last_used (g_blk s)" using Suc.prems(4) [of 1] st Suc by simp
    moreover have "poll_used hw k' ?s1 = (True, ?s1\<lparr>vhw := d', shared := m'\<rparr>)"
    proof (rule Suc.IH)
      show "us_idx (used_at (snd (hw_steps hw j (vhw ?s1, shared ?s1))) (vb_used (g_blk ?s1))) = vb_last_used (g_blk ?s1)" if "j < n" for j
        using Suc.prems(4) [of "Suc j"] that st by simp
    qed (use Suc.prems st Suc k in simp_all)
    ultimately show ?thesis using st k by (subst poll_used.simps) simp
  qed
qed simp

text \<open>A request runs to its end; the driver sees the status the device gave it.\<close>

lemma submit_fields [simp]:
  "used_at (blk_submit blk kind fl lba buf n b m) = used_at m"
  "byte_at (blk_submit blk kind fl lba buf n b m) = (byte_at m)(status_addr blk := 0xFF)"
  "av_idx (avail_at (blk_submit blk kind fl lba buf n b m) (vb_avail b)) = av_idx (avail_at m (vb_avail b)) + 1"
  "length (av_ring (avail_at (blk_submit blk kind fl lba buf n b m) (vb_avail b))) = length (av_ring (avail_at m (vb_avail b)))"
  by (simp_all add: blk_submit_def Let_def)

lemma blk_request_run_spec:
  fixes s :: "('d, 'a) virtio_globals_scheme" and lba n :: u64
  assumes comp: "blk_compliant hw tr (vb_mmio (g_blk s)) view (Suc POLL_LIMIT)" and ok: "blk_ok view blk s"
    and k: "kind_flags kind fl" and buf: "CAPAZ_HH_RAM_BASE \<le> buf"
  defines "r \<equiv> \<lparr>rq_kind = kind, rq_sector = lba, rq_data = pmm_virt_to_phys buf, rq_len = ucast n, rq_stat = pmm_virt_to_phys (status_addr blk)\<rparr>"
    and "m0 \<equiv> (byte_at (shared s))(status_addr blk := 0xFF)"
  shows "\<exists>d' m'. blk_request_run hw blk kind fl lba buf n s =
      (in_disk (view (vhw s)) r, s\<lparr>vhw := d', shared := m', g_blk := (g_blk s)\<lparr>vb_last_used := vb_last_used (g_blk s) + 1\<rparr>\<rparr>) \<and>
    view d' = served_dev tr (view (vhw s)) r m0 \<and> byte_at m' = serve_mem tr (view (vhw s)) r m0 \<and>
    blk_ok view blk (s\<lparr>vhw := d', shared := m', g_blk := (g_blk s)\<lparr>vb_last_used := vb_last_used (g_blk s) + 1\<rparr>\<rparr>)"
proof -
  let ?v = "view (vhw s)" and ?b = "g_blk s"
  let ?m = "blk_submit blk kind fl lba buf n ?b (shared s)"
  have o: "vb_used ?b = tr (dv_used ?v)" "vb_last_used ?b = us_idx (used_at (shared s) (vb_used ?b))" "CAPAZ_HH_RAM_BASE \<le> status_addr blk"
    using ok unfolding blk_ok_def Let_def by blast+
  have rq: "next_request tr ?v ?m = Some r" unfolding r_def by (rule blk_submit_request [OF ok k buf])
  define d0 where "d0 = hw_write hw (vb_mmio ?b) VIRTIO_MMIO_QUEUE_NOTIFY 0 (vhw s)"
  obtain j d' u where j: "0 < j" "j \<le> Suc POLL_LIMIT"
    "\<forall>i<j. us_idx (used_at (snd (hw_steps hw i (d0, ?m))) (tr (dv_used ?v))) = us_idx (used_at ?m (tr (dv_used ?v)))"
    "hw_steps hw j (d0, ?m) = (d', served_dma tr ?v r u ?m)" "us_idx u = us_idx (used_at ?m (tr (dv_used ?v))) + 1"
    "view d' = served_dev tr ?v r (byte_at ?m)"
    using comp rq unfolding blk_compliant_def d0_def by blast
  let ?m' = "served_dma tr ?v r u ?m"
  let ?s1 = "mmio_write hw (vb_mmio ?b) VIRTIO_MMIO_QUEUE_NOTIFY 0 (s\<lparr>shared := ?m\<rparr>)"
  have s1: "vhw ?s1 = d0" "shared ?s1 = ?m" "g_blk ?s1 = ?b" by (simp_all add: mmio_write_def d0_def)
  have u': "used_at ?m' (vb_used ?b) = u" by (simp add: served_dma_def o(1))
  have "poll_used hw POLL_LIMIT ?s1 = (True, ?s1\<lparr>vhw := d', shared := ?m'\<rparr>)"
    using j(1-4) s1 o(1,2) u' j(5) by (intro poll_used_steps [of hw j]) simp_all
  moreover have st: "byte_at ?m' (status_addr blk) = 0 \<longleftrightarrow> in_disk ?v r"
    by (simp add: served_dma_def serve_mem_def r_def tr_inverse [OF o(3)])
  ultimately have run: "blk_request_run hw blk kind fl lba buf n s =
      (in_disk ?v r, s\<lparr>vhw := d', shared := ?m', g_blk := ?b\<lparr>vb_last_used := vb_last_used ?b + 1\<rparr>\<rparr>)"
    using u' j(5) o(1,2) by (simp add: blk_request_run_def Let_def mmio_write_def)
  have "blk_ok view blk (s\<lparr>vhw := d', shared := ?m', g_blk := ?b\<lparr>vb_last_used := vb_last_used ?b + 1\<rparr>\<rparr>)"
  proof -
    have "avail_at ?m' = avail_at ?m" by (simp add: served_dma_def)
    moreover have "av_idx (avail_at ?m (vb_avail ?b)) = dv_seen ?v + 1 \<and> length (av_ring (avail_at ?m (vb_avail ?b))) = 8"
      using ok unfolding submit_fields blk_ok_def Let_def by metis
    ultimately show ?thesis using ok u' j(5,6) o(1) unfolding blk_ok_def Let_def by (simp add: served_dev_def)
  qed
  moreover have "byte_at ?m' = serve_mem tr ?v r m0" by (simp add: served_dma_def m0_def)
  moreover have "view d' = served_dev tr ?v r m0" using j(6) by (simp add: m0_def)
  ultimately show ?thesis using run by blast
qed


section \<open>Transfers\<close>

text \<open>A transfer the driver accepts: a buffer in the direct map apart from the status byte, less than 4 GiB, inside the disk.\<close>

definition transfer_ok :: "vdev \<Rightarrow> ptr \<Rightarrow> u64 \<Rightarrow> u32 \<Rightarrow> ptr \<Rightarrow> u64 \<Rightarrow> bool" where
  "transfer_ok v blk lba count buf buf_len \<longleftrightarrow>
     count \<noteq> 0 \<and> unat count * 512 < 2 ^ 32 \<and> unat count * 512 \<le> unat buf_len \<and> CAPAZ_HH_RAM_BASE \<le> buf \<and>
     \<not> span buf (unat count * 512) (status_addr blk) \<and> unat lba + unat count \<le> dv_sectors v"

lemma transfer_words:
  assumes "transfer_ok v blk lba count buf buf_len"
  shows "unat (ucast count * ucast (512 :: u32) :: u64) = unat count * 512" "\<not> buf_len < ucast count * ucast (512 :: u32)"
    "unat (ucast (ucast count * ucast (512 :: u32) :: u64) :: u32) = unat count * 512" "buf \<noteq> NULL"
    "in_disk v \<lparr>rq_kind = kind, rq_sector = lba, rq_data = x, rq_len = ucast (ucast count * ucast (512 :: u32) :: u64), rq_stat = y\<rparr>"
proof -
  have a: "unat count * 512 < 2 ^ 32" "unat count * 512 \<le> unat buf_len" "unat lba + unat count \<le> dv_sectors v" "CAPAZ_HH_RAM_BASE \<le> buf"
    using assms by (simp_all add: transfer_ok_def)
  show u: "unat (ucast count * ucast (512 :: u32) :: u64) = unat count * 512"
    using a(1) unat_less_two_power [of count] by (simp add: unat_word_ariths unsigned_ucast_eq take_bit_nat_eq_self)
  then show "\<not> buf_len < ucast count * ucast (512 :: u32)" using a(2) by (simp add: word_less_nat_alt)
  show l: "unat (ucast (ucast count * ucast (512 :: u32) :: u64) :: u32) = unat count * 512"
    unfolding unsigned_ucast_eq u using a(1) by (simp add: take_bit_nat_eq_self)
  show "buf \<noteq> NULL" using a(4) by (auto simp: kaddr_config)
  have "unat lba * 512 + unat count * 512 \<le> dv_sectors v * 512" using mult_le_mono1 [OF a(3), of 512] by (simp add: algebra_simps)
  then show "in_disk v \<lparr>rq_kind = kind, rq_sector = lba, rq_data = x, rq_len = ucast (ucast count * ucast (512 :: u32) :: u64), rq_stat = y\<rparr>"
    using l by (simp add: in_disk_def disk_pos_def)
qed

definition disk_bytes :: "(nat \<Rightarrow> u8) \<Rightarrow> u64 \<Rightarrow> nat \<Rightarrow> u8 list" where
  "disk_bytes dk lba n = map (\<lambda>i. dk (unat lba * 512 + i)) [0..<n]"

lemma span_index: "span p n a \<Longrightarrow> \<exists>i<n. a = p + of_nat i"
  by (intro exI [of _ "unat (a - p)"]) (simp add: span_def)

lemma virtio_blk_read_spec:
  assumes comp: "blk_compliant hw tr (vb_mmio (g_blk s)) view (Suc POLL_LIMIT)" and ok: "blk_ok view blk s"
    and t: "transfer_ok (view (vhw s)) blk lba count buf buf_len"
  shows "\<exists>d' m'. virtio_blk_read hw blk lba count buf buf_len s =
      (True, s\<lparr>vhw := d', shared := m', g_blk := (g_blk s)\<lparr>vb_last_used := vb_last_used (g_blk s) + 1\<rparr>\<rparr>) \<and>
    blk_ok view blk (s\<lparr>vhw := d', shared := m', g_blk := (g_blk s)\<lparr>vb_last_used := vb_last_used (g_blk s) + 1\<rparr>\<rparr>) \<and>
    view d' = (view (vhw s))\<lparr>dv_seen := dv_seen (view (vhw s)) + 1\<rparr> \<and>
    bytes_at (byte_at m') buf (unat count * 512) = disk_bytes (dv_disk (view (vhw s))) lba (unat count * 512) \<and>
    (\<forall>a. \<not> span buf (unat count * 512) a \<longrightarrow> a \<noteq> status_addr blk \<longrightarrow> byte_at m' a = byte_at (shared s) a)"
proof -
  let ?v = "view (vhw s)" and ?n = "ucast count * ucast (512 :: u32) :: u64"
  let ?r = "\<lparr>rq_kind = VIRTIO_BLK_T_IN, rq_sector = lba, rq_data = pmm_virt_to_phys buf, rq_len = ucast ?n, rq_stat = pmm_virt_to_phys (status_addr blk)\<rparr>"
  note w = transfer_words [OF t]
  have o: "vb_ready (g_blk s)" "vb_sector_size (g_blk s) = 512" "CAPAZ_HH_RAM_BASE \<le> status_addr blk"
    using ok unfolding blk_ok_def Let_def by blast+
  have b: "CAPAZ_HH_RAM_BASE \<le> buf" "\<not> span buf (unat count * 512) (status_addr blk)" "count \<noteq> 0" "unat count * 512 < 2 ^ 32"
    using t by (simp_all add: transfer_ok_def)
  have kf: "kind_flags VIRTIO_BLK_T_IN (VIRTQ_DESC_F_NEXT OR VIRTQ_DESC_F_WRITE)" by (simp add: kind_flags_def)
  obtain d' m' where run: "blk_request_run hw blk VIRTIO_BLK_T_IN (VIRTQ_DESC_F_NEXT OR VIRTQ_DESC_F_WRITE) lba buf ?n s =
      (True, s\<lparr>vhw := d', shared := m', g_blk := (g_blk s)\<lparr>vb_last_used := vb_last_used (g_blk s) + 1\<rparr>\<rparr>)"
    and ok': "blk_ok view blk (s\<lparr>vhw := d', shared := m', g_blk := (g_blk s)\<lparr>vb_last_used := vb_last_used (g_blk s) + 1\<rparr>\<rparr>)"
    and d': "view d' = served_dev tr ?v ?r ((byte_at (shared s))(status_addr blk := 0xFF))"
    and m': "byte_at m' = serve_mem tr ?v ?r ((byte_at (shared s))(status_addr blk := 0xFF))"
    using blk_request_run_spec [OF comp ok kf b(1), of lba ?n] w(5) by auto
  have mb: "byte_at m' a = (if a = status_addr blk then 0 else if span buf (unat count * 512) a
      then dv_disk ?v (unat lba * 512 + unat (a - buf)) else byte_at (shared s) a)" for a
    unfolding m' serve_mem_def using w(3,5) tr_inverse [OF b(1)] tr_inverse [OF o(3)] by (simp add: disk_pos_def)
  have "byte_at m' (buf + of_nat i) = dv_disk ?v (unat lba * 512 + i)" if "i < unat count * 512" for i
  proof -
    have sp: "span buf (unat count * 512) (buf + of_nat i)" using that b(4) by simp
    then have "buf + of_nat i \<noteq> status_addr blk" using b(2) by metis
    moreover have "unat (of_nat i :: u64) = i" using that b(4) by (simp add: unat_of_nat)
    ultimately show ?thesis using mb [of "buf + of_nat i"] sp by simp
  qed
  then have "bytes_at (byte_at m') buf (unat count * 512) = disk_bytes (dv_disk ?v) lba (unat count * 512)"
    by (simp add: bytes_at_def disk_bytes_def)
  moreover have "view d' = ?v\<lparr>dv_seen := dv_seen ?v + 1\<rparr>" unfolding d' served_dev_def serve_disk_def by (simp add: virtio_constants)
  moreover have "virtio_blk_read hw blk lba count buf buf_len s =
      (True, s\<lparr>vhw := d', shared := m', g_blk := (g_blk s)\<lparr>vb_last_used := vb_last_used (g_blk s) + 1\<rparr>\<rparr>)"
    unfolding virtio_blk_read_def Let_def o(2) run using o(1) b(3) w(2,4) by simp
  ultimately show ?thesis using ok' mb by (intro exI [of _ d'] exI [of _ m']) auto
qed

lemma virtio_blk_write_spec:
  assumes comp: "blk_compliant hw tr (vb_mmio (g_blk s)) view (Suc POLL_LIMIT)" and ok: "blk_ok view blk s"
    and t: "transfer_ok (view (vhw s)) blk lba count buf buf_len"
  shows "\<exists>d' m'. virtio_blk_write hw blk lba count buf buf_len s =
      (True, s\<lparr>vhw := d', shared := m', g_blk := (g_blk s)\<lparr>vb_last_used := vb_last_used (g_blk s) + 1\<rparr>\<rparr>) \<and>
    blk_ok view blk (s\<lparr>vhw := d', shared := m', g_blk := (g_blk s)\<lparr>vb_last_used := vb_last_used (g_blk s) + 1\<rparr>\<rparr>) \<and>
    dv_sectors (view d') = dv_sectors (view (vhw s)) \<and>
    disk_bytes (dv_disk (view d')) lba (unat count * 512) = bytes_at (byte_at (shared s)) buf (unat count * 512) \<and>
    (\<forall>i. i < unat lba * 512 \<or> unat lba * 512 + unat count * 512 \<le> i \<longrightarrow> dv_disk (view d') i = dv_disk (view (vhw s)) i) \<and>
    (\<forall>a. a \<noteq> status_addr blk \<longrightarrow> byte_at m' a = byte_at (shared s) a)"
proof -
  let ?v = "view (vhw s)" and ?n = "ucast count * ucast (512 :: u32) :: u64"
  let ?r = "\<lparr>rq_kind = VIRTIO_BLK_T_OUT, rq_sector = lba, rq_data = pmm_virt_to_phys buf, rq_len = ucast ?n, rq_stat = pmm_virt_to_phys (status_addr blk)\<rparr>"
  note w = transfer_words [OF t]
  have o: "vb_ready (g_blk s)" "vb_sector_size (g_blk s) = 512" "CAPAZ_HH_RAM_BASE \<le> status_addr blk"
    using ok unfolding blk_ok_def Let_def by blast+
  have b: "CAPAZ_HH_RAM_BASE \<le> buf" "\<not> span buf (unat count * 512) (status_addr blk)" "count \<noteq> 0" "unat count * 512 < 2 ^ 32"
    using t by (simp_all add: transfer_ok_def)
  have kf: "kind_flags VIRTIO_BLK_T_OUT VIRTQ_DESC_F_NEXT" by (simp add: kind_flags_def)
  obtain d' m' where run: "blk_request_run hw blk VIRTIO_BLK_T_OUT VIRTQ_DESC_F_NEXT lba buf ?n s =
      (True, s\<lparr>vhw := d', shared := m', g_blk := (g_blk s)\<lparr>vb_last_used := vb_last_used (g_blk s) + 1\<rparr>\<rparr>)"
    and ok': "blk_ok view blk (s\<lparr>vhw := d', shared := m', g_blk := (g_blk s)\<lparr>vb_last_used := vb_last_used (g_blk s) + 1\<rparr>\<rparr>)"
    and d': "view d' = served_dev tr ?v ?r ((byte_at (shared s))(status_addr blk := 0xFF))"
    and m': "byte_at m' = serve_mem tr ?v ?r ((byte_at (shared s))(status_addr blk := 0xFF))"
    using blk_request_run_spec [OF comp ok kf b(1), of lba ?n] w(5) by auto
  have mb: "byte_at m' a = (if a = status_addr blk then 0 else byte_at (shared s) a)" for a
    unfolding m' serve_mem_def using w(5) tr_inverse [OF o(3)] by (simp add: virtio_constants)
  have dk: "dv_disk (view d') i = (if unat lba * 512 \<le> i \<and> i < unat lba * 512 + unat count * 512
      then ((byte_at (shared s))(status_addr blk := 0xFF)) (buf + of_nat (i - unat lba * 512)) else dv_disk ?v i)" for i
    unfolding d' served_dev_def serve_disk_def using w(3,5) tr_inverse [OF b(1)] by (simp add: disk_pos_def)
  have "buf + of_nat i \<noteq> status_addr blk" if "i < unat count * 512" for i
  proof -
    have "span buf (unat count * 512) (buf + of_nat i)" using that b(4) by simp
    then show ?thesis using b(2) by metis
  qed
  then have "disk_bytes (dv_disk (view d')) lba (unat count * 512) = bytes_at (byte_at (shared s)) buf (unat count * 512)"
    by (simp add: bytes_at_def disk_bytes_def dk)
  moreover have "dv_sectors (view d') = dv_sectors ?v" unfolding d' served_dev_def by simp
  moreover have "virtio_blk_write hw blk lba count buf buf_len s =
      (True, s\<lparr>vhw := d', shared := m', g_blk := (g_blk s)\<lparr>vb_last_used := vb_last_used (g_blk s) + 1\<rparr>\<rparr>)"
    unfolding virtio_blk_write_def Let_def o(2) run using o(1) b(3) w(2,4) by simp
  ultimately show ?thesis using ok' mb dk by (intro exI [of _ d'] exI [of _ m']) auto
qed

section \<open>The block interface\<close>

lemma hal_block_requests:
  assumes "blk_ok view blk s" "transfer_ok v blk lba count buf buf_len"
  shows "hal_block_read hw blk lba buf (ucast count) s = virtio_blk_read hw blk lba count buf (512 * ucast count) s"
    "hal_block_write hw blk lba buf (ucast count) s = virtio_blk_write hw blk lba count buf (512 * ucast count) s"
proof -
  have o: "vb_ready (g_blk s)" "vb_sector_size (g_blk s) = 512" using assms(1) unfolding blk_ok_def Let_def by blast+
  have u: "unat (ucast count :: u64) = unat count"
    using unat_less_two_power [of count] by (simp add: unsigned_ucast_eq take_bit_nat_eq_self)
  have c: "(ucast count :: u64) \<noteq> 0"
  proof
    assume "(ucast count :: u64) = 0"
    then have "unat count = 0" unfolding u [symmetric] by simp
    then show False using assms(2) by (simp add: transfer_ok_def unat_eq_zero)
  qed
  have c2: "ucast (ucast count :: u64) = count" by (rule bit_word_eqI) (simp add: bit_simps)
  show "hal_block_read hw blk lba buf (ucast count) s = virtio_blk_read hw blk lba count buf (512 * ucast count) s"
    "hal_block_write hw blk lba buf (ucast count) s = virtio_blk_write hw blk lba count buf (512 * ucast count) s"
    using o c c2 transfer_words(4) [OF assms(2)]
    by (simp_all add: hal_block_read_def hal_block_write_def virtio_blk_ready_def virtio_blk_sector_size_def Let_def)
qed

lemma transfer_ok_len:
  assumes "transfer_ok v blk lba count buf buf_len"
  shows "transfer_ok v blk lba count buf (512 * ucast count)"
  using assms transfer_words(1) [OF assms] by (simp add: transfer_ok_def mult.commute)

text \<open>
  C39: what is written to the block device is read back. With a device that follows the specification
  and answers within the polling limit, a write of sectors succeeds, and a read of these sectors into any other
  buffer then succeeds and delivers the bytes that were written. The rest of the disk and all memory but the second
  buffer and the status byte are unchanged, and the driver and the device agree again afterwards.
\<close>

theorem hal_block_write_read:
  assumes comp: "blk_compliant hw pmm_phys_to_virt (vb_mmio (g_blk s)) view (Suc POLL_LIMIT)" and ok: "blk_ok view blk s"
    and w: "transfer_ok (view (vhw s)) blk lba count buf (512 * ucast count)"
    and r: "transfer_ok (view (vhw s)) blk lba count buf2 (512 * ucast count)"
  shows "\<exists>s1 s2. hal_block_write hw blk lba buf (ucast count) s = (True, s1) \<and> hal_block_read hw blk lba buf2 (ucast count) s1 = (True, s2) \<and>
    bytes_at (byte_at (shared s2)) buf2 (unat count * 512) = bytes_at (byte_at (shared s)) buf (unat count * 512) \<and> blk_ok view blk s2 \<and>
    (\<forall>i. i < unat lba * 512 \<or> unat lba * 512 + unat count * 512 \<le> i \<longrightarrow> dv_disk (view (vhw s2)) i = dv_disk (view (vhw s)) i) \<and>
    (\<forall>a. \<not> span buf2 (unat count * 512) a \<longrightarrow> a \<noteq> status_addr blk \<longrightarrow> byte_at (shared s2) a = byte_at (shared s) a)"
proof -
  obtain d1 m1 where 1: "virtio_blk_write hw blk lba count buf (512 * ucast count) s =
      (True, s\<lparr>vhw := d1, shared := m1, g_blk := (g_blk s)\<lparr>vb_last_used := vb_last_used (g_blk s) + 1\<rparr>\<rparr>)"
    "blk_ok view blk (s\<lparr>vhw := d1, shared := m1, g_blk := (g_blk s)\<lparr>vb_last_used := vb_last_used (g_blk s) + 1\<rparr>\<rparr>)"
    "dv_sectors (view d1) = dv_sectors (view (vhw s))"
    "disk_bytes (dv_disk (view d1)) lba (unat count * 512) = bytes_at (byte_at (shared s)) buf (unat count * 512)"
    "\<forall>i. i < unat lba * 512 \<or> unat lba * 512 + unat count * 512 \<le> i \<longrightarrow> dv_disk (view d1) i = dv_disk (view (vhw s)) i"
    "\<forall>a. a \<noteq> status_addr blk \<longrightarrow> byte_at m1 a = byte_at (shared s) a"
    using virtio_blk_write_spec [OF comp ok w] by blast
  let ?s1 = "s\<lparr>vhw := d1, shared := m1, g_blk := (g_blk s)\<lparr>vb_last_used := vb_last_used (g_blk s) + 1\<rparr>\<rparr>"
  have "blk_compliant hw tr (vb_mmio (g_blk ?s1)) view (Suc POLL_LIMIT)" using comp by simp
  moreover have t: "transfer_ok (view (vhw ?s1)) blk lba count buf2 (512 * ucast count)" using r 1(3) by (simp add: transfer_ok_def)
  ultimately obtain d2 m2 where 2: "virtio_blk_read hw blk lba count buf2 (512 * ucast count) ?s1 =
      (True, ?s1\<lparr>vhw := d2, shared := m2, g_blk := (g_blk ?s1)\<lparr>vb_last_used := vb_last_used (g_blk ?s1) + 1\<rparr>\<rparr>)"
    "blk_ok view blk (?s1\<lparr>vhw := d2, shared := m2, g_blk := (g_blk ?s1)\<lparr>vb_last_used := vb_last_used (g_blk ?s1) + 1\<rparr>\<rparr>)"
    "bytes_at (byte_at m2) buf2 (unat count * 512) = disk_bytes (dv_disk (view (vhw ?s1))) lba (unat count * 512)"
    "view d2 = (view (vhw ?s1))\<lparr>dv_seen := dv_seen (view (vhw ?s1)) + 1\<rparr>"
    "\<forall>a. \<not> span buf2 (unat count * 512) a \<longrightarrow> a \<noteq> status_addr blk \<longrightarrow> byte_at m2 a = byte_at (shared ?s1) a"
    using virtio_blk_read_spec [OF _ 1(2), of hw lba count buf2 "512 * ucast count"] by blast
  have "hal_block_write hw blk lba buf (ucast count) s = (True, ?s1)" using 1(1) hal_block_requests(2) [OF ok w] by simp
  moreover have "hal_block_read hw blk lba buf2 (ucast count) ?s1 =
      (True, ?s1\<lparr>vhw := d2, shared := m2, g_blk := (g_blk ?s1)\<lparr>vb_last_used := vb_last_used (g_blk ?s1) + 1\<rparr>\<rparr>)"
    using 2(1) hal_block_requests(1) [OF 1(2) t] by simp
  ultimately show ?thesis using 2(2-5) 1(4-6)
    by (intro exI [of _ ?s1] exI [of _ "?s1\<lparr>vhw := d2, shared := m2, g_blk := (g_blk ?s1)\<lparr>vb_last_used := vb_last_used (g_blk ?s1) + 1\<rparr>\<rparr>"]) simp
qed

section \<open>An example device\<close>

definition example_virtio :: "(vdev \<times> bool) virtio_globals" where
  "example_virtio = kheap_globals.extend example_kheap
     \<lparr>vhw = (\<lparr>dv_desc = 0x41000000, dv_avail = 0x41001000, dv_used = 0x41002000, dv_qsize = 8, dv_seen = 0, dv_disk = (\<lambda>_. 0), dv_sectors = 100\<rparr>, False),
      shared = \<lparr>desc_at = (\<lambda>_. desc_zero), avail_at = (\<lambda>_. avail_zero), used_at = (\<lambda>_. used_zero),
        req_at = (\<lambda>_. \<lparr>br_type = 0, br_reserved = 0, br_sector = 0\<rparr>), byte_at = (\<lambda>a. ucast a)\<rparr>,
      g_blk = \<lparr>vb_base = 0x0A000000, vb_mmio = mmio_ptr 0x0A000000, vb_queue_size = 8, vb_desc = tr 0x41000000, vb_avail = tr 0x41001000,
        vb_used = tr 0x41002000, vb_last_used = 0, vb_capacity_sectors = 100, vb_sector_size = 512, vb_ready = True\<rparr>\<rparr>"

lemma example_virtio_ok: "blk_ok fst (tr 0x40100000) example_virtio"
  by (simp add: blk_ok_def example_virtio_def kheap_globals.defs avail_zero_def used_zero_def req_addr_def status_addr_def pmm_phys_to_virt_def kaddr_config)

theorem hal_block_write_read_witness:
  "\<exists>s1 s2. hal_block_write (prompt_device pmm_phys_to_virt) (tr 0x40100000) 7 (tr 0x42000000) (ucast (2 :: u32)) example_virtio = (True, s1) \<and>
     hal_block_read (prompt_device pmm_phys_to_virt) (tr 0x40100000) 7 (tr 0x43000000) (ucast (2 :: u32)) s1 = (True, s2) \<and>
     bytes_at (byte_at (shared s2)) (tr 0x43000000) 1024 = bytes_at (\<lambda>a. ucast a) (tr 0x42000000) 1024"
proof -
  have v: "dv_sectors (fst (vhw example_virtio)) = 100" "byte_at (shared example_virtio) = (\<lambda>a. ucast a)"
    by (simp_all add: example_virtio_def kheap_globals.defs)
  have t: "transfer_ok (fst (vhw example_virtio)) (tr 0x40100000) 7 2 (tr 0x42000000) (512 * ucast (2 :: u32))"
    "transfer_ok (fst (vhw example_virtio)) (tr 0x40100000) 7 2 (tr 0x43000000) (512 * ucast (2 :: u32))"
    using v(1) by (simp_all add: transfer_ok_def span_def status_addr_def pmm_phys_to_virt_def kaddr_config)
  show ?thesis
    using hal_block_write_read [OF prompt_device_compliant example_virtio_ok t] v(2) by auto
qed


section \<open>Probing\<close>

text \<open>Register accesses change the device only.\<close>

definition only_device :: "('d, 'a) virtio_globals_scheme \<Rightarrow> ('d, 'a) virtio_globals_scheme \<Rightarrow> bool" where
  "only_device s s' \<longleftrightarrow> (\<exists>d. s' = s\<lparr>vhw := d\<rparr>)"

lemma only_device_access:
  "only_device s s" "only_device s (mmio_write hw b off x s)" "only_device s (snd (mmio_read hw b off s))"
  by (auto simp: only_device_def mmio_write_def mmio_read_def split: prod.split intro: exI [of _ "vhw s"])

lemma mmio_access_sel [simp]: "shared (mmio_write hw b off x s) = shared s" "g_blk (mmio_write hw b off x s) = g_blk s"
  "shared (snd (mmio_read hw b off s)) = shared s" "g_blk (snd (mmio_read hw b off s)) = g_blk s"
  by (simp_all add: mmio_write_def mmio_read_def split: prod.split)

lemma only_device_trans [trans]: "only_device s s' \<Longrightarrow> only_device s' s'' \<Longrightarrow> only_device s s''"
  by (auto simp: only_device_def)

lemma only_deviceD:
  assumes "only_device s s'"
  shows "shared s' = shared s" "g_blk s' = g_blk s" "in_irq s' = in_irq s" "pmm_ok s' = pmm_ok s"
proof -
  have "pmm_ok (s\<lparr>vhw := d\<rparr>) = pmm_ok s" for d by (rule pmm_ok_cong) simp_all
  then show "shared s' = shared s" "g_blk s' = g_blk s" "in_irq s' = in_irq s" "pmm_ok s' = pmm_ok s"
    using assms by (auto simp: only_device_def in_irq_def)
qed

lemma view_access:
  assumes "reg_compliant hw mmio view"
  shows "view (vhw (mmio_write hw mmio off x s)) = reg_effect off x (view (vhw s))" "view (vhw (snd (mmio_read hw mmio off s))) = view (vhw s)"
  using assms by (auto simp: reg_compliant_def mmio_write_def mmio_read_def split: prod.split) (metis snd_conv)

lemma only_device_writes: "only_device s (mmio_writes hw b ws s)"
proof (induction ws arbitrary: s)
  case (Cons w ws)
  then show ?case using only_device_trans [OF only_device_access(2)] by (cases w) fastforce
qed (simp add: only_device_access)

lemma view_writes:
  assumes "reg_compliant hw mmio view"
  shows "view (vhw (mmio_writes hw mmio ws s)) = fold (\<lambda>(off, x). reg_effect off x) ws (view (vhw s))"
  by (induction ws arbitrary: s) (auto simp: view_access [OF assms])

lemma virtio_negotiate_device:
  assumes "reg_compliant hw mmio view" and "virtio_negotiate hw mmio version s = (ok, s')"
  shows "only_device s s'" "view (vhw s') = (view (vhw s))\<lparr>dv_seen := 0\<rparr>"
proof -
  have f: "only_device t (virtio_features hw mmio version t)" "view (vhw (virtio_features hw mmio version t)) = view (vhw t)" for t
    unfolding virtio_features_def Let_def
    by (auto simp: view_access [OF assms(1)] reg_effect_def virtio_registers
        intro!: only_device_access only_device_trans [OF _ only_device_access(2)] only_device_trans [OF _ only_device_access(3)])
  show "only_device s s'"
    using assms(2) unfolding virtio_negotiate_def Let_def case_prod_beta
    by (auto split: if_splits intro!: f(1) only_device_access only_device_trans [OF _ only_device_access(2)] only_device_trans [OF _ only_device_access(3)]
        only_device_trans [OF _ f(1)])
  show "view (vhw s') = (view (vhw s))\<lparr>dv_seen := 0\<rparr>"
    using assms(2) unfolding virtio_negotiate_def Let_def case_prod_beta
    by (auto simp: view_access [OF assms(1)] f(2) reg_effect_def virtio_registers virtio_constants split: if_splits)
qed

lemma virtio_more:
  fixes s s' :: "('d, 'a) virtio_globals_scheme"
  assumes "pmm_globals.more s' = pmm_globals.more s"
  shows "vhw s' = vhw s" "shared s' = shared s" "g_blk s' = g_blk s"
  using assms by (cases s; cases s'; simp)+

text \<open>Pages for the queue are page-aligned and below 2 GiB, and the address the CPU uses is their direct-mapped one.\<close>

lemma queue_pages:
  fixes s :: "('d, 'a) virtio_globals_scheme"
  assumes irq: "\<not> in_irq s" and ok: "pmm_ok s" and n: "n \<noteq> 0"
  shows "\<exists>va pa s'. kheap_alloc_pages n LOCAL s = Ret ((va, pa), s') \<and> vhw s' = vhw s \<and> shared s' = shared s \<and> g_blk s' = g_blk s \<and>
    \<not> in_irq s' \<and> pmm_ok s' \<and> (va \<noteq> NULL \<longrightarrow> va = tr (pa_of pa) \<and> unat (pa_of pa) < 0x80000000 \<and> 4096 dvd unat (pa_of pa))"
proof -
  obtain r s1 where r: "pmm_alloc_pages n LOCAL s = Ret (r, s1)" using pmm_alloc_pages_returns [OF irq] by blast
  note f = pmm_alloc_pages_frame [OF r] and m = virtio_more [OF pmm_alloc_pages_frame(1) [OF r]]
  have irq1: "\<not> in_irq s1" using irq f(2) by (simp add: in_irq_def)
  show ?thesis
  proof (cases r)
    case None
    let ?s = "s1\<lparr>g_kheap_fail_calls := g_kheap_fail_calls s1 + 1\<rparr>"
    have "pmm_ok s1" using pmm_ok_alloc_None [OF ok] r None by blast
    then have "pmm_ok ?s" by (subst pmm_ok_cong [of ?s s1]) simp_all
    then show ?thesis using r None irq irq1 m n by (simp add: kheap_alloc_pages_def in_irq_def)
  next
    case (Some pa)
    note k = pmm_ok_alloc_Some [OF ok r [unfolded Some]]
    have "0 < unat n" using n by (simp add: unat_gt_0)
    then have "pa \<in> page_run pa (unat n)" by (auto simp: page_run_def intro: image_eqI [of _ _ 0])
    then have "pa \<in> managed_pas s" using k(2) free_pas_managed [OF ok] by blast
    then have "unat pa < 0x80000000" "4096 dvd unat pa" using managed_page [OF ok] by fastforce+
    then show ?thesis using r Some irq irq1 m n k(1) by (simp add: kheap_alloc_pages_def pa_of_def)
  qed
qed

text \<open>A set-up queue: the driver's addresses are the device's, the rings are empty.\<close>

definition queue_set :: "('d \<Rightarrow> vdev) \<Rightarrow> ptr \<times> ptr \<times> ptr \<Rightarrow> ('d, 'a) virtio_globals_scheme \<Rightarrow> ('d, 'a) virtio_globals_scheme \<Rightarrow> bool" where
  "queue_set view q s s' \<longleftrightarrow>
     q = (tr (dv_desc (view (vhw s'))), tr (dv_avail (view (vhw s'))), tr (dv_used (view (vhw s')))) \<and>
     dv_seen (view (vhw s')) = dv_seen (view (vhw s)) \<and> dv_qsize (view (vhw s')) = dv_qsize (view (vhw s)) \<and>
     avail_at (shared s') (fst (snd q)) = avail_zero \<and> used_at (shared s') (snd (snd q)) = used_zero"

lemma dma_zero_sel:
  "avail_at (dma_zero p n m) a = (if span p n a then avail_zero else avail_at m a)"
  "used_at (dma_zero p n m) a = (if span p n a then used_zero else used_at m a)"
  by (simp_all add: dma_zero_def)

lemma virtio_queue_v2_sets:
  assumes "reg_compliant hw mmio view" "\<not> in_irq s" "pmm_ok s"
  shows "\<exists>q s'. virtio_queue_v2 hw mmio s = Ret (q, s') \<and> (\<forall>x. q = Some x \<longrightarrow> queue_set view x s s')"
proof -
  obtain desc dpa s1 where 1: "kheap_alloc_pages 1 LOCAL s = Ret ((desc, dpa), s1)" "vhw s1 = vhw s" "\<not> in_irq s1" "pmm_ok s1"
    "desc \<noteq> NULL \<longrightarrow> desc = tr (pa_of dpa)" using queue_pages [OF assms(2,3), of 1] by auto
  obtain avail apa s2 where 2: "kheap_alloc_pages 1 LOCAL s1 = Ret ((avail, apa), s2)" "vhw s2 = vhw s1" "\<not> in_irq s2" "pmm_ok s2"
    "avail \<noteq> NULL \<longrightarrow> avail = tr (pa_of apa)" using queue_pages [OF 1(3,4), of 1] by auto
  obtain used upa s3 where 3: "kheap_alloc_pages 1 LOCAL s2 = Ret ((used, upa), s3)" "vhw s3 = vhw s2" "\<not> in_irq s3" "pmm_ok s3"
    "used \<noteq> NULL \<longrightarrow> used = tr (pa_of upa)" using queue_pages [OF 2(3,4), of 1] by auto
  let ?m = "dma_zero used 4096 (dma_zero avail 4096 (dma_zero desc 4096 (shared s3)))"
  let ?ws = "[(VIRTIO_MMIO_QUEUE_DESC_LOW, ucast (pa_of dpa AND 0xFFFFFFFF)), (VIRTIO_MMIO_QUEUE_DESC_HIGH, ucast (drop_bit 32 (pa_of dpa))),
    (VIRTIO_MMIO_QUEUE_AVAIL_LOW, ucast (pa_of apa AND 0xFFFFFFFF)), (VIRTIO_MMIO_QUEUE_AVAIL_HIGH, ucast (drop_bit 32 (pa_of apa))),
    (VIRTIO_MMIO_QUEUE_USED_LOW, ucast (pa_of upa AND 0xFFFFFFFF)), (VIRTIO_MMIO_QUEUE_USED_HIGH, ucast (drop_bit 32 (pa_of upa))),
    (VIRTIO_MMIO_QUEUE_READY, 1)]"
  let ?s' = "mmio_writes hw mmio ?ws (s3\<lparr>shared := ?m\<rparr>)"
  note b = 1(1) 2(1) 3(1)
  show ?thesis
  proof (cases "desc = NULL \<or> avail = NULL \<or> used = NULL")
    case True
    then show ?thesis using b by (intro exI [of _ None] exI [of _ s3]) (auto simp: virtio_queue_v2_def Let_def)
  next
    case False
    have v: "view (vhw ?s') = (view (vhw s))\<lparr>dv_desc := pa_of dpa, dv_avail := pa_of apa, dv_used := pa_of upa\<rparr>"
      unfolding view_writes [OF assms(1)] using 1(2) 2(2) 3(2) by (simp add: reg_effect_def virtio_registers set_halves)
    have sh: "shared ?s' = ?m" by simp
    have "queue_set view (desc, avail, used) s ?s'"
      unfolding queue_set_def v sh using False 1(5) 2(5) 3(5) by (simp add: dma_zero_sel span_def)
    moreover have "virtio_queue_v2 hw mmio s = Ret (Some (desc, avail, used), ?s')"
      unfolding virtio_queue_v2_def b obind.simps prod.case Let_def using False by (simp only: if_False)
    ultimately show ?thesis by (intro exI [of _ "Some (desc, avail, used)"] exI [of _ ?s']) simp
  qed
qed

lemma legacy_layout:
  fixes qsize :: u32
  assumes "unat qsize = q" "q \<le> 8" "0 < q"
  shows "(ucast (qsize * 16) :: u64) = of_nat (16 * q)" "(ucast (used_offset qsize) :: u64) = of_nat ((16 * q + 2 * (3 + q) + 4095) div 4096 * 4096)"
    "(16 * q + 2 * (3 + q) + 4095) div 4096 = 1" "unat (of_nat (16 * q) :: u64) = 16 * q"
proof -
  have qs: "qsize = of_nat q" using assms(1) by auto
  have q: "q = 1 \<or> q = 2 \<or> q = 3 \<or> q = 4 \<or> q = 5 \<or> q = 6 \<or> q = 7 \<or> q = 8" using assms(2,3) by linarith
  show "unat (of_nat (16 * q) :: u64) = 16 * q" using assms(2) by (simp only: unat_of_nat) simp
  from q show "(ucast (qsize * 16) :: u64) = of_nat (16 * q)" "(ucast (used_offset qsize) :: u64) = of_nat ((16 * q + 2 * (3 + q) + 4095) div 4096 * 4096)"
    "(16 * q + 2 * (3 + q) + 4095) div 4096 = 1"
    unfolding qs used_offset_def VIRTIO_PAGE_SIZE_def Let_def by (elim disjE; simp)+
qed

lemma virtio_queue_v1_sets:
  assumes "reg_compliant hw mmio view" "\<not> in_irq s" "pmm_ok s" "unat qsize = dv_qsize (view (vhw s))" "dv_qsize (view (vhw s)) \<le> 8"
    "0 < dv_qsize (view (vhw s))"
  shows "\<exists>q s'. virtio_queue_v1 hw mmio qsize s = Ret (q, s') \<and> (\<forall>x. q = Some x \<longrightarrow> queue_set view x s s')"
proof -
  let ?s0 = "mmio_write hw mmio VIRTIO_MMIO_GUEST_PAGE_SIZE (ucast VIRTIO_PAGE_SIZE) s"
  note o = only_deviceD [OF only_device_access(2), of hw mmio VIRTIO_MMIO_GUEST_PAGE_SIZE "ucast VIRTIO_PAGE_SIZE" s]
  have v0: "view (vhw ?s0) = view (vhw s)" unfolding view_access(1) [OF assms(1)] by (simp add: reg_effect_def virtio_registers)
  obtain queue qpa s1 where 1: "kheap_alloc_pages 2 LOCAL ?s0 = Ret ((queue, qpa), s1)" "vhw s1 = vhw ?s0"
    "queue \<noteq> NULL \<longrightarrow> queue = tr (pa_of qpa) \<and> unat (pa_of qpa) < 0x80000000 \<and> 4096 dvd unat (pa_of qpa)"
    using queue_pages [of ?s0 2] assms(2,3) o by auto
  let ?m = "dma_zero queue (2 * 4096) (shared s1)" and ?q = "dv_qsize (view (vhw s))"
  let ?x = "(queue, queue + ucast (qsize * 16), queue + ucast (used_offset qsize))"
  let ?s' = "mmio_writes hw mmio [(VIRTIO_MMIO_QUEUE_ALIGN, ucast VIRTIO_PAGE_SIZE), (VIRTIO_MMIO_QUEUE_PFN, ucast (drop_bit 12 (pa_of qpa)))] (s1\<lparr>shared := ?m\<rparr>)"
  show ?thesis
  proof (cases "queue = NULL")
    case True
    then show ?thesis using 1(1) by (intro exI [of _ None] exI [of _ s1]) (simp add: virtio_queue_v1_def)
  next
    case False
    then have q: "queue = tr (pa_of qpa)" "unat (pa_of qpa) < 0x80000000" "4096 dvd unat (pa_of qpa)" using 1(3) by blast+
    have pfn: "push_bit 12 (ucast (ucast (drop_bit 12 (pa_of qpa)) :: u32)) = pa_of qpa" by (rule page_frame_number [OF q(2,3)])
    note av = legacy_layout [OF assms(4-6)]
    have v: "view (vhw ?s') = (view (vhw s))\<lparr>dv_desc := pa_of qpa, dv_avail := pa_of qpa + of_nat (16 * ?q),
        dv_used := pa_of qpa + of_nat ((16 * ?q + 2 * (3 + ?q) + 4095) div 4096 * 4096)\<rparr>"
      unfolding view_writes [OF assms(1)] using 1(2) v0 pfn by (simp add: reg_effect_def virtio_registers Let_def)
    have sh: "shared ?s' = ?m" by simp
    have "queue_set view ?x s ?s'"
      unfolding queue_set_def v sh using q(1) av assms(5) by (simp add: dma_zero_sel span_def tr_add)
    moreover have "virtio_queue_v1 hw mmio qsize s = Ret (Some ?x, ?s')"
      unfolding virtio_queue_v1_def 1(1) obind.simps prod.case Let_def using False by (simp only: if_False)
    ultimately show ?thesis by (intro exI [of _ "Some ?x"] exI [of _ ?s']) simp
  qed
qed

lemma virtio_setup_agrees:
  fixes s :: "('d, 'a) virtio_globals_scheme"
  assumes reg: "reg_compliant hw mmio view" and irq: "\<not> in_irq s" and pmm: "pmm_ok s" and seen: "dv_seen (view (vhw s)) = 0"
    and sym: "CAPAZ_HH_RAM_BASE \<le> req_addr blk" "CAPAZ_HH_RAM_BASE \<le> status_addr blk"
  shows "\<exists>ok s'. virtio_setup hw base mmio version s = Ret (ok, s') \<and> (ok \<longrightarrow> 3 \<le> vb_queue_size (g_blk s') \<longrightarrow> blk_ok view blk s')"
proof -
  define qmax where "qmax = fst (mmio_read hw mmio VIRTIO_MMIO_QUEUE_NUM_MAX (mmio_write hw mmio VIRTIO_MMIO_QUEUE_SEL 0 s))"
  define s1 where "s1 = snd (mmio_read hw mmio VIRTIO_MMIO_QUEUE_NUM_MAX (mmio_write hw mmio VIRTIO_MMIO_QUEUE_SEL 0 s))"
  define qsize where "qsize = (if qmax < VIRTQ_SIZE then qmax else VIRTQ_SIZE)"
  define s2 where "s2 = mmio_write hw mmio VIRTIO_MMIO_QUEUE_NUM qsize s1"
  have o2: "only_device s s2" unfolding s2_def s1_def
    by (intro only_device_trans [OF _ only_device_access(2)] only_device_trans [OF _ only_device_access(3)] only_device_access)
  have v2: "view (vhw s2) = (view (vhw s))\<lparr>dv_qsize := unat qsize\<rparr>"
    unfolding s2_def s1_def by (simp add: view_access [OF reg] reg_effect_def virtio_registers)
  have q8: "unat qsize \<le> 8" by (simp add: qsize_def VIRTQ_SIZE_def word_less_nat_alt)
  have p2: "\<not> in_irq s2" "pmm_ok s2" using only_deviceD [OF o2] irq pmm by simp_all
  have run: "virtio_setup hw base mmio version s = (if qmax = 0 then Ret (False, s1) else
      obind (if version = VIRTIO_VERSION_2 then virtio_queue_v2 hw mmio s2 else virtio_queue_v1 hw mmio qsize s2) (\<lambda>(q, s3).
        case q of None \<Rightarrow> Ret (False, s3) | Some x \<Rightarrow> Ret (True, virtio_start hw base mmio qsize x s3)))"
    unfolding virtio_setup_def Let_def case_prod_beta qmax_def s1_def qsize_def s2_def by (rule refl)
  show ?thesis
  proof (cases "qmax = 0")
    case False
    then have "0 < unat qsize" by (simp add: qsize_def VIRTQ_SIZE_def unat_gt_0)
    then obtain q s3 where q: "(if version = VIRTIO_VERSION_2 then virtio_queue_v2 hw mmio s2 else virtio_queue_v1 hw mmio qsize s2) = Ret (q, s3)"
      "\<forall>x. q = Some x \<longrightarrow> queue_set view x s2 s3"
      using virtio_queue_v2_sets [OF reg p2] virtio_queue_v1_sets [OF reg p2, of qsize] v2 q8 by (cases "version = VIRTIO_VERSION_2") auto
    show ?thesis
    proof (cases q)
      case None
      then show ?thesis using run q(1) False by auto
    next
      case (Some x)
      let ?s' = "virtio_start hw base mmio qsize x s3"
      obtain qd qa qu where x: "x = (qd, qa, qu)" by (cases x)
      have "queue_set view x s2 s3" using q(2) Some by simp
      then have qs: "qd = tr (dv_desc (view (vhw s3)))" "qa = tr (dv_avail (view (vhw s3)))" "qu = tr (dv_used (view (vhw s3)))"
        "dv_seen (view (vhw s3)) = 0" "dv_qsize (view (vhw s3)) = unat qsize" "avail_at (shared s3) qa = avail_zero" "used_at (shared s3) qu = used_zero"
        using v2 seen by (auto simp: queue_set_def x)
      have st: "view (vhw ?s') = view (vhw s3)" "shared ?s' = shared s3" unfolding virtio_start_def Let_def case_prod_beta
        by (simp_all add: view_access [OF reg] reg_effect_def virtio_registers virtio_constants)
      have "3 \<le> qsize \<Longrightarrow> blk_ok view blk ?s'"
        using qs sym q8 st unfolding blk_ok_def Let_def
        by (simp add: virtio_start_def Let_def case_prod_beta x word_le_nat_alt avail_zero_def used_zero_def)
      moreover have "vb_queue_size (g_blk ?s') = qsize" by (simp add: virtio_start_def Let_def case_prod_beta)
      ultimately show ?thesis using run q(1) False Some by (intro exI [of _ True] exI [of _ ?s']) simp
    qed
  qed (use run in auto)
qed

text \<open>
  after a successful probe of a device that follows the specification, modern or legacy, with a queue of
  at least three entries, the driver and the device agree on the queue, so every later request is understood.
  A probe always returns.
\<close>

theorem virtio_blk_probe_agrees:
  fixes s :: "('d, 'a) virtio_globals_scheme"
  assumes reg: "reg_compliant hw (mmio_ptr base) view" and irq: "\<not> in_irq s" and pmm: "pmm_ok s"
    and sym: "CAPAZ_HH_RAM_BASE \<le> req_addr blk" "CAPAZ_HH_RAM_BASE \<le> status_addr blk"
  shows "\<exists>ok s'. virtio_blk_probe hw base s = Ret (ok, s') \<and> (ok \<longrightarrow> 3 \<le> vb_queue_size (g_blk s') \<longrightarrow> blk_ok view blk s')"
proof -
  let ?m = "mmio_ptr base"
  define version where "version = fst (mmio_read hw ?m VIRTIO_MMIO_VERSION (snd (mmio_read hw ?m VIRTIO_MMIO_MAGIC_VALUE s)))"
  define s3 where "s3 = snd (mmio_read hw ?m VIRTIO_MMIO_DEVICE_ID (snd (mmio_read hw ?m VIRTIO_MMIO_VERSION (snd (mmio_read hw ?m VIRTIO_MMIO_MAGIC_VALUE s)))))"
  obtain ok s4 where n: "virtio_negotiate hw ?m version s3 = (ok, s4)" by fastforce
  note n4 = virtio_negotiate_device [OF reg n]
  have "only_device s s3" unfolding s3_def by (intro only_device_access only_device_trans [OF _ only_device_access(3)])
  then have "only_device s s4" using n4(1) by (rule only_device_trans)
  then have p4: "\<not> in_irq s4" "pmm_ok s4" using only_deviceD irq pmm by blast+
  have "\<exists>magic devid. virtio_blk_probe hw base s =
      (if magic \<noteq> VIRTIO_MMIO_MAGIC then Ret (False, s3) else if version \<noteq> VIRTIO_VERSION_1 \<and> version \<noteq> VIRTIO_VERSION_2 then Ret (False, s3)
       else if devid \<noteq> VIRTIO_DEVICE_BLOCK then Ret (False, s3) else if \<not> ok then Ret (False, s4) else virtio_setup hw base ?m version s4)"
    unfolding virtio_blk_probe_def Let_def case_prod_beta version_def [symmetric] s3_def [symmetric] n fst_conv snd_conv by (intro exI) (rule refl)
  then show ?thesis using virtio_setup_agrees [OF reg p4 _ sym, of base version] n4(2) by (auto split: if_splits)
qed

theorem virtio_blk_probe_agrees_witness:
  "\<exists>ok s'. virtio_blk_probe (prompt_device pmm_phys_to_virt) 0x0A000000 example_virtio = Ret (ok, s') \<and>
     (ok \<longrightarrow> 3 \<le> vb_queue_size (g_blk s') \<longrightarrow> blk_ok fst (tr 0x40100000) s')"
proof -
  note reg = prompt_device_registers [of pmm_phys_to_virt "mmio_ptr 0x0A000000"]
  have "\<not> in_irq example_kheap" "pmm_ok example_kheap" using example_kheap_facts by (auto simp: kheap_inv_def kheap_rep_def)
  then have p: "\<not> in_irq example_virtio" "pmm_ok example_virtio"
    using pmm_ok_cong [of example_virtio example_kheap] by (simp_all add: example_virtio_def kheap_globals.defs in_irq_def)
  have sym: "CAPAZ_HH_RAM_BASE \<le> req_addr (tr 0x40100000)" "CAPAZ_HH_RAM_BASE \<le> status_addr (tr 0x40100000)"
    by (simp_all add: req_addr_def status_addr_def pmm_phys_to_virt_def kaddr_config)
  show ?thesis by (rule virtio_blk_probe_agrees [OF reg p sym])
qed


section \<open>Timeouts\<close>

lemma poll_used_silent:
  assumes "\<And>d m. snd (hw_step hw d m) = m" and "us_idx (used_at (shared s) (vb_used (g_blk s))) = vb_last_used (g_blk s)"
  shows "\<exists>d. poll_used hw k s = (False, s\<lparr>vhw := d\<rparr>)"
  using assms(2)
proof (induction k arbitrary: s)
  case 0
  then show ?case using assms(1) [of "vhw s" "shared s"] by (subst poll_used.simps) (auto split: prod.split)
next
  case (Suc k)
  obtain d where d: "hw_step hw (vhw s) (shared s) = (d, shared s)" using assms(1) [of "vhw s" "shared s"] by (metis prod.collapse)
  have "\<exists>d'. poll_used hw k (s\<lparr>vhw := d\<rparr>) = (False, s\<lparr>vhw := d\<rparr>\<lparr>vhw := d'\<rparr>)" using Suc.IH [of "s\<lparr>vhw := d\<rparr>"] Suc.prems by simp
  then show ?case using d Suc.prems by (subst poll_used.simps) (auto simp: Let_def)
qed

text \<open>
  A read that times out returns with its request still in the queue: the device may take it at any later time and
  then write to the caller's buffer.
\<close>

theorem virtio_timeout_leaves_request:
  assumes ok: "blk_ok view blk s" and t: "transfer_ok (view (vhw s)) blk lba count buf buf_len" and silent: "\<And>d m. snd (hw_step hw d m) = m"
  shows "\<exists>s'. virtio_blk_read hw blk lba count buf buf_len s = (False, s') \<and>
    map_option rq_data (next_request pmm_phys_to_virt (view (vhw s)) (shared s')) = Some (pmm_virt_to_phys buf)"
proof -
  note w = transfer_words [OF t]
  let ?n = "ucast count * ucast (512 :: u32) :: u64" and ?fl = "VIRTQ_DESC_F_NEXT OR VIRTQ_DESC_F_WRITE"
  let ?m = "blk_submit blk VIRTIO_BLK_T_IN ?fl lba buf ?n (g_blk s) (shared s)"
  let ?s1 = "mmio_write hw (vb_mmio (g_blk s)) VIRTIO_MMIO_QUEUE_NOTIFY 0 (s\<lparr>shared := ?m\<rparr>)"
  have o: "vb_ready (g_blk s)" "vb_sector_size (g_blk s) = 512" "vb_last_used (g_blk s) = us_idx (used_at (shared s) (vb_used (g_blk s)))"
    using ok unfolding blk_ok_def Let_def by blast+
  obtain d where d: "poll_used hw POLL_LIMIT ?s1 = (False, ?s1\<lparr>vhw := d\<rparr>)"
    using poll_used_silent [OF silent, of ?s1 POLL_LIMIT] o(3) by auto
  have "count \<noteq> 0" "CAPAZ_HH_RAM_BASE \<le> buf" using t by (simp_all add: transfer_ok_def)
  then have "virtio_blk_read hw blk lba count buf buf_len s = (False, ?s1\<lparr>vhw := d\<rparr>)"
    unfolding virtio_blk_read_def blk_request_run_def Let_def o(2) d using o(1) w(2,4) by simp
  moreover have "map_option rq_data (next_request tr (view (vhw s)) ?m) = Some (pmm_virt_to_phys buf)"
    using blk_submit_request [OF ok, of VIRTIO_BLK_T_IN ?fl buf lba ?n] \<open>CAPAZ_HH_RAM_BASE \<le> buf\<close> by (simp add: kind_flags_def)
  ultimately show ?thesis by simp
qed

end
