(* ===== verification/Boot_Block.thy ===== *)
theory Boot_Block
  imports Kaddr Virtio
begin

unbundle bit_operations_syntax

text \<open>
  The block driver of the boot loader (\<open>Kern/Loader/boot_block_virtio.c\<close>). The loader runs with the MMU off,
  so the addresses it gives to the device are its own. Its queue memory is static: the addresses of the static
  variables are the parameter \<open>syms\<close>. The wait for a request has no limit: a device that does not answer makes
  the loader wait forever, which is the outcome \<open>Hang\<close>.
\<close>

section \<open>State\<close>

record boot_syms =
  g_desc :: ptr
  g_avail :: ptr
  g_used :: ptr
  g_legacy_queue :: ptr
  g_req :: ptr
  g_status :: ptr

record boot_blk_dev =
  bb_mmio :: ptr
  bb_version :: u32
  bb_queue_size :: u32
  bb_desc :: ptr
  bb_avail :: ptr
  bb_used :: ptr
  bb_last_used :: u16
  bb_capacity_sectors :: u64
  bb_ready :: bool

record 'd boot_state =
  bhw :: 'd
  bmem :: dma
  bblk :: boot_blk_dev

section \<open>Start of the device\<close>

fun hw_writes :: "'d virtio_hw \<Rightarrow> ptr \<Rightarrow> (u32 \<times> u32) list \<Rightarrow> 'd \<Rightarrow> 'd" where
  "hw_writes hw mmio [] d = d"
| "hw_writes hw mmio ((off, v) # ws) d = hw_writes hw mmio ws (hw_write hw mmio off v d)"

text \<open>From the reset to the check that the device accepts the (empty) set of features.\<close>

definition boot_negotiate :: "'d virtio_hw \<Rightarrow> ptr \<Rightarrow> u32 \<Rightarrow> 'd \<Rightarrow> bool \<times> 'd" where
  "boot_negotiate hw mmio version d0 =
     (let status = VIRTIO_STATUS_ACKNOWLEDGE OR VIRTIO_STATUS_DRIVER;
          d1 = hw_writes hw mmio [(VIRTIO_MMIO_STATUS, 0), (VIRTIO_MMIO_STATUS, status)] d0;
          d2 = (if version = VIRTIO_VERSION_2 then
                  let e1 = snd (hw_read hw mmio VIRTIO_MMIO_DEVICE_FEATURES (hw_write hw mmio VIRTIO_MMIO_DEVICE_FEATURES_SEL 0 d1));
                      e2 = snd (hw_read hw mmio VIRTIO_MMIO_DEVICE_FEATURES (hw_write hw mmio VIRTIO_MMIO_DEVICE_FEATURES_SEL 1 e1)) in
                  hw_writes hw mmio [(VIRTIO_MMIO_DRIVER_FEATURES_SEL, 0), (VIRTIO_MMIO_DRIVER_FEATURES, 0),
                    (VIRTIO_MMIO_DRIVER_FEATURES_SEL, 1), (VIRTIO_MMIO_DRIVER_FEATURES, 0)] e2
                else hw_write hw mmio VIRTIO_MMIO_DRIVER_FEATURES 0 (snd (hw_read hw mmio VIRTIO_MMIO_DEVICE_FEATURES d1)));
          status2 = status OR VIRTIO_STATUS_FEATURES_OK;
          (st, d3) = hw_read hw mmio VIRTIO_MMIO_STATUS (hw_write hw mmio VIRTIO_MMIO_STATUS status2 d2) in
      if st AND VIRTIO_STATUS_FEATURES_OK = 0 then (False, hw_write hw mmio VIRTIO_MMIO_STATUS (status2 OR VIRTIO_STATUS_FAILED) d3)
      else (True, d3))"

text \<open>The queue of a modern device in the static variables: the table and the indices are cleared.\<close>

definition boot_queue_v2 :: "'d virtio_hw \<Rightarrow> boot_syms \<Rightarrow> ptr \<Rightarrow> 'd boot_state \<Rightarrow> (ptr \<times> ptr \<times> ptr) \<times> 'd boot_state" where
  "boot_queue_v2 hw syms mmio s =
     (let m = bmem s; desc_pa = g_desc syms; avail_pa = g_avail syms; used_pa = g_used syms;
          m1 = m\<lparr>desc_at := (\<lambda>a. if a \<in> desc_slot (g_desc syms) ` {0, 1, 2, 3, 4, 5, 6, 7} then desc_zero else desc_at m a),
                 avail_at := (avail_at m)(g_avail syms := (avail_at m (g_avail syms))\<lparr>av_flags := 0, av_idx := 0\<rparr>),
                 used_at := (used_at m)(g_used syms := (used_at m (g_used syms))\<lparr>us_flags := 0, us_idx := 0\<rparr>)\<rparr> in
      ((g_desc syms, g_avail syms, g_used syms), s\<lparr>bmem := m1, bhw := hw_writes hw mmio
         [(VIRTIO_MMIO_QUEUE_DESC_LOW, ucast (desc_pa AND 0xFFFFFFFF)), (VIRTIO_MMIO_QUEUE_DESC_HIGH, ucast (drop_bit 32 desc_pa)),
          (VIRTIO_MMIO_QUEUE_AVAIL_LOW, ucast (avail_pa AND 0xFFFFFFFF)), (VIRTIO_MMIO_QUEUE_AVAIL_HIGH, ucast (drop_bit 32 avail_pa)),
          (VIRTIO_MMIO_QUEUE_USED_LOW, ucast (used_pa AND 0xFFFFFFFF)), (VIRTIO_MMIO_QUEUE_USED_HIGH, ucast (drop_bit 32 used_pa)),
          (VIRTIO_MMIO_QUEUE_READY, 1)] (bhw s)\<rparr>))"

definition boot_used_offset :: "u32 \<Rightarrow> u32" where
  "boot_used_offset qsize = (qsize * 16 + 22 + 4095) AND NOT 4095"

definition boot_queue_v1 :: "'d virtio_hw \<Rightarrow> boot_syms \<Rightarrow> ptr \<Rightarrow> u32 \<Rightarrow> 'd boot_state \<Rightarrow> (ptr \<times> ptr \<times> ptr) \<times> 'd boot_state" where
  "boot_queue_v1 hw syms mmio qsize s =
     (let q = g_legacy_queue syms in
      ((q, q + ucast (qsize * 16), q + ucast (boot_used_offset qsize)),
       s\<lparr>bmem := dma_zero q (4096 * 2) (bmem s), bhw := hw_writes hw mmio
         [(VIRTIO_MMIO_GUEST_PAGE_SIZE, 4096), (VIRTIO_MMIO_QUEUE_ALIGN, 4096), (VIRTIO_MMIO_QUEUE_PFN, ucast (drop_bit 12 q))] (bhw s)\<rparr>))"

definition boot_setup :: "'d virtio_hw \<Rightarrow> boot_syms \<Rightarrow> ptr \<Rightarrow> u32 \<Rightarrow> 'd boot_state \<Rightarrow> bool \<times> 'd boot_state" where
  "boot_setup hw syms mmio version s =
     (let (qmax, d1) = hw_read hw mmio VIRTIO_MMIO_QUEUE_NUM_MAX (hw_write hw mmio VIRTIO_MMIO_QUEUE_SEL 0 (bhw s)) in
      if qmax = 0 then (False, s\<lparr>bhw := d1\<rparr>)
      else let qsize = (if qmax < VIRTQ_SIZE then qmax else VIRTQ_SIZE);
               s2 = s\<lparr>bhw := hw_write hw mmio VIRTIO_MMIO_QUEUE_NUM qsize d1\<rparr>;
               ((desc, avail, used), s3) = (if version = VIRTIO_VERSION_2 then boot_queue_v2 hw syms mmio s2 else boot_queue_v1 hw syms mmio qsize s2);
               status = VIRTIO_STATUS_ACKNOWLEDGE OR VIRTIO_STATUS_DRIVER OR VIRTIO_STATUS_FEATURES_OK OR VIRTIO_STATUS_DRIVER_OK;
               (cap_lo, d4) = hw_read hw mmio VIRTIO_MMIO_CONFIG (hw_write hw mmio VIRTIO_MMIO_STATUS status (bhw s3));
               (cap_hi, d5) = hw_read hw mmio (VIRTIO_MMIO_CONFIG + 4) d4 in
        (True, s3\<lparr>bhw := d5, bblk := \<lparr>bb_mmio = mmio, bb_version = version, bb_queue_size = qsize, bb_desc = desc, bb_avail = avail,
           bb_used = used, bb_last_used = 0, bb_capacity_sectors = push_bit 32 (ucast cap_hi) OR ucast cap_lo, bb_ready = True\<rparr>\<rparr>))"

text \<open>Here each register is read only after the check of the one before it.\<close>

definition boot_virtio_blk_init_at :: "'d virtio_hw \<Rightarrow> boot_syms \<Rightarrow> u64 \<Rightarrow> 'd boot_state \<Rightarrow> bool \<times> 'd boot_state" where
  "boot_virtio_blk_init_at hw syms base s =
     (let mmio = base; (magic, d1) = hw_read hw mmio VIRTIO_MMIO_MAGIC_VALUE (bhw s) in
      if magic \<noteq> VIRTIO_MMIO_MAGIC then (False, s\<lparr>bhw := d1\<rparr>)
      else let (version, d2) = hw_read hw mmio VIRTIO_MMIO_VERSION d1 in
        if version \<noteq> VIRTIO_VERSION_1 \<and> version \<noteq> VIRTIO_VERSION_2 then (False, s\<lparr>bhw := d2\<rparr>)
        else let (devid, d3) = hw_read hw mmio VIRTIO_MMIO_DEVICE_ID d2 in
          if devid \<noteq> VIRTIO_DEVICE_BLOCK then (False, s\<lparr>bhw := d3\<rparr>)
          else let (ok, d4) = boot_negotiate hw mmio version d3 in
            if \<not> ok then (False, s\<lparr>bhw := d4\<rparr>) else boot_setup hw syms mmio version (s\<lparr>bhw := d4\<rparr>))"

text \<open>The 32 slots at fixed addresses, from slot \<open>i\<close> on with \<open>k\<close> slots left.\<close>

fun boot_init_loop :: "'d virtio_hw \<Rightarrow> boot_syms \<Rightarrow> u64 \<Rightarrow> nat \<Rightarrow> 'd boot_state \<Rightarrow> bool \<times> 'd boot_state" where
  "boot_init_loop hw syms i 0 s = (False, s)"
| "boot_init_loop hw syms i (Suc k) s =
     (case boot_virtio_blk_init_at hw syms (0x0A000000 + 0x200 * i) s of (ok, s1) \<Rightarrow> if ok then (True, s1) else boot_init_loop hw syms (i + 1) k s1)"

definition boot_virtio_blk_init :: "'d virtio_hw \<Rightarrow> boot_syms \<Rightarrow> 'd boot_state \<Rightarrow> bool \<times> 'd boot_state" where
  "boot_virtio_blk_init hw syms s = (if bb_ready (bblk s) then (True, s) else boot_init_loop hw syms 0 32 s)"

section \<open>Reading\<close>

definition boot_submit :: "boot_syms \<Rightarrow> u64 \<Rightarrow> u32 \<Rightarrow> ptr \<Rightarrow> boot_blk_dev \<Rightarrow> dma \<Rightarrow> dma" where
  "boot_submit syms lba count buf b m =
     (let m1 = m\<lparr>req_at := (req_at m)(g_req syms := \<lparr>br_type = 0, br_reserved = 0, br_sector = lba\<rparr>),
                 byte_at := (byte_at m)(g_status syms := 0xFF),
                 desc_at := (desc_at m)
                   (desc_slot (bb_desc b) 0 := \<lparr>vd_addr = g_req syms, vd_len = sizeof_virtio_blk_req, vd_flags = VIRTQ_DESC_F_NEXT, vd_next = 1\<rparr>,
                    desc_slot (bb_desc b) 1 := \<lparr>vd_addr = buf, vd_len = count * 512, vd_flags = VIRTQ_DESC_F_NEXT OR VIRTQ_DESC_F_WRITE, vd_next = 2\<rparr>,
                    desc_slot (bb_desc b) 2 := \<lparr>vd_addr = g_status syms, vd_len = 1, vd_flags = VIRTQ_DESC_F_WRITE, vd_next = 0\<rparr>)\<rparr>;
          av = avail_at m1 (bb_avail b); idx = av_idx av in
      m1\<lparr>avail_at := (avail_at m1)(bb_avail b :=
           av\<lparr>av_ring := (av_ring av)[unat (ucast idx mod bb_queue_size b) := 0], av_idx := idx + 1\<rparr>)\<rparr>)"

text \<open>The wait for the used ring to move; the device takes a step before each look at it.\<close>

partial_function (option) boot_poll :: "'d virtio_hw \<Rightarrow> ptr \<Rightarrow> u16 \<Rightarrow> 'd \<times> dma \<Rightarrow> ('d \<times> dma) option" where
  "boot_poll hw used last_used x0 =
     (let x = hw_step hw (fst x0) (snd x0) in
      if us_idx (used_at (snd x) used) = last_used then boot_poll hw used last_used x else Some x)"

definition boot_virtio_blk_read :: "'d virtio_hw \<Rightarrow> boot_syms \<Rightarrow> u64 \<Rightarrow> u32 \<Rightarrow> ptr \<Rightarrow> 'd boot_state \<Rightarrow> (bool \<times> 'd boot_state) outcome" where
  "boot_virtio_blk_read hw syms lba count buf s0 =
     (case boot_virtio_blk_init hw syms s0 of (ok, s) \<Rightarrow>
        if \<not> ok then Ret (False, s)
        else if buf = NULL \<or> count = 0 then Ret (False, s)
        else let b = bblk s; m = boot_submit syms lba count buf b (bmem s);
                 d = hw_write hw (bb_mmio b) VIRTIO_MMIO_QUEUE_NOTIFY 0 (bhw s) in
          obind (of_loop (boot_poll hw (bb_used b) (bb_last_used b) (d, m))) (\<lambda>(d', m').
            let s1 = s\<lparr>bhw := d', bmem := m', bblk := b\<lparr>bb_last_used := us_idx (used_at m' (bb_used b))\<rparr>\<rparr> in
            Ret (byte_at m' (g_status syms) = 0, s1)))"

definition boot_block_read :: "'d virtio_hw \<Rightarrow> boot_syms \<Rightarrow> u64 \<Rightarrow> u32 \<Rightarrow> ptr \<Rightarrow> 'd boot_state \<Rightarrow> (bool \<times> 'd boot_state) outcome" where
  "boot_block_read hw syms lba count buf s = boot_virtio_blk_read hw syms lba count buf s"

section \<open>The driver and the device agree\<close>

definition boot_ok :: "('d \<Rightarrow> vdev) \<Rightarrow> 'd boot_state \<Rightarrow> bool" where
  "boot_ok view s \<longleftrightarrow>
     (let b = bblk s; v = view (bhw s); m = bmem s in
      bb_ready b \<and> bb_desc b = dv_desc v \<and> bb_avail b = dv_avail v \<and> bb_used b = dv_used v \<and>
      unat (bb_queue_size b) = dv_qsize v \<and> 3 \<le> dv_qsize v \<and> dv_qsize v \<le> 8 \<and>
      bb_last_used b = us_idx (used_at m (bb_used b)) \<and> av_idx (avail_at m (bb_avail b)) = dv_seen v \<and> length (av_ring (avail_at m (bb_avail b))) = 8)"

lemma boot_submit_request:
  assumes "boot_ok view s"
  shows "next_request (\<lambda>a. a) (view (bhw s)) (boot_submit syms lba count buf (bblk s) (bmem s)) =
    Some \<lparr>rq_kind = VIRTIO_BLK_T_IN, rq_sector = lba, rq_data = buf, rq_len = count * 512, rq_stat = g_status syms\<rparr>"
proof -
  let ?v = "view (bhw s)" and ?b = "bblk s"
  have ok: "bb_desc ?b = dv_desc ?v" "bb_avail ?b = dv_avail ?v" "unat (bb_queue_size ?b) = dv_qsize ?v" "3 \<le> dv_qsize ?v"
    "dv_qsize ?v \<le> 8" "av_idx (avail_at (bmem s) (bb_avail ?b)) = dv_seen ?v" "length (av_ring (avail_at (bmem s) (bb_avail ?b))) = 8"
    using assms unfolding boot_ok_def Let_def by blast+
  have i: "unat (ucast (dv_seen ?v) mod bb_queue_size ?b) = unat (dv_seen ?v) mod dv_qsize ?v"
    using ok(3) unat_less_two_power [of "dv_seen ?v"] by (simp add: unat_mod unsigned_ucast_eq take_bit_nat_eq_self)
  have "unat (dv_seen ?v) mod dv_qsize ?v < 8" using ok(4,5) by (intro order_less_le_trans [OF mod_less_divisor]) simp_all
  then show ?thesis using ok i
    by (simp add: next_request_def boot_submit_def Let_def sizeof_virtio_blk_req_def virtio_constants)
qed

lemma boot_poll_steps:
  assumes "hw_steps hw n x = y" "0 < n" "\<And>j. j < n \<Longrightarrow> us_idx (used_at (snd (hw_steps hw j x)) used) = last_used" "us_idx (used_at (snd y) used) \<noteq> last_used"
  shows "boot_poll hw used last_used x = Some y"
  using assms
proof (induction n arbitrary: x)
  case (Suc n)
  let ?x = "hw_step hw (fst x) (snd x)"
  show ?case
  proof (cases n)
    case 0
    then show ?thesis using Suc.prems by (subst boot_poll.simps) simp
  next
    case (Suc n')
    have "us_idx (used_at (snd ?x) used) = last_used" using Suc.prems(3) [of 1] Suc by simp
    moreover have "boot_poll hw used last_used ?x = Some y" using Suc.prems Suc.prems(3) [of "Suc j" for j] by (intro Suc.IH) (auto simp: Suc)
    ultimately show ?thesis by (subst boot_poll.simps) simp
  qed
qed simp

section \<open>Starting the device\<close>

text \<open>
  A device that is found and started agrees with the driver, when it offers at least three queue entries.
  The legacy queue is page-aligned and below 2 GiB.
\<close>

lemma boot_view:
  assumes "reg_compliant hw mmio view"
  shows "view (hw_write hw mmio off x d) = reg_effect off x (view d)" "view (snd (hw_read hw mmio off d)) = view d"
  using assms by (simp_all add: reg_compliant_def)

lemma boot_negotiate_view:
  assumes "reg_compliant hw mmio view"
  shows "view (snd (boot_negotiate hw mmio version d)) = (view d)\<lparr>dv_seen := 0\<rparr>"
  unfolding boot_negotiate_def Let_def case_prod_beta
  by (simp add: boot_view [OF assms] reg_effect_def virtio_registers virtio_constants)

lemma boot_layout:
  fixes qsize :: u32
  assumes "unat qsize = q" "q \<le> 8" "0 < q"
  shows "(ucast (qsize * 16) :: u64) = of_nat (16 * q)" "(ucast (boot_used_offset qsize) :: u64) = of_nat ((16 * q + 2 * (3 + q) + 4095) div 4096 * 4096)"
    "(16 * q + 2 * (3 + q) + 4095) div 4096 = 1" "unat (of_nat (16 * q) :: u64) = 16 * q"
proof -
  have qs: "qsize = of_nat q" using assms(1) by auto
  have q: "q = 1 \<or> q = 2 \<or> q = 3 \<or> q = 4 \<or> q = 5 \<or> q = 6 \<or> q = 7 \<or> q = 8" using assms(2,3) by linarith
  show "unat (of_nat (16 * q) :: u64) = 16 * q" using assms(2) by (simp only: unat_of_nat) simp
  from q show "(ucast (qsize * 16) :: u64) = of_nat (16 * q)" "(ucast (boot_used_offset qsize) :: u64) = of_nat ((16 * q + 2 * (3 + q) + 4095) div 4096 * 4096)"
    "(16 * q + 2 * (3 + q) + 4095) div 4096 = 1"
    unfolding qs boot_used_offset_def by (elim disjE; simp)+
qed

text \<open>What a set-up queue is, as the device and the driver see it.\<close>

definition boot_queue_set :: "('d \<Rightarrow> vdev) \<Rightarrow> ptr \<times> ptr \<times> ptr \<Rightarrow> 'd boot_state \<Rightarrow> 'd boot_state \<Rightarrow> bool" where
  "boot_queue_set view q s s' \<longleftrightarrow>
     q = (dv_desc (view (bhw s')), dv_avail (view (bhw s')), dv_used (view (bhw s'))) \<and>
     dv_seen (view (bhw s')) = dv_seen (view (bhw s)) \<and> dv_qsize (view (bhw s')) = dv_qsize (view (bhw s)) \<and>
     av_idx (avail_at (bmem s') (fst (snd q))) = 0 \<and> length (av_ring (avail_at (bmem s') (fst (snd q)))) = 8 \<and> us_idx (used_at (bmem s') (snd (snd q))) = 0"

lemma boot_queue_v2_set:
  assumes "reg_compliant hw mmio view" "length (av_ring (avail_at (bmem s) (g_avail syms))) = 8"
  shows "boot_queue_set view (fst (boot_queue_v2 hw syms mmio s)) s (snd (boot_queue_v2 hw syms mmio s))"
  using assms(2) by (simp add: boot_queue_set_def boot_queue_v2_def Let_def boot_view [OF assms(1)] reg_effect_def virtio_registers set_halves)

lemma boot_queue_v1_set:
  assumes "reg_compliant hw mmio view" "unat qsize = dv_qsize (view (bhw s))" "dv_qsize (view (bhw s)) \<le> 8" "0 < dv_qsize (view (bhw s))"
    "unat (g_legacy_queue syms) < 0x80000000" "4096 dvd unat (g_legacy_queue syms)"
  shows "boot_queue_set view (fst (boot_queue_v1 hw syms mmio qsize s)) s (snd (boot_queue_v1 hw syms mmio qsize s))"
proof -
  note l = boot_layout [OF assms(2-4)] and pfn = page_frame_number [OF assms(5,6)]
  have v: "view (bhw (snd (boot_queue_v1 hw syms mmio qsize s))) = (view (bhw s))\<lparr>dv_desc := g_legacy_queue syms,
      dv_avail := g_legacy_queue syms + of_nat (16 * dv_qsize (view (bhw s))),
      dv_used := g_legacy_queue syms + of_nat ((16 * dv_qsize (view (bhw s)) + 2 * (3 + dv_qsize (view (bhw s))) + 4095) div 4096 * 4096)\<rparr>"
    by (simp add: boot_queue_v1_def Let_def boot_view [OF assms(1)] reg_effect_def virtio_registers pfn)
  show ?thesis unfolding boot_queue_set_def v using l assms(3)
    by (simp add: boot_queue_v1_def Let_def dma_zero_def span_def avail_zero_def used_zero_def)
qed

lemma boot_setup_agrees:
  assumes reg: "reg_compliant hw mmio view" and seen: "dv_seen (view (bhw s)) = 0" and ring: "length (av_ring (avail_at (bmem s) (g_avail syms))) = 8"
    and leg: "unat (g_legacy_queue syms) < 0x80000000" "4096 dvd unat (g_legacy_queue syms)"
    and run: "boot_setup hw syms mmio version s = (True, s')" and q3: "3 \<le> bb_queue_size (bblk s')"
  shows "boot_ok view s' \<and> bb_mmio (bblk s') = mmio"
proof -
  define qmax where "qmax = fst (hw_read hw mmio VIRTIO_MMIO_QUEUE_NUM_MAX (hw_write hw mmio VIRTIO_MMIO_QUEUE_SEL 0 (bhw s)))"
  define qsize where "qsize = (if qmax < VIRTQ_SIZE then qmax else VIRTQ_SIZE)"
  define s2 where "s2 = s\<lparr>bhw := hw_write hw mmio VIRTIO_MMIO_QUEUE_NUM qsize (snd (hw_read hw mmio VIRTIO_MMIO_QUEUE_NUM_MAX (hw_write hw mmio VIRTIO_MMIO_QUEUE_SEL 0 (bhw s))))\<rparr>"
  define Q where "Q = (if version = VIRTIO_VERSION_2 then boot_queue_v2 hw syms mmio s2 else boot_queue_v1 hw syms mmio qsize s2)"
  have v2: "view (bhw s2) = (view (bhw s))\<lparr>dv_qsize := unat qsize\<rparr>" "bmem s2 = bmem s"
    by (simp_all add: s2_def boot_view [OF reg] reg_effect_def virtio_registers)
  have nz: "qmax \<noteq> 0" using run unfolding boot_setup_def case_prod_beta Let_def qmax_def [symmetric] by (auto split: if_splits)
  have q8: "unat qsize \<le> 8" "0 < unat qsize" using nz by (simp_all add: qsize_def VIRTQ_SIZE_def word_less_nat_alt unat_gt_0)
  have set: "boot_queue_set view (fst Q) s2 (snd Q)"
    using boot_queue_v2_set [OF reg, of s2 syms] boot_queue_v1_set [OF reg, of qsize s2 syms] ring leg v2 q8 by (simp add: Q_def)
  have s': "bb_mmio (bblk s') = mmio" "bb_queue_size (bblk s') = qsize" "bb_desc (bblk s') = fst (fst Q)" "bb_avail (bblk s') = fst (snd (fst Q))"
    "bb_used (bblk s') = snd (snd (fst Q))" "bb_last_used (bblk s') = 0" "bb_ready (bblk s')" "bmem s' = bmem (snd Q)" "view (bhw s') = view (bhw (snd Q))"
    using run nz unfolding boot_setup_def case_prod_beta Let_def qmax_def [symmetric] qsize_def [symmetric] s2_def [symmetric] Q_def [symmetric]
    by (auto simp: boot_view [OF reg] reg_effect_def virtio_registers virtio_constants)
  have "3 \<le> unat qsize" using q3 s'(2) by (simp add: word_le_nat_alt)
  then show ?thesis using set seen v2(1) q8 s'(7) unfolding boot_ok_def boot_queue_set_def Let_def s'(1-6,8,9) by auto
qed

lemma boot_init_at_ok:
  assumes reg: "reg_compliant hw base view" and ring: "length (av_ring (avail_at (bmem s) (g_avail syms))) = 8"
    and leg: "unat (g_legacy_queue syms) < 0x80000000" "4096 dvd unat (g_legacy_queue syms)"
    and run: "boot_virtio_blk_init_at hw syms base s = (True, s')" and q3: "3 \<le> bb_queue_size (bblk s')"
  shows "boot_ok view s' \<and> bb_mmio (bblk s') = base"
proof -
  obtain version d d4 where d4: "boot_negotiate hw base version d = (True, d4)" "boot_setup hw syms base version (s\<lparr>bhw := d4\<rparr>) = (True, s')"
    using run unfolding boot_virtio_blk_init_at_def Let_def case_prod_beta by (auto split: if_splits) (metis prod.collapse)+
  have "dv_seen (view d4) = 0" using boot_negotiate_view [OF reg, of version d] d4(1) by simp
  then show ?thesis using boot_setup_agrees [OF reg _ _ leg d4(2) q3] ring by simp
qed

section \<open>An example\<close>

definition example_syms :: boot_syms where
  "example_syms = \<lparr>g_desc = 0x48000000, g_avail = 0x48000100, g_used = 0x48000200, g_legacy_queue = 0x48001000, g_req = 0x48003000, g_status = 0x48003010\<rparr>"

definition example_boot_disk :: "(vdev \<times> bool) boot_state" where
  "example_boot_disk =
     \<lparr>bhw = (\<lparr>dv_desc = 0, dv_avail = 0, dv_used = 0, dv_qsize = 0, dv_seen = 9, dv_disk = (\<lambda>i. of_nat i), dv_sectors = 100\<rparr>, False),
      bmem = \<lparr>desc_at = (\<lambda>_. desc_zero), avail_at = (\<lambda>_. avail_zero), used_at = (\<lambda>_. used_zero),
        req_at = (\<lambda>_. \<lparr>br_type = 0, br_reserved = 0, br_sector = 0\<rparr>), byte_at = (\<lambda>_. 0)\<rparr>,
      bblk = \<lparr>bb_mmio = 0, bb_version = 0, bb_queue_size = 0, bb_desc = 0, bb_avail = 0, bb_used = 0, bb_last_used = 0, bb_capacity_sectors = 0, bb_ready = False\<rparr>\<rparr>"

lemma example_boot_init:
  "\<exists>s'. boot_virtio_blk_init_at (prompt_device (\<lambda>a. a)) example_syms 0x0A000000 example_boot_disk = (True, s') \<and> bb_queue_size (bblk s') = 8 \<and>
     dv_sectors (fst (bhw s')) = 100"
  unfolding boot_virtio_blk_init_at_def boot_negotiate_def boot_setup_def boot_queue_v2_def
  by (simp add: Let_def prompt_device_def example_boot_disk_def reg_effect_def virtio_registers virtio_constants)

lemma example_boot_disk_facts:
  "length (av_ring (avail_at (bmem example_boot_disk) (g_avail example_syms))) = 8" "unat (g_legacy_queue example_syms) < 0x80000000"
  "4096 dvd unat (g_legacy_queue example_syms)"
  by (simp_all add: example_boot_disk_def example_syms_def avail_zero_def)

section \<open>Properties\<close>

text \<open>
  a device the loader finds and starts agrees with the driver. This holds for modern and legacy devices that
  follow the specification and offer at least three queue entries, with the legacy queue page-aligned below 2 GiB.
\<close>

theorem boot_init_at_agrees:
  assumes reg: "reg_compliant hw base view" and ring: "length (av_ring (avail_at (bmem s) (g_avail syms))) = 8"
    and leg: "unat (g_legacy_queue syms) < 0x80000000" "4096 dvd unat (g_legacy_queue syms)"
    and run: "boot_virtio_blk_init_at hw syms base s = (True, s')" and q3: "3 \<le> bb_queue_size (bblk s')"
  shows "boot_ok view s' \<and> bb_mmio (bblk s') = base"
  by (rule boot_init_at_ok [OF assms])

theorem boot_init_at_agrees_witness:
  "\<exists>s'. boot_virtio_blk_init_at (prompt_device (\<lambda>a. a)) example_syms 0x0A000000 example_boot_disk = (True, s') \<and> boot_ok fst s'"
proof -
  obtain s' where s': "boot_virtio_blk_init_at (prompt_device (\<lambda>a. a)) example_syms 0x0A000000 example_boot_disk = (True, s')" "bb_queue_size (bblk s') = 8"
    using example_boot_init by blast
  from boot_init_at_agrees [OF prompt_device_registers example_boot_disk_facts s'(1)] s' show ?thesis by auto
qed

text \<open>
  C40: the loader's block driver reads the disk. Once the driver and the device agree, a read of sectors that
  lie on the disk returns with success, for a device that follows the specification however long it takes; the
  buffer then holds the bytes of these sectors, no other byte but the status has changed, and driver and device agree again.
\<close>

theorem boot_block_read_correct:
  fixes s :: "'d boot_state"
  assumes comp: "blk_compliant hw (\<lambda>a. a) (bb_mmio (bblk s)) view N" and ok: "boot_ok view s"
    and t: "count \<noteq> 0" "unat count * 512 < 2 ^ 32" "buf \<noteq> NULL" "unat lba + unat count \<le> dv_sectors (view (bhw s))"
      "\<not> span buf (unat count * 512) (g_status syms)"
  shows "\<exists>s'. boot_block_read hw syms lba count buf s = Ret (True, s') \<and> boot_ok view s' \<and>
    bytes_at (byte_at (bmem s')) buf (unat count * 512) = map (\<lambda>i. dv_disk (view (bhw s)) (unat lba * 512 + i)) [0..<unat count * 512] \<and>
    (\<forall>a. \<not> span buf (unat count * 512) a \<longrightarrow> a \<noteq> g_status syms \<longrightarrow> byte_at (bmem s') a = byte_at (bmem s) a)"
proof -
  let ?v = "view (bhw s)" and ?b = "bblk s" and ?m = "boot_submit syms lba count buf (bblk s) (bmem s)"
  let ?r = "\<lparr>rq_kind = VIRTIO_BLK_T_IN, rq_sector = lba, rq_data = buf, rq_len = count * 512, rq_stat = g_status syms\<rparr>"
  have o: "bb_ready ?b" "bb_used ?b = dv_used ?v" "bb_last_used ?b = us_idx (used_at (bmem s) (bb_used ?b))"
    using ok unfolding boot_ok_def Let_def by blast+
  have u: "used_at ?m = used_at (bmem s)" "byte_at ?m = (byte_at (bmem s))(g_status syms := 0xFF)" by (simp_all add: boot_submit_def Let_def)
  have n: "unat (count * 512) = unat count * 512" using t(2) by (simp add: unat_word_ariths)
  have "unat lba * 512 + unat count * 512 \<le> dv_sectors ?v * 512" using mult_le_mono1 [OF t(4), of 512] by (simp add: algebra_simps)
  then have ind: "in_disk ?v ?r" by (simp add: in_disk_def disk_pos_def n)
  define d0 where "d0 = hw_write hw (bb_mmio ?b) VIRTIO_MMIO_QUEUE_NOTIFY 0 (bhw s)"
  obtain j d' w where j: "0 < j" "\<forall>i<j. us_idx (used_at (snd (hw_steps hw i (d0, ?m))) (dv_used ?v)) = us_idx (used_at ?m (dv_used ?v))"
    "hw_steps hw j (d0, ?m) = (d', served_dma (\<lambda>a. a) ?v ?r w ?m)" "us_idx w = us_idx (used_at ?m (dv_used ?v)) + 1"
    "view d' = served_dev (\<lambda>a. a) ?v ?r (byte_at ?m)"
    using comp boot_submit_request [OF ok, of syms lba count buf] unfolding blk_compliant_def d0_def by blast
  let ?m' = "served_dma (\<lambda>a. a) ?v ?r w ?m"
  let ?s' = "s\<lparr>bhw := d', bmem := ?m', bblk := ?b\<lparr>bb_last_used := us_idx (used_at ?m' (bb_used ?b))\<rparr>\<rparr>"
  have w': "used_at ?m' (bb_used ?b) = w" by (simp add: served_dma_def o(2))
  have poll: "boot_poll hw (bb_used ?b) (bb_last_used ?b) (d0, ?m) = Some (d', ?m')"
    using j(1-4) o(2,3) u(1) w' by (intro boot_poll_steps [of hw j]) simp_all
  have mb: "byte_at ?m' a = (if a = g_status syms then 0 else if span buf (unat count * 512) a
      then dv_disk ?v (unat lba * 512 + unat (a - buf)) else byte_at (bmem s) a)" for a
    unfolding served_dma_def serve_mem_def using ind u(2) by (simp add: n disk_pos_def)
  have run: "boot_block_read hw syms lba count buf s = Ret (True, ?s')"
    unfolding boot_block_read_def boot_virtio_blk_read_def boot_virtio_blk_init_def Let_def
    using o(1) t(1,3) poll mb [of "g_status syms"] by (simp add: d0_def)
  have av: "av_idx (avail_at ?m' (bb_avail ?b)) = av_idx (avail_at (bmem s) (bb_avail ?b)) + 1"
    "length (av_ring (avail_at ?m' (bb_avail ?b))) = length (av_ring (avail_at (bmem s) (bb_avail ?b)))"
    by (simp_all add: served_dma_def boot_submit_def Let_def)
  have "boot_ok view ?s'"
    using ok j(4,5) w' o(2) av unfolding boot_ok_def Let_def by (auto simp: served_dev_def)
  moreover have "byte_at ?m' (buf + of_nat i) = dv_disk ?v (unat lba * 512 + i)" if "i < unat count * 512" for i
  proof -
    have sp: "span buf (unat count * 512) (buf + of_nat i)" using that t(2) by simp
    then have "buf + of_nat i \<noteq> g_status syms" using t(5) by metis
    moreover have "unat (of_nat i :: u64) = i" using that t(2) by (simp add: unat_of_nat)
    ultimately show ?thesis using mb [of "buf + of_nat i"] sp by simp
  qed
  ultimately show ?thesis using run mb by (intro exI [of _ ?s']) (simp add: bytes_at_def)
qed

theorem boot_block_read_correct_witness:
  "\<exists>s s'. boot_ok fst s \<and> boot_block_read (prompt_device (\<lambda>a. a)) example_syms 3 2 0x50000000 s = Ret (True, s') \<and>
     bytes_at (byte_at (bmem s')) 0x50000000 1024 = map (\<lambda>i. dv_disk (fst (bhw s)) (1536 + i)) [0..<1024]"
proof -
  obtain s where s: "boot_virtio_blk_init_at (prompt_device (\<lambda>a. a)) example_syms 0x0A000000 example_boot_disk = (True, s)" "bb_queue_size (bblk s) = 8"
    "dv_sectors (fst (bhw s)) = 100"
    using example_boot_init by blast
  have ok: "boot_ok fst s" using boot_init_at_ok [OF prompt_device_registers example_boot_disk_facts s(1)] s(2) by simp
  have t: "(2 :: u32) \<noteq> 0" "unat (2 :: u32) * 512 < 2 ^ 32" "(0x50000000 :: ptr) \<noteq> NULL" "unat (3 :: u64) + unat (2 :: u32) \<le> dv_sectors (fst (bhw s))"
    "\<not> span 0x50000000 (unat (2 :: u32) * 512) (g_status example_syms)"
    using s(3) by (simp_all add: span_def example_syms_def)
  show ?thesis using boot_block_read_correct [OF prompt_device_compliant [OF zero_less_one] ok t] ok by auto
qed

end
