(* ===== verification/Core_Api.thy ===== *)
theory Core_Api
  imports Virtio_Props
begin

unbundle bit_operations_syntax

text \<open>
  The services the kernel offers to the core (\<open>Kern/Kernel/api/core_kernel_api.c\<close>): logging, block I/O under the
  resource contract of the calling task, service contracts, memory, scheduling, capabilities and messages.

  An out-parameter is a pointer that is only compared with NULL; the value written through it is part of the
  result. The header in front of a block of \<open>cka_kmalloc\<close> and the word in front of an aligned block are kept
  by their addresses; other memory is the byte memory \<open>byte_at\<close> that the block device also writes to.
  Until a call of \<open>yield\<close> returns other threads run, so what it does to the state is the parameter \<open>yld\<close>.
\<close>

section \<open>State\<close>

record ks_contract_entry =
  kc_rights :: u32
  kc_policy :: u32
  kc_in_use :: u8

record core_alloc_hdr =
  ch_magic :: u64
  ch_size :: u64

definition CORE_ALLOC_MAGIC :: u64 where
  "CORE_ALLOC_MAGIC = 0x434150415A4D454D"

record 'd core_globals = "'d virtio_globals" +
  g_core_caps :: ptr
  g_kernel_log_ep :: cap_handle
  g_contracts :: "ks_contract_entry list"
  core_hdr_at :: "ptr \<Rightarrow> core_alloc_hdr"
  raw_at :: "ptr \<Rightarrow> ptr"
  uart_out :: "u8 list"

definition cka_current_task :: "('d, 'a) core_globals_scheme \<Rightarrow> ptr" where
  "cka_current_task s = (let cur = sched_current s in if cur = NULL then NULL else th_task (thread_at s cur))"

abbreviation put_task :: "ptr \<Rightarrow> task option \<Rightarrow> ('d, 'a) core_globals_scheme \<Rightarrow> ('d, 'a) core_globals_scheme" where
  "put_task t k s \<equiv> s\<lparr>task_at := (task_at s)(t := the k)\<rparr>"

definition KS_IO_INTENT_LATENCY :: u32 where "KS_IO_INTENT_LATENCY = 1"
definition KS_IO_INTENT_THROUGHPUT :: u32 where "KS_IO_INTENT_THROUGHPUT = 2"
definition KS_IO_INTENT_BACKGROUND :: u32 where "KS_IO_INTENT_BACKGROUND = 3"

definition cka_sched_intent_from_io :: "u32 \<Rightarrow> u32" where
  "cka_sched_intent_from_io io_intent =
     (if io_intent = KS_IO_INTENT_LATENCY then intent_value SCHED_INTENT_LATENCY
      else if io_intent = KS_IO_INTENT_THROUGHPUT then intent_value SCHED_INTENT_THROUGHPUT
      else if io_intent = KS_IO_INTENT_BACKGROUND then intent_value SCHED_INTENT_BACKGROUND
      else intent_value SCHED_INTENT_INTERACTIVE)"

definition cka_attach_core_caps :: "ptr \<Rightarrow> ('d, 'a) core_globals_scheme \<Rightarrow> ('d, 'a) core_globals_scheme" where
  "cka_attach_core_caps core_caps s = s\<lparr>g_core_caps := core_caps\<rparr>"

definition cka_core_caps :: "('d, 'a) core_globals_scheme \<Rightarrow> ptr" where
  "cka_core_caps s = g_core_caps s"

definition cka_attach_kernel_log_ep :: "cap_handle \<Rightarrow> ('d, 'a) core_globals_scheme \<Rightarrow> ('d, 'a) core_globals_scheme" where
  "cka_attach_kernel_log_ep endpoint_cap s = s\<lparr>g_kernel_log_ep := endpoint_cap\<rparr>"

section \<open>Logging\<close>

definition KLOG_TAG_WRITE :: u32 where
  "KLOG_TAG_WRITE = 1"

definition uart_write :: "ptr \<Rightarrow> u64 \<Rightarrow> ('d, 'a) core_globals_scheme \<Rightarrow> ('d, 'a) core_globals_scheme" where
  "uart_write p len s = (if p = NULL then s else s\<lparr>uart_out := uart_out s @ bytes_at (byte_at (shared s)) p (unat len)\<rparr>)"

text \<open>
  The loop that sends the text in messages of at most 128 bytes; \<open>k\<close> bounds the number of messages, which is at
  most the number of bytes. The payload array of the message is as long as its bytes.
\<close>

fun console_loop ::
    "ptr \<Rightarrow> u64 \<Rightarrow> nat \<Rightarrow> u64 \<Rightarrow> ('d, 'a) core_globals_scheme \<Rightarrow> ('d, 'a) core_globals_scheme outcome" where
  "console_loop p len k off s =
     (if \<not> off < len then Ret s
      else case k of 0 \<Rightarrow> Hang
      | Suc k' \<Rightarrow>
          let chunk = (if ucast KS_IPC_MSG_MAX < len - off then ucast KS_IPC_MSG_MAX else len - off);
              msg = \<lparr>km_tag = KLOG_TAG_WRITE, km_len = ucast chunk, km_data = bytes_at (byte_at (shared s)) (p + off) (unat chunk)\<rparr> in
          obind (ipc_send_cap (g_core_caps s) (g_kernel_log_ep s) (Some msg) s) (\<lambda>(st, s1).
            if st \<noteq> KS_IPC_OK then Ret (uart_write (p + off) (len - off) s1)
            else console_loop p len k' (off + chunk) s1))"

declare console_loop.simps [simp del]

definition cka_console_write :: "ptr \<Rightarrow> u64 \<Rightarrow> ('d, 'a) core_globals_scheme \<Rightarrow> ('d, 'a) core_globals_scheme outcome" where
  "cka_console_write p len s =
     (if p = NULL \<or> len = 0 then Ret s
      else if g_core_caps s = NULL \<or> g_kernel_log_ep s = CAP_HANDLE_INVALID then Ret (uart_write p len s)
      else console_loop p len (unat len) 0 s)"

definition cka_early_log :: "ptr \<Rightarrow> ('d, 'a) core_globals_scheme \<Rightarrow> ('d, 'a) core_globals_scheme outcome" where
  "cka_early_log p s = (if p = NULL then Ret s else obind (strlen p (byte_at (shared s))) (\<lambda>n. cka_console_write p n s))"

definition cka_log_write :: "ptr \<Rightarrow> ('d, 'a) core_globals_scheme \<Rightarrow> ('d, 'a) core_globals_scheme outcome" where
  "cka_log_write p s = (if p = NULL then Ret s else obind (strlen p (byte_at (shared s))) (\<lambda>n. cka_console_write p n s))"

section \<open>Build and device information\<close>

text \<open>The strings are pointers to constants that the build generates: the parameter \<open>build\<close>.\<close>

record ks_build_info =
  kernel_build_number :: u64
  build_date :: ptr
  build_version :: ptr
  build_environment :: ptr
  kernel_version :: ptr
  kernel_machine :: ptr
  core_name :: ptr
  core_version :: ptr

definition cka_get_build_info :: "ks_build_info \<Rightarrow> ptr \<Rightarrow> ks_status \<times> ks_build_info option" where
  "cka_get_build_info build out_info = (if out_info = NULL then (KS_STATUS_INVALID_ARG, None) else (KS_STATUS_OK, Some build))"

text \<open>The listing of the devices itself is log output.\<close>

definition cka_dtb_dump_devices :: "mem \<Rightarrow> dtb_globals \<Rightarrow> (ks_status \<times> dtb_globals) outcome" where
  "cka_dtb_dump_devices m g =
     obind (dtb_get_totalsize m g) (\<lambda>(n, g1). Ret (if n = 0 then KS_STATUS_NOT_SUPPORTED else KS_STATUS_OK, g1))"

section \<open>Block device\<close>

text \<open>The padding word of the structure is not written.\<close>

record ks_block_info =
  bi_sector_size :: u32
  bi_capacity_sectors :: u64

definition cka_block_get_info :: "ptr \<Rightarrow> ('d, 'a) core_globals_scheme \<Rightarrow> ks_status \<times> ks_block_info option" where
  "cka_block_get_info out_info s =
     (if out_info = NULL then (KS_STATUS_INVALID_ARG, None)
      else if \<not> hal_block_ready s then (KS_STATUS_NOT_SUPPORTED, None)
      else (KS_STATUS_OK, Some \<lparr>bi_sector_size = hal_block_sector_size s, bi_capacity_sectors = hal_block_capacity_sectors s\<rparr>))"

text \<open>The calls of \<open>yield\<close> that throttle background transfers.\<close>

fun yields :: "('s \<Rightarrow> 's outcome) \<Rightarrow> nat \<Rightarrow> 's \<Rightarrow> 's outcome" where
  "yields yld 0 s = Ret s"
| "yields yld (Suc n) s = obind (yld s) (yields yld n)"

definition THROTTLE_YIELDS :: nat where
  "THROTTLE_YIELDS = 2000"

text \<open>
  The transfer loops with \<open>remaining\<close> sectors to go. A round transfers at least one sector, so \<open>k\<close>, the number
  of rounds allowed, starts with the sector count; running out of it is \<open>Hang\<close>.
\<close>

definition io_pages :: "u32 \<Rightarrow> u32 \<Rightarrow> u32" where
  "io_pages chunk sector_size = ucast ((ucast chunk * ucast sector_size + 0xFFF) div (0x1000 :: u64))"

fun block_read_loop ::
    "'d virtio_hw \<Rightarrow> ptr \<Rightarrow> (('d, 'a) core_globals_scheme \<Rightarrow> ('d, 'a) core_globals_scheme outcome) \<Rightarrow> u32 \<Rightarrow> u64 \<Rightarrow> ptr \<Rightarrow> u32 \<Rightarrow> u32 \<Rightarrow>
     nat \<Rightarrow> u32 \<Rightarrow> u32 \<Rightarrow> ('d, 'a) core_globals_scheme \<Rightarrow> (ks_status \<times> ('d, 'a) core_globals_scheme) outcome" where
  "block_read_loop hw blk yld intent lba dst sector_size max_chunk k remaining offset_sectors s =
     (if remaining = 0 then Ret (KS_STATUS_OK, s)
      else case k of 0 \<Rightarrow> Hang
      | Suc k' \<Rightarrow>
          let chunk = (if max_chunk < remaining then max_chunk else remaining);
              chunk_bytes = ucast chunk * ucast sector_size; pages = io_pages chunk sector_size in
          obind (kheap_alloc_pages pages LOCAL s) (\<lambda>((tmp, _), s1).
            if tmp = NULL then Ret (KS_STATUS_OUT_OF_MEMORY, s1)
            else case hal_block_read hw blk (lba + ucast offset_sectors) tmp (ucast chunk) s1 of (ok, s2) \<Rightarrow>
              if \<not> ok then obind (kheap_free_pages tmp pages s2) (\<lambda>s3. Ret (KS_STATUS_INTERNAL, s3))
              else let s3 = s2\<lparr>shared := (shared s2)\<lparr>byte_at :=
                     snd (memcpy (dst + ucast offset_sectors * ucast sector_size) tmp chunk_bytes (byte_at (shared s2)))\<rparr>\<rparr> in
                obind (kheap_free_pages tmp pages s3) (\<lambda>s4.
                obind (if intent = KS_IO_INTENT_BACKGROUND then yields yld THROTTLE_YIELDS s4 else Ret s4) (\<lambda>s5.
                block_read_loop hw blk yld intent lba dst sector_size max_chunk k' (remaining - chunk) (offset_sectors + chunk) s5))))"

declare block_read_loop.simps [simp del]

fun block_write_loop ::
    "'d virtio_hw \<Rightarrow> ptr \<Rightarrow> (('d, 'a) core_globals_scheme \<Rightarrow> ('d, 'a) core_globals_scheme outcome) \<Rightarrow> u32 \<Rightarrow> u64 \<Rightarrow> ptr \<Rightarrow> u32 \<Rightarrow> u32 \<Rightarrow>
     nat \<Rightarrow> u32 \<Rightarrow> u32 \<Rightarrow> ('d, 'a) core_globals_scheme \<Rightarrow> (ks_status \<times> ('d, 'a) core_globals_scheme) outcome" where
  "block_write_loop hw blk yld intent lba src sector_size max_chunk k remaining offset_sectors s =
     (if remaining = 0 then Ret (KS_STATUS_OK, s)
      else case k of 0 \<Rightarrow> Hang
      | Suc k' \<Rightarrow>
          let chunk = (if max_chunk < remaining then max_chunk else remaining);
              chunk_bytes = ucast chunk * ucast sector_size; pages = io_pages chunk sector_size in
          obind (kheap_alloc_pages pages LOCAL s) (\<lambda>((tmp, _), s1).
            if tmp = NULL then Ret (KS_STATUS_OUT_OF_MEMORY, s1)
            else let s2 = s1\<lparr>shared := (shared s1)\<lparr>byte_at :=
                     snd (memcpy tmp (src + ucast offset_sectors * ucast sector_size) chunk_bytes (byte_at (shared s1)))\<rparr>\<rparr> in
              case hal_block_write hw blk (lba + ucast offset_sectors) tmp (ucast chunk) s2 of (ok, s3) \<Rightarrow>
              if \<not> ok then obind (kheap_free_pages tmp pages s3) (\<lambda>s4. Ret (KS_STATUS_INTERNAL, s4))
              else obind (kheap_free_pages tmp pages s3) (\<lambda>s4.
                obind (if intent = KS_IO_INTENT_BACKGROUND then yields yld THROTTLE_YIELDS s4 else Ret s4) (\<lambda>s5.
                block_write_loop hw blk yld intent lba src sector_size max_chunk k' (remaining - chunk) (offset_sectors + chunk) s5))))"

declare block_write_loop.simps [simp del]

definition io_max_chunk :: "u32 \<Rightarrow> u32 \<Rightarrow> u32" where
  "io_max_chunk intent count =
     (if intent = KS_IO_INTENT_THROUGHPUT then 8 else if intent = KS_IO_INTENT_BACKGROUND then 1 else count)"

text \<open>What reading and writing share: the checks, the admission by the task's contract, the intent during the transfer, the accounting.\<close>

definition block_io ::
    "bool \<Rightarrow> (('d, 'a) core_globals_scheme \<Rightarrow> (ks_status \<times> ('d, 'a) core_globals_scheme) outcome) \<Rightarrow> u32 \<Rightarrow> ptr \<Rightarrow> u64 \<Rightarrow> u32 \<Rightarrow>
     ('d, 'a) core_globals_scheme \<Rightarrow> (ks_status \<times> ('d, 'a) core_globals_scheme) outcome" where
  "block_io is_write transfer count buf buf_len intent s =
     (if buf = NULL \<or> count = 0 then Ret (KS_STATUS_INVALID_ARG, s)
      else if \<not> hal_block_ready s then Ret (KS_STATUS_NOT_SUPPORTED, s)
      else let need = ucast count * ucast (hal_block_sector_size s) in
        if buf_len < need then Ret (KS_STATUS_INVALID_ARG, s)
        else let task = cka_current_task s;
                 (allowed, s1) = (if task \<noteq> NULL
                    then (case task_allow_io (Some (task_at s task)) need is_write (sched_ticks_now s) of (ok, tk) \<Rightarrow> (ok, put_task task tk s))
                    else (True, s)) in
          if \<not> allowed then Ret (KS_STATUS_BUSY, s1)
          else let cur = sched_current s1;
                   old_intent = (if cur \<noteq> NULL then ucast (sched_intent (thread_at s1 cur)) else intent_value SCHED_INTENT_INTERACTIVE) in
            obind (if cur \<noteq> NULL then sched_set_thread_intent cur (cka_sched_intent_from_io intent) s1 else Ret s1) (\<lambda>s2.
            obind (transfer s2) (\<lambda>(status, s3).
            let s4 = (if status = KS_STATUS_OK \<and> task \<noteq> NULL
                      then put_task task (task_account_io (Some (task_at s3 task)) need is_write (cka_sched_intent_from_io intent) (sched_ticks_now s3)) s3
                      else s3) in
            obind (if cur \<noteq> NULL then sched_set_thread_intent cur old_intent s4 else Ret s4) (\<lambda>s5. Ret (status, s5)))))"

definition cka_block_read_intent ::
    "'d virtio_hw \<Rightarrow> ptr \<Rightarrow> (('d, 'a) core_globals_scheme \<Rightarrow> ('d, 'a) core_globals_scheme outcome) \<Rightarrow> u64 \<Rightarrow> u32 \<Rightarrow> ptr \<Rightarrow> u64 \<Rightarrow> u32 \<Rightarrow>
     ('d, 'a) core_globals_scheme \<Rightarrow> (ks_status \<times> ('d, 'a) core_globals_scheme) outcome" where
  "cka_block_read_intent hw blk yld lba count buf buf_len intent s =
     block_io False (\<lambda>t. block_read_loop hw blk yld intent lba buf (hal_block_sector_size t) (io_max_chunk intent count) (unat count) count 0 t)
       count buf buf_len intent s"

definition cka_block_read ::
    "'d virtio_hw \<Rightarrow> ptr \<Rightarrow> (('d, 'a) core_globals_scheme \<Rightarrow> ('d, 'a) core_globals_scheme outcome) \<Rightarrow> u64 \<Rightarrow> u32 \<Rightarrow> ptr \<Rightarrow> u64 \<Rightarrow>
     ('d, 'a) core_globals_scheme \<Rightarrow> (ks_status \<times> ('d, 'a) core_globals_scheme) outcome" where
  "cka_block_read hw blk yld lba count buf buf_len s = cka_block_read_intent hw blk yld lba count buf buf_len KS_IO_INTENT_LATENCY s"

definition cka_block_write_intent ::
    "'d virtio_hw \<Rightarrow> ptr \<Rightarrow> (('d, 'a) core_globals_scheme \<Rightarrow> ('d, 'a) core_globals_scheme outcome) \<Rightarrow> u64 \<Rightarrow> u32 \<Rightarrow> ptr \<Rightarrow> u64 \<Rightarrow> u32 \<Rightarrow>
     ('d, 'a) core_globals_scheme \<Rightarrow> (ks_status \<times> ('d, 'a) core_globals_scheme) outcome" where
  "cka_block_write_intent hw blk yld lba count buf buf_len intent s =
     block_io True (\<lambda>t. block_write_loop hw blk yld intent lba buf (hal_block_sector_size t) (io_max_chunk intent count) (unat count) count 0 t)
       count buf buf_len intent s"

definition cka_block_write ::
    "'d virtio_hw \<Rightarrow> ptr \<Rightarrow> (('d, 'a) core_globals_scheme \<Rightarrow> ('d, 'a) core_globals_scheme outcome) \<Rightarrow> u64 \<Rightarrow> u32 \<Rightarrow> ptr \<Rightarrow> u64 \<Rightarrow>
     ('d, 'a) core_globals_scheme \<Rightarrow> (ks_status \<times> ('d, 'a) core_globals_scheme) outcome" where
  "cka_block_write hw blk yld lba count buf buf_len s = cka_block_write_intent hw blk yld lba count buf buf_len KS_IO_INTENT_LATENCY s"

section \<open>Service contracts\<close>

definition KS_CONTRACT_FAT32 :: u32 where
  "KS_CONTRACT_FAT32 = 1"

text \<open>The first entry that is not in use, from entry \<open>i\<close> on.\<close>

fun free_contract :: "nat \<Rightarrow> ks_contract_entry list \<Rightarrow> nat option" where
  "free_contract i [] = None"
| "free_contract i (e # es) = (if kc_in_use e = 0 then Some i else free_contract (Suc i) es)"

definition cka_contract_open ::
    "u32 \<Rightarrow> u32 \<Rightarrow> u32 \<Rightarrow> ptr \<Rightarrow> ('d, 'a) core_globals_scheme \<Rightarrow> (ks_status \<times> u64 option) \<times> ('d, 'a) core_globals_scheme" where
  "cka_contract_open kind rights policy out_handle s =
     (if out_handle = NULL then ((KS_STATUS_INVALID_ARG, None), s)
      else if kind \<noteq> KS_CONTRACT_FAT32 then ((KS_STATUS_INVALID_ARG, None), s)
      else case free_contract 0 (g_contracts s) of
        None \<Rightarrow> ((KS_STATUS_OUT_OF_MEMORY, None), s)
      | Some i \<Rightarrow> ((KS_STATUS_OK, Some (of_nat (i + 1))),
          s\<lparr>g_contracts := (g_contracts s)[i := \<lparr>kc_rights = rights, kc_policy = policy, kc_in_use = 1\<rparr>]\<rparr>))"

definition cka_contract_get :: "u64 \<Rightarrow> ptr \<Rightarrow> ptr \<Rightarrow> ('d, 'a) core_globals_scheme \<Rightarrow> ks_status \<times> (u32 \<times> u32) option" where
  "cka_contract_get handle out_rights out_policy s =
     (if out_rights = NULL \<or> out_policy = NULL then (KS_STATUS_INVALID_ARG, None)
      else if handle = 0 then (KS_STATUS_INVALID_ARG, None)
      else let idx = handle - 1 in
        if 64 \<le> idx then (KS_STATUS_INVALID_ARG, None)
        else let e = g_contracts s ! unat idx in
          if kc_in_use e = 0 then (KS_STATUS_INVALID_ARG, None) else (KS_STATUS_OK, Some (kc_rights e, kc_policy e)))"

section \<open>Memory\<close>

definition sizeof_core_alloc_hdr :: u64 where
  "sizeof_core_alloc_hdr = 16"

definition cka_kmalloc :: "u64 \<Rightarrow> ('d, 'a) core_globals_scheme \<Rightarrow> (ptr \<times> ('d, 'a) core_globals_scheme) outcome" where
  "cka_kmalloc sz s =
     (let tot = sz + sizeof_core_alloc_hdr; task = cka_current_task s;
          (allowed, s1) = (if task \<noteq> NULL then (case task_allow_mem_alloc (Some (task_at s task)) sz of (ok, tk) \<Rightarrow> (ok, put_task task tk s)) else (True, s)) in
      if \<not> allowed then Ret (NULL, s1)
      else obind (kmalloc tot s1) (\<lambda>(hdr, s2).
        if hdr = NULL then Ret (NULL, s2)
        else let s3 = s2\<lparr>core_hdr_at := (core_hdr_at s2)(hdr := \<lparr>ch_magic = CORE_ALLOC_MAGIC, ch_size = sz\<rparr>)\<rparr>;
                 s4 = (if task \<noteq> NULL then put_task task (task_account_mem_alloc (Some (task_at s3 task)) sz) s3 else s3) in
          Ret (hdr + sizeof_core_alloc_hdr, s4)))"

definition cka_kfree :: "ptr \<Rightarrow> ('d, 'a) core_globals_scheme \<Rightarrow> ('d, 'a) core_globals_scheme outcome" where
  "cka_kfree p s =
     (if p = NULL then Ret s
      else let hdr = p - sizeof_core_alloc_hdr in
        if ch_magic (core_hdr_at s hdr) = CORE_ALLOC_MAGIC then
          let task = cka_current_task s;
              s1 = (if task \<noteq> NULL then put_task task (task_account_mem_free (Some (task_at s task)) (ch_size (core_hdr_at s hdr))) s else s);
              s2 = s1\<lparr>core_hdr_at := (core_hdr_at s1)(hdr := (core_hdr_at s1 hdr)\<lparr>ch_magic := 0\<rparr>)\<rparr> in
          kfree hdr s2
        else kfree p s)"

partial_function (option) pow2_loop :: "u64 \<Rightarrow> u64 \<Rightarrow> u64 option" where
  "pow2_loop x p = (if p < x then pow2_loop x (push_bit 1 p) else Some p)"

definition round_up_pow2_size :: "u64 \<Rightarrow> u64 outcome" where
  "round_up_pow2_size x = (if x \<le> 1 then Ret 1 else of_loop (pow2_loop x 1))"

definition cka_malloc :: "u64 \<Rightarrow> u64 \<Rightarrow> ('d, 'a) core_globals_scheme \<Rightarrow> (ptr \<times> ('d, 'a) core_globals_scheme) outcome" where
  "cka_malloc sz alignment0 s =
     obind (round_up_pow2_size (if alignment0 < 8 then 8 else alignment0)) (\<lambda>alignment.
       let extra = (alignment - 1) + 8 in
       obind (cka_kmalloc (sz + extra) s) (\<lambda>(raw, s1).
         if raw = NULL then Ret (NULL, s1)
         else let base = raw + 8; aligned = (base + (alignment - 1)) AND NOT (alignment - 1) in
           Ret (aligned, s1\<lparr>raw_at := (raw_at s1)(aligned - 8 := raw)\<rparr>)))"

definition cka_free :: "ptr \<Rightarrow> ('d, 'a) core_globals_scheme \<Rightarrow> ('d, 'a) core_globals_scheme outcome" where
  "cka_free p s = (if p = NULL then Ret s else cka_kfree (raw_at s (p - 8)) s)"

definition cka_memcpy :: "ptr \<Rightarrow> ptr \<Rightarrow> u64 \<Rightarrow> ('d, 'a) core_globals_scheme \<Rightarrow> ptr \<times> ('d, 'a) core_globals_scheme" where
  "cka_memcpy dst src n s = (case memcpy dst src n (byte_at (shared s)) of (r, m) \<Rightarrow> (r, s\<lparr>shared := (shared s)\<lparr>byte_at := m\<rparr>\<rparr>))"

definition cka_memset :: "ptr \<Rightarrow> 32 word \<Rightarrow> u64 \<Rightarrow> ('d, 'a) core_globals_scheme \<Rightarrow> ptr \<times> ('d, 'a) core_globals_scheme" where
  "cka_memset dst c n s = (case memset dst c n (byte_at (shared s)) of (r, m) \<Rightarrow> (r, s\<lparr>shared := (shared s)\<lparr>byte_at := m\<rparr>\<rparr>))"

section \<open>Scheduling\<close>

definition cka_yield :: "('s \<Rightarrow> 's outcome) \<Rightarrow> 's \<Rightarrow> 's outcome" where
  "cka_yield yld s = yld s"

definition cka_sleep_ticks :: "('s \<Rightarrow> 's outcome) \<Rightarrow> u64 \<Rightarrow> 's \<Rightarrow> 's outcome" where
  "cka_sleep_ticks yld ticks s = yields yld (unat ticks) s"

record ks_sched_contract =
  kc_intent :: u32
  kc_flags :: u32
  kc_window_ticks :: u64
  kc_cpu_ticks_limit :: u64
  kc_io_read_bytes_limit :: u64
  kc_io_write_bytes_limit :: u64
  kc_mem_bytes_limit :: u64

record ks_sched_stats =
  kt_tick_now :: u64
  kt_window_start_tick :: u64
  kt_window_ticks :: u64
  kt_cpu_ticks_total :: u64
  kt_cpu_ticks_window :: u64
  kt_cpu_throttle_events :: u64
  kt_io_read_bytes_total :: u64
  kt_io_read_bytes_window :: u64
  kt_io_write_bytes_total :: u64
  kt_io_write_bytes_window :: u64
  kt_io_throttle_events :: u64
  kt_mem_bytes_current :: u64
  kt_mem_bytes_peak :: u64
  kt_mem_throttle_events :: u64
  kt_io_ops_total :: u64
  kt_io_ops_interactive :: u64
  kt_io_ops_latency :: u64
  kt_io_ops_throughput :: u64
  kt_io_ops_background :: u64
  kt_sched_context_switches :: u64
  kt_sched_yields :: u64
  kt_sched_preempt_switches :: u64
  kt_sched_runs_interactive :: u64
  kt_sched_runs_latency :: u64
  kt_sched_runs_throughput :: u64
  kt_sched_runs_background :: u64

definition cka_sched_set_contract ::
    "ks_sched_contract option \<Rightarrow> ('d, 'a) core_globals_scheme \<Rightarrow> (ks_status \<times> ('d, 'a) core_globals_scheme) outcome" where
  "cka_sched_set_contract contract s =
     (case contract of None \<Rightarrow> Ret (KS_STATUS_INVALID_ARG, s)
      | Some c \<Rightarrow>
          let cur = sched_current s; task = th_task (thread_at s cur) in
          if cur = NULL \<or> task = NULL then Ret (KS_STATUS_INVALID_STATE, s)
          else let tc = \<lparr>tc_intent = kc_intent c, tc_flags = kc_flags c, tc_window_ticks = kc_window_ticks c, tc_cpu_ticks_limit = kc_cpu_ticks_limit c,
                     tc_io_read_bytes_limit = kc_io_read_bytes_limit c, tc_io_write_bytes_limit = kc_io_write_bytes_limit c,
                     tc_mem_bytes_limit = kc_mem_bytes_limit c\<rparr>;
                   s1 = put_task task (task_set_contract (Some (task_at s task)) (Some tc) (sched_ticks_now s)) s in
            obind (sched_set_thread_intent cur (tc_intent tc) s1) (\<lambda>s2. Ret (KS_STATUS_OK, s2)))"

text \<open>The records the callee fills are those of a task that is not NULL.\<close>

definition cka_sched_get_contract :: "ptr \<Rightarrow> ('d, 'a) core_globals_scheme \<Rightarrow> ks_status \<times> ks_sched_contract option" where
  "cka_sched_get_contract out_contract s =
     (if out_contract = NULL then (KS_STATUS_INVALID_ARG, None)
      else let cur = sched_current s; task = th_task (thread_at s cur) in
        if cur = NULL \<or> task = NULL then (KS_STATUS_INVALID_STATE, None)
        else (KS_STATUS_OK, map_option (\<lambda>tc. \<lparr>kc_intent = tc_intent tc, kc_flags = tc_flags tc, kc_window_ticks = tc_window_ticks tc,
               kc_cpu_ticks_limit = tc_cpu_ticks_limit tc, kc_io_read_bytes_limit = tc_io_read_bytes_limit tc,
               kc_io_write_bytes_limit = tc_io_write_bytes_limit tc, kc_mem_bytes_limit = tc_mem_bytes_limit tc\<rparr>)
               (task_get_contract (Some (task_at s task)))))"

definition cka_sched_get_stats :: "ptr \<Rightarrow> ('d, 'a) core_globals_scheme \<Rightarrow> ks_status \<times> ks_sched_stats option" where
  "cka_sched_get_stats out_stats s =
     (if out_stats = NULL then (KS_STATUS_INVALID_ARG, None)
      else let cur = sched_current s; task = th_task (thread_at s cur) in
        if cur = NULL \<or> task = NULL then (KS_STATUS_INVALID_STATE, None)
        else let ss = sched_get_stats s in
          (KS_STATUS_OK, map_option (\<lambda>ts. \<lparr>kt_tick_now = ts_tick_now ts, kt_window_start_tick = ts_window_start_tick ts, kt_window_ticks = ts_window_ticks ts,
             kt_cpu_ticks_total = ts_cpu_ticks_total ts, kt_cpu_ticks_window = ts_cpu_ticks_window ts, kt_cpu_throttle_events = ts_cpu_throttle_events ts,
             kt_io_read_bytes_total = ts_io_read_bytes_total ts, kt_io_read_bytes_window = ts_io_read_bytes_window ts,
             kt_io_write_bytes_total = ts_io_write_bytes_total ts, kt_io_write_bytes_window = ts_io_write_bytes_window ts,
             kt_io_throttle_events = ts_io_throttle_events ts, kt_mem_bytes_current = ts_mem_bytes_current ts, kt_mem_bytes_peak = ts_mem_bytes_peak ts,
             kt_mem_throttle_events = ts_mem_throttle_events ts, kt_io_ops_total = ts_io_ops_total ts, kt_io_ops_interactive = ts_io_ops_interactive ts,
             kt_io_ops_latency = ts_io_ops_latency ts, kt_io_ops_throughput = ts_io_ops_throughput ts, kt_io_ops_background = ts_io_ops_background ts,
             kt_sched_context_switches = context_switches ss, kt_sched_yields = yield_calls ss, kt_sched_preempt_switches = preempt_switches ss,
             kt_sched_runs_interactive = intent_runs_interactive ss, kt_sched_runs_latency = intent_runs_latency ss,
             kt_sched_runs_throughput = intent_runs_throughput ss, kt_sched_runs_background = intent_runs_background ss\<rparr>)
             (task_get_stats (Some (task_at s task)) (st_tick_now ss))))"

definition cka_sched_set_current_thread_intent ::
    "u32 \<Rightarrow> ('d, 'a) core_globals_scheme \<Rightarrow> (ks_status \<times> ('d, 'a) core_globals_scheme) outcome" where
  "cka_sched_set_current_thread_intent intent s =
     (let cur = sched_current s in
      if cur = NULL then Ret (KS_STATUS_INVALID_STATE, s)
      else obind (sched_set_thread_intent cur intent s) (\<lambda>s1. Ret (KS_STATUS_OK, s1)))"

section \<open>Capabilities and messages\<close>

text \<open>The numbers of the two kinds of status codes; \<open>cka_cap_create\<close> returns the one as the other.\<close>

fun cap_status_value :: "cap_status \<Rightarrow> int" where
  "cap_status_value CAP_OK = 0"
| "cap_status_value CAP_ERR_INVALID = -1"
| "cap_status_value CAP_ERR_NO_SLOTS = -2"
| "cap_status_value CAP_ERR_DENIED = -3"
| "cap_status_value CAP_ERR_NO_MEM = -4"

fun ks_status_value :: "ks_status \<Rightarrow> int" where
  "ks_status_value KS_STATUS_OK = 0"
| "ks_status_value KS_STATUS_INVALID_ARG = -1"
| "ks_status_value KS_STATUS_INVALID_STATE = -2"
| "ks_status_value KS_STATUS_NO_RIGHTS = -3"
| "ks_status_value KS_STATUS_NO_SPACE = -4"
| "ks_status_value KS_STATUS_OUT_OF_MEMORY = -5"
| "ks_status_value KS_STATUS_NOT_FOUND = -6"
| "ks_status_value KS_STATUS_NOT_SUPPORTED = -7"
| "ks_status_value KS_STATUS_BUSY = -8"
| "ks_status_value KS_STATUS_TIMED_OUT = -9"
| "ks_status_value KS_STATUS_INTERNAL = -10"

definition cka_cap_create ::
    "cap_type \<Rightarrow> cap_rights \<Rightarrow> ptr \<Rightarrow> ptr \<Rightarrow> ('d, 'a) core_globals_scheme \<Rightarrow> ((int \<times> cap_handle option) \<times> ('d, 'a) core_globals_scheme) outcome" where
  "cka_cap_create ty rights obj out_id s =
     (if g_core_caps s = NULL \<or> out_id = NULL then Ret ((ks_status_value KS_STATUS_INVALID_ARG, None), s)
      else obind (cap_create (g_core_caps s) ty rights obj out_id s) (\<lambda>((st, h), s1). Ret ((cap_status_value st, h), s1)))"

definition cka_cap_retain :: "cap_handle \<Rightarrow> ('d, 'a) core_globals_scheme \<Rightarrow> ks_status" where
  "cka_cap_retain h s =
     (if g_core_caps s = NULL then KS_STATUS_INVALID_STATE
      else if cap_table_lookup (g_core_caps s) h 0 s \<noteq> NULL then KS_STATUS_OK else KS_STATUS_NOT_FOUND)"

fun ks_from_cap_status :: "cap_status \<Rightarrow> ks_status" where
  "ks_from_cap_status CAP_OK = KS_STATUS_OK"
| "ks_from_cap_status CAP_ERR_INVALID = KS_STATUS_NOT_FOUND"
| "ks_from_cap_status CAP_ERR_DENIED = KS_STATUS_NO_RIGHTS"
| "ks_from_cap_status CAP_ERR_NO_SLOTS = KS_STATUS_OUT_OF_MEMORY"
| "ks_from_cap_status CAP_ERR_NO_MEM = KS_STATUS_INTERNAL"

definition cka_cap_release :: "cap_handle \<Rightarrow> ('d, 'a) core_globals_scheme \<Rightarrow> (ks_status \<times> ('d, 'a) core_globals_scheme) outcome" where
  "cka_cap_release h s =
     (if g_core_caps s = NULL then Ret (KS_STATUS_INVALID_STATE, s)
      else obind (cap_drop (g_core_caps s) h s) (\<lambda>(st, s1). Ret (ks_from_cap_status st, s1)))"

fun ks_from_ipc_status :: "ks_ipc_status \<Rightarrow> ks_status" where
  "ks_from_ipc_status KS_IPC_OK = KS_STATUS_OK"
| "ks_from_ipc_status KS_IPC_ERR_INVALID = KS_STATUS_INVALID_ARG"
| "ks_from_ipc_status KS_IPC_ERR_RIGHTS = KS_STATUS_NO_RIGHTS"
| "ks_from_ipc_status KS_IPC_ERR_NO_MEM = KS_STATUS_OUT_OF_MEMORY"
| "ks_from_ipc_status KS_IPC_ERR_CLOSED = KS_STATUS_BUSY"
| "ks_from_ipc_status KS_IPC_ERR_EMPTY = KS_STATUS_BUSY"

definition cka_ipc_send ::
    "cap_handle \<Rightarrow> ks_ipc_msg option \<Rightarrow> ('d, 'a) core_globals_scheme \<Rightarrow> (ks_status \<times> ('d, 'a) core_globals_scheme) outcome" where
  "cka_ipc_send h msg s =
     (if g_core_caps s = NULL \<or> msg = None then Ret (KS_STATUS_INVALID_ARG, s)
      else obind (ipc_send_cap (g_core_caps s) h msg s) (\<lambda>(st, s1). Ret (ks_from_ipc_status st, s1)))"

text \<open>A receive that blocks ends at the switch to another thread, as in the model of \<open>ipc_recv_cap\<close>.\<close>

definition cka_ipc_recv ::
    "cap_handle \<Rightarrow> ks_ipc_msg option \<Rightarrow> ('d, 'a) core_globals_scheme \<Rightarrow> ((ks_status \<times> ks_ipc_msg option + switch_result) \<times> ('d, 'a) core_globals_scheme) outcome" where
  "cka_ipc_recv h msg s =
     (if g_core_caps s = NULL \<or> msg = None then Ret (Inl (KS_STATUS_INVALID_ARG, msg), s)
      else obind (ipc_recv_cap (g_core_caps s) h msg s) (\<lambda>(r, s1).
        case r of Inl st \<Rightarrow> Ret (Inl (ks_from_ipc_status st, msg), s1)
        | Inr (Done st m) \<Rightarrow> Ret (Inl (ks_from_ipc_status st, Some m), s1)
        | Inr (Blocked w) \<Rightarrow> Ret (Inr w, s1)))"

definition cka_ipc_try_recv ::
    "cap_handle \<Rightarrow> ks_ipc_msg option \<Rightarrow> ('d, 'a) core_globals_scheme \<Rightarrow> ((ks_status \<times> ks_ipc_msg option) \<times> ('d, 'a) core_globals_scheme) outcome" where
  "cka_ipc_try_recv h msg s =
     (if g_core_caps s = NULL \<or> msg = None then Ret ((KS_STATUS_INVALID_ARG, msg), s)
      else obind (ipc_try_recv_cap (g_core_caps s) h msg s) (\<lambda>((st, m), s1). Ret ((ks_from_ipc_status st, m), s1)))"

end
