(* ===== verification/Core_Mem.thy ===== *)
theory Core_Mem
  imports Core_Api
begin

unbundle bit_operations_syntax

text \<open>
  Memory and contract services of the core API: allocations with an alignment, their accounting to the calling
  task, and service contracts.
\<close>

section \<open>What the heap leaves alone\<close>

definition keeps :: "'a kheap_globals_scheme \<Rightarrow> 'a kheap_globals_scheme \<Rightarrow> bool" where
  "keeps s s' \<longleftrightarrow> task_at s' = task_at s \<and> thread_at s' = thread_at s \<and> s_current s' = s_current s \<and> kheap_globals.more s' = kheap_globals.more s"

lemma keeps_refl [intro]: "keeps s s"
  by (simp add: keeps_def)

lemma keeps_trans [trans]: "keeps s s' \<Longrightarrow> keeps s' s'' \<Longrightarrow> keeps s s''"
  by (simp add: keeps_def)

lemma keeps_pmm:
  fixes s s' :: "'a kheap_globals_scheme"
  assumes "pmm_globals.more s' = pmm_globals.more s"
  shows "keeps s s'"
  using assms unfolding keeps_def by (cases s; cases s'; simp)

lemma keeps_upd [simp]:
  "keeps s (s'\<lparr>g_freelist := a\<rparr>) = keeps s s'" "keeps s (s'\<lparr>free_next := b\<rparr>) = keeps s s'" "keeps s (s'\<lparr>kheap_hdr_at := c\<rparr>) = keeps s s'"
  "keeps s (s'\<lparr>g_kheap_bucket_refills := d\<rparr>) = keeps s s'" "keeps s (s'\<lparr>g_kheap_small_allocs := d\<rparr>) = keeps s s'" "keeps s (s'\<lparr>g_kheap_small_frees := d\<rparr>) = keeps s s'"
  "keeps s (s'\<lparr>g_kheap_big_alloc_calls := e\<rparr>) = keeps s s'" "keeps s (s'\<lparr>g_kheap_big_free_calls := e\<rparr>) = keeps s s'" "keeps s (s'\<lparr>g_kheap_fail_calls := e\<rparr>) = keeps s s'"
  "keeps s (s'\<lparr>g_kheap_kmalloc_calls := e\<rparr>) = keeps s s'" "keeps s (s'\<lparr>g_kheap_kfree_calls := e\<rparr>) = keeps s s'" "keeps s (s'\<lparr>g_kheap_cur_bytes := e\<rparr>) = keeps s s'"
  "keeps s (s'\<lparr>g_kheap_peak_bytes := e\<rparr>) = keeps s s'"
  "keeps (s\<lparr>g_kheap_kmalloc_calls := e\<rparr>) s' = keeps s s'" "keeps (s\<lparr>g_kheap_kfree_calls := e\<rparr>) s' = keeps s s'"
  "keeps (s\<lparr>g_kheap_bucket_refills := d\<rparr>) s' = keeps s s'"
  by (simp_all add: keeps_def)

lemma keeps_account [simp]: "keeps s (kheap_account_alloc n s') = keeps s s'" "keeps s (kheap_account_free n s') = keeps s s'"
  by (simp_all add: kheap_account_alloc_def kheap_account_free_def Let_def)

lemma kheap_alloc_pages_keeps: "kheap_alloc_pages n out s = Ret (r, s') \<Longrightarrow> keeps s s'"
  unfolding kheap_alloc_pages_def ASSERT_THREAD_CONTEXT_def
  by (auto simp: obind_Ret_iff split: if_splits option.splits dest!: pmm_alloc_pages_frame(1) intro: keeps_pmm)

lemma free_pages_loop_keeps: "free_pages_loop pa i n s = Ret s' \<Longrightarrow> keeps s s'"
proof (induction n arbitrary: i s)
  case (Suc n)
  then obtain s1 where s1: "pmm_free_page (pa + ucast i * PAGE_SIZE) s = Ret s1" "free_pages_loop pa (i + 1) n s1 = Ret s'" by (auto simp: obind_Ret_iff)
  show ?case using keeps_trans [OF keeps_pmm [OF pmm_free_page_more(1) [OF s1(1)]] Suc.IH [OF s1(2)]] .
qed auto

lemma kheap_free_pages_keeps: "kheap_free_pages va n s = Ret s' \<Longrightarrow> keeps s s'"
  unfolding kheap_free_pages_def ASSERT_THREAD_CONTEXT_def Let_def by (auto split: if_splits intro: free_pages_loop_keeps)

lemma pmm_alloc_page_va_keeps:
  assumes "pmm_alloc_page_va s = Ret (r, s')"
  shows "keeps s s'"
proof -
  let ?s = "s\<lparr>g_pmm_alloc_calls := g_pmm_alloc_calls s + 1\<rparr>"
  obtain q s1 where "pmm_alloc_pages 1 LOCAL ?s = Ret (q, s1)" "s' = s1"
    using assms unfolding pmm_alloc_page_va_def pmm_alloc_page_def ASSERT_THREAD_CONTEXT_def
    by (auto simp: obind_Ret_iff Let_def split: if_splits option.splits)
  then show ?thesis using keeps_pmm [of s' s] pmm_alloc_pages_frame(1) by fastforce
qed

lemma refill_bucket_keeps: "refill_bucket b s = Ret s' \<Longrightarrow> keeps s s'"
proof -
  assume r: "refill_bucket b s = Ret s'"
  let ?s = "if b < NUM_BUCKETS then s\<lparr>g_kheap_bucket_refills := (g_kheap_bucket_refills s)[b := g_kheap_bucket_refills s ! b + 1]\<rparr> else s"
  obtain va pa s1 where s1: "pmm_alloc_page_va ?s = Ret ((va, pa), s1)"
    using r unfolding refill_bucket_def Let_def by (auto simp: obind_Ret_iff)
  have k1: "keeps s s1" using pmm_alloc_page_va_keeps [OF s1] by (simp split: if_splits)
  show "keeps s s'" using r s1 k1 unfolding refill_bucket_def Let_def by (auto simp: obind_Ret_iff split: if_splits)
qed

lemma kmalloc_keeps: "kmalloc sz s = Ret (x, s') \<Longrightarrow> keeps s s'"
proof -
  assume m: "kmalloc sz s = Ret (x, s')"
  let ?s = "s\<lparr>g_kheap_kmalloc_calls := g_kheap_kmalloc_calls s + 1\<rparr>"
  have k0: "keeps s ?s" by (simp add: keeps_refl)
  have sm: "keeps ?s s'" if "kmalloc_small b ?s = Ret (x, s')" for b
    using that unfolding kmalloc_small_def Let_def
    by (auto simp: obind_Ret_iff keeps_refl split: if_splits dest!: refill_bucket_keeps intro: keeps_trans)
  have bg: "keeps ?s s'" if "kmalloc_big sz ?s = Ret (x, s')"
    using that unfolding kmalloc_big_def Let_def by (auto simp: obind_Ret_iff split: if_splits dest!: kheap_alloc_pages_keeps intro: keeps_trans)
  show ?thesis
    using m sm bg k0 unfolding kmalloc_def ASSERT_THREAD_CONTEXT_def Let_def
    by (auto split: if_splits option.splits intro: keeps_trans)
qed

lemma kfree_keeps: "kfree p s = Ret s' \<Longrightarrow> keeps s s'"
  unfolding kfree_def ASSERT_THREAD_CONTEXT_def Let_def
  by (auto simp: keeps_refl split: if_splits dest!: kheap_free_pages_keeps intro: keeps_trans [rotated])

lemma keeps_core:
  fixes s s' :: "('d, 'a) core_globals_scheme"
  assumes "keeps s s'"
  shows "core_hdr_at s' = core_hdr_at s" "raw_at s' = raw_at s" "shared s' = shared s" "vhw s' = vhw s" "g_blk s' = g_blk s" "g_contracts s' = g_contracts s"
    "cka_current_task s' = cka_current_task s" "task_at s' = task_at s"
proof -
  have "kheap_globals.more s' = kheap_globals.more s" using assms by (simp add: keeps_def)
  then show "core_hdr_at s' = core_hdr_at s" "raw_at s' = raw_at s" "shared s' = shared s" "vhw s' = vhw s" "g_blk s' = g_blk s" "g_contracts s' = g_contracts s"
    by (cases s; cases s'; simp)+
  show "cka_current_task s' = cka_current_task s" "task_at s' = task_at s"
    using assms by (simp_all add: cka_current_task_def sched_current_def keeps_def Let_def)
qed

text \<open>The heap does not depend on tasks and on the core's own words.\<close>

lemma kheap_inv_cong:
  assumes "kheap_inv s L" "g_pmm s' = g_pmm s" "g_pmm_low_free_pages s' = g_pmm_low_free_pages s" "g_pmm_peak_used_pages s' = g_pmm_peak_used_pages s"
    "g_freelist s' = g_freelist s" "free_next s' = free_next s" "kheap_hdr_at s' = kheap_hdr_at s"
  shows "kheap_inv s' L"
proof -
  obtain OW BG FL where r: "kheap_rep s OW BG FL" "L = kheap_live OW BG FL" using assms(1) by (auto simp: kheap_inv_def)
  have "kheap_rep s' OW BG FL"
    using pmm_ok_cong [OF assms(2-4)] backed_cong [OF assms(2)] kheap_repD(1) [OF r(1)] by (intro kheap_rep_cong [OF r(1)]) (simp_all add: assms(5-7))
  then show ?thesis using r(2) by (auto simp: kheap_inv_def)
qed

lemma core_inv_upd [simp]:
  fixes s :: "('d, 'a) core_globals_scheme"
  shows "kheap_inv (s\<lparr>task_at := a\<rparr>) L = kheap_inv s L" "kheap_inv (s\<lparr>core_hdr_at := b\<rparr>) L = kheap_inv s L" "kheap_inv (s\<lparr>raw_at := c\<rparr>) L = kheap_inv s L"
    "in_irq (s\<lparr>task_at := a\<rparr>) = in_irq s" "in_irq (s\<lparr>core_hdr_at := b\<rparr>) = in_irq s" "in_irq (s\<lparr>raw_at := c\<rparr>) = in_irq s"
  by (auto intro: kheap_inv_cong [rotated] simp: in_irq_def) (erule kheap_inv_cong; simp)+

section \<open>Allocation with a header\<close>

text \<open>The bytes the calling task is charged for.\<close>

definition charged :: "('d, 'a) core_globals_scheme \<Rightarrow> u64" where
  "charged s = tk_mem_bytes_current (task_at s (cka_current_task s))"

lemma live_fits:
  assumes "kheap_inv s L" "(x, l) \<in> L" "0 < l"
  shows "unat x + l < 2 ^ 64"
proof -
  obtain OW BG FL where rep: "kheap_rep s OW BG FL" and L: "L = kheap_live OW BG FL" using assms(1) by (auto simp: kheap_inv_def)
  let ?a = "unat x + l - 1"
  have "unat x \<le> ?a" "?a < unat x + l" using assms(3) by simp_all
  from live_byte [OF rep assms(2) [unfolded L] this] obtain p where p: "page_base p" "unat p = ?a div 4096 * 4096" by blast
  have "?a < ?a div 4096 * 4096 + 4096" using dividend_less_div_times [of 4096 ?a] by simp
  then have "?a < unat p + 4096" using p(2) by simp
  moreover have "unat p + 8192 < 2 ^ 64" using p(1) by (simp add: page_base_def)
  ultimately show ?thesis by linarith
qed

lemma current_task_upd [simp]:
  "cka_current_task (s\<lparr>task_at := a\<rparr>) = cka_current_task s" "cka_current_task (s\<lparr>core_hdr_at := b\<rparr>) = cka_current_task s" "cka_current_task (s\<lparr>raw_at := c\<rparr>) = cka_current_task s"
  by (simp_all add: cka_current_task_def sched_current_def Let_def)

lemma charged_alloc:
  "cka_current_task s = t \<Longrightarrow> charged (put_task t (task_account_mem_alloc (Some (task_at s t)) n) s) = charged s + n"
  "cka_current_task s = t \<Longrightarrow> charged (put_task t (task_account_mem_free (Some (task_at s t)) n) s) = saturating_sub_u64 (charged s) n"
  by (simp_all add: charged_def task_account_mem_alloc_def task_account_mem_free_def Let_def)

lemma allow_mem_task: "task_allow_mem_alloc (Some tk) n = (ok, tk') \<Longrightarrow> tk_mem_bytes_current (the tk') = tk_mem_bytes_current tk"
  by (auto simp: task_allow_mem_alloc_def split: if_splits)

lemma cka_kmalloc_spec:
  fixes s :: "('d, 'a) core_globals_scheme"
  assumes i: "kheap_inv s L" and irq: "\<not> in_irq s" and sz: "unat sz < 2 ^ 42"
  shows "\<exists>p s'. cka_kmalloc sz s = Ret (p, s') \<and> \<not> in_irq s' \<and> cka_current_task s' = cka_current_task s \<and> raw_at s' = raw_at s \<and>
    (if p = NULL then kheap_inv s' L
     else \<exists>x l. p = x + 16 \<and> unat p = unat x + 16 \<and> unat sz + 16 \<le> l \<and> x \<notin> fst ` L \<and> kheap_inv s' (insert (x, l) L) \<and>
       core_hdr_at s' = (core_hdr_at s)(x := \<lparr>ch_magic = CORE_ALLOC_MAGIC, ch_size = sz\<rparr>) \<and> (cka_current_task s \<noteq> NULL \<longrightarrow> charged s' = charged s + sz))"
proof -
  let ?t = "cka_current_task s"
  obtain ok s1 where a: "(if ?t \<noteq> NULL then (case task_allow_mem_alloc (Some (task_at s ?t)) sz of (ok, tk) \<Rightarrow> (ok, put_task ?t tk s)) else (True, s)) = (ok, s1)"
    by fastforce
  have s1: "kheap_inv s1 L" "\<not> in_irq s1" "cka_current_task s1 = ?t" "raw_at s1 = raw_at s" "core_hdr_at s1 = core_hdr_at s" "charged s1 = charged s"
    using a i irq by (auto simp: charged_def split: if_splits prod.splits dest: allow_mem_task)
  have tot: "unat (sz + sizeof_core_alloc_hdr) = unat sz + 16" using sz by (subst unat_add_no_wrap) (simp_all add: sizeof_core_alloc_hdr_def)
  have "unat (sz + sizeof_core_alloc_hdr) < 2 ^ 43" unfolding tot using sz by simp
  from kmalloc_spec [OF s1(1,2) this] obtain x s2 where m: "kmalloc (sz + sizeof_core_alloc_hdr) s1 = Ret (x, s2)" "\<not> in_irq s2"
    "if x = NULL then kheap_inv s2 L else \<exists>l. unat (sz + sizeof_core_alloc_hdr) \<le> l \<and> x \<notin> fst ` L \<and> kheap_inv s2 (insert (x, l) L)" by blast
  note k = keeps_core [OF kmalloc_keeps [OF m(1)]]
  have c2: "charged s2 = charged s1" "cka_current_task s2 = ?t" using k(7,8) s1(3) by (simp_all add: charged_def)
  show ?thesis
  proof (cases "ok \<and> x \<noteq> NULL")
    case False
    then show ?thesis
    proof (cases ok)
      case True
      then have "cka_kmalloc sz s = Ret (NULL, s2)" using False a m(1) unfolding cka_kmalloc_def Let_def by simp
      then show ?thesis using m(2,3) True False c2(2) k(2) s1(4) by (intro exI [of _ NULL] exI [of _ s2]) auto
    next
      case False
      then have "cka_kmalloc sz s = Ret (NULL, s1)" using a unfolding cka_kmalloc_def Let_def by simp
      then show ?thesis using s1 by (intro exI [of _ NULL] exI [of _ s1]) simp
    qed
  next
    case True
    then obtain l where l: "unat sz + 16 \<le> l" "x \<notin> fst ` L" "kheap_inv s2 (insert (x, l) L)" using m(3) tot by auto
    have "unat x + l < 2 ^ 64" using live_fits [OF l(3), of x l] l(1) by simp
    then have ux: "unat (x + 16) = unat x + 16" using l(1) by (subst unat_add_no_wrap) simp_all
    define s3 where "s3 = s2\<lparr>core_hdr_at := (core_hdr_at s2)(x := \<lparr>ch_magic = CORE_ALLOC_MAGIC, ch_size = sz\<rparr>)\<rparr>"
    define s4 where "s4 = (if ?t \<noteq> NULL then put_task ?t (task_account_mem_alloc (Some (task_at s3 ?t)) sz) s3 else s3)"
    have run: "cka_kmalloc sz s = Ret (x + 16, s4)"
      using True a m(1) unfolding cka_kmalloc_def Let_def s4_def s3_def by (simp add: sizeof_core_alloc_hdr_def)
    have "charged s3 = charged s2" "cka_current_task s3 = ?t" using c2 by (simp_all add: s3_def charged_def)
    then have "?t \<noteq> NULL \<longrightarrow> charged s4 = charged s + sz" using charged_alloc(1) [of s3 ?t sz] c2(1) s1(6) by (simp add: s4_def)
    moreover have "kheap_inv s4 (insert (x, l) L)" "\<not> in_irq s4" "cka_current_task s4 = ?t" "raw_at s4 = raw_at s"
      "core_hdr_at s4 = (core_hdr_at s)(x := \<lparr>ch_magic = CORE_ALLOC_MAGIC, ch_size = sz\<rparr>)"
      using l(3) m(2) c2(2) k(1,2) s1(4,5) by (simp_all add: s4_def s3_def)
    moreover have "x + 16 \<noteq> NULL" using ux by auto
    ultimately show ?thesis using run l(1,2) ux by (intro exI [of _ "x + 16"] exI [of _ s4]) auto
  qed
qed

lemma cka_kfree_spec:
  fixes s :: "('d, 'a) core_globals_scheme"
  assumes i: "kheap_inv s L" and irq: "\<not> in_irq s" and x: "(x, l) \<in> L" and h: "core_hdr_at s x = \<lparr>ch_magic = CORE_ALLOC_MAGIC, ch_size = sz\<rparr>" and p: "x + 16 \<noteq> NULL"
  shows "\<exists>s'. cka_kfree (x + 16) s = Ret s' \<and> \<not> in_irq s' \<and> kheap_inv s' (L - {(x, l)}) \<and>
    (cka_current_task s \<noteq> NULL \<longrightarrow> charged s' = saturating_sub_u64 (charged s) sz)"
proof -
  let ?t = "cka_current_task s"
  define s1 where "s1 = (if ?t \<noteq> NULL then put_task ?t (task_account_mem_free (Some (task_at s ?t)) sz) s else s)"
  define s2 where "s2 = s1\<lparr>core_hdr_at := (core_hdr_at s1)(x := (core_hdr_at s1 x)\<lparr>ch_magic := 0\<rparr>)\<rparr>"
  have s2: "kheap_inv s2 L" "\<not> in_irq s2" using i irq by (simp_all add: s2_def s1_def)
  from kfree_spec [OF this x] obtain s' where s': "kfree x s2 = Ret s'" "\<not> in_irq s'" "kheap_inv s' (L - {(x, l)})" by blast
  have run: "cka_kfree (x + 16) s = Ret s'"
    using s'(1) h p by (cases "?t = NULL") (simp_all add: cka_kfree_def Let_def s2_def s1_def sizeof_core_alloc_hdr_def)
  note k = keeps_core [OF kfree_keeps [OF s'(1)]]
  have "charged s' = charged s2" using k(7,8) by (simp add: charged_def)
  also have "\<dots> = charged s1" by (simp add: s2_def charged_def)
  finally have "?t \<noteq> NULL \<longrightarrow> charged s' = saturating_sub_u64 (charged s) sz" using charged_alloc(2) [of s ?t sz] by (simp add: s1_def)
  then show ?thesis using run s'(2,3) by blast
qed

section \<open>Rounding the alignment\<close>

lemma push_bit_pow: "push_bit 1 (2 ^ i :: u64) = 2 ^ Suc i"
  by (simp add: push_bit_eq_mult)

lemma unat_pow2: "k < 64 \<Longrightarrow> unat (2 ^ k :: u64) = 2 ^ k"
proof -
  assume "k < 64"
  then have "(2 :: nat) ^ k < 2 ^ 64" by (intro power_strict_increasing) simp_all
  moreover have "(2 ^ k :: u64) = of_nat (2 ^ k)" by simp
  ultimately show ?thesis by (simp only: unat_of_nat) simp
qed

lemma pow2_loop_result:
  assumes "unat x \<le> 2 ^ 63" "i \<le> k" "k \<le> 63" "unat x \<le> 2 ^ k" "\<And>j. j < k \<Longrightarrow> 2 ^ j < unat x"
  shows "pow2_loop x (2 ^ i) = Some (2 ^ k)"
  using assms(2)
proof (induction "k - i" arbitrary: i)
  case 0
  then have "i = k" by simp
  moreover have "unat (2 ^ k :: u64) = 2 ^ k" using assms(3) by (intro unat_pow2) simp
  ultimately show ?case using assms(4) by (subst pow2_loop.simps) (simp add: word_less_nat_alt)
next
  case (Suc n)
  have ik: "i < k" using Suc.hyps(2) by simp
  have "unat (2 ^ i :: u64) = 2 ^ i" using ik assms(3) by (intro unat_pow2) simp
  then have "2 ^ i < x" using assms(5) [OF ik] by (simp add: word_less_nat_alt)
  moreover have "pow2_loop x (2 ^ Suc i) = Some (2 ^ k)" using Suc.hyps ik by (intro Suc.hyps(1)) simp_all
  ultimately show ?case by (subst pow2_loop.simps) (simp only: push_bit_pow if_True)
qed

text \<open>The least power of two that is not below the request.\<close>

lemma round_up_pow2_size_spec:
  assumes "unat x \<le> 2 ^ 63"
  shows "\<exists>k. k \<le> 63 \<and> round_up_pow2_size x = Ret (2 ^ k) \<and> unat x \<le> 2 ^ k \<and> (\<forall>j<k. 2 ^ j < unat x)"
proof -
  define k where "k = (LEAST k. unat x \<le> 2 ^ k)"
  have k: "unat x \<le> 2 ^ k" unfolding k_def by (rule LeastI [of _ 63]) (rule assms)
  have lt: "2 ^ j < unat x" if "j < k" for j using not_less_Least [of j "\<lambda>k. unat x \<le> 2 ^ k"] that unfolding k_def by simp
  have k63: "k \<le> 63" unfolding k_def by (rule Least_le) (rule assms)
  show ?thesis
  proof (cases "x \<le> 1")
    case True
    then have "unat x \<le> 2 ^ 0" by (simp add: word_le_nat_alt)
    then have "k = 0" unfolding k_def using Least_le [of "\<lambda>k. unat x \<le> 2 ^ k" 0] by simp
    then show ?thesis using True k by (intro exI [of _ 0]) (simp add: round_up_pow2_size_def)
  next
    case False
    then show ?thesis using pow2_loop_result [OF assms, of 0 k] k lt k63 by (intro exI [of _ k]) (simp add: round_up_pow2_size_def)
  qed
qed

text \<open>Above 2^63 the power of two does not exist: the loop reaches zero by shifting and stays there.\<close>

lemma pow2_loop_zero: "x \<noteq> 0 \<Longrightarrow> pow2_loop x 0 = None"
proof -
  have "p = 0 \<longrightarrow> x = 0" if "pow2_loop x p = Some r" for x p r
  proof -
    have "(case (x, p) of (x, p) \<Rightarrow> \<lambda>r. p = 0 \<longrightarrow> x = 0) r"
    proof (rule pow2_loop.raw_induct [where P = "\<lambda>x p r. p = 0 \<longrightarrow> x = 0" and xa = "(x, p)" and y = r])
      fix loop and x p r :: u64
      assume IH: "\<And>x p r. loop x p = Some r \<Longrightarrow> p = 0 \<longrightarrow> x = 0" and step: "(if p < x then loop x (push_bit 1 p) else Some p) = Some r"
      show "p = 0 \<longrightarrow> x = 0"
      proof
        assume "p = 0"
        show "x = 0"
        proof (rule ccontr)
          assume "x \<noteq> 0"
          then have "loop x 0 = Some r" using step \<open>p = 0\<close> by (simp add: word_gt_0)
          then show False using IH \<open>x \<noteq> 0\<close> by blast
        qed
      qed
    qed (simp add: that)
    then show ?thesis by simp
  qed
  then show "x \<noteq> 0 \<Longrightarrow> pow2_loop x 0 = None" by (cases "pow2_loop x 0") auto
qed

lemma pow2_loop_high:
  assumes "2 ^ 63 < unat x" "i \<le> 63"
  shows "pow2_loop x (2 ^ i) = None"
  using assms(2)
proof (induction "63 - i" arbitrary: i)
  case 0
  then have "i = 63" by simp
  moreover have "(2 ^ 63 :: u64) < x" using assms(1) by (simp add: word_less_nat_alt)
  then have "pow2_loop x (2 ^ 63) = pow2_loop x (push_bit 1 (2 ^ 63))" by (subst pow2_loop.simps) (simp only: if_True)
  moreover have "push_bit 1 (2 ^ 63 :: u64) = 0" by code_simp
  moreover have "pow2_loop x 0 = None" using assms(1) by (intro pow2_loop_zero) auto
  ultimately show ?case by (simp only:)
next
  case (Suc n)
  have "unat (2 ^ i :: u64) = 2 ^ i" using Suc.prems by (intro unat_pow2) simp
  moreover have "(2 :: nat) ^ i \<le> 2 ^ 63" using Suc.prems by (intro power_increasing) simp_all
  ultimately have "2 ^ i < x" using assms(1) by (simp add: word_less_nat_alt)
  moreover have "pow2_loop x (2 ^ Suc i) = None" using Suc.hyps by (intro Suc.hyps(1)) simp_all
  ultimately show ?case by (subst pow2_loop.simps) (simp only: push_bit_pow if_True)
qed

text \<open>A request for an alignment above 2^63 never returns.\<close>

theorem cka_malloc_alignment_hangs:
  assumes "2 ^ 63 < unat al"
  shows "cka_malloc sz al s = Hang"
proof -
  have "\<not> al < 8" "\<not> al \<le> 1" using assms by (auto simp: word_less_nat_alt word_le_nat_alt)
  then show ?thesis using pow2_loop_high [OF assms, of 0] by (simp add: cka_malloc_def round_up_pow2_size_def)
qed

theorem cka_malloc_alignment_hangs_witness: "cka_malloc 1 0xFFFFFFFFFFFFFFFF s = Hang"
  by (rule cka_malloc_alignment_hangs) simp

section \<open>Aligned allocation\<close>

lemma align_mask:
  fixes b :: u64
  assumes "k < 64" "unat b + 2 ^ k \<le> 2 ^ 64"
  defines "A \<equiv> 2 ^ k :: u64"
  shows "unat ((b + (A - 1)) AND NOT (A - 1)) = (unat b + (2 ^ k - 1)) div 2 ^ k * 2 ^ k"
    "unat b \<le> unat ((b + (A - 1)) AND NOT (A - 1))" "unat ((b + (A - 1)) AND NOT (A - 1)) \<le> unat b + (2 ^ k - 1)"
proof -
  have m: "A - 1 = mask k" by (simp add: A_def mask_eq_exp_minus_1)
  have uA: "unat (A - 1) = 2 ^ k - 1" using unat_pow2 [OF assms(1)] by (simp add: A_def unat_sub_no_wrap word_le_nat_alt)
  have "unat (b + (A - 1)) = unat b + (2 ^ k - 1)" using assms(2) uA by (subst unat_add_no_wrap) (simp_all del: One_nat_def)
  then show e: "unat ((b + (A - 1)) AND NOT (A - 1)) = (unat b + (2 ^ k - 1)) div 2 ^ k * 2 ^ k" unfolding m by (simp only: unat_and_not_mask)
  have "unat b + (2 ^ k - 1) < (unat b + (2 ^ k - 1)) div 2 ^ k * 2 ^ k + 2 ^ k" using dividend_less_div_times [of "2 ^ k" "unat b + (2 ^ k - 1)"] by simp
  then show "unat b \<le> unat ((b + (A - 1)) AND NOT (A - 1))" unfolding e by linarith
  show "unat ((b + (A - 1)) AND NOT (A - 1)) \<le> unat b + (2 ^ k - 1)" unfolding e by (rule div_times_less_eq_dividend)
qed

text \<open>What an aligned allocation is given: its own live block with room for the bytes asked for, and the words to free it by.\<close>

definition core_block :: "('d, 'a) core_globals_scheme \<Rightarrow> ptr \<Rightarrow> ptr \<Rightarrow> nat \<Rightarrow> u64 \<Rightarrow> bool" where
  "core_block s p x l n \<longleftrightarrow> raw_at s (p - 8) = x + 16 \<and> x + 16 \<noteq> NULL \<and> unat x + 24 \<le> unat p \<and> unat (x + 16) = unat x + 16 \<and>
     core_hdr_at s x = \<lparr>ch_magic = CORE_ALLOC_MAGIC, ch_size = n\<rparr>"

lemma cka_malloc_spec:
  fixes s :: "('d, 'a) core_globals_scheme"
  assumes i: "kheap_inv s L" and irq: "\<not> in_irq s" and sz: "unat sz < 2 ^ 41" and al: "unat al \<le> 2 ^ 40"
  shows "\<exists>p s' k. cka_malloc sz al s = Ret (p, s') \<and> \<not> in_irq s' \<and> cka_current_task s' = cka_current_task s \<and>
    unat al \<le> 2 ^ k \<and> (\<forall>j<k. 2 ^ j < max 8 (unat al)) \<and> unat (sz + (2 ^ k - 1 + 8)) < 2 ^ 42 \<and>
    (if p = NULL then kheap_inv s' L
     else \<exists>x l. x \<notin> fst ` L \<and> kheap_inv s' (insert (x, l) L) \<and> core_block s' p x l (sz + (2 ^ k - 1 + 8)) \<and>
       2 ^ k dvd unat p \<and> unat p + unat sz \<le> unat x + l \<and>
       (cka_current_task s \<noteq> NULL \<longrightarrow> charged s' = charged s + (sz + (2 ^ k - 1 + 8))))"
proof -
  let ?al = "if al < 8 then 8 else al"
  have ua: "unat ?al = max 8 (unat al)" by (simp add: word_less_nat_alt)
  have "unat ?al \<le> 2 ^ 63" unfolding ua using al by simp
  then obtain k where k: "round_up_pow2_size ?al = Ret (2 ^ k)" "max 8 (unat al) \<le> 2 ^ k" "\<forall>j<k. 2 ^ j < max 8 (unat al)"
    using round_up_pow2_size_spec [of ?al] unfolding ua by blast
  have k40: "k \<le> 40"
  proof (rule ccontr)
    assume "\<not> k \<le> 40"
    then have "(2 :: nat) ^ 40 < max 8 (unat al)" using k(3) [rule_format, of 40] by simp
    then show False using al by simp
  qed
  have pk: "(2 :: nat) ^ k \<le> 2 ^ 40" using k40 by (intro power_increasing) simp_all
  have p0: "0 < (2 :: nat) ^ k" by simp
  let ?ex = "(2 ^ k - 1) + 8 :: u64"
  have ue: "unat ?ex = 2 ^ k - 1 + 8"
  proof -
    have "unat (2 ^ k - 1 :: u64) = 2 ^ k - 1" using unat_pow2 [of k] k40 by (simp add: unat_sub_no_wrap word_le_nat_alt)
    then show ?thesis using pk by (subst unat_add_no_wrap) simp_all
  qed
  have us: "unat (sz + ?ex) = unat sz + (2 ^ k - 1 + 8)" using sz pk ue by (subst unat_add_no_wrap) simp_all
  have us42: "unat (sz + ?ex) < 2 ^ 42" unfolding us using sz pk by simp
  from cka_kmalloc_spec [OF i irq us42] obtain raw s1 where m: "cka_kmalloc (sz + ?ex) s = Ret (raw, s1)" "\<not> in_irq s1"
    "cka_current_task s1 = cka_current_task s" "raw_at s1 = raw_at s"
    "if raw = NULL then kheap_inv s1 L
     else \<exists>x l. raw = x + 16 \<and> unat raw = unat x + 16 \<and> unat (sz + ?ex) + 16 \<le> l \<and> x \<notin> fst ` L \<and> kheap_inv s1 (insert (x, l) L) \<and>
       core_hdr_at s1 = (core_hdr_at s)(x := \<lparr>ch_magic = CORE_ALLOC_MAGIC, ch_size = sz + ?ex\<rparr>) \<and> (cka_current_task s \<noteq> NULL \<longrightarrow> charged s1 = charged s + (sz + ?ex))"
    by blast
  show ?thesis
  proof (cases "raw = NULL")
    case True
    then have "cka_malloc sz al s = Ret (NULL, s1)" using k(1) m(1) by (simp add: cka_malloc_def Let_def)
    then show ?thesis using m(2,3,5) k(2,3) us42 True by (intro exI [of _ NULL] exI [of _ s1] exI [of _ k]) simp
  next
    case False
    then obtain x l where x: "raw = x + 16" "unat raw = unat x + 16" "unat (sz + ?ex) + 16 \<le> l" "x \<notin> fst ` L" "kheap_inv s1 (insert (x, l) L)"
      "core_hdr_at s1 = (core_hdr_at s)(x := \<lparr>ch_magic = CORE_ALLOC_MAGIC, ch_size = sz + ?ex\<rparr>)" "cka_current_task s \<noteq> NULL \<longrightarrow> charged s1 = charged s + (sz + ?ex)"
      using m(5) by auto
    have fits: "unat x + l < 2 ^ 64" using live_fits [OF x(5), of x l] x(3) by simp
    have r8: "unat raw + 8 < 2 ^ 64" using fits x(2,3) us p0 by linarith
    then have ub: "unat (raw + 8) = unat x + 24" using x(2) by (subst unat_add_no_wrap) simp_all
    let ?p = "((raw + 8) + (2 ^ k - 1)) AND NOT (2 ^ k - 1) :: u64"
    have "unat (raw + 8) + 2 ^ k \<le> 2 ^ 64" using fits x(3) ub us p0 by linarith
    note a = align_mask [OF _ this]
    have p: "2 ^ k dvd unat ?p" "unat x + 24 \<le> unat ?p" "unat ?p \<le> unat x + 24 + (2 ^ k - 1)" using a k40 ub by simp_all
    let ?s' = "s1\<lparr>raw_at := (raw_at s1)(?p - 8 := raw)\<rparr>"
    have "cka_malloc sz al s = Ret (?p, ?s')" using k(1) m(1) False by (simp add: cka_malloc_def Let_def)
    moreover have "?p \<noteq> NULL" using p(2) by auto
    moreover have "unat ?p + unat sz \<le> unat x + l" using p(3) x(3) us p0 by linarith
    moreover have "core_block ?s' ?p x l (sz + ?ex)" using p(2) x(1,2,6) False by (simp add: core_block_def)
    moreover have "charged ?s' = charged s1" by (simp add: charged_def)
    ultimately show ?thesis using m(2,3) k(2,3) us42 x(4,5,7) p(1)
      by (intro exI [of _ ?p] exI [of _ ?s'] exI [of _ k]) (auto intro!: exI [of _ x] exI [of _ l])
  qed
qed

section \<open>Properties\<close>

text \<open>
  aligned allocation for the core. A request of less than 2^41 bytes with an alignment of up to 2^40
  returns NULL and leaves the heap as it was, or an address that is a multiple of the alignment's next power
  of two, with the requested bytes inside a block of the heap that nobody else has and behind the words the
  service keeps there. Freeing it gives exactly that block back, and the calling task is charged as before.
\<close>

theorem cka_malloc_free:
  fixes s :: "('d, 'a) core_globals_scheme"
  assumes i: "kheap_inv s L" and irq: "\<not> in_irq s" and sz: "unat sz < 2 ^ 41" and al: "unat al \<le> 2 ^ 40" and charge: "unat (charged s) < 2 ^ 63"
  shows "\<exists>p s'. cka_malloc sz al s = Ret (p, s') \<and>
    (if p = NULL then kheap_inv s' L
     else (\<exists>k x l. unat al \<le> 2 ^ k \<and> 2 ^ k dvd unat p \<and> x \<notin> fst ` L \<and> kheap_inv s' (insert (x, l) L) \<and>
             unat x + 24 \<le> unat p \<and> unat p + unat sz \<le> unat x + l) \<and>
          (\<exists>s''. cka_free p s' = Ret s'' \<and> kheap_inv s'' L \<and> (cka_current_task s \<noteq> NULL \<longrightarrow> charged s'' = charged s)))"
proof -
  obtain p s' k where r: "cka_malloc sz al s = Ret (p, s')" "\<not> in_irq s'" "cka_current_task s' = cka_current_task s" "unat al \<le> 2 ^ k"
    "\<forall>j<k. 2 ^ j < max 8 (unat al)" "unat (sz + (2 ^ k - 1 + 8)) < 2 ^ 42"
    "if p = NULL then kheap_inv s' L
     else \<exists>x l. x \<notin> fst ` L \<and> kheap_inv s' (insert (x, l) L) \<and> core_block s' p x l (sz + (2 ^ k - 1 + 8)) \<and>
       2 ^ k dvd unat p \<and> unat p + unat sz \<le> unat x + l \<and> (cka_current_task s \<noteq> NULL \<longrightarrow> charged s' = charged s + (sz + (2 ^ k - 1 + 8)))"
    using cka_malloc_spec [OF i irq sz al] by blast
  show ?thesis
  proof (cases "p = NULL")
    case True
    then show ?thesis using r(1,7) by auto
  next
    case False
    let ?n = "sz + (2 ^ k - 1 + 8) :: u64"
    obtain x l where x: "x \<notin> fst ` L" "kheap_inv s' (insert (x, l) L)" "core_block s' p x l ?n" "2 ^ k dvd unat p" "unat p + unat sz \<le> unat x + l"
      "cka_current_task s \<noteq> NULL \<longrightarrow> charged s' = charged s + ?n" using r(7) False by auto
    have b: "raw_at s' (p - 8) = x + 16" "x + 16 \<noteq> NULL" "core_hdr_at s' x = \<lparr>ch_magic = CORE_ALLOC_MAGIC, ch_size = ?n\<rparr>" "unat x + 24 \<le> unat p"
      using x(3) by (simp_all add: core_block_def)
    obtain s'' where f: "cka_kfree (x + 16) s' = Ret s''" "kheap_inv s'' (insert (x, l) L - {(x, l)})"
      "cka_current_task s' \<noteq> NULL \<longrightarrow> charged s'' = saturating_sub_u64 (charged s') ?n"
      using cka_kfree_spec [OF x(2) r(2) _ b(3,2)] by blast
    have "insert (x, l) L - {(x, l)} = L" using x(1) by force
    moreover have "saturating_sub_u64 (charged s + ?n) ?n = charged s"
    proof -
      have "unat ?n < 2 ^ 63" using r(6) by simp
      then have "unat (charged s + ?n) = unat (charged s) + unat ?n" using charge by (intro unat_add_no_wrap) simp
      then show ?thesis by (auto simp: saturating_sub_u64_def word_less_nat_alt word_unat_eq_iff)
    qed
    moreover have "cka_free p s' = Ret s''" using f(1) b(1) False by (simp add: cka_free_def)
    ultimately have "\<exists>s''. cka_free p s' = Ret s'' \<and> kheap_inv s'' L \<and> (cka_current_task s \<noteq> NULL \<longrightarrow> charged s'' = charged s)"
      using r(3) x(6) f(2,3) by (intro exI [of _ s'']) simp
    moreover have "\<exists>k x l. unat al \<le> 2 ^ k \<and> 2 ^ k dvd unat p \<and> x \<notin> fst ` L \<and> kheap_inv s' (insert (x, l) L) \<and>
        unat x + 24 \<le> unat p \<and> unat p + unat sz \<le> unat x + l" using r(4) x(1,2,4,5) b(4) by blast
    ultimately show ?thesis using r(1) False by (intro exI [of _ p] exI [of _ s']) simp
  qed
qed

definition example_core :: "(vdev \<times> bool) core_globals" where
  "example_core = virtio_globals.extend example_virtio
     \<lparr>g_core_caps = NULL, g_kernel_log_ep = CAP_HANDLE_INVALID, g_contracts = replicate 64 \<lparr>kc_rights = 0, kc_policy = 0, kc_in_use = 0\<rparr>,
      core_hdr_at = (\<lambda>_. \<lparr>ch_magic = 0, ch_size = 0\<rparr>), raw_at = (\<lambda>_. NULL), uart_out = []\<rparr>"

lemma example_core_facts: "kheap_inv (example_core\<lparr>task_at := a\<rparr>) {}" "\<not> in_irq (example_core\<lparr>task_at := a\<rparr>)"
proof -
  show "kheap_inv (example_core\<lparr>task_at := a\<rparr>) {}" unfolding core_inv_upd
    by (rule kheap_inv_cong [OF example_kheap_facts(1)]) (simp_all add: example_core_def example_virtio_def kheap_globals.defs virtio_globals.defs)
  show "\<not> in_irq (example_core\<lparr>task_at := a\<rparr>)" unfolding core_inv_upd
    using example_kheap_facts(2) by (simp add: example_core_def example_virtio_def kheap_globals.defs virtio_globals.defs in_irq_def)
qed

theorem cka_malloc_free_witness:
  "\<exists>p s'. cka_malloc 100 64 (example_core\<lparr>task_at := (\<lambda>_. the (task_init (Some undefined) NULL))\<rparr>) = Ret (p, s') \<and>
     (p \<noteq> NULL \<longrightarrow> 64 dvd unat p)"
proof -
  let ?s = "example_core\<lparr>task_at := (\<lambda>_. the (task_init (Some undefined) NULL))\<rparr>"
  have "unat (100 :: u64) < 2 ^ 41" "unat (64 :: u64) \<le> 2 ^ 40" "unat (charged ?s) < 2 ^ 63" by (simp_all add: charged_def task_init_def)
  from cka_malloc_free [OF example_core_facts this] obtain p s' where r: "cka_malloc 100 64 ?s = Ret (p, s')"
    "p \<noteq> NULL \<longrightarrow> (\<exists>k. unat (64 :: u64) \<le> 2 ^ k \<and> 2 ^ k dvd unat p)" by (metis (no_types, lifting))
  have "64 dvd unat p" if "p \<noteq> NULL"
  proof -
    obtain k where k: "(64 :: nat) \<le> 2 ^ k" "2 ^ k dvd unat p" using r(2) \<open>p \<noteq> NULL\<close> by auto
    have "6 \<le> k"
    proof (rule ccontr)
      assume "\<not> 6 \<le> k"
      then have "(2 :: nat) ^ k \<le> 2 ^ 5" by (intro power_increasing) simp_all
      then show False using k(1) by simp
    qed
    then have "(2 :: nat) ^ 6 dvd 2 ^ k" by (rule le_imp_power_dvd)
    then show ?thesis using k(2) dvd_trans by fastforce
  qed
  then show ?thesis using r(1) by blast
qed

text \<open>The size of a request and of its header are added without a check: a request of 2^64 - 1 bytes gets no bytes at all.\<close>

theorem cka_kmalloc_wraps:
  fixes s :: "('d, 'a) core_globals_scheme"
  assumes i: "kheap_inv s L" and irq: "\<not> in_irq s" and t: "cka_current_task s = NULL"
  shows "\<exists>p s'. cka_kmalloc 0xFFFFFFFFFFFFFFFF s = Ret (p, s') \<and> (p \<noteq> NULL \<longrightarrow> (\<exists>x. p = x + 16 \<and> kheap_inv s' (insert (x, 16) L)))"
proof -
  have tot: "(0xFFFFFFFFFFFFFFFF :: u64) + sizeof_core_alloc_hdr = 15" by (simp add: sizeof_core_alloc_hdr_def)
  let ?s = "s\<lparr>g_kheap_kmalloc_calls := g_kheap_kmalloc_calls s + 1\<rparr>"
  have b: "bucket_for_size 15 = Some 0" by (simp add: bucket_for_size_def g_bucket_sizes_def)
  have "kheap_inv ?s L" using i by (simp add: kheap_inv_def)
  moreover have "\<not> in_irq ?s" using irq by (simp add: in_irq_def)
  ultimately obtain x s1 where m: "kmalloc_small 0 ?s = Ret (x, s1)" "x \<noteq> NULL \<longrightarrow> kheap_inv s1 (insert (x, bsz 0) L)"
    using kmalloc_small_spec [of ?s L 0] by (metis zero_less_numeral)
  have "kmalloc 15 s = Ret (x, s1)" using m(1) b irq by (simp add: kmalloc_def Let_def)
  then show ?thesis using m(2) t unfolding cka_kmalloc_def Let_def tot
    by (cases "x = NULL") (auto simp: sizeof_core_alloc_hdr_def bsz_def)
qed

theorem cka_kmalloc_wraps_witness:
  "\<exists>p s'. cka_kmalloc 0xFFFFFFFFFFFFFFFF (example_core\<lparr>s_current := NULL\<rparr>) = Ret (p, s') \<and> (p \<noteq> NULL \<longrightarrow> (\<exists>x. p = x + 16 \<and> kheap_inv s' {(x, 16)}))"
proof -
  let ?s = "example_core\<lparr>s_current := NULL\<rparr>"
  have "kheap_inv ?s {}"
    by (rule kheap_inv_cong [OF example_kheap_facts(1)]) (simp_all add: example_core_def example_virtio_def kheap_globals.defs virtio_globals.defs)
  moreover have "\<not> in_irq ?s" using example_kheap_facts(2) by (simp add: example_core_def example_virtio_def kheap_globals.defs virtio_globals.defs in_irq_def)
  moreover have "cka_current_task ?s = NULL" by (simp add: cka_current_task_def sched_current_def)
  ultimately show ?thesis by (rule cka_kmalloc_wraps)
qed

section \<open>Contracts\<close>

lemma free_contract_Some:
  "free_contract i es = Some j \<Longrightarrow> i \<le> j \<and> j < i + length es \<and> kc_in_use (es ! (j - i)) = 0 \<and> (\<forall>m<j - i. kc_in_use (es ! m) \<noteq> 0)"
proof (induction es arbitrary: i)
  case (Cons e es)
  show ?case
  proof (cases "kc_in_use e = 0")
    case False
    then have r: "Suc i \<le> j" "j < Suc i + length es" "kc_in_use (es ! (j - Suc i)) = 0" "\<forall>m<j - Suc i. kc_in_use (es ! m) \<noteq> 0"
      using Cons.IH [of "Suc i"] Cons.prems by simp_all
    have d: "j - i = Suc (j - Suc i)" using r(1) by simp
    have "kc_in_use ((e # es) ! m) \<noteq> 0" if "m < j - i" for m using that r(4) False d by (cases m) auto
    then show ?thesis using r d by simp
  qed (use Cons.prems in auto)
qed simp

lemma free_contract_None: "free_contract i es = None \<longleftrightarrow> (\<forall>e\<in>set es. kc_in_use e \<noteq> 0)"
  by (induction es arbitrary: i) auto

text \<open>
  service contracts. An opened contract is found under its handle with its rights and its policy; the
  handle was not valid before, and all other handles read as before. Opening fails only for a wrong
  kind or a NULL result pointer, or when all 64 entries are in use.
\<close>

theorem cka_contract_open_get:
  assumes len: "length (g_contracts s) = 64" and ptrs: "r \<noteq> NULL" "p \<noteq> NULL"
  shows "case cka_contract_open kind rights policy out s of
      ((st, Some h), s') \<Rightarrow> st = KS_STATUS_OK \<and> length (g_contracts s') = 64 \<and> cka_contract_get h r p s = (KS_STATUS_INVALID_ARG, None) \<and>
        cka_contract_get h r p s' = (KS_STATUS_OK, Some (rights, policy)) \<and> (\<forall>h'. h' \<noteq> h \<longrightarrow> cka_contract_get h' r p s' = cka_contract_get h' r p s)
    | ((st, None), s') \<Rightarrow> s' = s \<and> (out = NULL \<or> kind \<noteq> KS_CONTRACT_FAT32 \<or> (\<forall>e\<in>set (g_contracts s). kc_in_use e \<noteq> 0))"
proof (cases "out = NULL \<or> kind \<noteq> KS_CONTRACT_FAT32")
  case True
  then show ?thesis by (auto simp: cka_contract_open_def)
next
  case False
  show ?thesis
  proof (cases "free_contract 0 (g_contracts s)")
    case None
    then show ?thesis using False free_contract_None [of 0 "g_contracts s"] by (simp add: cka_contract_open_def)
  next
    case (Some i)
    have i: "i < 64" "kc_in_use (g_contracts s ! i) = 0" using free_contract_Some [OF Some] len by simp_all
    let ?h = "of_nat (i + 1) :: u64"
    have uh: "unat ?h = i + 1" using i(1) by (simp only: unat_of_nat) simp
    have "unat (of_nat i :: u64) = i" using i(1) by (simp only: unat_of_nat) simp
    then have h: "?h \<noteq> 0" "unat (?h - 1) = i" using uh by (simp_all add: unat_eq_zero [symmetric])
    have lt: "\<not> 64 \<le> ?h - 1" using h(2) i(1) by (simp add: word_le_nat_alt)
    have other: "unat (h' - 1) \<noteq> i" if "h' \<noteq> ?h" for h' :: u64
    proof
      assume "unat (h' - 1) = i"
      then have "h' - 1 = ?h - 1" using h(2) by (simp add: word_unat_eq_iff)
      then have "h' = ?h" by (simp only: diff_left_imp_eq right_minus_eq diff_eq_eq diff_add_cancel)
      then show False using that by blast
    qed
    show ?thesis using False Some h lt i ptrs len other
      by (auto simp: cka_contract_open_def cka_contract_get_def Let_def nth_list_update simp del: of_nat_Suc of_nat_add)
  qed
qed

theorem cka_contract_open_get_witness:
  "\<exists>s'. cka_contract_open 1 7 9 LOCAL example_core = ((KS_STATUS_OK, Some 1), s') \<and> cka_contract_get 1 LOCAL LOCAL s' = (KS_STATUS_OK, Some (7, 9))"
proof -
  have g: "g_contracts example_core = replicate 64 \<lparr>kc_rights = 0, kc_policy = 0, kc_in_use = 0\<rparr>" by (simp add: example_core_def virtio_globals.defs)
  then have f: "free_contract 0 (g_contracts example_core) = Some 0" by (simp add: numeral_eq_Suc)
  have "length (g_contracts example_core) = 64" using g by simp
  from cka_contract_open_get [OF this, where r = LOCAL and p = LOCAL and kind = 1 and rights = 7 and policy = 9 and out = LOCAL] show ?thesis
    by (simp add: cka_contract_open_def KS_CONTRACT_FAT32_def f)
qed

text \<open>
  \<open>cka_cap_create\<close> returns the status of the capability table as it is: a full table and lack of memory are reported by
  the numbers of other conditions, unlike in \<open>cka_cap_release\<close>.
\<close>

lemma cap_create_status_numbers:
  "cap_status_value CAP_ERR_NO_SLOTS = ks_status_value KS_STATUS_INVALID_STATE" "cap_status_value CAP_ERR_NO_MEM = ks_status_value KS_STATUS_NO_SPACE"
  "ks_from_cap_status CAP_ERR_NO_SLOTS = KS_STATUS_OUT_OF_MEMORY"
  by simp_all

end
