(* ===== verification/Core_Bounce.thy ===== *)
theory Core_Bounce
  imports Core_Mem
begin

unbundle bit_operations_syntax

text \<open>
  One round of block I/O of the core API (\<open>cka_block_read_intent\<close> and \<open>cka_block_write_intent\<close>): bounce pages from
  the page allocator, a request to the device, a copy between the bounce pages and the caller's buffer, and the
  pages given back.
\<close>

section \<open>Bounce pages\<close>

lemma io_pages_value:
  assumes "unat chunk * 512 < 2 ^ 32" "chunk \<noteq> 0"
  shows "unat (io_pages chunk 512) = (unat chunk * 512 + 4095) div 4096" "io_pages chunk 512 \<noteq> 0" "unat chunk * 512 \<le> unat (io_pages chunk 512) * 4096"
    "unat (io_pages chunk 512) \<le> 2 ^ 32"
proof -
  have c: "unat (ucast chunk * ucast (512 :: u32) :: u64) = unat chunk * 512"
    using assms(1) unat_less_two_power [of chunk] by (simp add: unat_word_ariths unsigned_ucast_eq take_bit_nat_eq_self)
  then have "unat ((ucast chunk * ucast (512 :: u32) + 0xFFF) div (0x1000 :: u64)) = (unat chunk * 512 + 4095) div 4096"
    using assms(1) by (simp add: unat_div unat_word_ariths)
  moreover have l: "(unat chunk * 512 + 4095) div 4096 < 2 ^ 32" using assms(1) by simp
  ultimately show u: "unat (io_pages chunk 512) = (unat chunk * 512 + 4095) div 4096"
    unfolding io_pages_def unsigned_ucast_eq by (simp add: take_bit_nat_eq_self)
  then show "unat (io_pages chunk 512) \<le> 2 ^ 32" using l by simp
  have "0 < unat chunk" using assms(2) by (simp add: unat_gt_0)
  then have "0 < (unat chunk * 512 + 4095) div 4096" by (simp add: div_greater_zero_iff)
  then show "io_pages chunk 512 \<noteq> 0" using u by auto
  have "unat chunk * 512 + 4095 < (unat chunk * 512 + 4095) div 4096 * 4096 + 4096" using dividend_less_div_times [of 4096 "unat chunk * 512 + 4095"] by simp
  then show "unat chunk * 512 \<le> unat (io_pages chunk 512) * 4096" unfolding u by linarith
qed

text \<open>The state a transfer does not touch.\<close>

definition io_rest :: "('d, 'a) core_globals_scheme \<Rightarrow> (ptr \<Rightarrow> task) \<times> (ptr \<Rightarrow> thread) \<times> ptr \<times> u64" where
  "io_rest s = (task_at s, thread_at s, s_current s, s_sched_ticks s)"

lemma more_core:
  fixes s s' :: "('d, 'a) core_globals_scheme"
  assumes "pmm_globals.more s' = pmm_globals.more s"
  shows "io_rest s' = io_rest s" "vhw s' = vhw s" "shared s' = shared s" "g_blk s' = g_blk s"
  using assms unfolding io_rest_def by (cases s; cases s'; simp)+

text \<open>A run of pages of the allocator is one range of addresses, below 2 GiB and above the base of the direct map.\<close>

lemma run_unat:
  assumes "\<And>q. q \<in> page_run pa n \<Longrightarrow> unat q + 4096 \<le> 0x80000000" "k < n"
  shows "unat (pa + of_nat k * PAGE_SIZE) = unat pa + k * 4096"
  using assms(2)
proof (induction k)
  case (Suc k)
  have e: "pa + of_nat (Suc k) * PAGE_SIZE = (pa + of_nat k * PAGE_SIZE) + PAGE_SIZE" by (simp add: algebra_simps)
  have "pa + of_nat k * PAGE_SIZE \<in> page_run pa n" using Suc.prems by (auto simp: page_run_def)
  then have "unat (pa + of_nat k * PAGE_SIZE) + 4096 \<le> 0x80000000" by (rule assms(1))
  then show ?case unfolding e using Suc by (subst unat_add_no_wrap) simp_all
qed simp

lemma tr_unat: "unat pa + 4096 \<le> 0x80000000 \<Longrightarrow> unat (pmm_phys_to_virt pa) = 0xFFFF800000000000 + unat pa"
proof -
  assume "unat pa + 4096 \<le> 0x80000000"
  moreover have "pmm_phys_to_virt pa = 0xFFFF800000000000 + pa" by (simp add: pmm_phys_to_virt_def kaddr_config)
  ultimately show ?thesis by (simp add: unat_add_no_wrap)
qed

lemma run_range:
  assumes run: "\<And>q. q \<in> page_run pa n \<Longrightarrow> CAPAZ_RAM_BASE \<le> q \<and> unat q + 4096 \<le> 0x80000000" and n: "0 < n" "m \<le> n * 4096"
  defines "va \<equiv> pmm_phys_to_virt pa"
  shows "unat va + m < 2 ^ 64" "CAPAZ_HH_RAM_BASE \<le> va" "span va m a \<Longrightarrow> \<exists>q\<in>page_run pa n. span (pmm_phys_to_virt q) 4096 a"
proof -
  have u: "unat (pa + of_nat k * PAGE_SIZE) = unat pa + k * 4096" if "k < n" for k using run_unat [of pa n k] run that by blast
  have in_run: "pa + of_nat k * PAGE_SIZE \<in> page_run pa n" if "k < n" for k using that by (auto simp: page_run_def)
  have p0: "CAPAZ_RAM_BASE \<le> pa" "unat pa + 4096 \<le> 0x80000000" using run [OF in_run [of 0]] n(1) by simp_all
  have uv: "unat va = 0xFFFF800000000000 + unat pa" unfolding va_def by (rule tr_unat [OF p0(2)])
  have "unat pa + (n - 1) * 4096 + 4096 \<le> 0x80000000" using run [OF in_run [of "n - 1"]] u [of "n - 1"] n(1) by simp
  then have top: "unat pa + n * 4096 \<le> 0x80000000" using n(1) by (cases n) simp_all
  then show nw: "unat va + m < 2 ^ 64" using uv n(2) by simp
  show "CAPAZ_HH_RAM_BASE \<le> va" using p0(1) uv by (simp add: word_le_nat_alt kaddr_config)
  assume "span va m a"
  then have a: "unat va \<le> unat a" "unat a < unat va + m" using span_iff_interval [of va m a] nw by simp_all
  define k where "k = (unat a - unat va) div 4096"
  have d: "k * 4096 \<le> unat a - unat va" "unat a - unat va < k * 4096 + 4096"
    unfolding k_def using dividend_less_div_times [of 4096 "unat a - unat va"] by (simp_all add: div_times_less_eq_dividend)
  have kn: "k < n" using a n(2) d(1) by (intro mult_less_cancel2 [of k 4096 n, THEN iffD1, THEN conjunct2]) linarith
  let ?q = "pa + of_nat k * PAGE_SIZE"
  have "unat (pmm_phys_to_virt ?q) = unat va + k * 4096" using tr_unat [of ?q] run [OF in_run [OF kn]] u [OF kn] uv by simp
  moreover have "unat va + k * 4096 + 4096 \<le> 2 ^ 64" using uv top kn by simp
  moreover have "unat va + k * 4096 \<le> unat a" "unat a < unat va + k * 4096 + 4096" using a(1) d by linarith+
  ultimately have "span (pmm_phys_to_virt ?q) 4096 a" using span_iff_interval [of "pmm_phys_to_virt ?q" 4096 a] by simp
  then show "\<exists>q\<in>page_run pa n. span (pmm_phys_to_virt q) 4096 a" using in_run [OF kn] by blast
qed

lemma bounce_alloc:
  fixes s :: "('d, 'a) core_globals_scheme"
  assumes irq: "\<not> in_irq s" and ok: "pmm_ok s" and n: "n \<noteq> 0"
  shows "\<exists>va r s1. kheap_alloc_pages n LOCAL s = Ret ((va, r), s1) \<and> \<not> in_irq s1 \<and> pmm_ok s1 \<and> io_rest s1 = io_rest s \<and> vhw s1 = vhw s \<and>
    shared s1 = shared s \<and> g_blk s1 = g_blk s \<and>
    (if va = NULL then free_pas s1 = free_pas s \<and> (n = 1 \<longrightarrow> free_pas s = {})
     else \<exists>pa. va = pmm_phys_to_virt pa \<and> page_run pa (unat n) \<subseteq> free_pas s \<and> free_pas s1 = free_pas s - page_run pa (unat n) \<and> managed_pas s1 = managed_pas s)"
proof -
  obtain r s1 where r: "pmm_alloc_pages n LOCAL s = Ret (r, s1)" using pmm_alloc_pages_returns [OF irq] by blast
  note f = pmm_alloc_pages_frame [OF r] and m = more_core [OF pmm_alloc_pages_frame(1) [OF r]]
  have irq1: "\<not> in_irq s1" using irq f(2) by (simp add: in_irq_def)
  show ?thesis
  proof (cases r)
    case None
    let ?s = "s1\<lparr>g_kheap_fail_calls := g_kheap_fail_calls s1 + 1\<rparr>"
    have k: "pmm_ok s1" "free_pas s1 = free_pas s" using pmm_ok_alloc_None [OF ok] r None by blast+
    then have "pmm_ok ?s" by (subst pmm_ok_cong [of ?s s1]) simp_all
    moreover have "free_pas ?s = free_pas s" "io_rest ?s = io_rest s" using k(2) m(1) by (simp_all add: free_pas_def io_rest_def)
    moreover have "free_pas s = {}" if "n = 1" using pmm_alloc_one [OF ok irq] r None that by auto
    ultimately show ?thesis using r None irq irq1 m n by (auto simp add: kheap_alloc_pages_def in_irq_def)
  next
    case (Some pa)
    note k = pmm_ok_alloc_Some [OF ok r [unfolded Some]]
    have "0 < unat n" using n by (simp add: unat_gt_0)
    then have "pa \<in> page_run pa (unat n)" by (auto simp: page_run_def intro: image_eqI [of _ _ 0])
    then have "pa \<in> managed_pas s" using k(2) free_pas_managed [OF ok] by blast
    then have "unat (pmm_phys_to_virt pa) = 0xFFFF800000000000 + unat pa" using managed_page [OF ok] by (intro tr_unat) simp
    then have "pmm_phys_to_virt pa \<noteq> NULL" by auto
    then show ?thesis using r Some irq irq1 m n k by (simp add: kheap_alloc_pages_def) blast
  qed
qed

lemma bounce_free:
  fixes s :: "('d, 'a) core_globals_scheme"
  assumes irq: "\<not> in_irq s" and ok: "pmm_ok s" and n: "n \<noteq> 0" and run: "page_run pa (unat n) \<subseteq> managed_pas s"
  shows "\<exists>s1. kheap_free_pages (pmm_phys_to_virt pa) n s = Ret s1 \<and> \<not> in_irq s1 \<and> pmm_ok s1 \<and> io_rest s1 = io_rest s \<and> vhw s1 = vhw s \<and>
    shared s1 = shared s \<and> g_blk s1 = g_blk s \<and> free_pas s1 = free_pas s \<union> page_run pa (unat n) \<and> managed_pas s1 = managed_pas s"
proof -
  have n32: "unat n \<le> 2 ^ 32" using unat_less_two_power [of n] by simp
  have "0 < unat n" using n by (simp add: unat_gt_0)
  then have "pa \<in> page_run pa (unat n)" by (auto simp: page_run_def intro: image_eqI [of _ _ 0])
  then have m: "CAPAZ_RAM_BASE \<le> pa" "unat pa + 4096 \<le> 0x80000000" "4096 dvd unat pa" using run managed_page [OF ok] by blast+
  have pv: "align_down_4k (pmm_virt_to_phys (pmm_phys_to_virt pa)) = pa" using m virt_to_phys_phys_to_virt [of pa] by (simp add: align_down_4k_id page_aligned_iff)
  have "pmm_phys_to_virt pa \<noteq> NULL" using tr_unat [OF m(2)] by auto
  then have e: "kheap_free_pages (pmm_phys_to_virt pa) n s = free_stack_pages pa 0 (unat n) s"
    using irq n pv by (simp add: kheap_free_pages_def Let_def free_pages_loop_eq)
  have "\<forall>k<unat n. pa + ucast (0 + of_nat k :: u32) * KSTACK_PAGE_SIZE \<in> managed_pas s"
    using run unfolding run_words [OF n32, symmetric] by blast
  from free_stack_pages_spec [OF ok irq this] obtain s1 where s1: "free_stack_pages pa 0 (unat n) s = Ret s1" "pmm_ok s1" "managed_pas s1 = managed_pas s"
    "pmm_globals.more s1 = pmm_globals.more s" "s_irq_depth s1 = s_irq_depth s" "free_pas s1 = free_pas s \<union> page_run pa (unat n)" unfolding run_words [OF n32] by blast
  then show ?thesis using e more_core [OF s1(4)] irq by (intro exI [of _ s1]) (simp add: in_irq_def)
qed

section \<open>The ground of a transfer\<close>

text \<open>
  The ground a transfer stands on: the driver and the device agree, the page allocator is well formed, and neither
  the caller's buffer nor the driver's status byte lies in a free page.
\<close>

definition io_ok :: "('d \<Rightarrow> vdev) \<Rightarrow> ptr \<Rightarrow> ptr \<Rightarrow> nat \<Rightarrow> ('d, 'a) core_globals_scheme \<Rightarrow> bool" where
  "io_ok view blk buf n s \<longleftrightarrow> blk_ok view blk s \<and> pmm_ok s \<and> \<not> in_irq s \<and> unat buf + n < 2 ^ 64 \<and> \<not> span buf n (status_addr blk) \<and>
     (\<forall>pa\<in>free_pas s. \<forall>a. span (pmm_phys_to_virt pa) 4096 a \<longrightarrow> a \<noteq> status_addr blk \<and> \<not> span buf n a)"

text \<open>
  What a transfer changes: the bytes of \<open>B\<close>, the positions \<open>D\<close> of the disk, the status byte, free pages, and the
  books of device and driver.
\<close>

definition io_moved :: "('d \<Rightarrow> vdev) \<Rightarrow> ptr \<Rightarrow> (ptr \<Rightarrow> bool) \<Rightarrow> nat set \<Rightarrow> ('d, 'a) core_globals_scheme \<Rightarrow> ('d, 'a) core_globals_scheme \<Rightarrow> bool" where
  "io_moved view blk B D s s' \<longleftrightarrow> io_rest s' = io_rest s \<and> free_pas s' = free_pas s \<and> vb_mmio (g_blk s') = vb_mmio (g_blk s) \<and>
     dv_sectors (view (vhw s')) = dv_sectors (view (vhw s)) \<and> (\<forall>i. i \<in> D \<or> dv_disk (view (vhw s')) i = dv_disk (view (vhw s)) i) \<and>
     (\<forall>a. B a \<or> a = status_addr blk \<or> (\<exists>pa\<in>free_pas s. span (pmm_phys_to_virt pa) 4096 a) \<or> byte_at (shared s') a = byte_at (shared s) a)"

lemma io_moved_disk: "io_moved view blk B {} s s' \<Longrightarrow> dv_disk (view (vhw s')) = dv_disk (view (vhw s))"
  by (auto simp: io_moved_def)

lemma io_moved_refl: "io_moved view blk B D s s"
  by (simp add: io_moved_def)

lemma io_moved_trans:
  assumes "io_moved view blk B D s s1" "io_moved view blk B' D' s1 s2" "\<And>a. B a \<Longrightarrow> C a" "\<And>a. B' a \<Longrightarrow> C a" "D \<subseteq> E" "D' \<subseteq> E"
  shows "io_moved view blk C E s s2"
  using assms unfolding io_moved_def by (smt (verit) subsetD)

lemma span_sub: "span p n a \<Longrightarrow> n \<le> m \<Longrightarrow> span p m a"
  by (simp add: span_def)

lemma blk_ok_cong: "vhw s' = vhw s \<Longrightarrow> g_blk s' = g_blk s \<Longrightarrow> used_at (shared s') = used_at (shared s) \<Longrightarrow> avail_at (shared s') = avail_at (shared s) \<Longrightarrow>
    blk_ok view blk s' = blk_ok view blk s"
  by (simp add: blk_ok_def Let_def)

lemma virtio_upd_pmm [simp]:
  fixes s :: "('d, 'a) core_globals_scheme"
  shows "pmm_ok (s\<lparr>vhw := a\<rparr>) = pmm_ok s" "pmm_ok (s\<lparr>shared := b\<rparr>) = pmm_ok s" "pmm_ok (s\<lparr>g_blk := c\<rparr>) = pmm_ok s"
    "free_pas (s\<lparr>vhw := a\<rparr>) = free_pas s" "free_pas (s\<lparr>shared := b\<rparr>) = free_pas s" "free_pas (s\<lparr>g_blk := c\<rparr>) = free_pas s"
    "managed_pas (s\<lparr>vhw := a\<rparr>) = managed_pas s" "managed_pas (s\<lparr>shared := b\<rparr>) = managed_pas s" "managed_pas (s\<lparr>g_blk := c\<rparr>) = managed_pas s"
    "in_irq (s\<lparr>vhw := a\<rparr>) = in_irq s" "in_irq (s\<lparr>shared := b\<rparr>) = in_irq s" "in_irq (s\<lparr>g_blk := c\<rparr>) = in_irq s"
    "io_rest (s\<lparr>vhw := a\<rparr>) = io_rest s" "io_rest (s\<lparr>shared := b\<rparr>) = io_rest s" "io_rest (s\<lparr>g_blk := c\<rparr>) = io_rest s"
  by (simp_all add: free_pas_def managed_pas_def in_irq_def io_rest_def) (rule pmm_ok_cong; simp)+

lemma bytes_at_copied: "n < 2 ^ 64 \<Longrightarrow> bytes_at (mem_copied m d p n) d n = bytes_at m p n"
  by (auto simp: bytes_at_def mem_copied_def)

section \<open>The bounce buffer\<close>

text \<open>\<open>pa\<close> is the bounce buffer of \<open>n\<close> bytes that state \<open>s1\<close> has and \<open>s\<close> has not.\<close>

definition bounced :: "('d, 'a) core_globals_scheme \<Rightarrow> u64 \<Rightarrow> u32 \<Rightarrow> nat \<Rightarrow> ('d, 'a) core_globals_scheme \<Rightarrow> bool" where
  "bounced s pa pages n s1 \<longleftrightarrow> page_run pa (unat pages) \<subseteq> free_pas s \<and> page_run pa (unat pages) \<subseteq> managed_pas s1 \<and>
     free_pas s1 = free_pas s - page_run pa (unat pages) \<and> \<not> in_irq s1 \<and> pmm_ok s1 \<and> io_rest s1 = io_rest s \<and>
     vhw s1 = vhw s \<and> shared s1 = shared s \<and> g_blk s1 = g_blk s \<and> unat (tr pa) + n < 2 ^ 64 \<and> CAPAZ_HH_RAM_BASE \<le> tr pa \<and>
     (\<forall>a. span (tr pa) n a \<longrightarrow> (\<exists>q\<in>free_pas s. span (tr q) 4096 a))"

lemma bounce_buffer:
  fixes s :: "('d, 'a) core_globals_scheme"
  assumes io: "io_ok view blk buf N s" and c: "chunk \<noteq> 0" "unat chunk * 512 < 2 ^ 32"
  defines "pages \<equiv> io_pages chunk 512"
  shows "\<exists>va r s1. kheap_alloc_pages pages LOCAL s = Ret ((va, r), s1) \<and>
    (if va = NULL then io_ok view blk buf N s1 \<and> io_moved view blk (\<lambda>_. False) {} s s1 \<and> (pages = 1 \<longrightarrow> free_pas s = {})
     else \<exists>pa. va = tr pa \<and> bounced s pa pages (unat chunk * 512) s1)"
proof -
  let ?n = "unat chunk * 512"
  have i: "blk_ok view blk s" "pmm_ok s" "\<not> in_irq s" using io unfolding io_ok_def by blast+
  note pg = io_pages_value [OF c(2,1), folded pages_def]
  obtain va r s1 where a: "kheap_alloc_pages pages LOCAL s = Ret ((va, r), s1)" "\<not> in_irq s1" "pmm_ok s1" "io_rest s1 = io_rest s" "vhw s1 = vhw s"
    "shared s1 = shared s" "g_blk s1 = g_blk s"
    "if va = NULL then free_pas s1 = free_pas s \<and> (pages = 1 \<longrightarrow> free_pas s = {})
     else \<exists>pa. va = tr pa \<and> page_run pa (unat pages) \<subseteq> free_pas s \<and> free_pas s1 = free_pas s - page_run pa (unat pages) \<and> managed_pas s1 = managed_pas s"
    using bounce_alloc [OF i(3,2) pg(2)] by blast
  show ?thesis
  proof (cases "va = NULL")
    case True
    have "blk_ok view blk s1" using i(1) a(5-7) blk_ok_cong [of s1 s view blk] by simp
    then have "io_ok view blk buf N s1 \<and> io_moved view blk (\<lambda>_. False) {} s s1 \<and> (pages = 1 \<longrightarrow> free_pas s = {})"
      using io a True by (simp add: io_ok_def io_moved_def)
    then show ?thesis using a(1) True by (intro exI [of _ va] exI [of _ r] exI [of _ s1]) simp
  next
    case False
    then obtain pa where pa: "va = tr pa" "page_run pa (unat pages) \<subseteq> free_pas s" "free_pas s1 = free_pas s - page_run pa (unat pages)" "managed_pas s1 = managed_pas s"
      using a(8) by auto
    have mg: "page_run pa (unat pages) \<subseteq> managed_pas s" using pa(2) free_pas_managed [OF i(2)] by blast
    have rr: "\<And>q. q \<in> page_run pa (unat pages) \<Longrightarrow> CAPAZ_RAM_BASE \<le> q \<and> unat q + 4096 \<le> 0x80000000" using mg managed_page [OF i(2)] by blast
    have p0: "0 < unat pages" using pg(2) by (simp add: unat_gt_0)
    have "unat (tr pa) + ?n < 2 ^ 64" "CAPAZ_HH_RAM_BASE \<le> tr pa" "\<forall>x. span (tr pa) ?n x \<longrightarrow> (\<exists>q\<in>free_pas s. span (tr q) 4096 x)"
      using run_range [of pa "unat pages" ?n] rr p0 pg(3) pa(2) by blast+
    then have "bounced s pa pages ?n s1" using mg pa a(2-7) by (simp add: bounced_def)
    then show ?thesis using a(1) pa(1) False by auto
  qed
qed

lemma bounce_transfer:
  fixes s :: "('d, 'a) core_globals_scheme"
  assumes io: "io_ok view blk buf N s" and bo: "bounced s pa pages (unat chunk * 512) s1"
    and c: "chunk \<noteq> 0" "unat chunk * 512 < 2 ^ 32" "unat lba + unat chunk \<le> dv_sectors (view (vhw s))"
  shows "blk_ok view blk s1" "transfer_ok (view (vhw s1)) blk lba chunk (tr pa) (512 * ucast chunk)"
    "span (tr pa) (unat chunk * 512) a \<Longrightarrow> a \<noteq> status_addr blk \<and> \<not> span buf N a"
proof -
  have b: "vhw s1 = vhw s" "shared s1 = shared s" "g_blk s1 = g_blk s" "CAPAZ_HH_RAM_BASE \<le> tr pa"
    "\<And>a. span (tr pa) (unat chunk * 512) a \<Longrightarrow> \<exists>q\<in>free_pas s. span (tr q) 4096 a" using bo unfolding bounced_def by blast+
  have i: "blk_ok view blk s" "\<And>pa a. pa \<in> free_pas s \<Longrightarrow> span (tr pa) 4096 a \<Longrightarrow> a \<noteq> status_addr blk \<and> \<not> span buf N a"
    using io unfolding io_ok_def by blast+
  show "blk_ok view blk s1" using i(1) b(1-3) blk_ok_cong [of s1 s view blk] by simp
  have vb: "a \<noteq> status_addr blk \<and> \<not> span buf N a" if sp: "span (tr pa) (unat chunk * 512) a" for a
    using b(5) [OF sp] i(2) by blast
  then show "span (tr pa) (unat chunk * 512) a \<Longrightarrow> a \<noteq> status_addr blk \<and> \<not> span buf N a" .
  have "unat (512 * ucast chunk :: u64) = unat chunk * 512"
    using c(2) unat_less_two_power [of chunk] by (simp add: unat_word_ariths unsigned_ucast_eq take_bit_nat_eq_self)
  then show "transfer_ok (view (vhw s1)) blk lba chunk (tr pa) (512 * ucast chunk)"
    using c b(1,4) vb [of "status_addr blk"] by (auto simp: transfer_ok_def)
qed

text \<open>After the request the buffer goes back; what the request did to the device and to memory stays.\<close>

lemma bounce_return:
  fixes s :: "('d, 'a) core_globals_scheme"
  assumes io: "io_ok view blk buf N s" and bo: "bounced s pa pages n s1" and p: "pages \<noteq> 0"
    and ok: "blk_ok view blk (s1\<lparr>vhw := d, shared := m, g_blk := g\<rparr>)" and m': "used_at m' = used_at m" "avail_at m' = avail_at m"
    and dev: "vb_mmio g = vb_mmio (g_blk s)" "dv_sectors (view d) = dv_sectors (view (vhw s))" "\<And>i. i \<notin> D \<Longrightarrow> dv_disk (view d) i = dv_disk (view (vhw s)) i"
    and mem: "\<And>a. \<not> B a \<Longrightarrow> a \<noteq> status_addr blk \<Longrightarrow> \<not> span (tr pa) n a \<Longrightarrow> byte_at m' a = byte_at (shared s) a"
  shows "\<exists>s4. kheap_free_pages (tr pa) pages (s1\<lparr>vhw := d, g_blk := g, shared := m'\<rparr>) = Ret s4 \<and> io_ok view blk buf N s4 \<and>
    io_moved view blk B D s s4 \<and> shared s4 = m' \<and> vhw s4 = d"
proof -
  let ?s3 = "s1\<lparr>vhw := d, g_blk := g, shared := m'\<rparr>"
  have b: "page_run pa (unat pages) \<subseteq> free_pas s" "page_run pa (unat pages) \<subseteq> managed_pas s1" "free_pas s1 = free_pas s - page_run pa (unat pages)"
    "\<not> in_irq s1" "pmm_ok s1" "io_rest s1 = io_rest s" "\<And>a. span (tr pa) n a \<Longrightarrow> \<exists>q\<in>free_pas s. span (tr q) 4096 a"
    using bo unfolding bounced_def by blast+
  have "\<not> in_irq ?s3" "pmm_ok ?s3" "page_run pa (unat pages) \<subseteq> managed_pas ?s3" using b(2,4,5) by simp_all
  from bounce_free [OF this(1,2) p this(3)] obtain s4 where s4: "kheap_free_pages (tr pa) pages ?s3 = Ret s4" "\<not> in_irq s4" "pmm_ok s4" "io_rest s4 = io_rest s1"
    "vhw s4 = d" "shared s4 = m'" "g_blk s4 = g" "free_pas s4 = free_pas s1 \<union> page_run pa (unat pages)" by auto
  have fr: "free_pas s4 = free_pas s" using s4(8) b(1,3) by auto
  have "blk_ok view blk s4" using ok s4(5-7) m' blk_ok_cong [of s4 "s1\<lparr>vhw := d, shared := m, g_blk := g\<rparr>" view blk] by simp
  then have "io_ok view blk buf N s4" using io s4(2,3) fr by (simp add: io_ok_def)
  moreover have "B a \<or> a = status_addr blk \<or> (\<exists>pa\<in>free_pas s. span (tr pa) 4096 a) \<or> byte_at m' a = byte_at (shared s) a" for a using b(7) [of a] mem [of a] by blast
  then have "io_moved view blk B D s s4" unfolding io_moved_def s4(5-7) using s4(4) b(6) fr dev by auto
  ultimately show ?thesis using s4(1,5,6) by blast
qed

text \<open>Copying between the bounce pages and the caller's buffer, which are apart.\<close>

lemma buffer_part:
  assumes "io_ok view blk buf N s" "p + n \<le> N"
  shows "unat (buf + of_nat p) = unat buf + p" "unat (buf + of_nat p) + n < 2 ^ 64" "span (buf + of_nat p) n a \<Longrightarrow> span buf N a"
proof -
  have b: "unat buf + N < 2 ^ 64" using assms(1) by (simp add: io_ok_def)
  have u: "unat (of_nat p :: u64) = p" using assms(2) b by (simp add: unat_of_nat)
  then show d: "unat (buf + of_nat p) = unat buf + p" using assms(2) b by (subst unat_add_no_wrap) simp_all
  then show "unat (buf + of_nat p) + n < 2 ^ 64" using assms(2) b by simp
  show "span (buf + of_nat p) n a \<Longrightarrow> span buf N a"
    using span_iff_interval [of "buf + of_nat p" n a] span_iff_interval [of buf N a] d assms(2) b by simp
qed

lemma memcpy_apart:
  assumes "unat dst + n < 2 ^ 64" "unat src + n < 2 ^ 64" "unat len = n" "0 < n" "\<And>a. span src n a \<Longrightarrow> \<not> span dst n a"
  shows "snd (memcpy dst src len m) = mem_copied m dst src n"
proof -
  have "dst \<le> src \<or> unat src + n \<le> unat dst"
  proof (rule ccontr)
    assume c: "\<not> (dst \<le> src \<or> unat src + n \<le> unat dst)"
    then have "span src n dst" using span_iff_interval [of src n dst] assms(2) by (simp add: word_le_nat_alt)
    moreover have "span dst n dst" using assms(4) by (simp add: span_def)
    ultimately show False using assms(5) by blast
  qed
  then show ?thesis using memcpy_copies [of dst len src m] assms(1-3) by simp
qed

section \<open>One round\<close>

lemma chunk_bytes:
  assumes "chunk \<noteq> 0" "unat chunk * 512 < 2 ^ 32"
  shows "unat (ucast chunk * ucast (512 :: u32) :: u64) = unat chunk * 512" "0 < unat chunk * 512"
  using assms unat_less_two_power [of chunk] by (simp_all add: unat_word_ariths unsigned_ucast_eq take_bit_nat_eq_self unat_gt_0)

lemma read_round:
  fixes s :: "('d, 'a) core_globals_scheme"
  assumes io: "io_ok view blk buf N s" and comp: "blk_compliant hw pmm_phys_to_virt (vb_mmio (g_blk s)) view (Suc POLL_LIMIT)"
    and c: "chunk \<noteq> 0" "unat chunk * 512 < 2 ^ 32" "o512 + unat chunk * 512 \<le> N" "unat lba + unat chunk \<le> dv_sectors (view (vhw s))"
  defines "n \<equiv> unat chunk * 512" and "d \<equiv> buf + of_nat o512" and "pages \<equiv> io_pages chunk 512"
  shows "\<exists>va r s1. kheap_alloc_pages pages LOCAL s = Ret ((va, r), s1) \<and>
    (if va = NULL then io_ok view blk buf N s1 \<and> io_moved view blk (\<lambda>_. False) {} s s1 \<and> (pages = 1 \<longrightarrow> free_pas s = {})
     else \<exists>s2 s4. hal_block_read hw blk lba va (ucast chunk) s1 = (True, s2) \<and>
       kheap_free_pages va pages (s2\<lparr>shared := (shared s2)\<lparr>byte_at := snd (memcpy d va (ucast chunk * ucast (512 :: u32)) (byte_at (shared s2)))\<rparr>\<rparr>) = Ret s4 \<and>
       io_ok view blk buf N s4 \<and> io_moved view blk (span d n) {} s s4 \<and> bytes_at (byte_at (shared s4)) d n = disk_bytes (dv_disk (view (vhw s))) lba n)"
proof -
  obtain va r s1 where al: "kheap_alloc_pages pages LOCAL s = Ret ((va, r), s1)"
    and alt: "if va = NULL then io_ok view blk buf N s1 \<and> io_moved view blk (\<lambda>_. False) {} s s1 \<and> (pages = 1 \<longrightarrow> free_pas s = {})
      else \<exists>pa. va = tr pa \<and> bounced s pa pages n s1"
    using bounce_buffer [OF io c(1,2), folded n_def pages_def] by blast
  show ?thesis
  proof (cases "va = NULL")
    case True
    then show ?thesis using al alt by (intro exI [of _ va] exI [of _ r] exI [of _ s1]) simp
  next
    case False
    then obtain pa where pa: "va = tr pa" and bo: "bounced s pa pages n s1" using alt by auto
    note t = bounce_transfer [OF io bo [unfolded n_def] c(1,2,4), folded n_def]
    have e: "vhw s1 = vhw s" "shared s1 = shared s" "g_blk s1 = g_blk s" "unat va + n < 2 ^ 64" using bo by (simp_all add: bounced_def pa)
    have comp1: "blk_compliant hw tr (vb_mmio (g_blk s1)) view (Suc POLL_LIMIT)" using comp e(3) by simp
    let ?g = "(g_blk s1)\<lparr>vb_last_used := vb_last_used (g_blk s1) + 1\<rparr>"
    obtain d' m' where rd: "virtio_blk_read hw blk lba chunk va (512 * ucast chunk) s1 = (True, s1\<lparr>vhw := d', shared := m', g_blk := ?g\<rparr>)"
      and ok2: "blk_ok view blk (s1\<lparr>vhw := d', shared := m', g_blk := ?g\<rparr>)" and vd: "view d' = (view (vhw s1))\<lparr>dv_seen := dv_seen (view (vhw s1)) + 1\<rparr>"
      and bt: "bytes_at (byte_at m') va n = disk_bytes (dv_disk (view (vhw s1))) lba n"
      and oth: "\<forall>a. \<not> span va n a \<longrightarrow> a \<noteq> status_addr blk \<longrightarrow> byte_at m' a = byte_at (shared s1) a"
      using virtio_blk_read_spec [OF comp1 t(1,2)] unfolding n_def pa by blast
    let ?s2 = "s1\<lparr>vhw := d', shared := m', g_blk := ?g\<rparr>"
    note w = chunk_bytes [OF c(1,2), folded n_def] and bp = buffer_part [OF io c(3) [folded n_def], folded d_def]
    have mc: "snd (memcpy d va (ucast chunk * ucast (512 :: u32)) (byte_at m')) = mem_copied (byte_at m') d va n"
      by (rule memcpy_apart [OF bp(2) e(4) w]) (use t(3) bp(3) pa in blast)
    let ?m3 = "m'\<lparr>byte_at := mem_copied (byte_at m') d va n\<rparr>"
    obtain s4 where s4: "kheap_free_pages va pages (s1\<lparr>vhw := d', g_blk := ?g, shared := ?m3\<rparr>) = Ret s4" "io_ok view blk buf N s4"
      "io_moved view blk (span d n) {} s s4" "shared s4 = ?m3"
      using bounce_return [OF io bo _ ok2, of ?m3 "{}" "span d n"] io_pages_value(2) [OF c(2,1)] oth e vd by (auto simp: pages_def pa mem_copied_def)
    have "bytes_at (byte_at (shared s4)) d n = disk_bytes (dv_disk (view (vhw s))) lba n"
      using s4(4) bt e(1) bytes_at_copied [of n "byte_at m'" d va] c(2) by (simp add: n_def)
    moreover have "hal_block_read hw blk lba va (ucast chunk) s1 = (True, ?s2)" using rd hal_block_requests(1) [OF t(1,2)] pa by simp
    moreover have "kheap_free_pages va pages (?s2\<lparr>shared := (shared ?s2)\<lparr>byte_at := snd (memcpy d va (ucast chunk * ucast (512 :: u32)) (byte_at (shared ?s2)))\<rparr>\<rparr>) = Ret s4"
      using s4(1) mc by simp
    ultimately have "\<exists>s2 s4. hal_block_read hw blk lba va (ucast chunk) s1 = (True, s2) \<and>
       kheap_free_pages va pages (s2\<lparr>shared := (shared s2)\<lparr>byte_at := snd (memcpy d va (ucast chunk * ucast (512 :: u32)) (byte_at (shared s2)))\<rparr>\<rparr>) = Ret s4 \<and>
       io_ok view blk buf N s4 \<and> io_moved view blk (span d n) {} s s4 \<and> bytes_at (byte_at (shared s4)) d n = disk_bytes (dv_disk (view (vhw s))) lba n"
      using s4(2,3) by blast
    then show ?thesis using al False by (metis (lifting))
  qed
qed

lemma write_round:
  fixes s :: "('d, 'a) core_globals_scheme"
  assumes io: "io_ok view blk buf N s" and comp: "blk_compliant hw pmm_phys_to_virt (vb_mmio (g_blk s)) view (Suc POLL_LIMIT)"
    and c: "chunk \<noteq> 0" "unat chunk * 512 < 2 ^ 32" "o512 + unat chunk * 512 \<le> N" "unat lba + unat chunk \<le> dv_sectors (view (vhw s))"
  defines "n \<equiv> unat chunk * 512" and "p \<equiv> buf + of_nat o512" and "pages \<equiv> io_pages chunk 512"
  shows "\<exists>va r s1. kheap_alloc_pages pages LOCAL s = Ret ((va, r), s1) \<and>
    (if va = NULL then io_ok view blk buf N s1 \<and> io_moved view blk (\<lambda>_. False) {} s s1 \<and> (pages = 1 \<longrightarrow> free_pas s = {})
     else \<exists>s3 s4. hal_block_write hw blk lba va (ucast chunk)
         (s1\<lparr>shared := (shared s1)\<lparr>byte_at := snd (memcpy va p (ucast chunk * ucast (512 :: u32)) (byte_at (shared s1)))\<rparr>\<rparr>) = (True, s3) \<and>
       kheap_free_pages va pages s3 = Ret s4 \<and> io_ok view blk buf N s4 \<and>
       io_moved view blk (\<lambda>_. False) {unat lba * 512..<unat lba * 512 + n} s s4 \<and> disk_bytes (dv_disk (view (vhw s4))) lba n = bytes_at (byte_at (shared s)) p n)"
proof -
  obtain va r s1 where al: "kheap_alloc_pages pages LOCAL s = Ret ((va, r), s1)"
    and alt: "if va = NULL then io_ok view blk buf N s1 \<and> io_moved view blk (\<lambda>_. False) {} s s1 \<and> (pages = 1 \<longrightarrow> free_pas s = {})
      else \<exists>pa. va = tr pa \<and> bounced s pa pages n s1"
    using bounce_buffer [OF io c(1,2), folded n_def pages_def] by blast
  show ?thesis
  proof (cases "va = NULL")
    case True
    then show ?thesis using al alt by (intro exI [of _ va] exI [of _ r] exI [of _ s1]) simp
  next
    case False
    then obtain pa where pa: "va = tr pa" and bo: "bounced s pa pages n s1" using alt by auto
    note t = bounce_transfer [OF io bo [unfolded n_def] c(1,2,4), folded n_def]
    have e: "vhw s1 = vhw s" "shared s1 = shared s" "g_blk s1 = g_blk s" "unat va + n < 2 ^ 64" using bo by (simp_all add: bounced_def pa)
    note w = chunk_bytes [OF c(1,2), folded n_def] and bp = buffer_part [OF io c(3) [folded n_def], folded p_def]
    let ?m2 = "(shared s)\<lparr>byte_at := mem_copied (byte_at (shared s)) va p n\<rparr>"
    have mc: "snd (memcpy va p (ucast chunk * ucast (512 :: u32)) (byte_at (shared s))) = mem_copied (byte_at (shared s)) va p n"
      by (rule memcpy_apart [OF e(4) bp(2) w]) (use t(3) bp(3) pa in blast)
    let ?s2 = "s1\<lparr>shared := ?m2\<rparr>"
    have ok2: "blk_ok view blk ?s2" using t(1) e(2) blk_ok_cong [of ?s2 s1 view blk] by simp
    have comp2: "blk_compliant hw tr (vb_mmio (g_blk ?s2)) view (Suc POLL_LIMIT)" and t2: "transfer_ok (view (vhw ?s2)) blk lba chunk va (512 * ucast chunk)"
      using comp e(3) t(2) pa by simp_all
    let ?g = "(g_blk s1)\<lparr>vb_last_used := vb_last_used (g_blk s1) + 1\<rparr>"
    obtain d' m' where wr: "virtio_blk_write hw blk lba chunk va (512 * ucast chunk) ?s2 = (True, s1\<lparr>vhw := d', shared := m', g_blk := ?g\<rparr>)"
      and ok3: "blk_ok view blk (s1\<lparr>vhw := d', shared := m', g_blk := ?g\<rparr>)" and sec: "dv_sectors (view d') = dv_sectors (view (vhw s))"
      and dk: "disk_bytes (dv_disk (view d')) lba n = bytes_at (byte_at ?m2) va n"
      and same: "\<forall>i. i < unat lba * 512 \<or> unat lba * 512 + n \<le> i \<longrightarrow> dv_disk (view d') i = dv_disk (view (vhw s)) i"
      and oth: "\<forall>a. a \<noteq> status_addr blk \<longrightarrow> byte_at m' a = byte_at ?m2 a"
      using virtio_blk_write_spec [OF comp2 ok2 t2] e(1) unfolding n_def by auto
    let ?D = "{unat lba * 512..<unat lba * 512 + n}"
    have "\<And>i. i \<notin> ?D \<Longrightarrow> dv_disk (view d') i = dv_disk (view (vhw s)) i" using same by auto
    moreover have "\<And>a. a \<noteq> status_addr blk \<Longrightarrow> \<not> span va n a \<Longrightarrow> byte_at m' a = byte_at (shared s) a" using oth by (simp add: mem_copied_def)
    ultimately obtain s4 where s4: "kheap_free_pages va pages (s1\<lparr>vhw := d', g_blk := ?g, shared := m'\<rparr>) = Ret s4" "io_ok view blk buf N s4"
      "io_moved view blk (\<lambda>_. False) ?D s s4" "vhw s4 = d'"
      using bounce_return [OF io bo _ ok3, of m' ?D "\<lambda>_. False"] io_pages_value(2) [OF c(2,1)] e(3) sec unfolding pages_def pa by auto
    have "hal_block_write hw blk lba va (ucast chunk) ?s2 = (True, s1\<lparr>vhw := d', shared := m', g_blk := ?g\<rparr>)" using wr hal_block_requests(2) [OF ok2 t2] by simp
    moreover have "?s2 = s1\<lparr>shared := (shared s1)\<lparr>byte_at := snd (memcpy va p (ucast chunk * ucast (512 :: u32)) (byte_at (shared s1)))\<rparr>\<rparr>" using e(2) mc by simp
    moreover have sw: "s1\<lparr>vhw := d', shared := m', g_blk := ?g\<rparr> = s1\<lparr>vhw := d', g_blk := ?g, shared := m'\<rparr>" by (cases s1) simp
    have "kheap_free_pages va pages (s1\<lparr>vhw := d', shared := m', g_blk := ?g\<rparr>) = Ret s4" unfolding sw by (rule s4(1))
    moreover have "disk_bytes (dv_disk (view (vhw s4))) lba n = bytes_at (byte_at (shared s)) p n"
      using dk s4(4) bytes_at_copied [of n "byte_at (shared s)" va p] c(2) by (simp add: n_def)
    ultimately have "\<exists>s3 s4. hal_block_write hw blk lba va (ucast chunk)
         (s1\<lparr>shared := (shared s1)\<lparr>byte_at := snd (memcpy va p (ucast chunk * ucast (512 :: u32)) (byte_at (shared s1)))\<rparr>\<rparr>) = (True, s3) \<and>
       kheap_free_pages va pages s3 = Ret s4 \<and> io_ok view blk buf N s4 \<and> io_moved view blk (\<lambda>_. False) ?D s s4 \<and>
       disk_bytes (dv_disk (view (vhw s4))) lba n = bytes_at (byte_at (shared s)) p n" using s4(2,3) by metis
    then show ?thesis using al False by (metis (lifting))
  qed
qed

end
