(* ===== verification/Core_Block.thy ===== *)
theory Core_Block
  imports Core_Bounce
begin

unbundle bit_operations_syntax

text \<open>
  Block I/O of the core API, down to the device: the bounce pages come from the page allocator and go back to it on
  every path, the sectors of the disk arrive in the caller's buffer, and the transfer is charged to the calling
  task and runs under the intent asked for. The properties are about requests that do not give up the CPU, all but
  background ones.
\<close>

section \<open>The loop of a read\<close>

lemma bytes_at_append: "bytes_at m p (a + b) = bytes_at m p a @ bytes_at m (p + of_nat a) b"
  unfolding bytes_at_def upt_add_eq_append [OF le0] map_append by (rule arg_cong, rule nth_equalityI) (simp_all add: algebra_simps)

lemma disk_bytes_append:
  assumes "unat lba + c < 2 ^ 64"
  shows "disk_bytes dk lba (c * 512 + b) = disk_bytes dk lba (c * 512) @ disk_bytes dk (lba + of_nat c) b"
proof -
  have "unat (of_nat c :: u64) = c" using assms by (simp add: unat_of_nat)
  then have "unat (lba + of_nat c) = unat lba + c" using assms by (simp add: unat_add_no_wrap)
  then show ?thesis unfolding disk_bytes_def upt_add_eq_append [OF le0] map_append
    by (intro arg_cong2 [of _ _ _ _ append] refl nth_equalityI) (simp_all add: algebra_simps)
qed

lemma bytes_at_cong: "(\<And>a. span p n a \<Longrightarrow> m a = m' a) \<Longrightarrow> n < 2 ^ 64 \<Longrightarrow> bytes_at m p n = bytes_at m' p n"
  by (auto simp: bytes_at_def)

text \<open>A later transfer leaves the part of the buffer it does not write.\<close>

lemma io_moved_keeps:
  assumes "io_ok view blk buf N s" "io_moved view blk B D s s'" "span buf N a" "\<not> B a"
  shows "byte_at (shared s') a = byte_at (shared s) a"
  using assms unfolding io_ok_def io_moved_def by blast

lemma io_pages_one: "chunk \<noteq> 0 \<Longrightarrow> chunk \<le> 8 \<Longrightarrow> io_pages chunk 512 = 1"
proof -
  assume c: "chunk \<noteq> 0" "chunk \<le> 8"
  then have b: "0 < unat chunk" "unat chunk \<le> 8" by (simp_all add: unat_gt_0 word_le_nat_alt)
  then have "(unat chunk * 512 + 4095) div 4096 = 1" by (intro div_nat_eqI) simp_all
  then have "unat (io_pages chunk 512) = unat (1 :: u32)" using io_pages_value(1) [of chunk] b c(1) by simp
  then show ?thesis by (simp only: word_unat_eq_iff)
qed

lemma sector_offset: "(ucast (off :: u32) * ucast (512 :: u32) :: u64) = of_nat (unat off * 512)"
  by simp

text \<open>Two transfers into neighbouring parts of the buffer are one transfer into both.\<close>

lemma io_moved_join:
  assumes io: "io_ok view blk buf N s1" and mv: "io_moved view blk (span (buf + of_nat o1) n1) D s s1" "io_moved view blk (span (buf + of_nat (o1 + n1)) n2) D s1 s2"
    and b: "o1 + n1 + n2 \<le> N"
  shows "io_moved view blk (span (buf + of_nat o1) (n1 + n2)) D s s2"
    "bytes_at (byte_at (shared s2)) (buf + of_nat o1) n1 = bytes_at (byte_at (shared s1)) (buf + of_nat o1) n1"
proof -
  have N: "unat buf + N < 2 ^ 64" using io by (simp add: io_ok_def)
  have u: "unat (buf + of_nat k) = unat buf + k" if "k \<le> N" for k using that N by (simp add: unat_add_no_wrap unat_of_nat)
  have sp: "span (buf + of_nat k) m a \<longleftrightarrow> unat buf + k \<le> unat a \<and> unat a < unat buf + k + m" if "k + m \<le> N" for k m a
    using span_iff_interval [of "buf + of_nat k" m a] u [of k] that N by simp
  have spN: "span buf N a \<longleftrightarrow> unat buf \<le> unat a \<and> unat a < unat buf + N" for a using span_iff_interval [of buf N a] N by simp
  show "io_moved view blk (span (buf + of_nat o1) (n1 + n2)) D s s2"
    using b by (rule_tac io_moved_trans [OF mv]) (simp_all add: sp del: of_nat_add)
  show "bytes_at (byte_at (shared s2)) (buf + of_nat o1) n1 = bytes_at (byte_at (shared s1)) (buf + of_nat o1) n1"
  proof (rule bytes_at_cong)
    fix a assume "span (buf + of_nat o1) n1 a"
    then show "byte_at (shared s2) a = byte_at (shared s1) a"
      using b by (intro io_moved_keeps [OF io mv(2)]) (simp_all add: sp spN del: of_nat_add)
  qed (use b N in simp)
qed

lemma block_read_loop_ok:
  fixes s :: "('d, 'a) core_globals_scheme"
  assumes io: "io_ok view blk buf N s" and comp: "blk_compliant hw pmm_phys_to_virt (vb_mmio (g_blk s)) view (Suc POLL_LIMIT)"
    and fg: "intent \<noteq> KS_IO_INTENT_BACKGROUND" "max_chunk \<noteq> 0" and N: "N < 2 ^ 32" and k: "unat rem \<le> k" "unat off * 512 + unat rem * 512 \<le> N"
    and dk: "unat lba + unat off + unat rem \<le> dv_sectors (view (vhw s))" "dv_sectors (view (vhw s)) < 2 ^ 64"
  shows "\<exists>st s'. block_read_loop hw blk yld intent lba buf 512 max_chunk k rem off s = Ret (st, s') \<and>
    (st = KS_STATUS_OK \<or> st = KS_STATUS_OUT_OF_MEMORY) \<and> (max_chunk \<le> 8 \<longrightarrow> free_pas s \<noteq> {} \<longrightarrow> st = KS_STATUS_OK) \<and> io_ok view blk buf N s' \<and>
    io_moved view blk (span (buf + of_nat (unat off * 512)) (unat rem * 512)) {} s s' \<and>
    (st = KS_STATUS_OK \<longrightarrow> bytes_at (byte_at (shared s')) (buf + of_nat (unat off * 512)) (unat rem * 512) =
       disk_bytes (dv_disk (view (vhw s))) (lba + ucast off) (unat rem * 512))"
  using io comp k dk
proof (induction k arbitrary: rem off s)
  case 0
  then show ?case by (simp add: block_read_loop.simps [where k = 0] unat_eq_0 io_moved_refl bytes_at_def disk_bytes_def)
next
  case (Suc k)
  show ?case
  proof (cases "rem = 0")
    case True
    then show ?thesis using Suc.prems by (simp add: block_read_loop.simps [where k = "Suc k"] io_moved_refl bytes_at_def disk_bytes_def)
  next
    case False
    define chunk where "chunk = (if max_chunk < rem then max_chunk else rem)"
    define pages where "pages = io_pages chunk 512"
    have ch: "chunk \<noteq> 0" "unat chunk \<le> unat rem" using False fg(2) by (auto simp: chunk_def word_less_nat_alt)
    have "unat rem < 2 ^ 32" "unat off < 2 ^ 32" using unat_less_two_power [of rem] unat_less_two_power [of off] by simp_all
    have rc: "unat (rem - chunk) = unat rem - unat chunk" using ch(2) by (simp add: unat_sub word_le_nat_alt)
    have oc: "unat (off + chunk) = unat off + unat chunk" using Suc.prems(4) ch(2) N by (subst unat_add_no_wrap) simp_all
    have uo: "unat (ucast off :: u64) = unat off" using unat_less_two_power [of off] by (simp add: unsigned_ucast_eq take_bit_nat_eq_self)
    have lo: "unat (lba + ucast off) = unat lba + unat off" using Suc.prems(5,6) uo by (subst unat_add_no_wrap) simp_all
    have cN: "unat chunk * 512 < 2 ^ 32" "unat off * 512 + unat chunk * 512 \<le> N" "unat (lba + ucast off) + unat chunk \<le> dv_sectors (view (vhw s))"
      using Suc.prems(4,5) ch(2) N lo by simp_all
    let ?d = "buf + of_nat (unat off * 512)"
    obtain va r s1 where al: "kheap_alloc_pages pages LOCAL s = Ret ((va, r), s1)"
      and rd: "if va = NULL then io_ok view blk buf N s1 \<and> io_moved view blk (\<lambda>_. False) {} s s1 \<and> (pages = 1 \<longrightarrow> free_pas s = {})
       else \<exists>s2 s4. hal_block_read hw blk (lba + ucast off) va (ucast chunk) s1 = (True, s2) \<and>
       kheap_free_pages va pages (s2\<lparr>shared := (shared s2)\<lparr>byte_at := snd (memcpy ?d va (ucast chunk * ucast (512 :: u32)) (byte_at (shared s2)))\<rparr>\<rparr>) = Ret s4 \<and>
       io_ok view blk buf N s4 \<and> io_moved view blk (span ?d (unat chunk * 512)) {} s s4 \<and>
       bytes_at (byte_at (shared s4)) ?d (unat chunk * 512) = disk_bytes (dv_disk (view (vhw s))) (lba + ucast off) (unat chunk * 512)"
      using read_round [OF Suc.prems(1,2) ch(1) cN, folded pages_def] by blast
    note step = block_read_loop.simps [where k = "Suc k" and remaining = rem and offset_sectors = off and s = s and sector_size = 512 and max_chunk = max_chunk,
        folded chunk_def, unfolded Let_def, folded pages_def, unfolded chunk_def [symmetric] sector_offset]
    show ?thesis
    proof (cases "va = NULL")
      case True
      then have "io_moved view blk (span ?d (unat rem * 512)) {} s s1" using rd by (auto intro: io_moved_trans [OF _ io_moved_refl])
      moreover have "pages = 1" if "max_chunk \<le> 8" using that ch(1) io_pages_one [of chunk] by (auto simp: pages_def chunk_def)
      ultimately show ?thesis using True rd al False by (simp add: step pages_def chunk_def)
    next
      case va: False
      then obtain s2 s4 where r4: "hal_block_read hw blk (lba + ucast off) va (ucast chunk) s1 = (True, s2)"
        "kheap_free_pages va pages (s2\<lparr>shared := (shared s2)\<lparr>byte_at := snd (memcpy ?d va (ucast chunk * ucast (512 :: u32)) (byte_at (shared s2)))\<rparr>\<rparr>) = Ret s4"
        "io_ok view blk buf N s4" "io_moved view blk (span ?d (unat chunk * 512)) {} s s4"
        "bytes_at (byte_at (shared s4)) ?d (unat chunk * 512) = disk_bytes (dv_disk (view (vhw s))) (lba + ucast off) (unat chunk * 512)"
        using rd by auto
      have eq: "block_read_loop hw blk yld intent lba buf 512 max_chunk (Suc k) rem off s = block_read_loop hw blk yld intent lba buf 512 max_chunk k (rem - chunk) (off + chunk) s4"
        using al va r4(1,2) False fg(1) by (subst step) simp
      have same: "vb_mmio (g_blk s4) = vb_mmio (g_blk s)" "dv_sectors (view (vhw s4)) = dv_sectors (view (vhw s))" "dv_disk (view (vhw s4)) = dv_disk (view (vhw s))" "free_pas s4 = free_pas s"
        using r4(4) io_moved_disk [OF r4(4)] by (simp_all add: io_moved_def)
      have "unat (rem - chunk) \<le> k" using Suc.prems(3) rc ch(1) unat_gt_0 [of chunk] by simp
      moreover have "unat (off + chunk) * 512 + unat (rem - chunk) * 512 \<le> N" "unat lba + unat (off + chunk) + unat (rem - chunk) \<le> dv_sectors (view (vhw s4))"
        using Suc.prems(4,5) ch(2) rc oc same(2) by simp_all
      moreover have "blk_compliant hw pmm_phys_to_virt (vb_mmio (g_blk s4)) view (Suc POLL_LIMIT)" "dv_sectors (view (vhw s4)) < 2 ^ 64"
        using Suc.prems(2,6) same(1,2) by simp_all
      ultimately obtain st s' where ih: "block_read_loop hw blk yld intent lba buf 512 max_chunk k (rem - chunk) (off + chunk) s4 = Ret (st, s')"
        "st = KS_STATUS_OK \<or> st = KS_STATUS_OUT_OF_MEMORY" "max_chunk \<le> 8 \<longrightarrow> free_pas s \<noteq> {} \<longrightarrow> st = KS_STATUS_OK" "io_ok view blk buf N s'"
        "io_moved view blk (span (buf + of_nat (unat (off + chunk) * 512)) (unat (rem - chunk) * 512)) {} s4 s'"
        "st = KS_STATUS_OK \<longrightarrow> bytes_at (byte_at (shared s')) (buf + of_nat (unat (off + chunk) * 512)) (unat (rem - chunk) * 512) =
           disk_bytes (dv_disk (view (vhw s))) (lba + ucast (off + chunk)) (unat (rem - chunk) * 512)"
        using Suc.IH [OF r4(3)] unfolding same by blast
      have split: "unat rem * 512 = unat chunk * 512 + unat (rem - chunk) * 512" "unat (off + chunk) * 512 = unat off * 512 + unat chunk * 512"
        using rc oc ch(2) by simp_all
      note j = io_moved_join [OF r4(3,4) ih(5) [unfolded split(2)]]
      have b: "unat off * 512 + unat chunk * 512 + unat (rem - chunk) * 512 \<le> N" using Suc.prems(4) split(1) by simp
      have cw: "ucast (off + chunk) = (ucast off + of_nat (unat chunk) :: u64)"
        using oc by (metis of_nat_add of_nat_unat)
      have "unat (lba + ucast off) + unat chunk < 2 ^ 64" using cN(3) Suc.prems(6) by simp
      then have "bytes_at (byte_at (shared s')) ?d (unat rem * 512) = disk_bytes (dv_disk (view (vhw s))) (lba + ucast off) (unat rem * 512)" if "st = KS_STATUS_OK"
        using ih(6) that j(2) [OF b] r4(5) unfolding split cw bytes_at_append by (simp add: disk_bytes_append add.assoc)
      then show ?thesis using eq ih(1-4) j(1) [OF b] unfolding split(1) by (intro exI [of _ st] exI [of _ s']) simp
    qed
  qed
qed

section \<open>Admission, intent and accounting\<close>

lemma io_ok_upd [simp]: "io_ok view blk buf N (s\<lparr>thread_at := f\<rparr>) = io_ok view blk buf N s" "io_ok view blk buf N (s\<lparr>task_at := g\<rparr>) = io_ok view blk buf N s"
  by (simp_all add: io_ok_def blk_ok_def free_pas_def in_irq_def pmm_ok_cong [of "s\<lparr>thread_at := f\<rparr>" s] pmm_ok_cong [of "s\<lparr>task_at := g\<rparr>" s])

text \<open>The intent of a thread that is not in a ready queue is one field of the thread.\<close>

lemma set_intent_running:
  assumes "t \<noteq> NULL" "th_state (thread_at s t) \<noteq> THREAD_READY"
  shows "sched_set_thread_intent t raw s = Ret (thread_update t (\<lambda>th. th\<lparr>sched_intent := ucast (intent_value (sched_intent_sanitize raw))\<rparr>) s)"
proof (cases "ucast (sched_intent (thread_at s t)) = intent_value (sched_intent_sanitize raw)")
  case True
  then have "ucast (ucast (sched_intent (thread_at s t)) :: u32) = (ucast (intent_value (sched_intent_sanitize raw)) :: u8)" by simp
  moreover have "ucast (ucast (sched_intent (thread_at s t)) :: u32) = sched_intent (thread_at s t)" by (rule bit_word_eqI) (simp add: bit_simps)
  ultimately have "ucast (intent_value (sched_intent_sanitize raw)) = sched_intent (thread_at s t)" by simp
  then show ?thesis using assms True by (simp add: sched_set_thread_intent_def irq_save_def Let_def)
next
  case False
  then show ?thesis using assms by (simp add: sched_set_thread_intent_def irq_save_def irq_restore_pair Let_def)
qed

text \<open>
  The caller: no thread, or a thread that runs, with an intent the scheduler knows; its task, when it has one, is
  below its ceiling.
\<close>

definition caller_ok :: "bool \<Rightarrow> u64 \<Rightarrow> ('d, 'a) core_globals_scheme \<Rightarrow> bool" where
  "caller_ok is_write need s \<longleftrightarrow>
     (s_current s \<noteq> NULL \<longrightarrow> th_state (thread_at s (s_current s)) \<noteq> THREAD_READY \<and> (\<exists>j. sched_intent (thread_at s (s_current s)) = ucast (intent_value j))) \<and>
     (cka_current_task s \<noteq> NULL \<longrightarrow> fst (task_allow_io (Some (task_at s (cka_current_task s))) need is_write (s_sched_ticks s)))"

text \<open>The books of the tasks after a transfer.\<close>

definition io_charged :: "bool \<Rightarrow> u64 \<Rightarrow> u32 \<Rightarrow> bool \<Rightarrow> ('d, 'a) core_globals_scheme \<Rightarrow> ptr \<Rightarrow> task" where
  "io_charged is_write need intent moved s =
     (let task = cka_current_task s; tk = task_roll_window (task_at s task) (s_sched_ticks s) in
      if task = NULL then task_at s
      else (task_at s)(task := (if moved then the (task_account_io (Some tk) need is_write (cka_sched_intent_from_io intent) (s_sched_ticks s)) else tk)))"

lemma block_io_runs:
  fixes s :: "('d, 'a) core_globals_scheme"
  assumes g: "buf \<noteq> NULL" "count \<noteq> 0" "vb_ready (g_blk s)" "vb_sector_size (g_blk s) = 512" "\<not> buf_len < ucast count * 512"
    and c: "caller_ok is_write (ucast count * 512) s"
    and run: "\<And>f g. \<exists>st s3. transfer (s\<lparr>task_at := f, thread_at := g\<rparr>) = Ret (st, s3) \<and> io_rest s3 = io_rest (s\<lparr>task_at := f, thread_at := g\<rparr>) \<and> R (s\<lparr>task_at := f, thread_at := g\<rparr>) st s3"
  shows "\<exists>st s3 f g. block_io is_write transfer count buf buf_len intent s =
      Ret (st, s3\<lparr>task_at := io_charged is_write (ucast count * 512) intent (st = KS_STATUS_OK) s, thread_at := thread_at s\<rparr>) \<and>
    R (s\<lparr>task_at := f, thread_at := g\<rparr>) st s3 \<and> io_rest s3 = io_rest (s\<lparr>task_at := f, thread_at := g\<rparr>)"
proof -
  define cur T where "cur = s_current s" and "T = cka_current_task s"
  define tk where "tk = task_roll_window (task_at s T) (s_sched_ticks s)"
  define f where "f = (if T = NULL then task_at s else (task_at s)(T := tk))"
  define h where "h = (\<lambda>th :: thread. th\<lparr>sched_intent := ucast (intent_value (sched_intent_sanitize (cka_sched_intent_from_io intent)))\<rparr>)"
  define g where "g = (if cur = NULL then thread_at s else (thread_at s)(cur := h (thread_at s cur)))"
  let ?u = "s\<lparr>task_at := f, thread_at := g\<rparr>"
  obtain st s3 where r: "transfer ?u = Ret (st, s3)" "io_rest s3 = io_rest ?u" "R ?u st s3" using run by blast
  have s3: "task_at s3 = f" "thread_at s3 = g" "s_current s3 = cur" "s_sched_ticks s3 = s_sched_ticks s"
    using r(2) by (simp_all add: io_rest_def cur_def)
  have adm: "task_allow_io (Some (task_at s T)) (ucast count * 512) is_write (s_sched_ticks s) = (True, Some tk)" if "T \<noteq> NULL"
    using c that unfolding caller_ok_def T_def [symmetric] tk_def by (auto simp: task_allow_io_def Let_def split: if_splits)
  have TN: "T = NULL" if "cur = NULL" using that by (simp add: T_def cur_def cka_current_task_def sched_current_def)
  have chg: "(if st = KS_STATUS_OK \<and> T \<noteq> NULL then f(T := the (task_account_io (Some (f T)) (ucast count * 512) is_write (cka_sched_intent_from_io intent) (s_sched_ticks s))) else f) =
      io_charged is_write (ucast count * 512) intent (st = KS_STATUS_OK) s"
    by (auto simp: io_charged_def Let_def f_def T_def tk_def)
  note open_io = block_io_def hal_block_ready_def virtio_blk_ready_def hal_block_sector_size_def virtio_blk_sector_size_def Let_def sched_current_def sched_ticks_now_def
    T_def [symmetric] cur_def [symmetric]
  have "block_io is_write transfer count buf buf_len intent s =
      Ret (st, s3\<lparr>task_at := io_charged is_write (ucast count * 512) intent (st = KS_STATUS_OK) s, thread_at := thread_at s\<rparr>)"
  proof (cases "cur = NULL")
    case True
    then have "?u = s" "s3\<lparr>task_at := f, thread_at := thread_at s\<rparr> = s3" using s3(1,2) TN by (simp_all add: f_def g_def)
    then show ?thesis using assms(1-5) r(1) True TN unfolding chg [symmetric] by (simp add: open_io)
  next
    case False
    obtain j where j: "th_state (thread_at s cur) \<noteq> THREAD_READY" "sched_intent (thread_at s cur) = ucast (intent_value j)"
      using c False by (auto simp: caller_ok_def cur_def)
    have e1: "sched_set_thread_intent cur (cka_sched_intent_from_io intent) (s\<lparr>task_at := f\<rparr>) = Ret ?u"
      using set_intent_running [of cur "s\<lparr>task_at := f\<rparr>"] False j(1) by (simp add: g_def h_def)
    have th: "(g cur)\<lparr>sched_intent := ucast (intent_value j)\<rparr> = thread_at s cur" using j(2) False by (simp add: g_def h_def)
    have g: "g(cur := thread_at s cur) = thread_at s" using False by (simp add: g_def)
    have e2: "sched_set_thread_intent cur (intent_value j) (s3\<lparr>task_at := x\<rparr>) = Ret (s3\<lparr>task_at := x, thread_at := thread_at s\<rparr>)" for x
      using set_intent_running [of cur "s3\<lparr>task_at := x\<rparr>" "intent_value j"] False j(1) s3(2) th g by (simp add: g_def h_def)
    have old: "ucast (sched_intent (thread_at s cur)) = intent_value j" using j(2) intent_byte by simp
    show ?thesis
    proof (cases "T = NULL")
      case T: True
      then have "sched_set_thread_intent cur (cka_sched_intent_from_io intent) s = Ret ?u" "s3\<lparr>task_at := f\<rparr> = s3" using e1 s3(1) by (simp_all add: f_def)
      then show ?thesis using assms(1-5) r(1) False T old e2 [of f] unfolding chg [symmetric] by (simp add: open_io)
    next
      case T: False
      then have p: "(task_at s)(T := tk) = f" by (simp add: f_def)
      have "block_io is_write transfer count buf buf_len intent s = obind (Ret ?u) (\<lambda>s2. obind (transfer s2) (\<lambda>(status, s3).
            let s4 = (if status = KS_STATUS_OK \<and> T \<noteq> NULL
                      then put_task T (task_account_io (Some (task_at s3 T)) (ucast count * 512) is_write (cka_sched_intent_from_io intent) (sched_ticks_now s3)) s3
                      else s3) in obind (sched_set_thread_intent cur (intent_value j) s4) (\<lambda>s5. Ret (status, s5))))"
        using assms(1-5) False T by (simp add: open_io adm old p e1)
      also have "\<dots> = obind (sched_set_thread_intent cur (intent_value j) (s3\<lparr>task_at := io_charged is_write (ucast count * 512) intent (st = KS_STATUS_OK) s\<rparr>)) (\<lambda>s5. Ret (st, s5))"
        unfolding chg [symmetric] using T s3(1,4) by (cases s3) (simp add: r(1) sched_ticks_now_def)
      finally show ?thesis by (simp add: e2)
    qed
  qed
  then show ?thesis using r by blast
qed

section \<open>A read through the core API\<close>

text \<open>
  C38: a block read of the core service, at any intent but the throttled background one, returns with success
  or out of memory and never an I/O error. On success the caller's buffer holds the sectors asked for; a
  throughput read, which goes page by page, succeeds whenever one page is free. Either way every bounce page is free
  again, the calling thread has its own intent back, the task is charged exactly when the bytes arrived, the disk is
  unchanged and so is all other memory outside free pages.
\<close>

theorem cka_block_read_delivers:
  fixes s :: "('d, 'a) core_globals_scheme"
  assumes io: "io_ok view blk buf (unat count * 512) s" and comp: "blk_compliant hw pmm_phys_to_virt (vb_mmio (g_blk s)) view (Suc POLL_LIMIT)"
    and caller: "caller_ok False (ucast count * 512) s" and fg: "intent \<noteq> KS_IO_INTENT_BACKGROUND" and b: "buf \<noteq> NULL" "count \<noteq> 0"
    and sz: "unat count * 512 < 2 ^ 32" "unat count * 512 \<le> unat buf_len"
    and dk: "unat lba + unat count \<le> dv_sectors (view (vhw s))" "dv_sectors (view (vhw s)) < 2 ^ 64"
  shows "\<exists>st s'. cka_block_read_intent hw blk yld lba count buf buf_len intent s = Ret (st, s') \<and>
    (st = KS_STATUS_OK \<or> st = KS_STATUS_OUT_OF_MEMORY) \<and> (intent = KS_IO_INTENT_THROUGHPUT \<longrightarrow> free_pas s \<noteq> {} \<longrightarrow> st = KS_STATUS_OK) \<and>
    (st = KS_STATUS_OK \<longrightarrow> bytes_at (byte_at (shared s')) buf (unat count * 512) = disk_bytes (dv_disk (view (vhw s))) lba (unat count * 512)) \<and>
    free_pas s' = free_pas s \<and> thread_at s' = thread_at s \<and> task_at s' = io_charged False (ucast count * 512) intent (st = KS_STATUS_OK) s \<and>
    dv_disk (view (vhw s')) = dv_disk (view (vhw s)) \<and>
    (\<forall>a. span buf (unat count * 512) a \<or> a = status_addr blk \<or> (\<exists>pa\<in>free_pas s. span (pmm_phys_to_virt pa) 4096 a) \<or>
       byte_at (shared s') a = byte_at (shared s) a)"
proof -
  let ?n = "unat count * 512" and ?m = "io_max_chunk intent count"
  define R where "R u st s3 \<longleftrightarrow> (st = KS_STATUS_OK \<or> st = KS_STATUS_OUT_OF_MEMORY) \<and> (?m \<le> 8 \<longrightarrow> free_pas u \<noteq> {} \<longrightarrow> st = KS_STATUS_OK) \<and>
    io_moved view blk (span buf ?n) {} u s3 \<and> (st = KS_STATUS_OK \<longrightarrow> bytes_at (byte_at (shared s3)) buf ?n = disk_bytes (dv_disk (view (vhw u))) lba ?n)"
    for u s3 :: "('d, 'a) core_globals_scheme" and st
  have ok: "vb_ready (g_blk s)" "vb_sector_size (g_blk s) = 512" using io by (simp_all add: io_ok_def blk_ok_def Let_def)
  have m0: "?m \<noteq> 0" using b(2) by (simp add: io_max_chunk_def)
  have bl: "\<not> buf_len < ucast count * 512"
    using sz by (simp add: word_less_nat_alt unat_word_ariths unsigned_ucast_eq take_bit_nat_eq_self)
  let ?tr = "\<lambda>t. block_read_loop hw blk yld intent lba buf (hal_block_sector_size t) ?m (unat count) count 0 t"
  have run: "\<exists>st s3. ?tr (s\<lparr>task_at := f, thread_at := g\<rparr>) = Ret (st, s3) \<and> io_rest s3 = io_rest (s\<lparr>task_at := f, thread_at := g\<rparr>) \<and> R (s\<lparr>task_at := f, thread_at := g\<rparr>) st s3" for f g
  proof -
    let ?u = "s\<lparr>task_at := f, thread_at := g\<rparr>"
    have "io_ok view blk buf ?n ?u" "blk_compliant hw tr (vb_mmio (g_blk ?u)) view (Suc POLL_LIMIT)" using io comp by simp_all
    from block_read_loop_ok [where rem = count and k = "unat count" and off = 0 and lba = lba and yld = yld, OF this fg m0 sz(1)] dk obtain st s3 where
      l: "block_read_loop hw blk yld intent lba buf 512 ?m (unat count) count 0 ?u = Ret (st, s3)" and rest: "st = KS_STATUS_OK \<or> st = KS_STATUS_OUT_OF_MEMORY"
        "?m \<le> 8 \<longrightarrow> free_pas ?u \<noteq> {} \<longrightarrow> st = KS_STATUS_OK" "io_moved view blk (span buf ?n) {} ?u s3"
        "st = KS_STATUS_OK \<longrightarrow> bytes_at (byte_at (shared s3)) buf ?n = disk_bytes (dv_disk (view (vhw ?u))) lba ?n" by auto
    have "R ?u st s3" unfolding R_def using rest by blast
    moreover have "io_rest s3 = io_rest ?u" using rest(3) unfolding io_moved_def by blast
    moreover have "?tr ?u = Ret (st, s3)" using l ok(2) by (simp add: hal_block_sector_size_def virtio_blk_sector_size_def)
    ultimately show ?thesis by blast
  qed
  from block_io_runs [where transfer = ?tr and R = R and buf_len = buf_len and intent = intent, OF b ok bl caller run] obtain st s3 f g where
    r: "block_io False ?tr count buf buf_len intent s = Ret (st, s3\<lparr>task_at := io_charged False (ucast count * 512) intent (st = KS_STATUS_OK) s, thread_at := thread_at s\<rparr>)"
      "R (s\<lparr>task_at := f, thread_at := g\<rparr>) st s3" by blast
  let ?s' = "s3\<lparr>task_at := io_charged False (ucast count * 512) intent (st = KS_STATUS_OK) s, thread_at := thread_at s\<rparr>"
  have mv: "io_moved view blk (span buf ?n) {} (s\<lparr>task_at := f, thread_at := g\<rparr>) s3" using r(2) by (simp add: R_def)
  then have "free_pas ?s' = free_pas s" "dv_disk (view (vhw ?s')) = dv_disk (view (vhw s))"
    "\<forall>a. span buf ?n a \<or> a = status_addr blk \<or> (\<exists>pa\<in>free_pas s. span (tr pa) 4096 a) \<or> byte_at (shared ?s') a = byte_at (shared s) a"
    using io_moved_disk [OF mv] by (simp_all add: io_moved_def free_pas_def)
  moreover have "intent = KS_IO_INTENT_THROUGHPUT \<longrightarrow> free_pas s \<noteq> {} \<longrightarrow> st = KS_STATUS_OK" "st = KS_STATUS_OK \<or> st = KS_STATUS_OUT_OF_MEMORY"
    "st = KS_STATUS_OK \<longrightarrow> bytes_at (byte_at (shared ?s')) buf ?n = disk_bytes (dv_disk (view (vhw s))) lba ?n"
    using r(2) by (simp_all add: R_def io_max_chunk_def free_pas_def)
  ultimately show ?thesis unfolding cka_block_read_intent_def r(1) by (intro exI conjI) (rule refl, assumption+ | simp)+
qed

text \<open>A thread of a task without ceilings, on the example of the memory calls.\<close>

definition example_caller :: "(vdev \<times> bool) core_globals" where
  "example_caller = example_core\<lparr>s_current := 0x1000, task_at := (\<lambda>_. the (task_init (Some undefined) NULL)),
     thread_at := (\<lambda>_. (thread_at example_core 0)\<lparr>th_state := THREAD_RUNNING, sched_intent := 0, th_task := 0x2000\<rparr>)\<rparr>"

lemma example_free_pas: "free_pas example_core = {0x40004000, 0x40005000, 0x40006000, 0x40007000}"
proof -
  have "g_pmm example_core = g_pmm example_pmm"
    by (simp add: example_core_def example_virtio_def example_kheap_def example_kheap0_def kheap_init_def example_work_def example_sched0_def example_cap0_def
      example_slab_def example_pmm_def pmm_globals.defs slab_globals.defs cap_globals.defs sched_globals.defs work_globals.defs ipc_globals.defs kheap_globals.defs virtio_globals.defs)
  then show ?thesis using example_pmm_free by (simp add: free_pas_def)
qed

lemma example_io_ok: "io_ok fst (tr 0x40100000) (tr 0x42000000) 1024 example_caller"
proof -
  have b: "blk_ok fst (tr 0x40100000) example_core" using example_virtio_ok
    by (simp add: blk_ok_def example_core_def example_virtio_def virtio_globals.defs kheap_globals.defs)
  have "\<not> in_irq example_core" "pmm_ok example_core"
    using example_core_facts [of "task_at example_core"] by (auto simp: kheap_inv_def kheap_rep_def)
  then have p: "\<not> in_irq example_caller" "pmm_ok example_caller" "free_pas example_caller = free_pas example_core" "blk_ok fst (tr 0x40100000) example_caller"
    using b by (simp_all add: example_caller_def in_irq_def free_pas_def blk_ok_def pmm_ok_cong [of "example_core\<lparr>s_current := 0x1000, task_at := h, thread_at := g\<rparr>" example_core for h g])
  have far: "a \<noteq> status_addr (tr 0x40100000) \<and> \<not> span (tr 0x42000000) 1024 a" if "unat pa + 4096 \<le> 0x40008000" "span (tr pa) 4096 a" for pa a
  proof -
    have u: "unat (tr pa) = 0xFFFF800000000000 + unat pa" using that(1) by (intro tr_unat) simp
    then have "unat a < 0xFFFF800040008000" using that span_iff_interval [of "tr pa" 4096 a] by simp
    then show ?thesis using span_iff_interval [of "tr 0x42000000" 1024 a] by (auto simp: status_addr_def pmm_phys_to_virt_def kaddr_config)
  qed
  have "unat pa + 4096 \<le> 0x40008000" if "pa \<in> free_pas example_caller" for pa using that unfolding p(3) example_free_pas by auto
  then have "\<forall>pa\<in>free_pas example_caller. \<forall>a. span (tr pa) 4096 a \<longrightarrow> a \<noteq> status_addr (tr 0x40100000) \<and> \<not> span (tr 0x42000000) 1024 a" using far by blast
  moreover have "unat (tr 0x42000000) + 1024 < 2 ^ 64" "\<not> span (tr 0x42000000) 1024 (status_addr (tr 0x40100000))"
    by (simp_all add: span_def status_addr_def pmm_phys_to_virt_def kaddr_config)
  ultimately show ?thesis using p(1,2,4) unfolding io_ok_def by blast
qed

theorem cka_block_read_delivers_witness:
  "\<exists>s'. cka_block_read_intent (prompt_device pmm_phys_to_virt) (tr 0x40100000) (\<lambda>s. obind (yield s) (\<lambda>(_, s1). Ret s1)) 7 2 (tr 0x42000000) 1024 KS_IO_INTENT_THROUGHPUT example_caller = Ret (KS_STATUS_OK, s') \<and>
     bytes_at (byte_at (shared s')) (tr 0x42000000) 1024 = replicate 1024 0 \<and> free_pas s' = {0x40004000, 0x40005000, 0x40006000, 0x40007000}"
proof -
  have c: "caller_ok False (ucast (2 :: u32) * 512) example_caller"
    by (simp add: caller_ok_def example_caller_def cka_current_task_def sched_current_def task_allow_io_def task_init_def task_roll_window_def Let_def
      intent_value.simps exI [of _ SCHED_INTENT_INTERACTIVE])
  have d: "dv_sectors (fst (vhw example_caller)) = 100" "dv_disk (fst (vhw example_caller)) = (\<lambda>_. 0)"
    by (simp_all add: example_caller_def example_core_def example_virtio_def virtio_globals.defs kheap_globals.defs)
  have f: "free_pas example_caller = {0x40004000, 0x40005000, 0x40006000, 0x40007000}" using example_free_pas by (simp add: example_caller_def free_pas_def)
  have io: "io_ok fst (tr 0x40100000) (tr 0x42000000) (unat (2 :: u32) * 512) example_caller" using example_io_ok by simp
  have z: "map (\<lambda>i. 0 :: u8) [0..<1024] = replicate 1024 0" by (simp add: map_replicate_const)
  have g: "KS_IO_INTENT_THROUGHPUT \<noteq> KS_IO_INTENT_BACKGROUND" "tr 0x42000000 \<noteq> NULL" "(2 :: u32) \<noteq> 0" "unat (2 :: u32) * 512 < 2 ^ 32" "unat (2 :: u32) * 512 \<le> unat (1024 :: u64)"
    "unat (7 :: u64) + unat (2 :: u32) \<le> dv_sectors (fst (vhw example_caller))" "dv_sectors (fst (vhw example_caller)) < 2 ^ 64"
    using d(1) by (simp_all add: KS_IO_INTENT_THROUGHPUT_def KS_IO_INTENT_BACKGROUND_def pmm_phys_to_virt_def kaddr_config)
  obtain st s' where r: "cka_block_read_intent (prompt_device pmm_phys_to_virt) (tr 0x40100000) (\<lambda>s. obind (yield s) (\<lambda>(_, s1). Ret s1)) 7 2 (tr 0x42000000) 1024
      KS_IO_INTENT_THROUGHPUT example_caller = Ret (st, s')" "free_pas example_caller \<noteq> {} \<longrightarrow> st = KS_STATUS_OK"
    "st = KS_STATUS_OK \<longrightarrow> bytes_at (byte_at (shared s')) (tr 0x42000000) (unat (2 :: u32) * 512) = disk_bytes (dv_disk (fst (vhw example_caller))) 7 (unat (2 :: u32) * 512)"
    "free_pas s' = free_pas example_caller" using cka_block_read_delivers [OF io prompt_device_compliant c g] by blast
  then show ?thesis using f d(2) z by (intro exI [of _ s']) (simp add: disk_bytes_def)
qed

end
