(* ===== verification/Spec2Isabelle.thy ===== *)
theory Spec2Isabelle
  imports KPrelude Mem Irq Kaddr Pmm Slab Cap Task Deadline_Queue Fifo Sched Sched_Queue Sched_Inv Sched_Props Thread Work_Queue Ipc Ipc_Props Kheap Boot_Disk Fat16 Fat16_Props Boot_Info Loader Dtb Dtb_Props Platform Pmm_Init Mmu Mmu_Props Math_Helper Virtio Virtio_Blk Virtio_Props Boot_Block Core_Api Core_Mem Core_Bounce Core_Block
begin

text \<open>
  Verification of the CapazOS kernel and its boot loader.

  \<^bold>\<open>The program.\<close> CapazOS is a single-core AArch64 kernel in C with a small loader. The loader
  (\<open>Kern/Loader/loader.c\<close>) finds the boot partition, reads the kernel image from a FAT16 volume into
  physical memory and jumps to it. The kernel manages page frames (\<open>mm/pmm.c\<close>), slab caches on top of
  them (\<open>alloc/slab_cache.c\<close>) and a byte heap (\<open>kheap.c\<close>); threads with a weighted round-robin
  scheduler driven by the timer interrupt (\<open>sched/\<close>); capability tables (\<open>cap/\<close>); message endpoints
  addressed by capabilities (\<open>ipc/\<close>); work deferred from interrupts (\<open>work/\<close>); resource contracts
  of tasks (\<open>task/\<close>); the memory map from the device tree (\<open>platform/\<close>) and the translation tables
  (\<open>mm/mmu.c\<close>); a virtio block device (\<open>dev/virtio_blk.c\<close>); and the services the core calls
  (\<open>api/core_kernel_api.c\<close>).

  \<^bold>\<open>Theories.\<close> Every theory opens with what it holds; the order is that of the calls.
  \<^item> \<open>KPrelude\<close>: machine integers, the outcome of an operation (a value, a panic, a loop that never
    returns) with its partial-correctness rules, linked chains. \<open>Mem\<close>: byte memory, \<open>mm/mem.c\<close> and the
    loader's copies of its routines. \<open>Fifo\<close>: the interface of a first-in first-out queue, a locale
    interpreted on the ready queues, the endpoint queues and the work queue.
  \<^item> \<open>Irq\<close>: interrupt depth, masking, registration and dispatch (\<open>irg/irq.c\<close>). \<open>Kaddr\<close>: page size,
    alignment and the high-half direct map.
  \<^item> \<open>Pmm\<close>: the page bitmap. \<open>Slab\<close>: caches of objects carved out of pages. \<open>Kheap\<close>: the byte heap.
  \<^item> \<open>Cap\<close>: entries, tables, operations and the self test. \<open>Task\<close>: accounting windows and ceilings.
    \<open>Deadline_Queue\<close>: the array of deadlines.
  \<^item> \<open>Sched\<close>: the scheduler's operations; \<open>Sched_Queue\<close>, \<open>Sched_Inv\<close> and \<open>Sched_Props\<close>: the ready
    queues as lists, the invariant, and the properties. \<open>Thread\<close>: creation, exit and teardown.
  \<^item> \<open>Work_Queue\<close>, \<open>Ipc\<close> and \<open>Ipc_Props\<close>: deferred work, endpoints and messages.
  \<^item> \<open>Boot_Disk\<close>: the disk and the partition table. \<open>Fat16\<close> and \<open>Fat16_Props\<close>: the volume, its
    directories and files. \<open>Loader\<close>: the ELF image and the loader's entry point.
  \<^item> \<open>Boot_Info\<close>: what the loader hands over. \<open>Dtb\<close> and \<open>Dtb_Props\<close>: the flattened device tree and its walks
    (\<open>platform/dtb.c\<close>). \<open>Platform\<close>: the usable memory ranges (\<open>platform/platform.c\<close>). \<open>Pmm_Init\<close>: the
    construction of the page bitmap from them. \<open>Mmu\<close> and \<open>Mmu_Props\<close>: the translation tables, their self test
    and their installation (\<open>mm/mmu.c\<close>).
  \<^item> \<open>Virtio\<close>: the queue structures in memory shared with the device, and what a device that follows the
    specification does with them. \<open>Virtio_Blk\<close> and \<open>Virtio_Props\<close>: the kernel's block driver
    (\<open>dev/virtio_blk.c\<close>, \<open>HAL/hal_block.c\<close>). \<open>Boot_Block\<close>: the loader's block driver
    (\<open>Loader/boot_block_virtio.c\<close>). \<open>Math_Helper\<close>: byte counts as text (\<open>util/MathHelper.c\<close>).
  \<^item> \<open>Core_Api\<close>: the services of the kernel to its core (\<open>api/core_kernel_api.c\<close>). \<open>Core_Mem\<close>: its memory and
    contract services. \<open>Core_Bounce\<close> and \<open>Core_Block\<close>: one round, and whole transfers, of its block I/O.

  \<^bold>\<open>State and operations.\<close> The kernel's global variables are a chain of records, each component
  extending the one below it (\<open>irq_globals\<close>, \<open>pmm_globals\<close>, \<open>slab_globals\<close>, \<open>cap_globals\<close>,
  \<open>sched_globals\<close>, \<open>work_globals\<close>, \<open>ipc_globals\<close>, \<open>kheap_globals\<close>,
  \<open>virtio_globals\<close>, \<open>core_globals\<close>), so an operation runs on every state above its own; the device tree parser
  and the translation tables have records of their own (\<open>dtb_globals\<close>, \<open>mmu_globals\<close>). Objects reached by pointers are maps from addresses to records. An operation of the
  source is one definition with the source's name; a loop is a definition of its own; an out-parameter
  becomes part of the result; \<open>panic\<close> and a failed assertion are the outcome \<open>Panic\<close>. Loops that may
  not end are partial functions into \<open>option\<close> and their non-termination is the outcome \<open>Hang\<close>. Integers
  keep their width, so every sum wraps where the source's does. The configuration is the default of the
  build: preemptive scheduling with intent classes, resource ceilings on, scheduler debugging off,
  poisoning of freed objects, the \<open>virt\<close> board.

  \<^bold>\<open>What is shown.\<close>
  \<^item> Memory: over any run of a client, the pages free at its start are partitioned into those it holds and
    the free ones; slab objects from a fresh cache on and live heap blocks never overlap; the heap and the caches give back what they took; \<open>memmove\<close> is a
    simultaneous copy.
  \<^item> Capabilities: every operation keeps the tables well formed; a handle that was dropped,
    transferred or invalidated stays invalid for 2^32 - 2 further operations; rights are bounded by those held
    or created. The bytes a task moves in a window stay within its ceiling.
  \<^item> Scheduling: from boot, every sequence of calls keeps the queues well formed and no legal call
    panics or searches forever; \<open>yield\<close> implements an abstract dispatcher; a ready thread is picked within
    a bounded number of picks; classes get their share; the frame returned from an interrupt is a
    recorded one.
  \<^item> Messages: what is sent to an endpoint is received once, in order and unaltered, under any
    interleaving with the scheduler; rights are enforced; a blocked receiver is woken.
  \<^item> Booting: the partition search, the directory search and the file reads agree with reference
    definitions over lists; the loader places a well-formed image and hands over; a read returns on
    every device.
  \<^item> Memory map: the walk over an encoded device tree collects the memory of the tree; the usable ranges and
    the initial free pages are exactly the memory nothing reserves; the tables map memory to its direct-map
    address and nothing both writable and executable.
  \<^item> Block I/O: what is written to the device is read back; the drivers agree with the device after probing;
    a read through the core API delivers the sectors, returns its bounce pages and charges the task.
  Where the code does something else than it means to, a theorem states what it does, for example a
  wake-up that is lost between registering and blocking, or a page count that is cut to 32 bits.

  \<^bold>\<open>Bounds.\<close> A loop that has no bound of its own in the source is a partial function; two loops of
  the core API and the polling of the block driver count down a natural number: the polling limit of the
  source, the bytes of a text and the sectors of a transfer, of which every round takes at least one. A loop over an index below a machine-integer bound recurses over a
  natural number, which the bound keeps exact. Hypotheses that exclude wrap-around are stated in the
  theorems. The block device of the loader is a function from sector numbers to what a read returns,
  including the buffer contents after a failed read; that reads of one sector agree with one another is
  part of that model.

  \<^bold>\<open>Devices.\<close> A virtio device is a parameter: its register reads and writes and the steps it takes between two
  polls, on a state of its own and the shared memory. What the drivers rely on is a hypothesis
  (\<open>blk_compliant\<close>, \<open>reg_compliant\<close>): it serves the requests of the available ring in order and reports them in
  the used ring. \<open>prompt_device\<close> is a device that satisfies it.

  \<^bold>\<open>Not modelled.\<close> The console, the interrupt controller and the timer are accesses to device registers;
  handlers and register reads are parameters where a component calls them. Context switching and
  exception entry are assembly, modelled by their effect on the saved contexts. Cache maintenance and
  barriers have no effect in the model. Log output is left out. The kernel's boot sequence (\<open>kmain.c\<close>) and the
  Swift core are not modelled. Block headers of the heap, slab pages and ring structures are kept in maps
  beside the byte memory, so writes past the end of a block are outside the model; the poison bytes \<open>kfree\<close>
  stores into a small block are not modelled. One core runs and interrupts are taken between the steps of the
  models.
\<close>

end
